(* ===== verification/Prelude.thy ===== *)
theory Prelude
  imports Main "HOL-Library.Word"
begin

text \<open>
  Shared vocabulary of the development: Go's machine integers and byte strings, results that may
  be an error or a run-time panic, bounds-checked indexing and slicing, loops that may fail, and
  the list and word lemmas that the components use.

  Conventions. A Go \<^verbatim>\<open>intN\<close> or \<^verbatim>\<open>uintN\<close> is an \<open>N word\<close>; signed reading is \<open>sint\<close> and signed
  comparison goes through it. A Go \<^verbatim>\<open>int\<close> that is a length, an index or a row count is a \<open>nat\<close>.
  A Go \<^verbatim>\<open>string\<close> is a \<open>string\<close> (one \<open>char\<close> per byte), a \<^verbatim>\<open>[]byte\<close> is a \<open>byte list\<close>.
  An out-of-range index, a failed type assertion and an explicit \<^verbatim>\<open>panic\<close> are the value \<open>Inl Panic\<close>;
  a returned \<^verbatim>\<open>error\<close> is \<open>Inl (Err e)\<close>.
\<close>

unbundle bit_operations_syntax

type_synonym byte = "8 word"
type_synonym u16 = "16 word"
type_synonym u32 = "32 word"
type_synonym u64 = "64 word"
type_synonym i32 = "32 word"
type_synonym i64 = "64 word"

named_theorems go_simps \<open>evaluation of results, indexing and bounded loops\<close>
named_theorems go_elims \<open>inversion of successful computations\<close>


section \<open>Results, errors and panics\<close>

datatype 'e go_err = Panic | Err 'e

type_synonym ('e, 'a) res = "'e go_err + 'a"

definition res_bind :: "'e + 'a \<Rightarrow> ('a \<Rightarrow> 'e + 'b) \<Rightarrow> 'e + 'b" where
  "res_bind m f = (case m of Inl e \<Rightarrow> Inl e | Inr x \<Rightarrow> f x)"

definition res_map :: "('a \<Rightarrow> 'b) \<Rightarrow> 'e + 'a \<Rightarrow> 'e + 'b" where
  "res_map f m = (case m of Inl e \<Rightarrow> Inl e | Inr x \<Rightarrow> Inr (f x))"

text \<open>The caller replaces whatever error it got by its own, as \<^verbatim>\<open>wrap(op, ErrX)\<close> does.\<close>

definition res_wrap :: "'e \<Rightarrow> ('d, 'a) res \<Rightarrow> ('e, 'a) res" where
  "res_wrap e m = (case m of Inl Panic \<Rightarrow> Inl Panic | Inl (Err _) \<Rightarrow> Inl (Err e) | Inr x \<Rightarrow> Inr x)"

lemma res_bind_simps [simp, go_simps, code_unfold]:
  "res_bind (Inl e) f = Inl e"
  "res_bind (Inr x) f = f x"
  by (simp_all add: res_bind_def)

lemma res_map_simps [simp, go_simps]:
  "res_map f (Inl e) = Inl e"
  "res_map f (Inr x) = Inr (f x)"
  by (simp_all add: res_map_def)

lemma res_wrap_simps [simp, go_simps]:
  "res_wrap e (Inl Panic) = Inl Panic"
  "res_wrap e (Inl (Err d)) = Inl (Err e)"
  "res_wrap e (Inr x) = Inr x"
  by (simp_all add: res_wrap_def)

lemma res_bind_eq_Inr: "res_bind m f = Inr y \<longleftrightarrow> (\<exists>x. m = Inr x \<and> f x = Inr y)"
  by (cases m) auto

lemma res_bind_eq_Inl: "res_bind m f = Inl e \<longleftrightarrow> m = Inl e \<or> (\<exists>x. m = Inr x \<and> f x = Inl e)"
  by (cases m) auto

lemma res_map_eq_Inr: "res_map f m = Inr y \<longleftrightarrow> (\<exists>x. m = Inr x \<and> y = f x)"
  by (cases m) auto

lemma res_bindE [go_elims, elim]:
  assumes "res_bind m f = Inr y"
  obtains x where "m = Inr x" "f x = Inr y"
  using assms by (auto simp: res_bind_eq_Inr)

lemma res_bind_cong [fundef_cong]:
  assumes "m = m'" "\<And>x. m' = Inr x \<Longrightarrow> f x = f' x"
  shows "res_bind m f = res_bind m' f'"
  using assms by (cases m') auto

lemma res_bind_assoc: "res_bind (res_bind m f) g = res_bind m (\<lambda>x. res_bind (f x) g)"
  by (cases m) auto


section \<open>Indexing and slicing with Go's bounds checks\<close>

definition idx :: "'a list \<Rightarrow> nat \<Rightarrow> ('e, 'a) res" where
  "idx xs i = (if i < length xs then Inr (xs ! i) else Inl Panic)"

definition upd :: "'a list \<Rightarrow> nat \<Rightarrow> 'a \<Rightarrow> ('e, 'a list) res" where
  "upd xs i v = (if i < length xs then Inr (xs[i := v]) else Inl Panic)"

text \<open>\<open>slice xs a b\<close> is \<^verbatim>\<open>xs[a:b]\<close>, for slices whose capacity is their length.\<close>

definition slice :: "'a list \<Rightarrow> nat \<Rightarrow> nat \<Rightarrow> ('e, 'a list) res" where
  "slice xs a b = (if a \<le> b \<and> b \<le> length xs then Inr (take (b - a) (drop a xs)) else Inl Panic)"

text \<open>The built-in \<^verbatim>\<open>copy(dst, src)\<close>: as many elements as both have.\<close>

definition copy_into :: "'a list \<Rightarrow> 'a list \<Rightarrow> 'a list" where
  "copy_into dst src = take (length dst) src @ drop (length src) dst"

lemma length_copy_into [simp]: "length (copy_into dst src) = length dst"
  by (simp add: copy_into_def)

lemma nth_copy_into: "i < length dst \<Longrightarrow> copy_into dst src ! i = (if i < length src then src ! i else dst ! i)"
  by (auto simp: copy_into_def nth_append min_def)

lemma copy_into_all: "length src = length dst \<Longrightarrow> copy_into dst src = src"
  by (simp add: copy_into_def)

lemma idx_ok [simp, go_simps]: "i < length xs \<Longrightarrow> idx xs i = Inr (xs ! i)"
  by (simp add: idx_def)

lemma idx_panic: "length xs \<le> i \<Longrightarrow> idx xs i = Inl Panic"
  by (simp add: idx_def)

lemma idx_eq_Inr: "idx xs i = Inr x \<longleftrightarrow> i < length xs \<and> xs ! i = x"
  by (auto simp: idx_def)

lemma upd_ok [simp, go_simps]: "i < length xs \<Longrightarrow> upd xs i v = Inr (xs[i := v])"
  by (simp add: upd_def)

lemma upd_eq_Inr: "upd xs i v = Inr ys \<longleftrightarrow> i < length xs \<and> ys = xs[i := v]"
  by (auto simp: upd_def)

lemma slice_ok [simp, go_simps]:
  "a \<le> b \<Longrightarrow> b \<le> length xs \<Longrightarrow> slice xs a b = Inr (take (b - a) (drop a xs))"
  by (simp add: slice_def)


section \<open>Loops that may fail\<close>

fun fold_res :: "('s \<Rightarrow> 'a \<Rightarrow> 'e + 's) \<Rightarrow> 's \<Rightarrow> 'a list \<Rightarrow> 'e + 's" where
  "fold_res f s [] = Inr s"
| "fold_res f s (x # xs) = res_bind (f s x) (\<lambda>s'. fold_res f s' xs)"

fun map_res :: "('a \<Rightarrow> 'e + 'b) \<Rightarrow> 'a list \<Rightarrow> 'e + 'b list" where
  "map_res f [] = Inr []"
| "map_res f (x # xs) = res_bind (f x) (\<lambda>y. res_map (\<lambda>ys. y # ys) (map_res f xs))"

lemma fold_res_cong [fundef_cong]:
  assumes "s = s'" "xs = xs'" "\<And>s x. x \<in> set xs' \<Longrightarrow> f s x = f' s x"
  shows "fold_res f s xs = fold_res f' s' xs'"
  using assms(3) unfolding assms(1,2)
  by (induction xs' arbitrary: s') (auto intro!: res_bind_cong)

lemma map_res_cong [fundef_cong]:
  assumes "xs = xs'" "\<And>x. x \<in> set xs' \<Longrightarrow> f x = f' x"
  shows "map_res f xs = map_res f' xs'"
  using assms(2) unfolding assms(1) by (induction xs') auto

lemma fold_res_append:
  "fold_res f s (xs @ ys) = res_bind (fold_res f s xs) (\<lambda>s'. fold_res f s' ys)"
  by (induction xs arbitrary: s) (auto simp: res_bind_assoc)

lemma fold_res_keeps: "fold_res f s xs = Inr s' \<Longrightarrow> (\<And>s x s'. f s x = Inr s' \<Longrightarrow> P s \<Longrightarrow> P s') \<Longrightarrow> P s \<Longrightarrow> P s'"
  by (induction xs arbitrary: s) (auto simp: res_bind_eq_Inr)

lemma map_res_ok:
  assumes "\<And>x. x \<in> set xs \<Longrightarrow> f x = Inr (g x)"
  shows "map_res f xs = Inr (map g xs)"
  using assms by (induction xs) auto

lemma map_res_length: "map_res f xs = Inr ys \<Longrightarrow> length ys = length xs"
  by (induction xs arbitrary: ys) (auto simp: res_bind_eq_Inr res_map_eq_Inr)

text \<open>
  A \<^verbatim>\<open>for i := 0; i < n; i++\<close> loop: an invariant indexed by the counter gives the result.
\<close>

lemma fold_res_upto:
  assumes "P 0 s"
    and "\<And>i s. i < n \<Longrightarrow> P i s \<Longrightarrow> \<exists>s'. f s i = Inr s' \<and> P (Suc i) s'"
  shows "\<exists>s'. fold_res f s [0..<n] = Inr s' \<and> P n s'"
  using assms
proof (induction n)
  case 0
  then show ?case by simp
next
  case (Suc n)
  then obtain s1 where "fold_res f s [0..<n] = Inr s1" "P n s1" by auto
  moreover obtain s2 where "f s1 n = Inr s2" "P (Suc n) s2"
    using Suc.prems(2) calculation(2) by blast
  ultimately show ?case by (simp add: fold_res_append)
qed

text \<open>A loop whose steps cannot fail is a fold.\<close>

lemma fold_res_ok:
  assumes "\<forall>x \<in> set xs. \<forall>s. f s x = Inr (g s x)"
  shows "fold_res f s xs = Inr (foldl g s xs)"
  using assms by (induction xs arbitrary: s) simp_all

lemma enumerate_map: "enumerate 0 (xs :: 'a list) = map (\<lambda>i. (i, xs ! i)) [0..<length xs]"
  by (rule nth_equalityI) (simp_all add: nth_enumerate_eq)

lemma fold_res_map: "fold_res f s (map g xs) = fold_res (\<lambda>s x. f s (g x)) s xs"
  by (induction xs arbitrary: s) simp_all

lemma foldl_append_concat: "foldl (\<lambda>buf i. buf @ f i) buf is = buf @ concat (map f is)"
  by (induction "is" arbitrary: buf) simp_all


section \<open>The first position of an element\<close>

fun first_index :: "'a \<Rightarrow> 'a list \<Rightarrow> nat option" where
  "first_index x [] = None"
| "first_index x (y # ys) = (if y = x then Some 0 else map_option Suc (first_index x ys))"

lemma first_index_None: "first_index x ys = None \<longleftrightarrow> x \<notin> set ys"
  by (induction ys) auto

lemma first_index_mem: "first_index x ys = Some i \<Longrightarrow> x \<in> set ys"
  using first_index_None [of x ys] by auto

lemma Suc_plus_fun: "(\<lambda>x. Suc (n + x)) = (+) (Suc n)"
  by auto

lemma zero_plus_fun: "(+) (0::nat) = id"
  by auto

lemma first_index_append:
  "first_index x (ys @ zs) = (case first_index x ys of Some i \<Rightarrow> Some i
     | None \<Rightarrow> map_option (\<lambda>i. length ys + i) (first_index x zs))"
  by (induction ys)
    (auto split: option.splits simp: option.map_comp comp_def Suc_plus_fun zero_plus_fun option.map_id)

lemma first_index_Some:
  "first_index x ys = Some i \<longleftrightarrow> i < length ys \<and> ys ! i = x \<and> (\<forall>j < i. ys ! j \<noteq> x)"
proof (induction ys arbitrary: i)
  case (Cons y ys)
  then show ?case by (cases i) (auto simp: All_less_Suc2)
qed simp


section \<open>Words\<close>

lemma xor_cancel_left [simp]: "(z :: 'a::len word) XOR x = z XOR y \<longleftrightarrow> x = y"
proof
  assume "z XOR x = z XOR y"
  then have "z XOR (z XOR x) = z XOR (z XOR y)" by (rule arg_cong)
  then show "x = y" by (simp add: xor.assoc [symmetric])
qed simp

lemma xor_cancel_right [simp]: "(x :: 'a::len word) XOR z = y XOR z \<longleftrightarrow> x = y"
  by (simp add: xor.commute [of _ z])

lemma xor_eq_minus_one: "(x :: 'a::len word) XOR y = - 1 \<longleftrightarrow> y = NOT x"
proof -
  have "x XOR NOT x = - 1" by simp
  then show ?thesis using xor_cancel_left [of x y "NOT x"] by (simp only:)
qed

text \<open>Offsets and counters below \<open>2 ^ 63\<close>.\<close>

lemma sint_word_of_nat: "n < 2 ^ 63 \<Longrightarrow> sint (word_of_nat n :: i64) = int n"
  by (simp add: signed_of_nat signed_take_bit_int_eq_self_iff)

lemma unat_i64: "x < 2 ^ 63 \<Longrightarrow> unat (word_of_nat x :: i64) = x"
  by (simp add: unat_of_nat take_bit_nat_eq_self)


section \<open>Bytes and strings\<close>

definition byte_of_char :: "char \<Rightarrow> byte" where
  "byte_of_char c = of_char c"

definition char_of_byte :: "byte \<Rightarrow> char" where
  "char_of_byte b = char_of (unat b)"

definition bytes_of :: "string \<Rightarrow> byte list" where
  "bytes_of s = map byte_of_char s"

definition string_of :: "byte list \<Rightarrow> string" where
  "string_of bs = map char_of_byte bs"

lemma char_of_byte_of_char [simp]: "char_of_byte (byte_of_char c) = c"
proof -
  have "unat (of_char c :: byte) = (of_char c :: nat) mod 256"
    by (subst of_nat_of_char [symmetric], subst unat_of_nat, simp)
  then show ?thesis by (simp add: char_of_byte_def byte_of_char_def)
qed

lemma string_of_bytes_of [simp]: "string_of (bytes_of s) = s"
  by (simp add: string_of_def bytes_of_def comp_def)

lemma length_bytes_of [simp]: "length (bytes_of s) = length s"
  by (simp add: bytes_of_def)

lemma length_string_of [simp]: "length (string_of bs) = length bs"
  by (simp add: string_of_def)

lemma bytes_of_append [simp]: "bytes_of (s @ t) = bytes_of s @ bytes_of t"
  by (simp add: bytes_of_def)

lemma bytes_of_inj [simp]: "bytes_of s = bytes_of t \<longleftrightarrow> s = t"
  by (metis string_of_bytes_of)

end
