(* ===== verification/Encoding.thy ===== *)
theory Encoding
  imports Prelude
begin

text \<open>
  The package \<^verbatim>\<open>internal/encoding\<close>: little-endian append and read of fixed-width integers
  (\<^verbatim>\<open>binary.go\<close>, \<^verbatim>\<open>math.go\<close>) and the CRC32-IEEE trailer that protects every block of a table
  file (\<^verbatim>\<open>crc.go\<close>). A float travels as its IEEE bit pattern, so \<^verbatim>\<open>AppendFloat64\<close> is \<^verbatim>\<open>AppendUint64\<close>
  of the bits. The trailer is the interface \<open>sealing\<close>: what is sealed opens to the payload and a
  sealed block with one altered byte does not open.
\<close>

section \<open>Little-endian integers\<close>

definition le_bytes :: "nat \<Rightarrow> 'a::len word \<Rightarrow> byte list" where
  "le_bytes n w = map (\<lambda>i. ucast (drop_bit (8 * i) w)) [0..<n]"

fun le_word :: "byte list \<Rightarrow> 'a::len word" where
  "le_word [] = 0"
| "le_word (b # bs) = ucast b OR push_bit 8 (le_word bs)"

text \<open>
  \<^verbatim>\<open>binary.LittleEndian.UintN(b)\<close> followed by \<^verbatim>\<open>b[n:]\<close>: both panic on a slice that is too short.
\<close>

definition read_le :: "nat \<Rightarrow> byte list \<Rightarrow> ('e, 'a::len word \<times> byte list) res" where
  "read_le n b = (if n \<le> length b then Inr (le_word (take n b), drop n b) else Inl Panic)"

definition AppendUint16 :: "byte list \<Rightarrow> u16 \<Rightarrow> byte list" where
  "AppendUint16 b v = b @ le_bytes 2 v"

definition AppendUint32 :: "byte list \<Rightarrow> u32 \<Rightarrow> byte list" where
  "AppendUint32 b v = b @ le_bytes 4 v"

definition AppendInt32 :: "byte list \<Rightarrow> i32 \<Rightarrow> byte list" where
  "AppendInt32 b v = b @ le_bytes 4 v"

definition AppendUint64 :: "byte list \<Rightarrow> u64 \<Rightarrow> byte list" where
  "AppendUint64 b v = b @ le_bytes 8 v"

definition AppendInt64 :: "byte list \<Rightarrow> i64 \<Rightarrow> byte list" where
  "AppendInt64 b v = b @ le_bytes 8 v"

definition AppendFloat64 :: "byte list \<Rightarrow> u64 \<Rightarrow> byte list" where
  "AppendFloat64 b bits = b @ le_bytes 8 bits"

definition AppendBytes :: "byte list \<Rightarrow> byte list \<Rightarrow> byte list" where
  "AppendBytes b v = b @ v"

definition ReadUint16 :: "byte list \<Rightarrow> ('e, u16 \<times> byte list) res" where
  "ReadUint16 b = read_le 2 b"

definition ReadUint32 :: "byte list \<Rightarrow> ('e, u32 \<times> byte list) res" where
  "ReadUint32 b = read_le 4 b"

definition ReadInt32 :: "byte list \<Rightarrow> ('e, i32 \<times> byte list) res" where
  "ReadInt32 b = read_le 4 b"

definition ReadUint64 :: "byte list \<Rightarrow> ('e, u64 \<times> byte list) res" where
  "ReadUint64 b = read_le 8 b"

definition ReadInt64 :: "byte list \<Rightarrow> ('e, i64 \<times> byte list) res" where
  "ReadInt64 b = read_le 8 b"

definition ReadFloat64 :: "byte list \<Rightarrow> ('e, u64 \<times> byte list) res" where
  "ReadFloat64 b = read_le 8 b"

text \<open>\<^verbatim>\<open>PutUintN\<close> overwrites the first bytes of a slice in place and panics when it is too short.\<close>

definition put_le :: "nat \<Rightarrow> byte list \<Rightarrow> 'a::len word \<Rightarrow> ('e, byte list) res" where
  "put_le n b v = (if n \<le> length b then Inr (le_bytes n v @ drop n b) else Inl Panic)"

definition PutUint32 :: "byte list \<Rightarrow> u32 \<Rightarrow> ('e, byte list) res" where
  "PutUint32 b v = put_le 4 b v"

definition PutUint64 :: "byte list \<Rightarrow> u64 \<Rightarrow> ('e, byte list) res" where
  "PutUint64 b v = put_le 8 b v"

definition PutInt64 :: "byte list \<Rightarrow> i64 \<Rightarrow> ('e, byte list) res" where
  "PutInt64 b v = put_le 8 b v"

definition GetUint32 :: "byte list \<Rightarrow> ('e, u32) res" where
  "GetUint32 b = res_map fst (read_le 4 b)"

definition GetUint64 :: "byte list \<Rightarrow> ('e, u64) res" where
  "GetUint64 b = res_map fst (read_le 8 b)"

definition GetInt64 :: "byte list \<Rightarrow> ('e, i64) res" where
  "GetInt64 b = res_map fst (read_le 8 b)"

lemmas append_defs =
  AppendUint16_def AppendUint32_def AppendInt32_def AppendUint64_def AppendInt64_def
  AppendFloat64_def AppendBytes_def

lemmas read_defs =
  ReadUint16_def ReadUint32_def ReadInt32_def ReadUint64_def ReadInt64_def ReadFloat64_def

lemmas put_get_defs =
  PutUint32_def PutUint64_def PutInt64_def put_le_def GetUint32_def GetUint64_def GetInt64_def


section \<open>CRC32-IEEE and the checksum trailer\<close>

text \<open>
  \<^verbatim>\<open>crc32.Checksum\<close> with the IEEE polynomial in reflected form: every byte is xored into the low
  end of the register, which is then shifted right eight times, xoring the polynomial in
  whenever a one is shifted out. The register starts and ends complemented.
\<close>

definition crc_bit :: "u32 \<Rightarrow> u32" where
  "crc_bit c = (if bit c 0 then drop_bit 1 c XOR 0xEDB88320 else drop_bit 1 c)"

definition crc_byte :: "u32 \<Rightarrow> byte \<Rightarrow> u32" where
  "crc_byte c b = (crc_bit ^^ 8) (c XOR ucast b)"

definition ChecksumIEEE :: "byte list \<Rightarrow> u32" where
  "ChecksumIEEE b = NOT (foldl crc_byte (NOT 0) b)"

datatype enc_error = ErrChecksum

definition AppendChecksum :: "byte list \<Rightarrow> byte list" where
  "AppendChecksum b = (let sum = ChecksumIEEE b in b @ le_bytes 4 sum)"

definition VerifyTrailing :: "byte list \<Rightarrow> (enc_error, byte list) res" where
  "VerifyTrailing b =
    (if length b < 4 then Inl (Err ErrChecksum)
     else res_bind (slice b 0 (length b - 4)) (\<lambda>payload.
          res_bind (GetUint32 (drop (length b - 4) b)) (\<lambda>want.
          let got = ChecksumIEEE payload in
          if got \<noteq> want then Inl (Err ErrChecksum) else Inr payload)))"


section \<open>Little-endian round trips\<close>

lemma length_le_bytes [simp]: "length (le_bytes n w) = n"
  by (simp add: le_bytes_def)

lemma le_bytes_Suc: "le_bytes (Suc n) w = ucast w # le_bytes n (drop_bit 8 w)"
  by (rule nth_equalityI)
    (auto simp: le_bytes_def nth_Cons map_upt_Suc drop_bit_drop_bit add.commute
      simp del: upt_Suc split: nat.splits)

lemma bit_le_word:
  "bit (le_word bs :: 'a::len word) k \<longleftrightarrow>
     k < LENGTH('a) \<and> k div 8 < length bs \<and> bit (bs ! (k div 8)) (k mod 8)"
proof (induction bs arbitrary: k)
  case Nil
  then show ?case by simp
next
  case (Cons b bs)
  show ?case
  proof (cases "k < 8")
    case True
    then show ?thesis by (auto simp: bit_simps)
  next
    case False
    then obtain j where k: "k = j + 8" by (metis le_add_diff_inverse2 not_less)
    have "(j + 8) div 8 = Suc (j div 8)" by simp
    then show ?thesis by (auto simp: k bit_simps Cons.IH dest: bit_imp_le_length)
  qed
qed

lemma bit_nth_le_bytes:
  "i < n \<Longrightarrow> j < 8 \<Longrightarrow> bit (le_bytes n w ! i) j \<longleftrightarrow> bit w (8 * i + j)"
  by (simp add: le_bytes_def bit_simps)

lemma le_word_le_bytes:
  assumes "LENGTH('a) \<le> 8 * n"
  shows "le_word (le_bytes n (w :: 'a::len word)) = w"
proof (rule bit_word_eqI)
  fix k assume k: "k < LENGTH('a)"
  then have d: "k div 8 < n" using assms by linarith
  have "8 * (k div 8) + k mod 8 = k" by simp
  with k d show "bit (le_word (le_bytes n w) :: 'a word) k = bit w k"
    by (simp add: bit_le_word bit_nth_le_bytes)
qed

lemma le_bytes_le_word:
  assumes "8 * length bs \<le> LENGTH('a)"
  shows "le_bytes (length bs) (le_word bs :: 'a::len word) = bs"
proof (rule nth_equalityI)
  fix i assume "i < length (le_bytes (length bs) (le_word bs :: 'a word))"
  then have i: "i < length bs" by simp
  show "le_bytes (length bs) (le_word bs :: 'a word) ! i = bs ! i"
  proof (rule bit_word_eqI)
    fix j assume "j < LENGTH(8)"
    then have j: "j < 8" by simp
    then have "8 * i + j < LENGTH('a)" using i assms by linarith
    with i j show "bit (le_bytes (length bs) (le_word bs :: 'a word) ! i) j = bit (bs ! i) j"
      by (simp add: bit_nth_le_bytes bit_le_word)
  qed
qed simp

lemma le_bytes_inj:
  assumes "LENGTH('a) \<le> 8 * n"
  shows "le_bytes n (v :: 'a::len word) = le_bytes n w \<longleftrightarrow> v = w"
  using le_word_le_bytes [OF assms] by metis

lemma read_le_append [simp]:
  assumes "LENGTH('a) \<le> 8 * n"
  shows "read_le n (le_bytes n (w :: 'a::len word) @ rest) = Inr (w, rest)"
  using assms by (simp add: read_le_def le_word_le_bytes)

lemma read_le_panic: "length b < n \<Longrightarrow> read_le n b = Inl Panic"
  by (simp add: read_le_def)

lemma read_le_eq_Inr:
  assumes "LENGTH('a) = 8 * n"
  shows "read_le n b = Inr (w :: 'a::len word, rest) \<longleftrightarrow> b = le_bytes n w @ rest"
proof
  assume "read_le n b = Inr (w, rest)"
  then have "n \<le> length b" "w = le_word (take n b)" "rest = drop n b"
    by (auto simp: read_le_def split: if_splits)
  moreover have "le_bytes n (le_word (take n b) :: 'a word) = take n b"
    using le_bytes_le_word [of "take n b", where 'a = 'a] calculation(1) assms by simp
  ultimately show "b = le_bytes n w @ rest" by simp
next
  assume "b = le_bytes n w @ rest"
  then show "read_le n b = Inr (w, rest)" using assms by simp
qed


section \<open>Error detection of the checksum\<close>

text \<open>
  The register is linear over xor and no information is lost in a step, because a one that is
  shifted out at the bottom comes back at the top (bit 31 of the polynomial is set).
\<close>

lemma crc_bit_xor: "crc_bit (x XOR y) = crc_bit x XOR crc_bit y"
  by (auto simp: crc_bit_def bit_simps intro!: bit_word_eqI)

lemma crc_bit_31: "bit (crc_bit c) 31 = bit c 0"
  by (auto simp: crc_bit_def bit_simps dest: bit_imp_le_length)

lemma crc_bit_inj: "crc_bit c = crc_bit d \<longleftrightarrow> c = d"
proof
  assume eq: "crc_bit c = crc_bit d"
  then have low: "bit c 0 = bit d 0" by (metis crc_bit_31)
  then have high: "drop_bit 1 c = drop_bit 1 d"
    using eq by (auto simp: crc_bit_def split: if_splits)
  show "c = d"
  proof (rule bit_word_eqI)
    fix k assume "k < LENGTH(32)"
    show "bit c k = bit d k"
    proof (cases k)
      case 0 then show ?thesis using low by simp
    next
      case (Suc j)
      have "bit (drop_bit 1 c) j = bit (drop_bit 1 d) j" using high by simp
      then show ?thesis by (simp add: Suc bit_simps)
    qed
  qed
qed simp

lemma crc_bits_xor: "(crc_bit ^^ n) (x XOR y) = (crc_bit ^^ n) x XOR (crc_bit ^^ n) y"
  by (induction n) (simp_all add: crc_bit_xor)

lemma crc_bits_inj: "(crc_bit ^^ n) c = (crc_bit ^^ n) d \<longleftrightarrow> c = d"
  by (induction n) (simp_all add: crc_bit_inj)

lemma crc_bits_push:
  assumes "n \<le> 32" "\<And>k. 32 - n \<le> k \<Longrightarrow> \<not> bit d k"
  shows "(crc_bit ^^ n) (push_bit n d) = d"
  using assms
proof (induction n)
  case 0 then show ?case by simp
next
  case (Suc n)
  have low: "\<not> bit (push_bit (Suc n) d) 0" by (simp only: bit_push_bit_iff) simp
  have "drop_bit 1 (push_bit (Suc n) d) = push_bit n d"
  proof (rule bit_word_eqI)
    fix k assume "k < LENGTH(32)"
    moreover have "k < 31 \<or> \<not> bit d (k - n)" using Suc.prems by auto
    ultimately show "bit (drop_bit 1 (push_bit (Suc n) d)) k = bit (push_bit n d) k"
      by (auto simp: bit_drop_bit_eq bit_push_bit_iff simp del: push_bit_Suc)
  qed
  with low have "crc_bit (push_bit (Suc n) d) = push_bit n d" by (simp add: crc_bit_def)
  moreover have "(crc_bit ^^ n) (push_bit n d) = d"
    using Suc by simp
  ultimately show ?case by (simp add: funpow_Suc_right del: funpow.simps)
qed

lemma crc_fold_le_word:
  assumes "length bs \<le> 4"
  shows "foldl crc_byte c bs = (crc_bit ^^ (8 * length bs)) (c XOR le_word bs)"
  using assms
proof (induction bs arbitrary: c)
  case Nil then show ?case by simp
next
  case (Cons b bs)
  let ?w = "le_word bs :: u32"
  have "\<not> bit ?w k" if "24 \<le> k" for k
    using that Cons.prems by (auto simp: bit_le_word)
  then have push: "(crc_bit ^^ 8) (push_bit 8 ?w) = ?w"
    by (intro crc_bits_push) simp_all
  have split: "(le_word (b # bs) :: u32) = ucast b XOR push_bit 8 ?w"
    by (rule bit_word_eqI) (auto simp: bit_simps dest: bit_imp_le_length [where 'a = 8])
  have "foldl crc_byte c (b # bs) = (crc_bit ^^ (8 * length bs)) (crc_byte c b XOR ?w)"
    using Cons by simp
  also have "crc_byte c b XOR ?w = (crc_bit ^^ 8) (c XOR le_word (b # bs))"
    by (simp only: split crc_byte_def crc_bits_xor push xor.assoc)
  finally show ?case by (simp add: funpow_add [symmetric, unfolded comp_def, THEN fun_cong] add.commute)
qed

lemma crc_fold_inj_state: "foldl crc_byte c bs = foldl crc_byte d bs \<longleftrightarrow> c = d"
proof (induction bs arbitrary: c d)
  case (Cons b bs)
  have "crc_byte c b = crc_byte d b \<longleftrightarrow> c = d"
    by (simp add: crc_byte_def crc_bits_inj)
  then show ?case by (simp add: Cons.IH)
qed simp

lemma crc_fold_inj_bytes:
  assumes "length bs = length bs'" "length bs \<le> 4"
  shows "foldl crc_byte c bs = foldl crc_byte c bs' \<longleftrightarrow> bs = bs'"
proof
  assume "foldl crc_byte c bs = foldl crc_byte c bs'"
  then have "c XOR le_word bs = c XOR le_word bs'"
    using assms by (simp add: crc_fold_le_word crc_bits_inj)
  then have "(le_word bs :: u32) = le_word bs'" by simp
  moreover have "le_bytes (length bs) (le_word bs :: u32) = bs"
    using assms by (intro le_bytes_le_word) simp
  moreover have "le_bytes (length bs') (le_word bs' :: u32) = bs'"
    using assms by (intro le_bytes_le_word) simp
  ultimately show "bs = bs'" using assms(1) by metis
qed simp

lemma crc_burst:
  assumes "length w = length w'" "length w \<le> 4" "w \<noteq> w'"
  shows "foldl crc_byte c (pre @ w @ post) \<noteq> foldl crc_byte c (pre @ w' @ post)"
  using assms by (simp add: crc_fold_inj_state crc_fold_inj_bytes)

text \<open>A block verifies exactly when its whole image, trailer included, leaves a fixed residue.\<close>

lemma VerifyTrailing_eq:
  "VerifyTrailing b = (if 4 \<le> length b \<and> le_word (drop (length b - 4) b) = ChecksumIEEE (take (length b - 4) b)
     then Inr (take (length b - 4) b) else Inl (Err ErrChecksum))"
  by (auto simp: VerifyTrailing_def GetUint32_def read_le_def Let_def)

lemma VerifyTrailing_residue:
  "VerifyTrailing b = (if 4 \<le> length b \<and> foldl crc_byte (NOT 0) b = (crc_bit ^^ 32) (NOT 0)
     then Inr (take (length b - 4) b) else Inl (Err ErrChecksum))"
proof (cases "4 \<le> length b")
  case True
  define p t where "p = take (length b - 4) b" and "t = drop (length b - 4) b"
  have b: "b = p @ t" and t: "length t = 4" using True by (simp_all add: p_def t_def)
  have "foldl crc_byte (NOT 0) b = (crc_bit ^^ 32) (foldl crc_byte (NOT 0) p XOR le_word t)"
    by (simp add: b crc_fold_le_word t)
  then have "foldl crc_byte (NOT 0) b = (crc_bit ^^ 32) (NOT 0) \<longleftrightarrow>
      foldl crc_byte (NOT 0) p XOR le_word t = NOT 0"
    by (simp add: crc_bits_inj)
  also have "\<dots> \<longleftrightarrow> le_word t = ChecksumIEEE p"
    by (simp add: ChecksumIEEE_def xor_eq_minus_one)
  finally show ?thesis using True by (simp add: VerifyTrailing_eq p_def t_def)
qed (simp add: VerifyTrailing_eq)

lemma VerifyTrailing_AppendChecksum: "VerifyTrailing (AppendChecksum b) = Inr b"
  by (simp add: VerifyTrailing_eq AppendChecksum_def Let_def le_word_le_bytes)

lemma VerifyTrailing_burst:
  assumes ok: "VerifyTrailing (pre @ w @ post) = Inr b"
    and len: "length w = length w'" "length w \<le> 4" and ne: "w \<noteq> w'"
  shows "VerifyTrailing (pre @ w' @ post) = Inl (Err ErrChecksum)"
proof -
  have "foldl crc_byte (NOT 0) (pre @ w @ post) = (crc_bit ^^ 32) (NOT 0)"
    using ok unfolding VerifyTrailing_residue by (simp split: if_splits)
  then have "foldl crc_byte (NOT 0) (pre @ w' @ post) \<noteq> (crc_bit ^^ 32) (NOT 0)"
    using crc_burst [OF len ne, of "NOT 0" pre post] by simp
  then show ?thesis unfolding VerifyTrailing_residue by simp
qed


section \<open>The sealing interface\<close>

text \<open>
  What the readers and writers of table files rely on: sealing keeps the payload as a prefix,
  opening undoes it, only sealed blocks open, and a short burst of damage is noticed.
\<close>

locale sealing =
  fixes seal :: "byte list \<Rightarrow> byte list"
    and unseal :: "byte list \<Rightarrow> ('e, byte list) res"
    and trailer :: nat
    and window :: nat
  assumes unseal_seal: "unseal (seal b) = Inr b"
    and unseal_sealed: "unseal c = Inr b \<Longrightarrow> c = seal b"
    and seal_prefix: "take (length b) (seal b) = b"
    and seal_length: "length (seal b) = length b + trailer"
    and seal_burst: "unseal (pre @ w @ post) = Inr b \<Longrightarrow> length w = length w' \<Longrightarrow>
      length w \<le> window \<Longrightarrow> w \<noteq> w' \<Longrightarrow> \<exists>e. unseal (pre @ w' @ post) = Inl (Err e)"
begin

lemma seal_inj: "seal a = seal b \<longleftrightarrow> a = b"
  by (metis unseal_seal sum.inject(2))

lemma unseal_length: "unseal c = Inr b \<Longrightarrow> length b + trailer = length c"
  by (metis unseal_sealed seal_length)

text \<open>A sealed block damaged within one window never opens, whatever the payload.\<close>

lemma damaged_seal:
  assumes "seal b = pre @ w @ post" "length w = length w'" "length w \<le> window" "w \<noteq> w'"
  shows "\<exists>e. unseal (pre @ w' @ post) = Inl (Err e)"
  using seal_burst [of pre w post b w'] unseal_seal [of b] assms by simp

text \<open>A flipped byte at any position of a sealed block is noticed when the window is not empty.\<close>

lemma damaged_byte:
  assumes "1 \<le> window" "i < length (seal b)" "x \<noteq> seal b ! i"
  shows "\<exists>e. unseal ((seal b)[i := x]) = Inl (Err e)"
proof -
  have "seal b = take i (seal b) @ [seal b ! i] @ drop (Suc i) (seal b)"
    using assms(2) by (simp add: id_take_nth_drop)
  moreover have "(seal b)[i := x] = take i (seal b) @ [x] @ drop (Suc i) (seal b)"
    using assms(2) by (simp add: upd_conv_take_nth_drop)
  ultimately show ?thesis
    using damaged_seal [of b "take i (seal b)" "[seal b ! i]" "drop (Suc i) (seal b)" "[x]"] assms by auto
qed

end

interpretation crc_block: sealing AppendChecksum VerifyTrailing 4 4
proof unfold_locales
  fix b c :: "byte list"
  assume "VerifyTrailing c = Inr b"
  then have c: "4 \<le> length c" "le_word (drop (length c - 4) c) = ChecksumIEEE b" "b = take (length c - 4) c"
    by (auto simp: VerifyTrailing_eq split: if_splits)
  have "le_bytes 4 (le_word (drop (length c - 4) c) :: u32) = drop (length c - 4) c"
    using le_bytes_le_word [of "drop (length c - 4) c", where 'a = 32] c(1) by simp
  with c show "c = AppendChecksum b"
    by (simp add: AppendChecksum_def)
qed (auto simp: VerifyTrailing_AppendChecksum VerifyTrailing_burst,
     auto simp: AppendChecksum_def Let_def)

section \<open>Properties\<close>

text \<open>
  The integer codec is exact in both directions. Reading four bytes (or eight, or two) succeeds
  with value \<open>v\<close> and rest \<open>r\<close> exactly when the input is what appending \<open>v\<close> writes, followed by \<open>r\<close>; on a
  shorter input the read panics. Reads and appends of all widths are mutually inverse.
\<close>

theorem Append_Read_exact:
  "(ReadUint16 b = (Inr (v16, r) :: ('e, _) res) \<longleftrightarrow> b = AppendUint16 [] v16 @ r) \<and>
   (ReadUint32 b = (Inr (v32, r) :: ('e, _) res) \<longleftrightarrow> b = AppendUint32 [] v32 @ r) \<and>
   (ReadInt32 b = (Inr (i32, r) :: ('e, _) res) \<longleftrightarrow> b = AppendInt32 [] i32 @ r) \<and>
   (ReadUint64 b = (Inr (v64, r) :: ('e, _) res) \<longleftrightarrow> b = AppendUint64 [] v64 @ r) \<and>
   (ReadInt64 b = (Inr (i64, r) :: ('e, _) res) \<longleftrightarrow> b = AppendInt64 [] i64 @ r) \<and>
   (ReadFloat64 b = (Inr (f64, r) :: ('e, _) res) \<longleftrightarrow> b = AppendFloat64 [] f64 @ r) \<and>
   (ReadUint32 b = (Inl Panic :: ('e, _) res) \<longleftrightarrow> length b < 4) \<and>
   (ReadUint64 b = (Inl Panic :: ('e, _) res) \<longleftrightarrow> length b < 8)"
  unfolding read_defs append_defs append_Nil
  by (intro conjI read_le_eq_Inr) (simp_all add: read_le_def not_le)

text \<open>
  C22: the checksum trailer. A block sealed by \<^verbatim>\<open>AppendChecksum\<close> verifies and yields its payload; and if a
  block that verifies is damaged inside a window of up to four consecutive bytes, anywhere in it and
  also across the border of payload and trailer, \<^verbatim>\<open>VerifyTrailing\<close> rejects it with \<^verbatim>\<open>ErrChecksum\<close>.
\<close>

theorem Checksum_seals:
  assumes "AppendChecksum b = pre @ w @ post" "length w' = length w" "length w \<le> 4" "w' \<noteq> w"
  shows "VerifyTrailing (AppendChecksum b) = Inr b \<and>
    VerifyTrailing (pre @ w' @ post) = Inl (Err ErrChecksum)"
  using crc_block.damaged_seal [OF assms(1), of w'] crc_block.unseal_seal [of b] assms
  by (metis enc_error.exhaust)

theorem Checksum_seals_witness:
  "\<exists>b3. AppendChecksum [1, 2] = [1, 2] @ b3 \<and> length b3 = 4 \<and>
    VerifyTrailing ([1] @ [3] @ b3) = Inl (Err ErrChecksum)"
  using Checksum_seals [of "[1, 2]" "[1]" "[2]" "le_bytes 4 (ChecksumIEEE [1, 2])" "[3]"]
  by (simp add: AppendChecksum_def Let_def)

end
