(* ===== verification/Codec.thy ===== *)
theory Codec
  imports Encoding
begin

text \<open>
  The encoders of package \<^verbatim>\<open>storage\<close> (\<^verbatim>\<open>codec.go\<close>) with the types of \<^verbatim>\<open>format.go\<close>, \<^verbatim>\<open>schema.go\<close> and
  \<^verbatim>\<open>errors.go\<close>: null bitmaps, the dictionary builder, the dictionary blob and its memoising reader,
  and the run-length encoding of BOOL blocks. A Go map is a partial function; a method that
  mutates its receiver returns the new receiver. Counts that the code keeps in \<^verbatim>\<open>uint32\<close> are
  converted where the code converts them, so the round trips carry the bound \<open>2 ^ 32\<close>.
\<close>

section \<open>Types\<close>

definition BlockRows :: nat where "BlockRows = 1024"
definition RowGroupRows :: nat where "RowGroupRows = 65536"
definition NullBitmapBytes :: nat where "NullBitmapBytes = (BlockRows + 7) div 8"
definition FooterTrailerSize :: nat where "FooterTrailerSize = 16"

datatype DataType = TypeInt64 | TypeFloat64 | TypeBool | TypeString | TypeDate

fun DataType_String :: "DataType \<Rightarrow> string" where
  "DataType_String TypeInt64 = ''INT64''"
| "DataType_String TypeFloat64 = ''FLOAT64''"
| "DataType_String TypeBool = ''BOOL''"
| "DataType_String TypeString = ''STRING''"
| "DataType_String TypeDate = ''DATE''"

fun ValueSize :: "DataType \<Rightarrow> nat" where
  "ValueSize TypeInt64 = 8"
| "ValueSize TypeFloat64 = 8"
| "ValueSize TypeDate = 4"
| "ValueSize TypeString = 4"
| "ValueSize TypeBool = 0"

datatype Encoding = EncPlain | EncRLE | EncDict

record Field =
  Name :: string
  Type :: DataType
  FEncoding :: Encoding
  Nullable :: bool

type_synonym Schema = "Field list"

text \<open>\<^verbatim>\<open>IndexOf\<close>: the first field of that name; \<open>None\<close> stands for \<^verbatim>\<open>-1\<close>.\<close>

fun IndexOf :: "Schema \<Rightarrow> string \<Rightarrow> nat option" where
  "IndexOf [] name = None"
| "IndexOf (f # fs) name = (if Name f = name then Some 0 else map_option Suc (IndexOf fs name))"

datatype storage_error =
    SErrChecksum | ErrCorruptFooter | ErrBadMagic | ErrTypeMismatch | ErrColumnComplete
  | ErrRowGroupOpen | ErrMissingColumns | ErrUnexpectedEOF | ErrReadOffset | ErrOutOfRange | ErrUnsupportedType
  | ErrNotString | ErrRowCount | ErrCodeRange | ErrZoneMap


section \<open>Null bitmaps\<close>

definition SetNullBit :: "byte list \<Rightarrow> nat \<Rightarrow> ('e, byte list) res" where
  "SetNullBit bitmap i = res_bind (idx bitmap (i div 8)) (\<lambda>b.
     upd bitmap (i div 8) (b AND NOT (push_bit (i mod 8) 1)))"

definition SetValidBit :: "byte list \<Rightarrow> nat \<Rightarrow> ('e, byte list) res" where
  "SetValidBit bitmap i = res_bind (idx bitmap (i div 8)) (\<lambda>b.
     upd bitmap (i div 8) (b OR push_bit (i mod 8) 1))"

definition IsNullBit :: "byte list \<Rightarrow> nat \<Rightarrow> ('e, bool) res" where
  "IsNullBit bitmap i = res_map (\<lambda>b. drop_bit (i mod 8) b AND 1 = 0) (idx bitmap (i div 8))"

definition FullBitmap :: "nat \<Rightarrow> byte list" where
  "FullBitmap rows = (let size = (rows + 7) div 8; b = replicate size 0xFF in
     if rows mod 8 \<noteq> 0 then b[size - 1 := push_bit (rows mod 8) 1 - 1] else b)"


section \<open>Dictionaries\<close>

record DictBuilder =
  index :: "string \<rightharpoonup> u32"
  keys :: "string list"

definition NewDictBuilder :: DictBuilder where
  "NewDictBuilder = \<lparr>index = Map.empty, keys = []\<rparr>"

definition DictBuilder_Add :: "DictBuilder \<Rightarrow> string \<Rightarrow> u32 \<times> DictBuilder" where
  "DictBuilder_Add db s = (case index db s of
     Some code \<Rightarrow> (code, db)
   | None \<Rightarrow> (let code = of_nat (length (keys db)) in
       (code, \<lparr>index = (index db)(s \<mapsto> code), keys = keys db @ [s]\<rparr>)))"

definition DictBuilder_Lookup :: "DictBuilder \<Rightarrow> string \<Rightarrow> u32 option" where
  "DictBuilder_Lookup db s = index db s"

definition DictBuilder_Len :: "DictBuilder \<Rightarrow> nat" where
  "DictBuilder_Len db = length (keys db)"

definition GetByCode :: "DictBuilder \<Rightarrow> u32 \<Rightarrow> ('e, string) res" where
  "GetByCode db code = idx (keys db) (unat code)"

fun marshal_entries :: "string list \<Rightarrow> u32 list \<Rightarrow> byte list \<Rightarrow> u32 list \<times> byte list" where
  "marshal_entries [] offsets data = (offsets, data)"
| "marshal_entries (s # ss) offsets data =
     marshal_entries ss (offsets @ [of_nat (length data)]) (data @ bytes_of s)"

definition DictBuilder_Marshal :: "DictBuilder \<Rightarrow> byte list" where
  "DictBuilder_Marshal db = (
     let n = of_nat (length (keys db)) :: u32;
         (offsets, data) = marshal_entries (keys db) [] [];
         totalLen = of_nat (length data) :: u32;
         b = AppendUint32 [] n;
         b = foldl AppendUint32 b offsets;
         b = AppendUint32 b totalLen;
         b = b @ data
     in AppendChecksum b)"

record Dictionary =
  Offsets :: "u32 list"
  Data :: "byte list"
  cache :: "string list"

text \<open>
  \<^verbatim>\<open>Get\<close> returns the string and the dictionary with its memo updated. The memo is created on first
  use, and the empty string in it means "not memoised".
\<close>

definition dict_slice :: "Dictionary \<Rightarrow> nat \<Rightarrow> ('e, string) res" where
  "dict_slice d code = (
     let start = unat (Offsets d ! code);
         stop = (if code + 1 < length (Offsets d) then unat (Offsets d ! (code + 1))
                 else unat (of_nat (length (Data d)) :: u32))
     in res_map string_of (slice (Data d) start stop))"

definition Dictionary_Get :: "Dictionary \<Rightarrow> u32 \<Rightarrow> ('e, string \<times> Dictionary) res" where
  "Dictionary_Get d code = (
     if length (Offsets d) \<le> unat code then Inl Panic
     else if unat code < length (cache d) \<and> cache d ! unat code \<noteq> [] then Inr (cache d ! unat code, d)
     else (let d' = (if unat code < length (cache d) then d
                     else d\<lparr>cache := replicate (length (Offsets d)) []\<rparr>)
           in res_bind (dict_slice d' (unat code)) (\<lambda>s.
              res_bind (upd (cache d') (unat code) s) (\<lambda>c. Inr (s, d'\<lparr>cache := c\<rparr>)))))"

definition Dictionary_Len :: "Dictionary \<Rightarrow> nat" where
  "Dictionary_Len d = length (Offsets d)"

lemma Dictionary_Get_frame:
  "Dictionary_Get d code = Inr (s, d') \<Longrightarrow> Offsets d' = Offsets d \<and> Data d' = Data d"
  by (auto simp: Dictionary_Get_def Let_def res_bind_eq_Inr split: if_splits)

text \<open>The linear scan of \<^verbatim>\<open>Lookup\<close>, from code \<open>c\<close> on; \<open>None\<close> stands for \<^verbatim>\<open>(0, false)\<close>.\<close>

function dict_scan :: "Dictionary \<Rightarrow> nat \<Rightarrow> string \<Rightarrow> (storage_error, nat option \<times> Dictionary) res" where
  "dict_scan d c s =
     (if c < length (Offsets d) then
        (case Dictionary_Get d (of_nat c) of
           Inl e \<Rightarrow> Inl e
         | Inr (t, d') \<Rightarrow> if t = s then Inr (Some c, d') else dict_scan d' (c + 1) s)
      else Inr (None, d))"
  by pat_completeness auto
termination
  by (relation "measure (\<lambda>(d, c, s). length (Offsets d) - c)") (auto dest: Dictionary_Get_frame)

declare dict_scan.simps [simp del]

definition Dictionary_Lookup :: "Dictionary \<Rightarrow> string \<Rightarrow> (storage_error, u32 option \<times> Dictionary) res" where
  "Dictionary_Lookup d s = res_map (\<lambda>(c, d'). (map_option of_nat c, d')) (dict_scan d 0 s)"

text \<open>\<^verbatim>\<open>UnmarshalDictionary\<close>: the loop that fills the \<open>n\<close> offsets, then the data.\<close>

fun read_offsets :: "nat \<Rightarrow> byte list \<Rightarrow> ('e, u32 list \<times> byte list) res" where
  "read_offsets 0 rest = Inr ([], rest)"
| "read_offsets (Suc n) rest = res_bind (ReadUint32 rest) (\<lambda>(o1, rest).
     res_bind (read_offsets n rest) (\<lambda>(os, rest). Inr (o1 # os, rest)))"

definition UnmarshalDictionary :: "byte list \<Rightarrow> (storage_error, Dictionary) res" where
  "UnmarshalDictionary b =
     res_bind (res_wrap SErrChecksum (VerifyTrailing b)) (\<lambda>payload.
     if length payload < 4 then Inl (Err ErrCorruptFooter) else
     res_bind (ReadUint32 payload) (\<lambda>(n, rest).
     if length rest < unat n * 4 + 4 then Inl (Err ErrCorruptFooter) else
     res_bind (read_offsets (unat n) rest) (\<lambda>(offsets, rest).
     res_bind (ReadUint32 rest) (\<lambda>(totalLen, rest).
     if (of_nat (length rest) :: u32) < totalLen then Inl (Err ErrCorruptFooter) else
     res_bind (slice rest 0 (unat totalLen)) (\<lambda>data.
     Inr \<lparr>Offsets = offsets, Data = data, cache = []\<rparr>)))))"


section \<open>Run-length encoded BOOL blocks\<close>

text \<open>The byte a row is encoded as: the null sentinel, one or zero.\<close>

definition rle_cell :: "bool list \<Rightarrow> byte list \<Rightarrow> nat \<Rightarrow> (storage_error, byte) res" where
  "rle_cell vals nullBitmap i = res_bind (IsNullBit nullBitmap i) (\<lambda>null.
     if null then Inr 0xFF else res_map (\<lambda>v. if v then 1 else 0) (idx vals i))"

text \<open>The inner loop: extend the run that starts at \<open>i\<close> while the next row has the same byte.\<close>

function rle_extend :: "bool list \<Rightarrow> byte list \<Rightarrow> nat \<Rightarrow> byte \<Rightarrow> nat \<Rightarrow> (storage_error, nat) res" where
  "rle_extend vals nullBitmap i cur len =
     (if i + len < length vals then
        res_bind (rle_cell vals nullBitmap (i + len)) (\<lambda>next.
          if next \<noteq> cur then Inr len else rle_extend vals nullBitmap i cur (len + 1))
      else Inr len)"
  by pat_completeness auto
termination
  by (relation "measure (\<lambda>(vals, nb, i, cur, len). length vals - (i + len))") auto

declare rle_extend.simps [simp del]

lemma rle_extend_ge: "rle_extend vals nb i cur len = Inr l \<Longrightarrow> len \<le> l"
proof (induction vals nb i cur len rule: rle_extend.induct)
  case (1 vals nb i cur len)
  show ?case
    using 1 by (auto simp: rle_extend.simps [of vals nb i cur len] split: if_splits elim!: res_bindE)
qed

function rle_runs :: "bool list \<Rightarrow> byte list \<Rightarrow> nat \<Rightarrow> (storage_error, (u32 \<times> byte) list) res" where
  "rle_runs vals nullBitmap i =
     (if i < length vals then
        res_bind (rle_cell vals nullBitmap i) (\<lambda>cur.
        res_bind (rle_extend vals nullBitmap i cur 1) (\<lambda>len.
        res_map (\<lambda>runs. (of_nat len, cur) # runs) (rle_runs vals nullBitmap (i + len))))
      else Inr [])"
  by pat_completeness auto
termination
  by (relation "measure (\<lambda>(vals, nb, i). length vals - i)") (auto dest: rle_extend_ge)

declare rle_runs.simps [simp del]

definition EncodeRLEBool :: "bool list \<Rightarrow> byte list \<Rightarrow> (storage_error, byte list) res" where
  "EncodeRLEBool vals nullBitmap = res_map (\<lambda>runs.
     let b = AppendUint32 [] (of_nat (length runs));
         b = foldl (\<lambda>b (len, val). AppendUint32 b len @ [val]) b runs
     in AppendChecksum b) (rle_runs vals nullBitmap 0)"

fun read_runs :: "nat \<Rightarrow> byte list \<Rightarrow> (storage_error, (u32 \<times> byte) list \<times> byte list) res" where
  "read_runs 0 rest = Inr ([], rest)"
| "read_runs (Suc n) rest =
     (if length rest < 5 then Inl (Err ErrCorruptFooter) else
      res_bind (ReadUint32 rest) (\<lambda>(l, rest).
      res_bind (idx rest 0) (\<lambda>v.
      res_bind (read_runs n (drop 1 rest)) (\<lambda>(runs, rest). Inr ((l, v) # runs, rest)))))"

type_synonym rle_state = "bool list \<times> byte list \<times> nat"

definition rle_put :: "byte \<Rightarrow> rle_state \<Rightarrow> (storage_error, rle_state) res" where
  "rle_put v = (\<lambda>(vals, nullBitmap, pos).
     if v = 0xFF then res_map (\<lambda>nb. (vals, nb, pos + 1)) (SetNullBit nullBitmap pos)
     else if v = 1 then res_map (\<lambda>vs. (vs, nullBitmap, pos + 1)) (upd vals pos True)
     else Inr (vals, nullBitmap, pos + 1))"

definition DecodeRLEBool :: "byte list \<Rightarrow> (storage_error, bool list \<times> byte list \<times> nat) res" where
  "DecodeRLEBool data =
     res_bind (res_wrap SErrChecksum (VerifyTrailing data)) (\<lambda>payload.
     if length payload < 4 then Inl (Err ErrCorruptFooter) else
     res_bind (ReadUint32 payload) (\<lambda>(runCount, rest).
     res_bind (read_runs (unat runCount) rest) (\<lambda>(runs, rest).
     let total = sum_list (map (\<lambda>(l, v). unat l) runs);
         vals = replicate total False;
         nullBitmap = FullBitmap total
     in res_map (\<lambda>(vals, nullBitmap, pos). (vals, nullBitmap, total))
          (fold_res (\<lambda>st (l, v). fold_res (\<lambda>st j. rle_put v st) st [0..<unat l])
             (vals, nullBitmap, 0) runs))))"


section \<open>Bitmap lemmas\<close>

text \<open>The reading of a bitmap: row \<open>i\<close> is valid; rows beyond the bitmap are not.\<close>

definition valid_at :: "byte list \<Rightarrow> nat \<Rightarrow> bool" where
  "valid_at bitmap i \<longleftrightarrow> i div 8 < length bitmap \<and> bit (bitmap ! (i div 8)) (i mod 8)"

abbreviation bitmap_bytes :: "nat \<Rightarrow> nat" where
  "bitmap_bytes n \<equiv> (n + 7) div 8"

lemma div8_less_bitmap_bytes: "i < n \<Longrightarrow> bitmap_bytes n \<le> m \<Longrightarrow> i div 8 < m"
  by linarith

lemma byte_and_one_eq_0: "(drop_bit k (b :: byte) AND 1 = 0) \<longleftrightarrow> \<not> bit b k"
  by (simp add: and_one_eq bit_iff_odd_drop_bit odd_iff_mod_2_eq_one)

lemma IsNullBit_eq:
  "IsNullBit bitmap i = (if i div 8 < length bitmap then Inr (\<not> valid_at bitmap i) else Inl Panic)"
  by (simp add: IsNullBit_def byte_and_one_eq_0 valid_at_def idx_def)

lemma IsNullBit_ok [simp, go_simps]:
  "i div 8 < length bitmap \<Longrightarrow> IsNullBit bitmap i = Inr (\<not> valid_at bitmap i)"
  by (simp add: IsNullBit_eq)

lemma bitmap_eqI:
  assumes "length a = length b" "\<And>i. i < 8 * length a \<Longrightarrow> valid_at a i = valid_at b i"
  shows "a = b"
proof (rule nth_equalityI [OF assms(1)])
  fix j assume j: "j < length a"
  show "a ! j = b ! j"
  proof (rule bit_word_eqI)
    fix k assume "k < LENGTH(8)"
    then show "bit (a ! j) k = bit (b ! j) k"
      using assms(2) [of "8 * j + k"] assms(1) j by (simp add: valid_at_def)
  qed
qed

lemma div_mod_8_eq: "(i::nat) div 8 = j div 8 \<Longrightarrow> i mod 8 = j mod 8 \<Longrightarrow> i = j"
  by (metis div_mult_mod_eq)

lemma mod_8_byte: "(i::nat) mod 8 < LENGTH(8)"
  by simp

lemma SetNullBit_eq:
  assumes "i div 8 < length bitmap"
  obtains bitmap' where "SetNullBit bitmap i = Inr bitmap'" "length bitmap' = length bitmap"
    "\<And>j. valid_at bitmap' j \<longleftrightarrow> valid_at bitmap j \<and> j \<noteq> i"
proof
  let ?b = "bitmap[i div 8 := bitmap ! (i div 8) AND NOT (push_bit (i mod 8) 1)]"
  show "SetNullBit bitmap i = Inr ?b" using assms by (simp add: SetNullBit_def)
  show "length ?b = length bitmap" by simp
  show "valid_at ?b j \<longleftrightarrow> valid_at bitmap j \<and> j \<noteq> i" for j
    using assms mod_8_byte [of j] by (auto simp: valid_at_def nth_list_update bit_simps dest: div_mod_8_eq)
qed

lemma SetValidBit_eq:
  assumes "i div 8 < length bitmap"
  obtains bitmap' where "SetValidBit bitmap i = Inr bitmap'" "length bitmap' = length bitmap"
    "\<And>j. valid_at bitmap' j \<longleftrightarrow> valid_at bitmap j \<or> j = i"
proof
  let ?b = "bitmap[i div 8 := bitmap ! (i div 8) OR push_bit (i mod 8) 1]"
  show "SetValidBit bitmap i = Inr ?b" using assms by (simp add: SetValidBit_def)
  show "length ?b = length bitmap" by simp
  show "valid_at ?b j \<longleftrightarrow> valid_at bitmap j \<or> j = i" for j
    using assms mod_8_byte [of j] by (auto simp: valid_at_def nth_list_update bit_simps dest: div_mod_8_eq)
qed

lemma length_FullBitmap [simp]: "length (FullBitmap n) = bitmap_bytes n"
  by (simp add: FullBitmap_def Let_def)

lemma bit_255_byte: "bit (255 :: byte) k \<longleftrightarrow> k < 8"
proof -
  have "(255 :: byte) = mask 8" by (simp add: mask_eq_exp_minus_1)
  then show ?thesis by (simp only: bit_mask_iff) simp
qed

lemma valid_at_FullBitmap [simp]: "valid_at (FullBitmap n) i \<longleftrightarrow> i < n"
proof -
  define q r where "q = n div 8" and "r = n mod 8"
  have n: "n = 8 * q + r" "r < 8" by (simp_all add: q_def r_def)
  define j k where "j = i div 8" and "k = i mod 8"
  have i: "i = 8 * j + k" "k < 8" by (simp_all add: j_def k_def)
  have low: "bit (2 ^ r - 1 :: byte) k \<longleftrightarrow> k < r"
    using n(2) bit_mask_iff [of r k, where 'a = byte] by (auto simp: mask_eq_exp_minus_1)
  have ij: "i div 8 = j" "i mod 8 = k" by (simp_all add: j_def k_def)
  show ?thesis
  proof (cases "r = 0")
    case True
    then have "bitmap_bytes n = q" "n mod 8 = 0" using n by simp_all
    then have "valid_at (FullBitmap n) i \<longleftrightarrow> j < q"
      using i bit_255_byte [of k] by (auto simp: valid_at_def FullBitmap_def Let_def ij)
    then show ?thesis using n i True by linarith
  next
    case False
    then have "bitmap_bytes n = Suc q" "n mod 8 = r" using n by simp_all
    then have "valid_at (FullBitmap n) i \<longleftrightarrow> j < q \<or> j = q \<and> k < r"
      using i False n low bit_255_byte [of k]
      by (auto simp: valid_at_def FullBitmap_def Let_def ij nth_list_update less_Suc_eq
          nth_append replicate_append_same [symmetric])
    then show ?thesis using n i by linarith
  qed
qed


section \<open>Dictionary lemmas\<close>

text \<open>The strings a dictionary denotes, and what makes a dictionary well formed.\<close>

definition dict_stop :: "Dictionary \<Rightarrow> nat \<Rightarrow> nat" where
  "dict_stop d c = (if c + 1 < length (Offsets d) then unat (Offsets d ! (c + 1)) else length (Data d))"

definition dict_strings :: "Dictionary \<Rightarrow> string list" where
  "dict_strings d = map (\<lambda>c. string_of (take (dict_stop d c - unat (Offsets d ! c))
     (drop (unat (Offsets d ! c)) (Data d)))) [0..<length (Offsets d)]"

definition dict_wf :: "Dictionary \<Rightarrow> bool" where
  "dict_wf d \<longleftrightarrow> length (Data d) < 2 ^ 32 \<and> length (Offsets d) \<le> 2 ^ 32 \<and>
     (\<forall>c < length (Offsets d). unat (Offsets d ! c) \<le> dict_stop d c \<and> dict_stop d c \<le> length (Data d)) \<and>
     (cache d = [] \<or> length (cache d) = length (Offsets d)) \<and>
     (\<forall>c < length (cache d). cache d ! c = [] \<or> cache d ! c = dict_strings d ! c)"

lemma length_dict_strings [simp]: "length (dict_strings d) = length (Offsets d)"
  by (simp add: dict_strings_def)

lemma dict_strings_cache [simp]: "dict_strings (d\<lparr>cache := c\<rparr>) = dict_strings d"
  by (simp add: dict_strings_def dict_stop_def)

lemma dict_stop_cache [simp]: "dict_stop (d\<lparr>cache := c\<rparr>) = dict_stop d"
  by (simp add: dict_stop_def fun_eq_iff)

lemma dict_slice_eq:
  assumes "dict_wf d" "c < length (Offsets d)"
  shows "dict_slice d c = Inr (dict_strings d ! c)"
proof -
  have "unat (of_nat (length (Data d)) :: u32) = length (Data d)"
    using assms(1) by (simp add: dict_wf_def unat_of_nat)
  then show ?thesis
    using assms by (auto simp: dict_slice_def Let_def dict_wf_def dict_strings_def dict_stop_def)
qed

lemma dict_slice_cache [simp]: "dict_slice (d\<lparr>cache := c\<rparr>) = dict_slice d"
  by (simp add: dict_slice_def fun_eq_iff)

lemma Dictionary_Get_wf:
  assumes "dict_wf d" "unat code < length (Offsets d)"
  obtains d' where "Dictionary_Get d code = Inr (dict_strings d ! unat code, d')" "dict_wf d'"
    "dict_strings d' = dict_strings d"
proof -
  let ?c = "unat code" and ?s = "dict_strings d ! unat code"
  show thesis
  proof (cases "?c < length (cache d) \<and> cache d ! ?c \<noteq> []")
    case True
    then have "Dictionary_Get d code = Inr (?s, d)"
      using assms by (auto simp: Dictionary_Get_def dict_wf_def)
    then show thesis using assms that by blast
  next
    case False
    define m where "m = (if ?c < length (cache d) then cache d else replicate (length (Offsets d)) [])"
    let ?d = "d\<lparr>cache := m[?c := ?s]\<rparr>"
    have m: "length m = length (Offsets d)" "\<forall>c < length m. m ! c = [] \<or> m ! c = dict_strings d ! c"
      using assms(1) by (auto simp: m_def dict_wf_def)
    have "Dictionary_Get d code = Inr (?s, ?d)"
      using assms False m by (auto simp: Dictionary_Get_def m_def dict_slice_eq Let_def)
    moreover have "m[?c := ?s] ! c = [] \<or> m[?c := ?s] ! c = dict_strings d ! c" if "c < length m" for c
      using m that by (cases "c = ?c") auto
    then have "dict_wf ?d" using assms(1) m(1) by (simp add: dict_wf_def)
    ultimately show thesis using that [of ?d] by simp
  qed
qed

lemma Dictionary_Get_panic: "length (Offsets d) \<le> unat code \<Longrightarrow> Dictionary_Get d code = Inl Panic"
  by (simp add: Dictionary_Get_def)

text \<open>Reading a sequence of codes, threading the memo.\<close>

fun get_all :: "('d \<Rightarrow> u32 \<Rightarrow> ('e, string \<times> 'd) res) \<Rightarrow> 'd \<Rightarrow> u32 list \<Rightarrow> ('e, string list \<times> 'd) res" where
  "get_all get d [] = Inr ([], d)"
| "get_all get d (c # cs) = res_bind (get d c) (\<lambda>(s, d).
     res_bind (get_all get d cs) (\<lambda>(ss, d). Inr (s # ss, d)))"

text \<open>
  The contract the executor relies on: a dictionary is an immutable list of strings, whatever
  bookkeeping a lookup does.
\<close>

locale string_dictionary =
  fixes get :: "'d \<Rightarrow> u32 \<Rightarrow> ('e, string \<times> 'd) res"
    and entries :: "'d \<Rightarrow> string list"
    and inv :: "'d \<Rightarrow> bool"
  assumes get_ok: "inv d \<Longrightarrow> unat c < length (entries d) \<Longrightarrow>
      \<exists>d'. get d c = Inr (entries d ! unat c, d') \<and> inv d' \<and> entries d' = entries d"
    and get_panic: "inv d \<Longrightarrow> length (entries d) \<le> unat c \<Longrightarrow> get d c = Inl Panic"
begin

lemma get_value: "inv d \<Longrightarrow> get d c = Inr (s, d') \<Longrightarrow> unat c < length (entries d) \<and> s = entries d ! unat c"
  using get_ok [of d c] get_panic [of d c] by (cases "unat c < length (entries d)") auto

lemma get_all_ok:
  assumes "inv d" "\<forall>c \<in> set cs. unat c < length (entries d)"
  shows "\<exists>d'. get_all get d cs = Inr (map (\<lambda>c. entries d ! unat c) cs, d') \<and> inv d' \<and> entries d' = entries d"
  using assms
proof (induction cs arbitrary: d)
  case (Cons c cs)
  then obtain d1 where d1: "get d c = Inr (entries d ! unat c, d1)" "inv d1" "entries d1 = entries d"
    using get_ok [of d c] by auto
  with Cons.IH [of d1] Cons.prems show ?case by auto
qed simp

end

interpretation dict: string_dictionary Dictionary_Get dict_strings dict_wf
proof unfold_locales
  fix d and c :: u32
  assume "dict_wf d" "unat c < length (dict_strings d)"
  then show "\<exists>d'. Dictionary_Get d c = Inr (dict_strings d ! unat c, d') \<and> dict_wf d' \<and>
      dict_strings d' = dict_strings d"
    by (metis Dictionary_Get_wf length_dict_strings)
qed (simp add: Dictionary_Get_panic)

lemma dict_scan_ok:
  assumes "dict_wf d" "length (Offsets d) < 2 ^ 32"
  shows "\<exists>d'. dict_scan d c s = Inr (map_option ((+) c) (first_index s (drop c (dict_strings d))), d') \<and>
    dict_wf d' \<and> dict_strings d' = dict_strings d"
  using assms
proof (induction d c s rule: dict_scan.induct)
  case (1 d c s)
  show ?case
  proof (cases "c < length (Offsets d)")
    case True
    then have u: "unat (of_nat c :: u32) = c" using 1(3) by (simp add: unat_of_nat)
    obtain d1 where d1: "(Dictionary_Get d (of_nat c) :: (storage_error, _) res) = Inr (dict_strings d ! c, d1)"
      "dict_wf d1" "dict_strings d1 = dict_strings d"
      using Dictionary_Get_wf [of d "of_nat c"] 1(2) True u by metis
    have drop: "drop c (dict_strings d) = dict_strings d ! c # drop (Suc c) (dict_strings d)"
      using True by (simp add: Cons_nth_drop_Suc)
    have ih: "dict_strings d ! c \<noteq> s \<Longrightarrow> \<exists>d'. dict_scan d1 (Suc c) s =
        Inr (map_option ((+) (Suc c)) (first_index s (drop (Suc c) (dict_strings d))), d') \<and>
        dict_wf d' \<and> dict_strings d' = dict_strings d"
      using 1(1) [OF True d1(1) refl] 1(3) d1 Dictionary_Get_frame [OF d1(1)]
      by (simp add: Suc_plus_fun)
    show ?thesis
      using True d1 ih by (subst dict_scan.simps) (auto simp: drop option.map_comp comp_def Suc_plus_fun)
  next
    case False
    then show ?thesis using 1(2) by (subst dict_scan.simps) simp
  qed
qed

text \<open>What \<^verbatim>\<open>Marshal\<close> writes, in closed form.\<close>

definition prefix_len :: "string list \<Rightarrow> nat \<Rightarrow> nat" where
  "prefix_len ss i = length (concat (take i ss))"

lemma marshal_entries_eq:
  "marshal_entries ss offsets data =
     (offsets @ map (\<lambda>i. of_nat (length data + prefix_len ss i)) [0..<length ss], data @ bytes_of (concat ss))"
proof (induction ss arbitrary: offsets data)
  case (Cons s ss)
  have "map (\<lambda>i. of_nat (length data + prefix_len (s # ss) i) :: u32) [0..<length (s # ss)] =
      of_nat (length data) # map (\<lambda>i. of_nat (length (data @ bytes_of s) + prefix_len ss i)) [0..<length ss]"
    by (simp add: prefix_len_def map_upt_Suc add.assoc del: upt_Suc)
  then show ?case by (simp add: Cons.IH del: upt_Suc)
qed (simp add: bytes_of_def)

lemma foldl_AppendUint32: "foldl AppendUint32 b os = b @ concat (map (le_bytes 4) os)"
  by (induction os arbitrary: b) (simp_all add: AppendUint32_def)

lemma read_offsets_append:
  "read_offsets (length os) (concat (map (le_bytes 4) os) @ rest) = Inr (os, rest)"
  by (induction os) (simp_all add: ReadUint32_def)

lemma length_concat_le_bytes: "length (concat (map (le_bytes n) os)) = n * length os"
  by (induction os) simp_all

definition dict_of_keys :: "string list \<Rightarrow> Dictionary" where
  "dict_of_keys ss = \<lparr>Offsets = map (\<lambda>i. of_nat (prefix_len ss i)) [0..<length ss],
     Data = bytes_of (concat ss), cache = []\<rparr>"

definition dict_bounded :: "string list \<Rightarrow> bool" where
  "dict_bounded ss \<longleftrightarrow> length ss < 2 ^ 32 \<and> length (concat ss) < 2 ^ 32"

lemma Unmarshal_Marshal:
  assumes "dict_bounded (keys db)"
  shows "UnmarshalDictionary (DictBuilder_Marshal db) = Inr (dict_of_keys (keys db))"
proof -
  define os :: "u32 list" where "os = map (\<lambda>i. of_nat (prefix_len (keys db) i)) [0..<length (keys db)]"
  have n: "length (keys db) = length os" by (simp add: os_def)
  have m: "marshal_entries (keys db) [] [] = (os, bytes_of (concat (keys db)))"
    by (simp add: marshal_entries_eq os_def)
  have b: "length os < 2 ^ 32" "length (concat (keys db)) < 2 ^ 32"
    using assms n by (simp_all add: dict_bounded_def)
  show ?thesis
    using b unfolding DictBuilder_Marshal_def m Let_def UnmarshalDictionary_def n
    by (simp add: VerifyTrailing_AppendChecksum foldl_AppendUint32 AppendUint32_def ReadUint32_def
        read_offsets_append length_concat_le_bytes unat_of_nat dict_of_keys_def os_def [symmetric])
qed

lemma prefix_len_Suc: "i < length ss \<Longrightarrow> prefix_len ss (Suc i) = prefix_len ss i + length (ss ! i)"
  by (simp add: prefix_len_def take_Suc_conv_app_nth)

lemma prefix_len_le: "prefix_len ss i \<le> length (concat ss)"
  by (metis append_take_drop_id concat_append le_add1 length_append prefix_len_def)

lemma take_drop_concat:
  "i < length ss \<Longrightarrow> take (length (ss ! i)) (drop (prefix_len ss i) (concat ss)) = ss ! i"
  by (induction ss arbitrary: i) (auto simp: prefix_len_def take_Cons nth_Cons split: nat.splits)

lemma dict_of_keys_ok:
  assumes "dict_bounded ss"
  shows "dict_wf (dict_of_keys ss)" "dict_strings (dict_of_keys ss) = ss"
proof -
  have lt: "prefix_len ss i < 2 ^ 32" for i
    using assms prefix_len_le [of ss i] by (simp add: dict_bounded_def)
  have start: "unat (Offsets (dict_of_keys ss) ! i) = prefix_len ss i" if "i < length ss" for i
    using that lt [of i] by (simp add: dict_of_keys_def unat_of_nat)
  have stop: "dict_stop (dict_of_keys ss) i = prefix_len ss (Suc i)" if "i < length ss" for i
    using that start [of "Suc i"] by (auto simp: dict_stop_def dict_of_keys_def prefix_len_def)
  have "prefix_len ss i + length (ss ! i) \<le> length (concat ss)" if "i < length ss" for i
    using that prefix_len_Suc [of i ss] prefix_len_le [of ss "Suc i"] by simp
  then show "dict_wf (dict_of_keys ss)"
    using assms start stop prefix_len_Suc [of _ ss]
    by (auto simp: dict_wf_def dict_bounded_def) (auto simp: dict_of_keys_def)
  show "dict_strings (dict_of_keys ss) = ss"
  proof (rule nth_equalityI)
    fix i assume "i < length (dict_strings (dict_of_keys ss))"
    then have i: "i < length ss" by (simp add: dict_of_keys_def)
    then have "dict_strings (dict_of_keys ss) ! i =
        string_of (take (length (ss ! i)) (drop (prefix_len ss i) (bytes_of (concat ss))))"
      using start stop prefix_len_Suc by (simp add: dict_strings_def) (simp add: dict_of_keys_def)
    also have "\<dots> = take (length (ss ! i)) (drop (prefix_len ss i) (concat ss))"
      by (simp add: bytes_of_def string_of_def take_map drop_map comp_def)
    finally show "dict_strings (dict_of_keys ss) ! i = ss ! i" using i by (simp add: take_drop_concat)
  qed (simp add: dict_of_keys_def)
qed

text \<open>
  The builder's invariant: the keys are distinct and the index sends each key to its position.
\<close>

definition db_inv :: "DictBuilder \<Rightarrow> bool" where
  "db_inv db \<longleftrightarrow> distinct (keys db) \<and>
     (\<forall>s. index db s = map_option of_nat (first_index s (keys db)))"

lemma db_inv_New [simp]: "db_inv NewDictBuilder"
  by (simp add: db_inv_def NewDictBuilder_def)

lemma DictBuilder_Add_keys:
  assumes "db_inv db"
  shows "keys (snd (DictBuilder_Add db s)) = (if s \<in> set (keys db) then keys db else keys db @ [s])"
  using assms by (auto simp: DictBuilder_Add_def db_inv_def Let_def first_index_None
      dest: first_index_mem split: option.splits)

lemma DictBuilder_Add_inv: "db_inv db \<Longrightarrow> db_inv (snd (DictBuilder_Add db s))"
  by (auto simp: DictBuilder_Add_def db_inv_def Let_def first_index_append first_index_None
      dest: first_index_mem split: option.splits)

lemma DictBuilder_Add_code:
  assumes "db_inv db" "length (keys db) < 2 ^ 32"
  shows "unat (fst (DictBuilder_Add db s)) < length (keys (snd (DictBuilder_Add db s)))"
    and "keys (snd (DictBuilder_Add db s)) ! unat (fst (DictBuilder_Add db s)) = s"
proof -
  have "unat (of_nat i :: u32) = i" if "i \<le> length (keys db)" for i
    using that assms(2) by (simp add: unat_of_nat)
  then show "unat (fst (DictBuilder_Add db s)) < length (keys (snd (DictBuilder_Add db s)))"
    and "keys (snd (DictBuilder_Add db s)) ! unat (fst (DictBuilder_Add db s)) = s"
    using assms(1) by (auto simp: DictBuilder_Add_def db_inv_def Let_def first_index_Some split: option.splits)
qed

text \<open>Encoding a whole column, the loop over \<^verbatim>\<open>Add\<close> of the writers.\<close>

fun add_all :: "DictBuilder \<Rightarrow> string list \<Rightarrow> u32 list \<times> DictBuilder" where
  "add_all db [] = ([], db)"
| "add_all db (s # ss) = (let (c, db) = DictBuilder_Add db s; (cs, db) = add_all db ss in (c # cs, db))"

lemma add_all_Cons:
  "fst (add_all db (s # ss)) = fst (DictBuilder_Add db s) # fst (add_all (snd (DictBuilder_Add db s)) ss)"
  "snd (add_all db (s # ss)) = snd (add_all (snd (DictBuilder_Add db s)) ss)"
  by (simp_all add: Let_def split: prod.splits)

lemma add_all_ok:
  assumes "db_inv db" "length (keys db) + length ss < 2 ^ 32"
  shows "db_inv (snd (add_all db ss)) \<and>
    (\<exists>more. keys (snd (add_all db ss)) = keys db @ more \<and> set more \<subseteq> set ss \<and>
      length (concat more) \<le> length (concat ss) \<and> length more \<le> length ss) \<and>
    (\<forall>c \<in> set (fst (add_all db ss)). unat c < length (keys (snd (add_all db ss)))) \<and>
    map (\<lambda>c. keys (snd (add_all db ss)) ! unat c) (fst (add_all db ss)) = ss"
  using assms
proof (induction ss arbitrary: db)
  case (Cons s ss)
  let ?c = "fst (DictBuilder_Add db s)" and ?db = "snd (DictBuilder_Add db s)"
  let ?r = "add_all ?db ss"
  have inv: "db_inv ?db" using Cons.prems DictBuilder_Add_inv by simp
  obtain m0 where m0: "keys ?db = keys db @ m0" "set m0 \<subseteq> {s}" "length (concat m0) \<le> length s" "length m0 \<le> 1"
    using DictBuilder_Add_keys [OF Cons.prems(1), of s] by (cases "s \<in> set (keys db)") auto
  have len: "length (keys ?db) + length ss < 2 ^ 32" using m0 Cons.prems(2) by simp
  note IH = Cons.IH [OF inv len]
  then obtain m where m: "keys (snd ?r) = keys ?db @ m" "set m \<subseteq> set ss"
    "length (concat m) \<le> length (concat ss)" "length m \<le> length ss"
    by auto
  have "unat ?c < length (keys ?db)" "keys ?db ! unat ?c = s"
    using DictBuilder_Add_code [OF Cons.prems(1), of s] Cons.prems(2) by simp_all
  then have c: "unat ?c < length (keys (snd ?r))" "keys (snd ?r) ! unat ?c = s"
    by (simp_all add: m nth_append)
  have "\<exists>more. keys (snd ?r) = keys db @ more \<and> set more \<subseteq> set (s # ss) \<and>
      length (concat more) \<le> length (concat (s # ss)) \<and> length more \<le> length (s # ss)"
    using m m0 by (intro exI [of _ "m0 @ m"]) auto
  then show ?case using IH c unfolding add_all_Cons by simp
qed simp

text \<open>A column encoded through a fresh builder reads back through the marshalled dictionary.\<close>

lemma dict_column_roundtrip:
  assumes "length ss < 2 ^ 32" "length (concat ss) < 2 ^ 32" "add_all NewDictBuilder ss = (codes, db)"
  shows "\<exists>d d'. UnmarshalDictionary (DictBuilder_Marshal db) = Inr d \<and> dict_wf d \<and>
    dict_strings d = keys db \<and> get_all Dictionary_Get d codes = (Inr (ss, d') :: (storage_error, _) res)"
proof -
  have ok: "db_inv db \<and> (\<exists>more. keys db = more \<and> length (concat more) \<le> length (concat ss) \<and> length more \<le> length ss) \<and>
      (\<forall>c \<in> set codes. unat c < length (keys db)) \<and> map (\<lambda>c. keys db ! unat c) codes = ss"
    using add_all_ok [OF db_inv_New, of ss] assms by (auto simp: NewDictBuilder_def)
  then have bounded: "dict_bounded (keys db)" using assms by (auto simp: dict_bounded_def)
  note d = dict_of_keys_ok [OF bounded]
  obtain d' where "get_all Dictionary_Get (dict_of_keys (keys db)) codes = (Inr (ss, d') :: (storage_error, _) res)"
    using dict.get_all_ok [OF d(1), of codes] ok d(2) by auto
  then show ?thesis using Unmarshal_Marshal [OF bounded] d by blast
qed


section \<open>Run-length lemmas\<close>

text \<open>The bytes of a column, one per row, and the runs they expand from.\<close>

definition cell :: "bool list \<Rightarrow> byte list \<Rightarrow> nat \<Rightarrow> byte" where
  "cell vals nb i = (if \<not> valid_at nb i then 0xFF else if vals ! i then 1 else 0)"

definition expand :: "(u32 \<times> byte) list \<Rightarrow> byte list" where
  "expand runs = concat (map (\<lambda>(l, v). replicate (unat l) v) runs)"

lemma rle_cell_ok:
  assumes "bitmap_bytes (length vals) \<le> length nb" "i < length vals"
  shows "rle_cell vals nb i = Inr (cell vals nb i)"
  using div8_less_bitmap_bytes [OF assms(2,1)] assms(2) by (simp add: rle_cell_def cell_def)

lemma rle_extend_ok:
  assumes "bitmap_bytes (length vals) \<le> length nb" "i + len \<le> length vals"
  shows "\<exists>l. rle_extend vals nb i cur len = Inr l \<and> len \<le> l \<and> i + l \<le> length vals \<and>
    (\<forall>j. len \<le> j \<and> j < l \<longrightarrow> cell vals nb (i + j) = cur)"
  using assms
proof (induction vals nb i cur len rule: rle_extend.induct)
  case (1 vals nb i cur len)
  show ?case
  proof (cases "i + len < length vals \<and> cell vals nb (i + len) = cur")
    case True
    then have c: "i + len < length vals" "rle_cell vals nb (i + len) = Inr cur"
      using rle_cell_ok [OF 1(2)] by auto
    then obtain l where l: "rle_extend vals nb i cur (len + 1) = Inr l" "len + 1 \<le> l" "i + l \<le> length vals"
      "\<forall>j. len + 1 \<le> j \<and> j < l \<longrightarrow> cell vals nb (i + j) = cur"
      using 1(1) [OF c] 1(2) by auto
    have "cell vals nb (i + j) = cur" if "len \<le> j" "j < l" for j
      using that l(4) True by (cases "j = len") auto
    then show ?thesis using l c by (subst rle_extend.simps) auto
  next
    case False
    then show ?thesis
      using 1(2,3) rle_cell_ok [OF 1(2), of "i + len"] by (subst rle_extend.simps) auto
  qed
qed

lemma map_cell_split:
  assumes "\<forall>j < l. f (i + j) = c" "i + l \<le> n"
  shows "map f [i..<n] = replicate l c @ map f [i + l..<n]"
proof -
  have "[i..<n] = map (\<lambda>j. i + j) [0..<l] @ [i + l..<n]"
    using upt_add_eq_append [of i "i + l" "n - (i + l)"] assms(2) by (simp add: map_add_upt add.commute)
  moreover have "map f (map (\<lambda>j. i + j) [0..<l]) = replicate l c"
    using assms(1) by (intro nth_equalityI) auto
  ultimately show ?thesis by simp
qed

lemma rle_runs_ok:
  assumes "bitmap_bytes (length vals) \<le> length nb" "length vals < 2 ^ 32"
  shows "\<exists>runs. rle_runs vals nb i = Inr runs \<and> expand runs = map (cell vals nb) [i..<length vals] \<and>
    length runs \<le> length vals - i"
  using assms
proof (induction vals nb i rule: rle_runs.induct)
  case (1 vals nb i)
  show ?case
  proof (cases "i < length vals")
    case True
    let ?c = "cell vals nb i"
    have c: "rle_cell vals nb i = Inr ?c" using rle_cell_ok 1(2) True by simp
    obtain l where l: "rle_extend vals nb i ?c 1 = Inr l" "1 \<le> l" "i + l \<le> length vals"
      "\<forall>j. 1 \<le> j \<and> j < l \<longrightarrow> cell vals nb (i + j) = ?c"
      using rle_extend_ok [OF 1(2), of i 1 ?c] True by auto
    obtain runs where r: "rle_runs vals nb (i + l) = Inr runs"
      "expand runs = map (cell vals nb) [i + l..<length vals]" "length runs \<le> length vals - (i + l)"
      using 1(1) [OF True c l(1)] 1(2,3) by auto
    have "\<forall>j < l. cell vals nb (i + j) = ?c" using l(4) by (metis One_nat_def Suc_leI add.right_neutral neq0_conv)
    moreover have "unat (of_nat l :: u32) = l" using l(3) 1(3) by (simp add: unat_of_nat)
    ultimately have "expand ((of_nat l, ?c) # runs) = map (cell vals nb) [i..<length vals]"
      using map_cell_split [of l "cell vals nb" i ?c "length vals"] l(3) r(2) by (simp add: expand_def)
    then show ?thesis using True c l r by (subst rle_runs.simps) auto
  next
    case False
    then show ?thesis by (subst rle_runs.simps) (simp add: expand_def)
  qed
qed

text \<open>The body of an encoded block reads back as the runs it was made from.\<close>

lemma foldl_runs:
  "foldl (\<lambda>b (len, val). AppendUint32 b len @ [val]) b runs = b @ concat (map (\<lambda>(l, v). le_bytes 4 l @ [v]) runs)"
  by (induction runs arbitrary: b) (auto simp: AppendUint32_def)

lemma read_runs_append:
  "read_runs (length runs) (concat (map (\<lambda>(l, v). le_bytes 4 l @ [v]) runs) @ rest) = Inr (runs, rest)"
  by (induction runs) (auto simp: ReadUint32_def)

lemma fold_res_run: "fold_res (\<lambda>st j. f v st) st [0..<n] = fold_res (\<lambda>st w. f w st) st (replicate n v)"
proof -
  have "fold_res (\<lambda>st j. f v st) st xs = fold_res (\<lambda>st w. f w st) st (replicate (length xs) v)" for xs :: "nat list"
    by (induction xs arbitrary: st) (auto intro!: res_bind_cong)
  from this [of "[0..<n]"] show ?thesis by simp
qed

lemma fold_res_expand:
  "fold_res (\<lambda>st (l, v). fold_res (\<lambda>st j. f v st) st [0..<unat l]) st runs = fold_res (\<lambda>st w. f w st) st (expand runs)"
proof (induction runs arbitrary: st)
  case (Cons r runs)
  obtain l v where r: "r = (l, v)" by fastforce
  have e: "expand (r # runs) = replicate (unat l) v @ expand runs" by (simp add: r expand_def)
  show ?case
    unfolding e fold_res_append by (simp add: r fold_res_run Cons.IH [symmetric])
qed (simp add: expand_def)

definition decoded :: "byte list \<Rightarrow> nat \<Rightarrow> rle_state \<Rightarrow> bool" where
  "decoded cs k = (\<lambda>(vals, nb, pos). pos = k \<and> length vals = length cs \<and> length nb = bitmap_bytes (length cs) \<and>
     (\<forall>i < length cs. vals ! i \<longleftrightarrow> i < k \<and> cs ! i = 1) \<and>
     (\<forall>i. valid_at nb i \<longleftrightarrow> i < length cs \<and> (i < k \<longrightarrow> cs ! i \<noteq> 0xFF)))"

lemma rle_put_step:
  assumes "decoded cs k st" "k < length cs"
  shows "\<exists>st'. rle_put (cs ! k) st = Inr st' \<and> decoded cs (Suc k) st'"
proof -
  obtain vals nb where st: "st = (vals, nb, k)" using assms by (auto simp: decoded_def)
  have b: "k div 8 < length nb" using assms by (auto simp: st decoded_def intro: div8_less_bitmap_bytes)
  obtain nb' where "SetNullBit nb k = (Inr nb' :: (storage_error, _) res)" "length nb' = length nb"
    "\<And>j. valid_at nb' j \<longleftrightarrow> valid_at nb j \<and> j \<noteq> k"
    using SetNullBit_eq [OF b] by blast
  then show ?thesis
    using assms by (auto simp: st rle_put_def decoded_def nth_list_update less_Suc_eq)
qed

lemma rle_put_all:
  assumes "decoded cs k st" "k \<le> length cs"
  shows "\<exists>st'. fold_res (\<lambda>st w. rle_put w st) st (drop k cs) = Inr st' \<and> decoded cs (length cs) st'"
  using assms
proof (induction "length cs - k" arbitrary: k st)
  case 0
  then show ?case by simp
next
  case (Suc n)
  then have k: "k < length cs" by simp
  obtain st1 where "rle_put (cs ! k) st = Inr st1" "decoded cs (Suc k) st1"
    using rle_put_step [OF Suc.prems(1) k] by auto
  with Suc.hyps(1) [of "Suc k" st1] Suc.hyps(2) k show ?case
    by (simp add: Cons_nth_drop_Suc [symmetric])
qed

lemma DecodeRLEBool_runs:
  assumes "length runs < 2 ^ 32" "n = length (expand runs)"
  shows "\<exists>vals nb. DecodeRLEBool (AppendChecksum (AppendUint32 [] (of_nat (length runs)) @
      concat (map (\<lambda>(l, v). le_bytes 4 l @ [v]) runs))) = Inr (vals, nb, n) \<and> decoded (expand runs) n (vals, nb, n)"
proof -
  have total: "sum_list (map (\<lambda>(l, v). unat l) runs) = n"
    unfolding assms(2) expand_def by (induction runs) auto
  have "decoded (expand runs) 0 (replicate n False, FullBitmap n, 0)"
    by (simp add: decoded_def assms(2))
  from rle_put_all [OF this]
  obtain vals nb where "fold_res (\<lambda>st w. rle_put w st) (replicate n False, FullBitmap n, 0) (expand runs) = Inr (vals, nb, n)"
    "decoded (expand runs) n (vals, nb, n)"
    by (auto simp: decoded_def assms(2))
  then show ?thesis
    using assms(1) read_runs_append [of runs "[]"]
    by (simp add: DecodeRLEBool_def VerifyTrailing_AppendChecksum AppendUint32_def ReadUint32_def
        unat_of_nat fold_res_expand total Let_def)
qed

lemma RLEBool_decodes:
  assumes "bitmap_bytes (length vals) \<le> length nb" "length vals < 2 ^ 32"
  shows "\<exists>b vals' nb'. EncodeRLEBool vals nb = Inr b \<and> DecodeRLEBool b = Inr (vals', nb', length vals) \<and>
    length vals' = length vals \<and> length nb' = bitmap_bytes (length vals) \<and>
    (\<forall>i. valid_at nb' i \<longleftrightarrow> i < length vals \<and> valid_at nb i) \<and>
    (\<forall>i < length vals. vals' ! i \<longleftrightarrow> valid_at nb i \<and> vals ! i)"
proof -
  obtain runs where runs: "rle_runs vals nb 0 = Inr runs"
    "expand runs = map (cell vals nb) [0..<length vals]" "length runs \<le> length vals"
    using rle_runs_ok [OF assms, of 0] by auto
  obtain vals' nb' where
    "DecodeRLEBool (AppendChecksum (AppendUint32 [] (of_nat (length runs)) @
      concat (map (\<lambda>(l, v). le_bytes 4 l @ [v]) runs))) = Inr (vals', nb', length vals)"
    "decoded (expand runs) (length vals) (vals', nb', length vals)"
    using DecodeRLEBool_runs [of runs "length vals"] runs assms(2) by auto
  then show ?thesis
    using runs by (auto simp: EncodeRLEBool_def foldl_runs decoded_def cell_def)
qed


section \<open>Properties\<close>

text \<open>
  C21: a BOOL column survives the run-length encoding. For any column of fewer than \<open>2 ^ 32\<close> rows with
  a bitmap that covers it, the encoder succeeds and the decoder returns the row count, a bitmap
  of exactly the right size in which exactly the valid rows are set (padding bits are zero), and
  every valid row's value; null rows come back as false.
\<close>

theorem RLEBool_roundtrip:
  assumes "bitmap_bytes (length vals) \<le> length nb" "length vals < 2 ^ 32"
  shows "\<exists>b vals' nb'. EncodeRLEBool vals nb = Inr b \<and> DecodeRLEBool b = Inr (vals', nb', length vals) \<and>
    length vals' = length vals \<and> length nb' = bitmap_bytes (length vals) \<and>
    (\<forall>i. valid_at nb' i \<longleftrightarrow> i < length vals \<and> valid_at nb i) \<and>
    (\<forall>i < length vals. vals' ! i \<longleftrightarrow> valid_at nb i \<and> vals ! i)"
  using assms by (rule RLEBool_decodes)

theorem RLEBool_roundtrip_witness:
  "\<exists>b vals' nb'. EncodeRLEBool [True, True, False] [5] = Inr b \<and> DecodeRLEBool b = Inr (vals', nb', 3) \<and>
    vals' = [True, False, False] \<and> length nb' = 1 \<and> valid_at nb' 0 \<and> \<not> valid_at nb' 1 \<and> valid_at nb' 2"
proof -
  have v: "valid_at [5] 0" "\<not> valid_at [5] 1" "valid_at [5] 2" by code_simp+
  obtain b vals' nb' where r: "EncodeRLEBool [True, True, False] [5] = Inr b"
    "DecodeRLEBool b = Inr (vals', nb', 3)" "length vals' = 3" "length nb' = 1"
    "\<forall>i. valid_at nb' i \<longleftrightarrow> i < 3 \<and> valid_at [5] i"
    "\<forall>i < 3. vals' ! i \<longleftrightarrow> valid_at [5] i \<and> [True, True, False] ! i"
    using RLEBool_roundtrip [of "[True, True, False]" "[5]"] by (auto simp: numeral_3_eq_3)
  have "vals' = [True, False, False]"
    using r(3,6) v by (intro nth_equalityI) (auto simp: less_Suc_eq numeral_3_eq_3)
  then show ?thesis using r(1,2,4,5) v by auto
qed

text \<open>
  C14: a string column survives dictionary encoding. Adding the strings to a fresh builder, then
  marshalling, checking and parsing the dictionary blob gives a well-formed dictionary of the
  builder's keys, and looking up the codes one after the other, with the memo threaded through,
  returns the column.
\<close>

theorem Dictionary_column_roundtrip:
  assumes "length ss < 2 ^ 32" "length (concat ss) < 2 ^ 32" "add_all NewDictBuilder ss = (codes, db)"
  shows "\<exists>d d'. UnmarshalDictionary (DictBuilder_Marshal db) = Inr d \<and> dict_wf d \<and>
    dict_strings d = keys db \<and> distinct (keys db) \<and>
    get_all Dictionary_Get d codes = (Inr (ss, d') :: (storage_error, _) res)"
  using dict_column_roundtrip [OF assms] add_all_ok [OF db_inv_New, of ss] assms
  by (auto simp: db_inv_def NewDictBuilder_def)

theorem Dictionary_column_roundtrip_witness:
  "\<exists>d d'. UnmarshalDictionary (DictBuilder_Marshal (snd (add_all NewDictBuilder [''R'', ''N'', '''', ''R'']))) = Inr d \<and>
    get_all Dictionary_Get d [0, 1, 2, 0] = (Inr ([''R'', ''N'', '''', ''R''], d') :: (storage_error, _) res)"
proof -
  have "fst (add_all NewDictBuilder [''R'', ''N'', '''', ''R'']) = [0, 1, 2, 0]"
    by (simp add: DictBuilder_Add_def NewDictBuilder_def Let_def)
  then have "add_all NewDictBuilder [''R'', ''N'', '''', ''R''] =
      ([0, 1, 2, 0], snd (add_all NewDictBuilder [''R'', ''N'', '''', ''R'']))"
    by (simp add: prod_eq_iff)
  from Dictionary_column_roundtrip [OF _ _ this] show ?thesis by auto
qed

text \<open>
  C29: the memo of \<^verbatim>\<open>Get\<close> is invisible. On a well-formed dictionary \<^verbatim>\<open>Get\<close> panics exactly on codes out of
  range, returns the string of the code whatever has been memoised before, and leaves a
  well-formed dictionary of the same strings.
\<close>

theorem Dictionary_Get_spec:
  assumes "dict_wf d"
  shows "if unat code < Dictionary_Len d
    then \<exists>d'. Dictionary_Get d code = (Inr (dict_strings d ! unat code, d') :: ('e, _) res) \<and> dict_wf d' \<and>
      dict_strings d' = dict_strings d
    else Dictionary_Get d code = (Inl Panic :: ('e, _) res)"
  using dict.get_ok [OF assms, of code] dict.get_panic [OF assms, of code]
  by (auto simp: Dictionary_Len_def)

theorem Dictionary_Get_spec_witness:
  "\<exists>d'. Dictionary_Get (dict_of_keys [''ab'', ''c'']) 1 = (Inr (''c'', d') :: (storage_error, _) res) \<and> dict_wf d'"
proof -
  have b: "dict_bounded [''ab'', ''c'']" by (simp add: dict_bounded_def)
  have "Dictionary_Len (dict_of_keys [''ab'', ''c'']) = 2" by (simp add: Dictionary_Len_def dict_of_keys_def)
  then show ?thesis
    using Dictionary_Get_spec [OF dict_of_keys_ok(1) [OF b], of 1, where 'e = storage_error] dict_of_keys_ok(2) [OF b]
    by auto
qed

text \<open>
  C30: \<^verbatim>\<open>Lookup\<close> on a dictionary parsed from a builder finds exactly the builder's codes: it terminates
  without panic and answers what the builder's own index answers.
\<close>

theorem Dictionary_Lookup_builder:
  assumes "db_inv db" "dict_bounded (keys db)" "UnmarshalDictionary (DictBuilder_Marshal db) = Inr d"
  shows "\<exists>d'. Dictionary_Lookup d s = Inr (DictBuilder_Lookup db s, d') \<and> dict_strings d' = dict_strings d"
proof -
  have d: "d = dict_of_keys (keys db)" using Unmarshal_Marshal [OF assms(2)] assms(3) by simp
  have len: "length (Offsets d) < 2 ^ 32" using assms(2) by (simp add: d dict_of_keys_def dict_bounded_def)
  have wf: "dict_wf d" "dict_strings d = keys db" using dict_of_keys_ok [OF assms(2)] d by simp_all
  have "index db s = map_option of_nat (first_index s (keys db))" using assms(1) by (simp add: db_inv_def)
  then show ?thesis
    using dict_scan_ok [OF wf(1) len, of 0 s] wf(2)
    by (auto simp: Dictionary_Lookup_def DictBuilder_Lookup_def zero_plus_fun option.map_id)
qed

theorem Dictionary_Lookup_builder_witness:
  "\<exists>d d'. UnmarshalDictionary (DictBuilder_Marshal (snd (DictBuilder_Add NewDictBuilder ''x''))) = Inr d \<and>
    Dictionary_Lookup d ''x'' = Inr (Some 0, d')"
proof -
  let ?db = "snd (DictBuilder_Add NewDictBuilder ''x'')"
  have k: "keys ?db = [''x'']" "index ?db ''x'' = Some 0" by (simp_all add: DictBuilder_Add_def NewDictBuilder_def Let_def)
  then have b: "dict_bounded (keys ?db)" by (simp add: dict_bounded_def)
  show ?thesis
    using Dictionary_Lookup_builder [OF DictBuilder_Add_inv [OF db_inv_New, of "''x''"] b Unmarshal_Marshal [OF b], of "''x''"]
      Unmarshal_Marshal [OF b] k(2) by (auto simp: DictBuilder_Lookup_def)
qed

end
