(* ===== verification/Float64.thy ===== *)
theory Float64
  imports Prelude
begin

text \<open>
  IEEE 754 binary64 as the executor uses it (Go's \<^verbatim>\<open>float64\<close>): a value is its bit pattern. Finite
  values are integers in units of \<open>2 ^ (-1074)\<close>, the smallest positive float; an operation computes
  the exact rational result in those units and rounds it once, to nearest with ties to even.
  Which NaN pattern an operation returns is left open by the language; here it is the one that
  \<^verbatim>\<open>math.NaN()\<close> returns.
\<close>

type_synonym f64 = "64 word"

definition f_nan :: f64 where "f_nan = 0x7FF8000000000001"

definition f_neg :: "f64 \<Rightarrow> bool" where "f_neg x = bit x 63"

text \<open>The pattern without its sign, as a number: it orders the magnitudes of all but the NaNs.\<close>

definition f_abs_bits :: "f64 \<Rightarrow> nat" where "f_abs_bits x = unat (take_bit 63 x)"

definition f_inf_bits :: nat where "f_inf_bits = 2047 * 2 ^ 52"

definition f_make :: "bool \<Rightarrow> nat \<Rightarrow> f64" where
  "f_make neg bits = of_nat bits OR (if neg then push_bit 63 1 else 0)"

definition is_nan :: "f64 \<Rightarrow> bool" where "is_nan x \<longleftrightarrow> f_inf_bits < f_abs_bits x"

definition is_inf :: "f64 \<Rightarrow> bool" where "is_inf x \<longleftrightarrow> f_abs_bits x = f_inf_bits"

section \<open>Comparison\<close>

definition f_key :: "f64 \<Rightarrow> int" where
  "f_key x = (if f_neg x then - int (f_abs_bits x) else int (f_abs_bits x))"

definition f_eq :: "f64 \<Rightarrow> f64 \<Rightarrow> bool" where
  "f_eq x y \<longleftrightarrow> \<not> is_nan x \<and> \<not> is_nan y \<and> f_key x = f_key y"

definition f_lt :: "f64 \<Rightarrow> f64 \<Rightarrow> bool" where
  "f_lt x y \<longleftrightarrow> \<not> is_nan x \<and> \<not> is_nan y \<and> f_key x < f_key y"

definition f_le :: "f64 \<Rightarrow> f64 \<Rightarrow> bool" where
  "f_le x y \<longleftrightarrow> \<not> is_nan x \<and> \<not> is_nan y \<and> f_key x \<le> f_key y"

section \<open>Rounding\<close>

fun bitlen :: "nat \<Rightarrow> nat" where
  "bitlen n = (if n = 0 then 0 else Suc (bitlen (n div 2)))"

declare bitlen.simps [simp del]

definition div_half_even :: "nat \<Rightarrow> nat \<Rightarrow> nat" where
  "div_half_even num den = (let q = num div den; r = num mod den in
     if 2 * r < den \<or> (2 * r = den \<and> even q) then q else q + 1)"

text \<open>
  Magnitude of an exponent/mantissa pattern in units of \<open>2 ^ (-1074)\<close>, and the pattern nearest to
  the rational \<open>num / den\<close>: \<open>e\<close> is the exponent field less one, so that the significand has 53 bits,
  or zero for subnormals. A carry out of the significand moves into the exponent by itself.
\<close>

definition f_mag :: "nat \<Rightarrow> nat" where
  "f_mag bits = (let e = bits div 2 ^ 52; m = bits mod 2 ^ 52 in
     if e = 0 then m else (m + 2 ^ 52) * 2 ^ (e - 1))"

definition f_round_mag :: "nat \<Rightarrow> nat \<Rightarrow> nat" where
  "f_round_mag num den = (let e = bitlen (num div den) - 53 in
     min f_inf_bits (e * 2 ^ 52 + div_half_even num (den * 2 ^ e)))"

definition f_round :: "bool \<Rightarrow> nat \<Rightarrow> nat \<Rightarrow> f64" where
  "f_round neg num den = f_make neg (f_round_mag num den)"

definition f_val :: "f64 \<Rightarrow> int" where
  "f_val x = (if f_neg x then - int (f_mag (f_abs_bits x)) else int (f_mag (f_abs_bits x)))"

section \<open>Arithmetic\<close>

definition f_add :: "f64 \<Rightarrow> f64 \<Rightarrow> f64" where
  "f_add x y =
     (if is_nan x \<or> is_nan y then f_nan
      else if is_inf x then (if is_inf y \<and> f_neg x \<noteq> f_neg y then f_nan else x)
      else if is_inf y then y
      else (let v = f_val x + f_val y in
        if v = 0 then f_make (f_neg x \<and> f_neg y) 0 else f_round (v < 0) (nat \<bar>v\<bar>) 1))"

definition f_negate :: "f64 \<Rightarrow> f64" where
  "f_negate x = x XOR push_bit 63 1"

definition f_sub :: "f64 \<Rightarrow> f64 \<Rightarrow> f64" where
  "f_sub x y = f_add x (f_negate y)"

definition f_mul :: "f64 \<Rightarrow> f64 \<Rightarrow> f64" where
  "f_mul x y = (let neg = (f_neg x \<noteq> f_neg y) in
     if is_nan x \<or> is_nan y then f_nan
     else if is_inf x \<or> is_inf y then
       (if f_abs_bits x = 0 \<or> f_abs_bits y = 0 then f_nan else f_make neg f_inf_bits)
     else f_round neg (f_mag (f_abs_bits x) * f_mag (f_abs_bits y)) (2 ^ 1074))"

definition f_div :: "f64 \<Rightarrow> f64 \<Rightarrow> f64" where
  "f_div x y = (let neg = (f_neg x \<noteq> f_neg y) in
     if is_nan x \<or> is_nan y then f_nan
     else if is_inf x then (if is_inf y then f_nan else f_make neg f_inf_bits)
     else if is_inf y then f_make neg 0
     else if f_abs_bits y = 0 then (if f_abs_bits x = 0 then f_nan else f_make neg f_inf_bits)
     else f_round neg (f_mag (f_abs_bits x) * 2 ^ 1074) (f_mag (f_abs_bits y)))"

text \<open>The conversion \<^verbatim>\<open>float64(i)\<close> of an \<^verbatim>\<open>int64\<close>.\<close>

definition f_of_int64 :: "i64 \<Rightarrow> f64" where
  "f_of_int64 i = f_round (sint i < 0) (nat \<bar>sint i\<bar> * 2 ^ 1074) 1"

section \<open>Lemmas\<close>

lemma f_lt_trans: "f_lt x y \<Longrightarrow> f_lt y z \<Longrightarrow> f_lt x z"
  by (simp add: f_lt_def)

lemma f_le_trans: "f_le x y \<Longrightarrow> f_le y z \<Longrightarrow> f_le x z"
  by (simp add: f_le_def)

lemma f_le_lt_trans: "f_le x y \<Longrightarrow> f_lt y z \<Longrightarrow> f_lt x z"
  by (simp add: f_le_def f_lt_def)

lemma f_lt_le_trans: "f_lt x y \<Longrightarrow> f_le y z \<Longrightarrow> f_lt x z"
  by (simp add: f_le_def f_lt_def)

lemma f_total: "\<not> is_nan x \<Longrightarrow> \<not> is_nan y \<Longrightarrow> f_lt x y \<or> f_eq x y \<or> f_lt y x"
  by (auto simp: f_lt_def f_eq_def)

lemma f_le_iff: "f_le x y \<longleftrightarrow> f_lt x y \<or> f_eq x y"
  by (auto simp: f_le_def f_lt_def f_eq_def)

lemma f_nan_unordered: "is_nan x \<Longrightarrow> \<not> f_eq x y \<and> \<not> f_lt x y \<and> \<not> f_le x y \<and> \<not> f_eq y x \<and> \<not> f_lt y x \<and> \<not> f_le y x"
  by (simp add: f_eq_def f_lt_def f_le_def)

lemma f_abs_bits_less: "f_abs_bits x < 2 ^ 63"
proof -
  have "unat (take_bit 63 x) = take_bit 63 (unat x)" by (simp add: unsigned_take_bit_eq)
  then show ?thesis by (simp add: f_abs_bits_def take_bit_eq_mod)
qed

lemma bit_sign_word: "bit (push_bit 63 1 :: f64) k \<longleftrightarrow> k = 63"
  by (auto simp only: bit_push_bit_iff bit_1_iff) auto

lemma bit_f_make: "bit (f_make neg n) k \<longleftrightarrow> k < 64 \<and> bit n k \<or> (neg \<and> k = 63)"
  unfolding f_make_def bit_or_iff using bit_sign_word [of k] by (auto simp: bit_simps simp del: push_bit_of_1)

lemma f_make_bits:
  assumes "n < 2 ^ 63"
  shows "f_abs_bits (f_make neg n) = n" "f_neg (f_make neg n) = neg"
proof -
  have n63: "take_bit 63 n = n" using assms by (simp add: take_bit_nat_eq_self_iff)
  then have nb: "bit n k \<Longrightarrow> k < 63" for k by (metis bit_take_bit_iff)
  have bits: "bit (f_make neg n) k \<longleftrightarrow> (k < 63 \<and> bit n k) \<or> (neg \<and> k = 63)" if "k < 64" for k
    using that nb by (auto simp: bit_f_make)
  have "take_bit 63 (f_make neg n) = (of_nat n :: f64)"
    by (rule bit_word_eqI) (use bits nb in \<open>auto simp: bit_simps\<close>)
  then show "f_abs_bits (f_make neg n) = n"
    using assms by (simp add: f_abs_bits_def unat_of_nat)
  show "f_neg (f_make neg n) = neg" using bits [of 63] by (simp add: f_neg_def)
qed

lemma f_make_self: "f_make (f_neg x) (f_abs_bits x) = x"
proof (rule bit_word_eqI)
  fix k assume "k < LENGTH(64)"
  then have "k < 63 \<or> k = 63" by auto
  then show "bit (f_make (f_neg x) (f_abs_bits x)) k = bit x k"
    by (auto simp: bit_f_make f_neg_def f_abs_bits_def bit_simps)
qed

lemma bitlen_bounds: "0 < n \<Longrightarrow> 2 ^ (bitlen n - 1) \<le> n \<and> n < 2 ^ bitlen n \<and> 0 < bitlen n"
proof (induction n rule: bitlen.induct)
  case (1 n)
  show ?case
  proof (cases "n div 2 = 0")
    case True
    then have "n = 1" using 1(2) by simp
    then show ?thesis by (simp add: bitlen.simps)
  next
    case False
    then have ih: "2 ^ (bitlen (n div 2) - 1) \<le> n div 2 \<and> n div 2 < 2 ^ bitlen (n div 2) \<and> 0 < bitlen (n div 2)"
      using 1 by simp
    then obtain k where k: "bitlen (n div 2) = Suc k" by (cases "bitlen (n div 2)") auto
    have "bitlen n = Suc (Suc k)" using 1(2) k by (subst bitlen.simps) simp
    with ih k show ?thesis by auto
  qed
qed

lemma bitlen_unique: "2 ^ k \<le> n \<Longrightarrow> n < 2 ^ Suc k \<Longrightarrow> bitlen n = Suc k"
proof -
  assume a: "2 ^ k \<le> n" "n < 2 ^ Suc k"
  then have "0 < n" by (metis le_zero_eq neq0_conv power_not_zero zero_neq_numeral)
  note b = bitlen_bounds [OF this]
  have "k < bitlen n" using a(1) b by (metis le_less_trans nat_power_less_imp_less zero_less_numeral)
  moreover have "bitlen n - 1 < Suc k" using a(2) b by (metis le_less_trans nat_power_less_imp_less zero_less_numeral)
  ultimately show ?thesis by simp
qed

lemma div_half_even_exact: "0 < d \<Longrightarrow> div_half_even (q * d) d = q"
  by (simp add: div_half_even_def)

text \<open>Rounding is the identity on the floats: every finite pattern is nearest to its own value.\<close>

lemma f_round_mag_f_mag:
  assumes "n \<le> f_inf_bits"
  shows "f_round_mag (f_mag n) 1 = n"
proof -
  define e m where "e = n div 2 ^ 52" and "m = n mod 2 ^ 52"
  have n: "n = e * 2 ^ 52 + m" and m: "m < 2 ^ 52" by (simp_all add: e_def m_def)
  show ?thesis
  proof (cases "e = 0")
    case True
    have "bitlen m \<le> 53" if "0 < m"
    proof -
      have "2 ^ (bitlen m - 1) < (2::nat) ^ 52" using bitlen_bounds [OF that] m by linarith
      then have "bitlen m - 1 < 52" by (rule power_less_imp_less_exp [rotated]) simp
      then show ?thesis by simp
    qed
    then have "bitlen m \<le> 53" by (cases "m = 0") (simp_all add: bitlen.simps)
    moreover have "f_mag n = m" using True unfolding f_mag_def Let_def e_def [symmetric] m_def [symmetric] by simp
    moreover have "n = m" using n True by simp
    ultimately show ?thesis
      using assms div_half_even_exact [of 1 m] by (simp add: f_round_mag_def Let_def)
  next
    case False
    then obtain k where k: "e = Suc k" by (cases e) auto
    let ?s = "m + 2 ^ 52"
    have mag: "f_mag n = ?s * 2 ^ k"
      using k unfolding f_mag_def Let_def e_def [symmetric] m_def [symmetric] by simp
    have "bitlen (?s * 2 ^ k) = Suc (52 + k)"
    proof (rule bitlen_unique)
      show "2 ^ (52 + k) \<le> ?s * 2 ^ k" by (simp add: power_add)
      have "?s * 2 ^ k < 2 ^ 53 * 2 ^ k" using m by (intro mult_strict_right_mono) simp_all
      then show "?s * 2 ^ k < 2 ^ Suc (52 + k)" by (simp add: power_add)
    qed
    then have "f_round_mag (f_mag n) 1 = min f_inf_bits (k * 2 ^ 52 + ?s)"
      using div_half_even_exact [of "2 ^ k" ?s] by (simp add: f_round_mag_def mag Let_def)
    also have "k * 2 ^ 52 + ?s = n" using n k by simp
    finally show ?thesis using assms by simp
  qed
qed

lemma f_round_self:
  assumes "\<not> is_nan x"
  shows "f_round (f_neg x) (f_mag (f_abs_bits x)) 1 = x"
  using assms f_round_mag_f_mag [of "f_abs_bits x"] by (simp add: f_round_def is_nan_def f_make_self)

end
