(* ===== verification/Batch.thy ===== *)
theory Batch
  imports Codec Float64
begin

text \<open>
  The vectors and batches of package \<^verbatim>\<open>exec\<close> (\<^verbatim>\<open>batch.go\<close>), the scratch buffers its expressions reuse
  (\<^verbatim>\<open>scratch.go\<close>) and the caching literal of \<^verbatim>\<open>expr.go\<close>. A slice with spare capacity is its backing
  array; taking a vector from it shows the first elements. The acquire functions return what a
  fresh allocation would hold whatever the slot held before, and a literal returns the same
  broadcast vector from its cache as from an empty one: this is why the expression evaluator can be
  stated over fresh vectors.
\<close>

section \<open>Vectors and batches\<close>

datatype vector =
    Int64Vector "i64 list" "byte list"
  | Float64Vector "f64 list" "byte list"
  | BoolVector "byte list" "byte list" nat
  | StringVector "u32 list" "Dictionary option" "byte list"
  | DateVector "i32 list" "byte list"

type_synonym SelectionVector = "u16 list"

record Batch =
  BSchema :: Schema
  Vectors :: "vector list"
  BLength :: nat
  SelVec :: "SelectionVector option"

datatype exec_error =
    ErrColumnRange | ErrCastInput | ErrCmpType | ErrArithMismatch | ErrArithType | ErrAndOperand
  | ErrOrOperand | ErrNotOperand | ErrInType | ErrLikeType | ErrStringEqColumn | ErrCaseCond
  | ErrBuildRows | ErrJoinKey | ErrFilterType | ErrFilterPredicate | ErrNoProjections | ErrNoSortKeys
  | ErrSharedTable | ErrAggEmpty | ErrGroupByColumn | ErrAggColumn | ErrAggInput | ErrAggStrings | ErrStorage storage_error
  | ErrScanColumn | ErrScanNames | ErrSource nat

type_synonym 'a xres = "(exec_error, 'a) res"

fun Len :: "vector \<Rightarrow> nat" where
  "Len (Int64Vector vs nb) = length vs"
| "Len (Float64Vector vs nb) = length vs"
| "Len (BoolVector bits nb n) = n"
| "Len (StringVector cs d nb) = length cs"
| "Len (DateVector vs nb) = length vs"

fun VType :: "vector \<Rightarrow> DataType" where
  "VType (Int64Vector vs nb) = TypeInt64"
| "VType (Float64Vector vs nb) = TypeFloat64"
| "VType (BoolVector bits nb n) = TypeBool"
| "VType (StringVector cs d nb) = TypeString"
| "VType (DateVector vs nb) = TypeDate"

fun Nulls :: "vector \<Rightarrow> byte list" where
  "Nulls (Int64Vector vs nb) = nb"
| "Nulls (Float64Vector vs nb) = nb"
| "Nulls (BoolVector bits nb n) = nb"
| "Nulls (StringVector cs d nb) = nb"
| "Nulls (DateVector vs nb) = nb"

definition IsNull :: "vector \<Rightarrow> nat \<Rightarrow> bool xres" where
  "IsNull v i = IsNullBit (Nulls v) i"

definition BoolVector_Get :: "byte list \<Rightarrow> nat \<Rightarrow> bool xres" where
  "BoolVector_Get bits i = res_map (\<lambda>b. drop_bit (i mod 8) b AND 1 = 1) (idx bits (i div 8))"

definition BoolVector_Set :: "byte list \<Rightarrow> nat \<Rightarrow> bool \<Rightarrow> byte list xres" where
  "BoolVector_Set bits i val = res_bind (idx bits (i div 8)) (\<lambda>b.
     if val then upd bits (i div 8) (b OR push_bit (i mod 8) 1)
     else upd bits (i div 8) (b AND NOT (push_bit (i mod 8) 1)))"

text \<open>The memo of the dictionary is not threaded here: it never changes what \<^verbatim>\<open>Get\<close> returns.\<close>

definition StringVector_Get :: "u32 list \<Rightarrow> Dictionary option \<Rightarrow> nat \<Rightarrow> string xres" where
  "StringVector_Get codes dict i = (case dict of None \<Rightarrow> Inr []
     | Some d \<Rightarrow> res_bind (idx codes i) (\<lambda>c. res_map fst (Dictionary_Get d c)))"

definition newStringVector :: "DictBuilder \<Rightarrow> u32 list \<Rightarrow> byte list \<Rightarrow> vector xres" where
  "newStringVector db codes nullBmp = (
     let rawDict = DictBuilder_Marshal db in
     case UnmarshalDictionary rawDict of
       Inr d \<Rightarrow> Inr (StringVector codes (Some d) nullBmp)
     | Inl (Err e) \<Rightarrow> Inr (StringVector codes None nullBmp)
     | Inl Panic \<Rightarrow> Inl Panic)"

text \<open>The raw 64 bits of a cell (\<^verbatim>\<open>aggregate.go\<close>); a string has none.\<close>

fun extractInt64 :: "vector \<Rightarrow> nat \<Rightarrow> i64 xres" where
  "extractInt64 (Int64Vector vs nb) i = idx vs i"
| "extractInt64 (Float64Vector vs nb) i = idx vs i"
| "extractInt64 (DateVector vs nb) i = res_map (\<lambda>d. word_of_int (sint d)) (idx vs i)"
| "extractInt64 (BoolVector bits nb n) i = res_map (\<lambda>b. if b then 1 else 0) (BoolVector_Get bits i)"
| "extractInt64 (StringVector cs d nb) i = Inr 0"

definition physicalLen :: "Batch \<Rightarrow> nat" where
  "physicalLen b = (if Vectors b \<noteq> [] then Len (hd (Vectors b)) else BLength b)"

definition evalLen :: "Batch \<Rightarrow> nat" where
  "evalLen b = (if SelVec b = None then BLength b else physicalLen b)"

record rowSet =
  sel :: "SelectionVector option"
  rn :: nat

definition batchRows :: "Batch \<Rightarrow> rowSet" where
  "batchRows b = (case SelVec b of Some s \<Rightarrow> \<lparr>sel = Some s, rn = length s\<rparr> | None \<Rightarrow> \<lparr>sel = None, rn = BLength b\<rparr>)"

definition rowSet_at :: "rowSet \<Rightarrow> nat \<Rightarrow> nat xres" where
  "rowSet_at r i = (case sel r of None \<Rightarrow> Inr i | Some s \<Rightarrow> res_map unat (idx s i))"

definition makeVector :: "DataType \<Rightarrow> vector" where
  "makeVector t = (let nb = replicate (BlockRows div 8) 0 in case t of
     TypeInt64 \<Rightarrow> Int64Vector [] nb | TypeFloat64 \<Rightarrow> Float64Vector [] nb | TypeBool \<Rightarrow> BoolVector [] nb 0
   | TypeString \<Rightarrow> StringVector [] None nb | TypeDate \<Rightarrow> DateVector [] nb)"

definition NewBatch :: "Schema \<Rightarrow> Batch" where
  "NewBatch schema = \<lparr>BSchema = schema, Vectors = map (\<lambda>f. makeVector (Type f)) schema, BLength = 0, SelVec = None\<rparr>"


section \<open>Scratch buffers\<close>

text \<open>\<^verbatim>\<open>slot\<close> holds the backing arrays; the result is the visible vector and the slot afterwards.\<close>

definition acquireBoolVector :: "(byte list \<times> byte list) option \<Rightarrow> nat \<Rightarrow> vector \<times> byte list \<times> byte list" where
  "acquireBoolVector slot n = (let size = (n + 7) div 8;
     (bits, nb) = (case slot of
        Some (bits, nb) \<Rightarrow> if length bits < size \<or> length nb < size then (replicate size 0, replicate size 0)
          else (replicate size 0 @ drop size bits, replicate size 0 @ drop size nb)
      | None \<Rightarrow> (replicate size 0, replicate size 0))
     in (BoolVector (take size bits) (take size nb) n, bits, nb))"

definition acquireInt64Vector :: "(i64 list \<times> byte list) option \<Rightarrow> nat \<Rightarrow> vector \<times> i64 list \<times> byte list" where
  "acquireInt64Vector slot n = (let size = (n + 7) div 8;
     (vals, nb) = (case slot of
        Some (vals, nb) \<Rightarrow> if length vals < n \<or> length nb < size then (replicate n 0, replicate size 0)
          else (replicate n 0 @ drop n vals, replicate size 0 @ drop size nb)
      | None \<Rightarrow> (replicate n 0, replicate size 0))
     in (Int64Vector (take n vals) (take size nb), vals, nb))"

definition acquireFloat64Vector :: "(f64 list \<times> byte list) option \<Rightarrow> nat \<Rightarrow> vector \<times> f64 list \<times> byte list" where
  "acquireFloat64Vector slot n = (let size = (n + 7) div 8;
     (vals, nb) = (case slot of
        Some (vals, nb) \<Rightarrow> if length vals < n \<or> length nb < size then (replicate n 0, replicate size 0)
          else (replicate n 0 @ drop n vals, replicate size 0 @ drop size nb)
      | None \<Rightarrow> (replicate n 0, replicate size 0))
     in (Float64Vector (take n vals) (take size nb), vals, nb))"

definition setAllValid :: "byte list \<Rightarrow> nat \<Rightarrow> byte list" where
  "setAllValid bmp n = (let size = (n + 7) div 8;
     b = replicate (min size (length bmp)) 0xFF @ drop size bmp in
     if n mod 8 \<noteq> 0 \<and> 0 < size \<and> size \<le> length bmp then b[size - 1 := push_bit (n mod 8) 1 - 1] else b)"

definition acquireValidBitmap :: "byte list \<Rightarrow> nat \<Rightarrow> byte list \<times> byte list" where
  "acquireValidBitmap slot n = (let size = (n + 7) div 8;
     arr = (if length slot < size then replicate size 0 else slot);
     view = setAllValid (take size arr) n
     in (view, view @ drop size arr))"

text \<open>\<^verbatim>\<open>growSelVec\<close> only recycles an array: the slice it returns is empty.\<close>

definition growSelVec :: "SelectionVector \<Rightarrow> nat \<Rightarrow> SelectionVector" where
  "growSelVec s n = []"

definition mergeNullBitmapsInto :: "byte list \<Rightarrow> byte list \<Rightarrow> byte list \<Rightarrow> nat \<Rightarrow> byte list" where
  "mergeNullBitmapsInto dst a b n = (let size = (n + 7) div 8 in
     map (\<lambda>i. if i < size then (if i < length a then a ! i else 0xFF) AND (if i < length b then b ! i else 0xFF)
              else dst ! i) [0..<length dst])"

fun copyVector :: "vector \<Rightarrow> nat \<Rightarrow> vector xres" where
  "copyVector (Int64Vector vs nb) n = res_map (\<lambda>xs.
     Int64Vector (copy_into (replicate n 0) xs) (copy_into (replicate ((n + 7) div 8) 0) nb)) (slice vs 0 n)"
| "copyVector (Float64Vector vs nb) n = res_map (\<lambda>xs.
     Float64Vector (copy_into (replicate n 0) xs) (copy_into (replicate ((n + 7) div 8) 0) nb)) (slice vs 0 n)"
| "copyVector (DateVector vs nb) n = res_map (\<lambda>xs.
     DateVector (copy_into (replicate n 0) xs) (copy_into (replicate ((n + 7) div 8) 0) nb)) (slice vs 0 n)"
| "copyVector (BoolVector bits nb _) n =
     Inr (BoolVector (copy_into (replicate ((n + 7) div 8) 0) bits) (copy_into (replicate ((n + 7) div 8) 0) nb) n)"
| "copyVector (StringVector cs d nb) n = res_map (\<lambda>xs.
     StringVector (copy_into (replicate n 0) xs) d (copy_into (replicate ((n + 7) div 8) 0) nb)) (slice cs 0 n)"

section \<open>The caching literal\<close>

datatype val = VInt i64 | VFloat f64 | VBool bool | VString string | VDate i32

record Literal =
  Val :: val
  LT :: DataType
  cacheInt64 :: "i64 list option"
  cacheFloat64 :: "f64 list option"
  cacheDate :: "i32 list option"
  cacheBool :: "byte list option"
  cacheString :: "(u32 list \<times> Dictionary option) option"
  litCode :: u32
  filled :: nat
  validBmp :: "byte list"

definition new_Literal :: "val \<Rightarrow> DataType \<Rightarrow> Literal" where
  "new_Literal v t = \<lparr>Val = v, LT = t, cacheInt64 = None, cacheFloat64 = None, cacheDate = None,
     cacheBool = None, cacheString = None, litCode = 0, filled = 0, validBmp = []\<rparr>"

text \<open>
  The loop shared by the fixed-width cases: a cache with too little capacity is replaced by a
  zeroed one, then the elements from \<^verbatim>\<open>filled\<close> to \<^verbatim>\<open>n\<close> are written. The result is the backing array
  and the new fill mark.
\<close>

definition grow_cache :: "'a list option \<Rightarrow> 'a \<Rightarrow> nat \<Rightarrow> nat \<Rightarrow> 'a list \<times> nat" where
  "grow_cache slot zero fill n = (case slot of
     None \<Rightarrow> (replicate n zero, 0)
   | Some a \<Rightarrow> if length a < n then (replicate n zero, 0) else (a, fill))"

definition refill :: "'a list \<times> nat \<Rightarrow> 'a \<Rightarrow> nat \<Rightarrow> 'a list \<times> nat" where
  "refill cf v n = (case cf of (arr, fill) \<Rightarrow>
     (map (\<lambda>i. if fill \<le> i \<and> i < n then v else arr ! i) [0..<length arr], if fill < n then n else fill))"

text \<open>\<^verbatim>\<open>Literal.Eval\<close> for a batch of \<open>n = evalLen(b)\<close> rows; a value of another type than \<^verbatim>\<open>T\<close> panics.\<close>

definition Literal_Eval :: "Literal \<Rightarrow> nat \<Rightarrow> (vector \<times> Literal) xres" where
  "Literal_Eval l n = (
     let (nb, vb) = acquireValidBitmap (validBmp l) n in
     case (LT l, Val l) of
       (TypeInt64, VInt v) \<Rightarrow>
         (let (arr, f) = refill (grow_cache (cacheInt64 l) 0 (filled l) n) v n in
          Inr (Int64Vector (take n arr) nb, l\<lparr>cacheInt64 := Some arr, filled := f, validBmp := vb\<rparr>))
     | (TypeFloat64, VFloat v) \<Rightarrow>
         (let (arr, f) = refill (grow_cache (cacheFloat64 l) 0 (filled l) n) v n in
          Inr (Float64Vector (take n arr) nb, l\<lparr>cacheFloat64 := Some arr, filled := f, validBmp := vb\<rparr>))
     | (TypeDate, VDate v) \<Rightarrow>
         (let (arr, f) = refill (grow_cache (cacheDate l) 0 (filled l) n) v n in
          Inr (DateVector (take n arr) nb, l\<lparr>cacheDate := Some arr, filled := f, validBmp := vb\<rparr>))
     | (TypeBool, VBool v) \<Rightarrow>
         (let size = (n + 7) div 8;
              (arr, fill) = (case cacheBool l of
                  None \<Rightarrow> (replicate size 0, 0)
                | Some a \<Rightarrow> if length a < size then (replicate size 0, 0) else (a, filled l))
          in res_bind (fold_res (\<lambda>bits i. BoolVector_Set bits i v) (take size arr) [fill..<n]) (\<lambda>bits.
             let bits = (if n mod 8 \<noteq> 0 then bits[size - 1 := bits ! (size - 1) AND (push_bit (n mod 8) 1 - 1)] else bits)
             in Inr (BoolVector bits nb n,
                  l\<lparr>cacheBool := Some (bits @ drop size arr), filled := n, validBmp := vb\<rparr>)))
     | (TypeString, VString s) \<Rightarrow>
         (let stale = (case cacheString l of None \<Rightarrow> True | Some (codes, d) \<Rightarrow> length codes < n) in
          res_bind (if stale
              then (let (code, db) = DictBuilder_Add NewDictBuilder s in
                    res_bind (newStringVector db (replicate n 0) []) (\<lambda>sv.
                    case sv of StringVector codes d _ \<Rightarrow> Inr (codes, d, code, 0) | _ \<Rightarrow> Inl Panic))
              else (case cacheString l of Some (codes, d) \<Rightarrow> Inr (codes, d, litCode l, filled l) | None \<Rightarrow> Inl Panic))
          (\<lambda>(codes, d, code, fill).
             let (arr, f) = refill (codes, fill) code n in
             Inr (StringVector (take n arr) d nb,
                  l\<lparr>cacheString := Some (arr, d), litCode := code, filled := f, validBmp := vb\<rparr>)))
     | _ \<Rightarrow> Inl Panic)"


section \<open>Lemmas: reading vectors\<close>

text \<open>The abstract content of a vector: the value of a row, or \<open>None\<close> for NULL.\<close>

fun vget :: "vector \<Rightarrow> nat \<Rightarrow> val option" where
  "vget (Int64Vector vs nb) i = (if valid_at nb i then Some (VInt (vs ! i)) else None)"
| "vget (Float64Vector vs nb) i = (if valid_at nb i then Some (VFloat (vs ! i)) else None)"
| "vget (BoolVector bits nb n) i = (if valid_at nb i then Some (VBool (valid_at bits i)) else None)"
| "vget (StringVector cs d nb) i = (if valid_at nb i then
     Some (VString (case d of None \<Rightarrow> [] | Some d \<Rightarrow> dict_strings d ! unat (cs ! i))) else None)"
| "vget (DateVector vs nb) i = (if valid_at nb i then Some (VDate (vs ! i)) else None)"

text \<open>
  A vector of \<open>n\<close> well-formed rows: the bitmaps cover the rows, and the code of every valid row of a
  string vector is a code of its dictionary. Bits beyond the rows may hold anything.
\<close>

fun wf_vector :: "nat \<Rightarrow> vector \<Rightarrow> bool" where
  "wf_vector n (Int64Vector vs nb) \<longleftrightarrow> length vs = n \<and> bitmap_bytes n \<le> length nb"
| "wf_vector n (Float64Vector vs nb) \<longleftrightarrow> length vs = n \<and> bitmap_bytes n \<le> length nb"
| "wf_vector n (BoolVector bits nb m) \<longleftrightarrow> m = n \<and> bitmap_bytes n \<le> length nb \<and> bitmap_bytes n \<le> length bits"
| "wf_vector n (StringVector cs d nb) \<longleftrightarrow> length cs = n \<and> bitmap_bytes n \<le> length nb \<and>
     (case d of None \<Rightarrow> \<forall>i < n. \<not> valid_at nb i
      | Some d \<Rightarrow> dict_wf d \<and> length (Offsets d) < 2 ^ 32 \<and> distinct (dict_strings d) \<and>
          (\<forall>i < n. valid_at nb i \<longrightarrow> unat (cs ! i) < length (dict_strings d)))"
| "wf_vector n (DateVector vs nb) \<longleftrightarrow> length vs = n \<and> bitmap_bytes n \<le> length nb"

lemma wf_vector_Len [simp]: "wf_vector n v \<Longrightarrow> Len v = n"
  by (cases v) auto

lemma wf_vector_Nulls: "wf_vector n v \<Longrightarrow> bitmap_bytes n \<le> length (Nulls v)"
  by (cases v) auto

lemma IsNull_ok [simp]:
  assumes "wf_vector n v" "i < n"
  shows "IsNull v i = Inr (\<not> valid_at (Nulls v) i)"
  using div8_less_bitmap_bytes [OF assms(2) wf_vector_Nulls [OF assms(1)]] by (simp add: IsNull_def)

lemma vget_None_iff: "vget v i = None \<longleftrightarrow> \<not> valid_at (Nulls v) i"
  by (cases v) auto

lemma byte_and_one_eq_1: "(drop_bit k (b :: byte) AND 1 = 1) \<longleftrightarrow> bit b k"
  by (simp add: and_one_eq bit_iff_odd_drop_bit odd_iff_mod_2_eq_one)

lemma BoolVector_Get_ok [simp]:
  "i div 8 < length bits \<Longrightarrow> BoolVector_Get bits i = Inr (valid_at bits i)"
  by (simp add: BoolVector_Get_def byte_and_one_eq_1 valid_at_def)

lemma BoolVector_Set_eq:
  assumes "i div 8 < length bits"
  obtains bits' where "BoolVector_Set bits i v = Inr bits'" "length bits' = length bits"
    "\<And>j. valid_at bits' j \<longleftrightarrow> (if j = i then v else valid_at bits j)"
proof (cases v)
  case True
  obtain b where "SetValidBit bits i = (Inr b :: byte list xres)" "length b = length bits"
    "\<And>j. valid_at b j \<longleftrightarrow> valid_at bits j \<or> j = i"
    using SetValidBit_eq [OF assms] by blast
  then show thesis using that [of b] True assms by (simp add: BoolVector_Set_def SetValidBit_def)
next
  case False
  obtain b where "SetNullBit bits i = (Inr b :: byte list xres)" "length b = length bits"
    "\<And>j. valid_at b j \<longleftrightarrow> valid_at bits j \<and> j \<noteq> i"
    using SetNullBit_eq [OF assms] by blast
  then show thesis using that [of b] False assms by (simp add: BoolVector_Set_def SetNullBit_def)
qed

lemma StringVector_Get_ok:
  assumes "wf_vector n (StringVector cs d nb)" "i < n" "valid_at nb i"
  shows "StringVector_Get cs d i = Inr (case d of None \<Rightarrow> [] | Some d \<Rightarrow> dict_strings d ! unat (cs ! i))"
proof (cases d)
  case (Some d')
  then have "dict_wf d'" "unat (cs ! i) < length (Offsets d')" using assms by auto
  then obtain d2 where "Dictionary_Get d' (cs ! i) = (Inr (dict_strings d' ! unat (cs ! i), d2) :: (string \<times> Dictionary) xres)"
    using Dictionary_Get_wf by metis
  then show ?thesis using assms Some by (simp add: StringVector_Get_def)
qed (simp add: StringVector_Get_def)

lemma newStringVector_ok:
  "dict_bounded (keys db) \<Longrightarrow>
   newStringVector db codes nb = Inr (StringVector codes (Some (dict_of_keys (keys db))) nb)"
  by (simp add: newStringVector_def Unmarshal_Marshal)

section \<open>Lemmas: scratch buffers\<close>

lemma setAllValid_FullBitmap:
  assumes "length bmp = bitmap_bytes n"
  shows "setAllValid bmp n = FullBitmap n"
proof -
  have "n mod 8 \<noteq> 0 \<Longrightarrow> 0 < bitmap_bytes n" by (cases n) auto
  then show ?thesis using assms by (auto simp: setAllValid_def FullBitmap_def Let_def)
qed

lemma acquireBoolVector_fresh:
  "fst (acquireBoolVector slot n) = BoolVector (replicate (bitmap_bytes n) 0) (replicate (bitmap_bytes n) 0) n"
  by (auto simp: acquireBoolVector_def Let_def split: option.splits)

lemma acquireInt64Vector_fresh:
  "fst (acquireInt64Vector slot n) = Int64Vector (replicate n 0) (replicate (bitmap_bytes n) 0)"
  by (auto simp: acquireInt64Vector_def Let_def split: option.splits)

lemma acquireFloat64Vector_fresh:
  "fst (acquireFloat64Vector slot n) = Float64Vector (replicate n 0) (replicate (bitmap_bytes n) 0)"
  by (auto simp: acquireFloat64Vector_def Let_def split: option.splits)

lemma acquireValidBitmap_fresh [simp]: "fst (acquireValidBitmap slot n) = FullBitmap n"
  by (simp add: acquireValidBitmap_def Let_def setAllValid_FullBitmap)

lemma acquireValidBitmap_obtain:
  obtains vb where "acquireValidBitmap slot n = (FullBitmap n, vb)"
  using acquireValidBitmap_fresh [of slot n] by (cases "acquireValidBitmap slot n") auto

lemma valid_at_replicate_0 [simp]: "\<not> valid_at (replicate m 0) i"
  by (auto simp: valid_at_def)

lemma length_mergeNullBitmapsInto [simp]: "length (mergeNullBitmapsInto dst a b n) = length dst"
  by (simp add: mergeNullBitmapsInto_def Let_def)

lemma valid_at_mergeNullBitmapsInto:
  assumes "i < n" "bitmap_bytes n \<le> length dst" "bitmap_bytes n \<le> length a" "bitmap_bytes n \<le> length b"
  shows "valid_at (mergeNullBitmapsInto dst a b n) i \<longleftrightarrow> valid_at a i \<and> valid_at b i"
proof -
  have i: "i div 8 < bitmap_bytes n" using assms(1) by linarith
  with assms have "i div 8 < length dst" "i div 8 < length a" "i div 8 < length b" by linarith+
  with i show ?thesis by (auto simp: mergeNullBitmapsInto_def Let_def valid_at_def bit_and_iff)
qed

lemma valid_at_copy_into:
  assumes "i < n" "bitmap_bytes n \<le> length src" "length dst = bitmap_bytes n"
  shows "valid_at (copy_into dst src) i = valid_at src i"
proof -
  have "i div 8 < bitmap_bytes n" using assms(1) by linarith
  with assms have "i div 8 < length src" "i div 8 < length dst" by linarith+
  then show ?thesis by (simp add: valid_at_def nth_copy_into)
qed

text \<open>\<^verbatim>\<open>copyVector\<close> is a faithful copy of the rows.\<close>

lemma copyVector_ok:
  assumes "wf_vector n v"
  shows "\<exists>v'. copyVector v n = Inr v' \<and> wf_vector n v' \<and> VType v' = VType v \<and> (\<forall>i < n. vget v' i = vget v i)"
  using assms by (cases v) (auto simp: copy_into_all valid_at_copy_into split: option.splits)


section \<open>Lemmas: literals\<close>

fun val_type :: "val \<Rightarrow> DataType" where
  "val_type (VInt _) = TypeInt64"
| "val_type (VFloat _) = TypeFloat64"
| "val_type (VBool _) = TypeBool"
| "val_type (VString _) = TypeString"
| "val_type (VDate _) = TypeDate"

fun broadcast :: "val \<Rightarrow> nat \<Rightarrow> vector" where
  "broadcast (VInt v) n = Int64Vector (replicate n v) (FullBitmap n)"
| "broadcast (VFloat v) n = Float64Vector (replicate n v) (FullBitmap n)"
| "broadcast (VBool v) n = BoolVector (if v then FullBitmap n else replicate (bitmap_bytes n) 0) (FullBitmap n) n"
| "broadcast (VString s) n = StringVector (replicate n 0) (Some (dict_of_keys [s])) (FullBitmap n)"
| "broadcast (VDate v) n = DateVector (replicate n v) (FullBitmap n)"

definition filled_with :: "'a \<Rightarrow> nat \<Rightarrow> 'a list option \<Rightarrow> bool" where
  "filled_with v f slot \<longleftrightarrow> (case slot of None \<Rightarrow> True | Some a \<Rightarrow> f \<le> length a \<and> (\<forall>i < f. a ! i = v))"

definition lit_inv :: "Literal \<Rightarrow> bool" where
  "lit_inv l \<longleftrightarrow> LT l = val_type (Val l) \<and> (case Val l of
     VInt v \<Rightarrow> filled_with v (filled l) (cacheInt64 l)
   | VFloat v \<Rightarrow> filled_with v (filled l) (cacheFloat64 l)
   | VDate v \<Rightarrow> filled_with v (filled l) (cacheDate l)
   | VBool v \<Rightarrow> (case cacheBool l of None \<Rightarrow> True
       | Some a \<Rightarrow> filled l \<le> 8 * length a \<and> (\<forall>i < filled l. valid_at a i \<longleftrightarrow> v))
   | VString s \<Rightarrow> length s < 2 ^ 32 \<and> (case cacheString l of None \<Rightarrow> True
       | Some (codes, d) \<Rightarrow> d = Some (dict_of_keys [s]) \<and> litCode l = 0 \<and>
           filled_with 0 (filled l) (Some codes)))"

lemma lit_inv_new: "val_type v = t \<Longrightarrow> (\<And>s. v = VString s \<Longrightarrow> length s < 2 ^ 32) \<Longrightarrow> lit_inv (new_Literal v t)"
  by (cases v) (auto simp: lit_inv_def new_Literal_def filled_with_def)

lemma refill_ok:
  assumes "filled_with v f slot" "refill (grow_cache slot z f n) v n = (arr, f')"
  shows "take n arr = replicate n v" "filled_with v f' (Some arr)"
  using assms
  by (auto simp: filled_with_def grow_cache_def refill_def split: option.splits if_splits intro!: nth_equalityI)

lemma fold_Set_ok:
  assumes "n \<le> 8 * length bits" "f \<le> n" "\<forall>i < f. valid_at bits i = v"
  shows "\<exists>bits'. fold_res (\<lambda>bits i. BoolVector_Set bits i v) bits [f..<n] = Inr bits' \<and>
    length bits' = length bits \<and> (\<forall>i < n. valid_at bits' i = v)"
  using assms
proof (induction "n - f" arbitrary: f bits)
  case 0
  then show ?case by auto
next
  case (Suc k)
  then have f: "f < n" "f div 8 < length bits" by linarith+
  obtain b where b: "BoolVector_Set bits f v = Inr b" "length b = length bits"
    "\<And>j. valid_at b j \<longleftrightarrow> (if j = f then v else valid_at bits j)"
    using BoolVector_Set_eq [OF f(2)] by blast
  have "\<forall>i < Suc f. valid_at b i = v" using b(3) Suc.prems(3) by (auto simp: less_Suc_eq)
  with Suc.hyps(1) [of "Suc f" b] Suc.hyps(2) Suc.prems f b show ?case
    by (simp add: upt_conv_Cons)
qed

lemma mask_tail_bits:
  assumes "length bits = bitmap_bytes n" "\<forall>i < n. valid_at bits i = v"
  shows "(if n mod 8 \<noteq> 0 then bits[bitmap_bytes n - 1 := bits ! (bitmap_bytes n - 1) AND (push_bit (n mod 8) 1 - 1)] else bits)
    = (if v then FullBitmap n else replicate (bitmap_bytes n) 0)" (is "?l = ?r")
proof (rule bitmap_eqI)
  show "length ?l = length ?r" using assms(1) by simp
  fix i assume "i < 8 * length ?l"
  then have i: "i < 8 * bitmap_bytes n" using assms(1) by (simp split: if_splits)
  have r: "valid_at ?r i \<longleftrightarrow> i < n \<and> v" by simp
  have low: "bit (2 ^ k - 1 :: byte) j \<longleftrightarrow> j < k" if "k < 8" "j < 8" for j k
    using that bit_mask_iff [of k j, where 'a = byte] by (auto simp: mask_eq_exp_minus_1)
  define q r j k where "q = n div 8" and "r = n mod 8" and "j = i div 8" and "k = i mod 8"
  have n: "n = 8 * q + r" "r < 8" and ij: "i = 8 * j + k" "k < 8" by (simp_all add: q_def r_def j_def k_def)
  show "valid_at ?l i = valid_at ?r i"
  proof (cases "r = 0")
    case True
    then have "bitmap_bytes n = q" using n by simp
    then have "i < n" using i n True by simp
    then show ?thesis using assms(2) True r by (simp add: r_def)
  next
    case False
    then have size: "bitmap_bytes n = Suc q" using n by simp
    then have "valid_at ?l i \<longleftrightarrow> (if j = q then valid_at bits i \<and> k < r else valid_at bits i)"
      using False assms(1) low [of r k] n(2) ij(2)
      by (auto simp: valid_at_def nth_list_update bit_and_iff r_def [symmetric] j_def [symmetric] k_def [symmetric])
    moreover have "j \<noteq> q \<Longrightarrow> i < n" "j = q \<Longrightarrow> (i < n \<longleftrightarrow> k < r)" using i size n ij by linarith+
    ultimately show ?thesis using assms(2) r by auto
  qed
qed

lemma valid_at_take:
  assumes "i < 8 * m"
  shows "valid_at (take m bits) i = valid_at bits i"
proof -
  have "i div 8 < m" using assms by linarith
  then show ?thesis by (auto simp: valid_at_def)
qed

lemma valid_at_append_left: "i < 8 * length a \<Longrightarrow> valid_at (a @ b) i = valid_at a i"
  using valid_at_take [of i "length a" "a @ b"] by simp

lemma Literal_Eval_bool:
  assumes inv: "lit_inv l" and v: "Val l = VBool v"
  shows "\<exists>l'. Literal_Eval l n = Inr (broadcast (Val l) n, l') \<and> lit_inv l' \<and> Val l' = Val l"
proof -
  let ?size = "bitmap_bytes n"
  define arr where "arr = (case cacheBool l of None \<Rightarrow> replicate ?size 0
    | Some a \<Rightarrow> if length a < ?size then replicate ?size 0 else a)"
  define f where "f = (case cacheBool l of None \<Rightarrow> 0 | Some a \<Rightarrow> if length a < ?size then 0 else filled l)"
  have bf: "(case cacheBool l of None \<Rightarrow> (replicate ?size 0, 0)
      | Some a \<Rightarrow> if length a < ?size then (replicate ?size 0, 0) else (a, filled l)) = (arr, f)"
    by (simp add: arr_def f_def split: option.splits)
  have len: "?size \<le> length arr" by (auto simp: arr_def split: option.splits)
  have pre: "\<forall>i < f. i < n \<longrightarrow> valid_at (take ?size arr) i = v"
    using inv v by (auto simp: lit_inv_def arr_def f_def valid_at_take split: option.splits)
  have n8: "n \<le> 8 * ?size" by linarith
  obtain bits where bits: "fold_res (\<lambda>bits i. BoolVector_Set bits i v) (take ?size arr) [f..<n] = Inr bits"
    "length bits = ?size" "\<forall>i < n. valid_at bits i = v"
  proof (cases "f \<le> n")
    case True
    with fold_Set_ok [of n "take ?size arr" f v] pre len n8 show thesis using that by auto
  next
    case False
    with pre len show thesis using that [of "take ?size arr"] by auto
  qed
  obtain vb where vb: "acquireValidBitmap (validBmp l) n = (FullBitmap n, vb)" by (rule acquireValidBitmap_obtain)
  let ?m = "if v then FullBitmap n else replicate ?size 0"
  let ?l = "l\<lparr>cacheBool := Some (?m @ drop ?size arr), filled := n, validBmp := vb\<rparr>"
  have "Literal_Eval l n = Inr (broadcast (VBool v) n, ?l)"
    using inv v bf bits mask_tail_bits [OF bits(2,3)] vb
    by (simp add: Literal_Eval_def lit_inv_def Let_def)
  moreover have "lit_inv ?l"
    using inv v n8 len by (auto simp: lit_inv_def valid_at_append_left)
  ultimately show ?thesis using v by (intro exI [of _ ?l]) simp
qed

lemma Literal_Eval_string:
  assumes inv: "lit_inv l" and v: "Val l = VString s"
  shows "\<exists>l'. Literal_Eval l n = Inr (broadcast (Val l) n, l') \<and> lit_inv l' \<and> Val l' = Val l"
proof -
  have new: "DictBuilder_Add NewDictBuilder s = (0, \<lparr>index = [s \<mapsto> 0], keys = [s]\<rparr>)"
    by (simp add: DictBuilder_Add_def NewDictBuilder_def Let_def)
  have "dict_bounded [s]" using inv v by (simp add: lit_inv_def dict_bounded_def)
  then have nsv: "newStringVector \<lparr>index = [s \<mapsto> 0], keys = [s]\<rparr> codes nb = Inr (StringVector codes (Some (dict_of_keys [s])) nb)" for codes nb
    using newStringVector_ok [of "\<lparr>index = [s \<mapsto> 0], keys = [s]\<rparr>"] by simp
  define slot where "slot = map_option fst (cacheString l)"
  have slot: "filled_with 0 (filled l) slot" using inv v by (auto simp: slot_def lit_inv_def filled_with_def split: option.splits)
  obtain arr f where r: "refill (grow_cache slot 0 (filled l) n) 0 n = (arr, f)" by fastforce
  note ok = refill_ok [OF slot r]
  obtain vb where vb: "acquireValidBitmap (validBmp l) n = (FullBitmap n, vb)" by (rule acquireValidBitmap_obtain)
  let ?l = "l\<lparr>cacheString := Some (arr, Some (dict_of_keys [s])), litCode := 0, filled := f,
    validBmp := vb\<rparr>"
  have "Literal_Eval l n = Inr (broadcast (VString s) n, ?l)"
    using inv v r ok(1) vb
    by (auto simp: Literal_Eval_def lit_inv_def new nsv grow_cache_def slot_def split: option.splits if_splits)
  moreover have "lit_inv ?l" using inv v ok(2) by (simp add: lit_inv_def)
  ultimately show ?thesis using v by (intro exI [of _ ?l]) simp
qed

lemma Literal_Eval_step:
  assumes inv: "lit_inv l"
  shows "\<exists>l'. Literal_Eval l n = Inr (broadcast (Val l) n, l') \<and> lit_inv l' \<and> Val l' = Val l"
proof -
  obtain vb where vb: "acquireValidBitmap (validBmp l) n = (FullBitmap n, vb)" by (rule acquireValidBitmap_obtain)
  show ?thesis
  proof (cases "Val l")
    case (VBool v)
    then show ?thesis using Literal_Eval_bool [OF inv] by simp
  next
    case (VString s)
    then show ?thesis using Literal_Eval_string [OF inv] by simp
  next
    case (VInt v)
    obtain arr f where r: "refill (grow_cache (cacheInt64 l) 0 (filled l) n) v n = (arr, f)" by fastforce
    show ?thesis
      using inv VInt r refill_ok [OF _ r] vb
      by (auto simp: Literal_Eval_def lit_inv_def)
  next
    case (VFloat v)
    obtain arr f where r: "refill (grow_cache (cacheFloat64 l) 0 (filled l) n) v n = (arr, f)" by fastforce
    show ?thesis
      using inv VFloat r refill_ok [OF _ r] vb
      by (auto simp: Literal_Eval_def lit_inv_def)
  next
    case (VDate v)
    obtain arr f where r: "refill (grow_cache (cacheDate l) 0 (filled l) n) v n = (arr, f)" by fastforce
    show ?thesis
      using inv VDate r refill_ok [OF _ r] vb
      by (auto simp: Literal_Eval_def lit_inv_def)
  qed
qed

text \<open>A run of the literal over batches of the given sizes.\<close>

fun Literal_run :: "Literal \<Rightarrow> nat list \<Rightarrow> vector list xres" where
  "Literal_run l [] = Inr []"
| "Literal_run l (n # ns) = res_bind (Literal_Eval l n) (\<lambda>(v, l). res_map (\<lambda>vs. v # vs) (Literal_run l ns))"

lemma Literal_run_ok: "lit_inv l \<Longrightarrow> Literal_run l ns = Inr (map (broadcast (Val l)) ns)"
proof (induction ns arbitrary: l)
  case (Cons n ns)
  then obtain l' where "Literal_Eval l n = Inr (broadcast (Val l) n, l')" "lit_inv l'" "Val l' = Val l"
    using Literal_Eval_step by blast
  with Cons.IH [of l'] show ?case by simp
qed simp

lemma broadcast_wf:
  assumes "\<And>s. v = VString s \<Longrightarrow> length s < 2 ^ 32"
  shows "wf_vector n (broadcast v n)" "VType (broadcast v n) = val_type v"
    "i < n \<Longrightarrow> vget (broadcast v n) i = Some v"
  using assms dict_of_keys_ok [of "[s]" for s]
  by (cases v; auto simp: dict_bounded_def; simp add: dict_of_keys_def)+


section \<open>Properties\<close>

text \<open>
  C27: a literal's cache is transparent. Evaluating a literal over batches of any sizes, growing and
  shrinking in any order, returns for each batch exactly the vector that a fresh broadcast
  builds, bit for bit, the null bitmap and the padding bits included.
\<close>

theorem Literal_cache_transparent:
  assumes "val_type v = t" "\<And>s. v = VString s \<Longrightarrow> length s < 2 ^ 32"
  shows "Literal_run (new_Literal v t) ns = Inr (map (broadcast v) ns)"
  using Literal_run_ok [OF lit_inv_new [OF assms], of ns] by (simp add: new_Literal_def)

theorem Literal_cache_transparent_witness:
  "Literal_run (new_Literal (VBool True) TypeBool) [11, 3, 9] =
     Inr [broadcast (VBool True) 11, broadcast (VBool True) 3, broadcast (VBool True) 9]"
  using Literal_cache_transparent [of "VBool True" TypeBool "[11, 3, 9]"] by simp

text \<open>
  Scratch reuse is invisible: whatever a slot holds, the acquire functions hand out vectors equal
  to freshly allocated ones, all values zero and all rows null (or all valid for
  \<^verbatim>\<open>acquireValidBitmap\<close>).
\<close>

theorem acquire_fresh:
  "fst (acquireBoolVector slot n) = fst (acquireBoolVector None n) \<and>
   fst (acquireInt64Vector islot n) = fst (acquireInt64Vector None n) \<and>
   fst (acquireFloat64Vector fslot n) = fst (acquireFloat64Vector None n) \<and>
   fst (acquireValidBitmap bslot n) = FullBitmap n"
  by (simp add: acquireBoolVector_fresh acquireInt64Vector_fresh acquireFloat64Vector_fresh)

end
