(* ===== verification/Expr.thy ===== *)
theory Expr
  imports Batch "HOL-Library.Signed_Division"
begin

text \<open>
  The vectorised expression evaluator (\<^verbatim>\<open>exec/expr.go\<close>). Every node evaluates to a vector with one
  element per physical row of the batch. The kernels are modelled as they run: comparisons pack
  eight rows into a byte and msk them with the null bitmap, AND, OR and NOT work on bytes of
  known-true and known-false bits, CASE overwrites from the last branch to the first, and string
  CASE merges two dictionaries into a new one. Scratch slots are left out: the vectors they hand
  out equal fresh ones.
\<close>

datatype BinOpKind =
  BinEQ | BinNE | BinLT | BinLE | BinGT | BinGE | BinAdd | BinSub | BinMul | BinDiv

datatype expr =
    ColumnRef string int DataType
  | LiteralExpr val DataType
  | CastIntToFloatExpr expr
  | BinOp BinOpKind expr expr DataType
  | AndExpr "expr list"
  | OrExpr "expr list"
  | NotExpr expr
  | IsNullExpr expr
  | IsNotNullExpr expr
  | InExpr expr "val list" bool
  | LikeExpr expr string
  | BetweenExpr expr expr expr
  | StringEqExpr nat string bool
  | CaseExpr "(expr \<times> expr) list" "expr option" DataType


section \<open>Scalar operations\<close>

fun cmpInt64 :: "BinOpKind \<Rightarrow> i64 \<Rightarrow> i64 \<Rightarrow> bool" where
  "cmpInt64 BinEQ a b = (a = b)"
| "cmpInt64 BinNE a b = (a \<noteq> b)"
| "cmpInt64 BinLT a b = (sint a < sint b)"
| "cmpInt64 BinLE a b = (sint a \<le> sint b)"
| "cmpInt64 BinGT a b = (sint a > sint b)"
| "cmpInt64 BinGE a b = (sint a \<ge> sint b)"
| "cmpInt64 _ a b = False"

fun cmpFloat64 :: "BinOpKind \<Rightarrow> f64 \<Rightarrow> f64 \<Rightarrow> bool" where
  "cmpFloat64 BinEQ a b = f_eq a b"
| "cmpFloat64 BinNE a b = (\<not> f_eq a b)"
| "cmpFloat64 BinLT a b = f_lt a b"
| "cmpFloat64 BinLE a b = f_le a b"
| "cmpFloat64 BinGT a b = f_lt b a"
| "cmpFloat64 BinGE a b = f_le b a"
| "cmpFloat64 _ a b = False"

fun cmpInt32 :: "BinOpKind \<Rightarrow> i32 \<Rightarrow> i32 \<Rightarrow> bool" where
  "cmpInt32 BinEQ a b = (a = b)"
| "cmpInt32 BinNE a b = (a \<noteq> b)"
| "cmpInt32 BinLT a b = (sint a < sint b)"
| "cmpInt32 BinLE a b = (sint a \<le> sint b)"
| "cmpInt32 BinGT a b = (sint a > sint b)"
| "cmpInt32 BinGE a b = (sint a \<ge> sint b)"
| "cmpInt32 _ a b = False"

text \<open>Go's \<^verbatim>\<open>/\<close> on \<^verbatim>\<open>int64\<close> truncates towards zero, and the quotient wraps.\<close>

fun applyArithInt64 :: "BinOpKind \<Rightarrow> i64 \<Rightarrow> i64 \<Rightarrow> i64" where
  "applyArithInt64 BinAdd a b = a + b"
| "applyArithInt64 BinSub a b = a - b"
| "applyArithInt64 BinMul a b = a * b"
| "applyArithInt64 BinDiv a b = (if b = 0 then 0 else word_of_int (sint a sdiv sint b))"
| "applyArithInt64 _ a b = 0"

text \<open>A float divisor of either zero has the test \<^verbatim>\<open>b == 0\<close> succeed.\<close>

fun applyArithFloat64 :: "BinOpKind \<Rightarrow> f64 \<Rightarrow> f64 \<Rightarrow> f64" where
  "applyArithFloat64 BinAdd a b = f_add a b"
| "applyArithFloat64 BinSub a b = f_sub a b"
| "applyArithFloat64 BinMul a b = f_mul a b"
| "applyArithFloat64 BinDiv a b = (if f_eq b 0 then f_nan else f_div a b)"
| "applyArithFloat64 _ a b = 0"

fun is_cmp :: "BinOpKind \<Rightarrow> bool" where
  "is_cmp BinAdd = False" | "is_cmp BinSub = False" | "is_cmp BinMul = False" | "is_cmp BinDiv = False"
| "is_cmp _ = True"

fun likeMatchRec :: "string \<Rightarrow> string \<Rightarrow> bool" where
  "likeMatchRec [] s = (s = [])"
| "likeMatchRec (c # p) s =
     (if c = CHR ''%'' then
        (if p = [] then True else list_ex (\<lambda>i. likeMatchRec p (drop i s)) [0..<Suc (length s)])
      else if c = CHR ''_'' then (case s of [] \<Rightarrow> False | _ # s \<Rightarrow> likeMatchRec p s)
      else (case s of [] \<Rightarrow> False | x # s \<Rightarrow> c = x \<and> likeMatchRec p s))"

definition likeMatch :: "string \<Rightarrow> string \<Rightarrow> bool" where
  "likeMatch pattern s = likeMatchRec pattern s"


section \<open>Comparison kernels\<close>

text \<open>Eight comparisons packed into a byte, lowest row in the lowest bit.\<close>

definition pack8 :: "('a \<Rightarrow> 'a \<Rightarrow> bool) \<Rightarrow> 'a list \<Rightarrow> 'a list \<Rightarrow> nat \<Rightarrow> byte xres" where
  "pack8 cmp lv rv i = fold_res (\<lambda>byte k.
     res_bind (idx lv (i + k)) (\<lambda>a. res_bind (idx rv (i + k)) (\<lambda>b.
     Inr (if cmp a b then byte OR push_bit k 1 else byte)))) 0 [0..<8]"

definition cmp_blocks :: "('a \<Rightarrow> 'a \<Rightarrow> bool) \<Rightarrow> 'a list \<Rightarrow> 'a list \<Rightarrow> byte list \<Rightarrow> byte list \<Rightarrow> nat \<Rightarrow> byte list xres" where
  "cmp_blocks cmp lv rv bits msk n = fold_res (\<lambda>bits b.
     res_bind (pack8 cmp lv rv (8 * b)) (\<lambda>byte.
     res_bind (idx msk b) (\<lambda>m. upd bits b (byte AND m)))) bits [0..<n div 8]"

definition cmp_tail :: "('a \<Rightarrow> 'a \<Rightarrow> bool) \<Rightarrow> 'a list \<Rightarrow> 'a list \<Rightarrow> byte list \<Rightarrow> byte list \<Rightarrow> nat \<Rightarrow> byte list xres" where
  "cmp_tail cmp lv rv bits msk n = fold_res (\<lambda>bits i.
     res_bind (IsNullBit msk i) (\<lambda>null. if null then Inr bits else
     res_bind (idx lv i) (\<lambda>a. res_bind (idx rv i) (\<lambda>b. BoolVector_Set bits i (cmp a b))))) bits [8 * (n div 8)..<n]"

definition evalCmpInt64 :: "BinOpKind \<Rightarrow> i64 list \<Rightarrow> i64 list \<Rightarrow> byte list \<Rightarrow> byte list \<Rightarrow> nat \<Rightarrow> byte list xres" where
  "evalCmpInt64 op lv rv bits msk n =
     res_bind (cmp_blocks (cmpInt64 op) lv rv bits msk n) (\<lambda>bits. cmp_tail (cmpInt64 op) lv rv bits msk n)"

definition evalCmpFloat64 :: "BinOpKind \<Rightarrow> f64 list \<Rightarrow> f64 list \<Rightarrow> byte list \<Rightarrow> byte list \<Rightarrow> nat \<Rightarrow> byte list xres" where
  "evalCmpFloat64 op lv rv bits msk n =
     res_bind (cmp_blocks (cmpFloat64 op) lv rv bits msk n) (\<lambda>bits. cmp_tail (cmpFloat64 op) lv rv bits msk n)"

definition evalCmpDate :: "BinOpKind \<Rightarrow> i32 list \<Rightarrow> i32 list \<Rightarrow> byte list \<Rightarrow> byte list \<Rightarrow> nat \<Rightarrow> byte list xres" where
  "evalCmpDate op lv rv bits msk n =
     res_bind (cmp_blocks (cmpInt32 op) lv rv bits msk n) (\<lambda>bits. cmp_tail (cmpInt32 op) lv rv bits msk n)"

definition evalCmp :: "BinOpKind \<Rightarrow> vector \<Rightarrow> vector \<Rightarrow> nat \<Rightarrow> vector xres" where
  "evalCmp op lv rv n = (
     let size = (n + 7) div 8;
         nb = map (\<lambda>i. (if i < length (Nulls lv) then Nulls lv ! i else 0xFF) AND
                       (if i < length (Nulls rv) then Nulls rv ! i else 0xFF)) [0..<size];
         out = (\<lambda>bits. BoolVector bits nb n);
         zero = replicate size 0
     in case lv of
       Int64Vector lvs _ \<Rightarrow> (case rv of Int64Vector rvs _ \<Rightarrow> res_map out (evalCmpInt64 op lvs rvs zero nb n) | _ \<Rightarrow> Inl Panic)
     | Float64Vector lvs _ \<Rightarrow> (case rv of Float64Vector rvs _ \<Rightarrow> res_map out (evalCmpFloat64 op lvs rvs zero nb n) | _ \<Rightarrow> Inl Panic)
     | DateVector lvs _ \<Rightarrow> (case rv of DateVector rvs _ \<Rightarrow> res_map out (evalCmpDate op lvs rvs zero nb n) | _ \<Rightarrow> Inl Panic)
     | _ \<Rightarrow> Inl (Err ErrCmpType))"


section \<open>Arithmetic\<close>

definition arith_loop :: "('a \<Rightarrow> 'a \<Rightarrow> 'a) \<Rightarrow> ('a \<Rightarrow> bool) \<Rightarrow> 'a list \<Rightarrow> 'a list \<Rightarrow> nat \<Rightarrow> 'a list \<times> byte list \<Rightarrow> ('a list \<times> byte list) xres" where
  "arith_loop f is_zero_div l r n st = fold_res (\<lambda>(vals, nb) i.
     res_bind (IsNullBit nb i) (\<lambda>null. if null then Inr (vals, nb) else
     res_bind (idx r i) (\<lambda>y.
     if is_zero_div y then res_map (\<lambda>nb. (vals, nb)) (SetNullBit nb i)
     else res_bind (idx l i) (\<lambda>x. res_map (\<lambda>vals. (vals, nb)) (upd vals i (f x y)))))) st [0..<n]"

definition evalArith :: "BinOpKind \<Rightarrow> vector \<Rightarrow> vector \<Rightarrow> nat \<Rightarrow> vector xres" where
  "evalArith op lv rv n = (
     let nb = mergeNullBitmapsInto (replicate ((n + 7) div 8) 0) (Nulls lv) (Nulls rv) n in
     case lv of
       Int64Vector l _ \<Rightarrow> (case rv of
           Int64Vector r _ \<Rightarrow> res_map (\<lambda>(vals, nb). Int64Vector vals nb)
             (arith_loop (applyArithInt64 op) (\<lambda>y. op = BinDiv \<and> y = 0) l r n (replicate n 0, nb))
         | _ \<Rightarrow> Inl (Err ErrArithMismatch))
     | Float64Vector l _ \<Rightarrow> (case rv of
           Float64Vector r _ \<Rightarrow> res_map (\<lambda>(vals, nb). Float64Vector vals nb)
             (arith_loop (applyArithFloat64 op) (\<lambda>y. op = BinDiv \<and> f_eq y 0) l r n (replicate n 0, nb))
         | _ \<Rightarrow> Inl (Err ErrArithMismatch))
     | _ \<Rightarrow> Inl (Err ErrArithType))"


section \<open>Boolean connectives, a byte of rows at a time\<close>

text \<open>A byte of three-valued results is a pair of value bits and valid bits.\<close>

type_synonym bits3 = "byte \<times> byte"

definition and_byte :: "bits3 \<Rightarrow> bits3 \<Rightarrow> bits3" where
  "and_byte l r = (
     let lt = fst l AND snd l; lf = NOT (fst l) AND snd l;
         rt = fst r AND snd r; rf = NOT (fst r) AND snd r;
         t = lt AND rt; f = lf OR rf
     in (t, t OR f))"

definition or_byte :: "bits3 \<Rightarrow> bits3 \<Rightarrow> bits3" where
  "or_byte l r = (
     let lt = fst l AND snd l; lf = NOT (fst l) AND snd l;
         rt = fst r AND snd r; rf = NOT (fst r) AND snd r;
         t = lt OR rt; f = lf AND rf
     in (t, t OR f))"

definition combine_bytes :: "(bits3 \<Rightarrow> bits3 \<Rightarrow> bits3) \<Rightarrow> nat \<Rightarrow> byte list \<Rightarrow> byte list \<Rightarrow> byte list \<times> byte list \<Rightarrow> (byte list \<times> byte list) xres" where
  "combine_bytes f n cbits cnb st = fold_res (\<lambda>(bits, nb) i.
     res_bind (idx bits i) (\<lambda>lb. res_bind (idx nb i) (\<lambda>ln.
     res_bind (idx cbits i) (\<lambda>rb. res_bind (idx cnb i) (\<lambda>rn.
     let (t, v) = f (lb, ln) (rb, rn) in
     res_bind (upd bits i t) (\<lambda>bits. res_map (\<lambda>nb. (bits, nb)) (upd nb i v))))))) st [0..<(n + 7) div 8]"

definition not_bytes :: "byte list \<Rightarrow> byte list \<Rightarrow> nat \<Rightarrow> (byte list \<times> byte list) xres" where
  "not_bytes cbits cnb n = (let size = (n + 7) div 8 in fold_res (\<lambda>(bits, nb) i.
     res_bind (idx cnb i) (\<lambda>cn. res_bind (upd nb i cn) (\<lambda>nb.
     res_bind (idx cbits i) (\<lambda>cb. res_map (\<lambda>bits. (bits, nb)) (upd bits i (NOT cb AND cn))))))
     (replicate size 0, replicate size 0) [0..<size])"


section \<open>Row loops producing booleans\<close>

text \<open>
  The loop of IN, LIKE and string equality: a row whose result is unknown is skipped and stays
  null, any other row is marked valid and its bit is set.
\<close>

definition bool_loop :: "nat \<Rightarrow> (nat \<Rightarrow> bool option xres) \<Rightarrow> vector xres" where
  "bool_loop n row = (let size = (n + 7) div 8 in res_map (\<lambda>(bits, nb). BoolVector bits nb n)
     (fold_res (\<lambda>(bits, nb) i. res_bind (row i) (\<lambda>r. case r of
        None \<Rightarrow> Inr (bits, nb)
      | Some v \<Rightarrow> res_bind (SetValidBit nb i) (\<lambda>nb. res_map (\<lambda>bits. (bits, nb)) (BoolVector_Set bits i v))))
      (replicate size 0, replicate size 0) [0..<n]))"

definition null_test :: "bool \<Rightarrow> vector \<Rightarrow> vector xres" where
  "null_test want cv = (let n = Len cv; size = (n + 7) div 8; nb = setAllValid (replicate size 0) n in
     res_map (\<lambda>bits. BoolVector bits nb n)
       (fold_res (\<lambda>bits i. res_bind (IsNull cv i) (\<lambda>null. BoolVector_Set bits i (null = want)))
          (replicate size 0) [0..<n]))"

fun in_scan :: "(val \<Rightarrow> bool xres) \<Rightarrow> val list \<Rightarrow> bool xres" where
  "in_scan f [] = Inr False"
| "in_scan f (v # vs) = res_bind (f v) (\<lambda>m. if m then Inr True else in_scan f vs)"

fun in_match :: "vector \<Rightarrow> nat \<Rightarrow> val list \<Rightarrow> bool xres" where
  "in_match (Int64Vector vs _) i lits =
     in_scan (\<lambda>sv. case sv of VInt v \<Rightarrow> res_map (\<lambda>x. x = v) (idx vs i) | _ \<Rightarrow> Inr False) lits"
| "in_match (Float64Vector vs _) i lits =
     in_scan (\<lambda>sv. case sv of VFloat v \<Rightarrow> res_map (\<lambda>x. f_eq x v) (idx vs i) | _ \<Rightarrow> Inr False) lits"
| "in_match (DateVector vs _) i lits =
     in_scan (\<lambda>sv. case sv of VDate v \<Rightarrow> res_map (\<lambda>x. x = v) (idx vs i) | _ \<Rightarrow> Inr False) lits"
| "in_match (StringVector cs d _) i lits = res_bind (StringVector_Get cs d i) (\<lambda>s.
     in_scan (\<lambda>sv. case sv of VString v \<Rightarrow> Inr (s = v) | _ \<Rightarrow> Inr False) lits)"
| "in_match (BoolVector bits _ _) i lits =
     in_scan (\<lambda>sv. case sv of VBool v \<Rightarrow> res_map (\<lambda>x. x = v) (BoolVector_Get bits i) | _ \<Rightarrow> Inr False) lits"

definition eval_in :: "vector \<Rightarrow> val list \<Rightarrow> bool \<Rightarrow> vector xres" where
  "eval_in cv lits hasNull = bool_loop (Len cv) (\<lambda>i. res_bind (IsNull cv i) (\<lambda>null.
     if null then Inr None else res_map (\<lambda>found. if \<not> found \<and> hasNull then None else Some found) (in_match cv i lits)))"

definition eval_like :: "vector \<Rightarrow> string \<Rightarrow> vector xres" where
  "eval_like cv pattern = (case cv of
     StringVector cs d nb \<Rightarrow> bool_loop (Len cv) (\<lambda>i. res_bind (IsNull cv i) (\<lambda>null.
       if null then Inr None else res_map (\<lambda>s. Some (likeMatch pattern s)) (StringVector_Get cs d i)))
   | _ \<Rightarrow> Inl (Err ErrLikeType))"

definition eval_string_eq :: "vector list \<Rightarrow> nat \<Rightarrow> string \<Rightarrow> bool \<Rightarrow> vector xres" where
  "eval_string_eq vecs col lit negate = res_bind (idx vecs col) (\<lambda>cv. case cv of
     StringVector codes dict nb \<Rightarrow> (let n = length codes; size = (n + 7) div 8; zero = replicate size 0 in
       case dict of
         None \<Rightarrow> Inr (BoolVector zero zero n)
       | Some d \<Rightarrow> (case Dictionary_Lookup d lit of
           Inl _ \<Rightarrow> Inl Panic
         | Inr (None, _) \<Rightarrow> if negate then (let valid = setAllValid zero n in Inr (BoolVector valid valid n))
             else Inr (BoolVector zero zero n)
         | Inr (Some code, _) \<Rightarrow> bool_loop n (\<lambda>i. res_bind (IsNull cv i) (\<lambda>null.
             if null then Inr None else res_map (\<lambda>c. Some ((c = code) \<noteq> negate)) (idx codes i)))))
   | _ \<Rightarrow> Inl (Err ErrStringEqColumn))"


section \<open>CASE\<close>

definition cond_true :: "byte list \<Rightarrow> byte list \<Rightarrow> nat \<Rightarrow> bool xres" where
  "cond_true cbits cnb i = res_bind (IsNullBit cnb i) (\<lambda>null. if null then Inr False else BoolVector_Get cbits i)"

definition merge_bit :: "byte list \<Rightarrow> byte list \<Rightarrow> nat \<Rightarrow> byte list xres" where
  "merge_bit vnb nb i = res_bind (IsNullBit vnb i) (\<lambda>null. if null then SetNullBit nb i else SetValidBit nb i)"

text \<open>The loop for the fixed-width types; \<open>put\<close> writes one value.\<close>

definition merge_loop :: "byte list \<Rightarrow> byte list \<Rightarrow> byte list \<Rightarrow> (nat \<Rightarrow> 's \<Rightarrow> 's xres) \<Rightarrow> nat \<Rightarrow> 's \<Rightarrow> byte list \<Rightarrow> ('s \<times> byte list) xres" where
  "merge_loop cbits cnb vnb put n vals nb = fold_res (\<lambda>(vals, nb) i.
     res_bind (cond_true cbits cnb i) (\<lambda>t. if \<not> t then Inr (vals, nb) else
     res_bind (put i vals) (\<lambda>vals. res_map (\<lambda>nb. (vals, nb)) (merge_bit vnb nb i)))) (vals, nb) [0..<n]"

text \<open>Adding every entry of a dictionary to a builder gives the remapping of its codes.\<close>

definition remap_dict :: "Dictionary option \<Rightarrow> DictBuilder \<Rightarrow> (u32 list \<times> DictBuilder) xres" where
  "remap_dict dict db = (case dict of
     None \<Rightarrow> Inr ([], db)
   | Some d \<Rightarrow> fold_res (\<lambda>(codes, db) i. res_map (\<lambda>(s, _). let (c, db) = DictBuilder_Add db s in (codes @ [c], db))
       (Dictionary_Get d (of_nat i))) ([], db) [0..<Dictionary_Len d])"

definition merge_strings :: "byte list \<Rightarrow> byte list \<Rightarrow> u32 list \<Rightarrow> Dictionary option \<Rightarrow> byte list \<Rightarrow>
    u32 list \<Rightarrow> Dictionary option \<Rightarrow> byte list \<Rightarrow> nat \<Rightarrow> vector xres" where
  "merge_strings cbits cnb vcs vd vnb bcs bd bnb n =
     res_bind (remap_dict bd NewDictBuilder) (\<lambda>(baseRemap, db).
     res_bind (remap_dict vd db) (\<lambda>(valRemap, db).
     res_bind (fold_res (\<lambda>(codes, nb) i.
        res_bind (cond_true cbits cnb i) (\<lambda>t.
        let (snb, scs, remap) = (if t then (vnb, vcs, valRemap) else (bnb, bcs, baseRemap)) in
        res_bind (IsNullBit snb i) (\<lambda>null. if null then Inr (codes, nb) else
        res_bind (idx scs i) (\<lambda>c. res_bind (idx remap (unat c)) (\<lambda>c'.
        res_bind (upd codes i c') (\<lambda>codes. res_map (\<lambda>nb. (codes, nb)) (SetValidBit nb i)))))))
        (replicate n 0, replicate ((n + 7) div 8) 0) [0..<n]) (\<lambda>(codes, nb).
     newStringVector db codes nb)))"

definition mergeVectors :: "byte list \<Rightarrow> byte list \<Rightarrow> vector \<Rightarrow> vector \<Rightarrow> nat \<Rightarrow> vector xres" where
  "mergeVectors cbits cnb valV base n = (
     let nb0 = (\<lambda>bnb. copy_into (replicate ((n + 7) div 8) 0) bnb) in
     case base of
       Int64Vector bvs bnb \<Rightarrow> (case valV of
           Int64Vector vvs vnb \<Rightarrow> res_map (\<lambda>(vals, nb). Int64Vector vals nb)
             (merge_loop cbits cnb vnb (\<lambda>i vals. res_bind (idx vvs i) (\<lambda>x. upd vals i x)) n (copy_into (replicate n 0) bvs) (nb0 bnb))
         | _ \<Rightarrow> Inl Panic)
     | Float64Vector bvs bnb \<Rightarrow> (case valV of
           Float64Vector vvs vnb \<Rightarrow> res_map (\<lambda>(vals, nb). Float64Vector vals nb)
             (merge_loop cbits cnb vnb (\<lambda>i vals. res_bind (idx vvs i) (\<lambda>x. upd vals i x)) n (copy_into (replicate n 0) bvs) (nb0 bnb))
         | _ \<Rightarrow> Inl Panic)
     | StringVector bcs bd bnb \<Rightarrow> (case valV of
           StringVector vcs vd vnb \<Rightarrow> merge_strings cbits cnb vcs vd vnb bcs bd bnb n
         | _ \<Rightarrow> Inl Panic)
     | BoolVector bbits bnb _ \<Rightarrow> (case valV of
           BoolVector vbits vnb _ \<Rightarrow> res_map (\<lambda>(bits, nb). BoolVector bits nb n)
             (merge_loop cbits cnb vnb (\<lambda>i bits. res_bind (BoolVector_Get vbits i) (\<lambda>x. BoolVector_Set bits i x)) n
                (copy_into (replicate ((n + 7) div 8) 0) bbits) (nb0 bnb))
         | _ \<Rightarrow> Inl Panic)
     | DateVector bvs bnb \<Rightarrow> (case valV of
           DateVector vvs vnb \<Rightarrow> res_map (\<lambda>(vals, nb). DateVector vals nb)
             (merge_loop cbits cnb vnb (\<lambda>i vals. res_bind (idx vvs i) (\<lambda>x. upd vals i x)) n (copy_into (replicate n 0) bvs) (nb0 bnb))
         | _ \<Rightarrow> Inl Panic))"

definition nullVector :: "DataType \<Rightarrow> nat \<Rightarrow> vector" where
  "nullVector t n = (let nb = replicate ((n + 7) div 8) 0 in case t of
     TypeInt64 \<Rightarrow> Int64Vector (replicate n 0) nb
   | TypeFloat64 \<Rightarrow> Float64Vector (replicate n 0) nb
   | TypeString \<Rightarrow> StringVector (replicate n 0) None nb
   | TypeDate \<Rightarrow> DateVector (replicate n 0) nb
   | TypeBool \<Rightarrow> BoolVector nb nb n)"

section \<open>Evaluation\<close>

text \<open>
  The weight makes the recursion terminate: BETWEEN evaluates the conjunction it is rewritten to,
  in which its child occurs twice.
\<close>

fun ew :: "expr \<Rightarrow> nat" where
  "ew (ColumnRef _ _ _) = 1"
| "ew (LiteralExpr _ _) = 1"
| "ew (CastIntToFloatExpr e) = Suc (ew e)"
| "ew (BinOp _ l r _) = Suc (ew l + ew r)"
| "ew (AndExpr cs) = Suc (sum_list (map (\<lambda>c. Suc (ew c)) cs))"
| "ew (OrExpr cs) = Suc (sum_list (map (\<lambda>c. Suc (ew c)) cs))"
| "ew (NotExpr e) = Suc (ew e)"
| "ew (IsNullExpr e) = Suc (ew e)"
| "ew (IsNotNullExpr e) = Suc (ew e)"
| "ew (InExpr e _ _) = Suc (ew e)"
| "ew (LikeExpr e _) = Suc (ew e)"
| "ew (BetweenExpr c lo hi) = 2 * ew c + ew lo + ew hi + 10"
| "ew (StringEqExpr _ _ _) = 1"
| "ew (CaseExpr ws els _) = Suc (sum_list (map (\<lambda>(c, r). Suc (ew c + ew r)) ws) +
     (case els of None \<Rightarrow> 0 | Some e \<Rightarrow> Suc (ew e)))"

function (sequential) eval :: "Batch \<Rightarrow> expr \<Rightarrow> vector xres"
  and eval_bools :: "Batch \<Rightarrow> (bits3 \<Rightarrow> bits3 \<Rightarrow> bits3) \<Rightarrow> exec_error \<Rightarrow> nat \<Rightarrow> byte list \<times> byte list \<Rightarrow> expr list \<Rightarrow> vector xres"
  and eval_whens :: "Batch \<Rightarrow> nat \<Rightarrow> vector \<Rightarrow> (expr \<times> expr) list \<Rightarrow> vector xres" where
  "eval b (ColumnRef name i t) =
     (if i < 0 \<or> int (length (Vectors b)) \<le> i then Inl (Err ErrColumnRange) else Inr (Vectors b ! nat i))"
| "eval b (LiteralExpr v t) = res_map fst (Literal_Eval (new_Literal v t) (evalLen b))"
| "eval b (CastIntToFloatExpr e) = res_bind (eval b e) (\<lambda>v. case v of
     Int64Vector vs nb \<Rightarrow> Inr (Float64Vector (map f_of_int64 vs) nb)
   | _ \<Rightarrow> Inl (Err ErrCastInput))"
| "eval b (BinOp op l r t) = res_bind (eval b l) (\<lambda>lv. res_bind (eval b r) (\<lambda>rv.
     let n = Len lv in if is_cmp op then evalCmp op lv rv n else evalArith op lv rv n))"
| "eval b (AndExpr []) = (let n = evalLen b; zero = replicate ((n + 7) div 8) 0 in
     Inr (BoolVector (setAllValid zero n) (setAllValid zero n) n))"
| "eval b (AndExpr (c # cs)) = res_bind (eval b c) (\<lambda>first. case first of
     BoolVector fbits fnb n \<Rightarrow> (let zero = replicate ((n + 7) div 8) 0 in
       eval_bools b and_byte ErrAndOperand n (copy_into zero fbits, copy_into zero fnb) cs)
   | _ \<Rightarrow> Inl (Err ErrAndOperand))"
| "eval b (OrExpr []) = (let n = evalLen b; zero = replicate ((n + 7) div 8) 0 in
     Inr (BoolVector zero (setAllValid zero n) n))"
| "eval b (OrExpr (c # cs)) = res_bind (eval b c) (\<lambda>first. case first of
     BoolVector fbits fnb n \<Rightarrow> (let zero = replicate ((n + 7) div 8) 0 in
       eval_bools b or_byte ErrOrOperand n (copy_into zero fbits, copy_into zero fnb) cs)
   | _ \<Rightarrow> Inl (Err ErrOrOperand))"
| "eval b (NotExpr e) = res_bind (eval b e) (\<lambda>cv. case cv of
     BoolVector cbits cnb n \<Rightarrow> res_map (\<lambda>(bits, nb). BoolVector bits nb n) (not_bytes cbits cnb n)
   | _ \<Rightarrow> Inl (Err ErrNotOperand))"
| "eval b (IsNullExpr e) = res_bind (eval b e) (\<lambda>cv. null_test True cv)"
| "eval b (IsNotNullExpr e) = res_bind (eval b e) (\<lambda>cv. null_test False cv)"
| "eval b (InExpr e lits hasNull) = res_bind (eval b e) (\<lambda>cv. eval_in cv lits hasNull)"
| "eval b (LikeExpr e pattern) = res_bind (eval b e) (\<lambda>cv. eval_like cv pattern)"
| "eval b (BetweenExpr c lo hi) = eval b (AndExpr [BinOp BinGE c lo TypeBool, BinOp BinLE c hi TypeBool])"
| "eval b (StringEqExpr col lit negate) = eval_string_eq (Vectors b) col lit negate"
| "eval b (CaseExpr ws els t) = (let n = evalLen b in
     res_bind (case els of Some e \<Rightarrow> eval b e | None \<Rightarrow> Inr (nullVector t n)) (\<lambda>base. eval_whens b n base ws))"
| "eval_bools b f err n (bits, nb) [] = Inr (BoolVector bits nb n)"
| "eval_bools b f err n (bits, nb) (c # cs) = res_bind (eval b c) (\<lambda>cv. case cv of
     BoolVector cbits cnb _ \<Rightarrow> res_bind (combine_bytes f n cbits cnb (bits, nb)) (\<lambda>st. eval_bools b f err n st cs)
   | _ \<Rightarrow> Inl (Err err))"
| "eval_whens b n base [] = Inr base"
| "eval_whens b n base ((c, r) # ws) = res_bind (eval_whens b n base ws) (\<lambda>result.
     res_bind (eval b c) (\<lambda>condV. case condV of
       BoolVector cbits cnb _ \<Rightarrow> res_bind (eval b r) (\<lambda>valV. mergeVectors cbits cnb valV result n)
     | _ \<Rightarrow> Inl (Err ErrCaseCond)))"
  by pat_completeness auto
termination
  by (relation "measure (\<lambda>x. case x of
      Inl (b, e) \<Rightarrow> ew e
    | Inr (Inl (b, f, err, n, st, cs)) \<Rightarrow> sum_list (map (\<lambda>c. Suc (ew c)) cs)
    | Inr (Inr (b, n, base, ws)) \<Rightarrow> sum_list (map (\<lambda>(c, r). Suc (ew c + ew r)) ws))") auto

text \<open>\<^verbatim>\<open>BoolToSelVecInto\<close>: the selected rows among those the batch has selected already.\<close>

definition BoolToSelVecInto :: "Batch \<Rightarrow> byte list \<Rightarrow> byte list \<Rightarrow> nat \<Rightarrow> SelectionVector xres" where
  "BoolToSelVecInto b bits nb n = (
     let keep = (\<lambda>i. cond_true bits nb i) in
     case SelVec b of
       None \<Rightarrow> fold_res (\<lambda>out i. res_map (\<lambda>t. if t then out @ [of_nat i] else out) (keep i)) [] [0..<n]
     | Some s \<Rightarrow> fold_res (\<lambda>out i. res_map (\<lambda>t. if t then out @ [i] else out) (keep (unat i))) [] s)"

definition BoolToSelVec :: "Batch \<Rightarrow> byte list \<Rightarrow> byte list \<Rightarrow> nat \<Rightarrow> SelectionVector xres" where
  "BoolToSelVec b bits nb n = BoolToSelVecInto b bits nb n"

end
