(* ===== verification/Kernels.thy ===== *)
theory Kernels
  imports Expr
begin

text \<open>
  What the kernels of the expression evaluator compute, row by row: each loop over rows, bytes or
  codes ends without panic on well-formed vectors and leaves the vector whose rows are given by the
  scalar function. The evaluator's correctness proof uses only these lemmas.
\<close>

section \<open>Packed comparison\<close>

lemma pack8_bits:
  assumes "i + 8 \<le> length lv" "i + 8 \<le> length rv"
  shows "\<exists>byte. pack8 cmp lv rv i = Inr byte \<and> (\<forall>k < 8. bit byte k \<longleftrightarrow> cmp (lv ! (i + k)) (rv ! (i + k)))"
proof -
  have "\<exists>byte. pack8 cmp lv rv i = Inr byte \<and> (\<forall>k < 8. bit byte k \<longleftrightarrow> k < 8 \<and> cmp (lv ! (i + k)) (rv ! (i + k)))"
    unfolding pack8_def
  proof (rule fold_res_upto [where P = "\<lambda>j byte. \<forall>k < 8. bit byte k \<longleftrightarrow> k < j \<and> cmp (lv ! (i + k)) (rv ! (i + k))"])
    fix j and byte :: byte
    assume j: "j < 8" and inv: "\<forall>k < 8. bit byte k \<longleftrightarrow> k < j \<and> cmp (lv ! (i + k)) (rv ! (i + k))"
    have "bit (byte OR push_bit j 1) k \<longleftrightarrow> bit byte k \<or> k = j" if "k < 8" for k
      using that j by (auto simp: bit_simps)
    with j inv assms show "\<exists>s'. res_bind (idx lv (i + j)) (\<lambda>a. res_bind (idx rv (i + j)) (\<lambda>b.
        Inr (if cmp a b then byte OR push_bit j 1 else byte))) = Inr s' \<and>
        (\<forall>k < 8. bit s' k \<longleftrightarrow> k < Suc j \<and> cmp (lv ! (i + k)) (rv ! (i + k)))"
      by (auto simp: less_Suc_eq)
  qed simp
  then show ?thesis by auto
qed

lemma cmp_blocks_ok:
  assumes len: "length lv = n" "length rv = n" "length bits = bitmap_bytes n" "length nb = bitmap_bytes n"
    and zero: "\<And>i. \<not> valid_at bits i"
  shows "\<exists>bits'. cmp_blocks cmp lv rv bits nb n = Inr bits' \<and> length bits' = bitmap_bytes n \<and>
    (\<forall>i. valid_at bits' i \<longleftrightarrow> i < 8 * (n div 8) \<and> valid_at nb i \<and> cmp (lv ! i) (rv ! i))"
  unfolding cmp_blocks_def
proof (rule fold_res_upto)
  show "length bits = bitmap_bytes n \<and> (\<forall>i. valid_at bits i \<longleftrightarrow> i < 8 * 0 \<and> valid_at nb i \<and> cmp (lv ! i) (rv ! i))"
    using len zero by simp
next
  fix j :: nat and s
  assume j: "j < n div 8" and inv: "length s = bitmap_bytes n \<and>
    (\<forall>i. valid_at s i \<longleftrightarrow> i < 8 * j \<and> valid_at nb i \<and> cmp (lv ! i) (rv ! i))"
  have j8: "8 * j + 8 \<le> n" "j < bitmap_bytes n" using j by linarith+
  obtain byte where byte: "pack8 cmp lv rv (8 * j) = Inr byte"
    "\<And>k. k < 8 \<Longrightarrow> bit byte k \<longleftrightarrow> cmp (lv ! (8 * j + k)) (rv ! (8 * j + k))"
    using pack8_bits [of "8 * j" lv rv cmp] len j8 by auto
  let ?s = "s[j := byte AND nb ! j]"
  have "valid_at ?s i \<longleftrightarrow> i < 8 * Suc j \<and> valid_at nb i \<and> cmp (lv ! i) (rv ! i)" for i
  proof (cases "i div 8 = j")
    case True
    then have i: "i = 8 * j + i mod 8" "i < 8 * Suc j" by auto
    then have "bit byte (i mod 8) \<longleftrightarrow> cmp (lv ! i) (rv ! i)" using byte(2) [of "i mod 8"] by simp
    then show ?thesis using True inv j8 len i(2) by (auto simp: valid_at_def bit_and_iff)
  next
    case False
    then have "valid_at ?s i = valid_at s i" by (auto simp: valid_at_def)
    moreover have "i < 8 * Suc j \<longleftrightarrow> i < 8 * j" using False by auto
    ultimately show ?thesis using inv by simp
  qed
  then show "\<exists>s'. res_bind (pack8 cmp lv rv (8 * j)) (\<lambda>byte. res_bind (idx nb j) (\<lambda>m. upd s j (byte AND m))) = Inr s' \<and>
      length s' = bitmap_bytes n \<and> (\<forall>i. valid_at s' i \<longleftrightarrow> i < 8 * Suc j \<and> valid_at nb i \<and> cmp (lv ! i) (rv ! i))"
    using byte(1) inv j8 len by simp
qed

lemma fold_res_from:
  assumes "P a s" "a \<le> n"
    and "\<And>i s. a \<le> i \<Longrightarrow> i < n \<Longrightarrow> P i s \<Longrightarrow> \<exists>s'. f s i = Inr s' \<and> P (Suc i) s'"
  shows "\<exists>s'. fold_res f s [a..<n] = Inr s' \<and> P n s'"
  using assms
proof (induction "n - a" arbitrary: a s)
  case 0
  then show ?case by simp
next
  case (Suc k)
  then have "a < n" by simp
  moreover obtain s1 where s1: "f s a = Inr s1" "P (Suc a) s1" using Suc.prems calculation by blast
  moreover have "\<exists>s'. fold_res f s1 [Suc a..<n] = Inr s' \<and> P n s'"
    using Suc.hyps(1) [of "Suc a" s1] Suc.hyps(2) Suc.prems(3) s1(2) calculation(1) by simp
  ultimately show ?case by (simp add: upt_conv_Cons)
qed

lemma cmp_tail_ok:
  assumes len: "length lv = n" "length rv = n" "length bits = bitmap_bytes n" "length nb = bitmap_bytes n"
    and pre: "\<forall>i. valid_at bits i \<longleftrightarrow> i < 8 * (n div 8) \<and> valid_at nb i \<and> cmp (lv ! i) (rv ! i)"
  shows "\<exists>bits'. cmp_tail cmp lv rv bits nb n = Inr bits' \<and> length bits' = bitmap_bytes n \<and>
    (\<forall>i. valid_at bits' i \<longleftrightarrow> i < n \<and> valid_at nb i \<and> cmp (lv ! i) (rv ! i))"
  unfolding cmp_tail_def
proof (rule fold_res_from [where P = "\<lambda>i s. length s = bitmap_bytes n \<and>
    (\<forall>j. valid_at s j \<longleftrightarrow> j < i \<and> valid_at nb j \<and> cmp (lv ! j) (rv ! j))"])
  fix i s
  assume i: "i < n" and inv: "length s = bitmap_bytes n \<and>
    (\<forall>j. valid_at s j \<longleftrightarrow> j < i \<and> valid_at nb j \<and> cmp (lv ! j) (rv ! j))"
  have b: "i div 8 < length s" "i div 8 < length nb" using i inv len by (auto intro: div8_less_bitmap_bytes)
  obtain s' where "BoolVector_Set s i (cmp (lv ! i) (rv ! i)) = Inr s'" "length s' = length s"
    "\<And>j. valid_at s' j \<longleftrightarrow> (if j = i then cmp (lv ! i) (rv ! i) else valid_at s j)"
    using BoolVector_Set_eq [OF b(1)] by blast
  with b i inv len show "\<exists>s'. res_bind (IsNullBit nb i) (\<lambda>null. if null then Inr s else
      res_bind (idx lv i) (\<lambda>a. res_bind (idx rv i) (\<lambda>b. BoolVector_Set s i (cmp a b)))) = Inr s' \<and>
      length s' = bitmap_bytes n \<and> (\<forall>j. valid_at s' j \<longleftrightarrow> j < Suc i \<and> valid_at nb j \<and> cmp (lv ! j) (rv ! j))"
    by (cases "valid_at nb i") (auto simp: less_Suc_eq)
qed (use assms in simp_all)

lemma cmp_kernel_ok:
  assumes "length lv = n" "length rv = n" "length nb = bitmap_bytes n"
  shows "\<exists>bits. res_bind (cmp_blocks cmp lv rv (replicate (bitmap_bytes n) 0) nb n) (\<lambda>bits. cmp_tail cmp lv rv bits nb n) = Inr bits \<and>
    length bits = bitmap_bytes n \<and> (\<forall>i. valid_at bits i \<longleftrightarrow> i < n \<and> valid_at nb i \<and> cmp (lv ! i) (rv ! i))"
proof -
  obtain b1 where b1: "cmp_blocks cmp lv rv (replicate (bitmap_bytes n) 0) nb n = Inr b1" "length b1 = bitmap_bytes n"
    "\<forall>i. valid_at b1 i \<longleftrightarrow> i < 8 * (n div 8) \<and> valid_at nb i \<and> cmp (lv ! i) (rv ! i)"
    using cmp_blocks_ok [of lv n rv "replicate (bitmap_bytes n) 0" nb cmp] assms by auto
  show ?thesis using cmp_tail_ok [OF assms(1,2) b1(2) assms(3) b1(3)] b1(1) by simp
qed

text \<open>Scalar comparison of two values of one type, and its strict lifting to nulls.\<close>

fun cmp_val :: "BinOpKind \<Rightarrow> val \<Rightarrow> val \<Rightarrow> bool" where
  "cmp_val op (VInt a) (VInt b) = cmpInt64 op a b"
| "cmp_val op (VFloat a) (VFloat b) = cmpFloat64 op a b"
| "cmp_val op (VDate a) (VDate b) = cmpInt32 op a b"
| "cmp_val op _ _ = False"

definition lift2 :: "('a \<Rightarrow> 'b \<Rightarrow> 'c option) \<Rightarrow> 'a option \<Rightarrow> 'b option \<Rightarrow> 'c option" where
  "lift2 f x y = (case x of None \<Rightarrow> None | Some a \<Rightarrow> (case y of None \<Rightarrow> None | Some b \<Rightarrow> f a b))"

definition cmp_type :: "DataType \<Rightarrow> bool" where
  "cmp_type t \<longleftrightarrow> t = TypeInt64 \<or> t = TypeFloat64 \<or> t = TypeDate"

lemma valid_at_cmp_nulls:
  assumes "i < n" "bitmap_bytes n \<le> length a" "bitmap_bytes n \<le> length b"
  shows "valid_at (map (\<lambda>i. (if i < length a then a ! i else 0xFF) AND (if i < length b then b ! i else 0xFF)) [0..<bitmap_bytes n]) i
    \<longleftrightarrow> valid_at a i \<and> valid_at b i"
proof -
  have i: "i div 8 < bitmap_bytes n" using assms(1) by linarith
  with assms have "i div 8 < length a" "i div 8 < length b" by linarith+
  with i show ?thesis by (auto simp: valid_at_def bit_and_iff)
qed

lemma evalCmp_ok:
  assumes wf: "wf_vector n lv" "wf_vector n rv" and t: "VType lv = VType rv" "cmp_type (VType lv)"
  shows "\<exists>v. evalCmp op lv rv n = Inr v \<and> VType v = TypeBool \<and> wf_vector n v \<and>
    (\<forall>i < n. vget v i = lift2 (\<lambda>x y. Some (VBool (cmp_val op x y))) (vget lv i) (vget rv i))"
proof -
  define nb where "nb = map (\<lambda>i. (if i < length (Nulls lv) then Nulls lv ! i else 0xFF) AND
    (if i < length (Nulls rv) then Nulls rv ! i else 0xFF)) [0..<bitmap_bytes n]"
  have nb: "length nb = bitmap_bytes n" "\<And>i. i < n \<Longrightarrow> valid_at nb i \<longleftrightarrow> valid_at (Nulls lv) i \<and> valid_at (Nulls rv) i"
    using valid_at_cmp_nulls wf_vector_Nulls wf by (simp_all add: nb_def)
  show ?thesis
  proof (cases lv)
    case (Int64Vector l lnb)
    then obtain r rnb where r: "rv = Int64Vector r rnb" using t by (cases rv) auto
    obtain bits where "evalCmpInt64 op l r (replicate (bitmap_bytes n) 0) nb n = Inr bits" "length bits = bitmap_bytes n"
      "\<forall>i. valid_at bits i \<longleftrightarrow> i < n \<and> valid_at nb i \<and> cmpInt64 op (l ! i) (r ! i)"
      using cmp_kernel_ok [of l n r nb "cmpInt64 op"] nb(1) wf Int64Vector r by (auto simp: evalCmpInt64_def)
    then show ?thesis
      unfolding evalCmp_def Let_def nb_def [symmetric] using nb Int64Vector r by (auto simp: lift2_def)
  next
    case (Float64Vector l lnb)
    then obtain r rnb where r: "rv = Float64Vector r rnb" using t by (cases rv) auto
    obtain bits where "evalCmpFloat64 op l r (replicate (bitmap_bytes n) 0) nb n = Inr bits" "length bits = bitmap_bytes n"
      "\<forall>i. valid_at bits i \<longleftrightarrow> i < n \<and> valid_at nb i \<and> cmpFloat64 op (l ! i) (r ! i)"
      using cmp_kernel_ok [of l n r nb "cmpFloat64 op"] nb(1) wf Float64Vector r by (auto simp: evalCmpFloat64_def)
    then show ?thesis
      unfolding evalCmp_def Let_def nb_def [symmetric] using nb Float64Vector r by (auto simp: lift2_def)
  next
    case (DateVector l lnb)
    then obtain r rnb where r: "rv = DateVector r rnb" using t by (cases rv) auto
    obtain bits where "evalCmpDate op l r (replicate (bitmap_bytes n) 0) nb n = Inr bits" "length bits = bitmap_bytes n"
      "\<forall>i. valid_at bits i \<longleftrightarrow> i < n \<and> valid_at nb i \<and> cmpInt32 op (l ! i) (r ! i)"
      using cmp_kernel_ok [of l n r nb "cmpInt32 op"] nb(1) wf DateVector r by (auto simp: evalCmpDate_def)
    then show ?thesis
      unfolding evalCmp_def Let_def nb_def [symmetric] using nb DateVector r by (auto simp: lift2_def)
  qed (use t in \<open>auto simp: cmp_type_def\<close>)
qed

section \<open>Arithmetic\<close>

fun arith_val :: "BinOpKind \<Rightarrow> val \<Rightarrow> val \<Rightarrow> val option" where
  "arith_val op (VInt a) (VInt b) = (if op = BinDiv \<and> b = 0 then None else Some (VInt (applyArithInt64 op a b)))"
| "arith_val op (VFloat a) (VFloat b) = (if op = BinDiv \<and> f_eq b 0 then None else Some (VFloat (applyArithFloat64 op a b)))"
| "arith_val op _ _ = None"

lemma arith_loop_ok:
  assumes len: "length l = n" "length r = n" "length vals = n" "bitmap_bytes n \<le> length nb"
  shows "\<exists>vals' nb'. arith_loop f z l r n (vals, nb) = Inr (vals', nb') \<and> length vals' = n \<and> length nb' = length nb \<and>
    (\<forall>i < n. valid_at nb' i \<longleftrightarrow> valid_at nb i \<and> \<not> z (r ! i)) \<and>
    (\<forall>i < n. valid_at nb' i \<longrightarrow> vals' ! i = f (l ! i) (r ! i))"
proof -
  let ?P = "\<lambda>i (vs, b). length vs = n \<and> length b = length nb \<and>
    (\<forall>j. valid_at b j \<longleftrightarrow> valid_at nb j \<and> (j < i \<longrightarrow> \<not> z (r ! j))) \<and>
    (\<forall>j < i. valid_at b j \<longrightarrow> vs ! j = f (l ! j) (r ! j))"
  have "\<exists>s'. arith_loop f z l r n (vals, nb) = Inr s' \<and> ?P n s'"
    unfolding arith_loop_def
  proof (rule fold_res_upto [where P = ?P], goal_cases)
    case (2 i s)
    then have i: "i < n" and inv: "?P i s" by auto
    obtain vs b where s: "s = (vs, b)" by fastforce
    have b8: "i div 8 < length b" using i inv len s by (auto intro: div8_less_bitmap_bytes)
    obtain b' where b': "SetNullBit b i = (Inr b' :: byte list xres)" "length b' = length b"
      "\<And>j. valid_at b' j \<longleftrightarrow> valid_at b j \<and> j \<noteq> i"
      using SetNullBit_eq [OF b8] by blast
    consider "\<not> valid_at b i" | "valid_at b i" "z (r ! i)" | "valid_at b i" "\<not> z (r ! i)" by blast
    then show ?case
    proof cases
      case 1 then show ?thesis using inv s b8 by (auto simp: less_Suc_eq)
    next
      case 2 then show ?thesis using inv s b8 b' i len by (auto simp: less_Suc_eq)
    next
      case 3 then show ?thesis using inv s b8 i len by (auto simp: less_Suc_eq nth_list_update)
    qed
  qed (use len in auto)
  then show ?thesis by auto
qed

definition arith_type :: "DataType \<Rightarrow> bool" where
  "arith_type t \<longleftrightarrow> t = TypeInt64 \<or> t = TypeFloat64"

lemma evalArith_ok:
  assumes wf: "wf_vector n lv" "wf_vector n rv" and t: "VType lv = VType rv" "arith_type (VType lv)"
  shows "\<exists>v. evalArith op lv rv n = Inr v \<and> VType v = VType lv \<and> wf_vector n v \<and>
    (\<forall>i < n. vget v i = lift2 (arith_val op) (vget lv i) (vget rv i))"
proof -
  define nb where "nb = mergeNullBitmapsInto (replicate (bitmap_bytes n) 0) (Nulls lv) (Nulls rv) n"
  have nb: "length nb = bitmap_bytes n" "\<And>i. i < n \<Longrightarrow> valid_at nb i \<longleftrightarrow> valid_at (Nulls lv) i \<and> valid_at (Nulls rv) i"
    using wf_vector_Nulls wf by (simp_all add: nb_def valid_at_mergeNullBitmapsInto)
  show ?thesis
  proof (cases lv)
    case (Int64Vector l lnb)
    then obtain r rnb where r: "rv = Int64Vector r rnb" using t by (cases rv) auto
    show ?thesis
      using arith_loop_ok [of l n r "replicate n 0" nb "applyArithInt64 op" "\<lambda>y. op = BinDiv \<and> y = 0"] wf nb Int64Vector r
      unfolding evalArith_def Let_def nb_def [symmetric] by (auto simp: lift2_def)
  next
    case (Float64Vector l lnb)
    then obtain r rnb where r: "rv = Float64Vector r rnb" using t by (cases rv) auto
    show ?thesis
      using arith_loop_ok [of l n r "replicate n 0" nb "applyArithFloat64 op" "\<lambda>y. op = BinDiv \<and> f_eq y 0"] wf nb Float64Vector r
      unfolding evalArith_def Let_def nb_def [symmetric] by (auto simp: lift2_def)
  qed (use t in \<open>auto simp: arith_type_def\<close>)
qed


section \<open>Three-valued connectives\<close>

fun and3 :: "bool option \<Rightarrow> bool option \<Rightarrow> bool option" where
  "and3 (Some False) y = Some False"
| "and3 (Some True) y = y"
| "and3 None (Some False) = Some False"
| "and3 None _ = None"

fun or3 :: "bool option \<Rightarrow> bool option \<Rightarrow> bool option" where
  "or3 (Some True) y = Some True"
| "or3 (Some False) y = y"
| "or3 None (Some True) = Some True"
| "or3 None _ = None"

definition not3 :: "bool option \<Rightarrow> bool option" where
  "not3 = map_option Not"

text \<open>One row of a pair of bitmaps as a truth value.\<close>

definition row3 :: "byte list \<Rightarrow> byte list \<Rightarrow> nat \<Rightarrow> bool option" where
  "row3 bits nb i = (if valid_at nb i then Some (valid_at bits i) else None)"

definition bit3 :: "bits3 \<Rightarrow> nat \<Rightarrow> bool option" where
  "bit3 p k = (if bit (snd p) k then Some (bit (fst p) k) else None)"

lemma and_byte_bit3: "k < 8 \<Longrightarrow> bit3 (and_byte l r) k = and3 (bit3 l k) (bit3 r k)"
  by (cases "bit (fst l) k"; cases "bit (snd l) k"; cases "bit (fst r) k"; cases "bit (snd r) k")
    (simp_all add: bit3_def and_byte_def Let_def bit_simps)

lemma or_byte_bit3: "k < 8 \<Longrightarrow> bit3 (or_byte l r) k = or3 (bit3 l k) (bit3 r k)"
  by (cases "bit (fst l) k"; cases "bit (snd l) k"; cases "bit (fst r) k"; cases "bit (snd r) k")
    (simp_all add: bit3_def or_byte_def Let_def bit_simps)

lemma combine_bytes_ok:
  assumes len: "length bits = bitmap_bytes n" "length nb = bitmap_bytes n"
      "bitmap_bytes n \<le> length cbits" "bitmap_bytes n \<le> length cnb"
    and f: "\<And>l r k. k < 8 \<Longrightarrow> bit3 (f l r) k = f3 (bit3 l k) (bit3 r k)"
  shows "\<exists>bits' nb'. combine_bytes f n cbits cnb (bits, nb) = Inr (bits', nb') \<and>
    length bits' = bitmap_bytes n \<and> length nb' = bitmap_bytes n \<and>
    (\<forall>i < n. row3 bits' nb' i = f3 (row3 bits nb i) (row3 cbits cnb i))"
proof -
  let ?m = "bitmap_bytes n"
  let ?P = "\<lambda>j (x, y). length x = ?m \<and> length y = ?m \<and>
    (\<forall>i < ?m. (x ! i, y ! i) = (if i < j then f (bits ! i, nb ! i) (cbits ! i, cnb ! i) else (bits ! i, nb ! i)))"
  have "\<exists>s'. combine_bytes f n cbits cnb (bits, nb) = Inr s' \<and> ?P ?m s'"
    unfolding combine_bytes_def
  proof (rule fold_res_upto [where P = ?P], goal_cases)
    case (2 j s)
    then have j: "j < ?m" and inv: "?P j s" by auto
    obtain x y where s: "s = (x, y)" by fastforce
    obtain t v where tv: "f (bits ! j, nb ! j) (cbits ! j, cnb ! j) = (t, v)" by fastforce
    have xy: "x ! j = bits ! j" "y ! j = nb ! j" "length x = ?m" "length y = ?m" using inv j s by auto
    have "?P (Suc j) (x[j := t], y[j := v])"
      using inv j s tv by (auto simp: nth_list_update less_Suc_eq)
    then show ?case
      using j s tv xy len by auto
  qed (use len in auto)
  then obtain x y where xy: "combine_bytes f n cbits cnb (bits, nb) = Inr (x, y)" "length x = ?m" "length y = ?m"
    "\<And>i. i < ?m \<Longrightarrow> (x ! i, y ! i) = f (bits ! i, nb ! i) (cbits ! i, cnb ! i)"
    by auto
  have "row3 x y i = f3 (row3 bits nb i) (row3 cbits cnb i)" if i: "i < n" for i
  proof -
    have d: "i div 8 < ?m" using i by linarith
    then have row: "row3 p q i = bit3 (p ! (i div 8), q ! (i div 8)) (i mod 8)" if "?m \<le> length p" "?m \<le> length q" for p q
      using that by (auto simp: row3_def bit3_def valid_at_def)
    show ?thesis using xy(4) [OF d] f [of "i mod 8"] xy(2,3) len by (simp add: row)
  qed
  with xy show ?thesis by blast
qed

lemma not_bytes_ok:
  assumes len: "bitmap_bytes n \<le> length cbits" "bitmap_bytes n \<le> length cnb"
  shows "\<exists>bits nb. not_bytes cbits cnb n = Inr (bits, nb) \<and> length bits = bitmap_bytes n \<and> length nb = bitmap_bytes n \<and>
    (\<forall>i < n. row3 bits nb i = not3 (row3 cbits cnb i))"
proof -
  let ?m = "bitmap_bytes n"
  let ?P = "\<lambda>j (x, y). length x = ?m \<and> length y = ?m \<and>
    (\<forall>i < j. x ! i = NOT (cbits ! i) AND cnb ! i \<and> y ! i = cnb ! i)"
  have "\<exists>s'. not_bytes cbits cnb n = Inr s' \<and> ?P ?m s'"
    unfolding not_bytes_def Let_def
  proof (rule fold_res_upto [where P = ?P], goal_cases)
    case (2 j s)
    then show ?case
      using len by (auto simp: nth_list_update less_Suc_eq)
  qed simp
  then obtain x y where xy: "not_bytes cbits cnb n = Inr (x, y)" "length x = ?m" "length y = ?m"
    "\<And>i. i < ?m \<Longrightarrow> x ! i = NOT (cbits ! i) AND cnb ! i \<and> y ! i = cnb ! i"
    by auto
  have "row3 x y i = not3 (row3 cbits cnb i)" if i: "i < n" for i
  proof -
    have d: "i div 8 < ?m" using i by linarith
    then have "i div 8 < length cbits" "i div 8 < length cnb" using len by linarith+
    then show ?thesis
      using xy(4) [OF d] d xy(2,3) mod_8_byte [of i] by (auto simp: row3_def not3_def valid_at_def bit_simps)
  qed
  with xy show ?thesis by blast
qed


section \<open>Row loops\<close>

lemma bool_loop_ok:
  assumes "\<And>i. i < n \<Longrightarrow> row i = Inr (g i)"
  shows "\<exists>v. bool_loop n row = Inr v \<and> VType v = TypeBool \<and> wf_vector n v \<and> (\<forall>i < n. vget v i = map_option VBool (g i))"
proof -
  let ?m = "bitmap_bytes n"
  let ?P = "\<lambda>j (x, y). length x = ?m \<and> length y = ?m \<and>
    (\<forall>i. row3 x y i = (if i < j then g i else None))"
  let ?f = "\<lambda>(bits, nb) i. res_bind (row i) (\<lambda>r. case r of None \<Rightarrow> Inr (bits, nb)
    | Some v \<Rightarrow> res_bind (SetValidBit nb i) (\<lambda>nb. res_map (\<lambda>bits. (bits, nb)) (BoolVector_Set bits i v)))"
  have "\<exists>s'. fold_res ?f (replicate ?m 0, replicate ?m 0) [0..<n] = Inr s' \<and> ?P n s'"
  proof (rule fold_res_upto [where P = ?P])
    fix i s assume i: "i < n" and inv: "?P i s"
    obtain x y where s: "s = (x, y)" by fastforce
    have d: "i div 8 < length x" "i div 8 < length y" using i inv s by (auto intro: div8_less_bitmap_bytes)
    show "\<exists>s'. ?f s i = Inr s' \<and> ?P (Suc i) s'"
    proof (cases "g i")
      case None
      then show ?thesis using assms [OF i] inv s by (auto simp: less_Suc_eq)
    next
      case (Some v)
      obtain y' where y': "SetValidBit y i = (Inr y' :: byte list xres)" "length y' = length y"
        "\<And>j. valid_at y' j \<longleftrightarrow> valid_at y j \<or> j = i"
        using SetValidBit_eq [OF d(2)] by blast
      obtain x' where x': "BoolVector_Set x i v = Inr x'" "length x' = length x"
        "\<And>j. valid_at x' j \<longleftrightarrow> (if j = i then v else valid_at x j)"
        using BoolVector_Set_eq [OF d(1)] by blast
      have "row3 x' y' j = (if j < Suc i then g j else None)" for j
      proof (cases "j = i")
        case True then show ?thesis using x' y' Some by (simp add: row3_def)
      next
        case False
        then have "row3 x' y' j = row3 x y j" using x' y' by (simp add: row3_def)
        also have "\<dots> = (if j < i then g j else None)" using inv s by simp
        finally show ?thesis using False by (simp add: less_Suc_eq)
      qed
      then show ?thesis using assms [OF i] Some inv s x' y' by auto
    qed
  qed (simp add: row3_def)
  then obtain x y where xy: "fold_res ?f (replicate ?m 0, replicate ?m 0) [0..<n] = Inr (x, y)" "?P n (x, y)"
    by auto
  have "vget (BoolVector x y n) i = map_option VBool (row3 x y i)" for i by (simp add: row3_def)
  then show ?thesis using xy by (simp add: bool_loop_def Let_def)
qed

lemma null_test_ok:
  assumes "wf_vector n cv"
  shows "\<exists>v. null_test want cv = Inr v \<and> VType v = TypeBool \<and> wf_vector n v \<and>
    (\<forall>i < n. vget v i = Some (VBool ((vget cv i = None) = want)))"
proof -
  let ?m = "bitmap_bytes n"
  let ?P = "\<lambda>j x. length x = ?m \<and> (\<forall>i < j. valid_at x i \<longleftrightarrow> (vget cv i = None) = want)"
  let ?f = "\<lambda>bits i. res_bind (IsNull cv i) (\<lambda>null. BoolVector_Set bits i (null = want))"
  have "\<exists>x. fold_res ?f (replicate ?m 0) [0..<n] = Inr x \<and> ?P n x"
  proof (rule fold_res_upto [where P = ?P])
    fix i x assume i: "i < n" and inv: "?P i x"
    have d: "i div 8 < length x" using i inv by (auto intro: div8_less_bitmap_bytes)
    obtain x' where "BoolVector_Set x i ((vget cv i = None) = want) = Inr x'" "length x' = length x"
      "\<And>j. valid_at x' j \<longleftrightarrow> (if j = i then (vget cv i = None) = want else valid_at x j)"
      using BoolVector_Set_eq [OF d] by blast
    then show "\<exists>s'. ?f x i = Inr s' \<and> ?P (Suc i) s'"
      using IsNull_ok [OF assms i] inv by (auto simp: less_Suc_eq vget_None_iff)
  qed simp
  then show ?thesis
    using assms by (auto simp: null_test_def Let_def setAllValid_FullBitmap)
qed

fun val_eq :: "val \<Rightarrow> val \<Rightarrow> bool" where
  "val_eq (VInt a) (VInt b) = (a = b)"
| "val_eq (VFloat a) (VFloat b) = f_eq a b"
| "val_eq (VDate a) (VDate b) = (a = b)"
| "val_eq (VString a) (VString b) = (a = b)"
| "val_eq (VBool a) (VBool b) = (a = b)"
| "val_eq _ _ = False"

definition in3 :: "val list \<Rightarrow> bool \<Rightarrow> val \<Rightarrow> bool option" where
  "in3 lits hasNull x = (if \<exists>v \<in> set lits. val_eq x v then Some True else if hasNull then None else Some False)"

lemma in_scan_ok: "(\<And>v. v \<in> set lits \<Longrightarrow> f v = Inr (g v)) \<Longrightarrow> in_scan f lits = Inr (\<exists>v \<in> set lits. g v)"
  by (induction lits) auto

lemma in_match_ok:
  assumes "wf_vector n cv" "i < n" "vget cv i = Some x"
  shows "in_match cv i lits = Inr (\<exists>v \<in> set lits. val_eq x v)"
proof (cases cv)
  case (BoolVector bits nb m)
  then have "i div 8 < length bits" using assms by (auto intro: div8_less_bitmap_bytes)
  then show ?thesis
    using BoolVector assms by (auto intro!: in_scan_ok split: val.splits if_splits)
next
  case (StringVector cs d nb)
  then have v: "valid_at nb i" using assms by (simp split: if_splits)
  have g: "StringVector_Get cs d i = Inr (case d of None \<Rightarrow> [] | Some d \<Rightarrow> dict_strings d ! unat (cs ! i))"
    using StringVector_Get_ok [of n cs d nb i] StringVector assms v by simp
  show ?thesis
    using StringVector assms v g by (auto intro!: in_scan_ok split: val.splits)
qed (use assms in \<open>auto intro!: in_scan_ok split: val.splits if_splits\<close>)

lemma eval_in_ok:
  assumes "wf_vector n cv"
  shows "\<exists>v. eval_in cv lits hasNull = Inr v \<and> VType v = TypeBool \<and> wf_vector n v \<and>
    (\<forall>i < n. vget v i = map_option VBool (Option.bind (vget cv i) (in3 lits hasNull)))"
proof -
  have "res_bind (IsNull cv i) (\<lambda>null. if null then Inr None else
      res_map (\<lambda>found. if \<not> found \<and> hasNull then None else Some found) (in_match cv i lits)) =
      Inr (Option.bind (vget cv i) (in3 lits hasNull))" if "i < n" for i
    using IsNull_ok [OF assms that] in_match_ok [OF assms that] vget_None_iff [of cv i]
    by (cases "vget cv i") (auto simp: in3_def)
  then show ?thesis
    using bool_loop_ok [of n _ "\<lambda>i. Option.bind (vget cv i) (in3 lits hasNull)"] assms by (simp add: eval_in_def)
qed

text \<open>What \<^verbatim>\<open>LIKE\<close> means: the percent sign stands for any string, the underscore for any character.\<close>

inductive like :: "string \<Rightarrow> string \<Rightarrow> bool" where
  like_Nil: "like [] []"
| like_percent: "like p s \<Longrightarrow> like (CHR ''%'' # p) (t @ s)"
| like_any: "like p s \<Longrightarrow> like (CHR ''_'' # p) (c # s)"
| like_char: "c \<noteq> CHR ''%'' \<Longrightarrow> c \<noteq> CHR ''_'' \<Longrightarrow> like p s \<Longrightarrow> like (c # p) (c # s)"

inductive_simps like_Nil_iff: "like [] s"
inductive_simps like_Cons_iff: "like (c # p) s"

lemma likeMatchRec_like: "likeMatchRec p s \<longleftrightarrow> like p s"
proof (induction p s rule: likeMatchRec.induct)
  case (1 s)
  then show ?case by (simp add: like_Nil_iff)
next
  case (2 c p s)
  show ?case
  proof (cases "c = CHR ''%''")
    case True
    have "(\<exists>i < Suc (length s). like p (drop i s)) \<longleftrightarrow> (\<exists>t u. s = t @ u \<and> like p u)"
    proof
      assume "\<exists>i < Suc (length s). like p (drop i s)"
      then show "\<exists>t u. s = t @ u \<and> like p u" by (metis append_take_drop_id)
    next
      assume "\<exists>t u. s = t @ u \<and> like p u"
      then obtain t u where "s = t @ u" "like p u" by blast
      then show "\<exists>i < Suc (length s). like p (drop i s)" by (intro exI [of _ "length t"]) simp
    qed
    moreover have "p = [] \<Longrightarrow> \<exists>t u. s = t @ u \<and> like p u" by (auto intro: like_Nil)
    moreover have "likeMatchRec (c # p) s \<longleftrightarrow> p = [] \<or> (\<exists>i < Suc (length s). like p (drop i s))"
      using True 2(1) by (auto simp: list_ex_iff simp del: upt_Suc)
    moreover have "like (c # p) s \<longleftrightarrow> (\<exists>t u. s = t @ u \<and> like p u)"
      using True by (auto simp: like_Cons_iff)
    ultimately show ?thesis by blast
  next
    case False
    then show ?thesis using 2 by (auto simp: like_Cons_iff split: list.splits)
  qed
qed

lemma eval_like_ok:
  assumes wf: "wf_vector n cv" and "VType cv = TypeString"
  shows "\<exists>v. eval_like cv pattern = Inr v \<and> VType v = TypeBool \<and> wf_vector n v \<and>
    (\<forall>i < n. vget v i = map_option (\<lambda>x. case x of VString s \<Rightarrow> VBool (like pattern s) | _ \<Rightarrow> x) (vget cv i))"
proof -
  obtain cs d nb where cv: "cv = StringVector cs d nb" using assms(2) by (cases cv) auto
  define str where "str i = (case d of None \<Rightarrow> [] | Some d \<Rightarrow> dict_strings d ! unat (cs ! i))" for i
  define g where "g i = (if valid_at nb i then Some (like pattern (str i)) else None)" for i
  have "res_bind (IsNull cv i) (\<lambda>null. if null then Inr None else
      res_map (\<lambda>s. Some (likeMatch pattern s)) (StringVector_Get cs d i)) = Inr (g i)" if "i < n" for i
    using IsNull_ok [OF wf that] StringVector_Get_ok [of n cs d nb i] wf that
    by (auto simp: cv g_def str_def likeMatch_def likeMatchRec_like)
  from bool_loop_ok [of n _ g, OF this] show ?thesis
    using wf cv by (auto simp: eval_like_def g_def str_def)
qed

text \<open>String equality by code: correct when the literal is an entry of the column's dictionary.\<close>

lemma string_code_eq:
  fixes c :: u32
  assumes "dict_wf d" "first_index lit (dict_strings d) = Some k" "distinct (dict_strings d)"
    "unat c < length (dict_strings d)" "length (Offsets d) < 2 ^ 32"
  shows "c = of_nat k \<longleftrightarrow> dict_strings d ! unat c = lit"
proof -
  have k: "k < length (dict_strings d)" "dict_strings d ! k = lit" using assms(2) by (auto simp: first_index_Some)
  have "unat (of_nat k :: u32) = k" using k assms(5) by (simp add: unat_of_nat)
  then have "c = of_nat k \<longleftrightarrow> unat c = k" unfolding word_unat_eq_iff by (simp only:)
  also have "\<dots> \<longleftrightarrow> dict_strings d ! unat c = lit" using k assms(3,4) nth_eq_iff_index_eq by blast
  finally show ?thesis .
qed

lemma eval_string_eq_ok:
  assumes col: "col < length vecs" "vecs ! col = StringVector cs (Some d) nb"
    and wf: "wf_vector n (vecs ! col)" and lit: "lit \<in> set (dict_strings d)"
  shows "\<exists>v. eval_string_eq vecs col lit negate = Inr v \<and> VType v = TypeBool \<and> wf_vector n v \<and>
    (\<forall>i < n. vget v i = (if valid_at nb i then Some (VBool ((dict_strings d ! unat (cs ! i) = lit) \<noteq> negate)) else None))"
proof -
  have d: "dict_wf d" "length (Offsets d) < 2 ^ 32" "length cs = n" and dist: "distinct (dict_strings d)"
   and codes:
    "\<And>i. i < n \<Longrightarrow> valid_at nb i \<Longrightarrow> unat (cs ! i) < length (dict_strings d)"
    using wf col by auto
  obtain k where k: "first_index lit (dict_strings d) = Some k"
    using lit first_index_None [of lit "dict_strings d"] by auto
  obtain d' where look: "Dictionary_Lookup d lit = Inr (Some (of_nat k), d')"
    using dict_scan_ok [OF d(1,2), of 0 lit] k by (auto simp: Dictionary_Lookup_def zero_plus_fun)
  define g where "g i = (if valid_at nb i then Some ((dict_strings d ! unat (cs ! i) = lit) \<noteq> negate) else None)" for i
  have "res_bind (IsNull (vecs ! col) i) (\<lambda>null. if null then Inr None else
      res_map (\<lambda>c. Some ((c = of_nat k) \<noteq> negate)) (idx cs i)) = Inr (g i)" if i: "i < n" for i
    using IsNull_ok [OF wf i] d(3) i string_code_eq [OF d(1) k dist codes [OF i] d(2)] col(2)
    by (auto simp: g_def)
  from bool_loop_ok [of n _ g, OF this]
  obtain v where "bool_loop n (\<lambda>i. res_bind (IsNull (vecs ! col) i) (\<lambda>null. if null then Inr None else
      res_map (\<lambda>c. Some ((c = of_nat k) \<noteq> negate)) (idx cs i))) = Inr v" "VType v = TypeBool" "wf_vector n v"
      "\<forall>i < n. vget v i = map_option VBool (g i)" by auto
  then show ?thesis
    using col look d(3) by (auto simp: eval_string_eq_def g_def Let_def)
qed

section \<open>CASE\<close>

lemma cond_true_ok:
  assumes "i < n" "bitmap_bytes n \<le> length cbits" "bitmap_bytes n \<le> length cnb"
  shows "cond_true cbits cnb i = Inr (row3 cbits cnb i = Some True)"
  using div8_less_bitmap_bytes [OF assms(1,2)] div8_less_bitmap_bytes [OF assms(1,3)]
  by (auto simp: cond_true_def row3_def)

lemma merge_bit_ok:
  assumes "i div 8 < length vnb" "i div 8 < length nb"
  obtains nb' where "merge_bit vnb nb i = Inr nb'" "length nb' = length nb"
    "\<And>j. valid_at nb' j \<longleftrightarrow> (if j = i then valid_at vnb i else valid_at nb j)"
proof (cases "valid_at vnb i")
  case True
  obtain nb' where "SetValidBit nb i = (Inr nb' :: byte list xres)" "length nb' = length nb"
    "\<And>j. valid_at nb' j \<longleftrightarrow> valid_at nb j \<or> j = i"
    using SetValidBit_eq [OF assms(2)] by blast
  then show thesis using that [of nb'] True assms by (auto simp: merge_bit_def)
next
  case False
  obtain nb' where "SetNullBit nb i = (Inr nb' :: byte list xres)" "length nb' = length nb"
    "\<And>j. valid_at nb' j \<longleftrightarrow> valid_at nb j \<and> j \<noteq> i"
    using SetNullBit_eq [OF assms(2)] by blast
  then show thesis using that [of nb'] False assms by (auto simp: merge_bit_def)
qed

lemma merge_loop_ok:
  assumes len: "bitmap_bytes n \<le> length cbits" "bitmap_bytes n \<le> length cnb" "bitmap_bytes n \<le> length vnb"
      "length nb = bitmap_bytes n"
    and ok: "ok s"
    and put: "\<And>i s. i < n \<Longrightarrow> ok s \<Longrightarrow> \<exists>s'. put i s = Inr s' \<and> ok s' \<and> (\<forall>j. get s' j = (if j = i then w i else get s j))"
  shows "\<exists>s' nb'. merge_loop cbits cnb vnb put n s nb = Inr (s', nb') \<and> ok s' \<and> length nb' = bitmap_bytes n \<and>
    (\<forall>i < n. valid_at nb' i = valid_at (if row3 cbits cnb i = Some True then vnb else nb) i \<and>
       get s' i = (if row3 cbits cnb i = Some True then w i else get s i))"
proof -
  let ?t = "\<lambda>i. row3 cbits cnb i = Some True"
  let ?P = "\<lambda>i (x, y). ok x \<and> length y = bitmap_bytes n \<and>
    (\<forall>j. valid_at y j = (if j < i \<and> ?t j then valid_at vnb j else valid_at nb j) \<and>
       get x j = (if j < i \<and> ?t j then w j else get s j))"
  have "\<exists>r. merge_loop cbits cnb vnb put n s nb = Inr r \<and> ?P n r"
    unfolding merge_loop_def
  proof (rule fold_res_upto [where P = ?P], goal_cases)
    case 1 then show ?case using ok len by simp
  next
    case (2 i r)
    obtain x y where r: "r = (x, y)" by fastforce
    have i: "i < n" and inv: "?P i (x, y)" using 2 r by auto
    have c: "cond_true cbits cnb i = Inr (?t i)" using cond_true_ok [OF i] len by simp
    show ?case
    proof (cases "?t i")
      case False
      then show ?thesis using c r inv by (auto simp: less_Suc_eq)
    next
      case True
      obtain x' where x': "put i x = Inr x'" "ok x'" "\<forall>j. get x' j = (if j = i then w i else get x j)"
        using put [OF i] inv by blast
      have d: "i div 8 < length vnb" "i div 8 < length y" using i len inv by (auto intro: div8_less_bitmap_bytes)
      obtain y' where y': "merge_bit vnb y i = Inr y'" "length y' = length y"
        "\<And>j. valid_at y' j \<longleftrightarrow> (if j = i then valid_at vnb i else valid_at y j)"
        using merge_bit_ok [OF d] by blast
      have "?P (Suc i) (x', y')" using inv x' y' True by (auto simp: less_Suc_eq)
      then show ?thesis using c r True x' y' by simp
    qed
  qed
  then show ?thesis by auto
qed

lemma merge_fixed_ok:
  fixes vvs :: "'a list"
  assumes "bitmap_bytes n \<le> length cbits" "bitmap_bytes n \<le> length cnb"
    and "length bvs = n" "length vvs = n" "bitmap_bytes n \<le> length bnb" "bitmap_bytes n \<le> length vnb" "length zs = n"
  shows "\<exists>vals nb. merge_loop cbits cnb vnb (\<lambda>i vals. res_bind (idx vvs i) (\<lambda>x. upd vals i x)) n (copy_into zs bvs)
      (copy_into (replicate (bitmap_bytes n) 0) bnb) = Inr (vals, nb) \<and> length vals = n \<and> length nb = bitmap_bytes n \<and>
    (\<forall>i < n. valid_at nb i = valid_at (if row3 cbits cnb i = Some True then vnb else bnb) i \<and>
       vals ! i = (if row3 cbits cnb i = Some True then vvs ! i else bvs ! i))"
proof -
  let ?ok = "\<lambda>vals. length vals = n" and ?nb0 = "copy_into (replicate (bitmap_bytes n) 0) bnb"
  have "\<exists>s' nb'. merge_loop cbits cnb vnb (\<lambda>i vals. res_bind (idx vvs i) (\<lambda>x. upd vals i x)) n bvs ?nb0 = Inr (s', nb') \<and>
      ?ok s' \<and> length nb' = bitmap_bytes n \<and>
    (\<forall>i < n. valid_at nb' i = valid_at (if row3 cbits cnb i = Some True then vnb else ?nb0) i \<and>
       s' ! i = (if row3 cbits cnb i = Some True then vvs ! i else bvs ! i))"
  proof (rule merge_loop_ok)
    fix i and s :: "'a list" assume "i < n" "length s = n"
    then show "\<exists>s'. res_bind (idx vvs i) (upd s i) = Inr s' \<and> length s' = n \<and> (\<forall>j. s' ! j = (if j = i then vvs ! i else s ! j))"
      using assms by (auto simp: nth_list_update)
  qed (use assms in simp_all)
  then show ?thesis using assms by (auto simp: copy_into_all valid_at_copy_into)
qed

lemma merge_bool_ok:
  assumes "bitmap_bytes n \<le> length cbits" "bitmap_bytes n \<le> length cnb"
    and "bitmap_bytes n \<le> length bbits" "bitmap_bytes n \<le> length vbits" "bitmap_bytes n \<le> length bnb" "bitmap_bytes n \<le> length vnb"
  shows "\<exists>bits nb. merge_loop cbits cnb vnb (\<lambda>i bits. res_bind (BoolVector_Get vbits i) (\<lambda>x. BoolVector_Set bits i x)) n
      (copy_into (replicate (bitmap_bytes n) 0) bbits) (copy_into (replicate (bitmap_bytes n) 0) bnb) = Inr (bits, nb) \<and>
    length bits = bitmap_bytes n \<and> length nb = bitmap_bytes n \<and>
    (\<forall>i < n. valid_at nb i = valid_at (if row3 cbits cnb i = Some True then vnb else bnb) i \<and>
       valid_at bits i = (if row3 cbits cnb i = Some True then valid_at vbits i else valid_at bbits i))"
proof -
  let ?nb0 = "copy_into (replicate (bitmap_bytes n) 0) bnb" and ?b0 = "copy_into (replicate (bitmap_bytes n) 0) bbits"
  have "\<exists>s' nb'. merge_loop cbits cnb vnb (\<lambda>i bits. res_bind (BoolVector_Get vbits i) (\<lambda>x. BoolVector_Set bits i x)) n ?b0 ?nb0 = Inr (s', nb') \<and>
      length s' = bitmap_bytes n \<and> length nb' = bitmap_bytes n \<and>
    (\<forall>i < n. valid_at nb' i = valid_at (if row3 cbits cnb i = Some True then vnb else ?nb0) i \<and>
       valid_at s' i = (if row3 cbits cnb i = Some True then valid_at vbits i else valid_at ?b0 i))"
  proof (rule merge_loop_ok)
    fix i and s :: "byte list" assume i: "i < n" and s: "length s = bitmap_bytes n"
    have d: "i div 8 < length s" "i div 8 < length vbits" using i s assms by (auto intro: div8_less_bitmap_bytes)
    then show "\<exists>s'. res_bind (BoolVector_Get vbits i) (BoolVector_Set s i) = Inr s' \<and> length s' = bitmap_bytes n \<and>
        (\<forall>j. valid_at s' j = (if j = i then valid_at vbits i else valid_at s j))"
      using BoolVector_Set_eq [OF d(1), of "valid_at vbits i"] s by (metis BoolVector_Get_ok res_bind_simps(2))
  qed (use assms in simp_all)
  then show ?thesis using assms by (auto simp: valid_at_copy_into)
qed

text \<open>String CASE: the merged dictionary keeps every code's string.\<close>

lemma add_all_snoc:
  "add_all db (ss @ [s]) = (let (cs, db') = add_all db ss; (c, db'') = DictBuilder_Add db' s in (cs @ [c], db''))"
  by (induction ss arbitrary: db) (auto simp: Let_def split: prod.splits)

lemma add_all_prefix:
  assumes "db_inv db" "length (keys db) + length ss < 2 ^ 32"
  shows "\<exists>more. keys (snd (add_all db ss)) = keys db @ more \<and> length (concat more) \<le> length (concat ss) \<and>
    length more \<le> length ss"
  using add_all_ok [OF assms] by blast

definition opt_strings :: "Dictionary option \<Rightarrow> string list" where
  "opt_strings d = (case d of None \<Rightarrow> [] | Some d \<Rightarrow> dict_strings d)"

definition opt_wf :: "Dictionary option \<Rightarrow> bool" where
  "opt_wf d = (case d of None \<Rightarrow> True | Some d \<Rightarrow> dict_wf d \<and> length (Offsets d) < 2 ^ 32)"

lemma remap_dict_ok:
  assumes "opt_wf dict"
  shows "remap_dict dict db = Inr (add_all db (opt_strings dict))"
proof (cases dict)
  case (Some d)
  have wf: "dict_wf d" "length (Offsets d) < 2 ^ 32" using assms Some by (simp_all add: opt_wf_def)
  let ?P = "\<lambda>i st. st = add_all db (take i (dict_strings d))"
  have "\<exists>st. remap_dict (Some d) db = Inr st \<and> ?P (length (Offsets d)) st"
    unfolding remap_dict_def option.case Dictionary_Len_def
  proof (rule fold_res_upto [where P = ?P], goal_cases)
    case (2 i st)
    have u: "unat (of_nat i :: u32) = i" using 2 wf(2) by (simp add: unat_of_nat)
    obtain d' where "Dictionary_Get d (of_nat i) = (Inr (dict_strings d ! i, d') :: (string \<times> Dictionary) xres)"
      using Dictionary_Get_wf [OF wf(1), of "of_nat i"] 2 u by metis
    moreover have "take (Suc i) (dict_strings d) = take i (dict_strings d) @ [dict_strings d ! i]"
      using 2 by (simp add: take_Suc_conv_app_nth)
    ultimately show ?case using 2 by (auto simp: add_all_snoc Let_def split: prod.splits)
  qed simp
  then show ?thesis using Some by (auto simp: opt_strings_def)
qed (simp add: remap_dict_def opt_strings_def)

definition strs_cost :: "string list \<Rightarrow> nat" where
  "strs_cost ss = length ss + length (concat ss)"

lemma merge_dicts_ok:
  assumes cost: "strs_cost bs + strs_cost vs < 2 ^ 32"
    and r1: "add_all NewDictBuilder bs = (bmap, db1)" and r2: "add_all db1 vs = (vmap, db2)"
  shows "dict_bounded (keys db2)" "distinct (keys db2)" "strs_cost (keys db2) \<le> strs_cost bs + strs_cost vs"
    and "length bmap = length bs" "length vmap = length vs"
    and "\<And>i. i < length bs \<Longrightarrow> unat (bmap ! i) < length (keys db2) \<and> keys db2 ! unat (bmap ! i) = bs ! i"
    and "\<And>i. i < length vs \<Longrightarrow> unat (vmap ! i) < length (keys db2) \<and> keys db2 ! unat (vmap ! i) = vs ! i"
proof -
  have l: "length (keys NewDictBuilder) + length bs < 2 ^ 32" using cost by (simp add: NewDictBuilder_def strs_cost_def)
  note b = add_all_ok [OF db_inv_New l, unfolded r1 fst_conv snd_conv]
  then obtain m1 where m1: "keys db1 = m1" "length (concat m1) \<le> length (concat bs)" "length m1 \<le> length bs"
    by (auto simp: NewDictBuilder_def)
  have inv1: "db_inv db1" using b by simp
  have l2: "length (keys db1) + length vs < 2 ^ 32" using cost m1 by (simp add: strs_cost_def)
  note v = add_all_ok [OF inv1 l2, unfolded r2 fst_conv snd_conv]
  then obtain m2 where m2: "keys db2 = keys db1 @ m2" "length (concat m2) \<le> length (concat vs)" "length m2 \<le> length vs"
    by auto
  show "dict_bounded (keys db2)" "strs_cost (keys db2) \<le> strs_cost bs + strs_cost vs"
    using m1 m2 cost by (auto simp: dict_bounded_def strs_cost_def)
  show "distinct (keys db2)" using v by (simp add: db_inv_def)
  have bm: "map (\<lambda>c. keys db1 ! unat c) bmap = bs" "\<forall>c \<in> set bmap. unat c < length (keys db1)" using b by auto
  have vm: "map (\<lambda>c. keys db2 ! unat c) vmap = vs" "\<forall>c \<in> set vmap. unat c < length (keys db2)" using v by auto
  show lb: "length bmap = length bs" and lv: "length vmap = length vs" using bm(1) vm(1) by (metis length_map)+
  fix i
  show "unat (bmap ! i) < length (keys db2) \<and> keys db2 ! unat (bmap ! i) = bs ! i" if "i < length bs"
  proof -
    have "unat (bmap ! i) < length (keys db1)" using bm(2) that lb by simp
    moreover have "keys db1 ! unat (bmap ! i) = bs ! i" using bm(1) that lb by (metis nth_map)
    ultimately show ?thesis using m2(1) by (simp add: nth_append)
  qed
  show "unat (vmap ! i) < length (keys db2) \<and> keys db2 ! unat (vmap ! i) = vs ! i" if "i < length vs"
    using vm that lv by (metis nth_map nth_mem)
qed

lemma merge_string_loop:
  assumes len: "bitmap_bytes n \<le> length cbits" "bitmap_bytes n \<le> length cnb" "bitmap_bytes n \<le> length vnb" "bitmap_bytes n \<le> length bnb"
      "length vcs = n" "length bcs = n"
    and vok: "\<And>i. i < n \<Longrightarrow> valid_at vnb i \<Longrightarrow> unat (vcs ! i) < length vmap"
    and bok: "\<And>i. i < n \<Longrightarrow> valid_at bnb i \<Longrightarrow> unat (bcs ! i) < length bmap"
  defines "t \<equiv> \<lambda>i. row3 cbits cnb i = Some True"
  shows "\<exists>codes nb. fold_res (\<lambda>(codes, nb) i.
        res_bind (cond_true cbits cnb i) (\<lambda>t.
        let (snb, scs, remap) = (if t then (vnb, vcs, vmap) else (bnb, bcs, bmap)) in
        res_bind (IsNullBit snb i) (\<lambda>null. if null then Inr (codes, nb) else
        res_bind (idx scs i) (\<lambda>c. res_bind (idx remap (unat c)) (\<lambda>c'.
        res_bind (upd codes i c') (\<lambda>codes. res_map (\<lambda>nb. (codes, nb)) (SetValidBit nb i)))))))
        (replicate n 0, replicate (bitmap_bytes n) 0) [0..<n] = Inr (codes, nb) \<and>
    length codes = n \<and> length nb = bitmap_bytes n \<and>
    (\<forall>i < n. valid_at nb i = valid_at (if t i then vnb else bnb) i \<and>
      (valid_at nb i \<longrightarrow> codes ! i = (if t i then vmap ! unat (vcs ! i) else bmap ! unat (bcs ! i))))"
    (is "\<exists>codes nb. fold_res ?f ?s0 _ = _ \<and> _")
proof -
  let ?P = "\<lambda>i (x, y). length x = n \<and> length y = bitmap_bytes n \<and>
    (\<forall>j. valid_at y j \<longleftrightarrow> j < i \<and> valid_at (if t j then vnb else bnb) j) \<and>
    (\<forall>j < i. valid_at y j \<longrightarrow> x ! j = (if t j then vmap ! unat (vcs ! j) else bmap ! unat (bcs ! j)))"
  have "\<exists>r. fold_res ?f ?s0 [0..<n] = Inr r \<and> ?P n r"
  proof (rule fold_res_upto [where P = ?P], goal_cases)
    case 1 then show ?case by simp
  next
    case (2 i r)
    obtain x y where r: "r = (x, y)" by fastforce
    have i: "i < n" and inv: "?P i (x, y)" using 2 r by auto
    have c: "cond_true cbits cnb i = Inr (t i)" using cond_true_ok [OF i] len by (simp add: t_def)
    have d: "i div 8 < length vnb" "i div 8 < length bnb" "i div 8 < length y"
      using i len inv by (auto intro: div8_less_bitmap_bytes)
    show ?case
    proof (cases "valid_at (if t i then vnb else bnb) i")
      case False
      then show ?thesis using c r inv d by (auto simp: less_Suc_eq)
    next
      case True
      obtain y' where y': "SetValidBit y i = (Inr y' :: byte list xres)" "length y' = length y"
        "\<And>j. valid_at y' j \<longleftrightarrow> valid_at y j \<or> j = i"
        using SetValidBit_eq [OF d(3)] by blast
      let ?c = "if t i then vmap ! unat (vcs ! i) else bmap ! unat (bcs ! i)"
      have "?P (Suc i) (x[i := ?c], y')"
        using inv y' True i by (auto simp: less_Suc_eq nth_list_update)
      moreover have "?f (x, y) i = Inr (x[i := ?c], y')"
        using c True d y' i len vok [OF i] bok [OF i] inv by (auto split: if_splits)
      ultimately show ?thesis using r by blast
    qed
  qed
  then show ?thesis by auto
qed

fun vec_cost :: "vector \<Rightarrow> nat" where
  "vec_cost (StringVector cs d nb) = strs_cost (opt_strings d)"
| "vec_cost _ = 0"

lemma wf_string_opt:
  assumes "wf_vector n (StringVector cs d nb)"
  shows "opt_wf d" "i < n \<Longrightarrow> valid_at nb i \<Longrightarrow> unat (cs ! i) < length (opt_strings d)"
    "i < n \<Longrightarrow> valid_at nb i \<Longrightarrow> vget (StringVector cs d nb) i = Some (VString (opt_strings d ! unat (cs ! i)))"
  using assms by (auto simp: opt_wf_def opt_strings_def split: option.splits)

lemma merge_strings_ok:
  assumes wf: "wf_vector n (StringVector vcs vd vnb)" "wf_vector n (StringVector bcs bd bnb)"
    and len: "bitmap_bytes n \<le> length cbits" "bitmap_bytes n \<le> length cnb"
    and cost: "strs_cost (opt_strings bd) + strs_cost (opt_strings vd) < 2 ^ 32"
  shows "\<exists>v. merge_strings cbits cnb vcs vd vnb bcs bd bnb n = Inr v \<and> VType v = TypeString \<and> wf_vector n v \<and>
    vec_cost v \<le> strs_cost (opt_strings bd) + strs_cost (opt_strings vd) \<and>
    (\<forall>i < n. vget v i = vget (if row3 cbits cnb i = Some True then StringVector vcs vd vnb else StringVector bcs bd bnb) i)"
proof -
  define t where "t = (\<lambda>i. row3 cbits cnb i = Some True)"
  note wv = wf_string_opt [OF wf(1)] and wb = wf_string_opt [OF wf(2)]
  obtain bmap db1 where r1: "add_all NewDictBuilder (opt_strings bd) = (bmap, db1)" by fastforce
  obtain vmap db2 where r2: "add_all db1 (opt_strings vd) = (vmap, db2)" by fastforce
  note m = merge_dicts_ok [OF cost r1 r2]
  have lens: "length vcs = n" "length bcs = n" "bitmap_bytes n \<le> length vnb" "bitmap_bytes n \<le> length bnb"
    using wf by auto
  obtain codes nb where loop: "fold_res (\<lambda>(codes, nb) i.
        res_bind (cond_true cbits cnb i) (\<lambda>t.
        let (snb, scs, remap) = (if t then (vnb, vcs, vmap) else (bnb, bcs, bmap)) in
        res_bind (IsNullBit snb i) (\<lambda>null. if null then Inr (codes, nb) else
        res_bind (idx scs i) (\<lambda>c. res_bind (idx remap (unat c)) (\<lambda>c'.
        res_bind (upd codes i c') (\<lambda>codes. res_map (\<lambda>nb. (codes, nb)) (SetValidBit nb i)))))))
        (replicate n 0, replicate (bitmap_bytes n) 0) [0..<n] = (Inr (codes, nb) :: _ xres)"
    and cn: "length codes = n" "length nb = bitmap_bytes n"
    and val: "\<And>i. i < n \<Longrightarrow> valid_at nb i = valid_at (if t i then vnb else bnb) i"
    and code: "\<And>i. i < n \<Longrightarrow> valid_at nb i \<Longrightarrow> codes ! i = (if t i then vmap ! unat (vcs ! i) else bmap ! unat (bcs ! i))"
    using merge_string_loop [OF len lens(3,4,1,2), of vmap bmap] wv(2) wb(2) m(4,5) unfolding t_def by auto
  define d where "d = dict_of_keys (keys db2)"
  have d: "dict_wf d" "dict_strings d = keys db2" "length (Offsets d) < 2 ^ 32"
    using dict_of_keys_ok [OF m(1)] m(1) by (simp_all add: d_def) (simp add: dict_of_keys_def dict_bounded_def)
  let ?v = "StringVector codes (Some d) nb"
  have eq: "merge_strings cbits cnb vcs vd vnb bcs bd bnb n = Inr ?v"
    unfolding merge_strings_def remap_dict_ok [OF wb(1)] remap_dict_ok [OF wv(1)] res_bind_simps r1 prod.case r2 loop
      newStringVector_ok [OF m(1)] d_def by simp
  have str: "unat (codes ! i) < length (keys db2) \<and>
      Some (VString (keys db2 ! unat (codes ! i))) = vget (if t i then StringVector vcs vd vnb else StringVector bcs bd bnb) i"
    if "i < n" "valid_at nb i" for i
    using that val [OF that(1)] code [OF that] wv(2,3) [OF that(1)] wb(2,3) [OF that(1)] m(6,7) by (cases "t i") auto
  have wfv: "wf_vector n ?v" using cn d m(2) str by simp
  have "vget ?v i = vget (if t i then StringVector vcs vd vnb else StringVector bcs bd bnb) i" if i: "i < n" for i
  proof (cases "valid_at nb i")
    case True
    then show ?thesis using str [OF i True] by (simp add: d)
  next
    case False
    then show ?thesis using val [OF i] by (simp split: if_splits)
  qed
  then show ?thesis using eq wfv m(3) d by (simp add: t_def opt_strings_def)
qed

lemma mergeVectors_ok:
  assumes wf: "wf_vector n valV" "wf_vector n base" and t: "VType valV = VType base"
    and len: "bitmap_bytes n \<le> length cbits" "bitmap_bytes n \<le> length cnb"
    and cost: "vec_cost base + vec_cost valV < 2 ^ 32"
  shows "\<exists>v. mergeVectors cbits cnb valV base n = Inr v \<and> VType v = VType base \<and> wf_vector n v \<and>
    vec_cost v \<le> vec_cost base + vec_cost valV \<and>
    (\<forall>i < n. vget v i = (if row3 cbits cnb i = Some True then vget valV i else vget base i))"
proof (cases base)
  case (Int64Vector bvs bnb)
  then obtain vvs vnb where v: "valV = Int64Vector vvs vnb" using t by (cases valV) auto
  show ?thesis
    using merge_fixed_ok [OF len, of bvs vvs bnb vnb "replicate n 0"] wf Int64Vector v
    by (auto simp: mergeVectors_def Let_def)
next
  case (Float64Vector bvs bnb)
  then obtain vvs vnb where v: "valV = Float64Vector vvs vnb" using t by (cases valV) auto
  show ?thesis
    using merge_fixed_ok [OF len, of bvs vvs bnb vnb "replicate n 0"] wf Float64Vector v
    by (auto simp: mergeVectors_def Let_def)
next
  case (DateVector bvs bnb)
  then obtain vvs vnb where v: "valV = DateVector vvs vnb" using t by (cases valV) auto
  show ?thesis
    using merge_fixed_ok [OF len, of bvs vvs bnb vnb "replicate n 0"] wf DateVector v
    by (auto simp: mergeVectors_def Let_def)
next
  case (BoolVector bbits bnb m)
  then obtain vbits vnb m' where v: "valV = BoolVector vbits vnb m'" using t by (cases valV) auto
  show ?thesis
    using merge_bool_ok [OF len, of bbits vbits bnb vnb] wf BoolVector v
    by (auto simp: mergeVectors_def Let_def)
next
  case (StringVector bcs bd bnb)
  then obtain vcs vd vnb where v: "valV = StringVector vcs vd vnb" using t by (cases valV) auto
  show ?thesis
    using merge_strings_ok [of n vcs vd vnb bcs bd bnb, OF _ _ len] wf cost StringVector v
    by (auto simp: mergeVectors_def Let_def if_distrib [of "\<lambda>x. vget x _"])
qed

lemma nullVector_ok:
  "VType (nullVector t n) = t" "wf_vector n (nullVector t n)" "vget (nullVector t n) i = None" "vec_cost (nullVector t n) = 0"
  by (cases t; simp add: nullVector_def Let_def strs_cost_def opt_strings_def)+

end
