(* ===== verification/ExprSem.thy ===== *)
theory ExprSem
  imports Kernels
begin

text \<open>
  The meaning of expressions, one row at a time in SQL's three-valued logic, a type system for
  them, and the correctness of the vectorised evaluator: on a well-typed expression and a
  well-formed batch it returns, without error or panic, a vector whose every row is the meaning of
  the expression in that row, up to comparisons with string literals that are not in a column's dictionary,
  whose answers are described too.
\<close>

section \<open>Row semantics\<close>

definition as_bool :: "val option \<Rightarrow> bool option" where
  "as_bool v = (case v of Some (VBool b) \<Rightarrow> Some b | _ \<Rightarrow> None)"

definition col_at :: "Batch \<Rightarrow> nat \<Rightarrow> nat \<Rightarrow> val option" where
  "col_at b col i = vget (Vectors b ! col) i"

fun sem :: "Batch \<Rightarrow> nat \<Rightarrow> expr \<Rightarrow> val option" where
  "sem b i (ColumnRef name c t) = col_at b (nat c) i"
| "sem b i (LiteralExpr v t) = Some v"
| "sem b i (CastIntToFloatExpr e) = map_option (\<lambda>v. case v of VInt x \<Rightarrow> VFloat (f_of_int64 x) | _ \<Rightarrow> v) (sem b i e)"
| "sem b i (BinOp op l r t) = lift2 (\<lambda>x y. if is_cmp op then Some (VBool (cmp_val op x y)) else arith_val op x y)
     (sem b i l) (sem b i r)"
| "sem b i (AndExpr cs) = map_option VBool (foldl and3 (Some True) (map (\<lambda>c. as_bool (sem b i c)) cs))"
| "sem b i (OrExpr cs) = map_option VBool (foldl or3 (Some False) (map (\<lambda>c. as_bool (sem b i c)) cs))"
| "sem b i (NotExpr e) = map_option VBool (not3 (as_bool (sem b i e)))"
| "sem b i (IsNullExpr e) = Some (VBool (sem b i e = None))"
| "sem b i (IsNotNullExpr e) = Some (VBool (sem b i e \<noteq> None))"
| "sem b i (InExpr e lits hasNull) = map_option VBool (Option.bind (sem b i e) (in3 lits hasNull))"
| "sem b i (LikeExpr e pattern) = map_option (\<lambda>v. case v of VString s \<Rightarrow> VBool (like pattern s) | _ \<Rightarrow> v) (sem b i e)"
| "sem b i (BetweenExpr c lo hi) = map_option VBool (and3
     (as_bool (lift2 (\<lambda>x y. Some (VBool (cmp_val BinGE x y))) (sem b i c) (sem b i lo)))
     (as_bool (lift2 (\<lambda>x y. Some (VBool (cmp_val BinLE x y))) (sem b i c) (sem b i hi))))"
| "sem b i (StringEqExpr col lit negate) =
     map_option (\<lambda>v. case v of VString s \<Rightarrow> VBool ((s = lit) \<noteq> negate) | _ \<Rightarrow> v) (col_at b col i)"
| "sem b i (CaseExpr ws els t) =
     foldr (\<lambda>(c, r) rest. if c = Some True then r else rest)
       (map (\<lambda>w. (as_bool (sem b i (fst w)), sem b i (snd w))) ws)
       (case els of None \<Rightarrow> None | Some e \<Rightarrow> sem b i e)"


section \<open>Types\<close>

fun typeOf :: "DataType list \<Rightarrow> expr \<Rightarrow> DataType option" where
  "typeOf G (ColumnRef name c t) = (if 0 \<le> c \<and> nat c < length G \<and> G ! nat c = t then Some t else None)"
| "typeOf G (LiteralExpr v t) = (if val_type v = t then Some t else None)"
| "typeOf G (CastIntToFloatExpr e) = (if typeOf G e = Some TypeInt64 then Some TypeFloat64 else None)"
| "typeOf G (BinOp op l r t) = (if typeOf G l \<noteq> typeOf G r then None else case typeOf G l of None \<Rightarrow> None
     | Some lt \<Rightarrow> if is_cmp op then (if cmp_type lt then Some TypeBool else None)
                 else (if arith_type lt then Some lt else None))"
| "typeOf G (AndExpr cs) = (if \<forall>c \<in> set cs. typeOf G c = Some TypeBool then Some TypeBool else None)"
| "typeOf G (OrExpr cs) = (if \<forall>c \<in> set cs. typeOf G c = Some TypeBool then Some TypeBool else None)"
| "typeOf G (NotExpr e) = (if typeOf G e = Some TypeBool then Some TypeBool else None)"
| "typeOf G (IsNullExpr e) = (if typeOf G e \<noteq> None then Some TypeBool else None)"
| "typeOf G (IsNotNullExpr e) = (if typeOf G e \<noteq> None then Some TypeBool else None)"
| "typeOf G (InExpr e lits hasNull) = (if typeOf G e \<noteq> None then Some TypeBool else None)"
| "typeOf G (LikeExpr e pattern) = (if typeOf G e = Some TypeString then Some TypeBool else None)"
| "typeOf G (BetweenExpr c lo hi) = (case typeOf G c of None \<Rightarrow> None
     | Some t \<Rightarrow> if cmp_type t \<and> typeOf G lo = Some t \<and> typeOf G hi = Some t then Some TypeBool else None)"
| "typeOf G (StringEqExpr col lit negate) = (if col < length G \<and> G ! col = TypeString then Some TypeBool else None)"
| "typeOf G (CaseExpr ws els t) =
     (if (\<forall>w \<in> set ws. typeOf G (fst w) = Some TypeBool \<and> typeOf G (snd w) = Some t) \<and>
         (case els of None \<Rightarrow> True | Some e \<Rightarrow> typeOf G e = Some t) then Some t else None)"

text \<open>A batch of the given column types: every column is well formed over the physical rows.\<close>

definition wf_batch :: "DataType list \<Rightarrow> Batch \<Rightarrow> bool" where
  "wf_batch G b \<longleftrightarrow> length (Vectors b) = length G \<and>
     (\<forall>j < length G. VType (Vectors b ! j) = G ! j \<and> wf_vector (evalLen b) (Vectors b ! j))"

text \<open>
  Dictionary codes are 32 bits wide, and a string CASE merges dictionaries: the entries and bytes of
  all the dictionaries an expression reads have to stay below \<open>2 ^ 32\<close>.
\<close>

fun scost :: "Batch \<Rightarrow> expr \<Rightarrow> nat" where
  "scost b (ColumnRef name c t) = vec_cost (Vectors b ! nat c)"
| "scost b (LiteralExpr v t) = (case v of VString s \<Rightarrow> Suc (length s) | _ \<Rightarrow> 0)"
| "scost b (CastIntToFloatExpr e) = scost b e"
| "scost b (BinOp op l r t) = scost b l + scost b r"
| "scost b (AndExpr cs) = sum_list (map (scost b) cs)"
| "scost b (OrExpr cs) = sum_list (map (scost b) cs)"
| "scost b (NotExpr e) = scost b e"
| "scost b (IsNullExpr e) = scost b e"
| "scost b (IsNotNullExpr e) = scost b e"
| "scost b (InExpr e lits hasNull) = scost b e"
| "scost b (LikeExpr e pattern) = scost b e"
| "scost b (BetweenExpr c lo hi) = 2 * scost b c + scost b lo + scost b hi"
| "scost b (StringEqExpr col lit negate) = 0"
| "scost b (CaseExpr ws els t) = sum_list (map (\<lambda>w. scost b (fst w) + scost b (snd w)) ws) +
     (case els of None \<Rightarrow> 0 | Some e \<Rightarrow> scost b e)"

text \<open>
  The evaluator compares a string column with a literal by dictionary code. Where the literal is not in the column's
  dictionary it answers \<open>=\<close> by NULL and \<open><>\<close> by TRUE in every row, whatever the cell. Its answers are therefore
  the row semantics of an expression in which such a comparison is replaced: \<open>=\<close> by an \<^verbatim>\<open>IN (NULL)\<close>,
  \<open><>\<close> by the empty conjunction.
\<close>

definition lit_present :: "Batch \<Rightarrow> nat \<Rightarrow> string \<Rightarrow> bool" where
  "lit_present b col lit = (case Vectors b ! col of StringVector cs (Some d) nb \<Rightarrow> lit \<in> set (dict_strings d) | _ \<Rightarrow> True)"

fun as_evaluated :: "Batch \<Rightarrow> expr \<Rightarrow> expr" where
  "as_evaluated b (CastIntToFloatExpr e) = CastIntToFloatExpr (as_evaluated b e)"
| "as_evaluated b (BinOp op l r t) = BinOp op (as_evaluated b l) (as_evaluated b r) t"
| "as_evaluated b (AndExpr cs) = AndExpr (map (as_evaluated b) cs)"
| "as_evaluated b (OrExpr cs) = OrExpr (map (as_evaluated b) cs)"
| "as_evaluated b (NotExpr e) = NotExpr (as_evaluated b e)"
| "as_evaluated b (IsNullExpr e) = IsNullExpr (as_evaluated b e)"
| "as_evaluated b (IsNotNullExpr e) = IsNotNullExpr (as_evaluated b e)"
| "as_evaluated b (InExpr e lits hasNull) = InExpr (as_evaluated b e) lits hasNull"
| "as_evaluated b (LikeExpr e pattern) = LikeExpr (as_evaluated b e) pattern"
| "as_evaluated b (BetweenExpr c lo hi) = BetweenExpr (as_evaluated b c) (as_evaluated b lo) (as_evaluated b hi)"
| "as_evaluated b (StringEqExpr col lit negate) =
     (if lit_present b col lit then StringEqExpr col lit negate
      else if negate then AndExpr [] else InExpr (ColumnRef [] (int col) TypeString) [] True)"
| "as_evaluated b (CaseExpr ws els t) =
     CaseExpr (map (\<lambda>w. (as_evaluated b (fst w), as_evaluated b (snd w))) ws) (map_option (as_evaluated b) els) t"
| "as_evaluated b e = e"

text \<open>
  Exactness: every such comparison names a literal of the dictionary, or its column is free of NULLs (\<open><>\<close>) or
  all NULL (\<open>=\<close>), so that the answers are right. For a selection, which drops NULL with FALSE, an
  \<open>=\<close> under conjunctions and disjunctions only need not be exact.
\<close>

fun lits_exact :: "Batch \<Rightarrow> expr \<Rightarrow> bool" where
  "lits_exact b (CastIntToFloatExpr e) = lits_exact b e"
| "lits_exact b (BinOp op l r t) = (lits_exact b l \<and> lits_exact b r)"
| "lits_exact b (AndExpr cs) = (\<forall>c \<in> set cs. lits_exact b c)"
| "lits_exact b (OrExpr cs) = (\<forall>c \<in> set cs. lits_exact b c)"
| "lits_exact b (NotExpr e) = lits_exact b e"
| "lits_exact b (IsNullExpr e) = lits_exact b e"
| "lits_exact b (IsNotNullExpr e) = lits_exact b e"
| "lits_exact b (InExpr e lits hasNull) = lits_exact b e"
| "lits_exact b (LikeExpr e pattern) = lits_exact b e"
| "lits_exact b (BetweenExpr c lo hi) = (lits_exact b c \<and> lits_exact b lo \<and> lits_exact b hi)"
| "lits_exact b (StringEqExpr col lit negate) =
     (lit_present b col lit \<or> (\<forall>i < evalLen b. (col_at b col i = None) = (\<not> negate)))"
| "lits_exact b (CaseExpr ws els t) = ((\<forall>w \<in> set ws. lits_exact b (fst w) \<and> lits_exact b (snd w)) \<and>
     (case els of None \<Rightarrow> True | Some e \<Rightarrow> lits_exact b e))"
| "lits_exact b _ = True"

fun lits_select :: "Batch \<Rightarrow> expr \<Rightarrow> bool" where
  "lits_select b (AndExpr cs) = (\<forall>c \<in> set cs. lits_select b c)"
| "lits_select b (OrExpr cs) = (\<forall>c \<in> set cs. lits_select b c)"
| "lits_select b (StringEqExpr col lit negate) = (negate \<longrightarrow> lits_exact b (StringEqExpr col lit negate))"
| "lits_select b e = lits_exact b e"


section \<open>Correctness of evaluation\<close>

definition computes :: "Batch \<Rightarrow> expr \<Rightarrow> DataType \<Rightarrow> vector \<Rightarrow> bool" where
  "computes b e t v \<longleftrightarrow> VType v = t \<and> wf_vector (evalLen b) v \<and> vec_cost v \<le> scost b e \<and>
     (\<forall>i < evalLen b. vget v i = sem b i (as_evaluated b e))"

definition correct_at :: "DataType list \<Rightarrow> Batch \<Rightarrow> expr \<Rightarrow> bool" where
  "correct_at G b e \<longleftrightarrow> (\<forall>t. typeOf G e = Some t \<longrightarrow> scost b e < 2 ^ 32 \<longrightarrow>
     (\<exists>v. eval b e = Inr v \<and> computes b e t v))"

lemma correct_atD:
  assumes "correct_at G b e" "typeOf G e = Some t" "scost b e < 2 ^ 32"
  obtains v where "eval b e = Inr v" "VType v = t" "wf_vector (evalLen b) v" "vec_cost v \<le> scost b e"
    "\<And>i. i < evalLen b \<Longrightarrow> vget v i = sem b i (as_evaluated b e)"
  using assms by (auto simp: correct_at_def computes_def)

lemma correct_atI:
  assumes "\<And>t. typeOf G e = Some t \<Longrightarrow> scost b e < 2 ^ 32 \<Longrightarrow>
    \<exists>v. eval b e = Inr v \<and> VType v = t \<and> wf_vector (evalLen b) v \<and> vec_cost v \<le> scost b e \<and> (\<forall>i < evalLen b. vget v i = sem b i (as_evaluated b e))"
  shows "correct_at G b e"
  using assms by (auto simp: correct_at_def computes_def)

lemma vec_cost_bool [simp]: "VType v = TypeBool \<Longrightarrow> vec_cost v = 0"
  by (cases v) auto

lemma vec_cost_arith: "arith_type (VType v) \<Longrightarrow> vec_cost v = 0"
  by (cases v) (auto simp: arith_type_def)

lemma bool_vectorE:
  assumes "VType v = TypeBool" "wf_vector n v"
  obtains bits nb where "v = BoolVector bits nb n" "bitmap_bytes n \<le> length bits" "bitmap_bytes n \<le> length nb"
    "\<And>i. as_bool (vget v i) = row3 bits nb i"
  using assms by (cases v) (auto simp: row3_def as_bool_def)

lemma vget_BoolVector_row3: "vget (BoolVector bits nb n) i = map_option VBool (row3 bits nb i)"
  by (simp add: row3_def)

lemma as_bool_VBool [simp]: "as_bool (map_option VBool x) = x"
  by (cases x) (auto simp: as_bool_def)

lemma eval_bools_ok:
  assumes IH: "\<And>c. c \<in> set cs \<Longrightarrow> correct_at G b c"
    and ty: "\<And>c. c \<in> set cs \<Longrightarrow> typeOf G c = Some TypeBool \<and> scost b c < 2 ^ 32"
    and f: "\<And>l r k. k < 8 \<Longrightarrow> bit3 (f l r) k = f3 (bit3 l k) (bit3 r k)"
    and len: "length bits = bitmap_bytes (evalLen b)" "length nb = bitmap_bytes (evalLen b)"
  shows "\<exists>v. eval_bools b f err (evalLen b) (bits, nb) cs = Inr v \<and> VType v = TypeBool \<and> wf_vector (evalLen b) v \<and>
    (\<forall>i < evalLen b. vget v i = map_option VBool (foldl f3 (row3 bits nb i) (map (\<lambda>c. as_bool (sem b i (as_evaluated b c))) cs)))"
  using IH ty len
proof (induction cs arbitrary: bits nb)
  case Nil
  then show ?case by (auto simp: vget_BoolVector_row3 simp del: vget.simps)
next
  case (Cons c cs)
  let ?n = "evalLen b"
  obtain v where v: "eval b c = Inr v" "VType v = TypeBool" "wf_vector ?n v" "\<And>i. i < ?n \<Longrightarrow> vget v i = sem b i (as_evaluated b c)"
    using correct_atD [of G b c TypeBool] Cons.prems by auto
  then obtain cb cn where cv: "v = BoolVector cb cn ?n" "bitmap_bytes ?n \<le> length cb" "bitmap_bytes ?n \<le> length cn"
    "\<And>i. as_bool (vget v i) = row3 cb cn i" using bool_vectorE by metis
  obtain bits' nb' where c': "combine_bytes f ?n cb cn (bits, nb) = Inr (bits', nb')"
    "length bits' = bitmap_bytes ?n" "length nb' = bitmap_bytes ?n"
    "\<And>i. i < ?n \<Longrightarrow> row3 bits' nb' i = f3 (row3 bits nb i) (row3 cb cn i)"
    using combine_bytes_ok [of bits ?n nb cb cn f f3] Cons.prems(3,4) cv(2,3) f by auto
  have "row3 cb cn i = as_bool (sem b i (as_evaluated b c))" if "i < ?n" for i using v(4) [OF that] cv(4) by metis
  with Cons.IH [of bits' nb'] Cons.prems c' v(1) cv(1) show ?case by simp
qed

text \<open>One lemma per kind of node, given the correctness of its children.\<close>

lemma correct_ColumnRef: "wf_batch G b \<Longrightarrow> correct_at G b (ColumnRef name c t)"
  by (auto simp: correct_at_def computes_def wf_batch_def col_at_def split: if_splits)

lemma correct_Literal: "correct_at G b (LiteralExpr v t)"
proof (rule correct_atI)
  fix t' assume ty: "typeOf G (LiteralExpr v t) = Some t'" and cost: "scost b (LiteralExpr v t) < 2 ^ 32"
  have s: "length s < 2 ^ 32" if "v = VString s" for s using cost that by simp
  have "Literal_run (new_Literal v t) [evalLen b] = Inr [broadcast v (evalLen b)]"
    using Literal_run_ok [OF lit_inv_new [of v t], of "[evalLen b]"] ty s by (simp add: new_Literal_def split: if_splits)
  then have "eval b (LiteralExpr v t) = Inr (broadcast v (evalLen b))"
    by (auto simp: res_bind_eq_Inr res_map_eq_Inr)
  moreover have "vec_cost (broadcast v (evalLen b)) \<le> scost b (LiteralExpr v t)"
    using s dict_of_keys_ok(2) [of "[s]" for s] by (cases v) (auto simp: opt_strings_def strs_cost_def dict_bounded_def)
  ultimately show "\<exists>va. eval b (LiteralExpr v t) = Inr va \<and> VType va = t' \<and> wf_vector (evalLen b) va \<and>
      vec_cost va \<le> scost b (LiteralExpr v t) \<and> (\<forall>i < evalLen b. vget va i = sem b i (as_evaluated b (LiteralExpr v t)))"
    using broadcast_wf [of v, OF s] ty by (auto split: if_splits)
qed

lemma correct_Cast:
  assumes "correct_at G b e"
  shows "correct_at G b (CastIntToFloatExpr e)"
proof (rule correct_atI)
  fix t assume ty: "typeOf G (CastIntToFloatExpr e) = Some t" "scost b (CastIntToFloatExpr e) < 2 ^ 32"
  then obtain v where v: "eval b e = Inr v" "VType v = TypeInt64" "wf_vector (evalLen b) v" "\<And>i. i < evalLen b \<Longrightarrow> vget v i = sem b i (as_evaluated b e)"
    using correct_atD [OF assms, of TypeInt64] by (auto split: if_splits)
  then obtain vs nb where "v = Int64Vector vs nb" by (cases v) auto
  then show "\<exists>v. eval b (CastIntToFloatExpr e) = Inr v \<and> VType v = t \<and> wf_vector (evalLen b) v \<and>
      vec_cost v \<le> scost b (CastIntToFloatExpr e) \<and> (\<forall>i < evalLen b. vget v i = sem b i (as_evaluated b (CastIntToFloatExpr e)))"
    using v ty by (auto split: if_splits simp flip: v(4))
qed

lemma correct_BinOp:
  assumes "correct_at G b l" "correct_at G b r"
  shows "correct_at G b (BinOp op l r bt)"
proof (rule correct_atI)
  let ?n = "evalLen b"
  fix t assume ty: "typeOf G (BinOp op l r bt) = Some t" "scost b (BinOp op l r bt) < 2 ^ 32"
  then obtain lt where lt: "typeOf G l = Some lt" "typeOf G r = Some lt"
    "if is_cmp op then cmp_type lt \<and> t = TypeBool else arith_type lt \<and> t = lt"
    by (auto split: if_splits option.splits)
  obtain lv where lv: "eval b l = Inr lv" "VType lv = lt" "wf_vector ?n lv" "\<And>i. i < ?n \<Longrightarrow> vget lv i = sem b i (as_evaluated b l)"
    using correct_atD [OF assms(1) lt(1)] ty by auto
  obtain rv where rv: "eval b r = Inr rv" "VType rv = lt" "wf_vector ?n rv" "\<And>i. i < ?n \<Longrightarrow> vget rv i = sem b i (as_evaluated b r)"
    using correct_atD [OF assms(2) lt(2)] ty by auto
  show "\<exists>v. eval b (BinOp op l r bt) = Inr v \<and> VType v = t \<and> wf_vector ?n v \<and>
      vec_cost v \<le> scost b (BinOp op l r bt) \<and> (\<forall>i < ?n. vget v i = sem b i (as_evaluated b (BinOp op l r bt)))"
  proof (cases "is_cmp op")
    case True
    then show ?thesis
      using evalCmp_ok [OF lv(3) rv(3), of op] lt(3) lv rv by (auto simp: Let_def)
  next
    case False
    then show ?thesis
      using evalArith_ok [OF lv(3) rv(3), of op] lt(3) lv rv by (auto simp: Let_def vec_cost_arith)
  qed
qed

lemma sum_list_member_le: "x \<in> set xs \<Longrightarrow> f x \<le> sum_list (map f xs)" for f :: "'a \<Rightarrow> nat"
  by (simp add: member_le_sum_list)

lemma correct_And:
  assumes "\<And>c. c \<in> set cs \<Longrightarrow> correct_at G b c"
  shows "correct_at G b (AndExpr cs)"
proof (rule correct_atI)
  let ?n = "evalLen b"
  fix t assume ty: "typeOf G (AndExpr cs) = Some t" "scost b (AndExpr cs) < 2 ^ 32"
  then have each: "typeOf G c = Some TypeBool \<and> scost b c < 2 ^ 32" if "c \<in> set cs" for c
    using that sum_list_member_le [OF that, of "scost b"] by (auto split: if_splits)
  show "\<exists>v. eval b (AndExpr cs) = Inr v \<and> VType v = t \<and> wf_vector ?n v \<and>
      vec_cost v \<le> scost b (AndExpr cs) \<and> (\<forall>i < ?n. vget v i = sem b i (as_evaluated b (AndExpr cs)))"
  proof (cases cs)
    case Nil
    then show ?thesis using ty by (auto simp: Let_def setAllValid_FullBitmap split: if_splits)
  next
    case (Cons c cs')
    obtain v where v: "eval b c = Inr v" "VType v = TypeBool" "wf_vector ?n v" "\<And>i. i < ?n \<Longrightarrow> vget v i = sem b i (as_evaluated b c)"
      using correct_atD [of G b c TypeBool] assms each Cons by auto
    obtain fb fn where f: "v = BoolVector fb fn ?n" "bitmap_bytes ?n \<le> length fb" "bitmap_bytes ?n \<le> length fn"
      "\<And>i. as_bool (vget v i) = row3 fb fn i" using bool_vectorE [OF v(2,3)] by metis
    let ?z = "replicate (bitmap_bytes ?n) 0"
    have "row3 (copy_into ?z fb) (copy_into ?z fn) i = as_bool (sem b i (as_evaluated b c))" if "i < ?n" for i
      using that f(2,3) v(4) [OF that] f(4) [of i] by (simp add: row3_def valid_at_copy_into)
    with eval_bools_ok [of cs' G b and_byte and3 "copy_into ?z fb" "copy_into ?z fn" ErrAndOperand] assms each Cons and_byte_bit3
    show ?thesis using v(1) f(1) ty by (auto simp: Let_def comp_def split: if_splits)
  qed
qed

lemma correct_Or:
  assumes "\<And>c. c \<in> set cs \<Longrightarrow> correct_at G b c"
  shows "correct_at G b (OrExpr cs)"
proof (rule correct_atI)
  let ?n = "evalLen b"
  fix t assume ty: "typeOf G (OrExpr cs) = Some t" "scost b (OrExpr cs) < 2 ^ 32"
  then have each: "typeOf G c = Some TypeBool \<and> scost b c < 2 ^ 32" if "c \<in> set cs" for c
    using that sum_list_member_le [OF that, of "scost b"] by (auto split: if_splits)
  show "\<exists>v. eval b (OrExpr cs) = Inr v \<and> VType v = t \<and> wf_vector ?n v \<and>
      vec_cost v \<le> scost b (OrExpr cs) \<and> (\<forall>i < ?n. vget v i = sem b i (as_evaluated b (OrExpr cs)))"
  proof (cases cs)
    case Nil
    then show ?thesis using ty by (auto simp: Let_def setAllValid_FullBitmap split: if_splits)
  next
    case (Cons c cs')
    obtain v where v: "eval b c = Inr v" "VType v = TypeBool" "wf_vector ?n v" "\<And>i. i < ?n \<Longrightarrow> vget v i = sem b i (as_evaluated b c)"
      using correct_atD [of G b c TypeBool] assms each Cons by auto
    obtain fb fn where f: "v = BoolVector fb fn ?n" "bitmap_bytes ?n \<le> length fb" "bitmap_bytes ?n \<le> length fn"
      "\<And>i. as_bool (vget v i) = row3 fb fn i" using bool_vectorE [OF v(2,3)] by metis
    let ?z = "replicate (bitmap_bytes ?n) 0"
    have "row3 (copy_into ?z fb) (copy_into ?z fn) i = as_bool (sem b i (as_evaluated b c))" if "i < ?n" for i
      using that f(2,3) v(4) [OF that] f(4) [of i] by (simp add: row3_def valid_at_copy_into)
    with eval_bools_ok [of cs' G b or_byte or3 "copy_into ?z fb" "copy_into ?z fn" ErrOrOperand] assms each Cons or_byte_bit3
    show ?thesis using v(1) f(1) ty by (auto simp: Let_def comp_def split: if_splits)
  qed
qed

lemma correct_Not:
  assumes "correct_at G b e"
  shows "correct_at G b (NotExpr e)"
proof (rule correct_atI)
  let ?n = "evalLen b"
  fix t assume ty: "typeOf G (NotExpr e) = Some t" "scost b (NotExpr e) < 2 ^ 32"
  then obtain v where v: "eval b e = Inr v" "VType v = TypeBool" "wf_vector ?n v" "\<And>i. i < ?n \<Longrightarrow> vget v i = sem b i (as_evaluated b e)"
    using correct_atD [OF assms, of TypeBool] by (auto split: if_splits)
  obtain cb cn where c: "v = BoolVector cb cn ?n" "bitmap_bytes ?n \<le> length cb" "bitmap_bytes ?n \<le> length cn"
    "\<And>i. as_bool (vget v i) = row3 cb cn i" using bool_vectorE [OF v(2,3)] by metis
  have row: "row3 cb cn i = as_bool (sem b i (as_evaluated b e))" if "i < ?n" for i using v(4) [OF that] c(4) [of i] by simp
  show "\<exists>v. eval b (NotExpr e) = Inr v \<and> VType v = t \<and> wf_vector ?n v \<and>
      vec_cost v \<le> scost b (NotExpr e) \<and> (\<forall>i < ?n. vget v i = sem b i (as_evaluated b (NotExpr e)))"
    using not_bytes_ok [OF c(2,3)] v(1) c(1) ty row
    by (auto simp: vget_BoolVector_row3 simp del: vget.simps split: if_splits)
qed

lemma correct_IsNull:
  assumes "correct_at G b e"
  shows "correct_at G b (IsNullExpr e)" "correct_at G b (IsNotNullExpr e)"
proof -
  let ?n = "evalLen b"
  have v: "\<exists>v. eval b e = Inr v \<and> wf_vector ?n v \<and> (\<forall>i < ?n. vget v i = sem b i (as_evaluated b e))"
    if "typeOf G e \<noteq> None" "scost b e < 2 ^ 32"
    using that correct_atD [OF assms] by (metis option.exhaust)
  show "correct_at G b (IsNullExpr e)"
    by (rule correct_atI) (use v null_test_ok [of ?n _ True] in \<open>force split: if_splits\<close>)
  show "correct_at G b (IsNotNullExpr e)"
    by (rule correct_atI) (use v null_test_ok [of ?n _ False] in \<open>force split: if_splits\<close>)
qed

lemma correct_In:
  assumes "correct_at G b e"
  shows "correct_at G b (InExpr e lits hasNull)"
proof (rule correct_atI)
  let ?n = "evalLen b"
  fix t assume ty: "typeOf G (InExpr e lits hasNull) = Some t" "scost b (InExpr e lits hasNull) < 2 ^ 32"
  then obtain t' where "typeOf G e = Some t'" by (auto split: if_splits)
  then obtain v where v: "eval b e = Inr v" "wf_vector ?n v" "\<And>i. i < ?n \<Longrightarrow> vget v i = sem b i (as_evaluated b e)"
    using correct_atD [OF assms, of t'] ty by auto
  show "\<exists>v. eval b (InExpr e lits hasNull) = Inr v \<and> VType v = t \<and> wf_vector ?n v \<and>
      vec_cost v \<le> scost b (InExpr e lits hasNull) \<and> (\<forall>i < ?n. vget v i = sem b i (as_evaluated b (InExpr e lits hasNull)))"
    using eval_in_ok [OF v(2), of lits hasNull] v ty by (auto split: if_splits)
qed

lemma correct_Like:
  assumes "correct_at G b e"
  shows "correct_at G b (LikeExpr e pattern)"
proof (rule correct_atI)
  let ?n = "evalLen b"
  fix t assume ty: "typeOf G (LikeExpr e pattern) = Some t" "scost b (LikeExpr e pattern) < 2 ^ 32"
  then obtain v where v: "eval b e = Inr v" "VType v = TypeString" "wf_vector ?n v" "\<And>i. i < ?n \<Longrightarrow> vget v i = sem b i (as_evaluated b e)"
    using correct_atD [OF assms, of TypeString] by (auto split: if_splits)
  show "\<exists>v. eval b (LikeExpr e pattern) = Inr v \<and> VType v = t \<and> wf_vector ?n v \<and>
      vec_cost v \<le> scost b (LikeExpr e pattern) \<and> (\<forall>i < ?n. vget v i = sem b i (as_evaluated b (LikeExpr e pattern)))"
    using eval_like_ok [OF v(3,2), of pattern] v ty by (auto split: if_splits)
qed

lemma correct_Between:
  assumes "correct_at G b (AndExpr [BinOp BinGE c lo TypeBool, BinOp BinLE c hi TypeBool])"
  shows "correct_at G b (BetweenExpr c lo hi)"
proof -
  let ?a = "AndExpr [BinOp BinGE c lo TypeBool, BinOp BinLE c hi TypeBool]"
  have "typeOf G (BetweenExpr c lo hi) = Some t \<Longrightarrow> typeOf G ?a = Some t" for t
    by (auto split: option.splits if_splits)
  moreover have "scost b ?a = scost b (BetweenExpr c lo hi)"
    "eval b (BetweenExpr c lo hi) = eval b ?a" by auto
  moreover have "sem b i (as_evaluated b ?a) = sem b i (as_evaluated b (BetweenExpr c lo hi))" for i by simp
  ultimately show ?thesis using assms unfolding correct_at_def computes_def by metis
qed

lemma string_eq_absent:
  assumes "col < length (Vectors b)" "Vectors b ! col = StringVector cs (Some d) nb" "dict_wf d" "length (Offsets d) < 2 ^ 32"
    "length cs = evalLen b" "lit \<notin> set (dict_strings d)"
  shows "eval b (StringEqExpr col lit negate) = (let n = evalLen b; z = replicate (bitmap_bytes n) 0
    in Inr (if negate then BoolVector (FullBitmap n) (FullBitmap n) n else BoolVector z z n))"
proof -
  obtain d' where "Dictionary_Lookup d lit = Inr (None, d')"
    using dict_scan_ok [of d 0 lit] assms(3,4,6) first_index_None [of lit "dict_strings d"]
    by (auto simp: Dictionary_Lookup_def zero_plus_fun)
  then show ?thesis using assms(1,2,5) by (auto simp: eval_string_eq_def Let_def setAllValid_FullBitmap)
qed

lemma correct_StringEq:
  assumes "wf_batch G b"
  shows "correct_at G b (StringEqExpr col lit negate)"
proof (rule correct_atI)
  let ?n = "evalLen b"
  fix t assume ty: "typeOf G (StringEqExpr col lit negate) = Some t"
  then have col: "col < length (Vectors b)" "VType (Vectors b ! col) = TypeString" "wf_vector ?n (Vectors b ! col)"
    using assms by (auto simp: wf_batch_def split: if_splits)
  then obtain cs d nb where cv: "Vectors b ! col = StringVector cs d nb" by (cases "Vectors b ! col") auto
  show "\<exists>v. eval b (StringEqExpr col lit negate) = Inr v \<and> VType v = t \<and> wf_vector ?n v \<and>
      vec_cost v \<le> scost b (StringEqExpr col lit negate) \<and> (\<forall>i < ?n. vget v i = sem b i (as_evaluated b (StringEqExpr col lit negate)))"
  proof (cases d)
    case None
    then show ?thesis using col cv ty by (auto simp: eval_string_eq_def Let_def col_at_def lit_present_def split: if_splits)
  next
    case (Some d')
    show ?thesis
    proof (cases "lit \<in> set (dict_strings d')")
      case False
      have "dict_wf d'" "length (Offsets d') < 2 ^ 32" using col(3) cv Some by auto
      with False show ?thesis
        using string_eq_absent [of col b cs d' nb lit negate] col cv Some ty
        by (auto simp: lit_present_def col_at_def Let_def in3_def split: if_splits option.splits)
    next
      case True
      with Some show ?thesis
      using eval_string_eq_ok [of col "Vectors b" cs d' nb ?n lit negate] col cv ty
      by (auto simp: lit_present_def col_at_def split: if_splits)
    qed
  qed
qed

lemma eval_whens_ok:
  assumes IH: "\<And>w. w \<in> set ws \<Longrightarrow> correct_at G b (fst w) \<and> correct_at G b (snd w)"
    and ty: "\<And>w. w \<in> set ws \<Longrightarrow> typeOf G (fst w) = Some TypeBool \<and> typeOf G (snd w) = Some t"
    and base: "VType base = t" "wf_vector (evalLen b) base" "\<And>i. i < evalLen b \<Longrightarrow> vget base i = rest i"
    and cost: "vec_cost base \<le> k" "sum_list (map (\<lambda>w. scost b (fst w) + scost b (snd w)) ws) + k < 2 ^ 32"
  shows "\<exists>v. eval_whens b (evalLen b) base ws = Inr v \<and> VType v = t \<and> wf_vector (evalLen b) v \<and>
    vec_cost v \<le> sum_list (map (\<lambda>w. scost b (fst w) + scost b (snd w)) ws) + k \<and>
    (\<forall>i < evalLen b. vget v i = foldr (\<lambda>(c, r) rest. if c = Some True then r else rest)
       (map (\<lambda>w. (as_bool (sem b i (as_evaluated b (fst w))), sem b i (as_evaluated b (snd w)))) ws) (rest i))"
  using IH ty cost(2)
proof (induction ws)
  case Nil
  then show ?case using base cost(1) by simp
next
  case (Cons w ws)
  let ?n = "evalLen b"
  obtain c r where w: "w = (c, r)" by fastforce
  obtain res where res: "eval_whens b ?n base ws = Inr res" "VType res = t" "wf_vector ?n res"
    "vec_cost res \<le> sum_list (map (\<lambda>w. scost b (fst w) + scost b (snd w)) ws) + k"
    "\<And>i. i < ?n \<Longrightarrow> vget res i = foldr (\<lambda>(c, r) rest. if c = Some True then r else rest)
       (map (\<lambda>w. (as_bool (sem b i (as_evaluated b (fst w))), sem b i (as_evaluated b (snd w)))) ws) (rest i)"
    using Cons by auto
  have cr: "correct_at G b c" "correct_at G b r" "typeOf G c = Some TypeBool" "typeOf G r = Some t"
    "scost b c < 2 ^ 32" "scost b r < 2 ^ 32"
    using Cons.prems w by force+
  obtain cv where cv: "eval b c = Inr cv" "VType cv = TypeBool" "wf_vector ?n cv" "\<And>i. i < ?n \<Longrightarrow> vget cv i = sem b i (as_evaluated b c)"
    using correct_atD [OF cr(1,3,5)] by blast
  obtain cb cn where c: "cv = BoolVector cb cn ?n" "bitmap_bytes ?n \<le> length cb" "bitmap_bytes ?n \<le> length cn"
    "\<And>i. as_bool (vget cv i) = row3 cb cn i" using bool_vectorE [OF cv(2,3)] by metis
  obtain rv where rv: "eval b r = Inr rv" "VType rv = t" "wf_vector ?n rv" "vec_cost rv \<le> scost b r" "\<And>i. i < ?n \<Longrightarrow> vget rv i = sem b i (as_evaluated b r)"
    using correct_atD [OF cr(2,4,6)] by blast
  have "vec_cost res + vec_cost rv < 2 ^ 32" using res(4) rv(4) Cons.prems(3) w by simp
  then obtain v where "mergeVectors cb cn rv res ?n = Inr v" "VType v = t" "wf_vector ?n v"
    "vec_cost v \<le> vec_cost res + vec_cost rv"
    "\<forall>i < ?n. vget v i = (if row3 cb cn i = Some True then vget rv i else vget res i)"
    using mergeVectors_ok [OF rv(3) res(3) _ c(2,3)] rv(2) res(2) by auto
  moreover have "row3 cb cn i = as_bool (sem b i (as_evaluated b c))" if "i < ?n" for i using cv(4) [OF that] c(4) [of i] by simp
  ultimately show ?case using w res cv(1) c(1) rv by auto
qed

lemma correct_Case:
  assumes ws: "\<And>w. w \<in> set ws \<Longrightarrow> correct_at G b (fst w) \<and> correct_at G b (snd w)"
    and els: "\<And>e. els = Some e \<Longrightarrow> correct_at G b e"
  shows "correct_at G b (CaseExpr ws els ct)"
proof (rule correct_atI)
  let ?n = "evalLen b"
  fix t assume ty: "typeOf G (CaseExpr ws els ct) = Some t" "scost b (CaseExpr ws els ct) < 2 ^ 32"
  let ?rest = "\<lambda>i. case els of None \<Rightarrow> None | Some e \<Rightarrow> sem b i (as_evaluated b e)"
  let ?k = "case els of None \<Rightarrow> 0 | Some e \<Rightarrow> scost b e"
  have t: "t = ct" using ty(1) by (simp split: if_splits)
  obtain base where base: "(case els of Some e \<Rightarrow> eval b e | None \<Rightarrow> Inr (nullVector ct ?n)) = Inr base"
    "VType base = ct" "wf_vector ?n base" "\<And>i. i < ?n \<Longrightarrow> vget base i = ?rest i" "vec_cost base \<le> ?k"
  proof (cases els)
    case None
    then show thesis using that [of "nullVector ct ?n"] nullVector_ok by simp
  next
    case (Some e)
    obtain v where "eval b e = Inr v" "VType v = ct" "wf_vector ?n v" "vec_cost v \<le> scost b e" "\<And>i. i < ?n \<Longrightarrow> vget v i = sem b i (as_evaluated b e)"
      using correct_atD [OF els [OF Some], of ct] ty Some by (auto split: if_splits)
    then show thesis using that [of v] Some by simp
  qed
  have wty: "typeOf G (fst w) = Some TypeBool \<and> typeOf G (snd w) = Some ct"
    if "w \<in> set ws" for w using ty that by (auto split: if_splits)
  show "\<exists>v. eval b (CaseExpr ws els ct) = Inr v \<and> VType v = t \<and> wf_vector ?n v \<and>
      vec_cost v \<le> scost b (CaseExpr ws els ct) \<and> (\<forall>i < ?n. vget v i = sem b i (as_evaluated b (CaseExpr ws els ct)))"
    using eval_whens_ok [of ws G b ct base ?rest ?k, OF ws wty base(2,3,4,5)] base(1) ty(2) t
    by (cases els) (simp_all add: Let_def comp_def)
qed

lemma eval_correct_at:
  assumes "wf_batch G b"
  shows "correct_at G b e"
proof (induction e rule: measure_induct_rule [of ew])
  case (less e)
  show ?case
  proof (cases e)
    case (AndExpr cs)
    have "ew c < ew e" if "c \<in> set cs" for c
      using that sum_list_member_le [OF that, of "\<lambda>c. Suc (ew c)"] AndExpr by simp
    then show ?thesis using correct_And less AndExpr by blast
  next
    case (OrExpr cs)
    have "ew c < ew e" if "c \<in> set cs" for c
      using that sum_list_member_le [OF that, of "\<lambda>c. Suc (ew c)"] OrExpr by simp
    then show ?thesis using correct_Or less OrExpr by blast
  next
    case (CaseExpr ws els t)
    have "ew (fst w) < ew e" "ew (snd w) < ew e" if "w \<in> set ws" for w
      using sum_list_member_le [OF that, of "\<lambda>(c, r). Suc (ew c + ew r)"] CaseExpr by (auto split: prod.splits)
    moreover have "ew e' < ew e" if "els = Some e'" for e' using that CaseExpr by simp
    ultimately show ?thesis using correct_Case [of ws G b els] less CaseExpr by blast
  next
    case (BetweenExpr c lo hi)
    then show ?thesis using correct_Between less by simp
  qed (use assms less correct_ColumnRef correct_Literal correct_Cast correct_BinOp correct_Not correct_IsNull
      correct_In correct_Like correct_StringEq in auto)
qed

text \<open>Where the comparisons are exact the answers are those of the expression as it is written.\<close>

lemma as_bool_True [simp]: "as_bool v = Some True \<longleftrightarrow> v = Some (VBool True)"
  by (auto simp: as_bool_def split: option.splits val.splits)

lemma absent_cell:
  assumes "wf_batch G b" "col < length G" "G ! col = TypeString" "\<not> lit_present b col lit" "i < evalLen b"
  shows "col_at b col i \<noteq> Some (VString lit) \<and> (\<exists>s. col_at b col i = None \<or> col_at b col i = Some (VString s))"
proof -
  have "VType (Vectors b ! col) = TypeString" "wf_vector (evalLen b) (Vectors b ! col)"
    using assms(1-3) by (simp_all add: wf_batch_def)
  then show ?thesis using assms(4,5) by (cases "Vectors b ! col") (auto simp: col_at_def lit_present_def split: option.splits if_splits)
qed

lemma sem_StringEq_exact:
  assumes "wf_batch G b" "typeOf G (StringEqExpr col lit negate) = Some t" "i < evalLen b"
    "\<not> lit_present b col lit" "(col_at b col i = None) = (\<not> negate)"
  shows "sem b i (as_evaluated b (StringEqExpr col lit negate)) = sem b i (StringEqExpr col lit negate)"
  using absent_cell [OF assms(1) _ _ assms(4,3)] assms(2,4,5) by (auto split: if_splits)

lemma sem_as_evaluated:
  assumes "wf_batch G b" "typeOf G e = Some t" "lits_exact b e" "i < evalLen b"
  shows "sem b i (as_evaluated b e) = sem b i e"
  using assms(2,3)
proof (induction e arbitrary: t rule: measure_induct_rule [of ew])
  case (less e)
  show ?case
  proof (cases e)
    case (AndExpr cs)
    have "sem b i (as_evaluated b c) = sem b i c" if "c \<in> set cs" for c
      using less.IH [of c] less.prems that AndExpr sum_list_member_le [OF that, of "\<lambda>c. Suc (ew c)"] by (auto split: if_splits)
    then show ?thesis using AndExpr by (simp add: comp_def cong: map_cong)
  next
    case (OrExpr cs)
    have "sem b i (as_evaluated b c) = sem b i c" if "c \<in> set cs" for c
      using less.IH [of c] less.prems that OrExpr sum_list_member_le [OF that, of "\<lambda>c. Suc (ew c)"] by (auto split: if_splits)
    then show ?thesis using OrExpr by (simp add: comp_def cong: map_cong)
  next
    case (CaseExpr ws els ct)
    have "sem b i (as_evaluated b (fst w)) = sem b i (fst w) \<and> sem b i (as_evaluated b (snd w)) = sem b i (snd w)" if "w \<in> set ws" for w
      using less.IH [of "fst w"] less.IH [of "snd w"] less.prems that CaseExpr
        sum_list_member_le [OF that, of "\<lambda>(c, r). Suc (ew c + ew r)"] by (auto split: if_splits prod.splits)
    moreover have "sem b i (as_evaluated b x) = sem b i x" if "els = Some x" for x
      using less.IH [of x] less.prems that CaseExpr by (auto split: if_splits)
    ultimately show ?thesis using CaseExpr by (cases els) (simp_all add: comp_def cong: map_cong)
  next
    case (StringEqExpr col lit negate)
    show ?thesis
    proof (cases "lit_present b col lit")
      case False
      then show ?thesis using sem_StringEq_exact [OF assms(1) _ assms(4)] less.prems StringEqExpr assms(4) by simp
    qed (use StringEqExpr in simp)
  qed (use less in \<open>force split: if_splits option.splits\<close>)+
qed

lemma and3_True [simp]: "and3 x y = Some True \<longleftrightarrow> x = Some True \<and> y = Some True"
  by (induction x y rule: and3.induct) auto

lemma or3_True [simp]: "or3 x y = Some True \<longleftrightarrow> x = Some True \<or> y = Some True"
  by (induction x y rule: or3.induct) auto

lemma foldl_and3_True: "foldl and3 x ys = Some True \<longleftrightarrow> x = Some True \<and> (\<forall>y \<in> set ys. y = Some True)"
  by (induction ys arbitrary: x) auto

lemma foldl_or3_True: "foldl or3 x ys = Some True \<longleftrightarrow> x = Some True \<or> Some True \<in> set ys"
  by (induction ys arbitrary: x) auto

lemma map_VBool_True: "map_option VBool x = Some (VBool True) \<longleftrightarrow> x = Some True"
  by (cases x) auto

lemma selects_as_evaluated:
  assumes "wf_batch G b" "typeOf G e = Some t" "lits_select b e" "i < evalLen b"
  shows "sem b i (as_evaluated b e) = Some (VBool True) \<longleftrightarrow> sem b i e = Some (VBool True)"
  using assms
proof (induction b e arbitrary: t rule: lits_select.induct)
  case (1 b cs)
  then show ?case by (simp add: map_VBool_True foldl_and3_True del: map_option_eq_Some split: if_splits)
next
  case (2 b cs)
  then show ?case by (simp add: map_VBool_True foldl_or3_True image_iff eq_commute [of "Some True"] del: map_option_eq_Some split: if_splits)
next
  case (3 b col lit negate)
  show ?case
  proof (cases "negate \<or> lit_present b col lit")
    case True
    then have "lits_exact b (StringEqExpr col lit negate)" using "3.prems" by auto
    then show ?thesis using sem_as_evaluated "3.prems" by metis
  next
    case False
    then show ?thesis using absent_cell [of G b col lit i] "3.prems" by (auto simp: in3_def split: if_splits)
  qed
qed (metis lits_select.simps sem_as_evaluated)+

section \<open>Selection vectors\<close>

lemma fold_res_filter:
  assumes "\<And>x. x \<in> set xs \<Longrightarrow> keep x = Inr (p x)"
  shows "fold_res (\<lambda>out x. res_map (\<lambda>t. if t then out @ [f x] else out) (keep x)) acc xs = Inr (acc @ map f (filter p xs))"
  using assms by (induction xs arbitrary: acc) auto

lemma BoolToSelVecInto_ok:
  assumes "bitmap_bytes n \<le> length bits" "bitmap_bytes n \<le> length nb" "\<forall>s. SelVec b = Some s \<longrightarrow> (\<forall>i \<in> set s. unat i < n)"
  shows "BoolToSelVecInto b bits nb n = Inr (case SelVec b of
     None \<Rightarrow> map of_nat (filter (\<lambda>i. row3 bits nb i = Some True) [0..<n])
   | Some s \<Rightarrow> filter (\<lambda>i. row3 bits nb (unat i) = Some True) s)"
proof (cases "SelVec b")
  case None
  then show ?thesis
    using fold_res_filter [of "[0..<n]" "cond_true bits nb" "\<lambda>i. row3 bits nb i = Some True" of_nat "[]"]
      cond_true_ok [OF _ assms(1,2)] by (simp add: BoolToSelVecInto_def)
next
  case (Some s)
  then show ?thesis
    using fold_res_filter [of s "\<lambda>i. cond_true bits nb (unat i)" "\<lambda>i. row3 bits nb (unat i) = Some True" "\<lambda>i. i" "[]"]
      cond_true_ok [OF _ assms(1,2)] assms(3) by (simp add: BoolToSelVecInto_def)
qed


section \<open>Properties\<close>

text \<open>
  C1: the vectorised evaluator is correct. On a batch whose columns are well formed, and for an expression that is well
  typed over them and reads dictionaries of less than \<open>2 ^ 32\<close> entries and bytes in all (codes have 32 bits), evaluation
  succeeds without error or panic and yields a vector of the expression's type with one cell per physical row of the
  batch. If every string literal the expression compares by dictionary code is in the dictionary of its column, or is
  compared by \<open><>\<close> with a column without NULLs, or by \<open>=\<close> with one of NULLs only, each cell is the SQL meaning of
  the expression in that row: three-valued AND, OR, NOT, IN and BETWEEN, NULL propagation, division by zero as NULL, LIKE
  wildcards, first matching CASE branch. In every case each cell is the SQL meaning of the expression in which an
  \<open>=\<close> with an absent literal is NULL and a \<open><>\<close> with an absent literal is TRUE.
\<close>

theorem eval_correct:
  assumes "wf_batch G b" "typeOf G e = Some t" "scost b e < 2 ^ 32"
  shows "\<exists>v. eval b e = Inr v \<and> VType v = t \<and> wf_vector (evalLen b) v \<and>
    (lits_exact b e \<longrightarrow> (\<forall>i < evalLen b. vget v i = sem b i e)) \<and>
    (\<forall>i < evalLen b. vget v i = sem b i (as_evaluated b e))"
  using eval_correct_at [OF assms(1), of e] sem_as_evaluated [OF assms(1,2)] assms(2,3)
  by (auto simp: correct_at_def computes_def)

definition ex_batch :: Batch where
  "ex_batch = \<lparr>BSchema = [], Vectors = [Int64Vector [5, 0, 9] [5]], BLength = 3, SelVec = None\<rparr>"

lemma ex_batch_wf: "wf_batch [TypeInt64] ex_batch" "evalLen ex_batch = 3"
  by (simp_all add: wf_batch_def ex_batch_def evalLen_def)

theorem eval_correct_witness:
  "\<exists>v. eval ex_batch (NotExpr (AndExpr [BinOp BinGT (ColumnRef ''x'' 0 TypeInt64) (LiteralExpr (VInt 6) TypeInt64) TypeBool,
       IsNotNullExpr (ColumnRef ''x'' 0 TypeInt64)])) = Inr v \<and>
     vget v 0 = Some (VBool True) \<and> vget v 1 = Some (VBool True) \<and> vget v 2 = Some (VBool False)"
proof -
  let ?x = "ColumnRef ''x'' 0 TypeInt64"
  let ?e = "NotExpr (AndExpr [BinOp BinGT ?x (LiteralExpr (VInt 6) TypeInt64) TypeBool, IsNotNullExpr ?x])"
  have bits: "valid_at [5] 0" "\<not> valid_at [5] (Suc 0)" "valid_at [5] 2" by code_simp+
  have ty: "typeOf [TypeInt64] ?e = Some TypeBool" by (simp add: cmp_type_def)
  have rows: "sem ex_batch 0 ?e = Some (VBool True)" "sem ex_batch 1 ?e = Some (VBool True)" "sem ex_batch 2 ?e = Some (VBool False)"
    using bits by (simp_all add: ex_batch_def col_at_def as_bool_def not3_def lift2_def)
  obtain v where "eval ex_batch ?e = Inr v" "\<forall>i < 3. vget v i = sem ex_batch i ?e"
    using eval_correct [OF ex_batch_wf(1) ty] ex_batch_wf(2) by (auto simp: ex_batch_def)
  then show ?thesis using rows by (metis less_numeral_extra(1) numeral_2_eq_2 numeral_3_eq_3 lessI less_SucI One_nat_def zero_less_Suc)
qed

text \<open>
  C31: \<^verbatim>\<open>LIKE\<close> matches exactly the strings that the pattern denotes, with the percent sign for any
  string and the underscore for any one character.
\<close>

theorem likeMatch_correct: "likeMatch pattern s \<longleftrightarrow> like pattern s"
  by (simp add: likeMatch_def likeMatchRec_like)

text \<open>
  C26: filtering keeps exactly the rows that are TRUE. For a predicate that is well typed over the batch (its dictionaries
  within 32-bit codes), evaluation yields a BOOL vector, and the selection vector made of it is the list of the already
  selected rows (all rows, if there is no selection) in which the predicate's SQL meaning is TRUE; FALSE and NULL rows are
  dropped. Comparisons of a string column with a literal that is not in its dictionary are allowed where the predicate
  is built of \<open>=\<close> by AND and OR; elsewhere (\<open><>\<close>, under NOT or CASE) they have to be exact, as in the
  correctness of evaluation.
\<close>

theorem BoolToSelVec_correct:
  assumes "wf_batch G b" "typeOf G e = Some TypeBool" "lits_select b e" "scost b e < 2 ^ 32"
    and "\<forall>s. SelVec b = Some s \<longrightarrow> (\<forall>i \<in> set s. unat i < evalLen b)"
  shows "\<exists>bits nb. eval b e = Inr (BoolVector bits nb (evalLen b)) \<and>
    BoolToSelVec b bits nb (evalLen b) = Inr (case SelVec b of
      None \<Rightarrow> map of_nat (filter (\<lambda>i. sem b i e = Some (VBool True)) [0..<evalLen b])
    | Some s \<Rightarrow> filter (\<lambda>i. sem b (unat i) e = Some (VBool True)) s)"
proof -
  let ?n = "evalLen b"
  obtain v where v: "eval b e = Inr v" "VType v = TypeBool" "wf_vector ?n v" "\<forall>i < ?n. vget v i = sem b i (as_evaluated b e)"
    using eval_correct_at [OF assms(1), of e] assms(2,4) by (auto simp: correct_at_def computes_def)
  obtain bits nb where bv: "v = BoolVector bits nb ?n" "bitmap_bytes ?n \<le> length bits" "bitmap_bytes ?n \<le> length nb"
    using bool_vectorE [OF v(2,3)] by metis
  have "row3 bits nb i = Some True \<longleftrightarrow> sem b i e = Some (VBool True)" if "i < ?n" for i
    using v(4) that bv(1) selects_as_evaluated [OF assms(1-3) that] by (auto simp: row3_def)
  then show ?thesis
    using BoolToSelVecInto_ok [OF bv(2,3) assms(5)] v(1) bv(1) assms(5)
    by (auto simp: BoolToSelVec_def intro!: filter_cong map_cong split: option.splits)
qed

theorem BoolToSelVec_correct_witness:
  "\<exists>bits nb. eval ex_batch (IsNotNullExpr (ColumnRef ''x'' 0 TypeInt64)) = Inr (BoolVector bits nb 3) \<and>
    BoolToSelVec ex_batch bits nb 3 = Inr [0, 2]"
proof -
  let ?e = "IsNotNullExpr (ColumnRef ''x'' 0 TypeInt64)"
  have bits: "valid_at [5] 0" "\<not> valid_at [5] (Suc 0)" "valid_at [5] (Suc (Suc 0))" by code_simp+
  have "filter (\<lambda>i. sem ex_batch i ?e = Some (VBool True)) [0..<3] = [0, 2]"
    using bits by (simp add: ex_batch_def col_at_def upt_conv_Cons numeral_3_eq_3 numeral_2_eq_2)
  moreover have h: "typeOf [TypeInt64] ?e = Some TypeBool" "lits_select ex_batch ?e" "scost ex_batch ?e < 2 ^ 32"
    "SelVec ex_batch = None" by (simp_all add: ex_batch_def)
  ultimately show ?thesis
    using BoolToSelVec_correct [OF ex_batch_wf(1) h(1-3), unfolded ex_batch_wf(2) h(4)] by simp
qed

text \<open>
  C32: string equality on a literal that is not in the column's dictionary does not follow the row
  semantics. The equality evaluates to NULL in every row, also where the column is not NULL and
  the answer is FALSE, so that its negation is not TRUE there; the inequality evaluates to TRUE in every
  row, also where the column is NULL.
\<close>

theorem StringEq_absent:
  assumes "wf_batch G b" "col < length G" "Vectors b ! col = StringVector cs (Some d) nb" "lit \<notin> set (dict_strings d)"
  shows "\<exists>veq vne vnot. eval b (StringEqExpr col lit False) = Inr veq \<and> eval b (StringEqExpr col lit True) = Inr vne \<and>
    eval b (NotExpr (StringEqExpr col lit False)) = Inr vnot \<and>
    (\<forall>i < evalLen b. vget veq i = None \<and> vget vne i = Some (VBool True) \<and> vget vnot i = None)"
proof -
  let ?n = "evalLen b" and ?z = "replicate (bitmap_bytes (evalLen b)) 0 :: byte list"
  have wf: "wf_vector ?n (StringVector cs (Some d) nb)" "col < length (Vectors b)" using assms by (auto simp: wf_batch_def)
  have eq: "eval b (StringEqExpr col lit False) = Inr (BoolVector ?z ?z ?n)"
    and ne: "eval b (StringEqExpr col lit True) = Inr (BoolVector (FullBitmap ?n) (FullBitmap ?n) ?n)"
    using string_eq_absent [OF wf(2) assms(3) _ _ _ assms(4)] wf(1) by (simp_all add: Let_def)
  obtain bits nb' where "not_bytes ?z ?z ?n = Inr (bits, nb')" "\<forall>i < ?n. row3 bits nb' i = not3 (row3 ?z ?z i)"
    using not_bytes_ok [of ?n ?z ?z] by auto
  then have "eval b (NotExpr (StringEqExpr col lit False)) = Inr (BoolVector bits nb' ?n)"
    "\<forall>i < ?n. vget (BoolVector bits nb' ?n) i = None"
    using eq by (auto simp: row3_def not3_def split: if_splits)
  then show ?thesis using eq ne by auto
qed

theorem StringEq_absent_witness:
  "\<exists>vnot. eval \<lparr>BSchema = [], Vectors = [StringVector [0] (Some (dict_of_keys [''a''])) [1]], BLength = 1, SelVec = None\<rparr>
      (NotExpr (StringEqExpr 0 ''b'' False)) = Inr vnot \<and> vget vnot 0 = None"
proof -
  let ?b = "\<lparr>BSchema = [], Vectors = [StringVector [0] (Some (dict_of_keys [''a''])) [1]], BLength = 1, SelVec = None\<rparr>"
  have d: "dict_wf (dict_of_keys [''a''])" "dict_strings (dict_of_keys [''a'']) = [''a'']" "length (Offsets (dict_of_keys [''a''])) = 1"
    using dict_of_keys_ok [of "[''a'']"] by (simp_all add: dict_bounded_def) (simp add: dict_of_keys_def)
  have "wf_batch [TypeString] ?b" using d by (simp add: wf_batch_def evalLen_def)
  from StringEq_absent [OF this, of 0 "[0]" "dict_of_keys [''a'']" "[1]" "''b''"] d show ?thesis
    by (auto simp: evalLen_def)
qed

end
