(* ===== verification/Lexer.thy ===== *)
theory Lexer
  imports Float64
begin

text \<open>
  The SQL lexer (\<^verbatim>\<open>sql/lexer.go\<close>): a cursor into the source text and one token of lookahead. Every
  operation returns the lexer it leaves behind, also when it fails: \<^verbatim>\<open>scan\<close> has moved the cursor by
  then, and the parser goes on from there wherever it drops the error of \<^verbatim>\<open>Peek\<close>.
\<close>

section \<open>Tokens\<close>

datatype TokenKind =
    TokEOF | TokIdent | TokInt | TokFloat | TokString
  | TokLParen | TokRParen | TokComma | TokDot | TokStar | TokSemicolon
  | TokEQ | TokNE | TokLT | TokLE | TokGT | TokGE | TokPlus | TokMinus | TokSlash
  | TokSELECT | TokFROM | TokWHERE | TokGROUP | TokBY | TokORDER | TokLIMIT | TokAS | TokAND | TokOR
  | TokNOT | TokIN | TokIS | TokNULL | TokTRUE | TokFALSE | TokBETWEEN | TokLIKE | TokCASE | TokWHEN
  | TokTHEN | TokELSE | TokEND | TokDISTINCT | TokASC | TokDESC | TokINNER | TokJOIN | TokON | TokLEFT
  | TokRIGHT | TokOUTER | TokCROSS | TokHAVING | TokOFFSET | TokUNION | TokINTERSECT | TokEXCEPT

definition keyword_table :: "(string \<times> TokenKind) list" where
  "keyword_table = [
    (''SELECT'', TokSELECT), (''FROM'', TokFROM), (''WHERE'', TokWHERE), (''GROUP'', TokGROUP), (''BY'', TokBY),
    (''ORDER'', TokORDER), (''LIMIT'', TokLIMIT), (''AS'', TokAS), (''AND'', TokAND), (''OR'', TokOR),
    (''NOT'', TokNOT), (''IN'', TokIN), (''IS'', TokIS), (''NULL'', TokNULL), (''TRUE'', TokTRUE),
    (''FALSE'', TokFALSE), (''BETWEEN'', TokBETWEEN), (''LIKE'', TokLIKE), (''CASE'', TokCASE), (''WHEN'', TokWHEN),
    (''THEN'', TokTHEN), (''ELSE'', TokELSE), (''END'', TokEND), (''DISTINCT'', TokDISTINCT), (''ASC'', TokASC),
    (''DESC'', TokDESC), (''INNER'', TokINNER), (''JOIN'', TokJOIN), (''ON'', TokON), (''LEFT'', TokLEFT),
    (''RIGHT'', TokRIGHT), (''OUTER'', TokOUTER), (''CROSS'', TokCROSS), (''HAVING'', TokHAVING),
    (''OFFSET'', TokOFFSET), (''UNION'', TokUNION), (''INTERSECT'', TokINTERSECT), (''EXCEPT'', TokEXCEPT)]"

text \<open>\<^verbatim>\<open>tok.Kind >= TokSELECT\<close>: the keywords come last in the enumeration.\<close>

definition is_keyword :: "TokenKind \<Rightarrow> bool" where
  "is_keyword k \<longleftrightarrow> k \<in> set (map snd keyword_table)"

record Token =
  Kind :: TokenKind
  Text :: string
  Pos :: nat

definition mkTok :: "TokenKind \<Rightarrow> string \<Rightarrow> nat \<Rightarrow> Token" where
  "mkTok k s p = \<lparr>Kind = k, Text = s, Pos = p\<rparr>"

text \<open>The zero value \<^verbatim>\<open>Token{}\<close>, what a failed \<^verbatim>\<open>Peek\<close> returns beside its error.\<close>

definition zero_Token :: Token where
  "zero_Token = mkTok TokEOF [] 0"

record Lexer =
  src :: string
  pos :: nat
  peek :: "Token option"

definition NewLexer :: "string \<Rightarrow> Lexer" where
  "NewLexer s = \<lparr>src = s, pos = 0, peek = None\<rparr>"

datatype sql_error =
    UnexpectedChar char nat | UnterminatedString nat | UnterminatedIdent nat
  | ExpectedSelect Token | NotSupported Token | UnexpectedToken Token | ExpectedKind TokenKind Token
  | ExpectedIdent Token | DuplicateClause Token | CountNotInt string Token | CountRange string Token
  | IntRange string nat | BadNumber string nat | UnexpectedNot nat | FuelExhausted


section \<open>Characters\<close>

definition is_digit :: "char \<Rightarrow> bool" where
  "is_digit c \<longleftrightarrow> (48::nat) \<le> of_char c \<and> (of_char c :: nat) \<le> 57"

text \<open>
  A single byte of 128 or more decodes to the replacement character, which is no letter: the letters
  are the ASCII letters and the underscore.
\<close>

definition isLetter :: "char \<Rightarrow> bool" where
  "isLetter c \<longleftrightarrow> (65::nat) \<le> of_char c \<and> (of_char c :: nat) \<le> 90 \<or> (97::nat) \<le> of_char c \<and> (of_char c :: nat) \<le> 122 \<or> c = CHR ''_''"

definition is_space :: "char \<Rightarrow> bool" where
  "is_space c \<longleftrightarrow> c = CHR '' '' \<or> c = CHR 0x09 \<or> c = CHR 0x0A \<or> c = CHR 0x0D"

definition quote :: char where "quote = CHR 0x27"

definition to_upper :: "char \<Rightarrow> char" where
  "to_upper c = (if (97::nat) \<le> of_char c \<and> (of_char c :: nat) \<le> 122 then char_of ((of_char c :: nat) - 32) else c)"

definition ToUpper :: "string \<Rightarrow> string" where
  "ToUpper s = map to_upper s"


section \<open>Scanning loops\<close>

text \<open>Each loop is a function of the source and the cursor that returns the cursor where it stops.\<close>

function skip_line :: "string \<Rightarrow> nat \<Rightarrow> nat" where
  "skip_line s p = (if p < length s \<and> s ! p \<noteq> CHR 0x0A then skip_line s (p + 1) else p)"
  by pat_completeness auto
termination by (relation "measure (\<lambda>(s, p). length s - p)") auto

function skip_block :: "string \<Rightarrow> nat \<Rightarrow> nat" where
  "skip_block s p = (if p + 1 < length s then
     (if s ! p = CHR ''*'' \<and> s ! (p + 1) = CHR ''/'' then p + 2 else skip_block s (p + 1)) else p)"
  by pat_completeness auto
termination by (relation "measure (\<lambda>(s, p). length s - p)") auto

declare skip_line.simps [simp del] skip_block.simps [simp del]

lemma skip_line_ge: "p \<le> skip_line s p"
proof (induction s p rule: skip_line.induct)
  case (1 s p)
  then show ?case by (subst skip_line.simps) auto
qed

lemma skip_block_ge: "p \<le> skip_block s p"
proof (induction s p rule: skip_block.induct)
  case (1 s p)
  then show ?case by (subst skip_block.simps) auto
qed

function skipWhitespaceAndComments :: "string \<Rightarrow> nat \<Rightarrow> nat" where
  "skipWhitespaceAndComments s p = (if p < length s then
     (if is_space (s ! p) then skipWhitespaceAndComments s (p + 1)
      else if s ! p = CHR ''-'' \<and> p + 1 < length s \<and> s ! (p + 1) = CHR ''-''
        then skipWhitespaceAndComments s (skip_line s p)
      else if s ! p = CHR ''/'' \<and> p + 1 < length s \<and> s ! (p + 1) = CHR ''*''
        then skipWhitespaceAndComments s (skip_block s (p + 2))
      else p) else p)"
  by pat_completeness auto
termination
proof (relation "measure (\<lambda>(s, p). length s - p)", goal_cases)
  case (3 s p)
  have "Suc p \<le> skip_line s p"
    using 3 skip_line_ge [of "Suc p" s] by (subst skip_line.simps) auto
  then show ?case using 3 by auto
next
  case (4 s p)
  then show ?case using skip_block_ge [of "p + 2" s] by auto
qed auto

text \<open>\<^verbatim>\<open>scanString\<close> after the opening quote: the text and the cursor behind the closing quote, if any.\<close>

function string_loop :: "string \<Rightarrow> nat \<Rightarrow> string \<Rightarrow> string option \<times> nat" where
  "string_loop s p acc = (if p < length s then
     (if s ! p = quote then
        (if p + 1 < length s \<and> s ! (p + 1) = quote then string_loop s (p + 2) (acc @ [quote])
         else (Some acc, p + 1))
      else string_loop s (p + 1) (acc @ [s ! p])) else (None, p))"
  by pat_completeness auto
termination by (relation "measure (\<lambda>(s, p, acc). length s - p)") auto

function quoted_loop :: "string \<Rightarrow> char \<Rightarrow> nat \<Rightarrow> string \<Rightarrow> string option \<times> nat" where
  "quoted_loop s d p acc = (if p < length s then
     (if s ! p = d then (Some acc, p + 1) else quoted_loop s d (p + 1) (acc @ [s ! p])) else (None, p))"
  by pat_completeness auto
termination by (relation "measure (\<lambda>(s, d, p, acc). length s - p)") auto

function number_loop :: "string \<Rightarrow> nat \<Rightarrow> bool \<Rightarrow> nat \<times> bool" where
  "number_loop s p isFloat = (if p < length s then
     (if is_digit (s ! p) then number_loop s (p + 1) isFloat
      else if s ! p = CHR ''.'' \<and> \<not> isFloat then number_loop s (p + 1) True
      else if s ! p = CHR ''e'' \<or> s ! p = CHR ''E'' then
        (if p + 1 < length s \<and> (s ! (p + 1) = CHR ''+'' \<or> s ! (p + 1) = CHR ''-'')
         then number_loop s (p + 2) True else number_loop s (p + 1) True)
      else (p, isFloat)) else (p, isFloat))"
  by pat_completeness auto
termination by (relation "measure (\<lambda>(s, p, f). length s - p)") auto

function ident_loop :: "string \<Rightarrow> nat \<Rightarrow> nat" where
  "ident_loop s p = (if p < length s \<and> (isLetter (s ! p) \<or> is_digit (s ! p) \<or> s ! p = CHR ''_'')
     then ident_loop s (p + 1) else p)"
  by pat_completeness auto
termination by (relation "measure (\<lambda>(s, p). length s - p)") auto

declare skipWhitespaceAndComments.simps [simp del] string_loop.simps [simp del] quoted_loop.simps [simp del]
  number_loop.simps [simp del] ident_loop.simps [simp del]

definition substring :: "string \<Rightarrow> nat \<Rightarrow> nat \<Rightarrow> string" where
  "substring s a b = take (b - a) (drop a s)"


section \<open>Scanning\<close>

type_synonym scanned = "(sql_error + Token) \<times> nat"

definition scanString :: "string \<Rightarrow> nat \<Rightarrow> scanned" where
  "scanString s start = (case string_loop s (start + 1) [] of
     (Some t, p) \<Rightarrow> (Inr (mkTok TokString t start), p)
   | (None, p) \<Rightarrow> (Inl (UnterminatedString start), p))"

definition scanQuotedIdent :: "string \<Rightarrow> nat \<Rightarrow> scanned" where
  "scanQuotedIdent s start = (case quoted_loop s (s ! start) (start + 1) [] of
     (Some t, p) \<Rightarrow> (Inr (mkTok TokIdent t start), p)
   | (None, p) \<Rightarrow> (Inl (UnterminatedIdent start), p))"

definition scanNumber :: "string \<Rightarrow> nat \<Rightarrow> scanned" where
  "scanNumber s start = (case number_loop s start False of
     (p, isFloat) \<Rightarrow> (Inr (mkTok (if isFloat then TokFloat else TokInt) (substring s start p) start), p))"

definition scanIdent :: "string \<Rightarrow> nat \<Rightarrow> scanned" where
  "scanIdent s start = (
     let p = ident_loop s start; t = substring s start p; upper = ToUpper t in
     case map_of keyword_table upper of
       Some kw \<Rightarrow> (Inr (mkTok kw upper start), p)
     | None \<Rightarrow> (Inr (mkTok TokIdent t start), p))"

text \<open>The token that starts at \<open>start\<close>, where the source has a character, and the cursor after it.\<close>

definition scan_at :: "string \<Rightarrow> nat \<Rightarrow> scanned" where
  "scan_at s start = (
     let ch = s ! start; p = start + 1;
         nxt = (\<lambda>c. p < length s \<and> s ! p = c);
         tok = (\<lambda>k t. (Inr (mkTok k t start), start + length t))
     in if ch = quote then scanString s start
     else if ch = CHR 0x22 \<or> ch = CHR 0x60 then scanQuotedIdent s start
     else if is_digit ch then scanNumber s start
     else if isLetter ch then scanIdent s start
     else if ch = CHR ''('' then tok TokLParen ''(''
     else if ch = CHR '')'' then tok TokRParen '')''
     else if ch = CHR '','' then tok TokComma '',''
     else if ch = CHR ''.'' then tok TokDot ''.''
     else if ch = CHR ''*'' then tok TokStar ''*''
     else if ch = CHR '';'' then tok TokSemicolon '';''
     else if ch = CHR ''+'' then tok TokPlus ''+''
     else if ch = CHR ''-'' then tok TokMinus ''-''
     else if ch = CHR ''/'' then tok TokSlash ''/''
     else if ch = CHR ''='' then tok TokEQ ''=''
     else if ch = CHR ''<'' then
       (if nxt (CHR ''='') then tok TokLE ''<='' else if nxt (CHR ''>'') then tok TokNE ''<>'' else tok TokLT ''<'')
     else if ch = CHR ''>'' then (if nxt (CHR ''='') then tok TokGE ''>='' else tok TokGT ''>'')
     else if ch = CHR ''!'' \<and> nxt (CHR ''='') then tok TokNE ''!=''
     else (Inl (UnexpectedChar ch start), p))"

definition scan :: "Lexer \<Rightarrow> (sql_error + Token) \<times> Lexer" where
  "scan l = (let start = skipWhitespaceAndComments (src l) (pos l) in
     if length (src l) \<le> start then (Inr (mkTok TokEOF [] start), l\<lparr>pos := start\<rparr>)
     else (case scan_at (src l) start of (r, p) \<Rightarrow> (r, l\<lparr>pos := p\<rparr>)))"

definition Peek :: "Lexer \<Rightarrow> (sql_error + Token) \<times> Lexer" where
  "Peek l = (case peek l of
     Some tok \<Rightarrow> (Inr tok, l)
   | None \<Rightarrow> (case scan l of
       (Inl e, l) \<Rightarrow> (Inl e, l)
     | (Inr tok, l) \<Rightarrow> (Inr tok, l\<lparr>peek := Some tok\<rparr>)))"

definition Next :: "Lexer \<Rightarrow> (sql_error + Token) \<times> Lexer" where
  "Next l = (case peek l of
     Some tok \<Rightarrow> (Inr tok, l\<lparr>peek := None\<rparr>)
   | None \<Rightarrow> scan l)"

section \<open>Progress and bounds\<close>

lemma skip_line_le: "p \<le> length s \<Longrightarrow> skip_line s p \<le> length s"
proof (induction s p rule: skip_line.induct)
  case (1 s p)
  then show ?case by (subst skip_line.simps) auto
qed

lemma skip_block_le: "p \<le> length s \<Longrightarrow> skip_block s p \<le> length s"
proof (induction s p rule: skip_block.induct)
  case (1 s p)
  then show ?case by (subst skip_block.simps) auto
qed

lemma skipWhitespace_bounds:
  "p \<le> skipWhitespaceAndComments s p \<and> (p \<le> length s \<longrightarrow> skipWhitespaceAndComments s p \<le> length s)"
proof (induction s p rule: skipWhitespaceAndComments.induct)
  case (1 s p)
  have b: "p + 2 \<le> skip_block s (p + 2)" "p \<le> skip_line s p" using skip_block_ge skip_line_ge by blast+
  have c: "p < length s \<Longrightarrow> skip_line s p \<le> length s" "p + 1 < length s \<Longrightarrow> skip_block s (p + 2) \<le> length s"
    using skip_line_le [of p s] skip_block_le [of "p + 2" s] by auto
  let ?w = "skipWhitespaceAndComments s"
  let ?line = "s ! p = CHR ''-'' \<and> p + 1 < length s \<and> s ! (p + 1) = CHR ''-''"
  let ?block = "s ! p = CHR ''/'' \<and> p + 1 < length s \<and> s ! (p + 1) = CHR ''*''"
  note eq = skipWhitespaceAndComments.simps [of s p]
  consider "p < length s" "is_space (s ! p)" | "p < length s" "\<not> is_space (s ! p)" "?line"
    | "p < length s" "\<not> is_space (s ! p)" "\<not> ?line" "?block" | "?w p = p"
    using eq by (auto split: if_splits)
  then show ?case
  proof cases
    case 1
    then have "?w p = ?w (p + 1)" using eq by (simp only: if_True)
    then show ?thesis using "1.IH"(1) [OF 1] 1 by simp
  next
    case 2
    then have "?w p = ?w (skip_line s p)" using eq by (simp only: if_True if_False simp_thms)
    then show ?thesis using "1.IH"(2) [OF 2] b c 2 by (metis order_trans)
  next
    case 3
    then have "?w p = ?w (skip_block s (p + 2))" using eq by (simp only: if_True if_False simp_thms)
    then show ?thesis using "1.IH"(3) [OF 3] b c 3 by (metis order_trans le_add1)
  qed simp
qed

lemma string_loop_bounds: "string_loop s p acc = (r, q) \<Longrightarrow> p \<le> q \<and> (p \<le> length s \<longrightarrow> q \<le> length s)"
proof (induction s p acc arbitrary: r q rule: string_loop.induct)
  case (1 s p acc)
  show ?case using 1(3) 1(1,2) by (subst (asm) string_loop.simps) (fastforce split: if_splits)
qed

lemma quoted_loop_bounds: "quoted_loop s d p acc = (r, q) \<Longrightarrow> p \<le> q \<and> (p \<le> length s \<longrightarrow> q \<le> length s)"
proof (induction s d p acc arbitrary: r q rule: quoted_loop.induct)
  case (1 s d p acc)
  show ?case using 1(2) 1(1) by (subst (asm) quoted_loop.simps) (fastforce split: if_splits)
qed

lemma number_loop_bounds: "number_loop s p f = (q, g) \<Longrightarrow> p \<le> q \<and> (p \<le> length s \<longrightarrow> q \<le> length s)"
proof (induction s p f arbitrary: q g rule: number_loop.induct)
  case (1 s p f)
  show ?case using 1(5) 1(1-4) by (subst (asm) number_loop.simps) (fastforce split: if_splits)
qed

lemma ident_loop_bounds: "p \<le> ident_loop s p \<and> (p \<le> length s \<longrightarrow> ident_loop s p \<le> length s)"
proof (induction s p rule: ident_loop.induct)
  case (1 s p)
  then show ?case by (subst ident_loop.simps, subst (2) ident_loop.simps) auto
qed

lemma keyword_not_EOF: "map_of keyword_table s = Some k \<Longrightarrow> k \<noteq> TokEOF"
  by (drule map_of_SomeD) (auto simp: keyword_table_def)

lemma number_loop_first:
  assumes "start < length s" "is_digit (s ! start)" "number_loop s start False = (q, g)"
  shows "start < q \<and> q \<le> length s"
proof -
  have "number_loop s (start + 1) False = (q, g)" using assms by (subst (asm) number_loop.simps) simp
  then show ?thesis using number_loop_bounds [of s "start + 1" False q g] assms(1) by auto
qed

lemma ident_loop_first:
  assumes "start < length s" "isLetter (s ! start)"
  shows "start < ident_loop s start \<and> ident_loop s start \<le> length s"
proof -
  have "ident_loop s start = ident_loop s (start + 1)" using assms by (subst ident_loop.simps) simp
  then show ?thesis using ident_loop_bounds [of "start + 1" s] assms(1) by auto
qed

lemma scan_at_progress:
  assumes "start < length s" "scan_at s start = (r, p)"
  shows "start < p \<and> p \<le> length s \<and> (\<forall>t. r = Inr t \<longrightarrow> Kind t \<noteq> TokEOF)"
proof -
  have str: "scanString s start = (r, p) \<Longrightarrow> ?thesis"
    using string_loop_bounds [of s "start + 1" "[]"] assms(1)
    by (auto simp: scanString_def mkTok_def split: prod.splits option.splits)
  have quo: "scanQuotedIdent s start = (r, p) \<Longrightarrow> ?thesis"
    using quoted_loop_bounds [of s "s ! start" "start + 1" "[]"] assms(1)
    by (auto simp: scanQuotedIdent_def mkTok_def split: prod.splits option.splits)
  have num: "is_digit (s ! start) \<Longrightarrow> scanNumber s start = (r, p) \<Longrightarrow> ?thesis"
    using number_loop_first [OF assms(1)] by (auto simp: scanNumber_def mkTok_def split: prod.splits if_splits)
  have idt: "isLetter (s ! start) \<Longrightarrow> scanIdent s start = (r, p) \<Longrightarrow> ?thesis"
    using ident_loop_first [OF assms(1)] keyword_not_EOF
    by (auto simp: scanIdent_def mkTok_def Let_def split: option.splits)
  show ?thesis
    using assms str quo num idt unfolding scan_at_def Let_def by (auto simp: mkTok_def split: if_splits)
qed

lemma scan_progress:
  assumes "scan l = (r, l')"
  shows "src l' = src l" "peek l' = peek l" "pos l \<le> length (src l) \<Longrightarrow> pos l' \<le> length (src l)"
    "case r of Inl e \<Rightarrow> pos l < pos l' \<and> pos l' \<le> length (src l)
     | Inr t \<Rightarrow> if Kind t = TokEOF then pos l \<le> pos l' \<and> length (src l) \<le> pos l' else pos l < pos l' \<and> pos l' \<le> length (src l)"
proof -
  let ?st = "skipWhitespaceAndComments (src l) (pos l)"
  have b: "pos l \<le> ?st" "pos l \<le> length (src l) \<Longrightarrow> ?st \<le> length (src l)" using skipWhitespace_bounds by blast+
  have "src l' = src l \<and> peek l' = peek l \<and> (pos l \<le> length (src l) \<longrightarrow> pos l' \<le> length (src l)) \<and>
     (case r of Inl e \<Rightarrow> pos l < pos l' \<and> pos l' \<le> length (src l)
     | Inr t \<Rightarrow> if Kind t = TokEOF then pos l \<le> pos l' \<and> length (src l) \<le> pos l' else pos l < pos l' \<and> pos l' \<le> length (src l))"
  proof (cases "length (src l) \<le> ?st")
    case True
    then show ?thesis using assms b by (auto simp: scan_def Let_def mkTok_def)
  next
    case False
    obtain r' p where s: "scan_at (src l) ?st = (r', p)" by fastforce
    then have "r = r'" "l' = l\<lparr>pos := p\<rparr>" using False assms by (auto simp: scan_def Let_def)
    then show ?thesis using scan_at_progress [OF _ s] False b by (auto split: sum.splits)
  qed
  then show "src l' = src l" "peek l' = peek l" "pos l \<le> length (src l) \<Longrightarrow> pos l' \<le> length (src l)"
    "case r of Inl e \<Rightarrow> pos l < pos l' \<and> pos l' \<le> length (src l)
     | Inr t \<Rightarrow> if Kind t = TokEOF then pos l \<le> pos l' \<and> length (src l) \<le> pos l' else pos l < pos l' \<and> pos l' \<le> length (src l)"
    by blast+
qed

text \<open>
  The work a lexer has left: twice the characters ahead, and one more for a token waiting in the
  lookahead. Looking never adds work, and taking a token other than the end removes some.
\<close>

definition work :: "Lexer \<Rightarrow> nat" where
  "work l = 2 * (length (src l) - pos l) +
     (case peek l of Some t \<Rightarrow> if Kind t = TokEOF then 0 else 1 | None \<Rightarrow> 0)"

lemma scan_work:
  assumes "scan l = (r, l')" "peek l = None"
  shows "work l' \<le> work l" "r = Inr t \<Longrightarrow> Kind t \<noteq> TokEOF \<Longrightarrow> work l' + 2 \<le> work l" "r = Inl e \<Longrightarrow> work l' + 2 \<le> work l"
  using scan_progress [OF assms(1)] assms(2) by (auto simp: work_def split: sum.splits if_splits)

lemma Peek_work:
  assumes "Peek l = (r, l')"
  shows "work l' \<le> work l"
proof (cases "peek l")
  case None
  obtain r1 l1 where s: "scan l = (r1, l1)" by fastforce
  note w = scan_work [OF s None]
  show ?thesis
  proof (cases r1)
    case (Inl e)
    then show ?thesis using assms None s w by (simp add: Peek_def)
  next
    case (Inr t)
    then have l': "l' = l1\<lparr>peek := Some t\<rparr>" using assms None s by (simp add: Peek_def)
    have "peek l1 = None" using scan_progress(2) [OF s] None by simp
    then have "work l' = work l1 + (if Kind t = TokEOF then 0 else 1)" by (simp add: l' work_def)
    then show ?thesis using w(1) w(2) [OF Inr] by (cases "Kind t = TokEOF") auto
  qed
next
  case (Some t)
  then show ?thesis using assms by (simp add: Peek_def)
qed

lemma Next_work:
  assumes "Next l = (Inr t, l')"
  shows "work l' \<le> work l" "Kind t \<noteq> TokEOF \<Longrightarrow> work l' < work l"
proof -
  have "work l' \<le> work l \<and> (Kind t \<noteq> TokEOF \<longrightarrow> work l' < work l)"
  proof (cases "peek l")
    case None
    then have "scan l = (Inr t, l')" using assms by (simp add: Next_def)
    then show ?thesis using scan_work [OF _ None] by fastforce
  next
    case (Some t')
    then show ?thesis using assms by (auto simp: Next_def work_def)
  qed
  then show "work l' \<le> work l" "Kind t \<noteq> TokEOF \<Longrightarrow> work l' < work l" by auto
qed

end
