(* ===== verification/Parser.thy ===== *)
theory Parser
  imports Lexer
begin

text \<open>
  The SQL syntax tree (\<^verbatim>\<open>sql/ast.go\<close>) and the recursive-descent parser (\<^verbatim>\<open>sql/parser.go\<close>). A parser
  function takes a lexer and returns an error, or a value and the lexer after it. The functions
  of the source call each other recursively; here each takes the record \<open>R\<close> of the functions it calls
  on later input, and \<open>parsers_at\<close> ties the knot with fuel. One unit of fuel is spent per level of
  recursion, every recursive call happens after at least one token has been taken, so the work
  left in the lexer bounds the fuel that is needed: \<open>ParseStatement\<close> never runs out of it.
\<close>

section \<open>Numbers of \<^verbatim>\<open>strconv\<close>\<close>

definition digit_val :: "char \<Rightarrow> nat" where
  "digit_val c = of_char c - 48"

definition dec_val :: "string \<Rightarrow> nat" where
  "dec_val s = foldl (\<lambda>n c. 10 * n + digit_val c) 0 s"

definition ParseInt :: "string \<Rightarrow> i64 option" where
  "ParseInt s = (
     let neg = (case s of c # _ \<Rightarrow> c = CHR ''-'' | [] \<Rightarrow> False);
         ds = (case s of c # r \<Rightarrow> if c = CHR ''-'' \<or> c = CHR ''+'' then r else s | [] \<Rightarrow> s);
         v = dec_val ds
     in if ds = [] \<or> \<not> list_all is_digit ds then None
        else if neg then (if v \<le> 2 ^ 63 then Some (word_of_int (- int v)) else None)
        else (if v < 2 ^ 63 then Some (word_of_int (int v)) else None))"

text \<open>
  \<^verbatim>\<open>ParseFloat\<close> on decimal text: sign, digits with an optional point, an optional exponent. The value is
  rounded once from the exact decimal; a value that rounds to infinity is a range error.
\<close>

definition parse_exponent :: "string \<Rightarrow> int option" where
  "parse_exponent s = (case s of
     [] \<Rightarrow> Some 0
   | c # r \<Rightarrow> if c \<noteq> CHR ''e'' \<and> c \<noteq> CHR ''E'' then None
       else (let neg = (case r of d # _ \<Rightarrow> d = CHR ''-'' | [] \<Rightarrow> False);
                 ds = (case r of d # r' \<Rightarrow> if d = CHR ''-'' \<or> d = CHR ''+'' then r' else r | [] \<Rightarrow> r)
             in if ds = [] \<or> \<not> list_all is_digit ds then None
                else Some (if neg then - int (dec_val ds) else int (dec_val ds))))"

definition ParseFloat :: "string \<Rightarrow> f64 option" where
  "ParseFloat s = (
     let neg = (case s of c # _ \<Rightarrow> c = CHR ''-'' | [] \<Rightarrow> False);
         body = (case s of c # r \<Rightarrow> if c = CHR ''-'' \<or> c = CHR ''+'' then r else s | [] \<Rightarrow> s);
         ip = takeWhile is_digit body;
         r1 = dropWhile is_digit body;
         (fp, r2) = (case r1 of c # r \<Rightarrow> if c = CHR ''.'' then (takeWhile is_digit r, dropWhile is_digit r) else ([], r1) | [] \<Rightarrow> ([], r1))
     in if ip = [] \<and> fp = [] then None
        else case parse_exponent r2 of
          None \<Rightarrow> None
        | Some e \<Rightarrow> (let x = e - int (length fp);
             bits = f_round_mag (dec_val (ip @ fp) * 10 ^ nat x * 2 ^ 1074) (10 ^ nat (- x))
           in if bits = f_inf_bits then None else Some (f_make neg bits)))"


section \<open>Syntax tree\<close>

datatype SqlOp = OpEQ | OpNE | OpLT | OpLE | OpGT | OpGE | OpAnd | OpOr | OpAdd | OpSub | OpMul | OpDiv

datatype UnaryOp = OpNot | OpMinus

datatype sql_expr =
    ColumnRefExpr string string
  | StarExpr
  | IntLiteral i64
  | FloatLiteral f64
  | StringLiteral string
  | BoolLiteral bool
  | NullLiteral
  | BinaryExpr SqlOp sql_expr sql_expr
  | UnaryExpr UnaryOp sql_expr
  | IsNullE sql_expr bool
  | BetweenE sql_expr sql_expr sql_expr bool
  | InE sql_expr "sql_expr list" bool
  | LikeE sql_expr sql_expr bool
  | AggFuncExpr string "sql_expr option" bool
  | FuncExpr string "sql_expr list"
  | CaseE "(sql_expr \<times> sql_expr) list" "sql_expr option"
  | SubqueryExpr SelectStmt
and SelectStmt =
  SelectStmt (Distinct: bool) (Columns: "(sql_expr \<times> string) list") (From: "(string \<times> string) list")
    (Where: "sql_expr option") (Having: "sql_expr option") (GroupBy: "sql_expr list")
    (OrderBy: "(sql_expr \<times> bool) list") (Limit: "i64 option") (Offset: "i64 option")


section \<open>Parser primitives\<close>

type_synonym 'a parsed = "sql_error + 'a \<times> Lexer"

text \<open>\<^verbatim>\<open>tok, _ := p.peek()\<close>: the error is dropped, and the zero token is what the code goes on with.\<close>

definition look :: "Lexer \<Rightarrow> Token \<times> Lexer" where
  "look l = (case Peek l of (Inr t, l) \<Rightarrow> (t, l) | (Inl _, l) \<Rightarrow> (zero_Token, l))"

text \<open>\<^verbatim>\<open>p.next()\<close> with both results dropped.\<close>

definition skip :: "Lexer \<Rightarrow> Lexer" where
  "skip l = snd (Next l)"

definition pnext :: "Lexer \<Rightarrow> Token parsed" where
  "pnext l = (case Next l of (Inl e, _) \<Rightarrow> Inl e | (Inr t, l) \<Rightarrow> Inr (t, l))"

definition expect :: "TokenKind \<Rightarrow> Lexer \<Rightarrow> Token parsed" where
  "expect kind l = res_bind (pnext l) (\<lambda>(tok, l).
     if Kind tok \<noteq> kind then Inl (ExpectedKind kind tok) else Inr (tok, l))"

definition expectIdent :: "Lexer \<Rightarrow> Token parsed" where
  "expectIdent l = res_bind (pnext l) (\<lambda>(tok, l).
     if Kind tok = TokIdent \<or> is_keyword (Kind tok) then Inr (tok, l) else Inl (ExpectedIdent tok))"

fun precedence :: "TokenKind \<Rightarrow> nat" where
  "precedence TokOR = 1"
| "precedence TokAND = 2"
| "precedence TokNOT = 3"
| "precedence TokEQ = 4"
| "precedence TokNE = 4"
| "precedence TokLT = 5"
| "precedence TokLE = 5"
| "precedence TokGT = 5"
| "precedence TokGE = 5"
| "precedence TokIS = 6"
| "precedence TokBETWEEN = 6"
| "precedence TokLIKE = 6"
| "precedence TokIN = 6"
| "precedence TokPlus = 7"
| "precedence TokMinus = 7"
| "precedence TokStar = 8"
| "precedence TokSlash = 8"
| "precedence _ = 0"

text \<open>The twelve cases of the expression loop that build a \<^verbatim>\<open>BinaryExpr\<close>.\<close>

fun binop_of :: "TokenKind \<Rightarrow> SqlOp option" where
  "binop_of TokAND = Some OpAnd"
| "binop_of TokOR = Some OpOr"
| "binop_of TokEQ = Some OpEQ"
| "binop_of TokNE = Some OpNE"
| "binop_of TokLT = Some OpLT"
| "binop_of TokLE = Some OpLE"
| "binop_of TokGT = Some OpGT"
| "binop_of TokGE = Some OpGE"
| "binop_of TokPlus = Some OpAdd"
| "binop_of TokMinus = Some OpSub"
| "binop_of TokStar = Some OpMul"
| "binop_of TokSlash = Some OpDiv"
| "binop_of _ = None"

definition numericLiteral :: "Token \<Rightarrow> string \<Rightarrow> sql_error + sql_expr" where
  "numericLiteral tok sign = (let txt = sign @ Text tok in
     if Kind tok = TokInt then (case ParseInt txt of
         Some v \<Rightarrow> Inr (IntLiteral v) | None \<Rightarrow> Inl (IntRange txt (Pos tok)))
     else (case ParseFloat txt of
         Some v \<Rightarrow> Inr (FloatLiteral v) | None \<Rightarrow> Inl (BadNumber txt (Pos tok))))"

definition aggFuncs :: "string list" where
  "aggFuncs = [''COUNT'', ''SUM'', ''AVG'', ''MIN'', ''MAX'']"

definition parseCount :: "string \<Rightarrow> Lexer \<Rightarrow> i64 parsed" where
  "parseCount clause l = res_bind (pnext l) (\<lambda>(tok, l).
     if Kind tok \<noteq> TokInt then Inl (CountNotInt clause tok)
     else (case ParseInt (Text tok) of
         None \<Rightarrow> Inl (CountRange clause tok)
       | Some n \<Rightarrow> Inr (n, l)))"

text \<open>The optional alias behind a column or a table: \<^verbatim>\<open>AS name\<close>, or a bare identifier.\<close>

definition parse_alias :: "Lexer \<Rightarrow> string parsed" where
  "parse_alias l = (let (tok, l) = look l in
     if Kind tok = TokAS then res_map (\<lambda>(a, l). (Text a, l)) (expectIdent (skip l))
     else (let (tok, l) = look l in
       if Kind tok = TokIdent then Inr (Text tok, skip l) else Inr ([], l)))"

definition parseTableRef :: "Lexer \<Rightarrow> (string \<times> string) parsed" where
  "parseTableRef l = res_bind (expectIdent l) (\<lambda>(name, l).
     res_map (\<lambda>(a, l). ((Text name, a), l)) (parse_alias l))"


section \<open>The parser functions\<close>

record parsers =
  pExpr :: "nat \<Rightarrow> Lexer \<Rightarrow> sql_expr parsed"
  pLoop :: "nat \<Rightarrow> sql_expr \<Rightarrow> Lexer \<Rightarrow> sql_expr parsed"
  pUnary :: "Lexer \<Rightarrow> sql_expr parsed"
  pExprs :: "Lexer \<Rightarrow> sql_expr list parsed"
  pWhens :: "Lexer \<Rightarrow> (sql_expr \<times> sql_expr) list parsed"
  pSelect :: "Lexer \<Rightarrow> SelectStmt parsed"
  pColumns :: "Lexer \<Rightarrow> (sql_expr \<times> string) list parsed"
  pOrder :: "Lexer \<Rightarrow> (sql_expr \<times> bool) list parsed"
  pTables :: "Lexer \<Rightarrow> (string \<times> string) list parsed"
  pCounts :: "i64 option \<Rightarrow> i64 option \<Rightarrow> Lexer \<Rightarrow> (i64 option \<times> i64 option) parsed"

definition parseFuncCall :: "parsers \<Rightarrow> string \<Rightarrow> Lexer \<Rightarrow> sql_expr parsed" where
  "parseFuncCall R name l = res_bind (expect TokLParen l) (\<lambda>(_, l).
     if name \<in> set aggFuncs then
       (let (tok, l) = look l; distinct = (Kind tok = TokDISTINCT);
            l = (if distinct then skip l else l);
            (tok, l) = look l
        in if Kind tok = TokStar \<and> name = ''COUNT'' then
             res_map (\<lambda>(_, l). (AggFuncExpr name (Some StarExpr) distinct, l)) (expect TokRParen (skip l))
           else res_bind (pExpr R 0 l) (\<lambda>(arg, l).
             res_map (\<lambda>(_, l). (AggFuncExpr name (Some arg) distinct, l)) (expect TokRParen l)))
     else
       (let (tok, l) = look l in
        res_bind (if Kind tok \<noteq> TokRParen then pExprs R l else Inr ([], l)) (\<lambda>(args, l).
        res_map (\<lambda>(_, l). (FuncExpr name args, l)) (expect TokRParen l))))"

definition parseCaseExpr :: "parsers \<Rightarrow> Lexer \<Rightarrow> sql_expr parsed" where
  "parseCaseExpr R l = res_bind (pWhens R l) (\<lambda>(whens, l).
     let (tok, l) = look l in
     res_bind (if Kind tok = TokELSE then res_map (\<lambda>(e, l). (Some e, l)) (pExpr R 0 (skip l)) else Inr (None, l)) (\<lambda>(els, l).
     res_map (\<lambda>(_, l). (CaseE whens els, l)) (expect TokEND l)))"

definition case_loop :: "parsers \<Rightarrow> Lexer \<Rightarrow> (sql_expr \<times> sql_expr) list parsed" where
  "case_loop R l = (let (tok, l) = look l in
     if Kind tok \<noteq> TokWHEN then Inr ([], l) else
     res_bind (pExpr R 0 (skip l)) (\<lambda>(cond, l).
     res_bind (expect TokTHEN l) (\<lambda>(_, l).
     res_bind (pExpr R 0 l) (\<lambda>(result, l).
     res_map (\<lambda>(ws, l). ((cond, result) # ws, l)) (pWhens R l)))))"

definition ident_column_kinds :: "TokenKind list" where
  "ident_column_kinds = [TokSELECT, TokFROM, TokWHERE, TokGROUP, TokBY, TokORDER, TokLIMIT, TokOFFSET, TokAS,
     TokON, TokJOIN, TokINNER, TokLEFT, TokRIGHT]"

definition parsePrimary :: "parsers \<Rightarrow> Lexer \<Rightarrow> sql_expr parsed" where
  "parsePrimary R l = res_bind (pnext l) (\<lambda>(tok, l).
     case Kind tok of
       TokInt \<Rightarrow> res_map (\<lambda>e. (e, l)) (numericLiteral tok [])
     | TokFloat \<Rightarrow> res_map (\<lambda>e. (e, l)) (numericLiteral tok [])
     | TokString \<Rightarrow> Inr (StringLiteral (Text tok), l)
     | TokNULL \<Rightarrow> Inr (NullLiteral, l)
     | TokTRUE \<Rightarrow> Inr (BoolLiteral True, l)
     | TokFALSE \<Rightarrow> Inr (BoolLiteral False, l)
     | TokStar \<Rightarrow> Inr (StarExpr, l)
     | TokLParen \<Rightarrow> (let (inner, l) = look l in
         if Kind inner = TokSELECT then
           res_bind (pSelect R l) (\<lambda>(sub, l). res_map (\<lambda>(_, l). (SubqueryExpr sub, l)) (expect TokRParen l))
         else res_bind (pExpr R 0 l) (\<lambda>(e, l). res_map (\<lambda>(_, l). (e, l)) (expect TokRParen l)))
     | TokCASE \<Rightarrow> parseCaseExpr R l
     | TokIdent \<Rightarrow> (let (next, l) = look l in
         if Kind next = TokDot then
           res_bind (expectIdent (skip l)) (\<lambda>(colTok, l).
           let (paren, l) = look l in
           if Kind paren = TokLParen then parseFuncCall R (ToUpper (Text colTok)) l
           else Inr (ColumnRefExpr (Text tok) (Text colTok), l))
         else (let (next, l) = look l in
           if Kind next = TokLParen then parseFuncCall R (ToUpper (Text tok)) l
           else Inr (ColumnRefExpr [] (Text tok), l)))
     | k \<Rightarrow> if k \<in> set ident_column_kinds then Inr (ColumnRefExpr [] (Text tok), l) else Inl (UnexpectedToken tok))"

definition parseUnary :: "parsers \<Rightarrow> Lexer \<Rightarrow> sql_expr parsed" where
  "parseUnary R l = (let (tok, l) = look l in
     if Kind tok = TokNOT then res_map (\<lambda>(e, l). (UnaryExpr OpNot e, l)) (pExpr R 3 (skip l))
     else if Kind tok = TokMinus then
       (let (next, l) = look (skip l) in
        if Kind next = TokInt \<or> Kind next = TokFloat then res_map (\<lambda>e. (e, skip l)) (numericLiteral next ''-'')
        else res_map (\<lambda>(e, l). (UnaryExpr OpMinus e, l)) (pUnary R l))
     else parsePrimary R l)"

definition parseExpr :: "parsers \<Rightarrow> nat \<Rightarrow> Lexer \<Rightarrow> sql_expr parsed" where
  "parseExpr R minPrec l = res_bind (parseUnary R l) (\<lambda>(left, l). pLoop R minPrec left l)"

text \<open>LIKE, BETWEEN and IN, plain or behind NOT; \<open>other\<close> is what any other token leads to.\<close>

definition parse_tail :: "parsers \<Rightarrow> TokenKind \<Rightarrow> nat \<Rightarrow> bool \<Rightarrow> sql_expr parsed \<Rightarrow> sql_expr \<Rightarrow> Lexer \<Rightarrow> sql_expr parsed" where
  "parse_tail R kind prec neg other left l = (case kind of
     TokLIKE \<Rightarrow> res_map (\<lambda>(pattern, l). (LikeE left pattern neg, l)) (pExpr R prec l)
   | TokBETWEEN \<Rightarrow> res_bind (pExpr R prec l) (\<lambda>(lo, l).
       res_bind (expect TokAND l) (\<lambda>(_, l).
       res_map (\<lambda>(hi, l). (BetweenE left lo hi neg, l)) (pExpr R prec l)))
   | TokIN \<Rightarrow> res_bind (expect TokLParen l) (\<lambda>(_, l).
       res_bind (pExprs R l) (\<lambda>(list, l).
       res_map (\<lambda>(_, l). (InE left list neg, l)) (expect TokRParen l)))
   | _ \<Rightarrow> other)"

definition expr_loop :: "parsers \<Rightarrow> nat \<Rightarrow> sql_expr \<Rightarrow> Lexer \<Rightarrow> sql_expr parsed" where
  "expr_loop R minPrec left l = (let (tok, l) = look l; prec = precedence (Kind tok) in
     if prec \<le> minPrec then Inr (left, l) else
     (let l = skip l in
      case binop_of (Kind tok) of
        Some op \<Rightarrow> res_bind (pExpr R prec l) (\<lambda>(right, l). pLoop R minPrec (BinaryExpr op left right) l)
      | None \<Rightarrow> (case Kind tok of
          TokIS \<Rightarrow> (let (notTok, l) = look l; isNot = (Kind notTok = TokNOT); l = (if isNot then skip l else l) in
            res_bind (expect TokNULL l) (\<lambda>(_, l). pLoop R minPrec (IsNullE left isNot) l))
        | TokNOT \<Rightarrow> (let (next, l) = look l; l = skip l in
            res_bind (parse_tail R (Kind next) prec True (Inl (UnexpectedNot (Pos next))) left l) (\<lambda>(left, l). pLoop R minPrec left l))
        | k \<Rightarrow> if k \<in> {TokLIKE, TokBETWEEN, TokIN}
            then res_bind (parse_tail R k prec False (Inr (left, l)) left l) (\<lambda>(left, l). pLoop R minPrec left l)
            else Inr (left, l))))"

definition parseExprList :: "parsers \<Rightarrow> Lexer \<Rightarrow> sql_expr list parsed" where
  "parseExprList R l = res_bind (parseExpr R 0 l) (\<lambda>(e, l). let (tok, l) = look l in
     if Kind tok \<noteq> TokComma then Inr ([e], l) else res_map (\<lambda>(es, l). (e # es, l)) (pExprs R (skip l)))"

definition parseOrderByList :: "parsers \<Rightarrow> Lexer \<Rightarrow> (sql_expr \<times> bool) list parsed" where
  "parseOrderByList R l = res_bind (parseExpr R 0 l) (\<lambda>(e, l).
     let (tok, l) = look l; desc = (Kind tok = TokDESC);
         l = (if desc \<or> Kind tok = TokASC then skip l else l);
         (tok, l) = look l
     in if Kind tok \<noteq> TokComma then Inr ([(e, desc)], l)
        else res_map (\<lambda>(items, l). ((e, desc) # items, l)) (pOrder R (skip l)))"

definition parseSelectColumns :: "parsers \<Rightarrow> Lexer \<Rightarrow> (sql_expr \<times> string) list parsed" where
  "parseSelectColumns R l = (let (tok, l) = look l in
     if Kind tok \<in> {TokFROM, TokEOF, TokSemicolon} then Inr ([], l) else
     res_bind (parseExpr R 0 l) (\<lambda>(e, l).
     res_bind (parse_alias l) (\<lambda>(a, l).
     let (tok, l) = look l in
     if Kind tok \<noteq> TokComma then Inr ([(e, a)], l)
     else res_map (\<lambda>(cols, l). ((e, a) # cols, l)) (pColumns R (skip l)))))"

definition from_loop :: "parsers \<Rightarrow> Lexer \<Rightarrow> (string \<times> string) list parsed" where
  "from_loop R l = res_bind (parseTableRef l) (\<lambda>(ref, l). let (tok, l) = look l in
     if Kind tok \<noteq> TokComma then Inr ([ref], l) else res_map (\<lambda>(refs, l). (ref # refs, l)) (pTables R (skip l)))"

text \<open>LIMIT and OFFSET in either order, each at most once.\<close>

definition count_loop :: "parsers \<Rightarrow> i64 option \<Rightarrow> i64 option \<Rightarrow> Lexer \<Rightarrow> (i64 option \<times> i64 option) parsed" where
  "count_loop R lim off l = (let (tok, l) = look l in
     if Kind tok = TokLIMIT then
       (if lim \<noteq> None then Inl (DuplicateClause tok)
        else res_bind (parseCount (ToUpper (Text tok)) (skip l)) (\<lambda>(n, l). pCounts R (Some n) off l))
     else if Kind tok = TokOFFSET then
       (if off \<noteq> None then Inl (DuplicateClause tok)
        else res_bind (parseCount (ToUpper (Text tok)) (skip l)) (\<lambda>(n, l). pCounts R lim (Some n) l))
     else Inr ((lim, off), l))"

text \<open>An optional clause: if the next token has that kind, it is taken and \<open>p\<close> parses the rest.\<close>

definition clause :: "TokenKind \<Rightarrow> 'a \<Rightarrow> (Lexer \<Rightarrow> 'a parsed) \<Rightarrow> Lexer \<Rightarrow> 'a parsed" where
  "clause kind absent p l = (let (tok, l) = look l in if Kind tok = kind then p (skip l) else Inr (absent, l))"

definition parseSelect :: "parsers \<Rightarrow> Lexer \<Rightarrow> SelectStmt parsed" where
  "parseSelect R l =
     res_bind (expect TokSELECT l) (\<lambda>(_, l).
     res_bind (clause TokDISTINCT False (\<lambda>l. Inr (True, l)) l) (\<lambda>(dist, l).
     res_bind (parseSelectColumns R l) (\<lambda>(cols, l).
     res_bind (clause TokFROM [] (from_loop R) l) (\<lambda>(from, l).
     res_bind (clause TokWHERE None (\<lambda>l. res_map (\<lambda>(e, l). (Some e, l)) (parseExpr R 0 l)) l) (\<lambda>(whr, l).
     res_bind (clause TokGROUP [] (\<lambda>l. res_bind (expect TokBY l) (\<lambda>(_, l). parseExprList R l)) l) (\<lambda>(grp, l).
     res_bind (clause TokHAVING None (\<lambda>l. res_map (\<lambda>(e, l). (Some e, l)) (parseExpr R 0 l)) l) (\<lambda>(hav, l).
     res_bind (clause TokORDER [] (\<lambda>l. res_bind (expect TokBY l) (\<lambda>(_, l). parseOrderByList R l)) l) (\<lambda>(ord, l).
     res_map (\<lambda>((lim, off), l). (SelectStmt dist cols from whr hav grp ord lim off, l)) (count_loop R None None l)))))))))"

fun parsers_at :: "nat \<Rightarrow> parsers" where
  "parsers_at 0 = \<lparr>pExpr = \<lambda>_ _. Inl FuelExhausted, pLoop = \<lambda>_ _ _. Inl FuelExhausted, pUnary = \<lambda>_. Inl FuelExhausted,
     pExprs = \<lambda>_. Inl FuelExhausted, pWhens = \<lambda>_. Inl FuelExhausted, pSelect = \<lambda>_. Inl FuelExhausted,
     pColumns = \<lambda>_. Inl FuelExhausted, pOrder = \<lambda>_. Inl FuelExhausted, pTables = \<lambda>_. Inl FuelExhausted,
     pCounts = \<lambda>_ _ _. Inl FuelExhausted\<rparr>"
| "parsers_at (Suc n) = (let R = parsers_at n in
     \<lparr>pExpr = parseExpr R, pLoop = expr_loop R, pUnary = parseUnary R, pExprs = parseExprList R, pWhens = case_loop R,
      pSelect = parseSelect R, pColumns = parseSelectColumns R, pOrder = parseOrderByList R, pTables = from_loop R,
      pCounts = count_loop R\<rparr>)"

definition ParseStatement_with :: "nat \<Rightarrow> Lexer \<Rightarrow> sql_error + SelectStmt" where
  "ParseStatement_with fuel l = (case Peek l of
     (Inl e, _) \<Rightarrow> Inl e
   | (Inr tok, l) \<Rightarrow> if Kind tok \<noteq> TokSELECT then Inl (ExpectedSelect tok) else
       res_bind (parseSelect (parsers_at fuel) l) (\<lambda>(stmt, l).
       let (tok, l) = look l; l = (if Kind tok = TokSemicolon then skip l else l) in
       case Peek l of
         (Inl e, _) \<Rightarrow> Inl e
       | (Inr tok, _) \<Rightarrow>
           if Kind tok = TokEOF then Inr stmt
           else if Kind tok \<in> {TokUNION, TokINTERSECT, TokEXCEPT} then Inl (NotSupported tok)
           else Inl (UnexpectedToken tok)))"

definition ParseStatement :: "string \<Rightarrow> sql_error + SelectStmt" where
  "ParseStatement s = ParseStatement_with (2 * length s + 1) (NewLexer s)"

section \<open>Termination: the fuel is enough\<close>

text \<open>
  A result is good for a lexer when it is not lack of fuel and, if it is a value, at least \<open>k\<close> units of
  the lexer's work are gone.
\<close>

definition good :: "nat \<Rightarrow> Lexer \<Rightarrow> 'a parsed \<Rightarrow> bool" where
  "good k l r \<longleftrightarrow> r \<noteq> Inl FuelExhausted \<and> (\<forall>a l'. r = Inr (a, l') \<longrightarrow> work l' + k \<le> work l)"

lemma good_Inr [simp]: "good k l (Inr (a, l')) \<longleftrightarrow> work l' + k \<le> work l"
  by (auto simp: good_def)

lemma good_Inl [simp]: "good k l (Inl e) \<longleftrightarrow> e \<noteq> FuelExhausted"
  by (auto simp: good_def)

lemma good_bind:
  assumes "good j l m" "\<And>a l'. m = Inr (a, l') \<Longrightarrow> work l' + j \<le> work l \<Longrightarrow> good k l (f (a, l'))"
  shows "good k l (res_bind m f)"
  using assms by (cases m) (auto simp: good_def)

lemma good_map:
  assumes "good k l m" "\<And>a l'. snd (f (a, l')) = l'"
  shows "good k l (res_map f m)"
  using assms by (cases m) (auto simp: good_def prod_eq_iff)

lemma good_mono: "good j l' m \<Longrightarrow> work l' + k \<le> work l + j \<Longrightarrow> good k l m"
  by (fastforce simp: good_def)

lemma good_weaken: "good 1 l m \<Longrightarrow> good 0 l m"
  by (auto simp: good_def)

lemma look_work: "look l = (t, l') \<Longrightarrow> work l' \<le> work l"
  using Peek_work [of l] by (auto simp: look_def split: prod.splits sum.splits)

lemma Next_Inl_work: "Next l = (Inl e, l') \<Longrightarrow> work l' \<le> work l"
  using scan_work [of l] by (auto simp: Next_def split: option.splits)

lemma skip_work: "work (skip l) \<le> work l"
  using Next_work(1) [of l] Next_Inl_work [of l] by (cases "Next l"; cases "fst (Next l)") (auto simp: skip_def)

lemma look_skip_work:
  assumes "look l = (t, l')" "Kind t \<noteq> TokEOF"
  shows "work (skip l') + 1 \<le> work l"
proof -
  have "Peek l = (Inr t, l')" using assms by (auto simp: look_def zero_Token_def mkTok_def split: prod.splits sum.splits)
  then have "peek l' = Some t" by (auto simp: Peek_def split: option.splits prod.splits sum.splits)
  then have "work (skip l') + 1 \<le> work l'" using assms(2) by (simp add: skip_def Next_def work_def)
  then show ?thesis using look_work [OF assms(1)] by simp
qed

lemma lexer_error_not_fuel: "scan l = (Inl e, l') \<Longrightarrow> e \<noteq> FuelExhausted"
  by (auto simp: scan_def scan_at_def scanString_def scanQuotedIdent_def scanNumber_def scanIdent_def Let_def
      split: if_splits prod.splits option.splits)

lemma good_pnext: "good 0 l (pnext l)"
  using Next_work(1) [of l] lexer_error_not_fuel [of l]
  by (cases "Next l"; cases "fst (Next l)") (auto simp: pnext_def Next_def split: option.splits)

lemma pnext_work: "pnext l = Inr (t, l') \<Longrightarrow> Kind t \<noteq> TokEOF \<Longrightarrow> work l' + 1 \<le> work l"
  using Next_work(2) [of l t l'] by (auto simp: pnext_def split: prod.splits sum.splits)

lemma good_expect: "k \<noteq> TokEOF \<Longrightarrow> good 1 l (expect k l)"
  unfolding expect_def by (rule good_bind [OF good_pnext]) (auto dest: pnext_work)

lemma is_keyword_not_EOF: "is_keyword k \<Longrightarrow> k \<noteq> TokEOF"
  by (auto simp: is_keyword_def keyword_table_def)

lemma good_expectIdent: "good 1 l (expectIdent l)"
  unfolding expectIdent_def
  by (rule good_bind [OF good_pnext]) (auto dest!: pnext_work is_keyword_not_EOF)

lemma good_parseCount: "good 1 l (parseCount c l)"
  unfolding parseCount_def by (rule good_bind [OF good_pnext]) (auto dest: pnext_work split: option.splits)

lemma good_parse_alias: "good 0 l (parse_alias l)"
proof -
  obtain t l1 where t: "look l = (t, l1)" by fastforce
  obtain t2 l2 where t2: "look l1 = (t2, l2)" by fastforce
  have w: "work l1 \<le> work l" "work l2 \<le> work l1" "work (skip l1) \<le> work l1" "work (skip l2) \<le> work l2"
    using look_work [OF t] look_work [OF t2] skip_work by auto
  have "good 0 l (res_map (\<lambda>(a, l). (Text a, l)) (expectIdent (skip l1)))"
    using w by (intro good_map good_mono [OF good_expectIdent]) auto
  then show ?thesis using t t2 w by (simp add: parse_alias_def Let_def)
qed

lemma good_parseTableRef: "good 1 l (parseTableRef l)"
  unfolding parseTableRef_def
proof (rule good_bind [OF good_expectIdent])
  fix a l' assume "work l' + 1 \<le> work l"
  then show "good 1 l (case (a, l') of (name, l) \<Rightarrow> res_map (\<lambda>(a, l). ((Text name, a), l)) (parse_alias l))"
    by (auto intro!: good_map good_mono [OF good_parse_alias])
qed

lemma numericLiteral_not_fuel: "numericLiteral t s = Inl e \<Longrightarrow> e \<noteq> FuelExhausted"
  by (auto simp: numericLiteral_def Let_def split: if_splits option.splits)

lemma good_numeric: "work l' + k \<le> work l \<Longrightarrow> good k l (res_map (\<lambda>e. (e, l')) (numericLiteral t s))"
  using numericLiteral_not_fuel [of t s] by (cases "numericLiteral t s") auto

lemma good_clause:
  assumes "kind \<noteq> TokEOF" "\<And>l'. work l' + 1 \<le> work l \<Longrightarrow> good 0 l' (p l')"
  shows "good 0 l (clause kind absent p l)"
proof -
  obtain t l1 where t: "look l = (t, l1)" by fastforce
  show ?thesis
  proof (cases "Kind t = kind")
    case True
    then have "work (skip l1) + 1 \<le> work l" using look_skip_work [OF t] assms(1) by simp
    then show ?thesis using True t good_mono [OF assms(2)] by (simp add: clause_def)
  next
    case False
    then show ?thesis using t look_work [OF t] by (simp add: clause_def)
  qed
qed

text \<open>
  The interface between one level of the parser and the next: the calls in \<open>R\<close> are good on every lexer
  with less than \<open>n\<close> units of work, and those that parse an expression use some of it up.
\<close>

locale parser_calls =
  fixes R :: parsers and n :: nat
  assumes call_expr: "work l < n \<Longrightarrow> good 1 l (pExpr R p l)"
    and call_loop: "work l < n \<Longrightarrow> good 0 l (pLoop R p e l)"
    and call_unary: "work l < n \<Longrightarrow> good 1 l (pUnary R l)"
    and call_exprs: "work l < n \<Longrightarrow> good 1 l (pExprs R l)"
    and call_whens: "work l < n \<Longrightarrow> good 0 l (pWhens R l)"
    and call_select: "work l < n \<Longrightarrow> good 0 l (pSelect R l)"
    and call_columns: "work l < n \<Longrightarrow> good 0 l (pColumns R l)"
    and call_order: "work l < n \<Longrightarrow> good 0 l (pOrder R l)"
    and call_tables: "work l < n \<Longrightarrow> good 0 l (pTables R l)"
    and call_counts: "work l < n \<Longrightarrow> good 0 l (pCounts R a b l)"
begin

text \<open>Expressions in parentheses-like brackets: a call followed by a token that must be there.\<close>

lemma good_closed:
  assumes "work l' < n" "work l' + 1 \<le> work l" "k \<noteq> TokEOF"
  shows "good 1 l (res_bind (pExpr R p l') (\<lambda>(e, l). res_map (\<lambda>(_, l). (f e, l)) (expect k l)))"
proof (rule good_mono [of 1 l'])
  show "good 1 l' (res_bind (pExpr R p l') (\<lambda>(e, l). res_map (\<lambda>(_, l). (f e, l)) (expect k l)))"
    by (rule good_bind [OF call_expr [OF assms(1)]]) (use assms in \<open>auto intro!: good_map good_mono [OF good_expect]\<close>)
qed (use assms in simp)

lemma good_funcCall:
  assumes "work l \<le> n"
  shows "good 1 l (parseFuncCall R name l)"
  unfolding parseFuncCall_def
proof (rule good_bind [OF good_expect], goal_cases)
  case (2 a l1)
  then have l1: "work l1 + 1 \<le> work l" by simp
  obtain t l2 where t: "look l1 = (t, l2)" by fastforce
  define l3 where "l3 = (if Kind t = TokDISTINCT then skip l2 else l2)"
  obtain t4 l4 where t4: "look l3 = (t4, l4)" by fastforce
  have w: "work l2 \<le> work l1" "work l3 \<le> work l2" "work l4 \<le> work l3" "work (skip l4) \<le> work l4"
    using look_work [OF t] look_work [OF t4] skip_work by (auto simp: l3_def)
  have star: "good 1 l (res_map (\<lambda>(_, l). (AggFuncExpr name (Some StarExpr) d, l)) (expect TokRParen (skip l4)))" for d
    using w l1 by (intro good_map good_mono [OF good_expect]) auto
  have arg: "good 1 l (res_bind (pExpr R 0 l4) (\<lambda>(arg, l). res_map (\<lambda>(_, l). (AggFuncExpr name (Some arg) d, l)) (expect TokRParen l)))" for d
    using w l1 assms by (intro good_closed) auto
  have args: "good 1 l (res_bind (if Kind t \<noteq> TokRParen then pExprs R l2 else Inr ([], l2)) (\<lambda>(args, l).
      res_map (\<lambda>(_, l). (FuncExpr name args, l)) (expect TokRParen l)))"
  proof (rule good_bind [of 1])
    show "good 1 l (if Kind t \<noteq> TokRParen then pExprs R l2 else Inr ([], l2))"
      using w l1 assms call_exprs [of l2] by (auto intro: good_mono)
  qed (auto intro!: good_map good_mono [OF good_expect])
  show ?case
    using star arg args t t4 by (auto simp: Let_def l3_def)
qed simp

lemma good_caseExpr:
  assumes "work l < n"
  shows "good 0 l (parseCaseExpr R l)"
  unfolding parseCaseExpr_def
proof (rule good_bind [OF call_whens [OF assms]], goal_cases)
  case (1 ws l1)
  then have l1: "work l1 \<le> work l" by simp
  obtain t l2 where t: "look l1 = (t, l2)" by fastforce
  have w: "work l2 \<le> work l1" "work (skip l2) \<le> work l2" using look_work [OF t] skip_work by auto
  have "good 0 l (if Kind t = TokELSE then res_map (\<lambda>(e, l). (Some e, l)) (pExpr R 0 (skip l2)) else Inr (None, l2))"
    using w l1 assms by (auto intro!: good_map good_mono [OF call_expr])
  then have "good 0 l (res_bind (if Kind t = TokELSE then res_map (\<lambda>(e, l). (Some e, l)) (pExpr R 0 (skip l2)) else Inr (None, l2))
      (\<lambda>(els, l). res_map (\<lambda>(_, l). (CaseE ws els, l)) (expect TokEND l)))"
    by (rule good_bind) (auto intro!: good_map good_mono [OF good_expect])
  then show ?case using t by simp
qed

lemma good_case_loop:
  assumes "work l \<le> n"
  shows "good 0 l (case_loop R l)"
proof -
  obtain t l1 where t: "look l = (t, l1)" by fastforce
  show ?thesis
  proof (cases "Kind t = TokWHEN")
    case True
    then have w: "work (skip l1) + 1 \<le> work l" using look_skip_work [OF t] by simp
    then have "good 0 (skip l1) (res_bind (pExpr R 0 (skip l1)) (\<lambda>(cond, l).
      res_bind (expect TokTHEN l) (\<lambda>(_, l). res_bind (pExpr R 0 l) (\<lambda>(result, l).
      res_map (\<lambda>(ws, l). ((cond, result) # ws, l)) (pWhens R l)))))"
    proof (intro good_bind [OF call_expr], goal_cases)
      case (2 c l2)
      have "good 0 l2 (res_bind (expect TokTHEN l2) (\<lambda>(_, l). res_bind (pExpr R 0 l) (\<lambda>(result, l).
        res_map (\<lambda>(ws, l). ((c, result) # ws, l)) (pWhens R l))))"
      proof (rule good_bind [OF good_expect], goal_cases)
        case (2 a l3)
        then have l3: "work l3 < n" using \<open>work l2 + 1 \<le> work (skip l1)\<close> w assms by simp
        have "good 0 l3 (res_bind (pExpr R 0 l3) (\<lambda>(result, l). res_map (\<lambda>(ws, l). ((c, result) # ws, l)) (pWhens R l)))"
          by (rule good_bind [OF call_expr [OF l3]]) (use l3 in \<open>auto intro!: good_map good_mono [OF call_whens]\<close>)
        then show ?case using 2 by (auto intro: good_mono)
      qed simp
      then show ?case using 2 by (auto intro: good_mono)
    qed (use assms in simp)
    then show ?thesis using t True w by (auto simp: case_loop_def intro: good_mono)
  next
    case False
    then show ?thesis using t look_work [OF t] by (simp add: case_loop_def)
  qed
qed

lemma good_paren:
  assumes "work l < n"
  shows "good 0 l (let (inner, l) = look l in
         if Kind inner = TokSELECT then
           res_bind (pSelect R l) (\<lambda>(sub, l). res_map (\<lambda>(_, l). (SubqueryExpr sub, l)) (expect TokRParen l))
         else res_bind (pExpr R 0 l) (\<lambda>(e, l). res_map (\<lambda>(_, l). (e, l)) (expect TokRParen l)))"
proof -
  obtain t l1 where t: "look l = (t, l1)" by fastforce
  have w: "work l1 \<le> work l" "work l1 < n" using look_work [OF t] assms by auto
  have "good 0 l1 (res_bind (pSelect R l1) (\<lambda>(sub, l). res_map (\<lambda>(_, l). (SubqueryExpr sub, l)) (expect TokRParen l)))"
    by (rule good_bind [OF call_select [OF w(2)]]) (auto intro!: good_map good_mono [OF good_expect])
  moreover have "good 0 l1 (res_bind (pExpr R 0 l1) (\<lambda>(e, l). res_map (\<lambda>(_, l). (e, l)) (expect TokRParen l)))"
    by (rule good_bind [OF call_expr [OF w(2)]]) (auto intro!: good_map good_mono [OF good_expect])
  ultimately show ?thesis using t w(1) by (auto intro: good_mono)
qed

lemma good_ident:
  assumes "work l < n"
  shows "good 0 l (let (next, l) = look l in
         if Kind next = TokDot then
           res_bind (expectIdent (skip l)) (\<lambda>(colTok, l).
           let (paren, l) = look l in
           if Kind paren = TokLParen then parseFuncCall R (ToUpper (Text colTok)) l
           else Inr (ColumnRefExpr (Text tok) (Text colTok), l))
         else (let (next, l) = look l in
           if Kind next = TokLParen then parseFuncCall R (ToUpper (Text tok)) l
           else Inr (ColumnRefExpr [] (Text tok), l)))"
proof -
  obtain t l1 where t: "look l = (t, l1)" by fastforce
  obtain t2 l2 where t2: "look l1 = (t2, l2)" by fastforce
  have w: "work l1 \<le> work l" "work l2 \<le> work l1" "work (skip l1) \<le> work l1" using look_work [OF t] look_work [OF t2] skip_work by auto
  have call: "good 0 l' (parseFuncCall R name l')" if "work l' \<le> work l" for name l'
    using that assms by (intro good_mono [OF good_funcCall]) auto
  have "good 0 (skip l1) (res_bind (expectIdent (skip l1)) (\<lambda>(colTok, l).
           let (paren, l) = look l in
           if Kind paren = TokLParen then parseFuncCall R (ToUpper (Text colTok)) l
           else Inr (ColumnRefExpr (Text tok) (Text colTok), l)))"
  proof (rule good_bind [OF good_expectIdent], goal_cases)
    case (1 c l3)
    obtain t4 l4 where t4: "look l3 = (t4, l4)" by fastforce
    have "work l4 \<le> work l3" using look_work [OF t4] .
    then have "work l4 \<le> work (skip l1)" "work l4 \<le> work l" using 1 w by auto
    then show ?case using t4 by (auto intro!: good_mono [OF call])
  qed
  then show ?thesis using t t2 w by (auto intro: good_mono intro!: good_mono [OF call])
qed

lemma good_primary:
  assumes "work l \<le> n"
  shows "good 1 l (parsePrimary R l)"
  unfolding parsePrimary_def
proof (rule good_bind [OF good_pnext], goal_cases)
  case (1 tok l1)
  show ?case
  proof (cases "Kind tok = TokEOF")
    case True
    then show ?thesis by (simp add: ident_column_kinds_def)
  next
    case False
    then have w: "work l1 + 1 \<le> work l" using pnext_work 1 by simp
    then have l1: "work l1 < n" using assms by simp
    have "good 1 l (parseCaseExpr R l1)" using w by (intro good_mono [OF good_caseExpr [OF l1]]) simp
    moreover note good_mono [OF good_paren [OF l1], of 1 l] good_mono [OF good_ident [OF l1, of tok], of 1 l]
      good_numeric [OF w, of tok "[]"]
    ultimately show ?thesis using w by (cases "Kind tok") (auto simp: Let_def)
  qed
qed

lemma good_unary:
  assumes "work l \<le> n"
  shows "good 1 l (parseUnary R l)"
proof -
  obtain t l1 where t: "look l = (t, l1)" by fastforce
  obtain t2 l2 where t2: "look (skip l1) = (t2, l2)" by fastforce
  have w: "work l1 \<le> work l" "work l2 \<le> work (skip l1)" "work (skip l2) \<le> work l2" "work (skip l1) \<le> work l1"
    using look_work [OF t] look_work [OF t2] skip_work by auto
  have s: "Kind t \<noteq> TokEOF \<Longrightarrow> work (skip l1) + 1 \<le> work l" using look_skip_work [OF t] by simp
  have "good 1 l (parsePrimary R l1)" using w assms by (intro good_mono [OF good_primary]) auto
  moreover have "good 1 l (res_map (\<lambda>(e, l). (UnaryExpr OpNot e, l)) (pExpr R 3 (skip l1)))" if "Kind t = TokNOT"
    using that s assms by (auto intro!: good_map good_mono [OF call_expr])
  moreover have "good 1 l (res_map (\<lambda>(e, l). (UnaryExpr OpMinus e, l)) (pUnary R l2))" if "Kind t = TokMinus"
    using that s w assms by (auto intro!: good_map good_mono [OF call_unary])
  moreover have "good 1 l (res_map (\<lambda>e. (e, skip l2)) (numericLiteral t2 ''-''))" if "Kind t = TokMinus"
    using that s w by (intro good_numeric) auto
  ultimately show ?thesis using t t2 by (auto simp: parseUnary_def)
qed

lemma good_parseExpr:
  assumes "work l \<le> n"
  shows "good 1 l (parseExpr R p l)"
  unfolding parseExpr_def
  by (rule good_bind [OF good_unary [OF assms]]) (use assms in \<open>auto intro!: good_mono [OF call_loop]\<close>)

lemma good_tail:
  assumes "work l < n" "good 0 l other"
  shows "good 0 l (parse_tail R k p neg other e l)"
proof -
  have "good 0 l (res_bind (pExpr R p l) (\<lambda>(lo, l). res_bind (expect TokAND l) (\<lambda>(_, l).
       res_map (\<lambda>(hi, l). (BetweenE e lo hi neg, l)) (pExpr R p l))))"
  proof (rule good_bind [OF call_expr [OF assms(1)]], goal_cases)
    case (1 lo l1)
    have "good 0 l1 (res_bind (expect TokAND l1) (\<lambda>(_, l). res_map (\<lambda>(hi, l). (BetweenE e lo hi neg, l)) (pExpr R p l)))"
      by (rule good_bind [OF good_expect]) (use 1 assms in \<open>auto intro!: good_map good_mono [OF call_expr]\<close>)
    then show ?case using 1 by (auto intro: good_mono)
  qed
  moreover have "good 0 l (res_bind (expect TokLParen l) (\<lambda>(_, l). res_bind (pExprs R l) (\<lambda>(list, l).
       res_map (\<lambda>(_, l). (InE e list neg, l)) (expect TokRParen l))))"
  proof (rule good_bind [OF good_expect], goal_cases)
    case (2 a l1)
    then have l1: "work l1 < n" using assms(1) by simp
    have "good 0 l1 (res_bind (pExprs R l1) (\<lambda>(list, l). res_map (\<lambda>(_, l). (InE e list neg, l)) (expect TokRParen l)))"
      by (rule good_bind [OF call_exprs [OF l1]]) (auto intro!: good_map good_mono [OF good_expect])
    then show ?case using 2 by (auto intro: good_mono)
  qed simp
  moreover have "good 0 l (res_map (\<lambda>(pattern, l). (LikeE e pattern neg, l)) (pExpr R p l))"
    using assms by (auto intro!: good_map good_mono [OF call_expr])
  ultimately show ?thesis using assms(2) by (cases k) (simp_all add: parse_tail_def)
qed

lemma good_cont:
  assumes "work l < n" "good 0 l m"
  shows "good 0 l (res_bind m (\<lambda>(x, l). pLoop R p (f x) l))"
  by (rule good_bind [OF assms(2)]) (use assms(1) in \<open>auto intro!: good_mono [OF call_loop]\<close>)

lemma good_expr_loop:
  assumes "work l \<le> n"
  shows "good 0 l (expr_loop R p e l)"
proof -
  obtain t l1 where t: "look l = (t, l1)" by fastforce
  show ?thesis
  proof (cases "precedence (Kind t) \<le> p")
    case True
    then show ?thesis using t look_work [OF t] by (simp add: expr_loop_def Let_def)
  next
    case False
    then have "Kind t \<noteq> TokEOF" by auto
    then have w: "work (skip l1) + 1 \<le> work l" using look_skip_work [OF t] by simp
    let ?l = "skip l1"
    have l: "work ?l < n" using w assms by simp
    note cont = good_cont [OF l, of _ p]
    obtain t2 l2 where t2: "look ?l = (t2, l2)" by fastforce
    have w2: "work l2 \<le> work ?l" "work (skip l2) \<le> work l2" using look_work [OF t2] skip_work by auto
    have "good 0 ?l (pExpr R q ?l)" for q by (rule good_mono [OF call_expr [OF l]]) simp
    then have bin: "good 0 ?l (res_bind (pExpr R q ?l) (\<lambda>(right, l). pLoop R p (BinaryExpr op e right) l))" for q op
      using cont [of "pExpr R q ?l"] by blast
    have isnull: "good 0 ?l (res_bind (expect TokNULL (if Kind t2 = TokNOT then skip l2 else l2)) (\<lambda>(_, l). pLoop R p (IsNullE e b) l))" for b
      using w2 by (intro cont good_mono [OF good_expect]) auto
    have "good 0 ?l (parse_tail R k q True (Inl (UnexpectedNot (Pos t2))) e (skip l2))" for k q
      using w2 l by (intro good_mono [OF good_tail]) auto
    note neg = cont [OF this, where f = "\<lambda>x. x"]
    have "good 0 ?l (parse_tail R k q False (Inr (e, ?l)) e ?l)" for k q
      using l by (intro good_tail) auto
    note plain = cont [OF this, where f = "\<lambda>x. x"]
    have "good 0 ?l (expr_loop R p e l)"
      using t t2 False bin isnull neg plain
      by (cases "Kind t") (simp_all add: expr_loop_def Let_def)
    then show ?thesis using w by (auto intro: good_mono)
  qed
qed

lemma good_comma:
  assumes w: "work l' + 1 \<le> work l" "work l \<le> n"
    and p: "\<And>l. work l < n \<Longrightarrow> good 0 l (p l)"
  shows "good 1 l (let (tok, l) = look l' in if Kind tok \<noteq> TokComma then Inr ([x], l)
    else res_map (\<lambda>(xs, l). (x # xs, l)) (p (skip l)))"
proof -
  obtain t l1 where t: "look l' = (t, l1)" by fastforce
  have "work l1 \<le> work l'" "work (skip l1) \<le> work l1" using look_work [OF t] skip_work by auto
  then show ?thesis using t w by (auto intro!: good_map good_mono [OF p])
qed

lemma good_exprList:
  assumes "work l \<le> n"
  shows "good 1 l (parseExprList R l)"
  unfolding parseExprList_def
proof (rule good_bind [OF good_parseExpr [OF assms]], goal_cases)
  case (1 e l1)
  have "good 0 l' (pExprs R l')" if "work l' < n" for l' by (rule good_mono [OF call_exprs [OF that]]) simp
  from good_comma [OF 1(2) assms this, of e] show ?case by simp
qed

lemma good_orderByList:
  assumes "work l \<le> n"
  shows "good 1 l (parseOrderByList R l)"
  unfolding parseOrderByList_def
proof (rule good_bind [OF good_parseExpr [OF assms]], goal_cases)
  case (1 e l1)
  obtain t l2 where t: "look l1 = (t, l2)" by fastforce
  define l3 where "l3 = (if Kind t = TokDESC \<or> Kind t = TokASC then skip l2 else l2)"
  have "work l2 \<le> work l1" "work l3 \<le> work l2" using look_work [OF t] skip_work by (auto simp: l3_def)
  then have "work l3 + 1 \<le> work l" using 1 by simp
  from good_comma [OF this assms call_order, of "(e, Kind t = TokDESC)"]
  show ?case using t by (simp add: Let_def l3_def)
qed

lemma good_selectColumns:
  assumes "work l \<le> n"
  shows "good 0 l (parseSelectColumns R l)"
proof -
  obtain t l1 where t: "look l = (t, l1)" by fastforce
  have w: "work l1 \<le> work l" using look_work [OF t] .
  have "good 1 l1 (res_bind (parseExpr R 0 l1) (\<lambda>(e, l). res_bind (parse_alias l) (\<lambda>(a, l).
     let (tok, l) = look l in if Kind tok \<noteq> TokComma then Inr ([(e, a)], l)
     else res_map (\<lambda>(cols, l). ((e, a) # cols, l)) (pColumns R (skip l)))))"
  proof (rule good_bind [OF good_parseExpr], goal_cases)
    case 1 then show ?case using w assms by simp
  next
    case (2 e l2)
    have "good 1 l1 (parse_alias l2)" using 2 by (intro good_mono [OF good_parse_alias]) simp
    then have "good 1 l1 (res_bind (parse_alias l2) (\<lambda>(a, l).
       let (tok, l) = look l in if Kind tok \<noteq> TokComma then Inr ([(e, a)], l)
       else res_map (\<lambda>(cols, l). ((e, a) # cols, l)) (pColumns R (skip l))))"
    proof (rule good_bind, goal_cases)
      case (1 a l3)
      from good_comma [OF 1(2) _ call_columns, of "(e, a)"] show ?case using w assms by simp
    qed
    then show ?case by simp
  qed
  then show ?thesis using t w by (auto simp: parseSelectColumns_def intro: good_mono)
qed

lemma good_from_loop:
  assumes "work l \<le> n"
  shows "good 1 l (from_loop R l)"
  unfolding from_loop_def
proof (rule good_bind [OF good_parseTableRef], goal_cases)
  case (1 r l1)
  from good_comma [OF 1(2) assms call_tables, of r] show ?case by simp
qed

lemma good_count_loop:
  assumes "work l \<le> n"
  shows "good 0 l (count_loop R lim off l)"
proof -
  obtain t l1 where t: "look l = (t, l1)" by fastforce
  have w: "work (skip l1) \<le> work l1" "work l1 \<le> work l" using look_work [OF t] skip_work by auto
  have "good 0 l (res_bind (parseCount c (skip l1)) (\<lambda>(m, l). pCounts R (f m) (g m) l))" for c f g
  proof (rule good_bind [of 1])
    show "good 1 l (parseCount c (skip l1))" using w by (intro good_mono [OF good_parseCount]) simp
  qed (use assms in \<open>auto intro!: good_mono [OF call_counts]\<close>)
  from this [of _ Some "\<lambda>_. off"] this [of _ "\<lambda>_. lim" Some] show ?thesis
    using t w by (auto simp: count_loop_def)
qed

lemma good_next_clause:
  assumes "work l \<le> n" "work l1 + 1 \<le> work l" "k \<noteq> TokEOF" "\<And>l'. work l' \<le> n \<Longrightarrow> good 0 l' (p l')"
    "\<And>a l2. work l2 + 1 \<le> work l \<Longrightarrow> good 1 l (f (a, l2))"
  shows "good 1 l (res_bind (clause k d p l1) f)"
proof (rule good_bind [of 1])
  show "good 1 l (clause k d p l1)"
    using assms(1,2) by (intro good_mono [OF good_clause [OF assms(3)], of l1] assms(4)) auto
qed (use assms(5) in auto)

lemma good_by:
  assumes "work l \<le> n" "\<And>l. work l \<le> n \<Longrightarrow> good 1 l (p l)"
  shows "good 0 l (res_bind (expect TokBY l) (\<lambda>(_, l). p l))"
  by (rule good_bind [OF good_expect]) (use assms(1) in \<open>auto intro!: good_mono [OF assms(2)]\<close>)

lemma good_some_expr: "work l \<le> n \<Longrightarrow> good 0 l (res_map (\<lambda>(e, l). (Some e, l)) (parseExpr R 0 l))"
  by (auto intro!: good_map good_mono [OF good_parseExpr])

lemma good_select:
  assumes "work l \<le> n"
  shows "good 1 l (parseSelect R l)"
proof -
  note step = good_next_clause [OF assms]
  have cols: "good 1 l (parseSelectColumns R l1)" if "work l1 + 1 \<le> work l" for l1
    using that assms by (intro good_mono [OF good_selectColumns]) auto
  have tabs: "good 0 l1 (from_loop R l1)" if "work l1 \<le> n" for l1
    by (rule good_mono [OF good_from_loop [OF that]]) simp
  have counts: "good 1 l (res_map (\<lambda>((lim, off), l). (h lim off, l)) (count_loop R None None l1))"
    if "work l1 + 1 \<le> work l" for l1 and h :: "_ \<Rightarrow> _ \<Rightarrow> SelectStmt"
    using that assms by (intro good_map good_mono [OF good_count_loop]) auto
  note tail = good_bind [OF cols] step [OF _ _ tabs] step [OF _ _ good_some_expr]
    step [OF _ _ good_by [OF _ good_exprList]] step [OF _ _ good_by [OF _ good_orderByList]] counts
  show ?thesis
    unfolding parseSelect_def
    by (rule good_bind [OF good_expect], simp)
      (assumption | simp only: prod.case | rule tail step | simp)+
qed

end

text \<open>With fuel \<open>n\<close> the calls are good on every lexer with less than \<open>n\<close> units of work.\<close>

lemma parser_calls_at: "parser_calls (parsers_at n) n"
proof (induction n)
  case 0
  show ?case by unfold_locales auto
next
  case (Suc n)
  show ?case
    by (rule parser_calls.intro)
      (simp_all add: Let_def less_Suc_eq_le parser_calls.good_parseExpr [OF Suc] parser_calls.good_expr_loop [OF Suc]
        parser_calls.good_unary [OF Suc, unfolded One_nat_def] parser_calls.good_exprList [OF Suc, unfolded One_nat_def]
        parser_calls.good_case_loop [OF Suc] parser_calls.good_select [OF Suc, THEN good_weaken] parser_calls.good_selectColumns [OF Suc]
        parser_calls.good_orderByList [OF Suc, THEN good_weaken] parser_calls.good_from_loop [OF Suc, THEN good_weaken]
        parser_calls.good_count_loop [OF Suc] parser_calls.good_parseExpr [OF Suc, unfolded One_nat_def])
qed

interpretation parser_level: parser_calls "parsers_at n" n for n
  by (rule parser_calls_at)

lemma Peek_not_fuel: "Peek l = (Inl e, l') \<Longrightarrow> e \<noteq> FuelExhausted"
  using lexer_error_not_fuel [of l] by (auto simp: Peek_def split: option.splits prod.splits sum.splits)

lemma ParseStatement_with_fuel:
  assumes "work l \<le> fuel"
  shows "ParseStatement_with fuel l \<noteq> Inl FuelExhausted"
proof -
  obtain r l1 where p: "Peek l = (r, l1)" by fastforce
  have "good 1 l1 (parseSelect (parsers_at fuel) l1)"
    using Peek_work [OF p] assms by (intro parser_level.good_select) simp
  then have sel: "parseSelect (parsers_at fuel) l1 \<noteq> Inl FuelExhausted" by (simp add: good_def)
  show ?thesis
    using p sel Peek_not_fuel
    by (cases r; cases "parseSelect (parsers_at fuel) l1")
      (auto simp: ParseStatement_with_def Let_def split: prod.splits sum.splits if_splits)
qed

section \<open>Literals\<close>

text \<open>Decimal digits of a number, \<^verbatim>\<open>strconv.FormatInt\<close> and the rendering of a string literal.\<close>

fun dec_digits :: "nat \<Rightarrow> string" where
  "dec_digits n = (if n < 10 then [char_of (48 + n)] else dec_digits (n div 10) @ [char_of (48 + n mod 10)])"

declare dec_digits.simps [simp del]

definition FormatInt :: "i64 \<Rightarrow> string" where
  "FormatInt v = (if sint v < 0 then CHR ''-'' # dec_digits (nat (- sint v)) else dec_digits (nat (sint v)))"

definition escape_quotes :: "string \<Rightarrow> string" where
  "escape_quotes s = concat (map (\<lambda>c. if c = quote then [quote, quote] else [c]) s)"

definition StringLiteral_String :: "string \<Rightarrow> string" where
  "StringLiteral_String s = quote # escape_quotes s @ [quote]"

lemma digit_char:
  assumes "d < 10"
  shows "is_digit (char_of (48 + d))" "digit_val (char_of (48 + d)) = d"
  using assms by (simp_all add: is_digit_def digit_val_def)

lemma dec_val_snoc: "dec_val (s @ [c]) = 10 * dec_val s + digit_val c"
  by (simp add: dec_val_def)

lemma dec_digits_ok: "dec_val (dec_digits n) = n \<and> list_all is_digit (dec_digits n) \<and> dec_digits n \<noteq> []"
proof (induction n rule: dec_digits.induct)
  case (1 n)
  show ?case
  proof (cases "n < 10")
    case True
    then show ?thesis using digit_char [of n] by (subst (1 2 3) dec_digits.simps) (simp add: dec_val_def)
  next
    case False
    then have "dec_digits n = dec_digits (n div 10) @ [char_of (48 + n mod 10)]" by (subst dec_digits.simps) simp
    then show ?thesis using 1 False digit_char [of "n mod 10"] by (simp add: dec_val_snoc)
  qed
qed

lemma digit_not_sign: "is_digit c \<Longrightarrow> c \<noteq> CHR ''-'' \<and> c \<noteq> CHR ''+''"
  by (auto simp: is_digit_def)

lemma ParseInt_digits:
  assumes "ds \<noteq> []" "list_all is_digit ds"
  shows "ParseInt ds = (if dec_val ds < 2 ^ 63 then Some (word_of_int (int (dec_val ds))) else None)"
    "ParseInt (CHR ''-'' # ds) = (if dec_val ds \<le> 2 ^ 63 then Some (word_of_int (- int (dec_val ds))) else None)"
  using assms digit_not_sign by (cases ds; auto simp: ParseInt_def Let_def)+

lemma ParseInt_FormatInt: "ParseInt (FormatInt v) = Some v"
proof (cases "sint v < 0")
  case True
  have "- sint v \<le> 2 ^ 63" using sint_ge [of v] by simp
  then show ?thesis
    using True ParseInt_digits(2) [of "dec_digits (nat (- sint v))"] dec_digits_ok [of "nat (- sint v)"]
    by (auto simp: FormatInt_def)
next
  case False
  have "sint v < 2 ^ 63" using sint_lt [of v] by simp
  then show ?thesis
    using False ParseInt_digits(1) [of "dec_digits (nat (sint v))"] dec_digits_ok [of "nat (sint v)"]
    by (auto simp: FormatInt_def)
qed

lemma string_loop_escape:
  assumes "post = [] \<or> hd post \<noteq> quote"
  shows "string_loop (pre @ escape_quotes v @ quote # post) (length pre) acc =
    (Some (acc @ v), length pre + length (escape_quotes v) + 1)"
proof (induction v arbitrary: pre acc)
  case Nil
  then show ?case using assms
    by (subst string_loop.simps) (auto simp: escape_quotes_def nth_append hd_conv_nth)
next
  case (Cons c v)
  let ?s = "pre @ escape_quotes (c # v) @ quote # post"
  show ?case
  proof (cases "c = quote")
    case True
    then have s: "?s = (pre @ [quote, quote]) @ escape_quotes v @ quote # post" by (simp add: escape_quotes_def)
    have "string_loop ?s (length pre) acc = string_loop ?s (length pre + 2) (acc @ [quote])"
      by (subst string_loop.simps) (simp add: s nth_append)
    also have "\<dots> = (Some (acc @ [quote] @ v), length pre + 2 + length (escape_quotes v) + 1)"
      using Cons [of "pre @ [quote, quote]" "acc @ [quote]"] by (simp add: s)
    finally show ?thesis using True by (simp add: escape_quotes_def)
  next
    case False
    then have s: "?s = (pre @ [c]) @ escape_quotes v @ quote # post" by (simp add: escape_quotes_def)
    have "string_loop ?s (length pre) acc = string_loop ?s (length pre + 1) (acc @ [c])"
      using False by (subst string_loop.simps) (simp add: s nth_append)
    also have "\<dots> = (Some (acc @ [c] @ v), length pre + 1 + length (escape_quotes v) + 1)"
      using Cons [of "pre @ [c]" "acc @ [c]"] by (simp add: s)
    finally show ?thesis using False by (simp add: escape_quotes_def)
  qed
qed

text \<open>The lexer on the digits of a number, up to a character that cannot continue one.\<close>

definition ends_number :: "string \<Rightarrow> bool" where
  "ends_number post \<longleftrightarrow> post = [] \<or> (\<not> is_digit (hd post) \<and> hd post \<notin> {CHR ''.'', CHR ''e'', CHR ''E''})"

lemma number_loop_digits:
  assumes "list_all is_digit ds" "ends_number post"
  shows "number_loop (pre @ ds @ post) (length pre) False = (length pre + length ds, False)"
  using assms(1)
proof (induction ds arbitrary: pre)
  case Nil
  then show ?case using assms(2) by (subst number_loop.simps) (cases post; auto simp: ends_number_def nth_append)
next
  case (Cons d ds)
  then show ?case using Cons.IH [of "pre @ [d]"] by (subst number_loop.simps) (simp add: nth_append)
qed

lemma digit_not_space:
  assumes "is_digit d"
  shows "skipWhitespaceAndComments (pre @ d # r) (length pre) = length pre"
    "d \<noteq> quote \<and> d \<noteq> CHR 0x22 \<and> d \<noteq> CHR 0x60"
  using assms by (subst skipWhitespaceAndComments.simps, auto simp: is_digit_def is_space_def quote_def)

lemma scan_digits:
  assumes "list_all is_digit ds" "ds \<noteq> []" "ends_number post"
  shows "scan \<lparr>src = pre @ ds @ post, pos = length pre, peek = None\<rparr> =
    (Inr (mkTok TokInt ds (length pre)), \<lparr>src = pre @ ds @ post, pos = length pre + length ds, peek = None\<rparr>)"
proof -
  obtain d ds' where d: "ds = d # ds'" "is_digit d" using assms(1,2) by (cases ds) auto
  have "scan_at (pre @ ds @ post) (length pre) = (Inr (mkTok TokInt ds (length pre)), length pre + length ds)"
    using number_loop_digits [OF assms(1,3), of pre] digit_not_space(2) [OF d(2)] d
    by (simp add: scan_at_def Let_def scanNumber_def substring_def nth_append)
  then show ?thesis using digit_not_space(1) [OF d(2), of pre "ds' @ post"] d(1) by (simp add: scan_def Let_def)
qed

lemma scan_minus:
  assumes "is_digit d"
  shows "scan \<lparr>src = pre @ CHR ''-'' # d # r, pos = length pre, peek = None\<rparr> =
    (Inr (mkTok TokMinus ''-'' (length pre)), \<lparr>src = pre @ CHR ''-'' # d # r, pos = length pre + 1, peek = None\<rparr>)"
proof -
  have d: "d \<noteq> CHR ''-''" using digit_not_sign [OF assms] by simp
  have "skipWhitespaceAndComments (pre @ CHR ''-'' # d # r) (length pre) = length pre"
    using d by (subst skipWhitespaceAndComments.simps) (simp add: nth_append is_space_def)
  then show ?thesis by (simp add: scan_def Let_def scan_at_def nth_append quote_def is_digit_def isLetter_def)
qed

lemma parseUnary_FormatInt:
  assumes "ends_number post"
  shows "parseUnary R \<lparr>src = pre @ FormatInt v @ post, pos = length pre, peek = None\<rparr> =
    Inr (IntLiteral v, \<lparr>src = pre @ FormatInt v @ post, pos = length (pre @ FormatInt v), peek = None\<rparr>)"
proof (cases "sint v < 0")
  case True
  let ?ds = "dec_digits (nat (- sint v))"
  have ds: "list_all is_digit ?ds" "?ds \<noteq> []" using dec_digits_ok by blast+
  then obtain d r where d: "?ds = d # r" "is_digit d" by (cases ?ds) auto
  have f: "FormatInt v = CHR ''-'' # ?ds" using True by (simp add: FormatInt_def)
  have "numericLiteral (mkTok TokInt ?ds p) ''-'' = Inr (IntLiteral v)" for p
    using ParseInt_FormatInt [of v] f by (simp add: numericLiteral_def mkTok_def)
  then show ?thesis
    using scan_minus [OF d(2), of pre "r @ post"] scan_digits [OF ds assms, of "pre @ ''-''"] d(1)
    by (simp add: f parseUnary_def look_def Peek_def Let_def skip_def Next_def mkTok_def)
next
  case False
  let ?ds = "dec_digits (nat (sint v))"
  have ds: "list_all is_digit ?ds" "?ds \<noteq> []" using dec_digits_ok by blast+
  have f: "FormatInt v = ?ds" using False by (simp add: FormatInt_def)
  have "numericLiteral (mkTok TokInt ?ds p) [] = Inr (IntLiteral v)" for p
    using ParseInt_FormatInt [of v] f by (simp add: numericLiteral_def mkTok_def)
  then show ?thesis
    using scan_digits [OF ds assms, of pre]
    by (simp add: f parseUnary_def parsePrimary_def pnext_def look_def Peek_def Let_def Next_def mkTok_def)
qed

lemma quote_not_space: "skipWhitespaceAndComments (pre @ quote # r) (length pre) = length pre"
  by (subst skipWhitespaceAndComments.simps) (simp add: nth_append is_space_def quote_def)


section \<open>Properties\<close>

text \<open>
  C28: parsing terminates. On every input the parser returns a statement or one of its errors within
  fuel proportional to the length of the input; the bound \<open>FuelExhausted\<close> of the model is never reached.
\<close>

theorem ParseStatement_terminates: "ParseStatement s \<noteq> Inl FuelExhausted"
  unfolding ParseStatement_def by (rule ParseStatement_with_fuel) (simp add: NewLexer_def work_def)

text \<open>
  C34: string literals survive printing and scanning. Wherever the rendering of a string stands in the
  source (not directly before another quote), the lexer reads back exactly that string, quotes inside
  it included, and goes on behind it.
\<close>

theorem StringLiteral_roundtrip:
  assumes "post = [] \<or> hd post \<noteq> quote"
  shows "scan \<lparr>src = pre @ StringLiteral_String v @ post, pos = length pre, peek = None\<rparr> =
    (Inr (mkTok TokString v (length pre)),
     \<lparr>src = pre @ StringLiteral_String v @ post, pos = length (pre @ StringLiteral_String v), peek = None\<rparr>)"
proof -
  let ?s = "pre @ StringLiteral_String v @ post"
  have s: "?s = pre @ quote # (escape_quotes v @ quote # post)" by (simp add: StringLiteral_String_def)
  have "string_loop ?s (length pre + 1) [] = (Some v, length pre + length (escape_quotes v) + 2)"
    using string_loop_escape [OF assms, of "pre @ [quote]" v "[]"] by (simp add: s)
  then have "scan_at ?s (length pre) = (Inr (mkTok TokString v (length pre)), length pre + length (escape_quotes v) + 2)"
    by (simp add: scan_at_def scanString_def Let_def) (simp add: s)
  then show ?thesis
    using quote_not_space [of pre "escape_quotes v @ quote # post"]
    by (simp add: scan_def Let_def s [symmetric]) (simp add: StringLiteral_String_def)
qed

theorem StringLiteral_roundtrip_witness:
  "scan \<lparr>src = ''x = '' @ StringLiteral_String (''it'' @ [quote] @ ''s'') @ '' AND'', pos = 4, peek = None\<rparr> =
    (Inr (mkTok TokString (''it'' @ [quote] @ ''s'') 4),
     \<lparr>src = ''x = '' @ StringLiteral_String (''it'' @ [quote] @ ''s'') @ '' AND'', pos = 11, peek = None\<rparr>)"
  using StringLiteral_roundtrip [of "'' AND''" "''x = ''" "''it'' @ [quote] @ ''s''"]
  by (simp add: StringLiteral_String_def escape_quotes_def quote_def eval_nat_numeral)

text \<open>
  C35: where the parser looks ahead, a lexical error is lost. If the text at the cursor is not a token,
  the lookahead reports the end of input, the error is dropped and the cursor stands behind
  the offending text; the next lookahead reports the token after it.
\<close>

theorem look_drops_error:
  assumes "peek l = None" "start = skipWhitespaceAndComments (src l) (pos l)" "start < length (src l)"
    "scan_at (src l) start = (Inl e, p)" "scan (l\<lparr>pos := p\<rparr>) = (Inr t, l')"
  shows "look l = (zero_Token, l\<lparr>pos := p\<rparr>) \<and> start < p \<and> look (snd (look l)) = (t, l'\<lparr>peek := Some t\<rparr>)"
  using assms scan_at_progress [OF assms(3,4)] by (simp add: look_def Peek_def scan_def)

lemma ex_scan_at: "scan_at ''1 @ AND'' 2 = (Inl (UnexpectedChar (CHR ''@'') 2), 3)"
  by (simp add: scan_at_def Let_def quote_def is_digit_def isLetter_def)

lemma ex_ident_loop: "ident_loop ''1 @ AND'' 4 = 7"
  by (simp add: ident_loop.simps isLetter_def)

lemma ex_skip: "skipWhitespaceAndComments ''1 @ AND'' 1 = 2" "skipWhitespaceAndComments ''1 @ AND'' 3 = 4"
  by (simp_all add: skipWhitespaceAndComments.simps is_space_def)

lemma ex_scan_and: "scan_at ''1 @ AND'' 4 = (Inr (mkTok TokAND ''AND'' 4), 7)"
  by (simp add: scan_at_def Let_def quote_def is_digit_def isLetter_def scanIdent_def ex_ident_loop substring_def
      ToUpper_def to_upper_def keyword_table_def)

theorem look_drops_error_witness:
  "look \<lparr>src = ''1 @ AND'', pos = 1, peek = None\<rparr> = (zero_Token, \<lparr>src = ''1 @ AND'', pos = 3, peek = None\<rparr>) \<and>
   fst (look (snd (look \<lparr>src = ''1 @ AND'', pos = 1, peek = None\<rparr>))) = mkTok TokAND ''AND'' 4"
  using look_drops_error [of "\<lparr>src = ''1 @ AND'', pos = 1, peek = None\<rparr>" 2 "UnexpectedChar (CHR ''@'') 2" 3
      "mkTok TokAND ''AND'' 4" "\<lparr>src = ''1 @ AND'', pos = 7, peek = None\<rparr>"]
  by (simp add: ex_scan_at ex_skip ex_skip [unfolded One_nat_def] scan_def Let_def ex_scan_and) (metis fst_conv snd_conv)

end
