(* ===== verification/Operator.thy ===== *)
theory Operator
  imports ExprSem
begin

text \<open>
  The pull interface of the physical operators (\<^verbatim>\<open>exec/operator.go\<close>). What an operator sees of its child
  is the sequence of results of \<^verbatim>\<open>Next\<close>: batches, then the end of input or an error; a \<open>stream\<close> is that
  sequence. An operator is a step function on its state, in which the child is the stream still to come;
  \<open>drain\<close> collects the batches the step function delivers, and \<open>None\<close> would be an operator that never ends.
\<close>

datatype stream = EOF | Failed "exec_error go_err" | Deliver Batch stream

fun stream_Next :: "stream \<Rightarrow> (Batch option \<times> stream) xres" where
  "stream_Next EOF = Inr (None, EOF)"
| "stream_Next (Failed e) = Inl e"
| "stream_Next (Deliver b s) = Inr (Some b, s)"

fun batches :: "stream \<Rightarrow> Batch list" where
  "batches EOF = []"
| "batches (Failed e) = []"
| "batches (Deliver b s) = b # batches s"

fun ends_ok :: "stream \<Rightarrow> bool" where
  "ends_ok EOF \<longleftrightarrow> True"
| "ends_ok (Failed e) \<longleftrightarrow> False"
| "ends_ok (Deliver b s) \<longleftrightarrow> ends_ok s"

fun stream_of :: "Batch list \<Rightarrow> stream" where
  "stream_of [] = EOF"
| "stream_of (b # bs) = Deliver b (stream_of bs)"

lemma stream_of_batches [simp]: "batches (stream_of bs) = bs" "ends_ok (stream_of bs)"
  by (induction bs) auto

text \<open>The rows of a batch in the order an operator visits them.\<close>

definition sel_rows :: "Batch \<Rightarrow> nat list" where
  "sel_rows b = (case SelVec b of Some s \<Rightarrow> map unat s | None \<Rightarrow> [0..<BLength b])"

text \<open>Sequencing of steps that may diverge (\<open>None\<close>), fail, or return.\<close>

definition obind :: "'a xres option \<Rightarrow> ('a \<Rightarrow> 'b xres option) \<Rightarrow> 'b xres option" where
  "obind m f = (case m of None \<Rightarrow> None | Some (Inl e) \<Rightarrow> Some (Inl e) | Some (Inr x) \<Rightarrow> f x)"

lemma obind_simps [simp, go_simps]:
  "obind None f = None" "obind (Some (Inl e)) f = Some (Inl e)" "obind (Some (Inr x)) f = f x"
  by (simp_all add: obind_def)

partial_function (option) drain :: "('s \<Rightarrow> (Batch option \<times> 's) xres) \<Rightarrow> 's \<Rightarrow> stream option" where
  "drain step s = (case step s of
     Inl e \<Rightarrow> Some (Failed e)
   | Inr r \<Rightarrow> (case fst r of
       None \<Rightarrow> Some EOF
     | Some b \<Rightarrow> Option.bind (drain step (snd r)) (\<lambda>out. Some (Deliver b out))))"

declare drain.simps [code]

lemma drain_steps:
  "step s = Inl e \<Longrightarrow> drain step s = Some (Failed e)"
  "step s = Inr (None, s') \<Longrightarrow> drain step s = Some EOF"
  "step s = Inr (Some b, s') \<Longrightarrow> drain step s = map_option (Deliver b) (drain step s')"
  by (subst drain.simps; simp add: map_option_case split: option.splits)+

lemma drain_same: "step s = step s' \<Longrightarrow> drain step s = drain step s'"
  by (subst (1 2) drain.simps) simp

text \<open>
  The contract every operator has: each batch it delivers brings it closer to the end. So pulling it
  until it reports the end or an error always terminates.
\<close>

locale pull_operator =
  fixes step :: "'s \<Rightarrow> (Batch option \<times> 's) xres" and left :: "'s \<Rightarrow> nat"
  assumes step_less: "step s = Inr (Some b, s') \<Longrightarrow> left s' < left s"
begin

lemma drain_total: "\<exists>out. drain step s = Some out"
proof (induction s rule: measure_induct_rule [of left])
  case (less s)
  show ?case
  proof (cases "step s")
    case (Inl e)
    then show ?thesis by (simp add: drain_steps)
  next
    case (Inr r)
    obtain ob s' where r: "r = (ob, s')" by (cases r)
    then show ?thesis
      using less [of s'] step_less [of s _ s'] Inr by (cases ob) (auto simp: drain_steps)
  qed
qed

lemma drain_length: "drain step s = Some out \<Longrightarrow> length (batches out) \<le> left s"
proof (induction s arbitrary: out rule: measure_induct_rule [of left])
  case (less s)
  show ?case
  proof (cases "step s")
    case (Inl e)
    then show ?thesis using less.prems by (auto simp: drain_steps)
  next
    case (Inr r)
    obtain ob s' where r: "r = (ob, s')" by (cases r)
    show ?thesis
    proof (cases ob)
      case None
      then show ?thesis using less.prems Inr r by (auto simp: drain_steps)
    next
      case (Some b)
      then obtain out' where "drain step s' = Some out'" "out = Deliver b out'"
        using less.prems Inr r by (auto simp: drain_steps)
      then show ?thesis using less.IH [of s' out'] step_less [of s b s'] Inr r Some by fastforce
    qed
  qed
qed

end


section \<open>Rows\<close>

definition row_at :: "Batch \<Rightarrow> nat \<Rightarrow> val option list" where
  "row_at b i = map (\<lambda>v. vget v i) (Vectors b)"

definition batch_rows :: "Batch \<Rightarrow> val option list list" where
  "batch_rows b = map (row_at b) (sel_rows b)"

definition all_rows :: "stream \<Rightarrow> val option list list" where
  "all_rows s = concat (map batch_rows (batches s))"

text \<open>
  A batch as operators hand it on: at least one column, every vector of the column's type and
  covering the physical rows, the selected rows among them, \<^verbatim>\<open>Length\<close> the number of logical rows, and
  row indices that fit the selection vector.
\<close>

definition wf_rows :: "DataType list \<Rightarrow> Batch \<Rightarrow> bool" where
  "wf_rows G b \<longleftrightarrow> G \<noteq> [] \<and> wf_batch G b \<and> (\<forall>i \<in> set (sel_rows b). i < evalLen b) \<and>
     BLength b = length (sel_rows b) \<and> evalLen b \<le> 2 ^ 16 \<and> BLength b \<le> 2 ^ 16"

lemma wf_rows_select:
  assumes "wf_rows G b" "\<forall>i \<in> set s. unat i < evalLen b" "length s \<le> BLength b"
  shows "wf_rows G (b\<lparr>SelVec := Some s, BLength := length s\<rparr>)"
    "batch_rows (b\<lparr>SelVec := Some s, BLength := length s\<rparr>) = map (row_at b) (map unat s)"
proof -
  have ne: "Vectors b \<noteq> []" using assms(1) by (auto simp: wf_rows_def wf_batch_def)
  have "wf_vector (evalLen b) (hd (Vectors b))"
    using assms(1) ne by (auto simp: wf_rows_def wf_batch_def hd_conv_nth)
  then have "Len (hd (Vectors b)) = evalLen b" by simp
  then have "evalLen (b\<lparr>SelVec := Some s, BLength := length s\<rparr>) = evalLen b"
    using ne by (simp add: evalLen_def physicalLen_def)
  then show "wf_rows G (b\<lparr>SelVec := Some s, BLength := length s\<rparr>)"
    "batch_rows (b\<lparr>SelVec := Some s, BLength := length s\<rparr>) = map (row_at b) (map unat s)"
    using assms by (auto simp: wf_rows_def wf_batch_def sel_rows_def batch_rows_def row_at_def)
qed


section \<open>Filter\<close>

fun ExprType :: "expr \<Rightarrow> DataType" where
  "ExprType (ColumnRef name i t) = t"
| "ExprType (LiteralExpr v t) = t"
| "ExprType (CastIntToFloatExpr e) = TypeFloat64"
| "ExprType (BinOp op l r t) = t"
| "ExprType (CaseExpr ws els t) = t"
| "ExprType _ = TypeBool"

definition NewFilter :: "expr \<Rightarrow> unit xres" where
  "NewFilter predicate = (if ExprType predicate \<noteq> TypeBool then Inl (Err ErrFilterType) else Inr ())"

fun Filter_Next :: "expr \<Rightarrow> stream \<Rightarrow> (Batch option \<times> stream) xres" where
  "Filter_Next predicate EOF = Inr (None, EOF)"
| "Filter_Next predicate (Failed e) = Inl e"
| "Filter_Next predicate (Deliver batch rest) = res_bind (eval batch predicate) (\<lambda>bv. case bv of
     BoolVector bits nb n \<Rightarrow> res_bind (BoolToSelVecInto batch bits nb n) (\<lambda>sel.
       if sel = [] then Filter_Next predicate rest
       else Inr (Some (batch\<lparr>SelVec := Some sel, BLength := length sel\<rparr>), rest))
   | _ \<Rightarrow> Inl (Err ErrFilterPredicate))"

lemma Filter_Next_less: "Filter_Next e s = Inr (Some b, s') \<Longrightarrow> length (batches s') < length (batches s)"
proof (induction s)
  case (Deliver b0 rest)
  obtain bv where bv: "eval b0 e = Inr bv" using Deliver.prems by (auto simp: res_bind_eq_Inr)
  show ?case
  proof (cases bv)
    case (BoolVector bits nb n)
    then obtain sv where "BoolToSelVecInto b0 bits nb n = Inr sv" using Deliver.prems bv by (auto simp: res_bind_eq_Inr)
    then show ?thesis using Deliver bv BoolVector by (cases "sv = []") auto
  qed (use Deliver.prems bv in simp_all)
qed auto

interpretation filter_op: pull_operator "Filter_Next e" "\<lambda>s. length (batches s)" for e
  by unfold_locales (rule Filter_Next_less)

lemma Filter_step:
  assumes wf: "wf_rows G b" "typeOf G e = Some TypeBool" "lits_select b e" "scost b e < 2 ^ 32"
  obtains s where "Filter_Next e (Deliver b rest) =
      (if s = [] then Filter_Next e rest else Inr (Some (b\<lparr>SelVec := Some s, BLength := length s\<rparr>), rest))"
    "map unat s = filter (\<lambda>i. sem b i e = Some (VBool True)) (sel_rows b)"
proof -
  have wb: "wf_batch G b" using wf(1) by (simp add: wf_rows_def)
  obtain v where v: "eval b e = Inr v" "VType v = TypeBool" "wf_vector (evalLen b) v" "\<forall>i < evalLen b. vget v i = sem b i (as_evaluated b e)"
    using eval_correct_at [OF wb, of e] wf(2,4) by (auto simp: correct_at_def computes_def)
  then obtain bits nb where b: "v = BoolVector bits nb (evalLen b)" by (cases v) auto
  let ?P = "\<lambda>i. row3 bits nb i = Some True"
  have sem: "?P i \<longleftrightarrow> sem b i e = Some (VBool True)" if "i < evalLen b" for i
    using v(4) [rule_format, OF that] selects_as_evaluated [OF wb wf(2,3) that]
    unfolding b vget_BoolVector_row3 map_VBool_True [symmetric] by simp
  have idx: "\<forall>i \<in> set (sel_rows b). i < evalLen b" using wf(1) by (simp add: wf_rows_def)
  define s where "s = (case SelVec b of None \<Rightarrow> map of_nat (filter ?P [0..<evalLen b]) | Some s \<Rightarrow> filter (\<lambda>i. ?P (unat i)) s)"
  have "BoolToSelVecInto b bits nb (evalLen b) = Inr s"
    unfolding s_def using v(3) b idx by (intro BoolToSelVecInto_ok) (auto simp: sel_rows_def)
  moreover have "map unat s = filter (\<lambda>i. sem b i e = Some (VBool True)) (sel_rows b)"
  proof (cases "SelVec b")
    case None
    have "evalLen b \<le> 2 ^ 16" "evalLen b = BLength b" using wf(1) None by (simp_all add: wf_rows_def evalLen_def)
    then have "map (\<lambda>i. unat (of_nat i :: u16)) (filter ?P [0..<evalLen b]) = filter ?P [0..<evalLen b]"
      by (intro map_idI) (auto simp: unsigned_of_nat take_bit_nat_eq_self)
    moreover have "filter ?P [0..<evalLen b] = filter (\<lambda>i. sem b i e = Some (VBool True)) [0..<evalLen b]"
      using sem by (intro filter_cong) auto
    ultimately show ?thesis using None \<open>evalLen b = BLength b\<close> by (simp add: s_def sel_rows_def comp_def)
  next
    case (Some s0)
    have "map unat s = filter ?P (sel_rows b)" using Some by (simp add: s_def sel_rows_def filter_map comp_def)
    also have "\<dots> = filter (\<lambda>i. sem b i e = Some (VBool True)) (sel_rows b)" using idx sem by (intro filter_cong) auto
    finally show ?thesis .
  qed
  ultimately show thesis using that [of s] v(1) b by simp
qed

lemma all_rows_simps [simp]: "all_rows EOF = []" "all_rows (Failed e) = []" "all_rows (Deliver b s) = batch_rows b @ all_rows s"
  by (simp_all add: all_rows_def)

definition filtered :: "expr \<Rightarrow> Batch \<Rightarrow> val option list list" where
  "filtered e b = map (row_at b) (filter (\<lambda>i. sem b i e = Some (VBool True)) (sel_rows b))"

lemma Filter_drain:
  assumes "typeOf G e = Some TypeBool" "ends_ok s"
    "\<forall>b \<in> set (batches s). wf_rows G b \<and> lits_select b e \<and> scost b e < 2 ^ 32"
  shows "\<exists>out. drain (Filter_Next e) s = Some out \<and> ends_ok out \<and> (\<forall>b \<in> set (batches out). wf_rows G b) \<and>
    all_rows out = concat (map (filtered e) (batches s))"
  using assms(2,3)
proof (induction s)
  case EOF
  then show ?case by (simp add: drain_steps)
next
  case (Deliver b rest)
  then obtain out where out: "drain (Filter_Next e) rest = Some out" "ends_ok out" "\<forall>b \<in> set (batches out). wf_rows G b"
    "all_rows out = concat (map (filtered e) (batches rest))" by auto
  have wf: "wf_rows G b" "lits_select b e" "scost b e < 2 ^ 32" using Deliver.prems(2) by auto
  obtain sv where sv: "Filter_Next e (Deliver b rest) =
      (if sv = [] then Filter_Next e rest else Inr (Some (b\<lparr>SelVec := Some sv, BLength := length sv\<rparr>), rest))"
    "map unat sv = filter (\<lambda>i. sem b i e = Some (VBool True)) (sel_rows b)"
    using Filter_step [OF wf(1) assms(1) wf(2,3)] by blast
  have sub: "\<forall>i \<in> set sv. unat i < evalLen b"
    using arg_cong [OF sv(2), of set] wf(1) by (auto simp: wf_rows_def)
  have "length sv \<le> BLength b"
    using arg_cong [OF sv(2), of length] wf(1) by (simp add: wf_rows_def)
  note sel = wf_rows_select [OF wf(1) sub this]
  show ?case
  proof (cases "sv = []")
    case True
    then have "filtered e b = []" using sv(2) by (simp add: filtered_def)
    moreover have "drain (Filter_Next e) (Deliver b rest) = Some out"
      using drain_same [of "Filter_Next e" "Deliver b rest" rest] sv(1) True out(1) by (simp del: Filter_Next.simps)
    ultimately show ?thesis using out by simp
  next
    case False
    then have "drain (Filter_Next e) (Deliver b rest) = Some (Deliver (b\<lparr>SelVec := Some sv, BLength := length sv\<rparr>) out)"
      using sv(1) out(1) by (simp add: drain_steps(3) del: Filter_Next.simps)
    moreover have "batch_rows (b\<lparr>SelVec := Some sv, BLength := length sv\<rparr>) = filtered e b"
      using sel(2) sv(2) by (simp add: filtered_def del: map_map)
    ultimately show ?thesis using out sel(1) by simp
  qed
qed simp


section \<open>Limit\<close>

definition keepRows :: "Batch \<Rightarrow> nat \<Rightarrow> nat \<Rightarrow> Batch xres" where
  "keepRows batch start n = res_map (\<lambda>sv. batch\<lparr>SelVec := Some sv, BLength := n\<rparr>)
     (case SelVec batch of Some sv \<Rightarrow> slice sv start (start + n) | None \<Rightarrow> Inr (map (\<lambda>i. of_nat (start + i)) [0..<n]))"

fun Limit_loop :: "int \<Rightarrow> int \<Rightarrow> stream \<Rightarrow> (Batch option \<times> int \<times> int \<times> stream) xres" where
  "Limit_loop remaining skip EOF = Inr (None, remaining, skip, EOF)"
| "Limit_loop remaining skip (Failed e) = (if remaining = 0 then Inr (None, remaining, skip, Failed e) else Inl e)"
| "Limit_loop remaining skip (Deliver batch rest) = (
     if remaining = 0 then Inr (None, remaining, skip, Deliver batch rest)
     else if 0 < skip \<and> int (BLength batch) \<le> skip then Limit_loop remaining (skip - int (BLength batch)) rest
     else res_bind (if 0 < skip then keepRows batch (nat skip) (BLength batch - nat skip) else Inr batch) (\<lambda>batch.
       let skip = (if 0 < skip then 0 else skip) in
       if remaining < 0 \<or> int (BLength batch) \<le> remaining then
         Inr (Some batch, if 0 < remaining then remaining - int (BLength batch) else remaining, skip, rest)
       else res_map (\<lambda>batch. (Some batch, 0, skip, rest)) (keepRows batch 0 (nat remaining))))"

definition Limit_Next :: "int \<times> int \<times> stream \<Rightarrow> (Batch option \<times> int \<times> int \<times> stream) xres" where
  "Limit_Next l = (case l of (remaining, skip, child) \<Rightarrow> Limit_loop remaining skip child)"

definition NewLimit :: "stream \<Rightarrow> int \<Rightarrow> int \<times> int \<times> stream" where
  "NewLimit child n = (n, 0, child)"

definition NewLimitOffset :: "stream \<Rightarrow> int \<Rightarrow> int \<Rightarrow> int \<times> int \<times> stream" where
  "NewLimitOffset child n offset = (n, offset, child)"

lemma Limit_loop_less: "Limit_loop n k s = Inr (Some b, n', k', s') \<Longrightarrow> length (batches s') < length (batches s)"
proof (induction n k s rule: Limit_loop.induct)
  case (3 n k b0 rest)
  show ?case
  proof (cases "n \<noteq> 0 \<and> 0 < k \<and> int (BLength b0) \<le> k")
    case True
    then show ?thesis using 3 by auto
  next
    case False
    then have "s' = rest" using 3(2) by (auto simp: res_bind_eq_Inr res_map_eq_Inr Let_def split: if_splits)
    then show ?thesis by simp
  qed
qed (auto split: if_splits)

interpretation limit_op: pull_operator Limit_Next "\<lambda>(n, k, s). length (batches s)"
  by unfold_locales (auto simp: Limit_Next_def dest: Limit_loop_less)

lemma keepRows_ok:
  assumes "wf_rows G b" "start + n \<le> BLength b"
  obtains b' where "keepRows b start n = Inr b'" "wf_rows G b'" "batch_rows b' = take n (drop start (batch_rows b))" "BLength b' = n"
proof -
  have len: "length (sel_rows b) = BLength b" "\<forall>i \<in> set (sel_rows b). i < evalLen b" "evalLen b \<le> 2 ^ 16"
    using assms(1) by (simp_all add: wf_rows_def)
  obtain sv where sv: "(case SelVec b of Some sv \<Rightarrow> slice sv start (start + n) | None \<Rightarrow> Inr (map (\<lambda>i. of_nat (start + i)) [0..<n])) = (Inr sv :: SelectionVector xres)"
    "map unat sv = take n (drop start (sel_rows b))"
  proof (cases "SelVec b")
    case None
    have "unat (of_nat (start + i) :: u16) = start + i" if "i < n" for i
    proof -
      have "start + i < 2 ^ 16" using that assms(2) len(3) None by (simp add: evalLen_def)
      then show ?thesis by (simp add: unsigned_of_nat take_bit_nat_eq_self del: of_nat_add)
    qed
    then have "map unat (map (\<lambda>i. of_nat (start + i) :: u16) [0..<n]) = map (\<lambda>i. start + i) [0..<n]" by (simp del: of_nat_add)
    also have "\<dots> = take n (drop start (sel_rows b))"
      using assms(2) None by (intro nth_equalityI) (auto simp: sel_rows_def)
    finally show thesis using that None by simp
  next
    case (Some s0)
    then show thesis using that len(1) assms(2) by (auto simp: sel_rows_def take_map drop_map)
  qed
  have "length sv = n" using arg_cong [OF sv(2), of length] len(1) assms(2) by simp
  then have k: "keepRows b start n = Inr (b\<lparr>SelVec := Some sv, BLength := length sv\<rparr>)"
    unfolding keepRows_def sv(1) by simp
  have "\<forall>i \<in> set sv. unat i < evalLen b" "length sv \<le> BLength b"
    using arg_cong [OF sv(2), of set] len(2) \<open>length sv = n\<close> assms(2) by (auto dest!: in_set_takeD in_set_dropD)
  note sel = wf_rows_select [OF assms(1) this]
  show thesis using that [OF k] sel sv(2) \<open>length sv = n\<close> by (simp add: batch_rows_def take_map drop_map del: map_map)
qed

definition limited :: "int \<Rightarrow> 'a list \<Rightarrow> 'a list" where
  "limited n xs = (if n < 0 then xs else take (nat n) xs)"

lemma length_rows: "wf_rows G b \<Longrightarrow> length (batch_rows b) = BLength b"
  by (simp add: batch_rows_def wf_rows_def)

lemma Limit_drain:
  assumes "ends_ok s" "\<forall>b \<in> set (batches s). wf_rows G b"
  shows "\<exists>out. drain Limit_Next (n, k, s) = Some out \<and> ends_ok out \<and> (\<forall>b \<in> set (batches out). wf_rows G b) \<and>
    all_rows out = limited n (drop (nat k) (all_rows s))"
  using assms
proof (induction s arbitrary: n k)
  case EOF
  then show ?case by (simp add: drain_steps Limit_Next_def limited_def)
next
  case (Deliver b rest)
  have wf: "wf_rows G b" using Deliver.prems by simp
  have len: "length (batch_rows b) = BLength b" by (rule length_rows [OF wf])
  have IH: "\<exists>out. drain Limit_Next (n, k, rest) = Some out \<and> ends_ok out \<and> (\<forall>b \<in> set (batches out). wf_rows G b) \<and>
      all_rows out = limited n (drop (nat k) (all_rows rest))" for n k using Deliver by simp
  have emit: ?case if step: "Limit_Next (n, k, Deliver b rest) = Inr (Some b', n', k', rest)" and wf': "wf_rows G b'"
    and rws: "batch_rows b' @ limited n' (drop (nat k') (all_rows rest)) = limited n (drop (nat k) (all_rows (Deliver b rest)))"
    for b' n' k'
  proof -
    obtain out where "drain Limit_Next (n', k', rest) = Some out" "ends_ok out" "\<forall>b \<in> set (batches out). wf_rows G b"
      "all_rows out = limited n' (drop (nat k') (all_rows rest))" using IH by blast
    then show ?thesis using wf' rws by (intro exI [of _ "Deliver b' out"]) (simp add: drain_steps(3) [where step = Limit_Next, OF step])
  qed
  consider (stop) "n = 0" | (skip) "n \<noteq> 0" "0 < k" "int (BLength b) \<le> k" | (go) "n \<noteq> 0" "\<not> (0 < k \<and> int (BLength b) \<le> k)"
    by blast
  then show ?case
  proof cases
    case stop
    then have step: "Limit_Next (n, k, Deliver b rest) = Inr (None, n, k, Deliver b rest)" by (simp add: Limit_Next_def)
    show ?thesis unfolding drain_steps(2) [where step = Limit_Next, OF step] using stop by (simp add: limited_def)
  next
    case skip
    then have "Limit_Next (n, k, Deliver b rest) = Limit_Next (n, k - int (BLength b), rest)" by (simp add: Limit_Next_def)
    then have "drain Limit_Next (n, k, Deliver b rest) = drain Limit_Next (n, k - int (BLength b), rest)" by (rule drain_same)
    moreover have "drop (nat k) (all_rows (Deliver b rest)) = drop (nat (k - int (BLength b))) (all_rows rest)"
      using skip len by (simp add: nat_diff_distrib)
    ultimately show ?thesis using IH [of n "k - int (BLength b)"] by simp
  next
    case go
    have "nat k + (BLength b - nat k) \<le> BLength b" using go(2) by auto
    then obtain b1 where b1: "(if 0 < k then keepRows b (nat k) (BLength b - nat k) else Inr b) = (Inr b1 :: Batch xres)" "wf_rows G b1"
      "batch_rows b1 = drop (nat k) (batch_rows b)" "BLength b1 = BLength b - nat k"
      using keepRows_ok [OF wf, of "nat k" "BLength b - nat k"] wf len by (cases "0 < k") auto
    have len1: "length (batch_rows b1) = BLength b1" by (rule length_rows [OF b1(2)])
    have all: "drop (nat k) (all_rows (Deliver b rest)) = batch_rows b1 @ all_rows rest" using b1(3) go len by (auto simp: nat_le_iff)
    show ?thesis
    proof (cases "n < 0 \<or> int (BLength b1) \<le> n")
      case True
      have "Limit_Next (n, k, Deliver b rest) =
          Inr (Some b1, if 0 < n then n - int (BLength b1) else n, if 0 < k then 0 else k, rest)"
        using go True by (auto simp: Limit_Next_def b1(1))
      then show ?thesis
        using True go(1) len1 b1(2) all by (intro emit) (auto simp: limited_def nat_diff_distrib)
    next
      case False
      then obtain b2 where b2: "keepRows b1 0 (nat n) = Inr b2" "wf_rows G b2" "batch_rows b2 = take (nat n) (batch_rows b1)"
        using keepRows_ok [OF b1(2), of 0 "nat n"] by (metis add_0 drop0 linorder_not_le nat_less_iff nat_le_iff not_le less_imp_le)
      have "Limit_Next (n, k, Deliver b rest) = Inr (Some b2, 0, if 0 < k then 0 else k, rest)"
        using go False by (auto simp: Limit_Next_def b1(1) b2(1))
      then show ?thesis
        using False go(1) len1 b2 all by (intro emit) (auto simp: limited_def)
    qed
  qed
qed simp

section \<open>What the operators deliver\<close>

text \<open>
  C15: a filter whose predicate types as a boolean delivers, to a caller that pulls until the end, exactly the
  rows of its input on which the predicate's SQL meaning is TRUE (not FALSE, not NULL), in order; it always reaches the end
  and never fails, and every batch it hands on is well formed for the operators above it. The hypotheses on each
  batch: it is well formed; the dictionaries the predicate reads stay within 32-bit codes; and a comparison of a string
  column with a literal that is not in the batch's dictionary occurs only as \<open>=\<close> under AND and OR, or as
  \<open><>\<close> on a column without NULLs (elsewhere the evaluator departs from SQL).
\<close>

theorem Filter_selects:
  assumes "NewFilter e = Inr ()" "typeOf G e = Some TypeBool"
    "\<forall>b \<in> set bs. wf_rows G b \<and> lits_select b e \<and> scost b e < 2 ^ 32"
  shows "\<exists>out. drain (Filter_Next e) (stream_of bs) = Some out \<and> ends_ok out \<and> (\<forall>b \<in> set (batches out). wf_rows G b) \<and>
    all_rows out = concat (map (filtered e) bs)"
  using Filter_drain [OF assms(2), of "stream_of bs"] assms(3) by simp

definition ex_ints :: Batch where
  "ex_ints = \<lparr>BSchema = [], Vectors = [Int64Vector [5, 7, 5] [0x07]], BLength = 3, SelVec = None\<rparr>"

lemma ex_ints_valid: "i < 3 \<Longrightarrow> valid_at [0x07 :: byte] i"
proof -
  assume "i < 3"
  then consider "i = 0" | "i = 1" | "i = 2" by linarith
  then show ?thesis by cases (simp_all only: valid_at_def, code_simp+)
qed

lemma ex_ints_wf: "wf_rows [TypeInt64] ex_ints"
  by (simp add: wf_rows_def wf_batch_def ex_ints_def evalLen_def sel_rows_def)

lemma ex_ints_rows: "batch_rows ex_ints = [[Some (VInt 5)], [Some (VInt 7)], [Some (VInt 5)]]"
  by (simp add: batch_rows_def sel_rows_def ex_ints_def row_at_def upt_conv_Cons ex_ints_valid)

definition ex_pred :: expr where
  "ex_pred = BinOp BinEQ (ColumnRef ''k'' 0 TypeInt64) (LiteralExpr (VInt 5) TypeInt64) TypeBool"

theorem Filter_selects_witness:
  "\<exists>out. drain (Filter_Next ex_pred) (stream_of [ex_ints]) = Some out \<and> all_rows out = [[Some (VInt 5)], [Some (VInt 5)]]"
proof -
  have "wf_rows [TypeInt64] ex_ints \<and> lits_select ex_ints ex_pred \<and> scost ex_ints ex_pred < 2 ^ 32"
    using ex_ints_wf by (simp add: ex_pred_def ex_ints_def)
  moreover have "filtered ex_pred ex_ints = [[Some (VInt 5)], [Some (VInt 5)]]"
    by (simp add: filtered_def ex_pred_def sel_rows_def ex_ints_def row_at_def upt_conv_Cons ex_ints_valid col_at_def lift2_def)
  moreover have "NewFilter ex_pred = Inr ()" "typeOf [TypeInt64] ex_pred = Some TypeBool" by (simp_all add: NewFilter_def ex_pred_def cmp_type_def)
  ultimately show ?thesis using Filter_selects [of ex_pred "[TypeInt64]" "[ex_ints]"] by auto
qed

text \<open>
  C19: LIMIT and OFFSET over any way the rows are cut into batches: the operator delivers the rows of its input
  without the first \<open>k\<close>, and of those the first \<open>n\<close> (all of them when \<open>n\<close> is negative).
\<close>

theorem Limit_window:
  assumes "\<forall>b \<in> set bs. wf_rows G b"
  shows "\<exists>out. drain Limit_Next (NewLimitOffset (stream_of bs) n k) = Some out \<and> ends_ok out \<and>
    all_rows out = limited n (drop (nat k) (concat (map batch_rows bs)))"
  using Limit_drain [of "stream_of bs" G n k] assms by (auto simp: NewLimitOffset_def all_rows_def)

theorem Limit_window_witness:
  "\<exists>out. drain Limit_Next (NewLimitOffset (stream_of [ex_ints, ex_ints]) 3 2) = Some out \<and>
    all_rows out = [[Some (VInt 5)], [Some (VInt 5)], [Some (VInt 7)]]"
  using Limit_window [of "[ex_ints, ex_ints]" "[TypeInt64]" 3 2] ex_ints_wf by (auto simp: ex_ints_rows limited_def)

text \<open>
  Every pull-based operator ends: whatever batches and errors its child delivers, pulling a filter or a limit until
  it reports the end or an error takes at most as many batches as the child has.
\<close>

theorem operators_end:
  "(\<exists>out. drain (Filter_Next e) s = Some out \<and> length (batches out) \<le> length (batches s)) \<and>
   (\<exists>out. drain Limit_Next (n, k, s) = Some out \<and> length (batches out) \<le> length (batches s))"
  using filter_op.drain_total [of e s] filter_op.drain_length [of e s]
    limit_op.drain_total [of "(n, k, s)"] limit_op.drain_length [of "(n, k, s)"] by fastforce

end
