(* ===== verification/Emit.thy ===== *)
theory Emit
  imports Operator
begin

text \<open>
  The column-building loops that the sort, the join and the aggregate share: fresh vectors of \<open>n\<close> rows are filled row
  by row from materialised rows, a row that is NULL is left as allocated, and any other row is written and marked
  valid. A string column goes through a dictionary builder. The lemmas say that the vector reads back as the cells.
\<close>

section \<open>Filling a column\<close>

definition fill_loop :: "(nat \<Rightarrow> bool xres) \<Rightarrow> (nat \<Rightarrow> 's \<Rightarrow> 's xres) \<Rightarrow> nat \<Rightarrow> 's \<Rightarrow> ('s \<times> byte list) xres" where
  "fill_loop null put n s0 = fold_res (\<lambda>(s, nb) i. res_bind (null i) (\<lambda>isn. if isn then Inr (s, nb) else
     res_bind (put i s) (\<lambda>s. res_map (\<lambda>nb. (s, nb)) (SetValidBit nb i)))) (s0, replicate ((n + 7) div 8) 0) [0..<n]"

definition fill_fixed :: "(nat \<Rightarrow> bool xres) \<Rightarrow> (nat \<Rightarrow> 'v xres) \<Rightarrow> 'v \<Rightarrow> nat \<Rightarrow> ('v list \<times> byte list) xres" where
  "fill_fixed null get z n = fill_loop null (\<lambda>i vals. res_bind (get i) (upd vals i)) n (replicate n z)"

definition fill_bools :: "(nat \<Rightarrow> bool xres) \<Rightarrow> (nat \<Rightarrow> bool xres) \<Rightarrow> nat \<Rightarrow> (byte list \<times> byte list) xres" where
  "fill_bools null get n = fill_loop null (\<lambda>i bits. res_bind (get i) (BoolVector_Set bits i)) n (replicate ((n + 7) div 8) 0)"

definition fill_strings :: "(nat \<Rightarrow> bool xres) \<Rightarrow> (nat \<Rightarrow> string xres) \<Rightarrow> nat \<Rightarrow> vector xres" where
  "fill_strings null get n = res_bind
     (fill_loop null (\<lambda>i (db, codes). res_bind (get i) (\<lambda>s. let (c, db) = DictBuilder_Add db s in res_map (\<lambda>codes. (db, codes)) (upd codes i c)))
        n (NewDictBuilder, replicate n 0))
     (\<lambda>((db, codes), nb). newStringVector db codes nb)"


lemma map_res_exists:
  assumes "\<forall>x \<in> set xs. \<exists>y. f x = Inr y \<and> P x y"
  shows "\<exists>ys. map_res f xs = Inr ys \<and> list_all2 P xs ys"
  using assms by (induction xs) auto


section \<open>The column reads back as the cells\<close>

lemma fill_loop_ok:
  assumes null: "\<And>i. i < n \<Longrightarrow> null i = Inr (isn i)" and base: "Q 0 s0"
    and skip: "\<And>i s. i < n \<Longrightarrow> isn i \<Longrightarrow> Q i s \<Longrightarrow> Q (Suc i) s"
    and step: "\<And>i s. i < n \<Longrightarrow> \<not> isn i \<Longrightarrow> Q i s \<Longrightarrow> \<exists>s'. put i s = Inr s' \<and> Q (Suc i) s'"
  shows "\<exists>s nb. fill_loop null put n s0 = Inr (s, nb) \<and> Q n s \<and> length nb = bitmap_bytes n \<and> (\<forall>i < n. valid_at nb i \<longleftrightarrow> \<not> isn i)"
proof -
  let ?P = "\<lambda>j (s, nb). Q j s \<and> length nb = bitmap_bytes n \<and> (\<forall>i. valid_at nb i \<longleftrightarrow> i < j \<and> \<not> isn i)"
  have "\<exists>r. fill_loop null put n s0 = Inr r \<and> ?P n r"
    unfolding fill_loop_def
  proof (rule fold_res_upto [where P = ?P], goal_cases)
    case 1
    then show ?case using base by simp
  next
    case (2 i r)
    obtain s nb where r: "r = (s, nb)" by (cases r)
    have i: "i div 8 < length nb" using 2 r by (intro div8_less_bitmap_bytes) auto
    show ?case
    proof (cases "isn i")
      case True
      then show ?thesis using 2 r null skip by (auto simp: less_Suc_eq)
    next
      case False
      obtain s' where s': "put i s = Inr s'" "Q (Suc i) s'" using step [of i s] 2 r False by auto
      obtain nb' where "SetValidBit nb i = (Inr nb' :: byte list xres)" "length nb' = length nb"
        "\<And>j. valid_at nb' j \<longleftrightarrow> valid_at nb j \<or> j = i" using SetValidBit_eq [OF i] by blast
      then show ?thesis using 2 r null False s' by (auto simp: less_Suc_eq)
    qed
  qed
  then show ?thesis by auto
qed

lemma fill_fixed_ok:
  assumes "\<And>i. i < n \<Longrightarrow> null i = Inr (isn i)" "\<And>i. i < n \<Longrightarrow> \<not> isn i \<Longrightarrow> get i = Inr (x i)"
  shows "\<exists>vals nb. fill_fixed null get z n = Inr (vals, nb) \<and> length vals = n \<and> length nb = bitmap_bytes n \<and>
    (\<forall>i < n. (valid_at nb i \<longleftrightarrow> \<not> isn i) \<and> (\<not> isn i \<longrightarrow> vals ! i = x i))"
proof -
  have "\<exists>s nb. fill_loop null (\<lambda>i vals. res_bind (get i) (upd vals i)) n (replicate n z) = Inr (s, nb) \<and>
      (length s = n \<and> (\<forall>j < n. \<not> isn j \<longrightarrow> s ! j = x j)) \<and> length nb = bitmap_bytes n \<and> (\<forall>i < n. valid_at nb i \<longleftrightarrow> \<not> isn i)"
    by (rule fill_loop_ok [where Q = "\<lambda>i s. length s = n \<and> (\<forall>j < i. \<not> isn j \<longrightarrow> s ! j = x j)"])
      (use assms in \<open>auto simp: less_Suc_eq nth_list_update\<close>)
  then show ?thesis by (auto simp: fill_fixed_def)
qed

lemma fill_bools_ok:
  assumes "\<And>i. i < n \<Longrightarrow> null i = Inr (isn i)" "\<And>i. i < n \<Longrightarrow> \<not> isn i \<Longrightarrow> get i = Inr (x i)"
  shows "\<exists>bits nb. fill_bools null get n = Inr (bits, nb) \<and> length bits = bitmap_bytes n \<and> length nb = bitmap_bytes n \<and>
    (\<forall>i < n. (valid_at nb i \<longleftrightarrow> \<not> isn i) \<and> (\<not> isn i \<longrightarrow> (valid_at bits i \<longleftrightarrow> x i)))"
proof -
  have "\<exists>s nb. fill_loop null (\<lambda>i bits. res_bind (get i) (BoolVector_Set bits i)) n (replicate ((n + 7) div 8) 0) = Inr (s, nb) \<and>
      (length s = bitmap_bytes n \<and> (\<forall>j < n. \<not> isn j \<longrightarrow> (valid_at s j \<longleftrightarrow> x j))) \<and> length nb = bitmap_bytes n \<and> (\<forall>i < n. valid_at nb i \<longleftrightarrow> \<not> isn i)"
  proof (rule fill_loop_ok [where Q = "\<lambda>i s. length s = bitmap_bytes n \<and> (\<forall>j < i. \<not> isn j \<longrightarrow> (valid_at s j \<longleftrightarrow> x j))"], goal_cases)
    case (4 i s)
    then have "i div 8 < length s" using div8_less_bitmap_bytes by simp
    then obtain s' where "BoolVector_Set s i (x i) = Inr s'" "length s' = length s"
      "\<And>j. valid_at s' j \<longleftrightarrow> (if j = i then x i else valid_at s j)" using BoolVector_Set_eq by blast
    then show ?case using 4 assms(2) by (auto simp: less_Suc_eq)
  qed (use assms in \<open>auto simp: less_Suc_eq\<close>)
  then show ?thesis by (auto simp: fill_bools_def)
qed

text \<open>The dictionary of a string column holds each string once; together they must stay below \<open>2 ^ 32\<close> bytes.\<close>

lemma fill_strings_ok:
  assumes null: "\<And>i. i < n \<Longrightarrow> null i = Inr (isn i)" and get: "\<And>i. i < n \<Longrightarrow> \<not> isn i \<Longrightarrow> get i = Inr (x i)"
    and size: "(\<Sum>i < n. if isn i then 0 else Suc (length (x i))) < 2 ^ 32"
  shows "\<exists>v. fill_strings null get n = Inr v \<and> wf_vector n v \<and> VType v = TypeString \<and>
    (\<forall>i < n. vget v i = (if isn i then None else Some (VString (x i))))"
proof -
  let ?size = "\<lambda>j. \<Sum>i < j. if isn i then 0 else Suc (length (x i))"
  let ?Q = "\<lambda>i (db, codes). db_inv db \<and> length codes = n \<and> length (keys db) + length (concat (keys db)) \<le> ?size i \<and>
    (\<forall>j < i. \<not> isn j \<longrightarrow> unat ((codes :: u32 list) ! j) < length (keys db) \<and> keys db ! unat (codes ! j) = x j)"
  have mono: "?size i \<le> ?size n" if "i \<le> n" for i using that by (intro sum_mono2) auto
  have "\<exists>s nb. fill_loop null (\<lambda>i (db, codes). res_bind (get i) (\<lambda>s. let (c, db) = DictBuilder_Add db s in res_map (\<lambda>codes. (db, codes)) (upd codes i c)))
      n (NewDictBuilder, replicate n 0) = Inr (s, nb) \<and> ?Q n s \<and> length nb = bitmap_bytes n \<and> (\<forall>i < n. valid_at nb i \<longleftrightarrow> \<not> isn i)"
  proof (rule fill_loop_ok [where Q = ?Q and isn = isn], goal_cases)
    case 1
    then show ?case by (rule null)
  next
    case 2
    then show ?case by (simp add: NewDictBuilder_def) (simp add: db_inv_def)
  next
    case (3 i s)
    then show ?case by (auto simp: less_Suc_eq)
  next
    case (4 i s)
    obtain db codes where s: "s = (db, codes)" by (cases s)
    obtain c db' where add: "DictBuilder_Add db (x i) = (c, db')" by fastforce
    have inv: "db_inv db" "length codes = n" "length (keys db) + length (concat (keys db)) \<le> ?size i"
      and old: "\<And>j. j < i \<Longrightarrow> \<not> isn j \<Longrightarrow> unat (codes ! j) < length (keys db) \<and> keys db ! unat (codes ! j) = x j"
      using 4 s by auto
    have keys': "keys db' = (if x i \<in> set (keys db) then keys db else keys db @ [x i])"
      using DictBuilder_Add_keys [OF inv(1), of "x i"] add by simp
    have "length (keys db) < 2 ^ 32" using inv(3) mono [of i] 4(1) size by linarith
    then have c: "unat c < length (keys db')" "keys db' ! unat c = x i"
      using DictBuilder_Add_code [OF inv(1), of "x i"] add by simp_all
    have "unat (codes[i := c] ! j) < length (keys db') \<and> keys db' ! unat (codes[i := c] ! j) = x j" if "j < Suc i" "\<not> isn j" for j
      using c old [of j] that keys' inv(2) 4(1) by (cases "j = i") (auto simp: nth_append less_Suc_eq)
    moreover have "db_inv db'" using DictBuilder_Add_inv [OF inv(1), of "x i"] add by simp
    moreover have "length (keys db') + length (concat (keys db')) \<le> ?size (Suc i)" using inv(3) keys' 4(2) by simp
    ultimately have "?Q (Suc i) (db', codes[i := c])" using inv(2) by simp
    moreover have "upd codes i c = (Inr (codes[i := c]) :: u32 list xres)" using inv(2) 4(1) by simp
    ultimately show ?case using s get [OF 4(1,2)] add by (intro exI [of _ "(db', codes[i := c])"]) simp
  qed
  then obtain s nb where s: "fill_loop null (\<lambda>i (db, codes). res_bind (get i) (\<lambda>s. let (c, db) = DictBuilder_Add db s in res_map (\<lambda>codes. (db, codes)) (upd codes i c)))
      n (NewDictBuilder, replicate n 0) = Inr (s, nb)" "?Q n s" "length nb = bitmap_bytes n" "\<forall>i < n. valid_at nb i \<longleftrightarrow> \<not> isn i"
    by (elim exE conjE)
  obtain db codes where dc: "s = (db, codes)" by (cases s)
  note loop = s(1) [unfolded dc] and inv = s(2) [unfolded dc prod.case] s(3,4)
  have b: "dict_bounded (keys db)" using inv(1) size by (auto simp: dict_bounded_def)
  note d = dict_of_keys_ok [OF b]
  have off: "length (Offsets (dict_of_keys (keys db))) < 2 ^ 32" using b by (simp add: dict_of_keys_def dict_bounded_def)
  let ?v = "StringVector codes (Some (dict_of_keys (keys db))) nb"
  have "fill_strings null get n = Inr ?v" unfolding fill_strings_def loop using newStringVector_ok [OF b] by simp
  moreover have "wf_vector n ?v" using inv d off by (auto simp: db_inv_def)
  moreover have "\<forall>i < n. vget ?v i = (if isn i then None else Some (VString (x i)))" using inv d by auto
  ultimately show ?thesis by auto
qed

section \<open>Raw cells\<close>

text \<open>The 64 bits in which rows that outlive their batch keep a value; \<open>cell_val\<close> is how the emitting operators read them back.\<close>

fun raw_bits :: "val \<Rightarrow> u64" where
  "raw_bits (VInt x) = x"
| "raw_bits (VFloat x) = x"
| "raw_bits (VDate d) = word_of_int (sint d)"
| "raw_bits (VBool t) = (if t then 1 else 0)"
| "raw_bits (VString s) = 0"

lemma raw_bits_inj: "val_type x = val_type y \<Longrightarrow> val_type x \<noteq> TypeString \<Longrightarrow> raw_bits x = raw_bits y \<Longrightarrow> x = y"
proof (cases x; cases y)
  fix d e :: i32
  assume xy: "x = VDate d" "y = VDate e" and eq: "raw_bits x = raw_bits y"
  have "signed_take_bit 63 (sint w) = sint w" for w :: i32
    by (simp add: signed_take_bit_int_eq_self_iff) (use sint_range_size [of w] in \<open>simp add: word_size\<close>)
  then have "sint (word_of_int (sint w) :: i64) = sint w" for w :: i32 unfolding sint_sbintrunc' by simp
  with eq xy show "x = y" by (metis raw_bits.simps(3) signed_word_eqI)
qed (auto split: if_splits)

lemma sint_date: "sint (word_of_int (sint d) :: i64) = sint (d :: i32)"
proof -
  have "signed_take_bit 63 (sint d) = sint d"
    by (simp add: signed_take_bit_int_eq_self_iff) (use sint_range_size [of d] in \<open>simp add: word_size\<close>)
  then show ?thesis unfolding sint_sbintrunc' by simp
qed

lemma date_of_raw: "ucast (word_of_int (sint d) :: i64) = (d :: i32)"
proof -
  have "(ucast (word_of_int (sint d) :: i64) :: i32) = word_of_int (sint d)" by (rule ucast_down_wi) (simp add: is_down)
  then show ?thesis by simp
qed

lemma date_of_scast [simp]: "ucast (scast (d :: i32) :: i64) = d"
  using date_of_raw [of d] by simp

definition cell_str :: "val option \<Rightarrow> string" where
  "cell_str x = (case x of Some (VString s) \<Rightarrow> s | _ \<Rightarrow> [])"

definition cell_raw :: "val option \<Rightarrow> i64" where
  "cell_raw x = (case x of None \<Rightarrow> 0 | Some v \<Rightarrow> raw_bits v)"

lemma cell_of_raw:
  assumes "x \<noteq> None" "\<And>v. x = Some v \<Longrightarrow> val_type v = t"
  shows "t = TypeInt64 \<Longrightarrow> Some (VInt (cell_raw x)) = x" "t = TypeFloat64 \<Longrightarrow> Some (VFloat (cell_raw x)) = x"
    "t = TypeBool \<Longrightarrow> Some (VBool (cell_raw x \<noteq> 0)) = x" "t = TypeString \<Longrightarrow> Some (VString (cell_str x)) = x"
    "t = TypeDate \<Longrightarrow> Some (VDate (ucast (cell_raw x))) = x"
  using assms by (cases x; cases "the x"; auto simp: cell_raw_def cell_str_def)+

lemma vget_type: "vget v i = Some x \<Longrightarrow> val_type x = VType v"
  by (cases v) (auto split: if_splits)

lemma extractInt64_cell:
  assumes "wf_vector n v" "i < n" "vget v i \<noteq> None"
  shows "extractInt64 v i = Inr (cell_raw (vget v i))"
proof (cases v)
  case (BoolVector bits nb m)
  then have "i div 8 < length bits" using assms div8_less_bitmap_bytes by simp
  then show ?thesis using assms BoolVector by (auto simp: cell_raw_def split: if_splits)
qed (use assms in \<open>auto simp: cell_raw_def split: if_splits\<close>)

lemma string_cell:
  assumes "wf_vector n (StringVector cs d nb)" "i < n" "vget (StringVector cs d nb) i \<noteq> None"
  shows "d \<noteq> None" "StringVector_Get cs d i = Inr (cell_str (vget (StringVector cs d nb) i))"
  using assms StringVector_Get_ok [OF assms(1,2)] by (auto simp: cell_str_def split: option.splits if_splits)


section \<open>Columns of a type\<close>

text \<open>What each loop produces when the cells \<open>x i\<close> are read through their raw form.\<close>

lemma fill_cells:
  assumes null: "\<forall>i < n. null i = Inr (x i = None)" and ty: "\<forall>i < n. \<forall>v. x i = Some v \<longrightarrow> val_type v = t"
    and raw: "\<forall>i < n. x i \<noteq> None \<longrightarrow> raw i = Inr (cell_raw (x i))"
  shows "t = TypeInt64 \<Longrightarrow> \<exists>vals nb. fill_fixed null raw 0 n = Inr (vals, nb) \<and> wf_vector n (Int64Vector vals nb) \<and> (\<forall>i < n. vget (Int64Vector vals nb) i = x i)"
    "t = TypeFloat64 \<Longrightarrow> \<exists>vals nb. fill_fixed null raw 0 n = Inr (vals, nb) \<and> wf_vector n (Float64Vector vals nb) \<and> (\<forall>i < n. vget (Float64Vector vals nb) i = x i)"
    "t = TypeDate \<Longrightarrow> \<exists>vals nb. fill_fixed null (\<lambda>i. res_map (\<lambda>x. ucast x) (raw i)) 0 n = Inr (vals, nb) \<and> wf_vector n (DateVector vals nb) \<and>
      (\<forall>i < n. vget (DateVector vals nb) i = x i)"
    "t = TypeBool \<Longrightarrow> \<exists>bits nb. fill_bools null (\<lambda>i. res_map (\<lambda>x. x \<noteq> 0) (raw i)) n = Inr (bits, nb) \<and> wf_vector n (BoolVector bits nb n) \<and>
      (\<forall>i < n. vget (BoolVector bits nb n) i = x i)"
proof -
  have ret: "t = TypeInt64 \<Longrightarrow> Some (VInt (cell_raw (x i))) = x i" "t = TypeFloat64 \<Longrightarrow> Some (VFloat (cell_raw (x i))) = x i"
    "t = TypeBool \<Longrightarrow> Some (VBool (cell_raw (x i) \<noteq> 0)) = x i" "t = TypeDate \<Longrightarrow> Some (VDate (ucast (cell_raw (x i)))) = x i"
    if "i < n" "x i \<noteq> None" for i using cell_of_raw [OF that(2), of t] ty that(1) by blast+
  obtain vals nb where vals: "fill_fixed null raw 0 n = Inr (vals, nb)" "length vals = n" "length nb = bitmap_bytes n"
    "\<forall>i < n. (valid_at nb i \<longleftrightarrow> x i \<noteq> None) \<and> (x i \<noteq> None \<longrightarrow> vals ! i = cell_raw (x i))"
    using fill_fixed_ok [of n null "\<lambda>i. x i = None" raw "\<lambda>i. cell_raw (x i)" 0] null raw by blast
  show "\<exists>vals nb. fill_fixed null raw 0 n = Inr (vals, nb) \<and> wf_vector n (Int64Vector vals nb) \<and> (\<forall>i < n. vget (Int64Vector vals nb) i = x i)" if "t = TypeInt64"
    using vals ret(1) [OF _ _ that] by (intro exI [of _ vals] exI [of _ nb]) auto
  show "\<exists>vals nb. fill_fixed null raw 0 n = Inr (vals, nb) \<and> wf_vector n (Float64Vector vals nb) \<and> (\<forall>i < n. vget (Float64Vector vals nb) i = x i)" if "t = TypeFloat64"
    using vals ret(2) [OF _ _ that] by (intro exI [of _ vals] exI [of _ nb]) auto
  have "res_map (\<lambda>x. ucast x) (raw i) = Inr (ucast (cell_raw (x i)) :: i32)" if "i < n" "x i \<noteq> None" for i using raw that by simp
  then obtain ds db where "fill_fixed null (\<lambda>i. res_map (\<lambda>x. ucast x) (raw i)) (0 :: i32) n = Inr (ds, db)" "length ds = n" "length db = bitmap_bytes n"
    "\<forall>i < n. (valid_at db i \<longleftrightarrow> x i \<noteq> None) \<and> (x i \<noteq> None \<longrightarrow> ds ! i = ucast (cell_raw (x i)))"
    using fill_fixed_ok [of n null "\<lambda>i. x i = None" "\<lambda>i. res_map (\<lambda>x. ucast x) (raw i)" "\<lambda>i. ucast (cell_raw (x i)) :: i32" 0] null by blast
  then show "\<exists>vals nb. fill_fixed null (\<lambda>i. res_map (\<lambda>x. ucast x) (raw i)) 0 n = Inr (vals, nb) \<and> wf_vector n (DateVector vals nb) \<and>
      (\<forall>i < n. vget (DateVector vals nb) i = x i)" if "t = TypeDate"
    using ret(4) [OF _ _ that] by (intro exI [of _ ds] exI [of _ db]) auto
  have "res_map (\<lambda>x. x \<noteq> 0) (raw i) = Inr (cell_raw (x i) \<noteq> 0)" if "i < n" "x i \<noteq> None" for i using raw that by simp
  then obtain bits bb where "fill_bools null (\<lambda>i. res_map (\<lambda>x. x \<noteq> 0) (raw i)) n = Inr (bits, bb)" "length bits = bitmap_bytes n" "length bb = bitmap_bytes n"
    "\<forall>i < n. (valid_at bb i \<longleftrightarrow> x i \<noteq> None) \<and> (x i \<noteq> None \<longrightarrow> (valid_at bits i \<longleftrightarrow> cell_raw (x i) \<noteq> 0))"
    using fill_bools_ok [of n null "\<lambda>i. x i = None" "\<lambda>i. res_map (\<lambda>x. x \<noteq> 0) (raw i)" "\<lambda>i. cell_raw (x i) \<noteq> 0"] null by blast
  then show "\<exists>bits nb. fill_bools null (\<lambda>i. res_map (\<lambda>x. x \<noteq> 0) (raw i)) n = Inr (bits, nb) \<and> wf_vector n (BoolVector bits nb n) \<and>
      (\<forall>i < n. vget (BoolVector bits nb n) i = x i)" if "t = TypeBool"
    using ret(3) [OF _ _ that] by (intro exI [of _ bits] exI [of _ bb]) auto
qed

lemma fill_string_cells:
  assumes "\<forall>i < n. null i = Inr (x i = None)" "\<forall>i < n. \<forall>v. x i = Some v \<longrightarrow> val_type v = TypeString"
    "\<forall>i < n. x i \<noteq> None \<longrightarrow> get i = Inr (cell_str (x i))" "(\<Sum>i < n. if x i = None then 0 else Suc (length (cell_str (x i)))) < 2 ^ 32"
  shows "\<exists>v. fill_strings null get n = Inr v \<and> wf_vector n v \<and> VType v = TypeString \<and> (\<forall>i < n. vget v i = x i)"
proof -
  have ret: "Some (VString (cell_str (x i))) = x i" if "i < n" "x i \<noteq> None" for i
    using cell_of_raw(4) [OF that(2), of TypeString] assms(2) that(1) by blast
  obtain v where v: "fill_strings null get n = Inr v" "wf_vector n v" "VType v = TypeString"
    "\<forall>i < n. vget v i = (if x i = None then None else Some (VString (cell_str (x i))))"
    using fill_strings_ok [of n null "\<lambda>i. x i = None" get "\<lambda>i. cell_str (x i)"] assms(1,3,4) by blast
  have "vget v i = x i" if "i < n" for i using v(4) that ret [OF that] by simp
  with v show ?thesis by blast
qed

definition row_bytes :: "val option list \<Rightarrow> nat" where
  "row_bytes r = sum_list (map (\<lambda>x. case x of Some (VString s) \<Rightarrow> Suc (length s) | _ \<Rightarrow> 0) r)"

lemma column_bytes:
  assumes "\<forall>r \<in> set vs. c < length r"
  shows "(\<Sum>i < length vs. if vs ! i ! c = None then 0 else Suc (length (cell_str (vs ! i ! c)))) \<le> sum_list (map row_bytes vs) + length vs"
proof -
  have cell: "(if r ! c = None then 0 else Suc (length (cell_str (r ! c)))) \<le> row_bytes r + 1" if "c < length r" for r
  proof -
    have "(case r ! c of Some (VString s) \<Rightarrow> Suc (length s) | _ \<Rightarrow> 0) \<le> row_bytes r"
      unfolding row_bytes_def using that by (intro member_le_sum_list) auto
    then show ?thesis by (auto simp: cell_str_def split: option.splits val.splits)
  qed
  have "(\<Sum>i < length vs. if vs ! i ! c = None then 0 else Suc (length (cell_str (vs ! i ! c)))) \<le> (\<Sum>i < length vs. row_bytes (vs ! i) + 1)"
    using assms cell by (intro sum_mono) auto
  also have "\<dots> = sum_list (map row_bytes vs) + length vs"
    by (simp add: sum_Suc sum_list_sum_nth atLeast0LessThan)
  finally show ?thesis .
qed

text \<open>A row of a schema: every value has its column's type.\<close>

definition row_typed :: "Schema \<Rightarrow> val option list \<Rightarrow> bool" where
  "row_typed schema r \<longleftrightarrow> length r = length schema \<and>
     (\<forall>c < length schema. \<forall>v. r ! c = Some v \<longrightarrow> val_type v = Type (schema ! c))"

lemma row_at_typed:
  assumes "wf_batch (map Type schema) b"
  shows "row_typed schema (row_at b i)"
  using assms vget_type by (fastforce simp: row_typed_def row_at_def wf_batch_def)

end
