(* ===== verification/Project.thy ===== *)
theory Project
  imports Emit
begin

text \<open>
  The projection operator (\<^verbatim>\<open>exec/project.go\<close>): expressions are evaluated over the physical rows of a
  batch, and the result is compacted to the selected rows. What it delivers has no selection vector.
\<close>

section \<open>Compaction\<close>

text \<open>
  The loop every case of \<^verbatim>\<open>materialize\<close> runs: \<open>put\<close> writes row \<open>i\<close> of the output from row \<open>ix\<close> of
  the source, and the row is marked valid where the source row is.
\<close>

definition gather_loop :: "(nat \<Rightarrow> nat \<Rightarrow> 's \<Rightarrow> 's xres) \<Rightarrow> byte list \<Rightarrow> SelectionVector \<Rightarrow> 's \<Rightarrow> ('s \<times> byte list) xres" where
  "gather_loop put nb sv vals0 = fold_res (\<lambda>(vals, out) i. res_bind (idx sv i) (\<lambda>ix.
     res_bind (put (unat ix) i vals) (\<lambda>vals. res_bind (IsNullBit nb (unat ix)) (\<lambda>null.
     if null then Inr (vals, out) else res_map (\<lambda>out. (vals, out)) (SetValidBit out i)))))
     (vals0, replicate ((length sv + 7) div 8) 0) [0..<length sv]"

fun materialize :: "vector \<Rightarrow> SelectionVector \<Rightarrow> vector xres" where
  "materialize (Int64Vector vs nb) sv = res_map (\<lambda>(vals, out). Int64Vector vals out)
     (gather_loop (\<lambda>ix i vals. res_bind (idx vs ix) (upd vals i)) nb sv (replicate (length sv) 0))"
| "materialize (Float64Vector vs nb) sv = res_map (\<lambda>(vals, out). Float64Vector vals out)
     (gather_loop (\<lambda>ix i vals. res_bind (idx vs ix) (upd vals i)) nb sv (replicate (length sv) 0))"
| "materialize (BoolVector bits nb _) sv = res_map (\<lambda>(vals, out). BoolVector vals out (length sv))
     (gather_loop (\<lambda>ix i vals. res_bind (BoolVector_Get bits ix) (BoolVector_Set vals i)) nb sv (replicate ((length sv + 7) div 8) 0))"
| "materialize (StringVector cs d nb) sv = res_map (\<lambda>(vals, out). StringVector vals d out)
     (gather_loop (\<lambda>ix i vals. res_bind (idx cs ix) (upd vals i)) nb sv (replicate (length sv) 0))"
| "materialize (DateVector vs nb) sv = res_map (\<lambda>(vals, out). DateVector vals out)
     (gather_loop (\<lambda>ix i vals. res_bind (idx vs ix) (upd vals i)) nb sv (replicate (length sv) 0))"


section \<open>The operator\<close>

type_synonym ProjectExpr = "string \<times> expr"

definition is_column :: "expr \<Rightarrow> bool" where
  "is_column e = (case e of ColumnRef _ _ _ \<Rightarrow> True | _ \<Rightarrow> False)"

definition NewProject :: "ProjectExpr list \<Rightarrow> (Schema \<times> bool list) xres" where
  "NewProject exprs = (if exprs = [] then Inl (Err ErrNoProjections) else
     Inr (map (\<lambda>(name, e). \<lparr>Name = name, Type = ExprType e, FEncoding = EncPlain, Nullable = True\<rparr>) exprs,
          map (\<lambda>(name, e). is_column e) exprs))"

definition project_column :: "Batch \<Rightarrow> ProjectExpr \<times> bool \<Rightarrow> vector xres" where
  "project_column batch pe = (case pe of ((name, e), passthrough) \<Rightarrow> res_bind (eval batch e) (\<lambda>raw.
     case SelVec batch of
       Some sv \<Rightarrow> materialize raw sv
     | None \<Rightarrow> if \<not> passthrough then copyVector raw (Len raw) else Inr raw))"

fun Project_Next :: "ProjectExpr list \<Rightarrow> Schema \<times> bool list \<Rightarrow> stream \<Rightarrow> (Batch option \<times> stream) xres" where
  "Project_Next exprs (schema, passthrough) EOF = Inr (None, EOF)"
| "Project_Next exprs (schema, passthrough) (Failed e) = Inl e"
| "Project_Next exprs (schema, passthrough) (Deliver batch rest) = (
     let outLen = (case SelVec batch of Some sv \<Rightarrow> length sv | None \<Rightarrow> BLength batch) in
     res_map (\<lambda>outVecs. (Some \<lparr>BSchema = schema, Vectors = outVecs, BLength = outLen, SelVec = None\<rparr>, rest))
       (map_res (project_column batch) (zip exprs passthrough)))"

lemma Project_Next_less: "Project_Next es p s = Inr (Some b, s') \<Longrightarrow> length (batches s') < length (batches s)"
  by (cases s; cases p) (auto simp: Let_def res_map_eq_Inr)

interpretation project_op: pull_operator "Project_Next es p" "\<lambda>s. length (batches s)" for es p
  by unfold_locales (rule Project_Next_less)


section \<open>Compaction keeps the selected rows\<close>

lemma gather_loop_ok:
  assumes sel: "\<forall>i \<in> set sv. unat i < n" and nb: "bitmap_bytes n \<le> length nb"
    and base: "Q 0 vals0" and step: "\<And>j vals. j < length sv \<Longrightarrow> Q j vals \<Longrightarrow> \<exists>vals'. put (unat (sv ! j)) j vals = Inr vals' \<and> Q (Suc j) vals'"
  shows "\<exists>vals out. gather_loop put nb sv vals0 = Inr (vals, out) \<and> Q (length sv) vals \<and> length out = bitmap_bytes (length sv) \<and>
    (\<forall>j < length sv. valid_at out j \<longleftrightarrow> valid_at nb (unat (sv ! j)))"
proof -
  let ?m = "bitmap_bytes (length sv)"
  let ?P = "\<lambda>j (vals, out). Q j vals \<and> length out = ?m \<and> (\<forall>i < length sv. valid_at out i \<longleftrightarrow> i < j \<and> valid_at nb (unat (sv ! i)))"
  have "\<exists>s'. gather_loop put nb sv vals0 = Inr s' \<and> ?P (length sv) s'"
    unfolding gather_loop_def
  proof (rule fold_res_upto [where P = ?P], goal_cases)
    case 1
    then show ?case using base by simp
  next
    case (2 j s)
    obtain vals out where s: "s = (vals, out)" by (cases s)
    have ix: "unat (sv ! j) div 8 < length nb" using sel nb 2(1) by (intro div8_less_bitmap_bytes) auto
    have j: "j div 8 < length out" using 2 s by (intro div8_less_bitmap_bytes) auto
    obtain vals' where v: "put (unat (sv ! j)) j vals = Inr vals'" "Q (Suc j) vals'"
      using step [of j vals] 2 s by auto
    show ?case
    proof (cases "valid_at nb (unat (sv ! j))")
      case True
      obtain out' where "SetValidBit out j = (Inr out' :: byte list xres)" "length out' = length out"
        "\<And>i. valid_at out' i \<longleftrightarrow> valid_at out i \<or> i = j" using SetValidBit_eq [OF j] by blast
      then show ?thesis using True v ix 2 s by (auto simp: IsNullBit_ok less_Suc_eq)
    next
      case False
      then show ?thesis using v ix 2 s by (auto simp: IsNullBit_ok less_Suc_eq)
    qed
  qed
  then show ?thesis by auto
qed

lemma gather_fixed:
  assumes "\<forall>i \<in> set sv. unat i < n" "bitmap_bytes n \<le> length nb" "length vs = n"
  shows "\<exists>vals out. gather_loop (\<lambda>ix i vals. res_bind (idx vs ix) (upd vals i)) nb sv (replicate (length sv) z) = Inr (vals, out) \<and>
    length vals = length sv \<and> (\<forall>j < length sv. vals ! j = vs ! unat (sv ! j)) \<and> length out = bitmap_bytes (length sv) \<and>
    (\<forall>j < length sv. valid_at out j \<longleftrightarrow> valid_at nb (unat (sv ! j)))"
  using gather_loop_ok [OF assms(1,2), of "\<lambda>j vals. length vals = length sv \<and> (\<forall>i < j. vals ! i = vs ! unat (sv ! i))"
      "replicate (length sv) z" "\<lambda>ix i vals. res_bind (idx vs ix) (upd vals i)"] assms(1,3)
  by (fastforce simp: nth_list_update less_Suc_eq)

lemma gather_bits:
  assumes "\<forall>i \<in> set sv. unat i < n" "bitmap_bytes n \<le> length nb" "bitmap_bytes n \<le> length bits"
  shows "\<exists>vals out. gather_loop (\<lambda>ix i vals. res_bind (BoolVector_Get bits ix) (BoolVector_Set vals i)) nb sv
      (replicate (bitmap_bytes (length sv)) 0) = Inr (vals, out) \<and>
    length vals = bitmap_bytes (length sv) \<and> (\<forall>j < length sv. valid_at vals j \<longleftrightarrow> valid_at bits (unat (sv ! j))) \<and>
    length out = bitmap_bytes (length sv) \<and> (\<forall>j < length sv. valid_at out j \<longleftrightarrow> valid_at nb (unat (sv ! j)))"
proof -
  let ?put = "\<lambda>ix i vals. res_bind (BoolVector_Get bits ix) (BoolVector_Set vals i)"
  let ?Q = "\<lambda>j vals. length vals = bitmap_bytes (length sv) \<and> (\<forall>i < j. valid_at vals i \<longleftrightarrow> valid_at bits (unat (sv ! i)))"
  have "\<exists>vals'. ?put (unat (sv ! j)) j vals = Inr vals' \<and> ?Q (Suc j) vals'" if "j < length sv" "?Q j vals" for j vals
  proof -
    have "unat (sv ! j) div 8 < length bits" using assms that by (intro div8_less_bitmap_bytes) auto
    moreover have "j div 8 < length vals" using that by (intro div8_less_bitmap_bytes) auto
    then obtain vals' where "BoolVector_Set vals j (valid_at bits (unat (sv ! j))) = Inr vals'" "length vals' = length vals"
      "\<And>i. valid_at vals' i \<longleftrightarrow> (if i = j then valid_at bits (unat (sv ! j)) else valid_at vals i)"
      using BoolVector_Set_eq by blast
    ultimately show ?thesis using that by (auto simp: less_Suc_eq)
  qed
  then show ?thesis
    using gather_loop_ok [OF assms(1,2), of ?Q "replicate (bitmap_bytes (length sv)) 0" ?put] by auto
qed

lemma materialize_ok:
  assumes "wf_vector n v" "\<forall>i \<in> set sv. unat i < n"
  shows "\<exists>v'. materialize v sv = Inr v' \<and> VType v' = VType v \<and> wf_vector (length sv) v' \<and>
    (\<forall>j < length sv. vget v' j = vget v (unat (sv ! j)))"
proof (cases v)
  case (Int64Vector vs nb)
  then show ?thesis using gather_fixed [OF assms(2), of nb vs 0] assms(1) by auto
next
  case (Float64Vector vs nb)
  then show ?thesis using gather_fixed [OF assms(2), of nb vs 0] assms(1) by auto
next
  case (BoolVector bits nb m)
  then show ?thesis using gather_bits [OF assms(2), of nb bits] assms(1) by auto
next
  case (StringVector cs d nb)
  then show ?thesis using gather_fixed [OF assms(2), of nb cs 0] assms by (auto split: option.splits)
next
  case (DateVector vs nb)
  then show ?thesis using gather_fixed [OF assms(2), of nb vs 0] assms(1) by auto
qed

definition projected :: "ProjectExpr list \<Rightarrow> Batch \<Rightarrow> val option list list" where
  "projected exprs b = map (\<lambda>i. map (\<lambda>(name, e). sem b i e) exprs) (sel_rows b)"

lemma project_column_ok:
  assumes wf: "wf_rows G b" and e: "typeOf G e = Some t" "lits_exact b e" "scost b e < 2 ^ 32"
  shows "\<exists>v. project_column b ((name, e), passthrough) = Inr v \<and> VType v = t \<and> wf_vector (length (sel_rows b)) v \<and>
    (\<forall>j < length (sel_rows b). vget v j = sem b (sel_rows b ! j) e)"
proof -
  have wb: "wf_batch G b" and sel: "\<forall>i \<in> set (sel_rows b). i < evalLen b" using wf by (simp_all add: wf_rows_def)
  obtain v where v: "eval b e = Inr v" "VType v = t" "wf_vector (evalLen b) v" "\<forall>i < evalLen b. vget v i = sem b i e"
    using eval_correct_at [OF wb, of e] sem_as_evaluated [OF wb e(1,2)] e by (auto simp: correct_at_def computes_def)
  show ?thesis
  proof (cases "SelVec b")
    case None
    then have n: "sel_rows b = [0..<evalLen b]" by (simp add: sel_rows_def evalLen_def)
    show ?thesis using v copyVector_ok [OF v(3)] None n by (auto simp: project_column_def)
  next
    case (Some sv)
    then have "\<forall>i \<in> set sv. unat i < evalLen b" using sel by (simp add: sel_rows_def)
    then obtain v' where "materialize v sv = Inr v'" "VType v' = VType v" "wf_vector (length sv) v'"
      "\<forall>j < length sv. vget v' j = vget v (unat (sv ! j))" using materialize_ok [OF v(3)] by blast
    moreover have "unat (sv ! j) < evalLen b" if "j < length sv" for j
      using \<open>\<forall>i \<in> set sv. unat i < evalLen b\<close> that by simp
    ultimately show ?thesis using v Some by (auto simp: project_column_def sel_rows_def)
  qed
qed

lemma Project_step:
  assumes "wf_rows G b \<and> (\<forall>(name, e) \<in> set exprs. lits_exact b e \<and> scost b e < 2 ^ 32)" "\<forall>(name, e) \<in> set exprs. typeOf G e = Some (ExprType e)" "exprs \<noteq> []"
    "NewProject exprs = Inr p"
  obtains b' where "Project_Next exprs p (Deliver b rest) = Inr (Some b', rest)"
    "wf_rows (map (\<lambda>(name, e). ExprType e) exprs) b'" "batch_rows b' = projected exprs b"
proof -
  let ?n = "length (sel_rows b)"
  obtain schema pt where p: "p = (schema, pt)" "length pt = length exprs"
    using assms(3,4) by (auto simp: NewProject_def)
  have wf: "wf_rows G b" using assms(1) by simp
  have n: "(case SelVec b of Some sv \<Rightarrow> length sv | None \<Rightarrow> BLength b) = ?n"
    by (simp add: sel_rows_def split: option.splits)
  let ?P = "\<lambda>((name, e), pt) v. VType v = ExprType e \<and> wf_vector ?n v \<and> (\<forall>j < ?n. vget v j = sem b (sel_rows b ! j) e)"
  have "\<forall>x \<in> set (zip exprs pt). \<exists>v. project_column b x = Inr v \<and> ?P x v"
  proof
    fix x assume "x \<in> set (zip exprs pt)"
    then obtain name e t where x: "x = ((name, e), t)" "(name, e) \<in> set exprs" by (metis (no_types) prod.exhaust in_set_zipE)
    then have "typeOf G e = Some (ExprType e)" "lits_exact b e" "scost b e < 2 ^ 32"
      using assms(1,2) by auto
    then show "\<exists>v. project_column b x = Inr v \<and> ?P x v"
      using project_column_ok [OF wf, of e "ExprType e" name t] x by auto
  qed
  then obtain vs where vs: "map_res (project_column b) (zip exprs pt) = Inr vs" "list_all2 ?P (zip exprs pt) vs"
    using map_res_exists [of "zip exprs pt" "project_column b" ?P] by blast
  have len: "length vs = length exprs" using vs(2) p(2) by (auto dest: list_all2_lengthD)
  have each: "VType (vs ! j) = ExprType (snd (exprs ! j)) \<and> wf_vector ?n (vs ! j) \<and>
      (\<forall>i < ?n. vget (vs ! j) i = sem b (sel_rows b ! i) (snd (exprs ! j)))" if "j < length exprs" for j
    using list_all2_nthD [OF vs(2), of j] that p(2) by (auto split: prod.splits)
  let ?b = "\<lparr>BSchema = schema, Vectors = vs, BLength = ?n, SelVec = None\<rparr>"
  have step: "Project_Next exprs p (Deliver b rest) = Inr (Some ?b, rest)" using vs(1) p(1) n by simp
  have "?n \<le> 2 ^ 16" using wf by (simp add: wf_rows_def)
  then have "wf_rows (map (\<lambda>(name, e). ExprType e) exprs) ?b"
    using assms(3) each len
    by (auto simp: wf_rows_def wf_batch_def evalLen_def sel_rows_def [of ?b] split: prod.splits)
  moreover have "batch_rows ?b = projected exprs b"
  proof -
    have "row_at ?b i = map (\<lambda>(name, e). sem b (sel_rows b ! i) e) exprs" if "i < ?n" for i
      using each len that by (intro nth_equalityI) (auto simp: row_at_def split: prod.splits)
    then have "map (row_at ?b) [0..<?n] = map (\<lambda>i. map (\<lambda>(name, e). sem b (sel_rows b ! i) e) exprs) [0..<?n]" by simp
    also have "\<dots> = projected exprs b" unfolding projected_def
      by (subst (4) map_nth [symmetric]) (simp add: comp_def)
    finally show ?thesis by (simp add: batch_rows_def sel_rows_def [of ?b])
  qed
  ultimately show thesis using that [OF step] by blast
qed

lemma Project_drain:
  assumes "NewProject exprs = Inr p" "\<forall>(name, e) \<in> set exprs. typeOf G e = Some (ExprType e)"
    "ends_ok s" "\<forall>b \<in> set (batches s).
      wf_rows G b \<and> (\<forall>(name, e) \<in> set exprs. lits_exact b e \<and> scost b e < 2 ^ 32)"
  shows "\<exists>out. drain (Project_Next exprs p) s = Some out \<and> ends_ok out \<and>
    (\<forall>b \<in> set (batches out). wf_rows (map (\<lambda>(name, e). ExprType e) exprs) b) \<and>
    all_rows out = concat (map (projected exprs) (batches s))"
  using assms(3,4)
proof (induction s)
  case EOF
  then show ?case by (cases p) (simp add: drain_steps)
next
  case (Deliver b rest)
  have ne: "exprs \<noteq> []" using assms(1) by (auto simp: NewProject_def)
  have inp: "wf_rows G b \<and> (\<forall>(name, e) \<in> set exprs. lits_exact b e \<and> scost b e < 2 ^ 32)" using Deliver.prems by simp
  obtain b' where b': "Project_Next exprs p (Deliver b rest) = Inr (Some b', rest)"
    "wf_rows (map (\<lambda>(name, e). ExprType e) exprs) b'" "batch_rows b' = projected exprs b"
    using Project_step [OF inp assms(2) ne assms(1)] by blast
  obtain out where "drain (Project_Next exprs p) rest = Some out" "ends_ok out"
    "\<forall>b \<in> set (batches out). wf_rows (map (\<lambda>(name, e). ExprType e) exprs) b"
    "all_rows out = concat (map (projected exprs) (batches rest))" using Deliver by auto
  then show ?case using b' drain_steps(3) [of "Project_Next exprs p", OF b'(1)]
    by (intro exI [of _ "Deliver b' out"]) simp
qed simp

section \<open>SELECT list\<close>

text \<open>
  C20: a projection delivers one row per selected input row, in order, whose cells are the SQL values of the SELECT
  list's expressions on that row; batches keep their boundaries and come out dense (no selection vector), well formed for
  the types of the expressions. The hypotheses on each batch: it is well formed; the dictionaries an expression reads stay
  within 32-bit codes; and every string literal an expression compares by dictionary code is in the dictionary of its
  column in that batch, or is compared by \<open><>\<close> with a column without NULLs, or by \<open>=\<close> with one of NULLs only
  (elsewhere the evaluator departs from SQL).
\<close>

theorem Project_computes:
  assumes "NewProject exprs = Inr p" "\<forall>(name, e) \<in> set exprs. typeOf G e = Some (ExprType e)"
    "\<forall>b \<in> set bs.
      wf_rows G b \<and> (\<forall>(name, e) \<in> set exprs. lits_exact b e \<and> scost b e < 2 ^ 32)"
  shows "\<exists>out. drain (Project_Next exprs p) (stream_of bs) = Some out \<and> ends_ok out \<and>
    (\<forall>b \<in> set (batches out). wf_rows (map (\<lambda>(name, e). ExprType e) exprs) b) \<and>
    all_rows out = concat (map (projected exprs) bs)"
  using Project_drain [OF assms(1,2), of "stream_of bs"] assms(3) by simp

theorem Project_computes_witness:
  "\<exists>p out. NewProject [(''x'', ex_pred)] = Inr p \<and> drain (Project_Next [(''x'', ex_pred)] p) (stream_of [ex_ints]) = Some out \<and>
    all_rows out = [[Some (VBool True)], [Some (VBool False)], [Some (VBool True)]]"
proof -
  have "wf_rows [TypeInt64] ex_ints \<and> (\<forall>(name, e) \<in> set [(''x'', ex_pred)]. lits_exact ex_ints e \<and> scost ex_ints e < 2 ^ 32)"
    using ex_ints_wf by (simp add: ex_pred_def ex_ints_def)
  moreover have "projected [(''x'', ex_pred)] ex_ints = [[Some (VBool True)], [Some (VBool False)], [Some (VBool True)]]"
    by (simp add: projected_def ex_pred_def sel_rows_def ex_ints_def upt_conv_Cons ex_ints_valid col_at_def lift2_def)
  moreover obtain p where "NewProject [(''x'', ex_pred)] = Inr p" by (simp add: NewProject_def)
  moreover have "typeOf [TypeInt64] ex_pred = Some (ExprType ex_pred)" by (simp add: ex_pred_def cmp_type_def)
  ultimately show ?thesis using Project_computes [of "[(''x'', ex_pred)]" p "[TypeInt64]" "[ex_ints]"] by auto
qed

end
