(* ===== verification/Distinct.thy ===== *)
theory Distinct
  imports Emit
begin

text \<open>
  The duplicate eliminator (\<^verbatim>\<open>exec/distinct.go\<close>). Rows are compared through a byte key; the key of a row
  determines the row, so exactly the first occurrence of every row is kept.
\<close>

section \<open>Row keys\<close>

definition key_cell :: "nat \<Rightarrow> byte list \<Rightarrow> vector \<Rightarrow> byte list xres" where
  "key_cell i buf v = res_bind (IsNull v i) (\<lambda>null. if null then Inr (buf @ [0x00, 0xFF]) else (case v of
       StringVector cs d nb \<Rightarrow> res_map (\<lambda>s. AppendUint32 (buf @ [0x02]) (word_of_nat (length s)) @ bytes_of s @ [0xFF])
         (case d of Some d' \<Rightarrow> StringVector_Get cs d i | None \<Rightarrow> Inr [])
     | _ \<Rightarrow> res_map (\<lambda>x. AppendUint64 (buf @ [0x01]) x @ [0xFF]) (extractInt64 v i)))"

definition buildKey :: "Batch \<Rightarrow> nat \<Rightarrow> byte list xres" where
  "buildKey batch rowIdx = fold_res (key_cell rowIdx) [] (Vectors batch)"


section \<open>The operator\<close>

text \<open>The rows of a batch whose key is new, and the keys seen after them.\<close>

fun unique_rows :: "Batch \<Rightarrow> nat list \<Rightarrow> byte list set \<Rightarrow> (byte list set \<times> SelectionVector) xres" where
  "unique_rows batch [] seen = Inr (seen, [])"
| "unique_rows batch (i # is) seen = res_bind (buildKey batch i) (\<lambda>key.
     if key \<in> seen then unique_rows batch is seen
     else res_map (\<lambda>(seen, sv). (seen, of_nat i # sv)) (unique_rows batch is (insert key seen)))"

fun Distinct_loop :: "byte list set \<Rightarrow> stream \<Rightarrow> (Batch option \<times> byte list set \<times> stream) xres" where
  "Distinct_loop seen EOF = Inr (None, seen, EOF)"
| "Distinct_loop seen (Failed e) = Inl e"
| "Distinct_loop seen (Deliver batch rest) = res_bind (unique_rows batch (sel_rows batch) seen) (\<lambda>(seen, sv).
     if sv = [] then Distinct_loop seen rest
     else Inr (Some (batch\<lparr>SelVec := Some sv, BLength := length sv\<rparr>), seen, rest))"

definition Distinct_Next :: "byte list set \<times> stream \<Rightarrow> (Batch option \<times> byte list set \<times> stream) xres" where
  "Distinct_Next d = (case d of (seen, child) \<Rightarrow> Distinct_loop seen child)"

definition NewDistinct :: "stream \<Rightarrow> byte list set \<times> stream" where
  "NewDistinct child = ({}, child)"

lemma Distinct_loop_less: "Distinct_loop seen s = Inr (Some b, seen', s') \<Longrightarrow> length (batches s') < length (batches s)"
proof (induction s arbitrary: seen)
  case (Deliver b0 rest)
  then obtain seen1 sv where "unique_rows b0 (sel_rows b0) seen = Inr (seen1, sv)" by (auto simp: res_bind_eq_Inr)
  then show ?case using Deliver by (cases "sv = []") (auto simp: less_Suc_eq)
qed auto

interpretation distinct_op: pull_operator Distinct_Next "\<lambda>(seen, s). length (batches s)"
  by unfold_locales (auto simp: Distinct_Next_def dest: Distinct_loop_less)


section \<open>The key determines the row\<close>

definition enc_cell :: "val option \<Rightarrow> byte list" where
  "enc_cell x = (case x of None \<Rightarrow> [0x00, 0xFF]
     | Some (VString s) \<Rightarrow> 0x02 # AppendUint32 [] (word_of_nat (length s)) @ bytes_of s @ [0xFF]
     | Some v \<Rightarrow> 0x01 # AppendUint64 [] (raw_bits v) @ [0xFF])"

lemma key_cell_enc:
  assumes "wf_vector n v" "i < n"
  shows "key_cell i buf v = Inr (buf @ enc_cell (vget v i))"
proof (cases v)
  case (BoolVector bits nb m)
  then have "i div 8 < length bits" using assms div8_less_bitmap_bytes by simp
  then show ?thesis using assms BoolVector IsNull_ok [OF assms] by (simp add: key_cell_def enc_cell_def AppendUint64_def)
next
  case (StringVector cs d nb)
  then show ?thesis using assms IsNull_ok [OF assms] StringVector_Get_ok [of n cs d nb i]
    by (cases d) (auto simp: key_cell_def enc_cell_def AppendUint32_def)
qed (use assms IsNull_ok [OF assms] in \<open>simp_all add: key_cell_def enc_cell_def AppendUint64_def\<close>)

definition typed_cell :: "DataType \<Rightarrow> val option \<Rightarrow> bool" where
  "typed_cell t x = (case x of None \<Rightarrow> True | Some v \<Rightarrow> val_type v = t \<and> (case v of VString s \<Rightarrow> length s < 2 ^ 32 | _ \<Rightarrow> True))"

definition typed_row :: "DataType list \<Rightarrow> val option list \<Rightarrow> bool" where
  "typed_row G r \<longleftrightarrow> list_all2 typed_cell G r"

definition enc_row :: "val option list \<Rightarrow> byte list" where
  "enc_row r = concat (map enc_cell r)"

lemma enc_cell_cases:
  "enc_cell None = [0x00, 0xFF]"
  "enc_cell (Some (VString s)) = 0x02 # le_bytes 4 (word_of_nat (length s) :: u32) @ bytes_of s @ [0xFF]"
  "val_type v \<noteq> TypeString \<Longrightarrow> enc_cell (Some v) = 0x01 # le_bytes 8 (raw_bits v) @ [0xFF]"
  by (simp_all add: enc_cell_def AppendUint32_def AppendUint64_def split: val.splits) (cases v; simp)

lemma enc_cell_inj:
  assumes "typed_cell t x" "typed_cell t y" "enc_cell x @ r = enc_cell y @ s"
  shows "x = y \<and> r = s"
proof (cases x)
  case None
  then show ?thesis using assms(3) by (cases y) (auto simp: enc_cell_def split: val.splits)
next
  case (Some v)
  note x = Some
  then obtain w where y: "y = Some w" using assms(3) by (cases y) (auto simp: enc_cell_def split: val.splits)
  have t: "val_type v = t" "val_type w = t" using assms(1,2) x y by (auto simp: typed_cell_def)
  show ?thesis
  proof (cases "t = TypeString")
    case False
    have "le_bytes 8 (raw_bits v) @ 0xFF # r = le_bytes 8 (raw_bits w) @ 0xFF # s"
      using assms(3) x y t False by (simp add: enc_cell_cases(3))
    then have "le_bytes 8 (raw_bits v) = le_bytes 8 (raw_bits w)" "r = s" by simp_all
    then show ?thesis using x y t False le_bytes_inj [of 8 "raw_bits v" "raw_bits w"] raw_bits_inj [of v w] by simp
  next
    case True
    then obtain a b where ab: "v = VString a" "w = VString b" using t by (cases v; cases w) auto
    have len: "length a < 2 ^ 32" "length b < 2 ^ 32" using assms(1,2) x y ab by (simp_all add: typed_cell_def)
    have eq: "le_bytes 4 (word_of_nat (length a) :: u32) @ bytes_of a @ 0xFF # r = le_bytes 4 (word_of_nat (length b) :: u32) @ bytes_of b @ 0xFF # s"
      using assms(3) x y ab by (simp add: enc_cell_cases(2))
    then have "le_bytes 4 (word_of_nat (length a) :: u32) = le_bytes 4 (word_of_nat (length b) :: u32)" by simp
    then have "(word_of_nat (length a) :: u32) = word_of_nat (length b)" using le_bytes_inj [where 'a = 32] by fastforce
    then have "unat (word_of_nat (length a) :: u32) = unat (word_of_nat (length b) :: u32)" by simp
    then have "length a = length b" using len by (simp add: unsigned_of_nat take_bit_nat_eq_self)
    then show ?thesis using eq x y ab by simp
  qed
qed

lemma enc_row_inj: "typed_row G r \<Longrightarrow> typed_row G s \<Longrightarrow> enc_row r = enc_row s \<Longrightarrow> r = s"
proof (induction G arbitrary: r s)
  case (Cons t G)
  then obtain x r' y s' where "r = x # r'" "s = y # s'" "typed_cell t x" "typed_cell t y" "typed_row G r'" "typed_row G s'"
    by (auto simp: typed_row_def list_all2_Cons1)
  then show ?case using Cons.IH [of r' s'] Cons.prems(3) enc_cell_inj [of t x y "enc_row r'" "enc_row s'"]
    by (simp add: enc_row_def)
qed (simp add: typed_row_def)

lemma fold_key:
  "\<forall>v \<in> set vs. wf_vector n v \<Longrightarrow> i < n \<Longrightarrow> fold_res (key_cell i) buf vs = Inr (buf @ enc_row (map (\<lambda>v. vget v i) vs))"
  by (induction vs arbitrary: buf) (simp_all add: key_cell_enc [of n] enc_row_def)

lemma buildKey_ok:
  assumes "wf_batch G b" "i < evalLen b"
  shows "buildKey b i = Inr (enc_row (row_at b i))"
proof -
  have "\<forall>v \<in> set (Vectors b). wf_vector (evalLen b) v" using assms(1) by (auto simp: wf_batch_def in_set_conv_nth)
  then show ?thesis using assms(2) by (simp add: buildKey_def row_at_def fold_key)
qed


section \<open>First occurrences\<close>

fun firsts :: "'a set \<Rightarrow> 'a list \<Rightarrow> 'a list" where
  "firsts S [] = []"
| "firsts S (x # xs) = (if x \<in> S then firsts S xs else x # firsts (insert x S) xs)"

lemma firsts_append: "firsts S (xs @ ys) = firsts S xs @ firsts (S \<union> set xs) ys"
  by (induction xs arbitrary: S) (auto simp: insert_absorb)

lemma set_firsts: "set (firsts S xs) = set xs - S"
  by (induction xs arbitrary: S) auto

lemma distinct_firsts: "distinct (firsts S xs)"
  by (induction xs arbitrary: S) (auto simp: set_firsts)

lemma unique_rows_ok:
  assumes "wf_batch G b" "\<forall>i \<in> set is. i < evalLen b" "evalLen b \<le> 2 ^ 16"
    "\<forall>i \<in> set is. typed_row G (row_at b i)" "\<forall>r \<in> R. typed_row G r"
  shows "\<exists>sv. unique_rows b is (enc_row ` R) = Inr (enc_row ` (R \<union> row_at b ` set is), sv) \<and>
    set (map unat sv) \<subseteq> set is \<and> length sv \<le> length is \<and> map (row_at b) (map unat sv) = firsts R (map (row_at b) is)"
  using assms(2,4,5)
proof (induction "is" arbitrary: R)
  case (Cons i "is")
  have i: "i < evalLen b" "typed_row G (row_at b i)" using Cons.prems by auto
  have key: "buildKey b i = Inr (enc_row (row_at b i))" using buildKey_ok assms(1) i(1) by blast
  have mem: "enc_row (row_at b i) \<in> enc_row ` R \<longleftrightarrow> row_at b i \<in> R"
    using enc_row_inj [OF i(2)] Cons.prems(3) by blast
  show ?case
  proof (cases "row_at b i \<in> R")
    case True
    then have "R \<union> row_at b ` set (i # is) = R \<union> row_at b ` set is" by auto
    then show ?thesis using Cons.IH [of R] Cons.prems True key mem by fastforce
  next
    case False
    obtain sv where sv: "unique_rows b is (enc_row ` insert (row_at b i) R) = Inr (enc_row ` (insert (row_at b i) R \<union> row_at b ` set is), sv)"
      "set (map unat sv) \<subseteq> set is" "length sv \<le> length is" "map (row_at b) (map unat sv) = firsts (insert (row_at b i) R) (map (row_at b) is)"
      using Cons.IH [of "insert (row_at b i) R"] Cons.prems by auto
    have "unat (of_nat i :: u16) = i" using i(1) assms(3) by (simp add: unsigned_of_nat take_bit_nat_eq_self)
    then show ?thesis using sv False key mem by (intro exI [of _ "of_nat i # sv"]) auto
  qed
qed simp

lemma Distinct_drain:
  assumes "ends_ok s" "\<forall>b \<in> set (batches s). wf_rows G b" "\<forall>r \<in> set (all_rows s). typed_row G r" "\<forall>r \<in> R. typed_row G r"
  shows "\<exists>out. drain Distinct_Next (enc_row ` R, s) = Some out \<and> ends_ok out \<and> (\<forall>b \<in> set (batches out). wf_rows G b) \<and>
    all_rows out = firsts R (all_rows s)"
  using assms
proof (induction s arbitrary: R)
  case EOF
  then show ?case by (simp add: drain_steps Distinct_Next_def)
next
  case (Deliver b rest)
  have wf: "wf_rows G b" using Deliver.prems by simp
  let ?R = "R \<union> set (batch_rows b)"
  obtain out where out: "drain Distinct_Next (enc_row ` ?R, rest) = Some out" "ends_ok out" "\<forall>b \<in> set (batches out). wf_rows G b"
    "all_rows out = firsts ?R (all_rows rest)" using Deliver.IH [of ?R] Deliver.prems by auto
  have rows: "\<forall>i \<in> set (sel_rows b). typed_row G (row_at b i)" using Deliver.prems(3) by (simp add: batch_rows_def)
  obtain sv where sv: "unique_rows b (sel_rows b) (enc_row ` R) = Inr (enc_row ` ?R, sv)"
    "set (map unat sv) \<subseteq> set (sel_rows b)" "length sv \<le> length (sel_rows b)" "map (row_at b) (map unat sv) = firsts R (batch_rows b)"
    using unique_rows_ok [of G b "sel_rows b" R] wf rows Deliver.prems(4) by (auto simp: wf_rows_def batch_rows_def)
  have sub: "\<forall>i \<in> set sv. unat i < evalLen b" "length sv \<le> BLength b" using sv(2,3) wf by (auto simp: wf_rows_def)
  note sel = wf_rows_select [OF wf sub]
  have split: "firsts R (all_rows (Deliver b rest)) = firsts R (batch_rows b) @ all_rows out"
    using out(4) by (simp add: firsts_append)
  show ?case
  proof (cases "sv = []")
    case True
    then have "drain Distinct_Next (enc_row ` R, Deliver b rest) = Some out"
      using drain_same [of Distinct_Next "(enc_row ` R, Deliver b rest)" "(enc_row ` ?R, rest)"] sv(1) out(1)
      by (simp add: Distinct_Next_def)
    then show ?thesis using out True sv(4) split by simp
  next
    case False
    then have step: "Distinct_Next (enc_row ` R, Deliver b rest) = Inr (Some (b\<lparr>SelVec := Some sv, BLength := length sv\<rparr>), enc_row ` ?R, rest)"
      using sv(1) by (simp add: Distinct_Next_def)
    show ?thesis unfolding drain_steps(3) [where step = Distinct_Next, OF step] using out sel sv(4) split
      by (intro exI [of _ "Deliver (b\<lparr>SelVec := Some sv, BLength := length sv\<rparr>) out"]) (simp del: map_map)
  qed
qed simp

section \<open>DISTINCT\<close>

text \<open>
  C18: SELECT DISTINCT. Over any cutting of the rows into batches, the operator delivers the first occurrence of
  every row, in input order, and drops all later ones: rows are the same exactly when all their cells are (two NULLs are, and
  floats are compared by their bits). It reaches the end without an error. Strings have to be shorter than
  \<open>2 ^ 32\<close> bytes, since the row key holds their length in 32 bits.
\<close>

theorem Distinct_first_occurrences:
  assumes "\<forall>b \<in> set bs. wf_rows G b" "\<forall>r \<in> set (concat (map batch_rows bs)). typed_row G r"
  shows "\<exists>out. drain Distinct_Next (NewDistinct (stream_of bs)) = Some out \<and> ends_ok out \<and>
    all_rows out = firsts {} (concat (map batch_rows bs)) \<and> distinct (all_rows out) \<and>
    set (all_rows out) = set (concat (map batch_rows bs))"
proof -
  have rows: "all_rows (stream_of bs) = concat (map batch_rows bs)" by (simp add: all_rows_def)
  obtain out where "drain Distinct_Next (NewDistinct (stream_of bs)) = Some out" "ends_ok out"
    "all_rows out = firsts {} (concat (map batch_rows bs))"
    using Distinct_drain [of "stream_of bs" G "{}"] assms unfolding rows NewDistinct_def by auto
  then show ?thesis using distinct_firsts [of "{}" "concat (map batch_rows bs)"] set_firsts [of "{}" "concat (map batch_rows bs)"]
    by (intro exI [of _ out]) simp
qed

theorem Distinct_first_occurrences_witness:
  "\<exists>out. drain Distinct_Next (NewDistinct (stream_of [ex_ints, ex_ints])) = Some out \<and>
    all_rows out = [[Some (VInt 5)], [Some (VInt 7)]]"
proof -
  have "\<forall>r \<in> set (concat (map batch_rows [ex_ints, ex_ints])). typed_row [TypeInt64] r"
    by (simp add: ex_ints_rows typed_row_def typed_cell_def)
  then obtain out where "drain Distinct_Next (NewDistinct (stream_of [ex_ints, ex_ints])) = Some out"
    "all_rows out = firsts {} (concat (map batch_rows [ex_ints, ex_ints]))"
    using Distinct_first_occurrences [of "[ex_ints, ex_ints]" "[TypeInt64]"] ex_ints_wf by auto
  then show ?thesis by (intro exI [of _ out]) (simp add: ex_ints_rows)
qed

end
