(* ===== verification/JoinTable.thy ===== *)
theory JoinTable
  imports Batch "HOL-Library.Signed_Division"
begin

text \<open>
  The build side of the hash join (\<^verbatim>\<open>exec/join_table.go\<close>): the flat row store, the open-addressed hash
  table over its rows, and the radix hash and partition index of \<^verbatim>\<open>exec/parallel_join.go\<close>. The store is
  passed beside the table, because the partitions of one join share it. The probing loops are
  \<open>partial_function (option)\<close>: \<open>None\<close> is a loop that never ends. The main result is a refinement: a table
  represents a map from keys to the rows inserted under them, in insertion order, through growth, and a
  radix-partitioned table represents the same map.
\<close>

section \<open>Slices with spare capacity\<close>

text \<open>A slice is its backing array and its length; indexing is checked against the length.\<close>

type_synonym 'a gslice = "'a list \<times> nat"

definition s_make :: "'a \<Rightarrow> nat \<Rightarrow> nat \<Rightarrow> 'a gslice" where
  "s_make zero len cap = (replicate cap zero, len)"

definition s_view :: "'a gslice \<Rightarrow> 'a list" where
  "s_view s = take (snd s) (fst s)"

definition s_idx :: "'a gslice \<Rightarrow> nat \<Rightarrow> 'a xres" where
  "s_idx s i = (if i < snd s then idx (fst s) i else Inl Panic)"

definition s_upd :: "'a gslice \<Rightarrow> nat \<Rightarrow> 'a \<Rightarrow> 'a gslice xres" where
  "s_upd s i v = (if i < snd s then res_map (\<lambda>a. (a, snd s)) (upd (fst s) i v) else Inl Panic)"

text \<open>\<^verbatim>\<open>s[:m]\<close> may extend a slice up to its capacity.\<close>

definition s_reslice :: "'a gslice \<Rightarrow> nat \<Rightarrow> 'a gslice xres" where
  "s_reslice s m = (if m \<le> length (fst s) then Inr (fst s, m) else Inl Panic)"

text \<open>\<^verbatim>\<open>copy(dst, src)\<close> writes the elements both slices show.\<close>

definition s_copy :: "'a gslice \<Rightarrow> 'a gslice \<Rightarrow> 'a gslice" where
  "s_copy dst src = (copy_into (s_view dst) (s_view src) @ drop (snd dst) (fst dst), snd dst)"

text \<open>An \<^verbatim>\<open>int32\<close> index: a negative one panics.\<close>

definition s_idx32 :: "'a gslice \<Rightarrow> i32 \<Rightarrow> 'a xres" where
  "s_idx32 s r = (if sint r < 0 then Inl Panic else s_idx s (nat (sint r)))"

definition s_upd32 :: "'a gslice \<Rightarrow> i32 \<Rightarrow> 'a \<Rightarrow> 'a gslice xres" where
  "s_upd32 s r v = (if sint r < 0 then Inl Panic else s_upd s (nat (sint r)) v)"


section \<open>The row store\<close>

definition noRow :: i32 where "noRow = - 1"

definition maxBuildRows :: nat where "maxBuildRows = 2 ^ 31 - 1"

definition joinTableMinSlots :: nat where "joinTableMinSlots = 8"

definition joinTableLoadNum :: nat where "joinTableLoadNum = 7"

definition joinTableLoadDen :: nat where "joinTableLoadDen = 10"

definition rowStoreMinRows :: nat where "rowStoreMinRows = 8"

record rowStore =
  numCols :: nat
  strWidth :: nat
  strSlot :: "nat option list"
  rvalues :: "i64 gslice"
  rstrs :: "string gslice"
  rnulls :: "bool gslice"
  rnext :: "i32 gslice"
  numRows :: nat
  capRows :: nat
  grows :: nat

text \<open>The string columns in order, each with its index in the per-row string window.\<close>

fun str_slots :: "Field list \<Rightarrow> nat \<Rightarrow> nat option list \<times> nat" where
  "str_slots [] w = ([], w)"
| "str_slots (f # fs) w = (if Type f = TypeString
     then (let (ss, w') = str_slots fs (w + 1) in (Some w # ss, w'))
     else (let (ss, w') = str_slots fs w in (None # ss, w')))"

definition newRowStore :: "Schema \<Rightarrow> nat \<Rightarrow> rowStore" where
  "newRowStore schema cap = (let nc = length schema; (ss, w) = str_slots schema 0 in
     \<lparr>numCols = nc, strWidth = w, strSlot = ss,
      rvalues = s_make 0 0 (cap * nc), rstrs = s_make [] 0 (cap * w), rnulls = s_make False 0 (cap * nc),
      rnext = s_make 0 0 cap, numRows = 0, capRows = cap, grows = 0\<rparr>)"

definition presizeRows :: "int \<Rightarrow> nat" where
  "presizeRows rows = (if rows \<le> 0 \<or> int maxBuildRows < rows then 0 else nat rows)"

definition newSizedRowStore :: "Schema \<Rightarrow> nat \<Rightarrow> rowStore" where
  "newSizedRowStore schema rows = (let s = newRowStore schema 0; nc = numCols s; w = strWidth s in
     s\<lparr>rvalues := s_make 0 (rows * nc) (rows * nc), rnulls := s_make False (rows * nc) (rows * nc),
       rnext := s_make 0 rows rows, rstrs := s_make [] (rows * w) (rows * w), numRows := rows, capRows := rows\<rparr>)"

definition nextRowCap :: "nat \<Rightarrow> nat \<Rightarrow> nat" where
  "nextRowCap cur need = (let c = cur * 2;
     c = (if c < need then need else c);
     c = (if c < rowStoreMinRows then rowStoreMinRows else c)
     in if maxBuildRows < c then maxBuildRows else c)"

definition reallocate :: "nat \<Rightarrow> rowStore \<Rightarrow> rowStore" where
  "reallocate rows s = (let cap = nextRowCap (capRows s) rows in
     s\<lparr>grows := grows s + 1,
       rvalues := s_copy (s_make 0 (snd (rvalues s)) (cap * numCols s)) (rvalues s),
       rnulls := s_copy (s_make False (snd (rnulls s)) (cap * numCols s)) (rnulls s),
       rnext := s_copy (s_make 0 (snd (rnext s)) cap) (rnext s),
       rstrs := (if 0 < strWidth s then s_copy (s_make [] (snd (rstrs s)) (cap * strWidth s)) (rstrs s) else rstrs s),
       capRows := cap\<rparr>)"

definition reserve :: "rowStore \<Rightarrow> (i32 \<times> rowStore) xres" where
  "reserve s = (if maxBuildRows \<le> numRows s then Inl (Err ErrBuildRows) else
     let row = numRows s; rows = row + 1; s = s\<lparr>numRows := rows\<rparr>;
         s = (if capRows s < rows then reallocate rows s else s) in
     res_bind (s_reslice (rvalues s) (rows * numCols s)) (\<lambda>v.
     res_bind (s_reslice (rnulls s) (rows * numCols s)) (\<lambda>nl.
     res_bind (s_reslice (rnext s) rows) (\<lambda>nx.
     res_bind (if 0 < strWidth s then s_reslice (rstrs s) (rows * strWidth s) else Inr (rstrs s)) (\<lambda>st.
     Inr (word_of_nat row, s\<lparr>rvalues := v, rnulls := nl, rnext := nx, rstrs := st\<rparr>))))))"

definition write_cell :: "Batch \<Rightarrow> nat \<Rightarrow> nat \<Rightarrow> rowStore \<Rightarrow> nat \<Rightarrow> rowStore xres" where
  "write_cell batch rowIdx row s c = (let vOff = row * numCols s; sOff = row * strWidth s in
     res_bind (idx (Vectors batch) c) (\<lambda>v.
     res_bind (IsNull v rowIdx) (\<lambda>isn.
     if isn then res_map (\<lambda>nl. s\<lparr>rnulls := nl\<rparr>) (s_upd (rnulls s) (vOff + c) True)
     else (case v of
         StringVector codes dict nb \<Rightarrow> res_bind (idx (strSlot s) c) (\<lambda>slot.
           case (slot, dict) of
             (Some k, Some d) \<Rightarrow> res_bind (StringVector_Get codes dict rowIdx) (\<lambda>str.
               res_map (\<lambda>st. s\<lparr>rstrs := st\<rparr>) (s_upd (rstrs s) (sOff + k) str))
           | _ \<Rightarrow> Inr s)
       | _ \<Rightarrow> res_bind (extractInt64 v rowIdx) (\<lambda>x.
           res_map (\<lambda>vs. s\<lparr>rvalues := vs\<rparr>) (s_upd (rvalues s) (vOff + c) x))))))"

definition writeRow :: "nat \<Rightarrow> Batch \<Rightarrow> nat \<Rightarrow> rowStore \<Rightarrow> rowStore xres" where
  "writeRow row batch rowIdx s = fold_res (write_cell batch rowIdx row) s [0..<numCols s]"

definition appendFrom :: "Batch \<Rightarrow> nat \<Rightarrow> rowStore \<Rightarrow> (i32 \<times> rowStore) xres" where
  "appendFrom batch rowIdx s = res_bind (reserve s) (\<lambda>(row, s).
     res_map (\<lambda>s. (row, s)) (writeRow (nat (sint row)) batch rowIdx s))"

definition isNull :: "rowStore \<Rightarrow> i32 \<Rightarrow> nat \<Rightarrow> bool xres" where
  "isNull s row col = (if sint row < 0 then Inl Panic else s_idx (rnulls s) (nat (sint row) * numCols s + col))"

definition value_at :: "rowStore \<Rightarrow> i32 \<Rightarrow> nat \<Rightarrow> i64 xres" where
  "value_at s row col = (if sint row < 0 then Inl Panic else s_idx (rvalues s) (nat (sint row) * numCols s + col))"

definition str_at :: "rowStore \<Rightarrow> i32 \<Rightarrow> nat \<Rightarrow> string xres" where
  "str_at s row col = res_bind (idx (strSlot s) col) (\<lambda>slot. case slot of
     None \<Rightarrow> Inr []
   | Some k \<Rightarrow> if sint row < 0 then Inl Panic else s_idx (rstrs s) (nat (sint row) * strWidth s + k))"

text \<open>\<^verbatim>\<open>copy(dst[d:d+w], src[s:s+w])\<close>, one row's window of an array.\<close>

definition s_copy_window :: "'a gslice \<Rightarrow> nat \<Rightarrow> 'a gslice \<Rightarrow> nat \<Rightarrow> nat \<Rightarrow> 'a gslice xres" where
  "s_copy_window dst d src s w = (if d + w \<le> snd dst \<and> s + w \<le> snd src \<and> snd dst \<le> length (fst dst) \<and> snd src \<le> length (fst src)
     then Inr (take d (fst dst) @ take w (drop s (fst src)) @ drop (d + w) (fst dst), snd dst) else Inl Panic)"

definition setFrom :: "rowStore \<Rightarrow> nat \<Rightarrow> rowStore \<Rightarrow> nat \<Rightarrow> rowStore xres" where
  "setFrom s dst src0 srcRow =
     res_bind (s_copy_window (rvalues s) (dst * numCols s) (rvalues src0) (srcRow * numCols src0) (numCols s)) (\<lambda>v.
     res_bind (s_copy_window (rnulls s) (dst * numCols s) (rnulls src0) (srcRow * numCols src0) (numCols s)) (\<lambda>nl.
     res_map (\<lambda>st. s\<lparr>rvalues := v, rnulls := nl, rstrs := st\<rparr>)
       (if 0 < strWidth s then s_copy_window (rstrs s) (dst * strWidth s) (rstrs src0) (srcRow * strWidth src0) (strWidth s)
        else Inr (rstrs s))))"


section \<open>The open-addressed table\<close>

definition radixHash :: "i64 \<Rightarrow> u64" where
  "radixHash key = (let x = key;
     x = x XOR drop_bit 33 x;
     x = x * 0xff51afd7ed558ccd;
     x = x XOR drop_bit 33 x;
     x = x * 0xc4ceb9fe1a85ec53
     in x XOR drop_bit 33 x)"

definition radixPart :: "i64 \<Rightarrow> u64 \<Rightarrow> nat" where
  "radixPart key m = (if m = 0 then 0 else unat (radixHash key AND m))"

record joinSlot =
  skey :: i64
  head :: i32
  tail :: i32

record joinHashTable =
  slots :: "joinSlot list"
  pmask :: u64
  shift :: nat
  numKeys :: nat
  numRow :: nat
  growAt :: nat

text \<open>Go's \<^verbatim>\<open>int\<close> on 64 bits, where the code guards against its overflow.\<close>

definition wrap64 :: "int \<Rightarrow> int" where
  "wrap64 x = sint (word_of_int x :: i64)"

lemma wrap64_le: "wrap64 x \<le> 2 ^ 63 - 1"
  using sint_lt [of "word_of_int x :: i64"] by (simp add: wrap64_def)

function cap_loop :: "int \<Rightarrow> int \<Rightarrow> int" where
  "cap_loop need n = (if n < need then
     (let nxt = wrap64 (n * 2) in if nxt \<le> n then n else cap_loop need nxt) else n)"
  by pat_completeness auto
termination
proof (relation "measure (\<lambda>(need, n). nat (2 ^ 63 - n))", goal_cases)
  case (2 need n nxt)
  then show ?case using wrap64_le [of "n * 2"] by simp
qed simp

declare cap_loop.simps [simp del]

definition joinTableCapacity :: "int \<Rightarrow> int" where
  "joinTableCapacity nkeys = (if nkeys \<le> 0 then int joinTableMinSlots
     else cap_loop (wrap64 (wrap64 (nkeys * int joinTableLoadDen) + int joinTableLoadNum - 1) sdiv int joinTableLoadNum) (int joinTableMinSlots))"

fun trailing_zeros :: "nat \<Rightarrow> nat" where
  "trailing_zeros n = (if n = 0 then 64 else if even n then trailing_zeros (n div 2) + 1 else 0)"

declare trailing_zeros.simps [simp del]

definition empty_slot :: joinSlot where
  "empty_slot = \<lparr>skey = 0, head = noRow, tail = 0\<rparr>"

definition setCapacity :: "nat \<Rightarrow> joinHashTable \<Rightarrow> joinHashTable" where
  "setCapacity capacity t = t\<lparr>slots := replicate capacity empty_slot, pmask := word_of_nat (capacity - 1),
     shift := 64 - trailing_zeros capacity, growAt := capacity * joinTableLoadNum div joinTableLoadDen\<rparr>"

definition newJoinHashTable :: "int \<Rightarrow> joinHashTable" where
  "newJoinHashTable expectedKeys = setCapacity (nat (joinTableCapacity expectedKeys))
     \<lparr>slots = [], pmask = 0, shift = 0, numKeys = 0, numRow = 0, growAt = 0\<rparr>"

definition slotFor :: "joinHashTable \<Rightarrow> i64 \<Rightarrow> u64" where
  "slotFor t key = drop_bit (shift t) (radixHash key)"

text \<open>
  The probing loop all operations share: from slot \<open>i\<close> on, wrapping at the mask, to the first slot
  that \<open>stop\<close> accepts. \<open>None\<close> means the loop never ends.
\<close>

partial_function (option) probe :: "(joinSlot \<Rightarrow> bool) \<Rightarrow> joinSlot list \<Rightarrow> u64 \<Rightarrow> u64 \<Rightarrow> nat xres option" where
  "probe stop ss m i = (case idx ss (unat i) of
     Inl e \<Rightarrow> Some (Inl e)
   | Inr s \<Rightarrow> if stop s then Some (Inr (unat i)) else probe stop ss m ((i + 1) AND m))"

declare probe.simps [code]

definition grow_slot :: "joinHashTable \<Rightarrow> joinSlot \<Rightarrow> joinHashTable xres option" where
  "grow_slot t s = (if head s = noRow then Some (Inr t) else
     map_option (res_map (\<lambda>i. t\<lparr>slots := (slots t)[i := s]\<rparr>))
       (probe (\<lambda>s. head s = noRow) (slots t) (pmask t) (slotFor t (skey s))))"

fun grow_slots :: "joinHashTable \<Rightarrow> joinSlot list \<Rightarrow> joinHashTable xres option" where
  "grow_slots t [] = Some (Inr t)"
| "grow_slots t (s # ss) = (case grow_slot t s of
     None \<Rightarrow> None | Some (Inl e) \<Rightarrow> Some (Inl e) | Some (Inr t) \<Rightarrow> grow_slots t ss)"

definition grow :: "joinHashTable \<Rightarrow> joinHashTable xres option" where
  "grow t = grow_slots (setCapacity (length (slots t) * 2) t) (slots t)"

definition lookupHashed :: "joinHashTable \<Rightarrow> i64 \<Rightarrow> u64 \<Rightarrow> i32 xres option" where
  "lookupHashed t key h = map_option (res_map (\<lambda>i. let s = slots t ! i in if head s = noRow then noRow else head s))
     (probe (\<lambda>s. head s = noRow \<or> skey s = key) (slots t) (pmask t) (drop_bit (shift t) h))"

definition lookup :: "joinHashTable \<Rightarrow> i64 \<Rightarrow> i32 xres option" where
  "lookup t key = lookupHashed t key (radixHash key)"

text \<open>The slot found by \<^verbatim>\<open>insert\<close> is empty and takes the key, or has the key and its chain is extended.\<close>

definition link_row :: "i64 \<Rightarrow> i32 \<Rightarrow> joinHashTable \<Rightarrow> i32 gslice \<Rightarrow> nat \<Rightarrow> (joinHashTable \<times> i32 gslice) xres" where
  "link_row key row t nx i = (let s = slots t ! i in
     if head s = noRow then
       Inr (t\<lparr>slots := (slots t)[i := \<lparr>skey = key, head = row, tail = row\<rparr>], numKeys := numKeys t + 1\<rparr>, nx)
     else res_map (\<lambda>nx. (t\<lparr>slots := (slots t)[i := s\<lparr>tail := row\<rparr>]\<rparr>, nx)) (s_upd32 nx (tail s) row))"

definition insert_row :: "i64 \<Rightarrow> i32 \<Rightarrow> joinHashTable \<times> i32 gslice \<Rightarrow> (joinHashTable \<times> i32 gslice) xres option" where
  "insert_row key row tn = (case tn of (t, nx) \<Rightarrow>
     (case (if growAt t \<le> numKeys t then grow t else Some (Inr t)) of
       None \<Rightarrow> None
     | Some (Inl e) \<Rightarrow> Some (Inl e)
     | Some (Inr t) \<Rightarrow> (case s_upd32 nx row noRow of
         Inl e \<Rightarrow> Some (Inl e)
       | Inr nx \<Rightarrow> (let t = t\<lparr>numRow := numRow t + 1\<rparr> in
           map_option (\<lambda>r. res_bind r (link_row key row t nx))
             (probe (\<lambda>s. head s = noRow \<or> skey s = key) (slots t) (pmask t) (slotFor t key))))))"

text \<open>The walk of \<^verbatim>\<open>HashJoin.Next\<close> along the chain that starts at a row.\<close>

partial_function (option) chain_rows :: "i32 gslice \<Rightarrow> i32 \<Rightarrow> i32 list xres option" where
  "chain_rows nx r = (if r = noRow then Some (Inr []) else
     (case s_idx32 nx r of
       Inl e \<Rightarrow> Some (Inl e)
     | Inr r' \<Rightarrow> Option.bind (chain_rows nx r') (\<lambda>m. Some (res_map (\<lambda>rs. r # rs) m))))"

declare chain_rows.simps [code]

definition forEachKey :: "joinHashTable \<Rightarrow> (i64 \<times> i32) list" where
  "forEachKey t = map (\<lambda>s. (skey s, head s)) (filter (\<lambda>s. head s \<noteq> noRow) (slots t))"

section \<open>Probing\<close>

lemma mask_word: "b \<le> 64 \<Longrightarrow> (word_of_nat (2 ^ b - 1) :: u64) = mask b"
  by (simp add: mask_eq_exp_minus_1 of_nat_diff)

lemma next_index:
  assumes "unat (i :: u64) < 2 ^ b" "b \<le> 32"
  shows "unat ((i + 1) AND word_of_nat (2 ^ b - 1)) = (unat i + 1) mod 2 ^ b"
proof -
  have "(2::nat) ^ b \<le> 2 ^ 32" using assms(2) power_increasing [of b 32 "2::nat"] by simp
  then have "unat (i + 1) = unat i + 1"
    using assms(1) by (subst unat_add_lem [THEN iffD1]) auto
  moreover have "(i + 1) AND word_of_nat (2 ^ b - 1) = take_bit b (i + 1)"
    using assms(2) unfolding take_bit_eq_mask by (subst mask_word) auto
  ultimately show ?thesis by (simp only: unsigned_take_bit_eq) (simp add: take_bit_eq_mod)
qed

lemma probe_finds:
  assumes "length ss = 2 ^ b" "b \<le> 32" "unat i < 2 ^ b"
    "stop (ss ! ((unat i + d) mod 2 ^ b))" "\<And>e. e < d \<Longrightarrow> \<not> stop (ss ! ((unat i + e) mod 2 ^ b))"
  shows "probe stop ss (word_of_nat (2 ^ b - 1)) i = Some (Inr ((unat i + d) mod 2 ^ b))"
  using assms(3-5)
proof (induction d arbitrary: i)
  case 0
  then show ?case using assms(1) by (subst probe.simps) simp
next
  case (Suc d)
  let ?j = "(i + 1) AND word_of_nat (2 ^ b - 1)"
  have j: "unat ?j = (unat i + 1) mod 2 ^ b" by (rule next_index [OF Suc.prems(1) assms(2)])
  have path: "(unat ?j + e) mod 2 ^ b = (unat i + Suc e) mod 2 ^ b" for e
    unfolding j by (simp add: mod_simps)
  have "\<not> stop (ss ! unat i)" using Suc.prems(1) Suc.prems(3) [of 0] by simp
  moreover have "probe stop ss (word_of_nat (2 ^ b - 1)) ?j = Some (Inr ((unat ?j + d) mod 2 ^ b))"
  proof (rule Suc.IH)
    show "unat ?j < 2 ^ b" unfolding j by simp
    show "stop (ss ! ((unat ?j + d) mod 2 ^ b))" unfolding path using Suc.prems(2) by simp
    show "\<not> stop (ss ! ((unat ?j + e) mod 2 ^ b))" if "e < d" for e
      unfolding path using Suc.prems(3) [of "Suc e"] that by simp
  qed
  ultimately show ?case using Suc.prems(1) assms(1) path by (subst probe.simps) simp
qed

text \<open>From any start, the path visits every slot.\<close>

lemma path_reaches: "i < n \<Longrightarrow> j < n \<Longrightarrow> \<exists>d. (i + d) mod n = (j :: nat)"
  by (rule exI [of _ "j + n - i"]) simp

lemma probe_first:
  assumes "length ss = 2 ^ b" "b \<le> 32" "unat i < 2 ^ b" "j < 2 ^ b" "stop (ss ! j)"
  obtains d where "probe stop ss (word_of_nat (2 ^ b - 1)) i = Some (Inr ((unat i + d) mod 2 ^ b))"
    "stop (ss ! ((unat i + d) mod 2 ^ b))" "\<And>e. e < d \<Longrightarrow> \<not> stop (ss ! ((unat i + e) mod 2 ^ b))"
proof -
  let ?P = "\<lambda>d. stop (ss ! ((unat i + d) mod 2 ^ b))"
  obtain d0 where "?P d0" using path_reaches [OF assms(3,4)] assms(5) by metis
  then have d: "?P (LEAST d. ?P d)" by (rule LeastI)
  have "\<not> ?P e" if "e < (LEAST d. ?P d)" for e using that by (rule not_less_Least)
  then show thesis using that probe_finds [of ss b i stop "LEAST d. ?P d"] assms(1-3) d by blast
qed


section \<open>Slots\<close>

definition occ :: "joinSlot \<Rightarrow> bool" where
  "occ s \<longleftrightarrow> head s \<noteq> noRow"

definition home :: "nat \<Rightarrow> i64 \<Rightarrow> nat" where
  "home b key = unat (drop_bit (64 - b) (radixHash key))"

lemma home_less: "b \<le> 64 \<Longrightarrow> home b key < 2 ^ b"
proof -
  assume "b \<le> 64"
  have "home b key = drop_bit (64 - b) (unat (radixHash key))"
    using unsigned_less [where 'a = nat, of "radixHash key"] by (simp add: home_def unsigned_drop_bit_eq take_bit_nat_eq_self)
  then have "home b key = unat (radixHash key) div 2 ^ (64 - b)" by (simp add: drop_bit_eq_div)
  moreover have "unat (radixHash key) < 2 ^ b * 2 ^ (64 - b)"
    using unsigned_less [where 'a = nat, of "radixHash key"] \<open>b \<le> 64\<close> by (simp add: power_add [symmetric])
  ultimately show ?thesis by (simp add: less_mult_imp_div_less)
qed

text \<open>Slot \<open>j\<close> is on the path of \<open>key\<close>: every slot the probe passes before it is occupied.\<close>

definition on_path :: "nat \<Rightarrow> joinSlot list \<Rightarrow> i64 \<Rightarrow> nat \<Rightarrow> bool" where
  "on_path b ss key j \<longleftrightarrow> (\<exists>d. (home b key + d) mod 2 ^ b = j \<and> (\<forall>e < d. occ (ss ! ((home b key + e) mod 2 ^ b))))"

definition slots_ok :: "nat \<Rightarrow> joinSlot list \<Rightarrow> bool" where
  "slots_ok b ss \<longleftrightarrow> length ss = 2 ^ b \<and> b \<le> 32 \<and>
     (\<forall>i < 2 ^ b. \<forall>j < 2 ^ b. occ (ss ! i) \<and> occ (ss ! j) \<and> skey (ss ! i) = skey (ss ! j) \<longrightarrow> i = j) \<and>
     (\<forall>j < 2 ^ b. occ (ss ! j) \<longrightarrow> on_path b ss (skey (ss ! j)) j)"

definition has_key :: "joinSlot list \<Rightarrow> i64 \<Rightarrow> bool" where
  "has_key ss key \<longleftrightarrow> (\<exists>s \<in> set ss. occ s \<and> skey s = key)"

lemma find_present:
  assumes "slots_ok b ss" "j < 2 ^ b" "occ (ss ! j)" "skey (ss ! j) = key"
  shows "probe (\<lambda>s. head s = noRow \<or> skey s = key) ss (word_of_nat (2 ^ b - 1)) (drop_bit (64 - b) (radixHash key)) = Some (Inr j)"
proof -
  note ok = assms(1) [unfolded slots_ok_def]
  let ?stop = "\<lambda>s. head s = noRow \<or> skey s = key" and ?i = "drop_bit (64 - b) (radixHash key)"
  have i: "unat ?i = home b key" by (simp add: home_def)
  obtain d where d: "probe ?stop ss (word_of_nat (2 ^ b - 1)) ?i = Some (Inr ((unat ?i + d) mod 2 ^ b))"
    "?stop (ss ! ((unat ?i + d) mod 2 ^ b))" "\<And>e. e < d \<Longrightarrow> \<not> ?stop (ss ! ((unat ?i + e) mod 2 ^ b))"
    using probe_first [of ss b ?i j ?stop] ok assms(2,4) home_less [of b key] i by auto
  obtain d1 where d1: "(home b key + d1) mod 2 ^ b = j" "\<forall>e < d1. occ (ss ! ((home b key + e) mod 2 ^ b))"
    using ok assms(2-4) by (auto simp: on_path_def)
  have "d \<le> d1" using d(3) [of d1] d1(1) assms(4) i by (metis linorder_not_less)
  then have "occ (ss ! ((home b key + d) mod 2 ^ b))" using d1 assms(3) by (cases "d = d1") auto
  then have "(home b key + d) mod 2 ^ b = j" using d(2) ok assms(2-4) i by (auto simp: occ_def)
  then show ?thesis using d(1) i by simp
qed

text \<open>An empty slot exists, and the probe for an absent key, or for an empty slot, ends at one on the path.\<close>

lemma find_empty:
  assumes "slots_ok b ss" "s0 \<in> set ss" "\<not> occ s0"
    and "\<And>s. \<not> occ s \<Longrightarrow> stop s" and "\<And>s. s \<in> set ss \<Longrightarrow> occ s \<Longrightarrow> \<not> stop s"
  obtains j where "probe stop ss (word_of_nat (2 ^ b - 1)) (drop_bit (64 - b) (radixHash key)) = Some (Inr j)"
    "j < 2 ^ b" "\<not> occ (ss ! j)" "on_path b ss key j"
proof -
  note ok = assms(1) [unfolded slots_ok_def]
  let ?i = "drop_bit (64 - b) (radixHash key)"
  have i: "unat ?i = home b key" by (simp add: home_def)
  obtain j0 where "j0 < 2 ^ b" "stop (ss ! j0)" using ok assms(2-4) by (metis in_set_conv_nth)
  then obtain d where d: "probe stop ss (word_of_nat (2 ^ b - 1)) ?i = Some (Inr ((unat ?i + d) mod 2 ^ b))"
    "stop (ss ! ((unat ?i + d) mod 2 ^ b))" "\<And>e. e < d \<Longrightarrow> \<not> stop (ss ! ((unat ?i + e) mod 2 ^ b))"
    using probe_first [of ss b ?i j0 stop] ok home_less [of b key] i by auto
  show thesis
  proof (rule that)
    show "probe stop ss (word_of_nat (2 ^ b - 1)) ?i = Some (Inr ((unat ?i + d) mod 2 ^ b))" by (rule d(1))
    show "\<not> occ (ss ! ((unat ?i + d) mod 2 ^ b))" using d(2) ok assms(5) [of "ss ! ((unat ?i + d) mod 2 ^ b)"] by auto
    show "on_path b ss key ((unat ?i + d) mod 2 ^ b)"
      unfolding on_path_def i using d(3) assms(4) i by metis
  qed simp
qed

lemma has_key_nth: "length ss = n \<Longrightarrow> has_key ss key \<longleftrightarrow> (\<exists>j < n. occ (ss ! j) \<and> skey (ss ! j) = key)"
  unfolding has_key_def by (metis in_set_conv_nth)

lemma slots_ok_put:
  assumes "slots_ok b ss" "j < 2 ^ b" "\<not> occ (ss ! j)" "on_path b ss (skey s) j" "occ s" "\<not> has_key ss (skey s)"
  shows "slots_ok b (ss[j := s])"
proof -
  note ok = assms(1) [unfolded slots_ok_def]
  have absent: "skey (ss ! i) \<noteq> skey s" if "i < 2 ^ b" "occ (ss ! i)" for i
    using assms(6) that ok by (auto simp: has_key_nth)
  have occ: "occ (ss[j := s] ! i)" if "occ (ss ! i)" "i < 2 ^ b" for i
    using that assms(2,5) ok by (auto simp: nth_list_update)
  have path: "on_path b (ss[j := s]) key i" if "on_path b ss key i" for key i
    using that occ unfolding on_path_def by (metis mod_less_divisor zero_less_numeral zero_less_power)
  show ?thesis
    using ok assms(2-5) absent path by (auto simp: slots_ok_def nth_list_update split: if_splits) blast
qed

lemma occ_empty [simp]: "\<not> occ empty_slot"
  by (simp add: occ_def empty_slot_def)

lemma slots_ok_empty: "b \<le> 32 \<Longrightarrow> slots_ok b (replicate (2 ^ b) empty_slot)"
  by (simp add: slots_ok_def occ_def empty_slot_def)

lemma filter_update_empty:
  assumes "j < length ss" "\<not> occ (ss ! j)" "occ s"
  shows "length (filter occ (ss[j := s])) = Suc (length (filter occ ss))"
    and "set (filter occ (ss[j := s])) = insert s (set (filter occ ss))"
proof -
  obtain xs y ys where "ss = xs @ y # ys" "length xs = j" using id_take_nth_drop [OF assms(1)] assms(1)
    by (metis length_take min.absorb4)
  then show "length (filter occ (ss[j := s])) = Suc (length (filter occ ss))"
    and "set (filter occ (ss[j := s])) = insert s (set (filter occ ss))"
    using assms by auto
qed

lemma empty_exists: "length (filter occ ss) < length ss \<Longrightarrow> \<exists>s \<in> set ss. \<not> occ s"
  by (metis filter_True less_irrefl)

lemma has_key_filter: "has_key ss key \<longleftrightarrow> key \<in> skey ` set (filter occ ss)"
  by (auto simp: has_key_def)

lemma distinct_slot_keys:
  assumes "\<forall>i < length ss. \<forall>j < length ss. occ (ss ! i) \<and> occ (ss ! j) \<and> skey (ss ! i) = skey (ss ! j) \<longrightarrow> i = j"
  shows "distinct (map skey (filter occ ss))"
  using assms
proof (induction ss)
  case (Cons s ss)
  have "distinct (map skey (filter occ ss))"
    using Cons.prems by (intro Cons.IH) (metis (no_types) Suc_inject Suc_less_eq length_Cons nth_Cons_Suc)
  moreover have "skey s' \<noteq> skey s" if "occ s" "s' \<in> set ss" "occ s'" for s'
  proof -
    obtain i where "i < length ss" "s' = ss ! i" using \<open>s' \<in> set ss\<close> by (auto simp: in_set_conv_nth)
    then show ?thesis using Cons.prems that by (metis Suc_less_eq length_Cons nth_Cons_0 nth_Cons_Suc zero_less_Suc nat.distinct(1))
  qed
  ultimately show ?case by (auto dest!: sym [of "skey s"])
qed simp

definition shaped :: "nat \<Rightarrow> joinHashTable \<Rightarrow> bool" where
  "shaped b t \<longleftrightarrow> slots_ok b (slots t) \<and> pmask t = word_of_nat (2 ^ b - 1) \<and> shift t = 64 - b"

lemma grow_slots_ok:
  assumes "shaped b t" "distinct (map skey (filter occ ss))"
    "\<And>s. s \<in> set ss \<Longrightarrow> occ s \<Longrightarrow> \<not> has_key (slots t) (skey s)"
    "length (filter occ (slots t)) + length (filter occ ss) < 2 ^ b"
  shows "\<exists>ss'. grow_slots t ss = Some (Inr (t\<lparr>slots := ss'\<rparr>)) \<and> slots_ok b ss' \<and>
    set (filter occ ss') = set (filter occ (slots t)) \<union> set (filter occ ss) \<and>
    length (filter occ ss') = length (filter occ (slots t)) + length (filter occ ss)"
  using assms
proof (induction ss arbitrary: t)
  case Nil
  then show ?case by (intro exI [of _ "slots t"]) (simp add: shaped_def)
next
  case (Cons s ss)
  show ?case
  proof (cases "occ s")
    case False
    then show ?thesis using Cons.IH [of t] Cons.prems by (simp add: grow_slot_def occ_def)
  next
    case True
    note sh = Cons.prems(1) [unfolded shaped_def]
    have len: "length (slots t) = 2 ^ b" using sh by (simp add: slots_ok_def)
    obtain s0 where s0: "s0 \<in> set (slots t)" "\<not> occ s0"
      using empty_exists [of "slots t"] Cons.prems(4) len by auto
    obtain j where j: "probe (\<lambda>s. head s = noRow) (slots t) (word_of_nat (2 ^ b - 1)) (drop_bit (64 - b) (radixHash (skey s))) = Some (Inr j)"
      "j < 2 ^ b" "\<not> occ (slots t ! j)" "on_path b (slots t) (skey s) j"
      by (rule find_empty [OF conjunct1 [OF sh] s0, of "\<lambda>s. head s = noRow" "skey s"]) (auto simp: occ_def)
    let ?t = "t\<lparr>slots := (slots t)[j := s]\<rparr>"
    have absent: "\<not> has_key (slots t) (skey s)" using Cons.prems(3) True by simp
    have up: "length (filter occ (slots ?t)) = Suc (length (filter occ (slots t)))"
      "set (filter occ (slots ?t)) = insert s (set (filter occ (slots t)))"
      using filter_update_empty [of j "slots t" s] j True len by simp_all
    have "shaped b ?t" using sh slots_ok_put [OF conjunct1 [OF sh] j(2,3) j(4) True absent] by (simp add: shaped_def)
    moreover have "\<not> has_key (slots ?t) (skey s')" if "s' \<in> set ss" "occ s'" for s'
      using Cons.prems(2,3) that up(2) True unfolding has_key_filter by (auto simp: image_iff)
    ultimately obtain ss' where "grow_slots ?t ss = Some (Inr (?t\<lparr>slots := ss'\<rparr>))" "slots_ok b ss'"
      "set (filter occ ss') = set (filter occ (slots ?t)) \<union> set (filter occ ss)"
      "length (filter occ ss') = length (filter occ (slots ?t)) + length (filter occ ss)"
      using Cons.IH [of ?t] Cons.prems(2,4) up True by auto
    then show ?thesis
      using True True [unfolded occ_def] j(1) sh up by (intro exI [of _ ss']) (auto simp: grow_slot_def slotFor_def)
  qed
qed

lemma trailing_zeros_exp: "trailing_zeros (2 ^ b) = b"
  by (induction b) (simp_all add: trailing_zeros.simps [of "2 ^ _"] trailing_zeros.simps [of "2 * 2 ^ _"] trailing_zeros.simps [of "Suc 0"])

lemma setCapacity_shaped:
  assumes "b \<le> 32"
  shows "shaped b (setCapacity (2 ^ b) t)" "slots (setCapacity (2 ^ b) t) = replicate (2 ^ b) empty_slot"
    "growAt (setCapacity (2 ^ b) t) = 2 ^ b * 7 div 10"
    "numKeys (setCapacity c t) = numKeys t" "numRow (setCapacity c t) = numRow t"
  using slots_ok_empty [OF assms]
  by (simp_all add: shaped_def setCapacity_def trailing_zeros_exp joinTableLoadNum_def joinTableLoadDen_def)

lemma filter_occ_empty: "filter occ (replicate n empty_slot) = []"
  by (simp add: occ_def empty_slot_def)

definition table_ok :: "nat \<Rightarrow> joinHashTable \<Rightarrow> bool" where
  "table_ok b t \<longleftrightarrow> shaped b t \<and> 3 \<le> b \<and> growAt t = 2 ^ b * 7 div 10 \<and>
     numKeys t = length (filter occ (slots t)) \<and> numKeys t \<le> growAt t"

lemma grow_at_less: "2 ^ b * 7 div 10 < (2 ^ b :: nat)"
  by (simp add: less_mult_imp_div_less)

lemma grow_at_Suc: "3 \<le> b \<Longrightarrow> 2 ^ b * 7 div 10 < 2 ^ Suc b * 7 div (10 :: nat)"
proof -
  assume "3 \<le> b"
  then have "(2::nat) ^ 3 \<le> 2 ^ b" by (rule power_increasing) simp
  then show ?thesis by simp
qed

lemma grow_ok:
  assumes "table_ok b t" "b < 32"
  shows "\<exists>t'. grow t = Some (Inr t') \<and> table_ok (Suc b) t' \<and> numKeys t' < growAt t' \<and> numKeys t' = numKeys t \<and>
    numRow t' = numRow t \<and> set (filter occ (slots t')) = set (filter occ (slots t))"
proof -
  note ok = assms(1) [unfolded table_ok_def shaped_def slots_ok_def]
  let ?t = "setCapacity (2 ^ Suc b) t"
  have len: "length (slots t) * 2 = 2 ^ Suc b" using ok by simp
  have keys: "numKeys t = length (filter occ (slots t))" "numKeys t < 2 ^ Suc b * 7 div 10" "numKeys t < 2 ^ Suc b"
    using ok grow_at_Suc [of b] grow_at_less [of b] by auto
  note cap = setCapacity_shaped [of "Suc b", unfolded Suc_le_eq, OF assms(2)]
  have "\<not> has_key (slots ?t) (skey s)" for s
    unfolding has_key_filter cap(2) filter_occ_empty by simp
  moreover have "distinct (map skey (filter occ (slots t)))"
    using ok by (intro distinct_slot_keys) auto
  moreover have "length (filter occ (slots ?t)) + length (filter occ (slots t)) < 2 ^ Suc b"
    unfolding cap(2) filter_occ_empty using keys by simp
  ultimately obtain ss' where "grow_slots ?t (slots t) = Some (Inr (?t\<lparr>slots := ss'\<rparr>))" "slots_ok (Suc b) ss'"
    "set (filter occ ss') = set (filter occ (slots ?t)) \<union> set (filter occ (slots t))"
    "length (filter occ ss') = length (filter occ (slots ?t)) + length (filter occ (slots t))"
    using grow_slots_ok [OF cap(1), of "slots t"] by blast
  then show ?thesis
    unfolding grow_def len using cap ok keys assms(2)
    by (intro exI [of _ "?t\<lparr>slots := ss'\<rparr>"]) (auto simp: table_ok_def shaped_def cap(2) filter_occ_empty)
qed

section \<open>Capacity\<close>

lemma wrap64_id: "- (2 ^ 63) \<le> x \<Longrightarrow> x < 2 ^ 63 \<Longrightarrow> wrap64 x = x"
  by (simp add: wrap64_def sint_sbintrunc' signed_take_bit_int_eq_self)

lemma cap_loop_exp:
  assumes "b \<le> 32" "need \<le> 2 ^ 32"
  shows "\<exists>b'. b \<le> b' \<and> b' \<le> 32 \<and> cap_loop need (2 ^ b) = 2 ^ b' \<and> need \<le> 2 ^ b'"
  using assms(1)
proof (induction "32 - b" arbitrary: b)
  case 0
  then show ?case using assms(2) by (intro exI [of _ b]) (simp add: cap_loop.simps)
next
  case (Suc n)
  show ?case
  proof (cases "2 ^ b < need")
    case True
    have "(2::int) ^ Suc b \<le> 2 ^ 32" using Suc.hyps(2) by (intro power_increasing) auto
    then have w: "wrap64 (2 ^ b * 2) = 2 ^ Suc b" 
      using zero_le_power [of "2::int" b] by (intro trans [OF wrap64_id]) (auto simp del: zero_le_power)
    obtain b' where "Suc b \<le> b'" "b' \<le> 32" "cap_loop need (2 ^ Suc b) = 2 ^ b'" "need \<le> 2 ^ b'"
      using Suc.hyps(1) [of "Suc b"] Suc.hyps(2) by (metis Suc_diff_Suc Suc_inject Suc_leI diff_is_0_eq' nat.distinct(1) not_less)
    then show ?thesis using True w by (subst cap_loop.simps) (auto simp: Let_def)
  next
    case False
    then show ?thesis using Suc.prems by (intro exI [of _ b]) (simp add: cap_loop.simps)
  qed
qed

lemma joinTableCapacity_exp:
  assumes "n \<le> 2 ^ 31"
  obtains b where "3 \<le> b" "b \<le> 32" "joinTableCapacity n = 2 ^ b" "n \<le> 2 ^ b * 7 div 10"
proof (cases "n \<le> 0")
  case True
  then show thesis by (intro that [of 3]) (simp_all add: joinTableCapacity_def joinTableMinSlots_def)
next
  case False
  let ?need = "(n * 10 + 6) div 7"
  have "wrap64 (n * 10) = n * 10" "wrap64 (n * 10 + 6) = n * 10 + 6"
    using False assms by (intro wrap64_id; simp)+
  then have cap: "joinTableCapacity n = cap_loop ?need (2 ^ 3)"
    using False by (simp add: joinTableCapacity_def joinTableLoadNum_def joinTableLoadDen_def joinTableMinSlots_def
        signed_divide_int_def sgn_if add.commute)
  have "?need \<le> 2 ^ 32" using assms by simp
  then obtain b' where "3 \<le> b'" "b' \<le> 32" "cap_loop ?need (2 ^ 3) = 2 ^ b'" "?need \<le> 2 ^ b'"
    using cap_loop_exp [of 3 ?need] by auto
  moreover have "n \<le> x * 7 div 10" if "?need \<le> x" for x using that by linarith
  ultimately show thesis using that cap by metis
qed


section \<open>Chains\<close>

definition row_in :: "i32 gslice \<Rightarrow> i32 \<Rightarrow> bool" where
  "row_in nx r \<longleftrightarrow> 0 \<le> sint r \<and> nat (sint r) < snd nx"

definition slice_ok :: "'a gslice \<Rightarrow> bool" where
  "slice_ok s \<longleftrightarrow> snd s \<le> length (fst s)"

lemma s_idx32_row: "slice_ok nx \<Longrightarrow> (\<exists>x. s_idx32 nx r = Inr x) \<longleftrightarrow> row_in nx r"
  by (auto simp: s_idx32_def s_idx_def idx_def row_in_def slice_ok_def)

lemma s_upd32_ok:
  assumes "slice_ok nx" "row_in nx r"
  obtains nx' where "s_upd32 nx r v = Inr nx'" "snd nx' = snd nx \<and> length (fst nx') = length (fst nx)" "slice_ok nx'"
    "\<And>r'. s_idx32 nx' r' = (if r' = r then Inr v else s_idx32 nx r')"
proof
  show "s_upd32 nx r v = Inr ((fst nx)[nat (sint r) := v], snd nx)"
    using assms by (simp add: s_upd32_def s_upd_def row_in_def slice_ok_def)
  show "s_idx32 ((fst nx)[nat (sint r) := v], snd nx) r' = (if r' = r then Inr v else s_idx32 nx r')" for r'
    using assms by (auto simp: s_idx32_def s_idx_def idx_def row_in_def slice_ok_def nth_list_update nat_eq_iff dest: signed_word_eqI)
qed (use assms in \<open>simp_all add: slice_ok_def\<close>)

fun linked :: "i32 gslice \<Rightarrow> i32 list \<Rightarrow> bool" where
  "linked nx [] \<longleftrightarrow> True"
| "linked nx [r] \<longleftrightarrow> s_idx32 nx r = Inr noRow"
| "linked nx (r # r' # rs) \<longleftrightarrow> s_idx32 nx r = Inr r' \<and> linked nx (r' # rs)"

lemma linked_rows: "slice_ok nx \<Longrightarrow> linked nx rs \<Longrightarrow> r \<in> set rs \<Longrightarrow> row_in nx r"
  by (induction nx rs rule: linked.induct) (auto simp: s_idx32_row [symmetric])

lemma noRow_not_in [simp]: "\<not> row_in nx noRow"
  by (simp add: row_in_def noRow_def)

lemma linked_frame: "linked nx rs \<Longrightarrow> (\<And>r. r \<in> set rs \<Longrightarrow> s_idx32 nx' r = s_idx32 nx r) \<Longrightarrow> linked nx' rs"
  by (induction nx rs rule: linked.induct) auto

lemma linked_append:
  assumes "linked nx rs" "rs \<noteq> []" "s_idx32 nx' (last rs) = Inr r" "s_idx32 nx' r = Inr noRow"
    "\<And>r'. r' \<in> set rs \<Longrightarrow> r' \<noteq> last rs \<Longrightarrow> s_idx32 nx' r' = s_idx32 nx r'" "distinct rs"
  shows "linked nx' (rs @ [r])"
  using assms
proof (induction nx rs rule: linked.induct)
  case (3 nx r1 r2 rs)
  then have "s_idx32 nx' r1 = Inr r2" by (metis distinct.simps(2) last_ConsR last_in_set linked.simps(3) list.distinct(1) list.set_intros(1))
  then show ?case using 3 by simp
qed auto

lemma chain_rows_linked:
  assumes "slice_ok nx" "linked nx rs" "rs \<noteq> []"
  shows "chain_rows nx (hd rs) = Some (Inr rs)"
  using assms
proof (induction nx rs rule: linked.induct)
  case (2 nx r)
  then have "r \<noteq> noRow" using linked_rows [of nx "[r]" r] by auto
  then show ?case using 2 by (subst chain_rows.simps) (simp add: chain_rows.simps [of nx noRow])
next
  case (3 nx r r' rs)
  then have "r \<noteq> noRow" using linked_rows [of nx "r # r' # rs" r] by auto
  then show ?case using 3 by (subst chain_rows.simps) simp
qed simp

section \<open>What a table represents\<close>

text \<open>
  A table and the chain links of its store represent the map \<open>m\<close> from keys to rows: the occupied slots
  are the keys with rows, and the rows of a key are linked in order from the head to the tail of its slot.
\<close>

definition rep_table :: "joinHashTable \<Rightarrow> i32 gslice \<Rightarrow> (i64 \<Rightarrow> i32 list) \<Rightarrow> bool" where
  "rep_table t nx m \<longleftrightarrow> slice_ok nx \<and> snd nx \<le> maxBuildRows \<and> (\<exists>b. table_ok b t) \<and>
     (\<forall>s \<in> set (filter occ (slots t)). m (skey s) \<noteq> [] \<and> head s = hd (m (skey s)) \<and> tail s = last (m (skey s))) \<and>
     (\<forall>k. m k \<noteq> [] \<longrightarrow> has_key (slots t) k) \<and>
     (\<forall>k. linked nx (m k) \<and> distinct (m k)) \<and> (\<forall>k k'. k \<noteq> k' \<longrightarrow> set (m k) \<inter> set (m k') = {})"

lemma rep_table_keys_le: 
  assumes "rep_table t nx m"
  shows "length (filter occ (slots t)) \<le> snd nx"
proof -
  note rep = assms [unfolded rep_table_def]
  let ?S = "set (filter occ (slots t))" and ?f = "\<lambda>s. nat (sint (head s))"
  obtain b where "slots_ok b (slots t)" using rep by (auto simp: table_ok_def shaped_def)
  then have keys: "distinct (map skey (filter occ (slots t)))"
    by (intro distinct_slot_keys) (auto simp: slots_ok_def)
  have hd_in: "head s \<in> set (m (skey s))" if "s \<in> ?S" for s
    using rep that by auto
  have rows: "row_in nx (head s)" if "s \<in> ?S" for s
    using rep linked_rows [of nx "m (skey s)" "head s"] hd_in [OF that] by blast
  have "inj_on ?f ?S"
  proof (rule inj_onI)
    fix s s' assume s: "s \<in> ?S" "s' \<in> ?S" and eq: "?f s = ?f s'"
    have "sint (head s) = sint (head s')" using eq rows [OF s(1)] rows [OF s(2)] by (simp add: row_in_def eq_nat_nat_iff)
    then have "head s = head s'" by (rule signed_word_eqI)
    then have "skey s = skey s'" using rep hd_in [OF s(1)] hd_in [OF s(2)] by (metis disjoint_iff)
    then show "s = s'" using keys s by (auto simp: distinct_map dest: inj_onD)
  qed
  moreover have "?f ` ?S \<subseteq> {..<snd nx}" using rows by (auto simp: row_in_def)
  ultimately have "card ?S \<le> card {..<snd nx}" by (intro card_inj_on_le) auto
  then show ?thesis using keys distinct_card [of "filter occ (slots t)"] by (simp add: distinct_map)
qed

lemma rep_table_frame:
  assumes "rep_table t nx m" "slice_ok nx'" "snd nx' \<le> maxBuildRows"
    "\<And>k r. r \<in> set (m k) \<Longrightarrow> s_idx32 nx' r = s_idx32 nx r"
  shows "rep_table t nx' m"
proof -
  have "linked nx' (m k)" for k
    using assms(1,4) by (intro linked_frame [of nx "m k" nx']) (auto simp: rep_table_def)
  then show ?thesis using assms(1-3) by (simp add: rep_table_def)
qed

lemma rep_table_rows: "rep_table t nx m \<Longrightarrow> r \<in> set (m k) \<Longrightarrow> row_in nx r"
  unfolding rep_table_def using linked_rows by blast

lemma slot_of_key:
  assumes "rep_table t nx m" "table_ok b t" "m k \<noteq> []"
  obtains j where "j < 2 ^ b" "occ (slots t ! j)" "skey (slots t ! j) = k" "head (slots t ! j) = hd (m k)" "tail (slots t ! j) = last (m k)"
proof -
  have "length (slots t) = 2 ^ b" using assms(2) by (simp add: table_ok_def shaped_def slots_ok_def)
  moreover have "has_key (slots t) k" using assms(1,3) by (simp add: rep_table_def)
  ultimately obtain j where j: "j < 2 ^ b" "occ (slots t ! j)" "skey (slots t ! j) = k" "slots t ! j \<in> set (slots t)"
    by (auto simp: has_key_nth)
  then have "slots t ! j \<in> set (filter occ (slots t))" by simp
  then show thesis using that [of j] j assms(1) unfolding rep_table_def by blast
qed

lemma no_key:
  assumes "rep_table t nx m" "m k = []"
  shows "\<not> has_key (slots t) k"
  using assms unfolding rep_table_def has_key_filter by auto

lemma lookup_rep:
  assumes "rep_table t nx m"
  shows "lookup t k = Some (Inr (if m k = [] then noRow else hd (m k)))"
proof -
  obtain b where b: "table_ok b t" using assms by (auto simp: rep_table_def)
  note sh = b [unfolded table_ok_def shaped_def]
  show ?thesis
  proof (cases "m k = []")
    case True
    obtain s0 where s0: "s0 \<in> set (slots t)" "\<not> occ s0"
      using empty_exists [of "slots t"] sh grow_at_less [of b] by (auto simp: slots_ok_def)
    have "\<not> (head s = noRow \<or> skey s = k)" if "s \<in> set (slots t)" "occ s" for s
      using no_key [OF assms True] that by (auto simp: has_key_def occ_def)
    then obtain j where "probe (\<lambda>s. head s = noRow \<or> skey s = k) (slots t) (word_of_nat (2 ^ b - 1)) (drop_bit (64 - b) (radixHash k)) = Some (Inr j)"
      "\<not> occ (slots t ! j)"
      using find_empty [of b "slots t" s0 "\<lambda>s. head s = noRow \<or> skey s = k" k] sh s0 by (auto simp: occ_def)
    then show ?thesis using True sh by (simp add: lookup_def lookupHashed_def occ_def)
  next
    case False
    obtain j where j: "j < 2 ^ b" "occ (slots t ! j)" "skey (slots t ! j) = k" "head (slots t ! j) = hd (m k)"
      using slot_of_key [OF assms b False] by blast
    then show ?thesis using False sh find_present [of b "slots t" j k] by (simp add: lookup_def lookupHashed_def Let_def occ_def)
  qed
qed

lemma rep_table_grow:
  assumes "rep_table t nx m"
  obtains t' where "(if growAt t \<le> numKeys t then grow t else Some (Inr t)) = Some (Inr t')" "rep_table t' nx m"
    "numKeys t' < growAt t'"
proof (cases "growAt t \<le> numKeys t")
  case True
  obtain b where b: "table_ok b t" using assms by (auto simp: rep_table_def)
  have "numKeys t \<le> maxBuildRows"
    using rep_table_keys_le [OF assms] b assms by (auto simp: table_ok_def rep_table_def)
  then have "b \<noteq> 32" using b True by (auto simp: table_ok_def maxBuildRows_def)
  then have "b < 32" using b by (auto simp: table_ok_def shaped_def slots_ok_def)
  then obtain t' where t': "grow t = Some (Inr t')" "table_ok (Suc b) t'" "numKeys t' < growAt t'"
    "set (filter occ (slots t')) = set (filter occ (slots t))"
    using grow_ok [OF b] by blast
  moreover have "has_key (slots t') = has_key (slots t)" using t'(4) by (auto simp: has_key_filter)
  ultimately have "rep_table t' nx m" using assms unfolding rep_table_def by metis
  then show thesis using that [of t'] t' True by simp
next
  case False
  then show thesis using that [of t] assms by simp
qed

text \<open>Linking a fresh row: the key's slot takes it as its head, or its chain is extended.\<close>

lemma link_absent:
  assumes rep: "rep_table t nx m" and b: "table_ok b t" and room: "numKeys t < growAt t"
    and k: "m k = []" and nx: "s_idx32 nx r = Inr noRow" and fresh: "\<And>k. r \<notin> set (m k)"
    and j: "j < 2 ^ b" "\<not> occ (slots t ! j)" "on_path b (slots t) k j"
  shows "\<exists>t'. link_row k r (t\<lparr>numRow := c\<rparr>) nx j = Inr (t', nx) \<and> rep_table t' nx (m(k := m k @ [r]))"
proof -
  note ok = b [unfolded table_ok_def shaped_def]
  let ?s = "\<lparr>skey = k, head = r, tail = r\<rparr>"
  let ?t = "t\<lparr>numRow := c, slots := (slots t)[j := ?s], numKeys := numKeys t + 1\<rparr>"
  have "row_in nx r" using nx rep s_idx32_row [of nx r] by (auto simp: rep_table_def)
  then have s: "occ ?s" by (auto simp: occ_def)
  have len: "length (slots t) = 2 ^ b" using ok by (simp add: slots_ok_def)
  note up = filter_update_empty [of j "slots t" ?s, unfolded len, OF j(1,2) s]
  have "slots_ok b (slots ?t)"
    using slots_ok_put [of b "slots t" j ?s] ok j s no_key [OF rep k] by simp
  then have "table_ok b ?t" using ok up room by (simp add: table_ok_def shaped_def)
  moreover have "has_key (slots ?t) k' \<longleftrightarrow> k' = k \<or> has_key (slots t) k'" for k'
    using up(2) by (auto simp: has_key_filter image_iff)
  moreover have "skey s \<noteq> k" if "s \<in> set (filter occ (slots t))" for s
    using no_key [OF rep k] that by (auto simp: has_key_filter)
  ultimately have "rep_table ?t nx (m(k := [r]))"
    using rep nx fresh k up(2) unfolding rep_table_def by auto
  then show ?thesis using j(2) k by (simp add: link_row_def occ_def)
qed

lemma link_present:
  assumes rep: "rep_table t nx m" and b: "table_ok b t"
    and k: "m k \<noteq> []" and nx: "s_idx32 nx r = Inr noRow" and fresh: "\<And>k. r \<notin> set (m k)"
    and j: "j < 2 ^ b" "occ (slots t ! j)" "skey (slots t ! j) = k" "head (slots t ! j) = hd (m k)" "tail (slots t ! j) = last (m k)"
  shows "\<exists>t' nx'. link_row k r (t\<lparr>numRow := c\<rparr>) nx j = Inr (t', nx') \<and> rep_table t' nx' (m(k := m k @ [r])) \<and>
    (snd nx' = snd nx \<and> length (fst nx') = length (fst nx)) \<and> (\<forall>r'. r' \<noteq> last (m k) \<longrightarrow> s_idx32 nx' r' = s_idx32 nx r')"
proof -
  note ok = b [unfolded table_ok_def shaped_def slots_ok_def]
  note rep' = rep [unfolded rep_table_def]
  have last: "last (m k) \<in> set (m k)" using k by simp
  obtain nx' where nx': "s_upd32 nx (last (m k)) r = Inr nx'" "snd nx' = snd nx \<and> length (fst nx') = length (fst nx)" "slice_ok nx'"
    "\<And>r'. s_idx32 nx' r' = (if r' = last (m k) then Inr r else s_idx32 nx r')"
    using s_upd32_ok [of nx "last (m k)" r] rep' rep_table_rows [OF rep last] by metis
  let ?s = "(slots t ! j)\<lparr>tail := r\<rparr>" and ?m = "m(k := m k @ [r])"
  let ?t = "t\<lparr>numRow := c, slots := (slots t)[j := ?s]\<rparr>"
  have occ_s: "occ ?s" "skey ?s = k" using j by (simp_all add: occ_def)
  have len: "length (slots t) = 2 ^ b" using ok by simp
  have same: "occ (slots ?t ! i) = occ (slots t ! i)" "skey (slots ?t ! i) = skey (slots t ! i)" if "i < 2 ^ b" for i
    using that j occ_s len by (auto simp: nth_list_update)
  have path: "on_path b (slots ?t) = on_path b (slots t)"
    unfolding on_path_def using same(1) by (intro ext) simp
  have "slots_ok b (slots ?t)" using ok same path by (simp add: slots_ok_def)
  moreover have "length (filter occ (slots ?t)) = length (filter occ (slots t))"
    using same(1) len by (intro length_filter_conv_card [THEN trans] trans [OF _ length_filter_conv_card [symmetric]] arg_cong [of _ _ card]) auto
  ultimately have "table_ok b ?t" using b by (simp add: table_ok_def shaped_def)
  moreover have "has_key (slots ?t) = has_key (slots t)"
    using same len by (intro ext) (auto simp: has_key_nth [of _ "2 ^ b"])
  moreover have "linked nx' (?m k')" for k'
  proof (cases "k' = k")
    case True
    have "r \<noteq> last (m k)" using fresh [of k] last by auto
    then show ?thesis using True linked_append [of nx "m k" nx' r] rep' nx' nx k by simp
  next
    case False
    then have "last (m k) \<notin> set (m k')" using rep' last by blast
    then show ?thesis using False rep' nx'(4) by (auto intro: linked_frame [of nx "m k'"])
  qed
  moreover have "?m (skey s) \<noteq> [] \<and> head s = hd (?m (skey s)) \<and> tail s = last (?m (skey s))"
    if "s \<in> set (filter occ (slots ?t))" for s
  proof -
    have "s \<in> set (slots ?t)" and os: "occ s" using that by simp_all
    then obtain i where "i < length (slots ?t)" and s: "slots ?t ! i = s" unfolding in_set_conv_nth by blast
    then have i: "i < 2 ^ b" "s = slots ?t ! i" "occ (slots t ! i)" using same(1) [of i] os len by simp_all
    show ?thesis
    proof (cases "i = j")
      case True
      then show ?thesis using i j len k by simp
    next
      case False
      then have "s \<in> set (filter occ (slots t))" "skey s \<noteq> k" using i len ok j by (auto simp: nth_list_update)
      then show ?thesis using rep' by simp
    qed
  qed
  ultimately have "rep_table ?t nx' ?m"
    using rep' nx'(2,3) fresh k unfolding rep_table_def by auto
  then show ?thesis using nx' j k by (auto simp: link_row_def occ_def)
qed

lemma insert_row_rep:
  assumes rep: "rep_table t nx m" and r: "row_in nx r" "\<And>k. r \<notin> set (m k)"
  shows "\<exists>t' nx'. insert_row k r (t, nx) = Some (Inr (t', nx')) \<and> rep_table t' nx' (m(k := m k @ [r])) \<and>
    (snd nx' = snd nx \<and> length (fst nx') = length (fst nx)) \<and> (\<forall>r'. r' \<noteq> r \<longrightarrow> r' \<notin> set (m k) \<longrightarrow> s_idx32 nx' r' = s_idx32 nx r')"
proof -
  obtain t1 where t1: "(if growAt t \<le> numKeys t then grow t else Some (Inr t)) = Some (Inr t1)" "rep_table t1 nx m"
    "numKeys t1 < growAt t1" using rep_table_grow [OF rep] .
  obtain nx1 where nx1: "s_upd32 nx r noRow = Inr nx1" "snd nx1 = snd nx \<and> length (fst nx1) = length (fst nx)" "slice_ok nx1"
    "\<And>r'. s_idx32 nx1 r' = (if r' = r then Inr noRow else s_idx32 nx r')"
    using s_upd32_ok [of nx r noRow] rep r(1) unfolding rep_table_def by metis
  have rep1: "rep_table t1 nx1 m"
    using rep_table_frame [OF t1(2), of nx1] nx1 rep r(2) by (metis rep_table_def)
  obtain b where b: "table_ok b t1" using rep1 by (auto simp: rep_table_def)
  note sh = b [unfolded table_ok_def shaped_def]
  let ?t = "t1\<lparr>numRow := numRow t1 + 1\<rparr>" and ?stop = "\<lambda>s. head s = noRow \<or> skey s = k"
  have ins: "insert_row k r (t, nx) = Some (link_row k r ?t nx1 j)"
    if "probe ?stop (slots t1) (word_of_nat (2 ^ b - 1)) (drop_bit (64 - b) (radixHash k)) = Some (Inr j)" for j
    using that t1(1) nx1(1) sh by (simp add: insert_row_def slotFor_def)
  show ?thesis
  proof (cases "m k = []")
    case True
    obtain s0 where s0: "s0 \<in> set (slots t1)" "\<not> occ s0"
      using empty_exists [of "slots t1"] sh grow_at_less [of b] by (auto simp: slots_ok_def)
    have "\<not> ?stop s" if "s \<in> set (slots t1)" "occ s" for s
      using no_key [OF rep1 True] that by (auto simp: has_key_def occ_def)
    then obtain j where j: "probe ?stop (slots t1) (word_of_nat (2 ^ b - 1)) (drop_bit (64 - b) (radixHash k)) = Some (Inr j)"
      "j < 2 ^ b" "\<not> occ (slots t1 ! j)" "on_path b (slots t1) k j"
      using find_empty [of b "slots t1" s0 ?stop k] sh s0 by (auto simp: occ_def)
    obtain t' where "link_row k r ?t nx1 j = Inr (t', nx1)" "rep_table t' nx1 (m(k := m k @ [r]))"
      using link_absent [OF rep1 b t1(3) True _ r(2) j(2-4)] nx1(4) by auto
    then show ?thesis using ins [OF j(1)] nx1(2,4) by auto
  next
    case False
    obtain j where j: "j < 2 ^ b" "occ (slots t1 ! j)" "skey (slots t1 ! j) = k" "head (slots t1 ! j) = hd (m k)"
      "tail (slots t1 ! j) = last (m k)" using slot_of_key [OF rep1 b False] .
    then have "insert_row k r (t, nx) = Some (link_row k r ?t nx1 j)"
      using sh by (intro ins find_present) auto
    moreover obtain t' nx' where "link_row k r ?t nx1 j = Inr (t', nx')" "rep_table t' nx' (m(k := m k @ [r]))"
      "snd nx' = snd nx1 \<and> length (fst nx') = length (fst nx1)" "\<forall>r'. r' \<noteq> last (m k) \<longrightarrow> s_idx32 nx' r' = s_idx32 nx1 r'"
      using link_present [OF rep1 b False _ r(2) j, of "numRow t1 + 1"] nx1(4) by auto
    ultimately show ?thesis using nx1 False by (metis last_in_set)
  qed
qed

lemma newJoinHashTable_rep:
  assumes "n \<le> 2 ^ 31" "slice_ok nx" "snd nx \<le> maxBuildRows"
  shows "rep_table (newJoinHashTable n) nx (\<lambda>_. [])"
proof -
  obtain b where b: "3 \<le> b" "b \<le> 32" "joinTableCapacity n = 2 ^ b" using joinTableCapacity_exp [OF assms(1)] by metis
  let ?t = "newJoinHashTable n"
  have "shaped b ?t" "filter occ (slots ?t) = []" "growAt ?t = 2 ^ b * 7 div 10" "numKeys ?t = 0"
    using setCapacity_shaped [OF b(2)] b(3) by (simp_all add: newJoinHashTable_def nat_power_eq)
  then have "table_ok b ?t" "filter occ (slots ?t) = []" using b(1) by (simp_all add: table_ok_def)
  then show ?thesis using assms(2,3) unfolding rep_table_def by auto
qed

section \<open>The row store keeps rows\<close>

lemma s_idx_view: "slice_ok s \<Longrightarrow> s_idx s i = idx (s_view s) i"
  by (simp add: s_idx_def s_view_def slice_ok_def idx_def)

lemma length_s_view: "slice_ok s \<Longrightarrow> length (s_view s) = snd s"
  by (simp add: s_view_def slice_ok_def)

lemma s_upd_view:
  assumes "slice_ok s" "i < snd s"
  shows "s_upd s i v = Inr ((fst s)[i := v], snd s)" "slice_ok ((fst s)[i := v], snd s)"
    "s_view ((fst s)[i := v], snd s) = (s_view s)[i := v]"
  using assms by (simp_all add: s_upd_def slice_ok_def s_view_def take_update_swap)

text \<open>The part of an array past its length is still zero, so extending the slice shows zeroes.\<close>

definition spare_zero :: "'a \<Rightarrow> nat \<Rightarrow> nat \<Rightarrow> 'a gslice \<Rightarrow> bool" where
  "spare_zero z len cap s \<longleftrightarrow> snd s = len \<and> len \<le> cap \<and> drop len (fst s) = replicate (cap - len) z \<and> length (fst s) = cap"

lemma spare_zero_reslice:
  assumes "spare_zero z len cap s" "len + w \<le> cap"
  obtains s' where "s_reslice s (len + w) = Inr s'" "spare_zero z (len + w) cap s'" "s_view s' = s_view s @ replicate w z"
proof
  show "s_reslice s (len + w) = Inr (fst s, len + w)" using assms by (simp add: s_reslice_def spare_zero_def)
  have "drop (len + w) (fst s) = drop w (drop len (fst s))" unfolding drop_drop by (simp add: add.commute)
  also have "\<dots> = replicate (cap - (len + w)) z" using assms by (simp only: spare_zero_def) simp
  finally show "spare_zero z (len + w) cap (fst s, len + w)" using assms by (simp add: spare_zero_def)
  have "take (len + w) (fst s) = take len (fst s) @ take w (drop len (fst s))" by (simp add: take_add)
  then show "s_view (fst s, len + w) = s_view s @ replicate w z" using assms by (simp add: s_view_def spare_zero_def)
qed

lemma spare_zero_realloc:
  assumes "spare_zero z len cap s" "len \<le> cap'"
  shows "spare_zero z len cap' (s_copy (s_make z (snd s) cap') s)" "s_view (s_copy (s_make z (snd s) cap') s) = s_view s"
proof -
  have "length (s_view s) = len" using assms by (simp add: s_view_def spare_zero_def)
  moreover have "copy_into (take len (replicate cap' z)) (s_view s) = s_view s"
    using assms calculation by (intro copy_into_all) simp
  ultimately show "spare_zero z len cap' (s_copy (s_make z (snd s) cap') s)" "s_view (s_copy (s_make z (snd s) cap') s) = s_view s"
    using assms by (simp_all add: spare_zero_def s_copy_def s_make_def s_view_def [of "(_, _)"] min_def)
qed

lemma spare_zero_make: "len \<le> cap \<Longrightarrow> spare_zero z len cap (s_make z len cap)"
  by (simp add: spare_zero_def s_make_def)

lemma spare_zero_ok: "spare_zero z len cap s \<Longrightarrow> slice_ok s"
  by (simp add: spare_zero_def slice_ok_def)

lemma spare_zero_upd:
  assumes "spare_zero z len cap s" "i < len"
  shows "spare_zero z len cap ((fst s)[i := v], snd s)"
  using assms by (simp add: spare_zero_def drop_update_cancel)

definition store_ok :: "rowStore \<Rightarrow> bool" where
  "store_ok s \<longleftrightarrow> numRows s \<le> capRows s \<and> numRows s \<le> maxBuildRows \<and>
     spare_zero 0 (numRows s * numCols s) (capRows s * numCols s) (rvalues s) \<and>
     spare_zero False (numRows s * numCols s) (capRows s * numCols s) (rnulls s) \<and>
     spare_zero [] (numRows s * strWidth s) (capRows s * strWidth s) (rstrs s) \<and>
     snd (rnext s) = numRows s \<and> length (fst (rnext s)) = capRows s \<and>
     length (strSlot s) = numCols s \<and> (\<forall>c k. c < numCols s \<and> strSlot s ! c = Some k \<longrightarrow> k < strWidth s) \<and>
     (\<forall>c c' k. c < numCols s \<and> c' < numCols s \<and> strSlot s ! c = Some k \<and> strSlot s ! c' = Some k \<longrightarrow> c = c')"

lemma store_ok_next: "store_ok s \<Longrightarrow> slice_ok (rnext s) \<and> snd (rnext s) \<le> maxBuildRows"
  by (simp add: store_ok_def slice_ok_def)

lemma str_slots_spec:
  assumes "str_slots fs w = (ss, w')"
  shows "length ss = length fs \<and> w \<le> w' \<and> (\<forall>c k. c < length fs \<and> ss ! c = Some k \<longrightarrow> w \<le> k \<and> k < w') \<and>
    (\<forall>c c' k. c < length fs \<and> c' < length fs \<and> ss ! c = Some k \<and> ss ! c' = Some k \<longrightarrow> c = c') \<and>
    (\<forall>c < length fs. ss ! c \<noteq> None \<longleftrightarrow> Type (fs ! c) = TypeString)"
  using assms
proof (induction fs w arbitrary: ss w' rule: str_slots.induct)
  case (2 f fs w)
  show ?case
  proof (cases "Type f = TypeString")
    case True
    then obtain ss1 where ss: "ss = Some w # ss1" "str_slots fs (w + 1) = (ss1, w')"
      using 2(3) by (auto split: prod.splits)
    then have IH: "length ss1 = length fs \<and> w + 1 \<le> w' \<and> (\<forall>c k. c < length fs \<and> ss1 ! c = Some k \<longrightarrow> w + 1 \<le> k \<and> k < w') \<and>
        (\<forall>c c' k. c < length fs \<and> c' < length fs \<and> ss1 ! c = Some k \<and> ss1 ! c' = Some k \<longrightarrow> c = c') \<and>
        (\<forall>c < length fs. ss1 ! c \<noteq> None \<longleftrightarrow> Type (fs ! c) = TypeString)"
      using 2(1) [OF True] by blast
    show ?thesis using IH ss(1) True by (force simp: nth_Cons split: nat.splits)
  next
    case False
    then obtain ss1 where ss: "ss = None # ss1" "str_slots fs w = (ss1, w')"
      using 2(3) by (auto split: prod.splits)
    then show ?thesis using 2(2) [OF False] False by (force simp: nth_Cons split: nat.splits)
  qed
qed simp

lemma newRowStore_ok: "store_ok (newRowStore schema cap)"
proof -
  obtain ss w where "str_slots schema 0 = (ss, w)" by force
  then show ?thesis using str_slots_spec [of schema 0 ss w]
    by (simp add: newRowStore_def Let_def store_ok_def spare_zero_make) (auto simp: s_make_def)
qed

lemma nextRowCap_ge: "need \<le> maxBuildRows \<Longrightarrow> need \<le> nextRowCap cur need"
  by (simp add: nextRowCap_def Let_def)

lemma reallocate_ok:
  assumes "store_ok (s\<lparr>numRows := n\<rparr>)" "n + 1 \<le> maxBuildRows"
  shows "store_ok ((reallocate (n + 1) s)\<lparr>numRows := n\<rparr>)" "n + 1 \<le> capRows (reallocate (n + 1) s)"
    "s_view (rvalues (reallocate (n + 1) s)) = s_view (rvalues s)" "s_view (rnulls (reallocate (n + 1) s)) = s_view (rnulls s)"
    "s_view (rstrs (reallocate (n + 1) s)) = s_view (rstrs s)" "s_view (rnext (reallocate (n + 1) s)) = s_view (rnext s)"
proof -
  note ok = assms(1) [unfolded store_ok_def]
  let ?cap = "nextRowCap (capRows s) (n + 1)"
  have cap: "n + 1 \<le> ?cap" by (rule nextRowCap_ge [OF assms(2)])
  then have le: "n * w \<le> ?cap * w" for w by (intro mult_right_mono) auto
  have v: "s_view (s_copy (s_make 0 (snd (rnext s)) ?cap) (rnext s)) = s_view (rnext s)"
    "snd (s_copy (s_make 0 (snd (rnext s)) ?cap) (rnext s)) = n"
    "length (fst (s_copy (s_make 0 (snd (rnext s)) ?cap) (rnext s))) = ?cap"
    using ok cap by (auto simp: s_copy_def s_make_def s_view_def copy_into_def)
  have strs0: "strWidth s = 0 \<longrightarrow> spare_zero [] 0 0 (rstrs s)" using ok by (cases "strWidth s = 0") simp_all
  show "store_ok ((reallocate (n + 1) s)\<lparr>numRows := n\<rparr>)" "n + 1 \<le> capRows (reallocate (n + 1) s)"
    "s_view (rvalues (reallocate (n + 1) s)) = s_view (rvalues s)" "s_view (rnulls (reallocate (n + 1) s)) = s_view (rnulls s)"
    "s_view (rstrs (reallocate (n + 1) s)) = s_view (rstrs s)" "s_view (rnext (reallocate (n + 1) s)) = s_view (rnext s)"
    using ok cap v assms(2) strs0 spare_zero_realloc [of 0 "n * numCols s" "capRows s * numCols s" "rvalues s", OF _ le]
      spare_zero_realloc [of False "n * numCols s" "capRows s * numCols s" "rnulls s", OF _ le]
      spare_zero_realloc [of "[]" "n * strWidth s" "capRows s * strWidth s" "rstrs s", OF _ le]
    by (simp_all add: reallocate_def store_ok_def Let_def)
qed

lemma reserve_ok:
  assumes "store_ok s" "numRows s < maxBuildRows"
  obtains s' where "reserve s = Inr (word_of_nat (numRows s), s')" "store_ok s'" "numRows s' = numRows s + 1"
    "numCols s' = numCols s" "strWidth s' = strWidth s" "strSlot s' = strSlot s"
    "s_view (rvalues s') = s_view (rvalues s) @ replicate (numCols s) 0"
    "s_view (rnulls s') = s_view (rnulls s) @ replicate (numCols s) False"
    "s_view (rstrs s') = s_view (rstrs s) @ replicate (strWidth s) []"
    "\<And>i. i < numRows s \<Longrightarrow> s_idx (rnext s') i = s_idx (rnext s) i"
proof -
  let ?n = "numRows s" and ?s0 = "s\<lparr>numRows := numRows s + 1\<rparr>"
  define s1 where "s1 = (if capRows ?s0 < ?n + 1 then reallocate (?n + 1) ?s0 else ?s0)"
  have "store_ok (?s0\<lparr>numRows := ?n\<rparr>)" using assms(1) by simp
  note re = reallocate_ok [OF this, simplified Suc_eq_plus1 [symmetric] Suc_le_eq, OF assms(2)]
  have s1: "store_ok (s1\<lparr>numRows := ?n\<rparr>)" "?n + 1 \<le> capRows s1" "s_view (rvalues s1) = s_view (rvalues s)"
    "s_view (rnulls s1) = s_view (rnulls s)" "s_view (rstrs s1) = s_view (rstrs s)" "s_view (rnext s1) = s_view (rnext s)"
    using re assms(1) by (auto simp: s1_def)
  have same: "numRows s1 = ?n + 1" "numCols s1 = numCols s" "strWidth s1 = strWidth s" "strSlot s1 = strSlot s"
    by (simp_all add: s1_def reallocate_def Let_def)
  note ok = s1(1) [unfolded store_ok_def]
  have le: "?n * w + w \<le> capRows s1 * w" for w using mult_right_mono [OF s1(2), of w] by simp
  have sp: "spare_zero 0 (?n * numCols s) (capRows s1 * numCols s) (rvalues s1)"
    "spare_zero False (?n * numCols s) (capRows s1 * numCols s) (rnulls s1)"
    "spare_zero [] (?n * strWidth s) (capRows s1 * strWidth s) (rstrs s1)"
    using ok same by simp_all
  obtain v where v: "s_reslice (rvalues s1) (?n * numCols s + numCols s) = Inr v"
    "spare_zero 0 (?n * numCols s + numCols s) (capRows s1 * numCols s) v" "s_view v = s_view (rvalues s1) @ replicate (numCols s) 0"
    by (rule spare_zero_reslice [OF sp(1) le])
  obtain nl where nl: "s_reslice (rnulls s1) (?n * numCols s + numCols s) = Inr nl"
    "spare_zero False (?n * numCols s + numCols s) (capRows s1 * numCols s) nl" "s_view nl = s_view (rnulls s1) @ replicate (numCols s) False"
    by (rule spare_zero_reslice [OF sp(2) le])
  obtain st where st: "s_reslice (rstrs s1) (?n * strWidth s + strWidth s) = Inr st"
    "spare_zero [] (?n * strWidth s + strWidth s) (capRows s1 * strWidth s) st" "s_view st = s_view (rstrs s1) @ replicate (strWidth s) []"
    by (rule spare_zero_reslice [OF sp(3) le])
  have st0: "(if 0 < strWidth s then s_reslice (rstrs s1) (strWidth s + ?n * strWidth s) else Inr (rstrs s1)) = Inr st"
    using st(1) sp(3) by (cases "strWidth s = 0") (auto simp: s_reslice_def spare_zero_def add.commute prod_eq_iff)
  let ?nx = "(fst (rnext s1), ?n + 1)"
  have nx: "s_reslice (rnext s1) (?n + 1) = Inr ?nx" using ok s1(2) by (simp add: s_reslice_def)
  let ?s = "s1\<lparr>rvalues := v, rnulls := nl, rnext := ?nx, rstrs := st\<rparr>"
  have "reserve s = Inr (word_of_nat ?n, ?s)"
    using assms(2) v(1) nl(1) st0 nx same unfolding reserve_def Let_def s1_def [symmetric]
    by (cases "strWidth s = 0") (auto simp: add.commute)
  moreover have "store_ok ?s" using ok s1(2) v nl st same assms(2) by (auto simp: store_ok_def add.commute)
  moreover have "s_idx (rnext ?s) i = s_idx (rnext s) i" if "i < ?n" for i
  proof -
    have "fst (rnext s1) ! i = fst (rnext s) ! i"
      using arg_cong [OF s1(6), of "\<lambda>xs. xs ! i"] that ok assms(1) by (simp add: s_view_def store_ok_def)
    then show ?thesis using that ok assms(1) s1(2) by (simp add: s_idx_def idx_def store_ok_def)
  qed
  ultimately show thesis using that [of ?s] v nl st s1 same by simp
qed

text \<open>A cell of a batch as the store keeps it, and a cell read back from the store.\<close>

definition cell_of :: "nat option \<Rightarrow> vector \<Rightarrow> nat \<Rightarrow> (bool \<times> i64 \<times> string) xres" where
  "cell_of slot v i = res_bind (IsNull v i) (\<lambda>isn. if isn then Inr (True, 0, []) else (case v of
      StringVector codes dict nb \<Rightarrow> (case (slot, dict) of
          (Some _, Some d) \<Rightarrow> res_map (\<lambda>str. (False, 0, str)) (StringVector_Get codes dict i)
        | _ \<Rightarrow> Inr (False, 0, []))
    | _ \<Rightarrow> res_map (\<lambda>x. (False, x, [])) (extractInt64 v i)))"

definition store_cell :: "rowStore \<Rightarrow> i32 \<Rightarrow> nat \<Rightarrow> (bool \<times> i64 \<times> string) xres" where
  "store_cell s r c = res_bind (isNull s r c) (\<lambda>n. res_bind (value_at s r c) (\<lambda>x. res_map (\<lambda>str. (n, x, str)) (str_at s r c)))"

lemma cell_pos: "row < n \<Longrightarrow> c < w \<Longrightarrow> row * w + c < n * (w :: nat)"
  using mult_le_mono1 [of "Suc row" n w] by simp

lemma write_cell_ok:
  assumes ok: "store_ok s" and c: "row < numRows s" "c < numCols s" "c < length (Vectors b)"
    and cell: "cell_of (strSlot s ! c) (Vectors b ! c) i = Inr (n, x, str)"
    and zero: "s_view (rnulls s) ! (row * numCols s + c) = False" "s_view (rvalues s) ! (row * numCols s + c) = 0"
      "\<And>k. strSlot s ! c = Some k \<Longrightarrow> s_view (rstrs s) ! (row * strWidth s + k) = []"
  obtains s' where "write_cell b i row s c = Inr s'" "store_ok s'" "rowStore.more s' = rowStore.more s"
    "numRows s' = numRows s" "numCols s' = numCols s" "strWidth s' = strWidth s" "strSlot s' = strSlot s" "rnext s' = rnext s"
    "s_view (rnulls s') = (s_view (rnulls s))[row * numCols s + c := n]"
    "s_view (rvalues s') = (s_view (rvalues s))[row * numCols s + c := x]"
    "s_view (rstrs s') = (case strSlot s ! c of None \<Rightarrow> s_view (rstrs s) | Some k \<Rightarrow> (s_view (rstrs s))[row * strWidth s + k := str])"
proof -
  note ok' = ok [unfolded store_ok_def]
  let ?p = "row * numCols s + c"
  have p: "?p < numRows s * numCols s" using c by (intro cell_pos) auto
  have sl: "slice_ok (rvalues s)" "slice_ok (rnulls s)" "slice_ok (rstrs s)"
    "snd (rvalues s) = numRows s * numCols s" "snd (rnulls s) = numRows s * numCols s" "snd (rstrs s) = numRows s * strWidth s"
    using ok' by (auto simp: spare_zero_ok) (auto simp: spare_zero_def)
  have id_v: "(s_view (rvalues s))[?p := 0] = s_view (rvalues s)" and id_n: "(s_view (rnulls s))[?p := False] = s_view (rnulls s)"
    using zero list_update_id [of "s_view (rvalues s)" ?p] list_update_id [of "s_view (rnulls s)" ?p] by simp_all
  have id_s: "(s_view (rstrs s))[row * strWidth s + k := []] = s_view (rstrs s)" if "strSlot s ! c = Some k" for k
    using zero(3) [OF that] list_update_id [of "s_view (rstrs s)" "row * strWidth s + k"] by simp
  have slot: "c < length (strSlot s)" using ok' c(2) by simp
  have q: "row * strWidth s + k < numRows s * strWidth s" if "strSlot s ! c = Some k" for k
    using ok' c that by (intro cell_pos) auto
  note upv = s_upd_view [OF sl(1), unfolded sl(4), OF p] and upn = s_upd_view [OF sl(2), unfolded sl(5), OF p]
  show thesis
  proof (cases n)
    case True
    then have nul: "IsNull (Vectors b ! c) i = Inr True" "x = 0" "str = []"
      using cell by (auto simp: cell_of_def res_bind_eq_Inr res_map_eq_Inr split: vector.splits option.splits prod.splits if_splits)
    let ?s = "s\<lparr>rnulls := ((fst (rnulls s))[?p := True], numRows s * numCols s)\<rparr>"
    have "store_ok ?s" using ok' p spare_zero_upd [of False _ _ "rnulls s" ?p True] sl(5) by (simp add: store_ok_def)
    then show thesis
      using c(3) nul True upn id_v id_s by (intro that [of ?s]) (auto simp: write_cell_def split: option.splits)
  next
    case nn: False
    then have nul: "IsNull (Vectors b ! c) i = Inr False"
      using cell by (auto simp: cell_of_def res_bind_eq_Inr split: if_splits)
    show thesis
    proof (cases "\<exists>cs d nb. Vectors b ! c = StringVector cs d nb")
      case True
      then obtain cs d nb where v: "Vectors b ! c = StringVector cs d nb" by blast
      show thesis
      proof (cases "\<exists>k d'. strSlot s ! c = Some k \<and> d = Some d'")
        case True
        then obtain k d' where kd: "strSlot s ! c = Some k" "d = Some d'" by blast
        then have g: "StringVector_Get cs d i = Inr str" "x = 0"
          using cell v nul nn by (auto simp: cell_of_def res_map_eq_Inr)
        let ?s = "s\<lparr>rstrs := ((fst (rstrs s))[row * strWidth s + k := str], numRows s * strWidth s)\<rparr>"
        note ups = s_upd_view [OF sl(3), unfolded sl(6), OF q [OF kd(1)], of str]
        have "store_ok ?s" using ok' q [OF kd(1)] spare_zero_upd [of "[]" _ _ "rstrs s" "row * strWidth s + k" str] sl(6)
          by (simp add: store_ok_def)
        then show thesis
          using c(3) nul v kd g nn ups id_v id_n slot by (intro that [of ?s]) (auto simp: write_cell_def)
      next
        case False
        then have "x = 0" "str = []" using cell v nul nn by (auto simp: cell_of_def split: option.splits)
        then show thesis
          using c(3) nul v False nn id_v id_n id_s slot ok
          by (intro that [of s]) (auto simp: write_cell_def split: option.splits)
      qed
    next
      case False
      then have g: "extractInt64 (Vectors b ! c) i = Inr x" "str = []"
        using cell nul nn by (cases "Vectors b ! c"; simp add: cell_of_def res_map_eq_Inr)+
      let ?s = "s\<lparr>rvalues := ((fst (rvalues s))[?p := x], numRows s * numCols s)\<rparr>"
      have "store_ok ?s" using ok' p spare_zero_upd [of 0 _ _ "rvalues s" ?p x] sl(4) by (simp add: store_ok_def)
      moreover have "write_cell b i row s c = Inr ?s"
        using c(3) nul g upv False by (cases "Vectors b ! c") (auto simp: write_cell_def)
      ultimately show thesis
        using nn g upv id_n id_s by (intro that [of ?s]) (auto split: option.splits)
    qed
  qed
qed

text \<open>The invariant of the loop of \<^verbatim>\<open>writeRow\<close>: the first \<open>c\<close> cells of the row are written, the rest is zero.\<close>

definition row_upto :: "rowStore \<Rightarrow> (nat \<Rightarrow> bool \<times> i64 \<times> string) \<Rightarrow> nat \<Rightarrow> nat \<Rightarrow> rowStore \<Rightarrow> bool" where
  "row_upto s0 cells row c s \<longleftrightarrow> store_ok s \<and> numRows s = numRows s0 \<and> numCols s = numCols s0 \<and>
     strWidth s = strWidth s0 \<and> strSlot s = strSlot s0 \<and> rnext s = rnext s0 \<and>
     (\<forall>d < numCols s0. s_view (rnulls s) ! (row * numCols s0 + d) = (d < c \<and> fst (cells d))) \<and>
     (\<forall>d < numCols s0. s_view (rvalues s) ! (row * numCols s0 + d) = (if d < c then fst (snd (cells d)) else 0)) \<and>
     (\<forall>d < numCols s0. \<forall>k. strSlot s0 ! d = Some k \<longrightarrow>
        s_view (rstrs s) ! (row * strWidth s0 + k) = (if d < c then snd (snd (cells d)) else [])) \<and>
     (\<forall>p < row * numCols s0. s_view (rnulls s) ! p = s_view (rnulls s0) ! p \<and> s_view (rvalues s) ! p = s_view (rvalues s0) ! p) \<and>
     (\<forall>p < row * strWidth s0. s_view (rstrs s) ! p = s_view (rstrs s0) ! p)"

lemma row_upto_step:
  assumes inv: "row_upto s0 cells row c s" and c: "row < numRows s0" "c < numCols s0" "c < length (Vectors b)"
    and cell: "cell_of (strSlot s0 ! c) (Vectors b ! c) i = Inr (cells c)"
  shows "\<exists>s'. write_cell b i row s c = Inr s' \<and> row_upto s0 cells row (Suc c) s'"
proof -
  note inv' = inv [unfolded row_upto_def]
  obtain n x str where cc: "cells c = (n, x, str)" by (cases "cells c") auto
  have ok: "store_ok s" "numRows s = numRows s0" "numCols s = numCols s0" "strWidth s = strWidth s0" "strSlot s = strSlot s0"
    using inv' by auto
  have here: "row < numRows s" "c < numCols s" using c ok by simp_all
  have cell': "cell_of (strSlot s ! c) (Vectors b ! c) i = Inr (n, x, str)" using cell cc ok(5) by simp
  have zero: "s_view (rnulls s) ! (row * numCols s + c) = False" "s_view (rvalues s) ! (row * numCols s + c) = 0"
    "\<And>k. strSlot s ! c = Some k \<Longrightarrow> s_view (rstrs s) ! (row * strWidth s + k) = []" using inv' c(2) ok by simp_all
  obtain s' where s': "write_cell b i row s c = Inr s'" "store_ok s'" "rowStore.more s' = rowStore.more s"
    "numRows s' = numRows s" "numCols s' = numCols s" "strWidth s' = strWidth s" "strSlot s' = strSlot s" "rnext s' = rnext s"
    "s_view (rnulls s') = (s_view (rnulls s))[row * numCols s + c := n]"
    "s_view (rvalues s') = (s_view (rvalues s))[row * numCols s + c := x]"
    "s_view (rstrs s') = (case strSlot s ! c of None \<Rightarrow> s_view (rstrs s) | Some k \<Rightarrow> (s_view (rstrs s))[row * strWidth s + k := str])"
    by (rule write_cell_ok [OF ok(1) here c(3) cell' zero])
  have len: "length (s_view (rnulls s)) = numRows s0 * numCols s0" "length (s_view (rvalues s)) = numRows s0 * numCols s0"
    "length (s_view (rstrs s)) = numRows s0 * strWidth s0"
    using ok by (auto simp: store_ok_def spare_zero_def s_view_def)
  have p: "row * numCols s0 + c < numRows s0 * numCols s0" using c by (intro cell_pos) auto
  have inj: "d = c" if "strSlot s0 ! d = Some k" "strSlot s0 ! c = Some k" "d < numCols s0" for d k
    using ok c(2) that unfolding store_ok_def by metis
  have q: "row * strWidth s0 + k < numRows s0 * strWidth s0" if "strSlot s0 ! c = Some k" for k
    using ok c that unfolding store_ok_def by (intro cell_pos) auto
  have vn: "s_view (rnulls s) ! (row * numCols s0 + d) = (d < c \<and> fst (cells d))"
    and vv: "s_view (rvalues s) ! (row * numCols s0 + d) = (if d < c then fst (snd (cells d)) else 0)" if "d < numCols s0" for d
    using inv' that by blast+
  have vs: "s_view (rstrs s) ! (row * strWidth s0 + k) = (if d < c then snd (snd (cells d)) else [])"
    if "d < numCols s0" "strSlot s0 ! d = Some k" for d k using inv' that by blast
  have "s_view (rnulls s') ! (row * numCols s0 + d) = (d < Suc c \<and> fst (cells d))"
    "s_view (rvalues s') ! (row * numCols s0 + d) = (if d < Suc c then fst (snd (cells d)) else 0)" if "d < numCols s0" for d
    unfolding s'(9,10) ok(3) using that vn [OF that] vv [OF that] cc p len by (auto simp: nth_list_update less_Suc_eq)
  moreover have "s_view (rstrs s') ! (row * strWidth s0 + k) = (if d < Suc c then snd (snd (cells d)) else [])"
    if "d < numCols s0" "strSlot s0 ! d = Some k" for d k
  proof (cases "d = c")
    case True
    then show ?thesis unfolding s'(11) ok(4,5) using that cc q [of k] len by simp
  next
    case False
    then have "strSlot s0 ! c \<noteq> Some k" using inj that by blast
    then show ?thesis unfolding s'(11) ok(4,5) using False vs [OF that] by (auto simp: less_Suc_eq split: option.splits)
  qed
  moreover have "s_view (rnulls s') ! p = s_view (rnulls s0) ! p" "s_view (rvalues s') ! p = s_view (rvalues s0) ! p"
    if "p < row * numCols s0" for p
  proof -
    have "s_view (rnulls s) ! p = s_view (rnulls s0) ! p" "s_view (rvalues s) ! p = s_view (rvalues s0) ! p"
      using inv' that by blast+
    then show "s_view (rnulls s') ! p = s_view (rnulls s0) ! p" "s_view (rvalues s') ! p = s_view (rvalues s0) ! p"
      unfolding s'(9,10) ok(3) using that by simp_all
  qed
  moreover have "s_view (rstrs s') ! p = s_view (rstrs s0) ! p" if "p < row * strWidth s0" for p
  proof -
    have "s_view (rstrs s) ! p = s_view (rstrs s0) ! p" using inv' that by blast
    then show ?thesis unfolding s'(11) ok(4,5) using that by (simp split: option.splits)
  qed
  ultimately show ?thesis using s' inv' by (simp add: row_upto_def)
qed

lemma sint_row: "n \<le> maxBuildRows \<Longrightarrow> sint (word_of_nat n :: i32) = int n"
  by (simp add: maxBuildRows_def signed_of_nat signed_take_bit_int_eq_self)

lemma store_cell_row:
  assumes "store_ok s" "row < numRows s" "c < numCols s"
  shows "store_cell s (word_of_nat row) c = Inr (s_view (rnulls s) ! (row * numCols s + c), s_view (rvalues s) ! (row * numCols s + c),
    case strSlot s ! c of None \<Rightarrow> [] | Some k \<Rightarrow> s_view (rstrs s) ! (row * strWidth s + k))"
proof -
  note ok = assms(1) [unfolded store_ok_def]
  have row: "sint (word_of_nat row :: i32) = int row" using assms ok by (intro sint_row) auto
  have p: "row * numCols s + c < numRows s * numCols s" using assms(2,3) by (intro cell_pos) auto
  have q: "row * strWidth s + k < numRows s * strWidth s" if "strSlot s ! c = Some k" for k
    using ok assms(2,3) that by (intro cell_pos) auto
  have sl: "slice_ok (rvalues s)" "slice_ok (rnulls s)" "slice_ok (rstrs s)"
    "length (s_view (rvalues s)) = numRows s * numCols s" "length (s_view (rnulls s)) = numRows s * numCols s"
    "length (s_view (rstrs s)) = numRows s * strWidth s" "c < length (strSlot s)"
    using ok assms(3) by (auto simp: spare_zero_ok) (auto simp: spare_zero_def s_view_def)
  then show ?thesis using row p q
    by (auto simp: store_cell_def isNull_def value_at_def str_at_def s_idx_view split: option.splits)
qed

lemma appendFrom_ok:
  assumes ok: "store_ok s" "numRows s < maxBuildRows" and b: "numCols s \<le> length (Vectors b)"
    and cells: "\<And>c. c < numCols s \<Longrightarrow> cell_of (strSlot s ! c) (Vectors b ! c) i = Inr (cells c)"
    and str0: "\<And>c. c < numCols s \<Longrightarrow> strSlot s ! c = None \<Longrightarrow> snd (snd (cells c)) = []"
  obtains s' where "appendFrom b i s = Inr (word_of_nat (numRows s), s')" "store_ok s'" "numRows s' = numRows s + 1"
    "numCols s' = numCols s" "strSlot s' = strSlot s"
    "\<And>c. c < numCols s \<Longrightarrow> store_cell s' (word_of_nat (numRows s)) c = Inr (cells c)"
    "\<And>r c. r < numRows s \<Longrightarrow> c < numCols s \<Longrightarrow> store_cell s' (word_of_nat r) c = store_cell s (word_of_nat r) c"
    "\<And>j. j < numRows s \<Longrightarrow> s_idx (rnext s') j = s_idx (rnext s) j"
proof -
  let ?row = "numRows s"
  obtain s1 where s1: "reserve s = Inr (word_of_nat ?row, s1)" "store_ok s1" "numRows s1 = ?row + 1"
    "numCols s1 = numCols s" "strWidth s1 = strWidth s" "strSlot s1 = strSlot s"
    "s_view (rvalues s1) = s_view (rvalues s) @ replicate (numCols s) 0"
    "s_view (rnulls s1) = s_view (rnulls s) @ replicate (numCols s) False"
    "s_view (rstrs s1) = s_view (rstrs s) @ replicate (strWidth s) []"
    "\<And>j. j < ?row \<Longrightarrow> s_idx (rnext s1) j = s_idx (rnext s) j" using reserve_ok [OF ok] by blast
  have len: "length (s_view (rnulls s)) = ?row * numCols s" "length (s_view (rvalues s)) = ?row * numCols s"
    "length (s_view (rstrs s)) = ?row * strWidth s"
    using ok(1) by (auto simp: store_ok_def spare_zero_def s_view_def)
  have kw: "k < strWidth s" if "c < numCols s" "strSlot s ! c = Some k" for c k
    using ok(1) that by (auto simp: store_ok_def)
  have "row_upto s1 cells ?row 0 s1"
    using s1 len kw by (auto simp: row_upto_def nth_append)
  moreover have "\<exists>s'. write_cell b i ?row t c = Inr s' \<and> row_upto s1 cells ?row (Suc c) s'"
    if "c < numCols s1" "row_upto s1 cells ?row c t" for c t
    using row_upto_step [OF that(2), of b i] that(1) b cells [of c] s1 by auto
  ultimately obtain s' where s': "writeRow ?row b i s1 = Inr s'" "row_upto s1 cells ?row (numCols s1) s'"
    using fold_res_upto [where P = "row_upto s1 cells ?row" and f = "write_cell b i ?row" and n = "numCols s1" and s = s1]
    unfolding writeRow_def by blast
  note inv = s'(2) [unfolded row_upto_def]
  have row: "sint (word_of_nat ?row :: i32) = int ?row" using ok(2) by (intro sint_row) simp
  have "store_cell s' (word_of_nat ?row) c = Inr (cells c)" if "c < numCols s" for c
    using store_cell_row [of s' ?row c] inv s1 that str0 [OF that]
    by (cases "cells c") (auto split: option.splits)
  moreover have "store_cell s' (word_of_nat r) c = store_cell s (word_of_nat r) c" if "r < ?row" "c < numCols s" for r c
  proof -
    have p: "r * numCols s + c < ?row * numCols s" using that by (intro cell_pos) auto
    have q: "r * strWidth s + k < ?row * strWidth s" if "strSlot s ! c = Some k" for k
      using kw [OF \<open>c < numCols s\<close> that] \<open>r < ?row\<close> by (intro cell_pos) auto
    show ?thesis
      using store_cell_row [of s' r c] store_cell_row [of s r c] that p q inv s1 ok(1) len
      by (auto simp: nth_append split: option.splits)
  qed
  moreover have "appendFrom b i s = Inr (word_of_nat ?row, s')" using s1(1) s'(1) row by (simp add: appendFrom_def)
  ultimately show thesis using that [of s'] inv s1 by simp
qed

section \<open>What the build side can rely on\<close>

text \<open>
  C37: the capacity chosen for an expected number of keys, at 64-bit arithmetic: for every estimate up to \<open>2 ^ 31\<close> (the most
  rows a build side can have) it is a power of two between 8 and \<open>2 ^ 32\<close> slots whose load limit of seven tenths admits that many keys,
  so a presized table never grows.
\<close>

theorem joinTableCapacity_bounds:
  assumes "n \<le> 2 ^ 31"
  shows "\<exists>b. 3 \<le> b \<and> b \<le> 32 \<and> joinTableCapacity n = 2 ^ b \<and> n \<le> int (growAt (newJoinHashTable n)) \<and>
    growAt (newJoinHashTable n) < length (slots (newJoinHashTable n))"
proof -
  obtain b where b: "3 \<le> b" "b \<le> 32" "joinTableCapacity n = 2 ^ b" "n \<le> 2 ^ b * 7 div 10" using joinTableCapacity_exp [OF assms] .
  then show ?thesis using grow_at_less [of b]
    by (auto simp: newJoinHashTable_def setCapacity_def joinTableLoadNum_def joinTableLoadDen_def nat_power_eq zdiv_int)
qed

theorem joinTableCapacity_bounds_witness:
  "1000000 \<le> growAt (newJoinHashTable 1000000) \<and> growAt (newJoinHashTable 1000000) < length (slots (newJoinHashTable 1000000))"
  using joinTableCapacity_bounds [of 1000000] by auto

text \<open>
  C23: the invariant of the open-addressed table. A table that represents a map from keys to rows in insertion order (one slot per key,
  every key on the probe path of its hash, the chain of each key's rows threaded through \<^verbatim>\<open>next\<close>, no row in two chains) still
  does after an insertion, growth included, with the row added at the end of its key's rows; the insertion ends, and
  the table is never full.
\<close>

theorem insert_row_invariant:
  assumes "rep_table t nx m" "row_in nx r" "\<forall>k. r \<notin> set (m k)"
  shows "\<exists>t' nx'. insert_row k r (t, nx) = Some (Inr (t', nx')) \<and> rep_table t' nx' (m(k := m k @ [r])) \<and>
    numKeys t' < length (slots t')"
proof -
  obtain t' nx' where t': "insert_row k r (t, nx) = Some (Inr (t', nx'))" "rep_table t' nx' (m(k := m k @ [r]))"
    using insert_row_rep [OF assms(1,2), of k] assms(3) by blast
  then obtain b where "table_ok b t'" by (auto simp: rep_table_def)
  then have "numKeys t' < length (slots t')" using grow_at_less [of b] by (auto simp: table_ok_def shaped_def slots_ok_def)
  with t' show ?thesis by blast
qed

theorem insert_row_invariant_witness:
  "\<exists>t nx. insert_row 5 1 (newJoinHashTable 0, s_make 0 3 3) = Some (Inr (t, nx)) \<and> rep_table t nx ((\<lambda>k. [])(5 := [1]))"
proof -
  have "rep_table (newJoinHashTable 0) (s_make 0 3 3) (\<lambda>k. [])"
    by (rule newJoinHashTable_rep) (simp_all add: slice_ok_def s_make_def maxBuildRows_def)
  moreover have "row_in (s_make 0 3 3) 1" by (simp add: row_in_def s_make_def)
  ultimately show ?thesis using insert_row_invariant [of "newJoinHashTable 0" "s_make 0 3 3" "\<lambda>k. []" 1 5] by auto
qed

text \<open>
  C25: the row store keeps what it is given. Appending a batch row whose cells can be read yields the next row number, the
  new row reads back as the batch's cells (NULL flag, raw value, string), and all earlier rows read as before, whether the
  append grew the backing arrays or not.
\<close>

theorem appendFrom_stores:
  assumes "store_ok s" "numRows s < maxBuildRows" "numCols s \<le> length (Vectors b)"
    "\<forall>c < numCols s. cell_of (strSlot s ! c) (Vectors b ! c) i = Inr (cells c) \<and> (strSlot s ! c = None \<longrightarrow> snd (snd (cells c)) = [])"
  shows "\<exists>s'. appendFrom b i s = Inr (word_of_nat (numRows s), s') \<and> store_ok s' \<and> numRows s' = numRows s + 1 \<and>
    (\<forall>c < numCols s. store_cell s' (word_of_nat (numRows s)) c = Inr (cells c)) \<and>
    (\<forall>r < numRows s. \<forall>c < numCols s. store_cell s' (word_of_nat r) c = store_cell s (word_of_nat r) c)"
proof -
  have "\<And>c. c < numCols s \<Longrightarrow> cell_of (strSlot s ! c) (Vectors b ! c) i = Inr (cells c)"
    "\<And>c. c < numCols s \<Longrightarrow> strSlot s ! c = None \<Longrightarrow> snd (snd (cells c)) = []" using assms(4) by auto
  from appendFrom_ok [OF assms(1-3) this] obtain s' where
    "appendFrom b i s = Inr (word_of_nat (numRows s), s')" "store_ok s'" "numRows s' = numRows s + 1"
    "\<And>c. c < numCols s \<Longrightarrow> store_cell s' (word_of_nat (numRows s)) c = Inr (cells c)"
    "\<And>r c. r < numRows s \<Longrightarrow> c < numCols s \<Longrightarrow> store_cell s' (word_of_nat r) c = store_cell s (word_of_nat r) c" by metis
  then show ?thesis by (intro exI [of _ s']) simp
qed

theorem appendFrom_stores_witness:
  "\<exists>s'. appendFrom \<lparr>BSchema = [], Vectors = [Int64Vector [5, 7] [0x03]], BLength = 2, SelVec = None\<rparr> 1
      (newRowStore [\<lparr>Name = ''k'', Type = TypeInt64, FEncoding = EncPlain, Nullable = True\<rparr>] 0) = Inr (0, s') \<and>
    store_cell s' 0 0 = Inr (False, 7, [])"
proof -
  let ?b = "\<lparr>BSchema = [], Vectors = [Int64Vector [5, 7] [0x03]], BLength = 2, SelVec = None\<rparr>"
  let ?s = "newRowStore [\<lparr>Name = ''k'', Type = TypeInt64, FEncoding = EncPlain, Nullable = True\<rparr>] 0"
  have s: "numCols ?s = 1" "numRows ?s = 0" "strSlot ?s = [None]" by (simp_all add: newRowStore_def)
  have "IsNull (Int64Vector [5, 7] [0x03]) 1 = Inr False" by (simp add: IsNull_def IsNullBit_def; code_simp)
  then have "cell_of None (Int64Vector [5, 7] [0x03]) 1 = Inr (False, 7, [])" by (simp add: cell_of_def)
  then show ?thesis
    using appendFrom_stores [of ?s ?b 1 "\<lambda>c. (False, 7, [])"] newRowStore_ok s by (auto simp: maxBuildRows_def)
qed

end
