(* ===== verification/HashJoin.thy ===== *)
theory HashJoin
  imports JoinTable Operator
begin

text \<open>
  The hash join (\<^verbatim>\<open>exec/join.go\<close>) and the radix-partitioned table it can probe instead of its own
  (\<^verbatim>\<open>exec/parallel_join.go\<close>). The locale \<open>row_index\<close> states what a join relies on in its table; it is
  interpreted on the single table and on the partitioned one, so everything proved in it holds for
  the serial and for the shared build side.
\<close>

section \<open>The partitioned table\<close>

definition radixHardMaxBits :: nat where "radixHardMaxBits = 12"

definition clampRadixBits :: "int \<Rightarrow> nat" where
  "clampRadixBits n = (if n < 0 then 0 else if int radixHardMaxBits < n then radixHardMaxBits else nat n)"

definition radix_insert :: "u64 \<Rightarrow> i64 \<Rightarrow> i32 \<Rightarrow> joinHashTable list \<times> i32 gslice \<Rightarrow> (joinHashTable list \<times> i32 gslice) xres option" where
  "radix_insert pm key row pn = (case pn of (parts, nx) \<Rightarrow> (let p = radixPart key pm in
     case idx parts p of
       Inl e \<Rightarrow> Some (Inl e)
     | Inr t \<Rightarrow> obind (insert_row key row (t, nx)) (\<lambda>(t, nx). Some (Inr (parts[p := t], nx)))))"

text \<open>One probe: the low bits of the hash pick the partition, the chain of the key found there is walked.\<close>

definition probe_key :: "u64 \<Rightarrow> joinHashTable list \<Rightarrow> i32 gslice \<Rightarrow> i64 \<Rightarrow> i32 list xres option" where
  "probe_key pm parts nx key = (let h = radixHash key in
     case idx parts (unat (h AND pm)) of
       Inl e \<Rightarrow> Some (Inl e)
     | Inr t \<Rightarrow> obind (lookupHashed t key h) (chain_rows nx))"


section \<open>Draining the build side\<close>

text \<open>\<open>bound\<close> is the source's answer to \<^verbatim>\<open>RowCountBound\<close>, if it implements that interface.\<close>

definition buildRowsPresize :: "(int \<times> bool) option \<Rightarrow> nat" where
  "buildRowsPresize bound = (case bound of None \<Rightarrow> 0 | Some (rows, tight) \<Rightarrow> if \<not> tight then 0 else presizeRows rows)"

text \<open>The rows of one batch that have a key, each passed to \<open>visit\<close> with its key.\<close>

fun visit_rows :: "(i64 \<Rightarrow> Batch \<Rightarrow> nat \<Rightarrow> 's \<Rightarrow> 's xres option) \<Rightarrow> vector \<Rightarrow> Batch \<Rightarrow> nat list \<Rightarrow> 's \<Rightarrow> 's xres option" where
  "visit_rows visit kv b [] s = Some (Inr s)"
| "visit_rows visit kv b (i # is) s = (case IsNull kv i of
     Inl e \<Rightarrow> Some (Inl e)
   | Inr null \<Rightarrow> if null then visit_rows visit kv b is s else
       (case extractInt64 kv i of
         Inl e \<Rightarrow> Some (Inl e)
       | Inr key \<Rightarrow> obind (visit key b i s) (visit_rows visit kv b is)))"

fun forEachBuildRow :: "nat \<Rightarrow> (i64 \<Rightarrow> Batch \<Rightarrow> nat \<Rightarrow> 's \<Rightarrow> 's xres option) \<Rightarrow> stream \<Rightarrow> 's \<Rightarrow> 's xres option" where
  "forEachBuildRow keyIdx visit EOF s = Some (Inr s)"
| "forEachBuildRow keyIdx visit (Failed e) s = Some (Inl e)"
| "forEachBuildRow keyIdx visit (Deliver b rest) s = (case idx (Vectors b) keyIdx of
     Inl e \<Rightarrow> Some (Inl e)
   | Inr kv \<Rightarrow> obind (visit_rows visit kv b (sel_rows b) s) (forEachBuildRow keyIdx visit rest))"

text \<open>Materialise the row, then enter it in the table: the closure both build functions pass as \<open>visit\<close>.\<close>

definition build_visit :: "(i64 \<Rightarrow> i32 \<Rightarrow> 't \<times> i32 gslice \<Rightarrow> ('t \<times> i32 gslice) xres option) \<Rightarrow>
    i64 \<Rightarrow> Batch \<Rightarrow> nat \<Rightarrow> 't \<times> rowStore \<Rightarrow> ('t \<times> rowStore) xres option" where
  "build_visit ins key b i ts = (case ts of (t, store) \<Rightarrow> (case appendFrom b i store of
     Inl e \<Rightarrow> Some (Inl e)
   | Inr (row, store) \<Rightarrow> obind (ins key row (t, rnext store)) (\<lambda>(t, nx). Some (Inr (t, store\<lparr>rnext := nx\<rparr>)))))"

definition buildHashTable :: "Schema \<Rightarrow> nat \<Rightarrow> (int \<times> bool) option \<Rightarrow> stream \<Rightarrow> (joinHashTable \<times> rowStore) xres option" where
  "buildHashTable schema keyIdx bound src0 = (let rows = buildRowsPresize bound in
     forEachBuildRow keyIdx (build_visit insert_row) src0 (newJoinHashTable (int rows), newRowStore schema rows))"

record SharedHashTable =
  sparts :: "joinHashTable list"
  sstore :: rowStore
  partMask :: u64
  sschema :: Schema
  keyIdx :: nat
  snumRows :: nat

definition newSharedHashTable :: "Schema \<Rightarrow> nat \<Rightarrow> nat \<Rightarrow> nat \<Rightarrow> int \<Rightarrow> SharedHashTable" where
  "newSharedHashTable schema key radixBits cap expectedKeysPerPart =
     \<lparr>sparts = replicate (2 ^ radixBits) (newJoinHashTable expectedKeysPerPart), sstore = newRowStore schema cap,
      partMask = word_of_nat (2 ^ radixBits - 1), sschema = schema, keyIdx = key, snumRows = 0\<rparr>"

definition sht_visit :: "i64 \<Rightarrow> Batch \<Rightarrow> nat \<Rightarrow> SharedHashTable \<Rightarrow> SharedHashTable xres option" where
  "sht_visit key b i sht = obind (build_visit (radix_insert (partMask sht)) key b i (sparts sht, sstore sht))
     (\<lambda>(ps, store). Some (Inr (sht\<lparr>sparts := ps, sstore := store, snumRows := snumRows sht + 1\<rparr>)))"

definition BuildSharedHashTableRadix :: "Schema \<Rightarrow> nat \<Rightarrow> int \<Rightarrow> (int \<times> bool) option \<Rightarrow> stream \<Rightarrow> SharedHashTable xres option" where
  "BuildSharedHashTableRadix schema key radixBits bound src0 = (
     if length schema \<le> key then Some (Inl (Err ErrJoinKey)) else
     (let bits = clampRadixBits radixBits; rows = buildRowsPresize bound; numParts = 2 ^ bits;
          keysPerPart = (if 0 < rows then (rows + numParts - 1) div numParts else 0)
      in forEachBuildRow key sht_visit src0 (newSharedHashTable schema key bits rows (int keysPerPart))))"

text \<open>Draining is a fold over the rows with a key, in drain order.\<close>

definition keyed_rows :: "nat \<Rightarrow> Batch \<Rightarrow> (i64 \<times> Batch \<times> nat) list" where
  "keyed_rows key b = List.map_filter (\<lambda>i. case IsNull (Vectors b ! key) i of
       Inr False \<Rightarrow> (case extractInt64 (Vectors b ! key) i of Inr k \<Rightarrow> Some (k, b, i) | Inl _ \<Rightarrow> None)
     | _ \<Rightarrow> None) (sel_rows b)"

definition key_ok :: "nat \<Rightarrow> Batch \<Rightarrow> bool" where
  "key_ok key b \<longleftrightarrow> key < length (Vectors b) \<and> (\<forall>i \<in> set (sel_rows b). IsNull (Vectors b ! key) i = Inr True \<or>
     IsNull (Vectors b ! key) i = Inr False \<and> (\<exists>k. extractInt64 (Vectors b ! key) i = Inr k))"

fun fold_steps :: "('a \<Rightarrow> 's \<Rightarrow> 's xres option) \<Rightarrow> 'a list \<Rightarrow> 's \<Rightarrow> 's xres option" where
  "fold_steps f [] s = Some (Inr s)"
| "fold_steps f (x # xs) s = obind (f x s) (fold_steps f xs)"

lemma obind_assoc: "obind (obind m f) g = obind m (\<lambda>x. obind (f x) g)"
  by (auto simp: obind_def split: option.splits sum.splits)

lemma fold_steps_append: "fold_steps f (xs @ ys) s = obind (fold_steps f xs s) (fold_steps f ys)"
proof (induction xs arbitrary: s)
  case (Cons x xs)
  then have "fold_steps f (xs @ ys) = (\<lambda>s. obind (fold_steps f xs s) (fold_steps f ys))" by blast
  then show ?case by (simp add: obind_assoc)
qed simp

definition build_rows :: "nat \<Rightarrow> stream \<Rightarrow> (i64 \<times> Batch \<times> nat) list" where
  "build_rows key src0 = concat (map (keyed_rows key) (batches src0))"

lemma visit_rows_fold:
  assumes "\<forall>i \<in> set is. IsNull kv i = Inr True \<or> IsNull kv i = Inr False \<and> (\<exists>k. extractInt64 kv i = Inr k)"
  shows "visit_rows visit kv b is s = fold_steps (\<lambda>(k, b, i). visit k b i) (List.map_filter (\<lambda>i. case IsNull kv i of
       Inr False \<Rightarrow> (case extractInt64 kv i of Inr k \<Rightarrow> Some (k, b, i) | Inl _ \<Rightarrow> None) | _ \<Rightarrow> None) is) s"
  using assms
proof (induction "is" arbitrary: s)
  case (Cons i "is")
  then have IH: "visit_rows visit kv b is = fold_steps (\<lambda>(k, b, i). visit k b i) (List.map_filter (\<lambda>i. case IsNull kv i of
       Inr False \<Rightarrow> (case extractInt64 kv i of Inr k \<Rightarrow> Some (k, b, i) | Inl _ \<Rightarrow> None) | _ \<Rightarrow> None) is)" by auto
  show ?case using Cons.prems by (auto simp: map_filter_simps IH)
qed (simp add: map_filter_simps)

lemma forEachBuildRow_fold:
  assumes "ends_ok src0" "\<forall>b \<in> set (batches src0). key_ok key b"
  shows "forEachBuildRow key visit src0 s = fold_steps (\<lambda>(k, b, i). visit k b i) (build_rows key src0) s"
  using assms
proof (induction src0 arbitrary: s)
  case (Deliver b rest)
  have IH: "forEachBuildRow key visit rest = fold_steps (\<lambda>(k, b, i). visit k b i) (build_rows key rest)"
    using Deliver by auto
  show ?case
    using Deliver.prems visit_rows_fold [of "sel_rows b" "Vectors b ! key" visit b s]
    by (simp add: key_ok_def build_rows_def fold_steps_append keyed_rows_def IH [unfolded build_rows_def])
qed (auto simp: build_rows_def)


section \<open>What a join relies on in its table\<close>

text \<open>\<open>built s s' B\<close>: the store has grown by the rows \<open>B\<close>, with their contents.\<close>

definition row_ok :: "rowStore \<Rightarrow> Batch \<Rightarrow> nat \<Rightarrow> bool" where
  "row_ok s b i \<longleftrightarrow> numCols s \<le> length (Vectors b) \<and>
     (\<forall>c < numCols s. \<exists>cell. cell_of (strSlot s ! c) (Vectors b ! c) i = Inr cell)"

definition built :: "rowStore \<Rightarrow> rowStore \<Rightarrow> (i64 \<times> Batch \<times> nat) list \<Rightarrow> bool" where
  "built s s' B \<longleftrightarrow> store_ok s' \<and> numRows s' = numRows s + length B \<and> numCols s' = numCols s \<and> strSlot s' = strSlot s \<and>
     (\<forall>j < length B. \<forall>c < numCols s. case B ! j of (k, b, i) \<Rightarrow>
        store_cell s' (word_of_nat (numRows s + j)) c = cell_of (strSlot s ! c) (Vectors b ! c) i) \<and>
     (\<forall>r < numRows s. \<forall>c < numCols s. store_cell s' (word_of_nat r) c = store_cell s (word_of_nat r) c)"

definition new_rows :: "rowStore \<Rightarrow> (i64 \<times> Batch \<times> nat) list \<Rightarrow> i64 \<Rightarrow> i32 list" where
  "new_rows s B k = map (\<lambda>j. word_of_nat (numRows s + j)) (filter (\<lambda>j. fst (B ! j) = k) [0..<length B])"

lemma new_rows_snoc:
  "new_rows s (B @ [x]) k = new_rows s B k @ (if fst x = k then [word_of_nat (numRows s + length B)] else [])"
proof -
  have "filter (\<lambda>j. fst ((B @ [x]) ! j) = k) [0..<length B] = filter (\<lambda>j. fst (B ! j) = k) [0..<length B]"
    by (rule filter_cong) (auto simp: nth_append)
  then show ?thesis by (simp add: new_rows_def)
qed

lemma cell_of_no_slot: "cell_of None v i = Inr (n, x, str) \<Longrightarrow> str = []"
  by (cases v) (auto simp: cell_of_def res_bind_eq_Inr res_map_eq_Inr split: if_splits)

lemma append_built:
  assumes "store_ok s" "numRows s < maxBuildRows" "row_ok s b i"
  shows "\<exists>s'. appendFrom b i s = Inr (word_of_nat (numRows s), s') \<and> built s s' [(k, b, i)] \<and>
    (\<forall>j < numRows s. s_idx (rnext s') j = s_idx (rnext s) j)"
proof -
  have cols: "numCols s \<le> length (Vectors b)" using assms(3) by (simp add: row_ok_def)
  define cells where "cells = (\<lambda>c. projr (cell_of (strSlot s ! c) (Vectors b ! c) i))"
  have cells: "cell_of (strSlot s ! c) (Vectors b ! c) i = Inr (cells c)" if "c < numCols s" for c
    using assms(3) that by (auto simp: row_ok_def cells_def)
  have str0: "snd (snd (cells c)) = []" if "c < numCols s" "strSlot s ! c = None" for c
    using cells [OF that(1)] that(2) cell_of_no_slot [of "Vectors b ! c" i] by (cases "cells c") auto
  obtain s' where "appendFrom b i s = Inr (word_of_nat (numRows s), s')" "store_ok s'" "numRows s' = numRows s + 1"
    "numCols s' = numCols s" "strSlot s' = strSlot s"
    "\<And>c. c < numCols s \<Longrightarrow> store_cell s' (word_of_nat (numRows s)) c = Inr (cells c)"
    "\<And>r c. r < numRows s \<Longrightarrow> c < numCols s \<Longrightarrow> store_cell s' (word_of_nat r) c = store_cell s (word_of_nat r) c"
    "\<And>j. j < numRows s \<Longrightarrow> s_idx (rnext s') j = s_idx (rnext s) j"
    using appendFrom_ok [OF assms(1,2) cols cells str0] by blast
  then show ?thesis using cells by (auto simp: built_def)
qed

lemma built_append:
  assumes "built s s1 B" "built s1 s2 [x]"
  shows "built s s2 (B @ [x])"
  using assms by (auto simp: built_def nth_append less_Suc_eq simp del: of_nat_add split: prod.splits)

lemma built_next:
  assumes "built s s' B" "slice_ok nx" "snd nx = snd (rnext s')" "length (fst nx) = length (fst (rnext s'))"
  shows "built s (s'\<lparr>rnext := nx\<rparr>) B"
proof -
  have "store_cell (s'\<lparr>rnext := nx\<rparr>) = store_cell s'"
    by (intro ext) (simp add: store_cell_def isNull_def value_at_def str_at_def cong: option.case_cong)
  moreover have "store_ok s'" using assms(1) by (simp add: built_def)
  then have "store_ok (s'\<lparr>rnext := nx\<rparr>)" using assms(2-4) by (simp add: store_ok_def)
  ultimately show ?thesis using assms(1) by (simp add: built_def)
qed

text \<open>A row of the store, and the row of a batch it is a copy of.\<close>

definition stored_row :: "rowStore \<Rightarrow> i32 \<Rightarrow> (bool \<times> i64 \<times> string) xres list" where
  "stored_row s r = map (store_cell s r) [0..<numCols s]"

definition batch_row :: "Schema \<Rightarrow> Batch \<Rightarrow> nat \<Rightarrow> (bool \<times> i64 \<times> string) xres list" where
  "batch_row schema b i = map (\<lambda>c. cell_of (fst (str_slots schema 0) ! c) (Vectors b ! c) i) [0..<length schema]"

definition fits :: "Schema \<Rightarrow> Batch \<Rightarrow> nat \<Rightarrow> bool" where
  "fits schema b i \<longleftrightarrow> length schema \<le> length (Vectors b) \<and> list_all (\<lambda>x. \<not> isl x) (batch_row schema b i)"

definition of_schema :: "Schema \<Rightarrow> rowStore \<Rightarrow> bool" where
  "of_schema schema s \<longleftrightarrow> numCols s = length schema \<and> strSlot s = fst (str_slots schema 0)"

lemma newRowStore_schema: "of_schema schema (newRowStore schema cap)" "numRows (newRowStore schema cap) = 0"
  by (auto simp: of_schema_def newRowStore_def Let_def split: prod.splits)

lemma fits_row_ok:
  assumes "fits schema b i" "of_schema schema s"
  shows "row_ok s b i"
proof -
  have "\<exists>cell. cell_of (strSlot s ! c) (Vectors b ! c) i = Inr cell" if "c < numCols s" for c
  proof -
    have "\<not> isl (cell_of (strSlot s ! c) (Vectors b ! c) i)"
      using assms that by (auto simp: fits_def of_schema_def batch_row_def list_all_iff)
    then show ?thesis by (metis sum.collapse(2))
  qed
  then show ?thesis using assms by (simp add: row_ok_def fits_def of_schema_def)
qed

lemma filter_nth: "map (\<lambda>j. f (B ! j)) (filter (\<lambda>j. P (B ! j)) [0..<length B]) = map f (filter P B)"
proof -
  have "filter P B = filter P (map ((!) B) [0..<length B])" by (simp add: map_nth)
  then show ?thesis by (simp add: filter_map comp_def)
qed

lemma built_rows:
  assumes "built s s' B" "of_schema schema s" "numRows s = 0"
  shows "map (stored_row s') (new_rows s B k) = map (\<lambda>(k, b, i). batch_row schema b i) (filter (\<lambda>x. fst x = k) B)"
proof -
  have "stored_row s' (word_of_nat j) = (case B ! j of (k, b, i) \<Rightarrow> batch_row schema b i)" if "j < length B" for j
    using assms that by (auto simp: built_def stored_row_def batch_row_def of_schema_def split: prod.splits)
  then have "map (stored_row s') (new_rows s B k) =
      map (\<lambda>j. case B ! j of (k, b, i) \<Rightarrow> batch_row schema b i) (filter (\<lambda>j. fst (B ! j) = k) [0..<length B])"
    using assms(3) by (simp add: new_rows_def)
  then show ?thesis using filter_nth [of "\<lambda>(k, b, i). batch_row schema b i" B "\<lambda>x. fst x = k"] by simp
qed

locale row_index =
  fixes rep :: "'t \<Rightarrow> i32 gslice \<Rightarrow> (i64 \<Rightarrow> i32 list) \<Rightarrow> bool"
    and ins :: "i64 \<Rightarrow> i32 \<Rightarrow> 't \<times> i32 gslice \<Rightarrow> ('t \<times> i32 gslice) xres option"
    and find :: "'t \<Rightarrow> i32 gslice \<Rightarrow> i64 \<Rightarrow> i32 list xres option"
  assumes rep_find: "rep t nx m \<Longrightarrow> find t nx k = Some (Inr (m k))"
    and rep_ins: "rep t nx m \<Longrightarrow> row_in nx r \<Longrightarrow> (\<And>k. r \<notin> set (m k)) \<Longrightarrow>
      \<exists>t' nx'. ins k r (t, nx) = Some (Inr (t', nx')) \<and> rep t' nx' (m(k := m k @ [r])) \<and>
        snd nx' = snd nx \<and> length (fst nx') = length (fst nx)"
    and rep_frame: "rep t nx m \<Longrightarrow> slice_ok nx' \<Longrightarrow> snd nx' \<le> maxBuildRows \<Longrightarrow>
      (\<And>k r. r \<in> set (m k) \<Longrightarrow> s_idx32 nx' r = s_idx32 nx r) \<Longrightarrow> rep t nx' m"
    and rep_rows: "rep t nx m \<Longrightarrow> r \<in> set (m k) \<Longrightarrow> row_in nx r"
    and rep_links: "rep t nx m \<Longrightarrow> slice_ok nx"
begin

text \<open>
  Building: the table then answers every key with the rows that carry it, in drain order, and the store
  has their contents. \<open>B\<close> lists the rows with their keys; they become the rows from \<open>numRows store\<close> on.
\<close>

lemma build_fold:
  assumes "rep t (rnext store) m" "store_ok store" "numRows store + length B \<le> maxBuildRows"
    "\<forall>(k, b, i) \<in> set B. row_ok store b i"
  shows "\<exists>t' store'. fold_steps (\<lambda>(k, b, i). build_visit ins k b i) B (t, store) = Some (Inr (t', store')) \<and>
    built store store' B \<and> rep t' (rnext store') (\<lambda>k. m k @ new_rows store B k)"
  using assms(3,4)
proof (induction B rule: rev_induct)
  case Nil
  then show ?case using assms(1,2) by (auto simp: built_def new_rows_def)
next
  case (snoc x B)
  obtain k b i where x: "x = (k, b, i)" by (cases x)
  obtain t1 s1 where IH: "fold_steps (\<lambda>(k, b, i). build_visit ins k b i) B (t, store) = Some (Inr (t1, s1))"
    "built store s1 B" "rep t1 (rnext s1) (\<lambda>k. m k @ new_rows store B k)"
    using snoc.IH snoc.prems by auto
  let ?m = "\<lambda>k. m k @ new_rows store B k" and ?r = "word_of_nat (numRows s1) :: i32"
  have n: "numRows s1 < maxBuildRows" "store_ok s1" "row_ok s1 b i"
    using snoc.prems IH(2) x unfolding built_def row_ok_def by simp_all
  obtain s2 where s2: "appendFrom b i s1 = Inr (?r, s2)" "built s1 s2 [x]"
    "\<And>j. j < numRows s1 \<Longrightarrow> s_idx (rnext s2) j = s_idx (rnext s1) j"
    using append_built [OF n(2,1,3), of k] x by blast
  have links: "slice_ok (rnext s2)" "snd (rnext s2) = numRows s1 + 1" "snd (rnext s2) \<le> maxBuildRows" "snd (rnext s1) = numRows s1"
    using s2(2) n(2) store_ok_next [of s2] by (auto simp: built_def store_ok_def)
  have r: "row_in (rnext s2) ?r" "nat (sint ?r) = numRows s1"
    using links n(1) sint_row [of "numRows s1"] by (auto simp: row_in_def)
  have old: "nat (sint r') < numRows s1 \<and> 0 \<le> sint r'" if "r' \<in> set (?m k')" for r' k'
    using rep_rows [OF IH(3) that] links(4) by (simp add: row_in_def)
  have "rep t1 (rnext s2) ?m"
    using s2(3) old links(1,3) by (intro rep_frame [OF IH(3)]) (auto simp: s_idx32_def)
  moreover have "?r \<notin> set (?m k')" for k' using old [of ?r k'] r(2) by auto
  ultimately obtain t3 nx3 where t3: "ins k ?r (t1, rnext s2) = Some (Inr (t3, nx3))" "rep t3 nx3 (?m(k := ?m k @ [?r]))"
    "snd nx3 = snd (rnext s2)" "length (fst nx3) = length (fst (rnext s2))" using rep_ins [of t1 "rnext s2" ?m ?r k] r(1) by blast
  have "(?m(k := ?m k @ [?r])) = (\<lambda>k. m k @ new_rows store (B @ [x]) k)"
    using IH(2) x by (auto simp: new_rows_snoc built_def fun_eq_iff)
  moreover have "built store (s2\<lparr>rnext := nx3\<rparr>) (B @ [x])"
    using built_next [OF built_append [OF IH(2) s2(2)] rep_links [OF t3(2)] t3(3,4)] .
  moreover have "build_visit ins k b i (t1, s1) = Some (Inr (t3, s2\<lparr>rnext := nx3\<rparr>))"
    using s2(1) t3(1) by (simp add: build_visit_def)
  ultimately show ?case using IH(1) t3(2) x by (auto simp: fold_steps_append)
qed

lemma build_correct:
  assumes "rep t (rnext store) (\<lambda>_. [])" "store_ok store" "of_schema schema store" "numRows store = 0"
    "length B \<le> maxBuildRows" "\<forall>(k, b, i) \<in> set B. fits schema b i"
  shows "\<exists>t' store'. fold_steps (\<lambda>(k, b, i). build_visit ins k b i) B (t, store) = Some (Inr (t', store')) \<and>
    numRows store' = length B \<and> (\<forall>k. \<exists>rs. find t' (rnext store') k = Some (Inr rs) \<and>
      map (stored_row store') rs = map (\<lambda>(k, b, i). batch_row schema b i) (filter (\<lambda>x. fst x = k) B))"
proof -
  have len: "numRows store + length B \<le> maxBuildRows" using assms(4,5) by simp
  have rows: "\<forall>(k, b, i) \<in> set B. row_ok store b i" using assms(3,6) fits_row_ok by blast
  obtain t' store' where b: "fold_steps (\<lambda>(k, b, i). build_visit ins k b i) B (t, store) = Some (Inr (t', store'))"
    "built store store' B" "rep t' (rnext store') (new_rows store B)"
    using build_fold [OF assms(1,2) len rows] by auto
  have "\<exists>rs. find t' (rnext store') k = Some (Inr rs) \<and>
      map (stored_row store') rs = map (\<lambda>(k, b, i). batch_row schema b i) (filter (\<lambda>x. fst x = k) B)" for k
    using rep_find [OF b(3), of k] built_rows [OF b(2) assms(3,4)] by blast
  moreover have "numRows store' = length B" using b(2) assms(4) by (simp add: built_def)
  ultimately show ?thesis using b(1) by blast
qed

end

text \<open>Every partition represents the part of the map whose keys hash to it; their rows are disjoint.\<close>

definition rep_parts :: "nat \<Rightarrow> joinHashTable list \<Rightarrow> i32 gslice \<Rightarrow> (i64 \<Rightarrow> i32 list) \<Rightarrow> bool" where
  "rep_parts bits parts nx m \<longleftrightarrow> length parts = 2 ^ bits \<and>
     (\<forall>p < 2 ^ bits. rep_table (parts ! p) nx (\<lambda>k. if radixPart k (word_of_nat (2 ^ bits - 1)) = p then m k else [])) \<and>
     (\<forall>k k'. k \<noteq> k' \<longrightarrow> set (m k) \<inter> set (m k') = {})"

lemma radixPart_less:
  assumes "bits \<le> 12"
  shows "radixPart k (word_of_nat (2 ^ bits - 1)) < 2 ^ bits"
proof -
  have "radixHash k AND word_of_nat (2 ^ bits - 1) = take_bit bits (radixHash k)"
    using assms by (subst mask_word) (auto simp: take_bit_eq_mask)
  moreover have "unat (take_bit bits (radixHash k)) < 2 ^ bits" by (simp add: unsigned_take_bit_eq)
  ultimately show ?thesis unfolding radixPart_def by simp
qed

lemma radixPart_and: "unat (radixHash k AND pm) = radixPart k pm"
  by (simp add: radixPart_def)

lemma probe_rep:
  assumes "rep_table t nx m"
  shows "obind (lookupHashed t k (radixHash k)) (chain_rows nx) = Some (Inr (m k))"
proof -
  have look: "lookupHashed t k (radixHash k) = Some (Inr (if m k = [] then noRow else hd (m k)))"
    using lookup_rep [OF assms, of k] by (simp add: lookup_def)
  show ?thesis
  proof (cases "m k = []")
    case True
    then show ?thesis using look by (simp add: chain_rows.simps)
  next
    case False
    then show ?thesis using look chain_rows_linked [of nx "m k"] assms by (simp add: rep_table_def)
  qed
qed

lemma rep_parts_insert:
  assumes bits: "bits \<le> 12" and rep: "rep_parts bits parts nx m" and r: "row_in nx r" "\<And>k. r \<notin> set (m k)"
  shows "\<exists>parts' nx'. radix_insert (word_of_nat (2 ^ bits - 1)) k r (parts, nx) = Some (Inr (parts', nx')) \<and>
    rep_parts bits parts' nx' (m(k := m k @ [r])) \<and> snd nx' = snd nx \<and> length (fst nx') = length (fst nx)"
proof -
  let ?pm = "word_of_nat (2 ^ bits - 1) :: u64"
  let ?part = "\<lambda>m p k. if radixPart k ?pm = p then m k else []"
  let ?p = "radixPart k ?pm" and ?m = "m(k := m k @ [r])"
  have p: "?p < 2 ^ bits" "length parts = 2 ^ bits" using radixPart_less [OF bits] rep by (auto simp: rep_parts_def)
  have reps: "rep_table (parts ! q) nx (?part m q)" if "q < 2 ^ bits" for q using rep that by (simp add: rep_parts_def)
  obtain t' nx' where t': "insert_row k r (parts ! ?p, nx) = Some (Inr (t', nx'))"
    "rep_table t' nx' ((?part m ?p)(k := ?part m ?p k @ [r]))" "snd nx' = snd nx \<and> length (fst nx') = length (fst nx)"
    "\<forall>r'. r' \<noteq> r \<longrightarrow> r' \<notin> set (?part m ?p k) \<longrightarrow> s_idx32 nx' r' = s_idx32 nx r'"
    using insert_row_rep [OF reps [OF p(1)] r(1), of k] r(2) by auto
  have dj: "set (m k1) \<inter> set (m k2) = {}" if "k1 \<noteq> k2" for k1 k2 using rep that by (simp add: rep_parts_def)
  have upd: "(?part m ?p)(k := ?part m ?p k @ [r]) = ?part ?m ?p" by auto
  have other: "rep_table (parts ! q) nx' (?part ?m q)" if q: "q < 2 ^ bits" "q \<noteq> ?p" for q
  proof -
    have "s_idx32 nx' r' = s_idx32 nx r'" if "r' \<in> set (?part m q k')" for k' r'
    proof -
      have "k' \<noteq> k" "r' \<in> set (m k')" using that q(2) by (auto split: if_splits)
      then have "r' \<notin> set (m k)" "r' \<noteq> r" using dj [of k' k] r(2) by auto
      then show ?thesis using t'(4) by simp
    qed
    then have "rep_table (parts ! q) nx' (?part m q)"
      using t'(2,3) reps [OF q(1)] by (intro rep_table_frame [OF reps [OF q(1)], of nx']) (auto simp: rep_table_def)
    moreover have "?part ?m q = ?part m q" using q(2) by auto
    ultimately show ?thesis by simp
  qed
  have "rep_parts bits (parts[?p := t']) nx' ?m"
    unfolding rep_parts_def
  proof (intro conjI allI impI)
    fix q :: nat assume "q < 2 ^ bits"
    then show "rep_table (parts[?p := t'] ! q) nx' (?part ?m q)"
      using other t'(2) upd p by (cases "q = ?p") auto
  next
    fix k1 k2 :: i64 assume "k1 \<noteq> k2"
    then show "set (?m k1) \<inter> set (?m k2) = {}" using dj [of k1 k2] r(2) by auto
  qed (use p in simp)
  then show ?thesis using t' p by (auto simp: radix_insert_def)
qed

lemma rep_table_links: "rep_table t nx m \<Longrightarrow> slice_ok nx"
  by (simp add: rep_table_def)

interpretation serial_table: row_index rep_table insert_row "\<lambda>t nx k. obind (lookupHashed t k (radixHash k)) (chain_rows nx)"
proof
  show "\<exists>t' nx'. insert_row k r (t, nx) = Some (Inr (t', nx')) \<and> rep_table t' nx' (m(k := m k @ [r])) \<and>
      snd nx' = snd nx \<and> length (fst nx') = length (fst nx)"
    if "rep_table t nx m" "row_in nx r" "\<And>k. r \<notin> set (m k)" for t nx m r k
    using insert_row_rep [OF that] by blast
qed (fact probe_rep rep_table_frame rep_table_rows rep_table_links)+

text \<open>Partitioning on up to 12 bits, which is where \<^verbatim>\<open>clampRadixBits\<close> puts the limit.\<close>

definition part_mask :: "nat \<Rightarrow> u64" where
  "part_mask bits = word_of_nat (2 ^ bits - 1)"

lemma radix_index:
  assumes "bits \<le> radixHardMaxBits"
  shows "row_index (rep_parts bits) (radix_insert (part_mask bits)) (probe_key (part_mask bits))"
proof
  have bits: "bits \<le> 12" using assms by (simp add: radixHardMaxBits_def)
  fix parts nx nx' r and k :: i64 and m :: "i64 \<Rightarrow> i32 list"
  let ?part = "\<lambda>p k. if radixPart k (part_mask bits) = p then m k else []"
  assume rep: "rep_parts bits parts nx m"
  have p: "radixPart k (part_mask bits) < 2 ^ bits" "length parts = 2 ^ bits" for k
    using radixPart_less [OF bits] rep by (auto simp: rep_parts_def part_mask_def)
  have reps: "rep_table (parts ! q) nx (?part q)" if "q < 2 ^ bits" for q
    using rep that by (simp add: rep_parts_def part_mask_def)
  show "probe_key (part_mask bits) parts nx k = Some (Inr (m k))"
    using probe_rep [OF reps [OF p(1) [of k]], of k] p(1) [of k] p(2) by (simp add: probe_key_def Let_def radixPart_and)
  show "slice_ok nx" using rep_table_links [OF reps [OF p(1)]] .
  show "row_in nx r" if "r \<in> set (m k)"
    using rep_table_rows [OF reps [OF p(1) [of k]], of r k] that by simp
  show "\<exists>t' nx'. radix_insert (part_mask bits) k r (parts, nx) = Some (Inr (t', nx')) \<and>
      rep_parts bits t' nx' (m(k := m k @ [r])) \<and> snd nx' = snd nx \<and> length (fst nx') = length (fst nx)" if "row_in nx r" "\<And>k. r \<notin> set (m k)"
    unfolding part_mask_def by (rule rep_parts_insert [OF bits rep that])
  show "rep_parts bits parts nx' m" if "slice_ok nx'" "snd nx' \<le> maxBuildRows"
    "\<And>k r. r \<in> set (m k) \<Longrightarrow> s_idx32 nx' r = s_idx32 nx r"
  proof -
    have "rep_table (parts ! q) nx' (?part q)" if "q < 2 ^ bits" for q
      using rep_table_frame [OF reps [OF that], of nx'] \<open>slice_ok nx'\<close> \<open>snd nx' \<le> maxBuildRows\<close>
        \<open>\<And>k r. r \<in> set (m k) \<Longrightarrow> s_idx32 nx' r = s_idx32 nx r\<close> by (auto split: if_splits)
    then show ?thesis using rep by (simp add: rep_parts_def part_mask_def)
  qed
qed

interpretation radix_table: row_index "rep_parts (clampRadixBits n)" "radix_insert (part_mask (clampRadixBits n))"
  "probe_key (part_mask (clampRadixBits n))" for n
  by (rule radix_index) (auto simp: clampRadixBits_def radixHardMaxBits_def)

section \<open>Both build sides answer every key with its build rows\<close>

definition build_side_ok :: "Schema \<Rightarrow> nat \<Rightarrow> stream \<Rightarrow> bool" where
  "build_side_ok schema key src0 \<longleftrightarrow> ends_ok src0 \<and> (\<forall>b \<in> set (batches src0). key_ok key b) \<and>
     (\<forall>(k, b, i) \<in> set (build_rows key src0). fits schema b i) \<and> length (build_rows key src0) \<le> maxBuildRows"

lemma presize_bound: "buildRowsPresize bound \<le> maxBuildRows"
  by (auto simp: buildRowsPresize_def presizeRows_def split: option.splits)

definition rows_with_key :: "Schema \<Rightarrow> nat \<Rightarrow> stream \<Rightarrow> i64 \<Rightarrow> (bool \<times> i64 \<times> string) xres list list" where
  "rows_with_key schema key src0 k = map (\<lambda>(k, b, i). batch_row schema b i) (filter (\<lambda>x. fst x = k) (build_rows key src0))"

lemma buildHashTable_ok:
  assumes "build_side_ok schema key src0"
  shows "\<exists>t s. buildHashTable schema key bound src0 = Some (Inr (t, s)) \<and>
    (\<forall>k. \<exists>rs. obind (lookup t k) (chain_rows (rnext s)) = Some (Inr rs) \<and> map (stored_row s) rs = rows_with_key schema key src0 k)"
proof -
  let ?n = "buildRowsPresize bound"
  have n: "int ?n \<le> 2 ^ 31" using presize_bound [of bound] by (simp add: maxBuildRows_def)
  have "rep_table (newJoinHashTable (int ?n)) (rnext (newRowStore schema ?n)) (\<lambda>_. [])"
    using newJoinHashTable_rep [OF n] store_ok_next [OF newRowStore_ok] by blast
  from serial_table.build_correct [OF this newRowStore_ok newRowStore_schema, of "build_rows key src0"] assms
  show ?thesis
    unfolding build_side_ok_def buildHashTable_def Let_def lookup_def rows_with_key_def
    by (subst forEachBuildRow_fold) blast+
qed

lemma sht_fold:
  "fold_steps (\<lambda>(k, b, i). sht_visit k b i) B sht = obind (fold_steps (\<lambda>(k, b, i). build_visit (radix_insert (partMask sht)) k b i) B (sparts sht, sstore sht))
     (\<lambda>(ps, store). Some (Inr (sht\<lparr>sparts := ps, sstore := store, snumRows := snumRows sht + length B\<rparr>)))"
proof (induction B arbitrary: sht)
  case (Cons x B)
  obtain k b i where x: "x = (k, b, i)" by (cases x)
  let ?v = "build_visit (radix_insert (partMask sht)) k b i (sparts sht, sstore sht)"
  consider (diverges) "?v = None" | (fails) e where "?v = Some (Inl e)" | (ok) ps st where "?v = Some (Inr (ps, st))"
    by (metis option.exhaust sum.exhaust surj_pair)
  then show ?case
  proof cases
    case ok
    then have "sht_visit k b i sht = Some (Inr (sht\<lparr>sparts := ps, sstore := st, snumRows := snumRows sht + 1\<rparr>))"
      by (simp add: sht_visit_def)
    then show ?thesis using ok by (simp add: x Cons.IH)
  qed (simp_all add: x sht_visit_def)
qed simp

lemma BuildSharedHashTableRadix_ok:
  assumes "build_side_ok schema key src0" "key < length schema"
  shows "\<exists>sht. BuildSharedHashTableRadix schema key radixBits bound src0 = Some (Inr sht) \<and> snumRows sht = length (build_rows key src0) \<and>
    sschema sht = schema \<and> (\<forall>k. \<exists>rs. probe_key (partMask sht) (sparts sht) (rnext (sstore sht)) k = Some (Inr rs) \<and>
      map (stored_row (sstore sht)) rs = rows_with_key schema key src0 k)"
proof -
  let ?n = "buildRowsPresize bound" and ?bits = "clampRadixBits radixBits"
  let ?keys = "if 0 < ?n then (?n + 2 ^ ?bits - 1) div 2 ^ ?bits else 0"
  let ?sht = "newSharedHashTable schema key ?bits ?n (int ?keys)"
  have "(?n + 2 ^ ?bits - 1) div 2 ^ ?bits \<le> (?n * 2 ^ ?bits) div 2 ^ ?bits" if "0 < ?n"
    using that by (intro div_le_mono) (cases ?n; simp)
  then have "?keys \<le> ?n" by simp
  then have k: "int ?keys \<le> 2 ^ 31" using presize_bound [of bound] by (simp add: maxBuildRows_def del: of_nat_div)
  have rep: "rep_parts ?bits (sparts ?sht) (rnext (sstore ?sht)) (\<lambda>_. [])"
    using newJoinHashTable_rep [OF k] store_ok_next [OF newRowStore_ok]
    by (simp add: rep_parts_def newSharedHashTable_def)
  have pm: "partMask ?sht = part_mask ?bits" "store_ok (sstore ?sht)" "of_schema schema (sstore ?sht)"
    "numRows (sstore ?sht) = 0" "snumRows ?sht = 0" "sschema ?sht = schema"
    by (simp_all add: newSharedHashTable_def part_mask_def newRowStore_ok newRowStore_schema)
  have len: "length (build_rows key src0) \<le> maxBuildRows" using assms(1) by (simp add: build_side_ok_def)
  have rows: "\<forall>(k, b, i) \<in> set (build_rows key src0). fits schema b i" using assms(1) by (simp add: build_side_ok_def)
  obtain ps s where "fold_steps (\<lambda>(k, b, i). build_visit (radix_insert (part_mask ?bits)) k b i) (build_rows key src0)
      (sparts ?sht, sstore ?sht) = Some (Inr (ps, s))"
    "\<forall>k. \<exists>rs. probe_key (part_mask ?bits) ps (rnext s) k = Some (Inr rs) \<and>
      map (stored_row s) rs = rows_with_key schema key src0 k"
    using radix_table.build_correct [OF rep pm(2-4) len rows] unfolding rows_with_key_def by blast
  then have "fold_steps (\<lambda>(k, b, i). sht_visit k b i) (build_rows key src0) ?sht =
      Some (Inr (?sht\<lparr>sparts := ps, sstore := s, snumRows := length (build_rows key src0)\<rparr>))"
    "\<forall>k. \<exists>rs. probe_key (part_mask ?bits) ps (rnext s) k = Some (Inr rs) \<and>
      map (stored_row s) rs = rows_with_key schema key src0 k"
    using pm by (simp_all add: sht_fold)
  then show ?thesis
    using assms pm(1,6) forEachBuildRow_fold [of src0 key sht_visit ?sht]
    unfolding BuildSharedHashTableRadix_def build_side_ok_def Let_def by auto
qed

section \<open>Properties\<close>

text \<open>
  C24: the open-addressed table is a correct multimap. Whatever keys and distinct rows are inserted,
  in whatever order and through however many doublings of the slot array, every insertion terminates,
  and a lookup followed by the walk along the chain terminates and yields exactly the rows inserted under
  that key, in insertion order; for a key that was never inserted it yields nothing.
\<close>

theorem joinHashTable_multimap:
  assumes "n \<le> 2 ^ 31" "slice_ok nx" "snd nx \<le> maxBuildRows" "distinct (map snd ops)" "\<forall>r \<in> set (map snd ops). row_in nx r"
  shows "\<exists>t nx'. fold_steps (\<lambda>(k, r). insert_row k r) ops (newJoinHashTable n, nx) = Some (Inr (t, nx')) \<and>
    (\<forall>k. obind (lookup t k) (chain_rows nx') = Some (Inr (map snd (filter (\<lambda>(k', r). k' = k) ops))))"
proof -
  have "\<exists>t nx'. fold_steps (\<lambda>(k, r). insert_row k r) ops (newJoinHashTable n, nx) = Some (Inr (t, nx')) \<and>
    rep_table t nx' (\<lambda>k. map snd (filter (\<lambda>(k', r). k' = k) ops)) \<and> snd nx' = snd nx"
    using assms(4,5)
  proof (induction ops rule: rev_induct)
    case Nil
    then show ?case using newJoinHashTable_rep [OF assms(1-3)] by simp
  next
    case (snoc x ops)
    obtain k r where x: "x = (k, r)" by (cases x)
    let ?m = "\<lambda>k. map snd (filter (\<lambda>(k', r). k' = k) ops)"
    obtain t nx1 where t: "fold_steps (\<lambda>(k, r). insert_row k r) ops (newJoinHashTable n, nx) = Some (Inr (t, nx1))"
      "rep_table t nx1 ?m" "snd nx1 = snd nx" using snoc by auto
    have "row_in nx1 r" "r \<notin> set (?m k')" for k' using snoc.prems x t(3) by (auto simp: row_in_def)
    then obtain t' nx2 where "insert_row k r (t, nx1) = Some (Inr (t', nx2))" "rep_table t' nx2 (?m(k := ?m k @ [r]))" "snd nx2 = snd nx1"
      using insert_row_rep [OF t(2), of r k] by blast
    moreover have "?m(k := ?m k @ [r]) = (\<lambda>k. map snd (filter (\<lambda>(k', r). k' = k) (ops @ [x])))" using x by auto
    ultimately show ?case using t x by (auto simp: fold_steps_append)
  qed
  then show ?thesis using serial_table.rep_find unfolding lookup_def by blast
qed

theorem joinHashTable_multimap_witness:
  "\<exists>t nx. fold_steps (\<lambda>(k, r). insert_row k r) [(5, 0), (0, 1), (5, 2)] (newJoinHashTable 0, s_make 0 3 3) = Some (Inr (t, nx)) \<and>
    obind (lookup t 5) (chain_rows nx) = Some (Inr [0, 2]) \<and> obind (lookup t 0) (chain_rows nx) = Some (Inr [1]) \<and>
    obind (lookup t 6) (chain_rows nx) = Some (Inr [])"
proof -
  have "\<forall>r \<in> set (map snd [(5 :: i64, 0 :: i32), (0, 1), (5, 2)]). row_in (s_make 0 3 3) r"
    by (simp add: row_in_def s_make_def)
  then show ?thesis
    using joinHashTable_multimap [of 0 "s_make 0 3 3" "[(5, 0), (0, 1), (5, 2)]"]
    by (auto simp: slice_ok_def s_make_def maxBuildRows_def)
qed

text \<open>
  C16: all build strategies answer every probe alike. For a build side that ends without error, whose rows
  fit the schema and the \<^verbatim>\<open>int32\<close> row index, the join's own table and the radix-partitioned table of
  any number of bits are both built (presized or not), and for every key probing either of them yields the
  build rows with that key, contents included, in the order the build side delivered them.
\<close>

theorem build_sides_agree:
  assumes "build_side_ok schema key src0" "key < length schema"
  shows "\<exists>t s sht. buildHashTable schema key bound src0 = Some (Inr (t, s)) \<and>
    BuildSharedHashTableRadix schema key radixBits bound' src0 = Some (Inr sht) \<and> snumRows sht = length (build_rows key src0) \<and>
    (\<forall>k. \<exists>rs rs'. obind (lookup t k) (chain_rows (rnext s)) = Some (Inr rs) \<and>
      probe_key (partMask sht) (sparts sht) (rnext (sstore sht)) k = Some (Inr rs') \<and>
      map (stored_row s) rs = rows_with_key schema key src0 k \<and>
      map (stored_row (sstore sht)) rs' = rows_with_key schema key src0 k)"
  using buildHashTable_ok [OF assms(1), of bound] BuildSharedHashTableRadix_ok [OF assms, of radixBits bound'] by metis

definition ex_build :: Batch where
  "ex_build = \<lparr>BSchema = [], Vectors = [Int64Vector [5, 7, 5, 9] [0x07]], BLength = 4, SelVec = None\<rparr>"

definition ex_schema :: Schema where
  "ex_schema = [\<lparr>Name = ''k'', Type = TypeInt64, FEncoding = EncPlain, Nullable = True\<rparr>]"

lemma ex_nulls: "IsNull (Int64Vector vs [0x07]) 0 = Inr False" "IsNull (Int64Vector vs [0x07]) 1 = Inr False"
  "IsNull (Int64Vector vs [0x07]) 2 = Inr False" "IsNull (Int64Vector vs [0x07]) 3 = Inr True"
  by (simp_all add: IsNull_def IsNullBit_def; code_simp)+

lemma ex_build_rows: "build_rows 0 (Deliver ex_build EOF) = [(5, ex_build, 0), (7, ex_build, 1), (5, ex_build, 2)]"
  by (simp add: build_rows_def keyed_rows_def sel_rows_def ex_build_def ex_nulls [simplified One_nat_def] upt_conv_Cons map_filter_simps
      numeral_2_eq_2 numeral_3_eq_3 ex_nulls [unfolded numeral_2_eq_2 numeral_3_eq_3 One_nat_def])

lemma ex_key_ok: "key_ok 0 ex_build"
proof -
  have "sel_rows ex_build = [0, 1, 2, 3]" by (simp add: sel_rows_def ex_build_def upt_conv_Cons)
  then show ?thesis by (simp add: key_ok_def ex_build_def ex_nulls ex_nulls(2) [unfolded One_nat_def])
qed

theorem build_sides_agree_witness:
  "\<exists>t s. buildHashTable ex_schema 0 None (Deliver ex_build EOF) = Some (Inr (t, s)) \<and>
    (\<exists>rs. obind (lookup t 5) (chain_rows (rnext s)) = Some (Inr rs) \<and>
      map (stored_row s) rs = [[Inr (False, 5, [])], [Inr (False, 5, [])]])"
proof -
  have slots: "str_slots ex_schema 0 = ([None], 0)" by (simp add: ex_schema_def)
  have cells: "batch_row ex_schema ex_build 0 = [Inr (False, 5, [])]" "batch_row ex_schema ex_build 1 = [Inr (False, 7, [])]"
    "batch_row ex_schema ex_build 2 = [Inr (False, 5, [])]"
    by (simp_all add: batch_row_def slots) (simp_all add: ex_schema_def ex_build_def cell_of_def ex_nulls ex_nulls(2) [unfolded One_nat_def])
  have "build_side_ok ex_schema 0 (Deliver ex_build EOF)"
    unfolding build_side_ok_def ex_build_rows using cells ex_key_ok
    by (auto simp: fits_def maxBuildRows_def ex_schema_def ex_build_def [THEN arg_cong, of Vectors])
  moreover have "rows_with_key ex_schema 0 (Deliver ex_build EOF) 5 = [[Inr (False, 5, [])], [Inr (False, 5, [])]]"
    using cells by (simp add: rows_with_key_def ex_build_rows)
  moreover have "0 < length ex_schema" by (simp add: ex_schema_def)
  ultimately show ?thesis using build_sides_agree [of ex_schema 0 "Deliver ex_build EOF" None 0 None] by metis
qed

end
