(* ===== verification/Sort.thy ===== *)
theory Sort
  imports Emit "HOL-Library.Multiset" "HOL-Library.List_Lexorder" "HOL-Library.Char_ord"
begin

text \<open>
  ORDER BY (\<^verbatim>\<open>exec/sort.go\<close>): all input rows are materialised as raw 64-bit values, null flags and strings, sorted
  stably with the comparison of the sort keys, and emitted in blocks. Go compares strings bytewise, which is the
  order of \<open>List_Lexorder\<close> over \<open>Char_ord\<close>. \<^verbatim>\<open>sort.SliceStable\<close> is the insertion sort that the library runs on
  short slices; under a strict weak order every stable sort has the same result.
\<close>

section \<open>Rows and their comparison\<close>

record SortKey =
  ColIdx :: nat
  Descending :: bool

record sortRow =
  svalues :: "i64 list"
  snulls :: "bool list"
  strValues :: "string list"

definition sort_cell :: "Batch \<Rightarrow> nat \<Rightarrow> sortRow \<Rightarrow> nat \<Rightarrow> sortRow xres" where
  "sort_cell batch rowIdx row c = res_bind (idx (Vectors batch) c) (\<lambda>v. res_bind (IsNull v rowIdx) (\<lambda>null.
     res_bind (upd (snulls row) c null) (\<lambda>ns. let row = row\<lparr>snulls := ns\<rparr> in
     if null then Inr row else (case v of
       StringVector codes dict nb \<Rightarrow> (case dict of None \<Rightarrow> Inr row
         | Some d \<Rightarrow> res_bind (StringVector_Get codes dict rowIdx) (\<lambda>str. res_map (\<lambda>ss. row\<lparr>strValues := ss\<rparr>) (upd (strValues row) c str)))
     | _ \<Rightarrow> res_bind (extractInt64 v rowIdx) (\<lambda>x. res_map (\<lambda>vs. row\<lparr>svalues := vs\<rparr>) (upd (svalues row) c x))))))"

definition sort_row :: "nat \<Rightarrow> Batch \<Rightarrow> nat \<Rightarrow> sortRow xres" where
  "sort_row nc batch rowIdx = fold_res (sort_cell batch rowIdx)
     \<lparr>svalues = replicate nc 0, snulls = replicate nc False, strValues = replicate nc []\<rparr> [0..<nc]"

fun consume :: "nat \<Rightarrow> stream \<Rightarrow> sortRow list \<Rightarrow> sortRow list xres" where
  "consume nc EOF acc = Inr acc"
| "consume nc (Failed e) acc = Inl e"
| "consume nc (Deliver batch rest) acc = res_bind (map_res (sort_row nc batch) (sel_rows batch)) (\<lambda>rs. consume nc rest (acc @ rs))"

fun sort_less :: "Schema \<Rightarrow> SortKey list \<Rightarrow> sortRow \<Rightarrow> sortRow \<Rightarrow> bool xres" where
  "sort_less schema [] a b = Inr False"
| "sort_less schema (key # ks) a b = (let ci = ColIdx key in
     res_bind (idx (snulls a) ci) (\<lambda>aN. res_bind (idx (snulls b) ci) (\<lambda>bN.
     if aN \<and> bN then sort_less schema ks a b else if aN then Inr True else if bN then Inr False else
     res_bind (idx schema ci) (\<lambda>field. case Type field of
       TypeString \<Rightarrow> res_bind (idx (strValues a) ci) (\<lambda>x. res_bind (idx (strValues b) ci) (\<lambda>y.
         if x = y then sort_less schema ks a b else Inr (if Descending key then y < x else x < y)))
     | TypeFloat64 \<Rightarrow> res_bind (idx (svalues a) ci) (\<lambda>af. res_bind (idx (svalues b) ci) (\<lambda>bf.
         if f_eq af bf \<or> (is_nan af \<and> is_nan bf) then sort_less schema ks a b
         else if is_nan af \<or> is_nan bf then Inr (is_nan bf \<noteq> Descending key)
         else Inr (if Descending key then f_lt bf af else f_lt af bf)))
     | _ \<Rightarrow> res_bind (idx (svalues a) ci) (\<lambda>x. res_bind (idx (svalues b) ci) (\<lambda>y.
         if x = y then sort_less schema ks a b
         else Inr (if Descending key then sint y < sint x else sint x < sint y)))))))"

text \<open>Insertion into the sorted part, held last element first: move left while the new element is less.\<close>

fun stable_insert :: "('a \<Rightarrow> 'a \<Rightarrow> bool xres) \<Rightarrow> 'a \<Rightarrow> 'a list \<Rightarrow> 'a list xres" where
  "stable_insert lss x [] = Inr [x]"
| "stable_insert lss x (y # ys) = res_bind (lss x y) (\<lambda>l. if l then res_map ((#) y) (stable_insert lss x ys) else Inr (x # y # ys))"

definition SliceStable :: "('a \<Rightarrow> 'a \<Rightarrow> bool xres) \<Rightarrow> 'a list \<Rightarrow> 'a list xres" where
  "SliceStable lss xs = res_map rev (fold_res (\<lambda>acc x. stable_insert lss x acc) [] xs)"

definition consumeAndSort :: "Schema \<Rightarrow> SortKey list \<Rightarrow> stream \<Rightarrow> sortRow list xres" where
  "consumeAndSort schema ks child = res_bind (consume (length schema) child []) (SliceStable (sort_less schema ks))"


section \<open>Emission\<close>

definition sort_column :: "sortRow list \<Rightarrow> nat \<Rightarrow> DataType \<Rightarrow> vector xres" where
  "sort_column rs c t = (let n = length rs; null = (\<lambda>i. res_bind (idx rs i) (\<lambda>r. idx (snulls r) c));
       raw = (\<lambda>i. res_bind (idx rs i) (\<lambda>r. idx (svalues r) c)) in case t of
     TypeInt64 \<Rightarrow> res_map (\<lambda>(vs, nb). Int64Vector vs nb) (fill_fixed null raw 0 n)
   | TypeFloat64 \<Rightarrow> res_map (\<lambda>(vs, nb). Float64Vector vs nb) (fill_fixed null raw 0 n)
   | TypeDate \<Rightarrow> res_map (\<lambda>(vs, nb). DateVector vs nb) (fill_fixed null (\<lambda>i. res_map (\<lambda>x. ucast x) (raw i)) 0 n)
   | TypeString \<Rightarrow> fill_strings null (\<lambda>i. res_bind (idx rs i) (\<lambda>r. idx (strValues r) c)) n
   | TypeBool \<Rightarrow> res_map (\<lambda>(bits, nb). BoolVector bits nb n) (fill_bools null (\<lambda>i. res_map (\<lambda>x. x \<noteq> 0) (raw i)) n))"

definition emitBatch :: "Schema \<Rightarrow> sortRow list \<Rightarrow> Batch xres" where
  "emitBatch schema rs = res_map (\<lambda>vecs. \<lparr>BSchema = schema, Vectors = vecs, BLength = length rs, SelVec = None\<rparr>)
     (map_res (\<lambda>c. sort_column rs c (Type (schema ! c))) [0..<length schema])"

record ExternalSort =
  schild :: stream
  srows :: "sortRow list"
  sdone :: bool
  emitPos :: nat

definition NewExternalSort :: "stream \<Rightarrow> SortKey list \<Rightarrow> ExternalSort xres" where
  "NewExternalSort child ks = (if ks = [] then Inl (Err ErrNoSortKeys)
     else Inr \<lparr>schild = child, srows = [], sdone = False, emitPos = 0\<rparr>)"

definition ExternalSort_Next :: "Schema \<Rightarrow> SortKey list \<Rightarrow> ExternalSort \<Rightarrow> (Batch option \<times> ExternalSort) xres" where
  "ExternalSort_Next schema ks s = res_bind
     (if sdone s then Inr s
      else res_map (\<lambda>rs. s\<lparr>srows := rs, sdone := True, schild := EOF\<rparr>) (consumeAndSort schema ks (schild s)))
     (\<lambda>s. if length (srows s) \<le> emitPos s then Inr (None, s)
       else (let stop = min (emitPos s + BlockRows) (length (srows s)) in
         res_map (\<lambda>batch. (Some batch, s\<lparr>emitPos := stop\<rparr>))
           (emitBatch schema (take (stop - emitPos s) (drop (emitPos s) (srows s))))))"

definition sort_left :: "Schema \<Rightarrow> SortKey list \<Rightarrow> ExternalSort \<Rightarrow> nat" where
  "sort_left schema ks s = (if sdone s then length (srows s) - emitPos s
     else (case consumeAndSort schema ks (schild s) of Inl _ \<Rightarrow> 0 | Inr rs \<Rightarrow> length rs - emitPos s))"

interpretation sort_op: pull_operator "ExternalSort_Next schema ks" "sort_left schema ks" for schema ks
proof
  fix s b s' assume "ExternalSort_Next schema ks s = Inr (Some b, s')"
  then show "sort_left schema ks s' < sort_left schema ks s"
    by (auto simp: ExternalSort_Next_def sort_left_def BlockRows_def res_bind_eq_Inr res_map_eq_Inr Let_def split: if_splits)
qed


section \<open>Sorting with a strict weak order\<close>

fun ins_rev :: "('a \<Rightarrow> 'a \<Rightarrow> bool) \<Rightarrow> 'a \<Rightarrow> 'a list \<Rightarrow> 'a list" where
  "ins_rev L x [] = [x]"
| "ins_rev L x (y # ys) = (if L x y then y # ins_rev L x ys else x # y # ys)"

definition stable_sort :: "('a \<Rightarrow> 'a \<Rightarrow> bool) \<Rightarrow> 'a list \<Rightarrow> 'a list" where
  "stable_sort L xs = rev (foldl (\<lambda>acc x. ins_rev L x acc) [] xs)"

lemma mset_ins_rev: "mset (ins_rev L x ys) = add_mset x (mset ys)"
  by (induction ys) auto

lemma mset_foldl_ins: "mset (foldl (\<lambda>acc x. ins_rev L x acc) acc xs) = mset acc + mset xs"
  by (induction xs arbitrary: acc) (auto simp: mset_ins_rev)

lemma mset_stable_sort [simp]: "mset (stable_sort L xs) = mset xs"
  by (simp add: stable_sort_def mset_foldl_ins)

lemma set_stable_sort [simp]: "set (stable_sort L xs) = set xs"
  using mset_stable_sort [of L xs] mset_eq_setD by blast

lemma stable_insert_pure:
  "\<forall>y \<in> set ys. lss (f x) (f y) = Inr (L x y) \<Longrightarrow> stable_insert lss (f x) (map f ys) = Inr (map f (ins_rev L x ys))"
  by (induction ys) auto

lemma SliceStable_pure:
  assumes "\<forall>x \<in> set xs. \<forall>y \<in> set xs. lss (f x) (f y) = Inr (L x y)"
  shows "SliceStable lss (map f xs) = Inr (map f (stable_sort L xs))"
proof -
  have "fold_res (\<lambda>acc x. stable_insert lss x acc) (map f acc) (map f ys) = Inr (map f (foldl (\<lambda>acc x. ins_rev L x acc) acc ys))"
    if "set acc \<subseteq> set xs" "set ys \<subseteq> set xs" for acc ys
    using that
  proof (induction ys arbitrary: acc)
    case (Cons y ys)
    have "set (ins_rev L y acc) = insert y (set acc)" using mset_ins_rev [of L y acc] by (metis set_mset_add_mset_insert set_mset_mset)
    moreover have "stable_insert lss (f y) (map f acc) = Inr (map f (ins_rev L y acc))"
      using Cons.prems assms by (intro stable_insert_pure) auto
    ultimately show ?case using Cons by simp
  qed simp
  from this [of "[]" xs] show ?thesis by (simp add: SliceStable_def stable_sort_def rev_map)
qed

text \<open>The contract of a comparison: what a stable sort needs of it, and what it then promises.\<close>

locale weak_order =
  fixes L :: "'a \<Rightarrow> 'a \<Rightarrow> bool"
  assumes asym: "L x y \<Longrightarrow> \<not> L y x"
    and neg_trans: "\<not> L x y \<Longrightarrow> \<not> L y z \<Longrightarrow> \<not> L x z"
begin

lemma ins_rev_sorted: "sorted_wrt (\<lambda>a b. \<not> L a b) ys \<Longrightarrow> sorted_wrt (\<lambda>a b. \<not> L a b) (ins_rev L x ys)"
proof (induction ys)
  case (Cons y ys)
  have "set (ins_rev L x ys) = insert x (set ys)" using mset_ins_rev [of L x ys] by (metis set_mset_add_mset_insert set_mset_mset)
  then show ?case using Cons asym [of x y] neg_trans [of x y] by (cases "L x y") auto
qed simp

lemma ins_rev_stable:
  "filter (\<lambda>y. \<not> L r y \<and> \<not> L y r) (ins_rev L x ys) =
     (if \<not> L r x \<and> \<not> L x r then x # filter (\<lambda>y. \<not> L r y \<and> \<not> L y r) ys else filter (\<lambda>y. \<not> L r y \<and> \<not> L y r) ys)"
proof (induction ys)
  case (Cons y ys)
  have "\<not> (\<not> L r x \<and> \<not> L x r \<and> \<not> L r y \<and> \<not> L y r)" if "L x y" using neg_trans [of x r y] that by blast
  then show ?case using Cons by auto
qed simp

lemma stable_sort_sorted: "sorted_wrt (\<lambda>a b. \<not> L b a) (stable_sort L xs)"
proof -
  have "sorted_wrt (\<lambda>a b. \<not> L a b) (foldl (\<lambda>acc x. ins_rev L x acc) acc xs)" if "sorted_wrt (\<lambda>a b. \<not> L a b) acc" for acc
    using that by (induction xs arbitrary: acc) (auto simp: ins_rev_sorted)
  from this [of "[]"] show ?thesis by (simp add: stable_sort_def sorted_wrt_rev)
qed

lemma stable_sort_stable:
  "filter (\<lambda>y. \<not> L r y \<and> \<not> L y r) (stable_sort L xs) = filter (\<lambda>y. \<not> L r y \<and> \<not> L y r) xs"
proof -
  have "filter (\<lambda>y. \<not> L r y \<and> \<not> L y r) (foldl (\<lambda>acc x. ins_rev L x acc) acc xs) =
      rev (filter (\<lambda>y. \<not> L r y \<and> \<not> L y r) xs) @ filter (\<lambda>y. \<not> L r y \<and> \<not> L y r) acc" for acc
    by (induction xs arbitrary: acc) (simp_all add: ins_rev_stable)
  then show ?thesis by (simp add: stable_sort_def flip: rev_filter)
qed

end

section \<open>The order of rows\<close>

text \<open>
  The order ORDER BY means: NULL before every value in either direction, numbers and dates by value, floats numerically with NaN above
  every number and the two zeros equal, strings bytewise, FALSE before TRUE.
\<close>

fun val_rank :: "val \<Rightarrow> int \<times> string" where
  "val_rank (VInt x) = (sint x, [])"
| "val_rank (VDate d) = (sint d, [])"
| "val_rank (VBool t) = (if t then 1 else 0, [])"
| "val_rank (VFloat x) = (if is_nan x then 2 ^ 63 else f_key x, [])"
| "val_rank (VString s) = (0, s)"

definition rank_less :: "int \<times> string \<Rightarrow> int \<times> string \<Rightarrow> bool" where
  "rank_less p q \<longleftrightarrow> fst p < fst q \<or> fst p = fst q \<and> snd p < snd q"

definition cell_before :: "bool \<Rightarrow> val option \<Rightarrow> val option \<Rightarrow> bool" where
  "cell_before desc x y = (case (x, y) of
     (None, None) \<Rightarrow> False | (None, Some _) \<Rightarrow> True | (Some _, None) \<Rightarrow> False
   | (Some v, Some w) \<Rightarrow> if desc then rank_less (val_rank w) (val_rank v) else rank_less (val_rank v) (val_rank w))"

definition cell_tied :: "val option \<Rightarrow> val option \<Rightarrow> bool" where
  "cell_tied x y \<longleftrightarrow> map_option val_rank x = map_option val_rank y"

fun row_before :: "SortKey list \<Rightarrow> val option list \<Rightarrow> val option list \<Rightarrow> bool" where
  "row_before [] r s \<longleftrightarrow> False"
| "row_before (k # ks) r s \<longleftrightarrow> cell_before (Descending k) (r ! ColIdx k) (s ! ColIdx k) \<or>
     cell_tied (r ! ColIdx k) (s ! ColIdx k) \<and> row_before ks r s"

lemma rank_less_total: "rank_less p q \<or> p = q \<or> rank_less q p"
  by (cases p; cases q) (auto simp: rank_less_def)

lemma rank_less_asym: "rank_less p q \<Longrightarrow> \<not> rank_less q p" "\<not> rank_less p p"
  by (auto simp: rank_less_def)

lemma rank_less_trans: "rank_less p q \<Longrightarrow> rank_less q r \<Longrightarrow> rank_less p r"
  by (auto simp: rank_less_def)

lemma cell_total: "cell_before d x y \<or> cell_tied x y \<or> cell_before d y x"
proof (cases "x = None \<or> y = None")
  case True
  then show ?thesis by (auto simp: cell_before_def cell_tied_def split: option.splits)
next
  case False
  then obtain v w where "x = Some v" "y = Some w" by auto
  then show ?thesis using rank_less_total [of "val_rank v" "val_rank w"] by (auto simp: cell_before_def cell_tied_def)
qed

lemma cell_before_asym: "cell_before d x y \<Longrightarrow> \<not> cell_before d y x"
  by (cases x; cases y) (auto simp: cell_before_def rank_less_asym split: if_splits)

lemma cell_before_not_tied: "cell_before d x y \<Longrightarrow> \<not> cell_tied x y"
  by (cases x; cases y) (auto simp: cell_before_def cell_tied_def rank_less_asym split: if_splits)

lemma cell_tied_sym: "cell_tied x y \<Longrightarrow> cell_tied y x"
  by (simp add: cell_tied_def)

lemma cell_before_trans: "cell_before d x y \<Longrightarrow> cell_before d y z \<Longrightarrow> cell_before d x z"
  by (cases x; cases y; cases z) (auto simp: cell_before_def split: if_splits dest: rank_less_trans)

lemma cell_tied_before:
  assumes "cell_tied x y"
  shows "cell_before d y z = cell_before d x z" "cell_before d z y = cell_before d z x"
  using assms by (cases x; cases y; cases z; auto simp: cell_before_def cell_tied_def)+

lemma row_before_asym: "row_before ks r s \<Longrightarrow> \<not> row_before ks s r"
  by (induction ks) (auto dest: cell_before_asym cell_before_not_tied cell_tied_sym)

lemma row_before_neg_trans: "\<not> row_before ks r s \<Longrightarrow> \<not> row_before ks s t \<Longrightarrow> \<not> row_before ks r t"
proof (induction ks)
  case (Cons k ks)
  let ?x = "r ! ColIdx k" and ?y = "s ! ColIdx k" and ?z = "t ! ColIdx k" and ?d = "Descending k"
  have xy: "\<not> cell_before ?d ?x ?y" "cell_tied ?x ?y \<Longrightarrow> \<not> row_before ks r s"
    and yz: "\<not> cell_before ?d ?y ?z" "cell_tied ?y ?z \<Longrightarrow> \<not> row_before ks s t" using Cons.prems by auto
  consider "cell_tied ?x ?y" "cell_tied ?y ?z" | "cell_tied ?x ?y" "cell_before ?d ?z ?y"
    | "cell_before ?d ?y ?x" "cell_tied ?y ?z" | "cell_before ?d ?y ?x" "cell_before ?d ?z ?y"
    using cell_total [of ?d ?x ?y] cell_total [of ?d ?y ?z] xy(1) yz(1) by blast
  then show ?case
  proof cases
    case 1
    then have "\<not> row_before ks r t" "\<not> cell_before ?d ?x ?z" using Cons.IH xy yz cell_tied_before(1) by blast+
    then show ?thesis by simp
  next
    case 2
    then have "cell_before ?d ?z ?x" using cell_tied_before(2) by blast
    then show ?thesis using cell_before_asym cell_before_not_tied cell_tied_sym by fastforce
  next
    case 3
    then have "cell_before ?d ?z ?x" using cell_tied_before(1) cell_tied_sym by blast
    then show ?thesis using cell_before_asym cell_before_not_tied cell_tied_sym by fastforce
  next
    case 4
    then have "cell_before ?d ?z ?x" using cell_before_trans by blast
    then show ?thesis using cell_before_asym cell_before_not_tied cell_tied_sym by fastforce
  qed
qed simp

interpretation row_order: weak_order "row_before ks" for ks
  by unfold_locales (fact row_before_asym row_before_neg_trans)+


section \<open>The code's comparison is that order\<close>

definition cells_of :: "val option list \<Rightarrow> sortRow" where
  "cells_of r = \<lparr>svalues = map cell_raw r, snulls = map (\<lambda>x. x = None) r, strValues = map cell_str r\<rparr>"

lemma f_key_less: "f_key x < 2 ^ 63"
  using f_abs_bits_less [of x] by (auto simp: f_key_def)

lemma sort_less_row:
  assumes "row_typed schema r" "row_typed schema s" "\<forall>k \<in> set ks. ColIdx k < length schema"
  shows "sort_less schema ks (cells_of r) (cells_of s) = Inr (row_before ks r s)"
  using assms(3)
proof (induction ks)
  case (Cons k ks)
  let ?c = "ColIdx k"
  have c: "?c < length schema" "?c < length r" "?c < length s" using Cons.prems assms(1,2) by (simp_all add: row_typed_def)
  have IH: "sort_less schema ks (cells_of r) (cells_of s) = Inr (row_before ks r s)" using Cons by simp
  have cells: "idx (snulls (cells_of r)) ?c = (Inr (r ! ?c = None) :: bool xres)" "idx (snulls (cells_of s)) ?c = (Inr (s ! ?c = None) :: bool xres)"
    "idx (svalues (cells_of r)) ?c = (Inr (cell_raw (r ! ?c)) :: i64 xres)" "idx (svalues (cells_of s)) ?c = (Inr (cell_raw (s ! ?c)) :: i64 xres)"
    "idx (strValues (cells_of r)) ?c = (Inr (cell_str (r ! ?c)) :: string xres)" "idx (strValues (cells_of s)) ?c = (Inr (cell_str (s ! ?c)) :: string xres)"
    "idx schema ?c = (Inr (schema ! ?c) :: Field xres)" using c by (simp_all add: cells_of_def)
  show ?case
  proof (cases "r ! ?c = None \<or> s ! ?c = None")
    case True
    then show ?thesis using IH by (auto simp: cells Let_def cell_before_def cell_tied_def split: option.splits)
  next
    case False
    then obtain v w where vw: "r ! ?c = Some v" "s ! ?c = Some w" by auto
    then have t: "val_type v = Type (schema ! ?c)" "val_type w = Type (schema ! ?c)"
      using assms(1,2) c(1) by (auto simp: row_typed_def)
    show ?thesis
    proof (cases "Type (schema ! ?c)")
      case TypeInt64
      then obtain x y where "v = VInt x" "w = VInt y" using t by (cases v; cases w) auto
      then show ?thesis using IH TypeInt64 vw
        by (auto simp: cells Let_def cell_before_def cell_tied_def cell_raw_def rank_less_def signed_word_eqI)
    next
      case TypeFloat64
      then obtain x y where "v = VFloat x" "w = VFloat y" using t by (cases v; cases w) auto
      then show ?thesis using IH TypeFloat64 vw f_key_less [of x] f_key_less [of y]
        by (auto simp: cells Let_def cell_before_def cell_tied_def cell_raw_def rank_less_def f_eq_def f_lt_def)
    next
      case TypeBool
      then obtain x y where "v = VBool x" "w = VBool y" using t by (cases v; cases w) auto
      then show ?thesis using IH TypeBool vw
        by (auto simp: cells Let_def cell_before_def cell_tied_def cell_raw_def rank_less_def)
    next
      case TypeString
      then obtain x y where "v = VString x" "w = VString y" using t by (cases v; cases w) auto
      then show ?thesis using IH TypeString vw
        by (auto simp: cells Let_def cell_before_def cell_tied_def cell_str_def rank_less_def)
    next
      case TypeDate
      then obtain x y where xy: "v = VDate x" "w = VDate y" using t by (cases v; cases w) auto
      have "sint x = sint y \<longleftrightarrow> x = y" by (metis signed_word_eqI)
      then show ?thesis using IH TypeDate vw xy sint_date [of x] sint_date [of y]
        by (auto simp: cells Let_def cell_before_def cell_tied_def cell_raw_def rank_less_def signed_word_eqI)
    qed
  qed
qed simp

section \<open>Materialising and emitting rows\<close>

lemma cells_of_sel [simp]: "snulls (cells_of r) = map (\<lambda>x. x = None) r" "svalues (cells_of r) = map cell_raw r"
  "strValues (cells_of r) = map cell_str r"
  by (simp_all add: cells_of_def)

definition cells_upto :: "val option list \<Rightarrow> nat \<Rightarrow> sortRow \<Rightarrow> bool" where
  "cells_upto r j row \<longleftrightarrow> length (snulls row) = length r \<and> length (svalues row) = length r \<and> length (strValues row) = length r \<and>
     (\<forall>c < length r. snulls row ! c = (c < j \<and> r ! c = None) \<and> svalues row ! c = (if c < j then cell_raw (r ! c) else 0) \<and>
       strValues row ! c = (if c < j then cell_str (r ! c) else []))"

lemma sort_cell_ok:
  assumes "wf_vector n v" "i < n" "c < length (Vectors b)" "Vectors b ! c = v" "c < length r" "vget v i = r ! c" "cells_upto r c row"
  shows "\<exists>row'. sort_cell b i row c = Inr row' \<and> cells_upto r (Suc c) row'"
proof -
  have len: "c < length (snulls row)" "c < length (svalues row)" "c < length (strValues row)" using assms(5,7) by (simp_all add: cells_upto_def)
  have null: "IsNull v i = Inr (r ! c = None)" using IsNull_ok [OF assms(1,2)] vget_None_iff [of v i] assms(6) by simp
  let ?row = "\<lparr>svalues = (svalues row)[c := cell_raw (r ! c)], snulls = (snulls row)[c := (r ! c = None)], strValues = (strValues row)[c := cell_str (r ! c)]\<rparr>"
  have up: "cells_upto r (Suc c) ?row" using assms(7) len by (auto simp: cells_upto_def nth_list_update less_Suc_eq)
  have same: "(svalues row)[c := 0] = svalues row" "(strValues row)[c := []] = strValues row"
    using assms(5,7) by (auto simp: cells_upto_def intro: list_update_same_conv [THEN iffD2])
  have "sort_cell b i row c = Inr ?row"
  proof (cases "r ! c")
    case None
    then show ?thesis using null assms(3,4) len same by (simp add: sort_cell_def cell_raw_def cell_str_def)
  next
    case (Some x)
    have valid: "valid_at (Nulls v) i" using vget_None_iff [of v i] assms(6) Some by simp
    show ?thesis
    proof (cases v)
      case (StringVector cs d nb)
      have d: "d \<noteq> None" using assms(1,2) valid StringVector by (auto split: option.splits)
      have get: "StringVector_Get cs d i = Inr (cell_str (r ! c))"
        using StringVector_Get_ok [of n cs d nb i] assms(1,2,6) valid StringVector by (auto simp: cell_str_def split: option.splits)
      show ?thesis using null Some StringVector assms(3,4,6) len same d get valid by (auto simp: sort_cell_def cell_raw_def)
    next
      case (BoolVector bits nb m)
      then have "i div 8 < length bits" using assms(1,2) div8_less_bitmap_bytes by simp
      then show ?thesis using null Some BoolVector assms(3,4,6) len same valid by (auto simp: sort_cell_def cell_raw_def cell_str_def)
    qed (use null Some assms len same valid in \<open>auto simp: sort_cell_def cell_raw_def cell_str_def\<close>)
  qed
  then show ?thesis using up by blast
qed

lemma sort_row_ok:
  assumes "wf_batch G b" "i < evalLen b" "length schema = length G"
  shows "sort_row (length schema) b i = Inr (cells_of (row_at b i))"
proof -
  let ?r = "row_at b i" and ?nc = "length schema"
  have len: "length (Vectors b) = ?nc" "length ?r = ?nc" using assms(1,3) by (simp_all add: wf_batch_def row_at_def)
  have "\<exists>row. sort_row ?nc b i = Inr row \<and> cells_upto ?r ?nc row"
    unfolding sort_row_def
  proof (rule fold_res_upto [where P = "cells_upto ?r"], goal_cases)
    case 1
    then show ?case using len by (simp add: cells_upto_def)
  next
    case (2 c row)
    then have "wf_vector (evalLen b) (Vectors b ! c)" using assms(1,3) by (simp add: wf_batch_def)
    then show ?case using 2 len assms(2) by (intro sort_cell_ok) (auto simp: row_at_def)
  qed
  then obtain row where row: "sort_row ?nc b i = Inr row" "cells_upto ?r ?nc row" by blast
  have "row = cells_of ?r"
    using row(2) len by (intro sortRow.equality) (auto simp: cells_upto_def cells_of_def intro!: nth_equalityI)
  then show ?thesis using row(1) by simp
qed

lemma map_res_map: "\<forall>x \<in> set xs. f x = Inr (g x) \<Longrightarrow> map_res f xs = Inr (map g xs)"
  by (induction xs) auto

lemma consume_ok:
  assumes "ends_ok s" "\<forall>b \<in> set (batches s). wf_rows (map Type schema) b"
  shows "consume (length schema) s acc = Inr (acc @ map cells_of (all_rows s))"
  using assms
proof (induction s arbitrary: acc)
  case (Deliver b rest)
  then have wf: "wf_batch (map Type schema) b" "\<forall>i \<in> set (sel_rows b). i < evalLen b" by (simp_all add: wf_rows_def)
  have "map_res (sort_row (length schema) b) (sel_rows b) = Inr (map (\<lambda>i. cells_of (row_at b i)) (sel_rows b))"
    using wf by (intro map_res_map) (simp add: sort_row_ok)
  then show ?case using Deliver by (simp add: batch_rows_def comp_def)
qed simp_all

lemma sort_column_ok:
  assumes rs: "\<forall>r \<in> set vs. row_typed schema r" and c: "c < length schema" "t = Type (schema ! c)"
    and size: "sum_list (map row_bytes vs) + length vs < 2 ^ 32"
  shows "\<exists>v. sort_column (map cells_of vs) c t = Inr v \<and> wf_vector (length vs) v \<and> VType v = t \<and> (\<forall>i < length vs. vget v i = vs ! i ! c)"
proof -
  let ?n = "length vs"
  let ?null = "\<lambda>i. res_bind (idx (map cells_of vs) i) (\<lambda>r. idx (snulls r) c)"
  let ?raw = "\<lambda>i. res_bind (idx (map cells_of vs) i) (\<lambda>r. idx (svalues r) c)"
  have len: "c < length (vs ! i)" if "i < ?n" for i using rs c that by (auto simp: row_typed_def)
  have ty: "\<forall>i < ?n. \<forall>x. vs ! i ! c = Some x \<longrightarrow> val_type x = t"
  proof (intro allI impI)
    fix i x assume i: "i < ?n" and x: "vs ! i ! c = Some x"
    have "row_typed schema (vs ! i)" using rs i by simp
    then show "val_type x = t" using c x by (simp add: row_typed_def)
  qed
  have null: "\<forall>i < ?n. ?null i = Inr (vs ! i ! c = None)" using len by simp
  have raw: "\<forall>i < ?n. vs ! i ! c \<noteq> None \<longrightarrow> ?raw i = Inr (cell_raw (vs ! i ! c))" using len by simp
  note cells = fill_cells [OF null ty raw]
  show ?thesis
  proof (cases t)
    case TypeString
    have str: "\<forall>i < ?n. vs ! i ! c \<noteq> None \<longrightarrow> res_bind (idx (map cells_of vs) i) (\<lambda>r. idx (strValues r) c) = Inr (cell_str (vs ! i ! c))"
      using len by simp
    have "\<forall>r \<in> set vs. c < length r" using rs c by (simp add: row_typed_def)
    then have sum: "(\<Sum>i < ?n. if vs ! i ! c = None then 0 else Suc (length (cell_str (vs ! i ! c)))) < 2 ^ 32"
      using column_bytes [of vs c] size by linarith
    have "\<exists>v. fill_strings ?null (\<lambda>i. res_bind (idx (map cells_of vs) i) (\<lambda>r. idx (strValues r) c)) ?n = Inr v \<and>
        wf_vector ?n v \<and> VType v = TypeString \<and> (\<forall>i < ?n. vget v i = vs ! i ! c)"
      by (rule fill_string_cells [OF null ty [unfolded TypeString] str sum])
    then show ?thesis using TypeString by (simp add: sort_column_def)
  qed (use cells in \<open>auto simp: sort_column_def Let_def simp del: vget.simps wf_vector.simps\<close>)
qed

lemma emitBatch_ok:
  assumes "\<forall>r \<in> set vs. row_typed schema r" "schema \<noteq> []" "length vs \<le> 2 ^ 16" "sum_list (map row_bytes vs) + length vs < 2 ^ 32"
  shows "\<exists>b. emitBatch schema (map cells_of vs) = Inr b \<and> wf_rows (map Type schema) b \<and> batch_rows b = vs"
proof -
  let ?n = "length vs"
  let ?P = "\<lambda>c v. wf_vector ?n v \<and> VType v = Type (schema ! c) \<and> (\<forall>i < ?n. vget v i = vs ! i ! c)"
  have "\<forall>c \<in> set [0..<length schema]. \<exists>v. sort_column (map cells_of vs) c (Type (schema ! c)) = Inr v \<and> ?P c v"
  proof
    fix c assume "c \<in> set [0..<length schema]"
    then show "\<exists>v. sort_column (map cells_of vs) c (Type (schema ! c)) = Inr v \<and> ?P c v"
      by (intro sort_column_ok [OF assms(1) _ refl assms(4)]) simp
  qed
  then obtain vecs where vecs: "map_res (\<lambda>c. sort_column (map cells_of vs) c (Type (schema ! c))) [0..<length schema] = Inr vecs"
    "list_all2 ?P [0..<length schema] vecs"
    using map_res_exists [of "[0..<length schema]" "\<lambda>c. sort_column (map cells_of vs) c (Type (schema ! c))" ?P] by blast
  have len: "length vecs = length schema" using vecs(2) by (auto dest: list_all2_lengthD)
  have each: "?P c (vecs ! c)" if "c < length schema" for c using list_all2_nthD [OF vecs(2), of c] that by simp
  let ?b = "\<lparr>BSchema = schema, Vectors = vecs, BLength = ?n, SelVec = None\<rparr>"
  have "emitBatch schema (map cells_of vs) = Inr ?b" using vecs(1) by (simp add: emitBatch_def)
  moreover have "\<forall>c < length schema. VType (vecs ! c) = Type (schema ! c) \<and> wf_vector ?n (vecs ! c)" using each by blast
  then have "wf_rows (map Type schema) ?b"
    using assms(2,3) len by (simp add: wf_rows_def wf_batch_def evalLen_def sel_rows_def [of ?b])
  moreover have "row_at ?b i = vs ! i" if "i < ?n" for i
  proof -
    have "length (vs ! i) = length schema" using assms(1) that by (simp add: row_typed_def)
    then show ?thesis using each len that by (intro nth_equalityI) (simp_all add: row_at_def)
  qed
  then have "batch_rows ?b = map ((!) vs) [0..<?n]" by (simp add: batch_rows_def sel_rows_def [of ?b])
  then have "batch_rows ?b = vs" by (simp add: map_nth)
  ultimately show ?thesis by blast
qed

lemma sum_list_window: "sum_list (map f (take m (drop p xs))) \<le> (sum_list (map f xs) :: nat)"
proof -
  have split: "sum_list (map f ys) = sum_list (map f (take k ys)) + sum_list (map f (drop k ys))" for k ys
    by (metis append_take_drop_id map_append sum_list_append)
  show ?thesis using split [of xs p] split [of "drop p xs" m] by linarith
qed

lemma sort_emit_drain:
  assumes rs: "\<forall>r \<in> set vs. row_typed schema r" "schema \<noteq> []" "sum_list (map row_bytes vs) + length vs < 2 ^ 32"
  shows "\<exists>out. drain (ExternalSort_Next schema ks) \<lparr>schild = EOF, srows = map cells_of vs, sdone = True, emitPos = p\<rparr> = Some out \<and>
    ends_ok out \<and> (\<forall>b \<in> set (batches out). wf_rows (map Type schema) b) \<and> all_rows out = drop p vs"
proof (induction "length vs - p" arbitrary: p rule: less_induct)
  case less
  let ?s = "\<lparr>schild = EOF, srows = map cells_of vs, sdone = True, emitPos = p\<rparr>"
  show ?case
  proof (cases "length vs \<le> p")
    case True
    then have "ExternalSort_Next schema ks ?s = Inr (None, ?s)" by (simp add: ExternalSort_Next_def)
    then show ?thesis using True by (simp add: drain_steps(2))
  next
    case False
    let ?stop = "min (p + BlockRows) (length vs)"
    let ?chunk = "take (?stop - p) (drop p vs)"
    have sub: "set ?chunk \<subseteq> set vs" by (meson in_set_dropD in_set_takeD subsetI)
    have "sum_list (map row_bytes ?chunk) + length ?chunk \<le> sum_list (map row_bytes vs) + length vs"
      using sum_list_window [of row_bytes "?stop - p" p vs] by simp
    then have size: "sum_list (map row_bytes ?chunk) + length ?chunk < 2 ^ 32" using rs(3) by linarith
    have "length ?chunk \<le> 2 ^ 16" by (simp add: BlockRows_def)
    then obtain b where b: "emitBatch schema (map cells_of ?chunk) = Inr b" "wf_rows (map Type schema) b" "batch_rows b = ?chunk"
      using emitBatch_ok [of ?chunk schema] rs(1,2) sub size by blast
    have "ExternalSort_Next schema ks ?s = Inr (Some b, ?s\<lparr>emitPos := ?stop\<rparr>)"
      using False b(1) by (simp add: ExternalSort_Next_def Let_def take_map drop_map)
    then have step: "drain (ExternalSort_Next schema ks) ?s = map_option (Deliver b) (drain (ExternalSort_Next schema ks) (?s\<lparr>emitPos := ?stop\<rparr>))"
      by (rule drain_steps(3))
    have "length vs - ?stop < length vs - p" using False by (simp add: BlockRows_def)
    then obtain out where "drain (ExternalSort_Next schema ks) (?s\<lparr>emitPos := ?stop\<rparr>) = Some out" "ends_ok out"
      "\<forall>b \<in> set (batches out). wf_rows (map Type schema) b" "all_rows out = drop ?stop vs" using less by auto
    moreover have "?chunk @ drop ?stop vs = drop p vs" using False by (simp add: min_def) (metis append_take_drop_id drop_drop add.commute)
    ultimately show ?thesis using step b by (intro exI [of _ "Deliver b out"]) simp
  qed
qed

lemma Sort_drain:
  assumes "NewExternalSort s ks = Inr st" "ends_ok s" "\<forall>b \<in> set (batches s). wf_rows (map Type schema) b"
    "\<forall>r \<in> set (all_rows s). row_typed schema r" "\<forall>k \<in> set ks. ColIdx k < length schema" "sum_list (map row_bytes (all_rows s)) + length (all_rows s) < 2 ^ 32"
  shows "\<exists>out. drain (ExternalSort_Next schema ks) st = Some out \<and> ends_ok out \<and> (\<forall>b \<in> set (batches out). wf_rows (map Type schema) b) \<and>
    all_rows out = stable_sort (row_before ks) (all_rows s)"
proof -
  let ?vs = "stable_sort (row_before ks) (all_rows s)"
  have ks: "ks \<noteq> []" and st: "st = \<lparr>schild = s, srows = [], sdone = False, emitPos = 0\<rparr>"
    using assms(1) by (auto simp: NewExternalSort_def split: if_splits)
  have ne: "schema \<noteq> []" using ks assms(5) by (cases ks) auto
  have "SliceStable (sort_less schema ks) (map cells_of (all_rows s)) = Inr (map cells_of ?vs)"
    using assms(4,5) by (intro SliceStable_pure) (auto simp: sort_less_row)
  then have sort: "consumeAndSort schema ks s = Inr (map cells_of ?vs)"
    using consume_ok [OF assms(2,3), of "[]"] by (simp add: consumeAndSort_def)
  have "ExternalSort_Next schema ks st = ExternalSort_Next schema ks \<lparr>schild = EOF, srows = map cells_of ?vs, sdone = True, emitPos = 0\<rparr>"
    using sort by (simp add: ExternalSort_Next_def st)
  then have same: "drain (ExternalSort_Next schema ks) st = drain (ExternalSort_Next schema ks) \<lparr>schild = EOF, srows = map cells_of ?vs, sdone = True, emitPos = 0\<rparr>"
    by (rule drain_same)
  have "sum_list (map row_bytes ?vs) + length ?vs = sum_list (map row_bytes (all_rows s)) + length (all_rows s)"
    by (metis mset_map mset_stable_sort size_mset sum_mset_sum_list)
  then show ?thesis unfolding same using sort_emit_drain [of ?vs schema ks 0] assms(4,6) ne by simp
qed


section \<open>ORDER BY\<close>

text \<open>
  C8: ORDER BY. Over any batches of rows of the schema's types, with sort columns in range, the sort operator reaches the end without an
  error and delivers a permutation of its input in which no row comes before one that the sort keys order ahead of it
  (NULLs first in either direction, floats numerically with NaN above every number, strings bytewise), and rows
  tied on all keys keep their input order. The strings of the input have to fit one dictionary.
\<close>

theorem ExternalSort_sorts:
  assumes "NewExternalSort (stream_of bs) ks = Inr st" "\<forall>b \<in> set bs. wf_rows (map Type schema) b"
    "\<forall>r \<in> set (concat (map batch_rows bs)). row_typed schema r" "\<forall>k \<in> set ks. ColIdx k < length schema"
    "sum_list (map row_bytes (concat (map batch_rows bs))) + length (concat (map batch_rows bs)) < 2 ^ 32"
  shows "\<exists>out. drain (ExternalSort_Next schema ks) st = Some out \<and> ends_ok out \<and>
    mset (all_rows out) = mset (concat (map batch_rows bs)) \<and> sorted_wrt (\<lambda>r s. \<not> row_before ks s r) (all_rows out) \<and>
    (\<forall>r. filter (\<lambda>s. \<not> row_before ks r s \<and> \<not> row_before ks s r) (all_rows out) =
      filter (\<lambda>s. \<not> row_before ks r s \<and> \<not> row_before ks s r) (concat (map batch_rows bs)))"
proof -
  have "all_rows (stream_of bs) = concat (map batch_rows bs)" by (simp add: all_rows_def)
  then obtain out where "drain (ExternalSort_Next schema ks) st = Some out" "ends_ok out"
    "all_rows out = stable_sort (row_before ks) (concat (map batch_rows bs))"
    using Sort_drain [OF assms(1), of schema] assms(2-5) by auto
  then show ?thesis using row_order.stable_sort_sorted row_order.stable_sort_stable
    by (intro exI [of _ out]) simp
qed

theorem ExternalSort_sorts_witness:
  "\<exists>st out. NewExternalSort (stream_of [ex_ints]) [\<lparr>ColIdx = 0, Descending = True\<rparr>] = Inr st \<and>
    drain (ExternalSort_Next [\<lparr>Name = ''k'', Type = TypeInt64, FEncoding = EncPlain, Nullable = True\<rparr>] [\<lparr>ColIdx = 0, Descending = True\<rparr>]) st = Some out \<and>
    mset (all_rows out) = {#[Some (VInt 5)], [Some (VInt 7)], [Some (VInt 5)]#} \<and>
    sorted_wrt (\<lambda>r s. \<not> row_before [\<lparr>ColIdx = 0, Descending = True\<rparr>] s r) (all_rows out)"
proof -
  let ?ks = "[\<lparr>ColIdx = 0, Descending = True\<rparr>]"
  let ?schema = "[\<lparr>Name = ''k'', Type = TypeInt64, FEncoding = EncPlain, Nullable = True\<rparr>]"
  obtain st where st: "NewExternalSort (stream_of [ex_ints]) ?ks = Inr st" by (simp add: NewExternalSort_def)
  have "\<forall>r \<in> set (concat (map batch_rows [ex_ints])). row_typed ?schema r" by (simp add: ex_ints_rows row_typed_def)
  moreover have "sum_list (map row_bytes (concat (map batch_rows [ex_ints]))) + length (concat (map batch_rows [ex_ints])) < 2 ^ 32"
    by (simp add: ex_ints_rows row_bytes_def)
  ultimately obtain out where "drain (ExternalSort_Next ?schema ?ks) st = Some out" "mset (all_rows out) = mset (concat (map batch_rows [ex_ints]))"
    "sorted_wrt (\<lambda>r s. \<not> row_before ?ks s r) (all_rows out)"
    using ExternalSort_sorts [OF st, of ?schema] ex_ints_wf by auto
  then show ?thesis using st by (intro exI [of _ st] exI [of _ out]) (simp add: ex_ints_rows)
qed

end
