(* ===== verification/JoinExec.thy ===== *)
theory JoinExec
  imports HashJoin Sort
begin

text \<open>
  The probe phase of the hash join (\<^verbatim>\<open>exec/join.go\<close>): probe batches are matched row by row into a buffer of
  (build row, probe row) pairs, and the buffer is emitted in blocks of \<^verbatim>\<open>BlockRows\<close>. The join's table is either its own or a
  shared radix-partitioned one; the theorems hold for both. \<open>pull\<close> is \<open>drain\<close> for an operator whose step
  may itself fail to return, as the walk along the probe path could.
\<close>

partial_function (option) pull :: "('s \<Rightarrow> (Batch option \<times> 's) xres option) \<Rightarrow> 's \<Rightarrow> stream option" where
  "pull step s = Option.bind (step s) (\<lambda>m. case m of
     Inl e \<Rightarrow> Some (Failed e)
   | Inr r \<Rightarrow> (case fst r of
       None \<Rightarrow> Some EOF
     | Some b \<Rightarrow> Option.bind (pull step (snd r)) (\<lambda>out. Some (Deliver b out))))"

declare pull.simps [code]

lemma pull_steps:
  "step s = Some (Inl e) \<Longrightarrow> pull step s = Some (Failed e)"
  "step s = Some (Inr (None, s')) \<Longrightarrow> pull step s = Some EOF"
  "step s = Some (Inr (Some b, s')) \<Longrightarrow> pull step s = map_option (Deliver b) (pull step s')"
  by (subst pull.simps; simp add: map_option_case split: option.splits)+

lemma pull_same: "step s = step s' \<Longrightarrow> pull step s = pull step s'"
  by (subst (1 2) pull.simps) simp


section \<open>State\<close>

type_synonym joinRow = "i32 \<times> i32"

record HashJoin =
  jparts :: "joinHashTable list"
  jpartMask :: u64
  jstore :: rowStore
  buildSchema :: Schema
  probeSchema :: Schema
  probeKey :: nat

record probe_state =
  jprobe :: stream
  probeBatch :: "Batch option"
  probePos :: nat
  matchBuf :: "joinRow list"
  matchPos :: nat

definition NewHashJoin :: "Schema \<Rightarrow> Schema \<Rightarrow> int \<Rightarrow> int \<Rightarrow> Schema xres" where
  "NewHashJoin bSchema pSchema buildKeyIdx probeKeyIdx = (
     if buildKeyIdx < 0 \<or> int (length bSchema) \<le> buildKeyIdx then Inl (Err ErrJoinKey)
     else if probeKeyIdx < 0 \<or> int (length pSchema) \<le> probeKeyIdx then Inl (Err ErrJoinKey)
     else Inr (bSchema @ pSchema))"

definition start_probe :: "stream \<Rightarrow> probe_state" where
  "start_probe child = \<lparr>jprobe = child, probeBatch = None, probePos = 0, matchBuf = [], matchPos = 0\<rparr>"


section \<open>Emission\<close>

definition buildColumnFromRows :: "rowStore \<Rightarrow> joinRow list \<Rightarrow> nat \<Rightarrow> DataType \<Rightarrow> vector xres" where
  "buildColumnFromRows s rs c t = (let n = length rs;
       null = (\<lambda>i. res_bind (idx rs i) (\<lambda>r. isNull s (fst r) c)); raw = (\<lambda>i. res_bind (idx rs i) (\<lambda>r. value_at s (fst r) c)) in case t of
     TypeInt64 \<Rightarrow> res_map (\<lambda>(vs, nb). Int64Vector vs nb) (fill_fixed null raw 0 n)
   | TypeFloat64 \<Rightarrow> res_map (\<lambda>(vs, nb). Float64Vector vs nb) (fill_fixed null raw 0 n)
   | TypeDate \<Rightarrow> res_map (\<lambda>(vs, nb). DateVector vs nb) (fill_fixed null (\<lambda>i. res_map (\<lambda>x. ucast x) (raw i)) 0 n)
   | TypeString \<Rightarrow> fill_strings null (\<lambda>i. res_bind (idx rs i) (\<lambda>r. str_at s (fst r) c)) n
   | TypeBool \<Rightarrow> res_map (\<lambda>(vs, nb). Int64Vector vs nb) (fill_fixed null raw 0 n))"

definition probeColumnFromRows :: "Batch \<Rightarrow> joinRow list \<Rightarrow> nat \<Rightarrow> DataType \<Rightarrow> vector xres" where
  "probeColumnFromRows pBatch rs c t = res_bind (idx (Vectors pBatch) c) (\<lambda>src0. let n = length rs;
       pRow = (\<lambda>i. res_map (\<lambda>r. nat (sint (snd r))) (idx rs i)); null = (\<lambda>i. res_bind (pRow i) (IsNull src0)) in case t of
     TypeInt64 \<Rightarrow> (case src0 of Int64Vector xs _ \<Rightarrow> res_map (\<lambda>(vs, nb). Int64Vector vs nb) (fill_fixed null (\<lambda>i. res_bind (pRow i) (idx xs)) 0 n) | _ \<Rightarrow> Inl Panic)
   | TypeFloat64 \<Rightarrow> (case src0 of Float64Vector xs _ \<Rightarrow> res_map (\<lambda>(vs, nb). Float64Vector vs nb) (fill_fixed null (\<lambda>i. res_bind (pRow i) (idx xs)) 0 n) | _ \<Rightarrow> Inl Panic)
   | TypeDate \<Rightarrow> (case src0 of DateVector xs _ \<Rightarrow> res_map (\<lambda>(vs, nb). DateVector vs nb) (fill_fixed null (\<lambda>i. res_bind (pRow i) (idx xs)) 0 n) | _ \<Rightarrow> Inl Panic)
   | TypeString \<Rightarrow> (case src0 of StringVector cs d _ \<Rightarrow> res_map (\<lambda>(vs, nb). StringVector vs d nb) (fill_fixed null (\<lambda>i. res_bind (pRow i) (idx cs)) 0 n) | _ \<Rightarrow> Inl Panic)
   | TypeBool \<Rightarrow> res_map (\<lambda>(vs, nb). Int64Vector vs nb) (fill_fixed null (\<lambda>i. res_bind (pRow i) (extractInt64 src0)) 0 n))"

definition emitMatches :: "HashJoin \<Rightarrow> probe_state \<Rightarrow> (Batch option \<times> probe_state) xres" where
  "emitMatches j st = (let stop = min (matchPos st + BlockRows) (length (matchBuf st)) in
     if stop \<le> matchPos st then Inr (None, st) else
     (let rs = take (stop - matchPos st) (drop (matchPos st) (matchBuf st)) in
      case probeBatch st of None \<Rightarrow> Inl Panic | Some pBatch \<Rightarrow>
      res_bind (map_res (\<lambda>c. buildColumnFromRows (jstore j) rs c (Type (buildSchema j ! c))) [0..<length (buildSchema j)]) (\<lambda>bvs.
      res_map (\<lambda>pvs. (Some \<lparr>BSchema = buildSchema j @ probeSchema j, Vectors = bvs @ pvs, BLength = length rs, SelVec = None\<rparr>,
          st\<lparr>matchPos := stop\<rparr>))
        (map_res (\<lambda>c. probeColumnFromRows pBatch rs c (Type (probeSchema j ! c))) [0..<length (probeSchema j)]))))"


section \<open>Probing\<close>

definition probe_visit :: "HashJoin \<Rightarrow> i64 \<Rightarrow> Batch \<Rightarrow> nat \<Rightarrow> joinRow list \<Rightarrow> joinRow list xres option" where
  "probe_visit j key pb i buf = obind (probe_key (jpartMask j) (jparts j) (rnext (jstore j)) key)
     (\<lambda>ris. Some (Inr (buf @ map (\<lambda>ri. (ri, word_of_nat i)) ris)))"

definition probe_batch :: "HashJoin \<Rightarrow> Batch \<Rightarrow> probe_state \<Rightarrow> probe_state xres option" where
  "probe_batch j pb st = (case idx (Vectors pb) (probeKey j) of Inl e \<Rightarrow> Some (Inl e)
   | Inr pv \<Rightarrow> obind (visit_rows (probe_visit j) pv pb (sel_rows pb) [])
       (\<lambda>buf. Some (Inr (st\<lparr>matchBuf := buf, matchPos := 0, probePos := BLength pb\<rparr>))))"

text \<open>The probe batch to work on: the current one, or the next of the child when it is used up.\<close>

definition fetch_probe :: "probe_state \<Rightarrow> (Batch option \<times> probe_state) xres" where
  "fetch_probe st = (case probeBatch st of
     Some pb \<Rightarrow> if probePos st < BLength pb then Inr (Some pb, st) else
       res_map (\<lambda>(b, rest). (b, if b = None then st\<lparr>jprobe := rest\<rparr> else st\<lparr>jprobe := rest, probeBatch := b, probePos := 0\<rparr>)) (stream_Next (jprobe st))
   | None \<Rightarrow> res_map (\<lambda>(b, rest). (b, if b = None then st\<lparr>jprobe := rest\<rparr> else st\<lparr>jprobe := rest, probeBatch := b, probePos := 0\<rparr>)) (stream_Next (jprobe st)))"

partial_function (option) HashJoin_loop :: "HashJoin \<Rightarrow> probe_state \<Rightarrow> (Batch option \<times> probe_state) xres option" where
  "HashJoin_loop j st = (case (if matchPos st < length (matchBuf st) then emitMatches j st else Inr (None, st)) of
     Inl e \<Rightarrow> Some (Inl e)
   | Inr em \<Rightarrow> (case fst em of Some b \<Rightarrow> Some (Inr (Some b, snd em))
     | None \<Rightarrow> (case fetch_probe (snd em) of Inl e \<Rightarrow> Some (Inl e)
        | Inr bs \<Rightarrow> (case fst bs of None \<Rightarrow> Some (Inr (None, snd bs))
           | Some pb \<Rightarrow> Option.bind (probe_batch j pb (snd bs)) (\<lambda>m. case m of Inl e \<Rightarrow> Some (Inl e) | Inr st' \<Rightarrow> HashJoin_loop j st')))))"

declare HashJoin_loop.simps [code]

text \<open>
  \<^verbatim>\<open>HashJoin.Next\<close>: the first call builds the table. A join over a shared table starts with the build done
  (\<^verbatim>\<open>NewHashJoinShared\<close>).
\<close>

definition HashJoin_Next :: "(unit \<Rightarrow> HashJoin xres option) \<Rightarrow> HashJoin option \<times> probe_state \<Rightarrow> (Batch option \<times> HashJoin option \<times> probe_state) xres option" where
  "HashJoin_Next build js = (case js of (jo, st) \<Rightarrow>
     obind (case jo of Some j \<Rightarrow> Some (Inr j) | None \<Rightarrow> build ()) (\<lambda>j.
     obind (HashJoin_loop j st) (\<lambda>(b, st). Some (Inr (b, Some j, st)))))"

definition serial_build :: "Schema \<Rightarrow> Schema \<Rightarrow> nat \<Rightarrow> nat \<Rightarrow> (int \<times> bool) option \<Rightarrow> stream \<Rightarrow> unit \<Rightarrow> HashJoin xres option" where
  "serial_build bSchema pSchema bKey pKey bound build u = obind (buildHashTable bSchema bKey bound build) (\<lambda>(tbl, store).
     Some (Inr \<lparr>jparts = [tbl], jpartMask = 0, jstore = store, buildSchema = bSchema, probeSchema = pSchema, probeKey = pKey\<rparr>))"

definition NewHashJoinShared :: "SharedHashTable option \<Rightarrow> Schema \<Rightarrow> int \<Rightarrow> HashJoin xres" where
  "NewHashJoinShared sht pSchema pKey = (case sht of None \<Rightarrow> Inl (Err ErrSharedTable) | Some sht \<Rightarrow>
     if pKey < 0 \<or> int (length pSchema) \<le> pKey then Inl (Err ErrJoinKey) else
     Inr \<lparr>jparts = sparts sht, jpartMask = partMask sht, jstore = sstore sht, buildSchema = sschema sht, probeSchema = pSchema, probeKey = nat pKey\<rparr>)"

section \<open>The build side in terms of rows\<close>

definition stored_cells :: "val option list \<Rightarrow> (bool \<times> i64 \<times> string) xres list" where
  "stored_cells r = map (\<lambda>x. Inr (x = None, cell_raw x, cell_str x)) r"

lemma length_row_at: "wf_batch G b \<Longrightarrow> length (row_at b i) = length G"
  by (simp add: row_at_def wf_batch_def)

lemma cell_of_stored:
  assumes "wf_vector n v" "i < n" "slot \<noteq> None \<longleftrightarrow> VType v = TypeString"
  shows "cell_of slot v i = Inr (vget v i = None, cell_raw (vget v i), cell_str (vget v i))"
proof (cases "vget v i = None")
  case True
  then have "IsNull v i = Inr True" using IsNull_ok [OF assms(1,2)] vget_None_iff [of v i] by simp
  then show ?thesis using True by (simp add: cell_of_def cell_raw_def cell_str_def)
next
  case False
  then have null: "IsNull v i = Inr False" using IsNull_ok [OF assms(1,2)] vget_None_iff [of v i] by simp
  show ?thesis
  proof (cases v)
    case (StringVector cs d nb)
    then obtain k d' where "slot = Some k" "d = Some d'" using string_cell(1) [of n cs d nb i] assms False by auto
    moreover have "cell_raw (vget v i) = 0" using False StringVector by (auto simp: cell_raw_def split: if_splits)
    ultimately show ?thesis using null False string_cell(2) [of n cs d nb i] assms StringVector by (simp add: cell_of_def)
  qed (use null False extractInt64_cell [OF assms(1,2)] in \<open>auto simp: cell_of_def cell_str_def split: option.splits val.splits if_splits\<close>)
qed

lemma batch_row_stored:
  assumes "wf_batch (map Type schema) b" "i < evalLen b"
  shows "batch_row schema b i = stored_cells (row_at b i)"
proof (rule nth_equalityI)
  show len: "length (batch_row schema b i) = length (stored_cells (row_at b i))"
    using length_row_at [OF assms(1)] by (simp add: batch_row_def stored_cells_def)
  fix c assume "c < length (batch_row schema b i)"
  then have c: "c < length schema" by (simp add: batch_row_def)
  obtain ss w where ss: "str_slots schema 0 = (ss, w)" by fastforce
  have "ss ! c \<noteq> None \<longleftrightarrow> Type (schema ! c) = TypeString" using str_slots_spec [OF ss] c by blast
  moreover have "VType (Vectors b ! c) = Type (schema ! c)" "wf_vector (evalLen b) (Vectors b ! c)" "c < length (Vectors b)"
    using assms(1) c by (simp_all add: wf_batch_def)
  ultimately show "batch_row schema b i ! c = stored_cells (row_at b i) ! c"
    using cell_of_stored [of "evalLen b" "Vectors b ! c" i "ss ! c"] assms(2) c ss by (simp add: batch_row_def stored_cells_def row_at_def)
qed

lemma key_cell_read:
  assumes "wf_batch G b" "i < evalLen b" "key < length G"
  shows "IsNull (Vectors b ! key) i = Inr (row_at b i ! key = None)"
    "row_at b i ! key \<noteq> None \<Longrightarrow> extractInt64 (Vectors b ! key) i = Inr (cell_raw (row_at b i ! key))"
proof -
  have k: "key < length (Vectors b)" "wf_vector (evalLen b) (Vectors b ! key)" using assms by (simp_all add: wf_batch_def)
  show "IsNull (Vectors b ! key) i = Inr (row_at b i ! key = None)"
    using IsNull_ok [OF k(2) assms(2)] vget_None_iff [of "Vectors b ! key" i] k(1) by (simp add: row_at_def)
  show "extractInt64 (Vectors b ! key) i = Inr (cell_raw (row_at b i ! key))" if "row_at b i ! key \<noteq> None"
    using extractInt64_cell [OF k(2) assms(2)] that k(1) by (simp add: row_at_def)
qed

lemma keyed_rows_eq:
  assumes "wf_rows G b" "key < length G"
  shows "keyed_rows key b = map (\<lambda>i. (cell_raw (row_at b i ! key), b, i)) (filter (\<lambda>i. row_at b i ! key \<noteq> None) (sel_rows b))"
    "key_ok key b"
proof -
  have wf: "wf_batch G b" "\<forall>i \<in> set (sel_rows b). i < evalLen b" using assms(1) by (simp_all add: wf_rows_def)
  have key: "key < length (Vectors b)" using wf(1) assms(2) by (simp add: wf_batch_def)
  have "List.map_filter (\<lambda>i. case IsNull (Vectors b ! key) i of
       Inr False \<Rightarrow> (case extractInt64 (Vectors b ! key) i of Inr k \<Rightarrow> Some (k, b, i) | Inl _ \<Rightarrow> None) | _ \<Rightarrow> None) is =
     map (\<lambda>i. (cell_raw (row_at b i ! key), b, i)) (filter (\<lambda>i. row_at b i ! key \<noteq> None) is)"
    if "\<forall>i \<in> set is. i < evalLen b" for "is"
    using that by (induction "is") (auto simp: map_filter_simps key_cell_read [OF wf(1) _ assms(2)])
  then show "keyed_rows key b = map (\<lambda>i. (cell_raw (row_at b i ! key), b, i)) (filter (\<lambda>i. row_at b i ! key \<noteq> None) (sel_rows b))"
    using wf(2) by (simp add: keyed_rows_def)
  show "key_ok key b" unfolding key_ok_def using key key_cell_read [OF wf(1) _ assms(2)] wf(2) by fastforce
qed

text \<open>The rows of the build side that a probe with the given key matches, as the table stores them.\<close>

definition matching :: "nat \<Rightarrow> i64 \<Rightarrow> val option list list \<Rightarrow> val option list list" where
  "matching key k rws = filter (\<lambda>r. r ! key \<noteq> None \<and> cell_raw (r ! key) = k) rws"

definition build_input :: "Schema \<Rightarrow> nat \<Rightarrow> stream \<Rightarrow> bool" where
  "build_input schema key s \<longleftrightarrow> ends_ok s \<and> key < length schema \<and> (\<forall>b \<in> set (batches s). wf_rows (map Type schema) b) \<and>
     length (all_rows s) \<le> maxBuildRows"

lemma build_rows_eq:
  assumes "\<forall>b \<in> set bs. wf_rows (map Type schema) b" "key < length schema"
  shows "map (\<lambda>(k, b, i). batch_row schema b i) (filter (\<lambda>x. fst x = k) (concat (map (keyed_rows key) bs))) =
      map stored_cells (matching key k (concat (map batch_rows bs)))"
    "\<forall>(k, b, i) \<in> set (concat (map (keyed_rows key) bs)). fits schema b i"
    "length (concat (map (keyed_rows key) bs)) \<le> length (concat (map batch_rows bs))"
proof -
  have one: "map (\<lambda>(k, b, i). batch_row schema b i) (filter (\<lambda>x. fst x = k) (keyed_rows key b)) = map stored_cells (matching key k (batch_rows b)) \<and>
      (\<forall>(k, b, i) \<in> set (keyed_rows key b). fits schema b i) \<and> length (keyed_rows key b) \<le> length (batch_rows b)"
    if b: "wf_rows (map Type schema) b" for b
  proof -
    have wf: "wf_batch (map Type schema) b" "\<forall>i \<in> set (sel_rows b). i < evalLen b" using b by (simp_all add: wf_rows_def)
    note kr = keyed_rows_eq(1) [OF b, simplified, OF assms(2)]
    have "map (\<lambda>(k, b, i). batch_row schema b i) (filter (\<lambda>x. fst x = k) (keyed_rows key b)) =
        map (batch_row schema b) (filter (\<lambda>i. row_at b i ! key \<noteq> None \<and> cell_raw (row_at b i ! key) = k) (sel_rows b))"
      unfolding kr by (simp add: filter_map comp_def conj_commute)
    also have "\<dots> = map (\<lambda>i. stored_cells (row_at b i)) (filter (\<lambda>i. row_at b i ! key \<noteq> None \<and> cell_raw (row_at b i ! key) = k) (sel_rows b))"
      using batch_row_stored [OF wf(1)] wf(2) by (intro map_cong) auto
    also have "\<dots> = map stored_cells (matching key k (batch_rows b))"
      by (simp add: matching_def batch_rows_def filter_map comp_def)
    finally have 1: "map (\<lambda>(k, b, i). batch_row schema b i) (filter (\<lambda>x. fst x = k) (keyed_rows key b)) = map stored_cells (matching key k (batch_rows b))" .
    have "fits schema b i" if "i < evalLen b" for i
      using wf(1) batch_row_stored [OF wf(1) that] by (auto simp: fits_def wf_batch_def stored_cells_def list_all_iff)
    then have 2: "\<forall>(k, b, i) \<in> set (keyed_rows key b). fits schema b i" unfolding kr using wf(2) by auto
    have 3: "length (keyed_rows key b) \<le> length (batch_rows b)" unfolding kr by (simp add: batch_rows_def)
    show ?thesis using 1 2 3 by blast
  qed
  show "map (\<lambda>(k, b, i). batch_row schema b i) (filter (\<lambda>x. fst x = k) (concat (map (keyed_rows key) bs))) =
      map stored_cells (matching key k (concat (map batch_rows bs)))"
    using assms(1) one by (induction bs) (simp_all add: matching_def)
  show "\<forall>(k, b, i) \<in> set (concat (map (keyed_rows key) bs)). fits schema b i" using assms(1) one by fastforce
  show "length (concat (map (keyed_rows key) bs)) \<le> length (concat (map batch_rows bs))"
    using assms(1) one by (induction bs) (auto intro: add_mono)
qed

lemma build_input_ok:
  assumes "build_input schema key s"
  shows "build_side_ok schema key s" "rows_with_key schema key s k = map stored_cells (matching key k (all_rows s))"
proof -
  have b: "\<forall>b \<in> set (batches s). wf_rows (map Type schema) b" "key < length schema" using assms by (simp_all add: build_input_def)
  note eq = build_rows_eq [OF b]
  show "build_side_ok schema key s"
    using assms eq(2,3) b keyed_rows_eq(2) unfolding build_side_ok_def build_input_def build_rows_def all_rows_def by fastforce
  show "rows_with_key schema key s k = map stored_cells (matching key k (all_rows s))"
    using eq(1) by (simp add: rows_with_key_def build_rows_def all_rows_def)
qed

text \<open>What the probe phase needs of the table, whichever way it was built.\<close>

definition answers :: "HashJoin \<Rightarrow> nat \<Rightarrow> val option list list \<Rightarrow> bool" where
  "answers j key rws \<longleftrightarrow> (\<forall>k. \<exists>rs. probe_key (jpartMask j) (jparts j) (rnext (jstore j)) k = Some (Inr rs) \<and>
     map (stored_row (jstore j)) rs = map stored_cells (matching key k rws))"

lemma serial_build_answers:
  assumes "build_input bs key s"
  shows "\<exists>j. serial_build bs ps key pk bound s () = Some (Inr j) \<and> answers j key (all_rows s) \<and> buildSchema j = bs \<and> probeSchema j = ps \<and> probeKey j = pk"
proof -
  obtain t st where t: "buildHashTable bs key bound s = Some (Inr (t, st))"
    "\<forall>k. \<exists>rs. obind (lookup t k) (chain_rows (rnext st)) = Some (Inr rs) \<and> map (stored_row st) rs = rows_with_key bs key s k"
    using buildHashTable_ok [OF build_input_ok(1) [OF assms]] by blast
  have "probe_key 0 [t] (rnext st) k = obind (lookup t k) (chain_rows (rnext st))" for k
    by (simp add: probe_key_def lookup_def Let_def)
  then show ?thesis using t build_input_ok(2) [OF assms] by (simp add: serial_build_def answers_def)
qed

lemma shared_build_answers:
  assumes "build_input bs key s" "pk < length ps"
  shows "\<exists>sht j. BuildSharedHashTableRadix bs key bits bound s = Some (Inr sht) \<and> NewHashJoinShared (Some sht) ps (int pk) = Inr j \<and>
    answers j key (all_rows s) \<and> buildSchema j = bs \<and> probeSchema j = ps \<and> probeKey j = pk"
proof -
  have "key < length bs" using assms(1) by (simp add: build_input_def)
  then obtain sht where "BuildSharedHashTableRadix bs key bits bound s = Some (Inr sht)" "sschema sht = bs"
    "\<forall>k. \<exists>rs. probe_key (partMask sht) (sparts sht) (rnext (sstore sht)) k = Some (Inr rs) \<and> map (stored_row (sstore sht)) rs = rows_with_key bs key s k"
    using BuildSharedHashTableRadix_ok [OF build_input_ok(1) [OF assms(1)]] by blast
  then show ?thesis using assms(2) build_input_ok(2) [OF assms(1)] by (simp add: NewHashJoinShared_def answers_def)
qed

section \<open>Matches and their columns\<close>

text \<open>A BOOL column leaves a join as integers 0 and 1; every other column keeps its type and values.\<close>

definition join_type :: "DataType \<Rightarrow> DataType" where
  "join_type t = (if t = TypeBool then TypeInt64 else t)"

definition join_cell :: "val option \<Rightarrow> val option" where
  "join_cell x = (case x of Some (VBool t) \<Rightarrow> Some (VInt (if t then 1 else 0)) | _ \<Rightarrow> x)"

lemma join_cell_simps [simp]: "join_cell x = None \<longleftrightarrow> x = None" "cell_raw (join_cell x) = cell_raw x" "cell_str (join_cell x) = cell_str x"
  by (auto simp: join_cell_def cell_raw_def cell_str_def split: option.splits val.splits)

lemma join_cell_type: "(\<And>v. x = Some v \<Longrightarrow> val_type v = t) \<Longrightarrow> join_cell x = Some w \<Longrightarrow> val_type w = join_type t"
  by (cases x; cases "the x") (auto simp: join_cell_def join_type_def)

definition matched :: "HashJoin \<Rightarrow> joinRow list \<Rightarrow> (val option list \<times> nat) list \<Rightarrow> bool" where
  "matched j buf M \<longleftrightarrow> list_all2 (\<lambda>(ri, pw) (r, i). stored_row (jstore j) ri = stored_cells r \<and> pw = word_of_nat i) buf M"

definition matches_of :: "nat \<Rightarrow> nat \<Rightarrow> val option list list \<Rightarrow> Batch \<Rightarrow> nat list \<Rightarrow> (val option list \<times> nat) list" where
  "matches_of key pk rws pb is = concat (map (\<lambda>i. if row_at pb i ! pk = None then []
     else map (\<lambda>r. (r, i)) (matching key (cell_raw (row_at pb i ! pk)) rws)) is)"

lemma stored_row_read:
  assumes "stored_row s ri = stored_cells r" "c < length r"
  shows "isNull s ri c = Inr (r ! c = None)" "value_at s ri c = Inr (cell_raw (r ! c))" "str_at s ri c = Inr (cell_str (r ! c))"
proof -
  have "length (stored_row s ri) = length (stored_cells r)" using assms(1) by simp
  then have "c < numCols s" using assms(2) by (simp add: stored_row_def stored_cells_def)
  then have "store_cell s ri c = Inr (r ! c = None, cell_raw (r ! c), cell_str (r ! c))"
    using arg_cong [OF assms(1), of "\<lambda>xs. xs ! c"] assms(2) by (simp add: stored_row_def stored_cells_def)
  then show "isNull s ri c = Inr (r ! c = None)" "value_at s ri c = Inr (cell_raw (r ! c))" "str_at s ri c = Inr (cell_str (r ! c))"
    by (auto simp: store_cell_def res_bind_eq_Inr res_map_eq_Inr)
qed

lemma probe_visits:
  assumes "answers j key rws" "wf_batch G pb" "probeKey j < length G" "\<forall>i \<in> set is. i < evalLen pb" "matched j buf M"
  shows "\<exists>buf'. visit_rows (probe_visit j) (Vectors pb ! probeKey j) pb is buf = Some (Inr buf') \<and>
    matched j buf' (M @ matches_of key (probeKey j) rws pb is)"
  using assms(4,5)
proof (induction "is" arbitrary: buf M)
  case (Cons i "is")
  let ?x = "row_at pb i ! probeKey j"
  have i: "i < evalLen pb" using Cons.prems by simp
  note rd = key_cell_read [OF assms(2) i assms(3)]
  show ?case
  proof (cases "?x = None")
    case True
    then show ?thesis using Cons.IH [of buf M] Cons.prems rd(1) by (simp add: matches_of_def)
  next
    case False
    obtain rs where rs: "probe_key (jpartMask j) (jparts j) (rnext (jstore j)) (cell_raw ?x) = Some (Inr rs)"
      "map (stored_row (jstore j)) rs = map stored_cells (matching key (cell_raw ?x) rws)" using assms(1) by (auto simp: answers_def)
    let ?R = "matching key (cell_raw ?x) rws"
    have "list_all2 (\<lambda>ri r. stored_row (jstore j) ri = stored_cells r) rs ?R"
      unfolding list_all2_conv_all_nth using rs(2) by (metis length_map nth_map)
    then have "matched j (map (\<lambda>ri. (ri, word_of_nat i)) rs) (map (\<lambda>r. (r, i)) ?R)"
      by (simp add: matched_def list_all2_map1 list_all2_map2)
    then have "matched j (buf @ map (\<lambda>ri. (ri, word_of_nat i)) rs) (M @ map (\<lambda>r. (r, i)) ?R)"
      using Cons.prems(2) by (auto simp: matched_def intro: list_all2_appendI)
    from Cons.IH [OF _ this] Cons.prems(1) obtain buf' where
      "visit_rows (probe_visit j) (Vectors pb ! probeKey j) pb is (buf @ map (\<lambda>ri. (ri, word_of_nat i)) rs) = Some (Inr buf')"
      "matched j buf' ((M @ map (\<lambda>r. (r, i)) ?R) @ matches_of key (probeKey j) rws pb is)" by auto
    moreover have "probe_visit j (cell_raw ?x) pb i buf = Some (Inr (buf @ map (\<lambda>ri. (ri, word_of_nat i)) rs))"
      using rs(1) by (simp add: probe_visit_def)
    moreover have "IsNull (Vectors pb ! probeKey j) i = Inr False" using rd(1) False by simp
    moreover have "matches_of key (probeKey j) rws pb (i # is) = map (\<lambda>r. (r, i)) ?R @ matches_of key (probeKey j) rws pb is"
      using False by (auto simp: matches_of_def)
    ultimately show ?thesis using rd(2) [OF False] by simp
  qed
qed (simp add: matches_of_def)

lemma buildColumn_ok:
  assumes M: "matched j rs M" and ty: "\<forall>(r, i) \<in> set M. row_typed schema r" and c: "c < length schema"
    and size: "sum_list (map (row_bytes \<circ> fst) M) + length M < 2 ^ 32"
  shows "\<exists>v. buildColumnFromRows (jstore j) rs c (Type (schema ! c)) = Inr v \<and> wf_vector (length M) v \<and>
    VType v = join_type (Type (schema ! c)) \<and> (\<forall>i < length M. vget v i = join_cell (fst (M ! i) ! c))"
proof -
  let ?n = "length M" and ?t = "Type (schema ! c)"
  let ?null = "\<lambda>i. res_bind (idx rs i) (\<lambda>r. isNull (jstore j) (fst r) c)" and ?raw = "\<lambda>i. res_bind (idx rs i) (\<lambda>r. value_at (jstore j) (fst r) c)"
  let ?x = "\<lambda>i. join_cell (fst (M ! i) ! c)"
  have len: "length rs = ?n" using M by (auto simp: matched_def dest: list_all2_lengthD)
  have row: "row_typed schema (fst (M ! i))" if "i < ?n" for i using ty that by (auto simp: case_prod_unfold)
  have read: "stored_row (jstore j) (fst (rs ! i)) = stored_cells (fst (M ! i))" if "i < ?n" for i
    using list_all2_nthD2 [OF M [unfolded matched_def] that] by (simp add: case_prod_unfold)
  have cl: "c < length (fst (M ! i))" if "i < ?n" for i using row [OF that] c by (simp add: row_typed_def)
  note rd = stored_row_read [OF read cl]
  have null: "\<forall>i < ?n. ?null i = Inr (?x i = None)" using rd(1) len by simp
  have raw: "\<forall>i < ?n. ?x i \<noteq> None \<longrightarrow> ?raw i = Inr (cell_raw (?x i))" using rd(2) len by simp
  have xt: "\<forall>i < ?n. \<forall>v. ?x i = Some v \<longrightarrow> val_type v = join_type ?t"
  proof (intro allI impI)
    fix i v assume i: "i < ?n" and v: "?x i = Some v"
    have "\<And>w. fst (M ! i) ! c = Some w \<Longrightarrow> val_type w = ?t" using row [OF i] c by (simp add: row_typed_def)
    then show "val_type v = join_type ?t" using join_cell_type v by blast
  qed
  note cells = fill_cells [OF null xt raw]
  show ?thesis
  proof (cases ?t)
    case TypeString
    have str: "\<forall>i < ?n. ?x i \<noteq> None \<longrightarrow> res_bind (idx rs i) (\<lambda>r. str_at (jstore j) (fst r) c) = Inr (cell_str (?x i))" using rd(3) len by simp
    have "\<forall>r \<in> set (map fst M). c < length r" using ty c by (auto simp: row_typed_def)
    then have "(\<Sum>i < ?n. if map fst M ! i ! c = None then 0 else Suc (length (cell_str (map fst M ! i ! c)))) < 2 ^ 32"
      using column_bytes [of "map fst M" c] size by (simp del: nth_map)
    also have "(\<Sum>i < ?n. if map fst M ! i ! c = None then 0 else Suc (length (cell_str (map fst M ! i ! c)))) =
        (\<Sum>i < ?n. if ?x i = None then 0 else Suc (length (cell_str (?x i))))" by (intro sum.cong) auto
    finally have sum: "(\<Sum>i < ?n. if ?x i = None then 0 else Suc (length (cell_str (?x i)))) < 2 ^ 32" .
    have "\<exists>v. fill_strings ?null (\<lambda>i. res_bind (idx rs i) (\<lambda>r. str_at (jstore j) (fst r) c)) ?n = Inr v \<and> wf_vector ?n v \<and> VType v = TypeString \<and> (\<forall>i < ?n. vget v i = ?x i)"
      by (rule fill_string_cells [OF null _ str sum]) (use xt TypeString in \<open>simp add: join_type_def\<close>)
    then show ?thesis using TypeString len by (simp add: buildColumnFromRows_def join_type_def)
  qed (use cells len in \<open>auto simp: buildColumnFromRows_def join_type_def Let_def simp del: vget.simps wf_vector.simps\<close>)
qed

lemma probeColumn_ok:
  assumes M: "matched j rs M" and wf: "wf_batch (map Type schema) pb" and c: "c < length schema"
    and sub: "\<forall>(r, i) \<in> set M. i < evalLen pb" and len16: "evalLen pb \<le> 2 ^ 16"
  shows "\<exists>v. probeColumnFromRows pb rs c (Type (schema ! c)) = Inr v \<and> wf_vector (length M) v \<and>
    VType v = join_type (Type (schema ! c)) \<and> (\<forall>i < length M. vget v i = join_cell (row_at pb (snd (M ! i)) ! c))"
proof -
  let ?n = "length M" and ?v = "Vectors pb ! c" and ?p = "\<lambda>i. snd (M ! i)"
  let ?pRow = "\<lambda>i. res_map (\<lambda>r. nat (sint (snd r))) (idx rs i) :: nat xres"
  let ?null = "\<lambda>i. res_bind (?pRow i) (IsNull ?v)"
  have len: "length rs = ?n" using M by (auto simp: matched_def dest: list_all2_lengthD)
  have cv: "c < length (Vectors pb)" "VType ?v = Type (schema ! c)" "wf_vector (evalLen pb) ?v" using wf c by (simp_all add: wf_batch_def)
  have p: "?p i < evalLen pb" if "i < ?n" for i using sub that by (auto simp: case_prod_unfold)
  have pRow: "?pRow i = Inr (?p i)" if "i < ?n" for i
  proof -
    have "snd (rs ! i) = word_of_nat (?p i)" using list_all2_nthD2 [OF M [unfolded matched_def] that] by (simp add: case_prod_unfold)
    moreover have "?p i \<le> maxBuildRows" using p [OF that] len16 by (simp add: maxBuildRows_def)
    ultimately show ?thesis using sint_row [of "?p i"] that len by simp
  qed
  have cell: "row_at pb (?p i) ! c = vget ?v (?p i)" for i using cv(1) by (simp add: row_at_def)
  have null: "?null i = Inr (vget ?v (?p i) = None)" if "i < ?n" for i
    using IsNull_ok [OF cv(3) p [OF that]] pRow [OF that] vget_None_iff [of ?v "?p i"] by simp
  have copy: "\<exists>vals nb. fill_fixed ?null (\<lambda>i. res_bind (?pRow i) get) z ?n = Inr (vals, nb) \<and> length vals = ?n \<and> length nb = bitmap_bytes ?n \<and>
      (\<forall>i < ?n. (valid_at nb i \<longleftrightarrow> vget ?v (?p i) \<noteq> None) \<and> (vget ?v (?p i) \<noteq> None \<longrightarrow> vals ! i = x (?p i)))"
    if "\<And>k. k < evalLen pb \<Longrightarrow> vget ?v k \<noteq> None \<Longrightarrow> get k = Inr (x k)" for get and x :: "nat \<Rightarrow> 'b" and z
  proof -
    have "res_bind (?pRow i) get = Inr (x (?p i))" if "i < ?n" "vget ?v (?p i) \<noteq> None" for i
      using pRow [OF that(1)] p [OF that(1)] that \<open>\<And>k. k < evalLen pb \<Longrightarrow> vget ?v k \<noteq> None \<Longrightarrow> get k = Inr (x k)\<close> by simp
    then show ?thesis
      using fill_fixed_ok [of ?n ?null "\<lambda>i. vget ?v (?p i) = None" "\<lambda>i. res_bind (?pRow i) get" "\<lambda>i. x (?p i)" z] null by auto
  qed
  show ?thesis
  proof (cases ?v)
    case (Int64Vector xs nb0)
    obtain vals nb where "fill_fixed ?null (\<lambda>i. res_bind (?pRow i) (idx xs)) 0 ?n = Inr (vals, nb)" "length vals = ?n" "length nb = bitmap_bytes ?n"
      "\<forall>i < ?n. (valid_at nb i \<longleftrightarrow> vget ?v (?p i) \<noteq> None) \<and> (vget ?v (?p i) \<noteq> None \<longrightarrow> vals ! i = xs ! ?p i)"
      using copy [of "idx xs" "(!) xs" 0] cv(3) Int64Vector by auto
    then show ?thesis using Int64Vector cv(1) cv(2) [symmetric] len
      by (auto simp: probeColumnFromRows_def join_type_def join_cell_def cell Let_def split: if_splits)
  next
    case (Float64Vector xs nb0)
    obtain vals nb where "fill_fixed ?null (\<lambda>i. res_bind (?pRow i) (idx xs)) 0 ?n = Inr (vals, nb)" "length vals = ?n" "length nb = bitmap_bytes ?n"
      "\<forall>i < ?n. (valid_at nb i \<longleftrightarrow> vget ?v (?p i) \<noteq> None) \<and> (vget ?v (?p i) \<noteq> None \<longrightarrow> vals ! i = xs ! ?p i)"
      using copy [of "idx xs" "(!) xs" 0] cv(3) Float64Vector by auto
    then show ?thesis using Float64Vector cv(1) cv(2) [symmetric] len
      by (auto simp: probeColumnFromRows_def join_type_def join_cell_def cell Let_def split: if_splits)
  next
    case (BoolVector bits nb0 m)
    obtain vals nb where "fill_fixed ?null (\<lambda>i. res_bind (?pRow i) (extractInt64 ?v)) 0 ?n = Inr (vals, nb)" "length vals = ?n" "length nb = bitmap_bytes ?n"
      "\<forall>i < ?n. (valid_at nb i \<longleftrightarrow> vget ?v (?p i) \<noteq> None) \<and> (vget ?v (?p i) \<noteq> None \<longrightarrow> vals ! i = cell_raw (vget ?v (?p i)))"
      using copy [of "extractInt64 ?v" "\<lambda>k. cell_raw (vget ?v k)" 0] extractInt64_cell [OF cv(3)] by auto
    then show ?thesis using BoolVector cv(1) cv(2) [symmetric] len
      by (auto simp: probeColumnFromRows_def join_type_def join_cell_def cell_raw_def cell Let_def split: if_splits)
  next
    case (StringVector cs d nb0)
    obtain vals nb where "fill_fixed ?null (\<lambda>i. res_bind (?pRow i) (idx cs)) 0 ?n = Inr (vals, nb)" "length vals = ?n" "length nb = bitmap_bytes ?n"
      "\<forall>i < ?n. (valid_at nb i \<longleftrightarrow> vget ?v (?p i) \<noteq> None) \<and> (vget ?v (?p i) \<noteq> None \<longrightarrow> vals ! i = cs ! ?p i)"
      using copy [of "idx cs" "(!) cs" 0] cv(3) StringVector by auto
    moreover have "d \<noteq> None" if "i < ?n" "vget ?v (?p i) \<noteq> None" for i
      using string_cell(1) [of "evalLen pb" cs d nb0 "?p i"] cv(3) p [OF that(1)] that(2) StringVector by simp
    ultimately show ?thesis using StringVector cv len p
      by (cases d) (auto simp: probeColumnFromRows_def join_type_def join_cell_def cell Let_def split: if_splits)
  next
    case (DateVector xs nb0)
    obtain vals nb where "fill_fixed ?null (\<lambda>i. res_bind (?pRow i) (idx xs)) 0 ?n = Inr (vals, nb)" "length vals = ?n" "length nb = bitmap_bytes ?n"
      "\<forall>i < ?n. (valid_at nb i \<longleftrightarrow> vget ?v (?p i) \<noteq> None) \<and> (vget ?v (?p i) \<noteq> None \<longrightarrow> vals ! i = xs ! ?p i)"
      using copy [of "idx xs" "(!) xs" 0] cv(3) DateVector by auto
    then show ?thesis using DateVector cv(1) cv(2) [symmetric] len
      by (auto simp: probeColumnFromRows_def join_type_def join_cell_def cell Let_def split: if_splits)
  qed
qed

section \<open>The joined rows\<close>

definition emit_rows :: "Batch \<Rightarrow> (val option list \<times> nat) list \<Rightarrow> val option list list" where
  "emit_rows pb M = map (\<lambda>(r, i). map join_cell (r @ row_at pb i)) M"

definition join_rows :: "nat \<Rightarrow> nat \<Rightarrow> val option list list \<Rightarrow> stream \<Rightarrow> val option list list" where
  "join_rows key pk rws s = concat (map (\<lambda>pb. emit_rows pb (matches_of key pk rws pb (sel_rows pb))) (batches s))"

definition good_matches :: "Schema \<Rightarrow> Batch \<Rightarrow> (val option list \<times> nat) list \<Rightarrow> bool" where
  "good_matches bs pb M \<longleftrightarrow> (\<forall>(r, i) \<in> set M. row_typed bs r \<and> row_bytes r < 2 ^ 21 \<and> i < evalLen pb)"

lemma sum_list_bound: "\<forall>x \<in> set xs. f x \<le> B \<Longrightarrow> sum_list (map f xs) \<le> length xs * (B :: nat)"
  by (induction xs) auto

lemma emit_chunk:
  assumes M: "matched j rs M" "length M \<le> BlockRows" "good_matches (buildSchema j) pb M"
    and pb: "wf_rows (map Type (probeSchema j)) pb"
  shows "\<exists>bvs pvs. map_res (\<lambda>c. buildColumnFromRows (jstore j) rs c (Type (buildSchema j ! c))) [0..<length (buildSchema j)] = Inr bvs \<and>
    map_res (\<lambda>c. probeColumnFromRows pb rs c (Type (probeSchema j ! c))) [0..<length (probeSchema j)] = Inr pvs \<and>
    (let b = \<lparr>BSchema = buildSchema j @ probeSchema j, Vectors = bvs @ pvs, BLength = length rs, SelVec = None\<rparr> in
      wf_rows (map (\<lambda>f. join_type (Type f)) (buildSchema j @ probeSchema j)) b \<and> batch_rows b = emit_rows pb M)"
proof -
  let ?n = "length M" and ?bs = "buildSchema j" and ?ps = "probeSchema j"
  have len: "length rs = ?n" using M(1) by (auto simp: matched_def dest: list_all2_lengthD)
  have wfp: "wf_batch (map Type ?ps) pb" "evalLen pb \<le> 2 ^ 16" "?ps \<noteq> []" using pb by (simp_all add: wf_rows_def)
  have good: "\<forall>(r, i) \<in> set M. row_typed ?bs r" "\<forall>(r, i) \<in> set M. i < evalLen pb" "\<forall>x \<in> set M. (row_bytes \<circ> fst) x \<le> 2 ^ 21"
    using M(3) by (auto simp: good_matches_def)
  have "sum_list (map (row_bytes \<circ> fst) M) \<le> ?n * 2 ^ 21" by (rule sum_list_bound [OF good(3)])
  then have size: "sum_list (map (row_bytes \<circ> fst) M) + length M < 2 ^ 32" using M(2) by (simp add: BlockRows_def)
  let ?P = "\<lambda>c v. wf_vector ?n v \<and> VType v = join_type (Type (?bs ! c)) \<and> (\<forall>i < ?n. vget v i = join_cell (fst (M ! i) ! c))"
  let ?Q = "\<lambda>c v. wf_vector ?n v \<and> VType v = join_type (Type (?ps ! c)) \<and> (\<forall>i < ?n. vget v i = join_cell (row_at pb (snd (M ! i)) ! c))"
  have "\<forall>c \<in> set [0..<length ?bs]. \<exists>v. buildColumnFromRows (jstore j) rs c (Type (?bs ! c)) = Inr v \<and> ?P c v"
  proof
    fix c assume "c \<in> set [0..<length ?bs]"
    then show "\<exists>v. buildColumnFromRows (jstore j) rs c (Type (?bs ! c)) = Inr v \<and> ?P c v"
      by (intro buildColumn_ok [OF M(1) good(1) _ size]) simp
  qed
  then obtain bvs where bvs: "map_res (\<lambda>c. buildColumnFromRows (jstore j) rs c (Type (?bs ! c))) [0..<length ?bs] = Inr bvs" "list_all2 ?P [0..<length ?bs] bvs"
    using map_res_exists [of "[0..<length ?bs]" "\<lambda>c. buildColumnFromRows (jstore j) rs c (Type (?bs ! c))" ?P] by blast
  have "\<forall>c \<in> set [0..<length ?ps]. \<exists>v. probeColumnFromRows pb rs c (Type (?ps ! c)) = Inr v \<and> ?Q c v"
  proof
    fix c assume "c \<in> set [0..<length ?ps]"
    then show "\<exists>v. probeColumnFromRows pb rs c (Type (?ps ! c)) = Inr v \<and> ?Q c v"
      by (intro probeColumn_ok [OF M(1) wfp(1) _ good(2) wfp(2)]) simp
  qed
  then obtain pvs where pvs: "map_res (\<lambda>c. probeColumnFromRows pb rs c (Type (?ps ! c))) [0..<length ?ps] = Inr pvs" "list_all2 ?Q [0..<length ?ps] pvs"
    using map_res_exists [of "[0..<length ?ps]" "\<lambda>c. probeColumnFromRows pb rs c (Type (?ps ! c))" ?Q] by blast
  have lens: "length bvs = length ?bs" "length pvs = length ?ps" using bvs(2) pvs(2) by (auto dest: list_all2_lengthD)
  have eachb: "?P c (bvs ! c)" if "c < length ?bs" for c using list_all2_nthD [OF bvs(2), of c] that by simp
  have eachp: "?Q c (pvs ! c)" if "c < length ?ps" for c using list_all2_nthD [OF pvs(2), of c] that by simp
  let ?b = "\<lparr>BSchema = ?bs @ ?ps, Vectors = bvs @ pvs, BLength = length rs, SelVec = None\<rparr>"
  have typed: "VType ((bvs @ pvs) ! c) = join_type (Type ((?bs @ ?ps) ! c)) \<and> wf_vector ?n ((bvs @ pvs) ! c)" if "c < length ?bs + length ?ps" for c
    using eachb [of c] eachp [of "c - length ?bs"] lens that by (cases "c < length ?bs") (auto simp: nth_append)
  have "?n \<le> 2 ^ 16" using M(2) by (simp add: BlockRows_def)
  then have wf: "wf_rows (map (\<lambda>f. join_type (Type f)) (?bs @ ?ps)) ?b"
    using typed lens len wfp(3) by (simp add: wf_rows_def wf_batch_def evalLen_def sel_rows_def nth_append)
  have "row_at ?b i = map join_cell (fst (M ! i) @ row_at pb (snd (M ! i)))" if i: "i < ?n" for i
  proof -
    have r: "length (fst (M ! i)) = length ?bs" using good(1) i by (auto simp: case_prod_unfold row_typed_def)
    have p: "length (row_at pb (snd (M ! i))) = length ?ps" using length_row_at [OF wfp(1)] by simp
    have "map (\<lambda>v. vget v i) bvs = map join_cell (fst (M ! i))"
      using eachb i lens r by (intro nth_equalityI) auto
    moreover have "map (\<lambda>v. vget v i) pvs = map join_cell (row_at pb (snd (M ! i)))"
      using eachp i lens p by (intro nth_equalityI) auto
    ultimately show ?thesis by (simp add: row_at_def [of ?b])
  qed
  then have "batch_rows ?b = map (\<lambda>i. case M ! i of (r, k) \<Rightarrow> map join_cell (r @ row_at pb k)) [0..<?n]"
    by (simp add: batch_rows_def sel_rows_def len case_prod_unfold)
  also have "\<dots> = map (\<lambda>(r, k). map join_cell (r @ row_at pb k)) (map ((!) M) [0..<?n])" by (simp add: comp_def)
  finally have "batch_rows ?b = emit_rows pb M" by (simp only: emit_rows_def map_nth)
  then show ?thesis using wf bvs(1) pvs(1) by (auto simp: Let_def)
qed

lemma emitMatches_ok:
  assumes "matched j (matchBuf st) M" "matchPos st < length (matchBuf st)" "probeBatch st = Some pb" "good_matches (buildSchema j) pb M"
    "wf_rows (map Type (probeSchema j)) pb"
  shows "\<exists>b. emitMatches j st = Inr (Some b, st\<lparr>matchPos := min (matchPos st + BlockRows) (length M)\<rparr>) \<and>
    wf_rows (map (\<lambda>f. join_type (Type f)) (buildSchema j @ probeSchema j)) b \<and>
    batch_rows b @ drop (min (matchPos st + BlockRows) (length M)) (emit_rows pb M) = drop (matchPos st) (emit_rows pb M)"
proof -
  let ?p = "matchPos st" and ?stop = "min (matchPos st + BlockRows) (length M)"
  let ?rs = "take (?stop - ?p) (drop ?p (matchBuf st))" and ?M = "take (?stop - ?p) (drop ?p M)"
  have len: "length (matchBuf st) = length M" using assms(1) by (auto simp: matched_def dest: list_all2_lengthD)
  have "matched j ?rs ?M" using assms(1) by (auto simp: matched_def intro: list_all2_takeI list_all2_dropI)
  moreover have "length ?M \<le> BlockRows" by simp
  moreover have "good_matches (buildSchema j) pb ?M" using assms(4) unfolding good_matches_def by (meson in_set_dropD in_set_takeD)
  ultimately obtain bvs pvs where *: "map_res (\<lambda>c. buildColumnFromRows (jstore j) ?rs c (Type (buildSchema j ! c))) [0..<length (buildSchema j)] = Inr bvs"
    "map_res (\<lambda>c. probeColumnFromRows pb ?rs c (Type (probeSchema j ! c))) [0..<length (probeSchema j)] = Inr pvs"
    "wf_rows (map (\<lambda>f. join_type (Type f)) (buildSchema j @ probeSchema j)) \<lparr>BSchema = buildSchema j @ probeSchema j, Vectors = bvs @ pvs, BLength = length ?rs, SelVec = None\<rparr>"
    "batch_rows \<lparr>BSchema = buildSchema j @ probeSchema j, Vectors = bvs @ pvs, BLength = length ?rs, SelVec = None\<rparr> = emit_rows pb ?M"
    using emit_chunk [of j ?rs ?M pb] assms(5) unfolding Let_def by blast
  have "emitMatches j st = Inr (Some \<lparr>BSchema = buildSchema j @ probeSchema j, Vectors = bvs @ pvs, BLength = length ?rs, SelVec = None\<rparr>, st\<lparr>matchPos := ?stop\<rparr>)"
    using assms(2,3) len * (1,2) by (simp add: emitMatches_def Let_def BlockRows_def)
  moreover have "emit_rows pb ?M = take (?stop - ?p) (drop ?p (emit_rows pb M))" by (simp add: emit_rows_def take_map drop_map)
  moreover have "take (?stop - ?p) (drop ?p xs) @ drop ?stop xs = drop ?p xs" if "?p \<le> ?stop" for xs :: "val option list list"
    using that by (metis append_take_drop_id drop_drop le_add_diff_inverse2)
  ultimately show ?thesis using * (3,4) assms(2) len by auto
qed

text \<open>A state between probe batches: nothing pending that was not matched, and the current batch used up.\<close>

definition settled :: "HashJoin \<Rightarrow> probe_state \<Rightarrow> (val option list \<times> nat) list \<Rightarrow> Batch \<Rightarrow> bool" where
  "settled j st M pb \<longleftrightarrow> matched j (matchBuf st) M \<and> (case probeBatch st of None \<Rightarrow> M = [] | Some b \<Rightarrow> b = pb \<and> BLength pb \<le> probePos st \<and>
     good_matches (buildSchema j) pb M \<and> wf_rows (map Type (probeSchema j)) pb)"

lemma pull_emits:
  assumes "settled j st M pb" "pull (HashJoin_Next build) (Some j, st\<lparr>matchPos := length M\<rparr>) = Some out" "ends_ok out"
    "\<forall>b \<in> set (batches out). wf_rows (map (\<lambda>f. join_type (Type f)) (buildSchema j @ probeSchema j)) b" "matchPos st \<le> length M"
  shows "\<exists>out'. pull (HashJoin_Next build) (Some j, st) = Some out' \<and> ends_ok out' \<and>
    (\<forall>b \<in> set (batches out'). wf_rows (map (\<lambda>f. join_type (Type f)) (buildSchema j @ probeSchema j)) b) \<and>
    all_rows out' = drop (matchPos st) (emit_rows pb M) @ all_rows out"
  using assms
proof (induction "length M - matchPos st" arbitrary: st rule: less_induct)
  case less
  have len: "length (matchBuf st) = length M" using less.prems(1) by (auto simp: settled_def matched_def dest: list_all2_lengthD)
  show ?case
  proof (cases "matchPos st < length M")
    case False
    then have "matchPos st = length M" using less.prems(5) by simp
    then have "st\<lparr>matchPos := length M\<rparr> = st" "drop (matchPos st) (emit_rows pb M) = []" by (simp_all add: emit_rows_def)
    then show ?thesis using less.prems(2-4) by simp
  next
    case True
    let ?stop = "min (matchPos st + BlockRows) (length M)"
    let ?st = "st\<lparr>matchPos := ?stop\<rparr>"
    have pb: "probeBatch st = Some pb" "good_matches (buildSchema j) pb M" "wf_rows (map Type (probeSchema j)) pb" "matched j (matchBuf st) M"
      using less.prems(1) True by (auto simp: settled_def split: option.splits)
    obtain b where b: "emitMatches j st = Inr (Some b, ?st)" "wf_rows (map (\<lambda>f. join_type (Type f)) (buildSchema j @ probeSchema j)) b"
      "batch_rows b @ drop ?stop (emit_rows pb M) = drop (matchPos st) (emit_rows pb M)"
      using emitMatches_ok [OF pb(4) _ pb(1-3)] True len by auto
    have "HashJoin_loop j st = Some (Inr (Some b, ?st))" using True len b(1) by (subst HashJoin_loop.simps) simp
    then have step: "HashJoin_Next build (Some j, st) = Some (Inr (Some b, Some j, ?st))" by (simp add: HashJoin_Next_def)
    have "settled j ?st M pb" using less.prems(1) by (auto simp: settled_def split: option.splits)
    moreover have "length M - matchPos ?st < length M - matchPos st" using True by (simp add: BlockRows_def)
    ultimately obtain out' where "pull (HashJoin_Next build) (Some j, ?st) = Some out'" "ends_ok out'"
      "\<forall>b \<in> set (batches out'). wf_rows (map (\<lambda>f. join_type (Type f)) (buildSchema j @ probeSchema j)) b"
      "all_rows out' = drop (matchPos ?st) (emit_rows pb M) @ all_rows out"
      using less.hyps [of ?st] less.prems(2-4) by auto
    then show ?thesis unfolding pull_steps(3) [where step = "HashJoin_Next build", OF step] using b(2,3)
      by (intro exI [of _ "Deliver b out'"]) (simp flip: append_assoc)
  qed
qed

definition probe_input :: "Schema \<Rightarrow> nat \<Rightarrow> stream \<Rightarrow> bool" where
  "probe_input schema pk s \<longleftrightarrow> ends_ok s \<and> pk < length schema \<and> (\<forall>b \<in> set (batches s). wf_rows (map Type schema) b)"

lemma matches_of_good:
  assumes "\<forall>r \<in> set rws. row_typed bs r \<and> row_bytes r < 2 ^ 21" "\<forall>i \<in> set is. i < evalLen pb"
  shows "good_matches bs pb (matches_of key pk rws pb is)"
  using assms by (auto simp: good_matches_def matches_of_def matching_def split: if_splits)

lemma probe_pull:
  assumes ans: "answers j key rws" and rws: "\<forall>r \<in> set rws. row_typed (buildSchema j) r \<and> row_bytes r < 2 ^ 21"
    and st: "settled j st M pb" "matchPos st \<le> length M" "probe_input (probeSchema j) (probeKey j) (jprobe st)"
  shows "\<exists>out. pull (HashJoin_Next build) (Some j, st) = Some out \<and> ends_ok out \<and>
    (\<forall>b \<in> set (batches out). wf_rows (map (\<lambda>f. join_type (Type f)) (buildSchema j @ probeSchema j)) b) \<and>
    all_rows out = drop (matchPos st) (emit_rows pb M) @ join_rows key (probeKey j) rws (jprobe st)"
  using st
proof (induction "jprobe st" arbitrary: st M pb)
  case EOF
  let ?st = "st\<lparr>matchPos := length M\<rparr>"
  have len: "length (matchBuf st) = length M" using EOF.prems(1) by (auto simp: settled_def matched_def dest: list_all2_lengthD)
  have "fetch_probe ?st = Inr (None, ?st)" using EOF.hyps EOF.prems(1)
    by (auto simp: fetch_probe_def settled_def EOF.hyps [symmetric] split: option.splits)
  then have "HashJoin_loop j ?st = Some (Inr (None, ?st))" using len by (subst HashJoin_loop.simps) simp
  then have "HashJoin_Next build (Some j, ?st) = Some (Inr (None, Some j, ?st))" by (simp add: HashJoin_Next_def)
  then have "pull (HashJoin_Next build) (Some j, ?st) = Some EOF" by (rule pull_steps(2))
  from pull_emits [OF EOF.prems(1) this _ _ EOF.prems(2)] show ?case using EOF.hyps [symmetric] by (simp add: join_rows_def)
next
  case (Failed e)
  then show ?case by (metis ends_ok.simps(2) probe_input_def)
next
  case (Deliver pb' rest)
  let ?st = "st\<lparr>matchPos := length M\<rparr>"
  have len: "length (matchBuf st) = length M" using Deliver.prems(1) by (auto simp: settled_def matched_def dest: list_all2_lengthD)
  have pi: "probe_input (probeSchema j) (probeKey j) (Deliver pb' rest)" using Deliver.hyps(2) Deliver.prems(3) by simp
  then have wf: "wf_rows (map Type (probeSchema j)) pb'" "probeKey j < length (probeSchema j)" by (simp_all add: probe_input_def)
  then have wb: "wf_batch (map Type (probeSchema j)) pb'" "\<forall>i \<in> set (sel_rows pb'). i < evalLen pb'" by (simp_all add: wf_rows_def)
  let ?M = "matches_of key (probeKey j) rws pb' (sel_rows pb')"
  obtain buf where buf: "visit_rows (probe_visit j) (Vectors pb' ! probeKey j) pb' (sel_rows pb') [] = Some (Inr buf)" "matched j buf ?M"
    using probe_visits [OF ans wb(1) _ wb(2), of "[]" "[]"] wf(2) by (auto simp: matched_def)
  let ?st1 = "?st\<lparr>jprobe := rest, probeBatch := Some pb', probePos := 0\<rparr>"
  let ?st2 = "?st1\<lparr>matchBuf := buf, matchPos := 0, probePos := BLength pb'\<rparr>"
  have "fetch_probe ?st = Inr (Some pb', ?st1)" using Deliver.hyps(2) [symmetric] Deliver.prems(1)
    by (auto simp: fetch_probe_def settled_def split: option.splits)
  moreover have "probe_batch j pb' ?st1 = Some (Inr ?st2)" using buf(1) wb(1) wf(2) by (simp add: probe_batch_def wf_batch_def)
  ultimately have "HashJoin_loop j ?st = HashJoin_loop j ?st2" using len by (subst HashJoin_loop.simps) simp
  then have "HashJoin_Next build (Some j, ?st) = HashJoin_Next build (Some j, ?st2)" by (simp add: HashJoin_Next_def)
  then have same: "pull (HashJoin_Next build) (Some j, ?st) = pull (HashJoin_Next build) (Some j, ?st2)" by (rule pull_same)
  have "settled j ?st2 ?M pb'" using buf(2) wf(1) matches_of_good [OF rws wb(2)] by (simp add: settled_def)
  moreover have "probe_input (probeSchema j) (probeKey j) (jprobe ?st2)" using pi by (simp add: probe_input_def)
  ultimately obtain out where out: "pull (HashJoin_Next build) (Some j, ?st2) = Some out" "ends_ok out"
    "\<forall>b \<in> set (batches out). wf_rows (map (\<lambda>f. join_type (Type f)) (buildSchema j @ probeSchema j)) b"
    "all_rows out = emit_rows pb' ?M @ join_rows key (probeKey j) rws rest"
    using Deliver.hyps(1) [of ?st2 ?M pb'] by auto
  from pull_emits [OF Deliver.prems(1) out(1) [folded same] out(2,3) Deliver.prems(2)] show ?case
    using out(4) Deliver.hyps(2) [symmetric] by (simp add: join_rows_def)
qed

section \<open>Inner joins\<close>

text \<open>The reference: a nested loop over the probe rows and, for each, the build rows with an equal key.\<close>

definition same_key :: "val option \<Rightarrow> val option \<Rightarrow> bool" where
  "same_key x y = (case (x, y) of (Some v, Some w) \<Rightarrow> fst (val_rank v) = fst (val_rank w) | _ \<Rightarrow> False)"

definition inner_join :: "nat \<Rightarrow> nat \<Rightarrow> val option list list \<Rightarrow> val option list list \<Rightarrow> val option list list" where
  "inner_join key pk B P = concat (map (\<lambda>p. map (\<lambda>b. b @ p) (filter (\<lambda>b. same_key (b ! key) (p ! pk)) B)) P)"

definition key_type :: "DataType \<Rightarrow> bool" where
  "key_type t \<longleftrightarrow> t = TypeInt64 \<or> t = TypeDate"

lemma same_key_raw:
  assumes "row_typed bs b" "row_typed ps p" "key < length bs" "pk < length ps" "key_type (Type (bs ! key))" "key_type (Type (ps ! pk))" "p ! pk \<noteq> None"
  shows "same_key (b ! key) (p ! pk) \<longleftrightarrow> b ! key \<noteq> None \<and> cell_raw (b ! key) = cell_raw (p ! pk)"
proof (cases "b ! key")
  case (Some v)
  obtain w where w: "p ! pk = Some w" using assms(7) by blast
  have "key_type (val_type v)" "key_type (val_type w)" using assms Some w by (auto simp: row_typed_def)
  then have "fst (val_rank v) = sint (raw_bits v)" "fst (val_rank w) = sint (raw_bits w)"
    using sint_date by (cases v; cases w; simp add: key_type_def)+
  then show ?thesis using Some w by (auto simp: same_key_def cell_raw_def signed_word_eqI)
qed (auto simp: same_key_def)

lemma join_rows_inner:
  assumes "\<forall>r \<in> set B. row_typed bs r" "key < length bs" "key_type (Type (bs ! key))" "key_type (Type (ps ! pk))" "probe_input ps pk s"
  shows "join_rows key pk B s = map (map join_cell) (inner_join key pk B (all_rows s))"
proof -
  have "emit_rows pb (matches_of key pk B pb is) = map (map join_cell) (inner_join key pk B (map (row_at pb) is))"
    if wf: "wf_batch (map Type ps) pb" for pb "is"
  proof (induction "is")
    case (Cons i "is")
    have "filter (\<lambda>b. same_key (b ! key) (row_at pb i ! pk)) B = (if row_at pb i ! pk = None then [] else matching key (cell_raw (row_at pb i ! pk)) B)"
    proof (cases "row_at pb i ! pk = None")
      case True
      then show ?thesis by (simp add: same_key_def split: option.splits)
    next
      case False
      have "\<forall>b \<in> set B. same_key (b ! key) (row_at pb i ! pk) \<longleftrightarrow> b ! key \<noteq> None \<and> cell_raw (b ! key) = cell_raw (row_at pb i ! pk)"
        using same_key_raw [OF _ row_at_typed [OF wf] assms(2) _ assms(3,4) False] assms(1,5) by (simp add: probe_input_def)
      then have "filter (\<lambda>b. same_key (b ! key) (row_at pb i ! pk)) B = matching key (cell_raw (row_at pb i ! pk)) B"
        unfolding matching_def by (intro filter_cong) auto
      then show ?thesis using False by auto
    qed
    then show ?case using Cons by (simp add: emit_rows_def matches_of_def inner_join_def)
  qed (simp add: emit_rows_def matches_of_def inner_join_def)
  then have one: "emit_rows pb (matches_of key pk B pb (sel_rows pb)) = map (map join_cell) (inner_join key pk B (batch_rows pb))" if "pb \<in> set (batches s)" for pb
    using that assms(5) by (simp add: probe_input_def wf_rows_def batch_rows_def)
  have "inner_join key pk B (concat rss) = concat (map (inner_join key pk B) rss)" for rss
    by (induction rss) (simp_all add: inner_join_def)
  then show ?thesis unfolding join_rows_def all_rows_def using one by (simp add: comp_def map_concat cong: map_cong)
qed

lemma all_rows_typed:
  assumes "\<forall>b \<in> set (batches s). wf_rows (map Type schema) b" "r \<in> set (all_rows s)"
  shows "row_typed schema r"
  using assms row_at_typed by (auto simp: all_rows_def batch_rows_def wf_rows_def)

definition join_ok :: "Schema \<Rightarrow> Schema \<Rightarrow> nat \<Rightarrow> nat \<Rightarrow> stream \<Rightarrow> stream \<Rightarrow> bool" where
  "join_ok bs ps key pk src0 probe0 \<longleftrightarrow> build_input bs key src0 \<and> probe_input ps pk probe0 \<and>
     key_type (Type (bs ! key)) \<and> key_type (Type (ps ! pk)) \<and> (\<forall>r \<in> set (all_rows src0). row_bytes r < 2 ^ 21)"

lemma join_pull:
  assumes "join_ok bs ps key pk src0 probe0" "answers j key (all_rows src0)" "buildSchema j = bs" "probeSchema j = ps" "probeKey j = pk"
  shows "\<exists>out. pull (HashJoin_Next build) (Some j, start_probe probe0) = Some out \<and> ends_ok out \<and>
    (\<forall>b \<in> set (batches out). wf_rows (map (\<lambda>f. join_type (Type f)) (bs @ ps)) b) \<and> all_rows out = map (map join_cell) (inner_join key pk (all_rows src0) (all_rows probe0))"
proof -
  have b: "\<forall>b \<in> set (batches src0). wf_rows (map Type bs) b" "key < length bs" using assms(1) by (simp_all add: join_ok_def build_input_def)
  have rws: "\<forall>r \<in> set (all_rows src0). row_typed bs r" using all_rows_typed [OF b(1)] by blast
  have p: "probe_input ps pk probe0" using assms(1) by (simp add: join_ok_def)
  have "join_rows key pk (all_rows src0) probe0 = map (map join_cell) (inner_join key pk (all_rows src0) (all_rows probe0))"
    using join_rows_inner [OF rws b(2) _ _ p] assms(1) by (simp add: join_ok_def)
  moreover have "settled j (start_probe probe0) [] pb" for pb by (simp add: settled_def start_probe_def matched_def)
  moreover have "\<forall>r \<in> set (all_rows src0). row_typed (buildSchema j) r \<and> row_bytes r < 2 ^ 21" using rws assms(1,3) by (simp add: join_ok_def)
  ultimately show ?thesis
    using probe_pull [OF assms(2), of "start_probe probe0" "[]" undefined build] p assms(3-5) by (simp add: start_probe_def emit_rows_def)
qed

lemma serial_join_pull:
  assumes "join_ok bs ps key pk src0 probe0"
  shows "\<exists>out. pull (HashJoin_Next (serial_build bs ps key pk bound src0)) (None, start_probe probe0) = Some out \<and> ends_ok out \<and>
    (\<forall>b \<in> set (batches out). wf_rows (map (\<lambda>f. join_type (Type f)) (bs @ ps)) b) \<and> all_rows out = map (map join_cell) (inner_join key pk (all_rows src0) (all_rows probe0))"
proof -
  have b: "build_input bs key src0" using assms by (simp add: join_ok_def)
  obtain j where j: "serial_build bs ps key pk bound src0 () = Some (Inr j)" "answers j key (all_rows src0)" "buildSchema j = bs" "probeSchema j = ps" "probeKey j = pk"
    using serial_build_answers [OF b] by blast
  have "HashJoin_Next (serial_build bs ps key pk bound src0) (None, st) = HashJoin_Next (serial_build bs ps key pk bound src0) (Some j, st)" for st
    using j(1) by (simp add: HashJoin_Next_def)
  then have same: "pull (HashJoin_Next (serial_build bs ps key pk bound src0)) (None, start_probe probe0) =
      pull (HashJoin_Next (serial_build bs ps key pk bound src0)) (Some j, start_probe probe0)" by (rule pull_same)
  show ?thesis unfolding same by (rule join_pull [OF assms j(2-5)])
qed

text \<open>Where no column is BOOL a join hands its cells on as they are.\<close>

lemma inner_join_cells:
  assumes "\<forall>r \<in> set B. row_typed bs r" "\<forall>r \<in> set P. row_typed ps r" "\<forall>f \<in> set (bs @ ps). Type f \<noteq> TypeBool"
  shows "map (map join_cell) (inner_join key pk B P) = inner_join key pk B P"
proof (rule map_idI)
  fix r assume "r \<in> set (inner_join key pk B P)"
  then obtain b p where r: "r = b @ p" "row_typed bs b" "row_typed ps p" using assms(1,2) by (auto simp: inner_join_def)
  have id: "join_cell x = x" if x: "x \<in> set q" "row_typed sch q" "\<forall>f \<in> set sch. Type f \<noteq> TypeBool" for x q sch
  proof (cases x)
    case (Some v)
    obtain c where "c < length q" "q ! c = Some v" using x(1) Some by (auto simp: in_set_conv_nth)
    then have "val_type v = Type (sch ! c)" "c < length sch" using x(2) by (auto simp: row_typed_def)
    then have "val_type v \<noteq> TypeBool" using x(3) by simp
    then show ?thesis using Some by (cases v) (simp_all add: join_cell_def)
  qed (simp add: join_cell_def)
  show "map join_cell r = r" unfolding r(1) using id [OF _ r(2)] id [OF _ r(3)] assms(3) by (intro map_idI) auto
qed

lemma joined_cells:
  assumes "join_ok bs ps key pk src0 probe0" "\<forall>f \<in> set (bs @ ps). Type f \<noteq> TypeBool"
  shows "map (map join_cell) (inner_join key pk (all_rows src0) (all_rows probe0)) = inner_join key pk (all_rows src0) (all_rows probe0)"
  using assms all_rows_typed by (intro inner_join_cells) (auto simp: join_ok_def build_input_def probe_input_def)

text \<open>
  C3: the hash join computes the inner join. For any batches of build and probe rows (well formed, keys of type INT64 or DATE, at most
  \<open>2 ^ 31 - 1\<close> build rows whose strings stay below 2 MB each), pulling the join to the end terminates without an
  error and yields, for the probe rows in order, each paired with the build rows of equal key in build order, NULL keys matching nothing:
  the rows of the nested-loop join, in its order. Where neither input has a BOOL column the rows are handed on cell by cell; a BOOL cell comes out as the integer 0 or 1.
  The join over its own table, presized or not, and the join over a shared table of any number of radix bits agree.
\<close>

theorem HashJoin_joins:
  assumes "join_ok bs ps key pk src0 probe0" and J: "J = inner_join key pk (all_rows src0) (all_rows probe0)"
  shows "(\<exists>out. pull (HashJoin_Next (serial_build bs ps key pk bound src0)) (None, start_probe probe0) = Some out \<and> ends_ok out \<and>
      all_rows out = map (map join_cell) J \<and> ((\<forall>f \<in> set (bs @ ps). Type f \<noteq> TypeBool) \<longrightarrow> all_rows out = J)) \<and>
    (\<exists>sht j out. BuildSharedHashTableRadix bs key bits bound' src0 = Some (Inr sht) \<and> NewHashJoinShared (Some sht) ps (int pk) = Inr j \<and>
      pull (HashJoin_Next build) (Some j, start_probe probe0) = Some out \<and> ends_ok out \<and>
      all_rows out = map (map join_cell) J \<and> ((\<forall>f \<in> set (bs @ ps). Type f \<noteq> TypeBool) \<longrightarrow> all_rows out = J))"
proof -
  have b: "build_input bs key src0" and pk: "pk < length ps" using assms(1) by (simp_all add: join_ok_def probe_input_def)
  obtain sht i where i: "BuildSharedHashTableRadix bs key bits bound' src0 = Some (Inr sht)" "NewHashJoinShared (Some sht) ps (int pk) = Inr i"
    "answers i key (all_rows src0)" "buildSchema i = bs" "probeSchema i = ps" "probeKey i = pk" using shared_build_answers [OF b pk] by blast
  have cells: "map (map join_cell) J = J" if "\<forall>f \<in> set (bs @ ps). Type f \<noteq> TypeBool" unfolding J using joined_cells [OF assms(1) that] .
  obtain out out' where "pull (HashJoin_Next (serial_build bs ps key pk bound src0)) (None, start_probe probe0) = Some out" "ends_ok out" "all_rows out = map (map join_cell) J"
    "pull (HashJoin_Next build) (Some i, start_probe probe0) = Some out'" "ends_ok out'" "all_rows out' = map (map join_cell) J"
    using serial_join_pull [OF assms(1), of bound] join_pull [OF assms(1) i(3-6), of build] unfolding J by blast
  moreover from this cells have "(\<forall>f \<in> set (bs @ ps). Type f \<noteq> TypeBool) \<longrightarrow> all_rows out = J" "(\<forall>f \<in> set (bs @ ps). Type f \<noteq> TypeBool) \<longrightarrow> all_rows out' = J" by simp_all
  ultimately show ?thesis using i(1,2) by blast
qed

lemma ex_join_ok: "join_ok ex_schema ex_schema 0 0 (stream_of [ex_ints]) (stream_of [ex_ints])"
  using ex_ints_wf by (simp add: join_ok_def build_input_def probe_input_def ex_schema_def key_type_def all_rows_def ex_ints_rows maxBuildRows_def row_bytes_def)

theorem HashJoin_joins_witness:
  "\<exists>out. pull (HashJoin_Next (serial_build ex_schema ex_schema 0 0 None (stream_of [ex_ints]))) (None, start_probe (stream_of [ex_ints])) = Some out \<and>
    all_rows out = [[Some (VInt 5), Some (VInt 5)], [Some (VInt 5), Some (VInt 5)], [Some (VInt 7), Some (VInt 7)],
      [Some (VInt 5), Some (VInt 5)], [Some (VInt 5), Some (VInt 5)]]"
proof -
  have "inner_join 0 0 (all_rows (stream_of [ex_ints])) (all_rows (stream_of [ex_ints])) = [[Some (VInt 5), Some (VInt 5)], [Some (VInt 5), Some (VInt 5)],
      [Some (VInt 7), Some (VInt 7)], [Some (VInt 5), Some (VInt 5)], [Some (VInt 5), Some (VInt 5)]]"
    by (simp add: inner_join_def all_rows_def ex_ints_rows same_key_def)
  moreover have "\<forall>f \<in> set (ex_schema @ ex_schema). Type f \<noteq> TypeBool" by (simp add: ex_schema_def)
  ultimately show ?thesis using HashJoin_joins [OF ex_join_ok refl, of None 0 None "\<lambda>_. None"] by auto
qed

text \<open>
  C36: the columns a join hands on, at their types: the build columns then the probe columns, each of the type its schema declares except BOOL, which
  comes out as INT64 under a schema that says BOOL.
\<close>

theorem HashJoin_column_types:
  assumes "join_ok bs ps key pk src0 probe0"
  shows "\<exists>out. pull (HashJoin_Next (serial_build bs ps key pk bound src0)) (None, start_probe probe0) = Some out \<and>
    (\<forall>b \<in> set (batches out). map VType (Vectors b) = map (\<lambda>f. if Type f = TypeBool then TypeInt64 else Type f) (bs @ ps))"
proof -
  have "map VType (Vectors b) = map (\<lambda>f. if Type f = TypeBool then TypeInt64 else Type f) (bs @ ps)"
    if "wf_rows (map (\<lambda>f. join_type (Type f)) (bs @ ps)) b" for b
    using that by (intro nth_equalityI) (auto simp: wf_rows_def wf_batch_def join_type_def)
  then show ?thesis using serial_join_pull [OF assms, of bound] by blast
qed

theorem HashJoin_column_types_witness:
  "\<exists>out. pull (HashJoin_Next (serial_build ex_schema ex_schema 0 0 None (stream_of [ex_ints]))) (None, start_probe (stream_of [ex_ints])) = Some out \<and>
    (\<forall>b \<in> set (batches out). map VType (Vectors b) = [TypeInt64, TypeInt64])"
  using HashJoin_column_types [OF ex_join_ok, of None] by (simp add: ex_schema_def)

end
