(* ===== verification/Aggregate.thy ===== *)
theory Aggregate
  imports Distinct Sort
begin

text \<open>
  GROUP BY and the aggregate functions (\<^verbatim>\<open>exec/aggregate.go\<close>): per group and aggregate an accumulator, a count of
  non-null inputs, a string for string MIN/MAX and the value sets of COUNT(DISTINCT). The source keeps one map from group keys to a
  slice per kind of state; here a group is the list of its aggregates' \<open>slot\<close>s. Groups are found through the
  byte key that the duplicate eliminator uses. The packed-integer keys of \<^verbatim>\<open>agg_intkey.go\<close> are in \<open>IntKey\<close>.
\<close>

section \<open>Aggregates and their slots\<close>

datatype AggKind = AggCount | AggSum | AggAvg | AggMin | AggMax | AggCountDistinct

text \<open>\<open>AccumType\<close> is \<open>None\<close> where the source has the zero value: not set by the caller.\<close>

record AggExpr =
  AKind :: AggKind
  AColIdx :: int
  OutName :: string
  ADistinct :: bool
  AccumType :: "DataType option"

definition AccumTypeFor :: "AggKind \<Rightarrow> DataType \<Rightarrow> DataType" where
  "AccumTypeFor kind srcType = (case kind of
     AggAvg \<Rightarrow> TypeFloat64
   | AggSum \<Rightarrow> if srcType = TypeFloat64 then TypeFloat64 else TypeInt64
   | AggMin \<Rightarrow> (case srcType of TypeFloat64 \<Rightarrow> TypeFloat64 | TypeString \<Rightarrow> TypeString | _ \<Rightarrow> TypeInt64)
   | AggMax \<Rightarrow> (case srcType of TypeFloat64 \<Rightarrow> TypeFloat64 | TypeString \<Rightarrow> TypeString | _ \<Rightarrow> TypeInt64)
   | _ \<Rightarrow> TypeInt64)"

record groupByVal =
  gnull :: bool
  gstr :: string
  gbits :: u64

record slot =
  acc :: i64
  nonNull :: i64
  strAcc :: string
  dInts :: "i64 set option"
  dStrs :: "string set option"

definition f_max :: f64 where "f_max = 0x7FEFFFFFFFFFFFFF"

definition f_min :: f64 where "f_min = 0xFFEFFFFFFFFFFFFF"

definition new_slot :: "AggExpr \<Rightarrow> slot" where
  "new_slot ae = \<lparr>acc = (case AKind ae of
       AggMin \<Rightarrow> (case AccumType ae of Some TypeFloat64 \<Rightarrow> f_max | Some TypeString \<Rightarrow> 0 | _ \<Rightarrow> 0x7FFFFFFFFFFFFFFF)
     | AggMax \<Rightarrow> (case AccumType ae of Some TypeFloat64 \<Rightarrow> f_min | Some TypeString \<Rightarrow> 0 | _ \<Rightarrow> 0x8000000000000000)
     | _ \<Rightarrow> 0), nonNull = 0, strAcc = [], dInts = None, dStrs = None\<rparr>"

definition minMaxString :: "string \<Rightarrow> string \<Rightarrow> bool \<Rightarrow> bool \<Rightarrow> string" where
  "minMaxString old s seen lss = (if \<not> seen then s else if lss then (if s < old then s else old) else if old < s then s else old)"

text \<open>A column an aggregate reads: COUNT(*) has none, and any other aggregate without one dereferences nil.\<close>

definition with_vec :: "vector option \<Rightarrow> (vector \<Rightarrow> 'a xres) \<Rightarrow> 'a xres" where
  "with_vec v f = (case v of None \<Rightarrow> Inl Panic | Some v \<Rightarrow> f v)"

definition skip_null :: "vector \<Rightarrow> nat \<Rightarrow> slot \<Rightarrow> slot xres \<Rightarrow> slot xres" where
  "skip_null v i s m = res_bind (IsNull v i) (\<lambda>null. if null then Inr s else m)"

definition bump :: "slot \<Rightarrow> slot" where
  "bump s = s\<lparr>nonNull := nonNull s + 1\<rparr>"

definition minmax_num :: "AggExpr \<Rightarrow> i64 \<Rightarrow> slot \<Rightarrow> slot" where
  "minmax_num ae x s = (let lss = (AKind ae = AggMin) in
     if (if AccumType ae = Some TypeFloat64 then (lss \<and> f_lt x (acc s)) \<or> (\<not> lss \<and> f_lt (acc s) x)
         else (lss \<and> sint x < sint (acc s)) \<or> (\<not> lss \<and> sint (acc s) < sint x))
     then s\<lparr>acc := x\<rparr> else s)"

text \<open>A value into the set of COUNT(DISTINCT), which is made when first needed. Without \<open>hasDistinct\<close> the slices that hold the sets were never made.\<close>

definition add_str :: "bool \<Rightarrow> string \<Rightarrow> slot \<Rightarrow> slot xres" where
  "add_str sets str s = (if \<not> sets then Inl Panic else Inr (s\<lparr>dStrs := Some (insert str (case dStrs s of None \<Rightarrow> {} | Some S \<Rightarrow> S))\<rparr>))"

definition add_int :: "bool \<Rightarrow> i64 \<Rightarrow> slot \<Rightarrow> slot xres" where
  "add_int sets x s = (if \<not> sets then Inl Panic else Inr (s\<lparr>dInts := Some (insert x (case dInts s of None \<Rightarrow> {} | Some S \<Rightarrow> S))\<rparr>))"

text \<open>One row into one slot: the switch of \<^verbatim>\<open>accumulate\<close>.\<close>

definition accum_slot :: "bool \<Rightarrow> AggExpr \<Rightarrow> vector option \<Rightarrow> nat \<Rightarrow> slot \<Rightarrow> slot xres" where
  "accum_slot sets ae v i s = (case AKind ae of
     AggCount \<Rightarrow> if AColIdx ae < 0 then Inr (bump (s\<lparr>acc := acc s + 1\<rparr>))
       else with_vec v (\<lambda>v. skip_null v i s (Inr (bump (s\<lparr>acc := acc s + 1\<rparr>))))
   | AggCountDistinct \<Rightarrow> with_vec v (\<lambda>v. skip_null v i s (case v of
       StringVector cs d nb \<Rightarrow> res_bind (StringVector_Get cs d i) (\<lambda>str. add_str sets str s)
     | _ \<Rightarrow> res_bind (extractInt64 v i) (\<lambda>x. add_int sets x s)))
   | AggSum \<Rightarrow> with_vec v (\<lambda>v. skip_null v i s (if AccumType ae = Some TypeFloat64
       then (case v of Float64Vector xs nb \<Rightarrow> res_map (\<lambda>x. bump (s\<lparr>acc := f_add (acc s) x\<rparr>)) (idx xs i) | _ \<Rightarrow> Inl Panic)
       else res_map (\<lambda>x. bump (s\<lparr>acc := acc s + x\<rparr>)) (extractInt64 v i)))
   | AggAvg \<Rightarrow> with_vec v (\<lambda>v. skip_null v i s (case v of
       Float64Vector xs nb \<Rightarrow> res_map (\<lambda>x. bump (s\<lparr>acc := f_add (acc s) x\<rparr>)) (idx xs i)
     | _ \<Rightarrow> res_map (\<lambda>x. bump (s\<lparr>acc := f_add (acc s) (f_of_int64 x)\<rparr>)) (extractInt64 v i)))
   | _ \<Rightarrow> with_vec v (\<lambda>v. skip_null v i s (if AccumType ae = Some TypeString
       then (case v of StringVector cs d nb \<Rightarrow> res_map (\<lambda>str. bump (s\<lparr>strAcc := minMaxString (strAcc s) str (0 < sint (nonNull s)) (AKind ae = AggMin)\<rparr>)) (StringVector_Get cs d i)
             | _ \<Rightarrow> Inl Panic)
       else res_map (\<lambda>x. minmax_num ae x (bump s)) (extractInt64 v i))))"

definition fold_slots :: "(AggExpr \<Rightarrow> vector option \<Rightarrow> nat \<Rightarrow> slot \<Rightarrow> slot xres) \<Rightarrow> AggExpr list \<Rightarrow> vector option list \<Rightarrow> nat \<Rightarrow> slot list \<Rightarrow> slot list xres" where
  "fold_slots step aggs vecs i ss = map_res (\<lambda>((ae, v), s). step ae v i s) (zip (zip aggs vecs) ss)"


section \<open>The operator's state\<close>

record agg_conf =
  groupBy :: "nat list"
  aggExprs :: "AggExpr list"
  aschema :: Schema
  hasDistinct :: bool

definition hasStrAgg :: "agg_conf \<Rightarrow> bool" where
  "hasStrAgg h \<longleftrightarrow> (\<exists>ae \<in> set (aggExprs h). AccumType ae = Some TypeString)"

record group_maps =
  gkeys :: "byte list list"
  groups :: "byte list \<rightharpoonup> slot list"
  samples :: "byte list \<rightharpoonup> groupByVal list"

definition initMaps :: group_maps where
  "initMaps = \<lparr>gkeys = [], groups = Map.empty, samples = Map.empty\<rparr>"

definition resolve_agg :: "Schema \<Rightarrow> AggExpr \<Rightarrow> (AggExpr \<times> Field) xres" where
  "resolve_agg childSchema ae = (
     if 0 \<le> AColIdx ae \<and> int (length childSchema) \<le> AColIdx ae then Inl (Err ErrAggColumn) else
     let srcType = (if 0 \<le> AColIdx ae then Type (childSchema ! nat (AColIdx ae)) else TypeInt64) in
     if (AKind ae = AggSum \<or> AKind ae = AggAvg) \<and> srcType \<noteq> TypeInt64 \<and> srcType \<noteq> TypeFloat64 then Inl (Err ErrAggInput) else
     let ae = (if AccumType ae = None then ae\<lparr>AccumType := Some (AccumTypeFor (AKind ae) srcType)\<rparr> else ae);
         t = (case AKind ae of AggCount \<Rightarrow> TypeInt64 | AggCountDistinct \<Rightarrow> TypeInt64 | AggAvg \<Rightarrow> TypeFloat64 | _ \<Rightarrow> srcType)
     in Inr (ae, \<lparr>Name = OutName ae, Type = t, FEncoding = EncPlain, Nullable = True\<rparr>))"

definition NewHashAggregate :: "Schema \<Rightarrow> int list \<Rightarrow> AggExpr list \<Rightarrow> agg_conf xres" where
  "NewHashAggregate childSchema gb aggs = (if aggs = [] \<and> gb = [] then Inl (Err ErrAggEmpty) else
     res_bind (map_res (\<lambda>ix. if ix < 0 \<or> int (length childSchema) \<le> ix then Inl (Err ErrGroupByColumn) else Inr (childSchema ! nat ix)) gb) (\<lambda>gfs.
     res_map (\<lambda>rs. \<lparr>groupBy = map nat gb, aggExprs = map fst rs, aschema = gfs @ map snd rs,
         hasDistinct = (\<exists>ae \<in> set aggs. AKind ae = AggCountDistinct)\<rparr>)
       (map_res (resolve_agg childSchema) aggs)))"

definition agg_vecs :: "agg_conf \<Rightarrow> Batch \<Rightarrow> vector option list xres" where
  "agg_vecs h batch = map_res (\<lambda>ae. if 0 \<le> AColIdx ae then res_map Some (idx (Vectors batch) (nat (AColIdx ae))) else Inr None) (aggExprs h)"

definition checkStrAggVecs :: "agg_conf \<Rightarrow> vector option list \<Rightarrow> unit xres" where
  "checkStrAggVecs h vecs = (if \<forall>(ae, v) \<in> set (zip (aggExprs h) vecs). AccumType ae = Some TypeString \<longrightarrow>
       (case v of Some (StringVector _ _ _) \<Rightarrow> True | _ \<Rightarrow> False) then Inr () else Inl (Err ErrAggStrings))"

text \<open>The key of a row, in the format of \<^verbatim>\<open>Distinct.buildKey\<close> over the group-by columns.\<close>

definition agg_key :: "nat list \<Rightarrow> Batch \<Rightarrow> nat \<Rightarrow> byte list xres" where
  "agg_key gb batch rowIdx = fold_res (\<lambda>buf c. res_bind (idx (Vectors batch) c) (key_cell rowIdx buf)) [] gb"

definition sample_cell :: "Batch \<Rightarrow> nat \<Rightarrow> nat \<Rightarrow> groupByVal xres" where
  "sample_cell batch rowIdx c = res_bind (idx (Vectors batch) c) (\<lambda>v. res_bind (IsNull v rowIdx) (\<lambda>null.
     if null then Inr \<lparr>gnull = True, gstr = [], gbits = 0\<rparr> else (case v of
       StringVector cs d nb \<Rightarrow> res_map (\<lambda>s. \<lparr>gnull = False, gstr = s, gbits = 0\<rparr>) (case d of None \<Rightarrow> Inr [] | Some _ \<Rightarrow> StringVector_Get cs d rowIdx)
     | _ \<Rightarrow> res_map (\<lambda>x. \<lparr>gnull = False, gstr = [], gbits = x\<rparr>) (extractInt64 v rowIdx))))"

text \<open>The value sets that a new group of \<^verbatim>\<open>accumulate\<close> starts with; elsewhere they are made when first needed.\<close>

definition init_distinct :: "AggExpr \<Rightarrow> vector option \<Rightarrow> slot \<Rightarrow> slot" where
  "init_distinct ae v s = (if AKind ae = AggCountDistinct \<and> 0 \<le> AColIdx ae then
     (case v of Some (StringVector _ _ _) \<Rightarrow> s\<lparr>dStrs := Some {}\<rparr> | _ \<Rightarrow> s\<lparr>dInts := Some {}\<rparr>) else s)"

definition new_group :: "agg_conf \<Rightarrow> bool \<Rightarrow> vector option list \<Rightarrow> slot list" where
  "new_group h sets vecs = map (\<lambda>(ae, v). (if sets \<and> hasDistinct h then init_distinct ae v else id) (new_slot ae)) (zip (aggExprs h) vecs)"

definition string_row :: "agg_conf \<Rightarrow> bool \<Rightarrow> (AggExpr \<Rightarrow> vector option \<Rightarrow> nat \<Rightarrow> slot \<Rightarrow> slot xres) \<Rightarrow> Batch \<Rightarrow> vector option list \<Rightarrow> byte list \<Rightarrow> nat \<Rightarrow> group_maps \<Rightarrow> group_maps xres" where
  "string_row h sets step batch vecs key rowIdx g = res_bind
     (if groups g key = None then res_map (\<lambda>sample. g\<lparr>groups := (groups g)(key \<mapsto> new_group h sets vecs), gkeys := gkeys g @ [key],
         samples := (samples g)(key \<mapsto> sample)\<rparr>) (map_res (sample_cell batch rowIdx) (groupBy h))
      else Inr g)
     (\<lambda>g. res_map (\<lambda>ss. g\<lparr>groups := (groups g)(key \<mapsto> ss)\<rparr>) (fold_slots step (aggExprs h) vecs rowIdx (the (groups g key))))"

definition string_rows :: "agg_conf \<Rightarrow> Batch \<Rightarrow> vector option list \<Rightarrow> group_maps \<Rightarrow> group_maps xres" where
  "string_rows h batch vecs g = fold_res (\<lambda>g i. res_bind (agg_key (groupBy h) batch i) (\<lambda>key. string_row h True (accum_slot (hasDistinct h)) batch vecs key i g)) g (sel_rows batch)"


section \<open>Aggregation without GROUP BY\<close>

text \<open>
  The shapes of the loops: one that updates the slot at every row whose cell is not NULL, and one that keeps the running value in a local variable, which is stored after the loop.
  A nil vector is dereferenced by the first row, or by the type assertion before the loop where there is one.
\<close>

definition direct_each :: "vector option \<Rightarrow> nat list \<Rightarrow> (vector \<Rightarrow> nat \<Rightarrow> slot \<Rightarrow> slot xres) \<Rightarrow> slot \<Rightarrow> slot xres" where
  "direct_each v is body s = fold_res (\<lambda>s i. case v of None \<Rightarrow> Inl Panic | Some v \<Rightarrow> res_bind (IsNull v i) (\<lambda>null. if \<not> null then body v i s else Inr s)) s is"

definition direct_local :: "(nat \<Rightarrow> bool xres) \<Rightarrow> (nat \<Rightarrow> f64 xres) \<Rightarrow> (f64 \<Rightarrow> f64 \<Rightarrow> f64) \<Rightarrow> nat list \<Rightarrow> slot \<Rightarrow> slot xres" where
  "direct_local null val f is s = res_map (\<lambda>(cur, n). s\<lparr>acc := cur, nonNull := n\<rparr>)
     (fold_res (\<lambda>(cur, n) i. res_bind (null i) (\<lambda>b. if \<not> b then res_map (\<lambda>x. (f cur x, n + 1)) (val i) else Inr (cur, n))) (acc s, nonNull s) is)"

definition direct_floats :: "vector option \<Rightarrow> nat list \<Rightarrow> (f64 \<Rightarrow> f64 \<Rightarrow> f64) \<Rightarrow> slot \<Rightarrow> slot xres" where
  "direct_floats v is f s = (case v of Some (Float64Vector xs nb) \<Rightarrow> direct_local (IsNull (Float64Vector xs nb)) (idx xs) f is s | _ \<Rightarrow> Inl Panic)"

definition direct_strings :: "bool \<Rightarrow> vector option \<Rightarrow> nat list \<Rightarrow> slot \<Rightarrow> slot xres" where
  "direct_strings lss v is s = (case v of Some (StringVector cs d nb) \<Rightarrow>
       fold_res (\<lambda>s i. res_bind (IsNull (StringVector cs d nb) i) (\<lambda>null. if \<not> null
         then res_map (\<lambda>str. s\<lparr>strAcc := minMaxString (strAcc s) str (0 < sint (nonNull s)) lss, nonNull := nonNull s + 1\<rparr>) (StringVector_Get cs d i)
         else Inr s)) s is
     | _ \<Rightarrow> Inl Panic)"

text \<open>All rows of a batch into one slot: per aggregate one loop, COUNT(*) in one addition.\<close>

definition direct_slot :: "bool \<Rightarrow> AggExpr \<Rightarrow> vector option \<Rightarrow> nat list \<Rightarrow> slot \<Rightarrow> slot xres" where
  "direct_slot sets ae v is s = (case AKind ae of
     AggCount \<Rightarrow> if AColIdx ae < 0 then Inr (s\<lparr>acc := acc s + word_of_nat (length is), nonNull := nonNull s + word_of_nat (length is)\<rparr>)
       else direct_each v is (\<lambda>v i s. Inr (s\<lparr>acc := acc s + 1, nonNull := nonNull s + 1\<rparr>)) s
   | AggCountDistinct \<Rightarrow> direct_each v is (\<lambda>v i s. case v of
         StringVector cs d nb \<Rightarrow> res_bind (StringVector_Get cs d i) (\<lambda>str. add_str sets str s)
       | _ \<Rightarrow> res_bind (extractInt64 v i) (\<lambda>x. add_int sets x s)) s
   | AggSum \<Rightarrow> if AccumType ae = Some TypeFloat64 then direct_floats v is f_add s
       else direct_each v is (\<lambda>v i s. res_map (\<lambda>x. s\<lparr>acc := acc s + x, nonNull := nonNull s + 1\<rparr>) (extractInt64 v i)) s
   | AggAvg \<Rightarrow> (case v of Some (Float64Vector xs nb) \<Rightarrow> direct_floats v is f_add s
       | _ \<Rightarrow> direct_local (\<lambda>i. with_vec v (\<lambda>v. IsNull v i)) (\<lambda>i. with_vec v (\<lambda>v. res_map f_of_int64 (extractInt64 v i))) f_add is s)
   | AggMin \<Rightarrow> if AccumType ae = Some TypeString then direct_strings True v is s
       else if AccumType ae = Some TypeFloat64 then direct_floats v is (\<lambda>cur x. if f_lt x cur then x else cur) s
       else direct_each v is (\<lambda>v i s. res_map (\<lambda>x. s\<lparr>acc := (if sint x < sint (acc s) then x else acc s), nonNull := nonNull s + 1\<rparr>) (extractInt64 v i)) s
   | AggMax \<Rightarrow> if AccumType ae = Some TypeString then direct_strings False v is s
       else if AccumType ae = Some TypeFloat64 then direct_floats v is (\<lambda>cur x. if f_lt cur x then x else cur) s
       else direct_each v is (\<lambda>v i s. res_map (\<lambda>x. s\<lparr>acc := (if sint (acc s) < sint x then x else acc s), nonNull := nonNull s + 1\<rparr>) (extractInt64 v i)) s)"

definition accumulateDirect :: "agg_conf \<Rightarrow> nat list \<Rightarrow> vector option list \<Rightarrow> group_maps \<Rightarrow> group_maps xres" where
  "accumulateDirect h is vecs g = (let g = (if groups g [] = None then g\<lparr>groups := (groups g)([] \<mapsto> new_group h False vecs), gkeys := gkeys g @ [[]]\<rparr> else g) in
     res_map (\<lambda>ss. g\<lparr>groups := (groups g)([] \<mapsto> ss)\<rparr>)
       (map_res (\<lambda>((ae, v), s). direct_slot (hasDistinct h) ae v is s) (zip (zip (aggExprs h) vecs) (the (groups g [])))))"


section \<open>One row into a slot\<close>

text \<open>The cell an aggregate reads of a row, and what it does with it. COUNT(*) reads none.\<close>

definition agg_arg :: "AggExpr \<Rightarrow> val option list \<Rightarrow> val option" where
  "agg_arg ae r = (if AColIdx ae < 0 then None else r ! nat (AColIdx ae))"

definition agg_step :: "AggExpr \<Rightarrow> val option \<Rightarrow> slot \<Rightarrow> slot" where
  "agg_step ae x s = (case x of
     None \<Rightarrow> if AColIdx ae < 0 then bump (s\<lparr>acc := acc s + 1\<rparr>) else s
   | Some y \<Rightarrow> (case AKind ae of
       AggCount \<Rightarrow> bump (s\<lparr>acc := acc s + 1\<rparr>)
     | AggCountDistinct \<Rightarrow> if val_type y = TypeString
         then s\<lparr>dStrs := Some (insert (cell_str x) (case dStrs s of None \<Rightarrow> {} | Some S \<Rightarrow> S))\<rparr>
         else s\<lparr>dInts := Some (insert (raw_bits y) (case dInts s of None \<Rightarrow> {} | Some S \<Rightarrow> S))\<rparr>
     | AggSum \<Rightarrow> bump (s\<lparr>acc := (if AccumType ae = Some TypeFloat64 then f_add (acc s) (raw_bits y) else acc s + raw_bits y)\<rparr>)
     | AggAvg \<Rightarrow> bump (s\<lparr>acc := f_add (acc s) (if val_type y = TypeFloat64 then raw_bits y else f_of_int64 (raw_bits y))\<rparr>)
     | _ \<Rightarrow> if AccumType ae = Some TypeString
         then bump (s\<lparr>strAcc := minMaxString (strAcc s) (cell_str x) (0 < sint (nonNull s)) (AKind ae = AggMin)\<rparr>)
         else minmax_num ae (raw_bits y) (bump s)))"

text \<open>An aggregate fits the input columns: as \<^verbatim>\<open>NewHashAggregate\<close> and the planner resolve it.\<close>

definition agg_ok :: "DataType list \<Rightarrow> AggExpr \<Rightarrow> bool" where
  "agg_ok G ae \<longleftrightarrow> (if AColIdx ae < 0 then AKind ae = AggCount \<and> AccumType ae = Some TypeInt64
     else nat (AColIdx ae) < length G \<and> AccumType ae = Some (AccumTypeFor (AKind ae) (G ! nat (AColIdx ae))) \<and>
       (AKind ae = AggSum \<or> AKind ae = AggAvg \<longrightarrow> G ! nat (AColIdx ae) = TypeInt64 \<or> G ! nat (AColIdx ae) = TypeFloat64))"

definition agg_vec :: "Batch \<Rightarrow> AggExpr \<Rightarrow> vector option" where
  "agg_vec b ae = (if 0 \<le> AColIdx ae then Some (Vectors b ! nat (AColIdx ae)) else None)"

lemma agg_vecs_ok:
  assumes "wf_batch G b" "\<forall>ae \<in> set (aggExprs h). agg_ok G ae"
  shows "agg_vecs h b = Inr (map (agg_vec b) (aggExprs h))"
  unfolding agg_vecs_def
proof (rule map_res_ok)
  fix ae assume "ae \<in> set (aggExprs h)"
  then have "agg_ok G ae" "length (Vectors b) = length G" using assms by (simp_all add: wf_batch_def)
  then show "(if 0 \<le> AColIdx ae then res_map Some (idx (Vectors b) (nat (AColIdx ae))) else Inr None) = Inr (agg_vec b ae)"
    by (auto simp: agg_ok_def agg_vec_def)
qed

lemma accum_slot_ok:
  assumes "wf_batch G b" "i < evalLen b" "agg_ok G ae" "sets \<or> AKind ae \<noteq> AggCountDistinct"
  shows "accum_slot sets ae (agg_vec b ae) i s = Inr (agg_step ae (agg_arg ae (row_at b i)) s)"
proof (cases "AColIdx ae < 0")
  case True
  then show ?thesis using assms(3) by (simp add: agg_ok_def accum_slot_def agg_step_def agg_arg_def)
next
  case False
  let ?c = "nat (AColIdx ae)" and ?v = "Vectors b ! nat (AColIdx ae)"
  have c: "?c < length (Vectors b)" "?c < length G" and acc: "AccumType ae = Some (AccumTypeFor (AKind ae) (G ! ?c))"
    "AKind ae = AggSum \<or> AKind ae = AggAvg \<Longrightarrow> G ! ?c = TypeInt64 \<or> G ! ?c = TypeFloat64"
    using assms(1,3) False by (auto simp: agg_ok_def wf_batch_def)
  have v: "wf_vector (evalLen b) ?v" "VType ?v = G ! ?c" using assms(1) c by (auto simp: wf_batch_def)
  have arg: "agg_arg ae (row_at b i) = vget ?v i" "agg_vec b ae = Some ?v" using False c by (simp_all add: agg_arg_def row_at_def agg_vec_def)
  note null = IsNull_ok [OF v(1) assms(2)]
  show ?thesis
  proof (cases "vget ?v i")
    case None
    then have "IsNull ?v i = Inr True" using null by (simp add: vget_None_iff)
    then show ?thesis using None arg False
      by (simp add: accum_slot_def agg_step_def with_vec_def skip_null_def split: AggKind.split)
  next
    case (Some y)
    then have nn: "IsNull ?v i = Inr False" using null vget_None_iff [of ?v i] by simp
    have y: "val_type y = G ! ?c" using vget_type [OF Some] v(2) by simp
    have ex: "extractInt64 ?v i = Inr (raw_bits y)" using extractInt64_cell [OF v(1) assms(2)] Some by (simp add: cell_raw_def)
    have str: "StringVector_Get cs d i = Inr (cell_str (Some y))" if "?v = StringVector cs d nb" for cs d nb
      using string_cell(2) [of "evalLen b" cs d nb i] v(1) assms(2) Some that by simp
    have flt: "idx xs i = (Inr (raw_bits y) :: f64 xres)" if "?v = Float64Vector xs nb" for xs nb
      using v(1) assms(2) Some that by (auto split: if_splits)
    show ?thesis unfolding arg Some
      using nn y ex str flt v(2) acc assms(4) False
      by (cases ?v; cases "AKind ae")
        (simp_all add: accum_slot_def agg_step_def with_vec_def skip_null_def AccumTypeFor_def add_int_def add_str_def)
  qed
qed

section \<open>The loops without GROUP BY do what the row loop does\<close>

text \<open>The vector kinds that the accumulators of an aggregate can read.\<close>

definition agg_reads :: "AggExpr \<Rightarrow> vector option \<Rightarrow> bool" where
  "agg_reads ae v \<longleftrightarrow> (AKind ae \<in> {AggSum, AggMin, AggMax} \<and> AccumType ae = Some TypeFloat64 \<longrightarrow> map_option VType v = Some TypeFloat64) \<and>
     (AKind ae \<in> {AggMin, AggMax} \<and> AccumType ae = Some TypeString \<longrightarrow> map_option VType v = Some TypeString)"

lemma count_all_rows:
  "AKind ae = AggCount \<Longrightarrow> AColIdx ae < 0 \<Longrightarrow> fold_res (\<lambda>s i. accum_slot sets ae v i s) s is =
    Inr (s\<lparr>acc := acc s + word_of_nat (length is), nonNull := nonNull s + word_of_nat (length is)\<rparr>)"
  by (induction "is" arbitrary: s) (simp_all add: accum_slot_def bump_def algebra_simps)

lemma minmax_bump:
  "AKind ae = AggMin \<Longrightarrow> minmax_num ae x (bump s) = bump (s\<lparr>acc := (if AccumType ae = Some TypeFloat64 then (if f_lt x (acc s) then x else acc s) else if sint x < sint (acc s) then x else acc s)\<rparr>)"
  "AKind ae = AggMax \<Longrightarrow> minmax_num ae x (bump s) = bump (s\<lparr>acc := (if AccumType ae = Some TypeFloat64 then (if f_lt (acc s) x then x else acc s) else if sint (acc s) < sint x then x else acc s)\<rparr>)"
  by (auto simp: minmax_num_def bump_def)

text \<open>A local running value, stored at the end, is the accumulator itself.\<close>

lemma direct_local_fold:
  "direct_local null val f is s = fold_res (\<lambda>s i. res_bind (null i) (\<lambda>b. if b then Inr s else res_map (\<lambda>x. bump (s\<lparr>acc := f (acc s) x\<rparr>)) (val i))) s is"
proof (induction "is" arbitrary: s)
  case (Cons i "is")
  let ?g = "\<lambda>(cur, n) i. res_bind (null i) (\<lambda>b. if \<not> b then res_map (\<lambda>x. (f cur x, n + 1)) (val i) else Inr (cur, n))"
  have out: "res_map (\<lambda>(cur, n). s\<lparr>acc := cur, nonNull := n\<rparr>) (fold_res ?g (f (acc s) x, nonNull s + 1) is) = direct_local null val f is (bump (s\<lparr>acc := f (acc s) x\<rparr>))" for x
    by (simp add: direct_local_def bump_def)
  show ?case
  proof (cases "null i")
    case (Inr b)
    then show ?thesis using Cons.IH out by (cases "val i"; cases b) (simp_all add: direct_local_def [of null val f "i # is"] direct_local_def [of null val f "is" s, symmetric])
  qed (simp add: direct_local_def)
qed (simp add: direct_local_def)

lemma direct_slot_rows:
  assumes "agg_reads ae v"
  shows "direct_slot sets ae v is s = fold_res (\<lambda>s i. accum_slot sets ae v i s) s is"
proof -
  note loops = direct_slot_def direct_each_def direct_floats_def direct_strings_def direct_local_fold accum_slot_def with_vec_def skip_null_def minmax_bump agg_reads_def
  note count = count_all_rows [of ae sets v s "is"]
  show ?thesis
  proof (cases v)
    case None
    then show ?thesis using assms count by (cases "AKind ae") (auto simp: loops cong: fold_res_cong)
  next
    case (Some w)
    have twice: "res_map g (res_map h m) = res_map (\<lambda>x. g (h x)) m" for g :: "f64 \<Rightarrow> slot" and h and m :: "i64 xres" by (cases m) simp_all
    have each: "(\<lambda>s i. res_bind (m i) (\<lambda>null. if \<not> null then body i s else Inr s)) = (\<lambda>s i. res_bind (m i) (\<lambda>null. if null then Inr s else body i s))" for m :: "nat \<Rightarrow> bool xres" and body :: "nat \<Rightarrow> slot \<Rightarrow> slot xres"
      by (intro ext res_bind_cong) auto
    show ?thesis
      using assms Some count each by (cases w; cases "AKind ae") (auto simp: loops bump_def minmax_bump [unfolded bump_def] twice intro!: fold_res_cong res_bind_cong)
  qed
qed

lemma agg_ok_reads:
  assumes "wf_batch G b" "agg_ok G ae"
  shows "agg_reads ae (agg_vec b ae)"
proof (cases "AColIdx ae < 0")
  case True
  then show ?thesis using assms(2) by (simp add: agg_reads_def agg_ok_def)
next
  case False
  then have "VType (Vectors b ! nat (AColIdx ae)) = G ! nat (AColIdx ae)" using assms by (simp add: wf_batch_def agg_ok_def)
  then show ?thesis using assms(2) False
    by (auto simp: agg_reads_def agg_ok_def agg_vec_def AccumTypeFor_def split: DataType.splits if_splits)
qed

lemma fold_accum:
  assumes "wf_batch G b" "\<forall>i \<in> set is. i < evalLen b" "agg_ok G ae" "sets \<or> AKind ae \<noteq> AggCountDistinct"
  shows "fold_res (\<lambda>s i. accum_slot sets ae (agg_vec b ae) i s) s is = Inr (foldl (\<lambda>s r. agg_step ae (agg_arg ae r) s) s (map (row_at b) is))"
  using assms(2)
proof (induction "is" arbitrary: s)
  case (Cons i "is")
  then show ?case using accum_slot_ok [OF assms(1) _ assms(3,4), of i s] by simp
qed simp


section \<open>Groups\<close>

text \<open>
  \<open>slots_of\<close>: the slots of a group after its rows. \<open>gm_ok\<close> is the invariant of the maps: the keys are those of the groups
  \<open>ks\<close>, each once; the entry of a group holds the slots of exactly the rows whose group-by cells are the group's, in
  the order they came; and its sample holds the cells.
\<close>

definition slots_of :: "AggExpr list \<Rightarrow> slot list \<Rightarrow> val option list list \<Rightarrow> slot list" where
  "slots_of aggs s0 rs = foldl (\<lambda>ss r. map (\<lambda>(ae, s). agg_step ae (agg_arg ae r) s) (zip aggs ss)) s0 rs"

lemma slots_of_snoc: "slots_of aggs s0 (rs @ [r]) = map (\<lambda>(ae, s). agg_step ae (agg_arg ae r) s) (zip aggs (slots_of aggs s0 rs))"
  by (simp add: slots_of_def)

lemma slots_of_Nil [simp]: "slots_of aggs s0 [] = s0"
  by (simp add: slots_of_def)

lemma length_slots_of [simp]: "length s0 = length aggs \<Longrightarrow> length (slots_of aggs s0 rs) = length aggs"
  by (induction rs rule: rev_induct) (simp_all add: slots_of_snoc)

lemma nth_slots_of:
  "length s0 = length aggs \<Longrightarrow> j < length aggs \<Longrightarrow>
    slots_of aggs s0 rs ! j = foldl (\<lambda>s r. agg_step (aggs ! j) (agg_arg (aggs ! j) r) s) (s0 ! j) rs"
  by (induction rs rule: rev_induct) (simp_all add: slots_of_snoc)

definition gcells :: "nat list \<Rightarrow> val option list \<Rightarrow> val option list" where
  "gcells gb r = map (\<lambda>c. r ! c) gb"

definition sample_of :: "val option \<Rightarrow> groupByVal" where
  "sample_of x = (case x of None \<Rightarrow> \<lparr>gnull = True, gstr = [], gbits = 0\<rparr>
     | Some v \<Rightarrow> \<lparr>gnull = False, gstr = cell_str x, gbits = raw_bits v\<rparr>)"

definition gm_ok :: "agg_conf \<Rightarrow> slot list \<Rightarrow> val option list list \<Rightarrow> val option list list \<Rightarrow> group_maps \<Rightarrow> bool" where
  "gm_ok h s0 ks rs g \<longleftrightarrow> gkeys g = map enc_row ks \<and> distinct ks \<and> gcells (groupBy h) ` set rs \<subseteq> set ks \<and>
     (\<forall>k \<in> set ks. groups g (enc_row k) = Some (slots_of (aggExprs h) s0 (filter (\<lambda>r. gcells (groupBy h) r = k) rs)) \<and>
        (k \<noteq> [] \<longrightarrow> samples g (enc_row k) = Some (map sample_of k))) \<and>
     (\<forall>key. key \<notin> enc_row ` set ks \<longrightarrow> groups g key = None)"

lemma gm_ok_init: "gm_ok h s0 [] [] initMaps"
  by (simp add: gm_ok_def initMaps_def)

text \<open>A row of an existing group, and the first row of a new one.\<close>

lemma gm_ok_old:
  assumes "gm_ok h s0 ks rs g" "k = gcells (groupBy h) r" "k \<in> set ks" "typed_row T k" "\<forall>k \<in> set ks. typed_row T k"
  shows "gm_ok h s0 ks (rs @ [r]) (g\<lparr>groups := (groups g)(enc_row k \<mapsto>
    slots_of (aggExprs h) s0 (filter (\<lambda>r. gcells (groupBy h) r = k) rs @ [r]))\<rparr>)"
  using assms enc_row_inj [OF assms(4)] unfolding gm_ok_def by (auto simp: image_iff)

lemma gm_ok_new:
  assumes "gm_ok h s0 ks rs g" "k = gcells (groupBy h) r" "k \<notin> set ks" "typed_row T k" "\<forall>k \<in> set ks. typed_row T k"
  shows "gm_ok h s0 (ks @ [k]) (rs @ [r]) (g\<lparr>gkeys := gkeys g @ [enc_row k],
    samples := (samples g)(enc_row k \<mapsto> map sample_of k), groups := (groups g)(enc_row k \<mapsto> slots_of (aggExprs h) s0 [r])\<rparr>)"
proof -
  have "enc_row k' \<noteq> enc_row k" if "k' \<in> set ks" for k' using enc_row_inj [OF assms(4), of k'] assms(3,5) that by auto
  moreover have "filter (\<lambda>r. gcells (groupBy h) r = k) rs = []" using assms(1-3) by (auto simp: gm_ok_def filter_empty_conv)
  moreover have "gcells (groupBy h) r \<noteq> k'" if "k' \<in> set ks" for k' using assms(2,3) that by auto
  ultimately show ?thesis using assms(1-3) unfolding gm_ok_def by (auto simp: image_iff)
qed

lemma typed_gcells: "typed_row G r \<Longrightarrow> \<forall>c \<in> set gb. c < length G \<Longrightarrow> typed_row (map ((!) G) gb) (gcells gb r)"
  by (auto simp: typed_row_def gcells_def list_all2_conv_all_nth)

lemma agg_key_ok:
  assumes "wf_batch G b" "i < evalLen b" "\<forall>c \<in> set gb. c < length G"
  shows "agg_key gb b i = Inr (enc_row (gcells gb (row_at b i)))"
proof -
  have "fold_res (\<lambda>buf c. res_bind (idx (Vectors b) c) (key_cell i buf)) buf gb = Inr (buf @ enc_row (gcells gb (row_at b i)))" for buf
    using assms(3)
  proof (induction gb arbitrary: buf)
    case (Cons c gb)
    then have "c < length (Vectors b)" "wf_vector (evalLen b) (Vectors b ! c)" using assms(1) by (auto simp: wf_batch_def)
    then show ?case using Cons assms(2) by (simp add: key_cell_enc [of "evalLen b"] gcells_def enc_row_def row_at_def)
  qed (simp add: gcells_def enc_row_def)
  then show ?thesis by (simp add: agg_key_def)
qed

lemma sample_cell_ok:
  assumes "wf_batch G b" "i < evalLen b" "c < length G"
  shows "sample_cell b i c = Inr (sample_of (row_at b i ! c))"
proof -
  let ?v = "Vectors b ! c"
  have v: "c < length (Vectors b)" "wf_vector (evalLen b) ?v" using assms(1,3) by (auto simp: wf_batch_def)
  note null = IsNull_ok [OF v(2) assms(2)]
  show ?thesis
  proof (cases "vget ?v i")
    case None
    then show ?thesis using v null vget_None_iff [of ?v i] by (simp add: sample_cell_def sample_of_def row_at_def)
  next
    case (Some y)
    have nn: "IsNull ?v i = Inr False" using null Some vget_None_iff [of ?v i] by simp
    have ex: "extractInt64 ?v i = Inr (raw_bits y)" using extractInt64_cell [OF v(2) assms(2)] Some by (simp add: cell_raw_def)
    have str: "d \<noteq> None" "StringVector_Get cs d i = Inr (cell_str (Some y))" if "?v = StringVector cs d nb" for cs d nb
      using string_cell [of "evalLen b" cs d nb i] v(2) assms(2) Some that by simp_all
    show ?thesis using v nn ex str Some vget_type [OF Some]
      by (cases ?v; cases y) (auto simp: sample_cell_def sample_of_def row_at_def cell_str_def)
  qed
qed

lemma fold_slots_ok:
  assumes "\<forall>ae \<in> set aggs. \<forall>s. step ae (agg_vec b ae) i s = Inr (agg_step ae (agg_arg ae r) s)" "length ss = length aggs"
  shows "fold_slots step aggs (map (agg_vec b) aggs) i ss = Inr (map (\<lambda>(ae, s). agg_step ae (agg_arg ae r) s) (zip aggs ss))"
proof -
  have "fold_slots step aggs (map (agg_vec b) aggs) i ss =
      Inr (map (\<lambda>((ae, v), s). agg_step ae (agg_arg ae r) s) (zip (zip aggs (map (agg_vec b) aggs)) ss))"
    unfolding fold_slots_def using assms(1) by (intro map_res_ok) (auto simp: in_set_zip)
  also have "map (\<lambda>((ae, v), s). agg_step ae (agg_arg ae r) s) (zip (zip aggs (map (agg_vec b) aggs)) ss) =
      map (\<lambda>(ae, s). agg_step ae (agg_arg ae r) s) (zip aggs ss)"
    using assms(2) by (intro nth_equalityI) auto
  finally show ?thesis .
qed

lemma string_row_ok:
  assumes gm: "gm_ok h s0 ks rs g" and T: "typed_row T k" "\<forall>k \<in> set ks. typed_row T k"
    and wf: "wf_batch G b" "i < evalLen b" "\<forall>c \<in> set (groupBy h). c < length G"
    and k: "k = gcells (groupBy h) (row_at b i)"
    and step: "\<forall>ae \<in> set (aggExprs h). \<forall>s. step ae (agg_vec b ae) i s = Inr (agg_step ae (agg_arg ae (row_at b i)) s)"
    and s0: "new_group h sets (map (agg_vec b) (aggExprs h)) = s0"
  shows "\<exists>g'. string_row h sets step b (map (agg_vec b) (aggExprs h)) (enc_row k) i g = Inr g' \<and>
    gm_ok h s0 (if k \<in> set ks then ks else ks @ [k]) (rs @ [row_at b i]) g'"
proof -
  have len: "length s0 = length (aggExprs h)" using s0 by (auto simp: new_group_def)
  note fs = fold_slots_ok [where step = step, OF step]
  show ?thesis
  proof (cases "k \<in> set ks")
    case True
    then have "groups g (enc_row k) = Some (slots_of (aggExprs h) s0 (filter (\<lambda>r. gcells (groupBy h) r = k) rs))"
      using gm by (simp add: gm_ok_def)
    then show ?thesis using gm_ok_old [OF gm k True T] fs True len by (simp add: string_row_def slots_of_snoc)
  next
    case False
    then have none: "groups g (enc_row k) = None" using gm enc_row_inj [OF T(1)] T(2) unfolding gm_ok_def by blast
    have "map_res (sample_cell b i) (groupBy h) = Inr (map (\<lambda>c. sample_of (row_at b i ! c)) (groupBy h))"
      using sample_cell_ok [OF wf(1,2)] wf(3) by (intro map_res_ok) blast
    moreover have "map (\<lambda>c. sample_of (row_at b i ! c)) (groupBy h) = map sample_of k" by (simp add: k gcells_def)
    ultimately show ?thesis using gm_ok_new [OF gm k False T] fs [OF len] False s0 none slots_of_snoc [of "aggExprs h" s0 "[]" "row_at b i"]
      by (simp add: string_row_def)
  qed
qed

text \<open>The slots a new group starts with.\<close>

definition init_group :: "agg_conf \<Rightarrow> bool \<Rightarrow> DataType list \<Rightarrow> slot list" where
  "init_group h sets G = map (\<lambda>ae. if sets \<and> hasDistinct h \<and> AKind ae = AggCountDistinct \<and> 0 \<le> AColIdx ae then
     (if G ! nat (AColIdx ae) = TypeString then (new_slot ae)\<lparr>dStrs := Some {}\<rparr> else (new_slot ae)\<lparr>dInts := Some {}\<rparr>) else new_slot ae) (aggExprs h)"

lemma length_init_group [simp]: "length (init_group h sets G) = length (aggExprs h)"
  by (simp add: init_group_def)

lemma new_group_ok:
  assumes "wf_batch G b" "\<forall>ae \<in> set (aggExprs h). agg_ok G ae"
  shows "new_group h sets (map (agg_vec b) (aggExprs h)) = init_group h sets G"
proof (rule nth_equalityI)
  fix j assume "j < length (new_group h sets (map (agg_vec b) (aggExprs h)))"
  then have j: "j < length (aggExprs h)" by (simp add: new_group_def)
  let ?ae = "aggExprs h ! j"
  have "VType (Vectors b ! nat (AColIdx ?ae)) = G ! nat (AColIdx ?ae)" if "0 \<le> AColIdx ?ae"
    using assms that j nth_mem [OF j] by (fastforce simp: wf_batch_def agg_ok_def)
  then show "new_group h sets (map (agg_vec b) (aggExprs h)) ! j = init_group h sets G ! j"
    using j by (cases "Vectors b ! nat (AColIdx ?ae)") (auto simp: new_group_def init_group_def init_distinct_def agg_vec_def)
qed (simp add: new_group_def init_group_def)

text \<open>What the operator requires of its configuration and of a batch of rows.\<close>

definition conf_ok :: "DataType list \<Rightarrow> agg_conf \<Rightarrow> bool" where
  "conf_ok G h \<longleftrightarrow> (\<forall>c \<in> set (groupBy h). c < length G) \<and> (\<forall>ae \<in> set (aggExprs h). agg_ok G ae) \<and>
     (hasDistinct h \<longleftrightarrow> (\<exists>ae \<in> set (aggExprs h). AKind ae = AggCountDistinct))"

lemma conf_okD:
  assumes "conf_ok G h"
  shows "\<forall>c \<in> set (groupBy h). c < length G" "\<forall>ae \<in> set (aggExprs h). agg_ok G ae"
    "\<forall>ae \<in> set (aggExprs h). hasDistinct h \<or> AKind ae \<noteq> AggCountDistinct"
  using assms by (auto simp: conf_ok_def)

lemma checkStr_ok:
  assumes "wf_batch G b" "\<forall>ae \<in> set (aggExprs h). agg_ok G ae"
  shows "checkStrAggVecs h (map (agg_vec b) (aggExprs h)) = Inr ()"
proof -
  have "case agg_vec b ae of Some (StringVector _ _ _) \<Rightarrow> True | _ \<Rightarrow> False" if ae: "ae \<in> set (aggExprs h)" "AccumType ae = Some TypeString" for ae
  proof -
    have "agg_ok G ae" using assms(2) ae by blast
    then have "0 \<le> AColIdx ae" "G ! nat (AColIdx ae) = TypeString" "nat (AColIdx ae) < length G"
      using ae(2) by (auto simp: agg_ok_def AccumTypeFor_def split: AggKind.splits DataType.splits if_splits)
    moreover have "VType (Vectors b ! nat (AColIdx ae)) = TypeString" using assms(1) calculation by (simp add: wf_batch_def)
    ultimately show ?thesis by (cases "Vectors b ! nat (AColIdx ae)") (auto simp: agg_vec_def)
  qed
  then show ?thesis by (auto simp: checkStrAggVecs_def in_set_zip)
qed

definition group_keys :: "val option list list \<Rightarrow> val option list list \<Rightarrow> val option list list" where
  "group_keys ks ks' = ks @ firsts (set ks) ks'"

lemma group_keys_snoc: "group_keys ks (ks' @ [k]) = (if k \<in> set ks \<union> set ks' then group_keys ks ks' else group_keys ks ks' @ [k])"
  by (auto simp: group_keys_def firsts_append)

lemma set_group_keys [simp]: "set (group_keys ks ks') = set ks \<union> set ks'"
  by (auto simp: group_keys_def set_firsts)

text \<open>A batch whose rows take any of the row-wise paths with string keys.\<close>

lemma fold_string_rows:
  assumes gm: "gm_ok h s0 ks rs g" and T: "\<forall>k \<in> set ks. typed_row T k"
    and wf: "wf_batch G b" "\<forall>i \<in> set is. i < evalLen b" "\<forall>c \<in> set (groupBy h). c < length G"
    and Ti: "\<forall>i \<in> set is. typed_row T (gcells (groupBy h) (row_at b i))"
    and step: "\<forall>i \<in> set is. \<forall>ae \<in> set (aggExprs h). \<forall>s. step ae (agg_vec b ae) i s = Inr (agg_step ae (agg_arg ae (row_at b i)) s)"
    and s0: "new_group h sets (map (agg_vec b) (aggExprs h)) = s0"
  shows "\<exists>g'. fold_res (\<lambda>g i. res_bind (agg_key (groupBy h) b i) (\<lambda>key. string_row h sets step b (map (agg_vec b) (aggExprs h)) key i g)) g is = Inr g' \<and>
    gm_ok h s0 (group_keys ks (map (\<lambda>i. gcells (groupBy h) (row_at b i)) is)) (rs @ map (row_at b) is) g'"
  using wf(2) Ti step
proof (induction "is" rule: rev_induct)
  case Nil
  then show ?case using gm by (simp add: group_keys_def)
next
  case (snoc i "is")
  let ?gc = "\<lambda>i. gcells (groupBy h) (row_at b i)"
  let ?ks = "group_keys ks (map (\<lambda>i. gcells (groupBy h) (row_at b i)) is)"
  obtain g1 where g1: "fold_res (\<lambda>g i. res_bind (agg_key (groupBy h) b i) (\<lambda>key. string_row h sets step b (map (agg_vec b) (aggExprs h)) key i g)) g is = Inr g1"
    "gm_ok h s0 ?ks (rs @ map (row_at b) is) g1" using snoc by auto
  have Tks: "\<forall>k \<in> set ?ks. typed_row T k" using T snoc.prems(2) by auto
  obtain g2 where "string_row h sets step b (map (agg_vec b) (aggExprs h)) (enc_row (?gc i)) i g1 = Inr g2"
    "gm_ok h s0 (if ?gc i \<in> set ?ks then ?ks else ?ks @ [?gc i]) ((rs @ map (row_at b) is) @ [row_at b i]) g2"
    using string_row_ok [OF g1(2) _ Tks wf(1) _ wf(3) refl _ s0, of i] snoc.prems by (metis in_set_conv_decomp)
  then show ?case using g1(1) agg_key_ok [OF wf(1) _ wf(3), of i] snoc.prems(1)
    by (simp add: fold_res_append group_keys_snoc)
qed

lemma string_rows_ok:
  assumes "conf_ok G h" "gm_ok h (init_group h True G) ks rs g" "wf_rows G b" "\<forall>r \<in> set (batch_rows b). typed_row G r"
    "\<forall>k \<in> set ks. typed_row (map ((!) G) (groupBy h)) k"
  shows "\<exists>g'. string_rows h b (map (agg_vec b) (aggExprs h)) g = Inr g' \<and>
    gm_ok h (init_group h True G) (group_keys ks (map (gcells (groupBy h)) (batch_rows b))) (rs @ batch_rows b) g'"
proof -
  have wf: "wf_batch G b" "\<forall>i \<in> set (sel_rows b). i < evalLen b" using assms(3) by (auto simp: wf_rows_def)
  note c = conf_okD [OF assms(1)]
  have step: "\<forall>i \<in> set (sel_rows b). \<forall>ae \<in> set (aggExprs h). \<forall>s. accum_slot (hasDistinct h) ae (agg_vec b ae) i s = Inr (agg_step ae (agg_arg ae (row_at b i)) s)"
    using accum_slot_ok [OF wf(1)] wf(2) c by blast
  have "\<forall>i \<in> set (sel_rows b). typed_row (map ((!) G) (groupBy h)) (gcells (groupBy h) (row_at b i))"
    using assms(4) typed_gcells c(1) by (auto simp: batch_rows_def)
  then show ?thesis
    using fold_string_rows [where step = "accum_slot (hasDistinct h)", OF assms(2,5) wf c(1) _ step new_group_ok [OF wf(1) c(2)]]
    by (simp add: string_rows_def batch_rows_def comp_def)
qed

text \<open>Without GROUP BY there is one group from the first batch on, even when no row of the batch is selected.\<close>

lemma accumulateDirect_ok:
  assumes "conf_ok G h" "groupBy h = []" "ks = [] \<and> rs = [] \<or> ks = [[]]" "gm_ok h (init_group h False G) ks rs g" "wf_rows G b"
  shows "\<exists>g'. accumulateDirect h (sel_rows b) (map (agg_vec b) (aggExprs h)) g = Inr g' \<and>
    gm_ok h (init_group h False G) [[]] (rs @ batch_rows b) g'"
proof -
  let ?aggs = "aggExprs h" and ?s0 = "init_group h False G"
  have wf: "wf_batch G b" "\<forall>i \<in> set (sel_rows b). i < evalLen b" using assms(5) by (auto simp: wf_rows_def)
  note c = conf_okD [OF assms(1)]
  define g1 where "g1 = (if groups g [] = None then g\<lparr>groups := (groups g)([] \<mapsto> new_group h False (map (agg_vec b) ?aggs)), gkeys := gkeys g @ [[]]\<rparr> else g)"
  have gc: "gcells (groupBy h) r = []" for r using assms(2) by (simp add: gcells_def)
  have g1: "gkeys g1 = [[]]" "groups g1 = [[] \<mapsto> slots_of ?aggs ?s0 rs]"
    using assms(3,4) new_group_ok [OF wf(1) c(2), of False] unfolding g1_def gm_ok_def gc by (auto simp: enc_row_def fun_eq_iff)
  let ?ss = "slots_of ?aggs ?s0 rs"
  have len: "length ?ss = length ?aggs" by simp
  have slot: "direct_slot (hasDistinct h) ae (agg_vec b ae) (sel_rows b) s = Inr (foldl (\<lambda>s r. agg_step ae (agg_arg ae r) s) s (batch_rows b))"
    if "ae \<in> set ?aggs" for ae s
    unfolding batch_rows_def using direct_slot_rows [OF agg_ok_reads [OF wf(1)], of ae] fold_accum [OF wf, of ae "hasDistinct h" s] c that by simp
  have "map_res (\<lambda>((ae, v), s). direct_slot (hasDistinct h) ae v (sel_rows b) s) (zip (zip ?aggs (map (agg_vec b) ?aggs)) ?ss) =
      Inr (map (\<lambda>((ae, v), s). foldl (\<lambda>s r. agg_step ae (agg_arg ae r) s) s (batch_rows b)) (zip (zip ?aggs (map (agg_vec b) ?aggs)) ?ss))"
    using slot by (intro map_res_ok) (auto simp: in_set_zip)
  also have "map (\<lambda>((ae, v), s). foldl (\<lambda>s r. agg_step ae (agg_arg ae r) s) s (batch_rows b)) (zip (zip ?aggs (map (agg_vec b) ?aggs)) ?ss) =
      slots_of ?aggs ?s0 (rs @ batch_rows b)"
    using len by (intro nth_equalityI) (auto simp: nth_slots_of)
  finally have "accumulateDirect h (sel_rows b) (map (agg_vec b) ?aggs) g = Inr (g1\<lparr>groups := (groups g1)([] \<mapsto> slots_of ?aggs ?s0 (rs @ batch_rows b))\<rparr>)"
    using g1(2) unfolding accumulateDirect_def g1_def [symmetric] Let_def by simp
  then show ?thesis using g1 by (auto simp: gm_ok_def gc enc_row_def)
qed

end
