(* ===== verification/AggSem.thy ===== *)
theory AggSem
  imports Aggregate
begin

text \<open>
  What the accumulators of \<open>Aggregate\<close> mean: the SQL value of every aggregate over the cells of a group, the value that the accumulators arrive at and when the two agree, and that the
  slot of a group after its rows reads out as the latter. Also that \<^verbatim>\<open>NewHashAggregate\<close> only builds configurations in which every
  aggregate fits its column.
\<close>

section \<open>The values of the aggregates\<close>

definition present :: "'a option list \<Rightarrow> 'a list" where
  "present cells = map the (filter (\<lambda>x. x \<noteq> None) cells)"

lemma present_simps [simp]:
  "present [] = []" "present (None # xs) = present xs" "present (Some y # xs) = y # present xs"
  "present (xs @ ys) = present xs @ present ys"
  by (simp_all add: present_def)

lemma set_present: "set (present cells) = {y. Some y \<in> set cells}"
  by (induction cells) (auto simp: present_def)

lemma length_present: "length (present cells) \<le> length cells"
  by (simp add: present_def)

text \<open>The order of the values of a type, as the comparisons of the engine have it.\<close>

fun val_less :: "val \<Rightarrow> val \<Rightarrow> bool" where
  "val_less (VInt a) (VInt b) \<longleftrightarrow> sint a < sint b"
| "val_less (VFloat a) (VFloat b) \<longleftrightarrow> f_lt a b"
| "val_less (VDate a) (VDate b) \<longleftrightarrow> sint a < sint b"
| "val_less (VBool a) (VBool b) \<longleftrightarrow> \<not> a \<and> b"
| "val_less (VString a) (VString b) \<longleftrightarrow> a < b"
| "val_less _ _ \<longleftrightarrow> False"

definition better :: "AggKind \<Rightarrow> val \<Rightarrow> val \<Rightarrow> bool" where
  "better k x y = (if k = AggMin then val_less x y else val_less y x)"

definition best :: "AggKind \<Rightarrow> val \<Rightarrow> val list \<Rightarrow> val" where
  "best k y ys = foldl (\<lambda>m y. if better k y m then y else m) y ys"

text \<open>
  The SQL value of an aggregate over the cells it reads of a group. Integer sums wrap at 64 bits, float sums are taken in row order, and MIN and MAX are the least and the greatest of the values.
\<close>

definition sql_value :: "AggExpr \<Rightarrow> DataType \<Rightarrow> val option list \<Rightarrow> val option" where
  "sql_value ae t cells = (let ys = present cells in case AKind ae of
     AggCount \<Rightarrow> Some (VInt (word_of_nat (if AColIdx ae < 0 then length cells else length ys)))
   | AggCountDistinct \<Rightarrow> Some (VInt (word_of_nat (card (set ys))))
   | AggSum \<Rightarrow> if ys = [] then None
       else Some (if t = TypeFloat64 then VFloat (foldl f_add 0 (map raw_bits ys)) else VInt (sum_list (map raw_bits ys)))
   | AggAvg \<Rightarrow> if ys = [] then None
       else Some (VFloat (f_div (foldl f_add 0 (map (\<lambda>y. if t = TypeFloat64 then raw_bits y else f_of_int64 (raw_bits y)) ys))
         (f_of_int64 (word_of_nat (length ys)))))
   | k \<Rightarrow> if ys = [] then None else Some (best k (hd ys) (tl ys)))"

text \<open>
  What the accumulators arrive at. They differ in one point: MIN and MAX over floats start from the largest and the smallest finite float instead of from the first value, which shows where
  a value is NaN or beyond that seed (\<open>agg_value_sql\<close>, \<open>min_of_infinity\<close>).
\<close>

definition agg_value :: "AggExpr \<Rightarrow> DataType \<Rightarrow> val option list \<Rightarrow> val option" where
  "agg_value ae t cells = (let ys = present cells in case AKind ae of
     AggCount \<Rightarrow> Some (VInt (word_of_nat (if AColIdx ae < 0 then length cells else length ys)))
   | AggCountDistinct \<Rightarrow> Some (VInt (word_of_nat (card (set ys))))
   | AggSum \<Rightarrow> if ys = [] then None
       else Some (if t = TypeFloat64 then VFloat (foldl f_add 0 (map raw_bits ys)) else VInt (sum_list (map raw_bits ys)))
   | AggAvg \<Rightarrow> if ys = [] then None
       else Some (VFloat (f_div (foldl f_add 0 (map (\<lambda>y. if t = TypeFloat64 then raw_bits y else f_of_int64 (raw_bits y)) ys))
         (f_of_int64 (word_of_nat (length ys)))))
   | k \<Rightarrow> if ys = [] then None
       else Some (if t = TypeFloat64 then best k (VFloat (if k = AggMin then f_max else f_min)) ys else best k (hd ys) (tl ys)))"

text \<open>How a slot is read out for a column of type \<open>t\<close>.\<close>

definition slot_count :: "slot \<Rightarrow> nat" where
  "slot_count s = (case dStrs s of Some S \<Rightarrow> card S | None \<Rightarrow> (case dInts s of Some S \<Rightarrow> card S | None \<Rightarrow> 0))"

definition raw_val :: "DataType \<Rightarrow> slot \<Rightarrow> val" where
  "raw_val t s = (case t of TypeInt64 \<Rightarrow> VInt (acc s) | TypeFloat64 \<Rightarrow> VFloat (acc s) | TypeDate \<Rightarrow> VDate (ucast (acc s))
     | TypeBool \<Rightarrow> VBool (acc s \<noteq> 0) | TypeString \<Rightarrow> VString (strAcc s))"

definition slot_result :: "AggExpr \<Rightarrow> DataType \<Rightarrow> slot \<Rightarrow> val option" where
  "slot_result ae t s = (case AKind ae of
     AggCount \<Rightarrow> Some (VInt (acc s))
   | AggCountDistinct \<Rightarrow> Some (VInt (word_of_nat (slot_count s)))
   | AggSum \<Rightarrow> if nonNull s = 0 then None else Some (if AccumType ae = Some TypeFloat64 then VFloat (acc s) else VInt (acc s))
   | AggAvg \<Rightarrow> if 0 < sint (nonNull s) then Some (VFloat (f_div (acc s) (f_of_int64 (nonNull s)))) else None
   | _ \<Rightarrow> if nonNull s = 0 then None else Some (raw_val t s))"

text \<open>A slot that has seen no row: the seeds of \<^verbatim>\<open>newAccums\<close>, with the value sets absent or empty.\<close>

definition fresh_slot :: "AggExpr \<Rightarrow> DataType \<Rightarrow> slot \<Rightarrow> bool" where
  "fresh_slot ae t s \<longleftrightarrow> acc s = acc (new_slot ae) \<and> nonNull s = 0 \<and> strAcc s = [] \<and> (dInts s = None \<or> dInts s = Some {}) \<and>
     (dStrs s = None \<or> dStrs s = Some {} \<and> t = TypeString)"

definition agg_type :: "DataType list \<Rightarrow> AggExpr \<Rightarrow> DataType" where
  "agg_type G ae = (if AColIdx ae < 0 then TypeInt64 else G ! nat (AColIdx ae))"

lemma init_group_fresh:
  "j < length (aggExprs h) \<Longrightarrow> fresh_slot (aggExprs h ! j) (agg_type G (aggExprs h ! j)) (init_group h sets G ! j)"
  by (auto simp: init_group_def fresh_slot_def new_slot_def agg_type_def)

definition run_slot :: "AggExpr \<Rightarrow> slot \<Rightarrow> val option list \<Rightarrow> slot" where
  "run_slot ae s cells = foldl (\<lambda>s x. agg_step ae x s) s cells"

lemma run_slot_simps [simp]:
  "run_slot ae s [] = s" "run_slot ae s (xs @ [x]) = agg_step ae x (run_slot ae s xs)"
  by (simp_all add: run_slot_def)

lemma run_slot_snoc_cases:
  "0 \<le> AColIdx ae \<Longrightarrow> agg_step ae None s = s"
  by (simp add: agg_step_def)

lemma run_count:
  "AKind ae = AggCount \<Longrightarrow> acc (run_slot ae s cells) = acc s + word_of_nat (if AColIdx ae < 0 then length cells else length (present cells))"
  by (induction cells rule: rev_induct) (auto simp: agg_step_def bump_def split: option.splits)

lemma run_nonNull:
  "AKind ae \<noteq> AggCountDistinct \<Longrightarrow> 0 \<le> AColIdx ae \<Longrightarrow> nonNull (run_slot ae s cells) = nonNull s + word_of_nat (length (present cells))"
  by (induction cells rule: rev_induct) (auto simp: agg_step_def bump_def minmax_num_def Let_def split: option.splits AggKind.splits)

lemma run_sum:
  assumes "AKind ae = AggSum" "0 \<le> AColIdx ae"
  shows "AccumType ae = Some TypeFloat64 \<Longrightarrow> acc (run_slot ae s cells) = foldl f_add (acc s) (map raw_bits (present cells))"
    "AccumType ae \<noteq> Some TypeFloat64 \<Longrightarrow> acc (run_slot ae s cells) = acc s + sum_list (map raw_bits (present cells))"
  using assms by (induction cells rule: rev_induct) (auto simp: agg_step_def bump_def split: option.splits)

lemma run_avg:
  assumes "AKind ae = AggAvg" "0 \<le> AColIdx ae" "\<forall>y \<in> set (present cells). val_type y = t"
  shows "acc (run_slot ae s cells) = foldl f_add (acc s) (map (\<lambda>y. if t = TypeFloat64 then raw_bits y else f_of_int64 (raw_bits y)) (present cells))"
  using assms by (induction cells rule: rev_induct) (auto simp: agg_step_def bump_def split: option.splits)

lemma nonNull_zero:
  fixes n :: nat
  assumes "n < 2 ^ 63"
  shows "(word_of_nat n :: i64) = 0 \<longleftrightarrow> n = 0" "0 < sint (word_of_nat n :: i64) \<longleftrightarrow> n \<noteq> 0"
proof -
  have s: "sint (word_of_nat n :: i64) = int n"
  proof -
    have "signed_take_bit 63 (int n) = int n" using assms by (simp add: signed_take_bit_int_eq_self_iff)
    then show ?thesis by (simp add: signed_of_nat)
  qed
  show "0 < sint (word_of_nat n :: i64) \<longleftrightarrow> n \<noteq> 0" by (simp add: s)
  show "(word_of_nat n :: i64) = 0 \<longleftrightarrow> n = 0" proof -
    have "sint (word_of_nat n :: i64) = 0 \<longleftrightarrow> (word_of_nat n :: i64) = 0" by (rule signed_eq_0_iff)
    then show ?thesis by (simp add: s)
  qed
qed

lemma best_simps [simp]: "best k y [] = y" "best k y (ys @ [z]) = (if better k z (best k y ys) then z else best k y ys)"
  by (simp_all add: best_def)

lemma best_mem: "best k y ys \<in> insert y (set ys)"
  by (induction ys rule: rev_induct) auto

lemma best_typed: "\<forall>z \<in> set (y # ys). val_type z = t \<Longrightarrow> val_type (best k y ys) = t"
  using best_mem [of k y ys] by auto

lemma hd_tl_snoc: "ys \<noteq> [] \<Longrightarrow> hd (ys @ [z]) = hd ys \<and> tl (ys @ [z]) = tl ys @ [z]"
  by simp

lemma sint_scast_date: "sint (scast (d :: i32) :: i64) = sint d"
  using sint_date [of d] by simp

lemma raw_better:
  assumes "val_type x = t" "val_type y = t" "t \<noteq> TypeFloat64" "t \<noteq> TypeString"
  shows "val_less x y \<longleftrightarrow> sint (raw_bits x) < sint (raw_bits y)"
  using assms by (cases x; cases y) (auto simp: sint_scast_date)

lemma raw_better_float:
  assumes "val_type x = TypeFloat64" "val_type y = TypeFloat64"
  shows "val_less x y \<longleftrightarrow> f_lt (raw_bits x) (raw_bits y)"
  using assms by (cases x; cases y) auto

lemma raw_better_string:
  assumes "val_type x = TypeString" "val_type y = TypeString"
  shows "val_less x y \<longleftrightarrow> cell_str (Some x) < cell_str (Some y)"
  using assms by (cases x; cases y) (auto simp: cell_str_def)

lemma word64_top: "sint (w :: i64) \<le> sint (0x7FFFFFFFFFFFFFFF :: i64)" "sint (0x8000000000000000 :: i64) \<le> sint w"
  using sint_range_size [of w] by (simp_all add: word_size)

lemma word64_ends: "sint (w :: i64) = 9223372036854775807 \<longleftrightarrow> w = 9223372036854775807" "sint w = - 9223372036854775808 \<longleftrightarrow> w = 9223372036854775808"
  by (auto intro: signed_word_eqI)

lemma run_minmax_num:
  assumes k: "AKind ae = AggMin \<or> AKind ae = AggMax" and c: "0 \<le> AColIdx ae" and t: "AccumType ae = Some (AccumTypeFor (AKind ae) t)"
    "t \<noteq> TypeFloat64" "t \<noteq> TypeString" and ty: "\<forall>y \<in> set (present cells). val_type y = t" and s: "acc s = acc (new_slot ae)"
  shows "acc (run_slot ae s cells) = (if present cells = [] then acc s else raw_bits (best (AKind ae) (hd (present cells)) (tl (present cells))))"
  using ty
proof (induction cells rule: rev_induct)
  case (snoc x cells)
  let ?s = "run_slot ae s cells" and ?ys = "present cells" and ?k = "AKind ae"
  have at: "AccumType ae = Some TypeInt64" using k t by (cases t) (auto simp: AccumTypeFor_def)
  show ?case
  proof (cases x)
    case None
    then show ?thesis using snoc c by (simp add: agg_step_def)
  next
    case (Some y)
    have ty: "val_type y = t" "\<forall>z \<in> set ?ys. val_type z = t" using snoc.prems Some by simp_all
    have step: "acc (agg_step ae x ?s) = (if (?k = AggMin \<and> sint (raw_bits y) < sint (acc ?s)) \<or> (?k = AggMax \<and> sint (acc ?s) < sint (raw_bits y))
        then raw_bits y else acc ?s)" using k at Some by (auto simp: agg_step_def minmax_num_def bump_def)
    show ?thesis
    proof (cases "?ys = []")
      case True
      have "acc ?s = (if ?k = AggMin then 0x7FFFFFFFFFFFFFFF else 0x8000000000000000)"
        using snoc True s k at by (auto simp: new_slot_def)
      then have "acc (agg_step ae x ?s) = raw_bits y" using k step word64_top [of "raw_bits y"]
        by (auto simp: order.order_iff_strict word64_ends)
      then show ?thesis using True Some by simp
    next
      case False
      let ?b = "best ?k (hd ?ys) (tl ?ys)"
      have b: "val_type ?b = t" using best_typed [of "hd ?ys" "tl ?ys" t ?k] False ty(2) by (simp add: list.collapse)
      have "acc ?s = raw_bits ?b" using snoc ty False by simp
      then have "acc (agg_step ae x ?s) = raw_bits (if better ?k y ?b then y else ?b)"
        using step k raw_better [OF ty(1) b t(2,3)] raw_better [OF b ty(1) t(2,3)] by (auto simp: better_def)
      then show ?thesis using False Some hd_tl_snoc [OF False, of y] by simp
    qed
  qed
qed simp

lemma run_minmax_float:
  assumes k: "AKind ae = AggMin \<or> AKind ae = AggMax" and c: "0 \<le> AColIdx ae" and t: "AccumType ae = Some TypeFloat64"
    and ty: "\<forall>y \<in> set (present cells). val_type y = TypeFloat64"
  shows "VFloat (acc (run_slot ae s cells)) = best (AKind ae) (VFloat (acc s)) (present cells)"
  using ty
proof (induction cells rule: rev_induct)
  case (snoc x cells)
  let ?s = "run_slot ae s cells"
  show ?case
  proof (cases x)
    case None
    then show ?thesis using snoc c by (simp add: agg_step_def)
  next
    case (Some y)
    then obtain f where f: "y = VFloat f" using snoc.prems by (cases y) auto
    have IH: "best (AKind ae) (VFloat (acc s)) (present cells) = VFloat (acc ?s)" using snoc Some by simp
    have "acc (agg_step ae x ?s) = (if (AKind ae = AggMin \<and> f_lt f (acc ?s)) \<or> (AKind ae = AggMax \<and> f_lt (acc ?s) f) then f else acc ?s)"
      using k t Some f by (auto simp: agg_step_def minmax_num_def bump_def)
    then show ?thesis using k Some f by (auto simp: IH better_def)
  qed
qed simp

lemma run_minmax_string:
  assumes k: "AKind ae = AggMin \<or> AKind ae = AggMax" and c: "0 \<le> AColIdx ae" and t: "AccumType ae = Some TypeString"
    and ty: "\<forall>y \<in> set (present cells). val_type y = TypeString" and n: "nonNull s = 0" "length cells < 2 ^ 63"
  shows "present cells \<noteq> [] \<Longrightarrow> VString (strAcc (run_slot ae s cells)) = best (AKind ae) (hd (present cells)) (tl (present cells))"
  using ty n(2)
proof (induction cells rule: rev_induct)
  case (snoc x cells)
  let ?s = "run_slot ae s cells" and ?ys = "present cells"
  show ?case
  proof (cases x)
    case None
    then show ?thesis using snoc c by (simp add: agg_step_def)
  next
    case (Some y)
    then obtain a where a: "y = VString a" using snoc.prems by (cases y) auto
    have nn: "nonNull ?s = word_of_nat (length ?ys)" using run_nonNull [of ae s cells] k c n(1) by auto
    have "length ?ys < 2 ^ 63" using length_present [of cells] snoc.prems(3) by simp
    then have seen: "0 < sint (nonNull ?s) \<longleftrightarrow> ?ys \<noteq> []" using nonNull_zero(2) [of "length ?ys"] nn by simp
    have step: "strAcc (agg_step ae x ?s) = minMaxString (strAcc ?s) a (?ys \<noteq> []) (AKind ae = AggMin)"
      using k t Some a seen by (auto simp: agg_step_def bump_def cell_str_def)
    show ?thesis
    proof (cases "?ys = []")
      case True
      then show ?thesis using step Some a by (simp add: minMaxString_def)
    next
      case False
      then have IH: "best (AKind ae) (hd ?ys) (tl ?ys) = VString (strAcc ?s)" using snoc Some by simp
      show ?thesis using step k Some a False hd_tl_snoc [OF False, of y] by (auto simp: IH better_def minMaxString_def)
    qed
  qed
qed simp

lemma cell_str_inj: "val_type x = TypeString \<Longrightarrow> val_type y = TypeString \<Longrightarrow> cell_str (Some x) = cell_str (Some y) \<Longrightarrow> x = y"
  by (cases x; cases y) (auto simp: cell_str_def)

lemma run_distinct:
  assumes k: "AKind ae = AggCountDistinct" and c: "0 \<le> AColIdx ae" and ty: "\<forall>y \<in> set (present cells). val_type y = t"
    and fresh: "fresh_slot ae t s"
  shows "slot_count (run_slot ae s cells) = card (set (present cells))"
proof -
  let ?ys = "present cells" and ?s = "run_slot ae s cells"
  have strs: "(dInts ?s = None \<or> dInts ?s = Some {}) \<and> (dStrs ?s = None \<and> ?ys = [] \<or> dStrs ?s = Some ((\<lambda>y. cell_str (Some y)) ` set ?ys))" if t: "t = TypeString"
    using ty
  proof (induction cells rule: rev_induct)
    case Nil
    then show ?case using fresh by (auto simp: fresh_slot_def)
  next
    case (snoc x cells)
    then have "(dInts (run_slot ae s cells) = None \<or> dInts (run_slot ae s cells) = Some {}) \<and> (dStrs (run_slot ae s cells) = None \<and> present cells = [] \<or>
        dStrs (run_slot ae s cells) = Some ((\<lambda>y. cell_str (Some y)) ` set (present cells)))" by simp
    then show ?case using k c t snoc.prems by (cases x; elim conjE disjE) (simp_all add: agg_step_def)
  qed
  have ints: "dStrs ?s = None \<and> (dInts ?s = None \<and> ?ys = [] \<or> dInts ?s = Some (raw_bits ` set ?ys))" if t: "t \<noteq> TypeString"
    using ty
  proof (induction cells rule: rev_induct)
    case Nil
    then show ?case using fresh t by (auto simp: fresh_slot_def)
  next
    case (snoc x cells)
    then have "dStrs (run_slot ae s cells) = None \<and> (dInts (run_slot ae s cells) = None \<and> present cells = [] \<or>
        dInts (run_slot ae s cells) = Some (raw_bits ` set (present cells)))" by simp
    then show ?case using k c t snoc.prems by (cases x; elim conjE disjE) (simp_all add: agg_step_def)
  qed
  note strs ints
  moreover have "inj_on raw_bits (set ?ys)" if "t \<noteq> TypeString" using ty that raw_bits_inj by (auto simp: inj_on_def)
  moreover have "inj_on (\<lambda>y. cell_str (Some y)) (set ?ys)" if t: "t = TypeString"
    using ty t cell_str_inj by (auto simp: inj_on_def)
  ultimately show ?thesis by (cases "t = TypeString") (auto simp: slot_count_def card_image)
qed

text \<open>The slot of a group, read out, is the value of the aggregate over the group's cells.\<close>

lemma slot_result_value:
  assumes ok: "agg_ok G ae" and ty: "\<forall>y \<in> set (present cells). val_type y = agg_type G ae" and fresh: "fresh_slot ae (agg_type G ae) s"
    and n: "length cells < 2 ^ 63"
  shows "slot_result ae (agg_type G ae) (run_slot ae s cells) = agg_value ae (agg_type G ae) cells"
proof (cases "AColIdx ae < 0")
  case True
  then have k: "AKind ae = AggCount" using ok by (simp add: agg_ok_def)
  then show ?thesis using fresh True run_count [OF k, of s cells] by (simp add: slot_result_def agg_value_def fresh_slot_def new_slot_def)
next
  case False
  let ?t = "agg_type G ae" and ?ys = "present cells" and ?s = "run_slot ae s cells"
  have at: "AccumType ae = Some (AccumTypeFor (AKind ae) ?t)" and c: "0 \<le> AColIdx ae" using ok False by (auto simp: agg_ok_def agg_type_def)
  have s: "acc s = acc (new_slot ae)" "nonNull s = 0" using fresh by (simp_all add: fresh_slot_def)
  have len: "length ?ys < 2 ^ 63" using n length_present [of cells] by simp
  have nn: "AKind ae \<noteq> AggCountDistinct \<Longrightarrow> nonNull ?s = word_of_nat (length ?ys)" using run_nonNull [of ae s cells] c s by simp
  note z = nonNull_zero [OF len]
  have mm: "slot_result ae ?t ?s = agg_value ae ?t cells" if k: "AKind ae = AggMin \<or> AKind ae = AggMax"
  proof (cases "?ys = []")
    case True
    then show ?thesis using k nn by (auto simp: slot_result_def agg_value_def)
  next
    case False
    let ?b = "best (AKind ae) (hd ?ys) (tl ?ys)"
    have b: "val_type ?b = ?t" using best_typed [of "hd ?ys" "tl ?ys" ?t "AKind ae"] False ty by (simp add: list.collapse)
    consider "?t = TypeFloat64" | "?t = TypeString" | "?t \<noteq> TypeFloat64" "?t \<noteq> TypeString" by blast
    then have "raw_val ?t ?s = (if ?t = TypeFloat64 then best (AKind ae) (VFloat (if AKind ae = AggMin then f_max else f_min)) ?ys else ?b)"
    proof cases
      case 1
      then have "AccumType ae = Some TypeFloat64" using at k by (auto simp: AccumTypeFor_def)
      moreover have "acc s = (if AKind ae = AggMin then f_max else f_min)" using s k calculation by (auto simp: new_slot_def)
      ultimately show ?thesis using run_minmax_float [OF k c, of cells s] ty 1 by (simp add: raw_val_def)
    next
      case 2
      then have "AccumType ae = Some TypeString" using at k by (auto simp: AccumTypeFor_def)
      then show ?thesis using run_minmax_string [OF k c _ _ s(2) n] ty 2 False by (simp add: raw_val_def)
    next
      case 3
      then have "acc ?s = cell_raw (Some ?b)" using run_minmax_num [OF k c at 3 ty s(1)] False by (simp add: cell_raw_def)
      then show ?thesis using cell_of_raw [of "Some ?b" ?t] b 3 by (cases ?t) (simp_all add: raw_val_def)
    qed
    then show ?thesis using k nn z False by (auto simp: slot_result_def agg_value_def Let_def)
  qed
  show ?thesis
  proof (cases "AKind ae")
    case AggCount
    then show ?thesis using run_count [OF AggCount, of s cells] s False by (simp add: slot_result_def agg_value_def new_slot_def)
  next
    case AggSum
    then show ?thesis using run_sum [OF AggSum c, of s cells] s nn z at
      by (auto simp: slot_result_def agg_value_def new_slot_def AccumTypeFor_def Let_def)
  next
    case AggAvg
    then show ?thesis using run_avg [OF AggAvg c ty, of s] s nn z by (simp add: slot_result_def agg_value_def new_slot_def Let_def)
  next
    case AggCountDistinct
    then show ?thesis using run_distinct [OF AggCountDistinct c ty fresh] by (simp add: slot_result_def agg_value_def)
  qed (use mm in blast)+
qed

text \<open>MIN and MAX: the result is one of the values, and none of them is better.\<close>

lemma better_trans: "better k x y \<Longrightarrow> better k y z \<Longrightarrow> better k x z"
proof -
  have "val_less x y \<Longrightarrow> val_less y z \<Longrightarrow> val_less x z" for x y z
    by (cases x; cases y; cases z) (auto intro: f_lt_trans)
  then show "better k x y \<Longrightarrow> better k y z \<Longrightarrow> better k x z" by (auto simp: better_def split: if_splits)
qed

lemma better_irrefl: "\<not> better k x x"
  by (cases x) (auto simp: better_def f_lt_def)

lemma best_best: "\<forall>z \<in> insert y (set ys). \<not> better k z (best k y ys)"
proof (induction ys rule: rev_induct)
  case (snoc x ys)
  then show ?case using better_trans [of k _ x "best k y ys"] by (auto simp: better_irrefl)
qed (simp add: better_irrefl)

lemma agg_value_minmax:
  assumes k: "AKind ae = k" "k = AggMin \<or> k = AggMax" and v: "agg_value ae t cells = Some v"
  shows "\<forall>y. Some y \<in> set cells \<longrightarrow> \<not> better k y v"
    "Some v \<in> set cells \<or> t = TypeFloat64 \<and> v = VFloat (if k = AggMin then f_max else f_min)"
proof -
  let ?ys = "present cells"
  have ne: "?ys \<noteq> []" using v k by (auto simp: agg_value_def Let_def)
  obtain y ys where v': "v = best k y ys" "set ?ys \<subseteq> insert y (set ys)" "insert y (set ys) = set ?ys \<or> t = TypeFloat64 \<and> y = VFloat (if k = AggMin then f_max else f_min) \<and> ys = ?ys"
  proof (cases "t = TypeFloat64")
    case True
    then show thesis using that [of "VFloat (if k = AggMin then f_max else f_min)" ?ys] v k ne by (auto simp: agg_value_def Let_def subset_insertI)
  next
    case False
    have "set ?ys = insert (hd ?ys) (set (tl ?ys))" using ne by (cases ?ys) auto
    then show thesis using that [of "hd ?ys" "tl ?ys"] v k ne False by (auto simp: agg_value_def Let_def)
  qed
  show "\<forall>y. Some y \<in> set cells \<longrightarrow> \<not> better k y v" using best_best [of y ys k] v' by (auto simp: set_present)
  show "Some v \<in> set cells \<or> t = TypeFloat64 \<and> v = VFloat (if k = AggMin then f_max else f_min)"
    using best_mem [of k y ys] v' by (auto simp: set_present)
qed

text \<open>Values that no seed of MIN or MAX can hide: everything but NaN and the infinity beyond the seed.\<close>

definition seed_safe :: "AggKind \<Rightarrow> val \<Rightarrow> bool" where
  "seed_safe k y \<longleftrightarrow> (case y of VFloat x \<Rightarrow> if k = AggMin then f_le x f_max else f_le f_min x | _ \<Rightarrow> True)"

lemma f_key_inj:
  assumes "f_key x = f_key y" "f_key x \<noteq> 0"
  shows "x = y"
proof -
  have "f_abs_bits x = f_abs_bits y \<and> f_neg x = f_neg y" using assms unfolding f_key_def by (cases "f_neg x"; cases "f_neg y") simp_all
  then have "f_make (f_neg x) (f_abs_bits x) = f_make (f_neg y) (f_abs_bits y)" by simp
  then show ?thesis unfolding f_make_self .
qed

lemma f_seeds: "\<not> is_nan f_max" "f_key f_max \<noteq> 0" "\<not> is_nan f_min" "f_key f_min \<noteq> 0"
  by (simp_all add: f_max_def f_min_def is_nan_def f_key_def f_neg_def f_abs_bits_def f_inf_bits_def)

lemma seed_first:
  assumes "seed_safe k y" "val_type y = TypeFloat64" "k = AggMin \<or> k = AggMax"
  shows "(if better k y (VFloat (if k = AggMin then f_max else f_min)) then y else VFloat (if k = AggMin then f_max else f_min)) = y"
proof -
  obtain x where y: "y = VFloat x" using assms(2) by (cases y) auto
  have "f_lt x f_max \<or> x = f_max" if "f_le x f_max" using that f_key_inj [of f_max x] f_seeds unfolding f_le_def f_lt_def by fastforce
  moreover have "f_lt f_min x \<or> x = f_min" if "f_le f_min x" using that f_key_inj [of f_min x] f_seeds unfolding f_le_def f_lt_def by fastforce
  ultimately show ?thesis using assms(1,3) by (auto simp: y seed_safe_def better_def)
qed

lemma agg_value_sql:
  assumes "\<forall>y \<in> set (present cells). val_type y = t"
    and "AKind ae = AggMin \<or> AKind ae = AggMax \<Longrightarrow> \<forall>y \<in> set (present cells). seed_safe (AKind ae) y"
  shows "agg_value ae t cells = sql_value ae t cells"
proof (cases "(AKind ae = AggMin \<or> AKind ae = AggMax) \<and> t = TypeFloat64 \<and> present cells \<noteq> []")
  case True
  then obtain y ys where ys: "present cells = y # ys" by (cases "present cells") auto
  have "best (AKind ae) (VFloat (if AKind ae = AggMin then f_max else f_min)) (y # ys) = best (AKind ae) y ys"
    using seed_first [of "AKind ae" y] assms True ys by (simp add: best_def)
  then show ?thesis using True ys by (auto simp: agg_value_def sql_value_def Let_def)
next
  case False
  then show ?thesis by (cases "AKind ae") (auto simp: agg_value_def sql_value_def Let_def)
qed

text \<open>The seed shows where no value is below it: the least of the values \<open>{+Inf}\<close> comes out as the largest finite float.\<close>

lemma min_of_infinity:
  "agg_value \<lparr>AKind = AggMin, AColIdx = 0, OutName = ''m'', ADistinct = False, AccumType = Some TypeFloat64\<rparr> TypeFloat64 [Some (VFloat 0x7FF0000000000000)] = Some (VFloat f_max)"
  by (simp add: agg_value_def best_def better_def f_max_def f_lt_def f_key_def f_neg_def f_abs_bits_def is_nan_def f_inf_bits_def)


section \<open>Construction\<close>

lemma map_res_Inr: "map_res f xs = Inr ys \<Longrightarrow> list_all2 (\<lambda>x y. f x = Inr y) xs ys"
  by (induction xs arbitrary: ys) (auto simp: res_bind_eq_Inr res_map_eq_Inr)

text \<open>The type an aggregate has in the output.\<close>

definition out_type :: "AggExpr \<Rightarrow> DataType \<Rightarrow> DataType" where
  "out_type ae t = (case AKind ae of AggCount \<Rightarrow> TypeInt64 | AggCountDistinct \<Rightarrow> TypeInt64 | AggAvg \<Rightarrow> TypeFloat64 | _ \<Rightarrow> t)"

lemma resolve_agg_ok:
  assumes "resolve_agg schema ae = Inr (ae', f)" "AccumType ae = None" "AColIdx ae < 0 \<longrightarrow> AKind ae = AggCount"
  shows "agg_ok (map Type schema) ae' \<and> AKind ae' = AKind ae \<and> Type f = out_type ae' (agg_type (map Type schema) ae')"
proof -
  let ?t = "if 0 \<le> AColIdx ae then Type (schema ! nat (AColIdx ae)) else TypeInt64"
  have g: "\<not> (0 \<le> AColIdx ae \<and> int (length schema) \<le> AColIdx ae)" using assms(1) by (cases "0 \<le> AColIdx ae \<and> int (length schema) \<le> AColIdx ae") (simp_all add: resolve_agg_def)
  then have g2: "\<not> ((AKind ae = AggSum \<or> AKind ae = AggAvg) \<and> ?t \<noteq> TypeInt64 \<and> ?t \<noteq> TypeFloat64)"
    using assms(1) unfolding resolve_agg_def Let_def by (simp only: if_False split: if_split_asm) simp_all
  have f: "ae' = ae\<lparr>AccumType := Some (AccumTypeFor (AKind ae) ?t)\<rparr>"
    "Type f = (case AKind ae of AggCount \<Rightarrow> TypeInt64 | AggCountDistinct \<Rightarrow> TypeInt64 | AggAvg \<Rightarrow> TypeFloat64 | _ \<Rightarrow> ?t)"
    using assms(1,2) unfolding resolve_agg_def Let_def if_not_P [OF g] if_not_P [OF g2] by auto
  note f = g g2 f
  have t: "agg_type (map Type schema) ae' = ?t" using f(1,3) by (auto simp: agg_type_def)
  have "agg_ok (map Type schema) ae'"
  proof (cases "AColIdx ae < 0")
    case True
    then show ?thesis using assms(3) f(3) by (simp add: agg_ok_def AccumTypeFor_def)
  next
    case False
    then show ?thesis using f(1-3) by (auto simp: agg_ok_def)
  qed
  then show ?thesis using f(3,4) t by (simp add: out_type_def)
qed

lemma NewHashAggregate_conf:
  assumes h: "NewHashAggregate schema gb aggs = Inr h"
    and aggs: "\<forall>ae \<in> set aggs. AccumType ae = None \<and> (AColIdx ae < 0 \<longrightarrow> AKind ae = AggCount)"
  shows "conf_ok (map Type schema) h" "groupBy h \<noteq> [] \<or> aggExprs h \<noteq> []"
    "map Type (aschema h) = map (\<lambda>c. map Type schema ! c) (groupBy h) @ map (\<lambda>ae. out_type ae (agg_type (map Type schema) ae)) (aggExprs h)"
proof -
  have ne: "\<not> (aggs = [] \<and> gb = [])" using h by (cases "aggs = [] \<and> gb = []") (simp_all add: NewHashAggregate_def)
  obtain gfs rs where gfs: "map_res (\<lambda>ix. if ix < 0 \<or> int (length schema) \<le> ix then Inl (Err ErrGroupByColumn) else Inr (schema ! nat ix)) gb = Inr gfs"
    and rs: "map_res (resolve_agg schema) aggs = Inr rs"
    and hh: "h = \<lparr>groupBy = map nat gb, aggExprs = map fst rs, aschema = gfs @ map snd rs, hasDistinct = (\<exists>ae \<in> set aggs. AKind ae = AggCountDistinct)\<rparr>"
    using h unfolding NewHashAggregate_def if_not_P [OF ne] res_bind_eq_Inr res_map_eq_Inr by blast
  have g: "list_all2 (\<lambda>ix f. 0 \<le> ix \<and> ix < int (length schema) \<and> f = schema ! nat ix) gb gfs"
    using map_res_Inr [OF gfs] by (rule list_all2_mono) (auto split: if_splits)
  have r: "list_all2 (\<lambda>ae r. resolve_agg schema ae = Inr r) aggs rs" by (rule map_res_Inr [OF rs])
  have r': "agg_ok (map Type schema) (fst (rs ! j)) \<and> AKind (fst (rs ! j)) = AKind (aggs ! j) \<and>
      Type (snd (rs ! j)) = out_type (fst (rs ! j)) (agg_type (map Type schema) (fst (rs ! j)))" if "j < length aggs" for j
    using resolve_agg_ok [of schema "aggs ! j" "fst (rs ! j)" "snd (rs ! j)"] r aggs that by (auto simp: list_all2_conv_all_nth)
  have len: "length rs = length aggs" "length gfs = length gb" using r g by (auto simp: list_all2_lengthD)
  have gc: "nat c < length schema" if "c \<in> set gb" for c using g that by (auto simp: list_all2_conv_all_nth in_set_conv_nth)
  have "map (\<lambda>r. AKind (fst r)) rs = map AKind aggs" using r' len by (intro nth_equalityI) auto
  then have "(\<lambda>r. AKind (fst r)) ` set rs = AKind ` set aggs" by (metis list.set_map)
  then have "AggCountDistinct \<in> AKind ` set aggs \<longleftrightarrow> AggCountDistinct \<in> (\<lambda>r. AKind (fst r)) ` set rs" by simp
  then have "(\<exists>ae \<in> set aggs. AKind ae = AggCountDistinct) \<longleftrightarrow> (\<exists>ae \<in> fst ` set rs. AKind ae = AggCountDistinct)"
    by (simp add: image_iff eq_commute [of AggCountDistinct])
  moreover have "\<forall>r \<in> set rs. agg_ok (map Type schema) (fst r)" using r' len by (metis in_set_conv_nth)
  ultimately show "conf_ok (map Type schema) h" using gc by (auto simp: conf_ok_def hh)
  show "groupBy h \<noteq> [] \<or> aggExprs h \<noteq> []" using ne len by (auto simp: hh)
  have "map Type gfs = map (\<lambda>c. map Type schema ! c) (map nat gb)"
    using g gc len(2) by (intro nth_equalityI) (auto simp: list_all2_conv_all_nth)
  moreover have "map (Type \<circ> snd) rs = map ((\<lambda>ae. out_type ae (agg_type (map Type schema) ae)) \<circ> fst) rs"
    using r' len by (intro nth_equalityI) auto
  ultimately show "map Type (aschema h) = map (\<lambda>c. map Type schema ! c) (groupBy h) @ map (\<lambda>ae. out_type ae (agg_type (map Type schema) ae)) (aggExprs h)"
    by (simp add: hh)
qed

end
