(* ===== verification/IntKey.thy ===== *)
theory IntKey
  imports AggSem
begin

text \<open>
  The packed-integer keys of GROUP BY over dictionary-encoded strings (\<^verbatim>\<open>exec/agg_intkey.go\<close>) and the dispatch of
  \<^verbatim>\<open>HashAggregate.accumulate\<close> between the three paths. Every batch brings its own dictionaries; a global dictionary per column gives
  each string one code for the whole input, a remap table per dictionary translates, and the codes of a row are packed into 64 bits.
  When a global dictionary outgrows the bits of its column, the groups move over to string keys.

  A remap table is found by the dictionary's content where the source compares pointers: a second dictionary with the same content
  would get the same table, since its strings have their global codes already.
\<close>

section \<open>State\<close>

record intKeyState =
  ienabled :: bool
  globalDicts :: "DictBuilder list"
  shifts :: "nat list"
  widths :: "nat list"
  remaps :: "(Dictionary \<rightharpoonup> u32 list) list"
  intKeys :: "u64 list"
  intGroups :: "u64 \<rightharpoonup> slot list"
  intSamples :: "u64 \<rightharpoonup> groupByVal list"

definition key_width :: "nat \<Rightarrow> nat" where
  "key_width n = (if n \<le> 2 then 32 else if n \<le> 4 then 16 else if n \<le> 8 then 8 else 0)"

definition intKey_init :: "nat \<Rightarrow> intKeyState" where
  "intKey_init n = \<lparr>ienabled = True, globalDicts = replicate n NewDictBuilder, shifts = map (\<lambda>i. i * key_width n) [0..<n],
     widths = replicate n (key_width n), remaps = replicate n Map.empty, intKeys = [], intGroups = Map.empty, intSamples = Map.empty\<rparr>"

definition no_intKey :: intKeyState where
  "no_intKey = \<lparr>ienabled = False, globalDicts = [], shifts = [], widths = [], remaps = [], intKeys = [], intGroups = Map.empty, intSamples = Map.empty\<rparr>"

fun dict_columns :: "Batch \<Rightarrow> nat list \<Rightarrow> bool xres" where
  "dict_columns batch [] = Inr True"
| "dict_columns batch (c # cs) = res_bind (idx (Vectors batch) c) (\<lambda>v. case v of
     StringVector _ (Some _) _ \<Rightarrow> dict_columns batch cs | _ \<Rightarrow> Inr False)"

definition canUseIntKey :: "Batch \<Rightarrow> nat list \<Rightarrow> bool xres" where
  "canUseIntKey batch gb = (if gb = [] \<or> 8 < length gb then Inr False else dict_columns batch gb)"

definition build_remap :: "DictBuilder \<Rightarrow> Dictionary \<Rightarrow> (u32 list \<times> DictBuilder) xres" where
  "build_remap gd dict = fold_res (\<lambda>(remap, gd) localCode. res_map (\<lambda>(s, _). let (globalCode, gd) = DictBuilder_Add gd s in (remap @ [globalCode], gd))
     (Dictionary_Get dict (of_nat localCode))) ([], gd) [0..<length (Offsets dict)]"

definition getOrBuildRemap :: "nat \<Rightarrow> Dictionary \<Rightarrow> intKeyState \<Rightarrow> (u32 list \<times> intKeyState) xres" where
  "getOrBuildRemap colPos dict ik = res_bind (idx (remaps ik) colPos) (\<lambda>m. case m dict of
     Some remap \<Rightarrow> Inr (remap, ik)
   | None \<Rightarrow> res_bind (idx (globalDicts ik) colPos) (\<lambda>gd. res_map (\<lambda>(remap, gd). (remap, ik\<lparr>globalDicts := (globalDicts ik)[colPos := gd],
       remaps := (remaps ik)[colPos := m(dict \<mapsto> remap)]\<rparr>)) (build_remap gd dict)))"

definition buildIntKey :: "intKeyState \<Rightarrow> u32 list list \<Rightarrow> u32 list list \<Rightarrow> nat \<Rightarrow> u64 xres" where
  "buildIntKey ik rms codes rowIdx = fold_res (\<lambda>key (i, cs). res_bind (idx rms i) (\<lambda>remap. res_bind (idx cs rowIdx) (\<lambda>localCode.
     res_bind (idx remap (unat localCode)) (\<lambda>globalCode. res_map (\<lambda>sh. key OR push_bit sh (ucast globalCode)) (idx (shifts ik) i))))) 0 (enumerate 0 codes)"

definition codeOverflows :: "intKeyState \<Rightarrow> bool" where
  "codeOverflows ik \<longleftrightarrow> (\<exists>(gd, w) \<in> set (zip (globalDicts ik) (widths ik)). 2 ^ w \<le> DictBuilder_Len gd)"

definition intKeyToStringKey :: "intKeyState \<Rightarrow> nat \<Rightarrow> u64 \<Rightarrow> byte list xres" where
  "intKeyToStringKey ik n key = fold_res (\<lambda>buf i. res_bind (idx (shifts ik) i) (\<lambda>sh. res_bind (idx (widths ik) i) (\<lambda>w.
     let globalCode = ucast (drop_bit sh key AND mask w) :: u32 in
     if (case intSamples ik key of None \<Rightarrow> False | Some sample \<Rightarrow> gnull (sample ! i)) then Inr (buf @ [0x00, 0xFF])
     else res_bind (idx (globalDicts ik) i) (\<lambda>gd. res_map (\<lambda>s. AppendUint32 (buf @ [0x02]) (word_of_nat (length s)) @ bytes_of s @ [0xFF])
       (GetByCode gd globalCode))))) [] [0..<n]"

definition materialize_key :: "intKeyState \<Rightarrow> nat \<Rightarrow> group_maps \<Rightarrow> u64 \<Rightarrow> group_maps xres" where
  "materialize_key ik n g key = res_map (\<lambda>strKey. g\<lparr>gkeys := gkeys g @ [strKey],
     groups := (groups g)(strKey := intGroups ik key), samples := (samples g)(strKey := intSamples ik key)\<rparr>) (intKeyToStringKey ik n key)"

definition materializeToStringMaps :: "agg_conf \<Rightarrow> intKeyState \<Rightarrow> group_maps \<Rightarrow> group_maps xres" where
  "materializeToStringMaps h ik g = fold_res (materialize_key ik (length (groupBy h))) g (intKeys ik)"


section \<open>Accumulating\<close>

text \<open>\<^verbatim>\<open>foldRow\<close> has a switch of its own, without a case for COUNT(DISTINCT).\<close>

definition fold_minmax :: "bool \<Rightarrow> DataType option \<Rightarrow> i64 \<Rightarrow> slot \<Rightarrow> slot" where
  "fold_minmax lss t x s = (if t = Some TypeFloat64 then (if lss \<and> f_lt x (acc s) \<or> \<not> lss \<and> f_lt (acc s) x then s\<lparr>acc := x\<rparr> else s)
     else if lss \<and> sint x < sint (acc s) \<or> \<not> lss \<and> sint (acc s) < sint x then s\<lparr>acc := x\<rparr> else s)"

definition foldRow :: "AggExpr \<Rightarrow> vector option \<Rightarrow> nat \<Rightarrow> slot \<Rightarrow> slot xres" where
  "foldRow ae v i s = (case AKind ae of
     AggCount \<Rightarrow> if AColIdx ae < 0 then Inr (s\<lparr>acc := acc s + 1, nonNull := nonNull s + 1\<rparr>)
       else with_vec v (\<lambda>v. res_map (\<lambda>null. if \<not> null then s\<lparr>acc := acc s + 1, nonNull := nonNull s + 1\<rparr> else s) (IsNull v i))
   | AggCountDistinct \<Rightarrow> Inr s
   | AggSum \<Rightarrow> with_vec v (\<lambda>v. skip_null v i s (if AccumType ae = Some TypeFloat64
       then (case v of Float64Vector xs nb \<Rightarrow> res_map (\<lambda>x. (bump s)\<lparr>acc := f_add (acc s) x\<rparr>) (idx xs i) | _ \<Rightarrow> Inl Panic)
       else res_map (\<lambda>x. (bump s)\<lparr>acc := acc s + x\<rparr>) (extractInt64 v i)))
   | AggAvg \<Rightarrow> with_vec v (\<lambda>v. skip_null v i s (case v of
       Float64Vector xs nb \<Rightarrow> res_map (\<lambda>x. (bump s)\<lparr>acc := f_add (acc s) x\<rparr>) (idx xs i)
     | _ \<Rightarrow> res_map (\<lambda>x. (bump s)\<lparr>acc := f_add (acc s) (f_of_int64 x)\<rparr>) (extractInt64 v i)))
   | k \<Rightarrow> with_vec v (\<lambda>v. skip_null v i s (let lss = (k = AggMin) in if AccumType ae = Some TypeString
       then (case v of StringVector cs d nb \<Rightarrow> res_map (\<lambda>str. bump (s\<lparr>strAcc := minMaxString (strAcc s) str (0 < sint (nonNull s)) lss\<rparr>)) (StringVector_Get cs d i) | _ \<Rightarrow> Inl Panic)
       else res_map (\<lambda>x. fold_minmax lss (AccumType ae) x (bump s)) (extractInt64 v i))))"

definition accumulateOneRow :: "agg_conf \<Rightarrow> byte list \<Rightarrow> Batch \<Rightarrow> nat \<Rightarrow> vector option list \<Rightarrow> group_maps \<Rightarrow> group_maps xres" where
  "accumulateOneRow h key batch rowIdx vecs g = string_row h False foldRow batch vecs key rowIdx g"

definition accumulateStringKey :: "agg_conf \<Rightarrow> Batch \<Rightarrow> nat list \<Rightarrow> vector option list \<Rightarrow> group_maps \<Rightarrow> group_maps xres" where
  "accumulateStringKey h batch is vecs g = fold_res (\<lambda>g i. res_bind (agg_key (groupBy h) batch i) (\<lambda>key. accumulateOneRow h key batch i vecs g)) g is"

text \<open>The string vectors of the GROUP BY columns, as codes and dictionaries, and their remap tables.\<close>

definition batch_remaps :: "agg_conf \<Rightarrow> Batch \<Rightarrow> intKeyState \<Rightarrow> ((vector \<times> u32 list \<times> Dictionary) list \<times> u32 list list \<times> intKeyState) xres" where
  "batch_remaps h batch ik = fold_res (\<lambda>(svecs, rms, ik) (i, colIdx). res_bind (idx (Vectors batch) colIdx) (\<lambda>v. case v of
       StringVector codes (Some dict) nb \<Rightarrow> res_map (\<lambda>(remap, ik). (svecs @ [(v, codes, dict)], rms @ [remap], ik)) (getOrBuildRemap i dict ik)
     | _ \<Rightarrow> Inl Panic)) ([], [], ik) (enumerate 0 (groupBy h))"

fun has_null :: "vector list \<Rightarrow> nat \<Rightarrow> bool xres" where
  "has_null [] i = Inr False"
| "has_null (v # vs) i = res_bind (IsNull v i) (\<lambda>null. if null then Inr True else has_null vs i)"

definition int_row :: "agg_conf \<Rightarrow> Batch \<Rightarrow> vector option list \<Rightarrow> (vector \<times> u32 list \<times> Dictionary) list \<Rightarrow> u32 list list \<Rightarrow> group_maps \<times> intKeyState \<Rightarrow> nat \<Rightarrow>
    (group_maps \<times> intKeyState) xres" where
  "int_row h batch vecs svecs rms st rowIdx = (case st of (g, ik) \<Rightarrow> res_bind (has_null (map fst svecs) rowIdx) (\<lambda>hasNull.
     if hasNull then res_bind (agg_key (groupBy h) batch rowIdx) (\<lambda>strKey. res_map (\<lambda>g. (g, ik)) (accumulateOneRow h strKey batch rowIdx vecs g))
     else res_bind (buildIntKey ik rms (map (\<lambda>(v, codes, dict). codes) svecs) rowIdx) (\<lambda>key.
       res_bind (if intGroups ik key = None then res_map (\<lambda>sample. ik\<lparr>intGroups := (intGroups ik)(key \<mapsto> new_group h False vecs),
             intKeys := intKeys ik @ [key], intSamples := (intSamples ik)(key \<mapsto> sample)\<rparr>)
           (map_res (\<lambda>(v, codes, dict). res_map (\<lambda>s. \<lparr>gnull = False, gstr = s, gbits = 0\<rparr>) (StringVector_Get codes (Some dict) rowIdx)) svecs)
         else Inr ik)
       (\<lambda>ik. res_map (\<lambda>ss. (g, ik\<lparr>intGroups := (intGroups ik)(key \<mapsto> ss)\<rparr>)) (fold_slots foldRow (aggExprs h) vecs rowIdx (the (intGroups ik key)))))))"

definition accumulateIntKey :: "agg_conf \<Rightarrow> Batch \<Rightarrow> nat list \<Rightarrow> vector option list \<Rightarrow> group_maps \<times> intKeyState \<Rightarrow> (group_maps \<times> intKeyState) xres" where
  "accumulateIntKey h batch is vecs st = (case st of (g, ik) \<Rightarrow> res_bind (batch_remaps h batch ik) (\<lambda>(svecs, rms, ik).
     if codeOverflows ik then
       res_bind (if intKeys ik = [] then Inr g else materializeToStringMaps h ik g) (\<lambda>g.
       res_map (\<lambda>g. (g, ik\<lparr>ienabled := False, intKeys := [], intGroups := Map.empty, intSamples := Map.empty\<rparr>)) (accumulateStringKey h batch is vecs g))
     else fold_res (int_row h batch vecs svecs rms) (g, ik) is))"

record agg_state =
  maps :: group_maps
  intKeyDecided :: bool
  intKey :: intKeyState

definition agg_start :: agg_state where
  "agg_start = \<lparr>maps = initMaps, intKeyDecided = False, intKey = no_intKey\<rparr>"

definition decide_intKey :: "agg_conf \<Rightarrow> Batch \<Rightarrow> agg_state \<Rightarrow> agg_state xres" where
  "decide_intKey h batch st = (if intKeyDecided st then Inr st
     else if hasDistinct h then Inr (st\<lparr>intKeyDecided := True\<rparr>)
     else res_map (\<lambda>use. if use then st\<lparr>intKeyDecided := True, intKey := intKey_init (length (groupBy h))\<rparr> else st\<lparr>intKeyDecided := True\<rparr>)
       (canUseIntKey batch (groupBy h)))"

definition accumulate :: "agg_conf \<Rightarrow> agg_state \<Rightarrow> Batch \<Rightarrow> agg_state xres" where
  "accumulate h st batch = res_bind (agg_vecs h batch) (\<lambda>vecs. res_bind (checkStrAggVecs h vecs) (\<lambda>_.
     if groupBy h = [] then res_map (\<lambda>g. st\<lparr>maps := g\<rparr>) (accumulateDirect h (sel_rows batch) vecs (maps st))
     else res_bind (decide_intKey h batch st) (\<lambda>st.
       if ienabled (intKey st) then res_map (\<lambda>(g, ik). st\<lparr>maps := g, intKey := ik\<rparr>) (accumulateIntKey h batch (sel_rows batch) vecs (maps st, intKey st))
       else res_map (\<lambda>g. st\<lparr>maps := g\<rparr>) (string_rows h batch vecs (maps st)))))"

text \<open>The loop of \<^verbatim>\<open>consumeAll\<close>, and of a parallel worker, over all batches; then the integer keys are turned into string keys.\<close>

definition finish_maps :: "agg_conf \<Rightarrow> agg_state \<Rightarrow> group_maps xres" where
  "finish_maps h st = (if ienabled (intKey st) \<and> intKeys (intKey st) \<noteq> [] then materializeToStringMaps h (intKey st) (maps st) else Inr (maps st))"

fun accumulate_all :: "agg_conf \<Rightarrow> agg_state \<Rightarrow> stream \<Rightarrow> agg_state xres" where
  "accumulate_all h st EOF = Inr st"
| "accumulate_all h st (Failed e) = Inl e"
| "accumulate_all h st (Deliver batch rest) = res_bind (accumulate h st batch) (\<lambda>st. accumulate_all h st rest)"

definition consumeAll :: "agg_conf \<Rightarrow> stream \<Rightarrow> group_maps xres" where
  "consumeAll h child = res_bind (accumulate_all h agg_start child) (finish_maps h)"

section \<open>Packing\<close>

definition pack :: "nat \<Rightarrow> u32 list \<Rightarrow> u64" where
  "pack w cs = foldl (\<lambda>key (i, c). key OR push_bit (i * w) (ucast c)) 0 (enumerate 0 cs)"

lemma pack_snoc: "pack w (cs @ [c]) = pack w cs OR push_bit (length cs * w) (ucast c)"
  by (simp add: pack_def enumerate_append_eq)

lemma bit_pack: "bit (pack w cs) j \<longleftrightarrow> j < 64 \<and> (\<exists>i < length cs. i * w \<le> j \<and> bit (cs ! i) (j - i * w))"
proof (induction cs rule: rev_induct)
  case (snoc c cs)
  then show ?case by (auto simp: pack_snoc bit_simps less_Suc_eq nth_append)
qed (simp add: pack_def)

lemma bit_small: "unat (c :: u32) < 2 ^ w \<Longrightarrow> bit c n \<Longrightarrow> n < w"
proof -
  assume c: "unat c < 2 ^ w" "bit c n"
  have "take_bit w (unat c) = unat c" using c(1) by (simp add: take_bit_nat_eq_self_iff)
  moreover have "bit (unat c) n" using c(2) by (simp add: bit_unsigned_iff)
  ultimately have "bit (take_bit w (unat c)) n" by simp
  then show "n < w" by (simp add: bit_take_bit_iff)
qed

lemma unpack:
  assumes "\<forall>c \<in> set cs. unat c < 2 ^ w" "length cs * w \<le> 64" "i < length cs" "w \<le> 32"
  shows "ucast (drop_bit (i * w) (pack w cs) AND mask w) = cs ! i"
proof (rule bit_eqI)
  fix n assume "possible_bit TYPE(u32) n"
  then have n: "n < 32" by simp
  have c: "\<And>j k. j < length cs \<Longrightarrow> bit (cs ! j) k \<Longrightarrow> k < w" using assms(1) bit_small by (meson nth_mem)
  have "(\<exists>j < length cs. j * w \<le> i * w + n \<and> bit (cs ! j) (i * w + n - j * w)) \<longleftrightarrow> bit (cs ! i) n" if w: "n < w"
  proof
    assume "\<exists>j < length cs. j * w \<le> i * w + n \<and> bit (cs ! j) (i * w + n - j * w)"
    then obtain j where j: "j < length cs" "j * w \<le> i * w + n" "bit (cs ! j) (i * w + n - j * w)" by blast
    have "i * w + n < Suc j * w" using c [OF j(1,3)] j(2) by simp
    then have "i * w < Suc j * w" by simp
    then have "i < Suc j" by (metis mult_less_cancel2)
    moreover have "j * w < Suc i * w" using j(2) w by simp
    then have "j < Suc i" by (metis mult_less_cancel2)
    ultimately have "i = j" by simp
    then show "bit (cs ! i) n" using j(3) by simp
  next
    assume "bit (cs ! i) n"
    then show "\<exists>j < length cs. j * w \<le> i * w + n \<and> bit (cs ! j) (i * w + n - j * w)" using assms(3) by (intro exI [of _ i]) simp
  qed
  moreover have "i * w + n < 64" if "n < w"
  proof -
    have "Suc i * w \<le> length cs * w" using assms(3) by (intro mult_right_mono) simp_all
    then show ?thesis using assms(2) that by simp
  qed
  ultimately show "bit (ucast (drop_bit (i * w) (pack w cs) AND mask w) :: u32) n \<longleftrightarrow> bit (cs ! i) n"
    using n c [OF assms(3), of n] by (auto simp: bit_simps bit_pack bit_ucast_iff)
qed

lemma pack_inj:
  assumes "\<forall>c \<in> set cs. unat c < 2 ^ w" "\<forall>c \<in> set ds. unat c < 2 ^ w" "length cs * w \<le> 64" "w \<le> 32" "length ds = length cs" "pack w cs = pack w ds"
  shows "cs = ds"
proof (rule nth_equalityI)
  fix i assume "i < length cs"
  then show "cs ! i = ds ! i" using unpack [of cs w i] unpack [of ds w i] assms by simp
qed (simp add: assms(5))


section \<open>Global codes\<close>

definition code_of :: "DictBuilder \<Rightarrow> string \<Rightarrow> u32" where
  "code_of db s = the (index db s)"

lemma code_of_ok:
  assumes "db_inv db" "length (keys db) < 2 ^ 32" "s \<in> set (keys db)"
  shows "unat (code_of db s) < length (keys db) \<and> keys db ! unat (code_of db s) = s"
proof -
  obtain i where i: "first_index s (keys db) = Some i" using assms(3) first_index_None by (metis not_None_eq)
  then have "i < length (keys db)" "keys db ! i = s" by (auto simp: first_index_Some)
  moreover have "unat (of_nat i :: u32) = i" using calculation(1) assms(2) by (simp add: unat_of_nat)
  ultimately show ?thesis using i assms(1) by (simp add: code_of_def db_inv_def)
qed

lemma code_of_unique:
  assumes "db_inv db" "length (keys db) < 2 ^ 32" "unat c < length (keys db)" "keys db ! unat c = s"
  shows "c = code_of db s"
proof -
  have "s \<in> set (keys db)" using assms(3,4) by auto
  then have "keys db ! unat (code_of db s) = keys db ! unat c" "unat (code_of db s) < length (keys db)" using code_of_ok assms by auto
  then have "unat (code_of db s) = unat c" using assms(1,3) by (simp add: db_inv_def nth_eq_iff_index_eq)
  then show ?thesis by (simp add: word_unat_eq_iff)
qed

definition db_ext :: "DictBuilder \<Rightarrow> DictBuilder \<Rightarrow> bool" where
  "db_ext db db' \<longleftrightarrow> (\<exists>more. keys db' = keys db @ more)"

lemma db_ext_refl [simp]: "db_ext db db"
  by (simp add: db_ext_def)

lemma db_ext_trans: "db_ext a b \<Longrightarrow> db_ext b c \<Longrightarrow> db_ext a c"
  by (auto simp: db_ext_def)

lemma db_ext_length: "db_ext db db' \<Longrightarrow> length (keys db) \<le> length (keys db')"
  by (auto simp: db_ext_def)

lemma db_ext_nth: "db_ext db db' \<Longrightarrow> i < length (keys db) \<Longrightarrow> keys db' ! i = keys db ! i"
  by (auto simp: db_ext_def nth_append)

lemma db_ext_mem: "db_ext db db' \<Longrightarrow> s \<in> set (keys db) \<Longrightarrow> s \<in> set (keys db')"
  by (auto simp: db_ext_def)

lemma code_of_ext:
  assumes "db_ext db db'" "db_inv db" "db_inv db'" "s \<in> set (keys db)"
  shows "code_of db' s = code_of db s"
proof -
  obtain i where "first_index s (keys db) = Some i" using assms(4) first_index_None by (metis not_None_eq)
  then show ?thesis using assms(1-3) by (auto simp: code_of_def db_inv_def db_ext_def first_index_append)
qed

lemma DictBuilder_Add_ext: "db_inv db \<Longrightarrow> db_ext db (snd (DictBuilder_Add db s))"
  by (simp add: db_ext_def DictBuilder_Add_keys)

lemma add_all_ext:
  assumes "db_inv db"
  shows "db_inv (snd (add_all db ss)) \<and> db_ext db (snd (add_all db ss)) \<and> length (fst (add_all db ss)) = length ss \<and>
    (length (keys (snd (add_all db ss))) < 2 ^ 32 \<longrightarrow> (\<forall>l < length ss. unat (fst (add_all db ss) ! l) < length (keys (snd (add_all db ss))) \<and>
      keys (snd (add_all db ss)) ! unat (fst (add_all db ss) ! l) = ss ! l))"
  using assms
proof (induction ss arbitrary: db)
  case (Cons s ss)
  let ?c = "fst (DictBuilder_Add db s)" and ?db = "snd (DictBuilder_Add db s)" and ?d = "snd (add_all (snd (DictBuilder_Add db s)) ss)"
  have inv: "db_inv ?db" "db_ext db ?db" using Cons.prems DictBuilder_Add_inv DictBuilder_Add_ext by simp_all
  note IH = Cons.IH [OF inv(1)]
  have ext: "db_ext ?db ?d" using IH by blast
  have "unat ?c < length (keys ?d) \<and> keys ?d ! unat ?c = s" if small: "length (keys ?d) < 2 ^ 32"
  proof -
    have "length (keys db) < 2 ^ 32" using small db_ext_length [OF inv(2)] db_ext_length [OF ext] by simp
    note c = DictBuilder_Add_code [OF Cons.prems this, of s]
    then show ?thesis using db_ext_length [OF ext] db_ext_nth [OF ext c(1)] by simp
  qed
  then have "unat ((?c # fst (add_all ?db ss)) ! l) < length (keys ?d) \<and> keys ?d ! unat ((?c # fst (add_all ?db ss)) ! l) = (s # ss) ! l"
    if "length (keys ?d) < 2 ^ 32" "l < length (s # ss)" for l using IH that by (cases l) simp_all
  then show ?case unfolding add_all_Cons using IH db_ext_trans [OF inv(2) ext] by simp
qed simp

lemma build_remap_eq:
  assumes "dict_wf d" "length (Offsets d) < 2 ^ 32"
  shows "build_remap gd d = Inr (add_all gd (dict_strings d))"
proof -
  have "fold_res (\<lambda>(remap, gd) l. res_map (\<lambda>(s, _). let (c, gd) = DictBuilder_Add gd s in (remap @ [c], gd)) (Dictionary_Get d (of_nat l))) (r, gd) is =
      (Inr (r @ fst (add_all gd (map ((!) (dict_strings d)) is)), snd (add_all gd (map ((!) (dict_strings d)) is))) :: (u32 list \<times> DictBuilder) xres)"
    if "\<forall>l \<in> set is. l < length (Offsets d)" for r "is"
    using that
  proof (induction "is" arbitrary: r gd)
    case (Cons l "is")
    have "unat (of_nat l :: u32) = l" using Cons.prems assms(2) by (simp add: unat_of_nat)
    then obtain d2 where "Dictionary_Get d (of_nat l) = (Inr (dict_strings d ! l, d2) :: (string \<times> Dictionary) xres)"
      using Dictionary_Get_wf [OF assms(1), of "of_nat l"] Cons.prems by auto
    then show ?case using Cons by (simp add: add_all_Cons case_prod_beta Let_def)
  qed simp
  note loop = this [of "[0..<length (Offsets d)]" "[]"]
  have "map ((!) (dict_strings d)) [0..<length (Offsets d)] = dict_strings d" by (metis length_dict_strings map_nth)
  then show ?thesis using loop by (simp add: build_remap_def)
qed

section \<open>Remap tables\<close>

text \<open>
  The tables of a column are right as long as its global dictionary has fewer than \<open>2 ^ 32\<close> strings: each local code is sent to the
  global code of the same string. With more the column has overflowed and they are no longer used.
\<close>

definition remap_ok :: "DictBuilder \<Rightarrow> Dictionary \<Rightarrow> u32 list \<Rightarrow> bool" where
  "remap_ok gd d r \<longleftrightarrow> length r = length (Offsets d) \<and>
     (\<forall>l < length r. unat (r ! l) < length (keys gd) \<and> keys gd ! unat (r ! l) = dict_strings d ! l)"

definition col_ok :: "DictBuilder \<Rightarrow> (Dictionary \<rightharpoonup> u32 list) \<Rightarrow> bool" where
  "col_ok gd m \<longleftrightarrow> db_inv gd \<and> (length (keys gd) < 2 ^ 32 \<longrightarrow> (\<forall>d r. m d = Some r \<longrightarrow> remap_ok gd d r))"

lemma remap_ok_ext: "db_ext gd gd' \<Longrightarrow> remap_ok gd d r \<Longrightarrow> remap_ok gd' d r"
  using db_ext_length [of gd gd'] db_ext_nth [of gd gd'] by (fastforce simp: remap_ok_def)

lemma col_ok_add:
  assumes "col_ok gd m"
  shows "col_ok (snd (add_all gd (dict_strings d))) (m(d \<mapsto> fst (add_all gd (dict_strings d))))"
proof -
  have gd: "db_inv gd" using assms by (simp add: col_ok_def)
  note a = add_all_ext [OF gd, of "dict_strings d"]
  then have ext: "db_ext gd (snd (add_all gd (dict_strings d)))" by blast
  have "remap_ok (snd (add_all gd (dict_strings d))) d' r"
    if "length (keys (snd (add_all gd (dict_strings d)))) < 2 ^ 32" "(m(d \<mapsto> fst (add_all gd (dict_strings d)))) d' = Some r" for d' r
  proof (cases "d' = d")
    case True
    then show ?thesis using a that by (auto simp: remap_ok_def)
  next
    case False
    have "length (keys gd) < 2 ^ 32" using db_ext_length [OF ext] that(1) by simp
    then show ?thesis using assms remap_ok_ext [OF ext] that(2) False by (simp add: col_ok_def)
  qed
  then show ?thesis using a by (simp add: col_ok_def)
qed

text \<open>What all the tables of a state satisfy, for \<open>n\<close> group-by columns.\<close>

definition cols_ok :: "nat \<Rightarrow> intKeyState \<Rightarrow> bool" where
  "cols_ok n ik \<longleftrightarrow> length (globalDicts ik) = n \<and> length (remaps ik) = n \<and> shifts ik = map (\<lambda>i. i * key_width n) [0..<n] \<and>
     widths ik = replicate n (key_width n) \<and> (\<forall>i < n. col_ok (globalDicts ik ! i) (remaps ik ! i))"

definition ik_frame :: "nat \<Rightarrow> intKeyState \<Rightarrow> intKeyState \<Rightarrow> bool" where
  "ik_frame n ik ik' \<longleftrightarrow> (\<forall>i < n. db_ext (globalDicts ik ! i) (globalDicts ik' ! i)) \<and> ienabled ik' = ienabled ik \<and> intKeys ik' = intKeys ik \<and>
     intGroups ik' = intGroups ik \<and> intSamples ik' = intSamples ik"

lemma getOrBuildRemap_ok:
  assumes "cols_ok n ik" "i < n" "dict_wf d" "length (Offsets d) < 2 ^ 32"
  shows "\<exists>r ik'. getOrBuildRemap i d ik = Inr (r, ik') \<and> cols_ok n ik' \<and> ik_frame n ik ik' \<and> (remaps ik' ! i) d = Some r \<and>
    (\<forall>j < n. \<forall>d' r'. (remaps ik ! j) d' = Some r' \<longrightarrow> (remaps ik' ! j) d' = Some r')"
proof (cases "(remaps ik ! i) d")
  case None
  let ?a = "add_all (globalDicts ik ! i) (dict_strings d)"
  let ?ik = "ik\<lparr>globalDicts := (globalDicts ik)[i := snd ?a], remaps := (remaps ik)[i := (remaps ik ! i)(d \<mapsto> fst ?a)]\<rparr>"
  have c: "col_ok (globalDicts ik ! i) (remaps ik ! i)" using assms(1,2) by (simp add: cols_ok_def)
  have "getOrBuildRemap i d ik = Inr (fst ?a, ?ik)"
    using assms None build_remap_eq [OF assms(3,4), of "globalDicts ik ! i"] by (simp add: getOrBuildRemap_def cols_ok_def case_prod_beta)
  moreover have "cols_ok n ?ik" using assms(1,2) col_ok_add [OF c, of d] by (simp add: cols_ok_def nth_list_update)
  moreover have "ik_frame n ik ?ik" using assms(1,2) c add_all_ext [of "globalDicts ik ! i" "dict_strings d"]
    by (simp add: cols_ok_def ik_frame_def nth_list_update col_ok_def)
  ultimately show ?thesis using assms(1,2) None by (intro exI [of _ "fst ?a"] exI [of _ ?ik]) (auto simp: cols_ok_def nth_list_update)
next
  case (Some r)
  then show ?thesis using assms by (intro exI [of _ r] exI [of _ ik]) (simp add: getOrBuildRemap_def cols_ok_def ik_frame_def)
qed

text \<open>The GROUP BY columns of a batch as the fast path needs them: strings with a dictionary.\<close>

definition dict_of :: "vector \<Rightarrow> Dictionary" where
  "dict_of v = (case v of StringVector cs (Some d) nb \<Rightarrow> d | _ \<Rightarrow> \<lparr>Offsets = [], Data = [], cache = []\<rparr>)"

definition codes_of :: "vector \<Rightarrow> u32 list" where
  "codes_of v = (case v of StringVector cs d nb \<Rightarrow> cs | _ \<Rightarrow> [])"

definition has_dict :: "vector \<Rightarrow> bool" where
  "has_dict v = (case v of StringVector cs (Some d) nb \<Rightarrow> True | _ \<Rightarrow> False)"

lemma has_dictE:
  assumes "has_dict v"
  obtains cs d nb where "v = StringVector cs (Some d) nb" "dict_of v = d" "codes_of v = cs"
  using assms by (cases v) (auto simp: has_dict_def dict_of_def codes_of_def split: option.splits)

lemma batch_remaps_ok:
  assumes ik: "cols_ok n ik" and n: "n = length (groupBy h)"
    and vs: "\<forall>c \<in> set (groupBy h). c < length (Vectors b) \<and> has_dict (Vectors b ! c) \<and> wf_vector N (Vectors b ! c)"
  shows "\<exists>rms ik'. batch_remaps h b ik = Inr (map (\<lambda>c. (Vectors b ! c, codes_of (Vectors b ! c), dict_of (Vectors b ! c))) (groupBy h), rms, ik') \<and>
    cols_ok n ik' \<and> ik_frame n ik ik' \<and> length rms = n \<and> (\<forall>i < n. (remaps ik' ! i) (dict_of (Vectors b ! (groupBy h ! i))) = Some (rms ! i))"
proof -
  let ?sv = "\<lambda>c. (Vectors b ! c, codes_of (Vectors b ! c), dict_of (Vectors b ! c))"
  let ?f = "\<lambda>(svecs, rms, ik) (i, colIdx). res_bind (idx (Vectors b) colIdx) (\<lambda>v. case v of
       StringVector codes (Some dict) nb \<Rightarrow> res_map (\<lambda>(remap, ik). (svecs @ [(v, codes, dict)], rms @ [remap], ik)) (getOrBuildRemap i dict ik)
     | _ \<Rightarrow> Inl Panic)"
  have "\<exists>rms ik'. fold_res ?f ([], [], ik) (enumerate 0 gb) = Inr (map ?sv gb, rms, ik') \<and>
    cols_ok n ik' \<and> ik_frame n ik ik' \<and> length rms = length gb \<and> (\<forall>i < length gb. (remaps ik' ! i) (dict_of (Vectors b ! (gb ! i))) = Some (rms ! i))"
    if "\<exists>gb'. groupBy h = gb @ gb'" for gb
    using that
  proof (induction gb rule: rev_induct)
    case Nil
    then show ?case using ik by (simp add: ik_frame_def)
  next
    case (snoc c gb)
    then obtain rms ik1 where 1: "fold_res ?f ([], [], ik) (enumerate 0 gb) = Inr (map ?sv gb, rms, ik1)" "cols_ok n ik1" "ik_frame n ik ik1"
      "length rms = length gb" "\<forall>i < length gb. (remaps ik1 ! i) (dict_of (Vectors b ! (gb ! i))) = Some (rms ! i)" by auto
    have c: "c \<in> set (groupBy h)" "length gb < n" using snoc.prems n by auto
    let ?v = "Vectors b ! c"
    have "has_dict ?v" using vs c(1) by blast
    then obtain cs d nb where v: "?v = StringVector cs (Some d) nb" "dict_of ?v = d" "codes_of ?v = cs" by (rule has_dictE)
    have d: "dict_wf d" "length (Offsets d) < 2 ^ 32" using vs c(1) v(1) by auto
    obtain r ik2 where 2: "getOrBuildRemap (length gb) d ik1 = Inr (r, ik2)" "cols_ok n ik2" "ik_frame n ik1 ik2" "(remaps ik2 ! length gb) d = Some r"
      "\<forall>j < n. \<forall>d' r'. (remaps ik1 ! j) d' = Some r' \<longrightarrow> (remaps ik2 ! j) d' = Some r'"
      using getOrBuildRemap_ok [OF 1(2) c(2) d] by blast
    have "fold_res ?f ([], [], ik) (enumerate 0 (gb @ [c])) = Inr (map ?sv (gb @ [c]), rms @ [r], ik2)"
      using 1(1) 2(1) v vs c(1) by (simp add: enumerate_append_eq fold_res_append)
    moreover have "ik_frame n ik ik2" using 1(3) 2(3) db_ext_trans by (auto simp: ik_frame_def)
    moreover have "\<forall>i < length (gb @ [c]). (remaps ik2 ! i) (dict_of (Vectors b ! ((gb @ [c]) ! i))) = Some ((rms @ [r]) ! i)"
      using 1(4,5) 2(4,5) c(2) v(2) by (auto simp: nth_append less_Suc_eq)
    ultimately show ?case using 1(4) 2(2) by (intro exI [of _ "rms @ [r]"] exI [of _ ik2]) simp
  qed
  note this [of "groupBy h"]
  then show ?thesis unfolding batch_remaps_def n by simp
qed

section \<open>The groups behind the integer keys\<close>

definition coded :: "nat \<Rightarrow> DictBuilder \<Rightarrow> string \<Rightarrow> bool" where
  "coded w db s \<longleftrightarrow> s \<in> set (keys db) \<and> unat (code_of db s) < 2 ^ w \<and> unat (code_of db s) < length (keys db) \<and> keys db ! unat (code_of db s) = s"

lemma coded_ext:
  assumes "db_ext db db'" "db_inv db" "db_inv db'" "coded w db s"
  shows "coded w db' s" "code_of db' s = code_of db s"
proof -
  have "s \<in> set (keys db)" using assms(4) by (simp add: coded_def)
  then show "code_of db' s = code_of db s" using code_of_ext assms(1-3) by blast
  then show "coded w db' s" using assms(4) db_ext_mem [OF assms(1)] db_ext_nth [OF assms(1)] db_ext_length [OF assms(1)] by (simp add: coded_def)
qed

definition known :: "nat \<Rightarrow> intKeyState \<Rightarrow> val option list \<Rightarrow> bool" where
  "known n ik k \<longleftrightarrow> length k = n \<and> (\<forall>i < n. \<exists>s. k ! i = Some (VString s) \<and> coded (key_width n) (globalDicts ik ! i) s)"

definition ikey :: "nat \<Rightarrow> intKeyState \<Rightarrow> val option list \<Rightarrow> u64" where
  "ikey n ik k = pack (key_width n) (map (\<lambda>i. code_of (globalDicts ik ! i) (cell_str (k ! i))) [0..<n])"

lemma known_nth:
  assumes "known n ik k" "i < n"
  obtains s where "k ! i = Some (VString s)" "coded (key_width n) (globalDicts ik ! i) s"
  using assms by (auto simp: known_def)

lemma key_width_bounds: "n \<le> 8 \<Longrightarrow> n * key_width n \<le> 64 \<and> key_width n \<le> 32"
  by (auto simp: key_width_def)

lemma known_codes: "known n ik k \<Longrightarrow> \<forall>c \<in> set (map (\<lambda>i. code_of (globalDicts ik ! i) (cell_str (k ! i))) [0..<n]). unat c < 2 ^ key_width n"
  by (fastforce simp: known_def coded_def cell_str_def)

lemma ikey_inj:
  assumes "n \<le> 8" "known n ik k" "known n ik k'" "ikey n ik k = ikey n ik k'"
  shows "k = k'"
proof (rule nth_equalityI)
  have len: "length k = n" "length k' = n" using assms(2,3) by (simp_all add: known_def)
  then show "length k = length k'" by simp
  have "map (\<lambda>i. code_of (globalDicts ik ! i) (cell_str (k ! i))) [0..<n] = map (\<lambda>i. code_of (globalDicts ik ! i) (cell_str (k' ! i))) [0..<n]"
    using pack_inj [OF known_codes [OF assms(2)] known_codes [OF assms(3)]] key_width_bounds [OF assms(1)] assms(4) by (simp add: ikey_def)
  then have eq: "code_of (globalDicts ik ! i) (cell_str (k ! i)) = code_of (globalDicts ik ! i) (cell_str (k' ! i))" if "i < n" for i
    using that by simp
  fix i assume i: "i < length k"
  then have "i < n" using len by simp
  obtain s where s: "k ! i = Some (VString s)" "coded (key_width n) (globalDicts ik ! i) s" using known_nth [OF assms(2) \<open>i < n\<close>] by blast
  obtain s' where s': "k' ! i = Some (VString s')" "coded (key_width n) (globalDicts ik ! i) s'" using known_nth [OF assms(3) \<open>i < n\<close>] by blast
  have code: "code_of (globalDicts ik ! i) s = code_of (globalDicts ik ! i) s'" using eq [OF \<open>i < n\<close>] s(1) s'(1) by (simp add: cell_str_def)
  have "keys (globalDicts ik ! i) ! unat (code_of (globalDicts ik ! i) s) = s" "keys (globalDicts ik ! i) ! unat (code_of (globalDicts ik ! i) s') = s'"
    using s(2) s'(2) by (simp_all add: coded_def)
  then have "s = s'" unfolding code by simp
  then show "k ! i = k' ! i" using s(1) s'(1) by simp
qed

lemma known_frame:
  assumes "cols_ok n ik" "cols_ok n ik'" "ik_frame n ik ik'" "known n ik k"
  shows "known n ik' k" "ikey n ik' k = ikey n ik k"
proof -
  have one: "\<exists>s. k ! i = Some (VString s) \<and> coded (key_width n) (globalDicts ik' ! i) s \<and>
      code_of (globalDicts ik' ! i) s = code_of (globalDicts ik ! i) s" if i: "i < n" for i
  proof -
    obtain s where s: "k ! i = Some (VString s)" "coded (key_width n) (globalDicts ik ! i) s" using known_nth [OF assms(4) i] by blast
    have "db_ext (globalDicts ik ! i) (globalDicts ik' ! i)" "db_inv (globalDicts ik ! i)" "db_inv (globalDicts ik' ! i)"
      using assms(1-3) i by (simp_all add: cols_ok_def ik_frame_def col_ok_def)
    then show ?thesis using coded_ext s by blast
  qed
  then show "known n ik' k" using assms(4) by (auto simp: known_def)
  have "map (\<lambda>i. code_of (globalDicts ik' ! i) (cell_str (k ! i))) [0..<n] = map (\<lambda>i. code_of (globalDicts ik ! i) (cell_str (k ! i))) [0..<n]"
  proof (rule map_cong [OF refl])
    fix i assume "i \<in> set [0..<n]"
    then show "code_of (globalDicts ik' ! i) (cell_str (k ! i)) = code_of (globalDicts ik ! i) (cell_str (k ! i))"
      using one [of i] by (auto simp: cell_str_def)
  qed
  then show "ikey n ik' k = ikey n ik k" by (simp only: ikey_def)
qed

definition ik_ok :: "agg_conf \<Rightarrow> slot list \<Rightarrow> val option list list \<Rightarrow> val option list list \<Rightarrow> intKeyState \<Rightarrow> bool" where
  "ik_ok h s0 ks rs ik \<longleftrightarrow> (let n = length (groupBy h) in cols_ok n ik \<and> intKeys ik = map (ikey n ik) ks \<and> distinct ks \<and>
     set ks = gcells (groupBy h) ` set rs \<and>
     (\<forall>k \<in> set ks. known n ik k \<and> intGroups ik (ikey n ik k) = Some (slots_of (aggExprs h) s0 (filter (\<lambda>r. gcells (groupBy h) r = k) rs)) \<and>
        intSamples ik (ikey n ik k) = Some (map sample_of k)) \<and>
     (\<forall>key. key \<notin> ikey n ik ` set ks \<longrightarrow> intGroups ik key = None))"

lemma ik_okD:
  assumes "ik_ok h s0 ks rs ik"
  shows "cols_ok (length (groupBy h)) ik" "intKeys ik = map (ikey (length (groupBy h)) ik) ks" "distinct ks" "set ks = gcells (groupBy h) ` set rs"
    "\<And>k. k \<in> set ks \<Longrightarrow> known (length (groupBy h)) ik k"
    "\<And>k. k \<in> set ks \<Longrightarrow> intGroups ik (ikey (length (groupBy h)) ik k) = Some (slots_of (aggExprs h) s0 (filter (\<lambda>r. gcells (groupBy h) r = k) rs))"
    "\<And>k. k \<in> set ks \<Longrightarrow> intSamples ik (ikey (length (groupBy h)) ik k) = Some (map sample_of k)"
    "\<And>key. key \<notin> ikey (length (groupBy h)) ik ` set ks \<Longrightarrow> intGroups ik key = None"
  using assms unfolding ik_ok_def Let_def by blast+

lemma ik_ok_init: "ik_ok h s0 [] [] (intKey_init (length (groupBy h)))"
  by (simp add: ik_ok_def cols_ok_def intKey_init_def col_ok_def Let_def)

lemma ik_ok_frame:
  assumes "ik_ok h s0 ks rs ik" "cols_ok (length (groupBy h)) ik'" "ik_frame (length (groupBy h)) ik ik'"
  shows "ik_ok h s0 ks rs ik'"
proof -
  let ?n = "length (groupBy h)"
  have ik: "cols_ok ?n ik" "\<forall>k \<in> set ks. known ?n ik k" using assms(1) by (auto simp: ik_ok_def Let_def)
  have "\<forall>k \<in> set ks. known ?n ik' k \<and> ikey ?n ik' k = ikey ?n ik k" using known_frame [OF ik(1) assms(2,3)] ik(2) by blast
  moreover have "map (ikey ?n ik') ks = map (ikey ?n ik) ks" "ikey ?n ik' ` set ks = ikey ?n ik ` set ks" using calculation by auto
  ultimately show ?thesis using assms unfolding ik_ok_def Let_def ik_frame_def by simp
qed

lemma ik_ok_old:
  assumes ik: "ik_ok h s0 ks rs ik" "length (groupBy h) \<le> 8" and k: "k = gcells (groupBy h) r" "k \<in> set ks"
  shows "ik_ok h s0 ks (rs @ [r]) (ik\<lparr>intGroups := (intGroups ik)(ikey (length (groupBy h)) ik k \<mapsto>
    slots_of (aggExprs h) s0 (filter (\<lambda>r. gcells (groupBy h) r = k) rs @ [r]))\<rparr>)"
proof -
  let ?n = "length (groupBy h)"
  let ?ik = "ik\<lparr>intGroups := (intGroups ik)(ikey ?n ik k \<mapsto> slots_of (aggExprs h) s0 (filter (\<lambda>r. gcells (groupBy h) r = k) rs @ [r]))\<rparr>"
  have same: "known ?n ?ik = known ?n ik" "ikey ?n ?ik = ikey ?n ik" "cols_ok ?n ?ik = cols_ok ?n ik"
    by (simp_all add: fun_eq_iff known_def ikey_def cols_ok_def)
  have kn: "known ?n ik k'" if "k' \<in> set ks" for k' using ik(1) that by (simp add: ik_ok_def Let_def)
  have "ikey ?n ik k' = ikey ?n ik k \<longleftrightarrow> k' = k" if "k' \<in> set ks" for k' using ikey_inj [OF ik(2) kn kn] that k(2) by blast
  then show ?thesis using ik(1) k unfolding ik_ok_def Let_def same by (auto simp: image_iff)
qed

lemma ik_ok_new:
  assumes ik: "ik_ok h s0 ks rs ik" "length (groupBy h) \<le> 8" and k: "k = gcells (groupBy h) r" "k \<notin> set ks" "known (length (groupBy h)) ik k"
  shows "ik_ok h s0 (ks @ [k]) (rs @ [r]) (ik\<lparr>intKeys := intKeys ik @ [ikey (length (groupBy h)) ik k],
    intGroups := (intGroups ik)(ikey (length (groupBy h)) ik k \<mapsto> slots_of (aggExprs h) s0 [r]),
    intSamples := (intSamples ik)(ikey (length (groupBy h)) ik k \<mapsto> map sample_of k)\<rparr>)"
proof -
  let ?n = "length (groupBy h)"
  let ?ik = "ik\<lparr>intKeys := intKeys ik @ [ikey ?n ik k], intGroups := (intGroups ik)(ikey ?n ik k \<mapsto> slots_of (aggExprs h) s0 [r]),
    intSamples := (intSamples ik)(ikey ?n ik k \<mapsto> map sample_of k)\<rparr>"
  have same: "known ?n ?ik = known ?n ik" "ikey ?n ?ik = ikey ?n ik" "cols_ok ?n ?ik = cols_ok ?n ik"
    by (simp_all add: fun_eq_iff known_def ikey_def cols_ok_def)
  have kn: "known ?n ik k'" if "k' \<in> set ks" for k' using ik(1) that by (simp add: ik_ok_def Let_def)
  have neq: "ikey ?n ik k' \<noteq> ikey ?n ik k" if "k' \<in> set ks" for k' using ikey_inj [OF ik(2) kn k(3)] that k(2) by blast
  have "set ks = gcells (groupBy h) ` set rs" using ik(1) by (simp add: ik_ok_def Let_def)
  then have none: "filter (\<lambda>r. gcells (groupBy h) r = k) rs = []" using k(2) by (force simp: filter_empty_conv)
  have "gcells (groupBy h) r \<noteq> k'" if "k' \<in> set ks" for k' using k(1,2) that by auto
  then show ?thesis using ik(1) k neq none unfolding ik_ok_def Let_def same by (auto simp: image_iff)
qed

section \<open>Rows through the fast path\<close>

lemma pack_upto: "pack w (map f [0..<n]) = foldl (\<lambda>key i. key OR push_bit (i * w) (ucast (f i))) 0 [0..<n]"
  unfolding pack_def enumerate_map foldl_map by (rule foldl_cong) simp_all

lemma codeOverflows_small:
  assumes "cols_ok n ik" "\<not> codeOverflows ik" "i < n"
  shows "length (keys (globalDicts ik ! i)) < 2 ^ key_width n"
  using assms by (force simp: codeOverflows_def cols_ok_def DictBuilder_Len_def in_set_zip)

text \<open>The columns of a batch that takes the fast path.\<close>

definition dict_batch :: "nat list \<Rightarrow> Batch \<Rightarrow> bool" where
  "dict_batch gb b \<longleftrightarrow> (\<forall>c \<in> set gb. c < length (Vectors b) \<and> has_dict (Vectors b ! c) \<and> wf_vector (evalLen b) (Vectors b ! c))"

lemma string_col:
  assumes "has_dict v" "wf_vector N v" "i < N" "vget v i \<noteq> None"
  shows "vget v i = Some (VString (dict_strings (dict_of v) ! unat (codes_of v ! i)))" "unat (codes_of v ! i) < length (Offsets (dict_of v))"
    "i < length (codes_of v)" "StringVector_Get (codes_of v) (Some (dict_of v)) i = Inr (cell_str (vget v i))"
proof -
  obtain cs d nb where v: "v = StringVector cs (Some d) nb" "dict_of v = d" "codes_of v = cs" by (rule has_dictE [OF assms(1)])
  then show "vget v i = Some (VString (dict_strings (dict_of v) ! unat (codes_of v ! i)))" "unat (codes_of v ! i) < length (Offsets (dict_of v))"
    "i < length (codes_of v)" "StringVector_Get (codes_of v) (Some (dict_of v)) i = Inr (cell_str (vget v i))"
    using assms string_cell(2) [of N cs "Some d" nb i] by (auto split: if_splits)
qed

lemma has_null_ok:
  "\<forall>v \<in> set vs. wf_vector N v \<Longrightarrow> i < N \<Longrightarrow> has_null vs i = Inr (None \<in> set (map (\<lambda>v. vget v i) vs))"
proof (induction vs)
  case (Cons v vs)
  then have "IsNull v i = Inr (vget v i = None)" using IsNull_ok [of N v i] by (simp add: vget_None_iff)
  then show ?case using Cons by auto
qed simp

lemma buildIntKey_ok:
  assumes ik: "cols_ok n ik" "\<not> codeOverflows ik" "n = length gb" "n \<le> 8" and b: "dict_batch gb b" "i < evalLen b"
    and rms: "length rms = n" "\<forall>j < n. (remaps ik ! j) (dict_of (Vectors b ! (gb ! j))) = Some (rms ! j)"
    and nn: "None \<notin> set (gcells gb (row_at b i))"
  shows "buildIntKey ik rms (map (\<lambda>c. codes_of (Vectors b ! c)) gb) i = Inr (ikey n ik (gcells gb (row_at b i)))"
    "known n ik (gcells gb (row_at b i))"
proof -
  let ?k = "gcells gb (row_at b i)" and ?v = "\<lambda>j. Vectors b ! (gb ! j)"
  let ?s = "\<lambda>j. dict_strings (dict_of (?v j)) ! unat (codes_of (?v j) ! i)"
  have col: "gb ! j < length (Vectors b)" "has_dict (?v j)" "wf_vector (evalLen b) (?v j)" if "j < n" for j
    using b(1) that ik(3) by (auto simp: dict_batch_def)
  have cell: "?k ! j = vget (?v j) i" if "j < n" for j using col(1) that ik(3) by (simp add: gcells_def row_at_def)
  have len: "length ?k = n" using ik(3) by (simp add: gcells_def)
  have nnj: "vget (?v j) i \<noteq> None" if "j < n" for j using nn cell [OF that] len that by (metis nth_mem)
  note sc = string_col [OF col(2,3) b(2) nnj]
  have key: "?k ! j = Some (VString (?s j))" if "j < n" for j using cell sc(1) that by simp
  have small: "length (keys (globalDicts ik ! j)) < 2 ^ key_width n" if "j < n" for j using codeOverflows_small [OF ik(1,2) that] .
  have "(2 :: nat) ^ key_width n \<le> 2 ^ 32" using key_width_bounds [OF ik(4)] by (intro power_increasing) auto
  then have small32: "length (keys (globalDicts ik ! j)) < 2 ^ 32" if "j < n" for j using small [OF that] by linarith
  have rm: "remap_ok (globalDicts ik ! j) (dict_of (?v j)) (rms ! j)" if "j < n" for j
    using ik(1) rms(2) small32 [OF that] that by (simp add: cols_ok_def col_ok_def)
  have inv: "db_inv (globalDicts ik ! j)" if "j < n" for j using ik(1) that by (simp add: cols_ok_def col_ok_def)
  have l: "unat (codes_of (?v j) ! i) < length (rms ! j)" if "j < n" for j using rm [OF that] sc(2) [OF that that that] by (simp add: remap_ok_def)
  have code: "rms ! j ! unat (codes_of (?v j) ! i) = code_of (globalDicts ik ! j) (?s j)" if "j < n" for j
    using rm [OF that] l [OF that] by (intro code_of_unique [OF inv [OF that] small32 [OF that]]) (simp_all add: remap_ok_def)
  have mem: "?s j \<in> set (keys (globalDicts ik ! j))" if "j < n" for j
  proof -
    have "unat (rms ! j ! unat (codes_of (?v j) ! i)) < length (keys (globalDicts ik ! j))" "keys (globalDicts ik ! j) ! unat (rms ! j ! unat (codes_of (?v j) ! i)) = ?s j"
      using rm [OF that] l [OF that] by (simp_all add: remap_ok_def)
    then show ?thesis using nth_mem by metis
  qed
  have coded: "coded (key_width n) (globalDicts ik ! j) (?s j)" if "j < n" for j
  proof -
    have "unat (code_of (globalDicts ik ! j) (?s j)) < length (keys (globalDicts ik ! j)) \<and> keys (globalDicts ik ! j) ! unat (code_of (globalDicts ik ! j) (?s j)) = ?s j"
      using code_of_ok inv small32 mem that by blast
    then show ?thesis using small [OF that] mem [OF that] unfolding coded_def by (meson less_trans)
  qed
  then show "known n ik ?k" using key len unfolding known_def by blast
  let ?cs = "map (\<lambda>c. codes_of (Vectors b ! c)) gb"
  have "buildIntKey ik rms ?cs i = fold_res (\<lambda>key j. Inr (key OR push_bit (j * key_width n) (ucast (code_of (globalDicts ik ! j) (cell_str (?k ! j)))))) 0 [0..<n]"
  proof -
    have "buildIntKey ik rms ?cs i = fold_res (\<lambda>key j. res_bind (idx rms j) (\<lambda>remap. res_bind (idx (codes_of (?v j)) i) (\<lambda>localCode.
        res_bind (idx remap (unat localCode)) (\<lambda>globalCode. res_map (\<lambda>sh. key OR push_bit sh (ucast globalCode)) (idx (shifts ik) j))))) 0 [0..<n]"
      unfolding buildIntKey_def enumerate_map fold_res_map using ik(3) by (intro fold_res_cong) simp_all
    also have "\<dots> = fold_res (\<lambda>key j. Inr (key OR push_bit (j * key_width n) (ucast (code_of (globalDicts ik ! j) (cell_str (?k ! j)))))) 0 [0..<n]"
    proof (rule fold_res_cong [OF refl refl])
      fix key j assume "j \<in> set [0..<n]"
      then have j: "j < n" by simp
      have "j < length (shifts ik)" "shifts ik ! j = j * key_width n" using ik(1) j by (simp_all add: cols_ok_def)
      then show "res_bind (idx rms j) (\<lambda>remap. res_bind (idx (codes_of (?v j)) i) (\<lambda>localCode.
        res_bind (idx remap (unat localCode)) (\<lambda>globalCode. res_map (\<lambda>sh. key OR push_bit sh (ucast globalCode)) (idx (shifts ik) j)))) =
        Inr (key OR push_bit (j * key_width n) (ucast (code_of (globalDicts ik ! j) (cell_str (?k ! j)))))"
        using j rms(1) sc(3) [OF j j j] l [OF j] code [OF j] key [OF j] by (simp add: cell_str_def)
    qed
    finally show ?thesis .
  qed
  then show "buildIntKey ik rms ?cs i = Inr (ikey n ik ?k)" by (simp add: fold_res_ok ikey_def pack_upto)
qed

lemma foldRow_accum:
  assumes "AKind ae \<noteq> AggCountDistinct"
  shows "foldRow ae v i s = accum_slot True ae v i s"
proof (cases v)
  case (Some w)
  have count: "res_map (\<lambda>null. if \<not> null then t else s) (IsNull u i) = skip_null u i s (Inr t)" for u t by (cases "IsNull u i") (simp_all add: skip_null_def)
  have acc: "(bump s)\<lparr>acc := y\<rparr> = bump (s\<lparr>acc := y\<rparr>)" "s\<lparr>acc := y, nonNull := nonNull s + 1\<rparr> = bump (s\<lparr>acc := y\<rparr>)" for y by (simp_all add: bump_def)
  have mm: "fold_minmax (AKind ae = AggMin) (AccumType ae) x t = minmax_num ae x t" for x t by (simp add: fold_minmax_def minmax_num_def Let_def)
  show ?thesis
    using assms Some mm by (cases "AKind ae"; cases w) (simp_all add: foldRow_def accum_slot_def with_vec_def count acc Let_def cong: if_cong)
next
  case None
  then show ?thesis using assms by (cases "AKind ae") (simp_all add: foldRow_def accum_slot_def with_vec_def bump_def)
qed

lemma foldRow_ok:
  assumes "wf_batch G b" "i < evalLen b" "agg_ok G ae" "AKind ae \<noteq> AggCountDistinct"
  shows "foldRow ae (agg_vec b ae) i s = Inr (agg_step ae (agg_arg ae (row_at b i)) s)"
  using accum_slot_ok [of G b i ae True s] assms by (simp add: foldRow_accum)

definition null_key :: "nat list \<Rightarrow> val option list \<Rightarrow> bool" where
  "null_key gb r \<longleftrightarrow> None \<in> set (gcells gb r)"

definition svecs_of :: "nat list \<Rightarrow> Batch \<Rightarrow> (vector \<times> u32 list \<times> Dictionary) list" where
  "svecs_of gb b = map (\<lambda>c. (Vectors b ! c, codes_of (Vectors b ! c), dict_of (Vectors b ! c))) gb"

lemma svecs_null:
  assumes "dict_batch gb b" "i < evalLen b"
  shows "has_null (map fst (svecs_of gb b)) i = Inr (null_key gb (row_at b i))"
proof -
  have cols: "\<forall>c \<in> set gb. c < length (Vectors b)" using assms(1) by (simp add: dict_batch_def)
  have "map fst (svecs_of gb b) = map ((!) (Vectors b)) gb" "map (\<lambda>v. vget v i) (map ((!) (Vectors b)) gb) = gcells gb (row_at b i)"
    using cols by (simp_all add: gcells_def row_at_def svecs_of_def)
  moreover have "\<forall>v \<in> set (map ((!) (Vectors b)) gb). wf_vector (evalLen b) v" using assms(1) by (simp add: dict_batch_def)
  ultimately show ?thesis using has_null_ok [of "map ((!) (Vectors b)) gb" "evalLen b" i] assms(2) by (simp only: null_key_def)
qed

lemma svecs_codes: "map (\<lambda>(v, codes, dict). codes) (svecs_of gb b) = map (\<lambda>c. codes_of (Vectors b ! c)) gb"
  by (simp add: svecs_of_def comp_def)

lemma svecs_sample:
  assumes "dict_batch gb b" "i < evalLen b" "\<not> null_key gb (row_at b i)"
  shows "map_res (\<lambda>(v, codes, dict). res_map (\<lambda>s. \<lparr>gnull = False, gstr = s, gbits = 0\<rparr>) (StringVector_Get codes (Some dict) i)) (svecs_of gb b) =
    Inr (map sample_of (gcells gb (row_at b i)))"
proof -
  have cols: "\<forall>c \<in> set gb. c < length (Vectors b)" using assms(1) by (simp add: dict_batch_def)
  have "map_res (\<lambda>(v, codes, dict). res_map (\<lambda>s. \<lparr>gnull = False, gstr = s, gbits = 0\<rparr>) (StringVector_Get codes (Some dict) i)) (svecs_of gb b) =
      Inr (map (\<lambda>(v, codes, dict). sample_of (vget v i)) (svecs_of gb b))"
  proof (rule map_res_ok)
    fix x assume "x \<in> set (svecs_of gb b)"
    then obtain c where c: "c \<in> set gb" "x = (Vectors b ! c, codes_of (Vectors b ! c), dict_of (Vectors b ! c))" by (auto simp: svecs_of_def)
    then have "None \<noteq> vget (Vectors b ! c) i" using assms(3) cols by (simp add: null_key_def gcells_def row_at_def image_iff)
    then have "vget (Vectors b ! c) i \<noteq> None" by simp
    moreover have "has_dict (Vectors b ! c)" "wf_vector (evalLen b) (Vectors b ! c)" using assms(1) c(1) by (auto simp: dict_batch_def)
    ultimately show "(case x of (v, codes, dict) \<Rightarrow> res_map (\<lambda>s. \<lparr>gnull = False, gstr = s, gbits = 0\<rparr>) (StringVector_Get codes (Some dict) i)) =
        Inr (case x of (v, codes, dict) \<Rightarrow> sample_of (vget v i))"
      using string_col [of "Vectors b ! c" "evalLen b" i] assms(2) c(2) by (simp add: sample_of_def cell_str_def)
  qed
  moreover have "map (\<lambda>(v, codes, dict). sample_of (vget v i)) (svecs_of gb b) = map sample_of (gcells gb (row_at b i))"
    using cols by (simp add: gcells_def row_at_def svecs_of_def)
  ultimately show ?thesis by simp
qed

text \<open>The state after the rows \<open>rs\<close>: rows with a NULL key are in the string maps, the others under integer keys.\<close>

definition int_inv :: "agg_conf \<Rightarrow> slot list \<Rightarrow> val option list list \<Rightarrow> group_maps \<times> intKeyState \<Rightarrow> bool" where
  "int_inv h s0 rs st \<longleftrightarrow> (\<exists>ns ks. gm_ok h s0 ns (filter (null_key (groupBy h)) rs) (fst st) \<and>
     set ns = gcells (groupBy h) ` set (filter (null_key (groupBy h)) rs) \<and> ik_ok h s0 ks (filter (\<lambda>r. \<not> null_key (groupBy h) r) rs) (snd st))"

definition ik_same :: "intKeyState \<Rightarrow> intKeyState \<Rightarrow> bool" where
  "ik_same ik ik' \<longleftrightarrow> globalDicts ik' = globalDicts ik \<and> widths ik' = widths ik \<and> remaps ik' = remaps ik \<and> ienabled ik' = ienabled ik"

lemma int_row_null:
  assumes inv: "int_inv h s0 rs (g, ik)" and T: "\<forall>r \<in> set rs. typed_row T (gcells (groupBy h) r)" "typed_row T (gcells (groupBy h) (row_at b i))"
    and wf: "wf_batch G b" "i < evalLen b" "\<forall>c \<in> set (groupBy h). c < length G" "dict_batch (groupBy h) b"
    and step: "\<forall>ae \<in> set (aggExprs h). \<forall>s. foldRow ae (agg_vec b ae) i s = Inr (agg_step ae (agg_arg ae (row_at b i)) s)"
    and s0: "new_group h False (map (agg_vec b) (aggExprs h)) = s0" and null: "null_key (groupBy h) (row_at b i)"
  shows "\<exists>g'. int_row h b (map (agg_vec b) (aggExprs h)) (svecs_of (groupBy h) b) rms (g, ik) i = Inr (g', ik) \<and> int_inv h s0 (rs @ [row_at b i]) (g', ik)"
proof -
  let ?k = "gcells (groupBy h) (row_at b i)" and ?nr = "filter (null_key (groupBy h)) rs"
  obtain ns ks where ns: "gm_ok h s0 ns ?nr g" "set ns = gcells (groupBy h) ` set ?nr" and ks: "ik_ok h s0 ks (filter (\<lambda>r. \<not> null_key (groupBy h) r) rs) ik"
    using inv by (auto simp: int_inv_def)
  have Tns: "\<forall>k \<in> set ns. typed_row T k" using ns(2) T(1) by auto
  obtain g' where g': "string_row h False foldRow b (map (agg_vec b) (aggExprs h)) (enc_row ?k) i g = Inr g'"
    "gm_ok h s0 (if ?k \<in> set ns then ns else ns @ [?k]) (?nr @ [row_at b i]) g'"
    using string_row_ok [where step = foldRow, OF ns(1) T(2) Tns wf(1,2,3) refl step s0] by blast
  have "set (if ?k \<in> set ns then ns else ns @ [?k]) = gcells (groupBy h) ` set (?nr @ [row_at b i])" using ns(2) by auto
  then have "int_inv h s0 (rs @ [row_at b i]) (g', ik)" unfolding int_inv_def using g'(2) ks null
    by (intro exI [of _ "if ?k \<in> set ns then ns else ns @ [?k]"] exI [of _ ks]) simp
  moreover have "int_row h b (map (agg_vec b) (aggExprs h)) (svecs_of (groupBy h) b) rms (g, ik) i = Inr (g', ik)"
    using g'(1) null svecs_null [OF wf(4,2)] agg_key_ok [OF wf(1-3)] by (simp add: int_row_def accumulateOneRow_def)
  ultimately show ?thesis by blast
qed

lemma int_row_key:
  assumes inv: "int_inv h s0 rs (g, ik)" "\<not> codeOverflows ik" "length (groupBy h) \<le> 8"
    and wf: "i < evalLen b" "dict_batch (groupBy h) b"
    and step: "\<forall>ae \<in> set (aggExprs h). \<forall>s. foldRow ae (agg_vec b ae) i s = Inr (agg_step ae (agg_arg ae (row_at b i)) s)"
    and rms: "length rms = length (groupBy h)" "\<forall>j < length (groupBy h). (remaps ik ! j) (dict_of (Vectors b ! (groupBy h ! j))) = Some (rms ! j)"
    and s0: "new_group h False (map (agg_vec b) (aggExprs h)) = s0" and null: "\<not> null_key (groupBy h) (row_at b i)"
  shows "\<exists>ik'. int_row h b (map (agg_vec b) (aggExprs h)) (svecs_of (groupBy h) b) rms (g, ik) i = Inr (g, ik') \<and> ik_same ik ik' \<and>
    int_inv h s0 (rs @ [row_at b i]) (g, ik')"
proof -
  let ?k = "gcells (groupBy h) (row_at b i)" and ?vr = "filter (\<lambda>r. \<not> null_key (groupBy h) r) rs" and ?n = "length (groupBy h)" and ?r = "row_at b i"
  obtain ns ks where ns: "gm_ok h s0 ns (filter (null_key (groupBy h)) rs) g" "set ns = gcells (groupBy h) ` set (filter (null_key (groupBy h)) rs)"
    and ks: "ik_ok h s0 ks ?vr ik" using inv(1) unfolding int_inv_def fst_conv snd_conv by blast
  have flt: "filter (null_key (groupBy h)) (rs @ [?r]) = filter (null_key (groupBy h)) rs" "filter (\<lambda>r. \<not> null_key (groupBy h) r) (rs @ [?r]) = ?vr @ [?r]"
    using null by simp_all
  have fin: "int_inv h s0 (rs @ [?r]) (g, ik')" if "ik_ok h s0 ks' (?vr @ [?r]) ik'" for ik' ks'
    unfolding int_inv_def fst_conv snd_conv flt using ns that by blast
  have co: "cols_ok ?n ik" by (rule ik_okD(1) [OF ks])
  note bk = buildIntKey_ok [OF co inv(2) refl inv(3) wf(2,1) rms null [unfolded null_key_def]]
  have len: "length s0 = length (aggExprs h)" using s0 by (auto simp: new_group_def)
  note fs = fold_slots_ok [where step = foldRow, OF step]
  show ?thesis
  proof (cases "?k \<in> set ks")
    case True
    then have grp: "intGroups ik (ikey ?n ik ?k) = Some (slots_of (aggExprs h) s0 (filter (\<lambda>r. gcells (groupBy h) r = ?k) ?vr))"
      by (rule ik_okD(6) [OF ks])
    let ?ik = "ik\<lparr>intGroups := (intGroups ik)(ikey ?n ik ?k \<mapsto> slots_of (aggExprs h) s0 (filter (\<lambda>r. gcells (groupBy h) r = ?k) ?vr @ [?r]))\<rparr>"
    define ss where "ss = slots_of (aggExprs h) s0 (filter (\<lambda>r. gcells (groupBy h) r = ?k) ?vr)"
    have "length ss = length (aggExprs h)" using len by (simp add: ss_def)
    then have fold: "fold_slots foldRow (aggExprs h) (map (agg_vec b) (aggExprs h)) i ss = Inr (slots_of (aggExprs h) s0 (filter (\<lambda>r. gcells (groupBy h) r = ?k) ?vr @ [?r]))"
      unfolding slots_of_snoc ss_def [symmetric] by (rule fs)
    have some: "intGroups ik (ikey ?n ik ?k) \<noteq> None" "the (intGroups ik (ikey ?n ik ?k)) = ss" unfolding grp ss_def by simp_all
    have "int_row h b (map (agg_vec b) (aggExprs h)) (svecs_of (groupBy h) b) rms (g, ik) i = Inr (g, ?ik)"
      unfolding int_row_def prod.case svecs_null [OF wf(2,1)] svecs_codes bk(1) res_bind_simps if_not_P [OF null]
      by (simp only: if_not_P [OF some(1)] res_bind_simps some(2) fold res_map_simps)
    moreover have "ik_same ik ?ik" by (simp add: ik_same_def)
    ultimately show ?thesis using fin [OF ik_ok_old [OF ks inv(3) refl True]] by blast
  next
    case new: False
    have "ikey ?n ik ?k \<notin> ikey ?n ik ` set ks"
    proof
      assume "ikey ?n ik ?k \<in> ikey ?n ik ` set ks"
      then obtain k' where k': "ikey ?n ik k' = ikey ?n ik ?k" "k' \<in> set ks" by (metis imageE)
      then have "k' = ?k" using ikey_inj [OF inv(3) ik_okD(5) [OF ks k'(2)] bk(2)] by simp
      then show False using new k'(2) by simp
    qed
    then have grp: "intGroups ik (ikey ?n ik ?k) = None" by (rule ik_okD(8) [OF ks])
    let ?ik = "ik\<lparr>intKeys := intKeys ik @ [ikey ?n ik ?k], intGroups := (intGroups ik)(ikey ?n ik ?k \<mapsto> slots_of (aggExprs h) s0 [?r]),
      intSamples := (intSamples ik)(ikey ?n ik ?k \<mapsto> map sample_of ?k)\<rparr>"
    have "int_row h b (map (agg_vec b) (aggExprs h)) (svecs_of (groupBy h) b) rms (g, ik) i = Inr (g, ?ik)"
      unfolding int_row_def prod.case svecs_null [OF wf(2,1)] svecs_codes bk(1) res_bind_simps if_not_P [OF null] svecs_sample [OF wf(2,1) null]
      using grp s0 fs [OF len] slots_of_snoc [of "aggExprs h" s0 "[]" ?r] by simp
    moreover have "ik_same ik ?ik" by (simp add: ik_same_def)
    ultimately show ?thesis using fin [OF ik_ok_new [OF ks inv(3) refl new bk(2)]] by blast
  qed
qed

lemma ik_ok_same: "ik_same ik ik' \<Longrightarrow> codeOverflows ik' = codeOverflows ik"
  by (simp add: ik_same_def codeOverflows_def)

lemma int_rows_ok:
  assumes inv: "int_inv h s0 rs (g, ik)" "\<not> codeOverflows ik" "length (groupBy h) \<le> 8" "ienabled ik"
    and T: "\<forall>r \<in> set rs. typed_row T (gcells (groupBy h) r)"
    and wf: "wf_batch G b" "\<forall>c \<in> set (groupBy h). c < length G" "dict_batch (groupBy h) b"
    and conf: "\<forall>ae \<in> set (aggExprs h). agg_ok G ae \<and> AKind ae \<noteq> AggCountDistinct"
    and rms: "length rms = length (groupBy h)" "\<forall>j < length (groupBy h). (remaps ik ! j) (dict_of (Vectors b ! (groupBy h ! j))) = Some (rms ! j)"
    and s0: "new_group h False (map (agg_vec b) (aggExprs h)) = s0"
    and "is": "\<forall>i \<in> set is. i < evalLen b" "\<forall>i \<in> set is. typed_row T (gcells (groupBy h) (row_at b i))"
  shows "\<exists>g' ik'. fold_res (int_row h b (map (agg_vec b) (aggExprs h)) (svecs_of (groupBy h) b) rms) (g, ik) is = Inr (g', ik') \<and> ik_same ik ik' \<and>
    int_inv h s0 (rs @ map (row_at b) is) (g', ik')"
  using "is"
proof (induction "is" rule: rev_induct)
  case Nil
  then show ?case using inv(1) by (simp add: ik_same_def)
next
  case (snoc i "is")
  let ?f = "int_row h b (map (agg_vec b) (aggExprs h)) (svecs_of (groupBy h) b) rms"
  obtain g1 ik1 where 1: "fold_res ?f (g, ik) is = Inr (g1, ik1)" "ik_same ik ik1" "int_inv h s0 (rs @ map (row_at b) is) (g1, ik1)"
    using snoc by auto
  have i: "i < evalLen b" "typed_row T (gcells (groupBy h) (row_at b i))" using snoc.prems by simp_all
  have step: "\<forall>ae \<in> set (aggExprs h). \<forall>s. foldRow ae (agg_vec b ae) i s = Inr (agg_step ae (agg_arg ae (row_at b i)) s)"
    using foldRow_ok [OF wf(1) i(1)] conf by blast
  have "\<exists>g2 ik2. ?f (g1, ik1) i = Inr (g2, ik2) \<and> ik_same ik ik2 \<and> int_inv h s0 ((rs @ map (row_at b) is) @ [row_at b i]) (g2, ik2)"
  proof (cases "null_key (groupBy h) (row_at b i)")
    case True
    have "\<forall>r \<in> set (rs @ map (row_at b) is). typed_row T (gcells (groupBy h) r)" using T snoc.prems(2) by auto
    then show ?thesis using int_row_null [OF 1(3) _ i(2) wf(1) i(1) wf(2,3) step s0 True] 1(2) by blast
  next
    case False
    have rm: "\<forall>j < length (groupBy h). (remaps ik1 ! j) (dict_of (Vectors b ! (groupBy h ! j))) = Some (rms ! j)" using rms(2) 1(2) by (simp add: ik_same_def)
    have ov: "\<not> codeOverflows ik1" using ik_ok_same [OF 1(2)] inv(2) by simp
    obtain ik2 where "?f (g1, ik1) i = Inr (g1, ik2)" "ik_same ik1 ik2" "int_inv h s0 ((rs @ map (row_at b) is) @ [row_at b i]) (g1, ik2)"
      using int_row_key [OF 1(3) ov inv(3) i(1) wf(3) step rms(1) rm s0 False] by blast
    moreover have "ik_same ik ik2" using calculation(2) 1(2) by (simp add: ik_same_def)
    ultimately show ?thesis by blast
  qed
  then show ?case using 1(1) by (auto simp: fold_res_append)
qed


section \<open>From integer keys to string keys\<close>

lemma intKeyToStringKey_ok:
  assumes "ik_ok h s0 ks rs ik" "k \<in> set ks" "length (groupBy h) \<le> 8"
  shows "intKeyToStringKey ik (length (groupBy h)) (ikey (length (groupBy h)) ik k) = Inr (enc_row k)"
proof -
  let ?n = "length (groupBy h)" and ?key = "ikey (length (groupBy h)) ik k"
  let ?code = "\<lambda>i. code_of (globalDicts ik ! i) (cell_str (k ! i))"
  have co: "cols_ok ?n ik" "known ?n ik k" "intSamples ik ?key = Some (map sample_of k)" by (rule ik_okD(1,5,7) [OF assms(1)] ik_okD(5,7) [OF assms(1) assms(2)])+
  have len: "length k = ?n" using co(2) by (simp add: known_def)
  have cell: "\<exists>s. k ! i = Some (VString s) \<and> coded (key_width ?n) (globalDicts ik ! i) s" if "i < ?n" for i using known_nth [OF co(2) that] by blast
  have unp: "ucast (drop_bit (i * key_width ?n) ?key AND mask (key_width ?n)) = ?code i" if "i < ?n" for i
    using unpack [OF known_codes [OF co(2)], of i] that key_width_bounds [OF assms(3)] by (simp add: ikey_def)
  let ?f = "\<lambda>buf i. res_bind (idx (shifts ik) i :: nat xres) (\<lambda>sh. res_bind (idx (widths ik) i) (\<lambda>w.
     let globalCode = ucast (drop_bit sh ?key AND mask w) :: u32 in
     if (case intSamples ik ?key of None \<Rightarrow> False | Some sample \<Rightarrow> gnull (sample ! i)) then Inr (buf @ [0x00, 0xFF])
     else res_bind (idx (globalDicts ik) i) (\<lambda>gd. res_map (\<lambda>s. AppendUint32 (buf @ [0x02]) (word_of_nat (length s)) @ bytes_of s @ [0xFF])
       (GetByCode gd globalCode))))"
  have step: "?f buf i = (Inr (buf @ enc_cell (k ! i)) :: byte list xres)" if i: "i < ?n" for buf i
  proof -
    obtain s where s: "k ! i = Some (VString s)" "coded (key_width ?n) (globalDicts ik ! i) s" using cell [OF i] by blast
    have "GetByCode (globalDicts ik ! i) (?code i) = (Inr s :: string xres)" using s by (simp add: GetByCode_def coded_def cell_str_def)
    then show ?thesis using i co(1,3) unp [OF i] s(1) len
      by (simp add: cols_ok_def Let_def sample_of_def enc_cell_def AppendUint32_def)
  qed
  have "intKeyToStringKey ik ?n ?key = fold_res (\<lambda>buf i. Inr (buf @ enc_cell (k ! i))) [] [0..<?n]"
    unfolding intKeyToStringKey_def using step by (intro fold_res_cong [OF refl refl]) (simp only: set_upt atLeastLessThan_iff)
  also have "\<dots> = Inr (foldl (\<lambda>buf i. buf @ enc_cell (k ! i)) [] [0..<?n])" by (rule fold_res_ok) simp
  also have "foldl (\<lambda>buf i. buf @ enc_cell (k ! i)) [] [0..<?n] = concat (map enc_cell (map ((!) k) [0..<?n]))" by (simp add: foldl_append_concat comp_def)
  also have "map ((!) k) [0..<?n] = k" using len by (metis map_nth)
  finally show ?thesis by (simp only: enc_row_def)
qed

lemma materialize_maps_ok:
  assumes gm: "int_inv h s0 rs (g, ik)" and n: "length (groupBy h) \<le> 8" and T: "\<forall>r \<in> set rs. typed_row T (gcells (groupBy h) r)"
    and ne: "groupBy h \<noteq> []"
  shows "\<exists>g' ks. materializeToStringMaps h ik g = Inr g' \<and> gm_ok h s0 ks rs g' \<and> set ks = gcells (groupBy h) ` set rs"
proof -
  let ?n = "length (groupBy h)" and ?gc = "gcells (groupBy h)"
  obtain ns ks where ns: "gm_ok h s0 ns (filter (null_key (groupBy h)) rs) g" "set ns = ?gc ` set (filter (null_key (groupBy h)) rs)"
    and ks: "ik_ok h s0 ks (filter (\<lambda>r. \<not> null_key (groupBy h) r) rs) ik" using gm by (auto simp: int_inv_def)
  have ks': "intKeys ik = map (ikey ?n ik) ks" "distinct ks" "set ks = ?gc ` set (filter (\<lambda>r. \<not> null_key (groupBy h) r) rs)" by (rule ik_okD(2-4) [OF ks])+
  have grp: "intGroups ik (ikey ?n ik k) = Some (slots_of (aggExprs h) s0 (filter (\<lambda>r. ?gc r = k) rs))" "intSamples ik (ikey ?n ik k) = Some (map sample_of k)"
    if "k \<in> set ks" for k
  proof -
    have "\<not> None \<in> set k" using that ks'(3) by (auto simp: null_key_def)
    then have "filter (\<lambda>r. ?gc r = k) (filter (\<lambda>r. \<not> null_key (groupBy h) r) rs) = filter (\<lambda>r. ?gc r = k) rs"
      unfolding filter_filter by (intro filter_cong) (auto simp: null_key_def)
    then show "intGroups ik (ikey ?n ik k) = Some (slots_of (aggExprs h) s0 (filter (\<lambda>r. ?gc r = k) rs))" "intSamples ik (ikey ?n ik k) = Some (map sample_of k)"
      using ik_okD(6,7) [OF ks that] by simp_all
  qed
  have Tk: "typed_row T k" if "k \<in> ?gc ` set rs" for k using T that by auto
  have sub: "set ns \<subseteq> ?gc ` set rs" "set ks \<subseteq> ?gc ` set rs" "set ns \<union> set ks = ?gc ` set rs" using ns(2) ks'(3) by auto
  have disj: "set ns \<inter> set ks = {}" unfolding ns(2) ks'(3) by (auto simp: null_key_def)
  have loop: "\<exists>g'. fold_res (materialize_key ik ?n) g (map (ikey ?n ik) ks1) = Inr g' \<and> gkeys g' = map enc_row (ns @ ks1) \<and>
      (\<forall>k \<in> set (ns @ ks1). groups g' (enc_row k) = Some (slots_of (aggExprs h) s0 (filter (\<lambda>r. ?gc r = k) rs)) \<and> (k \<noteq> [] \<longrightarrow> samples g' (enc_row k) = Some (map sample_of k))) \<and>
      (\<forall>key. key \<notin> enc_row ` set (ns @ ks1) \<longrightarrow> groups g' key = None)"
    if "\<exists>ks2. ks = ks1 @ ks2" for ks1
    using that
  proof (induction ks1 rule: rev_induct)
    case Nil
    have "filter (\<lambda>r. ?gc r = k) (filter (null_key (groupBy h)) rs) = filter (\<lambda>r. ?gc r = k) rs" if "k \<in> set ns" for k
    proof -
      have "None \<in> set k" using that ns(2) by (auto simp: null_key_def)
      then show ?thesis unfolding filter_filter by (intro filter_cong) (auto simp: null_key_def)
    qed
    then show ?case using ns(1) by (simp add: gm_ok_def del: filter_filter)
  next
    case (snoc k ks1)
    then obtain g1 where g1: "fold_res (materialize_key ik ?n) g (map (ikey ?n ik) ks1) = Inr g1" "gkeys g1 = map enc_row (ns @ ks1)"
      "\<forall>k \<in> set (ns @ ks1). groups g1 (enc_row k) = Some (slots_of (aggExprs h) s0 (filter (\<lambda>r. ?gc r = k) rs)) \<and> (k \<noteq> [] \<longrightarrow> samples g1 (enc_row k) = Some (map sample_of k))"
      "\<forall>key. key \<notin> enc_row ` set (ns @ ks1) \<longrightarrow> groups g1 key = None" by auto
    have k: "k \<in> set ks" "k \<notin> set ks1" "set ks1 \<subseteq> set ks" using snoc.prems ks'(2) by auto
    have neq: "enc_row k' \<noteq> enc_row k" if "k' \<in> set (ns @ ks1)" for k'
    proof -
      have "k' \<noteq> k" "typed_row T k'" "typed_row T k" using Tk sub(1,2) k that disj by auto
      then show ?thesis using enc_row_inj by blast
    qed
    define g2 where "g2 = g1\<lparr>gkeys := gkeys g1 @ [enc_row k], groups := (groups g1)(enc_row k := intGroups ik (ikey ?n ik k)), samples := (samples g1)(enc_row k := intSamples ik (ikey ?n ik k))\<rparr>"
    have "\<forall>k' \<in> set (ns @ ks1 @ [k]). groups g2 (enc_row k') = Some (slots_of (aggExprs h) s0 (filter (\<lambda>r. ?gc r = k') rs)) \<and>
        (k' \<noteq> [] \<longrightarrow> samples g2 (enc_row k') = Some (map sample_of k'))" using g1(3) neq grp [OF k(1)] by (auto simp: g2_def)
    moreover have "fold_res (materialize_key ik ?n) g (map (ikey ?n ik) (ks1 @ [k])) = Inr g2"
      using g1(1) intKeyToStringKey_ok [OF ks k(1) n] by (simp add: fold_res_append materialize_key_def g2_def)
    moreover have "\<forall>key. key \<notin> enc_row ` set (ns @ ks1 @ [k]) \<longrightarrow> groups g2 key = None" using g1(4) by (simp add: g2_def)
    moreover have "gkeys g2 = map enc_row (ns @ ks1 @ [k])" using g1(2) by (simp add: g2_def)
    ultimately show ?case by blast
  qed
  have ex: "\<exists>ks2. ks = ks @ ks2" by simp
  obtain g' where g': "materializeToStringMaps h ik g = Inr g'" "gkeys g' = map enc_row (ns @ ks)"
    "\<forall>k \<in> set (ns @ ks). groups g' (enc_row k) = Some (slots_of (aggExprs h) s0 (filter (\<lambda>r. ?gc r = k) rs)) \<and> (k \<noteq> [] \<longrightarrow> samples g' (enc_row k) = Some (map sample_of k))"
    "\<forall>key. key \<notin> enc_row ` set (ns @ ks) \<longrightarrow> groups g' key = None" using loop [OF ex] unfolding materializeToStringMaps_def ks'(1) by blast
  have "distinct (ns @ ks)" using ns(1) ks'(2) disj by (simp add: gm_ok_def)
  then have "gm_ok h s0 (ns @ ks) rs g'" using g' sub(3) unfolding gm_ok_def by simp
  then show ?thesis using g'(1) sub(3) by (intro exI [of _ g'] exI [of _ "ns @ ks"]) simp
qed

section \<open>A whole batch\<close>

text \<open>Every string column that is grouped by has a dictionary; a column without one would stop the fast path with a nil dereference.\<close>

definition dicts_present :: "nat list \<Rightarrow> Batch \<Rightarrow> bool" where
  "dicts_present gb b \<longleftrightarrow> (\<forall>c \<in> set gb. VType (Vectors b ! c) = TypeString \<longrightarrow> has_dict (Vectors b ! c))"

lemma dict_batchI:
  assumes "wf_batch G b" "\<forall>c \<in> set gb. c < length G \<and> G ! c = TypeString" "dicts_present gb b"
  shows "dict_batch gb b"
  using assms by (auto simp: dict_batch_def dicts_present_def wf_batch_def)

lemma dict_columns_ok:
  "wf_batch G b \<Longrightarrow> \<forall>c \<in> set gb. c < length G \<Longrightarrow> dict_columns b gb = Inr (\<forall>c \<in> set gb. has_dict (Vectors b ! c))"
proof (induction gb)
  case (Cons c gb)
  then have "c < length (Vectors b)" by (simp add: wf_batch_def)
  then show ?case using Cons by (cases "Vectors b ! c") (auto simp: has_dict_def split: option.splits)
qed simp

definition acc_inv :: "agg_conf \<Rightarrow> DataType list \<Rightarrow> val option list list \<Rightarrow> agg_state \<Rightarrow> bool" where
  "acc_inv h G rs st \<longleftrightarrow> (if ienabled (intKey st)
     then intKeyDecided st \<and> length (groupBy h) \<le> 8 \<and> \<not> hasDistinct h \<and> (\<forall>c \<in> set (groupBy h). G ! c = TypeString) \<and>
       int_inv h (init_group h False G) rs (maps st, intKey st)
     else \<exists>ks. gm_ok h (init_group h True G) ks rs (maps st) \<and> set ks = gcells (groupBy h) ` set rs)"

lemma init_group_plain: "\<not> hasDistinct h \<Longrightarrow> init_group h True G = init_group h False G"
  by (simp add: init_group_def)

lemma accumulateStringKey_ok:
  assumes "gm_ok h s0 ks rs g" "set ks = gcells (groupBy h) ` set rs" "conf_ok G h" "\<not> hasDistinct h" "wf_rows G b"
    "\<forall>r \<in> set rs \<union> set (batch_rows b). typed_row G r" "s0 = init_group h False G"
  shows "\<exists>g' ks'. accumulateStringKey h b (sel_rows b) (map (agg_vec b) (aggExprs h)) g = Inr g' \<and> gm_ok h s0 ks' (rs @ batch_rows b) g' \<and>
    set ks' = gcells (groupBy h) ` set (rs @ batch_rows b)"
proof -
  have wf: "wf_batch G b" "\<forall>i \<in> set (sel_rows b). i < evalLen b" using assms(5) by (auto simp: wf_rows_def)
  note c = conf_okD [OF assms(3)]
  have step: "\<forall>i \<in> set (sel_rows b). \<forall>ae \<in> set (aggExprs h). \<forall>s. foldRow ae (agg_vec b ae) i s = Inr (agg_step ae (agg_arg ae (row_at b i)) s)"
    using foldRow_ok [OF wf(1)] wf(2) c assms(4) by blast
  let ?T = "map ((!) G) (groupBy h)"
  have T: "\<forall>k \<in> set ks. typed_row ?T k" using assms(2,6) typed_gcells [OF _ c(1)] by auto
  have Ti: "\<forall>i \<in> set (sel_rows b). typed_row ?T (gcells (groupBy h) (row_at b i))" using assms(6) typed_gcells [OF _ c(1)] by (auto simp: batch_rows_def)
  have s0: "new_group h False (map (agg_vec b) (aggExprs h)) = s0" using new_group_ok [OF wf(1) c(2)] assms(7) by simp
  let ?ks = "group_keys ks (map (\<lambda>i. gcells (groupBy h) (row_at b i)) (sel_rows b))"
  have "set ?ks = gcells (groupBy h) ` set (rs @ batch_rows b)" using assms(2) by (simp add: batch_rows_def image_image image_Un)
  then show ?thesis
    using fold_string_rows [where step = foldRow, OF assms(1) T wf c(1) Ti step s0]
    unfolding accumulateStringKey_def accumulateOneRow_def batch_rows_def by blast
qed

lemma accumulateIntKey_ok:
  assumes inv: "int_inv h s0 rs (g, ik)" and n: "length (groupBy h) \<le> 8" "groupBy h \<noteq> []" and en: "ienabled ik"
    and conf: "conf_ok G h" "\<not> hasDistinct h" and wf: "wf_rows G b" "dict_batch (groupBy h) b"
    and T: "\<forall>r \<in> set rs \<union> set (batch_rows b). typed_row G r" and s0: "s0 = init_group h False G"
  shows "\<exists>g' ik'. accumulateIntKey h b (sel_rows b) (map (agg_vec b) (aggExprs h)) (g, ik) = Inr (g', ik') \<and>
    (if ienabled ik' then int_inv h s0 (rs @ batch_rows b) (g', ik')
     else \<exists>ks. gm_ok h s0 ks (rs @ batch_rows b) g' \<and> set ks = gcells (groupBy h) ` set (rs @ batch_rows b))"
proof -
  let ?n = "length (groupBy h)" and ?T = "map ((!) G) (groupBy h)" and ?vecs = "map (agg_vec b) (aggExprs h)"
  note c = conf_okD [OF conf(1)]
  have wb: "wf_batch G b" "\<forall>i \<in> set (sel_rows b). i < evalLen b" using wf(1) by (auto simp: wf_rows_def)
  obtain ns ks where ns: "gm_ok h s0 ns (filter (null_key (groupBy h)) rs) g" "set ns = gcells (groupBy h) ` set (filter (null_key (groupBy h)) rs)"
    and ks: "ik_ok h s0 ks (filter (\<lambda>r. \<not> null_key (groupBy h) r) rs) ik" using inv unfolding int_inv_def fst_conv snd_conv by blast
  have vs: "\<forall>c \<in> set (groupBy h). c < length (Vectors b) \<and> has_dict (Vectors b ! c) \<and> wf_vector (evalLen b) (Vectors b ! c)"
    using wf(2) by (simp add: dict_batch_def)
  obtain rms ik1 where rm: "batch_remaps h b ik = Inr (svecs_of (groupBy h) b, rms, ik1)" "cols_ok ?n ik1" "ik_frame ?n ik ik1" "length rms = ?n"
    "\<forall>i < ?n. (remaps ik1 ! i) (dict_of (Vectors b ! (groupBy h ! i))) = Some (rms ! i)"
    using batch_remaps_ok [OF ik_okD(1) [OF ks] refl vs] unfolding svecs_of_def by blast
  have ks1: "ik_ok h s0 ks (filter (\<lambda>r. \<not> null_key (groupBy h) r) rs) ik1" by (rule ik_ok_frame [OF ks rm(2,3)])
  have inv1: "int_inv h s0 rs (g, ik1)" unfolding int_inv_def fst_conv snd_conv using ns ks1 by blast
  have en1: "ienabled ik1" using en rm(3) by (simp add: ik_frame_def)
  have T1: "\<forall>r \<in> set rs. typed_row ?T (gcells (groupBy h) r)" using T typed_gcells [OF _ c(1)] by auto
  show ?thesis
  proof (cases "codeOverflows ik1")
    case True
    have "\<exists>g1 ks1. (if intKeys ik1 = [] then Inr g else materializeToStringMaps h ik1 g) = Inr g1 \<and> gm_ok h s0 ks1 rs g1 \<and> set ks1 = gcells (groupBy h) ` set rs"
      using materialize_maps_ok [OF inv1 n(1) T1 n(2)] by (cases "intKeys ik1 = []") (simp_all add: materializeToStringMaps_def)
    then obtain g1 ks2 where g1: "(if intKeys ik1 = [] then Inr g else materializeToStringMaps h ik1 g) = Inr g1" "gm_ok h s0 ks2 rs g1" "set ks2 = gcells (groupBy h) ` set rs"
      by blast
    obtain g2 ks3 where g2: "accumulateStringKey h b (sel_rows b) ?vecs g1 = Inr g2" "gm_ok h s0 ks3 (rs @ batch_rows b) g2"
      "set ks3 = gcells (groupBy h) ` set (rs @ batch_rows b)"
      using accumulateStringKey_ok [OF g1(2,3) conf wf(1) T s0] by blast
    have "accumulateIntKey h b (sel_rows b) ?vecs (g, ik) = Inr (g2, ik1\<lparr>ienabled := False, intKeys := [], intGroups := Map.empty, intSamples := Map.empty\<rparr>)"
      unfolding accumulateIntKey_def prod.case rm(1) res_bind_simps if_P [OF True] g1(1) g2(1) by simp
    then show ?thesis using g2(2,3) by fastforce
  next
    case False
    have ae: "\<forall>ae \<in> set (aggExprs h). agg_ok G ae \<and> AKind ae \<noteq> AggCountDistinct" using c conf(2) by blast
    have "\<forall>i \<in> set (sel_rows b). typed_row ?T (gcells (groupBy h) (row_at b i))" using T typed_gcells [OF _ c(1)] by (auto simp: batch_rows_def)
    then obtain g' ik' where g': "fold_res (int_row h b ?vecs (svecs_of (groupBy h) b) rms) (g, ik1) (sel_rows b) = Inr (g', ik')" "ik_same ik1 ik'"
      "int_inv h s0 (rs @ map (row_at b) (sel_rows b)) (g', ik')"
      using int_rows_ok [OF inv1 False n(1) en1 T1 wb(1) c(1) wf(2) ae rm(4,5) _ wb(2)] new_group_ok [OF wb(1) c(2)] s0 by metis
    have "ienabled ik'" using g'(2) en1 by (simp add: ik_same_def)
    moreover have "accumulateIntKey h b (sel_rows b) ?vecs (g, ik) = Inr (g', ik')"
      unfolding accumulateIntKey_def prod.case rm(1) res_bind_simps if_not_P [OF False] by (rule g'(1))
    ultimately show ?thesis using g'(3) by (simp add: batch_rows_def)
  qed
qed

lemma accumulate_grouped:
  assumes conf: "conf_ok G h" "groupBy h \<noteq> []" and inv: "acc_inv h G rs st" and wf: "wf_rows G b" "dicts_present (groupBy h) b"
    and T: "\<forall>r \<in> set rs \<union> set (batch_rows b). typed_row G r" and fresh: "intKeyDecided st \<or> rs = [] \<and> st = agg_start"
  shows "\<exists>st'. accumulate h st b = Inr st' \<and> acc_inv h G (rs @ batch_rows b) st' \<and> intKeyDecided st'"
proof -
  let ?vecs = "map (agg_vec b) (aggExprs h)"
  note c = conf_okD [OF conf(1)]
  have wb: "wf_batch G b" using wf(1) by (simp add: wf_rows_def)
  have col: "VType (Vectors b ! c) = G ! c" if "c \<in> set (groupBy h)" for c using wb c(1) that by (auto simp: wf_batch_def)
  have "\<exists>st1. decide_intKey h b st = Inr st1 \<and> acc_inv h G rs st1 \<and> intKeyDecided st1"
  proof (cases "intKeyDecided st")
    case True
    then show ?thesis using inv by (simp add: decide_intKey_def)
  next
    case False
    then have st: "rs = []" "st = agg_start" using fresh by simp_all
    show ?thesis
    proof (cases "\<not> hasDistinct h \<and> length (groupBy h) \<le> 8 \<and> (\<forall>c \<in> set (groupBy h). has_dict (Vectors b ! c))")
      case True
      then have "canUseIntKey b (groupBy h) = Inr True" using dict_columns_ok [OF wb c(1)] conf(2) by (simp add: canUseIntKey_def)
      moreover have "G ! c = TypeString" if "c \<in> set (groupBy h)" for c using True col [OF that] that by (cases "Vectors b ! c") (auto simp: has_dict_def)
      moreover have "int_inv h (init_group h False G) [] (initMaps, intKey_init (length (groupBy h)))"
        unfolding int_inv_def using gm_ok_init ik_ok_init by (intro exI [of _ "[]"]) simp
      ultimately show ?thesis using True st by (simp add: decide_intKey_def agg_start_def acc_inv_def intKey_init_def)
    next
      case no: False
      then have "hasDistinct h \<or> canUseIntKey b (groupBy h) = Inr False" using dict_columns_ok [OF wb c(1)] by (auto simp: canUseIntKey_def)
      then show ?thesis using st inv by (auto simp: decide_intKey_def acc_inv_def agg_start_def no_intKey_def)
    qed
  qed
  then obtain st1 where st1: "decide_intKey h b st = Inr st1" "acc_inv h G rs st1" "intKeyDecided st1" by blast
  have acc: "accumulate h st b = (if ienabled (intKey st1)
      then res_map (\<lambda>(g, ik). st1\<lparr>maps := g, intKey := ik\<rparr>) (accumulateIntKey h b (sel_rows b) ?vecs (maps st1, intKey st1))
      else res_map (\<lambda>g. st1\<lparr>maps := g\<rparr>) (string_rows h b ?vecs (maps st1)))"
    unfolding accumulate_def agg_vecs_ok [OF wb c(2)] checkStr_ok [OF wb c(2)] res_bind_simps if_not_P [OF conf(2)] st1(1) ..
  show ?thesis
  proof (cases "ienabled (intKey st1)")
    case True
    then have i: "length (groupBy h) \<le> 8" "\<not> hasDistinct h" "\<forall>c \<in> set (groupBy h). G ! c = TypeString"
      "int_inv h (init_group h False G) rs (maps st1, intKey st1)" using st1(2) by (simp_all add: acc_inv_def)
    have "dict_batch (groupBy h) b" using dict_batchI [OF wb _ wf(2)] c(1) i(3) by blast
    then obtain g' ik' where g': "accumulateIntKey h b (sel_rows b) ?vecs (maps st1, intKey st1) = Inr (g', ik')"
      "if ienabled ik' then int_inv h (init_group h False G) (rs @ batch_rows b) (g', ik')
       else \<exists>ks. gm_ok h (init_group h False G) ks (rs @ batch_rows b) g' \<and> set ks = gcells (groupBy h) ` set (rs @ batch_rows b)"
      using accumulateIntKey_ok [OF i(4,1) conf(2) True conf(1) i(2) wf(1) _ T refl] by blast
    have "acc_inv h G (rs @ batch_rows b) (st1\<lparr>maps := g', intKey := ik'\<rparr>)"
    proof (cases "ienabled ik'")
      case True
      then have "int_inv h (init_group h False G) (rs @ batch_rows b) (g', ik')" using g'(2) by simp
      then show ?thesis using i st1(3) True by (simp add: acc_inv_def)
    next
      case False
      then have "\<exists>ks. gm_ok h (init_group h True G) ks (rs @ batch_rows b) g' \<and> set ks = gcells (groupBy h) ` set (rs @ batch_rows b)"
        using g'(2) init_group_plain [OF i(2)] by simp
      then show ?thesis using False by (simp add: acc_inv_def)
    qed
    then show ?thesis using acc True g'(1) st1(3) by simp
  next
    case False
    then obtain ks where ks: "gm_ok h (init_group h True G) ks rs (maps st1)" "set ks = gcells (groupBy h) ` set rs" using st1(2) by (auto simp: acc_inv_def)
    have Tk: "\<forall>k \<in> set ks. typed_row (map ((!) G) (groupBy h)) k" using ks(2) T typed_gcells [OF _ c(1)] by auto
    let ?ks = "group_keys ks (map (gcells (groupBy h)) (batch_rows b))"
    obtain g' where g': "string_rows h b ?vecs (maps st1) = Inr g'" "gm_ok h (init_group h True G) ?ks (rs @ batch_rows b) g'"
      using string_rows_ok [OF conf(1) ks(1) wf(1) _ Tk] T by blast
    have "set ?ks = gcells (groupBy h) ` set (rs @ batch_rows b)" using ks(2) by (simp add: image_Un)
    then have "acc_inv h G (rs @ batch_rows b) (st1\<lparr>maps := g'\<rparr>)" using False g'(2) unfolding acc_inv_def by auto
    then show ?thesis using acc False g'(1) st1(3) by simp
  qed
qed

lemma accumulate_all_grouped:
  assumes conf: "conf_ok G h" "groupBy h \<noteq> []" and inv: "acc_inv h G rs st" and wf: "\<forall>b \<in> set bs. wf_rows G b \<and> dicts_present (groupBy h) b"
    and T: "\<forall>r \<in> set rs \<union> set (concat (map batch_rows bs)). typed_row G r" and fresh: "intKeyDecided st \<or> rs = [] \<and> st = agg_start"
  shows "\<exists>st'. accumulate_all h st (stream_of bs) = Inr st' \<and> acc_inv h G (rs @ concat (map batch_rows bs)) st'"
  using inv wf T fresh
proof (induction bs arbitrary: rs st)
  case (Cons b bs)
  have b: "wf_rows G b" "dicts_present (groupBy h) b" "\<forall>r \<in> set rs \<union> set (batch_rows b). typed_row G r" using Cons.prems(2,3) by auto
  obtain st1 where st1: "accumulate h st b = Inr st1" "acc_inv h G (rs @ batch_rows b) st1" "intKeyDecided st1"
    using accumulate_grouped [OF conf Cons.prems(1) b Cons.prems(4)] by blast
  then show ?case using Cons.IH [OF st1(2)] Cons.prems(2,3) by simp
qed simp

lemma finish_grouped:
  assumes conf: "conf_ok G h" "groupBy h \<noteq> []" and inv: "acc_inv h G rs st" and T: "\<forall>r \<in> set rs. typed_row G r"
  shows "\<exists>g ks. finish_maps h st = Inr g \<and> gm_ok h (init_group h True G) ks rs g \<and> set ks = gcells (groupBy h) ` set rs"
proof (cases "ienabled (intKey st)")
  case True
  then have i: "length (groupBy h) \<le> 8" "\<not> hasDistinct h" "int_inv h (init_group h False G) rs (maps st, intKey st)" using inv by (simp_all add: acc_inv_def)
  have "\<forall>r \<in> set rs. typed_row (map ((!) G) (groupBy h)) (gcells (groupBy h) r)" using T typed_gcells [OF _ conf_okD(1) [OF conf(1)]] by blast
  then obtain g ks where g: "materializeToStringMaps h (intKey st) (maps st) = Inr g" "gm_ok h (init_group h False G) ks rs g" "set ks = gcells (groupBy h) ` set rs"
    using materialize_maps_ok [OF i(3,1) _ conf(2)] by blast
  have "finish_maps h st = Inr g" using True g(1) by (cases "intKeys (intKey st) = []") (simp_all add: finish_maps_def materializeToStringMaps_def)
  then show ?thesis using g(2,3) init_group_plain [OF i(2)] by (intro exI [of _ g] exI [of _ ks]) simp
next
  case False
  then obtain ks where "gm_ok h (init_group h True G) ks rs (maps st)" "set ks = gcells (groupBy h) ` set rs" using inv by (auto simp: acc_inv_def)
  then show ?thesis using False by (intro exI [of _ "maps st"] exI [of _ ks]) (simp add: finish_maps_def)
qed

lemma acc_inv_start: "acc_inv h G [] agg_start"
  using gm_ok_init by (simp add: acc_inv_def agg_start_def no_intKey_def)

lemma consumeAll_grouped:
  assumes conf: "conf_ok G h" "groupBy h \<noteq> []" and wf: "\<forall>b \<in> set bs. wf_rows G b \<and> dicts_present (groupBy h) b"
    and T: "\<forall>r \<in> set (concat (map batch_rows bs)). typed_row G r"
  shows "\<exists>g ks. consumeAll h (stream_of bs) = Inr g \<and> gm_ok h (init_group h True G) ks (concat (map batch_rows bs)) g \<and>
    set ks = gcells (groupBy h) ` set (concat (map batch_rows bs))"
proof -
  let ?rs = "concat (map batch_rows bs)"
  obtain st where st: "accumulate_all h agg_start (stream_of bs) = Inr st" "acc_inv h G ?rs st"
    using accumulate_all_grouped [OF conf acc_inv_start wf] T by auto
  then show ?thesis using finish_grouped [OF conf st(2) T] by (simp add: consumeAll_def)
qed

lemma accumulate_global:
  assumes conf: "conf_ok G h" "groupBy h = []" and "\<not> ienabled (intKey st)" "gm_ok h (init_group h False G) ks rs (maps st)" "ks = [] \<and> rs = [] \<or> ks = [[]]"
    and wf: "wf_rows G b"
  shows "\<exists>st'. accumulate h st b = Inr st' \<and> \<not> ienabled (intKey st') \<and> gm_ok h (init_group h False G) [[]] (rs @ batch_rows b) (maps st')"
proof -
  have wb: "wf_batch G b" using wf by (simp add: wf_rows_def)
  note c = conf_okD [OF conf(1)]
  obtain g' where g': "accumulateDirect h (sel_rows b) (map (agg_vec b) (aggExprs h)) (maps st) = Inr g'" "gm_ok h (init_group h False G) [[]] (rs @ batch_rows b) g'"
    using accumulateDirect_ok [OF conf assms(5,4) wf] by auto
  have "accumulate h st b = Inr (st\<lparr>maps := g'\<rparr>)"
    unfolding accumulate_def agg_vecs_ok [OF wb c(2)] checkStr_ok [OF wb c(2)] res_bind_simps if_P [OF conf(2)] g'(1) by simp
  then show ?thesis using assms(3) g'(2) by simp
qed

lemma consumeAll_global:
  assumes conf: "conf_ok G h" "groupBy h = []" and wf: "\<forall>b \<in> set bs. wf_rows G b"
  shows "\<exists>g. consumeAll h (stream_of bs) = Inr g \<and> gm_ok h (init_group h False G) (if bs = [] then [] else [[]]) (concat (map batch_rows bs)) g"
proof -
  have "\<exists>st'. accumulate_all h st (stream_of bs) = Inr st' \<and> \<not> ienabled (intKey st') \<and>
      gm_ok h (init_group h False G) (if bs = [] then ks else [[]]) (rs @ concat (map batch_rows bs)) (maps st')"
    if "\<not> ienabled (intKey st)" "gm_ok h (init_group h False G) ks rs (maps st)" "ks = [] \<and> rs = [] \<or> ks = [[]]" for st ks rs
    using that wf
  proof (induction bs arbitrary: st ks rs)
    case (Cons b bs)
    obtain st1 where st1: "accumulate h st b = Inr st1" "\<not> ienabled (intKey st1)" "gm_ok h (init_group h False G) [[]] (rs @ batch_rows b) (maps st1)"
      using accumulate_global [OF conf Cons.prems(1-3)] Cons.prems(4) by auto
    moreover have "\<exists>st'. accumulate_all h st1 (stream_of bs) = Inr st' \<and> \<not> ienabled (intKey st') \<and>
      gm_ok h (init_group h False G) (if bs = [] then [[]] else [[]]) ((rs @ batch_rows b) @ concat (map batch_rows bs)) (maps st')"
      using Cons.prems st1(2,3) by (intro Cons.IH) auto
    ultimately show ?case by simp
  qed simp
  from this [of agg_start "[]" "[]"] show ?thesis using gm_ok_init by (auto simp: agg_start_def no_intKey_def consumeAll_def finish_maps_def)
qed

end
