(* ===== verification/AggOut.thy ===== *)
theory AggOut
  imports IntKey
begin

text \<open>
  The output of \<^verbatim>\<open>HashAggregate\<close>: result columns built from the groups, in blocks, and the operator as a whole. The main theorem
  says that GROUP BY delivers one row per group, with the SQL value of every aggregate over exactly the rows of the group.
\<close>

section \<open>Result columns\<close>

text \<open>The loops that start from an all-valid bitmap and clear the bit of a NULL row.\<close>

definition emit_loop :: "(nat \<Rightarrow> bool xres) \<Rightarrow> (nat \<Rightarrow> 's \<Rightarrow> 's xres) \<Rightarrow> nat \<Rightarrow> 's \<Rightarrow> ('s \<times> byte list) xres" where
  "emit_loop null put n s0 = fold_res (\<lambda>(s, nb) i. res_bind (null i) (\<lambda>isn. if isn then res_map (\<lambda>nb. (s, nb)) (SetNullBit nb i)
     else res_map (\<lambda>s. (s, nb)) (put i s))) (s0, FullBitmap n) [0..<n]"

definition emit_fixed :: "(nat \<Rightarrow> bool xres) \<Rightarrow> (nat \<Rightarrow> 'v xres) \<Rightarrow> 'v \<Rightarrow> nat \<Rightarrow> ('v list \<times> byte list) xres" where
  "emit_fixed null get z n = emit_loop null (\<lambda>i vals. res_bind (get i) (upd vals i)) n (replicate n z)"

definition emit_bools :: "(nat \<Rightarrow> bool xres) \<Rightarrow> (nat \<Rightarrow> bool xres) \<Rightarrow> nat \<Rightarrow> (byte list \<times> byte list) xres" where
  "emit_bools null get n = emit_loop null (\<lambda>i bits. res_bind (get i) (BoolVector_Set bits i)) n (replicate ((n + 7) div 8) 0)"

definition slot_at :: "group_maps \<Rightarrow> byte list list \<Rightarrow> nat \<Rightarrow> nat \<Rightarrow> slot xres" where
  "slot_at g ks j i = res_bind (idx ks i) (\<lambda>key. case groups g key of None \<Rightarrow> Inl Panic | Some ss \<Rightarrow> idx ss j)"

definition buildMinMaxVector :: "group_maps \<Rightarrow> byte list list \<Rightarrow> nat \<Rightarrow> DataType \<Rightarrow> vector xres" where
  "buildMinMaxVector g ks j outType = (let n = length ks; isNull = (\<lambda>i. res_map (\<lambda>s. nonNull s = 0) (slot_at g ks j i)); raw = (\<lambda>i. res_map acc (slot_at g ks j i)) in
     case outType of
       TypeString \<Rightarrow> fill_strings isNull (\<lambda>i. res_map strAcc (slot_at g ks j i)) n
     | TypeFloat64 \<Rightarrow> res_map (\<lambda>(vals, nb). Float64Vector vals nb) (emit_fixed isNull raw 0 n)
     | TypeDate \<Rightarrow> res_map (\<lambda>(vals, nb). DateVector vals nb) (emit_fixed isNull (\<lambda>i. res_map ucast (raw i)) 0 n)
     | TypeBool \<Rightarrow> res_map (\<lambda>(bits, nb). BoolVector bits nb n) (emit_bools isNull (\<lambda>i. res_map (\<lambda>x. x \<noteq> 0) (raw i)) n)
     | TypeInt64 \<Rightarrow> res_map (\<lambda>(vals, nb). Int64Vector vals nb) (emit_fixed isNull raw 0 n))"

definition agg_column :: "group_maps \<Rightarrow> byte list list \<Rightarrow> nat \<Rightarrow> AggExpr \<Rightarrow> DataType \<Rightarrow> vector xres" where
  "agg_column g ks j ae outType = (let n = length ks; slot = slot_at g ks j; isNull = (\<lambda>i. res_map (\<lambda>s. nonNull s = 0) (slot i)); raw = (\<lambda>i. res_map acc (slot i));
       ints = (\<lambda>null get. res_map (\<lambda>(vals, nb). Int64Vector vals nb) (emit_fixed null get 0 n));
       floats = (\<lambda>null get. res_map (\<lambda>(vals, nb). Float64Vector vals nb) (emit_fixed null get 0 n)) in
     case AKind ae of
       AggCount \<Rightarrow> (if AccumType ae = Some TypeFloat64 then floats else ints) (\<lambda>_. Inr False) raw
     | AggCountDistinct \<Rightarrow> ints (\<lambda>_. Inr False) (\<lambda>i. res_map (\<lambda>s. word_of_nat (slot_count s)) (slot i))
     | AggSum \<Rightarrow> (if AccumType ae = Some TypeFloat64 then floats else ints) isNull raw
     | AggAvg \<Rightarrow> floats (\<lambda>i. res_map (\<lambda>s. \<not> 0 < sint (nonNull s)) (slot i)) (\<lambda>i. res_map (\<lambda>s. f_div (acc s) (f_of_int64 (nonNull s))) (slot i))
     | _ \<Rightarrow> buildMinMaxVector g ks j outType)"

definition buildGroupByVector :: "group_maps \<Rightarrow> byte list list \<Rightarrow> nat \<Rightarrow> DataType \<Rightarrow> vector xres" where
  "buildGroupByVector g ks gbPos srcType = (let n = length ks;
       cell = (\<lambda>i. res_bind (idx ks i) (\<lambda>key. case samples g key of None \<Rightarrow> Inr \<lparr>gnull = True, gstr = [], gbits = 0\<rparr> | Some sample \<Rightarrow> idx sample gbPos));
       null = (\<lambda>i. res_map gnull (cell i)); raw = (\<lambda>i. res_map gbits (cell i)) in
     case srcType of
       TypeString \<Rightarrow> fill_strings null (\<lambda>i. res_map gstr (cell i)) n
     | TypeFloat64 \<Rightarrow> res_map (\<lambda>(vals, nb). Float64Vector vals nb) (fill_fixed null raw 0 n)
     | TypeDate \<Rightarrow> res_map (\<lambda>(vals, nb). DateVector vals nb) (fill_fixed null (\<lambda>i. res_map (\<lambda>x. ucast x) (raw i)) 0 n)
     | TypeBool \<Rightarrow> res_map (\<lambda>(bits, nb). BoolVector bits nb n) (fill_bools null (\<lambda>i. res_map (\<lambda>x. x \<noteq> 0) (raw i)) n)
     | TypeInt64 \<Rightarrow> res_map (\<lambda>(vals, nb). Int64Vector vals nb) (fill_fixed null raw 0 n))"

definition buildOutputBatch :: "agg_conf \<Rightarrow> group_maps \<Rightarrow> byte list list \<Rightarrow> Batch xres" where
  "buildOutputBatch h g ks = (let k = length (groupBy h) in
     res_bind (map_res (\<lambda>p. res_bind (idx (aschema h) p) (\<lambda>f. buildGroupByVector g ks p (Type f))) [0..<k]) (\<lambda>gvecs.
     res_map (\<lambda>avecs. \<lparr>BSchema = aschema h, Vectors = gvecs @ avecs, BLength = length ks, SelVec = None\<rparr>)
       (map_res (\<lambda>(j, ae). res_bind (idx (aschema h) (k + j)) (\<lambda>f. agg_column g ks j ae (Type f))) (enumerate 0 (aggExprs h)))))"

definition nullVectorOfType :: "DataType \<Rightarrow> vector" where
  "nullVectorOfType t = (case t of TypeString \<Rightarrow> StringVector [0] None [0] | TypeFloat64 \<Rightarrow> Float64Vector [0] [0] | TypeDate \<Rightarrow> DateVector [0] [0]
     | TypeBool \<Rightarrow> BoolVector [0] [0] 1 | TypeInt64 \<Rightarrow> Int64Vector [0] [0])"

definition empty_column :: "AggExpr \<Rightarrow> DataType \<Rightarrow> vector" where
  "empty_column ae t = (case AKind ae of
     AggCount \<Rightarrow> Int64Vector [0] (FullBitmap 1) | AggCountDistinct \<Rightarrow> Int64Vector [0] (FullBitmap 1)
   | AggSum \<Rightarrow> if AccumType ae = Some TypeFloat64 then Float64Vector [0] [0] else Int64Vector [0] [0]
   | AggAvg \<Rightarrow> Float64Vector [0] [0]
   | _ \<Rightarrow> nullVectorOfType t)"

definition buildEmptyGlobalResult :: "agg_conf \<Rightarrow> Batch xres" where
  "buildEmptyGlobalResult h = res_map (\<lambda>vecs. \<lparr>BSchema = aschema h, Vectors = vecs, BLength = 1, SelVec = None\<rparr>)
     (map_res (\<lambda>(j, ae). res_map (\<lambda>f. empty_column ae (Type f)) (idx (aschema h) j)) (enumerate 0 (aggExprs h)))"


section \<open>The operator\<close>

record HashAggregate =
  achild :: stream
  amaps :: group_maps
  adone :: bool
  outPos :: nat

definition HashAggregate_start :: "stream \<Rightarrow> HashAggregate" where
  "HashAggregate_start child = \<lparr>achild = child, amaps = initMaps, adone = False, outPos = 0\<rparr>"

definition emit_groups :: "agg_conf \<Rightarrow> HashAggregate \<Rightarrow> (Batch option \<times> HashAggregate) xres" where
  "emit_groups h s = (let ks = gkeys (amaps s) in if length ks \<le> outPos s then Inr (None, s)
     else (let stop = min (outPos s + BlockRows) (length ks) in
       res_map (\<lambda>batch. (Some batch, s\<lparr>outPos := stop\<rparr>)) (buildOutputBatch h (amaps s) (take (stop - outPos s) (drop (outPos s) ks)))))"

definition HashAggregate_Next :: "agg_conf \<Rightarrow> HashAggregate \<Rightarrow> (Batch option \<times> HashAggregate) xres" where
  "HashAggregate_Next h s = (if adone s then emit_groups h s
     else res_bind (consumeAll h (achild s)) (\<lambda>g. let s = s\<lparr>achild := EOF, amaps := g, adone := True\<rparr> in
       if gkeys g = [] \<and> groupBy h = [] then res_map (\<lambda>batch. (Some batch, s\<lparr>outPos := 1\<rparr>)) (buildEmptyGlobalResult h)
       else emit_groups h s))"

definition agg_left :: "agg_conf \<Rightarrow> HashAggregate \<Rightarrow> nat" where
  "agg_left h s = (if adone s then length (gkeys (amaps s)) - outPos s
     else (case consumeAll h (achild s) of Inl _ \<Rightarrow> 0 | Inr g \<Rightarrow> Suc (length (gkeys g)) - outPos s))"

interpretation agg_op: pull_operator "HashAggregate_Next h" "\<lambda>s. if adone s then agg_left h s else Suc (agg_left h s)" for h
proof
  fix s b s' assume step: "HashAggregate_Next h s = Inr (Some b, s')"
  have emit: "adone s' = adone t \<and> amaps s' = amaps t \<and> outPos t < length (gkeys (amaps t)) \<and> outPos t < outPos s'" if "emit_groups h t = Inr (Some b, s')" for t
    using that by (auto simp: emit_groups_def BlockRows_def Let_def res_map_eq_Inr split: if_splits)
  show "(if adone s' then agg_left h s' else Suc (agg_left h s')) < (if adone s then agg_left h s else Suc (agg_left h s))"
  proof (cases "adone s")
    case True
    then show ?thesis using emit [of s] step by (auto simp: HashAggregate_Next_def agg_left_def)
  next
    case False
    then obtain g where g: "consumeAll h (achild s) = Inr g" using step by (auto simp: HashAggregate_Next_def)
    let ?s = "s\<lparr>achild := EOF, amaps := g, adone := True\<rparr>"
    show ?thesis
    proof (cases "gkeys g = [] \<and> groupBy h = []")
      case True
      then have "adone s'" "amaps s' = g" using step False g by (auto simp: HashAggregate_Next_def Let_def res_map_eq_Inr)
      then show ?thesis using False True by (simp add: agg_left_def)
    next
      case not: False
      then have "emit_groups h ?s = Inr (Some b, s')" using step False g unfolding HashAggregate_Next_def by (simp add: Let_def not)
      then show ?thesis using emit [of ?s] False g by (auto simp: agg_left_def)
    qed
  qed
qed

section \<open>The columns read back as the results\<close>

lemma emit_loop_ok:
  assumes null: "\<And>i. i < n \<Longrightarrow> null i = Inr (isn i)" and base: "Q 0 s0"
    and skip: "\<And>i s. i < n \<Longrightarrow> isn i \<Longrightarrow> Q i s \<Longrightarrow> Q (Suc i) s"
    and step: "\<And>i s. i < n \<Longrightarrow> \<not> isn i \<Longrightarrow> Q i s \<Longrightarrow> \<exists>s'. put i s = Inr s' \<and> Q (Suc i) s'"
  shows "\<exists>s nb. emit_loop null put n s0 = Inr (s, nb) \<and> Q n s \<and> length nb = bitmap_bytes n \<and> (\<forall>i < n. valid_at nb i \<longleftrightarrow> \<not> isn i)"
proof -
  let ?P = "\<lambda>j (s, nb). Q j s \<and> length nb = bitmap_bytes n \<and> (\<forall>i < n. valid_at nb i \<longleftrightarrow> \<not> (i < j \<and> isn i))"
  have "\<exists>r. emit_loop null put n s0 = Inr r \<and> ?P n r"
    unfolding emit_loop_def
  proof (rule fold_res_upto [where P = ?P], goal_cases)
    case 1
    then show ?case using base by simp
  next
    case (2 i r)
    obtain s nb where r: "r = (s, nb)" by (cases r)
    have i: "i div 8 < length nb" using 2 r by (intro div8_less_bitmap_bytes) auto
    show ?case
    proof (cases "isn i")
      case True
      obtain nb' where "SetNullBit nb i = (Inr nb' :: byte list xres)" "length nb' = length nb"
        "\<And>j. valid_at nb' j \<longleftrightarrow> valid_at nb j \<and> j \<noteq> i" using SetNullBit_eq [OF i] by blast
      then show ?thesis using 2 r null True skip by (auto simp: less_Suc_eq)
    next
      case False
      obtain s' where s': "put i s = Inr s'" "Q (Suc i) s'" using step [of i s] 2 r False by auto
      then show ?thesis using 2 r null False by (auto simp: less_Suc_eq)
    qed
  qed
  then show ?thesis by auto
qed

lemma emit_fixed_ok:
  assumes "\<And>i. i < n \<Longrightarrow> null i = Inr (isn i)" "\<And>i. i < n \<Longrightarrow> \<not> isn i \<Longrightarrow> get i = Inr (x i)"
  shows "\<exists>vals nb. emit_fixed null get z n = Inr (vals, nb) \<and> length vals = n \<and> length nb = bitmap_bytes n \<and>
    (\<forall>i < n. (valid_at nb i \<longleftrightarrow> \<not> isn i) \<and> (\<not> isn i \<longrightarrow> vals ! i = x i))"
proof -
  have "\<exists>s nb. emit_loop null (\<lambda>i vals. res_bind (get i) (upd vals i)) n (replicate n z) = Inr (s, nb) \<and>
      (length s = n \<and> (\<forall>j < n. \<not> isn j \<longrightarrow> s ! j = x j)) \<and> length nb = bitmap_bytes n \<and> (\<forall>i < n. valid_at nb i \<longleftrightarrow> \<not> isn i)"
    by (rule emit_loop_ok [where Q = "\<lambda>i s. length s = n \<and> (\<forall>j < i. \<not> isn j \<longrightarrow> s ! j = x j)"])
      (use assms in \<open>auto simp: less_Suc_eq nth_list_update\<close>)
  then show ?thesis by (auto simp: emit_fixed_def)
qed

lemma emit_bools_ok:
  assumes "\<And>i. i < n \<Longrightarrow> null i = Inr (isn i)" "\<And>i. i < n \<Longrightarrow> \<not> isn i \<Longrightarrow> get i = Inr (x i)"
  shows "\<exists>bits nb. emit_bools null get n = Inr (bits, nb) \<and> length bits = bitmap_bytes n \<and> length nb = bitmap_bytes n \<and>
    (\<forall>i < n. (valid_at nb i \<longleftrightarrow> \<not> isn i) \<and> (\<not> isn i \<longrightarrow> (valid_at bits i \<longleftrightarrow> x i)))"
proof -
  have "\<exists>s nb. emit_loop null (\<lambda>i bits. res_bind (get i) (BoolVector_Set bits i)) n (replicate ((n + 7) div 8) 0) = Inr (s, nb) \<and>
      (length s = bitmap_bytes n \<and> (\<forall>j < n. \<not> isn j \<longrightarrow> (valid_at s j \<longleftrightarrow> x j))) \<and> length nb = bitmap_bytes n \<and> (\<forall>i < n. valid_at nb i \<longleftrightarrow> \<not> isn i)"
  proof (rule emit_loop_ok [where Q = "\<lambda>i s. length s = bitmap_bytes n \<and> (\<forall>j < i. \<not> isn j \<longrightarrow> (valid_at s j \<longleftrightarrow> x j))"], goal_cases)
    case (4 i s)
    then have "i div 8 < length s" using div8_less_bitmap_bytes by simp
    then obtain s' where "BoolVector_Set s i (x i) = Inr s'" "length s' = length s"
      "\<And>j. valid_at s' j \<longleftrightarrow> (if j = i then x i else valid_at s j)" using BoolVector_Set_eq by blast
    then show ?case using 4 assms(2) by (auto simp: less_Suc_eq)
  qed (use assms in \<open>auto simp: less_Suc_eq\<close>)
  then show ?thesis by (auto simp: emit_bools_def)
qed

text \<open>A column of each vector kind, with the cells it then has.\<close>

definition column :: "vector xres \<Rightarrow> nat \<Rightarrow> DataType \<Rightarrow> (nat \<Rightarrow> val option) \<Rightarrow> bool" where
  "column m n t x \<longleftrightarrow> (\<exists>v. m = Inr v \<and> wf_vector n v \<and> VType v = t \<and> (\<forall>i < n. vget v i = x i))"

lemma column_fixed:
  assumes "\<forall>i < n. null i = Inr (isn i)" "\<forall>i < n. \<not> isn i \<longrightarrow> get i = Inr (x i)"
  shows "column (res_map (\<lambda>(vals, nb). Int64Vector vals nb) (emit_fixed null get 0 n)) n TypeInt64 (\<lambda>i. if isn i then None else Some (VInt (x i)))"
    "column (res_map (\<lambda>(vals, nb). Float64Vector vals nb) (emit_fixed null get 0 n)) n TypeFloat64 (\<lambda>i. if isn i then None else Some (VFloat (x i)))"
proof -
  obtain vals nb where "emit_fixed null get 0 n = Inr (vals, nb)" "length vals = n" "length nb = bitmap_bytes n"
    "\<forall>i < n. (valid_at nb i \<longleftrightarrow> \<not> isn i) \<and> (\<not> isn i \<longrightarrow> vals ! i = x i)"
    using emit_fixed_ok [of n null isn get x 0] assms by blast
  then show "column (res_map (\<lambda>(vals, nb). Int64Vector vals nb) (emit_fixed null get 0 n)) n TypeInt64 (\<lambda>i. if isn i then None else Some (VInt (x i)))"
    "column (res_map (\<lambda>(vals, nb). Float64Vector vals nb) (emit_fixed null get 0 n)) n TypeFloat64 (\<lambda>i. if isn i then None else Some (VFloat (x i)))"
    by (auto simp: column_def)
qed

lemma column_date:
  assumes "\<forall>i < n. null i = Inr (isn i)" "\<forall>i < n. \<not> isn i \<longrightarrow> get i = Inr (x i)"
  shows "column (res_map (\<lambda>(vals, nb). DateVector vals nb) (emit_fixed null get 0 n)) n TypeDate (\<lambda>i. if isn i then None else Some (VDate (x i)))"
proof -
  obtain vals nb where "emit_fixed null get 0 n = Inr (vals, nb)" "length vals = n" "length nb = bitmap_bytes n"
    "\<forall>i < n. (valid_at nb i \<longleftrightarrow> \<not> isn i) \<and> (\<not> isn i \<longrightarrow> vals ! i = x i)"
    using emit_fixed_ok [of n null isn get x 0] assms by blast
  then show ?thesis by (auto simp: column_def)
qed

lemma column_bool:
  assumes "\<forall>i < n. null i = Inr (isn i)" "\<forall>i < n. \<not> isn i \<longrightarrow> get i = Inr (x i)"
  shows "column (res_map (\<lambda>(bits, nb). BoolVector bits nb n) (emit_bools null get n)) n TypeBool (\<lambda>i. if isn i then None else Some (VBool (x i)))"
proof -
  obtain bits nb where "emit_bools null get n = Inr (bits, nb)" "length bits = bitmap_bytes n" "length nb = bitmap_bytes n"
    "\<forall>i < n. (valid_at nb i \<longleftrightarrow> \<not> isn i) \<and> (\<not> isn i \<longrightarrow> (valid_at bits i \<longleftrightarrow> x i))"
    using emit_bools_ok [of n null isn get x] assms by blast
  then show ?thesis by (auto simp: column_def)
qed

lemma column_cong: "column m n t x \<Longrightarrow> (\<And>i. i < n \<Longrightarrow> x i = y i) \<Longrightarrow> column m n t y"
  by (auto simp: column_def)

lemma agg_column_ok:
  assumes ok: "agg_ok G ae" and t: "t = agg_type G ae" and s: "\<forall>i < length ks. slot_at g ks j i = Inr (s i)"
    and size: "AKind ae \<in> {AggMin, AggMax} \<Longrightarrow> t = TypeString \<Longrightarrow> (\<Sum>i < length ks. if nonNull (s i) = 0 then 0 else Suc (length (strAcc (s i)))) < 2 ^ 32"
  shows "column (agg_column g ks j ae (out_type ae t)) (length ks) (out_type ae t) (\<lambda>i. slot_result ae t (s i))"
proof -
  let ?n = "length ks" and ?isn = "\<lambda>i. nonNull (s i) = 0"
  have null: "\<forall>i < ?n. res_map (\<lambda>s. nonNull s = 0) (slot_at g ks j i) = Inr (?isn i)" using s by simp
  have raw: "\<forall>i < ?n. \<not> isn i \<longrightarrow> res_map acc (slot_at g ks j i) = Inr (acc (s i))" for isn using s by simp
  have never: "\<forall>i < ?n. (\<lambda>_. Inr False) i = Inr ((\<lambda>_. False) i)" by simp
  note nums = column_fixed [OF null raw]
  have mm: "column (buildMinMaxVector g ks j t) ?n t (\<lambda>i. if ?isn i then None else Some (raw_val t (s i)))" if k: "AKind ae \<in> {AggMin, AggMax}"
  proof (cases t)
    case TypeString
    obtain v where "fill_strings (\<lambda>i. res_map (\<lambda>s. nonNull s = 0) (slot_at g ks j i)) (\<lambda>i. res_map strAcc (slot_at g ks j i)) ?n = Inr v" "wf_vector ?n v" "VType v = TypeString"
      "\<forall>i < ?n. vget v i = (if ?isn i then None else Some (VString (strAcc (s i))))"
      using fill_strings_ok [of ?n "\<lambda>i. res_map (\<lambda>s. nonNull s = 0) (slot_at g ks j i)" ?isn "\<lambda>i. res_map strAcc (slot_at g ks j i)" "\<lambda>i. strAcc (s i)"]
        s size [OF k TypeString] by auto
    then show ?thesis using TypeString by (simp add: buildMinMaxVector_def column_def raw_val_def)
  next
    case TypeDate
    have "\<forall>i < ?n. \<not> ?isn i \<longrightarrow> res_map ucast (res_map acc (slot_at g ks j i)) = Inr (ucast (acc (s i)) :: i32)" using s by simp
    from column_date [OF null this] show ?thesis unfolding TypeDate raw_val_def buildMinMaxVector_def Let_def DataType.case .
  next
    case TypeBool
    have "\<forall>i < ?n. \<not> ?isn i \<longrightarrow> res_map (\<lambda>x. x \<noteq> 0) (res_map acc (slot_at g ks j i)) = Inr (acc (s i) \<noteq> 0)" using s by simp
    from column_bool [OF null this] show ?thesis unfolding TypeBool raw_val_def buildMinMaxVector_def Let_def DataType.case .
  next
    case TypeInt64
    show ?thesis unfolding TypeInt64 raw_val_def buildMinMaxVector_def Let_def DataType.case by (rule nums(1))
  next
    case TypeFloat64
    show ?thesis unfolding TypeFloat64 raw_val_def buildMinMaxVector_def Let_def DataType.case by (rule nums(2))
  qed
  show ?thesis
  proof (cases "AKind ae")
    case AggCount
    then have "AccumType ae = Some TypeInt64" using ok by (auto simp: agg_ok_def AccumTypeFor_def split: if_splits)
    then show ?thesis using column_fixed(1) [OF never raw] AggCount by (simp add: agg_column_def slot_result_def out_type_def)
  next
    case AggCountDistinct
    have "\<forall>i < ?n. \<not> False \<longrightarrow> res_map (\<lambda>s. word_of_nat (slot_count s)) (slot_at g ks j i) = Inr (word_of_nat (slot_count (s i)) :: i64)" using s by simp
    from column_fixed(1) [OF never this] show ?thesis using AggCountDistinct by (simp add: agg_column_def slot_result_def out_type_def)
  next
    case AggSum
    then have "AccumType ae = Some t" "t = TypeInt64 \<or> t = TypeFloat64" using ok t
      by (auto simp: agg_ok_def agg_type_def AccumTypeFor_def split: if_splits)
    then show ?thesis using column_cong [OF nums(1)] column_cong [OF nums(2)] AggSum
      by (auto simp: agg_column_def slot_result_def out_type_def Let_def)
  next
    case AggAvg
    have nul: "\<forall>i < ?n. res_map (\<lambda>s. \<not> 0 < sint (nonNull s)) (slot_at g ks j i) = Inr (\<not> 0 < sint (nonNull (s i)))" using s by simp
    have "\<forall>i < ?n. \<not> \<not> 0 < sint (nonNull (s i)) \<longrightarrow> res_map (\<lambda>s. f_div (acc s) (f_of_int64 (nonNull s))) (slot_at g ks j i) = Inr (f_div (acc (s i)) (f_of_int64 (nonNull (s i))))"
      using s by simp
    from column_fixed(2) [OF nul this] show ?thesis using AggAvg
      using column_cong by (fastforce simp: agg_column_def slot_result_def out_type_def Let_def)
  qed (use mm in \<open>simp_all add: agg_column_def slot_result_def out_type_def Let_def\<close>)
qed

lemma sample_of_cell:
  "gnull (sample_of x) \<longleftrightarrow> x = None" "gbits (sample_of x) = cell_raw x" "gstr (sample_of x) = cell_str x"
  by (auto simp: sample_of_def cell_raw_def cell_str_def split: option.splits)

lemma buildGroupByVector_ok:
  assumes "\<forall>i < length ks. samples g (ks ! i) = Some (map sample_of (cs i)) \<and> p < length (cs i)" "\<forall>i < length ks. \<forall>v. cs i ! p = Some v \<longrightarrow> val_type v = t"
    "t = TypeString \<Longrightarrow> (\<Sum>i < length ks. if cs i ! p = None then 0 else Suc (length (cell_str (cs i ! p)))) < 2 ^ 32"
  shows "column (buildGroupByVector g ks p t) (length ks) t (\<lambda>i. cs i ! p)"
proof -
  let ?n = "length ks"
  let ?cell = "\<lambda>i. res_bind (idx ks i) (\<lambda>key. case samples g key of None \<Rightarrow> Inr \<lparr>gnull = True, gstr = [], gbits = 0\<rparr> | Some sample \<Rightarrow> idx sample p) :: groupByVal xres"
  have cell: "?cell i = Inr (sample_of (cs i ! p))" if "i < ?n" for i using assms(1) that by simp
  have null: "\<forall>i < ?n. res_map gnull (?cell i) = Inr (cs i ! p = None)" by (intro allI impI) (simp only: cell res_map_simps sample_of_cell)
  have raw: "\<forall>i < ?n. cs i ! p \<noteq> None \<longrightarrow> res_map gbits (?cell i) = Inr (cell_raw (cs i ! p))" by (intro allI impI) (simp only: cell res_map_simps sample_of_cell)
  have str: "\<forall>i < ?n. cs i ! p \<noteq> None \<longrightarrow> res_map gstr (?cell i) = Inr (cell_str (cs i ! p))" by (intro allI impI) (simp only: cell res_map_simps sample_of_cell)
  note cells = fill_cells [OF null assms(2) raw]
  show ?thesis
  proof (cases t)
    case TypeString
    then have "\<exists>v. fill_strings (\<lambda>i. res_map gnull (?cell i)) (\<lambda>i. res_map gstr (?cell i)) ?n = Inr v \<and> wf_vector ?n v \<and> VType v = TypeString \<and> (\<forall>i < ?n. vget v i = cs i ! p)"
      by (intro fill_string_cells null str) (use assms in auto)
    then show ?thesis using TypeString by (simp add: buildGroupByVector_def column_def)
  qed (use cells in \<open>auto simp: buildGroupByVector_def Let_def column_def simp del: vget.simps wf_vector.simps\<close>)
qed

section \<open>Blocks of result rows\<close>

definition group_value :: "agg_conf \<Rightarrow> DataType list \<Rightarrow> val option list list \<Rightarrow> val option list \<Rightarrow> AggExpr \<Rightarrow> val option" where
  "group_value h G rs k ae = agg_value ae (agg_type G ae) (map (agg_arg ae) (filter (\<lambda>r. gcells (groupBy h) r = k) rs))"

definition out_row :: "agg_conf \<Rightarrow> DataType list \<Rightarrow> val option list list \<Rightarrow> val option list \<Rightarrow> val option list" where
  "out_row h G rs k = k @ map (group_value h G rs k) (aggExprs h)"

definition out_types :: "agg_conf \<Rightarrow> DataType list \<Rightarrow> DataType list" where
  "out_types h G = map ((!) G) (groupBy h) @ map (\<lambda>ae. out_type ae (agg_type G ae)) (aggExprs h)"

lemma agg_arg_typed:
  assumes "\<forall>r \<in> set rs. typed_row G r" "agg_ok G ae"
  shows "\<forall>y \<in> set (present (map (agg_arg ae) rs)). val_type y = agg_type G ae"
proof
  fix y assume "y \<in> set (present (map (agg_arg ae) rs))"
  then obtain r where r: "r \<in> set rs" "agg_arg ae r = Some y" by (auto simp: set_present)
  then have c: "0 \<le> AColIdx ae" "r ! nat (AColIdx ae) = Some y" by (auto simp: agg_arg_def split: if_splits)
  have "typed_row G r" "nat (AColIdx ae) < length G" using assms r(1) c(1) by (auto simp: agg_ok_def split: if_splits)
  then have "typed_cell (G ! nat (AColIdx ae)) (Some y)" using c(2) by (metis typed_row_def list_all2_nthD)
  then show "val_type y = agg_type G ae" using c(1) by (simp add: typed_cell_def agg_type_def)
qed

lemma slots_value:
  assumes "conf_ok G h" "\<forall>r \<in> set rs. typed_row G r" "length rs < 2 ^ 63" "j < length (aggExprs h)" "ae = aggExprs h ! j"
  shows "slot_result ae (agg_type G ae) (slots_of (aggExprs h) (init_group h sets G) (filter (\<lambda>r. gcells (groupBy h) r = k) rs) ! j) = group_value h G rs k ae"
proof -
  let ?rs = "filter (\<lambda>r. gcells (groupBy h) r = k) rs" and ?s = "init_group h sets G ! j"
  have "slots_of (aggExprs h) (init_group h sets G) ?rs ! j = run_slot ae ?s (map (agg_arg ae) ?rs)"
    using assms(4,5) by (simp add: nth_slots_of run_slot_def foldl_map)
  moreover have ok: "agg_ok G ae" using conf_okD(2) [OF assms(1)] assms(4,5) by simp
  moreover have "length ?rs < 2 ^ 63" using assms(3) length_filter_le [of "\<lambda>r. gcells (groupBy h) r = k" rs] by linarith
  moreover have "\<forall>y \<in> set (present (map (agg_arg ae) ?rs)). val_type y = agg_type G ae" using assms(2) by (intro agg_arg_typed [OF _ ok]) auto
  ultimately show ?thesis using slot_result_value [OF ok, of "map (agg_arg ae) ?rs" ?s] init_group_fresh [OF assms(4), of G sets] assms(5)
    by (simp add: group_value_def)
qed

lemma out_row_nth:
  "length k = length (groupBy h) \<Longrightarrow> p < length (groupBy h) \<Longrightarrow> out_row h G rs k ! p = k ! p"
  "length k = length (groupBy h) \<Longrightarrow> j < length (aggExprs h) \<Longrightarrow> out_row h G rs k ! (length (groupBy h) + j) = group_value h G rs k (aggExprs h ! j)"
  by (simp_all add: out_row_def nth_append)

lemma buildOutputBatch_ok:
  assumes conf: "conf_ok G h" "map Type (aschema h) = out_types h G" "groupBy h \<noteq> [] \<or> aggExprs h \<noteq> []"
    and gm: "gm_ok h (init_group h sets G) ks rs g" "set kc \<subseteq> set ks" and T: "\<forall>r \<in> set rs. typed_row G r" "\<forall>k \<in> set kc. typed_row (map ((!) G) (groupBy h)) k"
    and n: "length rs < 2 ^ 63" "length kc \<le> 2 ^ 16" "sum_list (map row_bytes (map (out_row h G rs) kc)) + length kc < 2 ^ 32"
  shows "\<exists>b. buildOutputBatch h g (map enc_row kc) = Inr b \<and> wf_rows (out_types h G) b \<and> batch_rows b = map (out_row h G rs) kc"
proof -
  let ?vs = "map (out_row h G rs) kc" and ?n = "length kc" and ?gb = "groupBy h" and ?aggs = "aggExprs h" and ?K = "length (groupBy h)"
  have lk: "length k = ?K" if "k \<in> set kc" for k using T(2) that by (fastforce simp: typed_row_def dest: list_all2_lengthD)
  have lv: "\<forall>r \<in> set ?vs. c < length r" if "c < ?K + length ?aggs" for c using that lk by (auto simp: out_row_def)
  have cells: "(\<Sum>i < ?n. if ?vs ! i ! c = None then 0 else Suc (length (cell_str (?vs ! i ! c)))) < 2 ^ 32" if "c < ?K + length ?aggs" for c
    using column_bytes [OF lv [OF that]] n(3) by simp
  have schema: "length (aschema h) = ?K + length ?aggs" "\<And>p. p < ?K \<Longrightarrow> Type (aschema h ! p) = G ! (?gb ! p)"
    "\<And>j. j < length ?aggs \<Longrightarrow> Type (aschema h ! (?K + j)) = out_type (?aggs ! j) (agg_type G (?aggs ! j))"
  proof -
    show l: "length (aschema h) = ?K + length ?aggs" using arg_cong [OF conf(2), of length] by (simp add: out_types_def)
    have nth: "Type (aschema h ! i) = out_types h G ! i" if "i < length (aschema h)" for i using conf(2) that by (metis nth_map)
    show "Type (aschema h ! p) = G ! (?gb ! p)" if "p < ?K" for p using nth [of p] l that by (simp add: out_types_def nth_append)
    show "Type (aschema h ! (?K + j)) = out_type (?aggs ! j) (agg_type G (?aggs ! j))" if "j < length ?aggs" for j
      using nth [of "?K + j"] l that by (simp add: out_types_def nth_append)
  qed
  have gcol: "column (buildGroupByVector g (map enc_row kc) p (G ! (?gb ! p))) ?n (G ! (?gb ! p)) (\<lambda>i. ?vs ! i ! p)" if p: "p < ?K" for p
  proof -
    have "column (buildGroupByVector g (map enc_row kc) p (G ! (?gb ! p))) (length (map enc_row kc)) (G ! (?gb ! p)) (\<lambda>i. (kc ! i) ! p)"
    proof (rule buildGroupByVector_ok)
      show "\<forall>i < length (map enc_row kc). samples g (map enc_row kc ! i) = Some (map sample_of (kc ! i)) \<and> p < length (kc ! i)"
      proof (intro allI impI)
        fix i assume "i < length (map enc_row kc)"
        then have k: "kc ! i \<in> set kc" by simp
        then have "length (kc ! i) = ?K" "kc ! i \<in> set ks" using lk gm(2) by auto
        then show "samples g (map enc_row kc ! i) = Some (map sample_of (kc ! i)) \<and> p < length (kc ! i)"
          using gm(1) p \<open>i < length (map enc_row kc)\<close> by (auto simp: gm_ok_def)
      qed
      show "\<forall>i < length (map enc_row kc). \<forall>v. kc ! i ! p = Some v \<longrightarrow> val_type v = G ! (?gb ! p)"
      proof (intro allI impI)
        fix i v assume i: "i < length (map enc_row kc)" "kc ! i ! p = Some v"
        then have "list_all2 typed_cell (map ((!) G) ?gb) (kc ! i)" using T(2) by (simp add: typed_row_def)
        from list_all2_nthD [OF this, of p] show "val_type v = G ! (?gb ! p)" using p i(2) by (simp add: typed_cell_def)
      qed
      show "(\<Sum>i < length (map enc_row kc). if kc ! i ! p = None then 0 else Suc (length (cell_str (kc ! i ! p)))) < 2 ^ 32"
      proof -
        have "?vs ! i ! p = kc ! i ! p" if "i < ?n" for i using that p lk by (simp add: out_row_nth(1))
        then have "(\<Sum>i < ?n. if kc ! i ! p = None then 0 else Suc (length (cell_str (kc ! i ! p)))) =
            (\<Sum>i < ?n. if ?vs ! i ! p = None then 0 else Suc (length (cell_str (?vs ! i ! p))))" by (intro sum.cong) simp_all
        then show ?thesis using cells [of p] p by simp
      qed
    qed
    then have "column (buildGroupByVector g (map enc_row kc) p (G ! (?gb ! p))) ?n (G ! (?gb ! p)) (\<lambda>i. (kc ! i) ! p)" by (simp only: length_map)
    then show ?thesis by (rule column_cong) (use p lk in \<open>simp add: out_row_nth(1)\<close>)
  qed
  have acol: "column (agg_column g (map enc_row kc) j (?aggs ! j) (out_type (?aggs ! j) (agg_type G (?aggs ! j)))) ?n (out_type (?aggs ! j) (agg_type G (?aggs ! j)))
      (\<lambda>i. ?vs ! i ! (?K + j))" if j: "j < length ?aggs" for j
  proof -
    let ?ae = "?aggs ! j" and ?s = "\<lambda>i. slots_of ?aggs (init_group h sets G) (filter (\<lambda>r. gcells ?gb r = kc ! i) rs) ! j"
    have res: "slot_result ?ae (agg_type G ?ae) (?s i) = ?vs ! i ! (?K + j)" if "i < ?n" for i
      using slots_value [OF conf(1) T(1) n(1) j refl] that lk j by (simp add: out_row_nth(2))
    have "column (agg_column g (map enc_row kc) j ?ae (out_type ?ae (agg_type G ?ae))) (length (map enc_row kc)) (out_type ?ae (agg_type G ?ae))
        (\<lambda>i. slot_result ?ae (agg_type G ?ae) (?s i))"
    proof (rule agg_column_ok [OF _ refl])
      show "agg_ok G ?ae" using conf_okD(2) [OF conf(1)] j by simp
      show "\<forall>i < length (map enc_row kc). slot_at g (map enc_row kc) j i = Inr (?s i)"
        using gm j by (auto simp: slot_at_def gm_ok_def subset_iff)
      show "(\<Sum>i < length (map enc_row kc). if nonNull (?s i) = 0 then 0 else Suc (length (strAcc (?s i)))) < 2 ^ 32"
        if "AKind ?ae \<in> {AggMin, AggMax}" "agg_type G ?ae = TypeString"
      proof -
        have "(if nonNull (?s i) = 0 then 0 else Suc (length (strAcc (?s i)))) = (if ?vs ! i ! (?K + j) = None then 0 else Suc (length (cell_str (?vs ! i ! (?K + j)))))"
          if "i < ?n" for i unfolding res [OF that, symmetric]
          using \<open>AKind ?ae \<in> {AggMin, AggMax}\<close> \<open>agg_type G ?ae = TypeString\<close> by (auto simp: slot_result_def raw_val_def cell_str_def)
        then have "(\<Sum>i < ?n. if nonNull (?s i) = 0 then 0 else Suc (length (strAcc (?s i)))) =
            (\<Sum>i < ?n. if ?vs ! i ! (?K + j) = None then 0 else Suc (length (cell_str (?vs ! i ! (?K + j)))))" by (intro sum.cong) simp_all
        then show ?thesis using cells [of "?K + j"] j by simp
      qed
    qed
    then have "column (agg_column g (map enc_row kc) j ?ae (out_type ?ae (agg_type G ?ae))) ?n (out_type ?ae (agg_type G ?ae))
        (\<lambda>i. slot_result ?ae (agg_type G ?ae) (?s i))" by (simp only: length_map)
    then show ?thesis by (rule column_cong) (rule res)
  qed
  let ?P = "\<lambda>c v. wf_vector ?n v \<and> VType v = out_types h G ! c \<and> (\<forall>i < ?n. vget v i = ?vs ! i ! c)"
  have gx: "\<forall>p \<in> set [0..<?K]. \<exists>v. res_bind (idx (aschema h) p) (\<lambda>f. buildGroupByVector g (map enc_row kc) p (Type f)) = Inr v \<and> ?P p v"
    using gcol schema(1,2) by (auto simp: column_def out_types_def nth_append)
  obtain gvecs where gv: "map_res (\<lambda>p. res_bind (idx (aschema h) p) (\<lambda>f. buildGroupByVector g (map enc_row kc) p (Type f))) [0..<?K] = Inr gvecs" "list_all2 ?P [0..<?K] gvecs"
    using map_res_exists [where P = ?P, OF gx] by blast
  have ax: "\<forall>x \<in> set (enumerate 0 ?aggs). \<exists>v. (case x of (j, ae) \<Rightarrow> res_bind (idx (aschema h) (?K + j)) (\<lambda>f. agg_column g (map enc_row kc) j ae (Type f))) = Inr v \<and> ?P (?K + fst x) v"
    using acol schema(1,3) by (auto simp: column_def out_types_def nth_append in_set_enumerate_eq)
  obtain avecs where av: "map_res (\<lambda>(j, ae). res_bind (idx (aschema h) (?K + j)) (\<lambda>f. agg_column g (map enc_row kc) j ae (Type f))) (enumerate 0 ?aggs) = Inr avecs"
    "list_all2 (\<lambda>x. ?P (?K + fst x)) (enumerate 0 ?aggs) avecs"
    using map_res_exists [where P = "\<lambda>x. ?P (?K + fst x)", OF ax] by blast
  have len: "length gvecs = ?K" "length avecs = length ?aggs" using gv(2) av(2) by (auto dest: list_all2_lengthD)
  have each: "?P c ((gvecs @ avecs) ! c)" if "c < ?K + length ?aggs" for c
  proof (cases "c < ?K")
    case True
    then show ?thesis using list_all2_nthD [OF gv(2), of c] len by (simp add: nth_append)
  next
    case False
    then show ?thesis using list_all2_nthD [OF av(2), of "c - ?K"] len that by (simp add: nth_append nth_enumerate_eq)
  qed
  let ?b = "\<lparr>BSchema = aschema h, Vectors = gvecs @ avecs, BLength = ?n, SelVec = None\<rparr>"
  have "buildOutputBatch h g (map enc_row kc) = Inr ?b" using gv(1) av(1) by (simp add: buildOutputBatch_def Let_def)
  moreover have ot: "length (out_types h G) = ?K + length ?aggs" by (simp add: out_types_def)
  have "\<forall>c < length (out_types h G). VType ((gvecs @ avecs) ! c) = out_types h G ! c \<and> wf_vector ?n ((gvecs @ avecs) ! c)" using each ot by auto
  then have "wf_rows (out_types h G) ?b"
    using conf(3) n(2) len ot by (auto simp: wf_rows_def wf_batch_def evalLen_def sel_rows_def [of ?b])
  moreover have "row_at ?b i = ?vs ! i" if "i < ?n" for i
  proof -
    have "length (?vs ! i) = ?K + length ?aggs" using lk that by (simp add: out_row_def)
    moreover have "map (\<lambda>v. vget v i) (gvecs @ avecs) ! c = ?vs ! i ! c" if c: "c < ?K + length ?aggs" for c
      using each [OF c] len c \<open>i < ?n\<close> nth_map [of c "gvecs @ avecs" "\<lambda>v. vget v i"] by (simp del: map_append nth_map)
    ultimately have "map (\<lambda>v. vget v i) (gvecs @ avecs) = ?vs ! i" using len by (intro nth_equalityI) (simp_all del: map_append nth_map)
    then show ?thesis by (simp add: row_at_def)
  qed
  then have "batch_rows ?b = map ((!) ?vs) [0..<?n]" by (simp add: batch_rows_def sel_rows_def [of ?b] del: nth_map)
  then have "batch_rows ?b = ?vs" by (metis length_map map_nth)
  ultimately show ?thesis by blast
qed

section \<open>The operator delivers the groups\<close>

lemma emit_drain:
  assumes conf: "conf_ok G h" "map Type (aschema h) = out_types h G" "groupBy h \<noteq> [] \<or> aggExprs h \<noteq> []"
    and gm: "gm_ok h (init_group h sets G) ks rs g" and T: "\<forall>r \<in> set rs. typed_row G r" "\<forall>k \<in> set ks. typed_row (map ((!) G) (groupBy h)) k"
    and n: "length rs < 2 ^ 63" "sum_list (map row_bytes (map (out_row h G rs) ks)) + length ks < 2 ^ 32"
  shows "\<exists>out. drain (HashAggregate_Next h) \<lparr>achild = EOF, amaps = g, adone = True, outPos = p\<rparr> = Some out \<and> ends_ok out \<and>
    (\<forall>b \<in> set (batches out). wf_rows (out_types h G) b) \<and> all_rows out = drop p (map (out_row h G rs) ks)"
proof (induction "length ks - p" arbitrary: p rule: less_induct)
  case less
  let ?s = "\<lparr>achild = EOF, amaps = g, adone = True, outPos = p\<rparr>" and ?vs = "map (out_row h G rs) ks"
  have gk: "gkeys g = map enc_row ks" using gm by (simp add: gm_ok_def)
  show ?case
  proof (cases "length ks \<le> p")
    case True
    then have "HashAggregate_Next h ?s = Inr (None, ?s)" by (simp add: HashAggregate_Next_def emit_groups_def gk)
    then show ?thesis using True by (simp add: drain_steps(2))
  next
    case False
    let ?stop = "min (p + BlockRows) (length ks)"
    let ?kc = "take (?stop - p) (drop p ks)"
    have sub: "set ?kc \<subseteq> set ks" by (meson in_set_dropD in_set_takeD subsetI)
    have "sum_list (map row_bytes (map (out_row h G rs) ?kc)) \<le> sum_list (map row_bytes ?vs)"
      using sum_list_window [of row_bytes "?stop - p" p ?vs] by (simp add: take_map drop_map)
    then have size: "sum_list (map row_bytes (map (out_row h G rs) ?kc)) + length ?kc < 2 ^ 32" using n(2) by simp
    have "length ?kc \<le> 2 ^ 16" by (simp add: BlockRows_def)
    then obtain b where b: "buildOutputBatch h g (map enc_row ?kc) = Inr b" "wf_rows (out_types h G) b" "batch_rows b = map (out_row h G rs) ?kc"
      using buildOutputBatch_ok [OF conf gm sub T(1) _ n(1) _ size] T(2) sub by blast
    have "HashAggregate_Next h ?s = Inr (Some b, ?s\<lparr>outPos := ?stop\<rparr>)"
      using False b(1) by (simp add: HashAggregate_Next_def emit_groups_def gk Let_def take_map drop_map)
    then have step: "drain (HashAggregate_Next h) ?s = map_option (Deliver b) (drain (HashAggregate_Next h) (?s\<lparr>outPos := ?stop\<rparr>))"
      by (rule drain_steps(3))
    have "length ks - ?stop < length ks - p" using False by (simp add: BlockRows_def)
    then obtain out where "drain (HashAggregate_Next h) (?s\<lparr>outPos := ?stop\<rparr>) = Some out" "ends_ok out"
      "\<forall>b \<in> set (batches out). wf_rows (out_types h G) b" "all_rows out = drop ?stop ?vs" using less by auto
    moreover have "map (out_row h G rs) ?kc @ drop ?stop ?vs = drop p ?vs"
      using False by (simp add: min_def take_map drop_map) (metis append_take_drop_id drop_drop add.commute drop_map map_append)
    ultimately show ?thesis using step b by (intro exI [of _ "Deliver b out"]) simp
  qed
qed

text \<open>The rows that SQL defines: one per group, or exactly one without GROUP BY.\<close>

definition agg_rows :: "agg_conf \<Rightarrow> DataType list \<Rightarrow> val option list list \<Rightarrow> val option list list" where
  "agg_rows h G rs = map (out_row h G rs) (if groupBy h = [] then [[]] else firsts {} (map (gcells (groupBy h)) rs))"

text \<open>The rows SQL prescribes, and the condition under which the seeds of MIN and MAX do not show in them.\<close>

definition sql_row :: "agg_conf \<Rightarrow> DataType list \<Rightarrow> val option list list \<Rightarrow> val option list \<Rightarrow> val option list" where
  "sql_row h G rs k = k @ map (\<lambda>ae. sql_value ae (agg_type G ae) (map (agg_arg ae) (filter (\<lambda>r. gcells (groupBy h) r = k) rs))) (aggExprs h)"

definition sql_rows :: "agg_conf \<Rightarrow> DataType list \<Rightarrow> val option list list \<Rightarrow> val option list list" where
  "sql_rows h G rs = map (sql_row h G rs) (if groupBy h = [] then [[]] else firsts {} (map (gcells (groupBy h)) rs))"

definition minmax_safe :: "agg_conf \<Rightarrow> val option list list \<Rightarrow> bool" where
  "minmax_safe h rs \<longleftrightarrow> (\<forall>ae \<in> set (aggExprs h). AKind ae = AggMin \<or> AKind ae = AggMax \<longrightarrow> (\<forall>r \<in> set rs. \<forall>y. agg_arg ae r = Some y \<longrightarrow> seed_safe (AKind ae) y))"

lemma agg_rows_sql:
  assumes "conf_ok G h" "\<forall>r \<in> set rs. typed_row G r" "minmax_safe h rs"
  shows "agg_rows h G rs = sql_rows h G rs"
proof -
  have "group_value h G rs k ae = sql_value ae (agg_type G ae) (map (agg_arg ae) (filter (\<lambda>r. gcells (groupBy h) r = k) rs))" if ae: "ae \<in> set (aggExprs h)" for k ae
    unfolding group_value_def
  proof (rule agg_value_sql)
    let ?rs = "filter (\<lambda>r. gcells (groupBy h) r = k) rs"
    show "\<forall>y \<in> set (present (map (agg_arg ae) ?rs)). val_type y = agg_type G ae" using assms(2) conf_okD(2) [OF assms(1)] ae by (intro agg_arg_typed) auto
    show "\<forall>y \<in> set (present (map (agg_arg ae) ?rs)). seed_safe (AKind ae) y" if "AKind ae = AggMin \<or> AKind ae = AggMax"
    proof
      fix y assume "y \<in> set (present (map (agg_arg ae) ?rs))"
      then obtain r where "r \<in> set rs" "agg_arg ae r = Some y" by (auto simp: set_present)
      then show "seed_safe (AKind ae) y" using assms(3) ae that unfolding minmax_safe_def by blast
    qed
  qed
  then have "out_row h G rs k = sql_row h G rs k" for k by (simp add: out_row_def sql_row_def)
  then show ?thesis by (simp add: agg_rows_def sql_rows_def)
qed

text \<open>A child that fails after some batches.\<close>

fun fail_after :: "Batch list \<Rightarrow> exec_error go_err \<Rightarrow> stream" where
  "fail_after [] e = Failed e"
| "fail_after (b # bs) e = Deliver b (fail_after bs e)"

lemma consumeAll_fails:
  assumes "consumeAll h (stream_of bs) = Inr g"
  shows "consumeAll h (fail_after bs e) = Inl e"
proof -
  have "accumulate_all h st (fail_after bs e) = Inl e" if "accumulate_all h st (stream_of bs) = Inr st'" for st st'
    using that by (induction bs arbitrary: st) (auto simp: res_bind_eq_Inr)
  then show ?thesis using assms by (auto simp: consumeAll_def res_bind_eq_Inr)
qed

lemma empty_global:
  assumes conf: "conf_ok G h" "map Type (aschema h) = out_types h G" "groupBy h = []" "aggExprs h \<noteq> []"
  shows "\<exists>b. buildEmptyGlobalResult h = Inr b \<and> wf_rows (out_types h G) b \<and> batch_rows b = [out_row h G [] []]"
proof -
  let ?aggs = "aggExprs h"
  have len: "length (aschema h) = length ?aggs" using arg_cong [OF conf(2), of length] conf(3) by (simp add: out_types_def)
  have ty: "Type (aschema h ! j) = out_type (?aggs ! j) (agg_type G (?aggs ! j))" if "j < length ?aggs" for j
    using arg_cong [OF conf(2), of "\<lambda>ts. ts ! j"] conf(3) that len by (simp add: out_types_def)
  let ?v = "\<lambda>j. empty_column (?aggs ! j) (Type (aschema h ! j))"
  have "map_res (\<lambda>(j, ae). res_map (\<lambda>f. empty_column ae (Type f)) (idx (aschema h) j)) (enumerate 0 ?aggs) =
      (Inr (map (\<lambda>(j, ae). empty_column ae (Type (aschema h ! j))) (enumerate 0 ?aggs)) :: vector list xres)"
    using len by (intro map_res_ok) (auto simp: in_set_enumerate_eq)
  moreover have "map (\<lambda>(j, ae). empty_column ae (Type (aschema h ! j))) (enumerate 0 ?aggs) = map ?v [0..<length ?aggs]"
    by (simp add: enumerate_map)
  ultimately have b: "buildEmptyGlobalResult h = Inr \<lparr>BSchema = aschema h, Vectors = map ?v [0..<length ?aggs], BLength = 1, SelVec = None\<rparr>" (is "_ = Inr ?b")
    by (simp add: buildEmptyGlobalResult_def)
  have col: "wf_vector 1 (?v j) \<and> VType (?v j) = out_type (?aggs ! j) (agg_type G (?aggs ! j)) \<and> vget (?v j) 0 = group_value h G [] [] (?aggs ! j)" if j: "j < length ?aggs" for j
  proof -
    let ?ae = "?aggs ! j"
    have ok: "agg_ok G ?ae" using conf_okD(2) [OF conf(1)] j by simp
    have "valid_at [0] 0 = False" by (simp add: valid_at_def)
    moreover have "AKind ?ae = AggSum \<Longrightarrow> AccumType ?ae = Some (agg_type G ?ae) \<and> (agg_type G ?ae = TypeInt64 \<or> agg_type G ?ae = TypeFloat64)"
      using ok by (auto simp: agg_ok_def agg_type_def AccumTypeFor_def split: if_splits)
    ultimately show ?thesis unfolding ty [OF j]
      by (cases "AKind ?ae"; cases "agg_type G ?ae")
        (auto simp: empty_column_def nullVectorOfType_def out_type_def group_value_def agg_value_def)
  qed
  have sel: "sel_rows ?b = [0]" by (simp add: sel_rows_def)
  have "wf_batch (out_types h G) ?b" using col conf(3) by (simp add: wf_batch_def evalLen_def out_types_def)
  then have "wf_rows (out_types h G) ?b" unfolding wf_rows_def sel using conf(3,4) by (simp add: evalLen_def out_types_def)
  moreover have "batch_rows ?b = [out_row h G [] []]"
    unfolding batch_rows_def sel using col by (auto simp: row_at_def out_row_def intro!: nth_equalityI)
  ultimately show ?thesis using b by blast
qed

lemma HashAggregate_start_step:
  assumes "consumeAll h child = Inr g" "gkeys g \<noteq> [] \<or> groupBy h \<noteq> []"
  shows "drain (HashAggregate_Next h) (HashAggregate_start child) = drain (HashAggregate_Next h) \<lparr>achild = EOF, amaps = g, adone = True, outPos = 0\<rparr>"
  by (rule drain_same) (use assms in \<open>auto simp: HashAggregate_Next_def HashAggregate_start_def\<close>)

lemma agg_rows_groups:
  assumes "gm_ok h s0 ks rs g" "set ks = gcells (groupBy h) ` set rs" "groupBy h \<noteq> []"
  shows "mset (map (out_row h G rs) ks) = mset (agg_rows h G rs)"
proof -
  have "distinct ks" using assms(1) by (simp add: gm_ok_def)
  moreover have "set (firsts {} (map (gcells (groupBy h)) rs)) = set ks" using assms(2) by (simp add: set_firsts)
  ultimately have "mset ks = mset (firsts {} (map (gcells (groupBy h)) rs))"
    using distinct_firsts [of "{}" "map (gcells (groupBy h)) rs"] by (metis set_eq_iff_mset_eq_distinct)
  then show ?thesis using assms(3) by (simp add: agg_rows_def)
qed

lemma HashAggregate_drain:
  assumes conf: "conf_ok G h" "map Type (aschema h) = out_types h G" "groupBy h \<noteq> [] \<or> aggExprs h \<noteq> []"
    and wf: "\<forall>b \<in> set bs. wf_rows G b \<and> dicts_present (groupBy h) b" and rs: "rs = concat (map batch_rows bs)"
    and T: "\<forall>r \<in> set rs. typed_row G r"
    and n: "length rs < 2 ^ 63" "sum_list (map row_bytes (agg_rows h G rs)) + length (agg_rows h G rs) < 2 ^ 32"
  shows "\<exists>out. drain (HashAggregate_Next h) (HashAggregate_start (stream_of bs)) = Some out \<and> ends_ok out \<and>
    (\<forall>b \<in> set (batches out). wf_rows (out_types h G) b) \<and> mset (all_rows out) = mset (agg_rows h G rs)"
proof (cases "groupBy h = []")
  case False
  obtain g ks where g: "consumeAll h (stream_of bs) = Inr g" "gm_ok h (init_group h True G) ks rs g" "set ks = gcells (groupBy h) ` set rs"
    using consumeAll_grouped [OF conf(1) False wf] T rs by blast
  have perm: "mset (map (out_row h G rs) ks) = mset (agg_rows h G rs)" by (rule agg_rows_groups [OF g(2,3) False])
  then have "sum_list (map row_bytes (map (out_row h G rs) ks)) = sum_list (map row_bytes (agg_rows h G rs))" "length (map (out_row h G rs) ks) = length (agg_rows h G rs)"
    by (metis mset_map sum_mset_sum_list, metis size_mset)
  then have size: "sum_list (map row_bytes (map (out_row h G rs) ks)) + length ks < 2 ^ 32" using n(2) by simp
  have "\<forall>k \<in> set ks. typed_row (map ((!) G) (groupBy h)) k" using g(3) T typed_gcells [OF _ conf_okD(1) [OF conf(1)]] by auto
  then show ?thesis using emit_drain [OF conf g(2) T _ n(1) size, of 0] HashAggregate_start_step [OF g(1)] False perm by auto
next
  case True
  then have ne: "aggExprs h \<noteq> []" using conf(3) by simp
  obtain g where g: "consumeAll h (stream_of bs) = Inr g" "gm_ok h (init_group h False G) (if bs = [] then [] else [[]]) rs g"
    using consumeAll_global [OF conf(1) True] wf rs by blast
  have ar: "agg_rows h G rs = [out_row h G rs []]" using True by (simp add: agg_rows_def)
  show ?thesis
  proof (cases "bs = []")
    case bs: True
    then have r: "rs = []" "gkeys g = []" using g(2) rs by (simp_all add: gm_ok_def)
    obtain b where b: "buildEmptyGlobalResult h = Inr b" "wf_rows (out_types h G) b" "batch_rows b = [out_row h G [] []]"
      using empty_global [OF conf(1,2) True ne] by blast
    let ?s = "\<lparr>achild = EOF, amaps = g, adone = True, outPos = 1\<rparr>"
    have "HashAggregate_Next h (HashAggregate_start (stream_of bs)) = Inr (Some b, ?s)"
      using g(1) r(2) True b(1) by (simp add: HashAggregate_Next_def HashAggregate_start_def)
    moreover have "HashAggregate_Next h ?s = Inr (None, ?s)" using r(2) by (simp add: HashAggregate_Next_def emit_groups_def)
    ultimately show ?thesis using b(2,3) ar r(1) by (simp add: drain_steps)
  next
    case bs: False
    then have gm: "gm_ok h (init_group h False G) [[]] rs g" using g(2) by simp
    have "gkeys g \<noteq> []" using gm by (simp add: gm_ok_def)
    moreover have "\<forall>k \<in> set [[]]. typed_row (map ((!) G) (groupBy h)) k" using True by (simp add: typed_row_def)
    moreover have "sum_list (map row_bytes (map (out_row h G rs) [[]])) + length [[] :: val option list] < 2 ^ 32" using n(2) ar by simp
    ultimately show ?thesis using emit_drain [OF conf gm T _ n(1), of 0] HashAggregate_start_step [OF g(1)] ar by auto
  qed
qed

lemma HashAggregate_fails:
  assumes conf: "conf_ok G h" and wf: "\<forall>b \<in> set bs. wf_rows G b \<and> dicts_present (groupBy h) b" and T: "\<forall>r \<in> set (concat (map batch_rows bs)). typed_row G r"
  shows "drain (HashAggregate_Next h) (HashAggregate_start (fail_after bs e)) = Some (Failed e)"
proof -
  have "\<exists>g. consumeAll h (stream_of bs) = Inr g"
  proof (cases "groupBy h = []")
    case True
    then show ?thesis using consumeAll_global [OF conf True, of bs] wf by blast
  next
    case False
    then show ?thesis using consumeAll_grouped [OF conf False wf T] by blast
  qed
  then show ?thesis using consumeAll_fails by (auto simp: HashAggregate_Next_def HashAggregate_start_def intro!: drain_steps(1))
qed

section \<open>GROUP BY\<close>

text \<open>
  C4: GROUP BY and the aggregate functions. Over any batches of rows of the input's types, an aggregation that the constructor accepts reaches the end
  without an error and delivers, up to order, exactly one row per distinct combination of the group-by cells (one row in all without GROUP BY, even
  over no input): the cells followed by the SQL value of every aggregate over exactly the rows of the group, whichever of the
  three accumulation paths the batches take. COUNT counts rows or non-NULL cells, COUNT(DISTINCT) distinct non-NULL cells, SUM, MIN, MAX and AVG
  are NULL over no values, AVG divides by the non-NULL count, integer sums wrap, floats are added in input order. A MIN over floats is assumed to meet neither NaN nor \<open>+Inf\<close>, a MAX neither NaN nor
  \<open>-Inf\<close>: there the accumulators' seed shows. Strings grouped by have to carry a
  dictionary, and the strings of the result have to fit one dictionary. If the child fails after those batches, the aggregation returns that error.
\<close>

theorem HashAggregate_groups:
  assumes h: "NewHashAggregate schema gb aggs = Inr h"
    and aggs: "\<forall>ae \<in> set aggs. AccumType ae = None \<and> (AColIdx ae < 0 \<longrightarrow> AKind ae = AggCount)"
    and wf: "\<forall>b \<in> set bs. wf_rows (map Type schema) b \<and> dicts_present (groupBy h) b"
    and rs: "rs = concat (map batch_rows bs)" and T: "\<forall>r \<in> set rs. typed_row (map Type schema) r" and safe: "minmax_safe h rs"
    and n: "length rs < 2 ^ 63" "sum_list (map row_bytes (sql_rows h (map Type schema) rs)) + length (sql_rows h (map Type schema) rs) < 2 ^ 32"
  shows "(\<exists>out. drain (HashAggregate_Next h) (HashAggregate_start (stream_of bs)) = Some out \<and> ends_ok out \<and>
      (\<forall>b \<in> set (batches out). wf_rows (map Type (aschema h)) b) \<and> mset (all_rows out) = mset (sql_rows h (map Type schema) rs)) \<and>
    drain (HashAggregate_Next h) (HashAggregate_start (fail_after bs e)) = Some (Failed e)"
proof -
  note c = NewHashAggregate_conf [OF h aggs]
  have types: "map Type (aschema h) = out_types h (map Type schema)" using c(3) by (simp add: out_types_def)
  have same: "agg_rows h (map Type schema) rs = sql_rows h (map Type schema) rs" by (rule agg_rows_sql [OF c(1) T safe])
  show ?thesis using HashAggregate_drain [OF c(1) types c(2) wf rs T n [folded same]] HashAggregate_fails [OF c(1) wf T [unfolded rs], of e] types unfolding same by simp
qed

definition ex_agg :: AggExpr where
  "ex_agg = \<lparr>AKind = AggCount, AColIdx = -1, OutName = ''n'', ADistinct = False, AccumType = None\<rparr>"

definition ex_agg_schema :: Schema where
  "ex_agg_schema = [\<lparr>Name = ''k'', Type = TypeInt64, FEncoding = EncPlain, Nullable = True\<rparr>]"

theorem HashAggregate_groups_witness:
  "\<exists>h out. NewHashAggregate ex_agg_schema [0] [ex_agg] = Inr h \<and> drain (HashAggregate_Next h) (HashAggregate_start (stream_of [ex_ints])) = Some out \<and>
    mset (all_rows out) = {#[Some (VInt 5), Some (VInt 2)], [Some (VInt 7), Some (VInt 1)]#} \<and>
    drain (HashAggregate_Next h) (HashAggregate_start (fail_after [ex_ints] Panic)) = Some (Failed Panic)"
proof -
  obtain h where h: "NewHashAggregate ex_agg_schema [0] [ex_agg] = Inr h" "groupBy h = [0]" "aggExprs h = [ex_agg\<lparr>AccumType := Some TypeInt64\<rparr>]"
    by (simp add: NewHashAggregate_def resolve_agg_def ex_agg_def ex_agg_schema_def AccumTypeFor_def Let_def)
  let ?rs = "concat (map batch_rows [ex_ints])" and ?G = "map Type ex_agg_schema"
  have rows: "sql_rows h ?G ?rs = [[Some (VInt 5), Some (VInt 2)], [Some (VInt 7), Some (VInt 1)]]"
    by (simp add: sql_rows_def sql_row_def sql_value_def h gcells_def ex_ints_rows ex_agg_def)
  have d: "dicts_present (groupBy h) ex_ints" by (simp add: dicts_present_def h ex_ints_def)
  have wf: "wf_rows ?G ex_ints" using ex_ints_wf by (simp add: ex_agg_schema_def)
  have T: "\<forall>r \<in> set ?rs. typed_row ?G r" by (simp add: ex_ints_rows typed_row_def typed_cell_def ex_agg_schema_def)
  have safe: "minmax_safe h ?rs" by (simp add: minmax_safe_def h ex_agg_def)
  have "(\<exists>out. drain (HashAggregate_Next h) (HashAggregate_start (stream_of [ex_ints])) = Some out \<and> ends_ok out \<and>
      (\<forall>b \<in> set (batches out). wf_rows (map Type (aschema h)) b) \<and> mset (all_rows out) = mset (sql_rows h ?G ?rs)) \<and>
    drain (HashAggregate_Next h) (HashAggregate_start (fail_after [ex_ints] Panic)) = Some (Failed Panic)"
  proof (rule HashAggregate_groups [OF h(1) _ _ refl T safe])
    show "\<forall>ae \<in> set [ex_agg]. AccumType ae = None \<and> (AColIdx ae < 0 \<longrightarrow> AKind ae = AggCount)" by (simp add: ex_agg_def)
    show "\<forall>b \<in> set [ex_ints]. wf_rows ?G b \<and> dicts_present (groupBy h) b" using wf d by simp
    show "length ?rs < 2 ^ 63" by (simp add: ex_ints_rows)
    show "sum_list (map row_bytes (sql_rows h ?G ?rs)) + length (sql_rows h ?G ?rs) < 2 ^ 32" unfolding rows by (simp add: row_bytes_def)
  qed
  then show ?thesis unfolding rows using h(1) by auto
qed

text \<open>
  C7: The integer-key fast path of GROUP BY over dictionary-encoded strings, its fallback to string keys when a global dictionary outgrows its bits, and the
  string-key detour of rows with NULL keys compute what the row loop with string keys computes: the same group keys and, under each key,
  the same accumulators, non-NULL counts and sample values. The batches may have different dictionaries.
\<close>

theorem fast_path_equivalent:
  assumes conf: "conf_ok G h" "groupBy h \<noteq> []" and wf: "\<forall>b \<in> set bs. wf_rows G b \<and> dicts_present (groupBy h) b"
    and T: "\<forall>r \<in> set (concat (map batch_rows bs)). typed_row G r"
  shows "\<exists>g g'. consumeAll h (stream_of bs) = Inr g \<and>
    fold_res (\<lambda>g b. res_bind (agg_vecs h b) (\<lambda>vecs. string_rows h b vecs g)) initMaps bs = Inr g' \<and>
    mset (gkeys g) = mset (gkeys g') \<and> groups g = groups g' \<and> (\<forall>k \<in> set (gkeys g). samples g k = samples g' k)"
proof -
  let ?s0 = "init_group h True G" and ?gc = "gcells (groupBy h)" and ?f = "\<lambda>g b. res_bind (agg_vecs h b) (\<lambda>vecs. string_rows h b vecs g)"
  note c = conf_okD [OF conf(1)]
  have "\<exists>g' ks'. fold_res ?f initMaps bs = Inr g' \<and> gm_ok h ?s0 ks' (concat (map batch_rows bs)) g' \<and> set ks' = ?gc ` set (concat (map batch_rows bs))"
    using wf T
  proof (induction bs rule: rev_induct)
    case Nil
    then show ?case using gm_ok_init by auto
  next
    case (snoc b bs)
    then obtain g1 ks1 where 1: "fold_res ?f initMaps bs = Inr g1" "gm_ok h ?s0 ks1 (concat (map batch_rows bs)) g1" "set ks1 = ?gc ` set (concat (map batch_rows bs))" by auto
    have b: "wf_rows G b" "wf_batch G b" "\<forall>r \<in> set (batch_rows b). typed_row G r" using snoc.prems by (auto simp: wf_rows_def)
    have "\<forall>k \<in> set ks1. typed_row (map ((!) G) (groupBy h)) k" using 1(3) snoc.prems(2) typed_gcells [OF _ c(1)] by auto
    then obtain g2 where g2: "string_rows h b (map (agg_vec b) (aggExprs h)) g1 = Inr g2"
      "gm_ok h ?s0 (group_keys ks1 (map ?gc (batch_rows b))) (concat (map batch_rows bs) @ batch_rows b) g2"
      using string_rows_ok [OF conf(1) 1(2) b(1,3)] by blast
    have "set (group_keys ks1 (map ?gc (batch_rows b))) = ?gc ` set (concat (map batch_rows (bs @ [b])))" using 1(3) by (simp add: image_Un)
    moreover have "fold_res ?f initMaps (bs @ [b]) = Inr g2" using 1(1) g2(1) agg_vecs_ok [OF b(2) c(2)] by (simp add: fold_res_append)
    moreover have "gm_ok h ?s0 (group_keys ks1 (map ?gc (batch_rows b))) (concat (map batch_rows (bs @ [b]))) g2" using g2(2) by simp
    ultimately show ?case by blast
  qed
  then obtain g' ks' where g': "fold_res ?f initMaps bs = Inr g'" "gm_ok h ?s0 ks' (concat (map batch_rows bs)) g'" "set ks' = ?gc ` set (concat (map batch_rows bs))" by blast
  obtain g ks where g: "consumeAll h (stream_of bs) = Inr g" "gm_ok h ?s0 ks (concat (map batch_rows bs)) g" "set ks = ?gc ` set (concat (map batch_rows bs))"
    using consumeAll_grouped [OF conf wf T] by blast
  have same: "set ks' = set ks" using g(3) g'(3) by simp
  have "mset ks = mset ks'" using g(2) g'(2) same by (simp add: gm_ok_def set_eq_iff_mset_eq_distinct)
  moreover have "groups g key = groups g' key" for key
    using g(2) g'(2) same by (cases "key \<in> enc_row ` set ks") (auto simp: gm_ok_def)
  moreover have "samples g key = samples g' key" if key: "key \<in> set (gkeys g)" for key
  proof -
    obtain k where k: "k \<in> set ks" "key = enc_row k" using key g(2) by (auto simp: gm_ok_def)
    then have "k \<noteq> []" using g(3) conf(2) by (auto simp: gcells_def)
    then show ?thesis using k g(2) g'(2) same by (simp add: gm_ok_def)
  qed
  ultimately show ?thesis using g(1,2) g'(1,2) by (intro exI [of _ g] exI [of _ g']) (auto simp: gm_ok_def)
qed

definition ex_words :: Batch where
  "ex_words = \<lparr>BSchema = [], Vectors = [StringVector [0, 1, 0] (Some (dict_of_keys [''a'', ''b''])) [0x07]], BLength = 3, SelVec = None\<rparr>"

definition ex_words_conf :: agg_conf where
  "ex_words_conf = \<lparr>groupBy = [0], aggExprs = [ex_agg\<lparr>AccumType := Some TypeInt64\<rparr>], aschema = [], hasDistinct = False\<rparr>"

lemma ex_words_dict: "dict_wf (dict_of_keys [''a'', ''b''])" "dict_strings (dict_of_keys [''a'', ''b'']) = [''a'', ''b'']"
  using dict_of_keys_ok [of "[''a'', ''b'']"] by (simp_all add: dict_bounded_def)

lemma ex_words_wf: "wf_rows [TypeString] ex_words"
proof -
  have "length (Offsets (dict_of_keys [''a'', ''b''])) = 2" by (simp add: dict_of_keys_def)
  moreover have "unat ([0, 1, 0 :: u32] ! i) < Suc (Suc 0)" if "i < 3" for i using that by (cases i; cases "i - 1") auto
  ultimately show ?thesis using ex_words_dict by (auto simp: wf_rows_def wf_batch_def ex_words_def evalLen_def sel_rows_def)
qed

lemma ex_words_rows: "batch_rows ex_words = [[Some (VString ''a'')], [Some (VString ''b'')], [Some (VString ''a'')]]"
  by (simp add: batch_rows_def sel_rows_def ex_words_def row_at_def upt_conv_Cons ex_ints_valid ex_words_dict)

theorem fast_path_equivalent_witness:
  "canUseIntKey ex_words [0] = Inr True \<and> (\<exists>g g'. consumeAll ex_words_conf (stream_of [ex_words]) = Inr g \<and>
    fold_res (\<lambda>g b. res_bind (agg_vecs ex_words_conf b) (\<lambda>vecs. string_rows ex_words_conf b vecs g)) initMaps [ex_words] = Inr g' \<and>
    mset (gkeys g) = mset (gkeys g') \<and> groups g = groups g')"
proof -
  have conf: "conf_ok [TypeString] ex_words_conf" by (simp add: conf_ok_def ex_words_conf_def agg_ok_def ex_agg_def)
  have "dicts_present (groupBy ex_words_conf) ex_words" by (simp add: dicts_present_def ex_words_conf_def ex_words_def has_dict_def)
  then have wf: "\<forall>b \<in> set [ex_words]. wf_rows [TypeString] b \<and> dicts_present (groupBy ex_words_conf) b" using ex_words_wf by simp
  have T: "\<forall>r \<in> set (concat (map batch_rows [ex_words])). typed_row [TypeString] r" by (simp add: ex_words_rows typed_row_def typed_cell_def)
  have "groupBy ex_words_conf \<noteq> []" by (simp add: ex_words_conf_def)
  then show ?thesis using fast_path_equivalent [OF conf _ wf T] by (auto simp: canUseIntKey_def ex_words_def)
qed

text \<open>
  C38: Aggregation without GROUP BY runs one loop per aggregate over the whole batch: COUNT(*) is one addition, COUNT, COUNT(DISTINCT), integer SUM, MIN and MAX update the accumulator at every row that is not NULL,
  AVG and the float aggregates run in a local variable that is stored after the loop, and string MIN and MAX keep a string. On
  the one group each of these loops computes exactly what folding the rows one at a time through the switch of the row loop computes, panics included, for all vectors of the kinds the
  accumulators are declared for.
\<close>

theorem accumulateDirect_rowwise:
  assumes "groups g [] = Some ss" "\<forall>(ae, v) \<in> set (zip (aggExprs h) vecs). agg_reads ae v"
  shows "accumulateDirect h is vecs g = res_map (\<lambda>ss. g\<lparr>groups := (groups g)([] \<mapsto> ss)\<rparr>)
    (map_res (\<lambda>((ae, v), s). fold_res (\<lambda>s i. accum_slot (hasDistinct h) ae v i s) s is) (zip (zip (aggExprs h) vecs) ss))"
proof -
  have "map_res (\<lambda>((ae, v), s). direct_slot (hasDistinct h) ae v is s) (zip (zip (aggExprs h) vecs) ss) =
      map_res (\<lambda>((ae, v), s). fold_res (\<lambda>s i. accum_slot (hasDistinct h) ae v i s) s is) (zip (zip (aggExprs h) vecs) ss)"
  proof (rule map_res_cong [OF refl])
    fix x assume "x \<in> set (zip (zip (aggExprs h) vecs) ss)"
    then obtain ae v s where x: "x = ((ae, v), s)" "(ae, v) \<in> set (zip (aggExprs h) vecs)" by (metis prod.exhaust set_zip_leftD)
    then have "agg_reads ae v" using assms(2) by auto
    then show "(\<lambda>((ae, v), s). direct_slot (hasDistinct h) ae v is s) x = (\<lambda>((ae, v), s). fold_res (\<lambda>s i. accum_slot (hasDistinct h) ae v i s) s is) x"
      by (simp add: x direct_slot_rows)
  qed
  then show ?thesis using assms(1) by (simp add: accumulateDirect_def)
qed

theorem accumulateDirect_rowwise_witness:
  "accumulateDirect ex_words_conf [0, 1] [None] (initMaps\<lparr>groups := [[] \<mapsto> [new_slot ex_agg]], gkeys := [[]]\<rparr>) =
    Inr (initMaps\<lparr>gkeys := [[]], groups := [[] \<mapsto> [\<lparr>acc = 2, nonNull = 2, strAcc = [], dInts = None, dStrs = None\<rparr>]]\<rparr>)"
  using accumulateDirect_rowwise [of "initMaps\<lparr>groups := [[] \<mapsto> [new_slot ex_agg]], gkeys := [[]]\<rparr>" "[new_slot ex_agg]" ex_words_conf "[None]" "[0, 1]"]
  by (simp add: ex_words_conf_def agg_reads_def ex_agg_def accum_slot_def bump_def new_slot_def)

lemma group_minmax:
  assumes "AKind ae = k" "k = AggMin \<or> k = AggMax"
  shows "(group_value h G rs key ae = None \<longleftrightarrow> (\<forall>r \<in> set rs. gcells (groupBy h) r = key \<longrightarrow> agg_arg ae r = None)) \<and>
    (\<forall>v. group_value h G rs key ae = Some v \<longrightarrow>
      (\<forall>r \<in> set rs. gcells (groupBy h) r = key \<longrightarrow> (\<forall>y. agg_arg ae r = Some y \<longrightarrow> \<not> better k y v)) \<and>
      ((\<exists>r \<in> set rs. gcells (groupBy h) r = key \<and> agg_arg ae r = Some v) \<or> agg_type G ae = TypeFloat64 \<and> v = VFloat (if k = AggMin then f_max else f_min)))"
proof -
  let ?cells = "map (agg_arg ae) (filter (\<lambda>r. gcells (groupBy h) r = key) rs)"
  have "group_value h G rs key ae = None \<longleftrightarrow> present ?cells = []" using assms by (auto simp: group_value_def agg_value_def Let_def)
  also have "present ?cells = [] \<longleftrightarrow> (\<forall>r \<in> set rs. gcells (groupBy h) r = key \<longrightarrow> agg_arg ae r = None)"
    by (auto simp: present_def filter_empty_conv)
  finally have none: "group_value h G rs key ae = None \<longleftrightarrow> (\<forall>r \<in> set rs. gcells (groupBy h) r = key \<longrightarrow> agg_arg ae r = None)" .
  have cell: "Some y \<in> set ?cells \<longleftrightarrow> (\<exists>r \<in> set rs. gcells (groupBy h) r = key \<and> agg_arg ae r = Some y)" for y by force
  show ?thesis using none agg_value_minmax [OF assms, of "agg_type G ae" ?cells] unfolding group_value_def cell by blast
qed

text \<open>
  C39: MIN and MAX as the operator delivers them, whatever the floats. In every row of the drained aggregation, the cell of a MIN (MAX) is NULL exactly when the group named by the row's group-by cells
  has no non-NULL input; otherwise no input of the group is smaller (larger), and it is one of the inputs, except that over floats it can be the largest finite float (the smallest, for
  MAX) that the accumulator starts from.
\<close>

theorem minmax_extremal:
  assumes h: "NewHashAggregate schema gb aggs = Inr h"
    and aggs: "\<forall>ae \<in> set aggs. AccumType ae = None \<and> (AColIdx ae < 0 \<longrightarrow> AKind ae = AggCount)"
    and wf: "\<forall>b \<in> set bs. wf_rows (map Type schema) b \<and> dicts_present (groupBy h) b"
    and rs: "rs = concat (map batch_rows bs)" and T: "\<forall>r \<in> set rs. typed_row (map Type schema) r"
    and n: "length rs < 2 ^ 63" "sum_list (map row_bytes (agg_rows h (map Type schema) rs)) + length (agg_rows h (map Type schema) rs) < 2 ^ 32"
    and out: "drain (HashAggregate_Next h) (HashAggregate_start (stream_of bs)) = Some out" "row \<in> set (all_rows out)" "key = take (length (groupBy h)) row"
    and j: "j < length (aggExprs h)" "ae = aggExprs h ! j" "AKind ae = k" "k = AggMin \<or> k = AggMax" and x: "x = row ! (length (groupBy h) + j)"
  shows "(x = None \<longleftrightarrow> (\<forall>r \<in> set rs. gcells (groupBy h) r = key \<longrightarrow> agg_arg ae r = None)) \<and>
    (\<forall>v. x = Some v \<longrightarrow> (\<forall>r \<in> set rs. gcells (groupBy h) r = key \<longrightarrow> (\<forall>y. agg_arg ae r = Some y \<longrightarrow> \<not> better k y v)) \<and>
      ((\<exists>r \<in> set rs. gcells (groupBy h) r = key \<and> agg_arg ae r = Some v) \<or>
       agg_type (map Type schema) ae = TypeFloat64 \<and> v = VFloat (if k = AggMin then f_max else f_min)))"
proof -
  let ?G = "map Type schema"
  note c = NewHashAggregate_conf [OF h aggs]
  have types: "map Type (aschema h) = out_types h ?G" using c(3) by (simp add: out_types_def)
  have "set (all_rows out) = set (agg_rows h ?G rs)" using HashAggregate_drain [OF c(1) types c(2) wf rs T n] out(1) by (metis mset_eq_setD option.inject)
  then obtain k' where k': "row = out_row h ?G rs k'" "length k' = length (groupBy h)"
    using out(2) by (auto simp: agg_rows_def set_firsts gcells_def split: if_splits)
  then have "key = k'" "x = group_value h ?G rs k' ae" using out(3) x j(1,2) by (simp_all add: out_row_nth(2)) (simp add: out_row_def)
  then show ?thesis using group_minmax [OF j(3,4), of h ?G rs key] by simp
qed

theorem minmax_extremal_witness:
  "\<exists>h out x. NewHashAggregate ex_agg_schema [] [ex_agg\<lparr>AKind := AggMin, AColIdx := 0\<rparr>] = Inr h \<and> drain (HashAggregate_Next h) (HashAggregate_start (stream_of [ex_ints])) = Some out \<and>
    [x] \<in> set (all_rows out) \<and> x = Some (VInt 5)"
proof -
  let ?ae = "ex_agg\<lparr>AKind := AggMin, AColIdx := 0\<rparr>" and ?rs = "concat (map batch_rows [ex_ints])" and ?G = "map Type ex_agg_schema"
  obtain h where h: "NewHashAggregate ex_agg_schema [] [?ae] = Inr h" "groupBy h = []" "aggExprs h = [?ae\<lparr>AccumType := Some TypeInt64\<rparr>]"
    by (simp add: NewHashAggregate_def resolve_agg_def ex_agg_def ex_agg_schema_def AccumTypeFor_def Let_def)
  have aggs: "\<forall>ae \<in> set [?ae]. AccumType ae = None \<and> (AColIdx ae < 0 \<longrightarrow> AKind ae = AggCount)" by (simp add: ex_agg_def)
  have d: "dicts_present (groupBy h) ex_ints" by (simp add: dicts_present_def h)
  have wf: "\<forall>b \<in> set [ex_ints]. wf_rows ?G b \<and> dicts_present (groupBy h) b" using ex_ints_wf d by (simp add: ex_agg_schema_def)
  have T: "\<forall>r \<in> set ?rs. typed_row ?G r" by (simp add: ex_ints_rows typed_row_def typed_cell_def ex_agg_schema_def)
  have len: "length (agg_rows h ?G ?rs) = 1" "\<exists>y. agg_rows h ?G ?rs = [[y]]" by (simp_all add: agg_rows_def out_row_def h)
  have n: "length ?rs < 2 ^ 63" by (simp add: ex_ints_rows)
  have m: "sum_list (map row_bytes (agg_rows h ?G ?rs)) + length (agg_rows h ?G ?rs) < 2 ^ 32"
    by (simp add: agg_rows_def out_row_def group_value_def agg_value_def h gcells_def ex_ints_rows ex_agg_def agg_arg_def agg_type_def ex_agg_schema_def best_def better_def row_bytes_def)
  note c = NewHashAggregate_conf [OF h(1) aggs]
  have types: "map Type (aschema h) = out_types h ?G" using c(3) by (simp add: out_types_def)
  obtain out x where out: "drain (HashAggregate_Next h) (HashAggregate_start (stream_of [ex_ints])) = Some out" "[x] \<in> set (all_rows out)"
    using HashAggregate_drain [OF c(1) types c(2) wf refl T n m] len(2) by (metis list.set_intros(1) mset_eq_setD)
  have "(x = None \<longleftrightarrow> (\<forall>r \<in> set ?rs. gcells (groupBy h) r = [] \<longrightarrow> agg_arg (aggExprs h ! 0) r = None)) \<and>
    (\<forall>v. x = Some v \<longrightarrow> (\<forall>r \<in> set ?rs. gcells (groupBy h) r = [] \<longrightarrow> (\<forall>y. agg_arg (aggExprs h ! 0) r = Some y \<longrightarrow> \<not> better AggMin y v)) \<and>
      ((\<exists>r \<in> set ?rs. gcells (groupBy h) r = [] \<and> agg_arg (aggExprs h ! 0) r = Some v) \<or>
       agg_type ?G (aggExprs h ! 0) = TypeFloat64 \<and> v = VFloat (if AggMin = AggMin then f_max else f_min)))"
    by (rule minmax_extremal [OF h(1) aggs wf refl T n m out, of "[]" 0 "aggExprs h ! 0" AggMin x]) (simp_all add: h)
  then have "x = Some (VInt 5)"
    by (cases x) (auto simp: h gcells_def ex_ints_rows agg_arg_def ex_agg_def agg_type_def ex_agg_schema_def better_def)
  then show ?thesis using h(1) out by blast
qed

end
