(* ===== verification/Parallel.thy ===== *)
theory Parallel
  imports AggOut "HOL-Library.Sublist"
begin

text \<open>
  Morsel-driven parallel aggregation (\<^verbatim>\<open>exec/parallel.go\<close>, \<^verbatim>\<open>exec/morsel.go\<close>): workers claim ranges of row groups from an atomic counter, run a
  pipeline over each range into a partial aggregate of their own and send it over a channel; the caller merges the partial aggregates. The
  workers' interleaving is a step relation; a schedule is the list of the workers that step.
\<close>

section \<open>The morsel queue\<close>

record morselQueue =
  qnext :: i64
  qend :: i64

text \<open>\<^verbatim>\<open>next.Add(size)\<close> is one atomic step.\<close>

definition claim :: "i64 \<Rightarrow> morselQueue \<Rightarrow> (i64 \<times> i64) option \<times> morselQueue" where
  "claim msize q = (let nxt = qnext q + msize; start = nxt - msize; q = q\<lparr>qnext := nxt\<rparr> in
     if sint (qend q) \<le> sint start then (None, q)
     else (let stop = start + msize in (Some (start, if sint (qend q) < sint stop then qend q else stop), q)))"


section \<open>Pipelines\<close>

text \<open>
  The operators of a pipeline as far as repositioning depends on them; a hash join with a build child builds its own table. A pipeline comes
  from the factory of the planner: the rows it delivers, and those it delivers after a reset.
\<close>

datatype op_shape = TableScanOp | FilterOp op_shape | ProjectOp op_shape | HashJoinOp (builds: bool) op_shape | OtherOp

fun reusableMorselPipeline :: "op_shape \<Rightarrow> bool" where
  "reusableMorselPipeline TableScanOp \<longleftrightarrow> True"
| "reusableMorselPipeline (FilterOp child) \<longleftrightarrow> reusableMorselPipeline child"
| "reusableMorselPipeline (ProjectOp child) \<longleftrightarrow> reusableMorselPipeline child"
| "reusableMorselPipeline (HashJoinOp build probe) \<longleftrightarrow> \<not> build \<and> reusableMorselPipeline probe"
| "reusableMorselPipeline OtherOp \<longleftrightarrow> False"

record pipeline =
  shape :: op_shape
  pstream :: stream
  preset :: "nat \<Rightarrow> nat \<Rightarrow> stream"

type_synonym PipelineFactory = "nat \<Rightarrow> nat \<Rightarrow> pipeline xres"

record morselRunner =
  held :: "pipeline option"
  probed :: bool

definition new_runner :: morselRunner where
  "new_runner = \<lparr>held = None, probed = False\<rparr>"

definition runner_open :: "PipelineFactory \<Rightarrow> nat \<Rightarrow> nat \<Rightarrow> morselRunner \<Rightarrow> (stream \<times> morselRunner) xres" where
  "runner_open factory rgStart rgEnd m = (case held m of
     Some p \<Rightarrow> Inr (preset p rgStart rgEnd, m)
   | None \<Rightarrow> res_map (\<lambda>op. (pstream op, if probed m then m
       else \<lparr>held = (if reusableMorselPipeline (shape op) then Some op else None), probed = True\<rparr>)) (factory rgStart rgEnd))"


section \<open>Workers\<close>

datatype worker_pc = Claiming | Opening i64 i64 | Reading stream | Sending "group_maps xres" | Exited

record worker =
  wpc :: worker_pc
  wagg :: agg_state
  wrunner :: morselRunner

record par_state =
  queue :: morselQueue
  workers :: "worker list"
  channel :: "group_maps xres list"

definition new_worker :: worker where
  "new_worker = \<lparr>wpc = Claiming, wagg = agg_start, wrunner = new_runner\<rparr>"

definition par_init :: "nat \<Rightarrow> nat \<Rightarrow> par_state" where
  "par_init totalRGs n = \<lparr>queue = \<lparr>qnext = 0, qend = word_of_nat totalRGs\<rparr>, workers = replicate n new_worker, channel = []\<rparr>"

text \<open>
  The next step of a worker, with what it does to the queue and to the channel, or \<open>None\<close> when it cannot step. A send waits while the channel,
  of capacity \<open>n\<close>, is full; the receiver is taken to be last. Errors carry no message here, so wrapping keeps them.
\<close>

definition worker_step :: "agg_conf \<Rightarrow> PipelineFactory \<Rightarrow> i64 \<Rightarrow> nat \<Rightarrow> worker \<Rightarrow> morselQueue \<times> group_maps xres list \<Rightarrow>
    (worker \<times> morselQueue \<times> group_maps xres list) option" where
  "worker_step h factory msize n w qc = (case qc of (q, ch) \<Rightarrow> (case wpc w of
     Claiming \<Rightarrow> (case claim msize q of
         (None, q) \<Rightarrow> Some (w\<lparr>wpc := Sending (finish_maps h (wagg w))\<rparr>, q, ch)
       | (Some (start, stop), q) \<Rightarrow> Some (w\<lparr>wpc := Opening start stop\<rparr>, q, ch))
   | Opening start stop \<Rightarrow> (case runner_open factory (unat start) (unat stop) (wrunner w) of
         Inl e \<Rightarrow> Some (w\<lparr>wpc := Sending (Inl e)\<rparr>, q, ch)
       | Inr (pl, m) \<Rightarrow> Some (w\<lparr>wpc := Reading pl, wrunner := m\<rparr>, q, ch))
   | Reading pl \<Rightarrow> (case stream_Next pl of
         Inl e \<Rightarrow> Some (w\<lparr>wpc := Sending (Inl e)\<rparr>, q, ch)
       | Inr (None, _) \<Rightarrow> Some (w\<lparr>wpc := Claiming\<rparr>, q, ch)
       | Inr (Some batch, pl) \<Rightarrow> (case accumulate h (wagg w) batch of
             Inl e \<Rightarrow> Some (w\<lparr>wpc := Sending (Inl e)\<rparr>, q, ch)
           | Inr st \<Rightarrow> Some (w\<lparr>wpc := Reading pl, wagg := st\<rparr>, q, ch)))
   | Sending r \<Rightarrow> if length ch < n then Some (w\<lparr>wpc := Exited\<rparr>, q, ch @ [r]) else None
   | Exited \<Rightarrow> None))"

definition par_step_at :: "agg_conf \<Rightarrow> PipelineFactory \<Rightarrow> i64 \<Rightarrow> nat \<Rightarrow> nat \<Rightarrow> par_state \<Rightarrow> par_state option" where
  "par_step_at h factory msize n i s = (if i < length (workers s) then
     map_option (\<lambda>(w, q, ch). \<lparr>queue = q, workers = (workers s)[i := w], channel = ch\<rparr>)
       (worker_step h factory msize n (workers s ! i) (queue s, channel s)) else None)"

inductive par_step :: "agg_conf \<Rightarrow> PipelineFactory \<Rightarrow> i64 \<Rightarrow> nat \<Rightarrow> par_state \<Rightarrow> par_state \<Rightarrow> bool"
  for h factory msize n where
  par_stepI: "par_step_at h factory msize n i s = Some t \<Longrightarrow> par_step h factory msize n s t"

definition reach :: "agg_conf \<Rightarrow> PipelineFactory \<Rightarrow> i64 \<Rightarrow> nat \<Rightarrow> nat \<Rightarrow> par_state \<Rightarrow> bool" where
  "reach h factory msize totalRGs n s \<longleftrightarrow> (par_step h factory msize n)\<^sup>*\<^sup>* (par_init totalRGs n) s"

fun run_schedule :: "agg_conf \<Rightarrow> PipelineFactory \<Rightarrow> i64 \<Rightarrow> nat \<Rightarrow> nat list \<Rightarrow> par_state \<Rightarrow> par_state option" where
  "run_schedule h factory msize n [] s = Some s"
| "run_schedule h factory msize n (i # is) s = Option.bind (par_step_at h factory msize n i s) (run_schedule h factory msize n is)"


section \<open>Merging\<close>

text \<open>A partial aggregate's slot into that of the same group; the sets of COUNT(DISTINCT) are not carried over.\<close>

definition merge_slot :: "AggExpr \<Rightarrow> slot \<Rightarrow> slot \<Rightarrow> slot" where
  "merge_slot ae d s = (let d' = (case AKind ae of
       AggCount \<Rightarrow> d\<lparr>acc := acc d + acc s\<rparr>
     | AggSum \<Rightarrow> d\<lparr>acc := (if AccumType ae = Some TypeFloat64 then f_add (acc d) (acc s) else acc d + acc s)\<rparr>
     | AggAvg \<Rightarrow> d\<lparr>acc := (if AccumType ae = Some TypeFloat64 then f_add (acc d) (acc s) else acc d + acc s)\<rparr>
     | AggCountDistinct \<Rightarrow> d
     | _ \<Rightarrow> if AccumType ae = Some TypeString then
           (if nonNull s = 0 then d else d\<lparr>strAcc := minMaxString (strAcc d) (strAcc s) (0 < sint (nonNull d)) (AKind ae = AggMin)\<rparr>)
         else minmax_num ae (acc s) d)
     in d'\<lparr>nonNull := nonNull d + nonNull s\<rparr>)"

definition copy_slot :: "slot \<Rightarrow> slot" where
  "copy_slot s = s\<lparr>dInts := None, dStrs := None\<rparr>"

definition merge_group :: "agg_conf \<Rightarrow> group_maps \<Rightarrow> group_maps \<Rightarrow> byte list \<Rightarrow> group_maps xres" where
  "merge_group h src dst key = (let srcSlots = (case groups src key of None \<Rightarrow> [] | Some ss \<Rightarrow> ss) in case groups dst key of
     None \<Rightarrow> Inr (dst\<lparr>groups := (groups dst)(key \<mapsto> map copy_slot srcSlots), gkeys := gkeys dst @ [key], samples := (samples dst)(key := samples src key)\<rparr>)
   | Some dstSlots \<Rightarrow> res_map (\<lambda>ss. dst\<lparr>groups := (groups dst)(key \<mapsto> ss)\<rparr>)
       (map_res (\<lambda>(j, ae). res_bind (idx dstSlots j) (\<lambda>d. res_map (merge_slot ae d) (idx srcSlots j))) (enumerate 0 (aggExprs h))))"

definition mergePartialAgg :: "agg_conf \<Rightarrow> group_maps \<Rightarrow> group_maps \<Rightarrow> group_maps xres" where
  "mergePartialAgg h dst src = fold_res (merge_group h src) dst (gkeys src)"


section \<open>The operator\<close>

record ParallelHashAggregate =
  totalRGs :: nat
  numWorkers :: nat
  morselSize :: nat
  pconf :: agg_conf
  delegate :: "HashAggregate option"
  emptyGlobalPending :: bool

definition defaultMorselSize :: nat where
  "defaultMorselSize = 1"

text \<open>\<^verbatim>\<open>newPartialAggregate\<close> leaves \<^verbatim>\<open>hasDistinct\<close> unset.\<close>

definition newPartialAggregate :: "nat list \<Rightarrow> AggExpr list \<Rightarrow> Schema \<Rightarrow> agg_conf" where
  "newPartialAggregate gb aggs schema = \<lparr>groupBy = gb, aggExprs = aggs, aschema = schema, hasDistinct = False\<rparr>"

definition NewParallelHashAggregate :: "nat \<Rightarrow> int \<Rightarrow> int \<Rightarrow> nat list \<Rightarrow> AggExpr list \<Rightarrow> Schema \<Rightarrow> ParallelHashAggregate" where
  "NewParallelHashAggregate rgs n msize gb aggs schema = (let n = (if int rgs < n \<and> 0 < rgs then int rgs else n) in
     \<lparr>totalRGs = rgs, numWorkers = nat (if n < 1 then 1 else n), morselSize = (if msize < 1 then defaultMorselSize else nat msize),
      pconf = newPartialAggregate gb aggs schema, delegate = None, emptyGlobalPending = False\<rparr>)"

text \<open>
  What \<^verbatim>\<open>setup\<close> makes of the results it receives, in the order it receives them: the first error, or the merged aggregate as the delegate.
\<close>

fun first_error :: "group_maps xres list \<Rightarrow> exec_error go_err option" where
  "first_error [] = None"
| "first_error (Inl e # rs) = Some e"
| "first_error (Inr g # rs) = first_error rs"

definition finish_setup :: "group_maps xres list \<Rightarrow> ParallelHashAggregate \<Rightarrow> ParallelHashAggregate xres" where
  "finish_setup results p = (let merge = fold_res (mergePartialAgg (pconf p)) initMaps (concat (map (case_sum (\<lambda>_. []) (\<lambda>g. [g])) results)) in
     if totalRGs p = 0 then Inr (p\<lparr>delegate := Some \<lparr>achild = EOF, amaps = initMaps, adone = True, outPos = 0\<rparr>, emptyGlobalPending := (groupBy (pconf p) = [])\<rparr>)
     else case first_error results of Some e \<Rightarrow> Inl e
     | None \<Rightarrow> res_map (\<lambda>merged. p\<lparr>delegate := Some \<lparr>achild = EOF, amaps = merged, adone = True, outPos = 0\<rparr>,
         emptyGlobalPending := (gkeys merged = [] \<and> groupBy (pconf p) = [])\<rparr>) merge)"

text \<open>\<^verbatim>\<open>Next\<close>, given the results that the workers of \<^verbatim>\<open>setup\<close> send.\<close>

definition ParallelHashAggregate_Next :: "group_maps xres list \<Rightarrow> ParallelHashAggregate \<Rightarrow> (Batch option \<times> ParallelHashAggregate) xres" where
  "ParallelHashAggregate_Next results p = res_bind (case delegate p of None \<Rightarrow> finish_setup results p | Some _ \<Rightarrow> Inr p) (\<lambda>p.
     if emptyGlobalPending p then res_map (\<lambda>batch. (Some batch, p\<lparr>emptyGlobalPending := False, delegate := map_option (\<lambda>d. d\<lparr>outPos := 1\<rparr>) (delegate p)\<rparr>)) (buildEmptyGlobalResult (pconf p))
     else case delegate p of None \<Rightarrow> Inl Panic
     | Some d \<Rightarrow> res_map (\<lambda>(batch, d). (batch, p\<lparr>delegate := Some d\<rparr>)) (HashAggregate_Next (pconf p) d))"

section \<open>Merging partial aggregates\<close>

text \<open>
  An aggregate whose partial results merge to what a single pass gives. A float accumulator depends on the order of the additions (or,
  for MIN and MAX, on which of two equal zeros comes first).
\<close>

definition exact_agg :: "AggExpr \<Rightarrow> bool" where
  "exact_agg ae \<longleftrightarrow> AKind ae \<noteq> AggCountDistinct \<and> AKind ae \<noteq> AggAvg \<and> AccumType ae \<noteq> Some TypeFloat64"

lemma minMaxString_assoc:
  "minMaxString d (minMaxString s y True lss) seen lss = minMaxString (minMaxString d s seen lss) y True lss"
  by (auto simp: minMaxString_def)

lemma minMaxString_first: "minMaxString d y False lss = y"
  by (simp add: minMaxString_def)

lemma merge_slot_step:
  assumes ex: "exact_agg ae" "AColIdx ae < 0 \<longrightarrow> AKind ae = AggCount" and nn: "0 \<le> sint (nonNull d)" "0 \<le> sint (nonNull s)" "sint (nonNull d) + sint (nonNull s) < 2 ^ 63 - 1"
  shows "merge_slot ae d (agg_step ae x s) = agg_step ae x (merge_slot ae d s)"
proof -
  have sum: "sint (nonNull d + nonNull s) = sint (nonNull d) + sint (nonNull s)"
    using nn by (simp add: sint_word_ariths signed_take_bit_int_eq_self_iff)
  have one: "nonNull s = 0 \<or> 0 < sint (nonNull s)"
  proof -
    have "sint (nonNull s) = 0 \<longleftrightarrow> nonNull s = 0" by (rule signed_eq_0_iff)
    then show ?thesis using nn(2) by linarith
  qed
  have pos: "0 < sint (nonNull d) + sint (nonNull s)" if "0 < sint (nonNull s)" using that nn(1) by linarith
  have succ: "nonNull s + 1 \<noteq> 0"
  proof -
    have "sint (nonNull s + 1) = sint (nonNull s) + 1" using nn by (simp add: sint_word_ariths signed_take_bit_int_eq_self_iff)
    then show ?thesis using nn(2) by auto
  qed
  show ?thesis
  proof (cases x)
    case None
    then show ?thesis using ex(2) by (cases "AColIdx ae < 0") (simp_all add: agg_step_def merge_slot_def bump_def ac_simps)
  next
    case (Some y)
    show ?thesis
      using ex(1) one succ
      by (cases "AKind ae")
        (auto simp: Some agg_step_def merge_slot_def bump_def exact_agg_def minmax_num_def Let_def sum pos ac_simps minMaxString_assoc minMaxString_first)
  qed
qed

lemma merge_slot_new: "exact_agg ae \<Longrightarrow> merge_slot ae d (new_slot ae) = d"
  using word64_top [of "acc d"]
  by (cases "AKind ae"; cases "AccumType ae") (auto simp: exact_agg_def merge_slot_def new_slot_def minmax_num_def Let_def split: DataType.splits)

lemma run_slot_nonNull:
  "\<exists>n \<le> length xs. nonNull (run_slot ae s xs) = nonNull s + word_of_nat n"
proof (induction xs rule: rev_induct)
  case (snoc x xs)
  then obtain n where n: "n \<le> length xs" "nonNull (run_slot ae s xs) = nonNull s + word_of_nat n" by blast
  let ?t = "run_slot ae s xs"
  have "nonNull (agg_step ae x ?t) = nonNull ?t \<or> nonNull (agg_step ae x ?t) = nonNull ?t + 1"
    by (cases "AKind ae") (auto simp: agg_step_def bump_def minmax_num_def Let_def split: option.splits)
  then have "nonNull (run_slot ae s (xs @ [x])) = nonNull s + word_of_nat n \<or> nonNull (run_slot ae s (xs @ [x])) = nonNull s + word_of_nat (Suc n)"
    unfolding run_slot_simps n(2) by (simp add: ac_simps)
  then show ?case using n(1) by (metis Suc_le_mono le_SucI length_append_singleton)
qed simp

lemma merge_run_slots:
  assumes ex: "exact_agg ae" "AColIdx ae < 0 \<longrightarrow> AKind ae = AggCount" and n: "length xs + length ys < 2 ^ 63"
  shows "merge_slot ae (run_slot ae (new_slot ae) xs) (run_slot ae (new_slot ae) ys) = run_slot ae (new_slot ae) (xs @ ys)"
  using n
proof (induction ys rule: rev_induct)
  case Nil
  then show ?case using merge_slot_new [OF ex(1)] by simp
next
  case (snoc y ys)
  let ?s = "\<lambda>xs. run_slot ae (new_slot ae) xs"
  obtain a where a: "a \<le> length xs" "nonNull (?s xs) = word_of_nat a" using run_slot_nonNull [of xs ae "new_slot ae"] by (auto simp: new_slot_def)
  obtain b where b: "b \<le> length ys" "nonNull (?s ys) = word_of_nat b" using run_slot_nonNull [of ys ae "new_slot ae"] by (auto simp: new_slot_def)
  have ab: "sint (nonNull (?s xs)) = int a" "sint (nonNull (?s ys)) = int b" unfolding a(2) b(2) using a(1) b(1) snoc.prems by (auto intro: sint_word_of_nat)
  have "int a + int b < 2 ^ 63 - 1" using a(1) b(1) snoc.prems by simp
  then have "merge_slot ae (?s xs) (agg_step ae y (?s ys)) = agg_step ae y (merge_slot ae (?s xs) (?s ys))"
    using ab by (intro merge_slot_step [OF ex]) simp_all
  then show ?case using snoc by (simp flip: append_assoc)
qed

text \<open>The groups of a partial aggregate without COUNT(DISTINCT), merged key by key.\<close>

definition exact_conf :: "DataType list \<Rightarrow> agg_conf \<Rightarrow> bool" where
  "exact_conf G h \<longleftrightarrow> conf_ok G h \<and> (\<forall>ae \<in> set (aggExprs h). exact_agg ae)"

lemma exact_confD:
  assumes "exact_conf G h"
  shows "conf_ok G h" "\<not> hasDistinct h" "\<And>ae. ae \<in> set (aggExprs h) \<Longrightarrow> exact_agg ae \<and> (AColIdx ae < 0 \<longrightarrow> AKind ae = AggCount)"
  using assms by (auto simp: exact_conf_def conf_ok_def exact_agg_def agg_ok_def)

lemma run_slot_sets:
  "AKind ae \<noteq> AggCountDistinct \<Longrightarrow> dInts (run_slot ae s xs) = dInts s \<and> dStrs (run_slot ae s xs) = dStrs s"
proof (induction xs rule: rev_induct)
  case (snoc x xs)
  have "dInts (agg_step ae x t) = dInts t \<and> dStrs (agg_step ae x t) = dStrs t" for t
    using snoc.prems by (cases "AKind ae") (auto simp: agg_step_def bump_def minmax_num_def Let_def split: option.splits)
  then show ?case using snoc by simp
qed simp

lemma slots_of_run:
  assumes "exact_conf G h" "j < length (aggExprs h)" "ae = aggExprs h ! j"
  shows "slots_of (aggExprs h) (init_group h False G) rs ! j = run_slot ae (new_slot ae) (map (agg_arg ae) rs)"
proof -
  have "init_group h False G ! j = new_slot ae" using assms(2,3) by (simp add: init_group_def)
  then show ?thesis using assms(2,3) by (simp add: nth_slots_of run_slot_def foldl_map)
qed

lemma copy_slots:
  assumes "exact_conf G h"
  shows "map copy_slot (slots_of (aggExprs h) (init_group h False G) rs) = slots_of (aggExprs h) (init_group h False G) rs"
proof (rule nth_equalityI)
  fix j assume "j < length (map copy_slot (slots_of (aggExprs h) (init_group h False G) rs))"
  then have j: "j < length (aggExprs h)" by simp
  let ?ae = "aggExprs h ! j"
  have "AKind ?ae \<noteq> AggCountDistinct" using exact_confD(3) [OF assms, of ?ae] j by (simp add: exact_agg_def)
  then have "copy_slot (run_slot ?ae (new_slot ?ae) xs) = run_slot ?ae (new_slot ?ae) xs" for xs
    using run_slot_sets [of ?ae "new_slot ?ae" xs] by (simp add: copy_slot_def new_slot_def)
  then show "map copy_slot (slots_of (aggExprs h) (init_group h False G) rs) ! j = slots_of (aggExprs h) (init_group h False G) rs ! j"
    using j slots_of_run [OF assms j refl] by simp
qed simp

lemma merge_slots:
  fixes rs :: "val option list list"
  assumes "exact_conf G h" "length rs + length rs' < 2 ^ 63"
  shows "map_res (\<lambda>(j, ae). res_bind (idx (slots_of (aggExprs h) (init_group h False G) rs) j) (\<lambda>d.
      res_map (merge_slot ae d) (idx (slots_of (aggExprs h) (init_group h False G) rs') j))) (enumerate 0 (aggExprs h)) =
    (Inr (slots_of (aggExprs h) (init_group h False G) (rs @ rs')) :: slot list xres)"
proof -
  let ?S = "slots_of (aggExprs h) (init_group h False G)"
  have j: "merge_slot (aggExprs h ! j) (?S rs ! j) (?S rs' ! j) = ?S (rs @ rs') ! j" if j: "j < length (aggExprs h)" for j
  proof -
    have "merge_slot (aggExprs h ! j) (run_slot (aggExprs h ! j) (new_slot (aggExprs h ! j)) (map (agg_arg (aggExprs h ! j)) rs))
        (run_slot (aggExprs h ! j) (new_slot (aggExprs h ! j)) (map (agg_arg (aggExprs h ! j)) rs')) =
      run_slot (aggExprs h ! j) (new_slot (aggExprs h ! j)) (map (agg_arg (aggExprs h ! j)) rs @ map (agg_arg (aggExprs h ! j)) rs')"
      using exact_confD(3) [OF assms(1), of "aggExprs h ! j"] j assms(2) by (intro merge_run_slots) simp_all
    then show ?thesis unfolding slots_of_run [OF assms(1) j refl] by simp
  qed
  have "map_res (\<lambda>(j, ae). res_bind (idx (?S rs) j) (\<lambda>d. res_map (merge_slot ae d) (idx (?S rs') j))) (enumerate 0 (aggExprs h)) =
      (Inr (map (\<lambda>(j, ae). ?S (rs @ rs') ! j) (enumerate 0 (aggExprs h))) :: slot list xres)"
    using j by (intro map_res_ok) (auto simp: in_set_enumerate_eq)
  also have "map (\<lambda>(j, ae). ?S (rs @ rs') ! j) (enumerate 0 (aggExprs h)) = ?S (rs @ rs')"
    by (rule nth_equalityI) (simp_all add: nth_enumerate_eq)
  finally show ?thesis .
qed

lemma merge_group_ok:
  assumes ex: "exact_conf G h" and dst: "gm_ok h s0 ks (rs @ filter (\<lambda>r. gcells (groupBy h) r \<in> S) rs') dst" and src: "gm_ok h s0 ks' rs' src"
    and k: "k \<in> set ks'" "k \<notin> S" and T: "\<forall>k \<in> set ks \<union> set ks'. typed_row T k" and s0: "s0 = init_group h False G"
    and n: "length rs + length rs' < 2 ^ 63"
  shows "\<exists>g. merge_group h src dst (enc_row k) = Inr g \<and>
    gm_ok h s0 (if k \<in> set ks then ks else ks @ [k]) (rs @ filter (\<lambda>r. gcells (groupBy h) r \<in> insert k S) rs') g"
proof -
  let ?gc = "gcells (groupBy h)"
  let ?rows = "\<lambda>S k'. filter (\<lambda>r. ?gc r = k') (rs @ filter (\<lambda>r. ?gc r \<in> S) rs')"
  have other: "?rows (insert k S) k' = ?rows S k'" if "k' \<noteq> k" for k' using that by (auto intro: filter_cong)
  have this_k: "?rows S k = filter (\<lambda>r. ?gc r = k) rs" "?rows (insert k S) k = filter (\<lambda>r. ?gc r = k) rs @ filter (\<lambda>r. ?gc r = k) rs'"
    using k(2) by (auto simp: filter_empty_conv intro: filter_cong)
  have sk: "groups src (enc_row k) = Some (slots_of (aggExprs h) s0 (filter (\<lambda>r. ?gc r = k) rs'))" "k \<noteq> [] \<Longrightarrow> samples src (enc_row k) = Some (map sample_of k)"
    using src k(1) by (auto simp: gm_ok_def)
  have inj: "enc_row k' = enc_row k \<longleftrightarrow> k' = k" if "k' \<in> set ks" for k' using enc_row_inj [of T k' k] T that k(1) by auto
  have len: "length (filter (\<lambda>r. ?gc r = k) rs) + length (filter (\<lambda>r. ?gc r = k) rs') < 2 ^ 63"
    using n length_filter_le [of "\<lambda>r. ?gc r = k" rs] length_filter_le [of "\<lambda>r. ?gc r = k" rs'] by linarith
  show ?thesis
  proof (cases "k \<in> set ks")
    case True
    then have "groups dst (enc_row k) = Some (slots_of (aggExprs h) s0 (filter (\<lambda>r. ?gc r = k) rs))" using dst this_k(1) unfolding gm_ok_def by metis
    then have "merge_group h src dst (enc_row k) = Inr (dst\<lparr>groups := (groups dst)(enc_row k \<mapsto> slots_of (aggExprs h) s0 (?rows (insert k S) k))\<rparr>)"
      using sk(1) merge_slots [OF ex len] unfolding this_k(2) s0 by (simp add: merge_group_def)
    moreover have "gm_ok h s0 ks (rs @ filter (\<lambda>r. ?gc r \<in> insert k S) rs') (dst\<lparr>groups := (groups dst)(enc_row k \<mapsto> slots_of (aggExprs h) s0 (?rows (insert k S) k))\<rparr>)"
      using dst True inj other unfolding gm_ok_def by (auto simp del: filter_append)
    ultimately show ?thesis using True by auto
  next
    case False
    have no: "filter (\<lambda>r. ?gc r = k) rs = []" using False dst by (auto simp: gm_ok_def filter_empty_conv)
    have "enc_row k \<notin> enc_row ` set ks"
    proof
      assume "enc_row k \<in> enc_row ` set ks"
      then obtain k' where "k' \<in> set ks" "enc_row k' = enc_row k" by (metis imageE)
      then show False using inj False by blast
    qed
    then have "groups dst (enc_row k) = None" using dst unfolding gm_ok_def by blast
    then have "merge_group h src dst (enc_row k) = Inr (dst\<lparr>groups := (groups dst)(enc_row k \<mapsto> slots_of (aggExprs h) s0 (?rows (insert k S) k)),
        gkeys := gkeys dst @ [enc_row k], samples := (samples dst)(enc_row k := samples src (enc_row k))\<rparr>)"
      using sk(1) copy_slots [OF ex] unfolding this_k(2) no s0 by (simp add: merge_group_def)
    moreover have "gm_ok h s0 (ks @ [k]) (rs @ filter (\<lambda>r. ?gc r \<in> insert k S) rs') (dst\<lparr>groups := (groups dst)(enc_row k \<mapsto> slots_of (aggExprs h) s0 (?rows (insert k S) k)),
        gkeys := gkeys dst @ [enc_row k], samples := (samples dst)(enc_row k := samples src (enc_row k))\<rparr>)"
      using dst False inj other sk(2) unfolding gm_ok_def by (auto simp del: filter_append)
    ultimately show ?thesis using False by auto
  qed
qed

lemma mergePartialAgg_ok:
  assumes ex: "exact_conf G h" and dst: "gm_ok h s0 ks rs dst" and src: "gm_ok h s0 ks' rs' src"
    and T: "\<forall>k \<in> set ks \<union> set ks'. typed_row T k" and s0: "s0 = init_group h False G" and n: "length rs + length rs' < 2 ^ 63"
  shows "\<exists>g. mergePartialAgg h dst src = Inr g \<and> gm_ok h s0 (group_keys ks ks') (rs @ rs') g"
proof -
  let ?gc = "gcells (groupBy h)"
  have "\<exists>g. fold_res (merge_group h src) dst (map enc_row ks1) = Inr g \<and>
      gm_ok h s0 (group_keys ks ks1) (rs @ filter (\<lambda>r. ?gc r \<in> set ks1) rs') g" if "prefix ks1 ks'" for ks1
    using that
  proof (induction ks1 rule: rev_induct)
    case Nil
    then show ?case using dst by (simp add: group_keys_def)
  next
    case (snoc k ks1)
    then obtain g where g: "fold_res (merge_group h src) dst (map enc_row ks1) = Inr g"
      "gm_ok h s0 (group_keys ks ks1) (rs @ filter (\<lambda>r. ?gc r \<in> set ks1) rs') g" using append_prefixD by blast
    obtain zs where zs: "ks' = ks1 @ k # zs" using snoc.prems by (auto simp: prefix_def)
    have "distinct ks'" using src by (simp add: gm_ok_def)
    then have k: "k \<in> set ks'" "k \<notin> set ks1" using zs by auto
    have "\<forall>k \<in> set (group_keys ks ks1) \<union> set ks'. typed_row T k" using T zs by auto
    from merge_group_ok [OF ex g(2) src k this s0 n] obtain g' where g': "merge_group h src g (enc_row k) = Inr g'"
      "gm_ok h s0 (if k \<in> set (group_keys ks ks1) then group_keys ks ks1 else group_keys ks ks1 @ [k]) (rs @ filter (\<lambda>r. ?gc r \<in> insert k (set ks1)) rs') g'" by blast
    then show ?case using g(1) by (auto simp: fold_res_append group_keys_snoc)
  qed
  from this [of ks'] obtain g where g: "fold_res (merge_group h src) dst (map enc_row ks') = Inr g"
    "gm_ok h s0 (group_keys ks ks') (rs @ filter (\<lambda>r. ?gc r \<in> set ks') rs') g" by auto
  have "filter (\<lambda>r. ?gc r \<in> set ks') rs' = rs'" "gkeys src = map enc_row ks'" using src by (auto simp: gm_ok_def image_subset_iff filter_id_conv)
  then show ?thesis using g by (simp add: mergePartialAgg_def)
qed

section \<open>The result does not depend on the order of the rows\<close>

lemma val_less_total:
  assumes "val_type x = t" "val_type y = t" "t \<noteq> TypeFloat64" "\<not> val_less x y" "\<not> val_less y x"
  shows "x = y"
  using assms by (cases x; cases y) (auto dest!: signed_word_eqI)

lemma mset_present: "mset cells = mset cells' \<Longrightarrow> mset (present cells) = mset (present cells')"
  by (simp add: present_def)

lemma agg_value_perm:
  assumes ex: "exact_agg ae" and ok: "agg_ok G ae" and ty: "\<forall>y \<in> set (present cells). val_type y = agg_type G ae" and perm: "mset cells = mset cells'"
  shows "agg_value ae (agg_type G ae) cells = agg_value ae (agg_type G ae) cells'"
proof -
  have p: "mset (present cells) = mset (present cells')" by (rule mset_present [OF perm])
  have len: "length cells = length cells'" "length (present cells) = length (present cells')" using perm p by (auto dest: mset_eq_length)
  have empty: "present cells = [] \<longleftrightarrow> present cells' = []" using p by (metis mset_zero_iff)
  show ?thesis
  proof (cases "AKind ae = AggMin \<or> AKind ae = AggMax")
    case True
    have t: "agg_type G ae \<noteq> TypeFloat64" using ex ok True by (auto simp: exact_agg_def agg_ok_def agg_type_def AccumTypeFor_def split: if_splits)
    show ?thesis
    proof (cases "present cells = []")
      case False
      obtain v where v: "agg_value ae (agg_type G ae) cells = Some v" using False True by (auto simp: agg_value_def Let_def)
      obtain v' where v': "agg_value ae (agg_type G ae) cells' = Some v'" using False empty True by (auto simp: agg_value_def Let_def)
      have m: "Some v \<in> set cells" "Some v' \<in> set cells'" using agg_value_minmax(2) [OF refl True v] agg_value_minmax(2) [OF refl True v'] t by auto
      have same: "set cells = set cells'" using perm by (metis set_mset_mset)
      have b: "\<not> better (AKind ae) v' v" "\<not> better (AKind ae) v v'"
        using agg_value_minmax(1) [OF refl True v] agg_value_minmax(1) [OF refl True v'] m same by auto
      have "val_type v = agg_type G ae" "val_type v' = agg_type G ae" using ty m same by (auto simp: set_present)
      then have "v = v'" using b t by (intro val_less_total) (auto simp: better_def split: if_splits)
      then show ?thesis using v v' by simp
    qed (use empty True in \<open>auto simp: agg_value_def Let_def\<close>)
  next
    case False
    have "sum_list (map raw_bits (present cells)) = sum_list (map raw_bits (present cells'))" using p by (metis mset_map sum_mset_sum_list)
    moreover have "AKind ae = AggSum \<Longrightarrow> agg_type G ae \<noteq> TypeFloat64" using ex ok by (auto simp: exact_agg_def agg_ok_def agg_type_def AccumTypeFor_def split: if_splits)
    ultimately show ?thesis using False ex empty len by (cases "AKind ae") (auto simp: agg_value_def Let_def exact_agg_def)
  qed
qed

lemma agg_rows_perm:
  assumes ex: "exact_conf G h" and T: "\<forall>r \<in> set rs. typed_row G r" and perm: "mset rs = mset rs'"
  shows "mset (agg_rows h G rs) = mset (agg_rows h G rs')"
proof -
  have val: "group_value h G rs k ae = group_value h G rs' k ae" if ae: "ae \<in> set (aggExprs h)" for k ae
  proof -
    have ok: "agg_ok G ae" using conf_okD(2) [OF exact_confD(1) [OF ex]] ae by blast
    show ?thesis unfolding group_value_def
    proof (rule agg_value_perm [OF conjunct1 [OF exact_confD(3) [OF ex ae]] ok])
      show "\<forall>y \<in> set (present (map (agg_arg ae) (filter (\<lambda>r. gcells (groupBy h) r = k) rs))). val_type y = agg_type G ae"
        using T by (intro agg_arg_typed [OF _ ok]) auto
      show "mset (map (agg_arg ae) (filter (\<lambda>r. gcells (groupBy h) r = k) rs)) = mset (map (agg_arg ae) (filter (\<lambda>r. gcells (groupBy h) r = k) rs'))"
        using perm by simp
    qed
  qed
  then have row: "out_row h G rs = out_row h G rs'" by (simp add: out_row_def fun_eq_iff)
  have "set (map (gcells (groupBy h)) rs) = set (map (gcells (groupBy h)) rs')" using perm by (metis mset_map set_mset_mset)
  then have "mset (firsts {} (map (gcells (groupBy h)) rs)) = mset (firsts {} (map (gcells (groupBy h)) rs'))"
    by (metis distinct_firsts set_eq_iff_mset_eq_distinct set_firsts)
  then show ?thesis using row by (auto simp: agg_rows_def)
qed

section \<open>Every schedule ends\<close>

definition active :: "worker \<Rightarrow> bool" where
  "active w \<longleftrightarrow> (case wpc w of Sending _ \<Rightarrow> False | Exited \<Rightarrow> False | _ \<Rightarrow> True)"

definition is_opening :: "worker \<Rightarrow> bool" where
  "is_opening w \<longleftrightarrow> (case wpc w of Opening _ _ \<Rightarrow> True | _ \<Rightarrow> False)"

definition tally :: "('a \<Rightarrow> bool) \<Rightarrow> 'a list \<Rightarrow> nat" where
  "tally P xs = length (filter P xs)"

lemma tally_update:
  "i < length xs \<Longrightarrow> tally P (xs[i := x]) + (if P (xs ! i) then 1 else 0) = tally P xs + (if P x then 1 else 0)"
proof (induction xs arbitrary: i)
  case (Cons y ys)
  then show ?case by (cases i) (auto simp: tally_def)
qed simp

lemma tally_le: "tally P xs \<le> length xs"
  by (simp add: tally_def)

lemma tally_less: "x \<in> set xs \<Longrightarrow> \<not> P x \<Longrightarrow> tally P xs < length xs"
  using length_filter_less [of x xs P] by (simp add: tally_def)

lemma claim_nat:
  assumes "qnext q = word_of_nat x" "qend q = word_of_nat total_rgs" "x + k < 2 ^ 63" "total_rgs < 2 ^ 63"
  shows "claim (word_of_nat k) q = (if total_rgs \<le> x then None else Some (word_of_nat x, word_of_nat (min (x + k) total_rgs)), q\<lparr>qnext := word_of_nat (x + k)\<rparr>)"
proof -
  have "sint (word_of_nat x + word_of_nat k :: i64) = int (x + k)" using sint_word_of_nat [of "x + k"] assms(3) by simp
  moreover have "sint (word_of_nat x :: i64) = int x" "sint (word_of_nat total_rgs :: i64) = int total_rgs"
    using assms by (simp_all add: sint_word_of_nat)
  ultimately show ?thesis using assms(1,2) by (auto simp: claim_def Let_def min_def)
qed

text \<open>
  The counter, which failed claims advance too, stays so low that it cannot wrap, and the channel holds one result per worker that has left.
\<close>

definition queue_inv :: "nat \<Rightarrow> nat \<Rightarrow> nat \<Rightarrow> par_state \<Rightarrow> bool" where
  "queue_inv rgs k n s \<longleftrightarrow> qend (queue s) = word_of_nat rgs \<and> length (workers s) = n \<and> length (channel s) = tally (\<lambda>w. wpc w = Exited) (workers s) \<and>
     (\<exists>x. qnext (queue s) = word_of_nat x \<and> x \<le> rgs + k * (1 + tally (\<lambda>w. \<not> active w) (workers s)))"

lemma queue_inv_init: "queue_inv rgs k n (par_init rgs n)"
  by (auto simp: queue_inv_def par_init_def tally_def new_worker_def filter_empty_conv intro!: exI [of _ 0])

inductive_cases par_stepE: "par_step h factory msize n s t"

lemma par_step_at_cases:
  assumes "par_step_at h factory msize n i s = Some t"
  obtains w q ch where "i < length (workers s)" "worker_step h factory msize n (workers s ! i) (queue s, channel s) = Some (w, q, ch)"
    "t = \<lparr>queue = q, workers = (workers s)[i := w], channel = ch\<rparr>"
  using assms by (auto simp: par_step_at_def split: if_splits)

text \<open>The kinds of steps a worker takes.\<close>

lemma worker_step_cases:
  assumes "worker_step h factory msize n w (q, ch) = Some (w', q', ch')"
  obtains (claim_none) "wpc w = Claiming" "claim msize q = (None, q')" "w' = w\<lparr>wpc := Sending (finish_maps h (wagg w))\<rparr>" "ch' = ch"
  | (claim_some) a b where "wpc w = Claiming" "claim msize q = (Some (a, b), q')" "w' = w\<lparr>wpc := Opening a b\<rparr>" "ch' = ch"
  | (open_fail) a b e where "wpc w = Opening a b" "runner_open factory (unat a) (unat b) (wrunner w) = Inl e" "w' = w\<lparr>wpc := Sending (Inl e)\<rparr>" "q' = q" "ch' = ch"
  | (open_ok) a b pl m where "wpc w = Opening a b" "runner_open factory (unat a) (unat b) (wrunner w) = Inr (pl, m)" "w' = w\<lparr>wpc := Reading pl, wrunner := m\<rparr>" "q' = q" "ch' = ch"
  | (read_fail) e where "wpc w = Reading (Failed e)" "w' = w\<lparr>wpc := Sending (Inl e)\<rparr>" "q' = q" "ch' = ch"
  | (read_end) "wpc w = Reading EOF" "w' = w\<lparr>wpc := Claiming\<rparr>" "q' = q" "ch' = ch"
  | (acc_fail) b pl e where "wpc w = Reading (Deliver b pl)" "accumulate h (wagg w) b = Inl e" "w' = w\<lparr>wpc := Sending (Inl e)\<rparr>" "q' = q" "ch' = ch"
  | (acc_ok) b pl st where "wpc w = Reading (Deliver b pl)" "accumulate h (wagg w) b = Inr st" "w' = w\<lparr>wpc := Reading pl, wagg := st\<rparr>" "q' = q" "ch' = ch"
  | (send) r where "wpc w = Sending r" "length ch < n" "w' = w\<lparr>wpc := Exited\<rparr>" "q' = q" "ch' = ch @ [r]"
proof (cases "wpc w")
  case (Reading pl)
  then show thesis using assms read_fail read_end acc_fail acc_ok by (cases pl) (auto simp: worker_step_def split: sum.splits)
qed (use assms claim_none claim_some open_fail open_ok send in \<open>auto simp: worker_step_def split: prod.splits option.splits sum.splits if_splits\<close>)

lemma active_simps [simp]:
  "wpc w = Claiming \<Longrightarrow> active w" "wpc w = Opening a b \<Longrightarrow> active w" "wpc w = Reading pl \<Longrightarrow> active w"
  "wpc w = Sending r \<Longrightarrow> \<not> active w" "wpc w = Exited \<Longrightarrow> \<not> active w"
  by (simp_all add: active_def)

text \<open>The states between which a schedule moves: queue within bounds, and every worker where it can be.\<close>

lemma queue_inv_step:
  assumes inv: "queue_inv rgs k n s" and step: "par_step_at h factory (word_of_nat k) n i s = Some t" and bound: "rgs + k * (n + 1) < 2 ^ 63"
  shows "queue_inv rgs k n t"
    "wpc (workers s ! i) = Claiming \<Longrightarrow> \<exists>x. qnext (queue s) = word_of_nat x \<and> x + k < 2 ^ 63 \<and> qnext (queue t) = word_of_nat (x + k) \<and>
       claim (word_of_nat k) (queue s) = (if rgs \<le> x then None else Some (word_of_nat x, word_of_nat (min (x + k) rgs)), queue t)"
proof -
  from step obtain w q ch where i: "i < length (workers s)" and ws: "worker_step h factory (word_of_nat k) n (workers s ! i) (queue s, channel s) = Some (w, q, ch)"
    and t: "t = \<lparr>queue = q, workers = (workers s)[i := w], channel = ch\<rparr>" by (rule par_step_at_cases)
  obtain x where x: "qend (queue s) = word_of_nat rgs" "length (workers s) = n" "length (channel s) = tally (\<lambda>w. wpc w = Exited) (workers s)"
    "qnext (queue s) = word_of_nat x" "x \<le> rgs + k * (1 + tally (\<lambda>w. \<not> active w) (workers s))" using inv by (auto simp: queue_inv_def)
  note ex = tally_update [OF i, of "\<lambda>w. wpc w = Exited" w] and act = tally_update [OF i, of "\<lambda>w. \<not> active w" w]
  have claim: "x + k < 2 ^ 63 \<and> claim (word_of_nat k) (queue s) = (if rgs \<le> x then None else Some (word_of_nat x, word_of_nat (min (x + k) rgs)), (queue s)\<lparr>qnext := word_of_nat (x + k)\<rparr>)"
    if "wpc (workers s ! i) = Claiming"
  proof -
    have "tally (\<lambda>w. \<not> active w) (workers s) < n" using tally_less [of "workers s ! i" "workers s" "\<lambda>w. \<not> active w"] that i x(2) by simp
    then have "k * (1 + tally (\<lambda>w. \<not> active w) (workers s)) \<le> k * n" by (intro mult_le_mono2) simp
    then have "x + k \<le> rgs + k * (n + 1)" using x(5) by simp
    then have "x + k < 2 ^ 63" using bound by linarith
    then show ?thesis using claim_nat [OF x(4,1)] bound by simp
  qed
  show "queue_inv rgs k n t"
    using ws
  proof (cases rule: worker_step_cases)
    case claim_none
    have "q = (queue s)\<lparr>qnext := word_of_nat (x + k)\<rparr>" using claim [OF claim_none(1)] claim_none(2) by (auto split: if_splits)
    moreover have "tally (\<lambda>w. \<not> active w) ((workers s)[i := w]) = Suc (tally (\<lambda>w. \<not> active w) (workers s))" using act claim_none(1,3) by simp
    moreover have "tally (\<lambda>w. wpc w = Exited) ((workers s)[i := w]) = tally (\<lambda>w. wpc w = Exited) (workers s)" using ex claim_none(1,3) by simp
    ultimately show ?thesis using x claim_none(4) unfolding queue_inv_def t by (auto intro!: exI [of _ "x + k"] simp: algebra_simps)
  next
    case (claim_some a b)
    have "q = (queue s)\<lparr>qnext := word_of_nat (x + k)\<rparr>" "x < rgs" using claim [OF claim_some(1)] claim_some(2) by (auto split: if_splits)
    moreover have "tally (\<lambda>w. wpc w = Exited) ((workers s)[i := w]) = tally (\<lambda>w. wpc w = Exited) (workers s)" using ex claim_some(1,3) by simp
    ultimately show ?thesis using x claim_some(4) unfolding queue_inv_def t by (auto intro!: exI [of _ "x + k"])
  next
    case (send r)
    have "tally (\<lambda>w. wpc w = Exited) ((workers s)[i := w]) = Suc (tally (\<lambda>w. wpc w = Exited) (workers s))" using ex send(1,3) by simp
    moreover have "tally (\<lambda>w. \<not> active w) ((workers s)[i := w]) = tally (\<lambda>w. \<not> active w) (workers s)" using act send(1,3) by simp
    ultimately show ?thesis using x send(4,5) unfolding queue_inv_def t by auto
  qed (use x ex act in \<open>auto simp: queue_inv_def t intro!: exI [of _ x] split: if_splits intro: le_trans\<close>)
  show "\<exists>x. qnext (queue s) = word_of_nat x \<and> x + k < 2 ^ 63 \<and> qnext (queue t) = word_of_nat (x + k) \<and>
      claim (word_of_nat k) (queue s) = (if rgs \<le> x then None else Some (word_of_nat x, word_of_nat (min (x + k) rgs)), queue t)"
    if pc: "wpc (workers s ! i) = Claiming"
  proof -
    have "q = (queue s)\<lparr>qnext := word_of_nat (x + k)\<rparr>" using ws claim [OF pc] pc
      by (auto simp: worker_step_def split: prod.splits option.splits if_splits)
    then show ?thesis using claim [OF pc] x(4) t by auto
  qed
qed

definition pc_size :: "worker \<Rightarrow> nat" where
  "pc_size w = (case wpc w of Reading pl \<Rightarrow> 2 + length (batches pl) | Sending _ \<Rightarrow> 1 | _ \<Rightarrow> 0)"

definition work_left :: "nat \<Rightarrow> par_state \<Rightarrow> nat \<times> nat \<times> nat" where
  "work_left rgs s = (rgs - unat (qnext (queue s)) + tally active (workers s), tally is_opening (workers s), sum_list (map pc_size (workers s)))"

lemma sum_list_update: "i < length xs \<Longrightarrow> sum_list (map f (xs[i := x])) + f (xs ! i) = sum_list (map f xs) + (f x :: nat)"
proof (induction xs arbitrary: i)
  case (Cons y ys)
  then show ?case by (cases i) auto
qed simp

lemma par_step_less:
  assumes inv: "queue_inv rgs k n s" and step: "par_step_at h factory (word_of_nat k) n i s = Some t" and bound: "rgs + k * (n + 1) < 2 ^ 63" "0 < k"
  shows "(work_left rgs t, work_left rgs s) \<in> less_than <*lex*> less_than <*lex*> less_than"
proof -
  from step obtain w q ch where i: "i < length (workers s)" and ws: "worker_step h factory (word_of_nat k) n (workers s ! i) (queue s, channel s) = Some (w, q, ch)"
    and t: "t = \<lparr>queue = q, workers = (workers s)[i := w], channel = ch\<rparr>" by (rule par_step_at_cases)
  note act = tally_update [OF i, of active w] and opn = tally_update [OF i, of is_opening w] and sz = sum_list_update [OF i, of pc_size w]
  have unat: "unat (word_of_nat x :: i64) = x" if "x < 2 ^ 63" for x using that by (simp add: unat_of_nat take_bit_nat_eq_self)
  show ?thesis
    using ws
  proof (cases rule: worker_step_cases)
    case claim_none
    obtain x where x: "qnext (queue s) = word_of_nat x" "x + k < 2 ^ 63" "qnext (queue t) = word_of_nat (x + k)" "rgs \<le> x"
      using queue_inv_step(2) [OF inv step bound(1) claim_none(1)] claim_none(2) by (auto split: if_splits)
    then show ?thesis using act claim_none(1,3) unat [of x] unat [of "x + k"] unfolding work_left_def by (simp add: t)
  next
    case (claim_some a b)
    obtain x where x: "qnext (queue s) = word_of_nat x" "x + k < 2 ^ 63" "qnext (queue t) = word_of_nat (x + k)" "x < rgs"
      using queue_inv_step(2) [OF inv step bound(1) claim_some(1)] claim_some(2) by (auto split: if_splits)
    then have "rgs - (x + k) < rgs - x" using bound(2) by simp
    then have "rgs - (x + k) + tally active ((workers s)[i := w]) < rgs - x + tally active (workers s)" using act claim_some(1,3) by simp
    then show ?thesis using x(1-3) unat [of x] unat [of "x + k"] unfolding work_left_def by (simp add: t)
  qed (use act opn sz in \<open>auto simp: work_left_def t is_opening_def pc_size_def\<close>)
qed

lemma reach_inv:
  assumes "reach h factory (word_of_nat k) rgs n s" "rgs + k * (n + 1) < 2 ^ 63"
  shows "queue_inv rgs k n s"
  using assms(1) unfolding reach_def
proof (induction rule: rtranclp_induct)
  case base
  then show ?case by (rule queue_inv_init)
next
  case (step s t)
  then show ?case using queue_inv_step(1) [OF _ _ assms(2)] by (auto elim: par_stepE)
qed

lemma stuck_workers:
  assumes inv: "queue_inv rgs k n s" and stuck: "\<nexists>t. par_step h factory msize n s t"
  shows "\<forall>w \<in> set (workers s). wpc w = Exited"
proof
  fix w assume "w \<in> set (workers s)"
  then obtain i where i: "i < length (workers s)" "w = workers s ! i" by (metis in_set_conv_nth)
  have none: "worker_step h factory msize n w (queue s, channel s) = None"
  proof (rule ccontr)
    assume "worker_step h factory msize n w (queue s, channel s) \<noteq> None"
    then obtain t where "par_step_at h factory msize n i s = Some t" using i by (auto simp: par_step_at_def)
    then show False using stuck par_stepI by blast
  qed
  have "length (channel s) < n" if "wpc w \<noteq> Exited"
    using inv tally_less [of w "workers s" "\<lambda>w. wpc w = Exited"] that i by (auto simp: queue_inv_def)
  then show "wpc w = Exited" using none by (auto simp: worker_step_def split: worker_pc.splits prod.splits option.splits sum.splits if_splits)
qed

lemma par_step_wf:
  assumes "rgs + k * (n + 1) < 2 ^ 63" "0 < k"
  shows "wf {(t, s). reach h factory (word_of_nat k) rgs n s \<and> par_step h factory (word_of_nat k) n s t}"
proof -
  have "{(t, s). reach h factory (word_of_nat k) rgs n s \<and> par_step h factory (word_of_nat k) n s t} \<subseteq>
      inv_image (less_than <*lex*> less_than <*lex*> less_than) (work_left rgs)"
    using par_step_less [OF reach_inv [OF _ assms(1)] _ assms] by (fastforce elim: par_stepE)
  then show ?thesis by (rule wf_subset [rotated]) (intro wf_inv_image wf_lex_prod wf_less_than)
qed

lemma final_reachable:
  assumes "rgs + k * (n + 1) < 2 ^ 63" "0 < k"
  shows "\<exists>s. reach h factory (word_of_nat k) rgs n s \<and> (\<nexists>t. par_step h factory (word_of_nat k) n s t)"
proof -
  have "par_init rgs n \<in> {s. reach h factory (word_of_nat k) rgs n s}" by (simp add: reach_def)
  then obtain s where s: "reach h factory (word_of_nat k) rgs n s"
    "\<And>t. (t, s) \<in> {(t, s). reach h factory (word_of_nat k) rgs n s \<and> par_step h factory (word_of_nat k) n s t} \<Longrightarrow> \<not> reach h factory (word_of_nat k) rgs n t"
    using wfE_min [OF par_step_wf [OF assms]] by (metis (no_types, lifting) mem_Collect_eq)
  then show ?thesis unfolding reach_def by (metis (no_types, lifting) case_prodI mem_Collect_eq rtranclp.rtrancl_into_rtrancl)
qed

text \<open>
  C40: The parallel aggregate never hangs. Whatever the pipelines deliver, errors included, and however the workers are scheduled, there is no infinite sequence of
  steps; and as long as a result is missing some worker can step: a send never blocks, the counter never wraps although failed claims advance it too, and
  in a state in which no worker can step all have exited and the channel holds exactly one result per worker, so the receiving loop returns.
\<close>

theorem setup_completes:
  assumes "rgs + k * (n + 1) < 2 ^ 63" "0 < k"
  shows "wf {(t, s). reach h factory (word_of_nat k) rgs n s \<and> par_step h factory (word_of_nat k) n s t} \<and>
    (\<forall>s. reach h factory (word_of_nat k) rgs n s \<and> (\<nexists>t. par_step h factory (word_of_nat k) n s t) \<longrightarrow>
      (\<forall>w \<in> set (workers s). wpc w = Exited) \<and> length (channel s) = n)"
proof (intro conjI allI impI)
  show "wf {(t, s). reach h factory (word_of_nat k) rgs n s \<and> par_step h factory (word_of_nat k) n s t}" by (rule par_step_wf [OF assms])
next
  fix s assume s: "reach h factory (word_of_nat k) rgs n s \<and> (\<nexists>t. par_step h factory (word_of_nat k) n s t)"
  then have inv: "queue_inv rgs k n s" using reach_inv [OF _ assms(1)] by blast
  then show ex: "\<forall>w \<in> set (workers s). wpc w = Exited" using stuck_workers s by blast
  have "filter (\<lambda>w. wpc w = Exited) (workers s) = workers s" using ex by (simp add: filter_id_conv)
  then show "length (channel s) = n" using inv by (simp add: queue_inv_def tally_def)
qed

definition ex_factory :: PipelineFactory where
  "ex_factory a b = Inr \<lparr>shape = FilterOp TableScanOp, pstream = EOF, preset = (\<lambda>_ _. EOF)\<rparr>"

lemma run_schedule_reach:
  assumes "reach h factory msize rgs n s" "run_schedule h factory msize n is s = Some t"
  shows "reach h factory msize rgs n t"
  using assms
proof (induction "is" arbitrary: s)
  case (Cons i "is")
  then obtain u where u: "par_step_at h factory msize n i s = Some u" "run_schedule h factory msize n is u = Some t" by (auto simp: Option.bind_eq_Some_conv)
  then have "reach h factory msize rgs n u" using Cons.prems(1) par_stepI unfolding reach_def by (metis rtranclp.rtrancl_into_rtrancl)
  then show ?case using Cons.IH u(2) by blast
qed simp

theorem setup_completes_witness:
  "\<exists>s. run_schedule ex_words_conf ex_factory 1 2 [0, 0, 1, 0, 0, 1, 0] (par_init 1 2) = Some s \<and> length (channel s) = 2"
proof -
  let ?run = "run_schedule ex_words_conf ex_factory 1 2 [0, 0, 1, 0, 0, 1, 0] (par_init 1 2)"
  obtain s where s: "?run = Some s" "workers s = [new_worker\<lparr>wpc := Exited, wrunner := wrunner (workers s ! 0)\<rparr>, new_worker\<lparr>wpc := Exited\<rparr>]"
    by (simp add: par_init_def new_worker_def par_step_at_def worker_step_def claim_def ex_factory_def runner_open_def new_runner_def numeral_2_eq_2 Let_def)
  have "reach ex_words_conf ex_factory 1 1 2 (par_init 1 2)" by (simp add: reach_def)
  then have "reach ex_words_conf ex_factory 1 1 2 s" by (rule run_schedule_reach) (rule s(1))
  then have r: "reach ex_words_conf ex_factory (word_of_nat 1) 1 2 s" by simp
  have "\<nexists>t. par_step ex_words_conf ex_factory (word_of_nat 1) 2 s t"
  proof
    assume "\<exists>t. par_step ex_words_conf ex_factory (word_of_nat 1) 2 s t"
    then obtain t i where "par_step_at ex_words_conf ex_factory (word_of_nat 1) 2 i s = Some t" by (auto elim: par_stepE)
    then obtain w q ch where i: "i < length (workers s)" "worker_step ex_words_conf ex_factory (word_of_nat 1) 2 (workers s ! i) (queue s, channel s) = Some (w, q, ch)"
      by (rule par_step_at_cases)
    then have "wpc (workers s ! i) = Exited" using arg_cong [OF s(2), of "\<lambda>ws. wpc (ws ! i)"] arg_cong [OF s(2), of length] by (cases i) auto
    then show False using i(2) by (simp add: worker_step_def)
  qed
  then have "length (channel s) = 2" using setup_completes [of 1 1 2 ex_words_conf ex_factory] r by simp
  then show ?thesis using s(1) by blast
qed

section \<open>The rows each worker has aggregated\<close>

text \<open>
  What the planner's pipelines promise: over a range of row groups they deliver well-formed batches with the rows \<open>rg\<close> of those groups, in order,
  and a pipeline that is repositioned delivers what a fresh one would.
\<close>

definition range_rows :: "agg_conf \<Rightarrow> DataType list \<Rightarrow> (nat \<Rightarrow> val option list list) \<Rightarrow> nat \<Rightarrow> nat \<Rightarrow> stream \<Rightarrow> bool" where
  "range_rows h G rg a b s \<longleftrightarrow> (\<exists>bs. s = stream_of bs \<and> (\<forall>x \<in> set bs. wf_rows G x \<and> dicts_present (groupBy h) x) \<and>
     concat (map batch_rows bs) = concat (map rg [a..<b]))"

definition pipeline_ok :: "agg_conf \<Rightarrow> DataType list \<Rightarrow> (nat \<Rightarrow> val option list list) \<Rightarrow> nat \<Rightarrow> PipelineFactory \<Rightarrow> bool" where
  "pipeline_ok h G rg rgs factory \<longleftrightarrow> (\<forall>a b. a < b \<and> b \<le> rgs \<longrightarrow> (\<exists>p. factory a b = Inr p \<and> range_rows h G rg a b (pstream p) \<and>
     (reusableMorselPipeline (shape p) \<longrightarrow> (\<forall>a b. a < b \<and> b \<le> rgs \<longrightarrow> range_rows h G rg a b (preset p a b)))))"

definition runner_ok :: "agg_conf \<Rightarrow> DataType list \<Rightarrow> (nat \<Rightarrow> val option list list) \<Rightarrow> nat \<Rightarrow> morselRunner \<Rightarrow> bool" where
  "runner_ok h G rg rgs m \<longleftrightarrow> (\<forall>p. held m = Some p \<longrightarrow> (\<forall>a b. a < b \<and> b \<le> rgs \<longrightarrow> range_rows h G rg a b (preset p a b)))"

lemma runner_open_ok:
  assumes "pipeline_ok h G rg rgs factory" "runner_ok h G rg rgs m" "a < b" "b \<le> rgs"
  shows "\<exists>s m'. runner_open factory a b m = Inr (s, m') \<and> range_rows h G rg a b s \<and> runner_ok h G rg rgs m'"
proof (cases "held m")
  case None
  then show ?thesis using assms unfolding pipeline_ok_def by (fastforce simp: runner_open_def runner_ok_def)
qed (use assms in \<open>auto simp: runner_open_def runner_ok_def\<close>)

text \<open>A partial aggregate, while it accumulates and when it is complete.\<close>

definition wagg_inv :: "agg_conf \<Rightarrow> DataType list \<Rightarrow> val option list list \<Rightarrow> agg_state \<Rightarrow> bool" where
  "wagg_inv h G rs st \<longleftrightarrow> (if groupBy h = []
     then \<not> ienabled (intKey st) \<and> (\<exists>ks. gm_ok h (init_group h False G) ks rs (maps st) \<and> (ks = [] \<and> rs = [] \<or> ks = [[]]))
     else acc_inv h G rs st \<and> (intKeyDecided st \<or> rs = [] \<and> st = agg_start))"

definition part_ok :: "agg_conf \<Rightarrow> DataType list \<Rightarrow> val option list list \<Rightarrow> group_maps \<Rightarrow> bool" where
  "part_ok h G rs g \<longleftrightarrow> (\<exists>ks. gm_ok h (init_group h False G) ks rs g \<and>
     (if groupBy h = [] then ks = [] \<and> rs = [] \<or> ks = [[]] else set ks = gcells (groupBy h) ` set rs))"

lemma wagg_inv_start: "wagg_inv h G [] agg_start"
  using acc_inv_start [of h G] gm_ok_init by (auto simp: wagg_inv_def agg_start_def no_intKey_def)

lemma wagg_inv_step:
  assumes ex: "exact_conf G h" and inv: "wagg_inv h G rs st" and wf: "wf_rows G b" "dicts_present (groupBy h) b"
    and T: "\<forall>r \<in> set rs \<union> set (batch_rows b). typed_row G r"
  shows "\<exists>st'. accumulate h st b = Inr st' \<and> wagg_inv h G (rs @ batch_rows b) st'"
proof (cases "groupBy h = []")
  case True
  then obtain ks where "\<not> ienabled (intKey st)" "gm_ok h (init_group h False G) ks rs (maps st)" "ks = [] \<and> rs = [] \<or> ks = [[]]"
    using inv by (auto simp: wagg_inv_def)
  from accumulate_global [OF exact_confD(1) [OF ex] True this wf(1)] show ?thesis using True by (auto simp: wagg_inv_def)
next
  case False
  then show ?thesis using accumulate_grouped [OF exact_confD(1) [OF ex] False _ wf T] inv by (auto simp: wagg_inv_def)
qed

lemma wagg_inv_finish:
  assumes ex: "exact_conf G h" and inv: "wagg_inv h G rs st" and T: "\<forall>r \<in> set rs. typed_row G r"
  shows "\<exists>g. finish_maps h st = Inr g \<and> part_ok h G rs g"
proof (cases "groupBy h = []")
  case True
  then show ?thesis using inv by (auto simp: wagg_inv_def part_ok_def finish_maps_def)
next
  case False
  then have "acc_inv h G rs st" using inv by (simp add: wagg_inv_def)
  from finish_grouped [OF exact_confD(1) [OF ex] False this T] show ?thesis
    using False init_group_plain [OF exact_confD(2) [OF ex]] by (auto simp: part_ok_def)
qed

lemma part_ok_keys:
  assumes ex: "exact_conf G h" and part: "part_ok h G rs g" and T: "\<forall>r \<in> set rs. typed_row G r"
  obtains ks where "gm_ok h (init_group h False G) ks rs g" "\<forall>k \<in> set ks. typed_row (map ((!) G) (groupBy h)) k"
    "if groupBy h = [] then ks = [] \<and> rs = [] \<or> ks = [[]] else set ks = gcells (groupBy h) ` set rs"
proof -
  obtain ks where ks: "gm_ok h (init_group h False G) ks rs g" "if groupBy h = [] then ks = [] \<and> rs = [] \<or> ks = [[]] else set ks = gcells (groupBy h) ` set rs"
    using part by (auto simp: part_ok_def)
  have "typed_row (map ((!) G) (groupBy h)) k" if "k \<in> set ks" for k
    using ks(2) that T typed_gcells [OF _ conf_okD(1) [OF exact_confD(1) [OF ex]]] by (auto simp: typed_row_def split: if_splits)
  then show thesis using that ks by blast
qed

lemma part_ok_merge:
  assumes ex: "exact_conf G h" and part: "part_ok h G rs g" "part_ok h G rs' g'" and T: "\<forall>r \<in> set rs \<union> set rs'. typed_row G r"
    and n: "length rs + length rs' < 2 ^ 63"
  shows "\<exists>m. mergePartialAgg h g g' = Inr m \<and> part_ok h G (rs @ rs') m"
proof -
  obtain ks where ks: "gm_ok h (init_group h False G) ks rs g" "\<forall>k \<in> set ks. typed_row (map ((!) G) (groupBy h)) k"
    "if groupBy h = [] then ks = [] \<and> rs = [] \<or> ks = [[]] else set ks = gcells (groupBy h) ` set rs" using part_ok_keys [OF ex part(1)] T by blast
  obtain ks' where ks': "gm_ok h (init_group h False G) ks' rs' g'" "\<forall>k \<in> set ks'. typed_row (map ((!) G) (groupBy h)) k"
    "if groupBy h = [] then ks' = [] \<and> rs' = [] \<or> ks' = [[]] else set ks' = gcells (groupBy h) ` set rs'" using part_ok_keys [OF ex part(2)] T by blast
  have "\<forall>k \<in> set ks \<union> set ks'. typed_row (map ((!) G) (groupBy h)) k" using ks(2) ks'(2) by blast
  from mergePartialAgg_ok [OF ex ks(1) ks'(1) this refl n] obtain m where m: "mergePartialAgg h g g' = Inr m"
    "gm_ok h (init_group h False G) (group_keys ks ks') (rs @ rs') m" by blast
  have "if groupBy h = [] then group_keys ks ks' = [] \<and> rs @ rs' = [] \<or> group_keys ks ks' = [[]] else set (group_keys ks ks') = gcells (groupBy h) ` set (rs @ rs')"
    using ks(3) ks'(3) by (cases "groupBy h = []") (auto simp: group_keys_def set_firsts)
  then show ?thesis using m by (auto simp: part_ok_def)
qed

text \<open>
  A worker that has claimed the row groups \<open>A\<close> so far, and the state of all workers: every row group below the counter belongs to exactly one worker, the
  counter has passed the last row group once a worker has left its loop, and the channel holds the partial aggregates of the workers that have exited.
\<close>

definition worker_inv :: "agg_conf \<Rightarrow> DataType list \<Rightarrow> (nat \<Rightarrow> val option list list) \<Rightarrow> nat \<Rightarrow> nat list \<Rightarrow> worker \<Rightarrow> bool" where
  "worker_inv h G rg rgs A w \<longleftrightarrow> runner_ok h G rg rgs (wrunner w) \<and> (case wpc w of
     Claiming \<Rightarrow> wagg_inv h G (concat (map rg A)) (wagg w)
   | Opening a b \<Rightarrow> unat a < unat b \<and> unat b \<le> rgs \<and> (\<exists>A'. A = A' @ [unat a..<unat b] \<and> wagg_inv h G (concat (map rg A')) (wagg w))
   | Reading pl \<Rightarrow> (\<exists>bs rs. pl = stream_of bs \<and> (\<forall>x \<in> set bs. wf_rows G x \<and> dicts_present (groupBy h) x) \<and>
       concat (map rg A) = rs @ concat (map batch_rows bs) \<and> wagg_inv h G rs (wagg w))
   | Sending r \<Rightarrow> (\<exists>g. r = Inr g \<and> part_ok h G (concat (map rg A)) g)
   | Exited \<Rightarrow> True)"

definition par_inv :: "agg_conf \<Rightarrow> DataType list \<Rightarrow> (nat \<Rightarrow> val option list list) \<Rightarrow> nat \<Rightarrow> nat \<Rightarrow> nat list list \<Rightarrow> nat list \<Rightarrow> par_state \<Rightarrow> bool" where
  "par_inv h G rg rgs n As ord s \<longleftrightarrow> length As = n \<and> mset (concat As) = mset [0..<min (unat (qnext (queue s))) rgs] \<and>
     (\<forall>i < n. worker_inv h G rg rgs (As ! i) (workers s ! i) \<and> (active (workers s ! i) \<or> rgs \<le> unat (qnext (queue s)))) \<and>
     distinct ord \<and> set ord = {i. i < n \<and> wpc (workers s ! i) = Exited} \<and>
     list_all2 (\<lambda>i r. \<exists>g. r = Inr g \<and> part_ok h G (concat (map rg (As ! i))) g) ord (channel s)"

lemma par_inv_init: "par_inv h G rg rgs n (replicate n []) [] (par_init rgs n)"
  using wagg_inv_start [of h G] by (simp add: par_inv_def par_init_def worker_inv_def new_worker_def new_runner_def runner_ok_def)

lemma mset_concat_update: "i < length As \<Longrightarrow> mset (concat (As[i := As ! i @ B])) = mset (concat As) + mset B"
proof (induction As arbitrary: i)
  case (Cons A As)
  then show ?case by (cases i) auto
qed simp

lemma par_inv_other:
  assumes "par_inv h G rg rgs n As ord s" "length (workers s) = n" "i < n" "worker_inv h G rg rgs (As ! i) w" "wpc w \<noteq> Exited" "wpc (workers s ! i) \<noteq> Exited"
    "active w \<or> rgs \<le> unat (qnext (queue s))"
  shows "par_inv h G rg rgs n As ord \<lparr>queue = queue s, workers = (workers s)[i := w], channel = channel s\<rparr>"
  using assms unfolding par_inv_def by (auto simp: nth_list_update)

lemma range_snoc: "a < b \<Longrightarrow> a < rgs \<Longrightarrow> [0..<min b rgs] = [0..<a] @ [a..<min b rgs]"
  using upt_add_eq_append [of 0 a "min b rgs - a"] by simp

lemma stream_of_eq [simp]:
  "(EOF = stream_of bs \<longleftrightarrow> bs = []) \<and> Failed e \<noteq> stream_of bs \<and> (Deliver b pl = stream_of bs \<longleftrightarrow> (\<exists>bs'. bs = b # bs' \<and> pl = stream_of bs'))"
  by (cases bs) auto

lemma par_inv_step:
  assumes ex: "exact_conf G h" and pl: "pipeline_ok h G rg rgs factory" and T: "\<forall>j < rgs. \<forall>r \<in> set (rg j). typed_row G r"
    and bound: "rgs + k * (n + 1) < 2 ^ 63" "0 < k" and q: "queue_inv rgs k n s" and inv: "par_inv h G rg rgs n As ord s"
    and step: "par_step_at h factory (word_of_nat k) n i s = Some t"
  shows "\<exists>As ord. par_inv h G rg rgs n As ord t"
proof -
  from step obtain w' q' ch' where ws: "worker_step h factory (word_of_nat k) n (workers s ! i) (queue s, channel s) = Some (w', q', ch')"
    and t: "t = \<lparr>queue = q', workers = (workers s)[i := w'], channel = ch'\<rparr>" and i: "i < n" and len: "length (workers s) = n" "length As = n"
    using q inv by (auto elim!: par_step_at_cases simp: queue_inv_def par_inv_def)
  let ?w = "workers s ! i"
  have w: "worker_inv h G rg rgs (As ! i) ?w" using inv i by (simp add: par_inv_def)
  have "set (concat As) = {0..<min (unat (qnext (queue s))) rgs}" using inv unfolding par_inv_def by (metis set_mset_mset set_upt)
  then have sub: "set (concat As) \<subseteq> {0..<rgs}" by auto
  have Ti: "\<forall>r \<in> set (concat (map rg (As ! i))). typed_row G r"
  proof
    fix r assume "r \<in> set (concat (map rg (As ! i)))"
    then obtain j where "j \<in> set (As ! i)" "r \<in> set (rg j)" by auto
    moreover have "As ! i \<in> set As" using i len by simp
    ultimately have "j \<in> set (concat As)" by auto
    then show "typed_row G r" using sub T \<open>r \<in> set (rg j)\<close> by auto
  qed
  have read: thesis if pc: "wpc ?w = Reading (Deliver b pl')" and use: "\<And>rs bs. wagg_inv h G rs (wagg ?w) \<Longrightarrow> wf_rows G b \<Longrightarrow> dicts_present (groupBy h) b \<Longrightarrow>
      \<forall>r \<in> set rs \<union> set (batch_rows b). typed_row G r \<Longrightarrow> pl' = stream_of bs \<Longrightarrow> \<forall>x \<in> set bs. wf_rows G x \<and> dicts_present (groupBy h) x \<Longrightarrow>
      concat (map rg (As ! i)) = (rs @ batch_rows b) @ concat (map batch_rows bs) \<Longrightarrow> thesis" for b pl' thesis
  proof -
    obtain rs bs where rs: "wagg_inv h G rs (wagg ?w)" "wf_rows G b" "dicts_present (groupBy h) b"
      "pl' = stream_of bs" "\<forall>x \<in> set bs. wf_rows G x \<and> dicts_present (groupBy h) x" "concat (map rg (As ! i)) = (rs @ batch_rows b) @ concat (map batch_rows bs)"
      using w pc by (auto simp: worker_inv_def)
    moreover have "\<forall>r \<in> set rs \<union> set (batch_rows b). typed_row G r" using Ti unfolding rs(6) by auto
    ultimately show thesis using use by blast
  qed
  note other = par_inv_other [OF inv len(1) i]
  show ?thesis
    using ws
  proof (cases rule: worker_step_cases)
    case claim_none
    obtain x where x: "qnext (queue s) = word_of_nat x" "x + k < 2 ^ 63" "qnext (queue t) = word_of_nat (x + k)" "rgs \<le> x"
      using queue_inv_step(2) [OF q step bound(1) claim_none(1)] claim_none(2) by (auto split: if_splits)
    then have u: "unat (qnext (queue s)) = x" "unat (qnext q') = x + k" using unat_i64 [of x] unat_i64 [of "x + k"] by (simp_all add: t)
    obtain g where "finish_maps h (wagg ?w) = Inr g" "part_ok h G (concat (map rg (As ! i))) g"
      using w claim_none(1) wagg_inv_finish [OF ex _ Ti] by (auto simp: worker_inv_def)
    then have "worker_inv h G rg rgs (As ! i) w'" using w claim_none(3) by (simp add: worker_inv_def)
    then have "par_inv h G rg rgs n As ord t" using inv i len claim_none(1,3,4) u x(4) unfolding par_inv_def t by (auto simp: nth_list_update)
    then show ?thesis by blast
  next
    case (claim_some a b)
    obtain x where x: "qnext (queue s) = word_of_nat x" "x + k < 2 ^ 63" "qnext (queue t) = word_of_nat (x + k)" "x < rgs"
      "a = word_of_nat x" "b = word_of_nat (min (x + k) rgs)"
      using queue_inv_step(2) [OF q step bound(1) claim_some(1)] claim_some(2) by (auto split: if_splits)
    then have u: "unat (qnext (queue s)) = x" "unat (qnext q') = x + k" "unat a = x" "unat b = min (x + k) rgs"
      using unat_i64 [of x] unat_i64 [of "x + k"] unat_i64 [of "min (x + k) rgs"] by (simp_all add: t)
    let ?B = "[x..<min (x + k) rgs]"
    have "worker_inv h G rg rgs (As ! i @ ?B) w'" using w claim_some(1,3) u x(4) bound(2) by (auto simp: worker_inv_def)
    moreover have "mset (concat (As[i := As ! i @ ?B])) = mset [0..<min (x + k) rgs]"
      using mset_concat_update [of i As ?B] inv i len range_snoc [of x "x + k" rgs] x(4) u(1) bound(2) by (simp add: par_inv_def)
    moreover have "list_all2 (\<lambda>j r. \<exists>g. r = Inr g \<and> part_ok h G (concat (map rg (As[i := As ! i @ ?B] ! j))) g) ord (channel s)"
    proof (rule list.rel_mono_strong)
      show "list_all2 (\<lambda>j r. \<exists>g. r = Inr g \<and> part_ok h G (concat (map rg (As ! j))) g) ord (channel s)" using inv by (simp add: par_inv_def)
      fix j r assume "j \<in> set ord" "\<exists>g. r = Inr g \<and> part_ok h G (concat (map rg (As ! j))) g"
      moreover have "i \<notin> set ord" using inv claim_some(1) by (simp add: par_inv_def)
      ultimately show "\<exists>g. r = Inr g \<and> part_ok h G (concat (map rg (As[i := As ! i @ ?B] ! j))) g" by (metis nth_list_update_neq)
    qed
    ultimately have "par_inv h G rg rgs n (As[i := As ! i @ ?B]) ord t"
      using inv i len claim_some(1,3,4) u x(4) unfolding par_inv_def t by (auto simp: nth_list_update)
    then show ?thesis by blast
  next
    case (open_fail a b e)
    then show ?thesis using w runner_open_ok [OF pl, of "wrunner ?w" "unat a" "unat b"] by (auto simp: worker_inv_def)
  next
    case (open_ok a b pl' m)
    obtain A' where A: "unat a < unat b" "unat b \<le> rgs" "As ! i = A' @ [unat a..<unat b]" "wagg_inv h G (concat (map rg A')) (wagg ?w)"
      using w open_ok(1) by (auto simp: worker_inv_def)
    obtain bs where "pl' = stream_of bs" "\<forall>x \<in> set bs. wf_rows G x \<and> dicts_present (groupBy h) x" "concat (map batch_rows bs) = concat (map rg [unat a..<unat b])"
      "runner_ok h G rg rgs m"
      using runner_open_ok [OF pl _ A(1,2), of "wrunner ?w"] w open_ok(2) by (auto simp: worker_inv_def range_rows_def)
    then have "worker_inv h G rg rgs (As ! i) w'" using A open_ok(3) by (auto simp: worker_inv_def)
    then show ?thesis using other [of w'] open_ok(1,3-5) t by auto
  next
    case (read_fail e)
    then show ?thesis using w by (simp add: worker_inv_def)
  next
    case read_end
    then have "worker_inv h G rg rgs (As ! i) w'" using w by (auto simp: worker_inv_def)
    then show ?thesis using other [of w'] read_end t by auto
  next
    case (acc_fail b pl' e)
    then show ?thesis using read [OF acc_fail(1)] wagg_inv_step [OF ex] by (metis sum.distinct(1))
  next
    case (acc_ok b pl' st)
    obtain rs bs where rs: "wagg_inv h G rs (wagg ?w)" "wf_rows G b" "dicts_present (groupBy h) b" "\<forall>r \<in> set rs \<union> set (batch_rows b). typed_row G r"
      "pl' = stream_of bs" "\<forall>x \<in> set bs. wf_rows G x \<and> dicts_present (groupBy h) x" "concat (map rg (As ! i)) = (rs @ batch_rows b) @ concat (map batch_rows bs)"
      using read [OF acc_ok(1)] by blast
    then have "wagg_inv h G (rs @ batch_rows b) st" using wagg_inv_step [OF ex rs(1-4)] acc_ok(2) by auto
    moreover have "runner_ok h G rg rgs (wrunner ?w)" using w by (simp add: worker_inv_def)
    ultimately have "worker_inv h G rg rgs (As ! i) w'" using acc_ok(3) rs(5-7) by (auto simp: worker_inv_def intro!: exI [of _ bs] exI [of _ "rs @ batch_rows b"])
    then show ?thesis using other [of w'] acc_ok t by auto
  next
    case (send r)
    have ni: "i \<notin> set ord" using inv send(1) by (simp add: par_inv_def)
    obtain g where "r = Inr g" "part_ok h G (concat (map rg (As ! i))) g" using w send(1) by (auto simp: worker_inv_def)
    moreover have "worker_inv h G rg rgs (As ! i) w'" using w send(3) by (simp add: worker_inv_def)
    ultimately have "par_inv h G rg rgs n As (ord @ [i]) t" using inv i len ni send unfolding par_inv_def t
      by (auto simp: nth_list_update intro!: list_all2_appendI split: if_splits)
    then show ?thesis by blast
  qed
qed

lemma reach_par_inv:
  assumes "exact_conf G h" "pipeline_ok h G rg rgs factory" "\<forall>j < rgs. \<forall>r \<in> set (rg j). typed_row G r"
    and bound: "rgs + k * (n + 1) < 2 ^ 63" "0 < k" and "reach h factory (word_of_nat k) rgs n s"
  shows "\<exists>As ord. par_inv h G rg rgs n As ord s"
  using assms(6) unfolding reach_def
proof (induction rule: rtranclp_induct)
  case base
  then show ?case using par_inv_init by blast
next
  case (step s t)
  have "queue_inv rgs k n s" using reach_inv step.hyps(1) bound(1) unfolding reach_def by blast
  then show ?case using step par_inv_step [OF assms(1-5)] by (auto elim!: par_stepE)
qed

text \<open>The merge of the partial aggregates, in whatever order they arrive.\<close>

lemma merge_all:
  assumes ex: "exact_conf G h" and parts: "list_all2 (\<lambda>rs g. part_ok h G rs g) rss gs" and T: "\<forall>r \<in> set (concat rss). typed_row G r"
    and n: "length (concat rss) < 2 ^ 63"
  shows "\<exists>m. fold_res (mergePartialAgg h) initMaps gs = Inr m \<and> part_ok h G (concat rss) m"
  using parts T n
proof (induction rss arbitrary: gs rule: rev_induct)
  case Nil
  then show ?case using gm_ok_init [of h] by (auto simp: part_ok_def)
next
  case (snoc rs rss)
  then obtain gs' g where gs: "gs = gs' @ [g]" "list_all2 (\<lambda>rs g. part_ok h G rs g) rss gs'" "part_ok h G rs g"
    by (auto simp: list_all2_append1 list_all2_Cons1)
  obtain m where m: "fold_res (mergePartialAgg h) initMaps gs' = Inr m" "part_ok h G (concat rss) m" using snoc.IH [OF gs(2)] snoc.prems(2,3) by auto
  have "\<exists>m'. mergePartialAgg h m g = Inr m' \<and> part_ok h G (concat rss @ rs) m'" using snoc.prems by (intro part_ok_merge [OF ex m(2) gs(3)]) auto
  then show ?case using m(1) gs(1) by (auto simp: fold_res_append)
qed

lemma concat_map_concat: "concat (map f (concat xss)) = concat (map (\<lambda>xs. concat (map f xs)) xss)"
  by (induction xss) auto

lemma list_all2_Inr: "list_all2 (\<lambda>i r. \<exists>g. r = Inr g \<and> P i g) xs rs \<Longrightarrow> \<exists>gs. rs = map Inr gs \<and> list_all2 P xs gs"
proof (induction rule: list_all2_induct)
  case (Cons x xs r rs)
  then show ?case by (metis list.simps(9) list_all2_Cons)
qed simp

lemma final_parts:
  assumes inv: "par_inv h G rg rgs n As ord s" and final: "\<forall>w \<in> set (workers s). wpc w = Exited" "length (workers s) = n" "0 < n"
  shows "\<exists>rss gs. channel s = map Inr gs \<and> list_all2 (\<lambda>rs g. part_ok h G rs g) rss gs \<and> mset (concat rss) = mset (concat (map rg [0..<rgs]))"
proof -
  let ?rss = "map (\<lambda>i. concat (map rg (As ! i))) ord"
  have As: "length As = n" "mset (concat As) = mset [0..<min (unat (qnext (queue s))) rgs]" using inv by (simp_all add: par_inv_def)
  have "wpc (workers s ! 0) = Exited" using final by simp
  then have "\<not> active (workers s ! 0)" by simp
  then have "rgs \<le> unat (qnext (queue s))" using inv final(3) unfolding par_inv_def by blast
  then have all: "mset (concat As) = mset [0..<rgs]" using As(2) by simp
  have "set ord = {0..<n}" "distinct ord" using inv final(1,2) unfolding par_inv_def by auto
  then have "mset ord = mset [0..<n]" by (metis distinct_upt mset_set_set set_upt)
  then have "mset (map (\<lambda>i. As ! i) ord) = mset As" using As(1) by (metis map_nth mset_map)
  then have "mset (concat (map (\<lambda>i. As ! i) ord)) = mset (concat As)" by (metis mset_concat mset_map sum_mset_sum_list)
  then have "mset (concat (map rg (concat (map (\<lambda>i. As ! i) ord)))) = mset (concat (map rg [0..<rgs]))" using all by (metis mset_concat mset_map sum_mset_sum_list)
  then have perm: "mset (concat ?rss) = mset (concat (map rg [0..<rgs]))" by (simp add: concat_map_concat comp_def)
  have "list_all2 (\<lambda>i r. \<exists>g. r = Inr g \<and> part_ok h G (concat (map rg (As ! i))) g) ord (channel s)" using inv by (simp add: par_inv_def)
  from list_all2_Inr [OF this] obtain gs where "channel s = map Inr gs" "list_all2 (\<lambda>i g. part_ok h G (concat (map rg (As ! i))) g) ord gs" by blast
  then show ?thesis using perm by (intro exI [of _ ?rss] exI [of _ gs]) (simp add: list_all2_map1)
qed

section \<open>The operator delivers the groups of the whole table\<close>

lemma delegate_step:
  "delegate p = Some d \<Longrightarrow> \<not> emptyGlobalPending p \<Longrightarrow>
    ParallelHashAggregate_Next results p = res_map (\<lambda>(batch, d). (batch, p\<lparr>delegate := Some d\<rparr>)) (HashAggregate_Next (pconf p) d)"
  by (simp add: ParallelHashAggregate_Next_def)

lemma res_option_cases:
  obtains (fail) e where "x = Inl e" | (none) s where "x = Inr (None, s)" | (some) b s where "x = Inr (Some b, s)"
  by (metis old.sum.exhaust option.exhaust surj_pair)

lemma delegate_drain:
  assumes "drain (HashAggregate_Next (pconf p)) d = Some out" "delegate p = Some d" "\<not> emptyGlobalPending p"
  shows "drain (ParallelHashAggregate_Next results) p = Some out"
  using assms
proof (induction out arbitrary: d p)
  case EOF
  then show ?case using delegate_step [OF EOF(2,3), of results]
    by (cases "HashAggregate_Next (pconf p) d" rule: res_option_cases) (auto simp: drain_steps)
next
  case (Failed e)
  then show ?case using delegate_step [OF Failed(2,3), of results]
    by (cases "HashAggregate_Next (pconf p) d" rule: res_option_cases) (auto simp: drain_steps)
next
  case (Deliver b out)
  note step = delegate_step [OF Deliver.prems(2,3), of results]
  show ?case
  proof (cases "HashAggregate_Next (pconf p) d" rule: res_option_cases)
    case (some b' d')
    then have "b' = b" "drain (HashAggregate_Next (pconf p)) d' = Some out" using Deliver.prems(1) drain_steps(3) [where step = "HashAggregate_Next (pconf p)", OF some] by auto
    then show ?thesis using Deliver.IH [of "p\<lparr>delegate := Some d'\<rparr>" d'] Deliver.prems(3) step some by (simp add: drain_steps(3))
  qed (use Deliver.prems(1) in \<open>auto simp: drain_steps\<close>)
qed

lemma part_drain:
  assumes ex: "exact_conf G h" and schema: "map Type (aschema h) = out_types h G" "groupBy h \<noteq> [] \<or> aggExprs h \<noteq> []"
    and part: "part_ok h G rs g" and T: "\<forall>r \<in> set rs. typed_row G r"
    and n: "length rs < 2 ^ 63" "sum_list (map row_bytes (agg_rows h G rs)) + length (agg_rows h G rs) < 2 ^ 32"
    and p: "pconf p = h" "delegate p = Some \<lparr>achild = EOF, amaps = g, adone = True, outPos = 0\<rparr>" "emptyGlobalPending p \<longleftrightarrow> gkeys g = [] \<and> groupBy h = []"
  shows "\<exists>out. drain (ParallelHashAggregate_Next results) p = Some out \<and> ends_ok out \<and>
    (\<forall>b \<in> set (batches out). wf_rows (out_types h G) b) \<and> mset (all_rows out) = mset (agg_rows h G rs)"
proof -
  note c = exact_confD(1) [OF ex]
  obtain ks where ks: "gm_ok h (init_group h False G) ks rs g" "\<forall>k \<in> set ks. typed_row (map ((!) G) (groupBy h)) k"
    "if groupBy h = [] then ks = [] \<and> rs = [] \<or> ks = [[]] else set ks = gcells (groupBy h) ` set rs" using part_ok_keys [OF ex part T] by blast
  have gk: "gkeys g = map enc_row ks" using ks(1) by (simp add: gm_ok_def)
  show ?thesis
  proof (cases "emptyGlobalPending p")
    case True
    then have e: "rs = []" "groupBy h = []" "aggExprs h \<noteq> []" "gkeys g = []" using p(3) ks(3) schema(2) gk by (auto split: if_splits)
    obtain b where b: "buildEmptyGlobalResult h = Inr b" "wf_rows (out_types h G) b" "batch_rows b = [out_row h G [] []]"
      using empty_global [OF c schema(1) e(2,3)] by blast
    let ?d = "\<lparr>achild = EOF, amaps = g, adone = True, outPos = 1\<rparr>" and ?p = "p\<lparr>emptyGlobalPending := False, delegate := Some \<lparr>achild = EOF, amaps = g, adone = True, outPos = 1\<rparr>\<rparr>"
    have "drain (HashAggregate_Next h) ?d = Some EOF" by (rule drain_steps(2)) (simp add: HashAggregate_Next_def emit_groups_def e(4))
    then have "drain (ParallelHashAggregate_Next results) ?p = Some EOF" using p(1) by (intro delegate_drain [where d = ?d]) simp_all
    moreover have "ParallelHashAggregate_Next results p = Inr (Some b, ?p)" using True p(1,2) b(1) by (simp add: ParallelHashAggregate_Next_def)
    ultimately show ?thesis using b(2,3) e by (simp add: drain_steps(3) agg_rows_def)
  next
    case False
    have perm: "mset (map (out_row h G rs) ks) = mset (agg_rows h G rs)"
    proof (cases "groupBy h = []")
      case True
      then show ?thesis using False p(3) gk ks(3) by (auto simp: agg_rows_def)
    next
      case ne: False
      then show ?thesis using agg_rows_groups [OF ks(1) _ ne] ks(3) by simp
    qed
    then have "sum_list (map row_bytes (map (out_row h G rs) ks)) = sum_list (map row_bytes (agg_rows h G rs))" "length (map (out_row h G rs) ks) = length (agg_rows h G rs)"
      by (metis mset_map sum_mset_sum_list, metis size_mset)
    then have size: "sum_list (map row_bytes (map (out_row h G rs) ks)) + length ks < 2 ^ 32" using n(2) by simp
    obtain out where out: "drain (HashAggregate_Next h) \<lparr>achild = EOF, amaps = g, adone = True, outPos = 0\<rparr> = Some out" "ends_ok out"
      "\<forall>b \<in> set (batches out). wf_rows (out_types h G) b" "all_rows out = drop 0 (map (out_row h G rs) ks)"
      using emit_drain [OF c schema ks(1) T ks(2) n(1) size, of 0] by blast
    have "drain (ParallelHashAggregate_Next results) p = Some out" using delegate_drain [OF _ p(2) False] out(1) p(1) by simp
    then show ?thesis using out(2-4) perm by simp
  qed
qed

text \<open>Without float accumulators the rows are those SQL prescribes.\<close>

lemma exact_rows_sql:
  assumes "exact_conf G h" "\<forall>r \<in> set rs. typed_row G r"
  shows "agg_rows h G rs = sql_rows h G rs"
proof (rule agg_rows_sql [OF _ assms(2)])
  show c: "conf_ok G h" using assms(1) by (simp add: exact_conf_def)
  have "seed_safe (AKind ae) y" if ae: "ae \<in> set (aggExprs h)" "AKind ae = AggMin \<or> AKind ae = AggMax" and y: "r \<in> set rs" "agg_arg ae r = Some y" for ae r y
  proof -
    have ok: "agg_ok G ae" "AccumType ae \<noteq> Some TypeFloat64" using assms(1) c ae(1) by (auto simp: exact_conf_def exact_agg_def conf_ok_def)
    have "Some y \<in> set (map (agg_arg ae) rs)" using y by (metis image_eqI list.set_map)
    then have "val_type y = agg_type G ae" using agg_arg_typed [OF assms(2) ok(1)] by (simp add: set_present)
    moreover have "agg_type G ae \<noteq> TypeFloat64" using ok ae(2) by (auto simp: agg_ok_def agg_type_def AccumTypeFor_def split: if_splits)
    ultimately show ?thesis by (cases y) (auto simp: seed_safe_def)
  qed
  then show "minmax_safe h rs" by (auto simp: minmax_safe_def)
qed

text \<open>
  C5: Parallel aggregation computes what serial aggregation computes. Take any number of workers, any morsel size and any interleaving of the workers up to a state in which none
  can step; let the pipelines deliver, for a range of row groups, the rows of those groups, whether they are rebuilt or repositioned. Then the merged aggregate, in whatever
  order the partial aggregates arrive, delivers without error exactly the groups and aggregate values of the whole table, up to the order of
  the rows: every row group is aggregated exactly once. This holds for COUNT, integer SUM, and MIN and MAX over everything but floats; float accumulators
  depend on the order of addition, and COUNT(DISTINCT) is not run in parallel. For these aggregates the values are the SQL values (\<open>exact_rows_sql\<close>).
\<close>

theorem ParallelHashAggregate_groups:
  assumes p: "p = NewParallelHashAggregate rgs nw ms gb aggs schema" and ex: "exact_conf G (pconf p)"
    and schema: "map Type schema = out_types (pconf p) G" "gb \<noteq> [] \<or> aggs \<noteq> []"
    and pl: "pipeline_ok (pconf p) G rg rgs factory" and T: "\<forall>j < rgs. \<forall>r \<in> set (rg j). typed_row G r"
    and bound: "rgs + morselSize p * (numWorkers p + 1) < 2 ^ 63" and rs: "rs = concat (map rg [0..<rgs])" "length rs < 2 ^ 63"
    and bytes: "sum_list (map row_bytes (agg_rows (pconf p) G rs)) + length (agg_rows (pconf p) G rs) < 2 ^ 32"
    and run: "reach (pconf p) factory (word_of_nat (morselSize p)) rgs (numWorkers p) s"
    and final: "\<nexists>t. par_step (pconf p) factory (word_of_nat (morselSize p)) (numWorkers p) s t"
  shows "\<exists>out. drain (ParallelHashAggregate_Next (channel s)) p = Some out \<and> ends_ok out \<and>
    (\<forall>b \<in> set (batches out). wf_rows (map Type schema) b) \<and> mset (all_rows out) = mset (agg_rows (pconf p) G rs)"
proof -
  let ?h = "pconf p"
  have h: "groupBy ?h = gb" "aggExprs ?h = aggs" "aschema ?h = schema" and fresh: "delegate p = None" "totalRGs p = rgs" "0 < numWorkers p" "0 < morselSize p"
    unfolding p NewParallelHashAggregate_def newPartialAggregate_def Let_def by (auto simp: defaultMorselSize_def)
  have schema': "map Type (aschema ?h) = out_types ?h G" "groupBy ?h \<noteq> [] \<or> aggExprs ?h \<noteq> []" using schema h by simp_all
  have Tr: "\<forall>r \<in> set rs. typed_row G r" using T rs(1) by auto
  have "\<exists>rs' g q. finish_setup (channel s) p = Inr q \<and> mset rs' = mset rs \<and> part_ok ?h G rs' g \<and> pconf q = ?h \<and>
      delegate q = Some \<lparr>achild = EOF, amaps = g, adone = True, outPos = 0\<rparr> \<and> (emptyGlobalPending q \<longleftrightarrow> gkeys g = [] \<and> groupBy ?h = [])"
  proof (cases "rgs = 0")
    case True
    have "part_ok ?h G [] initMaps" using gm_ok_init [of ?h] by (auto simp: part_ok_def)
    then show ?thesis using True fresh rs(1) by (intro exI [of _ "[]"] exI [of _ initMaps]) (simp add: finish_setup_def, simp add: initMaps_def)
  next
    case False
    obtain As ord where inv: "par_inv ?h G rg rgs (numWorkers p) As ord s" using reach_par_inv [OF ex pl T bound fresh(4) run] by blast
    have q: "queue_inv rgs (morselSize p) (numWorkers p) s" by (rule reach_inv [OF run bound])
    then obtain rss gs where parts: "channel s = map Inr gs" "list_all2 (\<lambda>rs g. part_ok ?h G rs g) rss gs" "mset (concat rss) = mset rs"
      using final_parts [OF inv stuck_workers [OF q final]] fresh(3) rs(1) by (auto simp: queue_inv_def)
    have "\<forall>r \<in> set (concat rss). typed_row G r" "length (concat rss) < 2 ^ 63" using parts(3) Tr rs(2) by (metis set_mset_mset, metis size_mset)
    then obtain m where m: "fold_res (mergePartialAgg ?h) initMaps gs = Inr m" "part_ok ?h G (concat rss) m" using merge_all [OF ex parts(2)] by blast
    have "first_error (map Inr gs) = None" "concat (map (case_sum (\<lambda>_. []) (\<lambda>g. [g])) (map Inr gs :: group_maps xres list)) = gs" by (induction gs) auto
    then have "finish_setup (channel s) p = Inr (p\<lparr>delegate := Some \<lparr>achild = EOF, amaps = m, adone = True, outPos = 0\<rparr>, emptyGlobalPending := (gkeys m = [] \<and> groupBy ?h = [])\<rparr>)"
      using m(1) fresh(2) False unfolding finish_setup_def parts(1) Let_def by simp
    then show ?thesis using m(2) parts(3) by (intro exI [of _ "concat rss"] exI [of _ m]) simp
  qed
  then obtain rs' g q where q: "finish_setup (channel s) p = Inr q" "mset rs' = mset rs" "part_ok ?h G rs' g" "pconf q = ?h"
    "delegate q = Some \<lparr>achild = EOF, amaps = g, adone = True, outPos = 0\<rparr>" "emptyGlobalPending q \<longleftrightarrow> gkeys g = [] \<and> groupBy ?h = []" by blast
  have same: "drain (ParallelHashAggregate_Next (channel s)) p = drain (ParallelHashAggregate_Next (channel s)) q"
    by (rule drain_same) (simp add: ParallelHashAggregate_Next_def fresh(1) q(1,5))
  have T': "\<forall>r \<in> set rs'. typed_row G r" and n': "length rs' < 2 ^ 63" using q(2) Tr rs(2) by (metis set_mset_mset, metis size_mset)
  have perm: "mset (agg_rows ?h G rs') = mset (agg_rows ?h G rs)" by (rule agg_rows_perm [OF ex T' q(2)])
  then have "sum_list (map row_bytes (agg_rows ?h G rs')) = sum_list (map row_bytes (agg_rows ?h G rs))" "length (agg_rows ?h G rs') = length (agg_rows ?h G rs)"
    by (metis mset_map sum_mset_sum_list, metis size_mset)
  then have b': "sum_list (map row_bytes (agg_rows ?h G rs')) + length (agg_rows ?h G rs') < 2 ^ 32" using bytes by simp
  from part_drain [OF ex schema' q(3) T' n' b' q(4-6), of "channel s"] show ?thesis unfolding same schema(1) perm .
qed

definition ex_scan :: PipelineFactory where
  "ex_scan a b = Inr \<lparr>shape = TableScanOp, pstream = stream_of (replicate (b - a) ex_ints), preset = (\<lambda>a b. stream_of (replicate (b - a) ex_ints))\<rparr>"

definition ex_parallel :: ParallelHashAggregate where
  "ex_parallel = NewParallelHashAggregate 2 8 0 [0] [ex_agg\<lparr>AccumType := Some TypeInt64\<rparr>]
     (ex_agg_schema @ [\<lparr>Name = ''n'', Type = TypeInt64, FEncoding = EncPlain, Nullable = True\<rparr>])"

lemma ex_parallel_fields:
  "pconf ex_parallel = \<lparr>groupBy = [0], aggExprs = [ex_agg\<lparr>AccumType := Some TypeInt64\<rparr>],
     aschema = ex_agg_schema @ [\<lparr>Name = ''n'', Type = TypeInt64, FEncoding = EncPlain, Nullable = True\<rparr>], hasDistinct = False\<rparr>"
  "numWorkers ex_parallel = 2" "morselSize ex_parallel = 1"
  by (simp_all add: ex_parallel_def NewParallelHashAggregate_def newPartialAggregate_def defaultMorselSize_def)

theorem ParallelHashAggregate_groups_witness:
  "\<exists>s out. reach (pconf ex_parallel) ex_scan 1 2 2 s \<and> drain (ParallelHashAggregate_Next (channel s)) ex_parallel = Some out \<and>
    mset (all_rows out) = {#[Some (VInt 5), Some (VInt 4)], [Some (VInt 7), Some (VInt 2)]#}"
proof -
  let ?h = "pconf ex_parallel" and ?G = "[TypeInt64]" and ?rg = "\<lambda>j :: nat. batch_rows ex_ints"
  let ?rs = "concat (map ?rg [0..<2])"
  have ex: "exact_conf ?G ?h" by (simp add: ex_parallel_fields exact_conf_def conf_ok_def agg_ok_def exact_agg_def ex_agg_def)
  have schema: "map Type (ex_agg_schema @ [\<lparr>Name = ''n'', Type = TypeInt64, FEncoding = EncPlain, Nullable = True\<rparr>]) = out_types ?h ?G"
    by (simp add: ex_parallel_fields out_types_def out_type_def agg_type_def ex_agg_def ex_agg_schema_def)
  have d: "dicts_present (groupBy ?h) ex_ints" by (simp add: dicts_present_def ex_parallel_fields ex_ints_def)
  have range: "range_rows ?h ?G ?rg a b (stream_of (replicate (b - a) ex_ints))" for a b
  proof -
    have "concat (map batch_rows (replicate (b - a) ex_ints)) = concat (map ?rg [a..<b])" by (simp add: map_replicate_const)
    moreover have "\<forall>x \<in> set (replicate (b - a) ex_ints). wf_rows ?G x \<and> dicts_present (groupBy ?h) x" using ex_ints_wf d by auto
    ultimately show ?thesis unfolding range_rows_def by blast
  qed
  have pl: "pipeline_ok ?h ?G ?rg 2 ex_scan" using range by (simp add: pipeline_ok_def ex_scan_def)
  have T: "\<forall>j < 2. \<forall>r \<in> set (?rg j). typed_row ?G r" by (simp add: ex_ints_rows typed_row_def typed_cell_def)
  have rows: "agg_rows ?h ?G ?rs = [[Some (VInt 5), Some (VInt 4)], [Some (VInt 7), Some (VInt 2)]]"
    by (simp add: agg_rows_def out_row_def group_value_def agg_value_def ex_parallel_fields gcells_def ex_ints_rows ex_agg_def upt_conv_Cons)
  obtain s where s: "reach ?h ex_scan (word_of_nat (morselSize ex_parallel)) 2 (numWorkers ex_parallel) s"
    "\<nexists>t. par_step ?h ex_scan (word_of_nat (morselSize ex_parallel)) (numWorkers ex_parallel) s t"
    using final_reachable [of 2 1 2 ?h ex_scan] unfolding ex_parallel_fields(2,3) by auto
  have "\<exists>out. drain (ParallelHashAggregate_Next (channel s)) ex_parallel = Some out \<and> ends_ok out \<and>
    (\<forall>b \<in> set (batches out). wf_rows (map Type (ex_agg_schema @ [\<lparr>Name = ''n'', Type = TypeInt64, FEncoding = EncPlain, Nullable = True\<rparr>])) b) \<and>
    mset (all_rows out) = mset (agg_rows ?h ?G ?rs)"
  proof (rule ParallelHashAggregate_groups [OF ex_parallel_def ex schema _ pl T _ refl _ _ s])
    show "2 + morselSize ex_parallel * (numWorkers ex_parallel + 1) < 2 ^ 63" by (simp add: ex_parallel_fields)
    show "length ?rs < 2 ^ 63" by (simp add: ex_ints_rows upt_conv_Cons)
    show "sum_list (map row_bytes (agg_rows ?h ?G ?rs)) + length (agg_rows ?h ?G ?rs) < 2 ^ 32" unfolding rows by (simp add: row_bytes_def)
  qed simp
  then show ?thesis using s(1) unfolding rows ex_parallel_fields(2,3) by auto
qed

end
