(* ===== verification/Writer.thy ===== *)
theory Writer
  imports Codec Float64
begin

text \<open>
  Writing a table file (\<^verbatim>\<open>storage/writer.go\<close>, the metadata of \<^verbatim>\<open>storage/schema.go\<close>): the magic, per row group a section of checksummed
  blocks of at most 1024 rows for every column, with the dictionary after the blocks of a STRING column, and a
  footer with the schema, the row-group directory and the zone maps. The file is the byte list written so far; creating, flushing
  and renaming it are not modelled, and writing to it does not fail.
\<close>

type_synonym 'a sres = "(storage_error, 'a) res"

section \<open>Metadata\<close>

record ZoneMap =
  NullCount :: i64
  ZSum :: i64
  ZMin :: u64
  ZMax :: u64
  HasMinMax :: bool

record ColumnSectionMeta =
  SectionOffset :: i64
  SectionLength :: i64
  Stats :: ZoneMap
  DictOffset :: u32
  DictLength :: u32

record RowGroupMeta =
  FileOffset :: i64
  NumRows :: nat
  Columns :: "ColumnSectionMeta list"

record FileMeta =
  MSchema :: Schema
  RowGroups :: "RowGroupMeta list"

definition Magic :: string where
  "Magic = ''VXQ1''"

definition no_stats :: ZoneMap where
  "no_stats = \<lparr>NullCount = 0, ZSum = 0, ZMin = 0, ZMax = 0, HasMinMax = False\<rparr>"

definition no_column :: ColumnSectionMeta where
  "no_column = \<lparr>SectionOffset = 0, SectionLength = 0, Stats = no_stats, DictOffset = 0, DictLength = 0\<rparr>"


section \<open>State\<close>

text \<open>The values of a column, as the slice types that \<^verbatim>\<open>AppendColumn\<close> accepts.\<close>

datatype col_values = Int64s "i64 list" | Float64s "f64 list" | Dates "i32 list" | Bools "bool list" | Strings "string list"

record Writer =
  wschema :: Schema
  wfile :: "byte list"
  woffset :: i64
  wmeta :: "RowGroupMeta list"
  rgNumRows :: nat
  rgColWritten :: "bool list"
  rgColMeta :: "ColumnSectionMeta list"
  rgStartOff :: i64

definition mustWrite :: "byte list \<Rightarrow> Writer \<Rightarrow> Writer" where
  "mustWrite b w = w\<lparr>wfile := wfile w @ b, woffset := woffset w + word_of_nat (length b)\<rparr>"

definition NewWriter :: "Schema \<Rightarrow> Writer" where
  "NewWriter schema = \<lparr>wschema = schema, wfile = bytes_of Magic, woffset = word_of_nat (length Magic), wmeta = [],
     rgNumRows = 0, rgColWritten = [], rgColMeta = [], rgStartOff = 0\<rparr>"

definition BeginRowGroup :: "nat \<Rightarrow> Writer \<Rightarrow> Writer sres" where
  "BeginRowGroup numRows w = (if rgNumRows w \<noteq> 0 then Inl (Err ErrRowGroupOpen)
     else Inr (w\<lparr>rgNumRows := numRows, rgColWritten := replicate (length (wschema w)) False,
       rgColMeta := replicate (length (wschema w)) no_column, rgStartOff := woffset w\<rparr>))"


section \<open>Blocks\<close>

text \<open>The starts of the blocks of \<open>n\<close> rows: the loops \<^verbatim>\<open>for blockStart := 0; blockStart < n; blockStart += BlockRows\<close>.\<close>

definition block_starts :: "nat \<Rightarrow> nat list" where
  "block_starts n = map (\<lambda>i. i * BlockRows) [0..<(n + BlockRows - 1) div BlockRows]"

definition subBitmap :: "byte list \<Rightarrow> nat \<Rightarrow> nat \<Rightarrow> byte list sres" where
  "subBitmap bitmap start rows = fold_res (\<lambda>sub i. res_bind (IsNullBit bitmap (start + i)) (\<lambda>null.
     if null then Inr sub else SetValidBit sub i)) (replicate ((rows + 7) div 8) 0) [0..<rows]"

definition block_of :: "'a list \<Rightarrow> nat \<Rightarrow> 'a list" where
  "block_of values blockStart = take (min (blockStart + BlockRows) (length values) - blockStart) (drop blockStart values)"

definition fixed_block :: "(byte list \<Rightarrow> 'a \<Rightarrow> byte list) \<Rightarrow> byte list \<Rightarrow> 'a list \<Rightarrow> byte list" where
  "fixed_block app blockNulls blockVals = (let buf = copy_into (replicate NullBitmapBytes 0) blockNulls in
     AppendChecksum (foldl app buf blockVals))"

text \<open>The loop over the blocks of a column: write the block, then update the statistics with its rows.\<close>

definition write_blocks :: "(byte list \<Rightarrow> 'a list \<Rightarrow> byte list sres) \<Rightarrow> ('s \<Rightarrow> bool \<times> 'a \<Rightarrow> 's) \<Rightarrow> 's \<Rightarrow> byte list \<Rightarrow> 'a list \<Rightarrow> Writer \<Rightarrow> ('s \<times> Writer) sres" where
  "write_blocks block stat s0 nullBitmap values w = fold_res (\<lambda>(stats, w) blockStart. let blockVals = block_of values blockStart in
     res_bind (subBitmap nullBitmap blockStart (length blockVals)) (\<lambda>blockNulls.
     res_bind (block blockNulls blockVals) (\<lambda>buf. let w = mustWrite buf w in
     res_map (\<lambda>stats. (stats, w)) (fold_res (\<lambda>stats (i, v). res_map (\<lambda>null. stat stats (null, v)) (IsNullBit blockNulls i)) stats (enumerate 0 blockVals)))))
     (s0, w) (block_starts (length values))"

definition count_null :: "ZoneMap \<Rightarrow> ZoneMap" where
  "count_null stats = stats\<lparr>NullCount := NullCount stats + 1\<rparr>"

definition int64_stat :: "ZoneMap \<Rightarrow> bool \<times> i64 \<Rightarrow> ZoneMap" where
  "int64_stat stats = (\<lambda>(null, v). if null then count_null stats else (let stats = stats\<lparr>ZSum := ZSum stats + v\<rparr> in
     if \<not> HasMinMax stats then stats\<lparr>ZMin := v, ZMax := v, HasMinMax := True\<rparr>
     else (let stats = (if sint v < sint (ZMin stats) then stats\<lparr>ZMin := v\<rparr> else stats) in
       if sint (ZMax stats) < sint v then stats\<lparr>ZMax := v\<rparr> else stats)))"

definition writeInt64Blocks :: "byte list \<Rightarrow> i64 list \<Rightarrow> Writer \<Rightarrow> (ZoneMap \<times> Writer) sres" where
  "writeInt64Blocks = write_blocks (\<lambda>nulls vals. Inr (fixed_block AppendInt64 nulls vals)) int64_stat no_stats"

record float_stats =
  fzone :: ZoneMap
  sumF :: f64
  minF :: f64
  maxF :: f64

definition float64_stat :: "float_stats \<Rightarrow> bool \<times> f64 \<Rightarrow> float_stats" where
  "float64_stat s = (\<lambda>(null, v). if null then s\<lparr>fzone := count_null (fzone s)\<rparr> else (let s = s\<lparr>sumF := f_add (sumF s) v\<rparr> in
     if \<not> HasMinMax (fzone s) then s\<lparr>minF := v, maxF := v, fzone := (fzone s)\<lparr>HasMinMax := True\<rparr>\<rparr>
     else (let s = (if f_lt v (minF s) then s\<lparr>minF := v\<rparr> else s) in if f_lt (maxF s) v then s\<lparr>maxF := v\<rparr> else s)))"

definition no_float_stats :: float_stats where
  "no_float_stats = \<lparr>fzone = no_stats, sumF = 0, minF = 0, maxF = 0\<rparr>"

definition float_zone :: "float_stats \<Rightarrow> ZoneMap" where
  "float_zone s = (let stats = (fzone s)\<lparr>ZSum := sumF s\<rparr> in if HasMinMax stats then stats\<lparr>ZMin := minF s, ZMax := maxF s\<rparr> else stats)"

definition writeFloat64Blocks :: "byte list \<Rightarrow> f64 list \<Rightarrow> Writer \<Rightarrow> (ZoneMap \<times> Writer) sres" where
  "writeFloat64Blocks nullBitmap values w = res_map (\<lambda>(s, w). (float_zone s, w))
     (write_blocks (\<lambda>nulls vals. Inr (fixed_block AppendFloat64 nulls vals)) float64_stat no_float_stats nullBitmap values w)"

text \<open>Dates are stored zero-extended and compared as \<^verbatim>\<open>int32\<close>.\<close>

definition date_stat :: "ZoneMap \<Rightarrow> bool \<times> i32 \<Rightarrow> ZoneMap" where
  "date_stat stats = (\<lambda>(null, v). if null then count_null stats else (let uv = ucast v in
     if \<not> HasMinMax stats then stats\<lparr>ZMin := uv, ZMax := uv, HasMinMax := True\<rparr>
     else (let stats = (if sint v < sint (ucast (ZMin stats) :: i32) then stats\<lparr>ZMin := uv\<rparr> else stats) in
       if sint (ucast (ZMax stats) :: i32) < sint v then stats\<lparr>ZMax := uv\<rparr> else stats)))"

definition writeDateBlocks :: "byte list \<Rightarrow> i32 list \<Rightarrow> Writer \<Rightarrow> (ZoneMap \<times> Writer) sres" where
  "writeDateBlocks = write_blocks (\<lambda>nulls vals. Inr (fixed_block AppendInt32 nulls vals)) date_stat no_stats"

definition writeBoolBlocks :: "byte list \<Rightarrow> bool list \<Rightarrow> Writer \<Rightarrow> (ZoneMap \<times> Writer) sres" where
  "writeBoolBlocks = write_blocks (\<lambda>nulls vals. EncodeRLEBool vals nulls) (\<lambda>stats (null, v). if null then count_null stats else stats) no_stats"

text \<open>The codes of a STRING column: 0xFFFFFFFF in the rows that are NULL.\<close>

definition string_codes :: "byte list \<Rightarrow> string list \<Rightarrow> (u32 list \<times> DictBuilder \<times> ZoneMap) sres" where
  "string_codes nullBitmap values = fold_res (\<lambda>(codes, db, stats) (i, s). res_map (\<lambda>null.
     if \<not> null then (let (code, db) = DictBuilder_Add db s in (codes @ [code], db, stats)) else (codes @ [0xFFFFFFFF], db, count_null stats))
     (IsNullBit nullBitmap i)) ([], NewDictBuilder, no_stats) (enumerate 0 values)"

definition string_zone :: "nat \<Rightarrow> ZoneMap \<Rightarrow> ZoneMap" where
  "string_zone n stats = (if 0 < n then stats\<lparr>HasMinMax := True, ZMin := 0, ZMax := word_of_nat (n - 1)\<rparr> else stats)"

definition writeStringBlocks :: "byte list \<Rightarrow> string list \<Rightarrow> Writer \<Rightarrow> (ZoneMap \<times> byte list \<times> Writer) sres" where
  "writeStringBlocks nullBitmap values w = res_bind (string_codes nullBitmap values) (\<lambda>(codes, db, stats).
     res_map (\<lambda>(_, w). (string_zone (DictBuilder_Len db) stats, DictBuilder_Marshal db, w))
       (write_blocks (\<lambda>nulls codes. Inr (fixed_block AppendUint32 nulls codes)) (\<lambda>s _. s) () nullBitmap codes w))"


section \<open>Columns and row groups\<close>

fun checkValueType :: "DataType \<Rightarrow> col_values \<Rightarrow> bool" where
  "checkValueType TypeInt64 values = (case values of Int64s _ \<Rightarrow> True | _ \<Rightarrow> False)"
| "checkValueType TypeFloat64 values = (case values of Float64s _ \<Rightarrow> True | _ \<Rightarrow> False)"
| "checkValueType TypeDate values = (case values of Dates _ \<Rightarrow> True | _ \<Rightarrow> False)"
| "checkValueType TypeBool values = (case values of Bools _ \<Rightarrow> True | _ \<Rightarrow> False)"
| "checkValueType TypeString values = (case values of Strings _ \<Rightarrow> True | _ \<Rightarrow> False)"

text \<open>The section of a column: its statistics, the dictionary's place in it, and the writer afterwards.\<close>

definition write_section :: "byte list \<Rightarrow> col_values \<Rightarrow> Writer \<Rightarrow> (ZoneMap \<times> u32 \<times> u32 \<times> Writer) sres" where
  "write_section nulls values w = (case values of
     Int64s vs \<Rightarrow> res_map (\<lambda>(stats, w). (stats, 0, 0, w)) (writeInt64Blocks nulls vs w)
   | Float64s vs \<Rightarrow> res_map (\<lambda>(stats, w). (stats, 0, 0, w)) (writeFloat64Blocks nulls vs w)
   | Dates vs \<Rightarrow> res_map (\<lambda>(stats, w). (stats, 0, 0, w)) (writeDateBlocks nulls vs w)
   | Bools vs \<Rightarrow> res_map (\<lambda>(stats, w). (stats, 0, 0, w)) (writeBoolBlocks nulls vs w)
   | Strings vs \<Rightarrow> res_map (\<lambda>(stats, dictBytes, w'). (stats, ucast (woffset w' - woffset w), word_of_nat (length dictBytes), mustWrite dictBytes w'))
       (writeStringBlocks nulls vs w))"

definition AppendColumn :: "int \<Rightarrow> byte list option \<Rightarrow> col_values \<Rightarrow> Writer \<Rightarrow> Writer sres" where
  "AppendColumn i nulls values w = (if rgNumRows w = 0 then Inl (Err ErrRowGroupOpen)
     else if i < 0 \<or> int (length (wschema w)) \<le> i then Inl (Err ErrOutOfRange)
     else res_bind (idx (rgColWritten w) (nat i)) (\<lambda>written. if written then Inl (Err ErrColumnComplete)
     else if \<not> checkValueType (Type (wschema w ! nat i)) values then Inl (Err ErrTypeMismatch)
     else (let nulls = (case nulls of None \<Rightarrow> FullBitmap (rgNumRows w) | Some b \<Rightarrow> b); sectionStart = woffset w in
       res_bind (write_section nulls values w) (\<lambda>(stats, dictOff, dictLen, w).
       let col = \<lparr>SectionOffset = sectionStart, SectionLength = woffset w - sectionStart, Stats = stats, DictOffset = dictOff, DictLength = dictLen\<rparr> in
       res_bind (upd (rgColMeta w) (nat i) col) (\<lambda>cols. res_map (\<lambda>ws. w\<lparr>rgColMeta := cols, rgColWritten := ws\<rparr>) (upd (rgColWritten w) (nat i) True))))))"

definition EndRowGroup :: "Writer \<Rightarrow> Writer sres" where
  "EndRowGroup w = (if rgNumRows w = 0 then Inl (Err ErrRowGroupOpen)
     else if \<not> (\<forall>c \<in> set (rgColWritten w). c) then Inl (Err ErrMissingColumns)
     else Inr (w\<lparr>wmeta := wmeta w @ [\<lparr>FileOffset = rgStartOff w, NumRows = rgNumRows w, Columns = rgColMeta w\<rparr>],
       rgNumRows := 0, rgColWritten := [], rgColMeta := []\<rparr>))"


section \<open>Footer\<close>

fun type_byte :: "DataType \<Rightarrow> byte" where
  "type_byte TypeInt64 = 1" | "type_byte TypeFloat64 = 2" | "type_byte TypeBool = 3" | "type_byte TypeString = 4" | "type_byte TypeDate = 5"

fun encoding_byte :: "Encoding \<Rightarrow> byte" where
  "encoding_byte EncPlain = 0" | "encoding_byte EncRLE = 1" | "encoding_byte EncDict = 2"

definition marshal_field :: "byte list \<Rightarrow> Field \<Rightarrow> byte list" where
  "marshal_field body f = (let name = bytes_of (Name f) in
     AppendUint16 body (word_of_nat (length name)) @ name @ [type_byte (Type f), encoding_byte (FEncoding f), if Nullable f then 1 else 0])"

definition marshal_column :: "byte list \<Rightarrow> ColumnSectionMeta \<Rightarrow> byte list" where
  "marshal_column body col = (let body = AppendInt64 (AppendInt64 body (SectionOffset col)) (SectionLength col);
     body = AppendInt64 (AppendInt64 body (NullCount (Stats col))) (ZSum (Stats col));
     body = AppendUint64 (AppendUint64 body (ZMin (Stats col))) (ZMax (Stats col)) @ [if HasMinMax (Stats col) then 1 else 0]
     in AppendUint32 (AppendUint32 body (DictOffset col)) (DictLength col))"

definition marshal_row_group :: "byte list \<Rightarrow> RowGroupMeta \<Rightarrow> byte list" where
  "marshal_row_group body rg = foldl marshal_column (AppendUint32 (AppendInt64 body (FileOffset rg)) (word_of_nat (NumRows rg))) (Columns rg)"

definition footer_body :: "Schema \<Rightarrow> RowGroupMeta list \<Rightarrow> byte list" where
  "footer_body schema rgs = (let body = foldl marshal_field (AppendUint32 [] (word_of_nat (length schema))) schema in
     foldl marshal_row_group (AppendUint32 body (word_of_nat (length rgs))) rgs)"

definition marshalFooter :: "Writer \<Rightarrow> byte list" where
  "marshalFooter w = (let body = footer_body (wschema w) (wmeta w); crc = ChecksumIEEE body;
     trailer = AppendInt64 (AppendUint32 [] crc) (word_of_nat (length body)) @ bytes_of Magic in body @ trailer)"

text \<open>The contents of the finished file.\<close>

definition Finish :: "Writer \<Rightarrow> byte list sres" where
  "Finish w = (if rgNumRows w \<noteq> 0 then Inl (Err ErrRowGroupOpen) else Inr (wfile (mustWrite (marshalFooter w) w)))"

end
