(* ===== verification/Reader.thy ===== *)
theory Reader
  imports Writer
begin

text \<open>
  Reading a table file (\<^verbatim>\<open>storage/reader.go\<close>, \<^verbatim>\<open>rowgroup.go\<close>, \<^verbatim>\<open>verify.go\<close>): the footer, the block reader of a column with its read-ahead window,
  the lazily loaded dictionary, and the recomputation of zone maps. A file is a byte list. The pools that recycle window buffers are left
  out: a buffer is filled completely before it is read. A type byte that is no type of the engine is rejected when the
  footer is parsed; the source rejects it when the column is read.
\<close>

section \<open>Footer\<close>

record Reader =
  rfile :: "byte list"
  rmeta :: FileMeta

definition readAt :: "byte list \<Rightarrow> i64 \<Rightarrow> nat \<Rightarrow> byte list sres" where
  "readAt file off n = (if sint off < 0 then Inl (Err ErrReadOffset)
     else if unat off + n \<le> length file then Inr (take n (drop (unat off) file)) else Inl (Err ErrUnexpectedEOF))"

definition type_of_byte :: "byte \<Rightarrow> DataType sres" where
  "type_of_byte b = (if b = 1 then Inr TypeInt64 else if b = 2 then Inr TypeFloat64 else if b = 3 then Inr TypeBool
     else if b = 4 then Inr TypeString else if b = 5 then Inr TypeDate else Inl (Err ErrUnsupportedType))"

definition encoding_of_byte :: "byte \<Rightarrow> Encoding sres" where
  "encoding_of_byte b = (if b = 0 then Inr EncPlain else if b = 1 then Inr EncRLE else if b = 2 then Inr EncDict else Inl (Err ErrUnsupportedType))"

fun parse_fields :: "nat \<Rightarrow> byte list \<Rightarrow> (Schema \<times> byte list) sres" where
  "parse_fields 0 b = Inr ([], b)"
| "parse_fields (Suc n) b = (if length b < 2 then Inl (Err ErrCorruptFooter) else
     res_bind (ReadUint16 b) (\<lambda>(nameLen, b). if length b < unat nameLen + 3 then Inl (Err ErrCorruptFooter) else
     res_bind (slice b 0 (unat nameLen)) (\<lambda>name. let b = drop (unat nameLen) b in
     res_bind (type_of_byte (b ! 0)) (\<lambda>t. res_bind (encoding_of_byte (b ! 1)) (\<lambda>e.
     res_bind (parse_fields n (drop 3 b)) (\<lambda>(fs, rest).
       Inr (\<lparr>Name = string_of name, Type = t, FEncoding = e, Nullable = (b ! 2 AND 1 \<noteq> 0)\<rparr> # fs, rest)))))))"

definition colMetaSize :: nat where
  "colMetaSize = 8 + 8 + 8 + 8 + 8 + 8 + 1 + 4 + 4"

definition parse_column :: "byte list \<Rightarrow> (ColumnSectionMeta \<times> byte list) sres" where
  "parse_column b = (if length b < colMetaSize then Inl (Err ErrCorruptFooter) else
     res_bind (ReadInt64 b) (\<lambda>(off, b). res_bind (ReadInt64 b) (\<lambda>(len, b). res_bind (ReadInt64 b) (\<lambda>(nulls, b).
     res_bind (ReadInt64 b) (\<lambda>(total, b). res_bind (ReadUint64 b) (\<lambda>(lo, b). res_bind (ReadUint64 b) (\<lambda>(hi, b).
     res_bind (idx b 0) (\<lambda>has. let b = drop 1 b in
     res_bind (ReadUint32 b) (\<lambda>(dOff, b). res_bind (ReadUint32 b) (\<lambda>(dLen, b).
       Inr (\<lparr>SectionOffset = off, SectionLength = len, Stats = \<lparr>NullCount = nulls, ZSum = total, ZMin = lo, ZMax = hi, HasMinMax = (has \<noteq> 0)\<rparr>,
         DictOffset = dOff, DictLength = dLen\<rparr>, b)))))))))))"

fun parse_columns :: "nat \<Rightarrow> byte list \<Rightarrow> (ColumnSectionMeta list \<times> byte list) sres" where
  "parse_columns 0 b = Inr ([], b)"
| "parse_columns (Suc n) b = res_bind (parse_column b) (\<lambda>(c, b). res_bind (parse_columns n b) (\<lambda>(cs, b). Inr (c # cs, b)))"

fun parse_row_groups :: "nat \<Rightarrow> nat \<Rightarrow> byte list \<Rightarrow> RowGroupMeta list sres" where
  "parse_row_groups numCols 0 b = Inr []"
| "parse_row_groups numCols (Suc n) b = (if length b < 12 then Inl (Err ErrCorruptFooter) else
     res_bind (ReadInt64 b) (\<lambda>(fileOff, b). res_bind (ReadUint32 b) (\<lambda>(numRows, b).
     res_bind (parse_columns numCols b) (\<lambda>(cols, b). res_map (\<lambda>rgs. \<lparr>FileOffset = fileOff, NumRows = unat numRows, Columns = cols\<rparr> # rgs)
       (parse_row_groups numCols n b)))))"

definition parseFooter :: "byte list \<Rightarrow> FileMeta sres" where
  "parseFooter body = (if length body < 4 then Inl (Err ErrCorruptFooter) else
     res_bind (ReadUint32 body) (\<lambda>(numCols, b). res_bind (parse_fields (unat numCols) b) (\<lambda>(fields, b).
     if length b < 4 then Inl (Err ErrCorruptFooter) else
     res_bind (ReadUint32 b) (\<lambda>(numRGs, b). res_map (\<lambda>rgs. \<lparr>MSchema = fields, RowGroups = rgs\<rparr>) (parse_row_groups (unat numCols) (unat numRGs) b)))))"

definition readFooter :: "byte list \<Rightarrow> FileMeta sres" where
  "readFooter file = (let size = word_of_nat (length file) :: i64 in
     if sint size < int FooterTrailerSize + int (length Magic) then Inl (Err ErrBadMagic) else
     res_bind (readAt file (size - word_of_nat FooterTrailerSize) FooterTrailerSize) (\<lambda>trailer.
     if drop 12 trailer \<noteq> bytes_of Magic then Inl (Err ErrBadMagic) else
     res_bind (GetUint32 (take 4 trailer)) (\<lambda>footerCRC. res_bind (GetInt64 (take 8 (drop 4 trailer))) (\<lambda>footerLen.
     if sint footerLen < 0 \<or> sint (size - word_of_nat FooterTrailerSize - word_of_nat (length Magic)) < sint footerLen then Inl (Err ErrCorruptFooter) else
     res_bind (readAt file (size - word_of_nat FooterTrailerSize - footerLen) (unat footerLen)) (\<lambda>body.
     if ChecksumIEEE body \<noteq> footerCRC then Inl (Err SErrChecksum) else parseFooter body)))))"

definition Open :: "byte list \<Rightarrow> Reader sres" where
  "Open file = res_map (\<lambda>meta. \<lparr>rfile = file, rmeta = meta\<rparr>) (readFooter file)"


section \<open>Blocks of a column\<close>

record ColumnReader =
  colMeta :: ColumnSectionMeta
  cfield :: Field
  cpos :: i64
  cend :: i64
  rowsDone :: nat
  totalRows :: nat
  win :: "(i64 \<times> byte list) option"
  cdict :: "Dictionary sres option"

definition OpenColumn :: "Reader \<Rightarrow> int \<Rightarrow> int \<Rightarrow> ColumnReader sres" where
  "OpenColumn r rg col = (if rg < 0 \<or> int (length (RowGroups (rmeta r))) \<le> rg then Inl (Err ErrOutOfRange)
     else if col < 0 \<or> int (length (MSchema (rmeta r))) \<le> col then Inl (Err ErrOutOfRange)
     else (let rgm = RowGroups (rmeta r) ! nat rg in res_map (\<lambda>c. \<lparr>colMeta = c, cfield = MSchema (rmeta r) ! nat col, cpos = SectionOffset c,
         cend = SectionOffset c + SectionLength c - ucast (DictLength c), rowsDone = 0, totalRows = NumRows rgm, win = None, cdict = None\<rparr>)
       (idx (Columns rgm) (nat col))))"

definition maxPrefetchBytes :: nat where
  "maxPrefetchBytes = 4194304"

text \<open>A result together with the reader's state, which errors leave behind too.\<close>

definition window :: "byte list \<Rightarrow> i64 \<Rightarrow> nat \<Rightarrow> ColumnReader \<Rightarrow> byte list sres \<times> ColumnReader" where
  "window file off n cr = (if sint off < sint (SectionOffset (colMeta cr)) \<or> sint (cend cr) < sint (off + word_of_nat n) then (Inl (Err ErrUnexpectedEOF), cr)
     else case (case win cr of None \<Rightarrow> None | Some (ws, b) \<Rightarrow> if sint ws \<le> sint off \<and> sint (off - ws + word_of_nat n) \<le> int (length b) then Some (ws, b) else None) of
       Some (ws, b) \<Rightarrow> (slice b (unat (off - ws)) (unat (off - ws) + n), cr)
     | None \<Rightarrow> (let want = cend cr - off; want = (if int maxPrefetchBytes < sint want then word_of_nat maxPrefetchBytes else want);
           want = (if sint want < int n then word_of_nat n else want); cr = cr\<lparr>win := None\<rparr> in
         case readAt file off (unat want) of Inl e \<Rightarrow> (Inl e, cr) | Inr buf \<Rightarrow> (slice buf 0 n, cr\<lparr>win := Some (off, buf)\<rparr>)))"

definition nextFixedBlock :: "byte list \<Rightarrow> nat \<Rightarrow> ColumnReader \<Rightarrow> (byte list option \<times> byte list \<times> nat) sres \<times> ColumnReader" where
  "nextFixedBlock file rows cr = (let blockBytes = NullBitmapBytes + rows * ValueSize (Type (cfield cr)) + 4; off = cpos cr in
     case window file off blockBytes cr of (Inl e, cr) \<Rightarrow> (Inl e, cr)
     | (Inr buf, cr) \<Rightarrow> (res_bind (res_wrap SErrChecksum (VerifyTrailing buf)) (\<lambda>payload.
         res_bind (slice payload 0 ((rows + 7) div 8)) (\<lambda>nulls. res_map (\<lambda>vals. (Some nulls, vals, rows)) (slice payload NullBitmapBytes (length payload)))),
         cr\<lparr>cpos := cpos cr + word_of_nat blockBytes\<rparr>))"

definition nextBoolBlock :: "byte list \<Rightarrow> nat \<Rightarrow> ColumnReader \<Rightarrow> (byte list option \<times> byte list \<times> nat) sres \<times> ColumnReader" where
  "nextBoolBlock file rows cr = (let off = cpos cr in
     case window file off 4 cr of (Inl e, cr) \<Rightarrow> (Inl e, cr)
     | (Inr header, cr) \<Rightarrow> (case GetUint32 header of Inl e \<Rightarrow> (Inl e, cr)
       | Inr runCount \<Rightarrow> if (word_of_nat rows :: u32) < runCount then (Inl (Err ErrCorruptFooter), cr)
         else (let totalSize = 4 + unat runCount * 5 + 4 in case window file off totalSize cr of (Inl e, cr) \<Rightarrow> (Inl e, cr)
           | (Inr buf, cr) \<Rightarrow> (Inr (None, buf, rows), cr\<lparr>cpos := cpos cr + word_of_nat totalSize\<rparr>))))"

text \<open>\<^verbatim>\<open>NextBlock\<close>: \<open>Inr None\<close> stands for \<^verbatim>\<open>io.EOF\<close>. The rows of a block are accounted for before it is read.\<close>

definition NextBlock :: "byte list \<Rightarrow> ColumnReader \<Rightarrow> (byte list option \<times> byte list \<times> nat) option sres \<times> ColumnReader" where
  "NextBlock file cr = (if totalRows cr \<le> rowsDone cr then (Inr None, cr)
     else (let rows = min (totalRows cr - rowsDone cr) BlockRows; cr = cr\<lparr>rowsDone := rowsDone cr + rows\<rparr>;
         (r, cr) = (if Type (cfield cr) = TypeBool then nextBoolBlock file rows cr else nextFixedBlock file rows cr) in (res_map Some r, cr)))"

definition ColumnReader_Dictionary :: "byte list \<Rightarrow> ColumnReader \<Rightarrow> Dictionary sres \<times> ColumnReader" where
  "ColumnReader_Dictionary file cr = (if Type (cfield cr) \<noteq> TypeString then (Inl (Err ErrNotString), cr)
     else case cdict cr of Some r \<Rightarrow> (r, cr)
     | None \<Rightarrow> (let off = SectionOffset (colMeta cr) + ucast (DictOffset (colMeta cr));
           r = res_bind (readAt file off (unat (DictLength (colMeta cr)))) UnmarshalDictionary in (r, cr\<lparr>cdict := Some r\<rparr>)))"

text \<open>Every call of \<^verbatim>\<open>NextBlock\<close> that is not the end makes progress, errors included.\<close>

lemma window_frame:
  "window file off n cr = (r, cr') \<Longrightarrow> rowsDone cr' = rowsDone cr \<and> totalRows cr' = totalRows cr \<and> cfield cr' = cfield cr \<and> colMeta cr' = colMeta cr \<and>
    cend cr' = cend cr \<and> cpos cr' = cpos cr \<and> cdict cr' = cdict cr"
  by (auto simp: window_def Let_def split: if_splits option.splits sum.splits prod.splits)

definition same_column :: "ColumnReader \<Rightarrow> ColumnReader \<Rightarrow> bool" where
  "same_column cr cr' \<longleftrightarrow> rowsDone cr' = rowsDone cr \<and> totalRows cr' = totalRows cr \<and> cfield cr' = cfield cr \<and> colMeta cr' = colMeta cr \<and>
    cend cr' = cend cr \<and> cdict cr' = cdict cr"

lemma window_same: "window file off n cr = (r, cr') \<Longrightarrow> same_column cr cr'"
  by (auto simp: same_column_def dest!: window_frame)

lemma same_column_trans: "same_column a b \<Longrightarrow> same_column b c \<Longrightarrow> same_column a c"
  by (simp add: same_column_def)

lemma same_column_pos: "same_column a b \<Longrightarrow> same_column a (b\<lparr>cpos := p\<rparr>)"
  by (simp add: same_column_def)

lemma nextFixedBlock_frame: "nextFixedBlock file rows cr = (r, cr') \<Longrightarrow> same_column cr cr'"
  unfolding nextFixedBlock_def Let_def
  by (cases "window file (cpos cr) (NullBitmapBytes + rows * ValueSize (Type (cfield cr)) + 4) cr")
    (auto split: sum.splits intro: same_column_pos dest: window_same)

lemma nextBoolBlock_frame:
  assumes "nextBoolBlock file rows cr = (r, cr')"
  shows "same_column cr cr'"
proof -
  obtain x c where w: "window file (cpos cr) 4 cr = (x, c)" by fastforce
  note sc = window_same [OF w]
  show ?thesis
  proof (cases x)
    case (Inr header)
    have two: "same_column cr c'" if "window file (cpos cr) m c = (y, c')" for m y c' using same_column_trans [OF sc window_same [OF that]] .
    show ?thesis using assms w Inr sc two unfolding nextBoolBlock_def Let_def
      by (auto split: sum.splits if_splits prod.splits intro: same_column_pos)
  qed (use assms w sc in \<open>auto simp: nextBoolBlock_def Let_def\<close>)
qed

lemma NextBlock_frame:
  assumes "NextBlock file cr = (r, cr')"
  shows "totalRows cr' = totalRows cr \<and> cfield cr' = cfield cr \<and> colMeta cr' = colMeta cr \<and> cend cr' = cend cr \<and> cdict cr' = cdict cr \<and>
    rowsDone cr' = (if totalRows cr \<le> rowsDone cr then rowsDone cr else rowsDone cr + min (totalRows cr - rowsDone cr) BlockRows)"
proof (cases "totalRows cr \<le> rowsDone cr")
  case False
  let ?rows = "min (totalRows cr - rowsDone cr) BlockRows"
  let ?cr = "cr\<lparr>rowsDone := rowsDone cr + ?rows\<rparr>"
  obtain x c where c: "(if Type (cfield ?cr) = TypeBool then nextBoolBlock file ?rows ?cr else nextFixedBlock file ?rows ?cr) = (x, c)" by fastforce
  then have "same_column ?cr c" by (auto split: if_splits dest: nextBoolBlock_frame nextFixedBlock_frame)
  moreover have "cr' = c" using assms False c unfolding NextBlock_def Let_def by simp
  ultimately show ?thesis using False by (simp add: same_column_def)
qed (use assms in \<open>simp add: NextBlock_def\<close>)


section \<open>Recomputing zone maps\<close>

definition word_at :: "nat \<Rightarrow> byte list \<Rightarrow> nat \<Rightarrow> ('a::len word) sres" where
  "word_at k payload i = res_map fst (res_bind (slice payload (i * k) (length payload)) (read_le k))"

definition stat_rows :: "('s \<Rightarrow> bool \<times> 'v \<Rightarrow> 's) \<Rightarrow> (nat \<Rightarrow> 'v sres) \<Rightarrow> byte list \<Rightarrow> nat \<Rightarrow> 's \<Rightarrow> 's sres" where
  "stat_rows stat get nulls n s = fold_res (\<lambda>s i. res_bind (get i) (\<lambda>v. res_map (\<lambda>null. stat s (null, v)) (IsNullBit nulls i))) s [0..<n]"

definition zone_block :: "DataType \<Rightarrow> nat \<Rightarrow> byte list option \<Rightarrow> byte list \<Rightarrow> nat \<Rightarrow> float_stats \<Rightarrow> float_stats sres" where
  "zone_block t dictLen nulls payload n s = (let nb = (case nulls of None \<Rightarrow> [] | Some b \<Rightarrow> b); zone = (\<lambda>z. s\<lparr>fzone := z\<rparr>) in case t of
     TypeInt64 \<Rightarrow> res_map zone (stat_rows int64_stat (word_at 8 payload) nb n (fzone s))
   | TypeFloat64 \<Rightarrow> stat_rows float64_stat (word_at 8 payload) nb n s
   | TypeDate \<Rightarrow> res_map zone (stat_rows date_stat (word_at 4 payload) nb n (fzone s))
   | TypeString \<Rightarrow> res_map zone (fold_res (\<lambda>z i. res_bind (word_at 4 payload i) (\<lambda>code. res_bind (IsNullBit nb i) (\<lambda>null.
       if null then Inr (count_null z) else if dictLen \<le> unat (code :: u32) then Inl (Err ErrCodeRange) else Inr (z\<lparr>HasMinMax := True\<rparr>)))) (fzone s) [0..<n])
   | TypeBool \<Rightarrow> res_bind (DecodeRLEBool payload) (\<lambda>(_, boolNulls, decoded). if decoded \<noteq> n then Inl (Err ErrRowCount)
       else res_map zone (fold_res (\<lambda>z i. res_map (\<lambda>null. if null then count_null z else z) (IsNullBit boolNulls i)) (fzone s) [0..<n])))"

function zone_blocks :: "byte list \<Rightarrow> nat \<Rightarrow> ColumnReader \<Rightarrow> float_stats \<times> nat \<Rightarrow> (float_stats \<times> nat) sres" where
  "zone_blocks file dictLen cr sr = (case NextBlock file cr of
     (Inl e, cr') \<Rightarrow> Inl e
   | (Inr None, cr') \<Rightarrow> Inr sr
   | (Inr (Some (nulls, payload, n)), cr') \<Rightarrow> res_bind (zone_block (Type (cfield cr)) dictLen nulls payload n (fst sr)) (\<lambda>s. zone_blocks file dictLen cr' (s, snd sr + n)))"
  by pat_completeness auto
termination
proof (relation "measure (\<lambda>(bytes, dictLen, cr, sr). totalRows cr - rowsDone cr)", goal_cases)
  case (2 bytes dictLen cr sr)
  then have "\<not> totalRows cr \<le> rowsDone cr" by (auto simp: NextBlock_def)
  then show ?case using NextBlock_frame [OF 2(1) [symmetric]] by (auto simp: BlockRows_def)
qed simp

definition ComputeColumnStats :: "Reader \<Rightarrow> nat \<Rightarrow> nat \<Rightarrow> ZoneMap sres" where
  "ComputeColumnStats r rg col = res_bind (OpenColumn r (int rg) (int col)) (\<lambda>cr. let t = Type (cfield cr);
     (dict, cr) = (if t = TypeString then (\<lambda>(d, cr). (res_map Dictionary_Len d, cr)) (ColumnReader_Dictionary (rfile r) cr) else (Inr 0, cr)) in
     res_bind dict (\<lambda>dictLen. res_bind (zone_blocks (rfile r) dictLen cr (no_float_stats, 0)) (\<lambda>(s, rows).
     if rows \<noteq> NumRows (RowGroups (rmeta r) ! rg) then Inl (Err ErrRowCount)
     else Inr (case t of TypeFloat64 \<Rightarrow> float_zone s | TypeString \<Rightarrow> string_zone dictLen (fzone s) | _ \<Rightarrow> fzone s))))"

definition VerifyColumnStats :: "Reader \<Rightarrow> nat \<Rightarrow> nat \<Rightarrow> unit sres" where
  "VerifyColumnStats r rg col = res_bind (ComputeColumnStats r rg col) (\<lambda>got.
     if got = Stats (Columns (RowGroups (rmeta r) ! rg) ! col) then Inr () else Inl (Err ErrZoneMap))"

end
