(* ===== verification/Scan.thy ===== *)
theory Scan
  imports Reader Emit
begin

text \<open>
  The table scan (\<^verbatim>\<open>exec/scan.go\<close>, the bounds of \<^verbatim>\<open>exec/row_bound.go\<close>): row groups in order, skipped when the zone predicate rules
  them out, block by block into vectors over decode buffers that are reused. The buffers are kept with their full capacity, as the
  source keeps them; a delivered batch is the vectors' contents at that time.
\<close>

definition stored :: "'a sres \<Rightarrow> 'a xres" where
  "stored m = (case m of Inl Panic \<Rightarrow> Inl Panic | Inl (Err e) \<Rightarrow> Inl (Err (ErrStorage e)) | Inr x \<Rightarrow> Inr x)"

lemma stored_simps [simp]: "stored (Inr x) = Inr x" "stored (Inl (Err e)) = Inl (Err (ErrStorage e))" "stored (Inl Panic) = Inl Panic"
  by (simp_all add: stored_def)


section \<open>Decode buffers\<close>

record scanBuffers =
  int64Bufs :: "i64 list list"
  float64Bufs :: "f64 list list"
  int32Bufs :: "i32 list list"
  uint32Bufs :: "u32 list list"
  nullBufs :: "byte list list"
  colBufIdx :: "int list"

text \<open>How many earlier columns have the buffer kind of this one: its index in that kind's buffers. BOOL is not pooled.\<close>

definition initScanBuffers :: "Schema \<Rightarrow> scanBuffers" where
  "initScanBuffers schema = (let kinds = map Type schema; n = (\<lambda>t. length (filter ((=) t) kinds)) in
     \<lparr>int64Bufs = replicate (n TypeInt64) [], float64Bufs = replicate (n TypeFloat64) [], int32Bufs = replicate (n TypeDate) [], uint32Bufs = replicate (n TypeString) [],
      nullBufs = replicate (length schema) [],
      colBufIdx = map (\<lambda>i. if kinds ! i = TypeBool then -1 else int (length (filter ((=) (kinds ! i)) (take i kinds)))) [0..<length schema]\<rparr>)"

text \<open>A buffer of \<open>rows\<close> elements: a prefix of the old one when it is large enough, else a new one.\<close>

definition get_buf :: "'a \<Rightarrow> 'a list list \<Rightarrow> nat \<Rightarrow> nat \<Rightarrow> ('a list \<times> 'a list list) xres" where
  "get_buf z bufs k rows = res_map (\<lambda>b. if rows \<le> length b then (take rows b, bufs) else (replicate rows z, bufs[k := replicate rows z])) (idx bufs k)"

definition buf_index :: "scanBuffers \<Rightarrow> nat \<Rightarrow> nat xres" where
  "buf_index sb colIdx = res_bind (idx (colBufIdx sb) colIdx) (\<lambda>k. if k < 0 then Inl Panic else Inr (nat k))"

definition getNullBuf :: "nat \<Rightarrow> nat \<Rightarrow> scanBuffers \<Rightarrow> (byte list \<times> scanBuffers) xres" where
  "getNullBuf colIdx rows sb = res_map (\<lambda>(b, bufs). (b, sb\<lparr>nullBufs := bufs\<rparr>)) (get_buf 0 (nullBufs sb) colIdx ((rows + 7) div 8))"

text \<open>Writing through a slice of a buffer changes the buffer.\<close>

definition put_buf :: "'a list list \<Rightarrow> nat \<Rightarrow> 'a list \<Rightarrow> 'a list list" where
  "put_buf bufs k vals = bufs[k := vals @ drop (length vals) (bufs ! k)]"

definition fill_nulls :: "nat \<Rightarrow> nat \<Rightarrow> byte list \<Rightarrow> scanBuffers \<Rightarrow> (byte list \<times> scanBuffers) xres" where
  "fill_nulls colIdx rows nullBitmap sb = res_map (\<lambda>(nb, sb). let nb = copy_into nb nullBitmap in (nb, sb\<lparr>nullBufs := put_buf (nullBufs sb) colIdx nb\<rparr>)) (getNullBuf colIdx rows sb)"

text \<open>The decoding loops; the source unrolls them by 8 or 16 rows.\<close>

definition decode_fixed :: "nat \<Rightarrow> byte list \<Rightarrow> nat \<Rightarrow> ('w::len) word list \<Rightarrow> 'w word list xres" where
  "decode_fixed k payload rows vals = res_bind (slice payload 0 (rows * k)) (\<lambda>p. fold_res (\<lambda>vals i. res_bind (stored (word_at k p i)) (upd vals i)) vals [0..<rows])"

definition decode_codes :: "byte list \<Rightarrow> nat \<Rightarrow> u32 list \<Rightarrow> u32 list xres" where
  "decode_codes payload rows codes = fold_res (\<lambda>codes i. res_bind (stored (word_at 4 payload i)) (upd codes i)) codes [0..<rows]"


section \<open>Blocks to vectors\<close>

definition bool_vector :: "byte list \<Rightarrow> nat \<Rightarrow> vector xres" where
  "bool_vector payload rows = res_bind (stored (DecodeRLEBool payload)) (\<lambda>(vals, nulls, _). let z = replicate ((rows + 7) div 8) 0 in
     res_map (\<lambda>bits. BoolVector bits (copy_into z nulls) rows) (fold_res (\<lambda>bits (i, v). BoolVector_Set bits i v) z (enumerate 0 vals)))"

definition payloadToVector :: "byte list \<Rightarrow> Field \<Rightarrow> byte list option \<Rightarrow> byte list \<Rightarrow> nat \<Rightarrow> ColumnReader \<Rightarrow> nat \<Rightarrow> scanBuffers \<Rightarrow> (vector \<times> ColumnReader \<times> scanBuffers) xres" where
  "payloadToVector file field nullBitmap payload rows cr colIdx sb = (let nulls = (case nullBitmap of None \<Rightarrow> [] | Some b \<Rightarrow> b) in case Type field of
     TypeInt64 \<Rightarrow> res_bind (buf_index sb colIdx) (\<lambda>k. res_bind (get_buf 0 (int64Bufs sb) k rows) (\<lambda>(vals, bufs). res_bind (decode_fixed 8 payload rows vals) (\<lambda>vals.
       res_map (\<lambda>(nb, sb). (Int64Vector vals nb, cr, sb)) (fill_nulls colIdx rows nulls (sb\<lparr>int64Bufs := put_buf bufs k vals\<rparr>)))))
   | TypeFloat64 \<Rightarrow> res_bind (buf_index sb colIdx) (\<lambda>k. res_bind (get_buf 0 (float64Bufs sb) k rows) (\<lambda>(vals, bufs). res_bind (decode_fixed 8 payload rows vals) (\<lambda>vals.
       res_map (\<lambda>(nb, sb). (Float64Vector vals nb, cr, sb)) (fill_nulls colIdx rows nulls (sb\<lparr>float64Bufs := put_buf bufs k vals\<rparr>)))))
   | TypeDate \<Rightarrow> res_bind (buf_index sb colIdx) (\<lambda>k. res_bind (get_buf 0 (int32Bufs sb) k rows) (\<lambda>(vals, bufs). res_bind (decode_fixed 4 payload rows vals) (\<lambda>vals.
       res_map (\<lambda>(nb, sb). (DateVector vals nb, cr, sb)) (fill_nulls colIdx rows nulls (sb\<lparr>int32Bufs := put_buf bufs k vals\<rparr>)))))
   | TypeBool \<Rightarrow> res_map (\<lambda>v. (v, cr, sb)) (bool_vector payload rows)
   | TypeString \<Rightarrow> res_bind (buf_index sb colIdx) (\<lambda>k. res_bind (get_buf 0 (uint32Bufs sb) k rows) (\<lambda>(codes, bufs). res_bind (decode_codes payload rows codes) (\<lambda>codes.
       res_bind (fill_nulls colIdx rows nulls (sb\<lparr>uint32Bufs := put_buf bufs k codes\<rparr>)) (\<lambda>(nb, sb).
       case ColumnReader_Dictionary file cr of (d, cr) \<Rightarrow> res_map (\<lambda>dict. (StringVector codes (Some dict) nb, cr, sb)) (stored d))))))"


section \<open>The operator\<close>

type_synonym ZonePredicate = "RowGroupMeta \<Rightarrow> bool"

record TableScan =
  treader :: Reader
  tschema :: Schema
  colMap :: "nat list"
  zonePred :: "ZonePredicate option"
  rgStart :: nat
  rgEnd :: nat
  rgIdx :: nat
  crList :: "ColumnReader list option"
  bufs :: "scanBuffers option"

definition NewTableScanRange :: "Reader \<Rightarrow> string list \<Rightarrow> ZonePredicate option \<Rightarrow> nat \<Rightarrow> nat \<Rightarrow> TableScan xres" where
  "NewTableScanRange reader projectedCols pred a b = (let srcSchema = MSchema (rmeta reader) in
     res_map (\<lambda>cols. \<lparr>treader = reader, tschema = map ((!) srcSchema) cols, colMap = cols, zonePred = pred, rgStart = a, rgEnd = b, rgIdx = a, crList = None, bufs = None\<rparr>)
       (if projectedCols = [] then Inr [0..<length srcSchema]
        else map_res (\<lambda>name. case IndexOf srcSchema name of None \<Rightarrow> Inl (Err ErrScanColumn) | Some i \<Rightarrow> Inr i) projectedCols))"

definition NewTableScan :: "Reader \<Rightarrow> string list \<Rightarrow> ZonePredicate option \<Rightarrow> TableScan xres" where
  "NewTableScan reader projectedCols pred = NewTableScanRange reader projectedCols pred 0 (length (RowGroups (rmeta reader)))"

definition SetOutputNames :: "string list \<Rightarrow> TableScan \<Rightarrow> TableScan xres" where
  "SetOutputNames names s = (if length names \<noteq> length (tschema s) then Inl (Err ErrScanNames)
     else Inr (s\<lparr>tschema := map (\<lambda>(f, n). f\<lparr>Name := n\<rparr>) (zip (tschema s) names)\<rparr>))"

definition TableScan_Reset :: "nat \<Rightarrow> nat \<Rightarrow> TableScan \<Rightarrow> TableScan" where
  "TableScan_Reset a b s = s\<lparr>crList := None, rgStart := a, rgEnd := b, rgIdx := a\<rparr>"

definition openRowGroup :: "TableScan \<Rightarrow> ColumnReader list xres" where
  "openRowGroup s = map_res (\<lambda>c. stored (OpenColumn (treader s) (int (rgIdx s)) (int c))) (colMap s)"

text \<open>One block of every column; \<open>None\<close> as soon as a column is at its end. The first column gives the batch its length.\<close>

fun read_columns :: "byte list \<Rightarrow> Schema \<Rightarrow> nat \<Rightarrow> ColumnReader list \<Rightarrow> scanBuffers \<Rightarrow> ((vector list \<times> nat list \<times> ColumnReader list) option \<times> scanBuffers) xres" where
  "read_columns file schema i [] sb = Inr (Some ([], [], []), sb)"
| "read_columns file schema i (cr # crs) sb = (case NextBlock file cr of
     (Inl e, cr) \<Rightarrow> stored (Inl e)
   | (Inr None, cr) \<Rightarrow> Inr (None, sb)
   | (Inr (Some (nullBitmap, payload, rows)), cr) \<Rightarrow> res_bind (idx schema i) (\<lambda>field.
       res_bind (payloadToVector file field nullBitmap payload rows cr i sb) (\<lambda>(vec, cr, sb).
       res_map (\<lambda>(r, sb). (map_option (\<lambda>(vecs, ns, crs). (vec # vecs, rows # ns, cr # crs)) r, sb)) (read_columns file schema (Suc i) crs sb))))"

definition readBlock :: "ColumnReader list \<Rightarrow> TableScan \<Rightarrow> (Batch option \<times> TableScan) xres" where
  "readBlock crs s = (if crs = [] then Inr (None, s) else (let sb = (case bufs s of None \<Rightarrow> initScanBuffers (tschema s) | Some b \<Rightarrow> b) in
     res_map (\<lambda>(r, sb). (case r of
         None \<Rightarrow> (None, s\<lparr>bufs := Some sb\<rparr>)
       | Some (vecs, ns, crs) \<Rightarrow> (Some \<lparr>BSchema = tschema s, Vectors = vecs, BLength = hd ns, SelVec = None\<rparr>, s\<lparr>bufs := Some sb, crList := Some crs\<rparr>)))
       (read_columns (rfile (treader s)) (tschema s) 0 crs sb)))"

lemma readBlock_frame: "readBlock crs s = Inr (b, s') \<Longrightarrow> rgEnd s' = rgEnd s \<and> rgIdx s' = rgIdx s"
  by (auto simp: readBlock_def Let_def res_map_eq_Inr split: if_splits option.splits)

function TableScan_Next :: "TableScan \<Rightarrow> (Batch option \<times> TableScan) xres" where
  "TableScan_Next s = (if crList s = None \<and> rgEnd s \<le> rgIdx s then Inr (None, s) else
     case (case crList s of
       Some crs \<Rightarrow> Inr (Some crs)
     | None \<Rightarrow> res_bind (idx (RowGroups (rmeta (treader s))) (rgIdx s)) (\<lambda>rg.
         if (case zonePred s of None \<Rightarrow> False | Some p \<Rightarrow> \<not> p rg) then Inr None else res_map Some (openRowGroup s))) of
       Inl e \<Rightarrow> Inl e
     | Inr None \<Rightarrow> TableScan_Next (s\<lparr>rgIdx := rgIdx s + 1\<rparr>)
     | Inr (Some crs) \<Rightarrow> (case readBlock crs s of
         Inl e \<Rightarrow> Inl e
       | Inr (Some batch, s') \<Rightarrow> Inr (Some batch, s')
       | Inr (None, s') \<Rightarrow> TableScan_Next (s'\<lparr>crList := None, rgIdx := rgIdx s + 1\<rparr>)))"
  by pat_completeness auto
termination
proof (relation "measure (\<lambda>s. 2 * (rgEnd s - rgIdx s) + (if crList s = None then 0 else 1))", goal_cases)
  case (2 s x)
  then show ?case by (cases "crList s") auto
next
  case (3 s x crs r b s')
  then have "rgEnd s' = rgEnd s \<and> rgIdx s' = rgIdx s" using readBlock_frame by metis
  then show ?case using 3(1) by (cases "crList s") auto
qed simp

definition TableScan_RowCountBound :: "TableScan \<Rightarrow> nat \<times> bool" where
  "TableScan_RowCountBound s = (let rgs = RowGroups (rmeta (treader s)) in
     (sum_list (map (\<lambda>i. if (case zonePred s of None \<Rightarrow> False | Some p \<Rightarrow> \<not> p (rgs ! i)) then 0 else NumRows (rgs ! i)) [rgStart s..<min (rgEnd s) (length rgs)]), True))"

text \<open>A filter passes on the bound of its child, if the child has one.\<close>

definition Filter_RowCountBound :: "(nat \<times> bool) option \<Rightarrow> nat \<times> bool" where
  "Filter_RowCountBound child = (case child of None \<Rightarrow> (0, False) | Some (rows, _) \<Rightarrow> (rows, False))"

end
