(* ===== verification/Layout.thy ===== *)
theory Layout
  imports Scan
begin

text \<open>
  The layout of a table file: what the writer puts where, as functions of the columns that were appended, and that the writer's loops
  produce it.
\<close>


section \<open>Sub-bitmaps\<close>

definition sub_bits :: "byte list \<Rightarrow> nat \<Rightarrow> nat \<Rightarrow> byte list" where
  "sub_bits bitmap start rows = projr (subBitmap bitmap start rows)"

lemma subBitmap_ok:
  assumes "bitmap_bytes (start + rows) \<le> length bitmap"
  shows "subBitmap bitmap start rows = Inr (sub_bits bitmap start rows)" "length (sub_bits bitmap start rows) = bitmap_bytes rows"
    "valid_at (sub_bits bitmap start rows) i \<longleftrightarrow> i < rows \<and> valid_at bitmap (start + i)"
proof -
  let ?P = "\<lambda>k sub. length sub = bitmap_bytes rows \<and> (\<forall>i. valid_at sub i \<longleftrightarrow> i < k \<and> valid_at bitmap (start + i))"
  have "\<exists>sub. subBitmap bitmap start rows = Inr sub \<and> ?P rows sub"
    unfolding subBitmap_def
  proof (rule fold_res_upto [where P = ?P])
    show "?P 0 (replicate (bitmap_bytes rows) 0)" by (simp add: valid_at_def)
  next
    fix k sub assume k: "k < rows" and P: "?P k sub"
    have k8: "(start + k) div 8 < length bitmap" "k div 8 < length sub"
      using div8_less_bitmap_bytes [of "start + k" "start + rows"] div8_less_bitmap_bytes [OF k] assms P k by simp_all
    obtain sub' where sub': "SetValidBit sub k = (Inr sub' :: byte list sres)" "length sub' = length sub" "\<And>j. valid_at sub' j \<longleftrightarrow> valid_at sub j \<or> j = k"
      using SetValidBit_eq [OF k8(2)] by blast
    have "?P (Suc k) (if valid_at bitmap (start + k) then sub' else sub)" using P sub'(2,3) by (auto simp: less_Suc_eq)
    moreover have "res_bind (IsNullBit bitmap (start + k)) (\<lambda>null. if null then Inr sub else SetValidBit sub k) =
        (Inr (if valid_at bitmap (start + k) then sub' else sub) :: byte list sres)"
      using k8(1) sub'(1) by simp
    ultimately show "\<exists>s'. res_bind (IsNullBit bitmap (start + k)) (\<lambda>null. if null then Inr sub else SetValidBit sub k) = (Inr s' :: byte list sres) \<and> ?P (Suc k) s'"
      by blast
  qed
  then obtain sub where sub: "subBitmap bitmap start rows = Inr sub" "?P rows sub" by blast
  then have eq: "sub_bits bitmap start rows = sub" by (simp add: sub_bits_def)
  show "subBitmap bitmap start rows = Inr (sub_bits bitmap start rows)" using sub(1) eq by simp
  show "length (sub_bits bitmap start rows) = bitmap_bytes rows" using sub(2) eq by simp
  show "valid_at (sub_bits bitmap start rows) i \<longleftrightarrow> i < rows \<and> valid_at bitmap (start + i)" using sub(2) eq by simp
qed


section \<open>Blocks\<close>

definition num_blocks :: "nat \<Rightarrow> nat" where
  "num_blocks n = (n + BlockRows - 1) div BlockRows"

definition block_rows :: "nat \<Rightarrow> nat \<Rightarrow> nat" where
  "block_rows n k = min (n - k * BlockRows) BlockRows"

lemma block_starts_eq: "block_starts n = map (\<lambda>k. k * BlockRows) [0..<num_blocks n]"
  by (simp add: block_starts_def num_blocks_def)

lemma less_num_blocks: "k < num_blocks n \<longleftrightarrow> k * BlockRows < n"
  by (simp add: num_blocks_def BlockRows_def) linarith

lemma block_rows_bounds: "k < num_blocks n \<Longrightarrow> 0 < block_rows n k \<and> block_rows n k \<le> BlockRows \<and> k * BlockRows + block_rows n k \<le> n"
  by (simp add: less_num_blocks block_rows_def BlockRows_def)

lemma length_block_of [simp]: "length (block_of vs (k * BlockRows)) = block_rows (length vs) k"
  by (auto simp: block_of_def block_rows_def min_def)

lemma nth_block_of: "i < block_rows (length vs) k \<Longrightarrow> block_of vs (k * BlockRows) ! i = vs ! (k * BlockRows + i)"
  by (subst block_of_def, subst nth_take) (auto simp: block_rows_def)

lemma concat_blocks: "concat (map (\<lambda>k. map (\<lambda>i. f (k * BlockRows + i)) [0..<block_rows n k]) [0..<num_blocks n]) = map f [0..<n]"
proof -
  have "concat (map (\<lambda>k. map (\<lambda>i. f (k * BlockRows + i)) [0..<block_rows n k]) [0..<m]) = map f [0..<min n (m * BlockRows)]" for m
  proof (induction m)
    case (Suc m)
    have *: "map (\<lambda>i. f (m * BlockRows + i)) [0..<block_rows n m] = map f [m * BlockRows..<m * BlockRows + block_rows n m]"
      by (rule nth_equalityI) simp_all
    show ?case
    proof (cases "m * BlockRows \<le> n")
      case True
      then have "min n (m * BlockRows) = m * BlockRows" "min n (Suc m * BlockRows) = m * BlockRows + block_rows n m"
        by (auto simp: block_rows_def)
      then show ?thesis using Suc * upt_add_eq_append [of 0 "m * BlockRows" "block_rows n m"] by simp
    qed (use Suc in \<open>simp add: block_rows_def\<close>)
  qed simp
  moreover have "min n (num_blocks n * BlockRows) = n"
    using less_num_blocks [of "num_blocks n" n] by simp
  ultimately show ?thesis by metis
qed

text \<open>The bytes of block \<open>k\<close>: the null bitmap of its rows and its values.\<close>

definition block_nulls :: "byte list \<Rightarrow> nat \<Rightarrow> nat \<Rightarrow> byte list" where
  "block_nulls nb n k = sub_bits nb (k * BlockRows) (block_rows n k)"

lemma block_nulls_ok:
  assumes "bitmap_bytes n \<le> length nb" "k < num_blocks n"
  shows "subBitmap nb (k * BlockRows) (block_rows n k) = Inr (block_nulls nb n k)" "length (block_nulls nb n k) = bitmap_bytes (block_rows n k)"
    "valid_at (block_nulls nb n k) i \<longleftrightarrow> i < block_rows n k \<and> valid_at nb (k * BlockRows + i)"
proof -
  have "bitmap_bytes (k * BlockRows + block_rows n k) \<le> bitmap_bytes n"
    using block_rows_bounds [OF assms(2)] by (intro div_le_mono) simp
  then show "subBitmap nb (k * BlockRows) (block_rows n k) = Inr (block_nulls nb n k)" "length (block_nulls nb n k) = bitmap_bytes (block_rows n k)"
    "valid_at (block_nulls nb n k) i \<longleftrightarrow> i < block_rows n k \<and> valid_at nb (k * BlockRows + i)"
    unfolding block_nulls_def using assms(1) subBitmap_ok by auto
qed

section \<open>Writing a section\<close>

lemma mustWrite_simps [simp]:
  "mustWrite [] w = w" "mustWrite b (mustWrite a w) = mustWrite (a @ b) w"
  "wschema (mustWrite b w) = wschema w" "wmeta (mustWrite b w) = wmeta w" "rgNumRows (mustWrite b w) = rgNumRows w"
  "rgColWritten (mustWrite b w) = rgColWritten w" "rgColMeta (mustWrite b w) = rgColMeta w" "rgStartOff (mustWrite b w) = rgStartOff w"
  "wfile (mustWrite b w) = wfile w @ b"
  "woffset (mustWrite b w) = woffset w + word_of_nat (length b)"
  by (simp_all add: mustWrite_def)

definition null_vals :: "byte list \<Rightarrow> 'a list \<Rightarrow> (bool \<times> 'a) list" where
  "null_vals nb vs = map (\<lambda>i. (\<not> valid_at nb i, vs ! i)) [0..<length vs]"

lemma block_stats:
  assumes "bitmap_bytes (length bv) \<le> length bn"
  shows "fold_res (\<lambda>stats (i, v). res_map (\<lambda>null. stat stats (null, v)) (IsNullBit bn i)) st (enumerate 0 bv) = (Inr (foldl stat st (null_vals bn bv)) :: _ sres)"
proof -
  have "\<forall>i \<in> set [0..<length bv]. \<forall>st. res_map (\<lambda>null. stat st (null, bv ! i)) (IsNullBit bn i) = (Inr (stat st (\<not> valid_at bn i, bv ! i)) :: _ sres)"
    using div8_less_bitmap_bytes [OF _ assms] by auto
  from fold_res_ok [OF this] show ?thesis by (simp add: enumerate_map fold_res_map null_vals_def foldl_map)
qed

lemma null_vals_block:
  assumes "bitmap_bytes (length vs) \<le> length nb" "k < num_blocks (length vs)"
  shows "null_vals (block_nulls nb (length vs) k) (block_of vs (k * BlockRows)) =
    map (\<lambda>i. (\<not> valid_at nb (k * BlockRows + i), vs ! (k * BlockRows + i))) [0..<block_rows (length vs) k]"
  using block_nulls_ok(3) [OF assms] by (simp add: null_vals_def nth_block_of)

definition section_blocks :: "(byte list \<Rightarrow> 'a list \<Rightarrow> byte list) \<Rightarrow> byte list \<Rightarrow> 'a list \<Rightarrow> byte list list" where
  "section_blocks block nb vs = map (\<lambda>k. block (block_nulls nb (length vs) k) (block_of vs (k * BlockRows))) [0..<num_blocks (length vs)]"

lemma write_blocks_ok:
  assumes nb: "bitmap_bytes (length vs) \<le> length nb"
    and block: "\<And>k. k < num_blocks (length vs) \<Longrightarrow> block (block_nulls nb (length vs) k) (block_of vs (k * BlockRows)) =
      (Inr (blk (block_nulls nb (length vs) k) (block_of vs (k * BlockRows))) :: byte list sres)"
  shows "write_blocks block stat s0 nb vs w = Inr (foldl stat s0 (null_vals nb vs), mustWrite (concat (section_blocks blk nb vs)) w)"
proof -
  let ?n = "length vs"
  let ?bn = "block_nulls nb ?n" and ?bv = "\<lambda>k. block_of vs (k * BlockRows)"
  let ?f = "\<lambda>(stats, w) k. (foldl stat stats (null_vals (?bn k) (?bv k)), mustWrite (blk (?bn k) (?bv k)) w)"
  have "\<forall>k \<in> set [0..<num_blocks ?n]. \<forall>s. (\<lambda>(stats, w) k. let blockVals = ?bv k in res_bind (subBitmap nb (k * BlockRows) (length blockVals)) (\<lambda>blockNulls.
       res_bind (block blockNulls blockVals) (\<lambda>buf. let w = mustWrite buf w in res_map (\<lambda>stats. (stats, w))
         (fold_res (\<lambda>stats (i, v). res_map (\<lambda>null. stat stats (null, v)) (IsNullBit blockNulls i)) stats (enumerate 0 blockVals))))) s k = Inr (?f s k)"
  proof (intro ballI allI)
    fix k s assume "k \<in> set [0..<num_blocks ?n]"
    then have k: "k < num_blocks ?n" by simp
    note nulls = block_nulls_ok [OF nb k]
    have "bitmap_bytes (length (?bv k)) \<le> length (?bn k)" using nulls(2) by simp
    note st = block_stats [OF this]
    show "(\<lambda>(stats, w) k. let blockVals = ?bv k in res_bind (subBitmap nb (k * BlockRows) (length blockVals)) (\<lambda>blockNulls.
       res_bind (block blockNulls blockVals) (\<lambda>buf. let w = mustWrite buf w in res_map (\<lambda>stats. (stats, w))
         (fold_res (\<lambda>stats (i, v). res_map (\<lambda>null. stat stats (null, v)) (IsNullBit blockNulls i)) stats (enumerate 0 blockVals))))) s k = Inr (?f s k)"
      by (cases s) (simp add: Let_def nulls(1) block [OF k] st)
  qed
  note step = fold_res_ok [OF this, of "(s0, w)"]
  have "foldl ?f (s0, w) [0..<m] = (foldl stat s0 (concat (map (\<lambda>k. null_vals (?bn k) (?bv k)) [0..<m])),
      mustWrite (concat (map (\<lambda>k. blk (?bn k) (?bv k)) [0..<m])) w)" for m
    by (induction m) simp_all
  moreover have "map (\<lambda>k. null_vals (?bn k) (?bv k)) [0..<num_blocks ?n] =
      map (\<lambda>k. map (\<lambda>i. (\<not> valid_at nb (k * BlockRows + i), vs ! (k * BlockRows + i))) [0..<block_rows ?n k]) [0..<num_blocks ?n]"
    using null_vals_block [OF nb] by simp
  then have "concat (map (\<lambda>k. null_vals (?bn k) (?bv k)) [0..<num_blocks ?n]) = null_vals nb vs"
    using concat_blocks [of "\<lambda>i. (\<not> valid_at nb i, vs ! i)" ?n] by (simp only: null_vals_def [of nb])
  ultimately show ?thesis
    using step unfolding write_blocks_def block_starts_eq fold_res_map section_blocks_def by (simp add: case_prod_unfold)
qed

section \<open>Dictionary codes\<close>

definition null_stat :: "ZoneMap \<Rightarrow> bool \<times> 'a \<Rightarrow> ZoneMap" where
  "null_stat z = (\<lambda>(null, v). if null then count_null z else z)"

definition coded :: "byte list \<Rightarrow> string list \<Rightarrow> nat \<Rightarrow> u32 list \<times> DictBuilder \<times> ZoneMap \<Rightarrow> bool" where
  "coded nb vs k = (\<lambda>(codes, db, stats). length codes = k \<and> db_inv db \<and> length (keys db) \<le> k \<and>
     length (concat (keys db)) \<le> length (concat (take k vs)) \<and> set (keys db) = {vs ! i |i. i < k \<and> valid_at nb i} \<and>
     (\<forall>i < k. valid_at nb i \<longrightarrow> unat (codes ! i) < length (keys db) \<and> keys db ! unat (codes ! i) = vs ! i) \<and>
     stats = foldl null_stat no_stats (map (\<lambda>i. (\<not> valid_at nb i, vs ! i)) [0..<k]))"

lemma coded_step:
  assumes "coded nb vs k (codes, db, stats)" "k < length vs" "length vs < 2 ^ 32"
  shows "coded nb vs (Suc k) (if valid_at nb k then (codes @ [fst (DictBuilder_Add db (vs ! k))], snd (DictBuilder_Add db (vs ! k)), stats)
    else (codes @ [0xFFFFFFFF], db, count_null stats))"
proof (cases "valid_at nb k")
  case True
  let ?d = "snd (DictBuilder_Add db (vs ! k))" and ?c = "fst (DictBuilder_Add db (vs ! k))"
  have inv: "db_inv db" and len: "length codes = k" "length (keys db) \<le> k" using assms(1) by (auto simp: coded_def)
  have k: "keys ?d = (if vs ! k \<in> set (keys db) then keys db else keys db @ [vs ! k])" by (rule DictBuilder_Add_keys [OF inv])
  have c: "unat ?c < length (keys ?d)" "keys ?d ! unat ?c = vs ! k" using DictBuilder_Add_code [OF inv] len assms(2,3) by simp_all
  have old: "unat x < length (keys db) \<Longrightarrow> unat x < length (keys ?d) \<and> keys ?d ! unat x = keys db ! unat x" for x :: u32
    by (auto simp: k nth_append)
  have "set (keys ?d) = {vs ! i |i. i < Suc k \<and> valid_at nb i}"
    using assms(1) True by (auto simp: coded_def k less_Suc_eq)
  moreover have "unat ((codes @ [?c]) ! i) < length (keys ?d) \<and> keys ?d ! unat ((codes @ [?c]) ! i) = vs ! i" if "i < Suc k" "valid_at nb i" for i
    using assms(1) that c old len by (cases "i = k") (auto simp: coded_def nth_append)
  moreover have "length (concat (keys ?d)) \<le> length (concat (take (Suc k) vs))"
    using assms(1,2) by (auto simp: coded_def k take_Suc_conv_app_nth)
  ultimately show ?thesis
    using assms(1) True DictBuilder_Add_inv [OF inv] by (auto simp: coded_def k null_stat_def)
next
  case False
  then show ?thesis using assms(1,2)
    by (auto simp: coded_def less_Suc_eq nth_append null_stat_def take_Suc_conv_app_nth)
qed

lemma string_codes_ok:
  assumes "bitmap_bytes (length vs) \<le> length nb" "length vs < 2 ^ 32"
  shows "\<exists>r. string_codes nb vs = Inr r \<and> coded nb vs (length vs) r"
  unfolding string_codes_def enumerate_map fold_res_map
proof (rule fold_res_upto [where P = "coded nb vs"])
  show "coded nb vs 0 ([], NewDictBuilder, no_stats)" by (simp add: coded_def) (simp add: NewDictBuilder_def)
next
  fix k s assume k: "k < length vs" and P: "coded nb vs k s"
  obtain codes db stats where s: "s = (codes, db, stats)" by (cases s)
  have "k div 8 < length nb" using div8_less_bitmap_bytes [OF k assms(1)] .
  then show "\<exists>s'. (case s of (codes, db, stats) \<Rightarrow> \<lambda>(i, s). res_map (\<lambda>null.
     if \<not> null then (let (code, db) = DictBuilder_Add db s in (codes @ [code], db, stats)) else (codes @ [0xFFFFFFFF], db, count_null stats))
     (IsNullBit nb i)) (k, vs ! k) = Inr s' \<and> coded nb vs (Suc k) s'"
    using coded_step [OF P [unfolded s] k assms(2)] by (auto simp: s Let_def case_prod_unfold)
qed

definition codes_of :: "byte list \<Rightarrow> string list \<Rightarrow> u32 list" where
  "codes_of nb vs = fst (projr (string_codes nb vs))"

definition dict_of :: "byte list \<Rightarrow> string list \<Rightarrow> DictBuilder" where
  "dict_of nb vs = fst (snd (projr (string_codes nb vs)))"

lemma codes_of_ok:
  assumes "bitmap_bytes (length vs) \<le> length nb" "length vs < 2 ^ 32"
  shows "string_codes nb vs = Inr (codes_of nb vs, dict_of nb vs, foldl null_stat no_stats (null_vals nb vs))"
    "length (codes_of nb vs) = length vs" "db_inv (dict_of nb vs)" "length (keys (dict_of nb vs)) \<le> length vs"
    "length (concat (keys (dict_of nb vs))) \<le> length (concat vs)"
    "set (keys (dict_of nb vs)) = {vs ! i |i. i < length vs \<and> valid_at nb i}"
    "i < length vs \<Longrightarrow> valid_at nb i \<Longrightarrow> unat (codes_of nb vs ! i) < length (keys (dict_of nb vs)) \<and> keys (dict_of nb vs) ! unat (codes_of nb vs ! i) = vs ! i"
  using string_codes_ok [OF assms] by (auto simp: codes_of_def dict_of_def coded_def null_vals_def)

section \<open>The section of a column\<close>

fun col_len :: "col_values \<Rightarrow> nat" where
  "col_len (Int64s vs) = length vs" | "col_len (Float64s vs) = length vs" | "col_len (Dates vs) = length vs"
| "col_len (Bools vs) = length vs" | "col_len (Strings vs) = length vs"

fun col_type :: "col_values \<Rightarrow> DataType" where
  "col_type (Int64s vs) = TypeInt64" | "col_type (Float64s vs) = TypeFloat64" | "col_type (Dates vs) = TypeDate"
| "col_type (Bools vs) = TypeBool" | "col_type (Strings vs) = TypeString"

lemma checkValueType_iff: "checkValueType t values \<longleftrightarrow> t = col_type values"
  by (cases t; cases "values") simp_all

definition rle_block :: "byte list \<Rightarrow> bool list \<Rightarrow> byte list" where
  "rle_block nulls vals = projr (EncodeRLEBool vals nulls)"

fun col_blocks :: "byte list \<Rightarrow> col_values \<Rightarrow> byte list list" where
  "col_blocks nb (Int64s vs) = section_blocks (fixed_block AppendInt64) nb vs"
| "col_blocks nb (Float64s vs) = section_blocks (fixed_block AppendFloat64) nb vs"
| "col_blocks nb (Dates vs) = section_blocks (fixed_block AppendInt32) nb vs"
| "col_blocks nb (Bools vs) = section_blocks rle_block nb vs"
| "col_blocks nb (Strings vs) = section_blocks (fixed_block AppendUint32) nb (codes_of nb vs)"

fun col_dict :: "byte list \<Rightarrow> col_values \<Rightarrow> byte list" where
  "col_dict nb (Strings vs) = DictBuilder_Marshal (dict_of nb vs)"
| "col_dict nb _ = []"

fun dict_offset :: "byte list \<Rightarrow> col_values \<Rightarrow> nat" where
  "dict_offset nb (Strings vs) = length (concat (col_blocks nb (Strings vs)))"
| "dict_offset nb _ = 0"

fun col_stats :: "byte list \<Rightarrow> col_values \<Rightarrow> ZoneMap" where
  "col_stats nb (Int64s vs) = foldl int64_stat no_stats (null_vals nb vs)"
| "col_stats nb (Float64s vs) = float_zone (foldl float64_stat no_float_stats (null_vals nb vs))"
| "col_stats nb (Dates vs) = foldl date_stat no_stats (null_vals nb vs)"
| "col_stats nb (Bools vs) = foldl null_stat no_stats (null_vals nb vs)"
| "col_stats nb (Strings vs) = string_zone (length (keys (dict_of nb vs))) (foldl null_stat no_stats (null_vals nb vs))"

definition section_of :: "byte list \<Rightarrow> col_values \<Rightarrow> byte list" where
  "section_of nb values = concat (col_blocks nb values) @ col_dict nb values"

lemma rle_block_ok:
  assumes "bitmap_bytes (length vals) \<le> length nulls" "length vals < 2 ^ 32"
  shows "EncodeRLEBool vals nulls = Inr (rle_block nulls vals)"
  using rle_runs_ok [OF assms, of 0] by (auto simp: rle_block_def EncodeRLEBool_def)

lemma ucast_word_of_nat: "ucast (word_of_nat n :: i64) = (word_of_nat n :: u32)"
  by (rule bit_word_eqI) (simp add: bit_simps)

lemma write_section_ok:
  assumes nb: "bitmap_bytes (col_len values) \<le> length nb" and n: "col_len values < 2 ^ 32"
  shows "write_section nb values w = Inr (col_stats nb values, word_of_nat (dict_offset nb values), word_of_nat (length (col_dict nb values)), mustWrite (section_of nb values) w)"
proof (cases "values")
  case (Bools vs)
  have "EncodeRLEBool (block_of vs (k * BlockRows)) (block_nulls nb (length vs) k) = Inr (rle_block (block_nulls nb (length vs) k) (block_of vs (k * BlockRows)))"
    if k: "k < num_blocks (length vs)" for k
    using block_nulls_ok(2) [of "length vs" nb, OF _ k] block_rows_bounds [OF k] nb n Bools by (intro rle_block_ok) simp_all
  then show ?thesis
    using write_blocks_ok [of vs nb "\<lambda>nulls vals. EncodeRLEBool vals nulls" rle_block null_stat no_stats w] nb Bools
    by (simp add: write_section_def writeBoolBlocks_def section_of_def null_stat_def [abs_def])
next
  case (Strings vs)
  note c = codes_of_ok [of vs nb]
  show ?thesis
    using write_blocks_ok [of "codes_of nb vs" nb "\<lambda>nulls codes. Inr (fixed_block AppendUint32 nulls codes)" "fixed_block AppendUint32" "\<lambda>s _. s" "()" w] nb n c Strings
    by (simp add: write_section_def writeStringBlocks_def section_of_def ucast_word_of_nat DictBuilder_Len_def)
next
  case (Int64s vs)
  then show ?thesis
    using write_blocks_ok [of vs nb "\<lambda>nulls vals. Inr (fixed_block AppendInt64 nulls vals)" "fixed_block AppendInt64" int64_stat no_stats w] nb
    by (simp add: write_section_def writeInt64Blocks_def section_of_def)
next
  case (Float64s vs)
  then show ?thesis
    using write_blocks_ok [of vs nb "\<lambda>nulls vals. Inr (fixed_block AppendFloat64 nulls vals)" "fixed_block AppendFloat64" float64_stat no_float_stats w] nb
    by (simp add: write_section_def writeFloat64Blocks_def section_of_def)
next
  case (Dates vs)
  then show ?thesis
    using write_blocks_ok [of vs nb "\<lambda>nulls vals. Inr (fixed_block AppendInt32 nulls vals)" "fixed_block AppendInt32" date_stat no_stats w] nb
    by (simp add: write_section_def writeDateBlocks_def section_of_def)
qed

end
