(* ===== verification/TableWrite.thy ===== *)
theory TableWrite
  imports Layout
begin

text \<open>
  The writer as a whole: any order of calls that starts a row group, appends each column once and ends it, refines appending a row group to
  an abstract table. The invariant says where the file holds the sections of the columns appended so far and that the metadata point at them.
\<close>

section \<open>Abstract tables\<close>

type_synonym column = "byte list \<times> col_values"
type_synonym row_group = "nat \<times> column list"
type_synonym table = "row_group list"

fun col_cell :: "column \<Rightarrow> nat \<Rightarrow> val option" where
  "col_cell (nb, Int64s vs) i = (if valid_at nb i then Some (VInt (vs ! i)) else None)"
| "col_cell (nb, Float64s vs) i = (if valid_at nb i then Some (VFloat (vs ! i)) else None)"
| "col_cell (nb, Dates vs) i = (if valid_at nb i then Some (VDate (vs ! i)) else None)"
| "col_cell (nb, Bools vs) i = (if valid_at nb i then Some (VBool (vs ! i)) else None)"
| "col_cell (nb, Strings vs) i = (if valid_at nb i then Some (VString (vs ! i)) else None)"

definition rg_rows :: "nat list \<Rightarrow> row_group \<Rightarrow> val option list list" where
  "rg_rows cols rg = map (\<lambda>i. map (\<lambda>c. col_cell (snd rg ! c) i) cols) [0..<fst rg]"

text \<open>The sections of STRING columns stay below 4 GiB: dictionary offsets have 32 bits.\<close>

fun column_bounded :: "col_values \<Rightarrow> bool" where
  "column_bounded (Strings vs) \<longleftrightarrow> 9 * length vs + length (concat vs) + 144 < 2 ^ 32"
| "column_bounded values \<longleftrightarrow> True"

definition column_ok :: "nat \<Rightarrow> DataType \<Rightarrow> column \<Rightarrow> bool" where
  "column_ok n t c \<longleftrightarrow> 0 < n \<and> n < 2 ^ 32 \<and> col_len (snd c) = n \<and> col_type (snd c) = t \<and> bitmap_bytes n \<le> length (fst c) \<and> column_bounded (snd c)"

datatype write_op = BeginOp nat | ColumnOp nat "byte list option" col_values | EndOp

type_synonym open_group = "(nat \<times> column option list) option"

fun table_step :: "Schema \<Rightarrow> write_op \<Rightarrow> table \<times> open_group \<Rightarrow> (table \<times> open_group) option" where
  "table_step schema (BeginOp n) (T, None) = (if 0 < n \<and> n < 2 ^ 32 then Some (T, Some (n, replicate (length schema) None)) else None)"
| "table_step schema (ColumnOp i nulls values) (T, Some (n, cs)) = (let c = (case nulls of None \<Rightarrow> FullBitmap n | Some b \<Rightarrow> b, values) in
     if i < length schema \<and> cs ! i = None \<and> column_ok n (Type (schema ! i)) c then Some (T, Some (n, cs[i := Some c])) else None)"
| "table_step schema EndOp (T, Some (n, cs)) = (if None \<in> set cs then None else Some (T @ [(n, map the cs)], None))"
| "table_step schema op s = None"

fun table_run :: "Schema \<Rightarrow> write_op list \<Rightarrow> table \<times> open_group \<Rightarrow> (table \<times> open_group) option" where
  "table_run schema [] s = Some s"
| "table_run schema (op # ops) s = (case table_step schema op s of None \<Rightarrow> None | Some s' \<Rightarrow> table_run schema ops s')"

text \<open>The same calls on the writer.\<close>

fun write_step :: "Writer \<Rightarrow> write_op \<Rightarrow> Writer sres" where
  "write_step w (BeginOp n) = BeginRowGroup n w"
| "write_step w (ColumnOp i nulls values) = AppendColumn (int i) nulls values w"
| "write_step w EndOp = EndRowGroup w"

definition write_table :: "Schema \<Rightarrow> write_op list \<Rightarrow> byte list sres" where
  "write_table schema ops = res_bind (fold_res write_step (NewWriter schema) ops) Finish"


section \<open>The invariant\<close>

text \<open>The bytes before the footer: the magic and the sections.\<close>

definition column_size :: "column \<Rightarrow> nat" where
  "column_size c = length (section_of (fst c) (snd c))"

definition data_size :: "table \<Rightarrow> nat" where
  "data_size T = 4 + (\<Sum>rg \<leftarrow> T. \<Sum>c \<leftarrow> snd rg. column_size c)"

definition open_size :: "open_group \<Rightarrow> nat" where
  "open_size cur = (case cur of None \<Rightarrow> 0 | Some (n, cs) \<Rightarrow> (\<Sum>c \<leftarrow> cs. case c of None \<Rightarrow> 0 | Some c \<Rightarrow> column_size c))"

lemma open_size_simps [simp]:
  "open_size None = 0" "open_size (Some (n, replicate m None)) = 0"
  "i < length cs \<Longrightarrow> cs ! i = None \<Longrightarrow> open_size (Some (n, cs[i := Some c])) = open_size (Some (n, cs)) + column_size c"
  by (simp_all add: open_size_def map_update sum_list_update sum_list_triv)

lemma open_size_end: "None \<notin> set cs \<Longrightarrow> open_size (Some (n, cs)) = (\<Sum>c \<leftarrow> map the cs. column_size c)"
  unfolding open_size_def by (auto simp: comp_def split: option.splits intro!: arg_cong [where f = sum_list] map_cong)

definition placed :: "byte list \<Rightarrow> nat \<Rightarrow> byte list \<Rightarrow> bool" where
  "placed file off b \<longleftrightarrow> off + length b \<le> length file \<and> take (length b) (drop off file) = b"

lemma placed_append: "placed file off b \<Longrightarrow> placed (file @ x) off b"
  by (auto simp: placed_def)

lemma placed_end: "placed (file @ b) (length file) b"
  by (simp add: placed_def)

definition col_at_meta :: "byte list \<Rightarrow> nat \<Rightarrow> DataType \<Rightarrow> column \<Rightarrow> ColumnSectionMeta \<Rightarrow> bool" where
  "col_at_meta file n t c m \<longleftrightarrow> column_ok n t c \<and> (\<exists>off. placed file off (section_of (fst c) (snd c)) \<and>
     m = \<lparr>SectionOffset = word_of_nat off, SectionLength = word_of_nat (length (section_of (fst c) (snd c))), Stats = col_stats (fst c) (snd c),
       DictOffset = word_of_nat (dict_offset (fst c) (snd c)), DictLength = word_of_nat (length (col_dict (fst c) (snd c)))\<rparr>)"

lemma col_at_meta_append: "col_at_meta file n t c m \<Longrightarrow> col_at_meta (file @ x) n t c m"
  by (auto simp: col_at_meta_def intro: placed_append)

definition rg_at_meta :: "byte list \<Rightarrow> Schema \<Rightarrow> row_group \<Rightarrow> RowGroupMeta \<Rightarrow> bool" where
  "rg_at_meta file schema rg m \<longleftrightarrow> NumRows m = fst rg \<and> 0 < fst rg \<and> fst rg < 2 ^ 32 \<and> length (snd rg) = length schema \<and> length (Columns m) = length schema \<and>
     (\<forall>i < length schema. col_at_meta file (fst rg) (Type (schema ! i)) (snd rg ! i) (Columns m ! i))"

lemma rg_at_meta_append: "rg_at_meta file schema rg m \<Longrightarrow> rg_at_meta (file @ x) schema rg m"
  by (auto simp: rg_at_meta_def intro: col_at_meta_append)

definition open_inv :: "Writer \<Rightarrow> open_group \<Rightarrow> bool" where
  "open_inv w cur = (case cur of None \<Rightarrow> rgNumRows w = 0
   | Some (n, cs) \<Rightarrow> rgNumRows w = n \<and> 0 < n \<and> n < 2 ^ 32 \<and> length cs = length (wschema w) \<and> rgColWritten w = map (\<lambda>c. c \<noteq> None) cs \<and> length (rgColMeta w) = length (wschema w) \<and>
       (\<forall>i < length (wschema w). \<forall>c. cs ! i = Some c \<longrightarrow> col_at_meta (wfile w) n (Type (wschema w ! i)) c (rgColMeta w ! i)))"

definition writer_inv :: "Schema \<Rightarrow> Writer \<Rightarrow> table \<times> open_group \<Rightarrow> bool" where
  "writer_inv schema w s \<longleftrightarrow> wschema w = schema \<and> woffset w = word_of_nat (length (wfile w)) \<and> length (wfile w) = data_size (fst s) + open_size (snd s) \<and>
     list_all2 (rg_at_meta (wfile w) schema) (fst s) (wmeta w) \<and> open_inv w (snd s)"

lemma writer_inv_New: "writer_inv schema (NewWriter schema) ([], None)"
  by (simp add: writer_inv_def open_inv_def NewWriter_def Magic_def data_size_def)

lemma AppendColumn_ok:
  assumes inv: "writer_inv schema w (T, Some (n, cs))" and i: "i < length schema" "cs ! i = None"
    and c: "c = (case nulls of None \<Rightarrow> FullBitmap n | Some b \<Rightarrow> b, values)" "column_ok n (Type (schema ! i)) c"
  shows "\<exists>w'. AppendColumn (int i) nulls values w = Inr w' \<and> writer_inv schema w' (T, Some (n, cs[i := Some c]))"
proof -
  let ?nb = "fst c" and ?b = "section_of (fst c) values"
  let ?w = "mustWrite ?b w"
  let ?m = "\<lparr>SectionOffset = woffset w, SectionLength = word_of_nat (length ?b), Stats = col_stats ?nb values,
       DictOffset = word_of_nat (dict_offset ?nb values), DictLength = word_of_nat (length (col_dict ?nb values))\<rparr>"
  let ?w' = "?w\<lparr>rgColMeta := (rgColMeta w)[i := ?m], rgColWritten := (rgColWritten w)[i := True]\<rparr>"
  have v: "snd c = values" "?nb = (case nulls of None \<Rightarrow> FullBitmap n | Some b \<Rightarrow> b)" using c(1) by simp_all
  have o: "wschema w = schema" "woffset w = word_of_nat (length (wfile w))" "rgNumRows w = n" "0 < n" "length cs = length schema" "rgColWritten w = map (\<lambda>c. c \<noteq> None) cs"
    "length (rgColMeta w) = length schema"
    "\<And>i c. i < length schema \<Longrightarrow> cs ! i = Some c \<Longrightarrow> col_at_meta (wfile w) n (Type (schema ! i)) c (rgColMeta w ! i)"
    using inv by (auto simp: writer_inv_def open_inv_def)
  have sec: "write_section ?nb values w = Inr (col_stats ?nb values, word_of_nat (dict_offset ?nb values), word_of_nat (length (col_dict ?nb values)), ?w)"
    using c(2) v(1) by (intro write_section_ok) (simp_all add: column_ok_def)
  have nb': "(case nulls of None \<Rightarrow> FullBitmap (rgNumRows w) | Some b \<Rightarrow> b) = ?nb" unfolding v(2) o(3) ..
  have "AppendColumn (int i) nulls values w = Inr ?w'"
    using o i c(2) sec v(1) unfolding AppendColumn_def Let_def nb' by (simp add: checkValueType_iff column_ok_def)
  moreover have "col_at_meta (wfile w @ ?b) n (Type (schema ! i)) c ?m"
    using c(2) placed_end [of "wfile w" ?b] o(2) v(1) by (auto simp: col_at_meta_def)
  then have "open_inv ?w' (Some (n, cs[i := Some c]))"
    using inv o i col_at_meta_append [of "wfile w" _ _ _ _ ?b] by (auto simp: open_inv_def writer_inv_def nth_list_update map_update)
  moreover have "list_all2 (rg_at_meta (wfile w @ ?b) schema) T (wmeta w)"
    using inv by (auto simp: writer_inv_def intro: list_all2_mono rg_at_meta_append)
  moreover have "length (wfile w @ ?b) = data_size T + open_size (Some (n, cs[i := Some c]))"
    using inv o(5) i v(1) by (simp add: writer_inv_def column_size_def)
  ultimately show ?thesis using inv by (auto simp: writer_inv_def)
qed

lemma EndRowGroup_ok:
  assumes inv: "writer_inv schema w (T, Some (n, cs))" and cs: "None \<notin> set cs"
  shows "\<exists>w'. EndRowGroup w = Inr w' \<and> writer_inv schema w' (T @ [(n, map the cs)], None)"
proof -
  have o: "wschema w = schema" "rgNumRows w = n" "0 < n" "n < 2 ^ 32" "length cs = length schema" "rgColWritten w = map (\<lambda>c. c \<noteq> None) cs" "length (rgColMeta w) = length schema"
    "\<And>i c. i < length schema \<Longrightarrow> cs ! i = Some c \<Longrightarrow> col_at_meta (wfile w) n (Type (schema ! i)) c (rgColMeta w ! i)"
    using inv by (auto simp: writer_inv_def open_inv_def)
  have "cs ! i = Some (the (cs ! i))" if "i < length schema" for i
    using cs o(5) that by (metis nth_mem option.collapse)
  then have "rg_at_meta (wfile w) schema (n, map the cs) \<lparr>FileOffset = rgStartOff w, NumRows = n, Columns = rgColMeta w\<rparr>"
    using o by (simp add: rg_at_meta_def)
  then have "list_all2 (rg_at_meta (wfile w) schema) (T @ [(n, map the cs)]) (wmeta w @ [\<lparr>FileOffset = rgStartOff w, NumRows = n, Columns = rgColMeta w\<rparr>])"
    using inv by (intro list_all2_appendI) (simp_all add: writer_inv_def)
  moreover have "\<forall>c \<in> set (rgColWritten w). c" using cs unfolding o(6) by (metis (mono_tags, lifting) imageE list.set_map)
  ultimately show ?thesis using inv o(2,3) open_size_end [OF cs] by (auto simp: EndRowGroup_def writer_inv_def open_inv_def data_size_def)
qed

lemma write_step_ok:
  assumes "writer_inv schema w s" "table_step schema op s = Some s'"
  shows "\<exists>w'. write_step w op = Inr w' \<and> writer_inv schema w' s'"
  using assms
proof (cases "(schema, op, s)" rule: table_step.cases)
  case (1 schema' n T)
  then show ?thesis using assms
    by (auto simp: BeginRowGroup_def writer_inv_def open_inv_def split: if_splits)
next
  case (2 schema' i nulls vals T n cs)
  then show ?thesis using assms AppendColumn_ok [of schema w T n cs i _ nulls vals] by (auto simp: Let_def split: if_splits)
next
  case (3 schema' T n cs)
  then show ?thesis using assms EndRowGroup_ok by (auto split: if_splits)
qed auto

lemma write_run_ok:
  "writer_inv schema w s \<Longrightarrow> table_run schema ops s = Some s' \<Longrightarrow> \<exists>w'. fold_res write_step w ops = Inr w' \<and> writer_inv schema w' s'"
proof (induction ops arbitrary: w s)
  case (Cons op ops)
  then show ?case using write_step_ok [of schema w s op] by (fastforce split: option.splits)
qed auto

end
