(* ===== verification/TableRead.thy ===== *)
theory TableRead
  imports TableWrite
begin

text \<open>
  Opening a written table and reading its columns: parsing inverts marshalling, the read-ahead window never changes what is read, and block after block the
  column reader returns what was written.
\<close>

section \<open>Footer\<close>

definition field_bytes :: "Field \<Rightarrow> byte list" where
  "field_bytes f = marshal_field [] f"

definition column_bytes :: "ColumnSectionMeta \<Rightarrow> byte list" where
  "column_bytes c = marshal_column [] c"

definition row_group_bytes :: "RowGroupMeta \<Rightarrow> byte list" where
  "row_group_bytes rg = marshal_row_group [] rg"

lemma marshal_column_append: "marshal_column b c = b @ column_bytes c"
  by (simp add: column_bytes_def marshal_column_def Let_def append_defs)

lemma marshal_field_append: "marshal_field b f = b @ field_bytes f"
  by (simp add: field_bytes_def marshal_field_def Let_def append_defs)

lemma foldl_marshal_column: "foldl marshal_column b cs = b @ concat (map column_bytes cs)"
  unfolding marshal_column_append [abs_def] by (rule foldl_append_concat)

lemma marshal_row_group_append: "marshal_row_group b rg = b @ row_group_bytes rg"
  by (simp add: row_group_bytes_def marshal_row_group_def append_defs foldl_marshal_column)

lemma foldl_marshal:
  "foldl marshal_field b fs = b @ concat (map field_bytes fs)" "foldl marshal_row_group b rgs = b @ concat (map row_group_bytes rgs)"
  unfolding marshal_field_append [abs_def] marshal_row_group_append [abs_def] by (rule foldl_append_concat)+

definition field_bounded :: "Field \<Rightarrow> bool" where
  "field_bounded f \<longleftrightarrow> length (Name f) < 2 ^ 16"

lemma tag_bytes [simp]: "type_of_byte (type_byte t) = Inr t" "encoding_of_byte (encoding_byte e) = Inr e"
  by (cases t; simp add: type_of_byte_def) (cases e; simp add: encoding_of_byte_def)

lemma parse_fields_append:
  "\<forall>f \<in> set fs. field_bounded f \<Longrightarrow> parse_fields (length fs) (concat (map field_bytes fs) @ rest) = Inr (fs, rest)"
proof (induction fs)
  case (Cons f fs)
  have n: "unat (word_of_nat (length (Name f)) :: u16) = length (Name f)"
    using Cons.prems by (simp add: field_bounded_def unat_of_nat take_bit_nat_eq_self)
  have f: "\<lparr>Name = Name f, Type = Type f, FEncoding = FEncoding f, Nullable = Nullable f\<rparr> = f" by simp
  show ?case using Cons n f by (simp add: field_bytes_def marshal_field_def Let_def append_defs read_defs)
qed simp

lemma length_column_bytes [simp]: "length (column_bytes c) = colMetaSize"
  by (simp add: column_bytes_def marshal_column_def Let_def append_defs colMetaSize_def)

lemma parse_column_append: "parse_column (column_bytes c @ rest) = Inr (c, rest)"
proof -
  have "length (column_bytes c @ rest) \<ge> colMetaSize" by simp
  then show ?thesis unfolding parse_column_def column_bytes_def marshal_column_def Let_def append_defs read_defs by simp
qed

lemma parse_columns_append: "parse_columns (length cs) (concat (map column_bytes cs) @ rest) = Inr (cs, rest)"
  by (induction cs) (simp_all add: parse_column_append)

lemma parse_row_groups_append:
  assumes "\<forall>rg \<in> set rgs. length (Columns rg) = n \<and> NumRows rg < 2 ^ 32"
  shows "parse_row_groups n (length rgs) (concat (map row_group_bytes rgs) @ rest) = Inr rgs"
  using assms
proof (induction rgs)
  case (Cons rg rgs)
  have n: "unat (word_of_nat (NumRows rg) :: u32) = NumRows rg" using Cons.prems by (simp add: unat_of_nat take_bit_nat_eq_self)
  have rg: "row_group_bytes rg = le_bytes 8 (FileOffset rg) @ le_bytes 4 (word_of_nat (NumRows rg) :: u32) @ concat (map column_bytes (Columns rg))"
    by (simp add: row_group_bytes_def marshal_row_group_def append_defs foldl_marshal_column)
  show ?case using Cons n parse_columns_append [of "Columns rg"] by (simp add: rg read_defs)
qed simp

lemma parseFooter_body:
  assumes "\<forall>f \<in> set schema. field_bounded f" "length schema < 2 ^ 32" "length rgs < 2 ^ 32"
    and "\<forall>rg \<in> set rgs. length (Columns rg) = length schema \<and> NumRows rg < 2 ^ 32"
  shows "parseFooter (footer_body schema rgs) = Inr \<lparr>MSchema = schema, RowGroups = rgs\<rparr>"
proof -
  have n: "unat (word_of_nat (length schema) :: u32) = length schema" "unat (word_of_nat (length rgs) :: u32) = length rgs"
    using assms(2,3) by (simp_all add: unat_of_nat take_bit_nat_eq_self)
  have "footer_body schema rgs = le_bytes 4 (word_of_nat (length schema) :: u32) @ concat (map field_bytes schema) @
      le_bytes 4 (word_of_nat (length rgs) :: u32) @ concat (map row_group_bytes rgs)"
    by (simp add: footer_body_def Let_def foldl_marshal append_defs)
  then show ?thesis
    using parse_fields_append [OF assms(1)] parse_row_groups_append [OF assms(4), of "[]"] by (simp add: parseFooter_def read_defs n)
qed

lemma readFooter_written:
  assumes "length file < 2 ^ 63" "file = pre @ body @ le_bytes 4 (ChecksumIEEE body) @ le_bytes 8 (word_of_nat (length body) :: i64) @ bytes_of Magic" "4 \<le> length pre"
  shows "readFooter file = parseFooter body"
proof -
  let ?n = "length file" and ?trailer = "le_bytes 4 (ChecksumIEEE body) @ le_bytes 8 (word_of_nat (length body) :: i64) @ bytes_of Magic"
  have len: "?n = length pre + length body + 16" using assms(2) by (simp add: Magic_def)
  have off: "(word_of_nat ?n :: i64) - word_of_nat FooterTrailerSize = word_of_nat (length pre + length body)"
    "(word_of_nat ?n :: i64) - word_of_nat FooterTrailerSize - word_of_nat (length body) = word_of_nat (length pre)"
    "(word_of_nat ?n :: i64) - word_of_nat FooterTrailerSize - word_of_nat (length Magic) = word_of_nat (length pre - 4 + length body)"
    using len assms(3) by (simp_all add: FooterTrailerSize_def Magic_def of_nat_diff)
  have s: "sint (word_of_nat m :: i64) = int m" "unat (word_of_nat m :: i64) = m" if "m \<le> ?n" for m
    using that assms(1) by (simp_all add: sint_word_of_nat unat_i64)
  have r: "readAt file (word_of_nat (length pre + length body)) FooterTrailerSize = Inr ?trailer" "readAt file (word_of_nat (length pre)) (length body) = Inr body"
    using s [of "length pre + length body"] s [of "length pre"] len unfolding readAt_def by (simp_all add: assms(2) FooterTrailerSize_def Magic_def)
  have g: "GetUint32 (take 4 ?trailer) = (Inr (ChecksumIEEE body) :: u32 sres)" "GetInt64 (take 8 (drop 4 ?trailer)) = (Inr (word_of_nat (length body)) :: i64 sres)"
    by (simp_all add: put_get_defs read_le_append [of _ _ "[]", simplified])
  show ?thesis
    unfolding readFooter_def Let_def off r res_bind_simps g
    using s [of ?n] s [of "length body"] s [of "length pre - 4 + length body"] len assms(3)
    by (simp add: off r FooterTrailerSize_def Magic_def)
qed

definition footer_size :: "Schema \<Rightarrow> nat \<Rightarrow> nat" where
  "footer_size schema m = 8 + (\<Sum>f \<leftarrow> schema. 5 + length (Name f)) + m * (12 + length schema * colMetaSize)"

lemma length_footer_body:
  assumes "\<forall>rg \<in> set rgs. length (Columns rg) = length schema"
  shows "length (footer_body schema rgs) = footer_size schema (length rgs)"
proof -
  have f: "length (field_bytes f) = 5 + length (Name f)" for f by (simp add: field_bytes_def marshal_field_def Let_def append_defs)
  have c: "length (concat (map column_bytes cs)) = length cs * colMetaSize" for cs by (simp add: length_concat comp_def sum_list_triv)
  have "length (concat (map row_group_bytes rgs)) = length rgs * (12 + length schema * colMetaSize)"
    using assms by (induction rgs) (simp_all add: row_group_bytes_def marshal_row_group_def append_defs foldl_marshal_column c)
  then show ?thesis by (simp add: footer_body_def Let_def foldl_marshal append_defs length_concat comp_def f footer_size_def)
qed

definition file_size :: "Schema \<Rightarrow> table \<Rightarrow> nat" where
  "file_size schema T = data_size T + footer_size schema (length T) + FooterTrailerSize"

lemma write_table_Open:
  assumes "table_run schema ops ([], None) = Some (T, None)" "\<forall>f \<in> set schema. field_bounded f" "length schema < 2 ^ 32" "length T < 2 ^ 32"
    and "file_size schema T < 2 ^ 63"
  shows "\<exists>file rgs. write_table schema ops = Inr file \<and> length file = file_size schema T \<and> list_all2 (rg_at_meta file schema) T rgs \<and>
    Open file = Inr \<lparr>rfile = file, rmeta = \<lparr>MSchema = schema, RowGroups = rgs\<rparr>\<rparr>"
proof -
  obtain w where w: "fold_res write_step (NewWriter schema) ops = Inr w" "writer_inv schema w (T, None)"
    using write_run_ok [OF writer_inv_New assms(1)] by blast
  have i: "wschema w = schema" "length (wfile w) = data_size T" "list_all2 (rg_at_meta (wfile w) schema) T (wmeta w)" "rgNumRows w = 0"
    using w(2) by (simp_all add: writer_inv_def open_inv_def)
  let ?body = "footer_body schema (wmeta w)"
  let ?file = "wfile w @ ?body @ le_bytes 4 (ChecksumIEEE ?body) @ le_bytes 8 (word_of_nat (length ?body) :: i64) @ bytes_of Magic"
  have f: "write_table schema ops = Inr ?file"
    by (simp add: write_table_def w(1) Finish_def i marshalFooter_def Let_def append_defs)
  have rg: "length (Columns rg) = length schema \<and> NumRows rg < 2 ^ 32" if "rg \<in> set (wmeta w)" for rg
    using i(3) that by (auto simp: list_all2_conv_all_nth in_set_conv_nth rg_at_meta_def)
  have m: "length (wmeta w) = length T" using i(3) by (simp add: list_all2_lengthD)
  have size: "length ?file = file_size schema T"
    using length_footer_body [of "wmeta w" schema] rg i(2) m by (simp add: file_size_def FooterTrailerSize_def Magic_def)
  have "parseFooter ?body = Inr \<lparr>MSchema = schema, RowGroups = wmeta w\<rparr>"
    using rg m assms(4) by (intro parseFooter_body assms(2,3)) auto
  moreover have "4 \<le> length (wfile w)" using i(2) by (simp add: data_size_def)
  ultimately have "Open ?file = Inr \<lparr>rfile = ?file, rmeta = \<lparr>MSchema = schema, RowGroups = wmeta w\<rparr>\<rparr>"
    using readFooter_written [of ?file "wfile w" ?body] size assms(5) unfolding Open_def by simp
  moreover have "list_all2 (rg_at_meta ?file schema) T (wmeta w)"
    using i(3) by (rule list_all2_mono) (rule rg_at_meta_append)
  ultimately show ?thesis using f size by blast
qed


section \<open>The read-ahead window\<close>

lemma readAt_ok: "length file < 2 ^ 63 \<Longrightarrow> off + n \<le> length file \<Longrightarrow> readAt file (word_of_nat off) n = Inr (take n (drop off file))"
  by (simp add: readAt_def sint_word_of_nat unat_i64)

definition win_ok :: "byte list \<Rightarrow> ColumnReader \<Rightarrow> bool" where
  "win_ok file cr = (case win cr of None \<Rightarrow> True | Some (ws, b) \<Rightarrow> \<exists>k. ws = word_of_nat k \<and> placed file k b)"

lemma placed_slice: "placed file k b \<Longrightarrow> k \<le> p \<Longrightarrow> p - k + n \<le> length b \<Longrightarrow> take n (drop (p - k) b) = take n (drop p file)"
proof -
  assume a: "placed file k b" "k \<le> p" "p - k + n \<le> length b"
  have "take n (drop (p - k) b) = take n (drop (p - k) (take (length b) (drop k file)))" using a(1) by (simp add: placed_def)
  also have "\<dots> = take n (drop p file)" using a(2,3) by (simp add: drop_take min_def)
  finally show ?thesis .
qed

lemma window_ok:
  assumes small: "length file < 2 ^ 63" and win: "win_ok file cr"
    and sec: "SectionOffset (colMeta cr) = word_of_nat o1" "cend cr = word_of_nat e" "o1 \<le> p" "p + n \<le> e" "e \<le> length file"
  shows "\<exists>cr'. window file (word_of_nat p) n cr = (Inr (take n (drop p file)), cr') \<and> win_ok file cr'"
proof -
  have s: "sint (word_of_nat m :: i64) = int m" "unat (word_of_nat m :: i64) = m" if "m \<le> length file" for m
    using that small by (simp_all add: sint_word_of_nat unat_i64)
  have pn: "(word_of_nat p :: i64) + word_of_nat n = word_of_nat (p + n)" by simp
  have guard: "\<not> (sint (word_of_nat p :: i64) < sint (SectionOffset (colMeta cr)) \<or> sint (cend cr) < sint ((word_of_nat p :: i64) + word_of_nat n))"
    unfolding pn sec using sec(3-5) s [of p] s [of o1] s [of e] s [of "p + n"] by simp
  let ?hit = "\<lambda>ws b. sint ws \<le> sint (word_of_nat p :: i64) \<and> sint (word_of_nat p - ws + word_of_nat n :: i64) \<le> int (length b)"
  consider ws b where "win cr = Some (ws, b)" "?hit ws b" | "(case win cr of None \<Rightarrow> None | Some (ws, b) \<Rightarrow> if ?hit ws b then Some (ws, b) else None) = None"
  proof (cases "win cr")
    case (Some wb)
    then show ?thesis using that by (cases wb; cases "?hit (fst wb) (snd wb)") simp_all
  qed (use that in simp)
  then show ?thesis
  proof cases
    case 1
    obtain k where k: "ws = word_of_nat k" "placed file k b" using win 1(1) by (auto simp: win_ok_def)
    have kl: "k + length b \<le> length file" using k(2) by (simp add: placed_def)
    then have "k \<le> p" using 1(2) s [of k] s [of p] sec(4,5) by (simp add: k(1))
    then have d: "(word_of_nat p :: i64) - ws = word_of_nat (p - k)" "(word_of_nat p :: i64) - ws + word_of_nat n = word_of_nat (p - k + n)"
      by (simp_all add: k(1) of_nat_diff)
    have u: "unat ((word_of_nat p :: i64) - ws) = p - k" "p - k + n \<le> length b"
      using 1(2) s [of "p - k"] s [of "p - k + n"] sec(4,5) unfolding d by simp_all
    then have "slice b (p - k) (p - k + n) = (Inr (take n (drop p file)) :: byte list sres)"
      using placed_slice [OF k(2) \<open>k \<le> p\<close>] by simp
    then show ?thesis unfolding window_def using guard 1 win u(1) by simp
  next
    case 2
    define m where "m = max n (min (e - p) maxPrefetchBytes)"
    have m: "n \<le> m" "p + m \<le> e" using sec(4) by (auto simp: m_def)
    have d: "cend cr - word_of_nat p = (word_of_nat (e - p) :: i64)" using sec(2,4) by (simp add: of_nat_diff)
    have want: "(let want = cend cr - word_of_nat p; want = (if int maxPrefetchBytes < sint want then word_of_nat maxPrefetchBytes else want)
        in if sint want < int n then word_of_nat n else want) = (word_of_nat m :: i64)"
      unfolding d Let_def using s [of "e - p"] s [of n] sec(4,5) sint_word_of_nat [of maxPrefetchBytes] by (auto simp: m_def maxPrefetchBytes_def)
    have r: "readAt file (word_of_nat p) (unat (word_of_nat m :: i64)) = Inr (take m (drop p file))"
      using s [of p] s [of m] m sec(4,5) by (simp add: readAt_def)
    have "placed file p (take m (drop p file))" using m sec(5) by (auto simp: placed_def)
    then have "win_ok file (cr\<lparr>win := Some (word_of_nat p, take m (drop p file))\<rparr>)" by (auto simp: win_ok_def)
    moreover have "window file (word_of_nat p) n cr = (Inr (take n (drop p file)), cr\<lparr>win := Some (word_of_nat p, take m (drop p file))\<rparr>)"
      unfolding window_def if_not_P [OF guard] 2 option.case using want r m sec(5) by (simp add: Let_def min_absorb1)
    ultimately show ?thesis by blast
  qed
qed

section \<open>Reading a written column block by block\<close>

lemma length_section_blocks [simp]: "length (section_blocks block nb vs) = num_blocks (length vs)"
  by (simp add: section_blocks_def)

lemma nth_section_blocks: "k < num_blocks (length vs) \<Longrightarrow>
    section_blocks block nb vs ! k = block (block_nulls nb (length vs) k) (block_of vs (k * BlockRows))"
  by (simp add: section_blocks_def)

text \<open>The two parts of a block that \<^verbatim>\<open>NextBlock\<close> returns: the null bitmap, which BOOL columns keep in the payload, and the payload.\<close>

definition fixed_data :: "nat \<Rightarrow> byte list \<Rightarrow> ('w::len) word list \<Rightarrow> nat \<Rightarrow> byte list option \<times> byte list" where
  "fixed_data m nb vs k = (Some (block_nulls nb (length vs) k), concat (map (le_bytes m) (block_of vs (k * BlockRows))))"

fun block_data :: "column \<Rightarrow> nat \<Rightarrow> byte list option \<times> byte list" where
  "block_data (nb, Int64s vs) k = fixed_data 8 nb vs k"
| "block_data (nb, Float64s vs) k = fixed_data 8 nb vs k"
| "block_data (nb, Dates vs) k = fixed_data 4 nb vs k"
| "block_data (nb, Bools vs) k = (None, rle_block (block_nulls nb (length vs) k) (block_of vs (k * BlockRows)))"
| "block_data (nb, Strings vs) k = fixed_data 4 nb (codes_of nb vs) k"

abbreviation blocks_of :: "column \<Rightarrow> byte list list" where
  "blocks_of c \<equiv> col_blocks (fst c) (snd c)"

definition block_pos :: "nat \<Rightarrow> column \<Rightarrow> nat \<Rightarrow> nat" where
  "block_pos off c k = off + length (concat (take k (blocks_of c)))"

definition reading :: "byte list \<Rightarrow> Field \<Rightarrow> nat \<Rightarrow> column \<Rightarrow> nat \<Rightarrow> nat \<Rightarrow> ColumnReader \<Rightarrow> bool" where
  "reading file field n c off k cr \<longleftrightarrow> column_ok n (Type field) c \<and> placed file off (section_of (fst c) (snd c)) \<and>
     cfield cr = field \<and> SectionOffset (colMeta cr) = word_of_nat off \<and>
     DictOffset (colMeta cr) = word_of_nat (dict_offset (fst c) (snd c)) \<and> DictLength (colMeta cr) = word_of_nat (length (col_dict (fst c) (snd c))) \<and>
     cpos cr = word_of_nat (block_pos off c k) \<and> cend cr = word_of_nat (off + length (concat (blocks_of c))) \<and>
     totalRows cr = n \<and> win_ok file cr"

lemma block_pos_Suc: "k < length (blocks_of c) \<Longrightarrow> block_pos off c (Suc k) = block_pos off c k + length (blocks_of c ! k)"
  by (simp add: block_pos_def take_Suc_conv_app_nth)

lemma concat_split_nth: "k < length bs \<Longrightarrow> concat bs = concat (take k bs) @ bs ! k @ concat (drop (Suc k) bs)"
  by (metis append.assoc concat.simps(2) concat_append id_take_nth_drop)

lemma block_placed:
  assumes "placed file off (section_of (fst c) (snd c))" "k < length (blocks_of c)"
  shows "placed file (block_pos off c k) (blocks_of c ! k)" "block_pos off c k + length (blocks_of c ! k) \<le> off + length (concat (blocks_of c))"
    "off + length (concat (blocks_of c)) \<le> length file"
proof -
  note split = concat_split_nth [OF assms(2)]
  have l: "off + length (concat (blocks_of c)) + length (col_dict (fst c) (snd c)) \<le> length file" using assms(1) by (simp add: placed_def section_of_def)
  then show "off + length (concat (blocks_of c)) \<le> length file" by simp
  show p: "block_pos off c k + length (blocks_of c ! k) \<le> off + length (concat (blocks_of c))"
    using arg_cong [OF split, of length] unfolding block_pos_def by simp
  have "blocks_of c ! k = take (length (blocks_of c ! k)) (drop (length (concat (take k (blocks_of c)))) (section_of (fst c) (snd c)))"
    unfolding section_of_def using arg_cong [OF split, of "\<lambda>x. x @ col_dict (fst c) (snd c)"] by simp
  also have "\<dots> = take (length (blocks_of c ! k)) (drop (block_pos off c k - off) (section_of (fst c) (snd c)))" by (simp add: block_pos_def)
  also have "\<dots> = take (length (blocks_of c ! k)) (drop (block_pos off c k) file)"
    using p by (intro placed_slice [OF assms(1)]) (auto simp: block_pos_def section_of_def)
  finally show "placed file (block_pos off c k) (blocks_of c ! k)" using p l by (simp add: placed_def)
qed

lemma window_block:
  assumes r: "reading file field n c off k cr" and k: "k < length (blocks_of c)" and small: "length file < 2 ^ 63" and m: "m \<le> length (blocks_of c ! k)"
  shows "\<exists>cr'. window file (cpos cr) m cr = (Inr (take m (blocks_of c ! k)), cr') \<and> reading file field n c off k cr'"
proof -
  have p: "placed file off (section_of (fst c) (snd c))" using r by (simp add: reading_def)
  note b = block_placed [OF p k]
  have t: "take m (drop (block_pos off c k) file) = take m (blocks_of c ! k)"
    using placed_slice [OF b(1), of "block_pos off c k" m] m by simp
  obtain cr' where w: "window file (word_of_nat (block_pos off c k)) m cr = (Inr (take m (drop (block_pos off c k) file)), cr')" "win_ok file cr'"
    using window_ok [of "file" cr off "off + length (concat (blocks_of c))" "block_pos off c k" m] r small b(2,3) m by (auto simp: reading_def block_pos_def)
  moreover have "reading file field n c off k cr'" using r window_frame [OF w(1)] w(2) by (simp add: reading_def)
  ultimately show ?thesis using r t by (auto simp: reading_def)
qed

lemma reading_advance:
  assumes "reading file field n c off k cr" "k < length (blocks_of c)"
  shows "reading file field n c off (Suc k) (cr\<lparr>cpos := cpos cr + word_of_nat (length (blocks_of c ! k))\<rparr>)"
  using assms block_pos_Suc [OF assms(2), of off] by (simp add: reading_def win_ok_def)

lemma nextFixedBlock_reading:
  assumes r: "reading file field n c off k cr" and k: "k < length (blocks_of c)" and small: "length file < 2 ^ 63"
    and blk: "blocks_of c ! k = AppendChecksum (copy_into (replicate NullBitmapBytes 0) nulls @ payload)"
    and len: "length payload = rows * ValueSize (Type field)" "length nulls = bitmap_bytes rows" "rows \<le> BlockRows"
  shows "\<exists>cr'. nextFixedBlock file rows cr = (Inr (Some nulls, payload, rows), cr') \<and> reading file field n c off (Suc k) cr'"
proof -
  let ?b = "NullBitmapBytes + rows * ValueSize (Type field) + 4"
  have l: "length (blocks_of c ! k) = ?b" unfolding blk by (simp add: AppendChecksum_def Let_def len(1))
  obtain cr' where w: "window file (cpos cr) ?b cr = (Inr (blocks_of c ! k), cr')" "reading file field n c off k cr'"
    using window_block [OF r k small, of ?b] by (auto simp: l)
  have f: "cfield cr = field" using r by (simp add: reading_def)
  have rows: "bitmap_bytes rows \<le> NullBitmapBytes" using len(3) unfolding NullBitmapBytes_def by (intro div_le_mono) simp
  then have n: "take (bitmap_bytes rows) (copy_into (replicate NullBitmapBytes 0) nulls) = nulls" using len(2) by (simp add: copy_into_def)
  have sl: "slice (copy_into (replicate NullBitmapBytes 0) nulls @ payload) 0 (bitmap_bytes rows) = (Inr nulls :: byte list sres)"
    "slice (copy_into (replicate NullBitmapBytes 0) nulls @ payload) NullBitmapBytes (NullBitmapBytes + length payload) = (Inr payload :: byte list sres)"
    using rows n by simp_all
  have "nextFixedBlock file rows cr = (Inr (Some nulls, payload, rows), cr'\<lparr>cpos := cpos cr' + word_of_nat ?b\<rparr>)"
    unfolding nextFixedBlock_def Let_def f w(1) unfolding blk by (simp add: VerifyTrailing_AppendChecksum sl)
  moreover have "reading file field n c off (Suc k) (cr'\<lparr>cpos := cpos cr' + word_of_nat ?b\<rparr>)"
    using reading_advance [OF w(2) k] unfolding l .
  ultimately show ?thesis by simp
qed

lemma rle_block_runs:
  assumes "bitmap_bytes (length vals) \<le> length nulls" "length vals < 2 ^ 32"
  obtains runs where "rle_block nulls vals = AppendChecksum (AppendUint32 [] (word_of_nat (length runs)) @ concat (map (\<lambda>(l, v). le_bytes 4 l @ [v]) runs))"
    "expand runs = map (cell vals nulls) [0..<length vals]" "length runs \<le> length vals"
  using rle_runs_ok [OF assms, of 0] by (auto simp: rle_block_def EncodeRLEBool_def foldl_runs)

lemma length_runs: "length (concat (map (\<lambda>(l, v). le_bytes 4 l @ [v]) runs)) = 5 * length runs"
  by (induction runs) auto

lemma nextBoolBlock_reading:
  assumes r: "reading file field n c off k cr" and k: "k < length (blocks_of c)" and small: "length file < 2 ^ 63"
    and blk: "blocks_of c ! k = rle_block nulls vals"
    and len: "length nulls = bitmap_bytes (length vals)" "length vals \<le> BlockRows"
  shows "\<exists>cr'. nextBoolBlock file (length vals) cr = (Inr (None, blocks_of c ! k, length vals), cr') \<and>
    reading file field n c off (Suc k) cr'"
proof -
  let ?b = "blocks_of c ! k"
  have small_vals: "length vals < 2 ^ 32" using len(2) by (simp add: BlockRows_def)
  have "bitmap_bytes (length vals) \<le> length nulls" using len(1) by simp
  then obtain runs :: "(u32 \<times> byte) list" where b: "?b = AppendChecksum (AppendUint32 [] (word_of_nat (length runs)) @ concat (map (\<lambda>(l, v). le_bytes 4 l @ [v]) runs))" "length runs \<le> length vals"
    unfolding blk using small_vals by (rule rle_block_runs) blast
  have u: "unat (word_of_nat (length runs) :: u32) = length runs" "\<not> (word_of_nat (length vals) :: u32) < word_of_nat (length runs)"
    using b(2) small_vals by (simp_all add: unat_of_nat take_bit_nat_eq_self word_less_nat_alt)
  have l: "length ?b = 4 + length runs * 5 + 4" unfolding b(1) by (simp add: AppendChecksum_def Let_def AppendUint32_def length_runs)
  have h: "take 4 ?b = le_bytes 4 (word_of_nat (length runs) :: u32)" unfolding b(1) by (simp add: AppendChecksum_def Let_def AppendUint32_def)
  obtain c1 where w1: "window file (cpos cr) 4 cr = (Inr (take 4 ?b), c1)" "reading file field n c off k c1"
    using window_block [OF r k small, of 4] l by auto
  have pos: "cpos c1 = cpos cr" using window_frame [OF w1(1)] by simp
  obtain c2 where w2: "window file (cpos cr) (4 + length runs * 5 + 4) c1 = (Inr ?b, c2)" "reading file field n c off k c2"
    using window_block [OF w1(2) k small, of "length ?b"] by (auto simp: pos l)
  have g: "GetUint32 (take 4 ?b) = (Inr (word_of_nat (length runs)) :: u32 sres)"
    unfolding h by (simp add: put_get_defs read_le_append [of _ _ "[]", simplified])
  have "nextBoolBlock file (length vals) cr = (Inr (None, ?b, length vals), c2\<lparr>cpos := cpos c2 + word_of_nat (length ?b)\<rparr>)"
    unfolding nextBoolBlock_def Let_def w1(1) using g u w2(1) l by simp
  then show ?thesis using reading_advance [OF w2(2) k] by simp
qed

lemma foldl_append_le:
  "foldl AppendInt64 b vs = b @ concat (map (le_bytes 8) vs)" "foldl AppendFloat64 b fs = b @ concat (map (le_bytes 8) fs)" "foldl AppendInt32 b ds = b @ concat (map (le_bytes 4) ds)"
  by (induction vs arbitrary: b) (simp_all add: AppendInt64_def, induction fs arbitrary: b, simp_all add: AppendFloat64_def,
      induction ds arbitrary: b, simp_all add: AppendInt32_def)

lemma length_blocks_of: "column_ok n t c \<Longrightarrow> length (blocks_of c) = num_blocks n"
  by (cases c; cases "snd c") (auto simp: column_ok_def codes_of_ok(2))

lemma reading_rowsDone: "reading file field n c off k (cr\<lparr>rowsDone := m\<rparr>) = reading file field n c off k cr"
  by (simp add: reading_def win_ok_def)

definition at_block :: "byte list \<Rightarrow> Field \<Rightarrow> nat \<Rightarrow> column \<Rightarrow> nat \<Rightarrow> nat \<Rightarrow> ColumnReader \<Rightarrow> bool" where
  "at_block file field n c off k cr \<longleftrightarrow> reading file field n c off k cr \<and> rowsDone cr = min n (k * BlockRows)"

lemma fixed_block_eq:
  "fixed_block AppendInt64 nulls vs = AppendChecksum (copy_into (replicate NullBitmapBytes 0) nulls @ concat (map (le_bytes 8) vs))"
  "fixed_block AppendFloat64 nulls vs = AppendChecksum (copy_into (replicate NullBitmapBytes 0) nulls @ concat (map (le_bytes 8) vs))"
  "fixed_block AppendInt32 nulls ds = AppendChecksum (copy_into (replicate NullBitmapBytes 0) nulls @ concat (map (le_bytes 4) ds))"
  "fixed_block AppendUint32 nulls ds = AppendChecksum (copy_into (replicate NullBitmapBytes 0) nulls @ concat (map (le_bytes 4) ds))"
  by (simp_all add: fixed_block_def Let_def foldl_append_le foldl_AppendUint32)

text \<open>Block \<open>k\<close> of a fixed-width column, as it stands in the file and as it is returned.\<close>

lemma fixed_block_data:
  assumes "column_ok n t c" "k < num_blocks n" "t \<noteq> TypeBool"
  obtains nulls payload where "block_data c k = (Some nulls, payload)"
    "blocks_of c ! k = AppendChecksum (copy_into (replicate NullBitmapBytes 0) nulls @ payload)"
    "length payload = block_rows n k * ValueSize t" "length nulls = bitmap_bytes (block_rows n k)"
proof -
  obtain nb v where c: "c = (nb, v)" by (cases c)
  have k: "bitmap_bytes n \<le> length nb" "col_type v = t" using assms(1) by (auto simp: column_ok_def c)
  note nulls = block_nulls_ok(2) [OF k(1) assms(2)]
  have "\<exists>nulls payload. block_data c k = (Some nulls, payload) \<and> blocks_of c ! k = AppendChecksum (copy_into (replicate NullBitmapBytes 0) nulls @ payload) \<and>
    length payload = block_rows n k * ValueSize t \<and> length nulls = bitmap_bytes (block_rows n k)"
    using assms k nulls by (cases v)
      (auto simp: c column_ok_def fixed_data_def fixed_block_eq length_concat_le_bytes nth_section_blocks codes_of_ok(2))
  then show thesis using that by blast
qed

lemma NextBlock_at:
  assumes at: "at_block file field n c off k cr" and small: "length file < 2 ^ 63" and k: "k < num_blocks n"
  shows "\<exists>cr'. NextBlock file cr = (Inr (Some (fst (block_data c k), snd (block_data c k), block_rows n k)), cr') \<and> at_block file field n c off (Suc k) cr'"
proof -
  let ?rows = "block_rows n k"
  let ?cr = "cr\<lparr>rowsDone := rowsDone cr + ?rows\<rparr>"
  have r: "reading file field n c off k cr" "rowsDone cr = k * BlockRows" "totalRows cr = n" "cfield cr = field"
    and ok: "column_ok n (Type field) c"
    using at k by (auto simp: at_block_def reading_def less_num_blocks)
  have b: "k < length (blocks_of c)" using k length_blocks_of [OF ok] by simp
  have rows: "min (totalRows cr - rowsDone cr) BlockRows = ?rows" "\<not> totalRows cr \<le> rowsDone cr" "?rows \<le> BlockRows"
    using k r by (simp_all add: block_rows_def less_num_blocks)
  have eq: "rowsDone cr + ?rows = min n (Suc k * BlockRows)" using r(2) k by (auto simp: block_rows_def less_num_blocks)
  have r': "reading file field n c off k ?cr" using r(1) by (simp add: reading_rowsDone)
  let ?res = "if Type field = TypeBool then nextBoolBlock file ?rows ?cr else nextFixedBlock file ?rows ?cr"
  have "\<exists>cr'. ?res = (Inr (fst (block_data c k), snd (block_data c k), ?rows), cr') \<and> reading file field n c off (Suc k) cr'"
  proof (cases "Type field = TypeBool")
    case True
    then obtain nb vs where c: "c = (nb, Bools vs)" using ok by (cases c; cases "snd c") (auto simp: column_ok_def)
    then have v: "length vs = n" "bitmap_bytes n \<le> length nb" using ok by (auto simp: column_ok_def)
    have blk: "blocks_of c ! k = rle_block (block_nulls nb n k) (block_of vs (k * BlockRows))" using k v by (simp add: c nth_section_blocks)
    show ?thesis
      using nextBoolBlock_reading [OF r' b small blk] block_nulls_ok(2) [OF v(2) k] rows(3) v(1) blk True by (simp add: c)
  next
    case False
    obtain nulls payload where d: "block_data c k = (Some nulls, payload)"
      "blocks_of c ! k = AppendChecksum (copy_into (replicate NullBitmapBytes 0) nulls @ payload)"
      "length payload = block_rows n k * ValueSize (Type field)" "length nulls = bitmap_bytes (block_rows n k)"
      using fixed_block_data [OF ok k False] by blast
    show ?thesis using nextFixedBlock_reading [OF r' b small d(2-4) rows(3)] False d(1) by simp
  qed
  then obtain cr' where cr': "?res = (Inr (fst (block_data c k), snd (block_data c k), ?rows), cr')" "reading file field n c off (Suc k) cr'" by blast
  have N: "NextBlock file cr = (Inr (Some (fst (block_data c k), snd (block_data c k), ?rows)), cr')"
    unfolding NextBlock_def Let_def rows(1) using rows(2) cr'(1) r(4) by simp
  moreover have "rowsDone cr' = min n (Suc k * BlockRows)" using NextBlock_frame [OF N] rows(1,2) eq by simp
  ultimately show ?thesis using cr'(2) by (auto simp: at_block_def)
qed

lemma NextBlock_end: "at_block file field n c off k cr \<Longrightarrow> num_blocks n \<le> k \<Longrightarrow> NextBlock file cr = (Inr None, cr)"
  using less_num_blocks [of k n] by (simp add: at_block_def reading_def NextBlock_def)

section \<open>Sizes\<close>

lemma length_Marshal: "length (DictBuilder_Marshal db) = 12 + 4 * length (keys db) + length (concat (keys db))"
  by (simp add: DictBuilder_Marshal_def Let_def marshal_entries_eq foldl_AppendUint32 AppendUint32_def AppendChecksum_def length_concat comp_def sum_list_triv)

lemma length_fixed_section:
  assumes "\<And>nulls vals. length (blk nulls vals) = NullBitmapBytes + m * length vals + 4"
  shows "length (concat (section_blocks blk nb vs)) = num_blocks (length vs) * (NullBitmapBytes + 4) + m * length vs"
proof -
  have "length (concat (section_blocks blk nb vs)) = (\<Sum>k \<leftarrow> [0..<num_blocks (length vs)]. NullBitmapBytes + m * block_rows (length vs) k + 4)"
    by (simp add: section_blocks_def length_concat comp_def assms)
  also have "\<dots> = num_blocks (length vs) * (NullBitmapBytes + 4) + m * (\<Sum>k \<leftarrow> [0..<num_blocks (length vs)]. block_rows (length vs) k)"
    by (simp add: sum_list_addf sum_list_const_mult sum_list_triv add.commute add.assoc algebra_simps)
  also have "(\<Sum>k \<leftarrow> [0..<num_blocks (length vs)]. block_rows (length vs) k) = length vs"
    using arg_cong [OF concat_blocks [of "\<lambda>i. i" "length vs"], of length] by (simp add: length_concat comp_def)
  finally show ?thesis .
qed

lemma string_section_bounded:
  assumes "column_ok n t (nb, Strings vs)"
  shows "dict_offset nb (Strings vs) < 2 ^ 32" "length (col_dict nb (Strings vs)) < 2 ^ 32" "dict_bounded (keys (dict_of nb vs))"
proof -
  have v: "length vs = n" "bitmap_bytes n \<le> length nb" "n < 2 ^ 32" "9 * n + length (concat vs) + 144 < 2 ^ 32"
    using assms by (auto simp: column_ok_def)
  note c = codes_of_ok [of vs nb]
  have "length (concat (section_blocks (fixed_block AppendUint32) nb (codes_of nb vs))) = num_blocks n * 132 + 4 * n"
    using length_fixed_section [of "fixed_block AppendUint32" 4 nb "codes_of nb vs"] c(2) v
    by (simp add: fixed_block_eq AppendChecksum_def Let_def length_concat_le_bytes NullBitmapBytes_def BlockRows_def)
  moreover have "1024 * num_blocks n \<le> n + 1023" by (simp add: num_blocks_def BlockRows_def)
  ultimately show "dict_offset nb (Strings vs) < 2 ^ 32" using v(4) by simp
  show "length (col_dict nb (Strings vs)) < 2 ^ 32" "dict_bounded (keys (dict_of nb vs))"
    using c(4,5) v by (simp_all add: length_Marshal dict_bounded_def)
qed

lemma col_dict_small: "column_ok n t c \<Longrightarrow> length (col_dict (fst c) (snd c)) < 2 ^ 32 \<and> dict_offset (fst c) (snd c) < 2 ^ 32"
  using string_section_bounded by (cases c; cases "snd c") auto


section \<open>Opening a column and its dictionary\<close>

lemma ucast_u32: "n < 2 ^ 32 \<Longrightarrow> ucast (word_of_nat n :: u32) = (word_of_nat n :: i64)"
  by (simp add: unsigned_of_nat take_bit_nat_eq_self)

definition reader_ok :: "Reader \<Rightarrow> Schema \<Rightarrow> table \<Rightarrow> bool" where
  "reader_ok r schema T \<longleftrightarrow> length (rfile r) < 2 ^ 63 \<and> MSchema (rmeta r) = schema \<and> list_all2 (rg_at_meta (rfile r) schema) T (RowGroups (rmeta r))"

lemma OpenColumn_at:
  assumes "reader_ok r schema T" "g < length T" "i < length schema"
  shows "\<exists>cr off. OpenColumn r (int g) (int i) = Inr cr \<and> at_block (rfile r) (schema ! i) (fst (T ! g)) (snd (T ! g) ! i) off 0 cr \<and> cdict cr = None"
proof -
  let ?c = "snd (T ! g) ! i" and ?n = "fst (T ! g)" and ?m = "Columns (RowGroups (rmeta r) ! g) ! i"
  have rg: "rg_at_meta (rfile r) schema (T ! g) (RowGroups (rmeta r) ! g)" "g < length (RowGroups (rmeta r))"
    using assms by (auto simp: reader_ok_def list_all2_conv_all_nth)
  then obtain off where off: "column_ok ?n (Type (schema ! i)) ?c" "placed (rfile r) off (section_of (fst ?c) (snd ?c))"
    "?m = \<lparr>SectionOffset = word_of_nat off, SectionLength = word_of_nat (length (section_of (fst ?c) (snd ?c))), Stats = col_stats (fst ?c) (snd ?c),
       DictOffset = word_of_nat (dict_offset (fst ?c) (snd ?c)), DictLength = word_of_nat (length (col_dict (fst ?c) (snd ?c)))\<rparr>"
    using assms(3) by (auto simp: rg_at_meta_def col_at_meta_def)
  let ?cr = "\<lparr>colMeta = ?m, cfield = schema ! i, cpos = word_of_nat off, cend = word_of_nat (off + length (concat (blocks_of ?c))), rowsDone = 0, totalRows = ?n, win = None, cdict = None\<rparr>"
  have e: "(word_of_nat off :: i64) + word_of_nat (length (section_of (fst ?c) (snd ?c))) - ucast (word_of_nat (length (col_dict (fst ?c) (snd ?c))) :: u32) =
      word_of_nat (off + length (concat (blocks_of ?c)))"
    using col_dict_small [OF off(1)] by (simp add: ucast_u32 section_of_def)
  have "length (Columns (RowGroups (rmeta r) ! g)) = length schema" "NumRows (RowGroups (rmeta r) ! g) = ?n" using rg(1) by (simp_all add: rg_at_meta_def)
  then have "OpenColumn r (int g) (int i) = Inr ?cr"
    using assms rg(2) e by (simp add: OpenColumn_def reader_ok_def Let_def off(3))
  moreover have "at_block (rfile r) (schema ! i) ?n ?c off 0 ?cr"
    using off by (simp add: at_block_def reading_def block_pos_def win_ok_def)
  ultimately show ?thesis by auto
qed

lemma Dictionary_at:
  assumes at: "reading file field n (nb, Strings vs) off k cr" and small: "length file < 2 ^ 63"
    and d: "cdict cr = None \<or> cdict cr = Some (Inr (dict_of_keys (keys (dict_of nb vs))))"
  shows "\<exists>cr'. ColumnReader_Dictionary file cr = (Inr (dict_of_keys (keys (dict_of nb vs))), cr') \<and> reading file field n (nb, Strings vs) off k cr' \<and>
    rowsDone cr' = rowsDone cr \<and> cdict cr' = Some (Inr (dict_of_keys (keys (dict_of nb vs))))"
proof (cases "cdict cr")
  case None
  let ?c = "(nb, Strings vs)" and ?d = "DictBuilder_Marshal (dict_of nb vs)"
  have ok: "column_ok n (Type field) ?c" and f: "cfield cr = field" and p: "placed file off (section_of nb (Strings vs))" using at by (simp_all add: reading_def)
  then have t: "Type field = TypeString" by (simp add: column_ok_def)
  note b = string_section_bounded [OF ok]
  define p1 where "p1 = off + dict_offset nb (Strings vs)"
  have o: "SectionOffset (colMeta cr) + ucast (DictOffset (colMeta cr)) = word_of_nat p1" "unat (DictLength (colMeta cr)) = length ?d"
    using at b by (simp_all add: reading_def ucast_u32 unat_of_nat take_bit_nat_eq_self p1_def)
  have l: "p1 + length ?d \<le> length file" using p by (simp add: placed_def section_of_def p1_def)
  have "take (length ?d) (drop p1 file) = take (length ?d) (drop (p1 - off) (section_of nb (Strings vs)))"
    using placed_slice [OF p, of p1 "length ?d"] by (simp add: section_of_def p1_def)
  also have "\<dots> = ?d" by (simp add: section_of_def p1_def)
  finally have "readAt file (word_of_nat p1) (length ?d) = Inr ?d" using readAt_ok [OF small l] by simp
  then have "ColumnReader_Dictionary file cr = (Inr (dict_of_keys (keys (dict_of nb vs))), cr\<lparr>cdict := Some (Inr (dict_of_keys (keys (dict_of nb vs))))\<rparr>)"
    unfolding ColumnReader_Dictionary_def o Let_def using None t f Unmarshal_Marshal [OF b(3)] by simp
  moreover have "reading file field n ?c off k (cr\<lparr>cdict := x\<rparr>)" for x using at by (simp add: reading_def win_ok_def)
  ultimately show ?thesis by simp
next
  case (Some r)
  then show ?thesis using at d by (auto simp: ColumnReader_Dictionary_def reading_def column_ok_def)
qed

end
