(* ===== verification/ZoneStats.thy ===== *)
theory ZoneStats
  imports TableRead
begin

text \<open>
  Zone maps: the verifier recomputes from the file exactly the statistics that the writer stored, and the statistics bound the values of
  their row group.
\<close>

declare zone_blocks.simps [simp del]

section \<open>Decoding the values of a block\<close>

lemma drop_le_bytes: "i \<le> length vs \<Longrightarrow> drop (i * m) (concat (map (le_bytes m) vs)) = concat (map (le_bytes m) (drop i vs))"
proof (induction vs arbitrary: i)
  case (Cons v vs)
  then show ?case by (cases i) simp_all
qed simp

lemma slice_to_end: "a \<le> length xs \<Longrightarrow> slice xs a (length xs) = (Inr (drop a xs) :: ('b, 'a list) res)"
  by simp

lemma word_at_ok:
  assumes "i < length vs" "LENGTH('w) \<le> 8 * m"
  shows "word_at m (concat (map (le_bytes m) vs)) i = Inr (vs ! i :: 'w::len word)"
proof -
  have d: "drop i vs = vs ! i # drop (Suc i) vs" using assms(1) by (simp add: Cons_nth_drop_Suc)
  have l: "i * m \<le> length (concat (map (le_bytes m) vs))" using assms(1) by (simp add: length_concat_le_bytes)
  then have "slice (concat (map (le_bytes m) vs)) (i * m) (length (concat (map (le_bytes m) vs))) = (Inr (le_bytes m (vs ! i) @ concat (map (le_bytes m) (drop (Suc i) vs))) :: byte list sres)"
    using drop_le_bytes [of i vs m] assms(1) d slice_to_end [OF l, where 'b = storage_error] by simp
  then show ?thesis using assms(2) by (simp add: word_at_def)
qed

lemma rle_block_decode:
  assumes "bitmap_bytes (length vals) \<le> length nulls" "length vals < 2 ^ 32"
  obtains vals' nb' where "DecodeRLEBool (rle_block nulls vals) = Inr (vals', nb', length vals)" "length vals' = length vals"
    "length nb' = bitmap_bytes (length vals)" "\<And>i. valid_at nb' i \<longleftrightarrow> i < length vals \<and> valid_at nulls i"
    "\<And>i. i < length vals \<Longrightarrow> vals' ! i \<longleftrightarrow> valid_at nulls i \<and> vals ! i"
  using RLEBool_decodes [OF assms] rle_block_ok [OF assms] by auto


section \<open>Recomputation\<close>

text \<open>One row of a column: what the verifier does with it, on the state that serves all types.\<close>

fun zone_row :: "column \<Rightarrow> float_stats \<Rightarrow> nat \<Rightarrow> float_stats" where
  "zone_row (nb, Int64s vs) s i = s\<lparr>fzone := int64_stat (fzone s) (\<not> valid_at nb i, vs ! i)\<rparr>"
| "zone_row (nb, Float64s vs) s i = float64_stat s (\<not> valid_at nb i, vs ! i)"
| "zone_row (nb, Dates vs) s i = s\<lparr>fzone := date_stat (fzone s) (\<not> valid_at nb i, vs ! i)\<rparr>"
| "zone_row (nb, Bools vs) s i = s\<lparr>fzone := null_stat (fzone s) (\<not> valid_at nb i, vs ! i)\<rparr>"
| "zone_row (nb, Strings vs) s i = s\<lparr>fzone := (if valid_at nb i then (fzone s)\<lparr>HasMinMax := True\<rparr> else count_null (fzone s))\<rparr>"

lemma zone_row_abs:
  "zone_row (nb, Int64s vs) = (\<lambda>s i. s\<lparr>fzone := int64_stat (fzone s) (\<not> valid_at nb i, vs ! i)\<rparr>)"
  "zone_row (nb, Float64s fs) = (\<lambda>s i. float64_stat s (\<not> valid_at nb i, fs ! i))"
  "zone_row (nb, Dates ds) = (\<lambda>s i. s\<lparr>fzone := date_stat (fzone s) (\<not> valid_at nb i, ds ! i)\<rparr>)"
  "zone_row (nb, Bools bs) = (\<lambda>s i. s\<lparr>fzone := null_stat (fzone s) (\<not> valid_at nb i, bs ! i)\<rparr>)"
  "zone_row (nb, Strings ss) = (\<lambda>s i. s\<lparr>fzone := (if valid_at nb i then (fzone s)\<lparr>HasMinMax := True\<rparr> else count_null (fzone s))\<rparr>)"
  by (auto intro!: ext)

lemma foldl_fzone: "foldl (\<lambda>s i. s\<lparr>fzone := f (fzone s) i\<rparr>) s xs = s\<lparr>fzone := foldl f (fzone s) xs\<rparr>"
  by (induction xs arbitrary: s) simp_all

lemma stat_block_ok:
  assumes "bitmap_bytes (length vs) \<le> length nb" "k < num_blocks (length vs)" "LENGTH('w) \<le> 8 * m"
  shows "stat_rows stat (word_at m (concat (map (le_bytes m) (block_of vs (k * BlockRows))))) (block_nulls nb (length vs) k) (block_rows (length vs) k) s =
    Inr (foldl (\<lambda>s i. stat s (\<not> valid_at nb (k * BlockRows + i), (vs ! (k * BlockRows + i) :: 'w::len word))) s [0..<block_rows (length vs) k])"
proof -
  note nulls = block_nulls_ok [OF assms(1,2)]
  have "i div 8 < length (block_nulls nb (length vs) k)" if "i < block_rows (length vs) k" for i
    using div8_less_bitmap_bytes [OF that] nulls(2) by simp
  then show ?thesis
    unfolding stat_rows_def using nulls(3) assms(3) by (intro fold_res_ok) (auto simp: word_at_ok nth_block_of)
qed

text \<open>Block \<open>k\<close> adds its rows; the dictionary has an entry for every code in use.\<close>

lemma zone_block_ok:
  assumes ok: "column_ok n t c" and k: "k < num_blocks n" and d: "\<And>nb vs. c = (nb, Strings vs) \<Longrightarrow> dictLen = length (keys (dict_of nb vs))"
  shows "zone_block t dictLen (fst (block_data c k)) (snd (block_data c k)) (block_rows n k) s = Inr (foldl (zone_row c) s (map ((+) (k * BlockRows)) [0..<block_rows n k]))"
proof -
  obtain nb v where c: "c = (nb, v)" by (cases c)
  let ?m = "block_rows n k"
  have nb: "bitmap_bytes n \<le> length nb" "col_type v = t" "col_len v = n" "n < 2 ^ 32" using ok by (auto simp: column_ok_def c)
  note nulls = block_nulls_ok [OF nb(1) k]
  have b: "bitmap_bytes ?m \<le> length (block_nulls nb n k)" using nulls(2) by simp
  have i8: "i < ?m \<Longrightarrow> i div 8 < length (block_nulls nb n k)" for i using div8_less_bitmap_bytes [OF _ b] .
  show ?thesis
  proof (cases v)
    case (Int64s vs)
    then have len: "length vs = n" using nb(3) by simp
    show ?thesis using stat_block_ok [of vs nb k 8 int64_stat "fzone s"] foldl_fzone [of "\<lambda>z i. int64_stat z (\<not> valid_at nb (k * BlockRows + i), vs ! (k * BlockRows + i))" s "[0..<block_rows n k]"]
      Int64s nb(1,2) len k
      by (simp add: c zone_block_def Let_def fixed_data_def foldl_map)
  next
    case (Float64s vs)
    then have len: "length vs = n" using nb(3) by simp
    show ?thesis using stat_block_ok [of vs nb k 8 float64_stat s] Float64s nb(1,2) len k
      by (simp add: c zone_block_def Let_def fixed_data_def foldl_map)
  next
    case (Dates vs)
    then have len: "length vs = n" using nb(3) by simp
    show ?thesis using stat_block_ok [of vs nb k 4 date_stat "fzone s"] foldl_fzone [of "\<lambda>z i. date_stat z (\<not> valid_at nb (k * BlockRows + i), vs ! (k * BlockRows + i))" s "[0..<block_rows n k]"]
      Dates nb(1,2) len k
      by (simp add: c zone_block_def Let_def fixed_data_def foldl_map)
  next
    case (Bools vs)
    have len: "length (block_of vs (k * BlockRows)) = ?m" "length vs = n" using nb(3) Bools by simp_all
    have "bitmap_bytes (length (block_of vs (k * BlockRows))) \<le> length (block_nulls nb n k)" "length (block_of vs (k * BlockRows)) < 2 ^ 32"
      using b len(1) block_rows_bounds [OF k] nb(4) by simp_all
    then obtain vals' nb' where dec: "DecodeRLEBool (rle_block (block_nulls nb n k) (block_of vs (k * BlockRows))) = Inr (vals', nb', ?m)"
      "length nb' = bitmap_bytes ?m" "\<And>i. valid_at nb' i \<longleftrightarrow> i < ?m \<and> valid_at (block_nulls nb n k) i"
      by (rule rle_block_decode) (simp only: len(1))
    have "fold_res (\<lambda>z i. res_map (\<lambda>null. if null then count_null z else z) (IsNullBit nb' i)) (fzone s) [0..<?m] =
        (Inr (foldl (\<lambda>z i. null_stat z (\<not> valid_at nb (k * BlockRows + i), vs ! (k * BlockRows + i))) (fzone s) [0..<?m]) :: ZoneMap sres)"
      using dec(2,3) nulls(3) div8_less_bitmap_bytes [of _ ?m "length nb'"] by (intro fold_res_ok) (auto simp: null_stat_def)
    then show ?thesis using foldl_fzone [of "\<lambda>z i. null_stat z (\<not> valid_at nb (k * BlockRows + i), vs ! (k * BlockRows + i))" s "[0..<block_rows n k]"] Bools nb(2) len dec(1)
      by (simp add: c zone_block_def Let_def foldl_map)
  next
    case (Strings vs)
    note cs = codes_of_ok [of vs nb]
    have len: "length (block_of (codes_of nb vs) (k * BlockRows)) = ?m" "length vs = n" "length (codes_of nb vs) = n" using nb Strings cs(2) by simp_all
    have w: "word_at 4 (concat (map (le_bytes 4) (block_of (codes_of nb vs) (k * BlockRows)))) i = Inr (codes_of nb vs ! (k * BlockRows + i))" if "i < ?m" for i
      using word_at_ok [of i "block_of (codes_of nb vs) (k * BlockRows)" 4] that len by (simp add: nth_block_of)
    have code: "unat (codes_of nb vs ! (k * BlockRows + i)) < dictLen" if "i < ?m" "valid_at nb (k * BlockRows + i)" for i
      using cs(7) [of "k * BlockRows + i"] that block_rows_bounds [OF k] nb len(2) d [of nb vs] Strings c by simp
    have "fold_res (\<lambda>z i. res_bind (word_at 4 (concat (map (le_bytes 4) (block_of (codes_of nb vs) (k * BlockRows)))) i) (\<lambda>code. res_bind (IsNullBit (block_nulls nb n k) i) (\<lambda>null.
       if null then Inr (count_null z) else if dictLen \<le> unat (code :: u32) then Inl (Err ErrCodeRange) else Inr (z\<lparr>HasMinMax := True\<rparr>)))) (fzone s) [0..<?m] =
       Inr (foldl (\<lambda>z i. if valid_at nb (k * BlockRows + i) then z\<lparr>HasMinMax := True\<rparr> else count_null z) (fzone s) [0..<?m])"
      using w code nulls(3) i8 by (intro fold_res_ok) (auto simp: not_le)
    then show ?thesis using foldl_fzone [of "\<lambda>z i. if valid_at nb (k * BlockRows + i) then z\<lparr>HasMinMax := True\<rparr> else count_null z" s "[0..<block_rows n k]"] Strings nb(2) len
      by (simp add: c zone_block_def Let_def fixed_data_def foldl_map)
  qed
qed

lemma block_range:
  assumes "k < num_blocks n"
  shows "[min n (k * BlockRows)..<n] = map ((+) (k * BlockRows)) [0..<block_rows n k] @ [min n (Suc k * BlockRows)..<n]"
    "n - min n (k * BlockRows) = block_rows n k + (n - min n (Suc k * BlockRows))"
proof -
  have k: "min n (k * BlockRows) = k * BlockRows" "min n (Suc k * BlockRows) = k * BlockRows + block_rows n k" "k * BlockRows + block_rows n k \<le> n"
    using assms by (auto simp: less_num_blocks block_rows_def)
  have "map ((+) (k * BlockRows)) [0..<block_rows n k] = [k * BlockRows..<k * BlockRows + block_rows n k]" by (rule nth_equalityI) simp_all
  then show "[min n (k * BlockRows)..<n] = map ((+) (k * BlockRows)) [0..<block_rows n k] @ [min n (Suc k * BlockRows)..<n]"
    unfolding k(1,2) using upt_add_eq_append [of "k * BlockRows" "k * BlockRows + block_rows n k" "n - (k * BlockRows + block_rows n k)"] k(3) by simp
  show "n - min n (k * BlockRows) = block_rows n k + (n - min n (Suc k * BlockRows))" unfolding k(1,2) using k(3) by simp
qed

lemma zone_blocks_at:
  assumes "at_block file field n c off k cr" "length file < 2 ^ 63" "\<And>nb vs. c = (nb, Strings vs) \<Longrightarrow> dictLen = length (keys (dict_of nb vs))"
  shows "zone_blocks file dictLen cr (s, m) = Inr (foldl (zone_row c) s [min n (k * BlockRows)..<n], m + (n - min n (k * BlockRows)))"
  using assms(1)
proof (induction "num_blocks n - k" arbitrary: k cr s m)
  case 0
  then have "num_blocks n \<le> k" by simp
  moreover from this have "n \<le> k * BlockRows" using less_num_blocks [of k n] by simp
  ultimately show ?case using NextBlock_end [OF 0(2)] by (simp add: zone_blocks.simps [of "file" dictLen cr])
next
  case (Suc d)
  then have k: "k < num_blocks n" by simp
  obtain cr' where N: "NextBlock file cr = (Inr (Some (fst (block_data c k), snd (block_data c k), block_rows n k)), cr')" "at_block file field n c off (Suc k) cr'"
    using NextBlock_at [OF Suc(3) assms(2) k] by blast
  have f: "cfield cr = field" "column_ok n (Type field) c" using Suc(3) by (simp_all add: at_block_def reading_def)
  have IH: "zone_blocks file dictLen cr' (s, m) = Inr (foldl (zone_row c) s [min n (Suc k * BlockRows)..<n], m + (n - min n (Suc k * BlockRows)))" for s m
    using Suc(1) [OF _ N(2)] Suc(2) by simp
  show ?case
    by (subst zone_blocks.simps) (simp add: N(1) f(1) zone_block_ok [OF f(2) k assms(3)] IH block_range [OF k] del: mult_Suc)
qed

text \<open>The final state is the stored zone map.\<close>

fun zone_result :: "column \<Rightarrow> float_stats \<Rightarrow> ZoneMap" where
  "zone_result (nb, Float64s vs) s = float_zone s"
| "zone_result (nb, Strings vs) s = string_zone (length (keys (dict_of nb vs))) (fzone s)"
| "zone_result c s = fzone s"

lemma string_zone_rows:
  assumes "column_ok n t (nb, Strings vs)"
  shows "string_zone (length (keys (dict_of nb vs))) (foldl (\<lambda>z i. if valid_at nb i then z\<lparr>HasMinMax := True\<rparr> else count_null z) no_stats [0..<n]) =
    string_zone (length (keys (dict_of nb vs))) (foldl null_stat no_stats (null_vals nb vs))"
proof -
  let ?f = "\<lambda>z i. if valid_at nb i then z\<lparr>HasMinMax := True\<rparr> else count_null z" and ?g = "\<lambda>z i. null_stat z (\<not> valid_at nb i, vs ! i)"
  have v: "length vs = n" "bitmap_bytes n \<le> length nb" "n < 2 ^ 32" using assms by (auto simp: column_ok_def)
  have eq: "foldl null_stat no_stats (null_vals nb vs) = foldl ?g no_stats [0..<n]" by (simp add: null_vals_def foldl_map v)
  show ?thesis
  proof (cases "keys (dict_of nb vs) = []")
    case True
    then have "\<forall>i < n. \<not> valid_at nb i" using codes_of_ok(7) [of vs nb] v by auto
    then have "foldl ?f no_stats [0..<n] = foldl ?g no_stats [0..<n]" by (intro foldl_cong) (auto simp: null_stat_def)
    then show ?thesis by (simp add: eq)
  next
    case False
    have "foldl ?f z xs = (foldl ?g z' xs)\<lparr>HasMinMax := HasMinMax (foldl ?f z xs)\<rparr>" if "z = z'\<lparr>HasMinMax := h\<rparr>" for z z' h and xs :: "nat list"
      using that
    proof (induction xs arbitrary: z z' h)
      case (Cons x xs)
      have "?f z x = (?g z' x)\<lparr>HasMinMax := (if valid_at nb x then True else h)\<rparr>" using Cons.prems by (simp add: null_stat_def count_null_def)
      from Cons.IH [OF this] show ?case by simp
    qed simp
    from this [where z = no_stats and z' = no_stats and h = False and xs = "[0..<n]"]
    have *: "foldl ?f no_stats [0..<n] = (foldl ?g no_stats [0..<n])\<lparr>HasMinMax := HasMinMax (foldl ?f no_stats [0..<n])\<rparr>" by (simp add: no_stats_def)
    have "string_zone m (z\<lparr>HasMinMax := h\<rparr>) = string_zone m z" if "0 < m" for m z h using that by (simp add: string_zone_def)
    then show ?thesis using False unfolding eq by (subst *) simp
  qed
qed

lemma zone_result_ok:
  assumes "column_ok n t c"
  shows "zone_result c (foldl (zone_row c) no_float_stats [0..<n]) = col_stats (fst c) (snd c)"
proof -
  obtain nb v where c: "c = (nb, v)" by (cases c)
  have n: "col_len v = n" using assms by (simp add: column_ok_def c)
  show ?thesis
  proof (cases v)
    case (Strings vs)
    then show ?thesis using string_zone_rows [of n t nb vs] assms
      foldl_fzone [of "\<lambda>z i. if valid_at nb i then z\<lparr>HasMinMax := True\<rparr> else count_null z" no_float_stats "[0..<n]"]
      by (simp add: c zone_row_abs no_float_stats_def)
  next
    case (Int64s vs)
    then show ?thesis using n foldl_fzone [of "\<lambda>z i. int64_stat z (\<not> valid_at nb i, vs ! i)" no_float_stats "[0..<n]"] by (simp add: c null_vals_def foldl_map zone_row_abs no_float_stats_def)
  next
    case (Dates vs)
    then show ?thesis using n foldl_fzone [of "\<lambda>z i. date_stat z (\<not> valid_at nb i, vs ! i)" no_float_stats "[0..<n]"] by (simp add: c null_vals_def foldl_map zone_row_abs no_float_stats_def)
  next
    case (Bools vs)
    then show ?thesis using n foldl_fzone [of "\<lambda>z i. null_stat z (\<not> valid_at nb i, vs ! i)" no_float_stats "[0..<n]"] by (simp add: c null_vals_def foldl_map zone_row_abs no_float_stats_def)
  qed (use n in \<open>simp add: c null_vals_def foldl_map zone_row_abs\<close>)
qed

lemma ComputeColumnStats_ok:
  assumes r: "reader_ok r schema T" "g < length T" "i < length schema"
  shows "ComputeColumnStats r g i = Inr (col_stats (fst (snd (T ! g) ! i)) (snd (snd (T ! g) ! i)))"
proof -
  let ?c = "snd (T ! g) ! i" and ?n = "fst (T ! g)"
  obtain cr off where o: "OpenColumn r (int g) (int i) = Inr cr" "at_block (rfile r) (schema ! i) ?n ?c off 0 cr" "cdict cr = None"
    using OpenColumn_at [OF r] by blast
  have small: "length (rfile r) < 2 ^ 63" using r(1) by (simp add: reader_ok_def)
  have f: "cfield cr = schema ! i" "column_ok ?n (Type (schema ! i)) ?c" using o(2) by (simp_all add: at_block_def reading_def)
  have n: "NumRows (RowGroups (rmeta r) ! g) = ?n" using r by (auto simp: reader_ok_def list_all2_conv_all_nth rg_at_meta_def)
  have loop: "zone_blocks (rfile r) dictLen cr (no_float_stats, 0) = Inr (foldl (zone_row ?c) no_float_stats [0..<?n], ?n)"
    if "at_block (rfile r) (schema ! i) ?n ?c off 0 cr" "\<And>nb vs. ?c = (nb, Strings vs) \<Longrightarrow> dictLen = length (keys (dict_of nb vs))" for cr dictLen
    using zone_blocks_at [OF that(1) small that(2), of no_float_stats 0] by simp
  show ?thesis
  proof (cases "Type (schema ! i) = TypeString")
    case True
    then obtain nb vs where c: "?c = (nb, Strings vs)" using f(2) by (cases ?c; cases "snd ?c") (auto simp: column_ok_def)
    obtain cr' where d: "ColumnReader_Dictionary (rfile r) cr = (Inr (dict_of_keys (keys (dict_of nb vs))), cr')" "at_block (rfile r) (schema ! i) ?n ?c off 0 cr'"
      using Dictionary_at [of "rfile r" "schema ! i" ?n nb vs off 0 cr] o(2,3) small by (auto simp: at_block_def c)
    show ?thesis using loop [OF d(2), of "length (keys (dict_of nb vs))"] zone_result_ok [OF f(2)] n True
      by (simp add: ComputeColumnStats_def o(1) f(1) d(1) c Dictionary_Len_def dict_of_keys_def)
  next
    case False
    then have ns: "?c \<noteq> (nb, Strings vs)" for nb vs using f(2) by (auto simp: column_ok_def)
    have "(case Type (schema ! i) of TypeFloat64 \<Rightarrow> float_zone s | TypeString \<Rightarrow> string_zone 0 (fzone s) | _ \<Rightarrow> fzone s) = zone_result ?c s" for s
      using f(2) ns by (cases ?c; cases "snd ?c") (auto simp: column_ok_def)
    then show ?thesis using loop [OF o(2), of 0] zone_result_ok [OF f(2)] n False ns
      by (simp add: ComputeColumnStats_def o(1) f(1))
  qed
qed

section \<open>What a zone map says\<close>

text \<open>
  What pruning relies on for a single non-null value of the column: an integer, a date or a float is not below the stored
  minimum nor above the stored maximum (a NaN is never below or above anything). The bounds of a STRING column are
  dictionary codes, which predicates are not compared with, and a BOOL column has none.
\<close>

fun in_zone :: "ZoneMap \<Rightarrow> val \<Rightarrow> bool" where
  "in_zone z (VInt v) \<longleftrightarrow> HasMinMax z \<and> sint (ZMin z) \<le> sint v \<and> sint v \<le> sint (ZMax z)"
| "in_zone z (VFloat v) \<longleftrightarrow> HasMinMax z \<and> \<not> f_lt v (ZMin z) \<and> \<not> f_lt (ZMax z) v"
| "in_zone z (VDate v) \<longleftrightarrow> HasMinMax z \<and> sint (ucast (ZMin z) :: i32) \<le> sint v \<and> sint v \<le> sint (ucast (ZMax z) :: i32)"
| "in_zone z (VString v) \<longleftrightarrow> HasMinMax z"
| "in_zone z (VBool v) \<longleftrightarrow> True"

text \<open>The invariant of the writer's statistics loops.\<close>

lemma foldl_covers:
  assumes "\<And>z null v u. covers z u \<Longrightarrow> covers (stat z (null, v)) u" "\<And>z v. covers (stat z (False, v)) v" "(False, u) \<in> set xs"
  shows "covers (foldl stat z xs) u"
  using assms(3)
proof (induction xs rule: rev_induct)
  case (snoc x xs)
  obtain null v where x: "x = (null, v)" by (cases x)
  then show ?case using snoc assms(1,2) by (cases "(False, u) \<in> set xs") auto
qed simp

lemma int64_stats_cover: "(False, u) \<in> set xs \<Longrightarrow> in_zone (foldl int64_stat z xs) (VInt u)"
  by (rule foldl_covers [where covers = "\<lambda>z u. in_zone z (VInt u)"]) (auto simp: int64_stat_def Let_def count_null_def)

lemma date_stats_cover: "(False, u) \<in> set xs \<Longrightarrow> in_zone (foldl date_stat z xs) (VDate u)"
proof (rule foldl_covers [where covers = "\<lambda>z u. in_zone z (VDate u)"])
  have u: "ucast (ucast v :: u64) = v" for v :: i32 by (rule bit_word_eqI) (simp add: bit_simps)
  show "in_zone z (VDate u) \<Longrightarrow> in_zone (date_stat z (null, v)) (VDate u)" for z null v u by (auto simp: date_stat_def Let_def count_null_def u)
  show "in_zone (date_stat z (False, v)) (VDate v)" for z v by (auto simp: date_stat_def Let_def u)
qed

lemma float_stats_cover: "(False, u) \<in> set xs \<Longrightarrow> in_zone (float_zone (foldl float64_stat s xs)) (VFloat u)"
proof -
  let ?c = "\<lambda>s u. HasMinMax (fzone s) \<and> \<not> f_lt u (minF s) \<and> \<not> f_lt (maxF s) u"
  assume "(False, u) \<in> set xs"
  moreover have "\<not> f_lt v v" for v by (simp add: f_lt_def)
  ultimately have "?c (foldl float64_stat s xs) u"
    by (intro foldl_covers [where covers = ?c]) (auto simp: float64_stat_def Let_def count_null_def dest: f_lt_trans)
  then show ?thesis by (simp add: float_zone_def Let_def)
qed

lemma null_vals_mem: "i < length xs \<Longrightarrow> valid_at nb i \<Longrightarrow> (False, xs ! i) \<in> set (null_vals nb xs)"
  by (force simp: null_vals_def)

lemma stats_cover:
  assumes "column_ok n t c" "i < n" "col_cell c i = Some v"
  shows "in_zone (col_stats (fst c) (snd c)) v"
proof -
  obtain nb vs where c: "c = (nb, vs)" by (cases c)
  have n: "col_len vs = n" "bitmap_bytes n \<le> length nb" "n < 2 ^ 32" using assms(1) by (auto simp: column_ok_def c)
  show ?thesis
  proof (cases vs)
    case (Strings ss)
    then have "keys (dict_of nb ss) \<noteq> []" using codes_of_ok(7) [of ss nb i] assms(2,3) n by (auto simp: c split: if_splits)
    then show ?thesis using assms(3) Strings by (auto simp: c string_zone_def split: if_splits)
  next
    case (Int64s ys)
    then show ?thesis using assms(2,3) n int64_stats_cover [OF null_vals_mem] by (auto simp: c simp del: in_zone.simps split: if_splits)
  next
    case (Float64s ys)
    then show ?thesis using assms(2,3) n float_stats_cover [OF null_vals_mem] by (auto simp: c simp del: in_zone.simps split: if_splits)
  next
    case (Dates ys)
    then show ?thesis using assms(2,3) n date_stats_cover [OF null_vals_mem] by (auto simp: c simp del: in_zone.simps split: if_splits)
  qed (use assms(3) in \<open>auto simp: c split: if_splits\<close>)
qed

text \<open>
  What the zone map of a column says of its non-null values \<open>vs\<close>, type by type. INT64, DATE and FLOAT64 columns have
  bounds exactly when they have a value, and the bounds are values of the column. Every integer and every date lies between
  them; so does every float when no value is NaN, and otherwise no float is below the minimum or above the maximum. A
  STRING column is bounded by its dictionary codes, zero and the number of its distinct strings less one; a BOOL column has
  no bounds. The sum of an INT64 column is that of its values, modulo \<open>2 ^ 64\<close>.
\<close>

definition col_vals :: "nat \<Rightarrow> column \<Rightarrow> val list" where
  "col_vals n c = map the (filter (\<lambda>x. x \<noteq> None) (map (col_cell c) [0..<n]))"

definition int_of_val :: "val \<Rightarrow> i64" where
  "int_of_val v = (case v of VInt x \<Rightarrow> x | _ \<Rightarrow> 0)"

definition no_nan :: "val list \<Rightarrow> bool" where
  "no_nan vs \<longleftrightarrow> (\<forall>v \<in> set vs. case v of VFloat x \<Rightarrow> \<not> is_nan x | _ \<Rightarrow> True)"

fun zone_of :: "DataType \<Rightarrow> val list \<Rightarrow> ZoneMap \<Rightarrow> bool" where
  "zone_of TypeInt64 vs z \<longleftrightarrow> ZSum z = sum_list (map int_of_val vs) \<and> HasMinMax z = (vs \<noteq> []) \<and>
     (vs \<noteq> [] \<longrightarrow> VInt (ZMin z) \<in> set vs \<and> VInt (ZMax z) \<in> set vs) \<and>
     (\<forall>x. VInt x \<in> set vs \<longrightarrow> sint (ZMin z) \<le> sint x \<and> sint x \<le> sint (ZMax z))"
| "zone_of TypeDate vs z \<longleftrightarrow> HasMinMax z = (vs \<noteq> []) \<and>
     (vs \<noteq> [] \<longrightarrow> VDate (ucast (ZMin z)) \<in> set vs \<and> VDate (ucast (ZMax z)) \<in> set vs) \<and>
     (\<forall>x. VDate x \<in> set vs \<longrightarrow> sint (ucast (ZMin z) :: i32) \<le> sint x \<and> sint x \<le> sint (ucast (ZMax z) :: i32))"
| "zone_of TypeFloat64 vs z \<longleftrightarrow> HasMinMax z = (vs \<noteq> []) \<and>
     (vs \<noteq> [] \<longrightarrow> VFloat (ZMin z) \<in> set vs \<and> VFloat (ZMax z) \<in> set vs) \<and>
     (\<forall>x. VFloat x \<in> set vs \<longrightarrow> \<not> f_lt x (ZMin z) \<and> \<not> f_lt (ZMax z) x \<and>
       (no_nan vs \<longrightarrow> f_le (ZMin z) x \<and> f_le x (ZMax z)))"
| "zone_of TypeString vs z \<longleftrightarrow> HasMinMax z = (vs \<noteq> []) \<and>
     (vs \<noteq> [] \<longrightarrow> ZMin z = 0 \<and> unat (ZMax z) + 1 = card (set vs))"
| "zone_of TypeBool vs z \<longleftrightarrow> \<not> HasMinMax z"

lemma col_vals_mem: "v \<in> set (col_vals n c) \<longleftrightarrow> (\<exists>i < n. col_cell c i = Some v)"
  by (force simp: col_vals_def image_iff)

lemma foldl_attains:
  assumes "\<And>z v. has (stat z (True, v)) = has z \<and> mn (stat z (True, v)) = mn z"
    "\<And>z v. has (stat z (False, v)) \<and> (mn (stat z (False, v)) = v \<or> has z \<and> mn (stat z (False, v)) = mn z)" "\<not> has z"
  shows "has (foldl stat z xs) = (\<exists>u. (False, u) \<in> set xs) \<and> (has (foldl stat z xs) \<longrightarrow> (False, mn (foldl stat z xs)) \<in> set xs)"
proof (induction xs rule: rev_induct)
  case (snoc x xs)
  obtain null v where x: "x = (null, v)" by (cases x)
  then show ?case using snoc assms(1) [of "foldl stat z xs" v] assms(2) [of "foldl stat z xs" v] by (cases null) auto
qed (use assms(3) in simp)

lemma null_vals_iff: "length xs = n \<Longrightarrow> (False, u) \<in> set (null_vals nb xs) \<longleftrightarrow> (\<exists>i < n. valid_at nb i \<and> xs ! i = u)"
  by (auto simp: null_vals_def)

lemma col_vals_map:
  assumes "\<And>i. col_cell c i = (if valid_at nb i then Some (f i) else None)"
  shows "col_vals n c = map f (filter (valid_at nb) [0..<n])"
  by (simp add: col_vals_def filter_map comp_def assms cong: filter_cong)

lemma null_vals_valid: "map snd (filter (\<lambda>x. \<not> fst x) (null_vals nb xs)) = map ((!) xs) (filter (valid_at nb) [0..<length xs])"
  by (simp add: null_vals_def filter_map comp_def)

lemma int64_stat_sum: "ZSum (foldl int64_stat z xs) = ZSum z + sum_list (map snd (filter (\<lambda>x. \<not> fst x) xs))"
  by (induction xs arbitrary: z) (auto simp: int64_stat_def Let_def count_null_def)

lemma int64_zone:
  fixes ys :: "i64 list"
  shows "zone_of TypeInt64 (col_vals (length ys) (nb, Int64s ys)) (foldl int64_stat no_stats (null_vals nb ys))"
proof -
  let ?xs = "null_vals nb ys" and ?vs = "col_vals (length ys) (nb, Int64s ys)"
  let ?z = "foldl int64_stat no_stats ?xs"
  have vs: "?vs = map (\<lambda>i. VInt (ys ! i)) (filter (valid_at nb) [0..<length ys])" by (rule col_vals_map) simp
  have mem: "(False, u) \<in> set ?xs \<longleftrightarrow> VInt u \<in> set ?vs" for u using null_vals_iff [of ys] by (auto simp: vs)
  have some: "(\<exists>u. (False, u) \<in> set ?xs) \<longleftrightarrow> ?vs \<noteq> []" by (auto simp: mem vs filter_empty_conv image_iff)
  have "ZSum ?z = sum_list (map int_of_val ?vs)"
    by (simp add: int64_stat_sum null_vals_valid vs no_stats_def int_of_val_def comp_def)
  moreover have "HasMinMax ?z = (?vs \<noteq> []) \<and> (HasMinMax ?z \<longrightarrow> VInt (ZMin ?z) \<in> set ?vs)"
    using foldl_attains [of HasMinMax int64_stat ZMin no_stats ?xs] mem some
    by (auto simp: int64_stat_def Let_def count_null_def no_stats_def)
  moreover have "HasMinMax ?z \<longrightarrow> VInt (ZMax ?z) \<in> set ?vs"
    using foldl_attains [of HasMinMax int64_stat ZMax no_stats ?xs] mem
    by (auto simp: int64_stat_def Let_def count_null_def no_stats_def)
  moreover have "sint (ZMin ?z) \<le> sint x \<and> sint x \<le> sint (ZMax ?z)" if "VInt x \<in> set ?vs" for x
    using int64_stats_cover that mem by fastforce
  ultimately show ?thesis by simp
qed

lemma date_zone:
  fixes ys :: "i32 list"
  shows "zone_of TypeDate (col_vals (length ys) (nb, Dates ys)) (foldl date_stat no_stats (null_vals nb ys))"
proof -
  let ?xs = "null_vals nb ys" and ?vs = "col_vals (length ys) (nb, Dates ys)"
  let ?z = "foldl date_stat no_stats ?xs"
  have u: "ucast (ucast v :: u64) = v" for v :: i32 by (rule bit_word_eqI) (simp add: bit_simps)
  have vs: "?vs = map (\<lambda>i. VDate (ys ! i)) (filter (valid_at nb) [0..<length ys])" by (rule col_vals_map) simp
  have mem: "(False, u) \<in> set ?xs \<longleftrightarrow> VDate u \<in> set ?vs" for u using null_vals_iff [of ys] by (auto simp: vs)
  have some: "(\<exists>u. (False, u) \<in> set ?xs) \<longleftrightarrow> ?vs \<noteq> []" by (auto simp: mem vs filter_empty_conv image_iff)
  have "HasMinMax ?z = (?vs \<noteq> []) \<and> (HasMinMax ?z \<longrightarrow> VDate (ucast (ZMin ?z)) \<in> set ?vs)"
    using foldl_attains [of HasMinMax date_stat "\<lambda>z. ucast (ZMin z)" no_stats ?xs] mem some
    by (auto simp: date_stat_def Let_def count_null_def no_stats_def u)
  moreover have "HasMinMax ?z \<longrightarrow> VDate (ucast (ZMax ?z)) \<in> set ?vs"
    using foldl_attains [of HasMinMax date_stat "\<lambda>z. ucast (ZMax z)" no_stats ?xs] mem
    by (auto simp: date_stat_def Let_def count_null_def no_stats_def u)
  moreover have "sint (ucast (ZMin ?z) :: i32) \<le> sint x \<and> sint x \<le> sint (ucast (ZMax ?z) :: i32)" if "VDate x \<in> set ?vs" for x
    using date_stats_cover that mem by fastforce
  ultimately show ?thesis by simp
qed

lemma float_zone_of:
  shows "zone_of TypeFloat64 (col_vals (length ys) (nb, Float64s ys)) (float_zone (foldl float64_stat no_float_stats (null_vals nb ys)))"
proof -
  let ?xs = "null_vals nb ys" and ?vs = "col_vals (length ys) (nb, Float64s ys)"
  let ?s = "foldl float64_stat no_float_stats ?xs"
  have vs: "?vs = map (\<lambda>i. VFloat (ys ! i)) (filter (valid_at nb) [0..<length ys])" by (rule col_vals_map) simp
  have mem: "(False, u) \<in> set ?xs \<longleftrightarrow> VFloat u \<in> set ?vs" for u using null_vals_iff [of ys] by (auto simp: vs)
  have some: "(\<exists>u. (False, u) \<in> set ?xs) \<longleftrightarrow> ?vs \<noteq> []" by (auto simp: mem vs filter_empty_conv image_iff)
  have mn: "HasMinMax (fzone ?s) = (?vs \<noteq> []) \<and> (HasMinMax (fzone ?s) \<longrightarrow> VFloat (minF ?s) \<in> set ?vs)"
    using foldl_attains [of "\<lambda>s. HasMinMax (fzone s)" float64_stat minF no_float_stats ?xs] mem some
    by (auto simp: float64_stat_def Let_def count_null_def no_stats_def no_float_stats_def)
  have mx: "HasMinMax (fzone ?s) \<longrightarrow> VFloat (maxF ?s) \<in> set ?vs"
    using foldl_attains [of "\<lambda>s. HasMinMax (fzone s)" float64_stat maxF no_float_stats ?xs] mem
    by (auto simp: float64_stat_def Let_def count_null_def no_stats_def no_float_stats_def)
  have z: "HasMinMax (float_zone ?s) = HasMinMax (fzone ?s)" "HasMinMax (fzone ?s) \<Longrightarrow> ZMin (float_zone ?s) = minF ?s \<and> ZMax (float_zone ?s) = maxF ?s"
    by (simp_all add: float_zone_def Let_def)
  have le: "f_le x y" if "\<not> f_lt y x" "VFloat x \<in> set ?vs" "VFloat y \<in> set ?vs" "no_nan ?vs" for x y
  proof -
    have "\<not> is_nan x" "\<not> is_nan y" using that(2-4) unfolding no_nan_def by fastforce+
    then show ?thesis using that(1) by (simp add: f_lt_def f_le_def)
  qed
  have cov: "HasMinMax (fzone ?s) \<and> \<not> f_lt x (minF ?s) \<and> \<not> f_lt (maxF ?s) x" if "VFloat x \<in> set ?vs" for x
    using float_stats_cover [of x ?xs no_float_stats] that z by (auto simp: mem)
  show ?thesis
  proof (cases "?vs = []")
    case True
    then show ?thesis using mn z(1) by simp
  next
    case False
    then have h: "HasMinMax (fzone ?s)" "VFloat (minF ?s) \<in> set ?vs" "VFloat (maxF ?s) \<in> set ?vs" using mn mx by simp_all
    have "\<not> f_lt x (minF ?s) \<and> \<not> f_lt (maxF ?s) x \<and> (no_nan ?vs \<longrightarrow> f_le (minF ?s) x \<and> f_le x (maxF ?s))" if "VFloat x \<in> set ?vs" for x
      using cov [OF that] le [OF _ h(2) that] le [OF _ that h(3)] by blast
    then show ?thesis using False h z(1) z(2) [OF h(1)] by simp
  qed
qed

lemma string_zone_of:
  assumes "bitmap_bytes (length ys) \<le> length nb" "length ys < 2 ^ 32"
  shows "zone_of TypeString (col_vals (length ys) (nb, Strings ys)) (string_zone (length (keys (dict_of nb ys))) (foldl null_stat no_stats (null_vals nb ys)))"
proof -
  let ?vs = "col_vals (length ys) (nb, Strings ys)" and ?k = "keys (dict_of nb ys)"
  note c = codes_of_ok [OF assms]
  have vs: "?vs = map (\<lambda>i. VString (ys ! i)) (filter (valid_at nb) [0..<length ys])" by (rule col_vals_map) simp
  have set: "set ?vs = VString ` set ?k" unfolding c(6) by (auto simp: vs)
  then have "card (set ?vs) = length ?k" using c(3) by (simp add: card_image inj_on_def distinct_card db_inv_def)
  moreover have "?vs = [] \<longleftrightarrow> ?k = []" using set by (metis image_is_empty set_empty)
  moreover have "\<not> HasMinMax (foldl null_stat no_stats xs)" for xs :: "(bool \<times> string) list"
    by (induction xs rule: rev_induct) (auto simp: null_stat_def count_null_def no_stats_def split: prod.splits)
  moreover have "length ?k < 2 ^ 64" using c(4) assms(2) by simp
  ultimately show ?thesis
    by (auto simp: string_zone_def unsigned_of_nat take_bit_nat_eq_self)
qed

lemma stats_zone:
  assumes "column_ok n t c"
  shows "zone_of t (col_vals n c) (col_stats (fst c) (snd c))"
proof -
  obtain nb vs where c: "c = (nb, vs)" by (cases c)
  have n: "col_len vs = n" "bitmap_bytes n \<le> length nb" "n < 2 ^ 32" "t = col_type vs" using assms by (auto simp: column_ok_def c)
  have b: "\<not> HasMinMax (foldl null_stat no_stats xs)" for xs :: "(bool \<times> bool) list"
    by (induction xs rule: rev_induct) (auto simp: null_stat_def count_null_def no_stats_def split: prod.splits)
  show ?thesis
    using n int64_zone [of _ nb] date_zone [of _ nb] float_zone_of [of _ nb] string_zone_of [of _ nb] b
    by (cases vs) (auto simp: c simp del: zone_of.simps(1-4))
qed

definition null_count :: "nat \<Rightarrow> column \<Rightarrow> nat" where
  "null_count n c = length (filter (\<lambda>i. col_cell c i = None) [0..<n])"

lemma foldl_NullCount:
  assumes "\<And>s null v. cnt (stat s (null, v)) = (cnt s :: i64) + (if null then 1 else 0)"
  shows "cnt (foldl stat s xs) = cnt s + word_of_nat (length (filter fst xs))"
proof (induction xs rule: rev_induct)
  case (snoc x xs)
  then show ?case using assms [of "foldl stat s xs" "fst x" "snd x"] by simp
qed simp

lemma filter_null_vals:
  assumes "length xs = n"
  shows "length (filter fst (null_vals (fst c) xs)) = null_count n c"
proof -
  have "col_cell c i = None \<longleftrightarrow> \<not> valid_at (fst c) i" for i by (cases c; cases "snd c") auto
  then show ?thesis by (simp add: null_vals_def null_count_def filter_map comp_def assms)
qed

lemma NullCount_null_stat: "NullCount (foldl null_stat no_stats xs) = word_of_nat (length (filter fst xs))"
  using foldl_NullCount [of NullCount null_stat no_stats xs] by (simp add: null_stat_def count_null_def no_stats_def)

lemma stats_NullCount:
  assumes "column_ok n t c"
  shows "NullCount (col_stats (fst c) (snd c)) = word_of_nat (null_count n c)"
proof -
  obtain nb vs where c: "c = (nb, vs)" by (cases c)
  have n: "col_len vs = n" using assms by (simp add: column_ok_def c)
  note nd = filter_null_vals [of _ n c, unfolded c fst_conv]
  have z: "NullCount no_stats = 0" by (simp add: no_stats_def)
  show ?thesis
  proof (cases vs)
    case (Int64s ys)
    have "NullCount (foldl int64_stat no_stats xs) = NullCount no_stats + word_of_nat (length (filter fst xs))" for xs
      by (rule foldl_NullCount) (auto simp: int64_stat_def Let_def count_null_def)
    then show ?thesis using Int64s n z by (simp add: c nd)
  next
    case (Float64s ys)
    have "NullCount (fzone (foldl float64_stat no_float_stats xs)) = NullCount (fzone no_float_stats) + word_of_nat (length (filter fst xs))" for xs
      by (rule foldl_NullCount [where cnt = "\<lambda>s. NullCount (fzone s)"]) (auto simp: float64_stat_def Let_def count_null_def)
    then show ?thesis using Float64s n by (simp add: c nd float_zone_def Let_def no_float_stats_def no_stats_def)
  next
    case (Dates ys)
    have "NullCount (foldl date_stat no_stats xs) = NullCount no_stats + word_of_nat (length (filter fst xs))" for xs
      by (rule foldl_NullCount) (auto simp: date_stat_def Let_def count_null_def)
    then show ?thesis using Dates n z by (simp add: c nd)
  qed (use n in \<open>simp_all add: c nd string_zone_def NullCount_null_stat\<close>)
qed

end
