(* ===== verification/ScanSem.thy ===== *)
theory ScanSem
  imports ZoneStats Operator
begin

text \<open>
  What a table scan delivers: the rows of the row groups that the zone predicate keeps, in file order, whatever was left in the decode buffers.
\<close>

declare TableScan_Next.simps [simp del]

section \<open>Decode buffers\<close>

definition kind_count :: "Schema \<Rightarrow> DataType \<Rightarrow> nat" where
  "kind_count schema t = length (filter ((=) t) (map Type schema))"

definition bufs_ok :: "Schema \<Rightarrow> scanBuffers \<Rightarrow> bool" where
  "bufs_ok schema sb \<longleftrightarrow> colBufIdx sb = colBufIdx (initScanBuffers schema) \<and> length (int64Bufs sb) = kind_count schema TypeInt64 \<and>
     length (float64Bufs sb) = kind_count schema TypeFloat64 \<and> length (int32Bufs sb) = kind_count schema TypeDate \<and>
     length (uint32Bufs sb) = kind_count schema TypeString \<and> length (nullBufs sb) = length schema"

lemma bufs_ok_init: "bufs_ok schema (initScanBuffers schema)"
  by (simp add: bufs_ok_def initScanBuffers_def Let_def kind_count_def)

lemma filter_take_less: "i < length xs \<Longrightarrow> P (xs ! i) \<Longrightarrow> length (filter P (take i xs)) < length (filter P xs)"
  by (metis append_take_drop_id filter_append length_append less_add_same_cancel1 length_greater_0_conv Cons_nth_drop_Suc filter.simps(2) list.discI)

lemma buf_index_ok:
  assumes "bufs_ok schema sb" "i < length schema" "Type (schema ! i) \<noteq> TypeBool"
  shows "\<exists>k. buf_index sb i = Inr k \<and> k < kind_count schema (Type (schema ! i))"
proof -
  let ?ts = "map Type schema"
  have "colBufIdx sb ! i = int (length (filter ((=) (?ts ! i)) (take i ?ts)))" "length (colBufIdx sb) = length schema"
    using assms by (simp_all add: bufs_ok_def initScanBuffers_def Let_def)
  moreover have "length (filter ((=) (?ts ! i)) (take i ?ts)) < kind_count schema (Type (schema ! i))"
    using filter_take_less [of i ?ts "(=) (?ts ! i)"] assms(2) by (simp add: kind_count_def)
  ultimately show ?thesis using assms(2) by (simp add: buf_index_def)
qed

lemma get_buf_ok: "k < length bs \<Longrightarrow> \<exists>b bs'. get_buf z bs k rows = Inr (b, bs') \<and> length b = rows \<and> length bs' = length bs"
  by (auto simp: get_buf_def)

lemma fill_nulls_ok:
  assumes "i < length (nullBufs sb)" "length nulls = bitmap_bytes rows"
  shows "\<exists>bs. fill_nulls i rows nulls sb = Inr (nulls, sb\<lparr>nullBufs := bs\<rparr>) \<and> length bs = length (nullBufs sb)"
proof -
  obtain b bs where "get_buf 0 (nullBufs sb) i (bitmap_bytes rows) = Inr (b, bs)" "length b = bitmap_bytes rows" "length bs = length (nullBufs sb)"
    using get_buf_ok [OF assms(1)] by blast
  then show ?thesis using assms(2)
    by (auto simp: fill_nulls_def getNullBuf_def Let_def copy_into_all put_buf_def intro!: exI [of _ "bs[i := nulls @ drop (bitmap_bytes rows) (bs ! i)]"])
qed

lemma fill_upto:
  assumes "\<And>i. i < length bv \<Longrightarrow> get i = Inr (bv ! i)" "length vals = length bv"
  shows "fold_res (\<lambda>vals i. res_bind (get i) (upd vals i)) vals [0..<length bv] = (Inr bv :: 'a list xres)"
proof -
  let ?P = "\<lambda>k vals. length vals = length bv \<and> (\<forall>i < k. vals ! i = bv ! i)"
  have "\<exists>r. fold_res (\<lambda>vals i. res_bind (get i) (upd vals i)) vals [0..<length bv] = (Inr r :: 'a list xres) \<and> ?P (length bv) r"
    by (rule fold_res_upto [where P = ?P]) (use assms in \<open>auto simp: nth_list_update less_Suc_eq\<close>)
  then show ?thesis using nth_equalityI [of _ bv] by auto
qed

lemma decode_fixed_ok:
  assumes "length vals = length bv" "LENGTH('w) \<le> 8 * m"
  shows "decode_fixed m (concat (map (le_bytes m) bv)) (length bv) vals = Inr (bv :: 'w::len word list)"
proof -
  have "slice (concat (map (le_bytes m) bv)) 0 (length bv * m) = (Inr (concat (map (le_bytes m) bv)) :: byte list xres)"
    by (simp add: length_concat_le_bytes mult.commute)
  then show ?thesis using fill_upto [of bv "\<lambda>i. stored (word_at m (concat (map (le_bytes m) bv)) i)" vals] assms
    by (simp add: decode_fixed_def word_at_ok)
qed

lemma decode_buf:
  assumes "j < length bs0" "length vs = n" "LENGTH('w) \<le> 8 * m"
  obtains bs where "length bs = length bs0" "\<And>F. res_bind (get_buf (0 :: 'w::len word) bs0 j (block_rows n k)) (\<lambda>(vals, bufs).
      res_bind (decode_fixed m (concat (map (le_bytes m) (block_of vs (k * BlockRows)))) (block_rows n k) vals) (F bufs)) = (F bs (block_of vs (k * BlockRows)) :: 'b xres)"
proof -
  obtain b bs where g: "get_buf 0 bs0 j (block_rows n k) = Inr (b, bs)" "length b = block_rows n k" "length bs = length bs0"
    using get_buf_ok [OF assms(1)] by blast
  have "decode_fixed m (concat (map (le_bytes m) (block_of vs (k * BlockRows)))) (block_rows n k) b = Inr (block_of vs (k * BlockRows))"
    using decode_fixed_ok [of b "block_of vs (k * BlockRows)" m] g(2) assms(2,3) by simp
  then show thesis using that [of bs] g by simp
qed

lemma decode_codes_ok: "length vals = length bv \<Longrightarrow> decode_codes (concat (map (le_bytes 4) bv)) (length bv) vals = Inr bv"
  using fill_upto [of bv "\<lambda>i. stored (word_at 4 (concat (map (le_bytes 4) bv)) i)" vals] by (simp add: decode_codes_def word_at_ok)

lemma bool_vector_ok:
  assumes "bitmap_bytes (length bv) \<le> length nulls" "length bv < 2 ^ 32"
  shows "\<exists>bits nb. bool_vector (rle_block nulls bv) (length bv) = Inr (BoolVector bits nb (length bv)) \<and> length bits = bitmap_bytes (length bv) \<and>
    length nb = bitmap_bytes (length bv) \<and> (\<forall>i < length bv. valid_at nb i \<longleftrightarrow> valid_at nulls i) \<and>
    (\<forall>i < length bv. valid_at bits i \<longleftrightarrow> valid_at nulls i \<and> bv ! i)"
proof -
  let ?n = "length bv"
  obtain vals nb where dec: "DecodeRLEBool (rle_block nulls bv) = Inr (vals, nb, ?n)" "length vals = ?n"
    "length nb = bitmap_bytes ?n" "\<And>i. valid_at nb i \<longleftrightarrow> i < ?n \<and> valid_at nulls i" "\<And>i. i < ?n \<Longrightarrow> vals ! i \<longleftrightarrow> valid_at nulls i \<and> bv ! i"
    using rle_block_decode [OF assms] by blast
  let ?P = "\<lambda>k bits. length bits = bitmap_bytes ?n \<and> (\<forall>i. valid_at bits i \<longleftrightarrow> i < k \<and> vals ! i)"
  have "\<exists>bits. fold_res (\<lambda>bits i. BoolVector_Set bits i (vals ! i)) (replicate (bitmap_bytes ?n) 0) [0..<?n] = Inr bits \<and> ?P ?n bits"
  proof (rule fold_res_upto [where P = ?P])
    show "?P 0 (replicate (bitmap_bytes ?n) 0)" by (simp add: valid_at_def)
  next
    fix k bits assume k: "k < ?n" and P: "?P k bits"
    have "k div 8 < length bits" using P div8_less_bitmap_bytes [OF k] by simp
    then obtain bits' where "BoolVector_Set bits k (vals ! k) = Inr bits'" "length bits' = length bits" "\<And>j. valid_at bits' j \<longleftrightarrow> (if j = k then vals ! k else valid_at bits j)"
      using BoolVector_Set_eq by blast
    then show "\<exists>bits'. BoolVector_Set bits k (vals ! k) = Inr bits' \<and> ?P (Suc k) bits'" using P by (auto simp: less_Suc_eq)
  qed
  then show ?thesis using dec
    by (auto simp: bool_vector_def Let_def enumerate_map fold_res_map copy_into_all)
qed

section \<open>Blocks to vectors\<close>

definition dict_known :: "column \<Rightarrow> ColumnReader \<Rightarrow> bool" where
  "dict_known c cr \<longleftrightarrow> (\<forall>nb vs. c = (nb, Strings vs) \<longrightarrow> cdict cr = None \<or> cdict cr = Some (Inr (dict_of_keys (keys (dict_of nb vs)))))"

definition col_reader_at :: "byte list \<Rightarrow> Field \<Rightarrow> nat \<Rightarrow> column \<Rightarrow> nat \<Rightarrow> ColumnReader \<Rightarrow> bool" where
  "col_reader_at file field n c k cr \<longleftrightarrow> (\<exists>off. at_block file field n c off k cr) \<and> dict_known c cr"

definition vector_of_block :: "nat \<Rightarrow> column \<Rightarrow> nat \<Rightarrow> vector \<Rightarrow> bool" where
  "vector_of_block n c k vec \<longleftrightarrow> VType vec = col_type (snd c) \<and> wf_vector (block_rows n k) vec \<and> (\<forall>i < block_rows n k. vget vec i = col_cell c (k * BlockRows + i))"

lemma string_vector_of_block:
  assumes ok: "column_ok n t (nb, Strings vs)" and k: "k < num_blocks n"
  shows "vector_of_block n (nb, Strings vs) k (StringVector (block_of (codes_of nb vs) (k * BlockRows)) (Some (dict_of_keys (keys (dict_of nb vs)))) (block_nulls nb n k))"
proof -
  let ?ks = "keys (dict_of nb vs)" and ?m = "block_rows n k"
  have v: "length vs = n" "bitmap_bytes n \<le> length nb" "n < 2 ^ 32" using ok by (auto simp: column_ok_def)
  note cs = codes_of_ok [of vs nb] and nulls = block_nulls_ok [OF v(2) k]
  note b = string_section_bounded(3) [OF ok] and d = dict_of_keys_ok [OF b]
  have len: "length (codes_of nb vs) = n" using cs(2) v by simp
  have code: "unat (block_of (codes_of nb vs) (k * BlockRows) ! i) < length ?ks \<and> ?ks ! unat (block_of (codes_of nb vs) (k * BlockRows) ! i) = vs ! (k * BlockRows + i)"
    if "i < ?m" "valid_at nb (k * BlockRows + i)" for i
    using cs(7) [of "k * BlockRows + i"] that block_rows_bounds [OF k] v len by (simp add: nth_block_of)
  have "length (Offsets (dict_of_keys ?ks)) < 2 ^ 32" using b by (simp add: dict_of_keys_def dict_bounded_def)
  moreover have "distinct ?ks" using cs(3) v by (simp add: db_inv_def)
  ultimately show ?thesis
    using code nulls len d(1) by (auto simp: vector_of_block_def d(2) length_dict_strings [symmetric] simp del: length_dict_strings)
qed

lemma payloadToVector_ok:
  assumes at: "col_reader_at file field n c (Suc k) cr" and k: "k < num_blocks n" and sb: "bufs_ok schema sb"
    and i: "i < length schema" "Type (schema ! i) = Type field" and small: "length file < 2 ^ 63"
  shows "\<exists>vec cr' sb'. payloadToVector file (schema ! i) (fst (block_data c k)) (snd (block_data c k)) (block_rows n k) cr i sb = Inr (vec, cr', sb') \<and>
    col_reader_at file field n c (Suc k) cr' \<and> bufs_ok schema sb' \<and> vector_of_block n c k vec"
proof -
  obtain nb v where c: "c = (nb, v)" by (cases c)
  obtain off where a: "at_block file field n c off (Suc k) cr" using at by (auto simp: col_reader_at_def)
  then have ok: "column_ok n (Type field) c" by (simp add: at_block_def reading_def)
  then have v: "col_type v = Type field" "col_len v = n" "bitmap_bytes n \<le> length nb" "n < 2 ^ 32" by (auto simp: column_ok_def c)
  note nulls = block_nulls_ok [OF v(3) k]
  have null_ok: "\<exists>bs. fill_nulls i (block_rows n k) (block_nulls nb n k) sb' = Inr (block_nulls nb n k, sb'\<lparr>nullBufs := bs\<rparr>) \<and> length bs = length schema"
    if "length (nullBufs sb') = length schema" for sb' using fill_nulls_ok [of i sb'] nulls(2) that i(1) by simp
  have nl: "length (nullBufs sb) = length schema" using sb by (simp add: bufs_ok_def)
  have idx: "\<exists>j. buf_index sb i = Inr j \<and> j < kind_count schema (Type field)" if "Type field \<noteq> TypeBool"
    using buf_index_ok [OF sb i(1)] i(2) that by simp
  show ?thesis
  proof (cases v)
    case (Int64s vs)
    then have len: "length vs = n" using v(2) by simp
    obtain j where j: "buf_index sb i = Inr j" "j < length (int64Bufs sb)" using idx sb v(1) Int64s by (auto simp: bufs_ok_def)
    note d = decode_buf [OF j(2) len, of 8 k, where 'b = "vector \<times> ColumnReader \<times> scanBuffers"]
    obtain bs where bs: "length bs = length (int64Bufs sb)" "\<And>F. res_bind (get_buf 0 (int64Bufs sb) j (block_rows n k)) (\<lambda>(vals, bufs).
      res_bind (decode_fixed 8 (concat (map (le_bytes 8) (block_of vs (k * BlockRows)))) (block_rows n k) vals) (F bufs)) =
      (F bs (block_of vs (k * BlockRows)) :: (vector \<times> ColumnReader \<times> scanBuffers) xres)" by (rule d) simp_all
    show ?thesis using Int64s v(1) i(2) len j bs null_ok [of "sb\<lparr>int64Bufs := put_buf bs j (block_of vs (k * BlockRows))\<rparr>"] nl sb at nulls
      by (auto simp: payloadToVector_def c fixed_data_def bufs_ok_def put_buf_def vector_of_block_def nth_block_of)
  next
    case (Float64s vs)
    then have len: "length vs = n" using v(2) by simp
    obtain j where j: "buf_index sb i = Inr j" "j < length (float64Bufs sb)" using idx sb v(1) Float64s by (auto simp: bufs_ok_def)
    note d = decode_buf [OF j(2) len, of 8 k, where 'b = "vector \<times> ColumnReader \<times> scanBuffers"]
    obtain bs where bs: "length bs = length (float64Bufs sb)" "\<And>F. res_bind (get_buf 0 (float64Bufs sb) j (block_rows n k)) (\<lambda>(vals, bufs).
      res_bind (decode_fixed 8 (concat (map (le_bytes 8) (block_of vs (k * BlockRows)))) (block_rows n k) vals) (F bufs)) =
      (F bs (block_of vs (k * BlockRows)) :: (vector \<times> ColumnReader \<times> scanBuffers) xres)" by (rule d) simp_all
    show ?thesis using Float64s v(1) i(2) len j bs null_ok [of "sb\<lparr>float64Bufs := put_buf bs j (block_of vs (k * BlockRows))\<rparr>"] nl sb at nulls
      by (auto simp: payloadToVector_def c fixed_data_def bufs_ok_def put_buf_def vector_of_block_def nth_block_of)
  next
    case (Dates vs)
    then have len: "length vs = n" using v(2) by simp
    obtain j where j: "buf_index sb i = Inr j" "j < length (int32Bufs sb)" using idx sb v(1) Dates by (auto simp: bufs_ok_def)
    note d = decode_buf [OF j(2) len, of 4 k, where 'b = "vector \<times> ColumnReader \<times> scanBuffers"]
    obtain bs where bs: "length bs = length (int32Bufs sb)" "\<And>F. res_bind (get_buf 0 (int32Bufs sb) j (block_rows n k)) (\<lambda>(vals, bufs).
      res_bind (decode_fixed 4 (concat (map (le_bytes 4) (block_of vs (k * BlockRows)))) (block_rows n k) vals) (F bufs)) =
      (F bs (block_of vs (k * BlockRows)) :: (vector \<times> ColumnReader \<times> scanBuffers) xres)" by (rule d) simp_all
    show ?thesis using Dates v(1) i(2) len j bs null_ok [of "sb\<lparr>int32Bufs := put_buf bs j (block_of vs (k * BlockRows))\<rparr>"] nl sb at nulls
      by (auto simp: payloadToVector_def c fixed_data_def bufs_ok_def put_buf_def vector_of_block_def nth_block_of)
  next
    case (Bools vs)
    have len: "length vs = n" "length (block_of vs (k * BlockRows)) = block_rows n k" using v(2) Bools by simp_all
    have "block_rows n k < 2 ^ 32" using block_rows_bounds [OF k] v(4) by simp
    then obtain bits nb' where b: "bool_vector (rle_block (block_nulls nb n k) (block_of vs (k * BlockRows))) (block_rows n k) = Inr (BoolVector bits nb' (block_rows n k))"
      "length bits = bitmap_bytes (block_rows n k)" "length nb' = bitmap_bytes (block_rows n k)"
      "\<forall>i < block_rows n k. valid_at nb' i \<longleftrightarrow> valid_at (block_nulls nb n k) i"
      "\<forall>i < block_rows n k. valid_at bits i \<longleftrightarrow> valid_at (block_nulls nb n k) i \<and> block_of vs (k * BlockRows) ! i"
      using bool_vector_ok [of "block_of vs (k * BlockRows)" "block_nulls nb n k"] nulls(2) unfolding len(2) by auto
    show ?thesis using Bools v(1) i(2) len b sb at nulls(3)
      by (auto simp: payloadToVector_def c vector_of_block_def nth_block_of)
  next
    case (Strings vs)
    let ?d = "dict_of_keys (keys (dict_of nb vs))" and ?cs = "block_of (codes_of nb vs) (k * BlockRows)"
    obtain j where j: "buf_index sb i = Inr j" "j < length (uint32Bufs sb)" using idx sb v(1) Strings by (auto simp: bufs_ok_def)
    obtain b bs where g: "get_buf 0 (uint32Bufs sb) j (block_rows n k) = Inr (b, bs)" "length b = block_rows n k" "length bs = length (uint32Bufs sb)"
      using get_buf_ok [OF j(2)] by blast
    have len: "length vs = n" "length (codes_of nb vs) = n" using v Strings codes_of_ok(2) [of vs nb] by simp_all
    have d: "decode_codes (concat (map (le_bytes 4) ?cs)) (block_rows n k) b = Inr ?cs" using decode_codes_ok [of b ?cs] g(2) len by simp
    obtain ns where ns: "fill_nulls i (block_rows n k) (block_nulls nb n k) (sb\<lparr>uint32Bufs := put_buf bs j ?cs\<rparr>) =
        Inr (block_nulls nb n k, sb\<lparr>uint32Bufs := put_buf bs j ?cs, nullBufs := ns\<rparr>)" "length ns = length schema"
      using null_ok [of "sb\<lparr>uint32Bufs := put_buf bs j ?cs\<rparr>"] nl by auto
    have "reading file field n (nb, Strings vs) off (Suc k) cr" "cdict cr = None \<or> cdict cr = Some (Inr ?d)"
      using a at by (auto simp: at_block_def c Strings col_reader_at_def dict_known_def)
    then obtain cr' where cr': "ColumnReader_Dictionary file cr = (Inr ?d, cr')" "reading file field n (nb, Strings vs) off (Suc k) cr'" "rowsDone cr' = rowsDone cr" "cdict cr' = Some (Inr ?d)"
      using Dictionary_at small by blast
    have "col_reader_at file field n c (Suc k) cr'" using cr' a by (auto simp: col_reader_at_def dict_known_def at_block_def c Strings)
    then show ?thesis using Strings v(1) i(2) len j g d ns sb cr'(1) string_vector_of_block [OF ok [unfolded c Strings] k]
      by (auto simp: payloadToVector_def c fixed_data_def bufs_ok_def put_buf_def)
  qed
qed

section \<open>A block of every column\<close>

text \<open>The readers \<open>crs\<close> stand at block \<open>k\<close> of the columns \<open>cs\<close>, whose file fields are \<open>fs\<close>.\<close>

definition readers_at :: "byte list \<Rightarrow> Field list \<Rightarrow> nat \<Rightarrow> column list \<Rightarrow> nat \<Rightarrow> ColumnReader list \<Rightarrow> bool" where
  "readers_at file fs n cs k crs \<longleftrightarrow> length fs = length crs \<and> length cs = length crs \<and> (\<forall>j < length crs. col_reader_at file (fs ! j) n (cs ! j) k (crs ! j))"

lemma readers_at_Cons: "readers_at file fs n cs k (cr # crs) \<longleftrightarrow>
    (\<exists>f fs' c cs'. fs = f # fs' \<and> cs = c # cs' \<and> col_reader_at file f n c k cr \<and> readers_at file fs' n cs' k crs)"
  by (cases fs; cases cs) (auto simp: readers_at_def All_less_Suc2)

lemma readers_at_Nil: "readers_at file fs n cs k [] \<longleftrightarrow> fs = [] \<and> cs = []"
  by (auto simp: readers_at_def)

lemma NextBlock_col:
  assumes "col_reader_at file f n c k cr" "length file < 2 ^ 63" "k < num_blocks n"
  shows "\<exists>cr'. NextBlock file cr = (Inr (Some (fst (block_data c k), snd (block_data c k), block_rows n k)), cr') \<and> col_reader_at file f n c (Suc k) cr'"
proof -
  obtain off where "at_block file f n c off k cr" using assms(1) by (auto simp: col_reader_at_def)
  then obtain cr' where N: "NextBlock file cr = (Inr (Some (fst (block_data c k), snd (block_data c k), block_rows n k)), cr')" "at_block file f n c off (Suc k) cr'"
    using NextBlock_at [OF _ assms(2,3)] by blast
  then show ?thesis using assms(1) NextBlock_frame [OF N(1)] by (auto simp: col_reader_at_def dict_known_def)
qed

lemma read_columns_ok:
  assumes "readers_at file fs n cs k crs" "length file < 2 ^ 63" "k < num_blocks n" "bufs_ok schema sb"
    and "i + length crs \<le> length schema" "\<forall>j < length crs. Type (schema ! (i + j)) = Type (fs ! j)"
  shows "\<exists>vecs crs' sb'. read_columns file schema i crs sb = Inr (Some (vecs, replicate (length crs) (block_rows n k), crs'), sb') \<and> bufs_ok schema sb' \<and>
    readers_at file fs n cs (Suc k) crs' \<and> list_all2 (\<lambda>c. vector_of_block n c k) cs vecs"
  using assms
proof (induction crs arbitrary: fs cs i sb)
  case (Cons cr crs)
  then obtain f fs' c cs' where eq: "fs = f # fs'" "cs = c # cs'" "col_reader_at file f n c k cr" "readers_at file fs' n cs' k crs"
    by (auto simp: readers_at_Cons)
  obtain cr1 where N: "NextBlock file cr = (Inr (Some (fst (block_data c k), snd (block_data c k), block_rows n k)), cr1)" "col_reader_at file f n c (Suc k) cr1"
    using NextBlock_col [OF eq(3) Cons.prems(2,3)] by blast
  have i: "i < length schema" "Type (schema ! i) = Type f" using Cons.prems(5,6) eq(1) by (auto dest: spec [of _ 0])
  obtain vec cr2 sb2 where p: "payloadToVector file (schema ! i) (fst (block_data c k)) (snd (block_data c k)) (block_rows n k) cr1 i sb = Inr (vec, cr2, sb2)"
    "col_reader_at file f n c (Suc k) cr2" "bufs_ok schema sb2" "vector_of_block n c k vec"
    using payloadToVector_ok [OF N(2) Cons.prems(3,4) i Cons.prems(2)] by blast
  have "\<forall>j < length crs. Type (schema ! (Suc i + j)) = Type (fs' ! j)" using Cons.prems(6) eq(1) by (auto simp: All_less_Suc2)
  then obtain vecs crs' sb' where r: "read_columns file schema (Suc i) crs sb2 = Inr (Some (vecs, replicate (length crs) (block_rows n k), crs'), sb')" "bufs_ok schema sb'"
    "readers_at file fs' n cs' (Suc k) crs'" "list_all2 (\<lambda>c. vector_of_block n c k) cs' vecs"
    using Cons.IH [OF eq(4) Cons.prems(2,3) p(3), of "Suc i"] Cons.prems(5) by auto
  have "readers_at file fs n cs (Suc k) (cr2 # crs')" using r(3) p(2) eq(1,2) by (auto simp: readers_at_Cons)
  then show ?case using N(1) i(1) p(1,4) r eq(2) by simp
qed (auto simp: readers_at_Nil)

lemma read_columns_end:
  assumes "readers_at file fs n cs k crs" "num_blocks n \<le> k" "crs \<noteq> []"
  shows "read_columns file schema i crs sb = Inr (None, sb)"
proof -
  obtain cr crs' where "crs = cr # crs'" using assms(3) by (cases crs) auto
  moreover from this obtain f c off where "at_block file f n c off k cr" using assms(1) by (auto simp: readers_at_Cons col_reader_at_def)
  ultimately show ?thesis using NextBlock_end [OF _ assms(2)] by simp
qed

section \<open>The scan\<close>

definition keeps :: "TableScan \<Rightarrow> nat \<Rightarrow> bool" where
  "keeps s i \<longleftrightarrow> (case zonePred s of None \<Rightarrow> True | Some p \<Rightarrow> p (RowGroups (rmeta (treader s)) ! i))"

definition groups_rows :: "table \<Rightarrow> TableScan \<Rightarrow> nat \<Rightarrow> val option list list" where
  "groups_rows T s a = concat (map (\<lambda>i. if keeps s i then rg_rows (colMap s) (T ! i) else []) [a..<rgEnd s])"

definition scan_ok :: "Schema \<Rightarrow> table \<Rightarrow> TableScan \<Rightarrow> bool" where
  "scan_ok schema T s \<longleftrightarrow> reader_ok (treader s) schema T \<and> colMap s \<noteq> [] \<and> (\<forall>c \<in> set (colMap s). c < length schema) \<and>
     map Type (tschema s) = map (\<lambda>c. Type (schema ! c)) (colMap s) \<and> rgEnd s \<le> length T \<and> (\<forall>sb. bufs s = Some sb \<longrightarrow> bufs_ok (tschema s) sb)"

text \<open>Before a row group is opened, or at block \<open>k\<close> of the open one.\<close>

definition scan_at :: "Schema \<Rightarrow> table \<Rightarrow> TableScan \<Rightarrow> nat option \<Rightarrow> bool" where
  "scan_at schema T s pos \<longleftrightarrow> scan_ok schema T s \<and> (case pos of None \<Rightarrow> crList s = None
   | Some k \<Rightarrow> rgIdx s < rgEnd s \<and> (\<exists>crs. crList s = Some crs \<and>
       readers_at (rfile (treader s)) (map ((!) schema) (colMap s)) (fst (T ! rgIdx s)) (map ((!) (snd (T ! rgIdx s))) (colMap s)) k crs))"

definition scan_rest :: "table \<Rightarrow> TableScan \<Rightarrow> nat option \<Rightarrow> val option list list" where
  "scan_rest T s pos = (case pos of None \<Rightarrow> groups_rows T s (rgIdx s)
   | Some k \<Rightarrow> drop (k * BlockRows) (rg_rows (colMap s) (T ! rgIdx s)) @ groups_rows T s (Suc (rgIdx s)))"

definition same_scan :: "TableScan \<Rightarrow> TableScan \<Rightarrow> bool" where
  "same_scan s s' \<longleftrightarrow> treader s' = treader s \<and> tschema s' = tschema s \<and> colMap s' = colMap s \<and> zonePred s' = zonePred s \<and> rgEnd s' = rgEnd s"

definition scan_types :: "TableScan \<Rightarrow> DataType list" where
  "scan_types s = map Type (tschema s)"

lemma same_scan_rows: "same_scan s s' \<Longrightarrow> keeps s' = keeps s \<and> groups_rows T s' a = groups_rows T s a"
  unfolding same_scan_def keeps_def [abs_def] groups_rows_def by metis

lemma same_scan_trans: "same_scan a b \<Longrightarrow> same_scan b c \<Longrightarrow> same_scan a c"
  by (simp add: same_scan_def)

lemma block_rows_drop:
  assumes "k < num_blocks (fst rg)"
  shows "drop (k * BlockRows) (rg_rows cols rg) = map (\<lambda>i. map (\<lambda>c. col_cell (snd rg ! c) (k * BlockRows + i)) cols) [0..<block_rows (fst rg) k] @ drop (Suc k * BlockRows) (rg_rows cols rg)"
proof -
  have d: "drop m (rg_rows cols rg) = map (\<lambda>i. map (\<lambda>c. col_cell (snd rg ! c) i) cols) [min (fst rg) m..<fst rg]" for m
    by (auto simp: rg_rows_def drop_map min_def)
  show ?thesis unfolding d block_range(1) [OF assms] by simp
qed

lemma scan_batch_ok:
  assumes vecs: "list_all2 (\<lambda>c. vector_of_block n c k) (map ((!) cs) cols) vecs" and k: "k < num_blocks n" and cols: "cols \<noteq> []"
    and t: "\<forall>c \<in> set cols. col_type (snd (cs ! c)) = Type (schema ! c)" "map Type ts = map (\<lambda>c. Type (schema ! c)) cols"
  shows "wf_rows (map Type ts) \<lparr>BSchema = ts, Vectors = vecs, BLength = block_rows n k, SelVec = None\<rparr>"
    "batch_rows \<lparr>BSchema = ts, Vectors = vecs, BLength = block_rows n k, SelVec = None\<rparr> = map (\<lambda>i. map (\<lambda>c. col_cell (cs ! c) (k * BlockRows + i)) cols) [0..<block_rows n k]"
proof -
  let ?b = "\<lparr>BSchema = ts, Vectors = vecs, BLength = block_rows n k, SelVec = None\<rparr>"
  have len: "length vecs = length cols" "length ts = length cols" using list_all2_lengthD [OF vecs] arg_cong [OF t(2), of length] by simp_all
  have v: "vector_of_block n (cs ! (cols ! j)) k (vecs ! j)" if "j < length cols" for j using vecs that by (auto simp: list_all2_conv_all_nth)
  have ty: "VType (vecs ! j) = map Type ts ! j" if "j < length cols" for j
    using v [OF that] t that by (simp add: vector_of_block_def)
  have rows: "block_rows n k \<le> 2 ^ 16" using block_rows_bounds [OF k] by (simp add: BlockRows_def)
  have "wf_batch (map Type ts) ?b"
    using len v ty by (auto simp: wf_batch_def evalLen_def vector_of_block_def)
  then show "wf_rows (map Type ts) ?b" using cols len rows by (auto simp: wf_rows_def sel_rows_def evalLen_def)
  have "row_at ?b i = map (\<lambda>c. col_cell (cs ! c) (k * BlockRows + i)) cols" if "i < block_rows n k" for i
    using len v that by (auto simp: row_at_def vector_of_block_def intro!: nth_equalityI)
  then show "batch_rows ?b = map (\<lambda>i. map (\<lambda>c. col_cell (cs ! c) (k * BlockRows + i)) cols) [0..<block_rows n k]"
    by (simp add: batch_rows_def sel_rows_def)
qed

lemma readBlock_at:
  assumes ok: "scan_ok schema T s" and g: "rgIdx s < rgEnd s"
    and r: "readers_at (rfile (treader s)) (map ((!) schema) (colMap s)) (fst (T ! rgIdx s)) (map ((!) (snd (T ! rgIdx s))) (colMap s)) k crs"
    and k: "k < num_blocks (fst (T ! rgIdx s))"
  shows "\<exists>b s'. readBlock crs s = Inr (Some b, s') \<and> scan_at schema T s' (Some (Suc k)) \<and> same_scan s s' \<and> wf_rows (scan_types s) b \<and> batch_rows b \<noteq> [] \<and>
    drop (k * BlockRows) (rg_rows (colMap s) (T ! rgIdx s)) @ groups_rows T s (Suc (rgIdx s)) = batch_rows b @ scan_rest T s' (Some (Suc k))"
proof -
  let ?n = "fst (T ! rgIdx s)" and ?cs = "snd (T ! rgIdx s)" and ?f = "rfile (treader s)"
  define sb where "sb = (case bufs s of None \<Rightarrow> initScanBuffers (tschema s) | Some b \<Rightarrow> b)"
  have sb: "bufs_ok (tschema s) sb" using ok bufs_ok_init by (auto simp: sb_def scan_ok_def split: option.splits)
  have c: "colMap s \<noteq> []" "\<forall>c \<in> set (colMap s). c < length schema" "map Type (tschema s) = map (\<lambda>c. Type (schema ! c)) (colMap s)" "length ?f < 2 ^ 63" "rgIdx s < length T"
    using ok g by (auto simp: scan_ok_def reader_ok_def)
  have len: "length crs = length (colMap s)" "length (tschema s) = length (colMap s)" using r arg_cong [OF c(3), of length] by (simp_all add: readers_at_def)
  have "\<forall>j < length crs. Type (tschema s ! (0 + j)) = Type (map ((!) schema) (colMap s) ! j)"
  proof (intro allI impI)
    fix j assume "j < length crs"
    then show "Type (tschema s ! (0 + j)) = Type (map ((!) schema) (colMap s) ! j)" using arg_cong [OF c(3), of "\<lambda>xs. xs ! j"] len by simp
  qed
  then obtain vecs crs' sb' where rc: "read_columns ?f (tschema s) 0 crs sb = Inr (Some (vecs, replicate (length crs) (block_rows ?n k), crs'), sb')" "bufs_ok (tschema s) sb'"
    "readers_at ?f (map ((!) schema) (colMap s)) ?n (map ((!) ?cs) (colMap s)) (Suc k) crs'" "list_all2 (\<lambda>c. vector_of_block ?n c k) (map ((!) ?cs) (colMap s)) vecs"
    using read_columns_ok [OF r c(4) k sb, of 0] len by auto
  let ?b = "\<lparr>BSchema = tschema s, Vectors = vecs, BLength = block_rows ?n k, SelVec = None\<rparr>" and ?s = "s\<lparr>bufs := Some sb', crList := Some crs'\<rparr>"
  have ne: "crs \<noteq> []" using c(1) len(1) by auto
  then have h: "hd (replicate (length crs) (block_rows ?n k)) = block_rows ?n k" by (cases crs) simp_all
  have R: "readBlock crs s = Inr (Some ?b, ?s)"
    unfolding readBlock_def Let_def sb_def [symmetric] using ne rc(1) h by simp
  have "rg_at_meta ?f schema (T ! rgIdx s) (RowGroups (rmeta (treader s)) ! rgIdx s)"
    using ok c(5) by (auto simp: scan_ok_def reader_ok_def list_all2_conv_all_nth)
  then have "\<forall>c \<in> set (colMap s). col_type (snd (?cs ! c)) = Type (schema ! c)"
    using c(2) by (auto simp: rg_at_meta_def col_at_meta_def column_ok_def)
  note b = scan_batch_ok [OF rc(4) k c(1) this c(3)]
  have "scan_at schema T ?s (Some (Suc k))" using ok g rc(2,3) by (simp add: scan_at_def scan_ok_def)
  moreover have "groups_rows T ?s a = groups_rows T s a" for a using same_scan_rows [of s ?s] by (simp add: same_scan_def)
  moreover have "batch_rows ?b \<noteq> []" using b(2) block_rows_bounds [OF k] by simp
  ultimately show ?thesis
    using R b block_rows_drop [OF k, of "colMap s"] by (auto simp: same_scan_def scan_types_def scan_rest_def)
qed

lemma openRowGroup_at:
  assumes "scan_ok schema T s" "rgIdx s < rgEnd s"
  shows "\<exists>crs. openRowGroup s = Inr crs \<and> readers_at (rfile (treader s)) (map ((!) schema) (colMap s)) (fst (T ! rgIdx s)) (map ((!) (snd (T ! rgIdx s))) (colMap s)) 0 crs"
proof -
  let ?P = "\<lambda>c cr. OpenColumn (treader s) (int (rgIdx s)) (int c) = Inr cr \<and> col_reader_at (rfile (treader s)) (schema ! c) (fst (T ! rgIdx s)) (snd (T ! rgIdx s) ! c) 0 cr"
  have "\<exists>cr. ?P c cr" if "c \<in> set (colMap s)" for c
    using OpenColumn_at [of "treader s" schema T "rgIdx s" c] assms that by (auto simp: scan_ok_def col_reader_at_def dict_known_def)
  then obtain cr where cr: "\<And>c. c \<in> set (colMap s) \<Longrightarrow> ?P c (cr c)" by metis
  then have "openRowGroup s = Inr (map cr (colMap s))" unfolding openRowGroup_def by (intro map_res_ok) simp
  moreover have "readers_at (rfile (treader s)) (map ((!) schema) (colMap s)) (fst (T ! rgIdx s)) (map ((!) (snd (T ! rgIdx s))) (colMap s)) 0 (map cr (colMap s))"
    using cr by (simp add: readers_at_def)
  ultimately show ?thesis by blast
qed

lemma groups_rows_Cons: "a < rgEnd s \<Longrightarrow> groups_rows T s a = (if keeps s a then rg_rows (colMap s) (T ! a) else []) @ groups_rows T s (Suc a)"
  by (simp add: groups_rows_def upt_conv_Cons)

definition scan_result :: "Schema \<Rightarrow> table \<Rightarrow> TableScan \<Rightarrow> val option list list \<Rightarrow> (Batch option \<times> TableScan) xres \<Rightarrow> bool" where
  "scan_result schema T s rows r \<longleftrightarrow> (rows = [] \<and> (\<exists>s'. r = Inr (None, s'))) \<or>
     (\<exists>b s' k. r = Inr (Some b, s') \<and> scan_at schema T s' (Some k) \<and> same_scan s s' \<and> wf_rows (scan_types s) b \<and> batch_rows b \<noteq> [] \<and> rows = batch_rows b @ scan_rest T s' (Some k))"

lemma scan_result_same: "same_scan s0 s \<Longrightarrow> scan_result schema T s rows r \<Longrightarrow> scan_result schema T s0 rows r"
  unfolding scan_result_def using same_scan_trans by (fastforce simp: same_scan_def scan_types_def)

lemma TableScan_Next_at: "scan_at schema T s pos \<Longrightarrow> scan_result schema T s (scan_rest T s pos) (TableScan_Next s)"
proof (induction "rgEnd s - rgIdx s" arbitrary: s pos rule: less_induct)
  case less
  have ok: "scan_ok schema T s" using less.prems by (simp add: scan_at_def)
  have reader: "length (RowGroups (rmeta (treader s))) = length T" "rgEnd s \<le> length T" using ok by (auto simp: scan_ok_def reader_ok_def list_all2_lengthD)
  have n: "0 < fst (T ! rgIdx s)" if "rgIdx s < rgEnd s"
    using ok that by (auto simp: scan_ok_def reader_ok_def list_all2_conv_all_nth rg_at_meta_def)
  have skip: "scan_result schema T s (groups_rows T s (Suc (rgIdx s))) (TableScan_Next s')"
    if "s' = s\<lparr>crList := None, rgIdx := Suc (rgIdx s)\<rparr> \<or> s' = s\<lparr>bufs := Some sb, crList := None, rgIdx := Suc (rgIdx s)\<rparr> \<and> bufs_ok (tschema s) sb" "rgIdx s < rgEnd s" for s' sb
  proof -
    have same: "same_scan s s'" and at: "scan_at schema T s' None" using that(1) ok by (auto simp: same_scan_def scan_at_def scan_ok_def)
    have rest: "scan_rest T s' None = groups_rows T s (Suc (rgIdx s))" using same_scan_rows [OF same] that(1) by (auto simp: scan_rest_def)
    have "rgEnd s' - rgIdx s' < rgEnd s - rgIdx s" using that by auto
    from less.hyps [OF this at] show ?thesis unfolding rest by (rule scan_result_same [OF same])
  qed
  show ?case
  proof (cases pos)
    case None
    then have cr: "crList s = None" using less.prems by (simp add: scan_at_def)
    show ?thesis
    proof (cases "rgEnd s \<le> rgIdx s")
      case True
      then show ?thesis using None cr by (subst TableScan_Next.simps) (simp add: scan_result_def scan_rest_def groups_rows_def)
    next
      case False
      then have g: "rgIdx s < rgEnd s" by simp
      show ?thesis
      proof (cases "keeps s (rgIdx s)")
        case True
        obtain crs where o: "openRowGroup s = Inr crs" "readers_at (rfile (treader s)) (map ((!) schema) (colMap s)) (fst (T ! rgIdx s)) (map ((!) (snd (T ! rgIdx s))) (colMap s)) 0 crs"
          using openRowGroup_at [OF ok g] by blast
        have "0 < num_blocks (fst (T ! rgIdx s))" using n [OF g] less_num_blocks [of 0] by simp
        from readBlock_at [OF ok g o(2) this] obtain b s' where b: "readBlock crs s = Inr (Some b, s')" "scan_at schema T s' (Some (Suc 0))" "same_scan s s'" "wf_rows (scan_types s) b" "batch_rows b \<noteq> []"
          "rg_rows (colMap s) (T ! rgIdx s) @ groups_rows T s (Suc (rgIdx s)) = batch_rows b @ scan_rest T s' (Some (Suc 0))" by auto
        have "\<not> (case zonePred s of None \<Rightarrow> False | Some p \<Rightarrow> \<not> p (RowGroups (rmeta (treader s)) ! rgIdx s))"
          using True by (simp add: keeps_def split: option.splits)
        then have "TableScan_Next s = Inr (Some b, s')" using g cr o(1) b(1) reader by (subst TableScan_Next.simps) simp
        then show ?thesis using b None True groups_rows_Cons [OF g] by (auto simp: scan_result_def scan_rest_def)
      next
        case F: False
        then have "(case zonePred s of None \<Rightarrow> False | Some p \<Rightarrow> \<not> p (RowGroups (rmeta (treader s)) ! rgIdx s))" by (simp add: keeps_def split: option.splits)
        then have "TableScan_Next s = TableScan_Next (s\<lparr>rgIdx := Suc (rgIdx s)\<rparr>)" using g cr reader by (subst TableScan_Next.simps) simp
        moreover have "s\<lparr>rgIdx := Suc (rgIdx s)\<rparr> = s\<lparr>crList := None, rgIdx := Suc (rgIdx s)\<rparr>" using cr by simp
        ultimately show ?thesis using skip [OF disjI1 [OF refl] g] None F groups_rows_Cons [OF g] by (simp add: scan_rest_def)
      qed
    qed
  next
    case (Some k)
    then obtain crs where c: "crList s = Some crs" "rgIdx s < rgEnd s"
      "readers_at (rfile (treader s)) (map ((!) schema) (colMap s)) (fst (T ! rgIdx s)) (map ((!) (snd (T ! rgIdx s))) (colMap s)) k crs"
      using less.prems by (auto simp: scan_at_def)
    show ?thesis
    proof (cases "k < num_blocks (fst (T ! rgIdx s))")
      case True
      from readBlock_at [OF ok c(2,3) True] obtain b s' where b: "readBlock crs s = Inr (Some b, s')" "scan_at schema T s' (Some (Suc k))" "same_scan s s'" "wf_rows (scan_types s) b" "batch_rows b \<noteq> []"
        "drop (k * BlockRows) (rg_rows (colMap s) (T ! rgIdx s)) @ groups_rows T s (Suc (rgIdx s)) = batch_rows b @ scan_rest T s' (Some (Suc k))" by blast
      have "TableScan_Next s = Inr (Some b, s')" using c(1,2) b(1) by (subst TableScan_Next.simps) simp
      then show ?thesis using b Some by (auto simp: scan_result_def scan_rest_def)
    next
      case False
      define sb where "sb = (case bufs s of None \<Rightarrow> initScanBuffers (tschema s) | Some b \<Rightarrow> b)"
      have sb: "bufs_ok (tschema s) sb" using ok bufs_ok_init by (auto simp: sb_def scan_ok_def split: option.splits)
      have ne: "crs \<noteq> []" using c(3) ok by (auto simp: readers_at_def scan_ok_def)
      have "readBlock crs s = Inr (None, s\<lparr>bufs := Some sb\<rparr>)"
        unfolding readBlock_def Let_def sb_def [symmetric] using ne read_columns_end [OF c(3) _ ne] False by simp
      then have "TableScan_Next s = TableScan_Next (s\<lparr>bufs := Some sb, crList := None, rgIdx := Suc (rgIdx s)\<rparr>)"
        using c(1,2) by (subst TableScan_Next.simps) simp
      moreover have "fst (T ! rgIdx s) \<le> k * BlockRows" using False less_num_blocks by (simp add: not_less)
      ultimately show ?thesis using skip [of "s\<lparr>bufs := Some sb, crList := None, rgIdx := Suc (rgIdx s)\<rparr>" sb] sb c(2) Some
        by (simp add: scan_rest_def rg_rows_def)
    qed
  qed
qed

lemma scan_drain: "scan_at schema T s pos \<Longrightarrow>
    \<exists>out. drain TableScan_Next s = Some out \<and> ends_ok out \<and> (\<forall>b \<in> set (batches out). wf_rows (scan_types s) b) \<and> all_rows out = scan_rest T s pos"
proof (induction "length (scan_rest T s pos)" arbitrary: s pos rule: less_induct)
  case less
  consider s' where "scan_rest T s pos = []" "TableScan_Next s = Inr (None, s')"
    | b s' k where "TableScan_Next s = Inr (Some b, s')" "scan_at schema T s' (Some k)" "same_scan s s'" "wf_rows (scan_types s) b" "batch_rows b \<noteq> []" "scan_rest T s pos = batch_rows b @ scan_rest T s' (Some k)"
    using TableScan_Next_at [OF less.prems] by (auto simp: scan_result_def)
  then show ?case
  proof cases
    case 1
    then show ?thesis by (simp add: drain_steps)
  next
    case 2
    then obtain out where "drain TableScan_Next s' = Some out" "ends_ok out" "\<forall>b \<in> set (batches out). wf_rows (scan_types s') b" "all_rows out = scan_rest T s' (Some k)"
      using less.hyps [of s' "Some k"] by auto
    moreover have "scan_types s' = scan_types s" using 2(3) by (simp add: same_scan_def scan_types_def)
    ultimately show ?thesis using 2 by (auto simp: drain_steps)
  qed
qed

section \<open>Scanning a written table\<close>

definition schema_ok :: "Schema \<Rightarrow> bool" where
  "schema_ok schema \<longleftrightarrow> schema \<noteq> [] \<and> (\<forall>f \<in> set schema. field_bounded f) \<and> length schema < 2 ^ 32"

text \<open>A table as the file format can hold it, and a way to write it.\<close>

definition writes :: "Schema \<Rightarrow> write_op list \<Rightarrow> table \<Rightarrow> bool" where
  "writes schema ops T \<longleftrightarrow> schema_ok schema \<and> table_run schema ops ([], None) = Some (T, None) \<and> length T < 2 ^ 32 \<and> file_size schema T < 2 ^ 63"

lemma writes_reader:
  assumes "writes schema ops T"
  obtains bytes r where "write_table schema ops = Inr bytes" "length bytes = file_size schema T" "Open bytes = Inr r" "reader_ok r schema T" "rfile r = bytes"
proof -
  obtain bytes rgs where "write_table schema ops = Inr bytes" "length bytes = file_size schema T" "list_all2 (rg_at_meta bytes schema) T rgs"
    "Open bytes = Inr \<lparr>rfile = bytes, rmeta = \<lparr>MSchema = schema, RowGroups = rgs\<rparr>\<rparr>"
    using write_table_Open [of schema ops T] assms by (auto simp: writes_def schema_ok_def)
  then show thesis using that assms by (simp add: reader_ok_def writes_def)
qed

lemma IndexOf_Some: "IndexOf fs name = Some i \<Longrightarrow> i < length fs \<and> Name (fs ! i) = name"
  by (induction fs arbitrary: i) (auto split: if_splits)

lemma map_res_IndexOf:
  "map_res (\<lambda>name. case IndexOf schema name of None \<Rightarrow> Inl (Err ErrScanColumn) | Some i \<Rightarrow> Inr i) names = Inr cols \<Longrightarrow>
    (\<forall>c \<in> set cols. c < length schema) \<and> map (\<lambda>c. Name (schema ! c)) cols = names"
  by (induction names arbitrary: cols) (auto simp: res_bind_eq_Inr res_map_eq_Inr dest: IndexOf_Some split: option.splits)

lemma NewTableScanRange_at:
  assumes r: "reader_ok r schema T" "schema \<noteq> []" and new: "NewTableScanRange r names pred a b = Inr s" and b: "b \<le> length T"
  shows "scan_at schema T s None" "rgIdx s = a" "rgStart s = a" "rgEnd s = b" "zonePred s = pred" "treader s = r"
    "map (\<lambda>c. Name (schema ! c)) (colMap s) = (if names = [] then map Name schema else names)" "tschema s = map ((!) schema) (colMap s)"
proof -
  have m: "MSchema (rmeta r) = schema" using r(1) by (simp add: reader_ok_def)
  obtain cols where s: "s = \<lparr>treader = r, tschema = map ((!) schema) cols, colMap = cols, zonePred = pred, rgStart = a, rgEnd = b, rgIdx = a, crList = None, bufs = None\<rparr>"
    and cols: "(if names = [] then Inr [0..<length schema] else map_res (\<lambda>name. case IndexOf schema name of None \<Rightarrow> Inl (Err ErrScanColumn) | Some i \<Rightarrow> Inr i) names) = Inr cols"
    using new by (auto simp: NewTableScanRange_def Let_def m res_map_eq_Inr)
  have c: "(\<forall>c \<in> set cols. c < length schema) \<and> map (\<lambda>c. Name (schema ! c)) cols = (if names = [] then map Name schema else names)"
    using cols map_res_IndexOf [of schema names cols] by (cases "names = []") (auto intro: nth_equalityI)
  then have ne: "cols \<noteq> []" using r(2) by (auto split: if_splits)
  show "scan_at schema T s None" using r(1) b c ne by (auto simp: s scan_at_def scan_ok_def)
  show "rgIdx s = a" "rgStart s = a" "rgEnd s = b" "zonePred s = pred" "treader s = r" "tschema s = map ((!) schema) (colMap s)" by (simp_all add: s)
  show "map (\<lambda>c. Name (schema ! c)) (colMap s) = (if names = [] then map Name schema else names)" using c by (simp add: s)
qed

lemma TableScan_drain:
  assumes "reader_ok r schema T" "schema \<noteq> []" "NewTableScanRange r names pred a b = Inr s" "b \<le> length T"
  shows "\<exists>out. drain TableScan_Next s = Some out \<and> ends_ok out \<and> (\<forall>x \<in> set (batches out). wf_rows (scan_types s) x) \<and>
    all_rows out = concat (map (\<lambda>i. if keeps s i then rg_rows (colMap s) (T ! i) else []) [a..<b])"
  using scan_drain [OF NewTableScanRange_at(1) [OF assms]] NewTableScanRange_at [OF assms] by (auto simp: scan_rest_def groups_rows_def)

lemma RowCountBound_rows:
  assumes "reader_ok r schema T" "schema \<noteq> []" "NewTableScanRange r names pred a b = Inr s" "b \<le> length T"
  shows "TableScan_RowCountBound s = (length (concat (map (\<lambda>i. if keeps s i then rg_rows (colMap s) (T ! i) else []) [a..<b])), True)"
proof -
  note n = NewTableScanRange_at [OF assms]
  have rgs: "length (RowGroups (rmeta r)) = length T" "i < length T \<Longrightarrow> NumRows (RowGroups (rmeta r) ! i) = fst (T ! i)" for i
    using assms(1) by (auto simp: reader_ok_def list_all2_conv_all_nth rg_at_meta_def)
  have "(if (case zonePred s of None \<Rightarrow> False | Some p \<Rightarrow> \<not> p (RowGroups (rmeta r) ! i)) then 0 else NumRows (RowGroups (rmeta r) ! i)) =
      length (if keeps s i then rg_rows (colMap s) (T ! i) else [])" if "i < b" for i
    using that assms(4) rgs n(6) by (auto simp: keeps_def rg_rows_def split: option.splits)
  then have "map (\<lambda>i. if (case zonePred s of None \<Rightarrow> False | Some p \<Rightarrow> \<not> p (RowGroups (rmeta r) ! i)) then 0 else NumRows (RowGroups (rmeta r) ! i)) [a..<b] =
      map (\<lambda>i. length (if keeps s i then rg_rows (colMap s) (T ! i) else [])) [a..<b]" by simp
  moreover have "min b (length T) = b" using assms(4) by simp
  ultimately show ?thesis unfolding TableScan_RowCountBound_def Let_def n(3,4,6) rgs(1) length_concat map_map comp_def by (simp only:)
qed

section \<open>Properties\<close>

text \<open>
  C2: what is written is what is read. For any sequence of calls that appends each column of each row group once, with as many values as the row
  group has rows, within the format's limits: the writer succeeds, opening the file gives back the schema, and the drained scan of all columns
  delivers the rows of the row groups in order, with every NULL and every value in place.
\<close>

theorem Table_roundtrip:
  assumes "writes schema ops T"
  shows "\<exists>bytes r s out. write_table schema ops = Inr bytes \<and> length bytes = file_size schema T \<and> Open bytes = Inr r \<and> MSchema (rmeta r) = schema \<and>
    NewTableScan r [] None = Inr s \<and> drain TableScan_Next s = Some out \<and> ends_ok out \<and> (\<forall>b \<in> set (batches out). wf_rows (map Type schema) b) \<and>
    all_rows out = concat (map (rg_rows [0..<length schema]) T)"
proof -
  obtain bytes r where w: "write_table schema ops = Inr bytes" "length bytes = file_size schema T" "Open bytes = Inr r" "reader_ok r schema T"
    using writes_reader [OF assms] by blast
  have m: "MSchema (rmeta r) = schema" "length (RowGroups (rmeta r)) = length T" using w(4) by (auto simp: reader_ok_def list_all2_lengthD)
  have ne: "schema \<noteq> []" using assms by (simp add: writes_def schema_ok_def)
  define s where "s = \<lparr>treader = r, tschema = map ((!) schema) [0..<length schema], colMap = [0..<length schema], zonePred = None, rgStart = 0, rgEnd = length T, rgIdx = 0, crList = None, bufs = None\<rparr>"
  have s: "NewTableScanRange r [] None 0 (length T) = Inr s" by (simp add: NewTableScanRange_def m s_def Let_def)
  obtain out where "drain TableScan_Next s = Some out" "ends_ok out" "\<forall>x \<in> set (batches out). wf_rows (scan_types s) x"
    "all_rows out = concat (map (\<lambda>i. if keeps s i then rg_rows (colMap s) (T ! i) else []) [0..<length T])"
    using TableScan_drain [OF w(4) ne s] by auto
  moreover have "(\<lambda>i. if keeps s i then rg_rows (colMap s) (T ! i) else []) = (\<lambda>i. rg_rows [0..<length schema] (T ! i))" by (simp add: s_def keeps_def fun_eq_iff)
  moreover have "map (\<lambda>i. rg_rows [0..<length schema] (T ! i)) [0..<length T] = map (rg_rows [0..<length schema]) T" by (rule nth_equalityI) simp_all
  moreover have "scan_types s = map Type schema" by (simp add: scan_types_def s_def map_nth)
  moreover have "NewTableScan r [] None = Inr s" using s by (simp add: NewTableScan_def m)
  ultimately show ?thesis using w m by auto
qed

definition ex_schema :: Schema where
  "ex_schema = [\<lparr>Name = ''k'', Type = TypeInt64, FEncoding = EncPlain, Nullable = True\<rparr>]"

definition ex_ops :: "write_op list" where
  "ex_ops = [BeginOp 3, ColumnOp 0 (Some [5]) (Int64s [7, 8, 9]), EndOp]"

definition ex_table :: table where
  "ex_table = [(3, [([5], Int64s [7, 8, 9])])]"

lemma ex_writes: "writes ex_schema ex_ops ex_table"
proof -
  have "length (concat (section_blocks (fixed_block AppendInt64) [5] [7, 8, 9])) = 156"
    using length_fixed_section [of "fixed_block AppendInt64" 8 "[5]" "[7, 8, 9]"]
    by (simp add: fixed_block_eq AppendChecksum_def Let_def length_concat_le_bytes NullBitmapBytes_def BlockRows_def num_blocks_def)
  then have "file_size ex_schema ex_table < 2 ^ 63"
    by (simp add: file_size_def data_size_def column_size_def section_of_def ex_table_def footer_size_def ex_schema_def FooterTrailerSize_def colMetaSize_def)
  moreover have "table_run ex_schema ex_ops ([], None) = Some (ex_table, None)"
    by (simp add: ex_schema_def ex_ops_def ex_table_def column_ok_def)
  ultimately show ?thesis by (simp add: writes_def schema_ok_def field_bounded_def ex_schema_def ex_table_def)
qed

lemma ex_valid: "valid_at [5] 0" "\<not> valid_at [5] 1" "valid_at [5] 2"
  by code_simp+

theorem Table_roundtrip_witness:
  "\<exists>bytes r s out. write_table ex_schema ex_ops = Inr bytes \<and> Open bytes = Inr r \<and> NewTableScan r [] None = Inr s \<and> drain TableScan_Next s = Some out \<and>
    all_rows out = [[Some (VInt 7)], [None], [Some (VInt 9)]]"
proof -
  have "concat (map (rg_rows [0..<length ex_schema]) ex_table) = [[Some (VInt 7)], [None], [Some (VInt 9)]]"
    using ex_valid by (simp add: ex_schema_def ex_table_def rg_rows_def numeral_3_eq_3 numeral_2_eq_2)
  then show ?thesis using Table_roundtrip [OF ex_writes] by auto
qed

text \<open>
  C12: a scan of a written table over the row groups \<open>a\<close> to \<open>b\<close>, for any list of columns and any zone predicate, delivers exactly the rows of the row groups
  that the predicate keeps, in order, restricted to those columns (all of them when none are named), each batch well formed; and the row-count
  bound it reports beforehand is the number of these rows.
\<close>

theorem TableScan_delivers:
  assumes "writes schema ops T" "write_table schema ops = Inr bytes" "Open bytes = Inr r" "NewTableScanRange r names pred a b = Inr s" "b \<le> length T"
  shows "map (\<lambda>c. Name (schema ! c)) (colMap s) = (if names = [] then map Name schema else names) \<and>
    (\<exists>out. drain TableScan_Next s = Some out \<and> ends_ok out \<and> (\<forall>x \<in> set (batches out). wf_rows (map (\<lambda>c. Type (schema ! c)) (colMap s)) x) \<and>
      all_rows out = concat (map (\<lambda>i. if (case pred of None \<Rightarrow> True | Some p \<Rightarrow> p (RowGroups (rmeta r) ! i)) then rg_rows (colMap s) (T ! i) else []) [a..<b]) \<and>
      TableScan_RowCountBound s = (length (all_rows out), True))"
proof -
  have r: "reader_ok r schema T" using writes_reader [OF assms(1)] assms(2,3) by force
  have ne: "schema \<noteq> []" using assms(1) by (simp add: writes_def schema_ok_def)
  note n = NewTableScanRange_at [OF r ne assms(4,5)]
  have k: "keeps s i = (case pred of None \<Rightarrow> True | Some p \<Rightarrow> p (RowGroups (rmeta r) ! i))" for i unfolding keeps_def n(5,6) ..
  have t: "scan_types s = map (\<lambda>c. Type (schema ! c)) (colMap s)" by (simp add: scan_types_def n(8))
  show ?thesis using TableScan_drain [OF r ne assms(4,5)] RowCountBound_rows [OF r ne assms(4,5)] n(7) unfolding k t by auto
qed

theorem TableScan_delivers_witness:
  "\<exists>bytes r s out. write_table ex_schema ex_ops = Inr bytes \<and> Open bytes = Inr r \<and> NewTableScanRange r [''k''] (Some (\<lambda>rg. True)) 0 1 = Inr s \<and>
    drain TableScan_Next s = Some out \<and> length (all_rows out) = 3 \<and> TableScan_RowCountBound s = (3, True)"
proof -
  obtain bytes r where w: "write_table ex_schema ex_ops = Inr bytes" "Open bytes = Inr r" "reader_ok r ex_schema ex_table"
    using writes_reader [OF ex_writes] by blast
  obtain s where s: "NewTableScanRange r [''k''] (Some (\<lambda>rg. True)) 0 1 = Inr s"
    using w(3) by (simp add: NewTableScanRange_def reader_ok_def ex_schema_def Let_def)
  show ?thesis using TableScan_delivers [OF ex_writes w(1,2) s] w s by (auto simp: ex_table_def rg_rows_def)
qed

text \<open>
  C13: the zone maps of a written table are right. The verifier accepts every one of them; the null count is the number of
  NULLs of the column in its row group, and the rest says of the column's values what its type allows. An INT64, DATE or
  FLOAT64 column has bounds exactly when it has a value, the bounds are values of the column, and every integer and
  date lies between them; every float does when none is NaN, and in any case no float is below the minimum or above the
  maximum. The bounds of a STRING column are dictionary codes: zero and the number of its distinct strings less one. A BOOL
  column has no bounds. The sum of an INT64 column is the sum of its values modulo \<open>2 ^ 64\<close>.
\<close>

theorem zone_maps_correct:
  assumes "writes schema ops T" "write_table schema ops = Inr bytes" "Open bytes = Inr r" "g < length T" "i < length schema"
  shows "VerifyColumnStats r g i = Inr () \<and>
    NullCount (Stats (Columns (RowGroups (rmeta r) ! g) ! i)) = word_of_nat (null_count (fst (T ! g)) (snd (T ! g) ! i)) \<and>
    zone_of (Type (schema ! i)) (col_vals (fst (T ! g)) (snd (T ! g) ! i)) (Stats (Columns (RowGroups (rmeta r) ! g) ! i))"
proof -
  have r: "reader_ok r schema T" using writes_reader [OF assms(1)] assms(2,3) by force
  then have "col_at_meta (rfile r) (fst (T ! g)) (Type (schema ! i)) (snd (T ! g) ! i) (Columns (RowGroups (rmeta r) ! g) ! i)"
    using assms(4,5) by (auto simp: reader_ok_def list_all2_conv_all_nth rg_at_meta_def)
  then have c: "column_ok (fst (T ! g)) (Type (schema ! i)) (snd (T ! g) ! i)"
    "Stats (Columns (RowGroups (rmeta r) ! g) ! i) = col_stats (fst (snd (T ! g) ! i)) (snd (snd (T ! g) ! i))"
    by (auto simp: col_at_meta_def)
  show ?thesis
    using ComputeColumnStats_ok [OF r assms(4,5)] stats_NullCount [OF c(1)] stats_zone [OF c(1)] by (simp add: VerifyColumnStats_def c(2))
qed

theorem zone_maps_correct_witness:
  "\<exists>bytes r. write_table ex_schema ex_ops = Inr bytes \<and> Open bytes = Inr r \<and> VerifyColumnStats r 0 0 = Inr () \<and>
    (let z = Stats (Columns (RowGroups (rmeta r) ! 0) ! 0) in HasMinMax z \<and> sint (ZMin z) \<le> 9 \<and> 9 \<le> sint (ZMax z))"
proof -
  obtain bytes r where w: "write_table ex_schema ex_ops = Inr bytes" "Open bytes = Inr r" using writes_reader [OF ex_writes] by blast
  have "col_cell (snd (ex_table ! 0) ! 0) 2 = Some (VInt 9)" "2 < fst (ex_table ! 0)" using ex_valid by (simp_all add: ex_table_def)
  then have v: "VInt 9 \<in> set (col_vals (fst (ex_table ! 0)) (snd (ex_table ! 0) ! 0))" by (auto simp: col_vals_mem simp del: col_cell.simps)
  have h: "0 < length ex_table" "0 < length ex_schema" by (simp_all add: ex_table_def ex_schema_def)
  have t: "Type (ex_schema ! 0) = TypeInt64" by (simp add: ex_schema_def)
  note z = zone_maps_correct [OF ex_writes w h, unfolded t zone_of.simps]
  have "sint (9 :: i64) = 9" by simp
  then show ?thesis using z v w by (auto simp: Let_def)
qed

end
