(* ===== verification/Compile.thy ===== *)
theory Compile
  imports Parser Operator ScanSem
begin

text \<open>
  From SQL expressions to executor expressions and zone predicates (\<^verbatim>\<open>planner/physical.go\<close>): name resolution, literal coercion, the casts
  of mixed INT64/FLOAT64 comparisons, IN lists, CASE typing, and the predicate that decides from a row group's zone maps whether to read it.
  Planning errors are \<open>Inl (Err e)\<close>, without their texts. Literals hold a value of their type, as \<open>buildExecExpr\<close> makes them, so that the type
  assertions on them never fail.
\<close>

datatype plan_error =
    PErrColumn | PErrUnsupported | PErrUnaryMinus | PErrCompare | PErrBetween | PErrInEntry | PErrInDate | PErrInLiteral | PErrLike | PErrLikePattern
  | PErrCaseCond | PErrCaseType | PErrOperator | PErrSubquery | PErrRewrite | PErrNoFrom | PErrTable | PErrTableTwice | PErrUnknownColumn | PErrAmbiguousColumn
  | PErrAggregate | PErrCrossJoin | PErrHaving | PErrOrderPosition | PErrOrderAmbiguous | PErrOrderDistinct | PErrGroupBy | PErrNotGrouped | PErrAggDistinct | PErrAggStar
  | PErrAggNested | PErrAggColumn | PErrAggFunc | PErrAggNumeric | PErrOrderBy | PErrJoinCondition | PErrJoinKey
  | PErrNoFile | PErrOpen storage_error | PErrExec exec_error

type_synonym 'a pres = "(plan_error, 'a) res"


section \<open>Dates\<close>

text \<open>
  \<^verbatim>\<open>time.ParseInLocation("2006-01-02", s, time.UTC)\<close>: four digits, a dash, two digits, a dash, two digits and nothing else, with a
  month of the year and a day of that month. Years run from 0 to 9999 in the proleptic Gregorian calendar.
\<close>

definition leap_year :: "nat \<Rightarrow> bool" where
  "leap_year y \<longleftrightarrow> y mod 4 = 0 \<and> (y mod 100 \<noteq> 0 \<or> y mod 400 = 0)"

definition month_days :: "nat \<Rightarrow> nat list" where
  "month_days y = [31, if leap_year y then 29 else 28, 31, 30, 31, 30, 31, 31, 30, 31, 30, 31]"

definition days_before_year :: "nat \<Rightarrow> int" where
  "days_before_year y = (let p = int y - 1 in 365 * p + p div 4 - p div 100 + p div 400)"

definition civil_days :: "nat \<Rightarrow> nat \<Rightarrow> nat \<Rightarrow> int" where
  "civil_days y m d = days_before_year y - days_before_year 1970 + int (sum_list (take (m - 1) (month_days y))) + int d - 1"

definition parse_civil :: "string \<Rightarrow> (nat \<times> nat \<times> nat) option" where
  "parse_civil s = (if length s = 10 \<and> list_all is_digit (take 4 s) \<and> s ! 4 = CHR ''-'' \<and> list_all is_digit (take 2 (drop 5 s)) \<and> s ! 7 = CHR ''-'' \<and> list_all is_digit (drop 8 s)
     then (let y = dec_val (take 4 s); m = dec_val (take 2 (drop 5 s)); d = dec_val (drop 8 s) in
       if 1 \<le> m \<and> m \<le> 12 \<and> 1 \<le> d \<and> d \<le> month_days y ! (m - 1) then Some (y, m, d) else None)
     else None)"

definition exactDateDays :: "i64 \<Rightarrow> i32 option" where
  "exactDateDays v = (let days = (ucast v :: i32) in if sint days = sint v then Some days else None)"

definition parseDateDays :: "string \<Rightarrow> i32 option" where
  "parseDateDays s = (case parse_civil s of None \<Rightarrow> None | Some (y, m, d) \<Rightarrow> exactDateDays (word_of_int (civil_days y m d)))"


section \<open>Coercion\<close>

text \<open>\<^verbatim>\<open>exactInt64\<close>: a finite integral float in the range of \<^verbatim>\<open>int64\<close>, as that integer.\<close>

definition exactInt64 :: "f64 \<Rightarrow> i64 option" where
  "exactInt64 f = (if is_nan f \<or> is_inf f \<or> f_val f mod 2 ^ 1074 \<noteq> 0 \<or> f_val f div 2 ^ 1074 < - (2 ^ 63) \<or> 2 ^ 63 \<le> f_val f div 2 ^ 1074 then None
     else Some (word_of_int (f_val f div 2 ^ 1074)))"

definition coerceOneSide :: "expr \<Rightarrow> expr \<Rightarrow> expr" where
  "coerceOneSide a b = (case b of LiteralExpr v t \<Rightarrow>
     (case (ExprType a, v) of
        (TypeDate, VString s) \<Rightarrow> (case parseDateDays s of Some days \<Rightarrow> LiteralExpr (VDate days) TypeDate | None \<Rightarrow> b)
      | (TypeDate, VInt n) \<Rightarrow> (case exactDateDays n of Some days \<Rightarrow> LiteralExpr (VDate days) TypeDate | None \<Rightarrow> b)
      | (TypeFloat64, VInt n) \<Rightarrow> LiteralExpr (VFloat (f_of_int64 n)) TypeFloat64
      | (TypeInt64, VFloat f) \<Rightarrow> (case exactInt64 f of Some n \<Rightarrow> LiteralExpr (VInt n) TypeInt64 | None \<Rightarrow> b)
      | _ \<Rightarrow> b)
   | _ \<Rightarrow> b)"

definition coercePair :: "expr \<Rightarrow> expr \<Rightarrow> expr \<times> expr" where
  "coercePair l r = (let r = coerceOneSide l r; l = coerceOneSide r l in (l, r))"

definition castToFloat :: "expr \<Rightarrow> expr" where
  "castToFloat e = (if ExprType e \<noteq> TypeInt64 then e else case e of
     LiteralExpr (VInt n) t \<Rightarrow> LiteralExpr (VFloat (f_of_int64 n)) TypeFloat64
   | _ \<Rightarrow> CastIntToFloatExpr e)"

definition comparableOperands :: "expr \<Rightarrow> expr \<Rightarrow> (expr \<times> expr) pres" where
  "comparableOperands l r = (let lt = ExprType l; rt = ExprType r in
     if lt \<noteq> rt \<and> (lt = TypeInt64 \<or> lt = TypeFloat64) \<and> (rt = TypeInt64 \<or> rt = TypeFloat64) then Inr (castToFloat l, castToFloat r)
     else if lt \<noteq> rt then Inl (Err PErrCompare)
     else if lt = TypeInt64 \<or> lt = TypeFloat64 \<or> lt = TypeDate then Inr (l, r) else Inl (Err PErrCompare))"

fun foldConstant :: "sql_expr \<Rightarrow> sql_expr" where
  "foldConstant (UnaryExpr OpMinus e) = (case foldConstant e of
     IntLiteral v \<Rightarrow> if v \<noteq> push_bit 63 1 then IntLiteral (- v) else UnaryExpr OpMinus e
   | FloatLiteral f \<Rightarrow> FloatLiteral (f_negate f)
   | _ \<Rightarrow> UnaryExpr OpMinus e)"
| "foldConstant e = e"

text \<open>One entry of an IN list: a value, NULL (\<open>(None, True)\<close>), or a constant that no value of the type equals (\<open>(None, False)\<close>).\<close>

definition inListValue :: "sql_expr \<Rightarrow> DataType \<Rightarrow> (val option \<times> bool) pres" where
  "inListValue item t = (case foldConstant item of
     NullLiteral \<Rightarrow> Inr (None, True)
   | IntLiteral v \<Rightarrow> (case t of TypeInt64 \<Rightarrow> Inr (Some (VInt v), False) | TypeFloat64 \<Rightarrow> Inr (Some (VFloat (f_of_int64 v)), False)
       | TypeDate \<Rightarrow> (case exactDateDays v of None \<Rightarrow> Inl (Err PErrInDate) | Some days \<Rightarrow> Inr (Some (VDate days), False)) | _ \<Rightarrow> Inl (Err PErrInEntry))
   | FloatLiteral f \<Rightarrow> (case t of TypeFloat64 \<Rightarrow> Inr (Some (VFloat f), False) | TypeInt64 \<Rightarrow> Inr (map_option VInt (exactInt64 f), False) | _ \<Rightarrow> Inl (Err PErrInEntry))
   | StringLiteral s \<Rightarrow> (case t of TypeString \<Rightarrow> Inr (Some (VString s), False)
       | TypeDate \<Rightarrow> (case parseDateDays s of None \<Rightarrow> Inl (Err PErrInDate) | Some days \<Rightarrow> Inr (Some (VDate days), False)) | _ \<Rightarrow> Inl (Err PErrInEntry))
   | BoolLiteral b \<Rightarrow> (if t = TypeBool then Inr (Some (VBool b), False) else Inl (Err PErrInEntry))
   | _ \<Rightarrow> Inl (Err PErrInLiteral))"


section \<open>Expressions\<close>

fun sqlOpToExecOp :: "SqlOp \<Rightarrow> (BinOpKind \<times> bool) pres" where
  "sqlOpToExecOp OpEQ = Inr (BinEQ, False)" | "sqlOpToExecOp OpNE = Inr (BinNE, False)"
| "sqlOpToExecOp OpLT = Inr (BinLT, False)" | "sqlOpToExecOp OpLE = Inr (BinLE, False)"
| "sqlOpToExecOp OpGT = Inr (BinGT, False)" | "sqlOpToExecOp OpGE = Inr (BinGE, False)"
| "sqlOpToExecOp OpAdd = Inr (BinAdd, True)" | "sqlOpToExecOp OpSub = Inr (BinSub, True)"
| "sqlOpToExecOp OpMul = Inr (BinMul, True)" | "sqlOpToExecOp OpDiv = Inr (BinDiv, True)"
| "sqlOpToExecOp op = Inl (Err PErrOperator)"

text \<open>\<^verbatim>\<open>float64(-1)\<close>.\<close>

definition f_minus_one :: f64 where
  "f_minus_one = 0xBFF0000000000000"

definition resolve_column :: "Schema \<Rightarrow> string \<Rightarrow> string \<Rightarrow> nat option" where
  "resolve_column schema table name = (if table \<noteq> [] then (case IndexOf schema (table @ ''.'' @ name) of Some i \<Rightarrow> Some i | None \<Rightarrow> IndexOf schema name)
     else IndexOf schema name)"

text \<open>The equality of a STRING column and a literal, in either order.\<close>

definition string_equality :: "SqlOp \<Rightarrow> expr \<Rightarrow> expr \<Rightarrow> expr option" where
  "string_equality op l r = (if (op = OpEQ \<or> op = OpNE) \<and> ExprType l = TypeString \<and> ExprType r = TypeString then
     (case (l, r) of
        (ColumnRef _ i _, LiteralExpr (VString s) _) \<Rightarrow> Some (StringEqExpr (nat i) s (op = OpNE))
      | (LiteralExpr (VString s) _, ColumnRef _ i _) \<Rightarrow> Some (StringEqExpr (nat i) s (op = OpNE))
      | _ \<Rightarrow> None)
     else None)"

text \<open>\<^verbatim>\<open>buildBinExpr\<close>, after both operands are translated.\<close>

definition buildBinExpr :: "SqlOp \<Rightarrow> expr \<Rightarrow> expr \<Rightarrow> expr pres" where
  "buildBinExpr op l r = (if op = OpAnd then Inr (AndExpr [l, r]) else if op = OpOr then Inr (OrExpr [l, r]) else
     (let (l, r) = coercePair l r in case string_equality op l r of Some e \<Rightarrow> Inr e
      | None \<Rightarrow> res_bind (sqlOpToExecOp op) (\<lambda>(k, arith). if \<not> arith then res_map (\<lambda>(l, r). BinOp k l r TypeBool) (comparableOperands l r)
          else if ExprType l = TypeFloat64 \<or> ExprType r = TypeFloat64 then Inr (BinOp k (if ExprType l = TypeInt64 then CastIntToFloatExpr l else l) (if ExprType r = TypeInt64 then CastIntToFloatExpr r else r) TypeFloat64)
          else Inr (BinOp k l r (ExprType l)))))"

definition buildUnary :: "UnaryOp \<Rightarrow> expr \<Rightarrow> expr pres" where
  "buildUnary op child = (case op of OpNot \<Rightarrow> Inr (NotExpr child)
   | OpMinus \<Rightarrow> (case ExprType child of
       TypeFloat64 \<Rightarrow> Inr (BinOp BinMul child (LiteralExpr (VFloat f_minus_one) TypeFloat64) TypeFloat64)
     | TypeInt64 \<Rightarrow> Inr (BinOp BinMul child (LiteralExpr (VInt (- 1)) TypeInt64) TypeInt64)
     | _ \<Rightarrow> Inl (Err PErrUnaryMinus)))"

definition buildBetween :: "expr \<Rightarrow> expr \<Rightarrow> expr \<Rightarrow> bool \<Rightarrow> expr pres" where
  "buildBetween child lo hi negated = (let lo = coerceOneSide child lo; hi = coerceOneSide child hi;
     float = (ExprType child = TypeFloat64 \<or> ExprType lo = TypeFloat64 \<or> ExprType hi = TypeFloat64);
     cast = (\<lambda>e. if float then castToFloat e else e); child = cast child; lo = cast lo; hi = cast hi in
     case comparableOperands child lo of Inl _ \<Rightarrow> Inl (Err PErrBetween) | Inr _ \<Rightarrow> (case comparableOperands child hi of Inl _ \<Rightarrow> Inl (Err PErrBetween)
     | Inr _ \<Rightarrow> Inr (if negated then NotExpr (BetweenExpr child lo hi) else BetweenExpr child lo hi)))"

definition buildIn :: "expr \<Rightarrow> sql_expr list \<Rightarrow> bool \<Rightarrow> expr pres" where
  "buildIn child items negated = res_map (\<lambda>(vs, hasNull). let e = InExpr child vs hasNull in if negated then NotExpr e else e)
     (fold_res (\<lambda>(vs, hasNull) item. res_map (\<lambda>(v, isNull). if isNull then (vs, True) else case v of Some v \<Rightarrow> (vs @ [v], hasNull) | None \<Rightarrow> (vs, hasNull))
       (inListValue item (ExprType child))) ([], False) items)"

definition buildCase :: "(expr \<times> expr) list \<Rightarrow> expr option \<Rightarrow> expr pres" where
  "buildCase whens els = (let t = (case whens of [] \<Rightarrow> TypeFloat64 | w # _ \<Rightarrow> ExprType (snd w)) in
     if \<not> (\<forall>w \<in> set whens. ExprType (snd w) = t) then Inl (Err PErrCaseType)
     else if (case els of None \<Rightarrow> False | Some e \<Rightarrow> ExprType e \<noteq> t) then Inl (Err PErrCaseType)
     else Inr (CaseExpr whens els t))"

fun buildExecExpr :: "sql_expr \<Rightarrow> Schema \<Rightarrow> expr pres" where
  "buildExecExpr (ColumnRefExpr table name) schema = (case resolve_column schema table name of None \<Rightarrow> Inl (Err PErrColumn)
     | Some i \<Rightarrow> Inr (ColumnRef name (int i) (Type (schema ! i))))"
| "buildExecExpr (IntLiteral v) schema = Inr (LiteralExpr (VInt v) TypeInt64)"
| "buildExecExpr (FloatLiteral f) schema = Inr (LiteralExpr (VFloat f) TypeFloat64)"
| "buildExecExpr (StringLiteral s) schema = Inr (LiteralExpr (VString s) TypeString)"
| "buildExecExpr (BoolLiteral b) schema = Inr (LiteralExpr (VBool b) TypeBool)"
| "buildExecExpr (BinaryExpr op l r) schema = res_bind (buildExecExpr l schema) (\<lambda>l. res_bind (buildExecExpr r schema) (\<lambda>r. buildBinExpr op l r))"
| "buildExecExpr (UnaryExpr op e) schema = res_bind (buildExecExpr e schema) (buildUnary op)"
| "buildExecExpr (IsNullE e isNot) schema = res_map (\<lambda>child. if isNot then IsNotNullExpr child else IsNullExpr child) (buildExecExpr e schema)"
| "buildExecExpr (BetweenE e lo hi negated) schema = res_bind (buildExecExpr e schema) (\<lambda>child. res_bind (buildExecExpr lo schema) (\<lambda>lo. res_bind (buildExecExpr hi schema) (\<lambda>hi.
     buildBetween child lo hi negated)))"
| "buildExecExpr (InE e items negated) schema = res_bind (buildExecExpr e schema) (\<lambda>child. buildIn child items negated)"
| "buildExecExpr (LikeE e pattern negated) schema = res_bind (buildExecExpr e schema) (\<lambda>child. if ExprType child \<noteq> TypeString then Inl (Err PErrLike)
     else case pattern of StringLiteral p \<Rightarrow> Inr (if negated then NotExpr (LikeExpr child p) else LikeExpr child p) | _ \<Rightarrow> Inl (Err PErrLikePattern))"
| "buildExecExpr (CaseE ws els) schema = res_bind (map_res (\<lambda>w. res_bind (buildExecExpr (fst w) schema) (\<lambda>cond.
       if ExprType cond \<noteq> TypeBool then Inl (Err PErrCaseCond) else res_map (\<lambda>result. (cond, result)) (buildExecExpr (snd w) schema))) ws) (\<lambda>whens.
     res_bind (case els of None \<Rightarrow> Inr None | Some e \<Rightarrow> res_map Some (buildExecExpr e schema)) (buildCase whens))"
| "buildExecExpr e schema = Inl (Err PErrUnsupported)"


section \<open>Zone predicates\<close>

definition cmpOrdered :: "int \<Rightarrow> int \<Rightarrow> int" where
  "cmpOrdered a b = (if a < b then -1 else if b < a then 1 else 0)"

definition cmpOrderedF :: "f64 \<Rightarrow> f64 \<Rightarrow> int" where
  "cmpOrderedF a b = (if f_lt a b then -1 else if f_lt b a then 1 else 0)"

definition exactFloat :: "i64 \<Rightarrow> bool" where
  "exactFloat v \<longleftrightarrow> - (2 ^ 53) \<le> sint v \<and> sint v \<le> 2 ^ 53"

definition zoneLiteral :: "sql_expr \<Rightarrow> val option" where
  "zoneLiteral e = (case foldConstant e of IntLiteral v \<Rightarrow> Some (VInt v) | FloatLiteral f \<Rightarrow> Some (VFloat f) | _ \<Rightarrow> None)"

definition zoneDateLiteral :: "sql_expr \<Rightarrow> int option" where
  "zoneDateLiteral e = (case foldConstant e of IntLiteral v \<Rightarrow> map_option sint (exactDateDays v) | StringLiteral s \<Rightarrow> map_option sint (parseDateDays s) | _ \<Rightarrow> None)"

text \<open>How the minimum and the maximum compare with the literal; \<open>None\<close> when the zone map decides nothing.\<close>

definition zone_cmps :: "DataType \<Rightarrow> ZoneMap \<Rightarrow> sql_expr \<Rightarrow> (int \<times> int) option" where
  "zone_cmps t zm lit = (case t of
     TypeInt64 \<Rightarrow> (case zoneLiteral lit of
         Some (VInt lv) \<Rightarrow> Some (cmpOrdered (sint (ZMin zm)) (sint lv), cmpOrdered (sint (ZMax zm)) (sint lv))
       | Some (VFloat lv) \<Rightarrow> if is_nan lv \<or> \<not> exactFloat (ZMin zm) \<or> \<not> exactFloat (ZMax zm) then None
           else Some (cmpOrderedF (f_of_int64 (ZMin zm)) lv, cmpOrderedF (f_of_int64 (ZMax zm)) lv)
       | _ \<Rightarrow> None)
   | TypeFloat64 \<Rightarrow> (case (case zoneLiteral lit of Some (VInt v) \<Rightarrow> Some (f_of_int64 v) | Some (VFloat f) \<Rightarrow> Some f | _ \<Rightarrow> None) of
         None \<Rightarrow> None
       | Some lv \<Rightarrow> if is_nan lv \<or> is_nan (ZMin zm) \<or> is_nan (ZMax zm) then None else Some (cmpOrderedF (ZMin zm) lv, cmpOrderedF (ZMax zm) lv))
   | TypeDate \<Rightarrow> (case zoneDateLiteral lit of None \<Rightarrow> None
       | Some days \<Rightarrow> Some (cmpOrdered (sint (ucast (ZMin zm) :: i32)) days, cmpOrdered (sint (ucast (ZMax zm) :: i32)) days))
   | _ \<Rightarrow> None)"

fun flip_op :: "SqlOp \<Rightarrow> SqlOp" where
  "flip_op OpLT = OpGT" | "flip_op OpLE = OpGE" | "flip_op OpGT = OpLT" | "flip_op OpGE = OpLE" | "flip_op op = op"

definition zone_verdict :: "SqlOp \<Rightarrow> int \<times> int \<Rightarrow> bool" where
  "zone_verdict op = (\<lambda>(minCmp, maxCmp). case op of OpEQ \<Rightarrow> minCmp \<le> 0 \<and> 0 \<le> maxCmp | OpLT \<Rightarrow> minCmp < 0 | OpLE \<Rightarrow> minCmp \<le> 0
   | OpGT \<Rightarrow> 0 < maxCmp | OpGE \<Rightarrow> 0 \<le> maxCmp | _ \<Rightarrow> True)"

definition zoneRangePred :: "SqlOp \<Rightarrow> sql_expr \<Rightarrow> sql_expr \<Rightarrow> Schema \<Rightarrow> RowGroupMeta \<Rightarrow> bool" where
  "zoneRangePred op l r schema rg = (case (case (l, r) of (ColumnRefExpr _ name, lit) \<Rightarrow> Some (op, name, lit) | (lit, ColumnRefExpr _ name) \<Rightarrow> Some (flip_op op, name, lit) | _ \<Rightarrow> None) of
     None \<Rightarrow> True
   | Some (op, name, lit) \<Rightarrow> (case IndexOf schema name of None \<Rightarrow> True
     | Some c \<Rightarrow> if length (Writer.Columns rg) \<le> c then True else (let zm = Stats (Writer.Columns rg ! c) in
         if \<not> HasMinMax zm \<or> op = OpNE then True
         else case zone_cmps (Type (schema ! c)) zm lit of None \<Rightarrow> True | Some cmps \<Rightarrow> zone_verdict op cmps)))"

fun zonePredEval :: "sql_expr \<Rightarrow> Schema \<Rightarrow> RowGroupMeta \<Rightarrow> bool" where
  "zonePredEval (BinaryExpr op l r) schema rg = (case op of
     OpAnd \<Rightarrow> zonePredEval l schema rg \<and> zonePredEval r schema rg
   | OpOr \<Rightarrow> zonePredEval l schema rg \<or> zonePredEval r schema rg
   | OpAdd \<Rightarrow> True | OpSub \<Rightarrow> True | OpMul \<Rightarrow> True | OpDiv \<Rightarrow> True
   | _ \<Rightarrow> zoneRangePred op l r schema rg)"
| "zonePredEval (BetweenE e lo hi negated) schema rg = (negated \<or> (zoneRangePred OpGE e lo schema rg \<and> zoneRangePred OpLE e hi schema rg))"
| "zonePredEval e schema rg = True"

definition buildZonePredicate :: "sql_expr \<Rightarrow> Schema \<Rightarrow> ZonePredicate" where
  "buildZonePredicate e schema = (\<lambda>rg. zonePredEval e schema rg)"

end
