(* ===== verification/FloatOrder.thy ===== *)
theory FloatOrder
  imports Float64
begin

text \<open>
  The order of float patterns is the order of their values, integers up to \<open>2 ^ 53\<close> convert exactly, and multiplying by minus one negates:
  what the planner's coercion of literals and the zone predicates rely on.
\<close>

lemma f_mag_split: "b < 2 ^ 52 \<Longrightarrow> f_mag (a * 2 ^ 52 + b) = (if a = 0 then b else (b + 2 ^ 52) * 2 ^ (a - 1))"
  by (simp add: f_mag_def Let_def)

lemma f_mag_Suc: "f_mag n < f_mag (Suc n)"
proof -
  define e m where "e = n div 2 ^ 52" and "m = n mod 2 ^ 52"
  have n: "n = e * 2 ^ 52 + m" and m: "m < 2 ^ 52" by (simp_all add: e_def m_def)
  note mag = f_mag_split
  show ?thesis
  proof (cases "Suc m < 2 ^ 52")
    case True
    then show ?thesis using mag [OF m, of e] mag [OF True, of e] n by (simp del: mult_Suc_right)
  next
    case False
    then have "Suc n = Suc e * 2 ^ 52 + 0" using n m by simp
    then have s: "f_mag (Suc n) = 2 ^ 52 * 2 ^ e" using mag [of 0 "Suc e"] by simp
    show ?thesis
    proof (cases e)
      case 0
      then show ?thesis using mag [OF m, of e] n m s by simp
    next
      case (Suc k)
      have "(m + 2 ^ 52) * 2 ^ k < (2 ^ 53) * (2 :: nat) ^ k" using m by (intro mult_strict_right_mono) simp_all
      then show ?thesis using mag [OF m, of e] n s Suc by simp
    qed
  qed
qed

lemma f_mag_less: "f_mag a < f_mag b \<longleftrightarrow> a < b"
  using lift_Suc_mono_less_iff [of f_mag a b] f_mag_Suc by blast

lemma f_mag_0 [simp]: "f_mag 0 = 0"
  by (simp add: f_mag_def)

lemma f_key_val: "f_key a < f_key b \<longleftrightarrow> f_val a < f_val b"
proof -
  have 0: "f_mag n = 0 \<longleftrightarrow> n = 0" "0 < f_mag n \<longleftrightarrow> 0 < n" for n using f_mag_less [of 0 n] by auto
  show ?thesis using f_mag_less [of "f_abs_bits a" "f_abs_bits b"] f_mag_less [of "f_abs_bits b" "f_abs_bits a"] 0 [of "f_abs_bits a"] 0 [of "f_abs_bits b"]
    by (auto simp: f_key_def f_val_def)
qed

text \<open>An integer of at most 53 bits is a significand.\<close>

lemma small_int_is_mag:
  assumes "n \<le> 2 ^ 53"
  shows "\<exists>k < f_inf_bits. f_mag k = n * 2 ^ 1074"
proof -
  have mag: "f_mag (Suc k * 2 ^ 52 + (s - 2 ^ 52)) = s * 2 ^ k" if "2 ^ 52 \<le> s" "s < 2 ^ 53" for k s
    using that f_mag_split [of "s - 2 ^ 52" "Suc k"] by (simp del: mult_Suc)
  have *: "\<exists>k < f_inf_bits. f_mag k = s * 2 ^ j" if "2 ^ 52 \<le> s" "s < 2 ^ 53" "j < 1100" for s j
  proof -
    have "Suc j * 2 ^ 52 + (s - 2 ^ 52) < f_inf_bits" using that by (simp add: f_inf_bits_def)
    then show ?thesis using mag [OF that(1,2), of j] by blast
  qed
  show ?thesis
  proof (cases "n = 0 \<or> n = 2 ^ 53")
    case True
    then show ?thesis
    proof
      assume "n = 0"
      then show ?thesis by (intro exI [of _ 0]) (simp add: f_inf_bits_def)
    next
      assume n: "n = 2 ^ 53"
      have "n * 2 ^ 1074 = 2 ^ 52 * 2 ^ 1075" unfolding n power_add [symmetric] by (rule arg_cong [where f = "power 2"]) simp
      then show ?thesis using * [of "2 ^ 52" 1075] by simp
    qed
  next
    case False
    then have n: "0 < n" "n < 2 ^ 53" using assms by auto
    note b = bitlen_bounds [OF n(1)]
    have "2 ^ (bitlen n - 1) < (2 :: nat) ^ 53" using b n(2) by linarith
    then have "bitlen n - 1 < 53" by (rule power_less_imp_less_exp [rotated]) simp
    then have l: "bitlen n \<le> 53" by simp
    let ?s = "n * 2 ^ (53 - bitlen n)"
    have p: "2 ^ (bitlen n - 1) * 2 ^ (53 - bitlen n) = (2 :: nat) ^ 52" "2 ^ bitlen n * 2 ^ (53 - bitlen n) = (2 :: nat) ^ 53"
      "2 ^ (53 - bitlen n) * 2 ^ (1021 + bitlen n) = (2 :: nat) ^ 1074"
      using b l unfolding power_add [symmetric] by (auto intro!: arg_cong [where f = "power 2"] simp del: power_numeral)
    have "2 ^ (bitlen n - 1) * 2 ^ (53 - bitlen n) \<le> ?s" "?s < 2 ^ bitlen n * 2 ^ (53 - bitlen n)"
      using b by (auto intro: mult_right_mono mult_strict_right_mono)
    then have s: "2 ^ 52 \<le> ?s" "?s < 2 ^ 53" unfolding p(1,2) .
    have "1021 + bitlen n < 1100" using l by simp
    from * [OF s this] show ?thesis unfolding mult.assoc p(3) .
  qed
qed

lemma f_make_val: "k < f_inf_bits \<Longrightarrow> f_val (f_make neg k) = (if neg then - int (f_mag k) else int (f_mag k)) \<and> \<not> is_nan (f_make neg k)"
  using f_make_bits [of k True] f_make_bits [of k False] by (cases neg) (simp_all add: f_val_def is_nan_def f_inf_bits_def)

lemma f_of_int64_exact:
  assumes "- (2 ^ 53) \<le> sint v" "sint v \<le> 2 ^ 53"
  shows "f_val (f_of_int64 v) = sint v * 2 ^ 1074" "\<not> is_nan (f_of_int64 v)"
proof -
  have "nat \<bar>sint v\<bar> \<le> 2 ^ 53" using assms by auto
  then obtain k where k: "k < f_inf_bits" "f_mag k = nat \<bar>sint v\<bar> * 2 ^ 1074" using small_int_is_mag by blast
  have "f_of_int64 v = f_make (sint v < 0) k" using f_round_mag_f_mag [of k] k by (simp add: f_of_int64_def f_round_def)
  then show "f_val (f_of_int64 v) = sint v * 2 ^ 1074" "\<not> is_nan (f_of_int64 v)" using f_make_val [OF k(1), of "sint v < 0"] k(2) by auto
qed

text \<open>Multiplication by minus one.\<close>

lemma bit_f_negate: "bit (f_negate x) k = (bit x k \<noteq> (k = 63))"
  using bit_sign_word [of k] by (simp add: f_negate_def bit_xor_iff del: push_bit_of_1)

lemma f_negate_bits: "f_abs_bits (f_negate x) = f_abs_bits x" "f_neg (f_negate x) = (\<not> f_neg x)"
proof -
  have "take_bit 63 (f_negate x) = take_bit 63 x" by (rule bit_eqI) (auto simp: bit_take_bit_iff bit_f_negate)
  then show "f_abs_bits (f_negate x) = f_abs_bits x" by (simp only: f_abs_bits_def)
  show "f_neg (f_negate x) = (\<not> f_neg x)" by (simp add: f_neg_def bit_f_negate)
qed

lemma div_half_even_scale: "0 < c \<Longrightarrow> div_half_even (n * c) (d * c) = div_half_even n d"
proof -
  assume c: "0 < c"
  have "2 * (n mod d * c) < d * c \<longleftrightarrow> 2 * (n mod d) < d" "2 * (n mod d * c) = d * c \<longleftrightarrow> 2 * (n mod d) = d"
    using c mult_less_cancel2 [of "2 * (n mod d)" c d] mult_cancel2 [of "2 * (n mod d)" c d] by (simp_all add: mult.assoc)
  then show ?thesis using c by (simp add: div_half_even_def Let_def mult_mod_left)
qed

lemma f_round_mag_scale: "0 < c \<Longrightarrow> f_round_mag (n * c) c = f_round_mag n 1"
  using div_half_even_scale [of c n "2 ^ (bitlen n - 53)"] by (simp add: f_round_mag_def Let_def mult.commute [of _ c])

definition f_same :: "f64 \<Rightarrow> f64 \<Rightarrow> bool" where
  "f_same x y \<longleftrightarrow> x = y \<or> is_nan x \<and> is_nan y"

lemma f_mul_unit:
  assumes "f_neg u" "f_abs_bits u = 1023 * 2 ^ 52"
  shows "f_same (f_mul x u) (f_negate x)"
proof -
  have mag: "f_mag (f_abs_bits u) = 2 ^ 1074"
  proof -
    have "f_mag (1023 * 2 ^ 52 + 0) = 2 ^ 52 * 2 ^ 1022" unfolding f_mag_split [OF zero_less_power [OF zero_less_numeral]] by simp
    also have "\<dots> = 2 ^ 1074" unfolding power_add [symmetric] by (rule arg_cong [where f = "power 2"]) simp
    finally show ?thesis by (simp only: add_0_right assms(2))
  qed
  have neg: "f_make (\<not> f_neg x) (f_abs_bits x) = f_negate x" using f_make_self [of "f_negate x"] by (simp add: f_negate_bits)
  have fin: "\<not> is_nan u" "\<not> is_inf u" "f_abs_bits u \<noteq> 0" unfolding is_nan_def is_inf_def assms by (simp_all add: f_inf_bits_def)
  have sgn: "(f_neg x \<noteq> f_neg u) = (\<not> f_neg x)" using assms(1) by simp
  show ?thesis
  proof (cases "is_nan x")
    case True
    then have "is_nan (f_negate x)" by (simp add: is_nan_def f_negate_bits)
    moreover have "is_nan f_nan" by (simp add: is_nan_def f_nan_def f_abs_bits_def f_inf_bits_def)
    ultimately show ?thesis unfolding f_mul_def Let_def using True by (simp only: f_same_def simp_thms if_True)
  next
    case False
    show ?thesis
    proof (cases "is_inf x")
      case True
      then have "f_abs_bits x = f_inf_bits" by (simp add: is_inf_def)
      moreover have "f_inf_bits \<noteq> 0" by (simp add: f_inf_bits_def)
      ultimately show ?thesis unfolding f_mul_def Let_def sgn using False True fin neg by (simp only: f_same_def simp_thms if_True if_False)
    next
      case inf: False
      have "f_abs_bits x \<le> f_inf_bits" using False by (simp add: is_nan_def)
      then have "f_round_mag (f_mag (f_abs_bits x) * 2 ^ 1074) (2 ^ 1074) = f_abs_bits x"
        by (simp only: f_round_mag_scale f_round_mag_f_mag zero_less_power zero_less_numeral)
      then have "f_mul x u = f_negate x"
        unfolding f_mul_def Let_def mag sgn using False inf fin neg by (simp only: f_round_def if_False simp_thms)
      then show ?thesis by (simp add: f_same_def)
    qed
  qed
qed

end
