(* ===== verification/ExprWalk.thy ===== *)
theory ExprWalk
  imports Compile
begin

text \<open>
  Traversals of SQL expressions (\<^verbatim>\<open>planner/exprwalk.go\<close>). The visits of \<^verbatim>\<open>walkExpr\<close> are the list of visited nodes, parents before children.
  The function given to \<^verbatim>\<open>rewriteExpr\<close> may change the planner's state, so the state is threaded through in the order of the calls; its result is
  \<open>Some e\<close> when it handled the node.
\<close>

fun walkExpr :: "sql_expr \<Rightarrow> sql_expr list" where
  "walkExpr (BinaryExpr op l r) = BinaryExpr op l r # walkExpr l @ walkExpr r"
| "walkExpr (UnaryExpr op e) = UnaryExpr op e # walkExpr e"
| "walkExpr (IsNullE e isNot) = IsNullE e isNot # walkExpr e"
| "walkExpr (BetweenE e lo hi negated) = BetweenE e lo hi negated # walkExpr e @ walkExpr lo @ walkExpr hi"
| "walkExpr (InE e items negated) = InE e items negated # walkExpr e @ concat (map walkExpr items)"
| "walkExpr (LikeE e pattern negated) = LikeE e pattern negated # walkExpr e @ walkExpr pattern"
| "walkExpr (AggFuncExpr f arg dst) = AggFuncExpr f arg dst # (case arg of None \<Rightarrow> [] | Some a \<Rightarrow> walkExpr a)"
| "walkExpr (FuncExpr f args) = FuncExpr f args # concat (map walkExpr args)"
| "walkExpr (CaseE ws els) = CaseE ws els # concat (map (\<lambda>w. walkExpr (fst w) @ walkExpr (snd w)) ws) @ (case els of None \<Rightarrow> [] | Some e \<Rightarrow> walkExpr e)"
| "walkExpr e = [e]"

definition walk_opt :: "sql_expr option \<Rightarrow> sql_expr list" where
  "walk_opt e = (case e of None \<Rightarrow> [] | Some e \<Rightarrow> walkExpr e)"

fun is_agg :: "sql_expr \<Rightarrow> bool" where
  "is_agg (AggFuncExpr f arg dst) = True"
| "is_agg e = False"

definition containsAggregate :: "sql_expr option \<Rightarrow> bool" where
  "containsAggregate e = list_ex is_agg (walk_opt e)"


section \<open>Rewriting\<close>

type_synonym 's rewriter = "sql_expr \<Rightarrow> 's \<Rightarrow> (sql_expr option \<times> 's) pres"

fun st_map :: "('a \<Rightarrow> 's \<Rightarrow> ('b \<times> 's) pres) \<Rightarrow> 'a list \<Rightarrow> 's \<Rightarrow> ('b list \<times> 's) pres" where
  "st_map f [] s = Inr ([], s)"
| "st_map f (x # xs) s = res_bind (f x s) (\<lambda>(y, s). res_map (\<lambda>(ys, s). (y # ys, s)) (st_map f xs s))"

lemma st_map_cong [fundef_cong]: "xs = ys \<Longrightarrow> (\<And>x s. x \<in> set ys \<Longrightarrow> f x s = g x s) \<Longrightarrow> st_map f xs s = st_map g ys s"
  by (induction ys arbitrary: xs s) (auto intro!: res_bind_cong)

definition st_opt :: "('a \<Rightarrow> 's \<Rightarrow> ('b \<times> 's) pres) \<Rightarrow> 'a option \<Rightarrow> 's \<Rightarrow> ('b option \<times> 's) pres" where
  "st_opt f x s = (case x of None \<Rightarrow> Inr (None, s) | Some x \<Rightarrow> res_map (\<lambda>(y, s). (Some y, s)) (f x s))"

lemma st_opt_cong [fundef_cong]: "x = y \<Longrightarrow> (\<And>z s. y = Some z \<Longrightarrow> f z s = g z s) \<Longrightarrow> st_opt f x s = st_opt g y s"
  by (cases y) (simp_all add: st_opt_def)

definition rewrite_node :: "'s rewriter \<Rightarrow> sql_expr \<Rightarrow> ('s \<Rightarrow> (sql_expr \<times> 's) pres) \<Rightarrow> 's \<Rightarrow> (sql_expr \<times> 's) pres" where
  "rewrite_node fn e children s = res_bind (fn e s) (\<lambda>(out, s). case out of Some e \<Rightarrow> Inr (e, s) | None \<Rightarrow> children s)"

fun rewriteExpr :: "'s rewriter \<Rightarrow> sql_expr \<Rightarrow> 's \<Rightarrow> (sql_expr \<times> 's) pres" where
  "rewriteExpr fn (BinaryExpr op l r) s = rewrite_node fn (BinaryExpr op l r) (\<lambda>s. res_bind (rewriteExpr fn l s) (\<lambda>(l, s). res_map (\<lambda>(r, s). (BinaryExpr op l r, s)) (rewriteExpr fn r s))) s"
| "rewriteExpr fn (UnaryExpr op e) s = rewrite_node fn (UnaryExpr op e) (\<lambda>s. res_map (\<lambda>(e, s). (UnaryExpr op e, s)) (rewriteExpr fn e s)) s"
| "rewriteExpr fn (IsNullE e isNot) s = rewrite_node fn (IsNullE e isNot) (\<lambda>s. res_map (\<lambda>(e, s). (IsNullE e isNot, s)) (rewriteExpr fn e s)) s"
| "rewriteExpr fn (BetweenE e lo hi negated) s = rewrite_node fn (BetweenE e lo hi negated) (\<lambda>s. res_bind (rewriteExpr fn e s) (\<lambda>(e, s). res_bind (rewriteExpr fn lo s) (\<lambda>(lo, s).
     res_map (\<lambda>(hi, s). (BetweenE e lo hi negated, s)) (rewriteExpr fn hi s)))) s"
| "rewriteExpr fn (InE e items negated) s = rewrite_node fn (InE e items negated) (\<lambda>s. res_bind (rewriteExpr fn e s) (\<lambda>(e, s).
     res_map (\<lambda>(items, s). (InE e items negated, s)) (st_map (rewriteExpr fn) items s))) s"
| "rewriteExpr fn (LikeE e pattern negated) s = rewrite_node fn (LikeE e pattern negated) (\<lambda>s. res_bind (rewriteExpr fn e s) (\<lambda>(e, s).
     res_map (\<lambda>(pattern, s). (LikeE e pattern negated, s)) (rewriteExpr fn pattern s))) s"
| "rewriteExpr fn (AggFuncExpr f arg dst) s = rewrite_node fn (AggFuncExpr f arg dst) (\<lambda>s. res_map (\<lambda>(arg, s). (AggFuncExpr f arg dst, s)) (st_opt (rewriteExpr fn) arg s)) s"
| "rewriteExpr fn (FuncExpr f args) s = rewrite_node fn (FuncExpr f args) (\<lambda>s. res_map (\<lambda>(args, s). (FuncExpr f args, s)) (st_map (rewriteExpr fn) args s)) s"
| "rewriteExpr fn (CaseE ws els) s = rewrite_node fn (CaseE ws els) (\<lambda>s. res_bind (st_map (\<lambda>w s. res_bind (rewriteExpr fn (fst w) s) (\<lambda>(c, s). res_map (\<lambda>(r, s). ((c, r), s)) (rewriteExpr fn (snd w) s))) ws s) (\<lambda>(ws, s).
     res_map (\<lambda>(els, s). (CaseE ws els, s)) (st_opt (rewriteExpr fn) els s))) s"
| "rewriteExpr fn (SubqueryExpr q) s = rewrite_node fn (SubqueryExpr q) (\<lambda>s. Inl (Err PErrSubquery)) s"
| "rewriteExpr fn e s = rewrite_node fn e (\<lambda>s. Inr (e, s)) s"

end
