(* ===== verification/Pruning.thy ===== *)
theory Pruning
  imports ExprWalk FloatOrder
begin

text \<open>
  Zone predicates are sound: where \<^verbatim>\<open>zonePredEval\<close> rejects a row group, the compiled predicate is TRUE in none of its rows. The planner and the
  executor read a literal in different ways (folded or multiplied by minus one, as an integer or as a float), and the lemmas show that both
  readings lead to the same comparison.
\<close>

section \<open>Constants\<close>

lemma foldConstant_string: "foldConstant e = StringLiteral s \<Longrightarrow> e = StringLiteral s"
  by (cases e rule: foldConstant.cases) (auto split: sql_expr.splits if_splits)

lemma int_constant:
  assumes "foldConstant e = IntLiteral v" "buildExecExpr e schema = Inr x"
  shows "ExprType x = TypeInt64 \<and> sem b i x = Some (VInt v) \<and> (\<forall>w t. x = LiteralExpr w t \<longrightarrow> w = VInt v)"
  using assms
proof (induction e arbitrary: v x rule: foldConstant.induct)
  case (1 e)
  from 1(2) obtain u where u: "foldConstant e = IntLiteral u" "v = - u" by (auto split: sql_expr.splits if_splits)
  from 1(3) obtain c where c: "buildExecExpr e schema = Inr c" "buildUnary OpMinus c = Inr x" by (auto simp: res_bind_eq_Inr)
  show ?case using 1(1) [OF u(1) c(1)] c(2) u(2) by (auto simp: buildUnary_def lift2_def)
qed auto

lemma f_same_negate: "f_same x y \<Longrightarrow> f_same (f_mul x f_minus_one) (f_negate y)"
proof -
  assume a: "f_same x y"
  have "f_neg f_minus_one" by (simp add: f_minus_one_def f_neg_def)
  moreover have "f_abs_bits f_minus_one = 1023 * 2 ^ 52" by (simp add: f_minus_one_def f_abs_bits_def)
  ultimately have "f_same (f_mul x f_minus_one) (f_negate x)" by (rule f_mul_unit)
  moreover have "f_same (f_negate x) (f_negate y)" using a by (auto simp: f_same_def is_nan_def f_negate_bits)
  ultimately show ?thesis by (auto simp: f_same_def)
qed

lemma float_constant:
  assumes "foldConstant e = FloatLiteral f" "buildExecExpr e schema = Inr x"
  shows "ExprType x = TypeFloat64 \<and> (\<exists>g. sem b i x = Some (VFloat g) \<and> f_same g f) \<and> (\<forall>w t. x = LiteralExpr w t \<longrightarrow> w = VFloat f)"
  using assms
proof (induction e arbitrary: f x rule: foldConstant.induct)
  case (1 e)
  from 1(2) obtain u where u: "foldConstant e = FloatLiteral u" "f = f_negate u" by (auto split: sql_expr.splits if_splits)
  from 1(3) obtain c where c: "buildExecExpr e schema = Inr c" "buildUnary OpMinus c = Inr x" by (auto simp: res_bind_eq_Inr)
  show ?case using 1(1) [OF u(1) c(1)] c(2) u(2) by (auto simp: buildUnary_def lift2_def f_same_negate)
qed (auto simp: f_same_def)


section \<open>Comparison by keys\<close>

fun rel :: "SqlOp \<Rightarrow> int \<Rightarrow> int \<Rightarrow> bool" where
  "rel OpEQ a b = (a = b)" | "rel OpLT a b = (a < b)" | "rel OpLE a b = (a \<le> b)" | "rel OpGT a b = (b < a)" | "rel OpGE a b = (b \<le> a)"
| "rel _ a b = True"

lemma rel_mult: "0 < (c :: int) \<Longrightarrow> rel op (a * c) (b * c) = rel op a b"
  by (cases op) auto

lemma verdict_rel: "lo \<le> v \<Longrightarrow> v \<le> hi \<Longrightarrow> rel op v l \<Longrightarrow> zone_verdict op (cmpOrdered lo l, cmpOrdered hi l)"
  by (cases op) (auto simp: zone_verdict_def cmpOrdered_def)

lemma cmpInt64_rel: "sqlOpToExecOp op = Inr (k, False) \<Longrightarrow> cmpInt64 k a b \<Longrightarrow> op \<noteq> OpNE \<Longrightarrow> rel op (sint a) (sint b)"
  by (cases op) auto

lemma cmpInt32_rel: "sqlOpToExecOp op = Inr (k, False) \<Longrightarrow> cmpInt32 k a b \<Longrightarrow> op \<noteq> OpNE \<Longrightarrow> rel op (sint a) (sint b)"
  by (cases op) auto

lemma cmpFloat64_rel: "sqlOpToExecOp op = Inr (k, False) \<Longrightarrow> cmpFloat64 k a b \<Longrightarrow> op \<noteq> OpNE \<Longrightarrow> \<not> is_nan a \<and> \<not> is_nan b \<and> rel op (f_key a) (f_key b)"
  by (cases op) (auto simp: f_eq_def f_lt_def f_le_def)

lemma cmpOrderedF_key: "\<not> is_nan a \<Longrightarrow> \<not> is_nan b \<Longrightarrow> cmpOrderedF a b = cmpOrdered (f_key a) (f_key b)"
  by (simp add: cmpOrderedF_def cmpOrdered_def f_lt_def)

lemma cmpOrdered_val: "cmpOrdered (f_key a) (f_key b) = cmpOrdered (f_val a) (f_val b)"
  using f_key_val [of a b] f_key_val [of b a] by (simp add: cmpOrdered_def)

lemma rel_val: "rel op (f_key a) (f_key b) = rel op (f_val a) (f_val b)"
  using f_key_val [of a b] f_key_val [of b a] by (cases op) auto

lemma f_same_key: "f_same x y \<Longrightarrow> \<not> is_nan x \<Longrightarrow> x = y"
  by (auto simp: f_same_def)


section \<open>A column against a constant\<close>

text \<open>What the executor compares when it compares the column value \<open>v\<close> with the constant \<open>lit\<close>: the operands \<open>a\<close> and \<open>b\<close> of its comparison.\<close>

definition compares :: "DataType \<Rightarrow> sql_expr \<Rightarrow> val \<Rightarrow> val \<Rightarrow> val \<Rightarrow> bool" where
  "compares t lit v a b = (case (t, foldConstant lit) of
     (TypeInt64, IntLiteral n) \<Rightarrow> a = v \<and> b = VInt n
   | (TypeInt64, FloatLiteral f) \<Rightarrow> (\<exists>n. exactInt64 f = Some n \<and> a = v \<and> b = VInt n) \<or> (\<exists>w g. v = VInt w \<and> a = VFloat (f_of_int64 w) \<and> b = VFloat g \<and> f_same g f)
   | (TypeFloat64, IntLiteral n) \<Rightarrow> a = v \<and> b = VFloat (f_of_int64 n)
   | (TypeFloat64, FloatLiteral f) \<Rightarrow> a = v \<and> (\<exists>g. b = VFloat g \<and> f_same g f)
   | (TypeDate, _) \<Rightarrow> a = v \<and> (\<exists>d. zoneDateLiteral lit = Some (sint d) \<and> b = VDate d)
   | _ \<Rightarrow> True)"

lemma exactFloat_between: "exactFloat lo \<Longrightarrow> exactFloat hi \<Longrightarrow> sint lo \<le> sint v \<Longrightarrow> sint v \<le> sint hi \<Longrightarrow> exactFloat v"
  by (simp add: exactFloat_def)

lemma exactInt64_val: "exactInt64 f = Some n \<Longrightarrow> \<not> is_nan f \<and> f_val f = sint n * 2 ^ 1074"
proof -
  assume a: "exactInt64 f = Some n"
  let ?q = "f_val f div 2 ^ 1074"
  have f: "\<not> is_nan f" "f_val f mod 2 ^ 1074 = 0" "- (2 ^ 63) \<le> ?q" "?q < 2 ^ 63" "n = word_of_int ?q"
    using a by (auto simp: exactInt64_def simp del: power_numeral split: if_splits)
  have "sint n = ?q" using f(3,4) unfolding f(5) sint_sbintrunc' by (simp add: signed_take_bit_int_eq_self)
  then show ?thesis using f(1,2) div_mult_mod_eq [of "f_val f" "2 ^ 1074"] by simp
qed

lemma int_column_float:
  assumes lv: "\<not> is_nan f" and z: "exactFloat lo" "exactFloat hi" "sint lo \<le> sint v" "sint v \<le> sint hi" and r: "rel op (sint v * 2 ^ 1074) (f_val f)"
  shows "zone_verdict op (cmpOrderedF (f_of_int64 lo) f, cmpOrderedF (f_of_int64 hi) f)"
proof -
  have e: "f_val (f_of_int64 w) = sint w * 2 ^ 1074" "\<not> is_nan (f_of_int64 w)" if "exactFloat w" for w
    using f_of_int64_exact [of w] that by (simp_all add: exactFloat_def del: power_numeral)
  have "sint lo * 2 ^ 1074 \<le> sint v * 2 ^ 1074" "sint v * 2 ^ 1074 \<le> sint hi * 2 ^ 1074" using z(3,4) by (auto intro: mult_right_mono)
  from verdict_rel [OF this r] show ?thesis by (simp only: cmpOrderedF_key e z lv not_False_eq_True cmpOrdered_val)
qed

lemma zone_cmps_sound:
  assumes t: "val_type v = t" and z: "in_zone zm v" and c: "zone_cmps t zm lit = Some cmps" and cp: "compares t lit v a b"
    and k: "sqlOpToExecOp op = Inr (k, False)" "op \<noteq> OpNE" and cm: "cmp_val k a b"
  shows "zone_verdict op cmps"
proof (cases t)
  case TypeInt64
  then obtain w where v: "v = VInt w" using t by (cases v) auto
  have zw: "sint (ZMin zm) \<le> sint w" "sint w \<le> sint (ZMax zm)" using z v by auto
  consider n where "foldConstant lit = IntLiteral n" | f where "foldConstant lit = FloatLiteral f"
    using c TypeInt64 by (auto simp: zone_cmps_def zoneLiteral_def split: sql_expr.splits)
  then show ?thesis
  proof cases
    case (1 n)
    then have "cmps = (cmpOrdered (sint (ZMin zm)) (sint n), cmpOrdered (sint (ZMax zm)) (sint n))" "cmpInt64 k w n"
      using c cp cm TypeInt64 v by (auto simp: zone_cmps_def zoneLiteral_def compares_def)
    then show ?thesis using verdict_rel [OF zw cmpInt64_rel [OF k(1) _ k(2)]] by simp
  next
    case (2 f)
    then have f: "\<not> is_nan f" "exactFloat (ZMin zm)" "exactFloat (ZMax zm)" "cmps = (cmpOrderedF (f_of_int64 (ZMin zm)) f, cmpOrderedF (f_of_int64 (ZMax zm)) f)"
      using c TypeInt64 by (auto simp: zone_cmps_def zoneLiteral_def split: if_splits)
    have "rel op (sint w * 2 ^ 1074) (f_val f)"
    proof (cases "\<exists>n. exactInt64 f = Some n \<and> a = v \<and> b = VInt n")
      case True
      then obtain n where n: "exactInt64 f = Some n" "cmpInt64 k w n" using v cm by auto
      have "rel op (sint w * 2 ^ 1074) (sint n * 2 ^ 1074)"
        using cmpInt64_rel [OF k(1) n(2) k(2)] by (subst rel_mult) (rule zero_less_power, rule zero_less_numeral)
      then show ?thesis using exactInt64_val [OF n(1)] by (simp only:)
    next
      case False
      then obtain g where g: "f_same g f" "cmpFloat64 k (f_of_int64 w) g" using cp cm TypeInt64 2 v by (auto simp: compares_def)
      have "exactFloat w" using exactFloat_between [OF f(2,3) zw] .
      then have "f_val (f_of_int64 w) = sint w * 2 ^ 1074" unfolding exactFloat_def by (intro f_of_int64_exact) simp_all
      moreover have "\<not> is_nan g \<and> rel op (f_key (f_of_int64 w)) (f_key g)" using cmpFloat64_rel [OF k(1) g(2) k(2)] by simp
      ultimately show ?thesis using f_same_key [OF g(1)] rel_val by metis
    qed
    from int_column_float [OF f(1,2,3) zw this] show ?thesis by (simp add: f(4))
  qed
next
  case TypeFloat64
  then obtain w where v: "v = VFloat w" using t by (cases v) auto
  obtain lv where lv: "\<not> is_nan lv" "\<not> is_nan (ZMin zm)" "\<not> is_nan (ZMax zm)" "cmps = (cmpOrderedF (ZMin zm) lv, cmpOrderedF (ZMax zm) lv)"
    "\<exists>g. b = VFloat g \<and> f_same g lv" "a = v"
    using c cp TypeFloat64 by (auto simp: zone_cmps_def zoneLiteral_def compares_def f_same_def split: sql_expr.splits if_splits)
  then obtain g where g: "b = VFloat g" "f_same g lv" by blast
  have "cmpFloat64 k w g" using cm g lv(6) v by simp
  from cmpFloat64_rel [OF k(1) this k(2)] have r: "\<not> is_nan w" "rel op (f_key w) (f_key lv)" using f_same_key [OF g(2)] by auto
  have "f_key (ZMin zm) \<le> f_key w" "f_key w \<le> f_key (ZMax zm)" using z v lv(2,3) r(1) by (auto simp: f_lt_def)
  from verdict_rel [OF this r(2)] show ?thesis using lv(1-4) by (simp add: cmpOrderedF_key)
next
  case TypeDate
  then obtain w where v: "v = VDate w" using t by (cases v) auto
  obtain d where d: "zoneDateLiteral lit = Some (sint d)" "b = VDate d" "a = v" using cp TypeDate by (auto simp: compares_def)
  then have "cmps = (cmpOrdered (sint (ucast (ZMin zm) :: i32)) (sint d), cmpOrdered (sint (ucast (ZMax zm) :: i32)) (sint d))" "cmpInt32 k w d"
    using c cm TypeDate v by (auto simp: zone_cmps_def)
  then show ?thesis using verdict_rel [OF _ _ cmpInt32_rel [OF k(1) _ k(2)], of _ w _ d] z v by simp
qed (use c in \<open>auto simp: zone_cmps_def\<close>)

lemma coerce_non_literal: "(\<And>w t. x \<noteq> LiteralExpr w t) \<Longrightarrow> coerceOneSide c x = x"
  by (cases x) (auto simp: coerceOneSide_def)

lemma coerce_column: "coerceOneSide x (ColumnRef name j t) = ColumnRef name j t"
  by (rule coerce_non_literal) simp

lemma comparable_sym: "comparableOperands l r = Inr (l', r') \<Longrightarrow> comparableOperands r l = Inr (r', l')"
  by (auto simp: comparableOperands_def Let_def split: if_splits)

text \<open>
  The column is compared as it is, or cast to a float together with the constant. The constant may have been coerced to the type of the column
  before, as in a comparison, or not, as in BETWEEN with the column as a bound.
\<close>

lemma operand_compares:
  assumes x: "buildExecExpr lit es = Inr x" and y: "y = x \<or> y = coerceOneSide (ColumnRef name j t) x" and cmp: "comparableOperands (ColumnRef name j t) y = Inr (l, r)"
    and v: "col_at bt (nat j) i = Some v" "val_type v = t" and z: "zone_cmps t zm lit \<noteq> None"
  shows "\<exists>a b. sem bt i l = Some a \<and> sem bt i r = Some b \<and> compares t lit v a b"
proof -
  let ?col = "ColumnRef name j t"
  consider n where "foldConstant lit = IntLiteral n" | f where "foldConstant lit = FloatLiteral f" "t \<noteq> TypeDate" | s where "foldConstant lit = StringLiteral s" "t = TypeDate"
    using z by (auto simp: zone_cmps_def zoneLiteral_def zoneDateLiteral_def split: DataType.splits sql_expr.splits option.splits)
  then show ?thesis
  proof cases
    case (1 n)
    note c = int_constant [OF 1 x, of bt i]
    have xl: "x = LiteralExpr (VInt n) TypeInt64 \<or> coerceOneSide ?col x = x" using c coerce_non_literal [of x ?col] by (cases x) auto
    show ?thesis
    proof (cases t)
      case TypeInt64
      then have "y = x" using xl y by (auto simp: coerceOneSide_def)
      then show ?thesis using cmp c v 1 TypeInt64 by (auto simp: comparableOperands_def compares_def Let_def)
    next
      case TypeFloat64
      show ?thesis
      proof (cases "x = LiteralExpr (VInt n) TypeInt64")
        case True
        then show ?thesis using cmp c v 1 y TypeFloat64 by (auto simp: comparableOperands_def compares_def Let_def coerceOneSide_def castToFloat_def)
      next
        case False
        then have "y = x" using xl y by auto
        moreover have "castToFloat x = CastIntToFloatExpr x" using c False by (cases x) (auto simp: castToFloat_def)
        ultimately show ?thesis using cmp c v 1 TypeFloat64 by (auto simp: comparableOperands_def compares_def Let_def castToFloat_def)
      qed
    next
      case TypeDate
      then obtain d where "exactDateDays n = Some d" using z 1 by (auto simp: zone_cmps_def zoneDateLiteral_def split: option.splits)
      then show ?thesis using cmp c v 1 y xl TypeDate by (auto simp: comparableOperands_def compares_def Let_def coerceOneSide_def zoneDateLiteral_def split: if_splits)
    qed (use z in \<open>auto simp: zone_cmps_def\<close>)
  next
    case (2 f)
    note c = float_constant [OF 2(1) x, of bt i]
    have xl: "x = LiteralExpr (VFloat f) TypeFloat64 \<or> coerceOneSide ?col x = x" using c coerce_non_literal [of x ?col] by (cases x) auto
    have xc: "castToFloat x = x" using c by (simp add: castToFloat_def)
    show ?thesis
    proof (cases t)
      case TypeInt64
      then obtain w where w: "v = VInt w" using v(2) by (cases v) auto
      consider n where "exactInt64 f = Some n" "y = LiteralExpr (VInt n) TypeInt64" | "y = x"
        using xl y TypeInt64 by (cases "exactInt64 f") (auto simp: coerceOneSide_def)
      then show ?thesis using cmp c v w 2 xc TypeInt64 by cases (auto simp: comparableOperands_def compares_def Let_def castToFloat_def)
    next
      case TypeFloat64
      then have "y = x" using xl y by (auto simp: coerceOneSide_def)
      then show ?thesis using cmp c v 2 TypeFloat64 by (auto simp: comparableOperands_def compares_def Let_def)
    qed (use z 2 in \<open>auto simp: zone_cmps_def\<close>)
  next
    case (3 s)
    then have "x = LiteralExpr (VString s) TypeString" using x foldConstant_string [OF 3(1)] by simp
    then show ?thesis using cmp v y 3 by (auto simp: comparableOperands_def compares_def Let_def coerceOneSide_def zoneDateLiteral_def split: if_splits option.splits)
  qed
qed

section \<open>Comparisons\<close>

text \<open>
  A row whose values lie in the zones: \<open>zs\<close> is the schema of the zone predicate (every column of the table), \<open>es\<close> that of the rows (the columns
  that are read), and both name their columns alike.
\<close>

definition row_in_zones :: "Schema \<Rightarrow> Schema \<Rightarrow> RowGroupMeta \<Rightarrow> Batch \<Rightarrow> nat \<Rightarrow> bool" where
  "row_in_zones zs es rg bt i \<longleftrightarrow> (\<forall>name c j. IndexOf zs name = Some c \<longrightarrow> IndexOf es name = Some j \<longrightarrow> c < length (Writer.Columns rg) \<longrightarrow>
     Type (zs ! c) = Type (es ! j) \<and> (\<forall>v. col_at bt j i = Some v \<longrightarrow> val_type v = Type (es ! j) \<and> in_zone (Stats (Writer.Columns rg ! c)) v))"

text \<open>Both sides of a comparison that is TRUE in the row.\<close>

definition holds :: "BinOpKind \<Rightarrow> Batch \<Rightarrow> nat \<Rightarrow> expr \<Rightarrow> expr \<Rightarrow> bool" where
  "holds k bt i l r \<longleftrightarrow> (\<exists>a b. sem bt i l = Some a \<and> sem bt i r = Some b \<and> cmp_val k a b)"

lemma cmp_val_flip: "sqlOpToExecOp op = Inr (k, False) \<Longrightarrow> \<exists>k'. sqlOpToExecOp (flip_op op) = Inr (k', False) \<and> cmp_val k a b = cmp_val k' b a"
  by (cases op; cases "(k, a, b)" rule: cmp_val.cases) (auto simp: f_eq_def)

lemma flip_op_NE: "flip_op op = OpNE \<longleftrightarrow> op = OpNE"
  by (cases op) auto

definition column_test :: "SqlOp \<Rightarrow> string \<Rightarrow> sql_expr \<Rightarrow> Schema \<Rightarrow> RowGroupMeta \<Rightarrow> bool" where
  "column_test op name lit zs rg = (case IndexOf zs name of None \<Rightarrow> True
     | Some c \<Rightarrow> if length (Writer.Columns rg) \<le> c then True else (let zm = Stats (Writer.Columns rg ! c) in
         if \<not> HasMinMax zm \<or> op = OpNE then True
         else case zone_cmps (Type (zs ! c)) zm lit of None \<Rightarrow> True | Some cmps \<Rightarrow> zone_verdict op cmps))"

lemma zoneRangePred_cases:
  assumes "\<not> zoneRangePred op l r zs rg"
  obtains q name where "l = ColumnRefExpr q name" "\<not> column_test op name r zs rg"
  | q name where "r = ColumnRefExpr q name" "\<not> column_test (flip_op op) name l zs rg" "\<And>q name. l \<noteq> ColumnRefExpr q name"
  using assms unfolding zoneRangePred_def column_test_def by (cases l; cases r) auto

lemma column_test_sound:
  assumes p: "\<not> column_test op name lit zs rg" and row: "row_in_zones zs es rg bt i" and j: "IndexOf es name = Some j" and x: "buildExecExpr lit es = Inr x"
    and y: "y = x \<or> y = coerceOneSide (ColumnRef name (int j) (Type (es ! j))) x" and cmp: "comparableOperands (ColumnRef name (int j) (Type (es ! j))) y = Inr (l, r)"
    and k: "sqlOpToExecOp op = Inr (k, False)"
  shows "\<not> holds k bt i l r"
proof
  assume "holds k bt i l r"
  then obtain a b where ab: "sem bt i l = Some a" "sem bt i r = Some b" "cmp_val k a b" by (auto simp: holds_def)
  obtain c cmps where c: "IndexOf zs name = Some c" "c < length (Writer.Columns rg)" "op \<noteq> OpNE"
    "zone_cmps (Type (zs ! c)) (Stats (Writer.Columns rg ! c)) lit = Some cmps" "\<not> zone_verdict op cmps"
    using p by (auto simp: column_test_def Let_def not_le split: option.splits if_splits)
  have t: "Type (zs ! c) = Type (es ! j)" using row c(1,2) j by (auto simp: row_in_zones_def)
  obtain v where v: "col_at bt j i = Some v" using cmp ab(1) by (auto simp: comparableOperands_def castToFloat_def Let_def split: if_splits)
  then have z: "val_type v = Type (es ! j)" "in_zone (Stats (Writer.Columns rg ! c)) v" using row c(1,2) j unfolding row_in_zones_def by blast+
  have zc: "zone_cmps (Type (es ! j)) (Stats (Writer.Columns rg ! c)) lit = Some cmps" using c(4) t by simp
  obtain a' b' where "sem bt i l = Some a'" "sem bt i r = Some b'" "compares (Type (es ! j)) lit v a' b'"
    using operand_compares [OF x y cmp _ z(1), of bt i "Stats (Writer.Columns rg ! c)"] v zc by auto
  then have "compares (Type (es ! j)) lit v a b" using ab by simp
  from zone_cmps_sound [OF z zc this k c(3) ab(3)] c(5) show False by simp
qed

lemma resolved_column: "buildExecExpr (ColumnRefExpr [] name) es = Inr x \<Longrightarrow> \<exists>j. IndexOf es name = Some j \<and> x = ColumnRef name (int j) (Type (es ! j))"
  by (auto simp: resolve_column_def split: option.splits)

lemma comparison_sound:
  assumes p: "\<not> zoneRangePred op l r zs rg" and row: "row_in_zones zs es rg bt i" and k: "sqlOpToExecOp op = Inr (k, False)"
    and q: "\<And>t n. l = ColumnRefExpr t n \<or> r = ColumnRefExpr t n \<Longrightarrow> t = []"
    and xl: "buildExecExpr l es = Inr xl" and xr: "buildExecExpr r es = Inr xr"
    and y: "(yl, yr) = coercePair xl xr \<or> (yl, yr) = (xl, coerceOneSide xl xr)" and cmp: "comparableOperands yl yr = Inr (a, b)"
  shows "\<not> holds k bt i a b"
proof -
  from p show ?thesis
  proof (cases rule: zoneRangePred_cases)
    case (1 t name)
    have "t = []" using q [of t name] 1(1) by simp
    then obtain j where j: "IndexOf es name = Some j" "xl = ColumnRef name (int j) (Type (es ! j))" using resolved_column [of name es xl] xl 1(1) by auto
    then have "yl = xl" "yr = coerceOneSide xl xr" using y by (auto simp: coercePair_def Let_def coerce_column)
    then show ?thesis using column_test_sound [OF 1(2) row j(1) xr _ _ k, of yr] cmp j(2) by simp
  next
    case (2 t name)
    have "t = []" using q [of t name] 2(1) by simp
    then obtain j where j: "IndexOf es name = Some j" "xr = ColumnRef name (int j) (Type (es ! j))" using resolved_column [of name es xr] xr 2(1) by auto
    then have y': "yl = xl \<or> yl = coerceOneSide xr xl" "yr = xr" using y by (auto simp: coercePair_def Let_def coerce_column)
    obtain k' where k': "sqlOpToExecOp (flip_op op) = Inr (k', False)" using cmp_val_flip [OF k] by blast
    then have "cmp_val k u v = cmp_val k' v u" for u v using cmp_val_flip [OF k, of u v] by auto
    then have "holds k bt i a b = holds k' bt i b a" by (auto simp: holds_def)
    then show ?thesis using column_test_sound [OF 2(2) row j(1) xl _ _ k', of yl] comparable_sym [OF cmp] j(2) y' by simp
  qed
qed

section \<open>Predicates\<close>

text \<open>Column references as \<^verbatim>\<open>resolveColumns\<close> leaves them.\<close>

definition resolved :: "sql_expr \<Rightarrow> bool" where
  "resolved e \<longleftrightarrow> (\<forall>t n. ColumnRefExpr t n \<in> set (walkExpr e) \<longrightarrow> t = [])"

text \<open>
  No INT64 operand of BETWEEN has one INT64 and one FLOAT64 bound. There the executor compares all three as floats, while the zone predicate compares
  the INT64 pair as integers, and integers beyond \<open>2 ^ 53\<close> that differ may be equal as floats.
\<close>

definition uniform_bounds :: "Schema \<Rightarrow> sql_expr \<Rightarrow> bool" where
  "uniform_bounds es e \<longleftrightarrow> (case e of BetweenE e lo hi negated \<Rightarrow> (case (buildExecExpr e es, buildExecExpr lo es, buildExecExpr hi es) of
     (Inr c, Inr l, Inr h) \<Rightarrow> ExprType c = TypeInt64 \<longrightarrow> ExprType (coerceOneSide c l) = ExprType (coerceOneSide c h) | _ \<Rightarrow> True) | _ \<Rightarrow> True)"

definition uniform_between :: "Schema \<Rightarrow> sql_expr \<Rightarrow> bool" where
  "uniform_between es e = list_all (uniform_bounds es) (walkExpr e)"

lemma walkExpr_self: "e \<in> set (walkExpr e)"
  by (cases e) auto

lemma castToFloat_type: "ExprType (castToFloat e) = (if ExprType e = TypeInt64 then TypeFloat64 else ExprType e)"
  by (cases e) (auto simp: castToFloat_def split: val.splits)

lemma between_pair:
  assumes "\<exists>p. comparableOperands (if flt then castToFloat c else c) (if flt then castToFloat y else y) = Inr p" "flt \<Longrightarrow> \<not> (ExprType c = TypeInt64 \<and> ExprType y = TypeInt64)"
    "\<not> flt \<Longrightarrow> ExprType c \<noteq> TypeFloat64 \<and> ExprType y \<noteq> TypeFloat64"
  shows "comparableOperands c y = Inr (if flt then castToFloat c else c, if flt then castToFloat y else y)"
proof (cases flt)
  case True
  have "ExprType e \<noteq> TypeInt64 \<Longrightarrow> castToFloat e = e" for e by (simp add: castToFloat_def)
  then show ?thesis using assms True by (cases "ExprType c"; cases "ExprType y") (simp_all add: comparableOperands_def Let_def castToFloat_type)
next
  case False
  then show ?thesis using assms by (cases "ExprType c"; cases "ExprType y") (simp_all add: comparableOperands_def Let_def)
qed

lemma between_sound:
  assumes p: "\<not> (zoneRangePred OpGE e lo zs rg \<and> zoneRangePred OpLE e hi zs rg)" and row: "row_in_zones zs es rg bt i"
    and q: "\<And>t n. ColumnRefExpr t n \<in> {e, lo, hi} \<Longrightarrow> t = []" and u: "uniform_bounds es (BetweenE e lo hi False)"
    and c: "buildExecExpr e es = Inr c" and l: "buildExecExpr lo es = Inr l" and h: "buildExecExpr hi es = Inr h" and b: "buildBetween c l h False = Inr x"
  shows "sem bt i x \<noteq> Some (VBool True)"
proof
  assume true: "sem bt i x = Some (VBool True)"
  define y z where "y = coerceOneSide c l" and "z = coerceOneSide c h"
  define flt where "flt \<longleftrightarrow> ExprType c = TypeFloat64 \<or> ExprType y = TypeFloat64 \<or> ExprType z = TypeFloat64"
  let ?cast = "\<lambda>e. if flt then castToFloat e else e"
  have x: "x = BetweenExpr (?cast c) (?cast y) (?cast z)" "\<exists>p. comparableOperands (?cast c) (?cast y) = Inr p" "\<exists>p. comparableOperands (?cast c) (?cast z) = Inr p"
    using b unfolding buildBetween_def Let_def y_def [symmetric] z_def [symmetric] flt_def [symmetric] by (auto split: sum.splits)
  have u': "ExprType c = TypeInt64 \<longrightarrow> ExprType y = ExprType z" using u c l h by (simp add: uniform_bounds_def y_def z_def)
  have cy: "comparableOperands c y = Inr (?cast c, ?cast y)" by (rule between_pair [OF x(2)]) (use u' flt_def in auto)
  have cz: "comparableOperands c z = Inr (?cast c, ?cast z)" by (rule between_pair [OF x(3)]) (use u' flt_def in auto)
  have "holds BinGE bt i (?cast c) (?cast y)" "holds BinLE bt i (?cast c) (?cast z)"
    using true unfolding x(1) holds_def sem.simps by (auto simp: and3_True lift2_def split: option.splits)
  moreover have "\<not> holds BinGE bt i (?cast c) (?cast y) \<or> \<not> holds BinLE bt i (?cast c) (?cast z)"
  proof (cases "zoneRangePred OpGE e lo zs rg")
    case True
    then have "\<not> zoneRangePred OpLE e hi zs rg" using p by simp
    moreover have "t = []" if "e = ColumnRefExpr t n \<or> hi = ColumnRefExpr t n" for t n using q that by auto
    ultimately have "\<not> holds BinLE bt i (?cast c) (?cast z)" using comparison_sound [OF _ row _ _ c h _ cz, of OpLE BinLE] by (simp add: z_def)
    then show ?thesis ..
  next
    case False
    moreover have "t = []" if "e = ColumnRefExpr t n \<or> lo = ColumnRefExpr t n" for t n using q that by auto
    ultimately have "\<not> holds BinGE bt i (?cast c) (?cast y)" using comparison_sound [OF _ row _ _ c l _ cy, of OpGE BinGE] by (simp add: y_def)
    then show ?thesis ..
  qed
  ultimately show False by blast
qed

lemma column_test_type:
  assumes "\<not> column_test op name lit zs rg" "row_in_zones zs es rg bt i" "buildExecExpr (ColumnRefExpr [] name) es = Inr x"
  shows "ExprType x \<noteq> TypeString \<and> coerceOneSide y x = x"
proof -
  obtain j where j: "IndexOf es name = Some j" "x = ColumnRef name (int j) (Type (es ! j))" using resolved_column assms(3) by blast
  obtain c where c: "IndexOf zs name = Some c" "c < length (Writer.Columns rg)" "zone_cmps (Type (zs ! c)) (Stats (Writer.Columns rg ! c)) lit \<noteq> None"
    using assms(1) by (auto simp: column_test_def Let_def not_le split: option.splits if_splits)
  then have "Type (es ! j) \<noteq> TypeString" using assms(2) j(1) by (auto simp: row_in_zones_def zone_cmps_def)
  then show ?thesis by (simp add: j(2) coerce_column)
qed

lemma range_not_string:
  assumes p: "\<not> zoneRangePred op l r zs rg" and row: "row_in_zones zs es rg bt i"
    and q: "\<And>t n. l = ColumnRefExpr t n \<or> r = ColumnRefExpr t n \<Longrightarrow> t = []"
    and x: "buildExecExpr l es = Inr xl" "buildExecExpr r es = Inr xr" and y: "coercePair xl xr = (yl, yr)"
  shows "string_equality op yl yr = None"
proof -
  have "ExprType yl \<noteq> TypeString \<or> ExprType yr \<noteq> TypeString"
    using p
  proof (cases rule: zoneRangePred_cases)
    case (1 t name)
    then have "ExprType xl \<noteq> TypeString \<and> coerceOneSide (coerceOneSide xl xr) xl = xl" using column_test_type [OF 1(2) row] q [of t name] x by simp
    then show ?thesis using y by (auto simp: coercePair_def Let_def)
  next
    case (2 t name)
    then have "ExprType xr \<noteq> TypeString \<and> coerceOneSide xl xr = xr" using column_test_type [OF 2(2) row] q [of t name] x by simp
    then show ?thesis using y by (auto simp: coercePair_def Let_def)
  qed
  then show ?thesis by (auto simp: string_equality_def)
qed

lemma binary_sound:
  assumes p: "\<not> zoneRangePred op l r zs rg" and row: "row_in_zones zs es rg bt i" and k: "sqlOpToExecOp op = Inr (k, False)"
    and q: "\<And>t n. l = ColumnRefExpr t n \<or> r = ColumnRefExpr t n \<Longrightarrow> t = []"
    and xl: "buildExecExpr l es = Inr xl" and xr: "buildExecExpr r es = Inr xr" and x: "buildBinExpr op xl xr = Inr x"
  shows "sem bt i x \<noteq> Some (VBool True)"
proof
  assume true: "sem bt i x = Some (VBool True)"
  obtain yl yr where y: "coercePair xl xr = (yl, yr)" by (cases "coercePair xl xr")
  obtain a b where ab: "comparableOperands yl yr = Inr (a, b)" "x = BinOp k a b TypeBool"
    using x y k range_not_string [OF p row q xl xr y] by (cases op) (auto simp: buildBinExpr_def res_map_eq_Inr)
  have "is_cmp k" using k by (cases op) auto
  then have "holds k bt i a b" using true ab(2) by (auto simp: holds_def lift2_def split: option.splits)
  then show False using comparison_sound [OF p row k q xl xr _ ab(1)] y by simp
qed

text \<open>\<^verbatim>\<open>zonePredEval\<close>: a row group is only rejected when the predicate is TRUE in none of its rows.\<close>

lemma zonePredEval_sound:
  assumes "\<not> zonePredEval e zs rg" "row_in_zones zs es rg bt i" "resolved e" "uniform_between es e" "buildExecExpr e es = Inr x"
  shows "sem bt i x \<noteq> Some (VBool True)"
  using assms
proof (induction e zs rg arbitrary: x rule: zonePredEval.induct)
  case (1 op l r zs rg)
  have sub: "resolved l" "resolved r" "uniform_between es l" "uniform_between es r" using 1 by (auto simp: resolved_def uniform_between_def)
  obtain xl xr where x: "buildExecExpr l es = Inr xl" "buildExecExpr r es = Inr xr" "buildBinExpr op xl xr = Inr x" using 1 by (auto simp: res_bind_eq_Inr)
  have q: "t = []" if "l = ColumnRefExpr t n \<or> r = ColumnRefExpr t n" for t n using sub(1,2) that walkExpr_self unfolding resolved_def by metis
  have cmp: ?case if k: "sqlOpToExecOp op = Inr (k, False)" and p: "\<not> zoneRangePred op l r zs rg" for k
    using binary_sound [OF p 1(6) k q x] .
  show ?case
  proof (cases op)
    case OpAnd
    then have "x = AndExpr [xl, xr]" "\<not> (zonePredEval l zs rg \<and> zonePredEval r zs rg)" using x(3) 1(5) by (auto simp: buildBinExpr_def)
    then show ?thesis using 1(1,2) OpAnd x(1,2) sub 1(6) by (auto simp: and3_True)
  next
    case OpOr
    then have "x = OrExpr [xl, xr]" "\<not> zonePredEval l zs rg" "\<not> zonePredEval r zs rg" using x(3) 1(5) by (auto simp: buildBinExpr_def)
    then show ?thesis using 1(3,4) OpOr x(1,2) sub 1(6) by (auto simp: or3_True)
  qed (use 1(5) cmp in auto)
next
  case (2 e lo hi negated zs rg)
  then have p: "\<not> (zoneRangePred OpGE e lo zs rg \<and> zoneRangePred OpLE e hi zs rg)" "negated = False" by auto
  obtain c l h where x: "buildExecExpr e es = Inr c" "buildExecExpr lo es = Inr l" "buildExecExpr hi es = Inr h" "buildBetween c l h False = Inr x"
    using 2(5) p(2) by (auto simp: res_bind_eq_Inr)
  have "t = []" if "ColumnRefExpr t n \<in> {e, lo, hi}" for t n
    using 2(3) that walkExpr_self [of e] walkExpr_self [of lo] walkExpr_self [of hi] unfolding resolved_def by auto
  moreover have "uniform_bounds es (BetweenE e lo hi False)" using 2(4) p(2) by (simp add: uniform_between_def)
  ultimately show ?case using between_sound [OF p(1) 2(2) _ _ x] by blast
qed auto

end
