(* ===== verification/Format.thy ===== *)
theory Format
  imports Parser
begin

text \<open>
  Expressions rendered as SQL text (\<^verbatim>\<open>sql/format.go\<close>): the headers of unaliased columns, and the planner's test that two resolved expressions are equal.
\<close>

section \<open>Floats in decimal\<close>

text \<open>
  \<^verbatim>\<open>strconv.FormatFloat(v, 'g', -1, 64)\<close>: the fewest digits that no other float is nearer to. The candidates at a decimal position are the value cut off
  there and the next multiple above; one counts when it lies between the midpoints to the neighbouring floats, or on a midpoint when the pattern is even, and when
  both do the nearer one is taken. Everything is in units of \<open>2 ^ (-1075)\<close>, and multiplied by a power of ten for positions after the point.
\<close>

definition shortest_at :: "nat \<Rightarrow> int \<Rightarrow> nat option" where
  "shortest_at k p = (let s = (if p < 0 then 10 ^ nat (- p) else 1); unit = 2 ^ 1075 * (if p < 0 then 1 else 10 ^ nat p);
     v = 2 * f_mag k * s; lo = (f_mag (k - 1) + f_mag k) * s; hi = (f_mag k + f_mag (k + 1)) * s; q = v div unit;
     okdown = (lo < q * unit \<or> even k \<and> lo = q * unit); okup = ((q + 1) * unit < hi \<or> even k \<and> (q + 1) * unit = hi) in
     if okdown \<and> okup then Some (div_half_even v unit) else if okdown then Some q else if okup then Some (q + 1) else None)"

fun shortest_from :: "nat \<Rightarrow> nat \<Rightarrow> int \<Rightarrow> nat \<times> int" where
  "shortest_from 0 k p = (0, 0)"
| "shortest_from (Suc n) k p = (case shortest_at k p of Some q \<Rightarrow> (q, p) | None \<Rightarrow> shortest_from n k (p - 1))"

text \<open>Positions from \<open>10 ^ 309\<close> down to \<open>10 ^ (-350)\<close>: the largest float is below the first, and every float has a numeral at the last.\<close>

definition shortest_decimal :: "nat \<Rightarrow> nat \<times> int" where
  "shortest_decimal k = shortest_from 660 k 309"

definition fmtE :: "string \<Rightarrow> int \<Rightarrow> string" where
  "fmtE ds e = take 1 ds @ (if 1 < length ds then CHR ''.'' # drop 1 ds else []) @ ''e'' @ (if e < 0 then ''-'' else ''+'') @
     (let x = dec_digits (nat \<bar>e\<bar>) in if length x < 2 then CHR ''0'' # x else x)"

definition fmtF :: "string \<Rightarrow> int \<Rightarrow> string" where
  "fmtF ds dp = (if 0 < dp then take (nat dp) ds @ replicate (nat dp - length ds) (CHR ''0'') else ''0'') @
     (if int (length ds) \<le> dp then [] else CHR ''.'' # (if dp < 0 then replicate (nat (- dp)) (CHR ''0'') else []) @ drop (nat dp) ds)"

definition FormatFloat :: "f64 \<Rightarrow> string" where
  "FormatFloat v = (if is_nan v then ''NaN'' else if is_inf v then (if f_neg v then ''-Inf'' else ''+Inf'') else
     (if f_neg v then ''-'' else []) @
     (if f_abs_bits v = 0 then ''0'' else (let (q, p) = shortest_decimal (f_abs_bits v); ds = dec_digits q; dp = int (length ds) + p in
        if dp - 1 < -4 \<or> 6 \<le> dp - 1 then fmtE ds (dp - 1) else fmtF ds dp)))"


section \<open>Expressions\<close>

fun op_text :: "SqlOp \<Rightarrow> string" where
  "op_text OpEQ = ''=''" | "op_text OpNE = ''<>''" | "op_text OpLT = ''<''" | "op_text OpLE = ''<=''" | "op_text OpGT = ''>''" | "op_text OpGE = ''>=''"
| "op_text OpAnd = ''AND''" | "op_text OpOr = ''OR''" | "op_text OpAdd = ''+''" | "op_text OpSub = ''-''" | "op_text OpMul = ''*''" | "op_text OpDiv = ''/''"

fun binPrec :: "SqlOp \<Rightarrow> nat" where
  "binPrec OpOr = 1" | "binPrec OpAnd = 2" | "binPrec OpAdd = 4" | "binPrec OpSub = 4" | "binPrec OpMul = 5" | "binPrec OpDiv = 5"
| "binPrec _ = 3"

definition binOperand :: "string \<Rightarrow> sql_expr \<Rightarrow> nat \<Rightarrow> bool \<Rightarrow> string" where
  "binOperand s child parentPrec isRight = (case child of
     BinaryExpr op _ _ \<Rightarrow> (if binPrec op < parentPrec \<or> (isRight \<and> binPrec op = parentPrec) then ''('' @ s @ '')'' else s)
   | _ \<Rightarrow> s)"

fun wrapsAsOperand :: "sql_expr \<Rightarrow> bool" where
  "wrapsAsOperand (BinaryExpr op l r) = True" | "wrapsAsOperand (IsNullE e isNot) = True" | "wrapsAsOperand (BetweenE e lo hi negated) = True"
| "wrapsAsOperand (InE e items negated) = True" | "wrapsAsOperand (LikeE e pattern negated) = True" | "wrapsAsOperand e = False"

definition join_list :: "string \<Rightarrow> string list \<Rightarrow> string" where
  "join_list sep parts = (case parts of [] \<Rightarrow> [] | p # ps \<Rightarrow> p @ concat (map (\<lambda>s. sep @ s) ps))"

fun FormatExpr :: "sql_expr \<Rightarrow> string" where
  "FormatExpr (ColumnRefExpr table name) = (if table \<noteq> [] then table @ ''.'' @ name else name)"
| "FormatExpr StarExpr = ''*''"
| "FormatExpr (IntLiteral v) = FormatInt v"
| "FormatExpr (FloatLiteral v) = FormatFloat v"
| "FormatExpr (StringLiteral s) = StringLiteral_String s"
| "FormatExpr (BoolLiteral b) = (if b then ''TRUE'' else ''FALSE'')"
| "FormatExpr NullLiteral = ''NULL''"
| "FormatExpr (BinaryExpr op l r) = binOperand (FormatExpr l) l (binPrec op) False @ '' '' @ op_text op @ '' '' @ binOperand (FormatExpr r) r (binPrec op) True"
| "FormatExpr (UnaryExpr op e) = (let inner = (if wrapsAsOperand e then ''('' @ FormatExpr e @ '')'' else FormatExpr e) in
     if op = OpNot then ''NOT '' @ inner else ''-'' @ inner)"
| "FormatExpr (IsNullE e isNot) = FormatExpr e @ (if isNot then '' IS NOT NULL'' else '' IS NULL'')"
| "FormatExpr (BetweenE e lo hi negated) = FormatExpr e @ (if negated then '' NOT BETWEEN '' else '' BETWEEN '') @ FormatExpr lo @ '' AND '' @ FormatExpr hi"
| "FormatExpr (InE e items negated) = FormatExpr e @ (if negated then '' NOT IN ('' else '' IN ('') @ join_list '', '' (map FormatExpr items) @ '')''"
| "FormatExpr (LikeE e pattern negated) = FormatExpr e @ (if negated then '' NOT LIKE '' else '' LIKE '') @ FormatExpr pattern"
| "FormatExpr (AggFuncExpr f arg dst) = ToUpper f @ (case arg of None \<Rightarrow> ''(*)'' | Some a \<Rightarrow> (if dst then ''(DISTINCT '' else ''('') @ FormatExpr a @ '')'')"
| "FormatExpr (FuncExpr f args) = f @ ''('' @ join_list '', '' (map FormatExpr args) @ '')''"
| "FormatExpr (CaseE ws els) = ''CASE'' @ concat (map (\<lambda>w. '' WHEN '' @ FormatExpr (fst w) @ '' THEN '' @ FormatExpr (snd w)) ws) @
     (case els of None \<Rightarrow> [] | Some e \<Rightarrow> '' ELSE '' @ FormatExpr e) @ '' END''"
| "FormatExpr (SubqueryExpr q) = ''(subquery)''"

section \<open>Literals printed and read back\<close>

text \<open>
  C33: every \<^verbatim>\<open>int64\<close> survives printing and parsing. Wherever the text of an integer literal stands in a source
  (before the end, or a character that does not continue a number: no digit, dot or exponent letter), the parser of
  operands reads back the literal of that value, consumes exactly the text and goes on behind it; negative values, whose
  minus sign is a token of its own, included, and the least \<^verbatim>\<open>int64\<close>, whose magnitude is not an
  \<^verbatim>\<open>int64\<close>.
\<close>

theorem IntLiteral_roundtrip:
  assumes "ends_number post"
  shows "parseUnary R \<lparr>src = pre @ FormatExpr (IntLiteral v) @ post, pos = length pre, peek = None\<rparr> =
    Inr (IntLiteral v, \<lparr>src = pre @ FormatExpr (IntLiteral v) @ post, pos = length (pre @ FormatExpr (IntLiteral v)), peek = None\<rparr>)"
  using parseUnary_FormatInt [OF assms] by simp

theorem IntLiteral_roundtrip_witness:
  "FormatExpr (IntLiteral (- 42)) = ''-42'' \<and>
   parseUnary (parsers_at 0) \<lparr>src = ''x = -42 AND'', pos = 4, peek = None\<rparr> =
     Inr (IntLiteral (- 42), \<lparr>src = ''x = -42 AND'', pos = 7, peek = None\<rparr>)"
proof -
  have f: "FormatExpr (IntLiteral (- 42)) = ''-42''"
    by (simp add: FormatInt_def dec_digits.simps) code_simp
  have "ends_number '' AND''" by (simp add: ends_number_def is_digit_def)
  from IntLiteral_roundtrip [OF this, of "parsers_at 0" "''x = ''" "- 42"] show ?thesis unfolding f by (simp add: eval_nat_numeral)
qed

end
