(* ===== verification/Logical.thy ===== *)
theory Logical
  imports ExprWalk Format
begin

text \<open>
  Logical plans (\<^verbatim>\<open>planner/logical.go\<close>, with the expression types of \<^verbatim>\<open>build.go\<close>). Plan nodes are values: the code shares a node only with its one parent, so that
  a change through the pointer is a change of the tree. \<open>SourceNames\<close> is \<open>None\<close> where the map is nil.
\<close>

record LogicalScan =
  TableName :: string
  FilePath :: string
  LSchema :: Schema
  Predicate :: "sql_expr option"
  NeededCols :: "string list"
  SourceNames :: "(string \<rightharpoonup> string) option"

record ProjectItem =
  PAlias :: string
  PExpr :: sql_expr
  PType :: DataType

record AggItem =
  Func :: string
  ColName :: string
  AArg :: "sql_expr option"
  AggAlias :: string
  AggDistinct :: bool

datatype LogicalNode =
    LScan LogicalScan
  | LFilter LogicalNode sql_expr
  | LProject LogicalNode "ProjectItem list"
  | LAggregate LogicalNode "sql_expr list" "AggItem list"
  | LSort LogicalNode "(sql_expr \<times> bool) list"
  | LLimit LogicalNode i64 i64
  | LJoin LogicalNode LogicalNode sql_expr
  | LDistinct LogicalNode

definition output_names :: "LogicalScan \<Rightarrow> string list" where
  "output_names n = (if NeededCols n = [] then map Name (LSchema n) else NeededCols n)"

definition file_name :: "LogicalScan \<Rightarrow> string \<Rightarrow> string" where
  "file_name n name = (case SourceNames n of None \<Rightarrow> name | Some names \<Rightarrow> (case names name of Some s \<Rightarrow> s | None \<Rightarrow> name))"

definition openScan :: "LogicalScan \<Rightarrow> Reader \<Rightarrow> ZonePredicate option \<Rightarrow> nat \<Rightarrow> nat \<Rightarrow> TableScan xres" where
  "openScan n r pred a b = res_bind (NewTableScanRange r (map (file_name n) (NeededCols n)) pred a b) (\<lambda>ts.
     if SourceNames n = None then Inr ts else SetOutputNames (output_names n) ts)"

definition exprName :: "sql_expr \<Rightarrow> string" where
  "exprName e = (case e of
     ColumnRefExpr table name \<Rightarrow> name
   | StarExpr \<Rightarrow> ''*''
   | AggFuncExpr f arg dst \<Rightarrow> (case arg of None \<Rightarrow> f | Some (ColumnRefExpr table name) \<Rightarrow> f @ ''_'' @ name | Some StarExpr \<Rightarrow> f @ ''_*'' | _ \<Rightarrow> FormatExpr e)
   | _ \<Rightarrow> FormatExpr e)"

text \<open>The first field of that name.\<close>

definition find_field :: "Schema \<Rightarrow> string \<Rightarrow> Field option" where
  "find_field schema name = find (\<lambda>f. Name f = name) schema"

fun resolveExprType :: "sql_expr \<Rightarrow> Schema \<Rightarrow> DataType" where
  "resolveExprType (ColumnRefExpr table name) schema = (case find_field schema name of Some f \<Rightarrow> Type f | None \<Rightarrow> TypeInt64)"
| "resolveExprType (FloatLiteral f) schema = TypeFloat64"
| "resolveExprType (StringLiteral s) schema = TypeString"
| "resolveExprType (BoolLiteral b) schema = TypeBool"
| "resolveExprType (IsNullE e isNot) schema = TypeBool"
| "resolveExprType (BetweenE e lo hi negated) schema = TypeBool"
| "resolveExprType (InE e items negated) schema = TypeBool"
| "resolveExprType (LikeE e pattern negated) schema = TypeBool"
| "resolveExprType (UnaryExpr op e) schema = (if op = OpNot then TypeBool else resolveExprType e schema)"
| "resolveExprType (BinaryExpr op l r) schema = (if op \<in> {OpAdd, OpSub, OpMul, OpDiv} then
     (if resolveExprType l schema = TypeFloat64 \<or> resolveExprType r schema = TypeFloat64 then TypeFloat64 else resolveExprType l schema) else TypeBool)"
| "resolveExprType (AggFuncExpr f arg dst) schema = (if f = ''COUNT'' then TypeInt64 else if f = ''AVG'' then TypeFloat64
     else case arg of Some a \<Rightarrow> resolveExprType a schema | None \<Rightarrow> TypeInt64)"
| "resolveExprType (CaseE ws els) schema = (case ws of w # _ \<Rightarrow> resolveExprType (snd w) schema | [] \<Rightarrow> TypeInt64)"
| "resolveExprType e schema = TypeInt64"

definition plan_field :: "string \<Rightarrow> DataType \<Rightarrow> Field" where
  "plan_field name t = \<lparr>Name = name, Type = t, FEncoding = EncPlain, Nullable = True\<rparr>"

definition agg_out_type :: "Schema \<Rightarrow> AggItem \<Rightarrow> DataType" where
  "agg_out_type childSchema agg = (if Func agg = ''COUNT'' then TypeInt64
     else if Func agg \<in> {''SUM'', ''MIN'', ''MAX''} then (case AArg agg of Some e \<Rightarrow> resolveExprType e childSchema
       | None \<Rightarrow> if ColName agg = [] then TypeInt64 else (case find_field childSchema (ColName agg) of Some f \<Rightarrow> Type f | None \<Rightarrow> TypeFloat64))
     else TypeFloat64)"

fun OutputSchema :: "LogicalNode \<Rightarrow> Schema" where
  "OutputSchema (LScan n) = (if NeededCols n = [] then LSchema n else List.map_filter (find_field (LSchema n)) (NeededCols n))"
| "OutputSchema (LFilter c p) = OutputSchema c"
| "OutputSchema (LProject c items) = map (\<lambda>pe. plan_field (PAlias pe) (PType pe)) items"
| "OutputSchema (LAggregate c gb aggs) = (let cs = OutputSchema c in
     List.map_filter (\<lambda>e. find_field cs (exprName e)) gb @ map (\<lambda>agg. plan_field (AggAlias agg) (agg_out_type cs agg)) aggs)"
| "OutputSchema (LSort c ob) = OutputSchema c"
| "OutputSchema (LLimit c n off) = OutputSchema c"
| "OutputSchema (LJoin l r cond) = OutputSchema l @ OutputSchema r"
| "OutputSchema (LDistinct c) = OutputSchema c"

end
