(* ===== verification/Physical.thy ===== *)
theory Physical
  imports Logical Project Sort JoinExec AggOut Distinct
begin

text \<open>
  From logical to physical plans (\<^verbatim>\<open>planner/physical.go\<close>). A physical plan is the tree of constructed operators with their configurations; the files are
  those of the path names at planning time. The code closes operators on failure; a call of \<^verbatim>\<open>Close\<close> on a nil operator is a panic.
\<close>

datatype physical =
    PScan TableScan
  | PFilter physical expr
  | PProject physical "ProjectExpr list"
  | PAggregate physical agg_conf
  | PSort physical "SortKey list"
  | PLimit physical int int
  | PDistinct physical
  | PJoin physical physical nat nat

fun op_schema :: "physical \<Rightarrow> Schema" where
  "op_schema (PScan s) = tschema s"
| "op_schema (PFilter c e) = op_schema c"
| "op_schema (PProject c es) = map (\<lambda>(name, e). plan_field name (ExprType e)) es"
| "op_schema (PAggregate c h) = aschema h"
| "op_schema (PSort c ks) = op_schema c"
| "op_schema (PLimit c n off) = op_schema c"
| "op_schema (PDistinct c) = op_schema c"
| "op_schema (PJoin b p bk pk) = op_schema b @ op_schema p"

type_synonym files = "string \<Rightarrow> byte list option"

definition exec_res :: "'a xres \<Rightarrow> 'a pres" where
  "exec_res m = (case m of Inl Panic \<Rightarrow> Inl Panic | Inl (Err e) \<Rightarrow> Inl (Err (PErrExec e)) | Inr x \<Rightarrow> Inr x)"

lemma exec_res_Inr [simp]: "exec_res m = Inr x \<longleftrightarrow> m = Inr x"
  by (auto simp: exec_res_def split: sum.splits go_err.splits)

definition open_file :: "files \<Rightarrow> string \<Rightarrow> Reader pres" where
  "open_file fs path = (case fs path of None \<Rightarrow> Inl (Err PErrNoFile)
     | Some bytes \<Rightarrow> (case Open bytes of Inl Panic \<Rightarrow> Inl Panic | Inl (Err e) \<Rightarrow> Inl (Err (PErrOpen e)) | Inr r \<Rightarrow> Inr r))"

definition buildFilterOp :: "sql_expr \<Rightarrow> physical \<Rightarrow> physical pres" where
  "buildFilterOp p child = res_bind (buildExecExpr p (op_schema child)) (\<lambda>e. res_map (\<lambda>_. PFilter child e) (exec_res (NewFilter e)))"

definition physicalScan :: "files \<Rightarrow> LogicalScan \<Rightarrow> physical pres" where
  "physicalScan fs n = res_bind (open_file fs (FilePath n)) (\<lambda>r.
     res_bind (exec_res (openScan n r (map_option (\<lambda>p. buildZonePredicate p (LSchema n)) (Predicate n)) 0 (length (RowGroups (rmeta r))))) (\<lambda>scan.
       case Predicate n of None \<Rightarrow> Inr (PScan scan) | Some p \<Rightarrow> buildFilterOp p (PScan scan)))"

definition buildProjectOp :: "ProjectItem list \<Rightarrow> physical \<Rightarrow> physical pres" where
  "buildProjectOp items child = res_bind (map_res (\<lambda>pe. res_map (\<lambda>e. (PAlias pe, e)) (buildExecExpr (PExpr pe) (op_schema child))) items) (\<lambda>es.
     res_map (\<lambda>_. PProject child es) (exec_res (NewProject es)))"

definition pass_through :: "Schema \<Rightarrow> Field \<Rightarrow> ProjectExpr" where
  "pass_through schema f = (Name f, ColumnRef (Name f) (case IndexOf schema (Name f) of Some i \<Rightarrow> int i | None \<Rightarrow> -1) (Type f))"

definition buildPreProjection :: "AggItem list \<Rightarrow> physical \<Rightarrow> physical pres" where
  "buildPreProjection aggs child = (if \<forall>agg \<in> set aggs. AArg agg = None then Inr child else
     (let schema = op_schema child in res_bind (map_res (\<lambda>(agg, e). res_map (\<lambda>x. (ColName agg, x)) (buildExecExpr e schema))
         (List.map_filter (\<lambda>agg. map_option (\<lambda>e. (agg, e)) (AArg agg)) aggs)) (\<lambda>syn.
       let es = map (pass_through schema) schema @ syn in res_map (\<lambda>_. PProject child es) (exec_res (NewProject es)))))"

definition group_by_index :: "Schema \<Rightarrow> sql_expr \<Rightarrow> int pres" where
  "group_by_index schema e = (case e of ColumnRefExpr table name \<Rightarrow> (case IndexOf schema name of Some i \<Rightarrow> Inr (int i) | None \<Rightarrow> Inl (Err PErrGroupBy)) | _ \<Rightarrow> Inl (Err PErrGroupBy))"

definition index_or_minus_one :: "Schema \<Rightarrow> string \<Rightarrow> int" where
  "index_or_minus_one schema name = (case IndexOf schema name of Some i \<Rightarrow> int i | None \<Rightarrow> -1)"

definition agg_kind :: "AggItem \<Rightarrow> AggKind pres" where
  "agg_kind agg = (if Func agg = ''COUNT'' then Inr (if AggDistinct agg then AggCountDistinct else AggCount)
     else if Func agg = ''SUM'' then Inr AggSum else if Func agg = ''AVG'' then Inr AggAvg else if Func agg = ''MIN'' then Inr AggMin
     else if Func agg = ''MAX'' then Inr AggMax else Inl (Err PErrAggFunc))"

definition resolve_agg_item :: "Schema \<Rightarrow> AggItem \<Rightarrow> AggExpr pres" where
  "resolve_agg_item schema agg = res_bind (agg_kind agg) (\<lambda>kind.
     let ci = (if Func agg = ''COUNT'' \<and> ColName agg = [] then -1 else index_or_minus_one schema (ColName agg)) in
     if ci = -1 \<and> \<not> (kind = AggCount \<and> ColName agg = []) then Inl (Err PErrAggColumn) else
     let srcType = (if 0 \<le> ci then Type (schema ! nat ci) else TypeInt64) in
     if (kind = AggSum \<or> kind = AggAvg) \<and> srcType \<noteq> TypeInt64 \<and> srcType \<noteq> TypeFloat64 then Inl (Err PErrAggNumeric)
     else Inr \<lparr>AKind = kind, AColIdx = ci, OutName = AggAlias agg, ADistinct = AggDistinct agg, AccumType = Some (AccumTypeFor kind srcType)\<rparr>)"

definition resolveAggConfig :: "sql_expr list \<Rightarrow> AggItem list \<Rightarrow> Schema \<Rightarrow> (int list \<times> AggExpr list) pres" where
  "resolveAggConfig gb aggs schema = res_bind (map_res (group_by_index schema) gb) (\<lambda>gbi. res_map (\<lambda>aes. (gbi, aes)) (map_res (resolve_agg_item schema) aggs))"

text \<open>When the pre-projection fails, \<^verbatim>\<open>physicalAggregate\<close> closes the operator it returned, which is nil.\<close>

definition physicalAggregate :: "physical pres \<Rightarrow> sql_expr list \<Rightarrow> AggItem list \<Rightarrow> physical pres" where
  "physicalAggregate child gb aggs = res_bind child (\<lambda>child. case buildPreProjection aggs child of Inl _ \<Rightarrow> Inl Panic
   | Inr child \<Rightarrow> res_bind (resolveAggConfig gb aggs (op_schema child)) (\<lambda>(gbi, aes). res_map (PAggregate child) (exec_res (NewHashAggregate (op_schema child) gbi aes))))"

definition sort_key :: "Schema \<Rightarrow> sql_expr \<times> bool \<Rightarrow> SortKey pres" where
  "sort_key schema ob = (case fst ob of ColumnRefExpr table name \<Rightarrow> (case IndexOf schema name of Some i \<Rightarrow> Inr \<lparr>ColIdx = i, Descending = snd ob\<rparr> | None \<Rightarrow> Inl (Err PErrOrderBy)) | _ \<Rightarrow> Inl (Err PErrOrderBy))"

definition buildSortOp :: "(sql_expr \<times> bool) list \<Rightarrow> physical \<Rightarrow> physical pres" where
  "buildSortOp ob child = res_bind (map_res (sort_key (op_schema child)) ob) (\<lambda>ks. res_map (\<lambda>_. PSort child ks) (exec_res (NewExternalSort EOF ks)))"

definition buildLimitOp :: "i64 \<Rightarrow> i64 \<Rightarrow> physical \<Rightarrow> physical" where
  "buildLimitOp n off child = PLimit child (sint n) (sint off)"

definition resolveJoinKeys :: "sql_expr \<Rightarrow> Schema \<Rightarrow> Schema \<Rightarrow> (nat \<times> nat) pres" where
  "resolveJoinKeys cond bs ps = (case cond of
     BinaryExpr OpEQ (ColumnRefExpr lt lname) (ColumnRefExpr rt rname) \<Rightarrow>
       (case IndexOf bs lname of
          Some b \<Rightarrow> (case IndexOf ps rname of Some p \<Rightarrow> Inr (b, p) | None \<Rightarrow> Inl (Err PErrJoinKey))
        | None \<Rightarrow> (case (IndexOf bs rname, IndexOf ps lname) of (Some b, Some p) \<Rightarrow> Inr (b, p) | _ \<Rightarrow> Inl (Err PErrJoinKey)))
   | _ \<Rightarrow> Inl (Err PErrJoinCondition))"

definition physicalJoin :: "physical pres \<Rightarrow> physical pres \<Rightarrow> sql_expr \<Rightarrow> physical pres" where
  "physicalJoin b p cond = res_bind b (\<lambda>b. res_bind p (\<lambda>p. res_bind (resolveJoinKeys cond (op_schema b) (op_schema p)) (\<lambda>(bk, pk).
     res_map (\<lambda>_. PJoin b p bk pk) (exec_res (NewHashJoin (op_schema b) (op_schema p) (int bk) (int pk))))))"

text \<open>The remaining nodes, after their child is planned.\<close>

definition physicalFilter :: "physical pres \<Rightarrow> sql_expr \<Rightarrow> physical pres" where
  "physicalFilter child p = res_bind child (buildFilterOp p)"

definition physicalProject :: "physical pres \<Rightarrow> ProjectItem list \<Rightarrow> physical pres" where
  "physicalProject child items = res_bind child (buildProjectOp items)"

definition physicalSort :: "physical pres \<Rightarrow> (sql_expr \<times> bool) list \<Rightarrow> physical pres" where
  "physicalSort child ob = res_bind child (buildSortOp ob)"

definition physicalLimit :: "physical pres \<Rightarrow> i64 \<Rightarrow> i64 \<Rightarrow> physical pres" where
  "physicalLimit child n off = res_map (buildLimitOp n off) child"

definition physicalDistinct :: "physical pres \<Rightarrow> physical pres" where
  "physicalDistinct child = res_map PDistinct child"

fun Physical :: "files \<Rightarrow> LogicalNode \<Rightarrow> physical pres" where
  "Physical fs (LScan n) = physicalScan fs n"
| "Physical fs (LFilter c p) = physicalFilter (Physical fs c) p"
| "Physical fs (LProject c items) = physicalProject (Physical fs c) items"
| "Physical fs (LAggregate c gb aggs) = physicalAggregate (Physical fs c) gb aggs"
| "Physical fs (LSort c ob) = physicalSort (Physical fs c) ob"
| "Physical fs (LLimit c n off) = physicalLimit (Physical fs c) n off"
| "Physical fs (LJoin l r cond) = physicalJoin (Physical fs l) (Physical fs r) cond"
| "Physical fs (LDistinct c) = physicalDistinct (Physical fs c)"

end
