(* ===== verification/PrunedScan.thy ===== *)
theory PrunedScan
  imports Pruning Physical
begin

text \<open>
  The scan of a plan with a pushed-down predicate (\<^verbatim>\<open>physicalScan\<close>): skipping row groups by their zone maps does not change the rows that the filter above
  the scan selects.
\<close>

section \<open>Expressions read rows\<close>

fun cols_below :: "nat \<Rightarrow> expr \<Rightarrow> bool" where
  "cols_below n (ColumnRef name c t) \<longleftrightarrow> nat c < n"
| "cols_below n (LiteralExpr v t) \<longleftrightarrow> True"
| "cols_below n (CastIntToFloatExpr e) \<longleftrightarrow> cols_below n e"
| "cols_below n (BinOp op l r t) \<longleftrightarrow> cols_below n l \<and> cols_below n r"
| "cols_below n (AndExpr cs) \<longleftrightarrow> (\<forall>c \<in> set cs. cols_below n c)"
| "cols_below n (OrExpr cs) \<longleftrightarrow> (\<forall>c \<in> set cs. cols_below n c)"
| "cols_below n (NotExpr e) \<longleftrightarrow> cols_below n e"
| "cols_below n (IsNullExpr e) \<longleftrightarrow> cols_below n e"
| "cols_below n (IsNotNullExpr e) \<longleftrightarrow> cols_below n e"
| "cols_below n (InExpr e lits hasNull) \<longleftrightarrow> cols_below n e"
| "cols_below n (LikeExpr e pattern) \<longleftrightarrow> cols_below n e"
| "cols_below n (BetweenExpr c lo hi) \<longleftrightarrow> cols_below n c \<and> cols_below n lo \<and> cols_below n hi"
| "cols_below n (StringEqExpr col lit negate) \<longleftrightarrow> col < n"
| "cols_below n (CaseExpr ws els t) \<longleftrightarrow> (\<forall>w \<in> set ws. cols_below n (fst w) \<and> cols_below n (snd w)) \<and> (case els of None \<Rightarrow> True | Some e \<Rightarrow> cols_below n e)"

lemma sem_row:
  assumes "row_at b i = row_at b' i'" "cols_below (length (Vectors b)) e"
  shows "sem b i e = sem b' i' e"
proof -
  have len: "length (Vectors b) = length (Vectors b')" using arg_cong [OF assms(1), of length] by (simp add: row_at_def)
  have col: "col_at b c i = col_at b' c i'" if "c < length (Vectors b)" for c
    using arg_cong [OF assms(1), of "\<lambda>r. r ! c"] that len by (simp add: row_at_def col_at_def)
  show ?thesis using assms(2)
  proof (induction e)
    case (CaseExpr ws els t)
    have w: "(as_bool (sem b i (fst w)), sem b i (snd w)) = (as_bool (sem b' i' (fst w)), sem b' i' (snd w))" if "w \<in> set ws" for w
      using CaseExpr.IH(1,2) [OF that] CaseExpr.prems that by (cases w) auto
    have "(case els of None \<Rightarrow> None | Some e \<Rightarrow> sem b i e) = (case els of None \<Rightarrow> None | Some e \<Rightarrow> sem b' i' e)"
      using CaseExpr.IH(3) CaseExpr.prems by (cases els) auto
    moreover have "map (\<lambda>w. (as_bool (sem b i (fst w)), sem b i (snd w))) ws = map (\<lambda>w. (as_bool (sem b' i' (fst w)), sem b' i' (snd w))) ws"
      using w by (rule map_cong [OF refl])
    ultimately show ?case by (simp only: sem.simps)
  next
    case (AndExpr cs)
    then have "map (\<lambda>c. as_bool (sem b i c)) cs = map (\<lambda>c. as_bool (sem b' i' c)) cs" by (intro map_cong) auto
    then show ?case by (simp only: sem.simps)
  next
    case (OrExpr cs)
    then have "map (\<lambda>c. as_bool (sem b i c)) cs = map (\<lambda>c. as_bool (sem b' i' c)) cs" by (intro map_cong) auto
    then show ?case by (simp only: sem.simps)
  qed (simp_all add: col)
qed

lemma coerce_cols: "cols_below n b \<Longrightarrow> cols_below n (coerceOneSide a b)"
  by (cases b) (auto simp: coerceOneSide_def split: DataType.splits val.splits option.splits)

lemma cast_cols: "cols_below n e \<Longrightarrow> cols_below n (castToFloat e)"
  by (cases e) (auto simp: castToFloat_def split: val.splits)

lemma comparable_cols: "comparableOperands l r = Inr (l', r') \<Longrightarrow> cols_below n l \<Longrightarrow> cols_below n r \<Longrightarrow> cols_below n l' \<and> cols_below n r'"
  by (auto simp: comparableOperands_def Let_def cast_cols split: if_splits)

lemma buildBinExpr_cols: "buildBinExpr op l r = Inr x \<Longrightarrow> cols_below n l \<Longrightarrow> cols_below n r \<Longrightarrow> cols_below n x"
proof -
  assume b: "buildBinExpr op l r = Inr x" and lr: "cols_below n l" "cols_below n r"
  obtain yl yr where y: "coercePair l r = (yl, yr)" by (cases "coercePair l r")
  then have c: "cols_below n yl" "cols_below n yr" using lr by (auto simp: coercePair_def Let_def coerce_cols)
  have s: "cols_below n e" if "string_equality op yl yr = Some e" for e
    using that c by (auto simp: string_equality_def split: if_splits expr.splits val.splits)
  show ?thesis using b lr c y s
    by (auto simp: buildBinExpr_def res_bind_eq_Inr res_map_eq_Inr split: if_splits option.splits dest: comparable_cols)
qed

lemma buildUnary_cols: "buildUnary op c = Inr x \<Longrightarrow> cols_below n c \<Longrightarrow> cols_below n x"
  by (cases op; cases "ExprType c") (auto simp: buildUnary_def)

lemma map_res_mem: "map_res f xs = Inr ys \<Longrightarrow> y \<in> set ys \<Longrightarrow> \<exists>x \<in> set xs. f x = Inr y"
  by (induction xs arbitrary: ys) (auto simp: res_bind_eq_Inr res_map_eq_Inr)

lemma buildExecExpr_cols: "buildExecExpr e es = Inr x \<Longrightarrow> cols_below (length es) x"
proof (induction e es arbitrary: x rule: buildExecExpr.induct)
  case (1 table name schema)
  then show ?case using IndexOf_Some by (fastforce simp: resolve_column_def split: option.splits if_splits)
next
  case (6 op l r schema)
  then obtain xl xr where x: "buildExecExpr l schema = Inr xl" "buildExecExpr r schema = Inr xr" "buildBinExpr op xl xr = Inr x" by (auto simp: res_bind_eq_Inr)
  show ?case using buildBinExpr_cols [OF x(3)] 6(1) [OF x(1)] 6(2) [OF x(1,2)] by blast
next
  case (7 op e schema)
  then show ?case using buildUnary_cols by (auto simp: res_bind_eq_Inr)
next
  case (9 e lo hi negated schema)
  then obtain c l h where x: "buildExecExpr e schema = Inr c" "buildExecExpr lo schema = Inr l" "buildExecExpr hi schema = Inr h" "buildBetween c l h negated = Inr x"
    by (auto simp: res_bind_eq_Inr)
  have "cols_below (length schema) c" "cols_below (length schema) l" "cols_below (length schema) h" using 9(1) [OF x(1)] 9(2) [OF x(1,2)] 9(3) [OF x(1,2,3)] by simp_all
  then show ?case using x(4) by (auto simp: buildBetween_def Let_def coerce_cols cast_cols split: if_splits sum.splits)
next
  case (10 e items negated schema)
  then show ?case by (auto simp: res_bind_eq_Inr buildIn_def res_map_eq_Inr Let_def split: if_splits)
next
  case (11 e pattern negated schema)
  then show ?case by (auto simp: res_bind_eq_Inr split: if_splits sql_expr.splits)
next
  case (12 ws els schema)
  obtain whens eo where x: "map_res (\<lambda>w. res_bind (buildExecExpr (fst w) schema) (\<lambda>cond.
       if ExprType cond \<noteq> TypeBool then Inl (Err PErrCaseCond) else res_map (\<lambda>result. (cond, result)) (buildExecExpr (snd w) schema))) ws = Inr whens"
    "(case els of None \<Rightarrow> Inr None | Some e \<Rightarrow> res_map Some (buildExecExpr e schema)) = (Inr eo :: expr option pres)" "buildCase whens eo = Inr x"
    using 12(4) by (auto simp: res_bind_eq_Inr)
  have "cols_below (length schema) (fst w) \<and> cols_below (length schema) (snd w)" if "w \<in> set whens" for w
    using map_res_mem [OF x(1) that] 12(1,2) by (auto simp: res_bind_eq_Inr res_map_eq_Inr split: if_splits)
  moreover have "case eo of None \<Rightarrow> True | Some e \<Rightarrow> cols_below (length schema) e"
    using x(1,2) 12(3) by (auto simp: res_map_eq_Inr split: option.splits)
  ultimately show ?case using x(3) by (auto simp: buildCase_def Let_def split: if_splits option.splits)
qed (auto simp: res_map_eq_Inr)


text \<open>So a filter selects rows by their contents.\<close>

definition selects :: "expr \<Rightarrow> val option list \<Rightarrow> bool" where
  "selects x row \<longleftrightarrow> (\<exists>b i. row_at b i = row \<and> sem b i x = Some (VBool True))"

lemma filtered_selects:
  assumes "cols_below (length (Vectors b)) x"
  shows "filtered x b = filter (selects x) (batch_rows b)"
proof -
  have "selects x (row_at b i) \<longleftrightarrow> sem b i x = Some (VBool True)" for i using sem_row [OF _ assms] by (metis selects_def)
  then show ?thesis by (simp add: filtered_def batch_rows_def filter_map comp_def)
qed


section \<open>The scan of a plan\<close>

text \<open>
  A scan node over the table file: its schema is the file's with the columns renamed, \<open>SourceNames\<close> leads back, and no name occurs twice.
\<close>

definition scans_table :: "Schema \<Rightarrow> LogicalScan \<Rightarrow> bool" where
  "scans_table schema n \<longleftrightarrow> distinct (map Name schema) \<and> distinct (map Name (LSchema n)) \<and> map Type (LSchema n) = map Type schema \<and>
     map (\<lambda>f. file_name n (Name f)) (LSchema n) = map Name schema"

lemma IndexOf_distinct: "distinct (map Name fs) \<Longrightarrow> i < length fs \<Longrightarrow> IndexOf fs (Name (fs ! i)) = Some i"
  by (induction fs arbitrary: i) (auto simp: nth_Cons split: nat.splits)

lemma openScan_at:
  assumes r: "reader_ok r schema T" "schema \<noteq> []" and n: "scans_table schema n" and op: "openScan n r pred a b = Inr s" and b: "b \<le> length T"
  shows "scan_at schema T s None" "rgIdx s = a" "rgEnd s = b" "zonePred s = pred" "treader s = r" "length (tschema s) = length (colMap s)"
    "\<And>j. j < length (colMap s) \<Longrightarrow> colMap s ! j < length schema \<and> Type (tschema s ! j) = Type (schema ! (colMap s ! j)) \<and> Name (schema ! (colMap s ! j)) = file_name n (Name (tschema s ! j))"
proof -
  obtain s0 where s0: "NewTableScanRange r (map (file_name n) (NeededCols n)) pred a b = Inr s0" "(if SourceNames n = None then Inr s0 else SetOutputNames (output_names n) s0) = Inr s"
    using op by (auto simp: openScan_def res_bind_eq_Inr)
  note a = NewTableScanRange_at [OF r s0(1) b]
  have len: "length (tschema s0) = length (colMap s0)" using a(8) by simp
  have s: "s = s0\<lparr>tschema := tschema s\<rparr>" "map Type (tschema s) = map Type (tschema s0)"
    "SourceNames n \<noteq> None \<Longrightarrow> length (output_names n) = length (colMap s0) \<and> map Name (tschema s) = output_names n" "SourceNames n = None \<Longrightarrow> tschema s = tschema s0"
    using s0(2) len by (auto simp: SetOutputNames_def split: if_splits intro!: nth_equalityI)
  have c: "colMap s = colMap s0" "length (tschema s) = length (tschema s0)" using s(1) arg_cong [OF s(2), of length] by (metis TableScan.ext_inject TableScan.surjective TableScan.update_convs(2), simp)
  show "rgIdx s = a" "rgEnd s = b" "zonePred s = pred" "treader s = r" using a by (subst s(1), simp)+
  show "length (tschema s) = length (colMap s)" using c len by simp
  have t: "map Type (tschema s) = map (\<lambda>c. Type (schema ! c)) (colMap s0)" using s(2) a(8) by simp
  have "bufs s0 = None" using s0(1) by (auto simp: NewTableScanRange_def Let_def res_map_eq_Inr)
  then show "scan_at schema T s None" using a(1) t by (subst s(1)) (simp add: scan_at_def scan_ok_def)
  have names: "map (\<lambda>c. Name (schema ! c)) (colMap s0) = map (file_name n) (map Name (tschema s))"
  proof (cases "SourceNames n")
    case None
    then have "file_name n = (\<lambda>x. x)" by (auto simp: file_name_def)
    then show ?thesis using s(4) [OF None] a(8) by simp
  next
    case (Some m)
    then have "map Name (tschema s) = output_names n" using s(3) by simp
    then show ?thesis using a(7) n by (auto simp: output_names_def scans_table_def comp_def)
  qed
  fix j assume j: "j < length (colMap s)"
  have "colMap s0 ! j < length schema" using a(1) j c(1) by (simp add: scan_at_def scan_ok_def)
  then show "colMap s ! j < length schema \<and> Type (tschema s ! j) = Type (schema ! (colMap s ! j)) \<and> Name (schema ! (colMap s ! j)) = file_name n (Name (tschema s ! j))"
    using arg_cong [OF t, of "\<lambda>xs. xs ! j"] arg_cong [OF names, of "\<lambda>xs. xs ! j"] j c len by simp
qed

text \<open>Every row of a row group lies in its zones.\<close>

lemma col_cell_type: "col_cell c i = Some v \<Longrightarrow> val_type v = col_type (snd c)"
  by (cases "(c, i)" rule: col_cell.cases) (auto split: if_splits)

lemma scanned_row_in_zones:
  assumes r: "reader_ok r schema T" "schema \<noteq> []" and n: "scans_table schema n" and op: "openScan n r pred a b = Inr s" and b: "b \<le> length T"
    and g: "g < length T" "row \<in> set (rg_rows (colMap s) (T ! g))" "row_at bt i = row"
  shows "row_in_zones (LSchema n) (tschema s) (RowGroups (rmeta r) ! g) bt i"
  unfolding row_in_zones_def
proof (intro allI impI)
  fix name c j assume c: "IndexOf (LSchema n) name = Some c" and j: "IndexOf (tschema s) name = Some j"
  note s = openScan_at [OF r n op b]
  have m: "rg_at_meta (rfile r) schema (T ! g) (RowGroups (rmeta r) ! g)" using r(1) g(1) by (auto simp: reader_ok_def list_all2_conv_all_nth)
  have jl: "j < length (colMap s)" "Name (tschema s ! j) = name" using IndexOf_Some [OF j] s(6) by auto
  have cl: "c < length (LSchema n)" "Name (LSchema n ! c) = name" using IndexOf_Some [OF c] by auto
  have len: "length (LSchema n) = length schema" using n by (metis scans_table_def length_map)
  have "file_name n name = Name (schema ! c)" "Type (LSchema n ! c) = Type (schema ! c)"
    using n cl len arg_cong [of _ _ "\<lambda>xs. xs ! c"] unfolding scans_table_def by (metis nth_map)+
  moreover have d: "distinct (map Name schema)" using n by (simp add: scans_table_def)
  moreover have "IndexOf schema (Name (schema ! c)) = Some c" by (rule IndexOf_distinct [OF d]) (use cl(1) len in simp)
  moreover have "IndexOf schema (Name (schema ! (colMap s ! j))) = Some (colMap s ! j)" by (rule IndexOf_distinct [OF d]) (use s(7) [OF jl(1)] in simp)
  ultimately have cj: "colMap s ! j = c" "Type (LSchema n ! c) = Type (tschema s ! j)" using s(7) [OF jl(1)] jl(2) by auto
  obtain k where k: "k < fst (T ! g)" "row = map (\<lambda>c. col_cell (snd (T ! g) ! c) k) (colMap s)" using g(2) by (auto simp: rg_rows_def)
  have "length (Vectors bt) = length (colMap s)" using arg_cong [OF g(3), of length] k(2) by (simp add: row_at_def)
  then have cell: "col_at bt j i = col_cell (snd (T ! g) ! c) k"
    using arg_cong [OF g(3), of "\<lambda>r. r ! j"] jl(1) cj(1) k(2) by (simp add: row_at_def col_at_def)
  have "col_at_meta (rfile r) (fst (T ! g)) (Type (schema ! c)) (snd (T ! g) ! c) (Writer.Columns (RowGroups (rmeta r) ! g) ! c)"
    using m cl(1) len by (auto simp: rg_at_meta_def)
  then have ok: "column_ok (fst (T ! g)) (Type (schema ! c)) (snd (T ! g) ! c)" "Stats (Writer.Columns (RowGroups (rmeta r) ! g) ! c) = col_stats (fst (snd (T ! g) ! c)) (snd (snd (T ! g) ! c))"
    by (auto simp: col_at_meta_def)
  show "Type (LSchema n ! c) = Type (tschema s ! j) \<and> (\<forall>v. col_at bt j i = Some v \<longrightarrow> val_type v = Type (tschema s ! j) \<and> in_zone (Stats (Writer.Columns (RowGroups (rmeta r) ! g) ! c)) v)"
  proof (intro conjI allI impI cj(2))
    fix v assume v: "col_at bt j i = Some v"
    show "val_type v = Type (tschema s ! j)" using col_cell_type [of "snd (T ! g) ! c" k v] v cell ok(1) cj(1) s(7) [OF jl(1)] by (simp add: column_ok_def)
    show "in_zone (Stats (Writer.Columns (RowGroups (rmeta r) ! g) ! c)) v" using stats_cover [OF ok(1) k(1)] v cell by (simp add: ok(2))
  qed
qed

section \<open>Pruning is invisible\<close>

lemma filtered_rows:
  assumes "\<forall>b \<in> set (batches out). wf_rows G b" "cols_below (length G) x"
  shows "concat (map (filtered x) (batches out)) = filter (selects x) (all_rows out)"
proof -
  have "map (filtered x) (batches out) = map (\<lambda>b. filter (selects x) (batch_rows b)) (batches out)"
    using assms by (intro map_cong refl filtered_selects) (auto simp: wf_rows_def wf_batch_def)
  then show ?thesis by (simp only: all_rows_def filter_concat map_map comp_def)
qed

lemma physicalScan_filter:
  assumes "physicalScan fs n = Inr p" "Predicate n = Some e"
  obtains r s x where "open_file fs (FilePath n) = Inr r" "openScan n r (Some (buildZonePredicate e (LSchema n))) 0 (length (RowGroups (rmeta r))) = Inr s"
    "buildExecExpr e (tschema s) = Inr x" "p = PFilter (PScan s) x"
  using assms by (auto simp: physicalScan_def buildFilterOp_def res_bind_eq_Inr res_map_eq_Inr)

text \<open>
  C9: pruning by zone maps loses no row. For a written table and a scan node over it with a pushed-down predicate, the physical plan is a filter over a scan; draining
  that scan, which skips the row groups that the zone predicate rejects, and filtering gives the same rows in the same order as filtering a scan of the whole table.
  The predicate's column names are resolved, and no INT64 operand of BETWEEN has one INT64 and one FLOAT64 bound.
\<close>

theorem pruned_scan_equivalent:
  assumes w: "writes schema ops T" "write_table schema ops = Inr bytes" and f: "fs (FilePath n) = Some bytes" and n: "scans_table schema n" and e: "Predicate n = Some e" "resolved e"
    and p: "physicalScan fs n = Inr p" and u: "uniform_between (op_schema p) e"
  shows "\<exists>s x out full. p = PFilter (PScan s) x \<and> drain TableScan_Next s = Some out \<and> drain TableScan_Next (s\<lparr>zonePred := None\<rparr>) = Some full \<and> ends_ok out \<and> ends_ok full \<and>
    all_rows full = concat (map (rg_rows (colMap s)) T) \<and> concat (map (filtered x) (batches out)) = concat (map (filtered x) (batches full))"
proof -
  obtain r s x where rs: "open_file fs (FilePath n) = Inr r" "openScan n r (Some (buildZonePredicate e (LSchema n))) 0 (length (RowGroups (rmeta r))) = Inr s"
    "buildExecExpr e (tschema s) = Inr x" "p = PFilter (PScan s) x" using physicalScan_filter [OF p e(1)] .
  have "Open bytes = Inr r" using rs(1) f by (auto simp: open_file_def split: sum.splits go_err.splits)
  then have r: "reader_ok r schema T" using writes_reader [OF w(1)] w(2) by force
  have ne: "schema \<noteq> []" using w(1) by (simp add: writes_def schema_ok_def)
  have T: "length (RowGroups (rmeta r)) = length T" using r by (auto simp: reader_ok_def list_all2_lengthD)
  note op = rs(2) [unfolded T]
  note s = openScan_at [OF r ne n op le_refl]
  let ?s = "s\<lparr>zonePred := None\<rparr>"
  have at: "scan_at schema T ?s None" using s(1) by (simp add: scan_at_def scan_ok_def)
  obtain out where out: "drain TableScan_Next s = Some out" "ends_ok out" "\<forall>b \<in> set (batches out). wf_rows (scan_types s) b" "all_rows out = groups_rows T s 0"
    using scan_drain [OF s(1)] s(2) by (auto simp: scan_rest_def)
  obtain full where full: "drain TableScan_Next ?s = Some full" "ends_ok full" "\<forall>b \<in> set (batches full). wf_rows (scan_types s) b" "all_rows full = groups_rows T ?s 0"
    using scan_drain [OF at] s(2) by (auto simp: scan_rest_def scan_types_def)
  have all: "all_rows full = concat (map (rg_rows (colMap s)) T)"
  proof -
    have "map (\<lambda>i. rg_rows (colMap s) (T ! i)) [0..<length T] = map (rg_rows (colMap s)) T" by (rule nth_equalityI) simp_all
    then show ?thesis using s(3) by (simp add: full(4) groups_rows_def keeps_def)
  qed
  have cols: "cols_below (length (scan_types s)) x" using buildExecExpr_cols [OF rs(3)] by (simp add: scan_types_def)
  have skip: "filter (selects x) (rg_rows (colMap s) (T ! g)) = []" if "g < length T" "\<not> keeps s g" for g
  proof -
    have z: "\<not> zonePredEval e (LSchema n) (RowGroups (rmeta r) ! g)" using that(2) s(4,5) by (simp add: keeps_def buildZonePredicate_def)
    have "\<not> selects x row" if row: "row \<in> set (rg_rows (colMap s) (T ! g))" for row
      using zonePredEval_sound [OF z scanned_row_in_zones [OF r ne n op le_refl \<open>g < length T\<close> row] e(2) _ rs(3)] u rs(4) by (auto simp: selects_def)
    then show ?thesis by (simp add: filter_empty_conv)
  qed
  have "filter (selects x) (all_rows out) = filter (selects x) (all_rows full)"
    unfolding out(4) full(4) groups_rows_def filter_concat map_map comp_def using skip s(3) by (intro arg_cong [where f = concat] map_cong) (auto simp: keeps_def)
  then show ?thesis using rs(4) out full all filtered_rows [OF out(3) cols] filtered_rows [OF full(3) cols] by auto
qed

definition ex_scan :: LogicalScan where
  "ex_scan = \<lparr>TableName = ''t'', FilePath = ''t.vxq'', LSchema = ScanSem.ex_schema, Predicate = Some (BinaryExpr OpGT (ColumnRefExpr [] ''k'') (UnaryExpr OpMinus (IntLiteral 7))),
     NeededCols = [], SourceNames = None\<rparr>"

theorem pruned_scan_equivalent_witness:
  "\<exists>bytes p s x out full. write_table ScanSem.ex_schema ex_ops = Inr bytes \<and> physicalScan (\<lambda>_. Some bytes) ex_scan = Inr p \<and> p = PFilter (PScan s) x \<and>
    drain TableScan_Next s = Some out \<and> drain TableScan_Next (s\<lparr>zonePred := None\<rparr>) = Some full \<and> all_rows full = concat (map (rg_rows (colMap s)) ex_table) \<and>
    concat (map (filtered x) (batches out)) = concat (map (filtered x) (batches full))"
proof -
  obtain bytes r where w: "write_table ScanSem.ex_schema ex_ops = Inr bytes" "length bytes = file_size ScanSem.ex_schema ex_table" "Open bytes = Inr r" "reader_ok r ScanSem.ex_schema ex_table" "rfile r = bytes"
    using writes_reader [OF ex_writes] .
  let ?e = "BinaryExpr OpGT (ColumnRefExpr [] ''k'') (UnaryExpr OpMinus (IntLiteral 7))"
  have m: "MSchema (rmeta r) = ScanSem.ex_schema" using w(4) by (simp add: reader_ok_def)
  have b: "buildExecExpr ?e ScanSem.ex_schema = Inr (BinOp BinGT (ColumnRef ''k'' 0 TypeInt64) (BinOp BinMul (LiteralExpr (VInt 7) TypeInt64) (LiteralExpr (VInt (- 1)) TypeInt64) TypeInt64) TypeBool)"
    by (simp add: ScanSem.ex_schema_def resolve_column_def buildBinExpr_def buildUnary_def coercePair_def coerceOneSide_def string_equality_def comparableOperands_def)
  have t: "map ((!) ScanSem.ex_schema) [0..<length ScanSem.ex_schema] = ScanSem.ex_schema" by (rule map_nth)
  obtain p where p: "physicalScan (\<lambda>_. Some bytes) ex_scan = Inr p" "op_schema p = ScanSem.ex_schema"
    using b by (auto simp: physicalScan_def open_file_def w(3) openScan_def ex_scan_def NewTableScanRange_def m exec_res_def buildFilterOp_def t NewFilter_def simp del: buildExecExpr.simps)
  have n: "scans_table ScanSem.ex_schema ex_scan" by (simp add: scans_table_def ScanSem.ex_schema_def ex_scan_def file_name_def)
  have "Predicate ex_scan = Some ?e" "resolved ?e" "uniform_between (op_schema p) ?e" by (simp_all add: ex_scan_def resolved_def uniform_between_def uniform_bounds_def)
  from pruned_scan_equivalent [OF ex_writes w(1) _ n this(1,2) p(1) this(3)] show ?thesis using w(1) p(1) by auto
qed

end
