(* ===== verification/Build.thy ===== *)
theory Build
  imports Physical
begin

text \<open>
  Statements to logical plans (\<^verbatim>\<open>planner/build.go\<close>, \<^verbatim>\<open>catalog/catalog.go\<close>): column resolution, the join tree and the placement of WHERE terms, aggregation, the SELECT list, ordering and
  limits. The maps of the symbol table are functions of its column bindings; a Go set of names is a list. The aggregate node changes while SELECT, HAVING and ORDER BY are
  rewritten, so that it is part of the builder's state and enters the plan at the end.
\<close>

section \<open>The catalog\<close>

record TableEntry =
  TName :: string
  TPath :: string
  TSchema :: Schema

type_synonym Catalog = "string \<rightharpoonup> TableEntry"

definition Register :: "string \<Rightarrow> string \<Rightarrow> Schema \<Rightarrow> Catalog \<Rightarrow> Catalog" where
  "Register name path schema cat = cat(name \<mapsto> \<lparr>TName = name, TPath = path, TSchema = schema\<rparr>)"

definition loadSchema :: "files \<Rightarrow> TableEntry \<Rightarrow> TableEntry option" where
  "loadSchema fs e = (case open_file fs (TPath e) of Inr r \<Rightarrow> Some (e\<lparr>TSchema := MSchema (rmeta r)\<rparr>) | Inl _ \<Rightarrow> None)"

definition Lookup :: "files \<Rightarrow> string \<Rightarrow> Catalog \<Rightarrow> TableEntry option \<times> Catalog" where
  "Lookup fs name cat = (case cat name of None \<Rightarrow> (None, cat)
   | Some e \<Rightarrow> if TSchema e = [] \<and> TPath e \<noteq> [] then (case loadSchema fs e of None \<Rightarrow> (None, cat) | Some e \<Rightarrow> (Some e, cat(name \<mapsto> e)))
     else (Some e, cat))"


section \<open>Column resolution\<close>

record columnBinding =
  btable :: nat
  bsource :: string
  bout :: string

record symbolTable =
  tableNames :: "string list"
  bindings :: "columnBinding list list"

definition all_bindings :: "symbolTable \<Rightarrow> columnBinding list" where
  "all_bindings st = concat (bindings st)"

definition newSymbolTable :: "Schema list \<Rightarrow> (string \<times> string) list \<Rightarrow> symbolTable pres" where
  "newSymbolTable schemas refs = (let names = map (\<lambda>(name, alias). if alias = [] then name else alias) refs;
       uses = (\<lambda>name. length (filter (\<lambda>f. Name f = name) (concat schemas))) in
     if \<not> distinct names then Inl (Err PErrTableTwice)
     else Inr \<lparr>tableNames = names, bindings = map (\<lambda>(i, schema). map (\<lambda>f. \<lparr>btable = i, bsource = Name f,
       bout = (if 1 < uses (Name f) then names ! i @ ''.'' @ Name f else Name f)\<rparr>) schema) (enumerate 0 schemas)\<rparr>)"

definition by_name :: "symbolTable \<Rightarrow> string \<Rightarrow> columnBinding list" where
  "by_name st name = filter (\<lambda>b. bsource b = name) (all_bindings st)"

definition qualified_binding :: "symbolTable \<Rightarrow> string \<Rightarrow> columnBinding option" where
  "qualified_binding st q = find (\<lambda>b. tableNames st ! btable b @ ''.'' @ bsource b = q) (rev (all_bindings st))"

definition tableOfOut :: "symbolTable \<Rightarrow> string \<Rightarrow> nat option" where
  "tableOfOut st out = map_option btable (find (\<lambda>b. bout b = out) (rev (all_bindings st)))"

definition applyOutputNames :: "columnBinding list \<Rightarrow> LogicalScan \<Rightarrow> LogicalScan" where
  "applyOutputNames bs sc = (let renamed = filter (\<lambda>b. bout b \<noteq> bsource b) bs in
     sc\<lparr>LSchema := map (\<lambda>(f, b). f\<lparr>Name := bout b\<rparr>) (zip (LSchema sc) bs),
          SourceNames := (if renamed = [] then SourceNames sc
            else Some ((case SourceNames sc of None \<Rightarrow> Map.empty | Some m \<Rightarrow> m) ++ map_of (rev (map (\<lambda>b. (bout b, bsource b)) renamed))))\<rparr>)"

definition resolve :: "symbolTable \<Rightarrow> string \<Rightarrow> string \<Rightarrow> columnBinding pres" where
  "resolve st table name = (if table \<noteq> [] then (case qualified_binding st (table @ ''.'' @ name) of Some b \<Rightarrow> Inr b | None \<Rightarrow> Inl (Err PErrUnknownColumn))
     else (case by_name st name of [] \<Rightarrow> Inl (Err PErrUnknownColumn) | [b] \<Rightarrow> Inr b | _ \<Rightarrow> Inl (Err PErrAmbiguousColumn)))"

definition resolve_fn :: "symbolTable \<Rightarrow> unit rewriter" where
  "resolve_fn st n s = (case n of ColumnRefExpr table name \<Rightarrow> res_map (\<lambda>b. (Some (ColumnRefExpr [] (bout b)), s)) (resolve st table name) | _ \<Rightarrow> Inr (None, s))"

definition resolveColumns :: "symbolTable \<Rightarrow> sql_expr \<Rightarrow> sql_expr pres" where
  "resolveColumns st e = res_map fst (rewriteExpr (resolve_fn st) e ())"

definition resolveScalar :: "symbolTable \<Rightarrow> sql_expr option \<Rightarrow> sql_expr option pres" where
  "resolveScalar st e = (case e of None \<Rightarrow> Inr None
   | Some e \<Rightarrow> if containsAggregate (Some e) then Inl (Err PErrAggregate) else res_map Some (resolveColumns st e))"

definition tablesOf :: "symbolTable \<Rightarrow> sql_expr \<Rightarrow> nat list" where
  "tablesOf st e = remdups (List.map_filter (\<lambda>n. case n of ColumnRefExpr table name \<Rightarrow> tableOfOut st name | _ \<Rightarrow> None) (walkExpr e))"


section \<open>Joins\<close>

fun flattenAnd :: "sql_expr \<Rightarrow> sql_expr list" where
  "flattenAnd (BinaryExpr op l r) = (if op = OpAnd then flattenAnd l @ flattenAnd r else [BinaryExpr op l r])"
| "flattenAnd e = [e]"

definition andExpr :: "sql_expr option \<Rightarrow> sql_expr \<Rightarrow> sql_expr" where
  "andExpr a b = (case a of None \<Rightarrow> b | Some a \<Rightarrow> BinaryExpr OpAnd a b)"

record joinEdge =
  leftTable :: nat
  rightTable :: nat
  leftCol :: string
  rightCol :: string
  eterm :: sql_expr

definition fieldType :: "Schema \<Rightarrow> string \<Rightarrow> DataType option" where
  "fieldType schema name = map_option (\<lambda>i. Type (schema ! i)) (IndexOf schema name)"

definition joinEdgeOf :: "sql_expr \<Rightarrow> LogicalScan list \<Rightarrow> symbolTable \<Rightarrow> joinEdge option" where
  "joinEdgeOf e scans st = (case e of
     BinaryExpr OpEQ (ColumnRefExpr lq lname) (ColumnRefExpr rq rname) \<Rightarrow> (case (tableOfOut st lname, tableOfOut st rname) of
         (Some lt, Some rt) \<Rightarrow> (let ltype = fieldType (LSchema (scans ! lt)) lname; rtype = fieldType (LSchema (scans ! rt)) rname in
           if lt = rt \<or> ltype \<noteq> rtype \<or> (ltype \<noteq> Some TypeInt64 \<and> ltype \<noteq> Some TypeDate) then None
           else Some \<lparr>leftTable = lt, rightTable = rt, leftCol = lname, rightCol = rname, eterm = e\<rparr>)
       | _ \<Rightarrow> None)
   | _ \<Rightarrow> None)"

text \<open>The first edge between a table of the tree and one outside, with the new table and the two columns, and the edges that remain.\<close>

fun pick_edge :: "nat list \<Rightarrow> joinEdge list \<Rightarrow> ((nat \<times> string \<times> string) \<times> joinEdge list) option" where
  "pick_edge included [] = None"
| "pick_edge included (e # es) = (
     if leftTable e \<in> set included \<and> rightTable e \<notin> set included then Some ((rightTable e, leftCol e, rightCol e), es)
     else if rightTable e \<in> set included \<and> leftTable e \<notin> set included then Some ((leftTable e, rightCol e, leftCol e), es)
     else map_option (\<lambda>(new, es). (new, e # es)) (pick_edge included es))"

text \<open>The loop runs once for every table that is not in the tree yet.\<close>

fun join_loop :: "nat \<Rightarrow> LogicalScan list \<Rightarrow> nat list \<Rightarrow> joinEdge list \<Rightarrow> LogicalNode \<Rightarrow> (LogicalNode \<times> joinEdge list) pres" where
  "join_loop 0 scans included edges root = Inr (root, edges)"
| "join_loop (Suc k) scans included edges root = (case pick_edge included edges of None \<Rightarrow> Inl (Err PErrCrossJoin)
   | Some ((newTable, inTree, inNew), edges) \<Rightarrow> join_loop k scans (newTable # included) edges
       (LJoin root (LScan (scans ! newTable)) (BinaryExpr OpEQ (ColumnRefExpr [] inTree) (ColumnRefExpr [] inNew))))"

definition buildJoinTree :: "LogicalScan list \<Rightarrow> joinEdge list \<Rightarrow> (LogicalNode \<times> joinEdge list) pres" where
  "buildJoinTree scans edges = join_loop (length scans - 1) scans [0] edges (LScan (hd scans))"

definition place_term :: "LogicalScan list \<Rightarrow> symbolTable \<Rightarrow> sql_expr option list \<times> joinEdge list \<times> sql_expr list \<Rightarrow> sql_expr \<Rightarrow> sql_expr option list \<times> joinEdge list \<times> sql_expr list" where
  "place_term scans st = (\<lambda>(filters, edges, residual) e. case joinEdgeOf e scans st of
     Some edge \<Rightarrow> (filters, edges @ [edge], residual)
   | None \<Rightarrow> (case tablesOf st e of
       [] \<Rightarrow> (filters[0 := Some (andExpr (filters ! 0) e)], edges, residual)
     | [t] \<Rightarrow> (filters[t := Some (andExpr (filters ! t) e)], edges, residual)
     | _ \<Rightarrow> (filters, edges, residual @ [e])))"

definition buildMultiTablePlan :: "LogicalScan list \<Rightarrow> sql_expr option \<Rightarrow> symbolTable \<Rightarrow> LogicalNode pres" where
  "buildMultiTablePlan scans cond st = (let (filters, edges, residual) = foldl (place_term scans st) (replicate (length scans) None, [], []) (case cond of None \<Rightarrow> [] | Some e \<Rightarrow> flattenAnd e);
       scans = map (\<lambda>(sc, f). case f of None \<Rightarrow> sc | Some p \<Rightarrow> sc\<lparr>Predicate := Some p\<rparr>) (zip scans filters) in
     res_map (\<lambda>(root, unused). case foldl (\<lambda>acc e. Some (andExpr acc e)) None (residual @ map eterm unused) of None \<Rightarrow> root | Some p \<Rightarrow> LFilter root p) (buildJoinTree scans edges))"

section \<open>The SELECT list\<close>

record selectItem =
  sexpr :: sql_expr
  salias :: string
  suserAlias :: string

definition expandSelectList :: "(sql_expr \<times> string) list \<Rightarrow> symbolTable \<Rightarrow> selectItem list" where
  "expandSelectList cols st = concat (map (\<lambda>(e, alias). if e = StarExpr
     then map (\<lambda>b. \<lparr>sexpr = ColumnRefExpr (tableNames st ! btable b) (bsource b), salias = bsource b, suserAlias = []\<rparr>) (all_bindings st)
     else [\<lparr>sexpr = e, salias = (if alias = [] then exprName e else alias), suserAlias = alias\<rparr>]) cols)"

text \<open>The candidates of the loop: among more names than there are used ones, one is free.\<close>

definition name_candidates :: "string \<Rightarrow> nat \<Rightarrow> nat \<Rightarrow> string list" where
  "name_candidates prefix n k = (let name = prefix @ ''_'' @ dec_digits n in name # map (\<lambda>j. name @ ''_'' @ dec_digits (Suc j)) [0..<k])"

definition uniqueName :: "string \<Rightarrow> nat \<Rightarrow> string list \<Rightarrow> string" where
  "uniqueName prefix n used = hd (filter (\<lambda>name. name \<notin> set used) (name_candidates prefix n (length used)))"

definition unique_items :: "selectItem list \<Rightarrow> sql_expr list \<Rightarrow> ProjectItem list" where
  "unique_items items exprs = fst (foldl (\<lambda>(out, used) (i, it, e). let name = (if salias it \<in> set used then uniqueName ''_col'' i used else salias it) in
     (out @ [\<lparr>PAlias = name, PExpr = e, PType = TypeInt64\<rparr>], name # used)) ([], []) (zip [0..<length items] (zip items exprs)))"

definition orderTarget :: "selectItem list \<Rightarrow> sql_expr list \<Rightarrow> sql_expr \<Rightarrow> nat option pres" where
  "orderTarget items exprs e = (case e of
     IntLiteral v \<Rightarrow> if sint v < 1 \<or> int (length items) < sint v then Inl (Err PErrOrderPosition) else Inr (Some (nat (sint v) - 1))
   | ColumnRefExpr table name \<Rightarrow> if table \<noteq> [] then Inr None else
       (case filter (\<lambda>i. salias (items ! i) = name) [0..<length items] of
          [] \<Rightarrow> Inr None
        | i # is \<Rightarrow> if \<forall>j \<in> set is. FormatExpr (exprs ! i) = FormatExpr (exprs ! j) then Inr (Some i) else Inl (Err PErrOrderAmbiguous))
   | _ \<Rightarrow> Inr None)"

definition matchItem :: "sql_expr \<Rightarrow> ProjectItem list \<Rightarrow> nat option" where
  "matchItem e items = find (\<lambda>i. FormatExpr (PExpr (items ! i)) = FormatExpr e) [0..<length items]"

definition isIdentityProject :: "ProjectItem list \<Rightarrow> Schema \<Rightarrow> bool" where
  "isIdentityProject items schema \<longleftrightarrow> length items = length schema \<and> (\<forall>i < length items. PExpr (items ! i) = ColumnRefExpr [] (Name (schema ! i)) \<and> PAlias (items ! i) = Name (schema ! i))"


section \<open>Aggregation\<close>

record aggBuilder =
  aggChild :: LogicalNode
  aggGroupBy :: "sql_expr list"
  aggItems :: "AggItem list"
  groupCols :: "string list"
  outNames :: "string list"

definition aggregate_node :: "aggBuilder \<Rightarrow> LogicalNode" where
  "aggregate_node ab = LAggregate (aggChild ab) (aggGroupBy ab) (aggItems ab)"

definition agg_argument :: "symbolTable \<Rightarrow> string \<Rightarrow> sql_expr option \<Rightarrow> bool \<Rightarrow> sql_expr option pres" where
  "agg_argument st fn arg dst = (case arg of None \<Rightarrow> Inr None
   | Some a \<Rightarrow> if a = StarExpr then (if fn \<noteq> ''COUNT'' \<or> dst then Inl (Err PErrAggStar) else Inr None)
     else if containsAggregate (Some a) then Inl (Err PErrAggNested) else res_map Some (resolveColumns st a))"

definition agg_item :: "string \<Rightarrow> bool \<Rightarrow> string \<Rightarrow> sql_expr option \<Rightarrow> nat \<Rightarrow> AggItem" where
  "agg_item fn dst name arg n = (case arg of
     None \<Rightarrow> \<lparr>Func = fn, ColName = [], AArg = None, AggAlias = name, AggDistinct = dst\<rparr>
   | Some (ColumnRefExpr table col) \<Rightarrow> \<lparr>Func = fn, ColName = col, AArg = None, AggAlias = name, AggDistinct = dst\<rparr>
   | Some a \<Rightarrow> \<lparr>Func = fn, ColName = ''_agg_arg_'' @ dec_digits n, AArg = Some a, AggAlias = name, AggDistinct = dst\<rparr>)"

definition addAggregate :: "symbolTable \<Rightarrow> string \<Rightarrow> sql_expr option \<Rightarrow> bool \<Rightarrow> string \<Rightarrow> aggBuilder \<Rightarrow> (sql_expr \<times> aggBuilder) pres" where
  "addAggregate st f arg dst name ab = (let fn = ToUpper f in if dst \<and> fn \<noteq> ''COUNT'' then Inl (Err PErrAggDistinct) else
     res_map (\<lambda>arg. let name = (if name = [] \<or> name \<in> set (outNames ab) then uniqueName ''_agg'' (length (aggItems ab)) (outNames ab) else name) in
       (ColumnRefExpr [] name, ab\<lparr>outNames := name # outNames ab, aggItems := aggItems ab @ [agg_item fn dst name arg (length (aggItems ab))]\<rparr>))
     (agg_argument st fn arg dst))"

definition item_key :: "AggItem \<Rightarrow> string" where
  "item_key a = (case AArg a of Some e \<Rightarrow> FormatExpr e | None \<Rightarrow> ColName a)"

definition arg_key :: "symbolTable \<Rightarrow> sql_expr option \<Rightarrow> string pres" where
  "arg_key st arg = (case arg of None \<Rightarrow> Inr []
   | Some a \<Rightarrow> if a = StarExpr \<or> containsAggregate (Some a) then Inr [] else res_map FormatExpr (resolveColumns st a))"

definition findOrAddAggregate :: "symbolTable \<Rightarrow> string \<Rightarrow> sql_expr option \<Rightarrow> bool \<Rightarrow> aggBuilder \<Rightarrow> (sql_expr \<times> aggBuilder) pres" where
  "findOrAddAggregate st f arg dst ab = res_bind (arg_key st arg) (\<lambda>key.
     case find (\<lambda>a. Func a = ToUpper f \<and> AggDistinct a = dst \<and> item_key a = key) (aggItems ab) of
       Some a \<Rightarrow> Inr (ColumnRefExpr [] (AggAlias a), ab)
     | None \<Rightarrow> addAggregate st f arg dst [] ab)"

definition agg_column_ref :: "symbolTable \<Rightarrow> (string \<Rightarrow> sql_expr option) \<Rightarrow> string \<Rightarrow> string \<Rightarrow> aggBuilder \<Rightarrow> sql_expr pres" where
  "agg_column_ref st alias table name ab = (case resolve st table name of
     Inl e \<Rightarrow> (case (if table = [] \<and> by_name st name = [] then alias name else None) of Some sub \<Rightarrow> Inr sub | None \<Rightarrow> Inl e)
   | Inr b \<Rightarrow> if bout b \<notin> set (groupCols ab) then Inl (Err PErrNotGrouped) else Inr (ColumnRefExpr [] (bout b)))"

definition agg_fn :: "symbolTable \<Rightarrow> (string \<Rightarrow> sql_expr option) \<Rightarrow> aggBuilder rewriter" where
  "agg_fn st alias n ab = (case n of
     AggFuncExpr f arg dst \<Rightarrow> res_map (\<lambda>(e, ab). (Some e, ab)) (findOrAddAggregate st f arg dst ab)
   | ColumnRefExpr table name \<Rightarrow> res_map (\<lambda>e. (Some e, ab)) (agg_column_ref st alias table name ab)
   | _ \<Rightarrow> Inr (None, ab))"

definition agg_rewrite :: "symbolTable \<Rightarrow> (string \<Rightarrow> sql_expr option) \<Rightarrow> sql_expr \<Rightarrow> aggBuilder \<Rightarrow> (sql_expr \<times> aggBuilder) pres" where
  "agg_rewrite st alias = rewriteExpr (agg_fn st alias)"

definition group_column :: "symbolTable \<Rightarrow> aggBuilder \<Rightarrow> sql_expr \<Rightarrow> aggBuilder pres" where
  "group_column st ab gb = (if containsAggregate (Some gb) then Inl (Err PErrAggregate) else case gb of
     ColumnRefExpr table name \<Rightarrow> res_map (\<lambda>b. ab\<lparr>aggGroupBy := aggGroupBy ab @ [ColumnRefExpr [] (bout b)], groupCols := bout b # groupCols ab, outNames := bout b # outNames ab\<rparr>) (resolve st table name)
   | _ \<Rightarrow> Inl (Err PErrGroupBy))"

definition agg_select_item :: "symbolTable \<Rightarrow> selectItem \<Rightarrow> aggBuilder \<Rightarrow> (sql_expr \<times> aggBuilder) pres" where
  "agg_select_item st it ab = (case sexpr it of AggFuncExpr f arg dst \<Rightarrow> addAggregate st f arg dst (salias it) ab | e \<Rightarrow> agg_rewrite st (\<lambda>_. None) e ab)"

text \<open>A query with its SELECT list resolved: over its input, or over the aggregate and the HAVING predicate.\<close>

datatype query_source = Scalar LogicalNode | Aggregated aggBuilder "sql_expr option"

fun source_node :: "query_source \<Rightarrow> LogicalNode" where
  "source_node (Scalar child) = child"
| "source_node (Aggregated ab None) = aggregate_node ab"
| "source_node (Aggregated ab (Some p)) = LFilter (aggregate_node ab) p"

definition buildScalarSelect :: "LogicalNode \<Rightarrow> selectItem list \<Rightarrow> symbolTable \<Rightarrow> (query_source \<times> sql_expr list) pres" where
  "buildScalarSelect child items st = res_map (\<lambda>es. (Scalar child, List.map_filter id es)) (map_res (\<lambda>it. resolveScalar st (Some (sexpr it))) items)"

definition select_alias :: "selectItem list \<Rightarrow> sql_expr list \<Rightarrow> string \<Rightarrow> sql_expr option" where
  "select_alias items exprs name = map_option snd (find (\<lambda>(it, e). suserAlias it = name) (zip items exprs))"

definition buildAggregation :: "LogicalNode \<Rightarrow> sql_expr list \<Rightarrow> sql_expr option \<Rightarrow> selectItem list \<Rightarrow> symbolTable \<Rightarrow> (query_source \<times> sql_expr list) pres" where
  "buildAggregation child gbs having items st = res_bind (fold_res (group_column st) \<lparr>aggChild = child, aggGroupBy = [], aggItems = [], groupCols = [], outNames = []\<rparr> gbs) (\<lambda>ab.
     res_bind (st_map (agg_select_item st) items ab) (\<lambda>(exprs, ab).
       res_map (\<lambda>(having, ab). (Aggregated ab having, exprs)) (st_opt (agg_rewrite st (select_alias items exprs)) having ab)))"

fun orderExpr :: "symbolTable \<Rightarrow> sql_expr \<Rightarrow> query_source \<Rightarrow> (sql_expr \<times> query_source) pres" where
  "orderExpr st e (Scalar child) = res_bind (resolveScalar st (Some e)) (\<lambda>r. case r of Some e \<Rightarrow> Inr (e, Scalar child) | None \<Rightarrow> Inl Panic)"
| "orderExpr st e (Aggregated ab having) = res_map (\<lambda>(e, ab). (e, Aggregated ab having)) (agg_rewrite st (\<lambda>_. None) e ab)"


section \<open>Ordering, limits and the whole statement\<close>

type_synonym order_state = "ProjectItem list \<times> (sql_expr \<times> bool) list \<times> query_source"

definition hidden_item :: "bool \<Rightarrow> sql_expr \<Rightarrow> ProjectItem list \<Rightarrow> (nat \<times> ProjectItem list) pres" where
  "hidden_item dst e items = (case matchItem e items of Some i \<Rightarrow> Inr (i, items)
   | None \<Rightarrow> if dst then Inl (Err PErrOrderDistinct)
     else Inr (length items, items @ [\<lparr>PAlias = uniqueName ''_order'' (length items) (map PAlias items), PExpr = e, PType = TypeInt64\<rparr>]))"

definition order_item :: "symbolTable \<Rightarrow> selectItem list \<Rightarrow> sql_expr list \<Rightarrow> bool \<Rightarrow> order_state \<Rightarrow> sql_expr \<times> bool \<Rightarrow> order_state pres" where
  "order_item st sitems exprs dst = (\<lambda>(items, orderBy, qs) (e, desc). res_map (\<lambda>((i, items), qs). (items, orderBy @ [(ColumnRefExpr [] (PAlias (items ! i)), desc)], qs))
     (res_bind (orderTarget sitems exprs e) (\<lambda>target. case target of
        Some i \<Rightarrow> Inr ((i, items), qs)
      | None \<Rightarrow> res_bind (orderExpr st e qs) (\<lambda>(resolved, qs). res_map (\<lambda>r. (r, qs)) (hidden_item dst resolved items)))))"

definition limit_node :: "i64 option \<Rightarrow> i64 option \<Rightarrow> LogicalNode \<Rightarrow> LogicalNode" where
  "limit_node lim off root = (if lim = None \<and> off = None then root
     else LLimit root (case lim of None \<Rightarrow> - 1 | Some n \<Rightarrow> n) (case off of None \<Rightarrow> 0 | Some n \<Rightarrow> n))"

definition rename_node :: "selectItem list \<Rightarrow> ProjectItem list \<Rightarrow> LogicalNode \<Rightarrow> LogicalNode" where
  "rename_node sitems items root = (let visible = length sitems in
     if (\<exists>i < visible. PAlias (items ! i) \<noteq> salias (sitems ! i)) \<or> visible < length items
     then LProject root (map (\<lambda>i. \<lparr>PAlias = salias (sitems ! i), PExpr = ColumnRefExpr [] (PAlias (items ! i)), PType = Type (OutputSchema root ! i)\<rparr>) [0..<visible])
     else root)"

definition finish :: "SelectStmt \<Rightarrow> symbolTable \<Rightarrow> selectItem list \<Rightarrow> query_source \<times> sql_expr list \<Rightarrow> LogicalNode pres" where
  "finish stmt st sitems q = (case q of (qs, exprs) \<Rightarrow> res_map (\<lambda>(items, orderBy, qs).
       let child = source_node qs; childSchema = OutputSchema child;
           items = map (\<lambda>it. it\<lparr>PType := resolveExprType (PExpr it) childSchema\<rparr>) items;
           root = (if isIdentityProject items childSchema then child else LProject child items);
           root = (if Parser.Distinct stmt then LDistinct root else root);
           root = (if orderBy = [] then root else LSort root orderBy)
       in rename_node sitems items (limit_node (Limit stmt) (Offset stmt) root))
     (fold_res (order_item st sitems exprs (Parser.Distinct stmt)) (unique_items sitems exprs, [], qs) (OrderBy stmt)))"

fun open_tables :: "files \<Rightarrow> (string \<times> string) list \<Rightarrow> Catalog \<Rightarrow> (LogicalScan list \<times> Catalog) pres" where
  "open_tables fs [] cat = Inr ([], cat)"
| "open_tables fs (ref # refs) cat = (case Lookup fs (fst ref) cat of (None, cat) \<Rightarrow> Inl (Err PErrTable)
   | (Some e, cat) \<Rightarrow> res_map (\<lambda>(scans, cat). (\<lparr>TableName = TName e, FilePath = TPath e, LSchema = TSchema e, Predicate = None, NeededCols = [], SourceNames = None\<rparr> # scans, cat)) (open_tables fs refs cat))"

definition from_where :: "LogicalScan list \<Rightarrow> sql_expr option \<Rightarrow> symbolTable \<Rightarrow> LogicalNode pres" where
  "from_where scans cond st = (case scans of [sc] \<Rightarrow> Inr (case cond of None \<Rightarrow> LScan sc | Some p \<Rightarrow> LFilter (LScan sc) p)
   | _ \<Rightarrow> buildMultiTablePlan scans cond st)"

definition Build :: "files \<Rightarrow> SelectStmt \<Rightarrow> Catalog \<Rightarrow> (LogicalNode \<times> Catalog) pres" where
  "Build fs stmt cat = (if From stmt = [] then Inl (Err PErrNoFrom) else
     res_bind (open_tables fs (From stmt) cat) (\<lambda>(scans, cat).
     res_bind (newSymbolTable (map LSchema scans) (From stmt)) (\<lambda>st.
     let scans = map (\<lambda>(sc, bs). applyOutputNames bs sc) (zip scans (bindings st)) in
     res_bind (resolveScalar st (Where stmt)) (\<lambda>cond.
     res_bind (from_where scans cond st) (\<lambda>root.
     let items = expandSelectList (Parser.Columns stmt) st;
         aggregating = (GroupBy stmt \<noteq> [] \<or> containsAggregate (Having stmt) \<or> (\<exists>it \<in> set items. containsAggregate (Some (sexpr it)))) in
     res_bind (if aggregating then buildAggregation root (GroupBy stmt) (Having stmt) items st
               else if Having stmt \<noteq> None then Inl (Err PErrHaving) else buildScalarSelect root items st) (\<lambda>q.
     res_map (\<lambda>plan. (plan, cat)) (finish stmt st items q)))))))"

end
