(* ===== verification/Optimizer.thy ===== *)
theory Optimizer
  imports Build
begin

text \<open>
  Rewriting of logical plans (\<^verbatim>\<open>planner/optimizer.go\<close>): predicate pushdown and column pruning. A needed-column set is \<open>None\<close> where the slice is nil, which
  stands for every column.
\<close>

definition push_into :: "LogicalScan \<Rightarrow> sql_expr \<Rightarrow> LogicalScan" where
  "push_into n p = n\<lparr>Predicate := Some (case Predicate n of None \<Rightarrow> p | Some q \<Rightarrow> BinaryExpr OpAnd q p)\<rparr>"

fun pushPredicates :: "LogicalNode \<Rightarrow> LogicalNode" where
  "pushPredicates (LFilter c p) = (case pushPredicates c of LScan n \<Rightarrow> LScan (push_into n p) | c' \<Rightarrow> LFilter c' p)"
| "pushPredicates (LProject c items) = LProject (pushPredicates c) items"
| "pushPredicates (LAggregate c gb aggs) = LAggregate (pushPredicates c) gb aggs"
| "pushPredicates (LSort c ob) = LSort (pushPredicates c) ob"
| "pushPredicates (LLimit c n off) = LLimit (pushPredicates c) n off"
| "pushPredicates (LDistinct c) = LDistinct (pushPredicates c)"
| "pushPredicates (LJoin l r cond) = LJoin (pushPredicates l) (pushPredicates r) cond"
| "pushPredicates (LScan n) = LScan n"

definition collectCols :: "sql_expr \<Rightarrow> string list" where
  "collectCols e = List.map_filter (\<lambda>n. case n of ColumnRefExpr table name \<Rightarrow> Some name | _ \<Rightarrow> None) (walkExpr e)"

definition predicateCols :: "sql_expr option \<Rightarrow> string list" where
  "predicateCols e = (case e of None \<Rightarrow> [] | Some e \<Rightarrow> collectCols e)"

fun unique_from :: "string list \<Rightarrow> string list \<Rightarrow> string list" where
  "unique_from seen [] = []"
| "unique_from seen (s # ss) = (if s \<in> set seen then unique_from seen ss else s # unique_from (s # seen) ss)"

definition uniqueStrings :: "string list \<Rightarrow> string list" where
  "uniqueStrings ss = unique_from [] ss"

definition addNeeded :: "string list option \<Rightarrow> string list \<Rightarrow> string list option" where
  "addNeeded needed extra = map_option (\<lambda>ns. uniqueStrings (ns @ extra)) needed"

text \<open>\<^verbatim>\<open>schemaColsIn\<close> returns nil, which is read as every column, when nothing matches.\<close>

definition schemaColsIn :: "Schema \<Rightarrow> string list \<Rightarrow> string list option" where
  "schemaColsIn schema want = (let out = filter (\<lambda>name. name \<in> set want) (map Name schema) in if out = [] then None else Some out)"

definition agg_cols :: "sql_expr list \<Rightarrow> AggItem list \<Rightarrow> string list" where
  "agg_cols gb aggs = concat (map collectCols gb) @ concat (map (\<lambda>agg. case AArg agg of Some e \<Rightarrow> collectCols e | None \<Rightarrow> if ColName agg = [] then [] else [ColName agg]) aggs)"

definition join_needed :: "string list option \<Rightarrow> sql_expr \<Rightarrow> Schema \<Rightarrow> string list option" where
  "join_needed needed cond schema = (case needed of None \<Rightarrow> None | Some ns \<Rightarrow> schemaColsIn schema (ns @ collectCols cond))"

fun pruneColumns :: "LogicalNode \<Rightarrow> string list option \<Rightarrow> LogicalNode" where
  "pruneColumns (LScan n) needed = LScan (case addNeeded needed (predicateCols (Predicate n)) of None \<Rightarrow> n | Some cols \<Rightarrow> n\<lparr>NeededCols := cols\<rparr>)"
| "pruneColumns (LFilter c p) needed = LFilter (pruneColumns c (addNeeded needed (collectCols p))) p"
| "pruneColumns (LProject c items) needed = LProject (pruneColumns c (Some (uniqueStrings (concat (map (\<lambda>pe. collectCols (PExpr pe)) items))))) items"
| "pruneColumns (LAggregate c gb aggs) needed = LAggregate (pruneColumns c (Some (uniqueStrings (agg_cols gb aggs)))) gb aggs"
| "pruneColumns (LSort c ob) needed = LSort (pruneColumns c (addNeeded needed (concat (map (\<lambda>o1. collectCols (fst o1)) ob)))) ob"
| "pruneColumns (LLimit c n off) needed = LLimit (pruneColumns c needed) n off"
| "pruneColumns (LDistinct c) needed = LDistinct (pruneColumns c needed)"
| "pruneColumns (LJoin l r cond) needed = LJoin (pruneColumns l (join_needed needed cond (OutputSchema l))) (pruneColumns r (join_needed needed cond (OutputSchema r))) cond"

definition Optimize :: "LogicalNode \<Rightarrow> LogicalNode" where
  "Optimize root = pruneColumns (pushPredicates root) None"

end
