(* ===== verification/PlanTerms.thy ===== *)
theory PlanTerms
  imports Optimizer PrunedScan "HOL-Library.Multiset"
begin

text \<open>
  What planning does to a WHERE clause: every conjunct ends up in exactly one place of the plan, and every table is scanned exactly once.
\<close>

section \<open>The terms and the scans of a plan\<close>

definition scan_terms :: "LogicalScan \<Rightarrow> sql_expr list" where
  "scan_terms n = (case Predicate n of None \<Rightarrow> [] | Some p \<Rightarrow> flattenAnd p)"

fun plan_terms :: "LogicalNode \<Rightarrow> sql_expr list" where
  "plan_terms (LScan n) = scan_terms n"
| "plan_terms (LFilter c p) = plan_terms c @ flattenAnd p"
| "plan_terms (LJoin l r cond) = plan_terms l @ plan_terms r @ [cond]"
| "plan_terms (LProject c items) = plan_terms c"
| "plan_terms (LAggregate c gb aggs) = plan_terms c"
| "plan_terms (LSort c ob) = plan_terms c"
| "plan_terms (LLimit c n off) = plan_terms c"
| "plan_terms (LDistinct c) = plan_terms c"

definition cond_terms :: "sql_expr option \<Rightarrow> sql_expr list" where
  "cond_terms c = (case c of None \<Rightarrow> [] | Some p \<Rightarrow> flattenAnd p)"

fun plan_scans :: "LogicalNode \<Rightarrow> LogicalScan list" where
  "plan_scans (LScan n) = [n]"
| "plan_scans (LJoin l r cond) = plan_scans l @ plan_scans r"
| "plan_scans (LFilter c p) = plan_scans c"
| "plan_scans (LProject c items) = plan_scans c"
| "plan_scans (LAggregate c gb aggs) = plan_scans c"
| "plan_scans (LSort c ob) = plan_scans c"
| "plan_scans (LLimit c n off) = plan_scans c"
| "plan_scans (LDistinct c) = plan_scans c"

text \<open>An equality without the order of its sides, and any other term as it is.\<close>

fun unordered :: "sql_expr \<Rightarrow> sql_expr set + sql_expr" where
  "unordered (BinaryExpr OpEQ l r) = Inl {l, r}"
| "unordered e = Inr e"

abbreviation term_mset :: "sql_expr list \<Rightarrow> (sql_expr set + sql_expr) multiset" where
  "term_mset es \<equiv> mset (map unordered es)"

text \<open>A scan node without what planning adds to it.\<close>

definition bare :: "LogicalScan \<Rightarrow> LogicalScan" where
  "bare n = n\<lparr>Predicate := None, NeededCols := []\<rparr>"


section \<open>Optimization\<close>

lemma push_into_terms: "scan_terms (push_into n p) = scan_terms n @ flattenAnd p" "bare (push_into n p) = bare n"
  by (auto simp: scan_terms_def push_into_def bare_def split: option.splits)

lemma pushPredicates_terms: "plan_terms (pushPredicates node) = plan_terms node \<and> map bare (plan_scans (pushPredicates node)) = map bare (plan_scans node)"
  by (induction node) (auto simp: push_into_terms split: LogicalNode.splits)

lemma pruneColumns_terms: "plan_terms (pruneColumns node needed) = plan_terms node \<and> map bare (plan_scans (pruneColumns node needed)) = map bare (plan_scans node)"
  by (induction node arbitrary: needed) (auto simp: scan_terms_def bare_def addNeeded_def split: option.splits)

lemma Optimize_terms: "plan_terms (Optimize node) = plan_terms node" "map bare (plan_scans (Optimize node)) = map bare (plan_scans node)"
  unfolding Optimize_def using pruneColumns_terms pushPredicates_terms by (simp_all only:)

section \<open>The placement of terms\<close>

lemma flattenAnd_atomic: "e \<in> set (flattenAnd w) \<Longrightarrow> flattenAnd e = [e]"
  by (induction w rule: flattenAnd.induct) (auto split: if_splits)

lemma flattenAnd_andExpr: "flattenAnd e = [e] \<Longrightarrow> flattenAnd (andExpr a e) = (case a of None \<Rightarrow> [] | Some a \<Rightarrow> flattenAnd a) @ [e]"
  by (auto simp: andExpr_def split: option.splits)

lemma flattenAnd_walk: "e \<in> set (flattenAnd w) \<Longrightarrow> set (walkExpr e) \<subseteq> set (walkExpr w)"
  by (induction w rule: flattenAnd.induct) (auto split: if_splits)

lemma tablesOf_and: "set (tablesOf st (BinaryExpr OpAnd a b)) = set (tablesOf st a) \<union> set (tablesOf st b)"
  by (auto simp: tablesOf_def List.map_filter_def)

definition filter_terms :: "sql_expr option list \<Rightarrow> sql_expr list" where
  "filter_terms filters = concat (map (\<lambda>f. case f of None \<Rightarrow> [] | Some p \<Rightarrow> flattenAnd p) filters)"

lemma filter_terms_update:
  assumes "t < length filters" "flattenAnd e = [e]"
  shows "mset (filter_terms (filters[t := Some (andExpr (filters ! t) e)])) = add_mset e (mset (filter_terms filters))"
proof -
  let ?f = "\<lambda>f. case f of None \<Rightarrow> [] | Some p \<Rightarrow> flattenAnd p"
  have "filters = take t filters @ filters ! t # drop (Suc t) filters" using assms(1) by (rule id_take_nth_drop)
  then have "filter_terms filters = concat (map ?f (take t filters)) @ ?f (filters ! t) @ concat (map ?f (drop (Suc t) filters))"
    unfolding filter_terms_def by (metis concat.simps(2) concat_append list.simps(9) map_append)
  moreover have "filter_terms (filters[t := Some (andExpr (filters ! t) e)]) = concat (map ?f (take t filters)) @ flattenAnd (andExpr (filters ! t) e) @ concat (map ?f (drop (Suc t) filters))"
    using assms(1) by (simp add: filter_terms_def upd_conv_take_nth_drop)
  ultimately show ?thesis using flattenAnd_andExpr [OF assms(2), of "filters ! t"] by simp
qed

text \<open>Tables of bindings are tables of the FROM clause.\<close>

lemma find_SomeD: "find P xs = Some x \<Longrightarrow> x \<in> set xs \<and> P x"
  by (induction xs) (auto split: if_splits)

lemma binding_table: "newSymbolTable schemas refs = Inr st \<Longrightarrow> b \<in> set (all_bindings st) \<Longrightarrow> btable b < length schemas"
  by (auto simp: newSymbolTable_def Let_def all_bindings_def in_set_enumerate_eq split: if_splits)

lemma tableOfOut_table: "newSymbolTable schemas refs = Inr st \<Longrightarrow> tableOfOut st name = Some t \<Longrightarrow> t < length schemas"
  unfolding tableOfOut_def using binding_table by (auto dest!: find_SomeD)

lemma tablesOf_table: "newSymbolTable schemas refs = Inr st \<Longrightarrow> t \<in> set (tablesOf st e) \<Longrightarrow> t < length schemas"
  using tableOfOut_table by (fastforce simp: tablesOf_def List.map_filter_def split: sql_expr.splits if_splits)

definition edge_ok :: "nat \<Rightarrow> joinEdge \<Rightarrow> bool" where
  "edge_ok n e \<longleftrightarrow> leftTable e < n \<and> rightTable e < n \<and> eterm e = BinaryExpr OpEQ (ColumnRefExpr [] (leftCol e)) (ColumnRefExpr [] (rightCol e))"

lemma joinEdgeOf_ok:
  assumes "newSymbolTable schemas refs = Inr st" "joinEdgeOf e scans st = Some edge" "resolved e"
  shows "edge_ok (length schemas) edge \<and> eterm edge = e"
proof -
  obtain lq l rq r where e: "e = BinaryExpr OpEQ (ColumnRefExpr lq l) (ColumnRefExpr rq r)"
    using assms(2) by (auto simp: joinEdgeOf_def split: sql_expr.splits SqlOp.splits)
  then have "lq = []" "rq = []" using assms(3) by (auto simp: resolved_def)
  then show ?thesis using assms(1,2) tableOfOut_table by (auto simp: e joinEdgeOf_def edge_ok_def Let_def split: option.splits if_splits)
qed

definition placed_ok :: "nat \<Rightarrow> symbolTable \<Rightarrow> sql_expr list \<Rightarrow> sql_expr option list \<times> joinEdge list \<times> sql_expr list \<Rightarrow> bool" where
  "placed_ok n st es = (\<lambda>(filters, edges, residual). length filters = n \<and> mset (filter_terms filters) + mset (map eterm edges) + mset residual = mset es \<and>
     (\<forall>t < n. \<forall>p. filters ! t = Some p \<longrightarrow> set (tablesOf st p) \<subseteq> {t}) \<and> list_all (edge_ok n) edges)"

lemma placed_filter:
  assumes "placed_ok n st es (filters, edges, residual)" "t < n" "set (tablesOf st e) \<subseteq> {t}" "flattenAnd e = [e]"
  shows "placed_ok n st (es @ [e]) (filters[t := Some (andExpr (filters ! t) e)], edges, residual)"
proof -
  have "set (tablesOf st (andExpr (filters ! t) e)) \<subseteq> {t}" using assms by (auto simp: placed_ok_def andExpr_def tablesOf_and split: option.splits)
  then show ?thesis using assms filter_terms_update [of t filters e] by (auto simp: placed_ok_def nth_list_update)
qed

lemma place_term_ok:
  assumes "placed_ok (length schemas) st es s" "newSymbolTable schemas refs = Inr st" "schemas \<noteq> []" "flattenAnd e = [e]" "resolved e"
  shows "placed_ok (length schemas) st (es @ [e]) (place_term scans st s e)"
proof -
  obtain filters edges residual where s: "s = (filters, edges, residual)" by (cases s)
  show ?thesis
  proof (cases "joinEdgeOf e scans st")
    case (Some edge)
    then show ?thesis using joinEdgeOf_ok [OF assms(2) Some assms(5)] assms(1) by (auto simp: s place_term_def placed_ok_def)
  next
    case None
    consider "tablesOf st e = []" | t where "tablesOf st e = [t]" | t u us where "tablesOf st e = t # u # us" by (metis list.exhaust)
    then show ?thesis
    proof cases
      case 1
      then show ?thesis using placed_filter [of "length schemas" st es filters edges residual 0 e] assms None by (simp add: s place_term_def)
    next
      case (2 t)
      then have "t < length schemas" using tablesOf_table [OF assms(2), of t e] by simp
      then show ?thesis using placed_filter [of "length schemas" st es filters edges residual t e] 2 assms None by (simp add: s place_term_def)
    next
      case 3
      then show ?thesis using assms(1) None by (auto simp: s place_term_def placed_ok_def)
    qed
  qed
qed

lemma place_terms_ok:
  assumes "newSymbolTable schemas refs = Inr st" "schemas \<noteq> []" "\<forall>e \<in> set es. flattenAnd e = [e] \<and> resolved e"
  shows "placed_ok (length schemas) st es (foldl (place_term scans st) (replicate (length schemas) None, [], []) es)"
  using assms(3)
proof (induction es rule: rev_induct)
  case Nil
  have "filter_terms (replicate n None) = []" for n by (induction n) (auto simp: filter_terms_def)
  then show ?case by (simp add: placed_ok_def)
next
  case (snoc e es)
  then show ?case using place_term_ok [OF _ assms(1,2)] by simp
qed

section \<open>The join tree\<close>

lemma pick_edge_ok:
  assumes "pick_edge included edges = Some ((t, inTree, inNew), rest)" "list_all (edge_ok n) edges"
  shows "t < n \<and> t \<notin> set included \<and> list_all (edge_ok n) rest \<and>
    add_mset (unordered (BinaryExpr OpEQ (ColumnRefExpr [] inTree) (ColumnRefExpr [] inNew))) (term_mset (map eterm rest)) = term_mset (map eterm edges)"
  using assms
proof (induction included edges arbitrary: rest rule: pick_edge.induct)
  case (2 included e es)
  have ok: "edge_ok n e" "list_all (edge_ok n) es" using 2(3) by simp_all
  then have e: "leftTable e < n" "rightTable e < n" "eterm e = BinaryExpr OpEQ (ColumnRefExpr [] (leftCol e)) (ColumnRefExpr [] (rightCol e))" by (simp_all add: edge_ok_def)
  show ?case
  proof (cases "leftTable e \<in> set included \<and> rightTable e \<notin> set included \<or> rightTable e \<in> set included \<and> leftTable e \<notin> set included")
    case True
    then show ?thesis using 2(2) ok(2) e by (auto simp: insert_commute split: if_splits)
  next
    case False
    then obtain es' where "pick_edge included es = Some ((t, inTree, inNew), es')" "rest = e # es'" using 2(2) by (auto split: if_splits)
    then show ?thesis using 2(1) [OF _ _ _ ok(2)] ok False by auto
  qed
qed simp

lemma join_loop_ok:
  assumes "join_loop k scans included edges root = Inr (plan, unused)" "list_all (edge_ok (length scans)) edges"
    "plan_scans root = map ((!) scans) (rev included)" "distinct included" "set included \<subseteq> {..<length scans}"
    "term_mset (plan_terms root) = term_mset (concat (map (\<lambda>t. scan_terms (scans ! t)) included)) + C"
  shows "\<exists>all. plan_scans plan = map ((!) scans) (rev all) \<and> distinct all \<and> set all \<subseteq> {..<length scans} \<and> length all = k + length included \<and>
    term_mset (plan_terms plan) + term_mset (map eterm unused) = term_mset (concat (map (\<lambda>t. scan_terms (scans ! t)) all)) + C + term_mset (map eterm edges)"
  using assms
proof (induction k arbitrary: included edges root C)
  case 0
  then show ?case by (intro exI [of _ included]) simp
next
  case (Suc k)
  then obtain t a b es where p: "pick_edge included edges = Some ((t, a, b), es)"
    "join_loop k scans (t # included) es (LJoin root (LScan (scans ! t)) (BinaryExpr OpEQ (ColumnRefExpr [] a) (ColumnRefExpr [] b))) = Inr (plan, unused)"
    by (auto split: option.splits)
  note e = pick_edge_ok [OF p(1) Suc.prems(2)]
  let ?c = "unordered (BinaryExpr OpEQ (ColumnRefExpr [] a) (ColumnRefExpr [] b))"
  have "term_mset (plan_terms (LJoin root (LScan (scans ! t)) (BinaryExpr OpEQ (ColumnRefExpr [] a) (ColumnRefExpr [] b)))) =
      term_mset (concat (map (\<lambda>t. scan_terms (scans ! t)) (t # included))) + add_mset ?c C"
    using Suc.prems(6) by (simp del: unordered.simps)
  moreover have "list_all (edge_ok (length scans)) es" "t < length scans" "t \<notin> set included" using e by auto
  ultimately obtain all where all: "plan_scans plan = map ((!) scans) (rev all)" "distinct all" "set all \<subseteq> {..<length scans}" "length all = k + length (t # included)"
    "term_mset (plan_terms plan) + term_mset (map eterm unused) = term_mset (concat (map (\<lambda>t. scan_terms (scans ! t)) all)) + add_mset ?c C + term_mset (map eterm es)"
    using Suc.IH [OF p(2), of "add_mset ?c C"] Suc.prems(3-5) by auto
  then show ?case using e by (intro exI [of _ all]) (simp add: union_commute del: unordered.simps)
qed

lemma join_loop_unused: "join_loop k scans included edges root = Inr (plan, unused) \<Longrightarrow> list_all (edge_ok n) edges \<Longrightarrow> list_all (edge_ok n) unused"
proof (induction k arbitrary: included edges root)
  case (Suc k)
  then show ?case using pick_edge_ok by (auto split: option.splits)
qed simp

lemma all_tables:
  assumes "distinct all" "set all \<subseteq> {..<n}" "length all = n"
  shows "mset all = mset [0..<n]"
proof -
  have "card (set all) = card {..<n}" using assms(1,3) by (simp add: distinct_card)
  then have "set all = {..<n}" by (intro card_subset_eq [OF finite_lessThan assms(2)])
  then have "set all = set [0..<n]" by (simp add: lessThan_atLeast0)
  then show ?thesis using set_eq_iff_mset_eq_distinct [OF assms(1) distinct_upt, of 0 n] by blast
qed

lemma mset_concat_map: "mset (concat (map f xs)) = \<Sum>\<^sub># (image_mset (\<lambda>x. mset (f x)) (mset xs))"
  by (induction xs) auto

lemma buildJoinTree_ok:
  assumes "buildJoinTree scans edges = Inr (plan, unused)" "list_all (edge_ok (length scans)) edges" "scans \<noteq> []"
  shows "mset (plan_scans plan) = mset scans" "term_mset (plan_terms plan) + term_mset (map eterm unused) = term_mset (concat (map scan_terms scans)) + term_mset (map eterm edges)"
proof -
  have "hd scans = scans ! 0" using assms(3) by (simp add: hd_conv_nth)
  then obtain all where all: "plan_scans plan = map ((!) scans) (rev all)" "distinct all" "set all \<subseteq> {..<length scans}" "length all = length scans"
    "term_mset (plan_terms plan) + term_mset (map eterm unused) = term_mset (concat (map (\<lambda>t. scan_terms (scans ! t)) all)) + term_mset (map eterm edges)"
    using join_loop_ok [OF assms(1) [unfolded buildJoinTree_def] assms(2), of "{#}"] assms(3) by auto
  note m = all_tables [OF all(2-4)]
  have "mset (map ((!) scans) all) = mset scans" using arg_cong [OF m, of "image_mset ((!) scans)"] map_nth [of scans] by (metis mset_map)
  then show "mset (plan_scans plan) = mset scans" by (simp add: all(1) rev_map [symmetric])
  have "mset (concat (map (\<lambda>t. scan_terms (scans ! t)) all)) = mset (concat (map (\<lambda>t. scan_terms (scans ! t)) [0..<length scans]))"
    using mset_concat_map m by (metis (no_types))
  also have "map (\<lambda>t. scan_terms (scans ! t)) [0..<length scans] = map scan_terms scans" by (rule nth_equalityI) simp_all
  finally show "term_mset (plan_terms plan) + term_mset (map eterm unused) = term_mset (concat (map scan_terms scans)) + term_mset (map eterm edges)"
    using all(5) by simp
qed

section \<open>The WHERE clause\<close>

lemma and_terms: "\<forall>e \<in> set es. flattenAnd e = [e] \<Longrightarrow> (case foldl (\<lambda>acc e. Some (andExpr acc e)) None es of None \<Rightarrow> [] | Some p \<Rightarrow> flattenAnd p) = es"
  by (induction es rule: rev_induct) (auto simp: flattenAnd_andExpr split: option.splits)

text \<open>The scans with their filters.\<close>

definition with_filters :: "LogicalScan list \<Rightarrow> sql_expr option list \<Rightarrow> LogicalScan list" where
  "with_filters scans filters = map (\<lambda>(sc, f). case f of None \<Rightarrow> sc | Some p \<Rightarrow> sc\<lparr>Predicate := Some p\<rparr>) (zip scans filters)"

lemma with_filters_nth:
  assumes "\<forall>n \<in> set scans. Predicate n = None" "length filters = length scans" "t < length scans"
  shows "Predicate (with_filters scans filters ! t) = filters ! t" "bare (with_filters scans filters ! t) = bare (scans ! t)"
  using assms by (auto simp: with_filters_def bare_def split: option.splits)

lemma with_filters_terms:
  assumes "\<forall>n \<in> set scans. Predicate n = None" "length filters = length scans"
  shows "concat (map scan_terms (with_filters scans filters)) = filter_terms filters" "map bare (with_filters scans filters) = map bare scans"
proof -
  have len: "length (with_filters scans filters) = length scans" using assms(2) by (simp add: with_filters_def)
  have "map scan_terms (with_filters scans filters) = map (\<lambda>f. case f of None \<Rightarrow> [] | Some p \<Rightarrow> flattenAnd p) filters"
    using with_filters_nth(1) [OF assms] len assms(2) by (auto intro!: nth_equalityI simp: scan_terms_def)
  then show "concat (map scan_terms (with_filters scans filters)) = filter_terms filters" by (simp only: filter_terms_def)
  show "map bare (with_filters scans filters) = map bare scans" using with_filters_nth(2) [OF assms] len by (auto intro!: nth_equalityI)
qed

lemma buildMultiTablePlan_ok:
  assumes st: "newSymbolTable schemas refs = Inr st" "length scans = length schemas" "scans \<noteq> []" and none: "\<forall>n \<in> set scans. Predicate n = None"
    and w: "\<forall>w. cond = Some w \<longrightarrow> resolved w" and p: "buildMultiTablePlan scans cond st = Inr plan"
  shows "term_mset (plan_terms plan) = term_mset (cond_terms cond)" "mset (map bare (plan_scans plan)) = mset (map bare scans)"
    "\<forall>n \<in> set (plan_scans plan). \<exists>t < length scans. bare n = bare (scans ! t) \<and> (\<forall>q. Predicate n = Some q \<longrightarrow> set (tablesOf st q) \<subseteq> {t})"
proof -
  obtain filters edges residual where f: "foldl (place_term scans st) (replicate (length scans) None, [], []) (cond_terms cond) = (filters, edges, residual)" by (metis prod_cases3)
  have atoms: "\<forall>e \<in> set (cond_terms cond). flattenAnd e = [e] \<and> resolved e"
    using flattenAnd_atomic flattenAnd_walk w by (cases cond) (fastforce simp: resolved_def cond_terms_def)+
  have ne: "schemas \<noteq> []" using st(2,3) by auto
  have ok: "length filters = length scans" "mset (filter_terms filters) + mset (map eterm edges) + mset residual = mset (cond_terms cond)"
    "\<forall>t < length scans. \<forall>p. filters ! t = Some p \<longrightarrow> set (tablesOf st p) \<subseteq> {t}" "list_all (edge_ok (length scans)) edges"
    using place_terms_ok [OF st(1) ne atoms, of scans] f st(2) by (simp_all add: placed_ok_def)
  let ?scans = "with_filters scans filters"
  have len: "length ?scans = length scans" "?scans \<noteq> []" using ok(1) st(3) by (auto simp: with_filters_def)
  obtain root unused where r: "buildJoinTree ?scans edges = Inr (root, unused)"
    "plan = (case foldl (\<lambda>acc e. Some (andExpr acc e)) None (residual @ map eterm unused) of None \<Rightarrow> root | Some p \<Rightarrow> LFilter root p)"
    using p f unfolding cond_terms_def by (auto simp: buildMultiTablePlan_def Let_def with_filters_def res_map_eq_Inr)
  note t = buildJoinTree_ok [OF r(1) _ len(2)]
  have tree: "mset (plan_scans root) = mset ?scans" "term_mset (plan_terms root) + term_mset (map eterm unused) = term_mset (concat (map scan_terms ?scans)) + term_mset (map eterm edges)"
    using t ok(4) len(1) by simp_all
  have "set residual \<subseteq> set (cond_terms cond)" using arg_cong [OF ok(2), of set_mset] by auto
  moreover have "list_all (edge_ok (length scans)) unused" using join_loop_unused [OF r(1) [unfolded buildJoinTree_def] ok(4)] .
  ultimately have atomic: "\<forall>e \<in> set (residual @ map eterm unused). flattenAnd e = [e]" using atoms by (auto simp: edge_ok_def list_all_iff)
  have "plan_terms plan = plan_terms root @ residual @ map eterm unused" using and_terms [OF atomic] r(2) by (auto split: option.splits)
  moreover have "term_mset (cond_terms cond) = term_mset (filter_terms filters) + term_mset (map eterm edges) + term_mset residual"
    using arg_cong [OF ok(2), of "image_mset unordered"] by (simp add: image_mset.compositionality)
  ultimately show "term_mset (plan_terms plan) = term_mset (cond_terms cond)"
    using tree(2) with_filters_terms(1) [OF none ok(1)] by (simp only: map_append mset_append) (simp add: ac_simps)
  have scans: "plan_scans plan = plan_scans root" using r(2) by (simp split: option.splits)
  show "mset (map bare (plan_scans plan)) = mset (map bare scans)"
    using arg_cong [OF tree(1), of "image_mset bare"] with_filters_terms(2) [OF none ok(1)] by (metis scans mset_map)
  show "\<forall>n \<in> set (plan_scans plan). \<exists>t < length scans. bare n = bare (scans ! t) \<and> (\<forall>q. Predicate n = Some q \<longrightarrow> set (tablesOf st q) \<subseteq> {t})"
  proof
    fix n assume "n \<in> set (plan_scans plan)"
    then have "n \<in> set ?scans" using mset_eq_setD [OF tree(1)] scans by simp
    then obtain t where "t < length scans" "n = ?scans ! t" using len(1) by (metis in_set_conv_nth)
    then show "\<exists>t < length scans. bare n = bare (scans ! t) \<and> (\<forall>q. Predicate n = Some q \<longrightarrow> set (tablesOf st q) \<subseteq> {t})"
      using with_filters_nth [OF none ok(1)] ok(3) by auto
  qed
qed

section \<open>The shape of the join tree\<close>

text \<open>The aggregate nodes of a plan, and plans in which no filter stands directly over a scan, so that pushing predicates down changes nothing.\<close>

fun plan_aggs :: "LogicalNode \<Rightarrow> (sql_expr list \<times> AggItem list) list" where
  "plan_aggs (LScan n) = []"
| "plan_aggs (LJoin l r cond) = plan_aggs l @ plan_aggs r"
| "plan_aggs (LFilter c p) = plan_aggs c"
| "plan_aggs (LProject c items) = plan_aggs c"
| "plan_aggs (LAggregate c gb aggs) = (gb, aggs) # plan_aggs c"
| "plan_aggs (LSort c ob) = plan_aggs c"
| "plan_aggs (LLimit c n off) = plan_aggs c"
| "plan_aggs (LDistinct c) = plan_aggs c"

fun pushed_down :: "LogicalNode \<Rightarrow> bool" where
  "pushed_down (LScan n) = True"
| "pushed_down (LJoin l r cond) = (pushed_down l \<and> pushed_down r)"
| "pushed_down (LFilter c p) = (pushed_down c \<and> (\<forall>n. c \<noteq> LScan n))"
| "pushed_down (LProject c items) = pushed_down c"
| "pushed_down (LAggregate c gb aggs) = pushed_down c"
| "pushed_down (LSort c ob) = pushed_down c"
| "pushed_down (LLimit c n off) = pushed_down c"
| "pushed_down (LDistinct c) = pushed_down c"

lemma pushed_down_id: "pushed_down node \<Longrightarrow> pushPredicates node = node"
  by (induction node) (auto split: LogicalNode.splits)

lemma Optimize_aggs: "plan_aggs (Optimize node) = plan_aggs node"
proof -
  have "plan_aggs (pushPredicates node) = plan_aggs node" by (induction node) (auto split: LogicalNode.splits)
  moreover have "plan_aggs (pruneColumns node needed) = plan_aggs node" for node needed by (induction node arbitrary: needed) auto
  ultimately show ?thesis by (simp add: Optimize_def)
qed

lemma pruneColumns_scans:
  "map (\<lambda>n. (bare n, Predicate n)) (plan_scans (pruneColumns node needed)) = map (\<lambda>n. (bare n, Predicate n)) (plan_scans node)"
  by (induction node arbitrary: needed) (auto simp: bare_def addNeeded_def split: option.splits)

lemma join_loop_shape:
  assumes "join_loop k scans included edges root = Inr (plan, unused)" "plan_aggs root = []" "pushed_down root"
  shows "plan_aggs plan = [] \<and> pushed_down plan \<and> (0 < k \<longrightarrow> (\<exists>l r c. plan = LJoin l r c))"
  using assms
proof (induction k arbitrary: included edges root)
  case (Suc k)
  then obtain t a b es where p: "join_loop k scans (t # included) es (LJoin root (LScan (scans ! t)) (BinaryExpr OpEQ (ColumnRefExpr [] a) (ColumnRefExpr [] b))) = Inr (plan, unused)"
    by (auto split: option.splits)
  then show ?case using Suc.IH [OF p] Suc.prems(2,3) by (cases k) auto
qed simp

lemma place_terms_length: "length (fst (foldl (place_term scans st) s es)) = length (fst s)"
  by (induction es arbitrary: s) (auto simp: place_term_def split: prod.splits option.splits list.splits)

lemma buildMultiTablePlan_shape:
  assumes "buildMultiTablePlan scans cond st = Inr plan" "2 \<le> length scans"
  shows "plan_aggs plan = [] \<and> pushed_down plan"
proof -
  obtain filters edges residual where f: "foldl (place_term scans st) (replicate (length scans) None, [], []) (case cond of None \<Rightarrow> [] | Some e \<Rightarrow> flattenAnd e) = (filters, edges, residual)"
    by (metis prod_cases3)
  let ?scans = "with_filters scans filters"
  have "length filters = length scans"
    using place_terms_length [of scans st "(replicate (length scans) None, [], [])" "case cond of None \<Rightarrow> [] | Some e \<Rightarrow> flattenAnd e"] f by simp
  then have len: "length ?scans = length scans" by (simp add: with_filters_def)
  obtain root unused where r: "buildJoinTree ?scans edges = Inr (root, unused)"
    "plan = (case foldl (\<lambda>acc e. Some (andExpr acc e)) None (residual @ map eterm unused) of None \<Rightarrow> root | Some p \<Rightarrow> LFilter root p)"
    using assms(1) f by (auto simp: buildMultiTablePlan_def Let_def with_filters_def res_map_eq_Inr)
  have "plan_aggs root = [] \<and> pushed_down root \<and> (\<exists>l r c. root = LJoin l r c)"
    using join_loop_shape [OF r(1) [unfolded buildJoinTree_def]] len assms(2) by simp
  then show ?thesis using r(2) by (auto split: option.splits)
qed

end
