(* ===== verification/PlanRewrite.thy ===== *)
theory PlanRewrite
  imports PlanTerms
begin

text \<open>
  What the planner's rewritings of expressions produce. A rewriting replaces column references (and, over an aggregate, aggregate calls) and keeps every other
  node, so that no part of a condition is lost; over an aggregate, the columns it introduces are those of the plan's aggregate node.
\<close>

section \<open>Expressions up to the replacement of their leaves\<close>

fun is_literal :: "sql_expr \<Rightarrow> bool" where
  "is_literal StarExpr = True" | "is_literal (IntLiteral v) = True" | "is_literal (FloatLiteral v) = True" | "is_literal (StringLiteral v) = True"
| "is_literal (BoolLiteral v) = True" | "is_literal NullLiteral = True" | "is_literal e = False"

text \<open>
  \<open>rewritten keep N e e'\<close>: \<open>e'\<close> is \<open>e\<close> with some nodes replaced as \<open>N\<close> says and all others as they are; an aggregate call may stay only if \<open>keep\<close>.
\<close>

inductive rewritten :: "bool \<Rightarrow> (sql_expr \<Rightarrow> sql_expr \<Rightarrow> bool) \<Rightarrow> sql_expr \<Rightarrow> sql_expr \<Rightarrow> bool" for keep N where
  replaced: "N e e' \<Longrightarrow> rewritten keep N e e'"
| literal: "is_literal e \<Longrightarrow> rewritten keep N e e"
| binary: "rewritten keep N l l' \<Longrightarrow> rewritten keep N r r' \<Longrightarrow> rewritten keep N (BinaryExpr op l r) (BinaryExpr op l' r')"
| unary: "rewritten keep N e e' \<Longrightarrow> rewritten keep N (UnaryExpr uop e) (UnaryExpr uop e')"
| isnull: "rewritten keep N e e' \<Longrightarrow> rewritten keep N (IsNullE e isNot) (IsNullE e' isNot)"
| between: "rewritten keep N e e' \<Longrightarrow> rewritten keep N lo lo' \<Longrightarrow> rewritten keep N hi hi' \<Longrightarrow> rewritten keep N (BetweenE e lo hi neg) (BetweenE e' lo' hi' neg)"
| within: "rewritten keep N e e' \<Longrightarrow> list_all2 (rewritten keep N) items items' \<Longrightarrow> rewritten keep N (InE e items neg) (InE e' items' neg)"
| like: "rewritten keep N e e' \<Longrightarrow> rewritten keep N p p' \<Longrightarrow> rewritten keep N (LikeE e p neg) (LikeE e' p' neg)"
| call: "list_all2 (rewritten keep N) args args' \<Longrightarrow> rewritten keep N (FuncExpr f args) (FuncExpr f args')"
| agg: "keep \<Longrightarrow> rel_option (rewritten keep N) arg arg' \<Longrightarrow> rewritten keep N (AggFuncExpr f arg dst) (AggFuncExpr f arg' dst)"
| case_of: "list_all2 (\<lambda>w w'. rewritten keep N (fst w) (fst w') \<and> rewritten keep N (snd w) (snd w')) ws ws' \<Longrightarrow> rel_option (rewritten keep N) els els' \<Longrightarrow>
    rewritten keep N (CaseE ws els) (CaseE ws' els')"
  monos option.rel_mono

lemma rewritten_mono:
  assumes "rewritten keep N e e'" "\<And>x y. N x y \<Longrightarrow> M x y"
  shows "rewritten keep M e e'"
  using assms(1)
proof (induction rule: rewritten.induct)
  case (agg arg arg' f dst)
  then show ?case by (auto intro!: rewritten.agg elim!: option.rel_mono_strong)
next
  case (case_of ws ws' els els')
  then show ?case by (auto intro!: rewritten.case_of elim!: option.rel_mono_strong list.rel_mono_strong)
qed (auto intro: rewritten.intros assms(2) elim!: list.rel_mono_strong)

section \<open>A rewriting pass\<close>

text \<open>
  A pass threads the planner's state, which only grows (\<open>le\<close>); a replacement is as \<open>N\<close> says of the state \<open>F\<close> in which the planner ends.
\<close>

locale rewriting =
  fixes fn :: "'s rewriter" and le :: "'s \<Rightarrow> 's \<Rightarrow> bool" and F :: 's and N :: "sql_expr \<Rightarrow> sql_expr \<Rightarrow> bool" and keep :: bool
  assumes le_refl: "le s s" and le_trans: "le a b \<Longrightarrow> le b c \<Longrightarrow> le a c"
    and step: "fn n s = Inr (out, s') \<Longrightarrow> le s s'"
    and handled: "fn n s = Inr (Some n', s') \<Longrightarrow> le s' F \<Longrightarrow> N n n'"
    and passed: "fn n s = Inr (None, s') \<Longrightarrow> (is_agg n \<longrightarrow> keep) \<and> (\<forall>t c. n \<noteq> ColumnRefExpr t c)"
begin

lemma st_map_tracks:
  assumes "st_map f xs s = Inr (ys, s')" "\<And>x s y s'. x \<in> set xs \<Longrightarrow> f x s = Inr (y, s') \<Longrightarrow> le s s' \<and> (le s' F \<longrightarrow> R x y)"
  shows "le s s' \<and> (le s' F \<longrightarrow> list_all2 R xs ys)"
  using assms
proof (induction xs arbitrary: s ys)
  case Nil
  then show ?case by (simp add: le_refl)
next
  case (Cons x xs)
  obtain y s1 zs where y: "f x s = Inr (y, s1)" "st_map f xs s1 = Inr (zs, s')" "ys = y # zs"
    using Cons.prems(1) by (auto simp: res_bind_eq_Inr res_map_eq_Inr)
  have "le s s1 \<and> (le s1 F \<longrightarrow> R x y)" using Cons.prems(2) [OF _ y(1)] by simp
  moreover have "le s1 s' \<and> (le s' F \<longrightarrow> list_all2 R xs zs)" by (rule Cons.IH [OF y(2)], rule Cons.prems(2)) simp_all
  ultimately show ?case using y(3) le_trans by auto
qed

lemma st_opt_tracks:
  assumes "st_opt f x s = Inr (y, s')" "\<And>z s y s'. x = Some z \<Longrightarrow> f z s = Inr (y, s') \<Longrightarrow> le s s' \<and> (le s' F \<longrightarrow> R z y)"
  shows "le s s' \<and> (le s' F \<longrightarrow> rel_option R x y)"
  using assms by (auto simp: st_opt_def res_map_eq_Inr le_refl split: option.splits)

lemma rewrite_node_tracks:
  assumes "rewrite_node fn e children s = Inr (e', s')"
    "\<And>s e' s'. children s = Inr (e', s') \<Longrightarrow> is_agg e \<longrightarrow> keep \<Longrightarrow> \<forall>t c. e \<noteq> ColumnRefExpr t c \<Longrightarrow> le s s' \<and> (le s' F \<longrightarrow> rewritten keep N e e')"
  shows "le s s' \<and> (le s' F \<longrightarrow> rewritten keep N e e')"
proof -
  obtain out s1 where o: "fn e s = Inr (out, s1)" "(case out of Some e \<Rightarrow> Inr (e, s1) | None \<Rightarrow> children s1) = Inr (e', s')"
    using assms(1) by (auto simp: rewrite_node_def res_bind_eq_Inr)
  have le: "le s s1" by (rule step [OF o(1)])
  show ?thesis
  proof (cases out)
    case None
    then have "le s1 s' \<and> (le s' F \<longrightarrow> rewritten keep N e e')" using assms(2) passed o by auto
    then show ?thesis using le le_trans by blast
  next
    case (Some n)
    then show ?thesis using o le handled [of e s n s1] by (auto intro: replaced)
  qed
qed

lemma rewriteExpr_tracks: "rewriteExpr fn e s = Inr (e', s') \<Longrightarrow> le s s' \<and> (le s' F \<longrightarrow> rewritten keep N e e')"
proof (induction g \<equiv> fn e s arbitrary: e' s' rule: rewriteExpr.induct)
  case (1 op l r s)
  show ?case using 1(3) unfolding rewriteExpr.simps
  proof (rule rewrite_node_tracks)
    fix s e' s' assume "res_bind (rewriteExpr fn l s) (\<lambda>(l, s). res_map (\<lambda>(r, s). (BinaryExpr op l r, s)) (rewriteExpr fn r s)) = Inr (e', s')"
    then obtain l' s1 r' where a: "rewriteExpr fn l s = Inr (l', s1)" "rewriteExpr fn r s1 = Inr (r', s')" "e' = BinaryExpr op l' r'"
      by (auto simp: res_bind_eq_Inr res_map_eq_Inr)
    show "le s s' \<and> (le s' F \<longrightarrow> rewritten keep N (BinaryExpr op l r) e')"
      using 1(1) [OF a(1)] 1(2) [OF a(1) refl a(2)] a(3) le_trans by (blast intro: binary)
  qed
next
  case (2 op e s)
  show ?case using 2(2) unfolding rewriteExpr.simps
    by (rule rewrite_node_tracks) (use 2(1) in \<open>auto simp: res_map_eq_Inr intro: unary\<close>)
next
  case (3 e isNot s)
  show ?case using 3(2) unfolding rewriteExpr.simps
    by (rule rewrite_node_tracks) (use 3(1) in \<open>auto simp: res_map_eq_Inr intro: isnull\<close>)
next
  case (4 e lo hi neg s)
  show ?case using 4(4) unfolding rewriteExpr.simps
  proof (rule rewrite_node_tracks)
    fix s e' s' assume "res_bind (rewriteExpr fn e s) (\<lambda>(e, s). res_bind (rewriteExpr fn lo s) (\<lambda>(lo, s).
      res_map (\<lambda>(hi, s). (BetweenE e lo hi neg, s)) (rewriteExpr fn hi s))) = Inr (e', s')"
    then obtain x s1 l s2 h where a: "rewriteExpr fn e s = Inr (x, s1)" "rewriteExpr fn lo s1 = Inr (l, s2)" "rewriteExpr fn hi s2 = Inr (h, s')" "e' = BetweenE x l h neg"
      by (auto simp: res_bind_eq_Inr res_map_eq_Inr)
    show "le s s' \<and> (le s' F \<longrightarrow> rewritten keep N (BetweenE e lo hi neg) e')"
      using 4(1) [OF a(1)] 4(2) [OF a(1) refl a(2)] 4(3) [OF a(1) refl a(2) refl a(3)] a(4) le_trans by (blast intro: between)
  qed
next
  case (5 e items neg s)
  show ?case using 5(3) unfolding rewriteExpr.simps
  proof (rule rewrite_node_tracks)
    fix s e' s' assume "res_bind (rewriteExpr fn e s) (\<lambda>(e, s). res_map (\<lambda>(items, s). (InE e items neg, s)) (st_map (rewriteExpr fn) items s)) = Inr (e', s')"
    then obtain x s1 xs where a: "rewriteExpr fn e s = Inr (x, s1)" "st_map (rewriteExpr fn) items s1 = Inr (xs, s')" "e' = InE x xs neg"
      by (auto simp: res_bind_eq_Inr res_map_eq_Inr)
    have "le s1 s' \<and> (le s' F \<longrightarrow> list_all2 (rewritten keep N) items xs)" by (rule st_map_tracks [OF a(2)]) (rule 5(2) [OF a(1) refl])
    then show "le s s' \<and> (le s' F \<longrightarrow> rewritten keep N (InE e items neg) e')" using 5(1) [OF a(1)] a(3) le_trans by (blast intro: within)
  qed
next
  case (6 e p neg s)
  show ?case using 6(3) unfolding rewriteExpr.simps
  proof (rule rewrite_node_tracks)
    fix s e' s' assume "res_bind (rewriteExpr fn e s) (\<lambda>(e, s). res_map (\<lambda>(pattern, s). (LikeE e pattern neg, s)) (rewriteExpr fn p s)) = Inr (e', s')"
    then obtain l' s1 r' where a: "rewriteExpr fn e s = Inr (l', s1)" "rewriteExpr fn p s1 = Inr (r', s')" "e' = LikeE l' r' neg"
      by (auto simp: res_bind_eq_Inr res_map_eq_Inr)
    show "le s s' \<and> (le s' F \<longrightarrow> rewritten keep N (LikeE e p neg) e')"
      using 6(1) [OF a(1)] 6(2) [OF a(1) refl a(2)] a(3) le_trans by (blast intro: like)
  qed
next
  case (7 f arg dst s)
  show ?case using 7(2) unfolding rewriteExpr.simps
  proof (rule rewrite_node_tracks)
    fix s e' s' assume k: "is_agg (AggFuncExpr f arg dst) \<longrightarrow> keep" and "res_map (\<lambda>(arg, s). (AggFuncExpr f arg dst, s)) (st_opt (rewriteExpr fn) arg s) = Inr (e', s')"
    then obtain x where a: "st_opt (rewriteExpr fn) arg s = Inr (x, s')" "e' = AggFuncExpr f x dst" by (auto simp: res_map_eq_Inr)
    have "le s s' \<and> (le s' F \<longrightarrow> rel_option (rewritten keep N) arg x)" by (rule st_opt_tracks [OF a(1)]) (rule 7(1))
    then show "le s s' \<and> (le s' F \<longrightarrow> rewritten keep N (AggFuncExpr f arg dst) e')" using a(2) k by (auto intro: agg)
  qed
next
  case (8 f args s)
  show ?case using 8(2) unfolding rewriteExpr.simps
  proof (rule rewrite_node_tracks)
    fix s e' s' assume "res_map (\<lambda>(args, s). (FuncExpr f args, s)) (st_map (rewriteExpr fn) args s) = Inr (e', s')"
    then obtain x where a: "st_map (rewriteExpr fn) args s = Inr (x, s')" "e' = FuncExpr f x" by (auto simp: res_map_eq_Inr)
    have "le s s' \<and> (le s' F \<longrightarrow> list_all2 (rewritten keep N) args x)" by (rule st_map_tracks [OF a(1)]) (rule 8(1))
    then show "le s s' \<and> (le s' F \<longrightarrow> rewritten keep N (FuncExpr f args) e')" using a(2) by (auto intro: call)
  qed
next
  case (9 ws els s)
  let ?both = "\<lambda>w s. res_bind (rewriteExpr fn (fst w) s) (\<lambda>(c, s). res_map (\<lambda>(r, s). ((c, r), s)) (rewriteExpr fn (snd w) s))"
  let ?R = "\<lambda>w w'. rewritten keep N (fst w) (fst w') \<and> rewritten keep N (snd w) (snd w')"
  have both: "le s s' \<and> (le s' F \<longrightarrow> ?R w y)" if w: "w \<in> set ws" and b: "?both w s = Inr (y, s')" for w s y s'
  proof -
    obtain c s1 r where c: "rewriteExpr fn (fst w) s = Inr (c, s1)" "rewriteExpr fn (snd w) s1 = Inr (r, s')" "y = (c, r)"
      using b by (force simp: res_bind_eq_Inr res_map_eq_Inr)
    show ?thesis using 9(1) [OF w c(1)] 9(2) [OF w c(1) refl c(2)] c(3) le_trans by auto
  qed
  show ?case using 9(4) unfolding rewriteExpr.simps
  proof (rule rewrite_node_tracks)
    fix s e' s' assume "res_bind (st_map ?both ws s) (\<lambda>(ws, s). res_map (\<lambda>(els, s). (CaseE ws els, s)) (st_opt (rewriteExpr fn) els s)) = Inr (e', s')"
    then obtain ws' s1 els' where r: "st_map ?both ws s = Inr (ws', s1)" "st_opt (rewriteExpr fn) els s1 = Inr (els', s')" "e' = CaseE ws' els'"
      by (auto simp: res_bind_eq_Inr res_map_eq_Inr)
    have "le s s1 \<and> (le s1 F \<longrightarrow> list_all2 ?R ws ws')" by (rule st_map_tracks [OF r(1)]) (rule both)
    moreover have "le s1 s' \<and> (le s' F \<longrightarrow> rel_option (rewritten keep N) els els')" by (rule st_opt_tracks [OF r(2)]) (rule 9(3) [OF r(1) refl])
    ultimately show "le s s' \<and> (le s' F \<longrightarrow> rewritten keep N (CaseE ws els) e')" using r(3) le_trans by (blast intro: case_of)
  qed
qed ((simp only: rewriteExpr.simps, erule rewrite_node_tracks, force simp: le_refl intro: literal)+)

end

section \<open>Columns resolved over the FROM tables\<close>

definition column_node :: "symbolTable \<Rightarrow> sql_expr \<Rightarrow> sql_expr \<Rightarrow> bool" where
  "column_node st n n' \<longleftrightarrow> (\<exists>t c b. n = ColumnRefExpr t c \<and> resolve st t c = Inr b \<and> n' = ColumnRefExpr [] (bout b))"

interpretation resolving: rewriting "resolve_fn st" "\<lambda>_ _. True" "()" "column_node st" True for st
  by unfold_locales (auto simp: resolve_fn_def column_node_def res_map_eq_Inr split: sql_expr.splits)

lemma resolveColumns_rewritten: "resolveColumns st e = Inr e' \<Longrightarrow> rewritten True (column_node st) e e'"
  using resolving.rewriteExpr_tracks by (auto simp: resolveColumns_def res_map_eq_Inr)

lemma rewritten_column: "rewritten keep (column_node st) e (ColumnRefExpr t c) \<Longrightarrow> t = []"
  by (erule rewritten.cases) (auto simp: column_node_def)

section \<open>Expressions over an aggregate\<close>

text \<open>
  Over the aggregate node with the group-by columns \<open>cols\<close> and the aggregates \<open>aggs\<close>, an aggregate call becomes the output column of an aggregate of that function, argument and DISTINCT, a column
  becomes the group-by column it resolves to, and a name that no table has becomes the expression of the SELECT item of that alias.
\<close>

definition agg_node :: "symbolTable \<Rightarrow> (string \<Rightarrow> sql_expr option) \<Rightarrow> string list \<Rightarrow> AggItem list \<Rightarrow> sql_expr \<Rightarrow> sql_expr \<Rightarrow> bool" where
  "agg_node st alias cols aggs n n' \<longleftrightarrow>
     (\<exists>f arg dst. \<exists>a \<in> set aggs. n = AggFuncExpr f arg dst \<and> n' = ColumnRefExpr [] (AggAlias a) \<and> Func a = ToUpper f \<and> AggDistinct a = dst \<and> arg_key st arg = Inr (item_key a)) \<or>
     (\<exists>t c b. n = ColumnRefExpr t c \<and> resolve st t c = Inr b \<and> bout b \<in> set cols \<and> n' = ColumnRefExpr [] (bout b)) \<or>
     (\<exists>c. n = ColumnRefExpr [] c \<and> by_name st c = [] \<and> alias c = Some n')"

definition agg_grows :: "aggBuilder \<Rightarrow> aggBuilder \<Rightarrow> bool" where
  "agg_grows ab ab' \<longleftrightarrow> aggChild ab' = aggChild ab \<and> aggGroupBy ab' = aggGroupBy ab \<and> groupCols ab' = groupCols ab \<and> set (aggItems ab) \<subseteq> set (aggItems ab')"

lemma agg_grows_refl [simp]: "agg_grows ab ab"
  by (simp add: agg_grows_def)

lemma agg_grows_trans: "agg_grows a b \<Longrightarrow> agg_grows b c \<Longrightarrow> agg_grows a c"
  by (auto simp: agg_grows_def)

lemma agg_item_key:
  assumes "agg_argument st fn arg dst = Inr arg'"
  shows "arg_key st arg = Inr (item_key (agg_item fn dst name arg' n))"
proof (cases "arg = None \<or> arg = Some StarExpr")
  case True
  then show ?thesis using assms by (auto simp: agg_argument_def arg_key_def agg_item_def item_key_def split: if_splits)
next
  case False
  then obtain a a' where a: "arg = Some a" "\<not> containsAggregate (Some a)" "a \<noteq> StarExpr" "resolveColumns st a = Inr a'" "arg' = Some a'"
    using assms by (auto simp: agg_argument_def res_map_eq_Inr split: option.splits if_splits)
  have "t = []" if "a' = ColumnRefExpr t c" for t c using resolveColumns_rewritten [OF a(4)] rewritten_column that by blast
  then have "item_key (agg_item fn dst name arg' n) = FormatExpr a'" using a(5) by (cases a') (auto simp: agg_item_def item_key_def)
  then show ?thesis using a by (simp add: arg_key_def)
qed

lemma addAggregate_item:
  assumes "addAggregate st f arg dst name ab = Inr (e, ab')"
  shows "agg_grows ab ab' \<and> agg_node st alias cols (aggItems ab') (AggFuncExpr f arg dst) e"
proof -
  obtain arg' nm where a: "agg_argument st (ToUpper f) arg dst = Inr arg'" "e = ColumnRefExpr [] nm"
    "ab' = ab\<lparr>outNames := nm # outNames ab, aggItems := aggItems ab @ [agg_item (ToUpper f) dst nm arg' (length (aggItems ab))]\<rparr>"
    using assms by (auto simp: addAggregate_def Let_def res_map_eq_Inr split: if_splits)
  let ?a = "agg_item (ToUpper f) dst nm arg' (length (aggItems ab))"
  have "AggAlias ?a = nm" "Func ?a = ToUpper f" "AggDistinct ?a = dst" by (auto simp: agg_item_def split: option.splits sql_expr.splits)
  then show ?thesis using agg_item_key [OF a(1), of nm "length (aggItems ab)"] a(2,3) by (force simp: agg_grows_def agg_node_def)
qed

lemma agg_node_grows:
  assumes "agg_node st alias (groupCols ab) (aggItems ab) n n'" "agg_grows ab ab'"
  shows "agg_node st alias (groupCols ab') (aggItems ab') n n'"
proof -
  have g: "set (aggItems ab) \<subseteq> set (aggItems ab')" "groupCols ab' = groupCols ab" using assms(2) by (simp_all add: agg_grows_def)
  show ?thesis using assms(1) subsetD [OF g(1)] unfolding agg_node_def g(2) by blast
qed

lemma agg_fn_step:
  assumes "agg_fn st alias n ab = Inr (out, ab')"
  shows "agg_grows ab ab' \<and> (case out of Some n' \<Rightarrow> agg_node st alias (groupCols ab') (aggItems ab') n n' | None \<Rightarrow> \<not> is_agg n \<and> (\<forall>t c. n \<noteq> ColumnRefExpr t c))"
proof (cases n)
  case (AggFuncExpr f arg dst)
  then obtain key e where k: "arg_key st arg = Inr key" "out = Some e"
    "(case find (\<lambda>a. Func a = ToUpper f \<and> AggDistinct a = dst \<and> item_key a = key) (aggItems ab) of Some a \<Rightarrow> Inr (ColumnRefExpr [] (AggAlias a), ab) | None \<Rightarrow> addAggregate st f arg dst [] ab) = Inr (e, ab')"
    using assms by (auto simp: agg_fn_def findOrAddAggregate_def res_bind_eq_Inr res_map_eq_Inr)
  show ?thesis
  proof (cases "find (\<lambda>a. Func a = ToUpper f \<and> AggDistinct a = dst \<and> item_key a = key) (aggItems ab)")
    case None
    then show ?thesis using k addAggregate_item AggFuncExpr by auto
  next
    case (Some a)
    then show ?thesis using k find_SomeD [OF Some] AggFuncExpr by (auto simp: agg_node_def)
  qed
next
  case (ColumnRefExpr t c)
  then show ?thesis using assms by (auto simp: agg_fn_def agg_column_ref_def agg_node_def res_map_eq_Inr split: sum.splits option.splits if_splits)
qed (use assms in \<open>simp_all add: agg_fn_def\<close>)

interpretation aggregating: rewriting "agg_fn st al" agg_grows F "agg_node st al (groupCols F) (aggItems F)" False for st al F
proof
  show "agg_grows s s'" if "agg_fn st al n s = Inr (out, s')" for n s out s' using agg_fn_step [OF that] by blast
  show "agg_node st al (groupCols F) (aggItems F) n n'" if "agg_fn st al n s = Inr (Some n', s')" "agg_grows s' F" for n s n' s'
    using agg_fn_step [OF that(1)] agg_node_grows [OF _ that(2)] by simp
  show "(is_agg n \<longrightarrow> False) \<and> (\<forall>t c. n \<noteq> ColumnRefExpr t c)" if "agg_fn st al n s = Inr (None, s')" for n s s' using agg_fn_step [OF that] by simp
qed (simp, rule agg_grows_trans)

text \<open>An expression and its form over the aggregate.\<close>

abbreviation over_agg :: "symbolTable \<Rightarrow> (string \<Rightarrow> sql_expr option) \<Rightarrow> string list \<Rightarrow> AggItem list \<Rightarrow> sql_expr \<Rightarrow> sql_expr \<Rightarrow> bool" where
  "over_agg st al cols aggs \<equiv> rewritten False (agg_node st al cols aggs)"

lemma agg_rewrite_over: "agg_rewrite st alias e ab = Inr (e', ab') \<Longrightarrow> agg_grows ab ab' \<and> (agg_grows ab' F \<longrightarrow> over_agg st alias (groupCols F) (aggItems F) e e')"
  unfolding agg_rewrite_def by (rule aggregating.rewriteExpr_tracks)

lemma agg_select_item_over:
  assumes "agg_select_item st it ab = Inr (e, ab')"
  shows "agg_grows ab ab' \<and> (agg_grows ab' F \<longrightarrow> over_agg st (\<lambda>_. None) (groupCols F) (aggItems F) (sexpr it) e)"
proof (cases "sexpr it")
  case (AggFuncExpr f arg dst)
  then have "addAggregate st f arg dst (salias it) ab = Inr (e, ab')" using assms by (simp add: agg_select_item_def)
  then show ?thesis using addAggregate_item agg_node_grows AggFuncExpr by (metis rewritten.replaced)
qed (use assms agg_rewrite_over in \<open>auto simp: agg_select_item_def\<close>)

lemma group_column_cols:
  assumes "group_column st ab gb = Inr ab'" "aggGroupBy ab = map (ColumnRefExpr []) (rev (groupCols ab))"
  shows "aggChild ab' = aggChild ab \<and> aggGroupBy ab' = map (ColumnRefExpr []) (rev (groupCols ab'))"
  using assms by (auto simp: group_column_def res_map_eq_Inr split: if_splits sql_expr.splits)

text \<open>The SELECT list and HAVING over the aggregate node that planning ends with.\<close>

definition grouped_query :: "symbolTable \<Rightarrow> selectItem list \<Rightarrow> sql_expr list \<Rightarrow> sql_expr option \<Rightarrow> sql_expr option \<Rightarrow> string list \<Rightarrow> AggItem list \<Rightarrow> bool" where
  "grouped_query st items exprs having h cols aggs \<longleftrightarrow> list_all2 (\<lambda>it. over_agg st (\<lambda>_. None) cols aggs (sexpr it)) items exprs \<and>
     rel_option (over_agg st (select_alias items exprs) cols aggs) having h"

lemma buildAggregation_over:
  assumes "buildAggregation child gbs having items st = Inr (qs, exprs)"
  shows "\<exists>ab h. qs = Aggregated ab h \<and> aggChild ab = child \<and> aggGroupBy ab = map (ColumnRefExpr []) (rev (groupCols ab)) \<and>
    (\<forall>F. agg_grows ab F \<longrightarrow> grouped_query st items exprs having h (groupCols F) (aggItems F))"
proof -
  let ?ab = "\<lparr>aggChild = child, aggGroupBy = [], aggItems = [], groupCols = [], outNames = []\<rparr>"
  obtain ab1 ab2 h ab3 where r: "fold_res (group_column st) ?ab gbs = Inr ab1" "st_map (agg_select_item st) items ab1 = Inr (exprs, ab2)"
    "st_opt (agg_rewrite st (select_alias items exprs)) having ab2 = Inr (h, ab3)" "qs = Aggregated ab3 h"
    using assms by (auto simp: buildAggregation_def res_bind_eq_Inr res_map_eq_Inr)
  have 1: "aggChild ab1 = child \<and> aggGroupBy ab1 = map (ColumnRefExpr []) (rev (groupCols ab1))"
    by (rule fold_res_keeps [OF r(1)]) (use group_column_cols in fastforce)+
  have 2: "agg_grows ab1 ab2 \<and> (agg_grows ab2 F \<longrightarrow> list_all2 (\<lambda>it. over_agg st (\<lambda>_. None) (groupCols F) (aggItems F) (sexpr it)) items exprs)" for F
    by (rule aggregating.st_map_tracks [OF r(2)]) (rule agg_select_item_over)
  have 3: "agg_grows ab2 ab3 \<and> (agg_grows ab3 F \<longrightarrow> rel_option (over_agg st (select_alias items exprs) (groupCols F) (aggItems F)) having h)" for F
    by (rule aggregating.st_opt_tracks [OF r(3)]) (rule agg_rewrite_over)
  have "agg_grows ab1 ab3" using 2 3 agg_grows_trans by blast
  then have "aggChild ab3 = child" "aggGroupBy ab3 = map (ColumnRefExpr []) (rev (groupCols ab3))" using 1 by (simp_all add: agg_grows_def)
  moreover have "grouped_query st items exprs having h (groupCols F) (aggItems F)" if "agg_grows ab3 F" for F
    using 2 3 that agg_grows_trans unfolding grouped_query_def by blast
  ultimately show ?thesis using r(4) by blast
qed

end
