(* ===== verification/PlanBuild.thy ===== *)
theory PlanBuild
  imports PlanRewrite
begin

text \<open>
  The plan of a whole statement: the FROM tables and the terms of WHERE and HAVING reach the optimized plan, whatever the SELECT list, the grouping, the order and the limit
  put on top of them.
\<close>

section \<open>Rewriting keeps an invariant of the state\<close>

lemma st_map_keeps:
  assumes "st_map f xs s = Inr (ys, s')" "P s" "\<And>x s y s'. x \<in> set xs \<Longrightarrow> f x s = Inr (y, s') \<Longrightarrow> P s \<Longrightarrow> P s'"
  shows "P s'"
  using assms by (induction xs arbitrary: s ys) (auto simp: res_bind_eq_Inr res_map_eq_Inr, metis list.set_intros)

lemma st_opt_keeps:
  assumes "st_opt f x s = Inr (y, s')" "P s" "\<And>z s y s'. x = Some z \<Longrightarrow> f z s = Inr (y, s') \<Longrightarrow> P s \<Longrightarrow> P s'"
  shows "P s'"
  using assms by (auto simp: st_opt_def res_map_eq_Inr split: option.splits)

lemma rewrite_node_keeps:
  assumes "rewrite_node fn e children s = Inr (e', s')" "P s" "\<And>s out s'. fn e s = Inr (out, s') \<Longrightarrow> P s \<Longrightarrow> P s'"
    "\<And>s e' s'. children s = Inr (e', s') \<Longrightarrow> P s \<Longrightarrow> P s'"
  shows "P s'"
  using assms(1,2) by (auto simp: rewrite_node_def res_bind_eq_Inr split: option.splits intro: assms(3,4))

lemma rewriteExpr_keeps:
  assumes "rewriteExpr fn e s = Inr (e', s')" "P s" "\<And>n s out s'. fn n s = Inr (out, s') \<Longrightarrow> P s \<Longrightarrow> P s'"
  shows "P s'"
  using assms
proof (induction fn e s arbitrary: e' s' rule: rewriteExpr.induct)
  case (5 fn e items negated s)
  show ?case using 5(3,4) unfolding rewriteExpr.simps
    by (rule rewrite_node_keeps) (use 5 in \<open>auto simp: res_bind_eq_Inr res_map_eq_Inr elim!: st_map_keeps [where P = P]\<close>)
next
  case (7 fn f arg dst s)
  show ?case using 7(2,3) unfolding rewriteExpr.simps
    by (rule rewrite_node_keeps) (use 7 in \<open>auto simp: res_bind_eq_Inr res_map_eq_Inr elim!: st_opt_keeps [where P = P]\<close>)
next
  case (8 fn f args s)
  show ?case using 8(2,3) unfolding rewriteExpr.simps
    by (rule rewrite_node_keeps) (use 8 in \<open>auto simp: res_bind_eq_Inr res_map_eq_Inr elim!: st_map_keeps [where P = P]\<close>)
next
  case (9 fn ws els s)
  show ?case using 9(4,5) unfolding rewriteExpr.simps
    by (rule rewrite_node_keeps) (use 9 in \<open>auto simp: res_bind_eq_Inr res_map_eq_Inr elim!: st_map_keeps [where P = P] st_opt_keeps [where P = P]\<close>)
qed (simp_all, (erule rewrite_node_keeps; auto simp: res_bind_eq_Inr res_map_eq_Inr)+)

section \<open>Column resolution\<close>

lemma resolved_simps:
  "resolved (BinaryExpr op l r) \<longleftrightarrow> resolved l \<and> resolved r" "resolved (UnaryExpr uop e) \<longleftrightarrow> resolved e" "resolved (IsNullE e isNot) \<longleftrightarrow> resolved e"
  "resolved (BetweenE e lo hi negated) \<longleftrightarrow> resolved e \<and> resolved lo \<and> resolved hi" "resolved (InE e items negated) \<longleftrightarrow> resolved e \<and> (\<forall>x \<in> set items. resolved x)"
  "resolved (LikeE e pattern negated) \<longleftrightarrow> resolved e \<and> resolved pattern" "resolved (AggFuncExpr f arg dst) \<longleftrightarrow> (\<forall>a. arg = Some a \<longrightarrow> resolved a)"
  "resolved (FuncExpr f args) \<longleftrightarrow> (\<forall>x \<in> set args. resolved x)"
  "resolved (CaseE ws els) \<longleftrightarrow> (\<forall>w \<in> set ws. resolved (fst w) \<and> resolved (snd w)) \<and> (\<forall>e. els = Some e \<longrightarrow> resolved e)"
  "resolved (ColumnRefExpr t n) \<longleftrightarrow> t = []"
  by (auto simp: resolved_def split: option.splits) (fastforce)+

lemma st_map_all:
  assumes "st_map f xs s = Inr (ys, s')" "\<And>x s y s'. x \<in> set xs \<Longrightarrow> f x s = Inr (y, s') \<Longrightarrow> Q y"
  shows "\<forall>y \<in> set ys. Q y"
  using assms by (induction xs arbitrary: s ys) (auto simp: res_bind_eq_Inr res_map_eq_Inr, metis+)

lemma st_opt_all: "st_opt f x s = Inr (y, s') \<Longrightarrow> (\<And>z s y s'. x = Some z \<Longrightarrow> f z s = Inr (y, s') \<Longrightarrow> Q y) \<Longrightarrow> \<forall>z. y = Some z \<longrightarrow> Q z"
  by (auto simp: st_opt_def res_map_eq_Inr split: option.splits)

lemma resolve_node:
  assumes "rewrite_node (resolve_fn st) e children s = Inr (e', s')" "\<And>s e' s'. children s = Inr (e', s') \<Longrightarrow> (\<forall>t n. e \<noteq> ColumnRefExpr t n) \<Longrightarrow> resolved e'"
  shows "resolved e'"
  using assms by (auto simp: rewrite_node_def resolve_fn_def res_bind_eq_Inr res_map_eq_Inr resolved_simps split: option.splits sql_expr.splits)

lemma resolve_resolved: "rewriteExpr (resolve_fn st) e s = Inr (e', s') \<Longrightarrow> resolved e'"
proof (induction "resolve_fn st" e s arbitrary: e' s' rule: rewriteExpr.induct)
  case (5 e items negated s)
  show ?case using 5(3) unfolding rewriteExpr.simps
    by (rule resolve_node) (use 5 in \<open>auto simp: res_bind_eq_Inr res_map_eq_Inr resolved_simps dest!: st_map_all [where Q = resolved]\<close>)
next
  case (7 f arg dst s)
  show ?case using 7(2) unfolding rewriteExpr.simps
    by (rule resolve_node) (use 7 in \<open>auto simp: res_bind_eq_Inr res_map_eq_Inr resolved_simps dest!: st_opt_all [where Q = resolved]\<close>)
next
  case (8 f args s)
  show ?case using 8(2) unfolding rewriteExpr.simps
    by (rule resolve_node) (use 8 in \<open>auto simp: res_bind_eq_Inr res_map_eq_Inr resolved_simps dest!: st_map_all [where Q = resolved]\<close>)
next
  case (9 ws els s)
  let ?both = "\<lambda>w s. res_bind (rewriteExpr (resolve_fn st) (fst w) s) (\<lambda>(c, s). res_map (\<lambda>(r, s). ((c, r), s)) (rewriteExpr (resolve_fn st) (snd w) s))"
  show ?case using 9(4) unfolding rewriteExpr.simps
  proof (rule resolve_node)
    fix s e' s' assume "res_bind (st_map ?both ws s) (\<lambda>(ws, s). res_map (\<lambda>(els, s). (CaseE ws els, s)) (st_opt (rewriteExpr (resolve_fn st)) els s)) = Inr (e', s')"
    then obtain ws' s1 els' where r: "st_map ?both ws s = Inr (ws', s1)" "st_opt (rewriteExpr (resolve_fn st)) els s1 = Inr (els', s')" "e' = CaseE ws' els'"
      by (auto simp: res_bind_eq_Inr res_map_eq_Inr)
    have both: "resolved (fst y) \<and> resolved (snd y)" if w: "w \<in> set ws" and b: "?both w s = Inr (y, s')" for w s y s'
    proof -
      obtain c s1 r where c: "rewriteExpr (resolve_fn st) (fst w) s = Inr (c, s1)" "rewriteExpr (resolve_fn st) (snd w) s1 = Inr (r, s')" "y = (c, r)"
        using b by (force simp: res_bind_eq_Inr res_map_eq_Inr)
      show ?thesis using 9(1) [OF w c(1)] 9(2) [OF w c(1) refl c(2)] c(3) by simp
    qed
    have "\<forall>w \<in> set ws'. resolved (fst w) \<and> resolved (snd w)" by (rule st_map_all [OF r(1)]) (rule both)
    moreover have "\<forall>e. els' = Some e \<longrightarrow> resolved e" using r(2) by (rule st_opt_all) (rule 9(3) [OF r(1) refl])
    ultimately show "resolved e'" using r(3) by (simp add: resolved_simps)
  qed
qed (simp_all, (erule resolve_node, fastforce simp: res_bind_eq_Inr res_map_eq_Inr resolved_simps | erule resolve_node, simp add: resolved_def)+)

section \<open>What grouping and ordering keep\<close>

definition query_grows :: "query_source \<Rightarrow> query_source \<Rightarrow> bool" where
  "query_grows q q' \<longleftrightarrow> (case q of Scalar child \<Rightarrow> q' = Scalar child | Aggregated ab h \<Rightarrow> (\<exists>ab'. q' = Aggregated ab' h \<and> agg_grows ab ab'))"

lemma query_grows_refl [simp]: "query_grows q q"
  by (simp add: query_grows_def split: query_source.splits)

lemma query_grows_trans: "query_grows a b \<Longrightarrow> query_grows b c \<Longrightarrow> query_grows a c"
  by (auto simp: query_grows_def dest: agg_grows_trans split: query_source.splits)

lemma agg_rewrite_grows: "agg_rewrite st al e ab = Inr (e', ab') \<Longrightarrow> agg_grows ab ab'"
  using agg_rewrite_over by blast

lemma orderExpr_grows:
  assumes "orderExpr st e qs = Inr (e', qs')"
  shows "query_grows qs qs'"
proof (cases qs)
  case (Scalar child)
  then show ?thesis using assms by (auto simp: query_grows_def res_bind_eq_Inr split: option.splits)
next
  case (Aggregated ab having)
  then obtain ab' where "agg_rewrite st (\<lambda>_. None) e ab = Inr (e', ab')" "qs' = Aggregated ab' having" using assms by (auto simp: res_map_eq_Inr)
  then show ?thesis using Aggregated agg_rewrite_grows by (simp add: query_grows_def)
qed

lemma order_item_grows:
  assumes "order_item st sitems exprs dst s ob = Inr s'"
  shows "query_grows (snd (snd s)) (snd (snd s'))"
proof -
  obtain items orderBy qs e desc where s: "s = (items, orderBy, qs)" "ob = (e, desc)" by (metis prod_cases3 surj_pair)
  obtain target i where t: "orderTarget sitems exprs e = Inr target"
    "(case target of Some i \<Rightarrow> Inr ((i, items), qs) | None \<Rightarrow> res_bind (orderExpr st e qs) (\<lambda>(resolved, qs). res_map (\<lambda>r. (r, qs)) (hidden_item dst resolved items))) = Inr (i, snd (snd s'))"
    using assms by (auto simp: s order_item_def res_map_eq_Inr res_bind_eq_Inr)
  show ?thesis
  proof (cases target)
    case None
    then obtain e' where "orderExpr st e qs = Inr (e', snd (snd s'))" using t(2) by (auto simp: res_map_eq_Inr res_bind_eq_Inr)
    then show ?thesis using orderExpr_grows s(1) by simp
  next
    case (Some j)
    then show ?thesis using t(2) s(1) by simp
  qed
qed

lemma source_node_parts:
  "plan_terms (source_node (Scalar child)) = plan_terms child" "plan_scans (source_node (Scalar child)) = plan_scans child"
  "plan_terms (source_node (Aggregated ab h)) = plan_terms (aggChild ab) @ cond_terms h" "plan_scans (source_node (Aggregated ab h)) = plan_scans (aggChild ab)"
  "plan_aggs (source_node (Aggregated ab h)) = (aggGroupBy ab, aggItems ab) # plan_aggs (aggChild ab)" "pushed_down (source_node (Aggregated ab h)) = pushed_down (aggChild ab)"
  by (cases h; simp add: aggregate_node_def cond_terms_def)+

lemma limit_node_parts:
  "plan_terms (limit_node l off root) = plan_terms root" "plan_scans (limit_node l off root) = plan_scans root" "plan_aggs (limit_node l off root) = plan_aggs root"
  "pushed_down (limit_node l off root) = pushed_down root"
  by (simp_all add: limit_node_def)

lemma rename_node_parts:
  "plan_terms (rename_node sitems items root) = plan_terms root" "plan_scans (rename_node sitems items root) = plan_scans root"
  "plan_aggs (rename_node sitems items root) = plan_aggs root" "pushed_down (rename_node sitems items root) = pushed_down root"
  by (simp_all add: rename_node_def Let_def)

lemma finish_parts:
  assumes "finish stmt st sitems (qs, exprs) = Inr plan"
  obtains qs' where "query_grows qs qs'" "plan_terms plan = plan_terms (source_node qs')" "plan_scans plan = plan_scans (source_node qs')"
    "plan_aggs plan = plan_aggs (source_node qs')" "pushed_down plan = pushed_down (source_node qs')"
proof -
  obtain s where s: "fold_res (order_item st sitems exprs (Parser.Distinct stmt)) (unique_items sitems exprs, [], qs) (OrderBy stmt) = Inr s"
    "plan_terms plan = plan_terms (source_node (snd (snd s)))" "plan_scans plan = plan_scans (source_node (snd (snd s)))"
    "plan_aggs plan = plan_aggs (source_node (snd (snd s)))" "pushed_down plan = pushed_down (source_node (snd (snd s)))"
    using assms by (auto simp: finish_def res_map_eq_Inr Let_def rename_node_parts limit_node_parts)
  have "query_grows qs (snd (snd s))" by (rule fold_res_keeps [OF s(1)]) (auto dest: order_item_grows intro: query_grows_trans)
  then show thesis using that s(2-5) by blast
qed

section \<open>The plan of a statement\<close>

lemma open_tables_bare: "open_tables fs refs cat = Inr (scans, cat') \<Longrightarrow> length scans = length refs \<and> (\<forall>n \<in> set scans. Predicate n = None \<and> NeededCols n = [])"
  by (induction refs arbitrary: cat scans cat') (auto simp: res_map_eq_Inr split: option.splits prod.splits)

definition named_scans :: "symbolTable \<Rightarrow> LogicalScan list \<Rightarrow> LogicalScan list" where
  "named_scans st scans = map (\<lambda>(sc, bs). applyOutputNames bs sc) (zip scans (bindings st))"

lemma named_scans_bare:
  assumes "newSymbolTable (map LSchema scans) refs = Inr st" "\<forall>n \<in> set scans. Predicate n = None \<and> NeededCols n = []"
  shows "length (named_scans st scans) = length scans" "\<forall>n \<in> set (named_scans st scans). Predicate n = None" "map bare (named_scans st scans) = named_scans st scans"
proof -
  have "length (bindings st) = length scans" using assms(1) by (auto simp: newSymbolTable_def Let_def split: if_splits)
  then show "length (named_scans st scans) = length scans" by (simp add: named_scans_def)
  have *: "Predicate n = None \<and> NeededCols n = []" if "n \<in> set (named_scans st scans)" for n
    using that assms(2) by (auto simp: named_scans_def applyOutputNames_def Let_def dest!: set_zip_leftD)
  then show "\<forall>n \<in> set (named_scans st scans). Predicate n = None" by blast
  show "map bare (named_scans st scans) = named_scans st scans" by (rule map_idI) (use * in \<open>auto simp: bare_def\<close>)
qed

definition own_predicates :: "symbolTable \<Rightarrow> LogicalScan list \<Rightarrow> LogicalNode \<Rightarrow> bool" where
  "own_predicates st scans plan \<longleftrightarrow> (\<forall>n \<in> set (plan_scans plan). \<exists>t < length scans. bare n = bare (scans ! t) \<and> (\<forall>q. Predicate n = Some q \<longrightarrow> set (tablesOf st q) \<subseteq> {t}))"

text \<open>The predicates of scans under optimization: pruning leaves them, and pushing down adds a filter only over the scan of a query of one table.\<close>

lemma own_predicates_prune: "own_predicates st scans (pruneColumns plan needed) = own_predicates st scans plan"
proof -
  let ?f = "\<lambda>n. (bare n, Predicate n)"
  have "own_predicates st scans p \<longleftrightarrow> (\<forall>x \<in> set (map ?f (plan_scans p)). \<exists>t < length scans. fst x = bare (scans ! t) \<and> (\<forall>q. snd x = Some q \<longrightarrow> set (tablesOf st q) \<subseteq> {t}))" for p
    by (simp add: own_predicates_def)
  then show ?thesis by (simp only: pruneColumns_scans)
qed

lemma own_predicates_one:
  assumes "newSymbolTable schemas refs = Inr st" "length schemas = 1" "mset (map bare (plan_scans plan)) = mset [bare sc]"
  shows "own_predicates st [sc] plan"
proof -
  have "set (tablesOf st q) \<subseteq> {0}" for q using tablesOf_table [OF assms(1)] assms(2) by auto
  moreover have "bare n = bare sc" if "n \<in> set (plan_scans plan)" for n
    using mset_eq_setD [OF assms(3)] that by (metis empty_iff image_eqI insert_iff list.set(1,2) list.set_map)
  ultimately show ?thesis by (auto simp: own_predicates_def)
qed

lemma from_where_ok:
  assumes st: "newSymbolTable schemas refs = Inr st" "length scans = length schemas" "scans \<noteq> []" and none: "\<forall>n \<in> set scans. Predicate n = None"
    and w: "\<forall>w. cond = Some w \<longrightarrow> resolved w" and p: "from_where scans cond st = Inr plan"
  shows "term_mset (plan_terms plan) = term_mset (cond_terms cond)" "mset (map bare (plan_scans plan)) = mset (map bare scans)" "plan_aggs plan = []"
    "length scans = 1 \<or> pushed_down plan \<and> own_predicates st scans plan"
proof -
  consider (one) sc where "scans = [sc]" | (many) "2 \<le> length scans" "buildMultiTablePlan scans cond st = Inr plan"
    using p st(3) by (cases scans rule: remdups_adj.cases) (auto simp: from_where_def)
  then have "term_mset (plan_terms plan) = term_mset (cond_terms cond) \<and> mset (map bare (plan_scans plan)) = mset (map bare scans) \<and> plan_aggs plan = [] \<and>
    (length scans = 1 \<or> pushed_down plan \<and> own_predicates st scans plan)"
  proof cases
    case one
    then show ?thesis using p none by (auto simp: from_where_def scan_terms_def cond_terms_def split: option.splits)
  next
    case many
    show ?thesis using buildMultiTablePlan_ok [OF st none w many(2)] buildMultiTablePlan_shape [OF many(2,1)] by (simp add: own_predicates_def)
  qed
  then show "term_mset (plan_terms plan) = term_mset (cond_terms cond)" "mset (map bare (plan_scans plan)) = mset (map bare scans)" "plan_aggs plan = []"
    "length scans = 1 \<or> pushed_down plan \<and> own_predicates st scans plan" by simp_all
qed

text \<open>
  HAVING in a plan: the condition \<open>h\<close> over the aggregate is that of the statement, with its columns, aggregate calls and SELECT aliases replaced by columns of the plan's one aggregate node.
\<close>

definition having_planned :: "symbolTable \<Rightarrow> SelectStmt \<Rightarrow> LogicalNode \<Rightarrow> sql_expr option \<Rightarrow> bool" where
  "having_planned st stmt plan h \<longleftrightarrow> (Having stmt = None \<and> h = None) \<or>
     (\<exists>exprs cols aggs. plan_aggs plan = [(map (ColumnRefExpr []) cols, aggs)] \<and> grouped_query st (expandSelectList (Parser.Columns stmt) st) exprs (Having stmt) h cols aggs)"

lemma grouped_query_rev: "grouped_query st items exprs having h (rev cols) aggs = grouped_query st items exprs having h cols aggs"
  by (simp add: grouped_query_def agg_node_def [abs_def])

lemma aggregation_parts:
  assumes "buildAggregation root gbs having items st = Inr (qs, exprs)" "query_grows qs qs'" "plan_aggs root = []"
  obtains h where "plan_terms (source_node qs') = plan_terms root @ cond_terms h" "plan_scans (source_node qs') = plan_scans root" "pushed_down (source_node qs') = pushed_down root"
    "\<exists>cols aggs. plan_aggs (source_node qs') = [(map (ColumnRefExpr []) cols, aggs)] \<and> grouped_query st items exprs having h cols aggs"
proof -
  obtain ab h where ab: "qs = Aggregated ab h" "aggChild ab = root" "aggGroupBy ab = map (ColumnRefExpr []) (rev (groupCols ab))"
    "\<forall>F. agg_grows ab F \<longrightarrow> grouped_query st items exprs having h (groupCols F) (aggItems F)" using buildAggregation_over [OF assms(1)] by blast
  obtain F where F: "qs' = Aggregated F h" "agg_grows ab F" using assms(2) ab(1) by (auto simp: query_grows_def)
  have g: "aggChild F = root" "aggGroupBy F = map (ColumnRefExpr []) (rev (groupCols F))" using F(2) ab(2,3) by (simp_all add: agg_grows_def)
  have "grouped_query st items exprs having h (rev (groupCols F)) (aggItems F)" using ab(4) F(2) by (simp add: grouped_query_rev)
  then show thesis using that [of h] F(1) g assms(3) by (auto simp: source_node_parts)
qed

lemma Build_parts:
  assumes "Build fs stmt cat = Inr (plan, cat')"
  obtains scans st p root h where "open_tables fs (From stmt) cat = Inr (scans, cat')" "newSymbolTable (map LSchema scans) (From stmt) = Inr st" "resolveScalar st (Where stmt) = Inr p"
    "from_where (named_scans st scans) p st = Inr root"
    "plan_aggs root = [] \<longrightarrow> having_planned st stmt plan h \<and> plan_terms plan = plan_terms root @ cond_terms h \<and> plan_scans plan = plan_scans root \<and> pushed_down plan = pushed_down root"
proof -
  let ?items = "\<lambda>st. expandSelectList (Parser.Columns stmt) st"
  obtain scans st p root qs exprs where r: "open_tables fs (From stmt) cat = Inr (scans, cat')" "newSymbolTable (map LSchema scans) (From stmt) = Inr st" "resolveScalar st (Where stmt) = Inr p"
    "from_where (named_scans st scans) p st = Inr root" "finish stmt st (?items st) (qs, exprs) = Inr plan"
    "buildAggregation root (GroupBy stmt) (Having stmt) (?items st) st = Inr (qs, exprs) \<or> Having stmt = None \<and> buildScalarSelect root (?items st) st = Inr (qs, exprs)"
    using assms by (auto simp: Build_def Let_def res_bind_eq_Inr res_map_eq_Inr named_scans_def split: if_splits)
  obtain qs' where f: "query_grows qs qs'" "plan_terms plan = plan_terms (source_node qs')" "plan_scans plan = plan_scans (source_node qs')"
    "plan_aggs plan = plan_aggs (source_node qs')" "pushed_down plan = pushed_down (source_node qs')" by (rule finish_parts [OF r(5)])
  have "\<exists>h. plan_aggs root = [] \<longrightarrow> having_planned st stmt plan h \<and> plan_terms plan = plan_terms root @ cond_terms h \<and> plan_scans plan = plan_scans root \<and> pushed_down plan = pushed_down root"
    using r(6)
  proof
    assume a: "buildAggregation root (GroupBy stmt) (Having stmt) (?items st) st = Inr (qs, exprs)"
    show ?thesis
    proof (cases "plan_aggs root = []")
      case True
      obtain h where "plan_terms (source_node qs') = plan_terms root @ cond_terms h" "plan_scans (source_node qs') = plan_scans root" "pushed_down (source_node qs') = pushed_down root"
        "\<exists>cols aggs. plan_aggs (source_node qs') = [(map (ColumnRefExpr []) cols, aggs)] \<and> grouped_query st (?items st) exprs (Having stmt) h cols aggs"
        by (rule aggregation_parts [OF a f(1) True])
      then show ?thesis using f(2-5) unfolding having_planned_def by (intro exI [of _ h]) metis
    qed simp
  next
    assume "Having stmt = None \<and> buildScalarSelect root (?items st) st = Inr (qs, exprs)"
    then have "Having stmt = None" "qs' = Scalar root" using f(1) by (auto simp: buildScalarSelect_def res_map_eq_Inr query_grows_def)
    then show ?thesis using f(2,3,5) by (intro exI [of _ None]) (simp add: having_planned_def cond_terms_def)
  qed
  then obtain h where h: "plan_aggs root = [] \<longrightarrow> having_planned st stmt plan h \<and> plan_terms plan = plan_terms root @ cond_terms h \<and> plan_scans plan = plan_scans root \<and> pushed_down plan = pushed_down root" ..
  show thesis by (rule that [OF r(1-4)]) (use h in blast)
qed

lemma resolveScalar_parts:
  assumes "resolveScalar st w = Inr p"
  shows "rel_option (rewritten True (column_node st)) w p" "\<forall>q. p = Some q \<longrightarrow> resolved q"
  using assms resolveColumns_rewritten resolve_resolved by (auto simp: resolveScalar_def resolveColumns_def res_map_eq_Inr split: option.splits if_splits)


abbreviation ex_field :: "string \<Rightarrow> Field" where
  "ex_field name \<equiv> \<lparr>Name = name, Type = TypeInt64, FEncoding = EncPlain, Nullable = False\<rparr>"

definition ex_catalog :: Catalog where
  "ex_catalog = Register ''orders'' ''orders.vxq'' [ex_field ''uid'', ex_field ''total''] (Register ''users'' ''users.vxq'' [ex_field ''uid'', ex_field ''age''] Map.empty)"

text \<open>\<^verbatim>\<open>SELECT o.total FROM orders o, users u WHERE total > 100 AND (u.uid = o.uid AND u.age < 30) LIMIT 10\<close>\<close>

definition ex_cond :: sql_expr where
  "ex_cond = BinaryExpr OpAnd (BinaryExpr OpGT (ColumnRefExpr [] ''total'') (IntLiteral 100))
     (BinaryExpr OpAnd (BinaryExpr OpEQ (ColumnRefExpr ''u'' ''uid'') (ColumnRefExpr ''o'' ''uid'')) (BinaryExpr OpLT (ColumnRefExpr ''u'' ''age'') (IntLiteral 30)))"

definition ex_stmt :: SelectStmt where
  "ex_stmt = SelectStmt False [(ColumnRefExpr ''o'' ''total'', [])] [(''orders'', ''o''), (''users'', ''u'')] (Some ex_cond) None [] [] (Some 10) None"


end
