(* ===== verification/PlanPrune.thy ===== *)
theory PlanPrune
  imports PlanBuild
begin

text \<open>
  Optimization and the columns a plan reads: predicate pushdown and column pruning leave the schema of the plan as it is, and every column that an operator of the plan names stays in the schema of its input.
\<close>

section \<open>Plans whose columns are there\<close>

definition has_cols :: "Schema \<Rightarrow> string list \<Rightarrow> bool" where
  "has_cols schema cols \<longleftrightarrow> list_all (\<lambda>c. find_field schema c \<noteq> None) cols"

definition column_only :: "sql_expr \<Rightarrow> bool" where
  "column_only e = (case e of ColumnRefExpr table name \<Rightarrow> True | _ \<Rightarrow> False)"

lemma column_only_iff: "column_only e \<longleftrightarrow> (\<exists>t name. e = ColumnRefExpr t name)"
  by (cases e) (simp_all add: column_only_def)

fun keyed :: "Schema \<Rightarrow> Schema \<Rightarrow> sql_expr \<Rightarrow> bool" where
  "keyed l r (BinaryExpr OpEQ (ColumnRefExpr ta a) (ColumnRefExpr tb b)) \<longleftrightarrow> has_cols l [a] \<and> has_cols r [b]"
| "keyed l r e \<longleftrightarrow> False"

fun plan_wf :: "LogicalNode \<Rightarrow> bool" where
  "plan_wf (LScan n) \<longleftrightarrow> has_cols (OutputSchema (LScan n)) (predicateCols (Predicate n))"
| "plan_wf (LFilter c p) \<longleftrightarrow> plan_wf c \<and> has_cols (OutputSchema c) (collectCols p)"
| "plan_wf (LProject c items) \<longleftrightarrow> plan_wf c \<and> has_cols (OutputSchema c) (concat (map (\<lambda>pe. collectCols (PExpr pe)) items))"
| "plan_wf (LAggregate c gb aggs) \<longleftrightarrow> plan_wf c \<and> list_all column_only gb \<and> has_cols (OutputSchema c) (agg_cols gb aggs)"
| "plan_wf (LSort c ob) \<longleftrightarrow> plan_wf c \<and> has_cols (OutputSchema c) (concat (map (\<lambda>o1. collectCols (fst o1)) ob))"
| "plan_wf (LLimit c n off) \<longleftrightarrow> plan_wf c"
| "plan_wf (LDistinct c) \<longleftrightarrow> plan_wf c"
| "plan_wf (LJoin l r cond) \<longleftrightarrow> plan_wf l \<and> plan_wf r \<and> keyed (OutputSchema l) (OutputSchema r) cond"

definition unpruned :: "LogicalNode \<Rightarrow> bool" where
  "unpruned node \<longleftrightarrow> list_all (\<lambda>n. NeededCols n = []) (plan_scans node)"

lemma unpruned_simps [simp]:
  "unpruned (LScan n) \<longleftrightarrow> NeededCols n = []" "unpruned (LFilter c p) \<longleftrightarrow> unpruned c" "unpruned (LProject c items) \<longleftrightarrow> unpruned c" "unpruned (LAggregate c gb aggs) \<longleftrightarrow> unpruned c"
  "unpruned (LSort c ob) \<longleftrightarrow> unpruned c" "unpruned (LLimit c m off) \<longleftrightarrow> unpruned c" "unpruned (LDistinct c) \<longleftrightarrow> unpruned c" "unpruned (LJoin l r cond) \<longleftrightarrow> unpruned l \<and> unpruned r"
  by (simp_all add: unpruned_def)


section \<open>Lookups in schemas\<close>

lemma find_field_None: "find_field schema c = None \<longleftrightarrow> c \<notin> set (map Name schema)"
  by (auto simp: find_field_def find_None_iff)

lemma find_field_Name: "find_field schema c = Some f \<Longrightarrow> Name f = c"
  by (auto simp: find_field_def find_Some_iff)

lemma find_field_append: "find_field (s @ t) c = (case find_field s c of None \<Rightarrow> find_field t c | Some f \<Rightarrow> Some f)"
  by (induction s) (auto simp: find_field_def)

lemma find_field_narrowed: "find_field (List.map_filter (find_field schema) cols) c = (if c \<in> set cols then find_field schema c else None)"
proof (induction cols)
  case (Cons d cols)
  then show ?case
  proof (cases "find_field schema d")
    case (Some f)
    then have "Name f = d" by (rule find_field_Name)
    then show ?thesis using Cons Some by (auto simp: List.map_filter_simps find_field_def)
  qed (auto simp: List.map_filter_simps)
qed (simp add: List.map_filter_simps find_field_def)

lemma set_uniqueStrings [simp]: "set (uniqueStrings ss) = set ss"
proof -
  have "set (unique_from seen ss) = set ss - set seen" for seen by (induction seen ss rule: unique_from.induct) auto
  then show ?thesis by (simp add: uniqueStrings_def)
qed

definition same_on :: "string set \<Rightarrow> Schema \<Rightarrow> Schema \<Rightarrow> bool" where
  "same_on cs s t \<longleftrightarrow> (\<forall>c \<in> cs. find_field s c = find_field t c)"

lemma known_same: "same_on (set cols) s t \<Longrightarrow> has_cols s cols \<longleftrightarrow> has_cols t cols"
  by (auto simp: has_cols_def same_on_def list_all_iff)

definition column_of :: "sql_expr \<Rightarrow> string option" where
  "column_of n = (case n of ColumnRefExpr table name \<Rightarrow> Some name | _ \<Rightarrow> None)"

lemma column_of_simps: "column_of n = Some c \<longleftrightarrow> (\<exists>t. n = ColumnRefExpr t c)"
  by (cases n) (simp_all add: column_of_def)

lemma set_map_filter: "set (List.map_filter f xs) = {y. \<exists>x \<in> set xs. f x = Some y}"
  by (auto simp: List.map_filter_def) force

lemma set_collectCols: "c \<in> set (collectCols e) \<longleftrightarrow> (\<exists>t. ColumnRefExpr t c \<in> set (walkExpr e))"
  unfolding collectCols_def column_of_def [symmetric] by (auto simp: set_map_filter column_of_simps)

lemma collectCols_sub:
  assumes "set (walkExpr d) \<subseteq> set (walkExpr e)" "same_on (set (collectCols e)) s t"
  shows "same_on (set (collectCols d)) s t"
proof -
  have "set (collectCols d) \<subseteq> set (collectCols e)" using assms(1) by (meson set_collectCols subsetD subsetI)
  then show ?thesis using assms(2) unfolding same_on_def by blast
qed

lemma resolveExprType_same: "same_on (set (collectCols e)) s t \<Longrightarrow> resolveExprType e s = resolveExprType e t"
proof (induction e s rule: resolveExprType.induct)
  case (1 table name schema)
  then show ?case by (simp add: same_on_def set_collectCols)
next
  case (9 op e schema)
  have "same_on (set (collectCols e)) schema t" by (rule collectCols_sub [OF _ 9(2)]) auto
  then show ?case using 9 by simp
next
  case (10 op l r schema)
  have "same_on (set (collectCols l)) schema t" "same_on (set (collectCols r)) schema t" by (rule collectCols_sub [OF _ 10(4)]; auto)+
  then show ?case using 10 by simp
next
  case (11 f arg dst schema)
  have "same_on (set (collectCols a)) schema t" if "arg = Some a" for a by (rule collectCols_sub [OF _ 11(2)]) (use that in auto)
  then show ?case using 11 by (auto split: option.splits)
next
  case (12 ws els schema)
  have "same_on (set (collectCols (snd w))) schema t" if "ws = w # ws'" for w ws' by (rule collectCols_sub [OF _ 12(2)]) (use that in auto)
  then show ?case using 12 by (auto split: list.splits)
qed simp_all

section \<open>Pruning\<close>

text \<open>The columns that an operator must keep: all of them, or those of the needed set.\<close>

definition needs :: "string list option \<Rightarrow> string set" where
  "needs needed = (case needed of None \<Rightarrow> UNIV | Some ns \<Rightarrow> set ns)"

lemma needs_addNeeded: "needs (addNeeded needed cols) = needs needed \<union> set cols"
  by (simp add: needs_def addNeeded_def split: option.splits)

definition pruned_ok :: "LogicalNode \<Rightarrow> string list option \<Rightarrow> bool" where
  "pruned_ok node needed \<longleftrightarrow> plan_wf (pruneColumns node needed) \<and> same_on (needs needed) (OutputSchema (pruneColumns node needed)) (OutputSchema node) \<and>
     set (map Name (OutputSchema (pruneColumns node needed))) \<subseteq> set (map Name (OutputSchema node)) \<and> (needed = None \<longrightarrow> OutputSchema (pruneColumns node needed) = OutputSchema node)"

lemma same_on_subset: "same_on cs s t \<Longrightarrow> ds \<subseteq> cs \<Longrightarrow> same_on ds s t"
  by (auto simp: same_on_def)

lemma pruned_known: "pruned_ok c needed \<Longrightarrow> has_cols (OutputSchema c) cols \<Longrightarrow> set cols \<subseteq> needs needed \<Longrightarrow> has_cols (OutputSchema (pruneColumns c needed)) cols"
  using known_same same_on_subset unfolding pruned_ok_def by meson

lemma pruned_scan:
  assumes "plan_wf (LScan n)" "NeededCols n = []"
  shows "pruned_ok (LScan n) needed"
proof (cases needed)
  case None
  then show ?thesis using assms by (simp add: pruned_ok_def addNeeded_def same_on_def)
next
  case (Some ns)
  let ?cols = "uniqueStrings (ns @ predicateCols (Predicate n))"
  show ?thesis
  proof (cases "?cols = []")
    case True
    then have "set ns = {}" "predicateCols (Predicate n) = []" using set_uniqueStrings [of "ns @ predicateCols (Predicate n)"] by auto
    then show ?thesis using assms Some True by (simp add: pruned_ok_def addNeeded_def same_on_def has_cols_def)
  next
    case False
    have "has_cols (List.map_filter (find_field (LSchema n)) ?cols) (predicateCols (Predicate n))"
      using assms by (auto simp: has_cols_def find_field_narrowed list_all_iff)
    moreover have "set (map Name (List.map_filter (find_field (LSchema n)) ?cols)) \<subseteq> set (map Name (LSchema n))"
    proof
      fix c assume "c \<in> set (map Name (List.map_filter (find_field (LSchema n)) ?cols))"
      then have "find_field (List.map_filter (find_field (LSchema n)) ?cols) c \<noteq> None" by (simp only: find_field_None) simp
      then have "find_field (LSchema n) c \<noteq> None" by (simp add: find_field_narrowed split: if_splits)
      then show "c \<in> set (map Name (LSchema n))" by (simp only: find_field_None) simp
    qed
    ultimately show ?thesis using assms(2) False Some by (simp add: pruned_ok_def addNeeded_def same_on_def needs_def find_field_narrowed)
  qed
qed

lemma pruned_side:
  assumes "pruned_ok l (join_needed needed cond (OutputSchema l))"
  shows "same_on (needs needed \<union> set (collectCols cond)) (OutputSchema (pruneColumns l (join_needed needed cond (OutputSchema l)))) (OutputSchema l)"
proof (cases "join_needed needed cond (OutputSchema l)")
  case None
  then show ?thesis using assms by (simp add: pruned_ok_def same_on_def)
next
  case (Some cols)
  then obtain ns where ns: "needed = Some ns" "cols = filter (\<lambda>name. name \<in> set (ns @ collectCols cond)) (map Name (OutputSchema l))"
    by (auto simp: join_needed_def schemaColsIn_def Let_def split: option.splits if_splits)
  show ?thesis unfolding same_on_def
  proof
    fix c assume c: "c \<in> needs needed \<union> set (collectCols cond)"
    show "find_field (OutputSchema (pruneColumns l (join_needed needed cond (OutputSchema l)))) c = find_field (OutputSchema l) c"
    proof (cases "c \<in> set (map Name (OutputSchema l))")
      case True
      then have "c \<in> needs (Some cols)" using c ns by (auto simp: needs_def)
      then show ?thesis using assms Some by (simp add: pruned_ok_def same_on_def)
    next
      case False
      then have "c \<notin> set (map Name (OutputSchema (pruneColumns l (join_needed needed cond (OutputSchema l)))))" using assms by (auto simp only: pruned_ok_def)
      then show ?thesis using False by (simp only: find_field_None [symmetric])
    qed
  qed
qed

lemma aggregate_same:
  assumes "same_on (set (agg_cols gb aggs)) s t" "list_all column_only gb"
  shows "List.map_filter (\<lambda>e. find_field s (exprName e)) gb = List.map_filter (\<lambda>e. find_field t (exprName e)) gb" "agg \<in> set aggs \<Longrightarrow> agg_out_type s agg = agg_out_type t agg"
proof -
  have "find_field s (exprName e) = find_field t (exprName e)" if "e \<in> set gb" for e
  proof -
    obtain tb name where e: "e = ColumnRefExpr tb name" using assms(2) \<open>e \<in> set gb\<close> column_only_iff by (auto simp: list_all_iff)
    then have "name \<in> set (collectCols e)" by (auto simp: set_collectCols)
    then have "name \<in> set (agg_cols gb aggs)" using that by (auto simp: agg_cols_def)
    then show ?thesis using assms(1) e by (simp add: same_on_def exprName_def)
  qed
  then show "List.map_filter (\<lambda>e. find_field s (exprName e)) gb = List.map_filter (\<lambda>e. find_field t (exprName e)) gb"
    by (auto simp: List.map_filter_def intro!: map_cong filter_cong)
  assume agg: "agg \<in> set aggs"
  show "agg_out_type s agg = agg_out_type t agg"
  proof (cases "AArg agg")
    case None
    then have "ColName agg \<noteq> [] \<longrightarrow> ColName agg \<in> set (agg_cols gb aggs)" using agg by (force simp: agg_cols_def)
    then show ?thesis using None assms(1) by (simp add: agg_out_type_def same_on_def)
  next
    case (Some e)
    then have "set (collectCols e) \<subseteq> set (agg_cols gb aggs)" using agg by (force simp: agg_cols_def)
    then show ?thesis using Some resolveExprType_same [OF same_on_subset [OF assms(1)]] by (simp add: agg_out_type_def)
  qed
qed

lemma pruned_join:
  assumes "pruned_ok l (join_needed needed cond (OutputSchema l))" "pruned_ok r (join_needed needed cond (OutputSchema r))" "plan_wf (LJoin l r cond)"
  shows "pruned_ok (LJoin l r cond) needed"
proof -
  let ?l = "pruneColumns l (join_needed needed cond (OutputSchema l))" and ?r = "pruneColumns r (join_needed needed cond (OutputSchema r))"
  note s = pruned_side [OF assms(1)] pruned_side [OF assms(2)]
  obtain ta a tb b where c: "cond = BinaryExpr OpEQ (ColumnRefExpr ta a) (ColumnRefExpr tb b)" "has_cols (OutputSchema l) [a]" "has_cols (OutputSchema r) [b]"
    using assms(3) by (auto elim: keyed.elims)
  have "a \<in> set (collectCols cond)" "b \<in> set (collectCols cond)" using c(1) by (auto simp: set_collectCols)
  then have "has_cols (OutputSchema ?l) [a]" "has_cols (OutputSchema ?r) [b]" using s c(2,3) by (auto simp: has_cols_def same_on_def)
  then have wf: "plan_wf (LJoin ?l ?r cond)" using assms(1,2) c(1) by (simp add: pruned_ok_def)
  have "same_on (needs needed) (OutputSchema ?l @ OutputSchema ?r) (OutputSchema l @ OutputSchema r)" using s by (auto simp: same_on_def find_field_append split: option.splits)
  moreover have "set (map Name (OutputSchema ?l @ OutputSchema ?r)) \<subseteq> set (map Name (OutputSchema l @ OutputSchema r))" using assms(1,2) by (auto simp: pruned_ok_def)
  moreover have "needed = None \<longrightarrow> OutputSchema ?l = OutputSchema l \<and> OutputSchema ?r = OutputSchema r" using assms(1,2) by (auto simp: pruned_ok_def join_needed_def)
  ultimately show ?thesis using wf by (simp add: pruned_ok_def)
qed

text \<open>An operator that passes its input through and reads some columns of it.\<close>

lemma pruned_through:
  assumes "pruned_ok c (addNeeded needed cols)" "has_cols (OutputSchema c) cols"
  shows "has_cols (OutputSchema (pruneColumns c (addNeeded needed cols))) cols" "same_on (needs needed) (OutputSchema (pruneColumns c (addNeeded needed cols))) (OutputSchema c)"
    "set (map Name (OutputSchema (pruneColumns c (addNeeded needed cols)))) \<subseteq> set (map Name (OutputSchema c))" "needed = None \<Longrightarrow> OutputSchema (pruneColumns c (addNeeded needed cols)) = OutputSchema c"
    "plan_wf (pruneColumns c (addNeeded needed cols))"
proof -
  show "has_cols (OutputSchema (pruneColumns c (addNeeded needed cols))) cols" by (rule pruned_known [OF assms]) (simp add: needs_addNeeded)
  have "same_on (needs needed \<union> set cols) (OutputSchema (pruneColumns c (addNeeded needed cols))) (OutputSchema c)" using assms(1) by (simp add: pruned_ok_def needs_addNeeded)
  then show "same_on (needs needed) (OutputSchema (pruneColumns c (addNeeded needed cols))) (OutputSchema c)" by (rule same_on_subset) simp
qed (use assms(1) in \<open>simp_all add: pruned_ok_def addNeeded_def\<close>)

lemma pruneColumns_ok: "plan_wf node \<Longrightarrow> unpruned node \<Longrightarrow> pruned_ok node needed"
proof (induction node arbitrary: needed)
  case (LScan n)
  then show ?case by (simp add: pruned_scan)
next
  case (LFilter c p needed)
  then have "pruned_ok c (addNeeded needed (collectCols p))" "has_cols (OutputSchema c) (collectCols p)" by simp_all
  note pruned_through [OF this]
  then show ?case by (simp add: pruned_ok_def [of "LFilter c p"])
next
  case (LSort c ob needed)
  let ?cols = "concat (map (\<lambda>o1. collectCols (fst o1)) ob)"
  have "pruned_ok c (addNeeded needed ?cols)" "has_cols (OutputSchema c) ?cols" using LSort by simp_all
  note pruned_through [OF this]
  then show ?case by (simp add: pruned_ok_def [of "LSort c ob"])
next
  case (LProject c items needed)
  let ?cols = "concat (map (\<lambda>pe. collectCols (PExpr pe)) items)"
  have ok: "pruned_ok c (Some (uniqueStrings ?cols))" "has_cols (OutputSchema c) ?cols" using LProject by simp_all
  have "has_cols (OutputSchema (pruneColumns c (Some (uniqueStrings ?cols)))) ?cols" by (rule pruned_known [OF ok]) (simp add: needs_def)
  then show ?case using ok(1) by (simp add: pruned_ok_def same_on_def)
next
  case (LAggregate c gb aggs needed)
  let ?cols = "agg_cols gb aggs"
  have ok: "pruned_ok c (Some (uniqueStrings ?cols))" "has_cols (OutputSchema c) ?cols" and gb: "list_all column_only gb" using LAggregate by simp_all
  have "same_on (set ?cols) (OutputSchema (pruneColumns c (Some (uniqueStrings ?cols)))) (OutputSchema c)" using ok(1) by (simp add: pruned_ok_def needs_def)
  note same = aggregate_same [OF this gb]
  have "has_cols (OutputSchema (pruneColumns c (Some (uniqueStrings ?cols)))) ?cols" by (rule pruned_known [OF ok]) (simp add: needs_def)
  then have "plan_wf (pruneColumns (LAggregate c gb aggs) needed)" using ok(1) gb by (simp add: pruned_ok_def)
  moreover have "OutputSchema (pruneColumns (LAggregate c gb aggs) needed) = OutputSchema (LAggregate c gb aggs)" using same by (simp add: Let_def)
  ultimately show ?case by (simp only: pruned_ok_def) (simp add: same_on_def)
next
  case (LJoin l r cond needed)
  then show ?case by (intro pruned_join) simp_all
qed (simp_all add: pruned_ok_def)

section \<open>Optimization\<close>

lemma collectCols_and: "set (collectCols (BinaryExpr op l r)) = set (collectCols l) \<union> set (collectCols r)"
  by (auto simp: set_collectCols)

lemma push_into_wf:
  assumes "plan_wf (LScan n)" "has_cols (OutputSchema (LScan n)) (collectCols p)"
  shows "plan_wf (LScan (push_into n p))"
  using assms by (auto simp: push_into_def predicateCols_def has_cols_def list_all_iff collectCols_and split: option.splits)

lemma push_into_schema: "OutputSchema (LScan (push_into n p)) = OutputSchema (LScan n)" "NeededCols (push_into n p) = NeededCols n"
  by (simp_all add: push_into_def)

lemma pushPredicates_schema: "OutputSchema (pushPredicates node) = OutputSchema node" and pushPredicates_unpruned: "unpruned (pushPredicates node) = unpruned node"
  by (induction node) (auto simp: push_into_schema Let_def simp del: OutputSchema.simps(1) split: LogicalNode.splits)

lemma pushPredicates_wf: "plan_wf node \<Longrightarrow> plan_wf (pushPredicates node)"
proof (induction node)
  case (LFilter c p)
  then have ok: "plan_wf (pushPredicates c)" "has_cols (OutputSchema (pushPredicates c)) (collectCols p)" by (simp_all add: pushPredicates_schema)
  then have "plan_wf (LScan (push_into n p))" if "pushPredicates c = LScan n" for n using that push_into_wf [of n p] by (simp only:)
  then show ?case using ok by (cases "pushPredicates c") simp_all
qed (simp_all add: pushPredicates_schema)

text \<open>
  C11: the optimizer never loses a column. In a plan where every operator finds the columns it names (filters, projections, aggregates, sort keys and both join keys) in the schema of its input, every
  operator of the optimized plan still does, although each scan is narrowed to the needed columns and filters moved into the scans; and the schema of the whole plan, with its types, is unchanged.
\<close>

theorem Optimize_keeps_columns:
  assumes "plan_wf plan" "unpruned plan"
  shows "plan_wf (Optimize plan) \<and> OutputSchema (Optimize plan) = OutputSchema plan"
  using pruneColumns_ok [of "pushPredicates plan" None] pushPredicates_wf [OF assms(1)] assms(2) by (simp add: Optimize_def pruned_ok_def pushPredicates_schema pushPredicates_unpruned)

text \<open>\<^verbatim>\<open>SELECT u.age, SUM(o.total * 2) FROM orders o, users u WHERE total > 100 AND (u.uid = o.uid AND u.age < 30) GROUP BY u.age ORDER BY u.age\<close>\<close>

definition ex_group :: SelectStmt where
  "ex_group = SelectStmt False [(ColumnRefExpr ''u'' ''age'', []), (AggFuncExpr ''SUM'' (Some (BinaryExpr OpMul (ColumnRefExpr ''o'' ''total'') (IntLiteral 2))) False, ''s'')]
     [(''orders'', ''o''), (''users'', ''u'')] (Some ex_cond) None [ColumnRefExpr ''u'' ''age''] [(ColumnRefExpr ''u'' ''age'', False)] None None"

theorem Optimize_keeps_columns_witness:
  "\<exists>plan cat. Build (\<lambda>_. None) ex_group ex_catalog = Inr (plan, cat) \<and> plan_wf (Optimize plan) \<and> map Name (OutputSchema (Optimize plan)) = [''age'', ''s''] \<and>
     map NeededCols (plan_scans (Optimize plan)) = [[''o.uid'', ''total''], [''u.uid'', ''age'']]"
proof -
  let ?plan = "res_map fst (Build (\<lambda>_. None) ex_group ex_catalog)"
  have "\<not> isl ?plan" by code_simp
  then obtain plan cat where b: "Build (\<lambda>_. None) ex_group ex_catalog = Inr (plan, cat)" by (cases "Build (\<lambda>_. None) ex_group ex_catalog") auto
  have "res_map plan_wf ?plan = Inr True" by code_simp
  moreover have "res_map unpruned ?plan = Inr True" by code_simp
  moreover have "res_map (map Name \<circ> OutputSchema) ?plan = Inr [''age'', ''s'']" by code_simp
  moreover have "res_map (map NeededCols \<circ> plan_scans \<circ> Optimize) ?plan = Inr [[''o.uid'', ''total''], [''u.uid'', ''age'']]" by code_simp
  ultimately show ?thesis using Optimize_keeps_columns [of plan] b by simp
qed

end
