(* ===== verification/ParallelBuild.thy ===== *)
theory ParallelBuild
  imports Parallel HashJoin
begin

text \<open>
  The parallel build of a partitioned join table (\<^verbatim>\<open>exec/parallel_join.go\<close>). In the first pass workers claim morsels of the build side and sort each one's rows by partition; in the
  second, workers claim partitions, copy their rows into the range of the final store that the partition owns and enter them in the partition's table. Each pass is a step
  function on the shared state, and a schedule is the list of the workers that step. Draining one morsel, which touches nothing shared, is one step; the second pass interleaves row by row. A list of rows that the second
  pass drops for the garbage collector after use stays in the model: its partition's worker was the only one to read it.
\<close>

section \<open>The first pass\<close>

record keyedRow =
  krKey :: i64
  krRow :: i32

record morselBucket =
  bstore :: rowStore
  brows :: "keyedRow list list"

definition partition_visit :: "u64 \<Rightarrow> i64 \<Rightarrow> Batch \<Rightarrow> nat \<Rightarrow> morselBucket \<Rightarrow> morselBucket xres option" where
  "partition_visit pm key b i loc = (case appendFrom b i (bstore loc) of
     Inl e \<Rightarrow> Some (Inl e)
   | Inr (row, store) \<Rightarrow> (let p = radixPart key pm in case idx (brows loc) p of
       Inl e \<Rightarrow> Some (Inl e)
     | Inr krs \<Rightarrow> Some (Inr \<lparr>bstore = store, brows = (brows loc)[p := krs @ [\<lparr>krKey = key, krRow = row\<rparr>]]\<rparr>)))"

definition partitionMorsel :: "Schema \<Rightarrow> nat \<Rightarrow> nat \<Rightarrow> u64 \<Rightarrow> (int \<times> bool) option \<Rightarrow> stream \<Rightarrow> morselBucket xres option" where
  "partitionMorsel schema key numParts pm bound pl =
     forEachBuildRow key (partition_visit pm) pl \<lparr>bstore = newRowStore schema (buildRowsPresize bound), brows = replicate numParts []\<rparr>"

text \<open>What the build function is called with. \<open>bbound a b\<close> is what a pipeline that stands on the row groups from \<open>a\<close> to \<open>b\<close> answers to \<^verbatim>\<open>RowCountBound\<close>.\<close>

record build_conf =
  bfactory :: PipelineFactory
  bbound :: "nat \<Rightarrow> nat \<Rightarrow> (int \<times> bool) option"
  bschema :: Schema
  bkey :: nat
  btotal :: nat
  bmorsel :: nat
  bbits :: nat

definition numParts :: "build_conf \<Rightarrow> nat" where
  "numParts c = 2 ^ bbits c"

definition numMorsels :: "build_conf \<Rightarrow> nat" where
  "numMorsels c = (btotal c + bmorsel c - 1) div bmorsel c"

datatype build_pc = BClaim | BOpen i64 i64 | BStore i64 morselBucket | BSend "exec_error go_err option" | BExit

record build_worker =
  bpc :: build_pc
  brunner :: morselRunner

record build_state =
  bqueue :: morselQueue
  bworkers :: "build_worker list"
  buckets :: "morselBucket option list"
  errCh :: "exec_error go_err option list"

definition build_init :: "build_conf \<Rightarrow> nat \<Rightarrow> build_state" where
  "build_init c n = \<lparr>bqueue = \<lparr>qnext = 0, qend = word_of_nat (btotal c)\<rparr>, bworkers = replicate n \<lparr>bpc = BClaim, brunner = new_runner\<rparr>,
     buckets = replicate (numMorsels c) None, errCh = []\<rparr>"

text \<open>The step of the \<open>i\<close>-th worker, or \<open>None\<close> when it cannot step. As in \<open>Parallel\<close> the channel has room for one message per worker, the receiver is taken to be last, and cancellation is left out.\<close>

definition build_step :: "build_conf \<Rightarrow> nat \<Rightarrow> nat \<Rightarrow> build_state \<Rightarrow> build_state option" where
  "build_step c n i s = (if length (bworkers s) \<le> i then None else let w = bworkers s ! i; goto = (\<lambda>pc. s\<lparr>bworkers := (bworkers s)[i := w\<lparr>bpc := pc\<rparr>]\<rparr>) in case bpc w of
     BClaim \<Rightarrow> (case claim (word_of_nat (bmorsel c)) (bqueue s) of
         (None, q) \<Rightarrow> Some ((goto (BSend None))\<lparr>bqueue := q\<rparr>)
       | (Some (start, stop), q) \<Rightarrow> Some ((goto (BOpen start stop))\<lparr>bqueue := q\<rparr>))
   | BOpen start stop \<Rightarrow> (case runner_open (bfactory c) (unat start) (unat stop) (brunner w) of
         Inl e \<Rightarrow> Some (goto (BSend (Some e)))
       | Inr (pl, m) \<Rightarrow> map_option (\<lambda>r. s\<lparr>bworkers := (bworkers s)[i := \<lparr>bpc = (case r of Inl e \<Rightarrow> BSend (Some e) | Inr loc \<Rightarrow> BStore start loc), brunner = m\<rparr>]\<rparr>)
           (partitionMorsel (bschema c) (bkey c) (numParts c) (word_of_nat (numParts c - 1)) (bbound c (unat start) (unat stop)) pl))
   | BStore start loc \<Rightarrow> (case upd (buckets s) (unat start div bmorsel c) (Some loc) of
         Inl e \<Rightarrow> Some (goto (BSend (Some e)))
       | Inr bs \<Rightarrow> Some ((goto BClaim)\<lparr>buckets := bs\<rparr>))
   | BSend r \<Rightarrow> if length (errCh s) < n then Some ((goto BExit)\<lparr>errCh := errCh s @ [r]\<rparr>) else None
   | BExit \<Rightarrow> None)"

fun run_steps :: "(nat \<Rightarrow> 's \<Rightarrow> 's option) \<Rightarrow> nat list \<Rightarrow> 's \<Rightarrow> 's option" where
  "run_steps step [] s = Some s"
| "run_steps step (i # is) s = Option.bind (step i s) (run_steps step is)"


section \<open>The second pass\<close>

text \<open>The rows of a partition, each with the store it is in: by morsel, and in a morsel by their order there.\<close>

definition part_list :: "morselBucket option list \<Rightarrow> nat \<Rightarrow> (rowStore \<times> keyedRow) list" where
  "part_list bs p = concat (map (\<lambda>b. case b of None \<Rightarrow> [] | Some b \<Rightarrow> map (Pair (bstore b)) (brows b ! p)) bs)"

definition part_count :: "morselBucket option list \<Rightarrow> nat \<Rightarrow> nat" where
  "part_count bs p = sum_list (map (\<lambda>b. case b of None \<Rightarrow> 0 | Some b \<Rightarrow> length (brows b ! p)) bs)"

fun part_offsets :: "nat \<Rightarrow> nat list \<Rightarrow> nat list" where
  "part_offsets nxt [] = []"
| "part_offsets nxt (n # ns) = nxt # part_offsets (nxt + n) ns"

datatype asm_pc = PClaim | PAssemble nat joinHashTable i32 "(rowStore \<times> keyedRow) list" | PFail "exec_error go_err" | PSend | PExit

record asm_state =
  pqueue :: morselQueue
  pworkers :: "asm_pc list"
  pstore :: rowStore
  ptables :: "joinHashTable option list"
  pdone :: nat

text \<open>Copy a row to its place and enter it in the partition's table.\<close>

definition set_row :: "rowStore \<Rightarrow> i32 \<Rightarrow> rowStore \<Rightarrow> i32 \<Rightarrow> rowStore xres" where
  "set_row s dst src0 r = (if sint dst < 0 \<or> sint r < 0 then Inl Panic else setFrom s (nat (sint dst)) src0 (nat (sint r)))"

definition place_row :: "joinHashTable \<Rightarrow> rowStore \<Rightarrow> i32 \<Rightarrow> rowStore \<times> keyedRow \<Rightarrow> (joinHashTable \<times> rowStore) xres option" where
  "place_row t s dst x = (case set_row s dst (fst x) (krRow (snd x)) of
     Inl e \<Rightarrow> Some (Inl e)
   | Inr s \<Rightarrow> obind (insert_row (krKey (snd x)) dst (t, rnext s)) (\<lambda>(t, nx). Some (Inr (t, s\<lparr>rnext := nx\<rparr>))))"

definition asm_init :: "build_conf \<Rightarrow> nat \<Rightarrow> nat \<Rightarrow> asm_state" where
  "asm_init c nrows n = \<lparr>pqueue = \<lparr>qnext = 0, qend = word_of_nat (numParts c)\<rparr>, pworkers = replicate n PClaim,
     pstore = newSizedRowStore (bschema c) nrows, ptables = replicate (numParts c) None, pdone = 0\<rparr>"

definition asm_step :: "morselBucket option list \<Rightarrow> nat list \<Rightarrow> nat list \<Rightarrow> nat \<Rightarrow> nat \<Rightarrow> asm_state \<Rightarrow> asm_state option" where
  "asm_step bs counts offsets n i s = (if length (pworkers s) \<le> i then None else let goto = (\<lambda>pc. s\<lparr>pworkers := (pworkers s)[i := pc]\<rparr>) in case pworkers s ! i of
     PClaim \<Rightarrow> (case claim 1 (pqueue s) of
         (None, q) \<Rightarrow> Some ((goto PSend)\<lparr>pqueue := q\<rparr>)
       | (Some (p, _), q) \<Rightarrow> Some ((goto (PAssemble (unat p) (newJoinHashTable (int (counts ! unat p))) (word_of_nat (offsets ! unat p)) (part_list bs (unat p))))\<lparr>pqueue := q\<rparr>))
   | PAssemble p t dst [] \<Rightarrow> Some ((goto PClaim)\<lparr>ptables := (ptables s)[p := Some t]\<rparr>)
   | PAssemble p t dst (x # xs) \<Rightarrow> map_option (\<lambda>r. case r of
         Inl e \<Rightarrow> goto (PFail e)
       | Inr (t, store) \<Rightarrow> (goto (PAssemble p t (dst + 1) xs))\<lparr>pstore := store\<rparr>) (place_row t (pstore s) dst x)
   | PFail e \<Rightarrow> None
   | PSend \<Rightarrow> if pdone s < n then Some ((goto PExit)\<lparr>pdone := pdone s + 1\<rparr>) else None
   | PExit \<Rightarrow> None)"


section \<open>The build function\<close>

definition asm_run :: "build_conf \<Rightarrow> nat \<Rightarrow> morselBucket option list \<Rightarrow> nat list \<Rightarrow> asm_state option" where
  "asm_run c n bs sched = (let counts = map (part_count bs) [0..<numParts c] in run_steps (asm_step bs counts (part_offsets 0 counts) n) sched (asm_init c (sum_list counts) n))"

definition first_sent :: "'e option list \<Rightarrow> 'e option" where
  "first_sent rs = (case List.map_filter id rs of [] \<Rightarrow> None | e # _ \<Rightarrow> Some e)"

definition pool_size :: "int \<Rightarrow> nat \<Rightarrow> nat" where
  "pool_size nw jobs = (let n = min nw (int jobs) in nat (if n < 1 then 1 else n))"

definition build_conf_of :: "PipelineFactory \<Rightarrow> (nat \<Rightarrow> nat \<Rightarrow> (int \<times> bool) option) \<Rightarrow> Schema \<Rightarrow> nat \<Rightarrow> nat \<Rightarrow> int \<Rightarrow> int \<Rightarrow> build_conf" where
  "build_conf_of factory bound schema key rgs msize radixBits = \<lparr>bfactory = factory, bbound = bound, bschema = schema, bkey = key, btotal = rgs,
     bmorsel = (if msize < 1 then defaultMorselSize else nat msize), bbits = clampRadixBits radixBits\<rparr>"

text \<open>The whole build under a schedule for each pass; \<open>None\<close> when a schedule is not one that runs the pass to its end.\<close>

definition BuildSharedHashTableParallel :: "build_conf \<Rightarrow> int \<Rightarrow> nat list \<Rightarrow> nat list \<Rightarrow> SharedHashTable xres option" where
  "BuildSharedHashTableParallel c nw sched1 sched2 = (
     if length (bschema c) \<le> bkey c then Some (Inl (Err ErrJoinKey))
     else if btotal c < 1 then Some (Inr (newSharedHashTable (bschema c) (bkey c) (bbits c) 0 0))
     else let n1 = pool_size nw (numMorsels c); n2 = pool_size nw (numParts c) in
       Option.bind (run_steps (build_step c n1) sched1 (build_init c n1)) (\<lambda>s.
       if \<exists>w \<in> set (bworkers s). bpc w \<noteq> BExit then None else case first_sent (errCh s) of
         Some e \<Rightarrow> Some (Inl e)
       | None \<Rightarrow> let nrows = sum_list (map (part_count (buckets s)) [0..<numParts c]) in
           if maxBuildRows < nrows then Some (Inl (Err ErrBuildRows))
           else Option.bind (asm_run c n2 (buckets s) sched2) (\<lambda>a.
             if \<exists>pc \<in> set (pworkers a). pc \<noteq> PExit then None
             else Some (Inr \<lparr>sparts = map the (ptables a), sstore = pstore a, partMask = word_of_nat (numParts c - 1), sschema = bschema c, keyIdx = bkey c, snumRows = nrows\<rparr>))))"

section \<open>Copying rows between stores\<close>

lemma copy_window_view:
  assumes "slice_ok dst" "slice_ok src0" "d + w \<le> snd dst" "s + w \<le> snd src0"
  obtains dst' where "s_copy_window dst d src0 s w = Inr dst'" "snd dst' = snd dst" "length (fst dst') = length (fst dst)" "drop (snd dst) (fst dst') = drop (snd dst) (fst dst)"
    "\<And>j. j < w \<Longrightarrow> s_view dst' ! (d + j) = s_view src0 ! (s + j)" "\<And>j. j < d \<or> d + w \<le> j \<Longrightarrow> j < snd dst \<Longrightarrow> s_view dst' ! j = s_view dst ! j"
proof
  let ?a = "take d (fst dst) @ take w (drop s (fst src0)) @ drop (d + w) (fst dst)"
  have len: "snd dst \<le> length (fst dst)" "snd src0 \<le> length (fst src0)" using assms(1,2) by (simp_all add: slice_ok_def)
  then have w: "length (take w (drop s (fst src0))) = w" "length (take d (fst dst)) = d" using assms(3,4) by simp_all
  show "s_copy_window dst d src0 s w = Inr (?a, snd dst)" using assms(3,4) len by (simp add: s_copy_window_def)
  show "snd (?a, snd dst) = snd dst" "length (fst (?a, snd dst)) = length (fst dst)" using assms(3,4) len by simp_all
  show "drop (snd dst) (fst (?a, snd dst)) = drop (snd dst) (fst dst)" using assms(3) len w by (simp add: drop_append)
  show "s_view (?a, snd dst) ! (d + j) = s_view src0 ! (s + j)" if "j < w" for j
    using that assms(3,4) len w by (simp add: s_view_def nth_append)
  show "s_view (?a, snd dst) ! j = s_view dst ! j" if "j < d \<or> d + w \<le> j" "j < snd dst" for j
    using that assms(3) len w by (auto simp: s_view_def nth_append)
qed

lemma spare_zero_window:
  assumes "spare_zero z len cap dst" "slice_ok src0" "d + w \<le> len" "s + w \<le> snd src0"
  obtains dst' where "s_copy_window dst d src0 s w = Inr dst'" "spare_zero z len cap dst'"
    "\<And>j. j < w \<Longrightarrow> s_view dst' ! (d + j) = s_view src0 ! (s + j)" "\<And>j. j < d \<or> d + w \<le> j \<Longrightarrow> j < len \<Longrightarrow> s_view dst' ! j = s_view dst ! j"
proof -
  have "slice_ok dst" "snd dst = len" using spare_zero_ok [OF assms(1)] assms(1) by (simp_all add: spare_zero_def)
  with copy_window_view [OF this(1) assms(2), of d w s] assms(3,4) obtain dst' where
    "s_copy_window dst d src0 s w = Inr dst'" "snd dst' = snd dst" "length (fst dst') = length (fst dst)" "drop (snd dst) (fst dst') = drop (snd dst) (fst dst)"
    "\<And>j. j < w \<Longrightarrow> s_view dst' ! (d + j) = s_view src0 ! (s + j)" "\<And>j. j < d \<or> d + w \<le> j \<Longrightarrow> j < snd dst \<Longrightarrow> s_view dst' ! j = s_view dst ! j" by metis
  then show thesis using that [of dst'] assms(1) \<open>snd dst = len\<close> by (simp add: spare_zero_def)
qed

lemma row_window: "r < n \<Longrightarrow> r * w + w \<le> n * (w :: nat)"
  by (metis Suc_leI add.commute mult_Suc mult_le_mono1)

lemma window_apart:
  assumes "r \<noteq> r'" "c < w"
  shows "r' * w + c < r * w \<or> r * w + w \<le> r' * w + (c :: nat)"
proof (cases "r' < r")
  case True
  then show ?thesis using row_window [of r' r w] assms(2) by linarith
next
  case False
  then have "r < r'" using assms(1) by simp
  then show ?thesis using row_window [of r r' w] by linarith
qed

lemma setFrom_ok:
  assumes ok: "store_ok s" "store_ok src0" and shape: "numCols src0 = numCols s" "strSlot src0 = strSlot s" "strWidth src0 = strWidth s"
    and r: "d < numRows s" "r < numRows src0"
  obtains s' where "setFrom s d src0 r = Inr s'" "store_ok s'" "numRows s' = numRows s" "numCols s' = numCols s" "strSlot s' = strSlot s" "strWidth s' = strWidth s" "rnext s' = rnext s"
    "stored_row s' (word_of_nat d) = stored_row src0 (word_of_nat r)" "\<And>d'. d' < numRows s \<Longrightarrow> d' \<noteq> d \<Longrightarrow> stored_row s' (word_of_nat d') = stored_row s (word_of_nat d')"
proof -
  note sz = ok(1) [unfolded store_ok_def] and sr = ok(2) [unfolded store_ok_def]
  have spares: "spare_zero 0 (numRows src0 * numCols s) (capRows src0 * numCols s) (rvalues src0)" "spare_zero False (numRows src0 * numCols s) (capRows src0 * numCols s) (rnulls src0)"
    "spare_zero [] (numRows src0 * strWidth s) (capRows src0 * strWidth s) (rstrs src0)" using sr by (simp_all only: shape)
  have srcs: "slice_ok (rvalues src0)" "slice_ok (rnulls src0)" "slice_ok (rstrs src0)" "snd (rvalues src0) = numRows src0 * numCols s" "snd (rnulls src0) = numRows src0 * numCols s"
    "snd (rstrs src0) = numRows src0 * strWidth s" using spares [THEN spare_zero_ok] spares by (simp_all add: spare_zero_def)
  note wd = row_window [OF r(1), of "numCols s"] row_window [OF r(1), of "strWidth s"] row_window [OF r(2), of "numCols s"] row_window [OF r(2), of "strWidth s"]
  obtain v where v: "s_copy_window (rvalues s) (d * numCols s) (rvalues src0) (r * numCols src0) (numCols s) = Inr v" "spare_zero 0 (numRows s * numCols s) (capRows s * numCols s) v"
    "\<And>j. j < numCols s \<Longrightarrow> s_view v ! (d * numCols s + j) = s_view (rvalues src0) ! (r * numCols s + j)"
    "\<And>j. j < d * numCols s \<or> d * numCols s + numCols s \<le> j \<Longrightarrow> j < numRows s * numCols s \<Longrightarrow> s_view v ! j = s_view (rvalues s) ! j"
    using spare_zero_window [of 0 "numRows s * numCols s" "capRows s * numCols s" "rvalues s" "rvalues src0" "d * numCols s" "numCols s" "r * numCols s"] sz srcs wd shape by metis
  obtain nl where nl: "s_copy_window (rnulls s) (d * numCols s) (rnulls src0) (r * numCols src0) (numCols s) = Inr nl" "spare_zero False (numRows s * numCols s) (capRows s * numCols s) nl"
    "\<And>j. j < numCols s \<Longrightarrow> s_view nl ! (d * numCols s + j) = s_view (rnulls src0) ! (r * numCols s + j)"
    "\<And>j. j < d * numCols s \<or> d * numCols s + numCols s \<le> j \<Longrightarrow> j < numRows s * numCols s \<Longrightarrow> s_view nl ! j = s_view (rnulls s) ! j"
    using spare_zero_window [of False "numRows s * numCols s" "capRows s * numCols s" "rnulls s" "rnulls src0" "d * numCols s" "numCols s" "r * numCols s"] sz srcs wd shape by metis
  obtain st where st: "(if 0 < strWidth s then s_copy_window (rstrs s) (d * strWidth s) (rstrs src0) (r * strWidth src0) (strWidth s) else Inr (rstrs s)) = Inr st"
    "spare_zero [] (numRows s * strWidth s) (capRows s * strWidth s) st"
    "\<And>j. j < strWidth s \<Longrightarrow> s_view st ! (d * strWidth s + j) = s_view (rstrs src0) ! (r * strWidth s + j)"
    "\<And>j. j < d * strWidth s \<or> d * strWidth s + strWidth s \<le> j \<Longrightarrow> j < numRows s * strWidth s \<Longrightarrow> s_view st ! j = s_view (rstrs s) ! j"
  proof (cases "0 < strWidth s")
    case True
    then show ?thesis using that spare_zero_window [of "[]" "numRows s * strWidth s" "capRows s * strWidth s" "rstrs s" "rstrs src0" "d * strWidth s" "strWidth s" "r * strWidth s"] sz srcs wd shape by metis
  next
    case False
    then show ?thesis using that [of "rstrs s"] sz by simp
  qed
  let ?s = "s\<lparr>rvalues := v, rnulls := nl, rstrs := st\<rparr>"
  have ok': "store_ok ?s" using sz v(2) nl(2) st(2) by (simp add: store_ok_def)
  have kw: "k < strWidth s" if "c < numCols s" "strSlot s ! c = Some k" for c k using sz that by blast
  have "stored_row ?s (word_of_nat d) = stored_row src0 (word_of_nat r)"
  proof -
    have "store_cell ?s (word_of_nat d) c = store_cell src0 (word_of_nat r) c" if c: "c < numCols s" for c
      using store_cell_row [OF ok', of d c] store_cell_row [OF ok(2) r(2), of c] r(1) c shape v(3) nl(3) st(3) kw by (auto split: option.splits)
    then show ?thesis using shape by (simp add: stored_row_def)
  qed
  moreover have "stored_row ?s (word_of_nat d') = stored_row s (word_of_nat d')" if d': "d' < numRows s" "d' \<noteq> d" for d'
  proof -
    have "store_cell ?s (word_of_nat d') c = store_cell s (word_of_nat d') c" if c: "c < numCols s" for c
      using store_cell_row [OF ok', of d' c] store_cell_row [OF ok(1) d'(1) c] d'(1) c v(4) nl(4) st(4) kw window_apart [OF d'(2) [symmetric]] cell_pos [OF d'(1)]
      by (auto split: option.splits)
    then show ?thesis by (simp add: stored_row_def)
  qed
  moreover have "setFrom s d src0 r = Inr ?s" using v(1) nl(1) st(1) by (simp add: setFrom_def)
  ultimately show thesis using that [of ?s] ok' by simp
qed

lemma newSizedRowStore_ok:
  assumes "n \<le> maxBuildRows"
  shows "store_ok (newSizedRowStore schema n)" "of_schema schema (newSizedRowStore schema n)" "numRows (newSizedRowStore schema n) = n"
    "strWidth (newSizedRowStore schema n) = strWidth (newRowStore schema 0)"
  using newRowStore_ok [of schema 0] newRowStore_schema [of schema 0] assms
  by (auto simp: newSizedRowStore_def Let_def store_ok_def of_schema_def spare_zero_make, auto simp: s_make_def)

section \<open>One morsel\<close>

text \<open>The rows of a build side, as pairs of the join key and the cells.\<close>

type_synonym keyed = "i64 \<times> (bool \<times> i64 \<times> string) xres list"

definition keyed_of :: "Schema \<Rightarrow> i64 \<times> Batch \<times> nat \<Rightarrow> keyed" where
  "keyed_of schema = (\<lambda>(k, b, i). (k, batch_row schema b i))"

definition store_like :: "Schema \<Rightarrow> rowStore \<Rightarrow> bool" where
  "store_like schema s \<longleftrightarrow> store_ok s \<and> of_schema schema s \<and> strWidth s = strWidth (newRowStore schema 0)"

definition bucket_ok :: "Schema \<Rightarrow> nat \<Rightarrow> u64 \<Rightarrow> keyed list \<Rightarrow> morselBucket \<Rightarrow> bool" where
  "bucket_ok schema n pm R loc \<longleftrightarrow> store_like schema (bstore loc) \<and> numRows (bstore loc) = length R \<and> length (brows loc) = n \<and>
     (\<forall>p < n. (\<forall>kr \<in> set (brows loc ! p). \<exists>r < length R. krRow kr = word_of_nat r) \<and>
        map (\<lambda>kr. (krKey kr, stored_row (bstore loc) (krRow kr))) (brows loc ! p) = filter (\<lambda>x. radixPart (fst x) pm = p) R)"

lemma write_cell_width: "write_cell b i row s c = Inr s' \<Longrightarrow> strWidth s' = strWidth s"
  unfolding write_cell_def Let_def
  by (elim res_bindE; cases "Vectors b ! c"; auto simp: res_bind_eq_Inr res_map_eq_Inr split: vector.splits option.splits if_splits)

lemma appendFrom_width:
  assumes "appendFrom b i s = Inr (r, s')"
  shows "strWidth s' = strWidth s"
proof -
  obtain s1 where s1: "reserve s = Inr (r, s1)" "writeRow (nat (sint r)) b i s1 = Inr s'" using assms by (auto simp: appendFrom_def res_bind_eq_Inr res_map_eq_Inr)
  have "strWidth s' = strWidth s1" by (rule fold_res_keeps [OF s1(2) [unfolded writeRow_def]]) (simp_all add: write_cell_width)
  moreover have "strWidth s1 = strWidth s" using s1(1) by (auto simp: reserve_def reallocate_def Let_def res_bind_eq_Inr split: if_splits)
  ultimately show ?thesis by simp
qed

lemma new_width: "strWidth (newRowStore schema cap) = strWidth (newRowStore schema 0)"
  by (simp add: newRowStore_def Let_def split: prod.splits)

lemma append_stored:
  assumes s: "store_like schema s" "numRows s < maxBuildRows" and fits: "fits schema b i"
  obtains s' where "appendFrom b i s = Inr (word_of_nat (numRows s), s')" "store_like schema s'" "numRows s' = numRows s + 1"
    "stored_row s' (word_of_nat (numRows s)) = batch_row schema b i" "\<And>r. r < numRows s \<Longrightarrow> stored_row s' (word_of_nat r) = stored_row s (word_of_nat r)"
proof -
  note ok = s(1) [unfolded store_like_def]
  have "row_ok s b i" using fits_row_ok [OF fits] ok by blast
  then obtain s' where a: "appendFrom b i s = Inr (word_of_nat (numRows s), s')" and b: "built s s' [(0, b, i)]" using append_built [of s b i 0] ok s(2) by blast
  have sh: "store_ok s'" "numRows s' = numRows s + 1" "numCols s' = numCols s" "strSlot s' = strSlot s" using b by (simp_all add: built_def)
  have like: "store_like schema s'" using ok sh appendFrom_width [OF a] by (simp add: store_like_def of_schema_def)
  have "stored_row s' (word_of_nat (numRows s)) = batch_row schema b i"
    using b sh(3) ok unfolding built_def stored_row_def batch_row_def of_schema_def by auto
  moreover have "stored_row s' (word_of_nat r) = stored_row s (word_of_nat r)" if "r < numRows s" for r
    using b sh(3) that unfolding built_def stored_row_def by auto
  ultimately show thesis using that a like sh(2) by blast
qed

lemma partition_visit_ok:
  assumes loc: "bucket_ok schema n pm R loc" "length R < maxBuildRows" and fits: "fits schema b i" and p: "radixPart k pm < n"
  shows "\<exists>loc'. partition_visit pm k b i loc = Some (Inr loc') \<and> bucket_ok schema n pm (R @ [(k, batch_row schema b i)]) loc'"
proof -
  let ?p = "radixPart k pm" and ?row = "word_of_nat (length R) :: i32"
  note ok = loc(1) [unfolded bucket_ok_def]
  obtain s where s: "appendFrom b i (bstore loc) = Inr (?row, s)" "store_like schema s" "numRows s = length R + 1"
    "stored_row s ?row = batch_row schema b i" "\<And>r. r < length R \<Longrightarrow> stored_row s (word_of_nat r) = stored_row (bstore loc) (word_of_nat r)"
    by (rule append_stored [of schema "bstore loc" b i]) (use ok loc(2) fits in simp_all)
  let ?kr = "\<lparr>krKey = k, krRow = ?row\<rparr>" and ?R = "R @ [(k, batch_row schema b i)]"
  have old: "map (\<lambda>kr. (krKey kr, stored_row s (krRow kr))) (brows loc ! q) = filter (\<lambda>x. radixPart (fst x) pm = q) R" if q: "q < n" for q
  proof -
    have "map (\<lambda>kr. (krKey kr, stored_row s (krRow kr))) (brows loc ! q) = map (\<lambda>kr. (krKey kr, stored_row (bstore loc) (krRow kr))) (brows loc ! q)"
    proof (rule map_cong [OF refl])
      fix kr assume "kr \<in> set (brows loc ! q)"
      then obtain r where "r < length R" "krRow kr = word_of_nat r" using ok q by blast
      then show "(krKey kr, stored_row s (krRow kr)) = (krKey kr, stored_row (bstore loc) (krRow kr))" using s(5) by simp
    qed
    then show ?thesis using ok q by simp
  qed
  have rows: "\<forall>kr \<in> set (brows loc ! q). \<exists>r < length ?R. krRow kr = word_of_nat r" if q: "q < n" for q
    using ok q by (auto intro: less_SucI) (metis less_SucI)
  have "bucket_ok schema n pm ?R \<lparr>bstore = s, brows = (brows loc)[?p := brows loc ! ?p @ [?kr]]\<rparr>"
    unfolding bucket_ok_def
  proof (intro conjI allI impI)
    fix q assume q: "q < n"
    show "\<forall>kr \<in> set (brows \<lparr>bstore = s, brows = (brows loc)[?p := brows loc ! ?p @ [?kr]]\<rparr> ! q). \<exists>r < length ?R. krRow kr = word_of_nat r"
      using rows [OF q] rows [OF p] ok p by (cases "q = ?p") (auto intro!: exI [of _ "length R"])
    show "map (\<lambda>kr. (krKey kr, stored_row (bstore \<lparr>bstore = s, brows = (brows loc)[?p := brows loc ! ?p @ [?kr]]\<rparr>) (krRow kr))) (brows \<lparr>bstore = s, brows = (brows loc)[?p := brows loc ! ?p @ [?kr]]\<rparr> ! q) =
        filter (\<lambda>x. radixPart (fst x) pm = q) ?R"
      using old [OF q] s(4) ok p by (cases "q = ?p") simp_all
  qed (use ok s(2,3) in simp_all)
  then show ?thesis using s(1) ok p by (simp add: partition_visit_def Let_def)
qed

definition build_range :: "Schema \<Rightarrow> nat \<Rightarrow> (nat \<Rightarrow> keyed list) \<Rightarrow> nat \<Rightarrow> nat \<Rightarrow> stream \<Rightarrow> bool" where
  "build_range schema key rg a b s \<longleftrightarrow> ends_ok s \<and> (\<forall>x \<in> set (batches s). key_ok key x) \<and> (\<forall>(k, b, i) \<in> set (build_rows key s). fits schema b i) \<and>
     map (keyed_of schema) (build_rows key s) = concat (map rg [a..<b])"

lemma partitionMorsel_ok:
  assumes "build_range schema key rg a b s" "length (concat (map rg [a..<b])) \<le> maxBuildRows" "\<forall>k. radixPart k pm < n"
  shows "\<exists>loc. partitionMorsel schema key n pm bound s = Some (Inr loc) \<and> bucket_ok schema n pm (concat (map rg [a..<b])) loc"
proof -
  let ?B = "build_rows key s" and ?init = "\<lparr>bstore = newRowStore schema (buildRowsPresize bound), brows = replicate n []\<rparr>"
  note r = assms(1) [unfolded build_range_def]
  have len: "length ?B \<le> maxBuildRows" using assms(2) r by (metis length_map)
  have "\<exists>loc. fold_steps (\<lambda>(k, b, i). partition_visit pm k b i) (take m ?B) ?init = Some (Inr loc) \<and> bucket_ok schema n pm (map (keyed_of schema) (take m ?B)) loc" if "m \<le> length ?B" for m
    using that
  proof (induction m)
    case 0
    then show ?case using newRowStore_ok newRowStore_schema new_width by (auto simp: bucket_ok_def store_like_def)
  next
    case (Suc m)
    then obtain loc where loc: "fold_steps (\<lambda>(k, b, i). partition_visit pm k b i) (take m ?B) ?init = Some (Inr loc)" "bucket_ok schema n pm (map (keyed_of schema) (take m ?B)) loc" by auto
    obtain k b' i where x: "?B ! m = (k, b', i)" by (cases "?B ! m")
    then have "fits schema b' i" using r Suc.prems nth_mem [of m ?B] by fastforce
    moreover have "length (map (keyed_of schema) (take m ?B)) < maxBuildRows" using Suc.prems len by simp
    ultimately obtain loc' where "partition_visit pm k b' i loc = Some (Inr loc')" "bucket_ok schema n pm (map (keyed_of schema) (take m ?B) @ [(k, batch_row schema b' i)]) loc'"
      using partition_visit_ok [OF loc(2)] assms(3) by blast
    then show ?case using loc(1) x Suc.prems by (auto simp: take_Suc_conv_app_nth fold_steps_append keyed_of_def)
  qed
  from this [of "length ?B"] show ?thesis using r forEachBuildRow_fold [of s key "partition_visit pm" ?init] by (simp add: partitionMorsel_def)
qed

end
