(* ===== verification/ParallelTable.thy ===== *)
theory ParallelTable
  imports ParallelBuild
begin

text \<open>
  The parallel build of a join table is correct under every schedule: whichever worker claims which morsel and which partition, and however their steps interleave, the table answers every key with
  the build rows of that key in the order of the build side, and neither pass can hang.
\<close>

section \<open>Pools of workers\<close>

text \<open>
  What a pool of workers promises: a step keeps the invariant and lowers the work that is left, and as long as the pool has not finished some worker can step. Then every run is finite and can be continued to
  the end.
\<close>

locale worker_pool =
  fixes step :: "nat \<Rightarrow> 's \<Rightarrow> 's option" and inv :: "'s \<Rightarrow> bool" and work :: "'s \<Rightarrow> nat" and finished :: "'s \<Rightarrow> bool"
  assumes step_inv: "inv s \<Longrightarrow> step i s = Some t \<Longrightarrow> inv t"
    and step_work: "inv s \<Longrightarrow> step i s = Some t \<Longrightarrow> work t < work s"
    and progress: "inv s \<Longrightarrow> \<not> finished s \<Longrightarrow> \<exists>i t. step i s = Some t"
begin

lemma run_inv: "run_steps step is s = Some t \<Longrightarrow> inv s \<Longrightarrow> inv t \<and> length is + work t \<le> work s"
proof (induction "is" arbitrary: s)
  case (Cons i "is")
  then obtain u where u: "step i s = Some u" "run_steps step is u = Some t" by (auto simp: Option.bind_eq_Some_conv)
  then show ?case using Cons.IH [OF u(2) step_inv [OF Cons.prems(2) u(1)]] step_work [OF Cons.prems(2) u(1)] by simp
qed simp

lemma run_completes: "inv s \<Longrightarrow> \<exists>is t. run_steps step is s = Some t \<and> finished t"
proof (induction "work s" arbitrary: s rule: less_induct)
  case less
  show ?case
  proof (cases "finished s")
    case True
    then show ?thesis by (intro exI [of _ "[]"]) simp
  next
    case False
    then obtain i u where u: "step i s = Some u" using progress less.prems by blast
    then obtain "is" t where "run_steps step is u = Some t" "finished t" using less.hyps [OF step_work [OF less.prems u] step_inv [OF less.prems u]] by blast
    then show ?thesis using u by (intro exI [of _ "i # is"]) simp
  qed
qed

end

lemma run_steps_append: "run_steps step (is @ js) s = Option.bind (run_steps step is s) (run_steps step js)"
proof (induction "is" arbitrary: s)
  case (Cons i "is")
  then show ?case by (cases "step i s") simp_all
qed simp

text \<open>The counter of a queue after \<open>j\<close> claims. Failed claims advance it too, at most one for each worker that has left its loop.\<close>

definition counter_at :: "nat \<Rightarrow> nat \<Rightarrow> nat \<Rightarrow> morselQueue \<Rightarrow> bool" where
  "counter_at rgs k j q \<longleftrightarrow> qend q = word_of_nat rgs \<and> qnext q = word_of_nat (k * j)"

definition pool_inv :: "nat \<Rightarrow> nat \<Rightarrow> nat \<Rightarrow> ('w \<Rightarrow> bool) \<Rightarrow> 'w list \<Rightarrow> bool" where
  "pool_inv rgs k j left ws \<longleftrightarrow> k * j \<le> rgs + k * (1 + tally left ws) \<and> ((\<exists>w \<in> set ws. left w) \<longrightarrow> rgs \<le> k * j)"

lemma pool_bound:
  assumes "pool_inv rgs k j left ws" "rgs + k * (length ws + 1) < 2 ^ 63"
  shows "k * j < 2 ^ 63" "i < length ws \<Longrightarrow> \<not> left (ws ! i) \<Longrightarrow> k * j + k < 2 ^ 63"
proof -
  have le: "k * j \<le> rgs + k * (1 + tally left ws)" using assms(1) by (simp add: pool_inv_def)
  have "k * (1 + tally left ws) \<le> k * (length ws + 1)" using tally_le [of left ws] by (intro mult_le_mono2) simp
  then show "k * j < 2 ^ 63" using le assms(2) by linarith
  assume "i < length ws" "\<not> left (ws ! i)"
  then have "1 + tally left ws \<le> length ws" using tally_less [of "ws ! i" ws left] by simp
  then have "k * (1 + tally left ws) \<le> k * length ws" by (intro mult_le_mono2)
  then show "k * j + k < 2 ^ 63" using le assms(2) by simp
qed

lemma claim_counter:
  assumes "counter_at rgs k j q" "pool_inv rgs k j left ws" "rgs + k * (length ws + 1) < 2 ^ 63" "i < length ws" "\<not> left (ws ! i)"
  obtains q' where "claim (word_of_nat k) q = (if rgs \<le> k * j then None else Some (word_of_nat (k * j), word_of_nat (min (k * j + k) rgs)), q')" "counter_at rgs k (Suc j) q'"
proof -
  have b: "k * j + k < 2 ^ 63" by (rule pool_bound(2) [OF assms(2,3,4,5)])
  have "rgs < 2 ^ 63" using assms(3) by simp
  then have "claim (word_of_nat k) q = (if rgs \<le> k * j then None else Some (word_of_nat (k * j), word_of_nat (min (k * j + k) rgs)), q\<lparr>qnext := word_of_nat (k * j + k)\<rparr>)"
    using assms(1) b by (intro claim_nat) (simp_all only: counter_at_def)
  moreover have "counter_at rgs k (Suc j) (q\<lparr>qnext := word_of_nat (k * j + k)\<rparr>)" using assms(1) by (simp add: counter_at_def add.commute)
  ultimately show thesis using that by blast
qed

lemma pool_leave:
  assumes "pool_inv rgs k j left ws" "i < length ws" "\<not> left (ws ! i)" "left w" "rgs \<le> k * j"
  shows "pool_inv rgs k (Suc j) left (ws[i := w])"
  using assms tally_update [OF assms(2), of left w] by (auto simp: pool_inv_def algebra_simps)

lemma pool_claimed:
  assumes "pool_inv rgs k j left ws" "i < length ws" "\<not> left (ws ! i)" "\<not> left w" "k * j < rgs"
  shows "pool_inv rgs k (Suc j) left (ws[i := w])"
proof -
  have "\<not> (\<exists>w \<in> set ws. left w)" using assms(1,5) by (auto simp: pool_inv_def)
  then have "\<not> (\<exists>w \<in> set (ws[i := w]). left w)" using assms(4) by (auto dest!: set_update_subset_insert [THEN subsetD])
  then show ?thesis using assms(5) by (simp add: pool_inv_def algebra_simps)
qed

lemma pool_same:
  assumes "pool_inv rgs k j left ws" "i < length ws" "left w = left (ws ! i)"
  shows "pool_inv rgs k j left (ws[i := w])"
proof -
  have "tally left (ws[i := w]) = tally left ws" using tally_update [OF assms(2), of left w] assms(3) by (auto split: if_splits)
  moreover have "(\<exists>v \<in> set (ws[i := w]). left v) \<Longrightarrow> \<exists>v \<in> set ws. left v" using assms(2,3) by (metis in_set_conv_nth length_list_update nth_list_update)
  ultimately show ?thesis using assms(1) by (simp add: pool_inv_def)
qed


section \<open>The first pass\<close>

text \<open>
  What the build side's pipelines promise: over a range of row groups they deliver the rows \<open>rg\<close> of those groups, in order, and a pipeline that is repositioned delivers what a fresh one would.
\<close>

definition build_pipeline_ok :: "build_conf \<Rightarrow> (nat \<Rightarrow> keyed list) \<Rightarrow> bool" where
  "build_pipeline_ok c rg \<longleftrightarrow> (\<forall>a b. a < b \<and> b \<le> btotal c \<longrightarrow> (\<exists>p. bfactory c a b = Inr p \<and> build_range (bschema c) (bkey c) rg a b (pstream p) \<and>
     (reusableMorselPipeline (shape p) \<longrightarrow> (\<forall>a b. a < b \<and> b \<le> btotal c \<longrightarrow> build_range (bschema c) (bkey c) rg a b (preset p a b)))))"

definition build_runner_ok :: "build_conf \<Rightarrow> (nat \<Rightarrow> keyed list) \<Rightarrow> morselRunner \<Rightarrow> bool" where
  "build_runner_ok c rg m \<longleftrightarrow> (\<forall>p. held m = Some p \<longrightarrow> (\<forall>a b. a < b \<and> b \<le> btotal c \<longrightarrow> build_range (bschema c) (bkey c) rg a b (preset p a b)))"

lemma build_runner_open:
  assumes "build_pipeline_ok c rg" "build_runner_ok c rg m" "a < b" "b \<le> btotal c"
  obtains s m' where "runner_open (bfactory c) a b m = Inr (s, m')" "build_range (bschema c) (bkey c) rg a b s" "build_runner_ok c rg m'"
proof (cases "held m")
  case None
  obtain p where p: "bfactory c a b = Inr p" "build_range (bschema c) (bkey c) rg a b (pstream p)"
    "reusableMorselPipeline (shape p) \<longrightarrow> (\<forall>a b. a < b \<and> b \<le> btotal c \<longrightarrow> build_range (bschema c) (bkey c) rg a b (preset p a b))"
    using assms(1,3,4) unfolding build_pipeline_ok_def by blast
  let ?m = "if probed m then m else \<lparr>held = (if reusableMorselPipeline (shape p) then Some p else None), probed = True\<rparr>"
  have "build_runner_ok c rg ?m" using p(3) None by (simp add: build_runner_ok_def)
  then show thesis using that [of "pstream p" ?m] p(1,2) None by (simp add: runner_open_def)
next
  case (Some p)
  then show thesis using that [of "preset p a b" m] assms by (simp add: runner_open_def build_runner_ok_def)
qed

definition build_ok :: "build_conf \<Rightarrow> (nat \<Rightarrow> keyed list) \<Rightarrow> nat \<Rightarrow> bool" where
  "build_ok c rg n \<longleftrightarrow> 0 < bmorsel c \<and> 0 < n \<and> bbits c \<le> 12 \<and> build_pipeline_ok c rg \<and> length (concat (map rg [0..<btotal c])) \<le> maxBuildRows \<and>
     btotal c + bmorsel c * (n + 1) < 2 ^ 63"

definition pm_of :: "build_conf \<Rightarrow> u64" where
  "pm_of c = word_of_nat (numParts c - 1)"

definition morsel_rows :: "build_conf \<Rightarrow> (nat \<Rightarrow> keyed list) \<Rightarrow> nat \<Rightarrow> keyed list" where
  "morsel_rows c rg m = concat (map rg [bmorsel c * m..<min (bmorsel c * m + bmorsel c) (btotal c)])"

definition morsel_bucket :: "build_conf \<Rightarrow> (nat \<Rightarrow> keyed list) \<Rightarrow> nat \<Rightarrow> morselBucket \<Rightarrow> bool" where
  "morsel_bucket c rg m loc \<longleftrightarrow> bucket_ok (bschema c) (numParts c) (pm_of c) (morsel_rows c rg m) loc"

lemma morsel_less: "0 < bmorsel c \<Longrightarrow> m < numMorsels c \<longleftrightarrow> bmorsel c * m < btotal c"
proof -
  assume k: "0 < bmorsel c"
  have "m < numMorsels c \<longleftrightarrow> Suc m * bmorsel c \<le> btotal c + bmorsel c - 1"
    unfolding numMorsels_def using less_eq_div_iff_mult_less_eq [OF k, of "Suc m" "btotal c + bmorsel c - 1"] by (simp add: Suc_le_eq)
  then show ?thesis using k by (auto simp: algebra_simps)
qed

lemma morsel_rows_length:
  assumes "length (concat (map rg [0..<btotal c])) \<le> maxBuildRows"
  shows "length (morsel_rows c rg m) \<le> maxBuildRows"
proof -
  let ?a = "bmorsel c * m" and ?b = "min (bmorsel c * m + bmorsel c) (btotal c)"
  have "length (morsel_rows c rg m) \<le> length (concat (map rg [0..<btotal c]))"
  proof (cases "?a < ?b")
    case True
    have split: "[0..<btotal c] = [0..<?a] @ [?a..<?b] @ [?b..<btotal c]"
      using True upt_add_eq_append [of 0 ?a "btotal c - ?a"] upt_add_eq_append [of ?a ?b "btotal c - ?b"] by simp
    have "length (concat (map rg [0..<btotal c])) = length (concat (map rg [0..<?a])) + (length (morsel_rows c rg m) + length (concat (map rg [?b..<btotal c])))"
      unfolding morsel_rows_def arg_cong [OF split, of "\<lambda>xs. length (concat (map rg xs))"] by (simp only: map_append concat_append length_append)
    then show ?thesis by linarith
  next
    case False
    then have "[?a..<?b] = []" by (intro upt_conv_Nil) (simp only: not_less)
    then show ?thesis by (simp only: morsel_rows_def list.map concat.simps list.size le0)
  qed
  then show ?thesis using assms by linarith
qed

definition on_morsel :: "build_conf \<Rightarrow> nat \<Rightarrow> build_worker \<Rightarrow> bool" where
  "on_morsel c m w \<longleftrightarrow> (case bpc w of BOpen a b \<Rightarrow> unat a = bmorsel c * m | BStore a loc \<Rightarrow> unat a = bmorsel c * m | _ \<Rightarrow> False)"

definition bleft :: "build_worker \<Rightarrow> bool" where
  "bleft w \<longleftrightarrow> (case bpc w of BSend _ \<Rightarrow> True | BExit \<Rightarrow> True | _ \<Rightarrow> False)"

definition build_worker_ok :: "build_conf \<Rightarrow> (nat \<Rightarrow> keyed list) \<Rightarrow> build_worker \<Rightarrow> bool" where
  "build_worker_ok c rg w \<longleftrightarrow> build_runner_ok c rg (brunner w) \<and> (case bpc w of
     BOpen a b \<Rightarrow> (\<exists>m < numMorsels c. unat a = bmorsel c * m \<and> unat b = min (bmorsel c * m + bmorsel c) (btotal c))
   | BStore a loc \<Rightarrow> (\<exists>m < numMorsels c. unat a = bmorsel c * m \<and> morsel_bucket c rg m loc)
   | BSend e \<Rightarrow> e = None
   | _ \<Rightarrow> True)"

definition buckets_ok :: "build_conf \<Rightarrow> (nat \<Rightarrow> keyed list) \<Rightarrow> morselBucket option list \<Rightarrow> bool" where
  "buckets_ok c rg bs \<longleftrightarrow> length bs = numMorsels c \<and> (\<forall>m < numMorsels c. \<forall>loc. bs ! m = Some loc \<longrightarrow> morsel_bucket c rg m loc)"

definition build_inv_at :: "build_conf \<Rightarrow> (nat \<Rightarrow> keyed list) \<Rightarrow> nat \<Rightarrow> nat \<Rightarrow> build_state \<Rightarrow> bool" where
  "build_inv_at c rg n j s \<longleftrightarrow> counter_at (btotal c) (bmorsel c) j (bqueue s) \<and> pool_inv (btotal c) (bmorsel c) j bleft (bworkers s) \<and> length (bworkers s) = n \<and>
     (\<forall>w \<in> set (bworkers s). build_worker_ok c rg w) \<and> buckets_ok c rg (buckets s) \<and>
     (\<forall>m < numMorsels c. m < j \<longrightarrow> buckets s ! m \<noteq> None \<or> (\<exists>w \<in> set (bworkers s). on_morsel c m w)) \<and>
     length (errCh s) = tally (\<lambda>w. bpc w = BExit) (bworkers s) \<and> (\<forall>e \<in> set (errCh s). e = None)"

definition build_inv :: "build_conf \<Rightarrow> (nat \<Rightarrow> keyed list) \<Rightarrow> nat \<Rightarrow> build_state \<Rightarrow> bool" where
  "build_inv c rg n s \<longleftrightarrow> build_ok c rg n \<and> (\<exists>j. build_inv_at c rg n j s)"

definition bweight :: "build_worker \<Rightarrow> nat" where
  "bweight w = (case bpc w of BExit \<Rightarrow> 0 | BSend _ \<Rightarrow> 1 | BClaim \<Rightarrow> 2 | BStore _ _ \<Rightarrow> 3 | BOpen _ _ \<Rightarrow> 4)"

definition build_work :: "build_conf \<Rightarrow> build_state \<Rightarrow> nat" where
  "build_work c s = 4 * (btotal c - unat (qnext (bqueue s))) + sum_list (map bweight (bworkers s))"

definition build_finished :: "build_state \<Rightarrow> bool" where
  "build_finished s \<longleftrightarrow> (\<forall>w \<in> set (bworkers s). bpc w = BExit)"

lemma build_init_inv:
  assumes "build_ok c rg n"
  shows "build_inv c rg n (build_init c n)"
proof -
  have "tally P (replicate n \<lparr>bpc = BClaim, brunner = new_runner\<rparr>) = 0" if "\<not> P \<lparr>bpc = BClaim, brunner = new_runner\<rparr>" for P using that by (simp add: tally_def)
  then have "build_inv_at c rg n 0 (build_init c n)"
    by (auto simp: build_inv_at_def build_init_def counter_at_def pool_inv_def bleft_def buckets_ok_def build_worker_ok_def build_runner_ok_def new_runner_def)
  then show ?thesis using assms by (auto simp: build_inv_def)
qed

lemma parts_bound:
  assumes "bbits c \<le> 12"
  shows "radixPart k (pm_of c) < numParts c"
  using radixPart_less [OF assms] by (simp add: pm_of_def numParts_def)

text \<open>The kinds of steps a worker takes.\<close>

lemma build_step_cases:
  assumes "build_step c n i s = Some t"
  obtains (claim_none) q where "i < length (bworkers s)" "bpc (bworkers s ! i) = BClaim" "claim (word_of_nat (bmorsel c)) (bqueue s) = (None, q)"
      "t = s\<lparr>bworkers := (bworkers s)[i := (bworkers s ! i)\<lparr>bpc := BSend None\<rparr>], bqueue := q\<rparr>"
  | (claim_some) a b q where "i < length (bworkers s)" "bpc (bworkers s ! i) = BClaim" "claim (word_of_nat (bmorsel c)) (bqueue s) = (Some (a, b), q)"
      "t = s\<lparr>bworkers := (bworkers s)[i := (bworkers s ! i)\<lparr>bpc := BOpen a b\<rparr>], bqueue := q\<rparr>"
  | (open_fail) a b e where "i < length (bworkers s)" "bpc (bworkers s ! i) = BOpen a b" "runner_open (bfactory c) (unat a) (unat b) (brunner (bworkers s ! i)) = Inl e"
      "t = s\<lparr>bworkers := (bworkers s)[i := (bworkers s ! i)\<lparr>bpc := BSend (Some e)\<rparr>]\<rparr>"
  | (opened) a b pl m r where "i < length (bworkers s)" "bpc (bworkers s ! i) = BOpen a b" "runner_open (bfactory c) (unat a) (unat b) (brunner (bworkers s ! i)) = Inr (pl, m)"
      "partitionMorsel (bschema c) (bkey c) (numParts c) (pm_of c) (bbound c (unat a) (unat b)) pl = Some r"
      "t = s\<lparr>bworkers := (bworkers s)[i := \<lparr>bpc = (case r of Inl e \<Rightarrow> BSend (Some e) | Inr loc \<Rightarrow> BStore a loc), brunner = m\<rparr>]\<rparr>"
  | (store_fail) a loc e where "i < length (bworkers s)" "bpc (bworkers s ! i) = BStore a loc" "upd (buckets s) (unat a div bmorsel c) (Some loc) = Inl e"
      "t = s\<lparr>bworkers := (bworkers s)[i := (bworkers s ! i)\<lparr>bpc := BSend (Some e)\<rparr>]\<rparr>"
  | (stored) a loc bs where "i < length (bworkers s)" "bpc (bworkers s ! i) = BStore a loc" "(upd (buckets s) (unat a div bmorsel c) (Some loc) :: morselBucket option list xres) = Inr bs"
      "t = s\<lparr>bworkers := (bworkers s)[i := (bworkers s ! i)\<lparr>bpc := BClaim\<rparr>], buckets := bs\<rparr>"
  | (send) r where "i < length (bworkers s)" "bpc (bworkers s ! i) = BSend r" "length (errCh s) < n"
      "t = s\<lparr>bworkers := (bworkers s)[i := (bworkers s ! i)\<lparr>bpc := BExit\<rparr>], errCh := errCh s @ [r]\<rparr>"
proof -
  have i: "i < length (bworkers s)" using assms by (auto simp: build_step_def split: if_splits)
  show thesis
  proof (cases "bpc (bworkers s ! i)")
    case BClaim
    then show thesis using assms i claim_none claim_some by (auto simp: build_step_def Let_def split: prod.splits option.splits)
  next
    case (BOpen a b)
    show thesis
    proof (cases "runner_open (bfactory c) (unat a) (unat b) (brunner (bworkers s ! i))")
      case (Inl e)
      then show thesis using assms i BOpen open_fail by (auto simp: build_step_def Let_def)
    next
      case (Inr x)
      obtain pl m where x: "x = (pl, m)" by (cases x)
      obtain r where "partitionMorsel (bschema c) (bkey c) (numParts c) (pm_of c) (bbound c (unat a) (unat b)) pl = Some r"
        "t = s\<lparr>bworkers := (bworkers s)[i := \<lparr>bpc = (case r of Inl e \<Rightarrow> BSend (Some e) | Inr loc \<Rightarrow> BStore a loc), brunner = m\<rparr>]\<rparr>"
        using assms i BOpen Inr x by (auto simp: build_step_def Let_def pm_of_def)
      then show thesis using opened [OF i BOpen Inr [unfolded x]] by blast
    qed
  next
    case (BStore a loc)
    show thesis
    proof (cases "upd (buckets s) (unat a div bmorsel c) (Some loc) :: morselBucket option list xres")
      case (Inl e)
      then show thesis using assms store_fail [OF i BStore Inl] i BStore by (simp add: build_step_def Let_def)
    next
      case (Inr bs)
      then show thesis using assms stored [OF i BStore Inr] i BStore by (simp add: build_step_def Let_def)
    qed
  next
    case (BSend r)
    then show thesis using assms i send by (auto simp: build_step_def Let_def split: if_splits)
  next
    case BExit
    then show thesis using assms i by (simp add: build_step_def Let_def)
  qed
qed

text \<open>A change of one worker that leaves the queue and the channel alone.\<close>

lemma build_inv_worker:
  assumes inv: "build_inv_at c rg n j s" and i: "i < length (bworkers s)" and w: "build_worker_ok c rg w" "bleft w = bleft (bworkers s ! i)" "bpc w \<noteq> BExit" "bpc (bworkers s ! i) \<noteq> BExit"
    and bs: "buckets_ok c rg bs" "\<And>m. buckets s ! m \<noteq> None \<Longrightarrow> bs ! m \<noteq> None" "\<And>m. on_morsel c m (bworkers s ! i) \<Longrightarrow> m < numMorsels c \<Longrightarrow> on_morsel c m w \<or> bs ! m \<noteq> None"
  shows "build_inv_at c rg n j (s\<lparr>bworkers := (bworkers s)[i := w], buckets := bs\<rparr>)"
  unfolding build_inv_at_def
proof (intro conjI)
  let ?s = "s\<lparr>bworkers := (bworkers s)[i := w], buckets := bs\<rparr>"
  show "pool_inv (btotal c) (bmorsel c) j bleft (bworkers ?s)" using inv i w(2) by (simp add: build_inv_at_def pool_same)
  show "\<forall>v \<in> set (bworkers ?s). build_worker_ok c rg v" using inv w(1) by (auto simp: build_inv_at_def dest!: set_update_subset_insert [THEN subsetD])
  show "length (errCh ?s) = tally (\<lambda>w. bpc w = BExit) (bworkers ?s)" using inv tally_update [OF i, of "\<lambda>w. bpc w = BExit" w] w(3,4) by (simp add: build_inv_at_def)
  show "\<forall>m < numMorsels c. m < j \<longrightarrow> buckets ?s ! m \<noteq> None \<or> (\<exists>v \<in> set (bworkers ?s). on_morsel c m v)"
  proof (intro allI impI)
    fix m assume m: "m < numMorsels c" "m < j"
    then consider "buckets s ! m \<noteq> None" | v where "v \<in> set (bworkers s)" "on_morsel c m v" using inv by (auto simp: build_inv_at_def)
    then show "buckets ?s ! m \<noteq> None \<or> (\<exists>v \<in> set (bworkers ?s). on_morsel c m v)"
    proof cases
      case 1
      then show ?thesis using bs(2) by simp
    next
      case (2 v)
      then obtain l where l: "l < length (bworkers s)" "v = bworkers s ! l" by (metis in_set_conv_nth)
      show ?thesis
      proof (cases "l = i")
        case True
        then have "on_morsel c m w \<or> bs ! m \<noteq> None" using bs(3) 2(2) l m(1) by blast
        then show ?thesis using i set_update_memI [of i "bworkers s" w] by auto
      next
        case False
        then have "v \<in> set ((bworkers s)[i := w])" using l by (metis length_list_update nth_list_update_neq nth_mem)
        then show ?thesis using 2(2) by auto
      qed
    qed
  qed
qed (use inv bs(1) in \<open>auto simp: build_inv_at_def\<close>)

lemma unat_small: "x < 2 ^ 63 \<Longrightarrow> unat (word_of_nat x :: i64) = x"
  by (simp add: unat_of_nat take_bit_nat_eq_self)

lemma build_work_worker: "i < length (bworkers s) \<Longrightarrow> bqueue t = bqueue s \<Longrightarrow> bworkers t = (bworkers s)[i := w] \<Longrightarrow> bweight w < bweight (bworkers s ! i) \<Longrightarrow> build_work c t < build_work c s"
  using sum_list_update [of i "bworkers s" bweight w] by (simp add: build_work_def)

lemma bpc_simps [simp]:
  "bpc w = BClaim \<Longrightarrow> \<not> bleft w" "bpc w = BOpen a b \<Longrightarrow> \<not> bleft w" "bpc w = BStore a loc \<Longrightarrow> \<not> bleft w" "bpc w = BSend r \<Longrightarrow> bleft w" "bpc w = BExit \<Longrightarrow> bleft w"
  "bpc w = BClaim \<Longrightarrow> bweight w = 2" "bpc w = BOpen a b \<Longrightarrow> bweight w = 4" "bpc w = BStore a loc \<Longrightarrow> bweight w = 3" "bpc w = BSend r \<Longrightarrow> bweight w = 1" "bpc w = BExit \<Longrightarrow> bweight w = 0"
  by (simp_all add: bleft_def bweight_def)

lemma build_claim_step:
  assumes ok: "build_ok c rg n" and inv: "build_inv_at c rg n j s" and i: "i < length (bworkers s)" "bpc (bworkers s ! i) = BClaim"
    and cl: "claim (word_of_nat (bmorsel c)) (bqueue s) = (r, q)"
    and t: "t = s\<lparr>bworkers := (bworkers s)[i := (bworkers s ! i)\<lparr>bpc := (case r of None \<Rightarrow> BSend None | Some (a, b) \<Rightarrow> BOpen a b)\<rparr>], bqueue := q\<rparr>"
  shows "build_inv_at c rg n (Suc j) t" "build_work c t < build_work c s"
proof -
  let ?k = "bmorsel c" and ?w = "(bworkers s ! i)\<lparr>bpc := (case r of None \<Rightarrow> BSend None | Some (a, b) \<Rightarrow> BOpen a b)\<rparr>"
  note inv' = inv [unfolded build_inv_at_def]
  have k: "0 < ?k" and len: "btotal c + ?k * (length (bworkers s) + 1) < 2 ^ 63" using ok inv' by (simp_all add: build_ok_def)
  have nl: "\<not> bleft (bworkers s ! i)" using i(2) by simp
  obtain q' where q': "claim (word_of_nat ?k) (bqueue s) = (if btotal c \<le> ?k * j then None else Some (word_of_nat (?k * j), word_of_nat (min (?k * j + ?k) (btotal c))), q')" "counter_at (btotal c) ?k (Suc j) q'"
    using claim_counter [of "btotal c" ?k j "bqueue s" bleft "bworkers s" i] inv' len i(1) nl by blast
  then have q: "q = q'" and r: "r = (if btotal c \<le> ?k * j then None else Some (word_of_nat (?k * j), word_of_nat (min (?k * j + ?k) (btotal c))))" using cl by simp_all
  have b: "?k * j + ?k < 2 ^ 63" "?k * j < 2 ^ 63" using pool_bound [of "btotal c" ?k j bleft "bworkers s"] inv' len i(1) nl by blast+
  have u: "unat (word_of_nat (?k * j) :: i64) = ?k * j" "unat (word_of_nat (min (?k * j + ?k) (btotal c)) :: i64) = min (?k * j + ?k) (btotal c)"
    by (rule unat_small [OF b(2)]) (rule unat_small, use b(1) in linarith)
  have qn: "unat (qnext (bqueue s)) = ?k * j" "unat (qnext q) = ?k * j + ?k"
    using inv' q'(2) q unat_small [OF b(1)] u(1) unfolding counter_at_def by (simp_all only: mult_Suc_right add.commute)
  have "build_runner_ok c rg (brunner (bworkers s ! i))" using inv' nth_mem [OF i(1)] by (auto simp: build_worker_ok_def)
  then have w: "build_worker_ok c rg ?w" "bpc ?w \<noteq> BExit"
    using u r morsel_less [OF k, of j] by (auto simp: build_worker_ok_def simp del: of_nat_mult)
  have pool: "pool_inv (btotal c) ?k (Suc j) bleft ((bworkers s)[i := ?w])"
  proof (cases "btotal c \<le> ?k * j")
    case True
    then show ?thesis using pool_leave [of "btotal c" ?k j bleft "bworkers s" i ?w] inv' i(1) nl r by simp
  next
    case False
    then show ?thesis using pool_claimed [of "btotal c" ?k j bleft "bworkers s" i ?w] inv' i(1) nl r by simp
  qed
  have onj: "on_morsel c j ?w" if "j < numMorsels c" using that morsel_less [OF k, of j] u(1) r by (simp add: on_morsel_def)
  have non: "\<not> on_morsel c m (bworkers s ! i)" for m using i(2) by (simp add: on_morsel_def)
  have cover: "buckets s ! m \<noteq> None \<or> (\<exists>v \<in> set ((bworkers s)[i := ?w]). on_morsel c m v)" if m: "m < numMorsels c" "m < Suc j" for m
  proof (cases "m = j")
    case True
    then show ?thesis using onj m(1) set_update_memI [OF i(1), of ?w] by blast
  next
    case False
    then consider "buckets s ! m \<noteq> None" | v where "v \<in> set (bworkers s)" "on_morsel c m v" using inv' m by (auto simp: less_Suc_eq)
    then show ?thesis
    proof cases
      case (2 v)
      then obtain l where "l < length (bworkers s)" "v = bworkers s ! l" by (metis in_set_conv_nth)
      moreover have "l \<noteq> i" using 2(2) non calculation(2) by blast
      ultimately have "v \<in> set ((bworkers s)[i := ?w])" by (metis length_list_update nth_list_update_neq nth_mem)
      then show ?thesis using 2(2) by blast
    qed blast
  qed
  have workers: "\<forall>v \<in> set ((bworkers s)[i := ?w]). build_worker_ok c rg v" using inv' w(1) by (auto dest!: set_update_subset_insert [THEN subsetD])
  have exits: "length (errCh s) = tally (\<lambda>w. bpc w = BExit) ((bworkers s)[i := ?w])" using inv' tally_update [OF i(1), of "\<lambda>w. bpc w = BExit" ?w] w(2) i(2) by simp
  show "build_inv_at c rg n (Suc j) t" using inv' q'(2) q pool workers exits cover unfolding build_inv_at_def t by simp
  have "btotal c - (?k * j + ?k) < btotal c - ?k * j \<or> btotal c \<le> ?k * j" using k by linarith
  then show "build_work c t < build_work c s"
    using sum_list_update [OF i(1), of bweight ?w] qn r i(2) by (auto simp: build_work_def t bweight_def split: if_splits)
qed

lemma build_worker_at: "build_inv_at c rg n j s \<Longrightarrow> i < length (bworkers s) \<Longrightarrow> build_worker_ok c rg (bworkers s ! i)"
  by (simp add: build_inv_at_def)

lemma build_opens:
  assumes ok: "build_ok c rg n" and w: "build_worker_ok c rg w" "bpc w = BOpen a b"
  obtains pl m loc k where "runner_open (bfactory c) (unat a) (unat b) (brunner w) = Inr (pl, m)" "build_runner_ok c rg m" "k < numMorsels c" "unat a = bmorsel c * k"
    "partitionMorsel (bschema c) (bkey c) (numParts c) (pm_of c) (bbound c (unat a) (unat b)) pl = Some (Inr loc)" "morsel_bucket c rg k loc"
proof -
  have k0: "0 < bmorsel c" using ok by (simp add: build_ok_def)
  obtain k where k: "k < numMorsels c" "unat a = bmorsel c * k" "unat b = min (bmorsel c * k + bmorsel c) (btotal c)" "build_runner_ok c rg (brunner w)"
    using w by (auto simp: build_worker_ok_def)
  have ab: "unat a < unat b" "unat b \<le> btotal c" using k morsel_less [OF k0, of k] k0 by simp_all
  have pipes: "build_pipeline_ok c rg" using ok by (simp add: build_ok_def)
  obtain pl m where pl: "runner_open (bfactory c) (unat a) (unat b) (brunner w) = Inr (pl, m)" "build_range (bschema c) (bkey c) rg (unat a) (unat b) pl" "build_runner_ok c rg m"
    by (rule build_runner_open [OF pipes k(4) ab])
  have rows: "concat (map rg [unat a..<unat b]) = morsel_rows c rg k" using k(2,3) by (simp add: morsel_rows_def)
  have "length (concat (map rg [unat a..<unat b])) \<le> maxBuildRows" unfolding rows using ok by (intro morsel_rows_length) (simp add: build_ok_def)
  moreover have "\<forall>k. radixPart k (pm_of c) < numParts c" using ok parts_bound by (simp add: build_ok_def)
  ultimately obtain loc where "partitionMorsel (bschema c) (bkey c) (numParts c) (pm_of c) (bbound c (unat a) (unat b)) pl = Some (Inr loc)" "morsel_bucket c rg k loc"
    using partitionMorsel_ok [OF pl(2), of "pm_of c" "numParts c" "bbound c (unat a) (unat b)"] unfolding rows morsel_bucket_def by blast
  then show thesis using that pl(1,3) k(1,2) by blast
qed

lemma build_stores:
  assumes ok: "build_ok c rg n" and w: "build_worker_ok c rg w" "bpc w = BStore a loc" and bs: "buckets_ok c rg bs"
  obtains k where "upd bs (unat a div bmorsel c) (Some loc) = Inr (bs[k := Some loc])" "k < length bs" "buckets_ok c rg (bs[k := Some loc])" "unat a = bmorsel c * k"
proof -
  obtain k where k: "k < numMorsels c" "unat a = bmorsel c * k" "morsel_bucket c rg k loc" using w by (auto simp: build_worker_ok_def)
  have "unat a div bmorsel c = k" using k(2) ok by (simp add: build_ok_def)
  moreover have "length bs = numMorsels c" using bs by (simp add: buckets_ok_def)
  moreover have "buckets_ok c rg (bs[k := Some loc])" using bs k by (auto simp: buckets_ok_def nth_list_update)
  ultimately show thesis using that [of k] k by (simp add: upd_def)
qed

lemma build_step_ok:
  assumes inv: "build_inv c rg n s" and step: "build_step c n i s = Some t"
  shows "build_inv c rg n t \<and> build_work c t < build_work c s"
proof -
  obtain j where ok: "build_ok c rg n" and at: "build_inv_at c rg n j s" using inv by (auto simp: build_inv_def)
  let ?w = "bworkers s ! i"
  have bs: "buckets_ok c rg (buckets s)" using at by (simp add: build_inv_at_def)
  from step have "\<exists>j. build_inv_at c rg n j t \<and> build_work c t < build_work c s"
  proof (cases rule: build_step_cases)
    case (claim_none q)
    then show ?thesis using build_claim_step [OF ok at claim_none(1,2,3)] by auto
  next
    case (claim_some a b q)
    then show ?thesis using build_claim_step [OF ok at claim_some(1,2,3)] by auto
  next
    case (open_fail a b e)
    then show ?thesis using build_opens [OF ok build_worker_at [OF at open_fail(1)] open_fail(2)] by (metis sum.distinct(1))
  next
    case (opened a b pl m r)
    obtain loc k where r: "r = Inr loc" "build_runner_ok c rg m" "k < numMorsels c" "unat a = bmorsel c * k" "morsel_bucket c rg k loc"
      using build_opens [OF ok build_worker_at [OF at opened(1)] opened(2)] opened(3,4) by (metis option.inject prod.inject sum.inject(2))
    let ?v = "\<lparr>bpc = BStore a loc, brunner = m\<rparr>"
    have "build_worker_ok c rg ?v" using r by (auto simp: build_worker_ok_def)
    moreover have "on_morsel c m' ?v" if "on_morsel c m' ?w" for m' using that opened(2) by (simp add: on_morsel_def)
    ultimately have "build_inv_at c rg n j (s\<lparr>bworkers := (bworkers s)[i := ?v], buckets := buckets s\<rparr>)" using opened(2) by (intro build_inv_worker [OF at opened(1)] bs) (simp_all add: bleft_def)
    moreover have "build_work c t < build_work c s" using opened(2,5) r(1) by (intro build_work_worker [OF opened(1), of t ?v]) simp_all
    ultimately show ?thesis using opened(5) r(1) by auto
  next
    case (store_fail a loc e)
    then show ?thesis using build_stores [OF ok build_worker_at [OF at store_fail(1)] store_fail(2) bs] by (metis sum.distinct(1))
  next
    case (stored a loc bs')
    obtain k where k: "upd (buckets s) (unat a div bmorsel c) (Some loc) = (Inr ((buckets s)[k := Some loc]) :: morselBucket option list xres)" "k < length (buckets s)"
      "buckets_ok c rg ((buckets s)[k := Some loc])" "unat a = bmorsel c * k"
      using build_stores [OF ok build_worker_at [OF at stored(1)] stored(2) bs] by metis
    let ?v = "?w\<lparr>bpc := BClaim\<rparr>"
    have k0: "0 < bmorsel c" using ok by (simp add: build_ok_def)
    have "build_worker_ok c rg ?v" using build_worker_at [OF at stored(1)] by (simp add: build_worker_ok_def)
    moreover have "(buckets s)[k := Some loc] ! m' \<noteq> None" if "on_morsel c m' ?w" for m'
    proof -
      have "m' = k" using that stored(2) k(4) k0 by (simp add: on_morsel_def)
      then show ?thesis using k(2) by simp
    qed
    moreover have "(buckets s)[k := Some loc] ! m' \<noteq> None" if "buckets s ! m' \<noteq> None" for m' using that k(2) by (simp add: nth_list_update)
    ultimately have "build_inv_at c rg n j (s\<lparr>bworkers := (bworkers s)[i := ?v], buckets := (buckets s)[k := Some loc]\<rparr>)"
      using stored(2) by (intro build_inv_worker [OF at stored(1)] k(3)) (auto simp: bleft_def)
    moreover have "build_work c t < build_work c s" using stored(2,4) by (intro build_work_worker [OF stored(1), of t ?v]) simp_all
    ultimately show ?thesis using stored(3,4) k(1) by auto
  next
    case (send r)
    let ?v = "?w\<lparr>bpc := BExit\<rparr>"
    have r: "r = None" using build_worker_at [OF at send(1)] send(2) by (simp add: build_worker_ok_def)
    have "build_worker_ok c rg ?v" using build_worker_at [OF at send(1)] by (simp add: build_worker_ok_def)
    then have "\<forall>v \<in> set ((bworkers s)[i := ?v]). build_worker_ok c rg v" using at by (auto simp: build_inv_at_def dest!: set_update_subset_insert [THEN subsetD])
    moreover have "pool_inv (btotal c) (bmorsel c) j bleft ((bworkers s)[i := ?v])" using at send(1,2) by (intro pool_same) (simp_all add: build_inv_at_def)
    moreover have "tally (\<lambda>w. bpc w = BExit) ((bworkers s)[i := ?v]) = Suc (tally (\<lambda>w. bpc w = BExit) (bworkers s))" using tally_update [OF send(1), of "\<lambda>w. bpc w = BExit" ?v] send(2) by simp
    moreover have "\<exists>v \<in> set ((bworkers s)[i := ?v]). on_morsel c m v" if "\<exists>v \<in> set (bworkers s). on_morsel c m v" for m
    proof -
      obtain l where "l < length (bworkers s)" "on_morsel c m (bworkers s ! l)" using \<open>\<exists>v \<in> set (bworkers s). on_morsel c m v\<close> by (metis in_set_conv_nth)
      moreover have "l \<noteq> i" using calculation(2) send(2) by (auto simp: on_morsel_def)
      ultimately show ?thesis by (metis length_list_update nth_list_update_neq nth_mem)
    qed
    ultimately have "build_inv_at c rg n j t" using at r unfolding build_inv_at_def send(4) by auto blast
    moreover have "build_work c t < build_work c s" using send(2,4) by (intro build_work_worker [OF send(1), of t ?v]) simp_all
    ultimately show ?thesis by blast
  qed
  then show ?thesis using ok by (auto simp: build_inv_def)
qed

lemma build_progress:
  assumes inv: "build_inv c rg n s" and "\<not> build_finished s"
  shows "\<exists>i t. build_step c n i s = Some t"
proof -
  obtain j where ok: "build_ok c rg n" and at: "build_inv_at c rg n j s" using inv by (auto simp: build_inv_def)
  obtain i where i: "i < length (bworkers s)" "bpc (bworkers s ! i) \<noteq> BExit" using assms(2) by (auto simp: build_finished_def in_set_conv_nth)
  have "\<exists>t. build_step c n i s = Some t"
  proof (cases "bpc (bworkers s ! i)")
    case BClaim
    then show ?thesis using i by (auto simp: build_step_def Let_def split: prod.splits option.splits)
  next
    case (BOpen a b)
    obtain pl m loc k where "runner_open (bfactory c) (unat a) (unat b) (brunner (bworkers s ! i)) = Inr (pl, m)"
      "partitionMorsel (bschema c) (bkey c) (numParts c) (pm_of c) (bbound c (unat a) (unat b)) pl = Some (Inr loc)"
      by (rule build_opens [OF ok build_worker_at [OF at i(1)] BOpen])
    then show ?thesis using i BOpen by (simp add: build_step_def Let_def pm_of_def)
  next
    case (BStore a loc)
    then show ?thesis using i by (auto simp: build_step_def Let_def split: sum.splits)
  next
    case (BSend r)
    have "length (errCh s) < n" using at i tally_less [of "bworkers s ! i" "bworkers s" "\<lambda>w. bpc w = BExit"] by (simp add: build_inv_at_def)
    then show ?thesis using i BSend by (simp add: build_step_def Let_def)
  qed (use i in simp)
  then show ?thesis by blast
qed

interpretation build_pool: worker_pool "build_step c n" "build_inv c rg n" "build_work c" build_finished for c n rg
  by unfold_locales (use build_step_ok build_progress in blast)+

lemma build_end:
  assumes "build_inv c rg n s" "build_finished s"
  shows "first_sent (errCh s) = None" "length (buckets s) = numMorsels c" "\<forall>m < numMorsels c. \<exists>loc. buckets s ! m = Some loc \<and> morsel_bucket c rg m loc"
proof -
  obtain j where ok: "build_ok c rg n" and at: "build_inv_at c rg n j s" using assms(1) by (auto simp: build_inv_def)
  note at' = at [unfolded build_inv_at_def]
  have "List.map_filter id (errCh s) = []" using at' by (auto simp: List.map_filter_def filter_empty_conv)
  then show "first_sent (errCh s) = None" by (simp add: first_sent_def)
  show "length (buckets s) = numMorsels c" using at' by (simp add: buckets_ok_def)
  have "bworkers s \<noteq> []" using at' ok by (auto simp: build_ok_def)
  then have "bleft (hd (bworkers s))" "hd (bworkers s) \<in> set (bworkers s)" using assms(2) by (simp_all add: build_finished_def)
  then have "btotal c \<le> bmorsel c * j" using at' unfolding pool_inv_def by blast
  then have j: "\<not> j < numMorsels c" using morsel_less [of c j] ok by (simp add: build_ok_def)
  have none: "\<not> on_morsel c m w" if "w \<in> set (bworkers s)" for m w using that assms(2) by (simp add: build_finished_def on_morsel_def)
  show "\<forall>m < numMorsels c. \<exists>loc. buckets s ! m = Some loc \<and> morsel_bucket c rg m loc"
  proof (intro allI impI)
    fix m assume m: "m < numMorsels c"
    then have "m < j" using j by simp
    then obtain loc where "buckets s ! m = Some loc" using at' m none by blast
    then show "\<exists>loc. buckets s ! m = Some loc \<and> morsel_bucket c rg m loc" using at' m by (auto simp: buckets_ok_def)
  qed
qed


section \<open>One row of the second pass\<close>

text \<open>Partition \<open>p\<close> owns the rows from \<open>poff bs p\<close> on; its \<open>i\<close>-th row is \<open>prow bs p i\<close>. After \<open>j\<close> rows its table represents \<open>pmap bs p j\<close>.\<close>

definition plen :: "morselBucket option list \<Rightarrow> nat \<Rightarrow> nat" where
  "plen bs p = length (part_list bs p)"

definition poff :: "morselBucket option list \<Rightarrow> nat \<Rightarrow> nat" where
  "poff bs p = sum_list (map (plen bs) [0..<p])"

definition prow :: "morselBucket option list \<Rightarrow> nat \<Rightarrow> nat \<Rightarrow> i32" where
  "prow bs p i = word_of_nat (poff bs p + i)"

definition pmap :: "morselBucket option list \<Rightarrow> nat \<Rightarrow> nat \<Rightarrow> i64 \<Rightarrow> i32 list" where
  "pmap bs p j k = map (prow bs p) (filter (\<lambda>i. krKey (snd (part_list bs p ! i)) = k) [0..<j])"

definition part_rep :: "morselBucket option list \<Rightarrow> nat \<Rightarrow> nat \<Rightarrow> joinHashTable \<Rightarrow> rowStore \<Rightarrow> bool" where
  "part_rep bs p j t s \<longleftrightarrow> rep_table t (rnext s) (pmap bs p j) \<and> (\<forall>i < j. stored_row s (prow bs p i) = stored_row (fst (part_list bs p ! i)) (krRow (snd (part_list bs p ! i))))"

definition parts_ok :: "build_conf \<Rightarrow> morselBucket option list \<Rightarrow> bool" where
  "parts_ok c bs \<longleftrightarrow> bbits c \<le> 12 \<and> poff bs (numParts c) \<le> maxBuildRows \<and>
     (\<forall>p < numParts c. \<forall>x \<in> set (part_list bs p). store_like (bschema c) (fst x) \<and> (\<exists>r < numRows (fst x). krRow (snd x) = word_of_nat r))"

definition final_store :: "build_conf \<Rightarrow> morselBucket option list \<Rightarrow> rowStore \<Rightarrow> bool" where
  "final_store c bs s \<longleftrightarrow> store_like (bschema c) s \<and> numRows s = poff bs (numParts c)"

lemma poff_le: "p \<le> q \<Longrightarrow> poff bs p \<le> poff bs q"
proof (induction q)
  case (Suc q)
  then show ?case by (cases "p = Suc q") (auto simp: poff_def)
qed (simp add: poff_def)

lemma poff_next: "p < q \<Longrightarrow> poff bs p + plen bs p \<le> poff bs q"
  using poff_le [of "Suc p" q bs] by (simp add: poff_def)

lemma prow_sint:
  assumes "parts_ok c bs" "p < numParts c" "i < plen bs p"
  shows "sint (prow bs p i) = int (poff bs p + i)" "poff bs p + i < poff bs (numParts c)"
proof -
  show lt: "poff bs p + i < poff bs (numParts c)" using poff_next [OF assms(2), of bs] assms(3) by simp
  show "sint (prow bs p i) = int (poff bs p + i)" unfolding prow_def by (rule sint_row) (use lt assms(1) in \<open>simp add: parts_ok_def\<close>)
qed

lemma prow_inj:
  assumes "parts_ok c bs" "p < numParts c" "i < plen bs p" "q < numParts c" "j < plen bs q" "prow bs p i = prow bs q j"
  shows "p = q \<and> i = j"
proof -
  have eq: "poff bs p + i = poff bs q + j" using prow_sint(1) [OF assms(1-3)] prow_sint(1) [OF assms(1,4,5)] assms(6) by simp
  then have "\<not> p < q" "\<not> q < p" using poff_next [of p q bs] poff_next [of q p bs] assms(3,5) by linarith+
  then show ?thesis using eq by simp
qed

lemma pmap_rows: "r \<in> set (pmap bs p j k) \<longleftrightarrow> (\<exists>i < j. r = prow bs p i \<and> krKey (snd (part_list bs p ! i)) = k)"
  by (auto simp: pmap_def)

lemma pmap_Suc: "pmap bs p (Suc j) = (pmap bs p j)(krKey (snd (part_list bs p ! j)) := pmap bs p j (krKey (snd (part_list bs p ! j))) @ [prow bs p j])"
  by (rule ext) (simp add: pmap_def)

lemma stored_row_next: "stored_row (s\<lparr>rnext := nx\<rparr>) = stored_row s"
proof -
  have "store_cell (s\<lparr>rnext := nx\<rparr>) = store_cell s" by (intro ext) (simp add: store_cell_def isNull_def value_at_def str_at_def cong: option.case_cong)
  then show ?thesis by (simp add: stored_row_def fun_eq_iff)
qed

lemma place_row_ok:
  assumes ok: "parts_ok c bs" and s: "final_store c bs s" and p: "p < numParts c" "j < plen bs p" and rep: "part_rep bs p j t s"
  obtains t' s' where "place_row t s (prow bs p j) (part_list bs p ! j) = Some (Inr (t', s'))" "final_store c bs s'" "part_rep bs p (Suc j) t' s'"
    "\<And>q l u. q < numParts c \<Longrightarrow> q \<noteq> p \<Longrightarrow> l \<le> plen bs q \<Longrightarrow> part_rep bs q l u s \<Longrightarrow> part_rep bs q l u s'"
proof -
  let ?x = "part_list bs p ! j" and ?r = "prow bs p j"
  note row = prow_sint [OF ok p]
  have like: "store_ok s" "of_schema (bschema c) s" "strWidth s = strWidth (newRowStore (bschema c) 0)" "numRows s = poff bs (numParts c)" using s by (simp_all add: final_store_def store_like_def)
  have "?x \<in> set (part_list bs p)" using p(2) by (simp add: plen_def)
  then obtain r where src: "store_like (bschema c) (fst ?x)" "r < numRows (fst ?x)" "krRow (snd ?x) = word_of_nat r" using ok p(1) by (auto simp: parts_ok_def)
  have srco: "store_ok (fst ?x)" "numCols (fst ?x) = numCols s" "strSlot (fst ?x) = strSlot s" "strWidth (fst ?x) = strWidth s"
    using src(1) like by (simp_all add: store_like_def of_schema_def)
  have sr: "sint (krRow (snd ?x)) = int r" unfolding src(3) by (rule sint_row) (use src(2) srco(1) in \<open>simp add: store_ok_def\<close>)
  have d: "poff bs p + j < numRows s" using row(2) like(4) by simp
  obtain s1 where s1: "setFrom s (poff bs p + j) (fst ?x) r = Inr s1" "store_ok s1" "numRows s1 = numRows s" "numCols s1 = numCols s" "strSlot s1 = strSlot s" "strWidth s1 = strWidth s" "rnext s1 = rnext s"
    "stored_row s1 (word_of_nat (poff bs p + j)) = stored_row (fst ?x) (word_of_nat r)"
    "\<And>d'. d' < numRows s \<Longrightarrow> d' \<noteq> poff bs p + j \<Longrightarrow> stored_row s1 (word_of_nat d') = stored_row s (word_of_nat d')"
    by (rule setFrom_ok [OF like(1) srco d src(2)]) blast
  have set_row: "set_row s ?r (fst ?x) (krRow (snd ?x)) = Inr s1" using s1(1) row(1) sr by (simp add: set_row_def del: of_nat_add)
  have rt: "rep_table t (rnext s1) (pmap bs p j)" using rep s1(7) by (simp add: part_rep_def)
  have rin: "row_in (rnext s1) ?r" using row(1) d s1(2,3) by (simp add: row_in_def store_ok_def)
  have fresh: "?r \<notin> set (pmap bs p j k)" for k
  proof
    assume "?r \<in> set (pmap bs p j k)"
    then obtain i where i: "i < j" "?r = prow bs p i" unfolding pmap_rows by blast
    have "i < plen bs p" using i(1) p(2) by simp
    then show False using prow_inj [OF ok p p(1) _ i(2)] i(1) by simp
  qed
  obtain t' nx where t': "insert_row (krKey (snd ?x)) ?r (t, rnext s1) = Some (Inr (t', nx))" "rep_table t' nx (pmap bs p (Suc j))" "snd nx = snd (rnext s1)" "length (fst nx) = length (fst (rnext s1))"
    "\<And>r'. r' \<noteq> ?r \<Longrightarrow> r' \<notin> set (pmap bs p j (krKey (snd ?x))) \<Longrightarrow> s_idx32 nx r' = s_idx32 (rnext s1) r'"
    using insert_row_rep [OF rt rin fresh, of "krKey (snd ?x)"] unfolding pmap_Suc by blast
  let ?s = "s1\<lparr>rnext := nx\<rparr>"
  have fin: "final_store c bs ?s" using s1(2-6) t'(3,4) like by (simp add: final_store_def store_like_def of_schema_def store_ok_def)
  have old: "stored_row ?s (prow bs q i) = stored_row s (prow bs q i)" if "q < numParts c" "i < plen bs q" "(q, i) \<noteq> (p, j)" for q i
  proof -
    have "poff bs q + i \<noteq> poff bs p + j" using prow_inj [OF ok that(1,2) p] that(3) unfolding prow_def by (metis prod.inject)
    moreover have "poff bs q + i < numRows s" using prow_sint(2) [OF ok that(1,2)] like(4) by simp
    ultimately show ?thesis unfolding stored_row_next prow_def by (intro s1(9))
  qed
  have "part_rep bs p (Suc j) t' ?s"
    using t'(2) rep old [OF p(1)] p(2) s1(8) [folded prow_def] src(3) unfolding part_rep_def stored_row_next less_Suc_eq by auto
  moreover have "part_rep bs q l u ?s" if q: "q < numParts c" "q \<noteq> p" "l \<le> plen bs q" and rq: "part_rep bs q l u s" for q l u
  proof -
    have "rep_table u nx (pmap bs q l)"
    proof (rule rep_table_frame)
      show "rep_table u (rnext s) (pmap bs q l)" using rq by (simp add: part_rep_def)
      show "slice_ok nx" "snd nx \<le> maxBuildRows" using t'(2) by (simp_all add: rep_table_def)
      fix k r' assume "r' \<in> set (pmap bs q l k)"
      then obtain i where "i < l" and r': "r' = prow bs q i" unfolding pmap_rows by blast
      then have i: "i < plen bs q" using q(3) by simp
      have "prow bs q i \<noteq> prow bs p i'" if "i' < plen bs p" for i' using prow_inj [OF ok q(1) i p(1) that] q(2) by blast
      then have "r' \<noteq> ?r" "r' \<notin> set (pmap bs p j (krKey (snd ?x)))" unfolding pmap_rows r' using p(2) by (meson less_trans)+
      then show "s_idx32 nx r' = s_idx32 (rnext s) r'" using t'(5) s1(7) by simp
    qed
    moreover have "stored_row ?s (prow bs q i) = stored_row (fst (part_list bs q ! i)) (krRow (snd (part_list bs q ! i)))" if "i < l" for i
      using old [OF q(1), of i] that q(2,3) rq by (auto simp: part_rep_def)
    ultimately show ?thesis by (simp add: part_rep_def)
  qed
  moreover have "place_row t s ?r ?x = Some (Inr (t', ?s))" using set_row t'(1) by (simp add: place_row_def)
  ultimately show thesis using that fin by blast
qed


section \<open>The second pass\<close>

definition asm_counts :: "build_conf \<Rightarrow> morselBucket option list \<Rightarrow> nat list" where
  "asm_counts c bs = map (part_count bs) [0..<numParts c]"

lemma part_count_plen: "part_count bs p = plen bs p"
  unfolding part_count_def plen_def part_list_def by (induction bs) (simp_all split: option.splits)

lemma part_offsets_nth: "p < length ns \<Longrightarrow> part_offsets a ns ! p = a + sum_list (take p ns)"
proof (induction ns arbitrary: a p)
  case (Cons n ns)
  then show ?case by (cases p) auto
qed simp

lemma asm_counts_nth:
  assumes "p < numParts c"
  shows "asm_counts c bs ! p = plen bs p" "part_offsets 0 (asm_counts c bs) ! p = poff bs p"
proof -
  show "asm_counts c bs ! p = plen bs p" using assms by (simp add: asm_counts_def part_count_plen)
  have "map (part_count bs) = map (plen bs)" by (rule arg_cong [of _ _ map]) (simp add: fun_eq_iff part_count_plen)
  moreover have "take p [0..<numParts c] = [0..<p]" using assms by simp
  ultimately show "part_offsets 0 (asm_counts c bs) ! p = poff bs p" using assms by (simp add: part_offsets_nth asm_counts_def poff_def take_map)
qed

lemma asm_counts_sum: "sum_list (asm_counts c bs) = poff bs (numParts c)"
proof -
  have "map (part_count bs) [0..<numParts c] = map (plen bs) [0..<numParts c]" by (rule map_cong) (simp_all add: part_count_plen)
  then show ?thesis by (simp only: asm_counts_def poff_def)
qed

definition on_part :: "nat \<Rightarrow> asm_pc \<Rightarrow> bool" where
  "on_part p pc \<longleftrightarrow> (case pc of PAssemble q t dst xs \<Rightarrow> q = p | _ \<Rightarrow> False)"

definition pleft :: "asm_pc \<Rightarrow> bool" where
  "pleft pc \<longleftrightarrow> (case pc of PSend \<Rightarrow> True | PExit \<Rightarrow> True | _ \<Rightarrow> False)"

definition asm_worker_ok :: "build_conf \<Rightarrow> morselBucket option list \<Rightarrow> nat \<Rightarrow> rowStore \<Rightarrow> joinHashTable option list \<Rightarrow> asm_pc \<Rightarrow> bool" where
  "asm_worker_ok c bs j s ts pc \<longleftrightarrow> (case pc of
     PAssemble p t dst xs \<Rightarrow> p < numParts c \<and> p < j \<and> ts ! p = None \<and> (\<exists>d \<le> plen bs p. dst = prow bs p d \<and> xs = drop d (part_list bs p) \<and> part_rep bs p d t s)
   | PFail e \<Rightarrow> False
   | _ \<Rightarrow> True)"

definition tables_ok :: "build_conf \<Rightarrow> morselBucket option list \<Rightarrow> nat \<Rightarrow> rowStore \<Rightarrow> joinHashTable option list \<Rightarrow> bool" where
  "tables_ok c bs j s ts \<longleftrightarrow> length ts = numParts c \<and> (\<forall>p < numParts c. \<forall>t. ts ! p = Some t \<longrightarrow> p < j \<and> part_rep bs p (plen bs p) t s)"

definition asm_inv_at :: "build_conf \<Rightarrow> morselBucket option list \<Rightarrow> nat \<Rightarrow> nat \<Rightarrow> asm_state \<Rightarrow> bool" where
  "asm_inv_at c bs n j s \<longleftrightarrow> counter_at (numParts c) 1 j (pqueue s) \<and> pool_inv (numParts c) 1 j pleft (pworkers s) \<and> length (pworkers s) = n \<and> final_store c bs (pstore s) \<and>
     tables_ok c bs j (pstore s) (ptables s) \<and> (\<forall>i < n. asm_worker_ok c bs j (pstore s) (ptables s) (pworkers s ! i)) \<and>
     (\<forall>i < n. \<forall>l < n. \<forall>p. on_part p (pworkers s ! i) \<longrightarrow> on_part p (pworkers s ! l) \<longrightarrow> i = l) \<and>
     (\<forall>p < numParts c. p < j \<longrightarrow> ptables s ! p \<noteq> None \<or> (\<exists>i < n. on_part p (pworkers s ! i))) \<and> pdone s = tally (\<lambda>pc. pc = PExit) (pworkers s)"

definition asm_inv :: "build_conf \<Rightarrow> morselBucket option list \<Rightarrow> nat \<Rightarrow> asm_state \<Rightarrow> bool" where
  "asm_inv c bs n s \<longleftrightarrow> parts_ok c bs \<and> 0 < n \<and> numParts c + (n + 1) < 2 ^ 63 \<and> (\<exists>j. asm_inv_at c bs n j s)"

definition pweight :: "asm_pc \<Rightarrow> nat" where
  "pweight pc = (case pc of PExit \<Rightarrow> 0 | PFail _ \<Rightarrow> 0 | PSend \<Rightarrow> 1 | PClaim \<Rightarrow> 2 | PAssemble p t dst xs \<Rightarrow> 3 + length xs)"

definition asm_work :: "build_conf \<Rightarrow> morselBucket option list \<Rightarrow> asm_state \<Rightarrow> nat" where
  "asm_work c bs s = (poff bs (numParts c) + 3) * (numParts c - unat (qnext (pqueue s))) + sum_list (map pweight (pworkers s))"

definition asm_finished :: "asm_state \<Rightarrow> bool" where
  "asm_finished s \<longleftrightarrow> (\<forall>pc \<in> set (pworkers s). pc = PExit)"

lemma asm_init_inv:
  assumes "parts_ok c bs" "0 < n" "numParts c + (n + 1) < 2 ^ 63"
  shows "asm_inv c bs n (asm_init c (poff bs (numParts c)) n)"
proof -
  have t: "tally P (replicate n PClaim) = 0" if "\<not> P PClaim" for P using that by (simp add: tally_def)
  have "poff bs (numParts c) \<le> maxBuildRows" using assms(1) by (simp add: parts_ok_def)
  from newSizedRowStore_ok [OF this, of "bschema c"] have "final_store c bs (newSizedRowStore (bschema c) (poff bs (numParts c)))" by (simp add: final_store_def store_like_def)
  then have "asm_inv_at c bs n 0 (asm_init c (poff bs (numParts c)) n)"
    using t by (auto simp: asm_inv_at_def asm_init_def counter_at_def pool_inv_def pleft_def tables_ok_def asm_worker_ok_def on_part_def)
  then show ?thesis using assms by (auto simp: asm_inv_def)
qed

lemma asm_step_cases:
  assumes "asm_step bs counts offsets n i s = Some t"
  obtains (claim_none) q where "i < length (pworkers s)" "pworkers s ! i = PClaim" "claim 1 (pqueue s) = (None, q)" "t = s\<lparr>pworkers := (pworkers s)[i := PSend], pqueue := q\<rparr>"
  | (claim_some) p b q where "i < length (pworkers s)" "pworkers s ! i = PClaim" "claim 1 (pqueue s) = (Some (p, b), q)"
      "t = s\<lparr>pworkers := (pworkers s)[i := PAssemble (unat p) (newJoinHashTable (int (counts ! unat p))) (word_of_nat (offsets ! unat p)) (part_list bs (unat p))], pqueue := q\<rparr>"
  | (publish) p u dst where "i < length (pworkers s)" "pworkers s ! i = PAssemble p u dst []" "t = s\<lparr>pworkers := (pworkers s)[i := PClaim], ptables := (ptables s)[p := Some u]\<rparr>"
  | (fail) p u dst x xs e where "i < length (pworkers s)" "pworkers s ! i = PAssemble p u dst (x # xs)" "place_row u (pstore s) dst x = Some (Inl e)"
      "t = s\<lparr>pworkers := (pworkers s)[i := PFail e]\<rparr>"
  | (place) p u dst x xs u' store where "i < length (pworkers s)" "pworkers s ! i = PAssemble p u dst (x # xs)" "place_row u (pstore s) dst x = Some (Inr (u', store))"
      "t = s\<lparr>pworkers := (pworkers s)[i := PAssemble p u' (dst + 1) xs], pstore := store\<rparr>"
  | (send) "i < length (pworkers s)" "pworkers s ! i = PSend" "pdone s < n" "t = s\<lparr>pworkers := (pworkers s)[i := PExit], pdone := pdone s + 1\<rparr>"
proof -
  have i: "i < length (pworkers s)" using assms by (auto simp: asm_step_def split: if_splits)
  show thesis
  proof (cases "pworkers s ! i")
    case PClaim
    then show thesis using assms i claim_none claim_some by (auto simp: asm_step_def Let_def split: prod.splits option.splits)
  next
    case (PAssemble p u dst xs)
    show thesis
    proof (cases xs)
      case Nil
      then show thesis using assms i PAssemble publish by (auto simp: asm_step_def Let_def)
    next
      case (Cons x ys)
      note pc = PAssemble [unfolded Cons]
      obtain r where r: "place_row u (pstore s) dst x = Some r" using assms i pc by (auto simp: asm_step_def Let_def)
      show thesis
      proof (cases r)
        case (Inl e)
        then show thesis using assms i pc r fail [OF i pc] by (auto simp: asm_step_def Let_def)
      next
        case (Inr y)
        then show thesis using assms i pc r place [OF i pc] by (cases y) (auto simp: asm_step_def Let_def)
      qed
    qed
  next
    case PSend
    then show thesis using assms i send by (auto simp: asm_step_def Let_def split: if_splits)
  qed (use assms i in \<open>simp_all add: asm_step_def Let_def\<close>)
qed

lemma pleft_simps [simp]: "\<not> pleft PClaim" "\<not> pleft (PAssemble p t dst xs)" "pleft PSend" "pleft PExit"
  by (simp_all add: pleft_def)

lemma on_part_simps [simp]: "\<not> on_part p PClaim" "on_part p (PAssemble q t dst xs) \<longleftrightarrow> q = p" "\<not> on_part p PSend" "\<not> on_part p PExit"
  by (simp_all add: on_part_def)

lemma pweight_simps [simp]: "pweight PClaim = 2" "pweight (PAssemble p t dst xs) = 3 + length xs" "pweight PSend = 1" "pweight PExit = 0"
  by (simp_all add: pweight_def)

lemma asm_work_worker: "i < length (pworkers s) \<Longrightarrow> pqueue t = pqueue s \<Longrightarrow> pworkers t = (pworkers s)[i := pc] \<Longrightarrow> pweight pc < pweight (pworkers s ! i) \<Longrightarrow> asm_work c bs t < asm_work c bs s"
  using sum_list_update [of i "pworkers s" pweight pc] by (simp add: asm_work_def)

lemma asm_tally:
  assumes "asm_inv_at c bs n j s" "i < length (pworkers s)" "pworkers s ! i \<noteq> PExit" "pc \<noteq> PExit"
  shows "pdone s = tally (\<lambda>pc. pc = PExit) ((pworkers s)[i := pc])"
  using assms tally_update [OF assms(2), of "\<lambda>pc. pc = PExit" pc] by (simp add: asm_inv_at_def)

lemma asm_worker_mono: "asm_worker_ok c bs j s ts pc \<Longrightarrow> j \<le> j' \<Longrightarrow> asm_worker_ok c bs j' s ts pc"
  by (cases pc) (auto simp: asm_worker_ok_def)

lemma asm_workers_update:
  assumes "\<forall>l < n. asm_worker_ok c bs j s ts (ws ! l)" "asm_worker_ok c bs j' s' ts' pc" "length ws = n"
    "\<And>l. l < n \<Longrightarrow> l \<noteq> i \<Longrightarrow> asm_worker_ok c bs j s ts (ws ! l) \<Longrightarrow> asm_worker_ok c bs j' s' ts' (ws ! l)"
  shows "\<forall>l < n. asm_worker_ok c bs j' s' ts' (ws[i := pc] ! l)"
proof (intro allI impI)
  fix l assume "l < n"
  then show "asm_worker_ok c bs j' s' ts' (ws[i := pc] ! l)" using assms by (cases "l = i") simp_all
qed

lemma on_part_update: "l < n \<Longrightarrow> on_part p (ws ! l) \<Longrightarrow> \<not> on_part p (ws ! i) \<Longrightarrow> \<exists>l < n. on_part p (ws[i := pc] ! l)"
  by (metis nth_list_update_neq)

lemma on_part_unique:
  assumes inj: "\<forall>i < n. \<forall>l < n. \<forall>p. on_part p (ws ! i) \<longrightarrow> on_part p (ws ! l) \<longrightarrow> i = l" and "length ws = n" "i < n"
    and pc: "\<And>p l. on_part p pc \<Longrightarrow> l < n \<Longrightarrow> on_part p (ws ! l) \<Longrightarrow> l = i"
  shows "\<forall>l < n. \<forall>l' < n. \<forall>p. on_part p (ws[i := pc] ! l) \<longrightarrow> on_part p (ws[i := pc] ! l') \<longrightarrow> l = l'"
proof (intro allI impI)
  fix l l' p assume l: "l < n" "l' < n" "on_part p (ws[i := pc] ! l)" "on_part p (ws[i := pc] ! l')"
  show "l = l'"
  proof (cases "l = i"; cases "l' = i")
    assume "l = i" "l' \<noteq> i"
    then show ?thesis using pc [of p l'] l assms(2) by simp
  next
    assume "l \<noteq> i" "l' = i"
    then show ?thesis using pc [of p l] l assms(2) by simp
  next
    assume "l \<noteq> i" "l' \<noteq> i"
    then have "on_part p (ws ! l)" "on_part p (ws ! l')" using l by simp_all
    then show ?thesis using inj l(1,2) by blast
  qed simp
qed

lemma asm_claim_step:
  assumes ok: "parts_ok c bs" "numParts c + (n + 1) < 2 ^ 63" and inv: "asm_inv_at c bs n j s" and i: "i < length (pworkers s)" "pworkers s ! i = PClaim" and cl: "claim 1 (pqueue s) = (r, q)"
    and t: "t = s\<lparr>pworkers := (pworkers s)[i := (case r of None \<Rightarrow> PSend | Some (p, b) \<Rightarrow>
      PAssemble (unat p) (newJoinHashTable (int (asm_counts c bs ! unat p))) (word_of_nat (part_offsets 0 (asm_counts c bs) ! unat p)) (part_list bs (unat p)))], pqueue := q\<rparr>"
  shows "asm_inv_at c bs n (Suc j) t \<and> asm_work c bs t < asm_work c bs s"
proof -
  note inv' = inv [unfolded asm_inv_at_def]
  have len: "numParts c + 1 * (length (pworkers s) + 1) < 2 ^ 63" and n: "i < n" using ok(2) inv' i(1) by simp_all
  have ws: "\<forall>l < n. asm_worker_ok c bs j (pstore s) (ptables s) (pworkers s ! l)" "length (pworkers s) = n" using inv' by blast+
  have nl: "\<not> pleft (pworkers s ! i)" using i(2) by simp
  obtain q' where q': "claim (word_of_nat 1) (pqueue s) = (if numParts c \<le> 1 * j then None else Some (word_of_nat (1 * j), word_of_nat (min (1 * j + 1) (numParts c))), q')" "counter_at (numParts c) 1 (Suc j) q'"
    using claim_counter [of "numParts c" 1 j "pqueue s" pleft "pworkers s" i] inv' len i(1) nl by blast
  then have q: "q = q'" and r: "r = (if numParts c \<le> j then None else Some (word_of_nat j, word_of_nat (min (j + 1) (numParts c))))" using cl by simp_all
  have "pool_inv (numParts c) 1 j pleft (pworkers s)" using inv' by blast
  from pool_bound(2) [of _ _ _ pleft, OF this len i(1) nl] have b: "j + 1 < 2 ^ 63" by simp
  have u: "unat (word_of_nat j :: i64) = j" using b by (intro unat_small) simp
  have u1: "unat (word_of_nat (j + 1) :: i64) = j + 1" by (rule unat_small [OF b])
  have qn: "unat (qnext (pqueue s)) = j" "unat (qnext q) = j + 1" using inv' q'(2) q u u1 by (simp_all add: counter_at_def)
  show ?thesis
  proof (cases "numParts c \<le> j")
    case True
    then have t': "t = s\<lparr>pworkers := (pworkers s)[i := PSend], pqueue := q\<rparr>" using t r by simp
    have "pool_inv (numParts c) 1 (Suc j) pleft ((pworkers s)[i := PSend])" using inv' i nl True by (intro pool_leave) simp_all
    moreover have "tables_ok c bs (Suc j) (pstore s) (ptables s)" using inv' by (auto simp: tables_ok_def)
    moreover have "\<forall>l < n. asm_worker_ok c bs (Suc j) (pstore s) (ptables s) ((pworkers s)[i := PSend] ! l)"
      by (rule asm_workers_update [OF ws(1) _ ws(2)]) (simp add: asm_worker_ok_def, erule asm_worker_mono, simp)
    moreover have "\<exists>l < n. on_part p ((pworkers s)[i := PSend] ! l)" if "l < n" "on_part p (pworkers s ! l)" for p l
      by (rule on_part_update [OF that]) (simp add: i(2))
    moreover have "\<forall>l < n. \<forall>l' < n. \<forall>p. on_part p ((pworkers s)[i := PSend] ! l) \<longrightarrow> on_part p ((pworkers s)[i := PSend] ! l') \<longrightarrow> l = l'"
      by (rule on_part_unique) (use inv' n in simp_all)
    ultimately have "asm_inv_at c bs n (Suc j) t" using inv' q'(2) q asm_tally [OF inv i(1), of PSend] i(2) True unfolding asm_inv_at_def t' by auto
    moreover have "asm_work c bs t < asm_work c bs s" using sum_list_update [OF i(1), of pweight PSend] qn True i(2) by (simp add: asm_work_def t')
    ultimately show ?thesis by blast
  next
    case False
    let ?pc = "PAssemble j (newJoinHashTable (int (plen bs j))) (prow bs j 0) (part_list bs j)"
    have j: "j < numParts c" using False by simp
    have t': "t = s\<lparr>pworkers := (pworkers s)[i := ?pc], pqueue := q\<rparr>" using t r j u asm_counts_nth [OF j, of bs] by (simp add: prow_def)
    have le: "plen bs j \<le> poff bs (numParts c)" using poff_next [OF j, of bs] by simp
    then have "int (plen bs j) \<le> 2 ^ 31" using ok(1) by (simp add: parts_ok_def maxBuildRows_def)
    moreover have "slice_ok (rnext (pstore s)) \<and> snd (rnext (pstore s)) \<le> maxBuildRows" using inv' by (intro store_ok_next) (simp add: final_store_def store_like_def)
    ultimately have "rep_table (newJoinHashTable (int (plen bs j))) (rnext (pstore s)) (\<lambda>_. [])" by (intro newJoinHashTable_rep) simp_all
    then have rep: "part_rep bs j 0 (newJoinHashTable (int (plen bs j))) (pstore s)" by (simp add: part_rep_def pmap_def [abs_def])
    have none: "ptables s ! j = None" using inv' j by (auto simp: tables_ok_def)
    have fresh: "\<not> on_part j (pworkers s ! l)" if "l < n" for l
    proof
      have w: "asm_worker_ok c bs j (pstore s) (ptables s) (pworkers s ! l)" using inv' that by blast
      assume "on_part j (pworkers s ! l)"
      then show False using w by (cases "pworkers s ! l") (simp_all add: asm_worker_ok_def on_part_def)
    qed
    have "pool_inv (numParts c) 1 (Suc j) pleft ((pworkers s)[i := ?pc])" using inv' i nl j by (intro pool_claimed) simp_all
    moreover have "tables_ok c bs (Suc j) (pstore s) (ptables s)" using inv' by (auto simp: tables_ok_def)
    moreover have new: "asm_worker_ok c bs (Suc j) (pstore s) (ptables s) ?pc" using none rep j by (auto simp: asm_worker_ok_def)
    then have "\<forall>l < n. asm_worker_ok c bs (Suc j) (pstore s) (ptables s) ((pworkers s)[i := ?pc] ! l)"
      by (rule asm_workers_update [OF ws(1) _ ws(2)]) (erule asm_worker_mono, simp)
    moreover have "\<exists>l < n. on_part p ((pworkers s)[i := ?pc] ! l)" if "l < n" "on_part p (pworkers s ! l)" for p l
      by (rule on_part_update [OF that]) (simp add: i(2))
    moreover have "\<exists>l < n. on_part j ((pworkers s)[i := ?pc] ! l)" using i(1) n by (intro exI [of _ i]) simp
    moreover have "\<forall>l < n. \<forall>l' < n. \<forall>p. on_part p ((pworkers s)[i := ?pc] ! l) \<longrightarrow> on_part p ((pworkers s)[i := ?pc] ! l') \<longrightarrow> l = l'"
      by (rule on_part_unique) (use inv' n fresh in auto)
    ultimately have "asm_inv_at c bs n (Suc j) t" using inv' q'(2) q asm_tally [OF inv i(1), of ?pc] i(2) unfolding asm_inv_at_def t' by (auto simp: less_Suc_eq)
    moreover have "(poff bs (numParts c) + 3) * (numParts c - j) = (poff bs (numParts c) + 3) * (numParts c - (j + 1)) + (poff bs (numParts c) + 3)"
      using j by (metis Suc_diff_Suc Suc_eq_plus1 add.commute mult_Suc_right)
    then have "asm_work c bs t < asm_work c bs s" using sum_list_update [OF i(1), of pweight ?pc] qn i(2) le by (simp add: asm_work_def t' plen_def)
    ultimately show ?thesis by blast
  qed
qed

lemma asm_assembling:
  assumes "asm_inv_at c bs n j s" "i < n" "pworkers s ! i = PAssemble p u dst xs"
  obtains d where "p < numParts c" "p < j" "ptables s ! p = None" "d \<le> plen bs p" "dst = prow bs p d" "xs = drop d (part_list bs p)" "part_rep bs p d u (pstore s)"
proof -
  have "asm_worker_ok c bs j (pstore s) (ptables s) (pworkers s ! i)" using assms(1,2) by (simp add: asm_inv_at_def)
  then show thesis using that unfolding assms(3) by (auto simp: asm_worker_ok_def)
qed

lemma asm_publish_step:
  assumes inv: "asm_inv_at c bs n j s" and i: "i < length (pworkers s)" "pworkers s ! i = PAssemble p u dst []"
  shows "asm_inv_at c bs n j (s\<lparr>pworkers := (pworkers s)[i := PClaim], ptables := (ptables s)[p := Some u]\<rparr>)"
proof -
  note inv' = inv [unfolded asm_inv_at_def]
  have n: "i < n" and ws: "\<forall>l < n. asm_worker_ok c bs j (pstore s) (ptables s) (pworkers s ! l)" "length (pworkers s) = n" using inv' i(1) by auto
  obtain d where d: "p < numParts c" "p < j" "ptables s ! p = None" "d \<le> plen bs p" "[] = drop d (part_list bs p)" "part_rep bs p d u (pstore s)"
    by (rule asm_assembling [OF inv n i(2)])
  have "d = plen bs p" using d(4,5) by (simp add: plen_def)
  then have "tables_ok c bs j (pstore s) ((ptables s)[p := Some u])" using inv' d(1,2,6) by (auto simp: tables_ok_def nth_list_update)
  moreover have "asm_worker_ok c bs j (pstore s) ((ptables s)[p := Some u]) (pworkers s ! l)" if l: "l < n" "l \<noteq> i" "asm_worker_ok c bs j (pstore s) (ptables s) (pworkers s ! l)" for l
  proof -
    have "on_part p (pworkers s ! i)" using i(2) by simp
    then have "\<not> on_part p (pworkers s ! l)" using inv' l(1,2) n by blast
    then show ?thesis using l(3) by (cases "pworkers s ! l") (simp_all add: asm_worker_ok_def)
  qed
  then have "\<forall>l < n. asm_worker_ok c bs j (pstore s) ((ptables s)[p := Some u]) ((pworkers s)[i := PClaim] ! l)"
    by (intro asm_workers_update [OF ws(1) _ ws(2)]) (simp_all add: asm_worker_ok_def [of _ _ _ _ _ PClaim])
  moreover have "\<forall>l < n. \<forall>l' < n. \<forall>p. on_part p ((pworkers s)[i := PClaim] ! l) \<longrightarrow> on_part p ((pworkers s)[i := PClaim] ! l') \<longrightarrow> l = l'"
    by (rule on_part_unique) (use inv' n in simp_all)
  moreover have "(ptables s)[p := Some u] ! q \<noteq> None \<or> (\<exists>l < n. on_part q ((pworkers s)[i := PClaim] ! l))" if q: "q < numParts c" "q < j" for q
  proof (cases "q = p")
    case True
    then show ?thesis using inv' q(1) by (simp add: tables_ok_def)
  next
    case False
    consider "ptables s ! q \<noteq> None" | l where "l < n" "on_part q (pworkers s ! l)" using inv' q by blast
    then show ?thesis
    proof cases
      case 1
      then show ?thesis using False by simp
    next
      case (2 l)
      then show ?thesis using on_part_update [OF 2, of i PClaim] i(2) False by simp
    qed
  qed
  moreover have "pool_inv (numParts c) 1 j pleft ((pworkers s)[i := PClaim])" using inv' i by (intro pool_same) simp_all
  ultimately show ?thesis using inv' asm_tally [OF inv i(1), of PClaim] i(2) unfolding asm_inv_at_def by simp
qed

lemma asm_place_row:
  assumes ok: "parts_ok c bs" and inv: "asm_inv_at c bs n j s" and i: "i < length (pworkers s)" "pworkers s ! i = PAssemble p u dst (x # xs)"
  obtains u' store where "place_row u (pstore s) dst x = Some (Inr (u', store))" "asm_inv_at c bs n j (s\<lparr>pworkers := (pworkers s)[i := PAssemble p u' (dst + 1) xs], pstore := store\<rparr>)"
proof -
  note inv' = inv [unfolded asm_inv_at_def]
  have n: "i < n" and ws: "\<forall>l < n. asm_worker_ok c bs j (pstore s) (ptables s) (pworkers s ! l)" "length (pworkers s) = n" using inv' i(1) by auto
  obtain d where d: "p < numParts c" "p < j" "ptables s ! p = None" "d \<le> plen bs p" "dst = prow bs p d" "x # xs = drop d (part_list bs p)" "part_rep bs p d u (pstore s)"
    by (rule asm_assembling [OF inv n i(2)])
  have "d < plen bs p" using d(4,6) by (cases "d = plen bs p") (simp_all add: plen_def)
  then have x: "x = part_list bs p ! d" "xs = drop (Suc d) (part_list bs p)" using d(6) by (simp_all add: plen_def Cons_nth_drop_Suc [symmetric])
  have fs: "final_store c bs (pstore s)" using inv' by blast
  obtain u' store where pl: "place_row u (pstore s) (prow bs p d) (part_list bs p ! d) = Some (Inr (u', store))" "final_store c bs store" "part_rep bs p (Suc d) u' store"
    "\<And>q l v. q < numParts c \<Longrightarrow> q \<noteq> p \<Longrightarrow> l \<le> plen bs q \<Longrightarrow> part_rep bs q l v (pstore s) \<Longrightarrow> part_rep bs q l v store"
    using place_row_ok [OF ok fs d(1) \<open>d < plen bs p\<close> d(7)] by blast
  let ?pc = "PAssemble p u' (dst + 1) xs"
  have tables: "tables_ok c bs j store (ptables s)"
  proof -
    have "part_rep bs q (plen bs q) v store" if "q < numParts c" "ptables s ! q = Some v" for q v
      using that inv' d(3) by (intro pl(4)) (auto simp: tables_ok_def)
    then show ?thesis using inv' by (auto simp: tables_ok_def)
  qed
  have "asm_worker_ok c bs j store (ptables s) (pworkers s ! l)" if l: "l < n" "l \<noteq> i" "asm_worker_ok c bs j (pstore s) (ptables s) (pworkers s ! l)" for l
  proof (cases "pworkers s ! l")
    case (PAssemble q v dst' ys)
    have "on_part p (pworkers s ! i)" using i(2) by simp
    then have "\<not> on_part p (pworkers s ! l)" using inv' l(1,2) n by blast
    then have "q \<noteq> p" using PAssemble by simp
    then show ?thesis using l(3) pl(4) [of q _ v] unfolding PAssemble asm_worker_ok_def by auto
  qed (use l(3) in \<open>simp_all add: asm_worker_ok_def\<close>)
  moreover have "dst + 1 = prow bs p (Suc d)" using d(5) by (simp add: prow_def add.commute)
  then have "asm_worker_ok c bs j store (ptables s) ?pc" using d(1-3) pl(3) x(2) \<open>d < plen bs p\<close> unfolding asm_worker_ok_def by (auto intro!: exI [of _ "Suc d"])
  ultimately have "\<forall>l < n. asm_worker_ok c bs j store (ptables s) ((pworkers s)[i := ?pc] ! l)" by (intro asm_workers_update [OF ws(1) _ ws(2)]) simp_all
  moreover have "\<forall>l < n. \<forall>l' < n. \<forall>p. on_part p ((pworkers s)[i := ?pc] ! l) \<longrightarrow> on_part p ((pworkers s)[i := ?pc] ! l') \<longrightarrow> l = l'"
  proof (rule on_part_unique)
    fix q l assume "on_part q ?pc" "l < n" "on_part q (pworkers s ! l)"
    moreover from this have "on_part q (pworkers s ! i)" using i(2) by simp
    ultimately show "l = i" using inv' n by blast
  qed (use inv' n in simp_all)
  moreover have "\<exists>l < n. on_part q ((pworkers s)[i := ?pc] ! l)" if q: "l < n" "on_part q (pworkers s ! l)" for q l
    using on_part_update [OF q, of i ?pc] i n by (cases "q = p") (auto intro!: exI [of _ i])
  moreover have "pool_inv (numParts c) 1 j pleft ((pworkers s)[i := ?pc])" using inv' i by (intro pool_same) simp_all
  ultimately have "asm_inv_at c bs n j (s\<lparr>pworkers := (pworkers s)[i := ?pc], pstore := store\<rparr>)"
    using inv' tables pl(2) asm_tally [OF inv i(1), of ?pc] i(2) unfolding asm_inv_at_def by simp blast
  then show thesis using that pl(1) d(5) x(1) by blast
qed

definition asm_next :: "build_conf \<Rightarrow> morselBucket option list \<Rightarrow> nat \<Rightarrow> nat \<Rightarrow> asm_state \<Rightarrow> asm_state option" where
  "asm_next c bs n = asm_step bs (asm_counts c bs) (part_offsets 0 (asm_counts c bs)) n"

lemma asm_step_ok:
  assumes inv: "asm_inv c bs n s" and step: "asm_next c bs n i s = Some t"
  shows "asm_inv c bs n t \<and> asm_work c bs t < asm_work c bs s"
proof -
  obtain j where ok: "parts_ok c bs" "0 < n" "numParts c + (n + 1) < 2 ^ 63" and at: "asm_inv_at c bs n j s" using inv by (auto simp: asm_inv_def)
  from step [unfolded asm_next_def] have "\<exists>j. asm_inv_at c bs n j t \<and> asm_work c bs t < asm_work c bs s"
  proof (cases rule: asm_step_cases)
    case (claim_none q)
    then show ?thesis using asm_claim_step [OF ok(1,3) at claim_none(1-3), of t] by auto
  next
    case (claim_some p b q)
    then show ?thesis using asm_claim_step [OF ok(1,3) at claim_some(1-3), of t] by auto
  next
    case (publish p u dst)
    have "asm_work c bs t < asm_work c bs s" by (rule asm_work_worker [OF publish(1), of t PClaim]) (use publish in simp_all)
    then show ?thesis using asm_publish_step [OF at publish(1,2)] publish(3) by blast
  next
    case (fail p u dst x xs e)
    obtain u' store where "place_row u (pstore s) dst x = Some (Inr (u', store))" using asm_place_row [OF ok(1) at fail(1,2)] by blast
    then show ?thesis using fail(3) by simp
  next
    case (place p u dst x xs u' store)
    have "asm_work c bs t < asm_work c bs s" by (rule asm_work_worker [OF place(1), of t "PAssemble p u' (dst + 1) xs"]) (use place in simp_all)
    moreover have "asm_inv_at c bs n j t"
    proof -
      obtain v st where "place_row u (pstore s) dst x = Some (Inr (v, st))" "asm_inv_at c bs n j (s\<lparr>pworkers := (pworkers s)[i := PAssemble p v (dst + 1) xs], pstore := st\<rparr>)"
        using asm_place_row [OF ok(1) at place(1,2)] by blast
      then show ?thesis using place(3,4) by simp
    qed
    ultimately show ?thesis by blast
  next
    case send
    note at' = at [unfolded asm_inv_at_def]
    have n: "i < n" and ws: "\<forall>l < n. asm_worker_ok c bs j (pstore s) (ptables s) (pworkers s ! l)" "length (pworkers s) = n" using at' send(1) by auto
    have "\<forall>l < n. asm_worker_ok c bs j (pstore s) (ptables s) ((pworkers s)[i := PExit] ! l)"
      by (rule asm_workers_update [OF ws(1) _ ws(2)]) (simp_all add: asm_worker_ok_def [of _ _ _ _ _ PExit])
    moreover have "\<forall>l < n. \<forall>l' < n. \<forall>p. on_part p ((pworkers s)[i := PExit] ! l) \<longrightarrow> on_part p ((pworkers s)[i := PExit] ! l') \<longrightarrow> l = l'"
      by (rule on_part_unique) (use at' n in simp_all)
    moreover have "\<exists>l < n. on_part q ((pworkers s)[i := PExit] ! l)" if q: "l < n" "on_part q (pworkers s ! l)" for q l
      by (rule on_part_update [OF q]) (simp add: send(2))
    moreover have "pool_inv (numParts c) 1 j pleft ((pworkers s)[i := PExit])" using at' send(1,2) by (intro pool_same) simp_all
    moreover have "tally (\<lambda>pc. pc = PExit) ((pworkers s)[i := PExit]) = Suc (tally (\<lambda>pc. pc = PExit) (pworkers s))" using tally_update [OF send(1), of "\<lambda>pc. pc = PExit" PExit] send(2) by simp
    ultimately have "asm_inv_at c bs n j t" using at' unfolding asm_inv_at_def send(4) by simp blast
    moreover have "asm_work c bs t < asm_work c bs s" by (rule asm_work_worker [OF send(1), of t PExit]) (use send in simp_all)
    ultimately show ?thesis by blast
  qed
  then show ?thesis using ok by (auto simp: asm_inv_def)
qed

lemma asm_progress:
  assumes inv: "asm_inv c bs n s" and "\<not> asm_finished s"
  shows "\<exists>i t. asm_next c bs n i s = Some t"
proof -
  obtain j where ok: "parts_ok c bs" and at: "asm_inv_at c bs n j s" using inv by (auto simp: asm_inv_def)
  note at' = at [unfolded asm_inv_at_def]
  obtain i where i: "i < length (pworkers s)" "pworkers s ! i \<noteq> PExit" using assms(2) by (auto simp: asm_finished_def in_set_conv_nth)
  have w: "asm_worker_ok c bs j (pstore s) (ptables s) (pworkers s ! i)" using at' i(1) by simp
  have "\<exists>t. asm_next c bs n i s = Some t"
  proof (cases "pworkers s ! i")
    case PClaim
    then show ?thesis using i by (auto simp: asm_next_def asm_step_def Let_def split: prod.splits option.splits)
  next
    case (PAssemble p u dst xs)
    show ?thesis
    proof (cases xs)
      case Nil
      then show ?thesis using i PAssemble by (simp add: asm_next_def asm_step_def Let_def)
    next
      case (Cons x ys)
      obtain u' store where "place_row u (pstore s) dst x = Some (Inr (u', store))" using asm_place_row [OF ok at i(1) PAssemble [unfolded Cons]] by blast
      then show ?thesis using i PAssemble Cons by (simp add: asm_next_def asm_step_def Let_def)
    qed
  next
    case (PFail e)
    then show ?thesis using w by (simp add: asm_worker_ok_def)
  next
    case PSend
    have "pdone s < n" using at' i tally_less [of "pworkers s ! i" "pworkers s" "\<lambda>pc. pc = PExit"] by simp
    then show ?thesis using i PSend by (simp add: asm_next_def asm_step_def Let_def)
  qed (use i in simp)
  then show ?thesis by blast
qed

interpretation asm_pool: worker_pool "asm_next c bs n" "asm_inv c bs n" "asm_work c bs" asm_finished for c bs n
  by unfold_locales (use asm_step_ok asm_progress in blast)+

lemma asm_run_next: "asm_run c n bs sched = run_steps (asm_next c bs n) sched (asm_init c (poff bs (numParts c)) n)"
  by (simp add: asm_run_def asm_next_def Let_def flip: asm_counts_def) (simp add: asm_counts_sum)

lemma asm_end:
  assumes "asm_inv c bs n s" "asm_finished s"
  shows "length (ptables s) = numParts c" "\<forall>p < numParts c. \<exists>t. ptables s ! p = Some t \<and> part_rep bs p (plen bs p) t (pstore s)"
proof -
  obtain j where n: "0 < n" and at: "asm_inv_at c bs n j s" using assms(1) by (auto simp: asm_inv_def)
  note at' = at [unfolded asm_inv_at_def]
  show "length (ptables s) = numParts c" using at' by (simp add: tables_ok_def)
  have ex: "pworkers s ! l = PExit" if "l < n" for l using assms(2) at' that by (simp add: asm_finished_def)
  have "pworkers s ! 0 \<in> set (pworkers s)" using n at' by (intro nth_mem) simp
  moreover have "pleft (pworkers s ! 0)" using ex [OF n] by simp
  ultimately have j: "numParts c \<le> j" using at' unfolding pool_inv_def by (metis mult_1)
  show "\<forall>p < numParts c. \<exists>t. ptables s ! p = Some t \<and> part_rep bs p (plen bs p) t (pstore s)"
  proof (intro allI impI)
    fix p assume p: "p < numParts c"
    then have "ptables s ! p \<noteq> None" using at' j ex by (metis less_le_trans on_part_simps(4))
    then show "\<exists>t. ptables s ! p = Some t \<and> part_rep bs p (plen bs p) t (pstore s)" using at' p by (auto simp: tables_ok_def)
  qed
qed

section \<open>The rows of the build side\<close>

definition build_all :: "build_conf \<Rightarrow> (nat \<Rightarrow> keyed list) \<Rightarrow> keyed list" where
  "build_all c rg = concat (map rg [0..<btotal c])"

lemma morsels_concat: "concat (map (morsel_rows c rg) [0..<k]) = concat (map rg [0..<min (bmorsel c * k) (btotal c)])"
proof (induction k)
  case (Suc k)
  let ?a = "bmorsel c * k" and ?b = "min (bmorsel c * k + bmorsel c) (btotal c)"
  have "[0..<min ?a (btotal c)] @ [?a..<?b] = [0..<?b]"
  proof (cases "?a \<le> btotal c")
    case True
    then have "?a \<le> ?b" "min ?a (btotal c) = ?a" by simp_all
    then show ?thesis using upt_add_eq_append [of 0 ?a "?b - ?a"] by simp
  next
    case False
    then have "?b = btotal c" "min ?a (btotal c) = btotal c" "btotal c \<le> ?a" by simp_all
    then show ?thesis by simp
  qed
  then have "concat (map rg [0..<?b]) = concat (map rg [0..<min ?a (btotal c)]) @ concat (map rg [?a..<?b])" by (metis concat_append map_append)
  then show ?case using Suc.IH by (simp add: morsel_rows_def add.commute)
qed simp

lemma morsels_all: "0 < bmorsel c \<Longrightarrow> concat (map (morsel_rows c rg) [0..<numMorsels c]) = build_all c rg"
proof -
  assume "0 < bmorsel c"
  then have "btotal c \<le> bmorsel c * numMorsels c" using morsel_less [of c "numMorsels c"] by simp
  then show ?thesis by (simp add: morsels_concat build_all_def)
qed

definition buckets_done :: "build_conf \<Rightarrow> (nat \<Rightarrow> keyed list) \<Rightarrow> morselBucket option list \<Rightarrow> bool" where
  "buckets_done c rg bs \<longleftrightarrow> length bs = numMorsels c \<and> (\<forall>m < numMorsels c. \<exists>loc. bs ! m = Some loc \<and> morsel_bucket c rg m loc)"

definition keyed_row :: "rowStore \<times> keyedRow \<Rightarrow> keyed" where
  "keyed_row x = (krKey (snd x), stored_row (fst x) (krRow (snd x)))"

lemma part_list_rows:
  assumes "buckets_done c rg bs" "p < numParts c"
  shows "map keyed_row (part_list bs p) = filter (\<lambda>x. radixPart (fst x) (pm_of c) = p) (concat (map (morsel_rows c rg) [0..<numMorsels c]))"
proof -
  let ?f = "\<lambda>b. map keyed_row (case b of None \<Rightarrow> [] | Some b \<Rightarrow> map (Pair (bstore b)) (brows b ! p))"
  have len: "length bs = numMorsels c" using assms(1) by (simp add: buckets_done_def)
  have "?f (bs ! m) = filter (\<lambda>x. radixPart (fst x) (pm_of c) = p) (morsel_rows c rg m)" if m: "m < numMorsels c" for m
  proof -
    obtain loc where "bs ! m = Some loc" "morsel_bucket c rg m loc" using assms(1) m unfolding buckets_done_def by blast
    then show ?thesis using assms(2) by (simp add: morsel_bucket_def bucket_ok_def keyed_row_def comp_def)
  qed
  then have "map (\<lambda>m. ?f (bs ! m)) [0..<numMorsels c] = map (\<lambda>m. filter (\<lambda>x. radixPart (fst x) (pm_of c) = p) (morsel_rows c rg m)) [0..<numMorsels c]" by (intro map_cong) simp_all
  moreover have "map (\<lambda>m. ?f (bs ! m)) [0..<numMorsels c] = map ?f bs" using len map_nth [of bs] by (metis (no_types, lifting) map_map comp_apply map_eq_conv)
  ultimately have "map ?f bs = map (\<lambda>m. filter (\<lambda>x. radixPart (fst x) (pm_of c) = p) (morsel_rows c rg m)) [0..<numMorsels c]" by simp
  moreover have "map keyed_row (part_list bs p) = concat (map ?f bs)" by (simp add: part_list_def map_concat comp_def)
  ultimately show ?thesis by (simp add: filter_concat comp_def)
qed

lemma part_list_stores:
  assumes "buckets_done c rg bs" "p < numParts c" "x \<in> set (part_list bs p)"
  shows "store_like (bschema c) (fst x) \<and> (\<exists>r < numRows (fst x). krRow (snd x) = word_of_nat r)"
proof -
  obtain b loc where b: "b \<in> set bs" "b = Some loc" "x \<in> set (map (Pair (bstore loc)) (brows loc ! p))" using assms(3) by (auto simp: part_list_def split: option.splits)
  then obtain m where "m < numMorsels c" "bs ! m = Some loc" using assms(1) by (metis buckets_done_def in_set_conv_nth)
  then have "morsel_bucket c rg m loc" using assms(1) by (auto simp: buckets_done_def)
  moreover obtain kr where "x = (bstore loc, kr)" "kr \<in> set (brows loc ! p)" using b(3) by auto
  ultimately show ?thesis using assms(2) by (auto simp: morsel_bucket_def bucket_ok_def)
qed

lemma sum_one_hot: "q < n \<Longrightarrow> sum_list (map (\<lambda>p. if q = p then 1 else 0) [0..<n]) = (1 :: nat)"
  by (simp add: interv_sum_list_conv_sum_set_nat)

lemma parts_length:
  assumes "\<forall>x. f x < n"
  shows "sum_list (map (\<lambda>p. length (filter (\<lambda>x. f x = p) R)) [0..<n]) = length R"
proof (induction R)
  case (Cons a R)
  have "map (\<lambda>p. length (filter (\<lambda>x. f x = p) (a # R))) [0..<n] = map (\<lambda>p. (if f a = p then 1 else 0) + length (filter (\<lambda>x. f x = p) R)) [0..<n]" by simp
  then show ?case using Cons sum_one_hot [of "f a" n] assms by (simp only: sum_list_addf) simp
qed (simp add: sum_list_0)

lemma parts_total:
  assumes "buckets_done c rg bs" "bbits c \<le> 12" "0 < bmorsel c"
  shows "poff bs (numParts c) = length (build_all c rg)"
proof -
  have "plen bs p = length (filter (\<lambda>x. radixPart (fst x) (pm_of c) = p) (build_all c rg))" if "p < numParts c" for p
    using arg_cong [OF part_list_rows [OF assms(1) that], of length] morsels_all [OF assms(3)] by (simp add: plen_def)
  then have "poff bs (numParts c) = sum_list (map (\<lambda>p. length (filter (\<lambda>x. radixPart (fst x) (pm_of c) = p) (build_all c rg))) [0..<numParts c])"
    unfolding poff_def by (intro arg_cong [of _ _ sum_list] map_cong) simp_all
  then show ?thesis using parts_length [of "\<lambda>x. radixPart (fst x) (pm_of c)" "numParts c"] parts_bound [OF assms(2)] by simp
qed

lemma buckets_parts_ok:
  assumes "build_ok c rg n" "buckets_done c rg bs"
  shows "parts_ok c bs"
  using assms part_list_stores parts_total [of c rg bs] by (simp add: parts_ok_def build_ok_def build_all_def)

lemma assembled_answers:
  assumes bd: "buckets_done c rg bs" and c: "bbits c \<le> 12" "0 < bmorsel c" and ts: "length ts = numParts c" "\<forall>p < numParts c. \<exists>t. ts ! p = Some t \<and> part_rep bs p (plen bs p) t s"
  shows "\<exists>rs. probe_key (pm_of c) (map the ts) (rnext s) k = Some (Inr rs) \<and> map (stored_row s) rs = map snd (filter (\<lambda>x. fst x = k) (build_all c rg))"
proof -
  let ?p = "radixPart k (pm_of c)"
  have p: "?p < numParts c" by (rule parts_bound [OF c(1)])
  obtain t where t: "ts ! ?p = Some t" "part_rep bs ?p (plen bs ?p) t s" using ts(2) p by blast
  let ?rs = "pmap bs ?p (plen bs ?p) k" and ?L = "part_list bs ?p"
  have "probe_key (pm_of c) (map the ts) (rnext s) k = Some (Inr ?rs)"
    using probe_rep [of t "rnext s" "pmap bs ?p (plen bs ?p)" k] t p ts(1) by (simp add: probe_key_def Let_def radixPart_and part_rep_def)
  moreover have "map (stored_row s) ?rs = map (\<lambda>i. snd (keyed_row (?L ! i))) (filter (\<lambda>i. fst (keyed_row (?L ! i)) = k) [0..<length ?L])"
    using t(2) by (simp add: part_rep_def pmap_def keyed_row_def plen_def)
  then have "map (stored_row s) ?rs = map snd (filter (\<lambda>x. fst x = k) (map keyed_row ?L))"
    using filter_nth [of "\<lambda>x. snd (keyed_row x)" ?L "\<lambda>x. fst (keyed_row x) = k"] by (simp add: filter_map comp_def)
  moreover have "filter (\<lambda>x. fst x = k) (map keyed_row ?L) = filter (\<lambda>x. fst x = k) (build_all c rg)"
    unfolding part_list_rows [OF bd p] morsels_all [OF c(2)] filter_filter by (rule filter_cong) auto
  ultimately show ?thesis by auto
qed

section \<open>The two passes together\<close>

lemma pool_size_bounds: "0 < pool_size nw jobs" "pool_size nw jobs \<le> max 1 jobs"
  by (auto simp: pool_size_def Let_def)

lemma build_conf_ok:
  assumes "c = build_conf_of factory bound schema key rgs msize radixBits" "build_pipeline_ok c rg" "length (build_all c rg) \<le> maxBuildRows"
    "rgs + bmorsel c * (pool_size nw (numMorsels c) + 1) < 2 ^ 63"
  shows "build_ok c rg (pool_size nw (numMorsels c))"
proof -
  have "0 < bmorsel c" "bbits c \<le> 12" "btotal c = rgs" by (auto simp: assms(1) build_conf_of_def clampRadixBits_def radixHardMaxBits_def defaultMorselSize_def)
  then show ?thesis using assms(2-4) pool_size_bounds(1) [of nw "numMorsels c"] by (simp add: build_ok_def build_all_def)
qed

lemma build_pass:
  assumes "build_ok c rg n" "run_steps (build_step c n) sched (build_init c n) = Some s"
  shows "build_inv c rg n s" "length sched \<le> 4 * btotal c + 2 * n"
proof -
  note r = build_pool.run_inv [OF assms(2) build_init_inv [OF assms(1)]]
  then show "build_inv c rg n s" by blast
  have "build_work c (build_init c n) = 4 * btotal c + 2 * n" by (simp add: build_work_def build_init_def bweight_def sum_list_replicate)
  then show "length sched \<le> 4 * btotal c + 2 * n" using r by simp
qed

lemma build_pass_end:
  assumes "build_ok c rg n" "build_inv c rg n s" "build_finished s"
  shows "first_sent (errCh s) = None" "buckets_done c rg (buckets s)" "parts_ok c (buckets s)" "poff (buckets s) (numParts c) = length (build_all c rg)"
proof -
  note e = build_end [OF assms(2,3)]
  show "first_sent (errCh s) = None" by (rule e(1))
  show bd: "buckets_done c rg (buckets s)" using e(2,3) by (simp add: buckets_done_def)
  show "parts_ok c (buckets s)" by (rule buckets_parts_ok [OF assms(1) bd])
  show "poff (buckets s) (numParts c) = length (build_all c rg)" using assms(1) by (intro parts_total [OF bd]) (simp_all add: build_ok_def)
qed

lemma asm_pool_bound: "bbits c \<le> 12 \<Longrightarrow> numParts c + (pool_size nw (numParts c) + 1) < 2 ^ 63"
proof -
  assume "bbits c \<le> 12"
  then have "numParts c \<le> 2 ^ 12" unfolding numParts_def by (intro power_increasing) simp_all
  then show ?thesis using pool_size_bounds(2) [of nw "numParts c"] by simp
qed

lemma asm_pass:
  assumes "parts_ok c bs" "asm_run c (pool_size nw (numParts c)) bs sched = Some a"
  shows "asm_inv c bs (pool_size nw (numParts c)) a" "length sched \<le> (poff bs (numParts c) + 3) * numParts c + 2 * pool_size nw (numParts c)"
proof -
  let ?n = "pool_size nw (numParts c)" and ?i = "asm_init c (poff bs (numParts c)) (pool_size nw (numParts c))"
  have "asm_inv c bs ?n ?i" using assms(1) by (intro asm_init_inv pool_size_bounds asm_pool_bound) (simp_all add: parts_ok_def)
  note r = asm_pool.run_inv [OF assms(2) [unfolded asm_run_next] this]
  then show "asm_inv c bs ?n a" by blast
  have "asm_work c bs ?i \<le> (poff bs (numParts c) + 3) * numParts c + 2 * ?n" by (simp add: asm_work_def asm_init_def sum_list_replicate)
  then show "length sched \<le> (poff bs (numParts c) + 3) * numParts c + 2 * ?n" using r by linarith
qed

definition assembled :: "build_conf \<Rightarrow> nat \<Rightarrow> asm_state \<Rightarrow> SharedHashTable" where
  "assembled c nrows a = \<lparr>sparts = map the (ptables a), sstore = pstore a, partMask = pm_of c, sschema = bschema c, keyIdx = bkey c, snumRows = nrows\<rparr>"

lemma build_outcome:
  assumes ok: "build_ok c rg (pool_size nw (numMorsels c))" and key: "bkey c < length (bschema c)" "0 < btotal c"
    and s: "run_steps (build_step c (pool_size nw (numMorsels c))) sched1 (build_init c (pool_size nw (numMorsels c))) = Some s" "build_finished s"
  shows "BuildSharedHashTableParallel c nw sched1 sched2 = Option.bind (asm_run c (pool_size nw (numParts c)) (buckets s) sched2)
    (\<lambda>a. if asm_finished a then Some (Inr (assembled c (length (build_all c rg)) a)) else None)"
proof -
  note e = build_pass_end [OF ok build_pass(1) [OF ok s(1)] s(2)]
  have "sum_list (map (part_count (buckets s)) [0..<numParts c]) = length (build_all c rg)" using asm_counts_sum [of c "buckets s"] e(4) by (simp add: asm_counts_def)
  moreover have "\<not> maxBuildRows < length (build_all c rg)" using ok by (simp add: build_ok_def build_all_def)
  moreover have "\<not> (\<exists>w \<in> set (bworkers s). bpc w \<noteq> BExit)" using s(2) by (auto simp: build_finished_def)
  moreover have "(if \<exists>pc \<in> set (pworkers a). pc \<noteq> PExit then None else x) = (if asm_finished a then x else None)" for a and x :: "SharedHashTable xres option" by (auto simp: asm_finished_def)
  ultimately show ?thesis using key e(1) s(1) unfolding assembled_def pm_of_def by (simp add: BuildSharedHashTableParallel_def Let_def)
qed

lemma build_unfinished:
  assumes "bkey c < length (bschema c)" "0 < btotal c" "BuildSharedHashTableParallel c nw sched1 sched2 = Some r"
  obtains s where "run_steps (build_step c (pool_size nw (numMorsels c))) sched1 (build_init c (pool_size nw (numMorsels c))) = Some s" "build_finished s"
proof -
  let ?n = "pool_size nw (numMorsels c)"
  obtain s where s: "run_steps (build_step c ?n) sched1 (build_init c ?n) = Some s"
    using assms by (cases "run_steps (build_step c ?n) sched1 (build_init c ?n)") (simp_all add: BuildSharedHashTableParallel_def Let_def)
  moreover have "build_finished s"
  proof (rule ccontr)
    assume "\<not> build_finished s"
    then have "\<exists>w \<in> set (bworkers s). bpc w \<noteq> BExit" by (auto simp: build_finished_def)
    then show False using assms s by (simp add: BuildSharedHashTableParallel_def Let_def)
  qed
  ultimately show thesis using that by blast
qed

lemma asm_continues:
  assumes ok: "build_ok c rg (pool_size nw (numMorsels c))" and key: "bkey c < length (bschema c)" "0 < btotal c"
    and s: "run_steps (build_step c (pool_size nw (numMorsels c))) sched1 (build_init c (pool_size nw (numMorsels c))) = Some s" "build_finished s"
    and a: "asm_run c (pool_size nw (numParts c)) (buckets s) sched2 = Some a"
  shows "length sched2 \<le> (length (build_all c rg) + 3) * numParts c + 2 * pool_size nw (numParts c)" "\<exists>more2. BuildSharedHashTableParallel c nw sched1 (sched2 @ more2) \<noteq> None"
proof -
  note e = build_pass_end [OF ok build_pass(1) [OF ok s(1)] s(2)] and p = asm_pass [OF _ a]
  show "length sched2 \<le> (length (build_all c rg) + 3) * numParts c + 2 * pool_size nw (numParts c)" using p(2) e(3,4) by simp
  obtain more2 b where "run_steps (asm_next c (buckets s) (pool_size nw (numParts c))) more2 a = Some b" "asm_finished b" using asm_pool.run_completes [OF p(1) [OF e(3)]] by blast
  then show "\<exists>more2. BuildSharedHashTableParallel c nw sched1 (sched2 @ more2) \<noteq> None"
    using build_outcome [OF ok key s] a by (intro exI [of _ more2]) (simp add: asm_run_next run_steps_append)
qed

lemma build_continues:
  assumes ok: "build_ok c rg (pool_size nw (numMorsels c))" and key: "bkey c < length (bschema c)" "0 < btotal c"
    and run: "run_steps (build_step c (pool_size nw (numMorsels c))) sched1 (build_init c (pool_size nw (numMorsels c))) = Some s"
  shows "\<exists>more1 sched2. BuildSharedHashTableParallel c nw (sched1 @ more1) sched2 \<noteq> None"
proof -
  obtain more1 t where t: "run_steps (build_step c (pool_size nw (numMorsels c))) more1 s = Some t" "build_finished t" using build_pool.run_completes [OF build_pass(1) [OF ok run]] by blast
  have "run_steps (build_step c (pool_size nw (numMorsels c))) (sched1 @ more1) (build_init c (pool_size nw (numMorsels c))) = Some t" using run t(1) by (simp add: run_steps_append)
  from asm_continues(2) [OF ok key this t(2), of "[]"] show ?thesis by (auto simp: asm_run_def Let_def)
qed

section \<open>Properties\<close>

text \<open>
  C6: the parallel build of a join table is correct under every schedule. Workers claim morsels of the build side, then partitions, in any order and with their steps interleaved in any way: a build that runs
  to its end never fails, panics or loops, counts the rows of the build side, and answers a probe for any key with exactly the build rows of that key, contents included, in the order
  of the build side, just as the serial builds do. No row is lost, doubled or overwritten by another worker.
\<close>

theorem parallel_build_answers:
  assumes c: "c = build_conf_of factory bound schema key rgs msize radixBits" and key: "key < length schema" "0 < rgs"
    and pl: "build_pipeline_ok c rg" "length (build_all c rg) \<le> maxBuildRows" "rgs + bmorsel c * (pool_size nw (numMorsels c) + 1) < 2 ^ 63"
    and run: "BuildSharedHashTableParallel c nw sched1 sched2 = Some r"
  shows "\<exists>sht. r = Inr sht \<and> snumRows sht = length (build_all c rg) \<and> sschema sht = schema \<and> (\<forall>k. \<exists>rs. probe_key (partMask sht) (sparts sht) (rnext (sstore sht)) k = Some (Inr rs) \<and>
    map (stored_row (sstore sht)) rs = map snd (filter (\<lambda>x. fst x = k) (build_all c rg)))"
proof -
  let ?n1 = "pool_size nw (numMorsels c)" and ?n2 = "pool_size nw (numParts c)"
  have ok: "build_ok c rg ?n1" by (rule build_conf_ok [OF c pl])
  have key': "bkey c < length (bschema c)" "0 < btotal c" and schema: "bschema c = schema" using key by (simp_all add: c build_conf_of_def)
  obtain s where s: "run_steps (build_step c ?n1) sched1 (build_init c ?n1) = Some s" "build_finished s" by (rule build_unfinished [OF key' run])
  note e = build_pass_end [OF ok build_pass(1) [OF ok s(1)] s(2)]
  obtain a where a: "asm_run c ?n2 (buckets s) sched2 = Some a" "asm_finished a" "r = Inr (assembled c (length (build_all c rg)) a)"
    using run [unfolded build_outcome [OF ok key' s]] by (auto simp: Option.bind_eq_Some_conv split: if_splits)
  have small: "bbits c \<le> 12" "0 < bmorsel c" using ok by (simp_all add: build_ok_def)
  have "\<exists>rs. probe_key (pm_of c) (map the (ptables a)) (rnext (pstore a)) k = Some (Inr rs) \<and> map (stored_row (pstore a)) rs = map snd (filter (\<lambda>x. fst x = k) (build_all c rg))" for k
    by (rule assembled_answers [OF e(2) small asm_end [OF asm_pass(1) [OF e(3) a(1)] a(2)]])
  then show ?thesis using a(3) schema by (simp add: assembled_def)
qed

text \<open>
  C17: the parallel build always ends. No run of either pass is longer than a bound that is linear in the work (row groups and workers; rows, partitions and workers), and wherever a run stands, it can be continued
  to a complete build: no schedule deadlocks on the claim counters or the result channel, and none runs for ever.
\<close>

theorem parallel_build_ends:
  assumes c: "c = build_conf_of factory bound schema key rgs msize radixBits" and key: "key < length schema" "0 < rgs"
    and pl: "build_pipeline_ok c rg" "length (build_all c rg) \<le> maxBuildRows" "rgs + bmorsel c * (pool_size nw (numMorsels c) + 1) < 2 ^ 63"
    and n: "n1 = pool_size nw (numMorsels c)" "n2 = pool_size nw (numParts c)" and run: "run_steps (build_step c n1) sched1 (build_init c n1) = Some s"
  shows "length sched1 \<le> 4 * rgs + 2 * n1 \<and> (\<exists>more1 sched2. BuildSharedHashTableParallel c nw (sched1 @ more1) sched2 \<noteq> None) \<and>
    ((\<forall>w \<in> set (bworkers s). bpc w = BExit) \<longrightarrow> (\<forall>sched2. asm_run c n2 (buckets s) sched2 \<noteq> None \<longrightarrow>
      length sched2 \<le> (length (build_all c rg) + 3) * numParts c + 2 * n2 \<and> (\<exists>more2. BuildSharedHashTableParallel c nw sched1 (sched2 @ more2) \<noteq> None)))"
proof -
  have ok: "build_ok c rg n1" unfolding n by (rule build_conf_ok [OF c pl])
  have key': "bkey c < length (bschema c)" "0 < btotal c" and rgs: "btotal c = rgs" using key by (simp_all add: c build_conf_of_def)
  have "length sched1 \<le> 4 * rgs + 2 * n1" using build_pass(2) [OF ok run] rgs by simp
  moreover have "\<exists>more1 sched2. BuildSharedHashTableParallel c nw (sched1 @ more1) sched2 \<noteq> None" by (rule build_continues [OF ok [unfolded n(1)] key' run [unfolded n(1)]])
  moreover have "length sched2 \<le> (length (build_all c rg) + 3) * numParts c + 2 * n2 \<and> (\<exists>more2. BuildSharedHashTableParallel c nw sched1 (sched2 @ more2) \<noteq> None)"
    if f: "\<forall>w \<in> set (bworkers s). bpc w = BExit" and a: "asm_run c n2 (buckets s) sched2 \<noteq> None" for sched2
    using asm_continues [OF ok [unfolded n(1)] key' run [unfolded n(1)], of sched2] f a n(2) by (auto simp: build_finished_def)
  ultimately show ?thesis by blast
qed

text \<open>Three row groups of three rows with a key each, built by two workers into two partitions.\<close>

definition ex_build_side :: build_conf where
  "ex_build_side = build_conf_of (\<lambda>a b. Inr \<lparr>shape = TableScanOp, pstream = stream_of (replicate (b - a) ex_build), preset = (\<lambda>a b. stream_of (replicate (b - a) ex_build))\<rparr>)
     (\<lambda>_ _. None) ex_schema 0 3 0 1"

definition ex_group :: "nat \<Rightarrow> keyed list" where
  "ex_group j = map (keyed_of ex_schema) (keyed_rows 0 ex_build)"

lemma ex_keyed: "keyed_rows 0 ex_build = [(5, ex_build, 0), (7, ex_build, 1), (5, ex_build, 2)]"
  using ex_build_rows by (simp add: build_rows_def)

lemma ex_cells: "batch_row ex_schema ex_build 0 = [Inr (False, 5, [])]" "batch_row ex_schema ex_build 1 = [Inr (False, 7, [])]" "batch_row ex_schema ex_build 2 = [Inr (False, 5, [])]"
proof -
  have slots: "str_slots ex_schema 0 = ([None], 0)" by (simp add: ex_schema_def)
  show "batch_row ex_schema ex_build 0 = [Inr (False, 5, [])]" "batch_row ex_schema ex_build 1 = [Inr (False, 7, [])]" "batch_row ex_schema ex_build 2 = [Inr (False, 5, [])]"
    by (simp_all add: batch_row_def slots) (simp_all add: ex_schema_def ex_build_def cell_of_def ex_nulls ex_nulls(2) [unfolded One_nat_def])
qed

lemma ex_group_rows: "ex_group j = [(5, [Inr (False, 5, [])]), (7, [Inr (False, 7, [])]), (5, [Inr (False, 5, [])])]"
  using ex_cells by (simp add: ex_group_def ex_keyed keyed_of_def)

lemma ex_build_side_ok: "build_pipeline_ok ex_build_side ex_group"
proof -
  have len: "length ex_schema = 1" "length (Vectors ex_build) = 1" by (simp_all add: ex_schema_def ex_build_def)
  have fits: "\<forall>(k, b, i) \<in> set (keyed_rows 0 ex_build). fits ex_schema b i" using ex_cells len by (auto simp: ex_keyed fits_def)
  have "build_range ex_schema 0 ex_group a b (stream_of (replicate (b - a) ex_build))" for a b
  proof -
    have "\<forall>x \<in> set (replicate (b - a) ex_build). key_ok 0 x" using ex_key_ok by simp
    moreover have "build_rows 0 (stream_of (replicate (b - a) ex_build)) = concat (replicate (b - a) (keyed_rows 0 ex_build))" by (simp add: build_rows_def)
    moreover have "map (keyed_of ex_schema) (concat (replicate (b - a) (keyed_rows 0 ex_build))) = concat (map ex_group [a..<b])"
      by (simp add: map_concat ex_group_def [abs_def] map_replicate_const)
    ultimately show ?thesis using fits by (auto simp: build_range_def)
  qed
  then show ?thesis by (simp add: build_pipeline_ok_def ex_build_side_def build_conf_of_def)
qed

lemma ex_build_side_all: "length (build_all ex_build_side ex_group) = 9" "map snd (filter (\<lambda>x. fst x = 5) (build_all ex_build_side ex_group)) = replicate 6 [Inr (False, 5, [])]"
proof -
  have "btotal ex_build_side = 3" by (simp add: ex_build_side_def build_conf_of_def)
  then have "build_all ex_build_side ex_group = concat (replicate 3 (ex_group 0))" by (simp add: build_all_def ex_group_rows upt_conv_Cons numeral_3_eq_3)
  then show "length (build_all ex_build_side ex_group) = 9" "map snd (filter (\<lambda>x. fst x = 5) (build_all ex_build_side ex_group)) = replicate 6 [Inr (False, 5, [])]"
    by (simp_all add: ex_group_rows numeral_3_eq_3 eval_nat_numeral)
qed

lemma ex_build_side_bounds: "3 + bmorsel ex_build_side * (pool_size 2 (numMorsels ex_build_side) + 1) < 2 ^ 63" "length (build_all ex_build_side ex_group) \<le> maxBuildRows"
  using ex_build_side_all(1) by (simp_all add: ex_build_side_def build_conf_of_def pool_size_def numMorsels_def defaultMorselSize_def maxBuildRows_def)

theorem parallel_build_answers_witness:
  "\<exists>sched1 sched2 sht rs. BuildSharedHashTableParallel ex_build_side 2 sched1 sched2 = Some (Inr sht) \<and> snumRows sht = 9 \<and>
    probe_key (partMask sht) (sparts sht) (rnext (sstore sht)) 5 = Some (Inr rs) \<and> map (stored_row (sstore sht)) rs = replicate 6 [Inr (False, 5, [])]"
proof -
  let ?c = ex_build_side
  have key: "bkey ?c < length (bschema ?c)" "0 < btotal ?c" by (simp_all add: ex_build_side_def build_conf_of_def ex_schema_def)
  obtain sched1 sched2 r where r: "BuildSharedHashTableParallel ?c 2 ([] @ sched1) sched2 = Some r"
    using build_continues [OF build_conf_ok [OF ex_build_side_def ex_build_side_ok ex_build_side_bounds(2,1)] key, of "[]"] by auto
  have "\<exists>sht. r = Inr sht \<and> snumRows sht = length (build_all ?c ex_group) \<and> sschema sht = ex_schema \<and> (\<forall>k. \<exists>rs. probe_key (partMask sht) (sparts sht) (rnext (sstore sht)) k = Some (Inr rs) \<and>
    map (stored_row (sstore sht)) rs = map snd (filter (\<lambda>x. fst x = k) (build_all ?c ex_group)))"
    by (rule parallel_build_answers [OF ex_build_side_def _ _ ex_build_side_ok ex_build_side_bounds(2,1) r]) (simp_all add: ex_schema_def)
  then show ?thesis using r ex_build_side_all by (metis append_Nil)
qed

theorem parallel_build_ends_witness:
  "\<exists>sched1 sched2. BuildSharedHashTableParallel ex_build_side 2 sched1 sched2 \<noteq> None"
  using parallel_build_ends [OF ex_build_side_def _ _ ex_build_side_ok ex_build_side_bounds(2,1) refl refl, of "[]"] by (auto simp: ex_schema_def)

end
