(* ===== verification/Spec2Isabelle.thy ===== *)
theory Spec2Isabelle
  imports Prelude Encoding Codec Float64 Batch Expr Kernels ExprSem Lexer Parser Operator Project Distinct JoinTable HashJoin Emit Sort JoinExec Aggregate AggSem IntKey AggOut Parallel Writer Reader Scan Layout TableWrite TableRead ZoneStats ScanSem Compile FloatOrder ExprWalk Pruning Format Logical Physical PrunedScan Build Optimizer PlanTerms PlanRewrite PlanBuild PlanPrune ParallelBuild ParallelTable
begin

text \<open>
  A verification development for vexq, a columnar SQL query engine written in Go: a storage layer of typed, dictionary- and
  run-length-encoded column blocks, a vectorised evaluator and pull operators over batches of column vectors, and a hand-written SQL
  front end. The theories below model the code as executable functions and prove that it computes what SQL prescribes.

  \<^bold>\<open>Conventions.\<close> A Go call that can fail or panic returns \<open>'a xres\<close>: \<open>Inr\<close> a result, \<open>Inl Panic\<close> for an index out of range, a failed type
  assertion or a nil dereference, \<open>Inl (Err e)\<close> for a returned error. Slices are lists; indexing is \<open>idx\<close>, \<open>upd\<close> and \<open>slice\<close>, which
  panic where Go does. Where reused capacity matters the backing array is explicit (\<open>Batch\<close>, \<open>JoinTable\<close>). \<^verbatim>\<open>int64\<close>, \<^verbatim>\<open>uint32\<close> and the like are
  words of their width; \<^verbatim>\<open>int\<close> as a length or an index is \<open>nat\<close>, and \<open>int\<close> where it can be negative. A \<^verbatim>\<open>float64\<close> is its bit
  pattern, and \<open>Float64\<close> defines comparison, rounding and arithmetic on it. A child operator is the \<open>stream\<close> of its future results: batches, then end or an error.

  \<^bold>\<open>Parts.\<close>

  \<^item> \<open>Prelude\<close>: the error monad, Go's indexing, bytes and strings, loops as \<open>fold_res\<close> and \<open>map_res\<close>, and the locales of shared contracts.
  \<^item> \<open>Encoding\<close> (\<^verbatim>\<open>internal/encoding\<close>): little-endian codecs, CRC32 and the checksum trailer. A sealed block verifies, and a burst of up to
    32 bits of damage is always rejected.
  \<^item> \<open>Codec\<close> (\<^verbatim>\<open>storage/codec.go\<close>, \<^verbatim>\<open>format.go\<close>, \<^verbatim>\<open>schema.go\<close>): null bitmaps, the dictionary builder, the marshalled dictionary with its
    memoising reader, run-length BOOL blocks; round trips for both encodings.
  \<^item> \<open>Float64\<close>: IEEE 754 binary64 order and rounding, for the evaluator, sorting and aggregates.
  \<^item> \<open>Batch\<close> (\<^verbatim>\<open>exec/batch.go\<close>, \<^verbatim>\<open>exec/scratch.go\<close>): vectors, batches with selection vectors, buffer reuse, broadcast literals and their cache.
  \<^item> \<open>Expr\<close>, \<open>Kernels\<close>, \<open>ExprSem\<close> (\<^verbatim>\<open>exec/expr.go\<close>): all expression nodes; the kernels' lemmas; the row semantics of SQL's three-valued logic and
    the theorem that the evaluator computes it for every well-typed expression whose comparisons with string literals are exact on the batch (\<open>lits_exact\<close>: a
    comparison with a literal absent from the column's dictionary is answered without looking at the cells, which is right only for some columns), and what it computes for all others
    (\<open>as_evaluated\<close>). A filter needs less (\<open>lits_select\<close>). \<open>vec_cost\<close> bounds the size of merged dictionaries.
  \<^item> \<open>Lexer\<close>, \<open>Parser\<close> (\<^verbatim>\<open>sql/lexer.go\<close>, \<^verbatim>\<open>sql/parser.go\<close>, \<^verbatim>\<open>sql/ast.go\<close>, parts of \<^verbatim>\<open>sql/format.go\<close>): tokens, one-token lookahead, the Pratt parser. The
    parser's recursion has fuel; \<open>ParseStatement\<close> supplies an amount bounded by the input's length, which is shown never to run out.
  \<^item> \<open>Operator\<close>, \<open>Project\<close>, \<open>Distinct\<close> (\<^verbatim>\<open>exec/operator.go\<close>, \<^verbatim>\<open>filter.go\<close>, \<^verbatim>\<open>limit.go\<close>, \<^verbatim>\<open>project.go\<close>, \<^verbatim>\<open>distinct.go\<close>): an operator is a step
    function that returns a batch, the end or an error together with its new state; the locale \<open>pull_operator\<close> drains one to its end, and is
    interpreted on each operator. The rows of the drained output are given by a function on lists of rows.
  \<^item> \<open>JoinTable\<close>, \<open>HashJoin\<close>, \<open>Emit\<close>, \<open>JoinExec\<close> (\<^verbatim>\<open>exec/join_table.go\<close>, \<^verbatim>\<open>join.go\<close>, parts of \<^verbatim>\<open>parallel_join.go\<close> and \<^verbatim>\<open>row_bound.go\<close>): the row store with its
    growth, the open-addressed table, serial and radix-partitioned build, probe and emission. The table refines a multimap; the join delivers the rows
    of the nested-loop inner join, the cells of BOOL columns as integers.
  \<^item> \<open>Sort\<close> (\<^verbatim>\<open>exec/sort.go\<close>): ORDER BY as a stable sort, with the order on cells including NULL and NaN.
  \<^item> \<open>Aggregate\<close>, \<open>AggSem\<close>, \<open>IntKey\<close>, \<open>AggOut\<close> (\<^verbatim>\<open>exec/aggregate.go\<close>, \<^verbatim>\<open>agg_intkey.go\<close>): accumulators, the meaning of the aggregate
    functions on a list of cells, grouping by packed dictionary codes with its fallbacks, and the emitted rows. Every path delivers the
    same groups. \<open>sql_value\<close> is what SQL says of an aggregate and \<open>agg_value\<close> what the accumulators arrive at; the two agree unless a float MIN or MAX meets an infinity or NaN that its
    start value hides (\<open>seed_safe\<close>).
  \<^item> \<open>Parallel\<close> (\<^verbatim>\<open>exec/parallel.go\<close>, \<^verbatim>\<open>exec/morsel.go\<close>): morsel-driven parallel aggregation. The workers' interleavings are an inductive step relation; every
    schedule ends with one result per worker, every row group is claimed exactly once, and the merged aggregate has the groups of the whole table.

  \<^item> \<open>Writer\<close>, \<open>Reader\<close> (\<^verbatim>\<open>storage/writer.go\<close>, \<^verbatim>\<open>reader.go\<close>, \<^verbatim>\<open>rowgroup.go\<close>, \<^verbatim>\<open>verify.go\<close>): the table file, as the list of its bytes: row groups of checksummed column
    blocks with zone maps, the footer, opening a file, the read-ahead window, dictionaries and the check of zone maps.
  \<^item> \<open>Scan\<close> (\<^verbatim>\<open>exec/scan.go\<close>, the bounds of \<^verbatim>\<open>row_bound.go\<close>): the scan operator with its decode buffers, column and row-group selection and pruning.
  \<^item> \<open>Layout\<close>, \<open>TableWrite\<close>, \<open>TableRead\<close>, \<open>ZoneStats\<close>, \<open>ScanSem\<close>: their theorems. The writer refines appending row groups to an abstract table, for every order of
    its calls that \<open>table_run\<close> accepts; an invariant ties the metadata to the places of the sections in the file. Reading block by block inverts
    writing, the verifier recomputes the stored zone maps, which say of the column's values what \<open>zone_of\<close> states type by type, and the scan delivers the rows of the row groups it keeps. The bounds are those of
    the format: 32-bit counts and dictionary offsets, 16-bit name lengths, and files below \<open>2 ^ 63\<close> bytes.

  \<^item> \<open>ParallelBuild\<close>, \<open>ParallelTable\<close> (\<^verbatim>\<open>exec/parallel_join.go\<close>): the parallel build of the partitioned join table, both passes as step functions of their workers. The locale
    \<open>worker_pool\<close> turns an invariant, a measure and progress into bounded, completable runs; each pass interprets it, and the finished table answers every key with its build rows in order under every schedule.
  \<^item> \<open>ExprWalk\<close>, \<open>Format\<close> (\<^verbatim>\<open>planner/exprwalk.go\<close>, \<^verbatim>\<open>sql/format.go\<close>): traversals of SQL expressions, and expressions as text, by which the planner compares them; printed
    integer literals parse back.
  \<^item> \<open>Logical\<close>, \<open>Build\<close>, \<open>Optimizer\<close> (\<^verbatim>\<open>planner/logical.go\<close>, \<^verbatim>\<open>build.go\<close>, \<^verbatim>\<open>optimizer.go\<close>, \<^verbatim>\<open>catalog/catalog.go\<close>): logical plans and their schemas; from a statement to a plan; predicate pushdown
    and column pruning. \<open>PlanTerms\<close>, \<open>PlanRewrite\<close> and \<open>PlanBuild\<close> show that no term of WHERE or HAVING and no table is lost on the way,
    \<open>PlanPrune\<close> that no column is. The locale \<open>rewriting\<close> is the contract of a rewriting pass over expressions; it is interpreted on column resolution and on the rewriting over an aggregate.
  \<^item> \<open>Compile\<close>, \<open>Physical\<close> (\<^verbatim>\<open>planner/physical.go\<close>): SQL expressions to executor expressions and to predicates on zone maps, logical plans to operators.
  \<^item> \<open>FloatOrder\<close>, \<open>Pruning\<close>, \<open>PrunedScan\<close>: a row group that the zone predicate rejects holds no row on which the compiled predicate is TRUE, so that the planned scan may skip it. \<open>FloatOrder\<close> ties the order on
    floats to that on the values they stand for.

  \<^bold>\<open>Parameters.\<close> There are none: the standard library's functions that the code calls (\<^verbatim>\<open>strconv\<close>, \<^verbatim>\<open>time.ParseInLocation\<close>, \<^verbatim>\<open>sort.SliceStable\<close>, \<^verbatim>\<open>hash/crc32\<close>) are definitions.

  \<^bold>\<open>Not modelled.\<close> Contexts and cancellation, \<^verbatim>\<open>Reset\<close> and \<^verbatim>\<open>Close\<close> of operators (resource management), file handles, write errors and the pools of read buffers, the command-line tools and the catalog's configuration file (I/O), the choice between serial and parallel plans and the
    operator over a parallel probe (\<^verbatim>\<open>planner/parallel.go\<close>, \<^verbatim>\<open>parallel_join.go\<close>, the rest of \<^verbatim>\<open>exec/parallel_join.go\<close>), the reference evaluator of the golden tests (test support).
\<close>

end
